(* ===== verification/Prelude.thy ===== *)
theory Prelude
  imports Main "HOL-Library.Word" "HOL-Library.Multiset"
begin

text \<open>
  Shared vocabulary of the development.

  \<^item> The C++ exceptions the modelled code throws (\<open>error\<close>) and the sum type \<open>'a result\<close>
    that every throwing function returns.
  \<^item> The bounds of the fixed-width integers. Unsigned quantities are natural numbers; where the
    source can wrap at 32 or 64 bits and no guard of the code rules it out, the wrap-around is
    written out with \<open>u32\<close> / \<open>u64\<close> (or the value is an actual word, as the packed control word
    of the repository is).
  \<^item> A stable insertion sort over an arbitrary strict order, standing for \<open>std::sort\<close> and
    \<open>std::stable_sort\<close> (and, with \<open>take\<close>, for \<open>std::nth_element\<close> followed by \<open>resize\<close>).
  \<^item> List lemmas the components share.
\<close>

section \<open>Errors and results\<close>

datatype error =
    InvalidArgument   \<comment> \<open>\<open>std::invalid_argument\<close>\<close>
  | LogicError        \<comment> \<open>\<open>std::logic_error\<close>\<close>
  | RuntimeError      \<comment> \<open>\<open>std::runtime_error\<close>\<close>
  | OverflowError     \<comment> \<open>\<open>std::overflow_error\<close>\<close>
  | OutOfRange        \<comment> \<open>\<open>std::out_of_range\<close>\<close>

type_synonym 'a result = "error + 'a"

text \<open>
  A function that changes a state and may throw returns the state it leaves behind with the result:
  an exception does not undo what was done before it. \<open>then_do\<close> is the semicolon.
\<close>

definition then_do :: "'s \<times> 'a result \<Rightarrow> ('s \<Rightarrow> 'a \<Rightarrow> 's \<times> 'b result) \<Rightarrow> 's \<times> 'b result" where
  "then_do m k = (case m of (s, Inl e) \<Rightarrow> (s, Inl e) | (s, Inr a) \<Rightarrow> k s a)"

lemma then_do_simps [simp]:
  "then_do (s, Inl e) k = (s, Inl e)" "then_do (s, Inr a) k = k s a"
  by (simp_all add: then_do_def)

lemma then_do_Inr:
  "then_do m k = (s', Inr b) \<longleftrightarrow> (\<exists>s a. m = (s, Inr a) \<and> k s a = (s', Inr b))"
  by (auto simp: then_do_def split: prod.splits sum.splits)

text \<open>\<open>kv_simps\<close> collects the equations that proofs about several components unfold together.\<close>

named_theorems kv_simps
named_theorems kv_intros

section \<open>Fixed-width integers\<close>

definition UINT32_MAX :: nat where "UINT32_MAX = 4294967295"
definition INT32_MAX :: nat where "INT32_MAX = 2147483647"
definition UINT64_MAX :: nat where "UINT64_MAX = 18446744073709551615"

definition u32 :: "nat \<Rightarrow> nat" where "u32 n = n mod 4294967296"
definition u64 :: "nat \<Rightarrow> nat" where "u64 n = n mod 18446744073709551616"

lemma u32_id [simp]: "n \<le> UINT32_MAX \<Longrightarrow> u32 n = n"
  by (simp add: u32_def UINT32_MAX_def)

lemma u64_id [simp]: "n \<le> UINT64_MAX \<Longrightarrow> u64 n = n"
  by (simp add: u64_def UINT64_MAX_def)

lemma u32_le: "u32 n \<le> UINT32_MAX"
proof -
  have "n mod 4294967296 < 4294967296" by simp
  then show ?thesis unfolding u32_def UINT32_MAX_def by linarith
qed

lemma u64_le: "u64 n \<le> UINT64_MAX"
proof -
  have "n mod 18446744073709551616 < 18446744073709551616" by simp
  then show ?thesis unfolding u64_def UINT64_MAX_def by linarith
qed

lemma int32_le_uint32: "INT32_MAX \<le> UINT32_MAX"
  by (simp add: INT32_MAX_def UINT32_MAX_def)

lemma uint32_le_uint64: "UINT32_MAX \<le> UINT64_MAX"
  by (simp add: UINT32_MAX_def UINT64_MAX_def)

definition ceil_div :: "nat \<Rightarrow> nat \<Rightarrow> nat" where
  "ceil_div v d = (v + d - 1) div d"

lemma ceil_div_0 [simp]: "0 < d \<Longrightarrow> ceil_div 0 d = 0"
  by (simp add: ceil_div_def)

lemma ceil_div_bounds:
  assumes "0 < d"
  shows "v \<le> ceil_div v d * d" and "0 < v \<Longrightarrow> ceil_div v d * d < v + d"
proof -
  have e: "ceil_div v d * d + (v + d - 1) mod d = v + d - 1"
    unfolding ceil_div_def by (rule div_mult_mod_eq)
  have "(v + d - 1) mod d < d" using assms by simp
  then have m: "(v + d - 1) mod d \<le> d - 1" by simp
  from e m assms show "v \<le> ceil_div v d * d" by linarith
  from e assms show "0 < v \<Longrightarrow> ceil_div v d * d < v + d" by linarith
qed

lemma ceil_div_le_self: "0 < d \<Longrightarrow> ceil_div v d \<le> v"
proof (cases "v = 0")
  case False
  assume d: "0 < d"
  have "ceil_div v d * d < v + d" using ceil_div_bounds(2) d False by simp
  moreover have "v \<le> v * d" using d by simp
  moreover have "(v + 1) * d = v * d + d" by simp
  ultimately have "ceil_div v d * d < (v + 1) * d" by linarith
  then have "ceil_div v d < v + 1" using d mult_less_cancel2 by blast
  then show ?thesis by simp
qed simp

lemma ceil_div_pos: "0 < x \<Longrightarrow> 0 < d \<Longrightarrow> ceil_div x d = (x - 1) div d + 1"
proof -
  assume a: "0 < x" "0 < d"
  then have "x + d - 1 = (x - 1) + d" by simp
  then show ?thesis unfolding ceil_div_def using a(2) by (simp only: div_add_self2)
qed

lemma ceil_div_diff:
  assumes "0 < (d::nat)"
  shows "ceil_div (x - c * d) d = ceil_div x d - c"
proof (cases "c * d < x")
  case True
  then have "(x - 1) = (x - c * d - 1) + c * d" by simp
  then have "(x - 1) div d = (x - c * d - 1) div d + c" using assms by (simp only: div_mult_self1 not_gr0)
  then show ?thesis using True assms by (simp add: ceil_div_pos)
next
  case False
  then have "x + d - 1 < (c + 1) * d" using assms by (simp add: distrib_right)
  then have "ceil_div x d < c + 1" using assms by (simp only: ceil_div_def div_less_iff_less_mult)
  then show ?thesis using False assms by (simp add: ceil_div_def)
qed

section \<open>Sorting by a strict order\<close>

fun insert_by :: "('a \<Rightarrow> 'a \<Rightarrow> bool) \<Rightarrow> 'a \<Rightarrow> 'a list \<Rightarrow> 'a list" where
  "insert_by lt x [] = [x]"
| "insert_by lt x (y # ys) = (if lt y x then y # insert_by lt x ys else x # y # ys)"

fun sort_by :: "('a \<Rightarrow> 'a \<Rightarrow> bool) \<Rightarrow> 'a list \<Rightarrow> 'a list" where
  "sort_by lt [] = []"
| "sort_by lt (x # xs) = insert_by lt x (sort_by lt xs)"

lemma mset_insert_by [simp]: "mset (insert_by lt x xs) = {#x#} + mset xs"
  by (induction xs) auto

lemma mset_sort_by [simp]: "mset (sort_by lt xs) = mset xs"
  by (induction xs) auto

lemma set_sort_by [simp]: "set (sort_by lt xs) = set xs"
  by (metis mset_sort_by set_mset_mset)

lemma length_sort_by [simp]: "length (sort_by lt xs) = length xs"
  by (metis mset_sort_by size_mset)

lemma distinct_sort_by [simp]: "distinct (sort_by lt xs) = distinct xs"
  by (metis mset_sort_by mset_eq_imp_distinct_iff)

text \<open>What \<open>std::sort\<close> asks of its comparator: a strict weak order.\<close>

definition strict_weak :: "('a \<Rightarrow> 'a \<Rightarrow> bool) \<Rightarrow> bool" where
  "strict_weak lt \<longleftrightarrow> (\<forall>a b. lt a b \<longrightarrow> \<not> lt b a) \<and>
     (\<forall>a b c. \<not> lt a b \<longrightarrow> \<not> lt b c \<longrightarrow> \<not> lt a c)"

lemma set_insert_by [simp]: "set (insert_by lt x xs) = insert x (set xs)"
  by (induction xs) auto

lemma strict_weak_asym: "strict_weak lt \<Longrightarrow> lt a b \<Longrightarrow> \<not> lt b a"
  unfolding strict_weak_def by blast

lemma strict_weak_trans: "strict_weak lt \<Longrightarrow> \<not> lt a b \<Longrightarrow> \<not> lt b c \<Longrightarrow> \<not> lt a c"
  unfolding strict_weak_def by blast

lemma sorted_insert_by:
  assumes lt: "strict_weak lt" and "sorted_wrt (\<lambda>a b. \<not> lt b a) xs"
  shows "sorted_wrt (\<lambda>a b. \<not> lt b a) (insert_by lt x xs)"
  using assms(2)
proof (induction xs)
  case (Cons y ys)
  have ys: "\<And>z. z \<in> set ys \<Longrightarrow> \<not> lt z y" and s: "sorted_wrt (\<lambda>a b. \<not> lt b a) ys"
    using Cons.prems by simp_all
  show ?case
  proof (cases "lt y x")
    case True
    then have "\<not> lt x y" by (rule strict_weak_asym [OF lt])
    with True ys Cons.IH [OF s] show ?thesis by simp
  next
    case False
    have "\<not> lt z x" if "z \<in> set ys" for z
      using ys [OF that] False by (rule strict_weak_trans [OF lt])
    with False Cons.prems show ?thesis by simp
  qed
qed simp

lemma sorted_sort_by:
  "strict_weak lt \<Longrightarrow> sorted_wrt (\<lambda>a b. \<not> lt b a) (sort_by lt xs)"
  by (induction xs) (auto intro: sorted_insert_by)

section \<open>Lists\<close>

lemma nth_list_update_if:
  "i < length xs \<Longrightarrow> xs[i := v] ! j = (if i = j then v else xs ! j)"
  by simp

lemma sum_list_update_nat:
  fixes f :: "'a \<Rightarrow> nat"
  assumes "i < length xs"
  shows "sum_list (map f (xs[i := v])) + f (xs ! i) = sum_list (map f xs) + f v"
  using assms
proof (induction xs arbitrary: i)
  case (Cons x xs)
  show ?case
  proof (cases i)
    case (Suc j)
    then have "j < length xs" using Cons.prems by simp
    from Cons.IH [OF this] Suc show ?thesis by simp
  qed simp
qed simp

lemma card_filter_update:
  assumes "i < length xs"
  shows "length (filter P (xs[i := v])) + (if P (xs ! i) then 1 else 0) =
    length (filter P xs) + (if P v then 1 else 0)"
  using assms
proof (induction xs arbitrary: i)
  case (Cons x xs)
  show ?case
  proof (cases i)
    case (Suc j)
    then have "j < length xs" using Cons.prems by simp
    from Cons.IH [OF this] Suc show ?thesis by simp
  qed simp
qed simp

lemma filter_upt_complete:
  assumes "distinct xs" and "set xs = {i. i < n \<and> P i}"
  shows "length xs = length (filter P [0..<n])"
proof -
  have "set xs = set (filter P [0..<n])" using assms(2) by auto
  moreover have "distinct (filter P [0..<n])" by simp
  ultimately show ?thesis using assms(1) by (metis distinct_card)
qed

end
