(* ===== verification/Ready_Ring.thy ===== *)
theory Ready_Ring
  imports Prelude
begin

text \<open>
  The single-producer / single-consumer ring of free slot numbers inside
  \<open>KvMemRepository::Shared\<close> (\<open>src/src/kvmem_repository.cpp\<close>, members \<open>ready\<close>, \<open>head\<close>, \<open>tail\<close> and the
  functions \<open>next\<close>, \<open>pop\<close>, \<open>push\<close>, and \<open>ready_slots\<close>). The ring has one cell more than the
  capacity, so that a full ring and an empty ring differ. The locale \<open>bounded_fifo\<close> states what
  the repository relies on; the ring is its instance.
\<close>

section \<open>The ring\<close>

record ring =
  rg_capacity :: nat          \<comment> \<open>\<open>config.capacity\<close>; the buffer has one cell more\<close>
  rg_ready :: "nat list"
  rg_head :: nat
  rg_tail :: nat

definition ring_init :: "nat \<Rightarrow> ring" where
  "ring_init c = \<lparr>rg_capacity = c, rg_ready = [0..<c] @ [0], rg_head = 0, rg_tail = c\<rparr>"

definition ring_next :: "ring \<Rightarrow> nat \<Rightarrow> nat" where
  "ring_next q i = (if i = rg_capacity q then 0 else i + 1)"

definition ring_pop :: "ring \<Rightarrow> (ring \<times> nat) option" where
  "ring_pop q = (if rg_head q = rg_tail q then None
     else Some (q\<lparr>rg_head := ring_next q (rg_head q)\<rparr>, rg_ready q ! rg_head q))"

definition ring_push :: "ring \<Rightarrow> nat \<Rightarrow> ring result" where
  "ring_push q s = (let t = rg_tail q; n = ring_next q t in
     if n = rg_head q then Inl LogicError
     else Inr (q\<lparr>rg_ready := (rg_ready q)[t := s], rg_tail := n\<rparr>))"

definition ring_size :: "ring \<Rightarrow> nat" where
  "ring_size q = (let h = rg_head q; t = rg_tail q in
     if h \<le> t then t - h else (rg_capacity q - h) + t + 1)"

text \<open>Well-formedness, and the queue contents the ring stands for.\<close>

definition ring_ok :: "ring \<Rightarrow> bool" where
  "ring_ok q \<longleftrightarrow> length (rg_ready q) = rg_capacity q + 1 \<and>
     rg_head q \<le> rg_capacity q \<and> rg_tail q \<le> rg_capacity q"

definition ring_list :: "ring \<Rightarrow> nat list" where
  "ring_list q = (let h = rg_head q; t = rg_tail q in
     if h \<le> t then take (t - h) (drop h (rg_ready q))
     else drop h (rg_ready q) @ take t (rg_ready q))"

lemma ring_ok_init: "ring_ok (ring_init c)"
  by (simp add: ring_ok_def ring_init_def)

lemma ring_list_init [simp]: "ring_list (ring_init c) = [0..<c]"
  by (simp add: ring_list_def ring_init_def)

lemma ring_size_list: "ring_ok q \<Longrightarrow> ring_size q = length (ring_list q)"
  by (auto simp: ring_size_def ring_list_def ring_ok_def Let_def)

lemma ring_pop_ok: "ring_ok q \<Longrightarrow> ring_pop q = Some (q', s) \<Longrightarrow> ring_ok q'"
  by (auto simp: ring_pop_def ring_ok_def ring_next_def split: if_splits)

lemma ring_push_ok: "ring_ok q \<Longrightarrow> ring_push q s = Inr q' \<Longrightarrow> ring_ok q'"
  by (auto simp: ring_push_def ring_ok_def ring_next_def Let_def split: if_splits)

lemma ring_pop_None: "ring_ok q \<Longrightarrow> ring_pop q = None \<longleftrightarrow> ring_list q = []"
  by (auto simp: ring_pop_def ring_list_def ring_ok_def Let_def)

lemma ring_pop_list:
  assumes "ring_ok q" and "ring_pop q = Some (q', s)"
  shows "ring_list q = s # ring_list q'"
proof -
  let ?b = "rg_ready q" and ?h = "rg_head q" and ?t = "rg_tail q" and ?c = "rg_capacity q"
  have ne: "?h \<noteq> ?t" and s: "s = ?b ! ?h" and q': "q' = q\<lparr>rg_head := ring_next q ?h\<rparr>"
    using assms(2) by (auto simp: ring_pop_def split: if_splits)
  have b: "length ?b = ?c + 1" "?h \<le> ?c" "?t \<le> ?c" using assms(1) by (auto simp: ring_ok_def)
  have dr: "drop ?h ?b = ?b ! ?h # drop (Suc ?h) ?b" using b by (simp add: Cons_nth_drop_Suc)
  show ?thesis
  proof (cases "?h < ?t")
    case True
    then have "take (?t - ?h) (drop ?h ?b) = ?b ! ?h # take (?t - Suc ?h) (drop (Suc ?h) ?b)"
      by (simp add: dr take_Cons' Suc_diff_Suc flip: Suc_diff_Suc)
    then show ?thesis using True b s q' by (auto simp: ring_list_def ring_next_def Let_def)
  next
    case False
    then have "?t < ?h" using ne by simp
    then show ?thesis using b s q' dr by (auto simp: ring_list_def ring_next_def Let_def)
  qed
qed

lemma ring_push_list:
  assumes "ring_ok q" and "ring_push q s = Inr q'"
  shows "ring_list q' = ring_list q @ [s]"
proof -
  let ?b = "rg_ready q" and ?h = "rg_head q" and ?t = "rg_tail q" and ?c = "rg_capacity q"
  have ne: "ring_next q ?t \<noteq> ?h" and
    q': "q' = q\<lparr>rg_ready := ?b[?t := s], rg_tail := ring_next q ?t\<rparr>"
    using assms(2) by (auto simp: ring_push_def Let_def split: if_splits)
  have b: "length ?b = ?c + 1" "?h \<le> ?c" "?t \<le> ?c" using assms(1) by (auto simp: ring_ok_def)
  have tk: "take (Suc ?t) (?b[?t := s]) = take ?t ?b @ [s]"
    using b by (simp add: take_Suc_conv_app_nth)
  show ?thesis
  proof (cases "?h \<le> ?t")
    case True
    then have "drop ?h (?b[?t := s]) = (drop ?h ?b)[?t - ?h := s]" by (simp add: drop_update_swap)
    moreover have "take (Suc (?t - ?h)) ((drop ?h ?b)[?t - ?h := s]) = take (?t - ?h) (drop ?h ?b) @ [s]"
      using b True by (simp add: take_Suc_conv_app_nth)
    ultimately have d: "take (Suc ?t - ?h) (drop ?h (?b[?t := s])) = take (?t - ?h) (drop ?h ?b) @ [s]"
      using True by (simp add: Suc_diff_le)
    show ?thesis
    proof (cases "?t = ?c")
      case e: True
      then have "?h \<noteq> 0" using ne by (simp add: ring_next_def)
      moreover have "length (drop ?h (?b[?t := s])) = Suc ?t - ?h" using b e by simp
      ultimately show ?thesis using d True e q' by (simp add: ring_list_def ring_next_def Let_def)
    next
      case False
      then show ?thesis using d True q' by (simp add: ring_list_def ring_next_def Let_def)
    qed
  next
    case False
    then show ?thesis using ne q' b tk by (simp add: ring_list_def ring_next_def Let_def)
  qed
qed

lemma ring_push_full: "ring_ok q \<Longrightarrow> ring_push q s = Inl e \<Longrightarrow> ring_size q = rg_capacity q"
  by (auto simp: ring_push_def ring_ok_def ring_next_def ring_size_def Let_def split: if_splits)

lemma ring_capacity_pop: "ring_pop q = Some (q', s) \<Longrightarrow> rg_capacity q' = rg_capacity q"
  by (auto simp: ring_pop_def split: if_splits)

lemma ring_capacity_push: "ring_push q s = Inr q' \<Longrightarrow> rg_capacity q' = rg_capacity q"
  by (auto simp: ring_push_def Let_def split: if_splits)

section \<open>The interface the repository uses\<close>

locale bounded_fifo =
  fixes inv :: "'q \<Rightarrow> bool"
    and cap :: "'q \<Rightarrow> nat"
    and elems :: "'q \<Rightarrow> 'a list"
    and pop :: "'q \<Rightarrow> ('q \<times> 'a) option"
    and push :: "'q \<Rightarrow> 'a \<Rightarrow> 'q result"
  assumes pop_empty: "inv q \<Longrightarrow> pop q = None \<longleftrightarrow> elems q = []"
    and pop_elems: "inv q \<Longrightarrow> pop q = Some (q', x) \<Longrightarrow> elems q = x # elems q'"
    and pop_inv: "inv q \<Longrightarrow> pop q = Some (q', x) \<Longrightarrow> inv q'"
    and pop_cap: "pop q = Some (q', x) \<Longrightarrow> cap q' = cap q"
    and push_elems: "inv q \<Longrightarrow> push q x = Inr q' \<Longrightarrow> elems q' = elems q @ [x]"
    and push_inv: "inv q \<Longrightarrow> push q x = Inr q' \<Longrightarrow> inv q'"
    and push_cap: "push q x = Inr q' \<Longrightarrow> cap q' = cap q"
    and push_full: "inv q \<Longrightarrow> push q x = Inl e \<Longrightarrow> length (elems q) = cap q"
begin

lemma push_room:
  assumes "inv q" and "length (elems q) < cap q"
  obtains q' where "push q x = Inr q'" and "inv q'" and "elems q' = elems q @ [x]"
proof (cases "push q x")
  case (Inl e)
  then show ?thesis using push_full assms by fastforce
next
  case (Inr q')
  then show ?thesis using that push_elems push_inv assms(1) by blast
qed

text \<open>
  A queue of distinct numbers below its capacity always has room for a number it does not
  hold: the pigeonhole argument behind "ready queue overflow is impossible".
\<close>

lemma absent_room:
  assumes "inv q" and "distinct (map f (elems q))" and "f ` set (elems q) \<subseteq> {..<cap q}"
    and "f x < cap q" and "f x \<notin> f ` set (elems q)"
  shows "length (elems q) < cap q"
proof -
  have "f ` set (elems q) \<subset> {..<cap q}" using assms(3-5) by auto
  then have "card (f ` set (elems q)) < card {..<cap q}" by (intro psubset_card_mono) auto
  moreover have "card (f ` set (elems q)) = length (elems q)"
    using assms(2) by (metis distinct_card length_map list.set_map)
  ultimately show ?thesis by simp
qed

lemma pop_distinct:
  "inv q \<Longrightarrow> pop q = Some (q', x) \<Longrightarrow> distinct (elems q) \<Longrightarrow>
    distinct (elems q') \<and> x \<notin> set (elems q') \<and> set (elems q) = insert x (set (elems q'))"
  using pop_elems by fastforce

end

interpretation fifo: bounded_fifo ring_ok rg_capacity ring_list ring_pop ring_push
  by unfold_locales
    (auto simp: ring_pop_None ring_pop_list ring_push_list ring_size_list[symmetric]
      intro: ring_pop_ok ring_push_ok ring_push_full ring_capacity_pop ring_capacity_push)

end
