(* ===== verification/Repository.thy ===== *)
theory Repository
  imports Ready_Ring
begin

text \<open>
  \<open>KvMemRepository\<close> (\<open>src/include/qw3/kvmem_repository.hpp\<close>, \<open>src/src/kvmem_repository.cpp\<close>): a
  fixed set of physical slots that are reserved, published, pinned by leases, retired and
  reclaimed. Each slot has one 64-bit atomic control word that packs a phase (4 bits) and a lease
  count (60 bits); every transition is one compare-and-swap on that word.

  The first part models the word and every member function as a state transformer (a C++ CAS loop
  is its last, successful iteration). The second part is the interleaving semantics: a world is the
  repository together with the lease and reservation objects alive outside it, and one step is one
  atomic action of some thread. Its invariant ties the packed counts to the live objects.
\<close>

unbundle bit_operations_syntax

section \<open>The packed control word\<close>

datatype Phase = Free | Writing | Live | Retired | Releasing | Cancelled

fun phase_code :: "Phase \<Rightarrow> 64 word" where
  "phase_code Free = 0"
| "phase_code Writing = 1"
| "phase_code Live = 2"
| "phase_code Retired = 3"
| "phase_code Releasing = 4"
| "phase_code Cancelled = 5"

definition phase_shift :: nat where "phase_shift = 60"

definition ref_mask :: "64 word" where "ref_mask = push_bit phase_shift 1 - 1"

definition state :: "Phase \<Rightarrow> 64 word \<Rightarrow> 64 word" where
  "state p r = push_bit phase_shift (phase_code p) OR r"

text \<open>\<open>Phase(v >> phase_shift)\<close>: the bits need not name an enumerator, then the phase is \<open>None\<close>.\<close>

definition phase :: "64 word \<Rightarrow> Phase option" where
  "phase v = (let c = drop_bit phase_shift v in
     if c = 0 then Some Free else if c = 1 then Some Writing else if c = 2 then Some Live
     else if c = 3 then Some Retired else if c = 4 then Some Releasing
     else if c = 5 then Some Cancelled else None)"

definition refs :: "64 word \<Rightarrow> 64 word" where "refs v = v AND ref_mask"

text \<open>
  \<open>acquire\<close>: a fresh reader needs the phase \<open>Live\<close>; an existing lease may be cloned in any phase in
  which leases exist. \<open>None\<close> is the C++ \<open>false\<close>, \<open>Some v\<close> the word the CAS installs.
\<close>

definition acquire :: "bool \<Rightarrow> 64 word \<Rightarrow> 64 word option" where
  "acquire existing prior =
     (if existing then
        (if refs prior = 0 \<or> phase prior = Some Free \<or> phase prior = Some Releasing then None
         else if refs prior = ref_mask then None else Some (prior + 1))
      else
        (if phase prior \<noteq> Some Live then None
         else if refs prior = ref_mask then None else Some (prior + 1)))"

text \<open>The count as a natural number, and how the word's arithmetic acts on the two fields.\<close>

definition nrefs :: "64 word \<Rightarrow> nat" where "nrefs v = unat (refs v)"

lemma ref_mask_mask: "ref_mask = mask 60"
  by (simp add: ref_mask_def phase_shift_def mask_eq_exp_minus_1 push_bit_eq_mult)

lemma unat_ref_mask: "unat ref_mask = 2 ^ 60 - 1"
  by (simp add: ref_mask_def phase_shift_def)

lemma nrefs_mod: "nrefs v = unat v mod 2 ^ 60"
proof -
  have "refs v = take_bit 60 v" by (simp add: refs_def ref_mask_mask take_bit_eq_mask)
  then have "nrefs v = take_bit 60 (unat v)" by (simp only: nrefs_def unsigned_take_bit_eq)
  then show ?thesis by (simp only: take_bit_eq_mod)
qed

lemma nrefs_less: "nrefs v < 2 ^ 60"
  by (simp add: nrefs_mod)

lemma phase_bits: "unat (drop_bit phase_shift v) = unat v div 2 ^ 60"
  unfolding phase_shift_def unat_drop_bit_eq by (rule drop_bit_eq_div)

lemma refs_eq_iff: "refs v = w \<longleftrightarrow> nrefs v = unat w"
  unfolding nrefs_def by (rule word_unat_eq_iff)

lemma phase_cong: "unat v div 2 ^ 60 = unat w div 2 ^ 60 \<Longrightarrow> phase v = phase w"
proof -
  assume "unat v div 2 ^ 60 = unat w div 2 ^ 60"
  then have "drop_bit phase_shift v = drop_bit phase_shift w"
    using phase_bits by (metis unsigned_word_eqI)
  then show ?thesis by (simp add: phase_def)
qed

lemma word64_bound: "unat (v :: 64 word) < 2 ^ 64"
  using unsigned_less [of v] by simp

lemma div_mod_succ:
  fixes n m :: nat
  assumes "n mod m \<noteq> m - 1" and "0 < m"
  shows "(n + 1) div m = n div m" and "(n + 1) mod m = n mod m + 1"
proof -
  have "n mod m + 1 < m" using assms mod_less_divisor [of m n] by linarith
  moreover have "n + 1 = m * (n div m) + (n mod m + 1)" by simp
  ultimately show "(n + 1) div m = n div m" and "(n + 1) mod m = n mod m + 1"
    by (metis div_less div_mult_self4 add_0_right less_nat_zero_code mod_mult_self4 mod_less)+
qed

lemma acquire_word:
  assumes "refs v \<noteq> ref_mask"
  shows "phase (v + 1) = phase v" and "nrefs (v + 1) = nrefs v + 1"
proof -
  have m: "unat v mod 2 ^ 60 \<noteq> 2 ^ 60 - 1"
    using assms unat_ref_mask by (simp add: refs_eq_iff nrefs_mod)
  have "unat v \<noteq> 2 ^ 64 - 1"
  proof
    assume "unat v = 2 ^ 64 - 1"
    then have "unat v mod 2 ^ 60 = 2 ^ 60 - 1" by simp
    then show False using m by simp
  qed
  then have "unat v + 1 < 2 ^ 64" using word64_bound [of v] by simp
  then have u: "unat (v + 1) = unat v + 1" by (simp add: unat_word_ariths)
  show "phase (v + 1) = phase v"
    by (rule phase_cong) (use div_mod_succ(1) [OF m] u in simp)
  show "nrefs (v + 1) = nrefs v + 1"
    using div_mod_succ(2) [OF m] u by (simp add: nrefs_mod)
qed

lemma release_word:
  assumes "nrefs v \<noteq> 0"
  shows "phase (v - 1) = phase v" and "nrefs (v - 1) + 1 = nrefs v"
proof -
  have r: "refs (v - 1) \<noteq> ref_mask"
  proof
    assume "refs (v - 1) = ref_mask"
    then have e: "unat (v - 1) mod 2 ^ 60 = 2 ^ 60 - 1"
      using unat_ref_mask by (simp add: refs_eq_iff nrefs_mod)
    have "v \<noteq> 0" using assms by (auto simp: nrefs_mod)
    then have "unat v = unat (v - 1) + 1"
      using unat_minus_one [of v] by (simp add: word_neq_0_conv word_less_nat_alt)
    then have "unat v mod 2 ^ 60 = ((unat (v - 1)) mod 2 ^ 60 + 1) mod 2 ^ 60"
      by (simp add: mod_simps)
    then have "unat v mod 2 ^ 60 = 0" using e by simp
    then show False using assms by (simp add: nrefs_mod)
  qed
  show "phase (v - 1) = phase v" and "nrefs (v - 1) + 1 = nrefs v"
    using acquire_word [OF r] by simp_all
qed

lemma unat_state:
  assumes "unat r < 2 ^ 60"
  shows "unat (state p r) = unat (phase_code p) * 2 ^ 60 + unat r"
proof -
  have c: "unat (phase_code p) < 2 ^ 4" by (cases p) simp_all
  have d: "push_bit 60 (phase_code p) AND r = 0"
  proof (rule bit_eqI)
    fix n
    assume "possible_bit TYPE(64 word) n"
    have "\<not> bit r n" if "60 \<le> n"
    proof -
      have "take_bit 60 r = r"
        using assms by (simp add: word_unat_eq_iff unsigned_take_bit_eq take_bit_nat_eq_self)
      then show ?thesis using that by (metis bit_take_bit_iff not_le)
    qed
    then show "bit (push_bit 60 (phase_code p) AND r) n = bit 0 n"
      by (auto simp: bit_and_iff bit_push_bit_iff)
  qed
  have "state p r = push_bit 60 (phase_code p) + r"
    using d by (simp add: state_def phase_shift_def disjunctive_add_eq_or)
  moreover have "unat (push_bit 60 (phase_code p)) = unat (phase_code p) * 2 ^ 60"
    using c by (cases p) (simp_all add: push_bit_eq_mult)
  moreover have "unat (phase_code p) * 2 ^ 60 + unat r < 2 ^ 64" using c assms by simp
  ultimately show ?thesis by (simp add: unat_word_ariths)
qed

lemma phase_state:
  assumes "unat r < 2 ^ 60"
  shows "phase (state p r) = Some p" and "refs (state p r) = r" and "nrefs (state p r) = unat r"
proof -
  have u: "unat (state p r) = unat (phase_code p) * 2 ^ 60 + unat r" by (rule unat_state [OF assms])
  then have "unat (drop_bit phase_shift (state p r)) = unat (phase_code p)"
    using assms by (simp add: phase_bits)
  then have "drop_bit phase_shift (state p r) = phase_code p" by (simp add: word_unat_eq_iff)
  then show "phase (state p r) = Some p" by (cases p) (simp_all add: phase_def)
  show n: "nrefs (state p r) = unat r" using u assms by (simp add: nrefs_mod)
  then show "refs (state p r) = r" by (simp add: refs_eq_iff)
qed

lemma phase_state_refs:
  "phase (state p (refs v)) = Some p" "nrefs (state p (refs v)) = nrefs v"
proof -
  have "unat (refs v) < 2 ^ 60" using nrefs_less [of v] by (simp add: nrefs_def)
  from phase_state [OF this] show "phase (state p (refs v)) = Some p"
    and "nrefs (state p (refs v)) = nrefs v" by (simp_all add: nrefs_def)
qed

lemma phase_state_const [simp]:
  "phase (state p 0) = Some p" "phase (state p 1) = Some p"
  "nrefs (state p 0) = 0" "nrefs (state p 1) = 1"
  using phase_state [of 0 p] phase_state [of 1 p] by simp_all

lemma acquire_Some:
  "acquire b v = Some w \<Longrightarrow> w = v + 1 \<and> refs v \<noteq> ref_mask \<and> phase w = phase v \<and>
     nrefs w = nrefs v + 1 \<and> (if b then nrefs v \<noteq> 0 else phase v = Some Live)"
  using acquire_word [of v] refs_eq_iff [of v 0] by (auto simp: acquire_def split: if_splits)

section \<open>State\<close>

record handle =
  h_slot :: nat
  h_generation :: nat

definition no_handle :: handle where "no_handle = \<lparr>h_slot = UINT32_MAX, h_generation = 0\<rparr>"

record block_record =
  br_handle :: handle
  br_logical_id :: nat
  br_token_begin :: nat
  br_token_count :: nat

definition record_init :: block_record where
  "record_init = \<lparr>br_handle = no_handle, br_logical_id = 0, br_token_begin = 0, br_token_count = 0\<rparr>"

definition token_end :: "block_record \<Rightarrow> nat" where
  "token_end b = br_token_begin b + br_token_count b"

record slot =
  sl_control :: "64 word"
  sl_generation :: nat
  sl_record :: block_record

record repo =
  rp_id :: nat                \<comment> \<open>which \<open>Shared\<close> object this is\<close>
  rp_capacity :: nat
  rp_block_tokens :: nat
  rp_slots :: "slot list"
  rp_ring :: ring
  rp_reclaim_owner :: bool
  rp_sequence :: nat
  rp_reservations :: nat
  rp_reclaimed :: nat

text \<open>A lease names its \<open>Shared\<close> and the handle it pins; an empty \<open>Lease\<close> is \<open>None\<close>.\<close>

record lease =
  ls_shared :: nat
  ls_handle :: handle

definition slot_init :: slot where
  "slot_init = \<lparr>sl_control = state Free 0, sl_generation = 0, sl_record = record_init\<rparr>"

definition repo_new :: "nat \<Rightarrow> nat \<Rightarrow> nat \<Rightarrow> repo result" where
  "repo_new ident capacity block_tokens =
     (if capacity = 0 \<or> capacity = UINT32_MAX \<or> block_tokens = 0 then Inl InvalidArgument
      else Inr \<lparr>rp_id = ident, rp_capacity = capacity, rp_block_tokens = block_tokens,
        rp_slots = replicate capacity slot_init, rp_ring = ring_init capacity,
        rp_reclaim_owner = False, rp_sequence = 0, rp_reservations = 0, rp_reclaimed = 0\<rparr>)"

definition ready_slots :: "repo \<Rightarrow> nat" where "ready_slots r = ring_size (rp_ring r)"

definition control :: "repo \<Rightarrow> nat \<Rightarrow> 64 word" where
  "control r s = sl_control (rp_slots r ! s)"

definition set_control :: "repo \<Rightarrow> nat \<Rightarrow> 64 word \<Rightarrow> repo" where
  "set_control r s v = r\<lparr>rp_slots := (rp_slots r)[s := (rp_slots r ! s)\<lparr>sl_control := v\<rparr>]\<rparr>"

section \<open>Leases\<close>

definition lease_record :: "repo \<Rightarrow> handle \<Rightarrow> block_record" where
  "lease_record r h = sl_record (rp_slots r ! h_slot h)"

definition lease_reset :: "repo \<Rightarrow> handle \<Rightarrow> repo" where
  "lease_reset r h = set_control r (h_slot h) (control r (h_slot h) - 1)"

definition lease_clone :: "repo \<Rightarrow> handle \<Rightarrow> repo result" where
  "lease_clone r h = (case acquire True (control r (h_slot h)) of
       None \<Rightarrow> Inl OverflowError | Some v \<Rightarrow> Inr (set_control r (h_slot h) v))"

section \<open>Reservations\<close>

definition try_reserve :: "repo \<Rightarrow> nat \<Rightarrow> nat \<Rightarrow> (repo \<times> handle option) result" where
  "try_reserve r begin n =
     (if n = 0 \<or> rp_block_tokens r < n \<or> UINT64_MAX - n < begin
      then Inl InvalidArgument
      else if rp_sequence r = UINT64_MAX then Inl OverflowError
      else case ring_pop (rp_ring r) of
        None \<Rightarrow> Inr (r, None)
      | Some (q, s) \<Rightarrow>
          (let g = rp_sequence r + 1; h = \<lparr>h_slot = s, h_generation = g\<rparr>;
               e = \<lparr>sl_control = state Writing 1, sl_generation = g,
                    sl_record = \<lparr>br_handle = h, br_logical_id = g, br_token_begin = begin,
                                 br_token_count = n\<rparr>\<rparr>
           in Inr (r\<lparr>rp_ring := q, rp_slots := (rp_slots r)[s := e], rp_sequence := g,
                     rp_reservations := u64 (rp_reservations r + 1)\<rparr>, Some h)))"

text \<open>\<open>Reservation::commit\<close> moves the reservation's lease out; \<open>cancel\<close> also drops it.\<close>

definition reservation_commit :: "repo \<Rightarrow> handle \<Rightarrow> repo result" where
  "reservation_commit r h = (let v = control r (h_slot h) in
     if phase v \<noteq> Some Writing then Inl LogicError
     else Inr (set_control r (h_slot h) (state Live (refs v))))"

definition reservation_cancel :: "repo \<Rightarrow> handle \<Rightarrow> repo" where
  "reservation_cancel r h = (let v = control r (h_slot h) in
     lease_reset (if phase v = Some Writing
                  then set_control r (h_slot h) (state Cancelled (refs v)) else r) h)"

section \<open>Pinning\<close>

definition try_pin_slot :: "repo \<Rightarrow> nat \<Rightarrow> (repo \<times> handle) option" where
  "try_pin_slot r s =
     (if rp_capacity r \<le> s then None
      else case acquire False (control r s) of None \<Rightarrow> None
        | Some v \<Rightarrow> Some (set_control r s v, br_handle (sl_record (rp_slots r ! s))))"

definition try_pin :: "repo \<Rightarrow> handle \<Rightarrow> repo \<times> handle option" where
  "try_pin r h = (case try_pin_slot r (h_slot h) of None \<Rightarrow> (r, None)
     | Some (r', h') \<Rightarrow> if h' \<noteq> h then (lease_reset r' h', None) else (r', Some h'))"

section \<open>Retirement and rescue\<close>

text \<open>The compare-and-swap of \<open>retire\<close>, run while the caller holds a pin on the slot.\<close>

definition retire_cas :: "repo \<Rightarrow> nat \<Rightarrow> repo \<times> bool" where
  "retire_cas r s = (let v = control r s in
     if phase v \<noteq> Some Live then (r, False) else (set_control r s (state Retired (refs v)), True))"

definition retire :: "repo \<Rightarrow> handle \<Rightarrow> repo \<times> bool" where
  "retire r h = (case try_pin r h of (r', None) \<Rightarrow> (r', False)
     | (r', Some p) \<Rightarrow> (case retire_cas r' (h_slot h) of (r'', b) \<Rightarrow> (lease_reset r'' p, b)))"

definition rescue :: "repo \<Rightarrow> lease option \<Rightarrow> repo \<times> bool" where
  "rescue r l = (case l of None \<Rightarrow> (r, False) | Some l' \<Rightarrow>
     if ls_shared l' \<noteq> rp_id r then (r, False)
     else (let s = h_slot (ls_handle l'); v = control r s in
       if phase v = Some Live then (r, True)
       else if phase v \<noteq> Some Retired then (r, False)
       else (set_control r s (state Live (refs v)), True)))"

definition retire_if_only_reader :: "repo \<Rightarrow> lease option \<Rightarrow> repo \<times> bool" where
  "retire_if_only_reader r l = (case l of None \<Rightarrow> (r, False) | Some l' \<Rightarrow>
     if ls_shared l' \<noteq> rp_id r then (r, False)
     else (let s = h_slot (ls_handle l') in
       if control r s = state Live 1 then (set_control r s (state Retired 1), True)
       else (r, False)))"

definition retire_if_unpinned :: "repo \<Rightarrow> handle \<Rightarrow> repo \<times> bool" where
  "retire_if_unpinned r h = (case try_pin r h of
       (r', None) \<Rightarrow> retire_if_only_reader r' None
     | (r', Some p) \<Rightarrow>
         (case retire_if_only_reader r' (Some \<lparr>ls_shared = rp_id r, ls_handle = p\<rparr>) of
            (r'', b) \<Rightarrow> (lease_reset r'' p, b)))"

section \<open>Reclaim\<close>

datatype ReclaimResult =
    Reclaimed | DeferredReaders | DeferredRelease | NotRetired | StaleHandle | Busy

text \<open>
  \<open>try_reclaim\<close> up to the release callback: the owner flag is taken, the checks run and the CAS to
  \<open>Releasing\<close> is done. \<open>Inl\<close> is an early return (the \<open>Unlock\<close> guard has cleared the flag again),
  \<open>Inr\<close> leaves the callback to run with the flag held.
\<close>

definition reclaimable :: "Phase option \<Rightarrow> bool" where
  "reclaimable p \<longleftrightarrow> p = Some Retired \<or> p = Some Releasing \<or> p = Some Cancelled"

definition reclaim_begin :: "repo \<Rightarrow> handle \<Rightarrow> ReclaimResult + repo" where
  "reclaim_begin r h =
     (if rp_capacity r \<le> h_slot h \<or> h_generation h = 0 then Inl StaleHandle
      else if rp_reclaim_owner r then Inl Busy
      else (let v = control r (h_slot h) in
        if \<not> reclaimable (phase v) then Inl NotRetired
        else if sl_generation (rp_slots r ! h_slot h) \<noteq> h_generation h then Inl StaleHandle
        else if refs v \<noteq> 0 then Inl DeferredReaders
        else (let r' = (if phase v \<noteq> Some Releasing
                        then set_control r (h_slot h) (state Releasing 0) else r)
              in Inr (r'\<lparr>rp_reclaim_owner := True\<rparr>))))"

text \<open>After a successful callback: the slot becomes \<open>Free\<close> and returns to the ready queue.\<close>

definition reclaim_finish :: "repo \<Rightarrow> nat \<Rightarrow> repo result" where
  "reclaim_finish r s = (case ring_push (rp_ring r) s of
       Inl e \<Rightarrow> Inl e
     | Inr q \<Rightarrow> Inr ((set_control r s (state Free 0))\<lparr>rp_ring := q,
                    rp_reclaimed := u64 (rp_reclaimed r + 1), rp_reclaim_owner := False\<rparr>))"

text \<open>
  The whole call. \<open>release\<close> is the callback: \<open>None\<close> an empty \<open>std::function\<close>, otherwise its return
  value or the exception it throws; either way the slot stays \<open>Releasing\<close> unless it returns true.
\<close>

definition try_reclaim ::
  "repo \<Rightarrow> handle \<Rightarrow> (block_record \<Rightarrow> bool result) option \<Rightarrow> repo \<times> ReclaimResult result" where
  "try_reclaim r h release =
     (if rp_capacity r \<le> h_slot h \<or> h_generation h = 0 then (r, Inr StaleHandle)
      else case release of None \<Rightarrow> (r, Inl InvalidArgument)
      | Some f \<Rightarrow> (case reclaim_begin r h of
          Inl res \<Rightarrow> (r, Inr res)
        | Inr r1 \<Rightarrow> (case f (lease_record r1 h) of
            Inl e \<Rightarrow> (r1\<lparr>rp_reclaim_owner := False\<rparr>, Inl e)
          | Inr False \<Rightarrow> (r1\<lparr>rp_reclaim_owner := False\<rparr>, Inr DeferredRelease)
          | Inr True \<Rightarrow> (case reclaim_finish r1 (h_slot h) of
              Inl e \<Rightarrow> ((set_control r1 (h_slot h) (state Free 0))\<lparr>rp_reclaim_owner := False\<rparr>, Inl e)
            | Inr r2 \<Rightarrow> (r2, Inr Reclaimed)))))"

definition retired_at :: "repo \<Rightarrow> nat \<Rightarrow> handle" where
  "retired_at r s = (if rp_capacity r \<le> s then no_handle
     else if \<not> reclaimable (phase (control r s)) then no_handle
     else \<lparr>h_slot = s, h_generation = sl_generation (rp_slots r ! s)\<rparr>)"

record stats =
  st_capacity :: nat
  st_ready :: nat
  st_writing :: nat
  st_live :: nat
  st_retired :: nat
  st_releasing :: nat
  st_cancelled :: nat
  st_leases :: nat
  st_reservations :: nat
  st_reclaimed :: nat

definition count_phase :: "repo \<Rightarrow> Phase \<Rightarrow> nat" where
  "count_phase r p = length (filter (\<lambda>e. phase (sl_control e) = Some p) (rp_slots r))"

definition repo_stats :: "repo \<Rightarrow> stats" where
  "repo_stats r = \<lparr>st_capacity = rp_capacity r, st_ready = count_phase r Free,
     st_writing = count_phase r Writing, st_live = count_phase r Live,
     st_retired = count_phase r Retired, st_releasing = count_phase r Releasing,
     st_cancelled = count_phase r Cancelled,
     st_leases = u64 (sum_list (map (\<lambda>e. nrefs (sl_control e)) (rp_slots r))),
     st_reservations = rp_reservations r, st_reclaimed = rp_reclaimed r\<rparr>"

end
