(* ===== verification/Repository_World.thy ===== *)
theory Repository_World
  imports Repository
begin

text \<open>
  The interleaving semantics of \<open>KvMemRepository\<close> and its safety. A world is the repository with
  the lease and reservation objects alive outside it; a step is one atomic action of any thread, so
  the relation contains every interleaving the C++ program can show (each action is one successful
  compare-and-swap, or a ring operation of the single producer or the single consumer). The
  reclaimer's call is two steps: up to the release callback, and after it.
\<close>

section \<open>Worlds and steps\<close>

record world =
  w_repo :: repo
  w_leases :: "handle multiset"       \<comment> \<open>live \<open>Lease\<close> objects\<close>
  w_writers :: "handle multiset"      \<comment> \<open>live \<open>Reservation\<close> objects\<close>
  w_reclaiming :: "handle option"     \<comment> \<open>the handle whose release callback runs\<close>

abbreviation own_lease :: "world \<Rightarrow> handle \<Rightarrow> lease option" where
  "own_lease w h \<equiv> Some \<lparr>ls_shared = rp_id (w_repo w), ls_handle = h\<rparr>"

inductive wstep :: "world \<Rightarrow> world \<Rightarrow> bool" where
  reserve: "try_reserve (w_repo w) begin n = Inr (r', Some h) \<Longrightarrow>
     wstep w (w\<lparr>w_repo := r', w_writers := add_mset h (w_writers w)\<rparr>)"
| pin: "try_pin_slot (w_repo w) s = Some (r', h) \<Longrightarrow>
     wstep w (w\<lparr>w_repo := r', w_leases := add_mset h (w_leases w)\<rparr>)"
| clone: "h \<in># w_leases w + w_writers w \<Longrightarrow> lease_clone (w_repo w) h = Inr r' \<Longrightarrow>
     wstep w (w\<lparr>w_repo := r', w_leases := add_mset h (w_leases w)\<rparr>)"
| drop: "w_leases w = add_mset h ls \<Longrightarrow>
     wstep w (w\<lparr>w_repo := lease_reset (w_repo w) h, w_leases := ls\<rparr>)"
| commit: "w_writers w = add_mset h ws \<Longrightarrow> reservation_commit (w_repo w) h = Inr r' \<Longrightarrow>
     wstep w (w\<lparr>w_repo := r', w_leases := add_mset h (w_leases w), w_writers := ws\<rparr>)"
| cancel: "w_writers w = add_mset h ws \<Longrightarrow>
     wstep w (w\<lparr>w_repo := reservation_cancel (w_repo w) h, w_writers := ws\<rparr>)"
| retire: "h \<in># w_leases w \<Longrightarrow> retire_cas (w_repo w) (h_slot h) = (r', b) \<Longrightarrow>
     wstep w (w\<lparr>w_repo := r'\<rparr>)"
| rescue: "h \<in># w_leases w \<Longrightarrow> rescue (w_repo w) (own_lease w h) = (r', b) \<Longrightarrow>
     wstep w (w\<lparr>w_repo := r'\<rparr>)"
| retire_sole: "h \<in># w_leases w \<Longrightarrow> retire_if_only_reader (w_repo w) (own_lease w h) = (r', b) \<Longrightarrow>
     wstep w (w\<lparr>w_repo := r'\<rparr>)"
| reclaim_start: "reclaim_begin (w_repo w) h = Inr r' \<Longrightarrow>
     wstep w (w\<lparr>w_repo := r', w_reclaiming := Some h\<rparr>)"
| reclaim_defer: "w_reclaiming w = Some h \<Longrightarrow>
     wstep w (w\<lparr>w_repo := (w_repo w)\<lparr>rp_reclaim_owner := False\<rparr>, w_reclaiming := None\<rparr>)"
| reclaim_done: "w_reclaiming w = Some h \<Longrightarrow> reclaim_finish (w_repo w) (h_slot h) = Inr r' \<Longrightarrow>
     wstep w (w\<lparr>w_repo := r', w_reclaiming := None\<rparr>)"

definition world_new :: "repo \<Rightarrow> world" where
  "world_new r = \<lparr>w_repo = r, w_leases = {#}, w_writers = {#}, w_reclaiming = None\<rparr>"

inductive reachable :: "world \<Rightarrow> bool" where
  start: "repo_new i c t = Inr r \<Longrightarrow> reachable (world_new r)"
| step: "reachable w \<Longrightarrow> wstep w w' \<Longrightarrow> reachable w'"

section \<open>The invariant\<close>

definition on_slot :: "nat \<Rightarrow> handle multiset \<Rightarrow> nat" where
  "on_slot s m = size (filter_mset (\<lambda>h. h_slot h = s) m)"

lemma on_slot_simps [simp]:
  "on_slot s {#} = 0"
  "on_slot s (add_mset h m) = on_slot s m + (if h_slot h = s then 1 else 0)"
  "on_slot s (m + m') = on_slot s m + on_slot s m'"
  by (simp_all add: on_slot_def)

lemma on_slot_pos: "h \<in># m \<Longrightarrow> 0 < on_slot (h_slot h) m"
  by (auto simp: on_slot_def size_mset_mono nonempty_has_size[symmetric] filter_mset_eq_conv)

text \<open>
  \<open>slot_ok sq s e n w\<close>: slot \<open>s\<close> with content \<open>e\<close>, under \<open>n\<close> live leases of which \<open>w\<close> belong to a
  reservation; generations issued so far go up to \<open>sq\<close>.
\<close>

definition slot_ok :: "nat \<Rightarrow> nat \<Rightarrow> slot \<Rightarrow> nat \<Rightarrow> nat \<Rightarrow> bool" where
  "slot_ok sq s e n w \<longleftrightarrow>
     phase (sl_control e) \<noteq> None \<and> nrefs (sl_control e) = n \<and> sl_generation e \<le> sq \<and>
     (sl_generation e = 0 \<longrightarrow> phase (sl_control e) = Some Free) \<and>
     (sl_generation e \<noteq> 0 \<longrightarrow>
        br_handle (sl_record e) = \<lparr>h_slot = s, h_generation = sl_generation e\<rparr> \<and>
        br_logical_id (sl_record e) = sl_generation e) \<and>
     (phase (sl_control e) = Some Free \<or> phase (sl_control e) = Some Releasing \<longrightarrow> n = 0) \<and>
     w = (if phase (sl_control e) = Some Writing then 1 else 0)"

definition lease_ok :: "repo \<Rightarrow> handle \<Rightarrow> bool" where
  "lease_ok r h \<longleftrightarrow> h_slot h < rp_capacity r \<and> h_generation h \<noteq> 0 \<and>
     sl_generation (rp_slots r ! h_slot h) = h_generation h"

definition repo_ok :: "repo \<Rightarrow> bool" where
  "repo_ok r \<longleftrightarrow> length (rp_slots r) = rp_capacity r \<and> ring_ok (rp_ring r) \<and>
     rg_capacity (rp_ring r) = rp_capacity r \<and> distinct (ring_list (rp_ring r)) \<and>
     set (ring_list (rp_ring r)) =
       {s. s < rp_capacity r \<and> phase (control r s) = Some Free}"

definition gens_distinct :: "repo \<Rightarrow> bool" where
  "gens_distinct r \<longleftrightarrow> (\<forall>s < rp_capacity r. \<forall>t < rp_capacity r. s \<noteq> t \<longrightarrow>
     sl_generation (rp_slots r ! s) = sl_generation (rp_slots r ! t) \<longrightarrow>
     sl_generation (rp_slots r ! s) = 0)"

definition world_inv :: "world \<Rightarrow> bool" where
  "world_inv w \<longleftrightarrow> (let r = w_repo w in repo_ok r \<and> gens_distinct r \<and>
     (\<forall>s < rp_capacity r. slot_ok (rp_sequence r) s (rp_slots r ! s)
        (on_slot s (w_leases w + w_writers w)) (on_slot s (w_writers w))) \<and>
     (\<forall>h \<in># w_leases w + w_writers w. lease_ok r h) \<and>
     (case w_reclaiming w of None \<Rightarrow> \<not> rp_reclaim_owner r
      | Some h \<Rightarrow> rp_reclaim_owner r \<and> h_slot h < rp_capacity r \<and>
          phase (control r (h_slot h)) = Some Releasing))"

lemma world_invD:
  assumes "world_inv w"
  shows "repo_ok (w_repo w)" and "gens_distinct (w_repo w)"
    and "s < rp_capacity (w_repo w) \<Longrightarrow> slot_ok (rp_sequence (w_repo w)) s (rp_slots (w_repo w) ! s)
        (on_slot s (w_leases w + w_writers w)) (on_slot s (w_writers w))"
    and "h \<in># w_leases w + w_writers w \<Longrightarrow> lease_ok (w_repo w) h"
  using assms by (auto simp: world_inv_def Let_def)

text \<open>Facts about \<open>set_control\<close>.\<close>

lemma set_control_simps [simp]:
  "rp_capacity (set_control r s v) = rp_capacity r"
  "rp_ring (set_control r s v) = rp_ring r"
  "rp_sequence (set_control r s v) = rp_sequence r"
  "rp_reclaim_owner (set_control r s v) = rp_reclaim_owner r"
  "rp_id (set_control r s v) = rp_id r"
  "length (rp_slots (set_control r s v)) = length (rp_slots r)"
  by (simp_all add: set_control_def)

lemma control_set_control:
  "s < length (rp_slots r) \<Longrightarrow> control (set_control r s v) t = (if s = t then v else control r t)"
  by (simp add: control_def set_control_def)

lemma slot_set_control:
  "s < length (rp_slots r) \<Longrightarrow> rp_slots (set_control r s v) ! t =
     (if s = t then (rp_slots r ! s)\<lparr>sl_control := v\<rparr> else rp_slots r ! t)"
  by (simp add: set_control_def)

lemma gen_set_control [simp]:
  "s < length (rp_slots r) \<Longrightarrow>
     sl_generation (rp_slots (set_control r s v) ! t) = sl_generation (rp_slots r ! t)"
  by (simp add: slot_set_control)

lemma lease_ok_set_control [simp]:
  "s < length (rp_slots r) \<Longrightarrow> lease_ok (set_control r s v) h = lease_ok r h"
  by (simp add: lease_ok_def)

lemma gens_distinct_set_control [simp]:
  "s < length (rp_slots r) \<Longrightarrow> gens_distinct (set_control r s v) = gens_distinct r"
  by (simp add: gens_distinct_def)

text \<open>
  The one preservation lemma behind all steps that change a single control word: it is enough
  to re-establish the slot's own condition and to keep the phase away from \<open>Free\<close>.
\<close>

lemma world_inv_control:
  assumes inv: "world_inv w" and s: "s < rp_capacity (w_repo w)"
    and ok: "slot_ok (rp_sequence (w_repo w)) s ((rp_slots (w_repo w) ! s)\<lparr>sl_control := v\<rparr>)
       (on_slot s (ls + ws)) (on_slot s ws)"
    and others: "\<And>t. t \<noteq> s \<Longrightarrow> on_slot t ls = on_slot t (w_leases w) \<and> on_slot t ws = on_slot t (w_writers w)"
    and leases: "\<And>h. h \<in># ls + ws \<Longrightarrow> lease_ok (w_repo w) h"
    and free: "phase (control (w_repo w) s) \<noteq> Some Free" "phase v \<noteq> Some Free"
    and rel: "phase (control (w_repo w) s) = Some Releasing \<Longrightarrow> phase v = Some Releasing"
  shows "world_inv (w\<lparr>w_repo := set_control (w_repo w) s v, w_leases := ls, w_writers := ws\<rparr>)"
proof -
  let ?r = "w_repo w"
  have len: "length (rp_slots ?r) = rp_capacity ?r" and ring: "ring_ok (rp_ring ?r)"
    "rg_capacity (rp_ring ?r) = rp_capacity ?r" "distinct (ring_list (rp_ring ?r))"
    "set (ring_list (rp_ring ?r)) = {t. t < rp_capacity ?r \<and> phase (control ?r t) = Some Free}"
    using world_invD(1) [OF inv] by (auto simp: repo_ok_def)
  have "repo_ok (set_control ?r s v)"
    using len ring s free by (auto simp: repo_ok_def control_set_control)
  moreover have "slot_ok (rp_sequence ?r) t (rp_slots (set_control ?r s v) ! t)
      (on_slot t (ls + ws)) (on_slot t ws)" if "t < rp_capacity ?r" for t
  proof (cases "t = s")
    case True
    then show ?thesis using ok s len by (simp add: slot_set_control)
  next
    case False
    then show ?thesis using world_invD(3) [OF inv that] others [OF False] s len
      by (simp add: slot_set_control)
  qed
  ultimately show ?thesis using inv s len leases rel
    by (auto simp: world_inv_def Let_def control_set_control split: option.splits)
qed

section \<open>Every step keeps the invariant\<close>

lemma slot_ok_control:
  assumes "slot_ok sq s e n m" and "phase v = Some p" and "nrefs v = n'"
    and "phase (sl_control e) = Some p'" and "p' \<noteq> Free"
    and "p = Free \<or> p = Releasing \<Longrightarrow> n' = 0"
    and "m' = (if p = Writing then 1 else 0)"
  shows "slot_ok sq s (e\<lparr>sl_control := v\<rparr>) n' m'"
  using assms by (auto simp: slot_ok_def)

lemma slot_of_lease:
  assumes inv: "world_inv w" and h: "h \<in># w_leases w + w_writers w"
  shows "h_slot h < rp_capacity (w_repo w)"
    and "phase (control (w_repo w) (h_slot h)) \<notin> {None, Some Free, Some Releasing}"
    and "nrefs (control (w_repo w) (h_slot h)) = on_slot (h_slot h) (w_leases w + w_writers w)"
    and "0 < on_slot (h_slot h) (w_leases w + w_writers w)"
proof -
  show s: "h_slot h < rp_capacity (w_repo w)"
    using world_invD(4) [OF inv h] by (simp add: lease_ok_def)
  show pos: "0 < on_slot (h_slot h) (w_leases w + w_writers w)" by (rule on_slot_pos [OF h])
  note ok = world_invD(3) [OF inv s]
  show "phase (control (w_repo w) (h_slot h)) \<notin> {None, Some Free, Some Releasing}"
    using ok pos by (auto simp: slot_ok_def control_def)
  show "nrefs (control (w_repo w) (h_slot h)) = on_slot (h_slot h) (w_leases w + w_writers w)"
    using ok by (simp add: slot_ok_def control_def)
qed

lemma writer_phase:
  assumes inv: "world_inv w" and h: "h \<in># w_writers w"
  shows "phase (control (w_repo w) (h_slot h)) = Some Writing"
    and "on_slot (h_slot h) (w_writers w) = 1"
proof -
  have s: "h_slot h < rp_capacity (w_repo w)" using slot_of_lease(1) [OF inv, of h] h by simp
  have "0 < on_slot (h_slot h) (w_writers w)" by (rule on_slot_pos [OF h])
  then show "phase (control (w_repo w) (h_slot h)) = Some Writing"
    and "on_slot (h_slot h) (w_writers w) = 1"
    using world_invD(3) [OF inv s] by (auto simp: slot_ok_def control_def split: if_splits)
qed

text \<open>A step that rewrites the control word of a leased slot and changes no object.\<close>

lemma world_inv_rephase:
  assumes inv: "world_inv w" and h: "h \<in># w_leases w + w_writers w"
    and pq: "phase (control (w_repo w) (h_slot h)) = Some p'" "p' \<noteq> Writing"
    and v: "phase v = Some p" "nrefs v = nrefs (control (w_repo w) (h_slot h))"
    and p: "p \<notin> {Free, Releasing, Writing}"
  shows "world_inv (w\<lparr>w_repo := set_control (w_repo w) (h_slot h) v\<rparr>)"
proof -
  note l = slot_of_lease [OF inv h]
  have "slot_ok (rp_sequence (w_repo w)) (h_slot h) ((rp_slots (w_repo w) ! h_slot h)\<lparr>sl_control := v\<rparr>)
       (on_slot (h_slot h) (w_leases w + w_writers w)) (on_slot (h_slot h) (w_writers w))"
    using world_invD(3) [OF inv l(1)] l pq v p by (auto simp: slot_ok_def control_def)
  then have "world_inv (w\<lparr>w_repo := set_control (w_repo w) (h_slot h) v,
      w_leases := w_leases w, w_writers := w_writers w\<rparr>)"
    by (rule world_inv_control [OF inv l(1)]) (use world_invD(4) [OF inv] l v p in auto)
  then show ?thesis by simp
qed

text \<open>A step that takes one more lease on a slot in which leases may exist.\<close>

lemma world_inv_acquire:
  assumes inv: "world_inv w" and h: "lease_ok (w_repo w) h"
    and acq: "acquire b (control (w_repo w) (h_slot h)) = Some v"
    and pos: "b \<Longrightarrow> h \<in># w_leases w + w_writers w"
  shows "world_inv (w\<lparr>w_repo := set_control (w_repo w) (h_slot h) v,
    w_leases := add_mset h (w_leases w)\<rparr>)"
proof -
  have s: "h_slot h < rp_capacity (w_repo w)" using h by (simp add: lease_ok_def)
  note a = acquire_Some [OF acq]
  note ok = world_invD(3) [OF inv s]
  have ph: "phase (control (w_repo w) (h_slot h)) \<notin> {None, Some Free, Some Releasing}"
    using slot_of_lease(2) [OF inv pos] a by (cases b) auto
  have "slot_ok (rp_sequence (w_repo w)) (h_slot h) ((rp_slots (w_repo w) ! h_slot h)\<lparr>sl_control := v\<rparr>)
       (on_slot (h_slot h) (add_mset h (w_leases w) + w_writers w)) (on_slot (h_slot h) (w_writers w))"
    using ok a ph by (auto simp: slot_ok_def control_def)
  then have "world_inv (w\<lparr>w_repo := set_control (w_repo w) (h_slot h) v,
      w_leases := add_mset h (w_leases w), w_writers := w_writers w\<rparr>)"
    by (rule world_inv_control [OF inv s]) (use world_invD(4) [OF inv] h ph a in auto)
  then show ?thesis by simp
qed

text \<open>A step that drops a lease; \<open>ls\<close> and \<open>ws\<close> are the objects left.\<close>

lemma world_inv_release:
  assumes inv: "world_inv w" and rest: "w_leases w + w_writers w = add_mset h (ls + ws)"
    and subs: "ls \<subseteq># w_leases w" "ws \<subseteq># w_writers w"
    and v: "phase v = Some p" "nrefs v = nrefs (control (w_repo w) (h_slot h))"
    and p: "p \<notin> {Free, Releasing}" "on_slot (h_slot h) ws = (if p = Writing then 1 else 0)"
  shows "world_inv (w\<lparr>w_repo := set_control (w_repo w) (h_slot h) (v - 1),
    w_leases := ls, w_writers := ws\<rparr>)"
proof -
  have h: "h \<in># w_leases w + w_writers w" using rest by simp
  note l = slot_of_lease [OF inv h]
  have n: "on_slot (h_slot h) (w_leases w + w_writers w) = on_slot (h_slot h) (ls + ws) + 1"
    using rest by simp
  have nz: "nrefs v \<noteq> 0" using v l n by simp
  note rw = release_word [OF nz]
  have "slot_ok (rp_sequence (w_repo w)) (h_slot h) ((rp_slots (w_repo w) ! h_slot h)\<lparr>sl_control := v - 1\<rparr>)
       (on_slot (h_slot h) (ls + ws)) (on_slot (h_slot h) ws)"
    using world_invD(3) [OF inv l(1)] l v p n rw by (auto simp: slot_ok_def control_def)
  moreover have "on_slot t ls = on_slot t (w_leases w) \<and> on_slot t ws = on_slot t (w_writers w)"
    if "t \<noteq> h_slot h" for t
  proof -
    have "on_slot t (w_leases w) + on_slot t (w_writers w) = on_slot t ls + on_slot t ws"
      using arg_cong [OF rest, of "on_slot t"] that by auto
    moreover have "on_slot t ls \<le> on_slot t (w_leases w)" "on_slot t ws \<le> on_slot t (w_writers w)"
      using subs by (auto simp: on_slot_def intro: size_mset_mono multiset_filter_mono)
    ultimately show ?thesis by linarith
  qed
  moreover have "lease_ok (w_repo w) g" if "g \<in># ls + ws" for g
    by (rule world_invD(4) [OF inv]) (use that rest in simp)
  ultimately show ?thesis
    by (rule world_inv_control [OF inv l(1)]) (use l v p rw in auto)
qed

lemma world_inv_pin:
  assumes inv: "world_inv w" and pin: "try_pin_slot (w_repo w) s = Some (r', h)"
  shows "world_inv (w\<lparr>w_repo := r', w_leases := add_mset h (w_leases w)\<rparr>)"
proof -
  from pin obtain v where s: "s < rp_capacity (w_repo w)"
    and a: "acquire False (control (w_repo w) s) = Some v"
    and r': "r' = set_control (w_repo w) s v"
    and h: "h = br_handle (sl_record (rp_slots (w_repo w) ! s))"
    by (auto simp: try_pin_slot_def split: if_splits option.splits)
  have "phase (control (w_repo w) s) = Some Live" using acquire_Some [OF a] by simp
  then have hs: "h = \<lparr>h_slot = s, h_generation = sl_generation (rp_slots (w_repo w) ! s)\<rparr>"
    and g: "sl_generation (rp_slots (w_repo w) ! s) \<noteq> 0"
    using world_invD(3) [OF inv s] h by (auto simp: slot_ok_def control_def)
  then have "lease_ok (w_repo w) h" using s by (simp add: lease_ok_def)
  moreover have "h_slot h = s" by (simp add: hs)
  ultimately show ?thesis using world_inv_acquire [OF inv, of h False] a r' by simp
qed

lemma world_inv_reserve:
  assumes inv: "world_inv w" and res: "try_reserve (w_repo w) begin n = Inr (r', Some h)"
  shows "world_inv (w\<lparr>w_repo := r', w_writers := add_mset h (w_writers w)\<rparr>)"
proof -
  let ?r = "w_repo w"
  from res obtain q s where pop: "ring_pop (rp_ring ?r) = Some (q, s)"
    and h: "h = \<lparr>h_slot = s, h_generation = rp_sequence ?r + 1\<rparr>"
    and r': "r' = ?r\<lparr>rp_ring := q, rp_slots := (rp_slots ?r)[s := \<lparr>sl_control = state Writing 1,
        sl_generation = rp_sequence ?r + 1, sl_record = \<lparr>br_handle = h,
        br_logical_id = rp_sequence ?r + 1, br_token_begin = begin, br_token_count = n\<rparr>\<rparr>],
        rp_sequence := rp_sequence ?r + 1, rp_reservations := u64 (rp_reservations ?r + 1)\<rparr>"
    by (auto simp: try_reserve_def Let_def split: if_splits option.splits)
  have len: "length (rp_slots ?r) = rp_capacity ?r" and ring: "ring_ok (rp_ring ?r)"
    "rg_capacity (rp_ring ?r) = rp_capacity ?r" "distinct (ring_list (rp_ring ?r))"
    "set (ring_list (rp_ring ?r)) = {t. t < rp_capacity ?r \<and> phase (control ?r t) = Some Free}"
    using world_invD(1) [OF inv] by (auto simp: repo_ok_def)
  note q = fifo.pop_inv [OF ring(1) pop] fifo.pop_cap [OF pop] fifo.pop_distinct [OF ring(1) pop ring(3)]
  have s: "s < rp_capacity ?r" "phase (control ?r s) = Some Free" using q(3) ring(4) by auto
  have old: "on_slot s (w_leases w) = 0" "on_slot s (w_writers w) = 0"
    using world_invD(3) [OF inv s(1)] s(2) by (auto simp: slot_ok_def control_def)
  have cr: "control r' t = (if t = s then state Writing 1 else control ?r t)" for t
    using r' len s(1) by (simp add: control_def)
  have cap: "rp_capacity r' = rp_capacity ?r" "rp_ring r' = q"
    "length (rp_slots r') = length (rp_slots ?r)" "rp_reclaim_owner r' = rp_reclaim_owner ?r"
    using r' by simp_all
  have "set (ring_list q) = {t. t < rp_capacity ?r \<and> phase (control r' t) = Some Free}"
    using q(3) ring(4) s unfolding cr by auto
  then have ro: "repo_ok r'" using len ring q(1,2,3) by (simp add: repo_ok_def cap)
  have gle: "sl_generation (rp_slots ?r ! t) \<le> rp_sequence ?r" if "t < rp_capacity ?r" for t
    using world_invD(3) [OF inv that] by (simp add: slot_ok_def)
  have gen: "sl_generation (rp_slots r' ! t) =
      (if t = s then rp_sequence ?r + 1 else sl_generation (rp_slots ?r ! t))" for t
    using r' len s(1) by simp
  have gd: "gens_distinct r'"
    unfolding gens_distinct_def gen
  proof (intro allI impI)
    fix a b
    assume ab: "a < rp_capacity r'" "b < rp_capacity r'" "a \<noteq> b"
      and e: "(if a = s then rp_sequence ?r + 1 else sl_generation (rp_slots ?r ! a)) =
        (if b = s then rp_sequence ?r + 1 else sl_generation (rp_slots ?r ! b))"
    have c: "rp_capacity r' = rp_capacity ?r" using r' by simp
    have "a \<noteq> s" "b \<noteq> s" using e ab c gle [of a] gle [of b] by (auto split: if_splits)
    then show "(if a = s then rp_sequence ?r + 1 else sl_generation (rp_slots ?r ! a)) = 0"
      using world_invD(2) [OF inv] ab e c by (simp add: gens_distinct_def)
  qed
  have so: "slot_ok (rp_sequence r') t (rp_slots r' ! t)
      (on_slot t (w_leases w + add_mset h (w_writers w))) (on_slot t (add_mset h (w_writers w)))"
    if "t < rp_capacity ?r" for t
  proof (cases "t = s")
    case True
    then show ?thesis using r' len s old h by (auto simp: slot_ok_def)
  next
    case False
    then have "h_slot h \<noteq> t" using h by simp
    then show ?thesis using world_invD(3) [OF inv that] False r' len
      by (auto simp: slot_ok_def)
  qed
  have lo: "lease_ok r' g" if g: "g \<in># w_leases w + add_mset h (w_writers w)" for g
  proof (cases "g = h")
    case True
    then show ?thesis using h r' len s(1) by (simp add: lease_ok_def)
  next
    case False
    with g have "g \<in># w_leases w + w_writers w" by auto
    note l = world_invD(4) [OF inv this] slot_of_lease(2) [OF inv this]
    then have "h_slot g \<noteq> s" using s(2) by auto
    then show ?thesis using l(1) r' by (simp add: lease_ok_def)
  qed
  show ?thesis using inv ro gd so lo s(2)
    by (auto simp: world_inv_def Let_def cr cap split: option.splits)
qed

lemma world_inv_reclaim_start:
  assumes inv: "world_inv w" and rb: "reclaim_begin (w_repo w) h = Inr r'"
  shows "world_inv (w\<lparr>w_repo := r', w_reclaiming := Some h\<rparr>)"
proof -
  let ?r = "w_repo w" and ?v = "if phase (control (w_repo w) (h_slot h)) = Some Releasing
      then control (w_repo w) (h_slot h) else state Releasing 0"
  have s: "h_slot h < rp_capacity ?r" and rc: "reclaimable (phase (control ?r (h_slot h)))"
    and nr: "refs (control ?r (h_slot h)) = 0"
    and r': "r' = (set_control ?r (h_slot h) ?v)\<lparr>rp_reclaim_owner := True\<rparr>"
    using rb by (auto simp: reclaim_begin_def Let_def set_control_def control_def split: if_splits)
  have len: "length (rp_slots ?r) = rp_capacity ?r" and ring: "ring_ok (rp_ring ?r)"
    "rg_capacity (rp_ring ?r) = rp_capacity ?r" "distinct (ring_list (rp_ring ?r))"
    "set (ring_list (rp_ring ?r)) = {t. t < rp_capacity ?r \<and> phase (control ?r t) = Some Free}"
    using world_invD(1) [OF inv] by (auto simp: repo_ok_def)
  have v: "phase ?v = Some Releasing" "nrefs ?v = 0" using nr by (auto simp: refs_eq_iff)
  have fr: "phase (control ?r (h_slot h)) \<noteq> Some Free" "phase (control ?r (h_slot h)) \<noteq> Some Writing"
    using rc by (auto simp: reclaimable_def)
  have cr: "control r' t = (if h_slot h = t then ?v else control ?r t)" for t
    using r' s len by (simp add: control_def set_control_def)
  have cap: "rp_capacity r' = rp_capacity ?r" "rp_reclaim_owner r'" "rp_sequence r' = rp_sequence ?r"
    "rp_slots r' = rp_slots (set_control ?r (h_slot h) ?v)" "rp_ring r' = rp_ring ?r"
    using r' by simp_all
  have ro: "repo_ok r'" using cap len ring v fr by (auto simp: repo_ok_def cr)
  have gd: "gens_distinct r'" using world_invD(2) [OF inv] s len cap by (simp add: gens_distinct_def)
  have lo: "lease_ok r' g" if "g \<in># w_leases w + w_writers w" for g
    using world_invD(4) [OF inv that] s len cap by (simp add: lease_ok_def)
  have so: "slot_ok (rp_sequence r') t (rp_slots r' ! t)
      (on_slot t (w_leases w + w_writers w)) (on_slot t (w_writers w))" if "t < rp_capacity ?r" for t
    using world_invD(3) [OF inv that] v fr nr s len
    by (auto simp: cap slot_ok_def slot_set_control control_def refs_eq_iff split: if_splits)
  show ?thesis using ro gd lo so cap s v by (auto simp: world_inv_def Let_def cr)
qed

lemma world_inv_reclaim_done:
  assumes inv: "world_inv w" and rc: "w_reclaiming w = Some h"
    and rf: "reclaim_finish (w_repo w) (h_slot h) = Inr r'"
  shows "world_inv (w\<lparr>w_repo := r', w_reclaiming := None\<rparr>)"
proof -
  let ?r = "w_repo w" and ?s = "h_slot h"
  have s: "?s < rp_capacity ?r" "phase (control ?r ?s) = Some Releasing"
    using inv rc by (auto simp: world_inv_def Let_def)
  from rf obtain q where push: "ring_push (rp_ring ?r) ?s = Inr q"
    and r': "r' = (set_control ?r ?s (state Free 0))\<lparr>rp_ring := q,
        rp_reclaimed := u64 (rp_reclaimed ?r + 1), rp_reclaim_owner := False\<rparr>"
    by (auto simp: reclaim_finish_def split: sum.splits)
  have len: "length (rp_slots ?r) = rp_capacity ?r" and ring: "ring_ok (rp_ring ?r)"
    "rg_capacity (rp_ring ?r) = rp_capacity ?r" "distinct (ring_list (rp_ring ?r))"
    "set (ring_list (rp_ring ?r)) = {t. t < rp_capacity ?r \<and> phase (control ?r t) = Some Free}"
    using world_invD(1) [OF inv] by (auto simp: repo_ok_def)
  note q = fifo.push_inv [OF ring(1) push] fifo.push_cap [OF push] fifo.push_elems [OF ring(1) push]
  have cr: "control r' t = (if ?s = t then state Free 0 else control ?r t)" for t
    using r' s len by (simp add: control_def set_control_def)
  have cap: "rp_capacity r' = rp_capacity ?r" "\<not> rp_reclaim_owner r'" "rp_sequence r' = rp_sequence ?r"
    "rp_slots r' = rp_slots (set_control ?r ?s (state Free 0))" "rp_ring r' = q"
    using r' by simp_all
  have ro: "repo_ok r'" using cap len ring q s by (auto simp: repo_ok_def cr)
  have gd: "gens_distinct r'" using world_invD(2) [OF inv] s len cap by (simp add: gens_distinct_def)
  have lo: "lease_ok r' g" if "g \<in># w_leases w + w_writers w" for g
    using world_invD(4) [OF inv that] s len cap by (simp add: lease_ok_def)
  have so: "slot_ok (rp_sequence r') t (rp_slots r' ! t)
      (on_slot t (w_leases w + w_writers w)) (on_slot t (w_writers w))" if "t < rp_capacity ?r" for t
    using world_invD(3) [OF inv that] s len
    by (auto simp: cap slot_ok_def slot_set_control control_def split: if_splits)
  show ?thesis using ro gd lo so cap by (auto simp: world_inv_def Let_def)
qed

lemma world_inv_owner_only:
  assumes "world_inv w" and "w_reclaiming w = Some h"
  shows "world_inv (w\<lparr>w_repo := (w_repo w)\<lparr>rp_reclaim_owner := False\<rparr>, w_reclaiming := None\<rparr>)"
  using assms by (simp add: world_inv_def Let_def repo_ok_def gens_distinct_def control_def lease_ok_def)

lemma world_inv_commit:
  assumes inv: "world_inv w" and ws: "w_writers w = add_mset h ws"
    and c: "reservation_commit (w_repo w) h = Inr r'"
  shows "world_inv (w\<lparr>w_repo := r', w_leases := add_mset h (w_leases w), w_writers := ws\<rparr>)"
proof -
  have h: "h \<in># w_writers w" "h \<in># w_leases w + w_writers w" using ws by simp_all
  note l = slot_of_lease [OF inv h(2)] and wp = writer_phase [OF inv h(1)]
  have r': "r' = set_control (w_repo w) (h_slot h) (state Live (refs (control (w_repo w) (h_slot h))))"
    using c by (auto simp: reservation_commit_def Let_def split: if_splits)
  have o: "on_slot (h_slot h) ws = 0" using wp ws by simp
  have "slot_ok (rp_sequence (w_repo w)) (h_slot h) ((rp_slots (w_repo w) ! h_slot h)
         \<lparr>sl_control := state Live (refs (control (w_repo w) (h_slot h)))\<rparr>)
       (on_slot (h_slot h) (w_leases w + w_writers w)) 0"
    by (rule slot_ok_control [OF world_invD(3) [OF inv l(1)] phase_state_refs(1)])
      (use l wp in \<open>auto simp: phase_state_refs control_def [symmetric]\<close>)
  moreover have "on_slot (h_slot h) (w_leases w + w_writers w) =
      on_slot (h_slot h) (add_mset h (w_leases w) + ws)" using ws by simp
  ultimately have "slot_ok (rp_sequence (w_repo w)) (h_slot h) ((rp_slots (w_repo w) ! h_slot h)
         \<lparr>sl_control := state Live (refs (control (w_repo w) (h_slot h)))\<rparr>)
       (on_slot (h_slot h) (add_mset h (w_leases w) + ws)) (on_slot (h_slot h) ws)"
    using o by simp
  then have "world_inv (w\<lparr>w_repo := r', w_leases := add_mset h (w_leases w), w_writers := ws\<rparr>)"
    unfolding r'
    by (rule world_inv_control [OF inv l(1)])
      (use world_invD(4) [OF inv] ws wp in \<open>auto simp: phase_state_refs\<close>)
  then show ?thesis by simp
qed

lemma world_same: "w_repo w = r \<Longrightarrow> w\<lparr>w_repo := r\<rparr> = w"
  by (cases w) simp

theorem wstep_inv: "wstep w w' \<Longrightarrow> world_inv w \<Longrightarrow> world_inv w'"
proof (induction rule: wstep.induct)
  case (clone h w r')
  then obtain v where v: "acquire True (control (w_repo w) (h_slot h)) = Some v"
    and r': "r' = set_control (w_repo w) (h_slot h) v"
    by (auto simp: lease_clone_def split: option.splits)
  show ?case unfolding r' using clone by (intro world_inv_acquire [OF _ _ v] world_invD(4)) auto
next
  case (drop w h ls)
  then have h: "h \<in># w_leases w + w_writers w" by simp
  note l = slot_of_lease [OF drop.prems h]
  obtain p where p: "phase (control (w_repo w) (h_slot h)) = Some p" "p \<notin> {Free, Releasing}"
    using l(2) by auto
  have "on_slot (h_slot h) (w_writers w) = (if p = Writing then 1 else 0)"
    using world_invD(3) [OF drop.prems l(1)] p by (auto simp: slot_ok_def control_def)
  then have "world_inv (w\<lparr>w_repo := lease_reset (w_repo w) h, w_leases := ls, w_writers := w_writers w\<rparr>)"
    unfolding lease_reset_def
    by (intro world_inv_release [OF drop.prems _ _ _ p(1) refl p(2)]) (use drop in auto)
  then show ?case by simp
next
  case (cancel w h ws)
  have h: "h \<in># w_writers w" "h \<in># w_leases w + w_writers w" using cancel by simp_all
  note wp = writer_phase [OF cancel.prems h(1)] and l = slot_of_lease [OF cancel.prems h(2)]
  let ?v = "state Cancelled (refs (control (w_repo w) (h_slot h)))"
  have len: "length (rp_slots (w_repo w)) = rp_capacity (w_repo w)"
    using world_invD(1) [OF cancel.prems] by (simp add: repo_ok_def)
  have e: "reservation_cancel (w_repo w) h = set_control (w_repo w) (h_slot h) (?v - 1)"
    using wp l(1) len by (simp add: reservation_cancel_def lease_reset_def Let_def
      control_set_control) (simp add: set_control_def)
  have "world_inv (w\<lparr>w_repo := set_control (w_repo w) (h_slot h) (?v - 1),
      w_leases := w_leases w, w_writers := ws\<rparr>)"
    by (rule world_inv_release [OF cancel.prems _ _ _ phase_state_refs])
      (use cancel wp in auto)
  then show ?case by (simp add: e)
next
  case (retire h w r' b)
  show ?case
  proof (cases "phase (control (w_repo w) (h_slot h)) = Some Live")
    case True
    then have "r' = set_control (w_repo w) (h_slot h) (state Retired (refs (control (w_repo w) (h_slot h))))"
      using retire by (simp add: retire_cas_def Let_def)
    then show ?thesis using world_inv_rephase [OF retire.prems _ True _ phase_state_refs] retire by simp
  next
    case False
    then have "w_repo w = r'" using retire by (simp add: retire_cas_def Let_def)
    then show ?thesis using retire.prems by (simp add: world_same)
  qed
next
  case (rescue h w r' b)
  let ?v = "control (w_repo w) (h_slot h)"
  show ?case
  proof (cases "phase ?v = Some Retired")
    case True
    then have "r' = set_control (w_repo w) (h_slot h) (state Live (refs ?v))"
      using rescue by (simp add: rescue_def Let_def)
    then show ?thesis using world_inv_rephase [OF rescue.prems _ True _ phase_state_refs] rescue by simp
  next
    case False
    then have "w_repo w = r'" using rescue by (simp add: rescue_def Let_def split: if_splits)
    then show ?thesis using rescue.prems by (simp add: world_same)
  qed
next
  case (retire_sole h w r' b)
  let ?v = "control (w_repo w) (h_slot h)"
  show ?case
  proof (cases "?v = state Live 1")
    case True
    then have "r' = set_control (w_repo w) (h_slot h) (state Retired 1)"
      using retire_sole by (simp add: retire_if_only_reader_def Let_def)
    then show ?thesis
      using world_inv_rephase [of w h Live "state Retired 1" Retired] retire_sole True by simp
  next
    case False
    then have "w_repo w = r'" using retire_sole by (simp add: retire_if_only_reader_def Let_def)
    then show ?thesis using retire_sole.prems by (simp add: world_same)
  qed
qed (auto intro: world_inv_pin world_inv_reserve world_inv_commit world_inv_reclaim_start
  world_inv_reclaim_done world_inv_owner_only)

lemma world_inv_new:
  assumes "repo_new i c t = Inr r"
  shows "world_inv (world_new r)"
proof -
  have r: "rp_slots r = replicate c slot_init" "rp_capacity r = c" "rp_ring r = ring_init c"
    "\<not> rp_reclaim_owner r" using assms by (auto simp: repo_new_def split: if_splits)
  have "repo_ok r" using r ring_ok_init [of c]
    by (auto simp: repo_ok_def control_def slot_init_def) (simp_all add: ring_init_def)
  then show ?thesis using r
    by (auto simp: world_inv_def world_new_def Let_def gens_distinct_def slot_ok_def slot_init_def)
qed

theorem reachable_inv: "reachable w \<Longrightarrow> world_inv w"
  by (induction rule: reachable.induct) (auto intro: world_inv_new wstep_inv)

section \<open>Consequences of the invariant\<close>

lemma leased_slot_not_reclaimable:
  assumes inv: "world_inv w" and h: "h \<in># w_leases w + w_writers w"
  shows "\<exists>res. reclaim_begin (w_repo w) h = Inl res"
proof -
  have "refs (control (w_repo w) (h_slot h)) \<noteq> 0"
    using slot_of_lease(3,4) [OF inv h] by (simp add: refs_eq_iff)
  then show ?thesis by (simp add: reclaim_begin_def Let_def)
qed

lemma lease_record_handle:
  assumes inv: "world_inv w" and h: "h \<in># w_leases w + w_writers w"
  shows "br_handle (lease_record (w_repo w) h) = h"
proof -
  have l: "lease_ok (w_repo w) h" by (rule world_invD(4) [OF inv h])
  then have "slot_ok (rp_sequence (w_repo w)) (h_slot h) (rp_slots (w_repo w) ! h_slot h)
      (on_slot (h_slot h) (w_leases w + w_writers w)) (on_slot (h_slot h) (w_writers w))"
    by (intro world_invD(3) [OF inv]) (simp add: lease_ok_def)
  then show ?thesis using l by (auto simp: slot_ok_def lease_ok_def lease_record_def)
qed

lemma record_set_control [simp]:
  "s < length (rp_slots r) \<Longrightarrow>
     sl_record (rp_slots (set_control r s v) ! t) = sl_record (rp_slots r ! t)"
  by (simp add: slot_set_control)

lemma try_pin_restores:
  assumes inv: "world_inv w" and p: "try_pin (w_repo w) h = (r', None)"
  shows "r' = w_repo w"
proof (cases "try_pin_slot (w_repo w) (h_slot h)")
  case None
  then show ?thesis using p by (simp add: try_pin_def)
next
  case (Some q)
  obtain r1 h1 where q: "q = (r1, h1)" by (cases q)
  then have ne: "h1 \<noteq> h" and r': "r' = lease_reset r1 h1"
    using p Some by (auto simp: try_pin_def split: if_splits)
  obtain v where s: "h_slot h < rp_capacity (w_repo w)"
    and a: "acquire False (control (w_repo w) (h_slot h)) = Some v"
    and r1: "r1 = set_control (w_repo w) (h_slot h) v"
    and h1: "h1 = br_handle (sl_record (rp_slots (w_repo w) ! h_slot h))"
    using Some q by (auto simp: try_pin_slot_def split: if_splits option.splits)
  have "phase (control (w_repo w) (h_slot h)) = Some Live" using acquire_Some [OF a] by simp
  then have "h_slot h1 = h_slot h"
    using world_invD(3) [OF inv s] h1 by (auto simp: slot_ok_def control_def)
  moreover have "v - 1 = control (w_repo w) (h_slot h)" using acquire_Some [OF a] by simp
  moreover have "length (rp_slots (w_repo w)) = rp_capacity (w_repo w)"
    using world_invD(1) [OF inv] by (simp add: repo_ok_def)
  ultimately show ?thesis using r' r1 s
    by (simp add: lease_reset_def control_set_control) (simp add: set_control_def control_def)
qed

lemma try_pin_Some:
  assumes inv: "world_inv w" and p: "try_pin (w_repo w) h = (r', Some h')"
  shows "h' = h" and "lease_ok (w_repo w) h" and "phase (control (w_repo w) (h_slot h)) = Some Live"
    and "r' = set_control (w_repo w) (h_slot h) (control (w_repo w) (h_slot h) + 1)"
    and "wstep w (w\<lparr>w_repo := r', w_leases := add_mset h (w_leases w)\<rparr>)"
proof -
  obtain r1 h1 where ps: "try_pin_slot (w_repo w) (h_slot h) = Some (r1, h1)"
    and e: "h1 = h" "h' = h" "r' = r1"
    using p by (auto simp: try_pin_def split: option.splits if_splits)
  obtain v where s: "h_slot h < rp_capacity (w_repo w)"
    and a: "acquire False (control (w_repo w) (h_slot h)) = Some v"
    and r1: "r1 = set_control (w_repo w) (h_slot h) v"
    and h1: "h1 = br_handle (sl_record (rp_slots (w_repo w) ! h_slot h))"
    using ps by (auto simp: try_pin_slot_def split: if_splits option.splits)
  show "h' = h" by (rule e)
  show st: "wstep w (w\<lparr>w_repo := r', w_leases := add_mset h (w_leases w)\<rparr>)"
    using wstep.pin [OF ps] e by simp
  show live: "phase (control (w_repo w) (h_slot h)) = Some Live" using acquire_Some [OF a] by simp
  have "sl_generation (rp_slots (w_repo w) ! h_slot h) \<noteq> 0"
    using world_invD(3) [OF inv s] live by (auto simp: slot_ok_def control_def)
  then have "h = \<lparr>h_slot = h_slot h, h_generation = sl_generation (rp_slots (w_repo w) ! h_slot h)\<rparr>"
    and "sl_generation (rp_slots (w_repo w) ! h_slot h) \<noteq> 0"
    using world_invD(3) [OF inv s] h1 e by (auto simp: slot_ok_def)
  then show "lease_ok (w_repo w) h" using s by (metis handle.select_convs(2) lease_ok_def)
  show "r' = set_control (w_repo w) (h_slot h) (control (w_repo w) (h_slot h) + 1)"
    using r1 e acquire_Some [OF a] by simp
qed

lemma count_list_phase: "(\<forall>e \<in> set es. phase (sl_control e) \<noteq> None) \<Longrightarrow>
   length (filter (\<lambda>e. phase (sl_control e) = Some Free) es) +
   length (filter (\<lambda>e. phase (sl_control e) = Some Writing) es) +
   length (filter (\<lambda>e. phase (sl_control e) = Some Live) es) +
   length (filter (\<lambda>e. phase (sl_control e) = Some Retired) es) +
   length (filter (\<lambda>e. phase (sl_control e) = Some Releasing) es) +
   length (filter (\<lambda>e. phase (sl_control e) = Some Cancelled) es) = length es"
proof (induction es)
  case (Cons e es)
  then obtain p where "phase (sl_control e) = Some p" by auto
  with Cons show ?case by (cases p) auto
qed simp

lemma size_on_slots:
  assumes "\<forall>h \<in># m. h_slot h < n"
  shows "(\<Sum>s<n. on_slot s m) = size m"
  using assms
proof (induction m)
  case (add h m)
  have "(\<Sum>s<n. on_slot s (add_mset h m)) = (\<Sum>s<n. on_slot s m) + (\<Sum>s<n. if h_slot h = s then 1 else 0)"
    by (simp add: sum.distrib)
  also have "(\<Sum>s<n. if h_slot h = s then 1 else 0) = (1::nat)" using add.prems by simp
  finally show ?case using add by simp
qed simp

lemma sum_list_nth: "sum_list (map f xs) = (\<Sum>i<length xs. f (xs ! i))"
  by (simp add: sum_list_sum_nth atLeast0LessThan)

end
