(* ===== verification/Repository_Safety.thy ===== *)
theory Repository_Safety
  imports Repository_World
begin

text \<open>
  What the repository promises its users, proved for every interleaving: a lease keeps its record,
  a leased slot is never reclaimed, a handle is issued once, stale handles pin nothing, the ready
  queue cannot overflow and accounts for every slot, and each operation's exact effect.
\<close>

section \<open>A concrete world\<close>

text \<open>
  A repository of two slots in which the first slot was reserved for tokens 0..31 and published;
  \<open>ex_live\<close> holds its lease, \<open>ex_retired\<close> is the world after the lease was used to retire the slot
  and then dropped.
\<close>

definition ex_new :: repo where
  "ex_new = \<lparr>rp_id = 7, rp_capacity = 2, rp_block_tokens = 32, rp_slots = [slot_init, slot_init],
     rp_ring = ring_init 2, rp_reclaim_owner = False, rp_sequence = 0, rp_reservations = 0,
     rp_reclaimed = 0\<rparr>"

definition ex_handle :: handle where "ex_handle = \<lparr>h_slot = 0, h_generation = 1\<rparr>"

definition ex_repo :: "64 word \<Rightarrow> repo" where
  "ex_repo v = \<lparr>rp_id = 7, rp_capacity = 2, rp_block_tokens = 32,
     rp_slots = [\<lparr>sl_control = v, sl_generation = 1, sl_record = \<lparr>br_handle = ex_handle,
       br_logical_id = 1, br_token_begin = 0, br_token_count = 32\<rparr>\<rparr>, slot_init],
     rp_ring = (ring_init 2)\<lparr>rg_head := 1\<rparr>, rp_reclaim_owner = False, rp_sequence = 1,
     rp_reservations = 1, rp_reclaimed = 0\<rparr>"

definition ex_writing :: world where
  "ex_writing = \<lparr>w_repo = ex_repo (state Writing 1), w_leases = {#}, w_writers = {#ex_handle#},
     w_reclaiming = None\<rparr>"

definition ex_live :: world where
  "ex_live = \<lparr>w_repo = ex_repo (state Live 1), w_leases = {#ex_handle#}, w_writers = {#},
     w_reclaiming = None\<rparr>"

definition ex_pinned_retired :: world where
  "ex_pinned_retired = \<lparr>w_repo = ex_repo (state Retired 1), w_leases = {#ex_handle#},
     w_writers = {#}, w_reclaiming = None\<rparr>"

definition ex_retired :: world where
  "ex_retired = \<lparr>w_repo = ex_repo (state Retired 0), w_leases = {#}, w_writers = {#},
     w_reclaiming = None\<rparr>"

lemma state_minus_one: "state p 1 - 1 = state p 0"
proof -
  have "unat (state p 1) = unat (state p 0) + 1" by (simp add: unat_state)
  moreover have "state p 1 \<noteq> 0" using calculation by auto
  ultimately have "unat (state p 1 - 1) = unat (state p 0)" using unat_minus_one [of "state p 1"] by simp
  then show ?thesis by (simp add: word_unat_eq_iff)
qed

lemma state_refs_const: "refs (state p 1) = 1" "refs (state p 0) = 0"
  using phase_state [of 1 p] phase_state [of 0 p] by simp_all

lemma ex_reserve: "try_reserve ex_new 0 32 = Inr (ex_repo (state Writing 1), Some ex_handle)"
  by (simp add: try_reserve_def ex_new_def ex_repo_def ex_handle_def ring_pop_def ring_init_def
    ring_next_def UINT64_MAX_def Let_def upt_rec)

lemma reachable_ex_live: "reachable ex_live"
proof -
  have "repo_new 7 2 32 = Inr ex_new"
    by (simp add: repo_new_def ex_new_def UINT32_MAX_def numeral_2_eq_2)
  then have "reachable (world_new ex_new)" by (rule reachable.start)
  moreover have "wstep (world_new ex_new) ex_writing"
    using wstep.reserve [of "world_new ex_new", OF _ ] ex_reserve
    by (fastforce simp: world_new_def ex_writing_def)
  moreover have "wstep ex_writing ex_live"
    using wstep.commit [of ex_writing ex_handle "{#}" "ex_repo (state Live 1)"]
    by (simp add: ex_writing_def ex_live_def reservation_commit_def control_def ex_repo_def
      ex_handle_def set_control_def state_refs_const)
  ultimately show ?thesis by (blast intro: reachable.step)
qed

lemma reachable_ex_retired: "reachable ex_retired"
proof -
  have "wstep ex_live ex_pinned_retired"
    using wstep.retire [of ex_handle ex_live "ex_repo (state Retired 1)" True]
    by (simp add: ex_live_def ex_pinned_retired_def retire_cas_def control_def ex_repo_def
      ex_handle_def set_control_def state_refs_const)
  moreover have "wstep ex_pinned_retired ex_retired"
    using wstep.drop [of ex_pinned_retired ex_handle "{#}"]
    by (simp add: ex_pinned_retired_def ex_retired_def lease_reset_def control_def ex_repo_def
      ex_handle_def set_control_def state_minus_one)
  ultimately show ?thesis using reachable_ex_live by (blast intro: reachable.step)
qed

section \<open>Leases\<close>

lemma wstep_keeps_record:
  assumes inv: "world_inv w" and st: "wstep w w'" and h: "h \<in># w_leases w + w_writers w"
  shows "lease_record (w_repo w') h = lease_record (w_repo w) h"
proof -
  have len: "length (rp_slots (w_repo w)) = rp_capacity (w_repo w)"
    and fr: "set (ring_list (rp_ring (w_repo w))) =
      {s. s < rp_capacity (w_repo w) \<and> phase (control (w_repo w) s) = Some Free}"
    and ring: "ring_ok (rp_ring (w_repo w))"
    using world_invD(1) [OF inv] by (auto simp: repo_ok_def)
  have in_range: "g \<in># w_leases w + w_writers w \<Longrightarrow> h_slot g < length (rp_slots (w_repo w))" for g
    using slot_of_lease(1) [OF inv, of g] len by simp
  have nf: "phase (control (w_repo w) (h_slot h)) \<noteq> Some Free" using slot_of_lease(2) [OF inv h] by auto
  from st h show ?thesis
  proof (cases rule: wstep.cases)
    case (reserve b n r' g)
    obtain q s e where pop: "ring_pop (rp_ring (w_repo w)) = Some (q, s)"
      and r': "rp_slots r' = (rp_slots (w_repo w))[s := e]"
      using reserve(2) by (auto simp: try_reserve_def Let_def split: if_splits option.splits)
    have "s \<in> set (ring_list (rp_ring (w_repo w)))" using fifo.pop_elems [OF ring pop] by simp
    then have "s \<noteq> h_slot h" using fr nf by auto
    then show ?thesis using reserve(1) r' by (simp add: lease_record_def)
  next
    case (reclaim_done g r')
    have "h_slot g < length (rp_slots (w_repo w))"
      using inv reclaim_done len by (auto simp: world_inv_def Let_def)
    then show ?thesis using reclaim_done
      by (auto simp: reclaim_finish_def lease_record_def split: sum.splits)
  qed (use in_range len in \<open>auto simp: lease_record_def lease_clone_def lease_reset_def reservation_commit_def
      reservation_cancel_def retire_cas_def rescue_def retire_if_only_reader_def Let_def
      try_pin_slot_def reclaim_begin_def split: if_splits option.splits\<close>)
qed

text \<open>
  Claim C2. While a lease (or reservation) on a handle exists, no step of any thread changes the
  record it reads: \<open>Lease::record()\<close> returns the record issued under exactly that handle.
\<close>

theorem lease_record_stable:
  assumes "reachable w" and "wstep w w'" and "h \<in># w_leases w + w_writers w"
  shows "br_handle (lease_record (w_repo w) h) = h \<and>
    lease_record (w_repo w') h = lease_record (w_repo w) h"
  using lease_record_handle wstep_keeps_record reachable_inv assms by blast

theorem lease_record_stable_witness:
  "br_handle (lease_record (w_repo ex_live) ex_handle) = ex_handle \<and>
   lease_record (w_repo ex_pinned_retired) ex_handle = lease_record (w_repo ex_live) ex_handle"
proof (rule lease_record_stable [OF reachable_ex_live])
  show "wstep ex_live ex_pinned_retired"
    using wstep.retire [of ex_handle ex_live "ex_repo (state Retired 1)" True]
    by (simp add: ex_live_def ex_pinned_retired_def retire_cas_def control_def ex_repo_def
      ex_handle_def set_control_def state_refs_const)
  show "ex_handle \<in># w_leases ex_live + w_writers ex_live" by (simp add: ex_live_def)
qed

text \<open>
  Claim C1. A slot with a live lease is never released: \<open>try_reclaim\<close> on its handle runs no
  release callback, changes nothing, and does not answer \<open>Reclaimed\<close>.
\<close>

theorem leased_never_reclaimed:
  assumes "reachable w" and "h \<in># w_leases w + w_writers w"
    and "try_reclaim (w_repo w) h (Some release) = (r', res)"
  shows "r' = w_repo w \<and> res \<noteq> Inr Reclaimed \<and> res \<noteq> Inr DeferredRelease"
proof -
  obtain x where x: "reclaim_begin (w_repo w) h = Inl x"
    using leased_slot_not_reclaimable [OF reachable_inv [OF assms(1)] assms(2)] by blast
  then have "x \<noteq> Reclaimed \<and> x \<noteq> DeferredRelease"
    by (auto simp: reclaim_begin_def Let_def split: if_splits)
  then show ?thesis using assms(3) x by (auto simp: try_reclaim_def split: if_splits)
qed

theorem leased_never_reclaimed_witness:
  "fst (try_reclaim (w_repo ex_live) ex_handle (Some (\<lambda>_. Inr True))) = w_repo ex_live"
  using leased_never_reclaimed [OF reachable_ex_live, of ex_handle "\<lambda>_. Inr True"]
  by (simp add: ex_live_def prod_eq_iff)

section \<open>Handles and generations\<close>

text \<open>
  Claim C3. \<open>try_reserve\<close> hands out a generation larger than every generation any slot or any
  live lease has, so two bundles never share a handle, and a physical slot that had no lease.
\<close>

theorem reserved_handle_fresh:
  assumes "reachable w" and "try_reserve (w_repo w) begin n = Inr (r', Some h)"
  shows "(\<forall>s < rp_capacity (w_repo w). sl_generation (rp_slots (w_repo w) ! s) < h_generation h) \<and>
    (\<forall>g \<in># w_leases w + w_writers w. h_generation g < h_generation h \<and> h_slot g \<noteq> h_slot h)"
proof -
  note inv = reachable_inv [OF assms(1)]
  obtain q s where pop: "ring_pop (rp_ring (w_repo w)) = Some (q, s)"
    and h: "h = \<lparr>h_slot = s, h_generation = rp_sequence (w_repo w) + 1\<rparr>"
    using assms(2) by (auto simp: try_reserve_def Let_def split: if_splits option.splits)
  have ro: "repo_ok (w_repo w)" by (rule world_invD(1) [OF inv])
  then have "ring_ok (rp_ring (w_repo w))" by (simp add: repo_ok_def)
  from fifo.pop_elems [OF this pop] have "s \<in> set (ring_list (rp_ring (w_repo w)))" by simp
  then have fr: "phase (control (w_repo w) s) = Some Free" using ro unfolding repo_ok_def by blast
  have g: "sl_generation (rp_slots (w_repo w) ! t) < h_generation h" if "t < rp_capacity (w_repo w)" for t
    using world_invD(3) [OF inv that] h by (simp add: slot_ok_def)
  have "h_generation g < h_generation h \<and> h_slot g \<noteq> h_slot h"
    if l: "g \<in># w_leases w + w_writers w" for g
    using world_invD(4) [OF inv l] g [of "h_slot g"] slot_of_lease(2) [OF inv l] fr h
    by (auto simp: lease_ok_def)
  then show ?thesis using g by blast
qed

theorem reserved_handle_fresh_witness:
  "\<exists>r' h. try_reserve (w_repo ex_live) 32 32 = Inr (r', Some h) \<and>
     (\<forall>g \<in># w_leases ex_live + w_writers ex_live. h_generation g < h_generation h \<and> h_slot g \<noteq> h_slot h)"
proof -
  obtain r' h where r: "try_reserve (w_repo ex_live) 32 32 = Inr (r', Some h)"
    by (simp add: ex_live_def ex_repo_def try_reserve_def ring_pop_def ring_init_def UINT64_MAX_def Let_def)
  then show ?thesis using reserved_handle_fresh [OF reachable_ex_live r] by blast
qed

text \<open>
  \<open>try_pin\<close> succeeds only on a slot that is live under exactly the generation asked for;
  otherwise it leaves the repository as it was, although it may have pinned the slot for a moment.
\<close>

theorem try_pin_exact:
  assumes "reachable w" and "try_pin (w_repo w) h = (r', res)"
  shows "(res = None \<longrightarrow> r' = w_repo w) \<and>
    (res \<noteq> None \<longrightarrow> res = Some h \<and> phase (control (w_repo w) (h_slot h)) = Some Live \<and>
       sl_generation (rp_slots (w_repo w) ! h_slot h) = h_generation h \<and>
       br_handle (lease_record (w_repo w) h) = h \<and>
       nrefs (control r' (h_slot h)) = nrefs (control (w_repo w) (h_slot h)) + 1)"
proof (cases res)
  case None
  then show ?thesis using try_pin_restores [OF reachable_inv] assms by blast
next
  case (Some h')
  note inv = reachable_inv [OF assms(1)] and p = try_pin_Some [OF reachable_inv [OF assms(1)], of h r' h']
  note p = p [OF assms(2) [unfolded Some]]
  have st: "reachable (w\<lparr>w_repo := r', w_leases := add_mset h (w_leases w)\<rparr>)"
    by (rule reachable.step [OF assms(1) p(5)])
  have "nrefs (control r' (h_slot h)) = on_slot (h_slot h) (w_leases w + w_writers w) + 1"
    using slot_of_lease(3) [OF reachable_inv [OF st], of h] by simp
  moreover have s: "h_slot h < rp_capacity (w_repo w)" using p(2) by (simp add: lease_ok_def)
  moreover have "nrefs (control (w_repo w) (h_slot h)) = on_slot (h_slot h) (w_leases w + w_writers w)"
    using world_invD(3) [OF inv s] by (simp add: slot_ok_def control_def)
  moreover have "br_handle (lease_record r' h) = h"
    using lease_record_handle [OF reachable_inv [OF st], of h] by simp
  moreover have "lease_record r' h = lease_record (w_repo w) h"
    using p(4) s world_invD(1) [OF inv] by (simp add: lease_record_def repo_ok_def)
  ultimately show ?thesis using Some p by (simp add: lease_ok_def)
qed

theorem try_pin_exact_witness:
  "snd (try_pin (w_repo ex_live) \<lparr>h_slot = 0, h_generation = 9\<rparr>) = None \<and>
   fst (try_pin (w_repo ex_live) \<lparr>h_slot = 0, h_generation = 9\<rparr>) = w_repo ex_live"
proof -
  have n: "snd (try_pin (w_repo ex_live) \<lparr>h_slot = 0, h_generation = 9\<rparr>) = None"
    using try_pin_exact [OF reachable_ex_live surjective_pairing, of "\<lparr>h_slot = 0, h_generation = 9\<rparr>"]
    by (auto simp: ex_live_def ex_repo_def)
  then show ?thesis
    using try_pin_exact [OF reachable_ex_live surjective_pairing, of "\<lparr>h_slot = 0, h_generation = 9\<rparr>"]
    by simp
qed

section \<open>The ready queue and the accounting\<close>

lemma reclaim_push_ok:
  assumes "reachable w" and "w_reclaiming w = Some h"
  shows "\<exists>r'. reclaim_finish (w_repo w) (h_slot h) = Inr r' \<and>
    phase (control r' (h_slot h)) = Some Free \<and>
    ring_list (rp_ring r') = ring_list (rp_ring (w_repo w)) @ [h_slot h]"
proof -
  let ?r = "w_repo w"
  note inv = reachable_inv [OF assms(1)]
  have s: "h_slot h < rp_capacity ?r" "phase (control ?r (h_slot h)) = Some Releasing"
    using inv assms(2) by (auto simp: world_inv_def Let_def)
  have ro: "length (rp_slots ?r) = rp_capacity ?r" "ring_ok (rp_ring ?r)"
    "rg_capacity (rp_ring ?r) = rp_capacity ?r" "distinct (ring_list (rp_ring ?r))"
    "set (ring_list (rp_ring ?r)) = {t. t < rp_capacity ?r \<and> phase (control ?r t) = Some Free}"
    using world_invD(1) [OF inv] by (auto simp: repo_ok_def)
  have "length (ring_list (rp_ring ?r)) < rg_capacity (rp_ring ?r)"
    by (rule fifo.absent_room [where f = id and x = "h_slot h"]) (use ro s in auto)
  then obtain q where "ring_push (rp_ring ?r) (h_slot h) = Inr q"
    "ring_list q = ring_list (rp_ring ?r) @ [h_slot h]"
    using fifo.push_room [OF ro(2)] by blast
  then show ?thesis using s ro(1)
    by (simp add: reclaim_finish_def control_def set_control_def)
qed

text \<open>
  "KVMem ready queue overflow" is unreachable: whenever the release callback of a reclaim
  returns true, the push succeeds, the slot becomes free and is the last of the ready queue.
\<close>

theorem reclaim_push_succeeds:
  assumes "reachable w" and "w_reclaiming w = Some h"
  shows "\<exists>r'. reclaim_finish (w_repo w) (h_slot h) = Inr r' \<and>
    phase (control r' (h_slot h)) = Some Free \<and>
    ring_list (rp_ring r') = ring_list (rp_ring (w_repo w)) @ [h_slot h]"
  using reclaim_push_ok [OF assms] .

lemma ex_repo_ring: "ring_list (rp_ring (ex_repo v)) = [1]"
  by (simp add: ex_repo_def ring_list_def ring_init_def upt_rec)

lemma ex_reclaim_begin:
  "reclaim_begin (w_repo ex_retired) ex_handle = Inr ((ex_repo (state Releasing 0))\<lparr>rp_reclaim_owner := True\<rparr>)"
  by (simp add: ex_retired_def ex_repo_def ex_handle_def reclaim_begin_def reclaimable_def control_def
    set_control_def state_refs_const Let_def)

theorem reclaim_push_succeeds_witness:
  "\<exists>r'. reclaim_finish ((ex_repo (state Releasing 0))\<lparr>rp_reclaim_owner := True\<rparr>) 0 = Inr r' \<and>
     ring_list (rp_ring r') = [1, 0]"
proof -
  have "reachable (ex_retired\<lparr>w_repo := (ex_repo (state Releasing 0))\<lparr>rp_reclaim_owner := True\<rparr>,
      w_reclaiming := Some ex_handle\<rparr>)"
    by (rule reachable.step [OF reachable_ex_retired wstep.reclaim_start [OF ex_reclaim_begin]])
  from reclaim_push_succeeds [OF this, of ex_handle] show ?thesis
    by (auto simp: ex_handle_def ex_repo_ring)
qed

text \<open>
  Every slot is in exactly one phase and the admission snapshot is exact: the counts of
  \<open>stats()\<close> add up to the capacity, \<open>ready_slots()\<close> is the number of free slots, and the leases
  counted are the lease and reservation objects alive.
\<close>

theorem stats_account_for_everything:
  assumes "reachable w"
  shows "st_ready (repo_stats (w_repo w)) + st_writing (repo_stats (w_repo w)) +
      st_live (repo_stats (w_repo w)) + st_retired (repo_stats (w_repo w)) +
      st_releasing (repo_stats (w_repo w)) + st_cancelled (repo_stats (w_repo w)) =
      rp_capacity (w_repo w) \<and>
    ready_slots (w_repo w) = st_ready (repo_stats (w_repo w)) \<and>
    st_leases (repo_stats (w_repo w)) = u64 (size (w_leases w + w_writers w))"
proof -
  let ?r = "w_repo w" and ?m = "w_leases w + w_writers w"
  note inv = reachable_inv [OF assms]
  have ro: "length (rp_slots ?r) = rp_capacity ?r" "ring_ok (rp_ring ?r)"
    "distinct (ring_list (rp_ring ?r))"
    "set (ring_list (rp_ring ?r)) = {t. t < rp_capacity ?r \<and> phase (control ?r t) = Some Free}"
    using world_invD(1) [OF inv] by (auto simp: repo_ok_def)
  have so: "s < rp_capacity ?r \<Longrightarrow> phase (control ?r s) \<noteq> None \<and>
      nrefs (sl_control (rp_slots ?r ! s)) = on_slot s ?m" for s
    using world_invD(3) [OF inv, of s] by (auto simp: slot_ok_def control_def)
  have "\<forall>e \<in> set (rp_slots ?r). phase (sl_control e) \<noteq> None"
    using so ro(1) by (fastforce simp: in_set_conv_nth control_def)
  from count_list_phase [OF this] ro(1) have sum: "count_phase ?r Free + count_phase ?r Writing +
      count_phase ?r Live + count_phase ?r Retired + count_phase ?r Releasing +
      count_phase ?r Cancelled = rp_capacity ?r"
    by (simp add: count_phase_def)
  have "length (ring_list (rp_ring ?r)) =
      length (filter (\<lambda>t. phase (control ?r t) = Some Free) [0..<rp_capacity ?r])"
    by (rule filter_upt_complete) (use ro in auto)
  also have "\<dots> = count_phase ?r Free"
  proof -
    have "rp_slots ?r = map ((!) (rp_slots ?r)) [0..<rp_capacity ?r]" using ro(1) by (simp add: map_nth flip: ro(1))
    then have "count_phase ?r Free = length (filter (\<lambda>e. phase (sl_control e) = Some Free)
        (map ((!) (rp_slots ?r)) [0..<rp_capacity ?r]))" by (simp add: count_phase_def)
    then show ?thesis by (simp add: filter_map o_def control_def)
  qed
  finally have ready: "ready_slots ?r = count_phase ?r Free"
    using ring_size_list [OF ro(2)] by (simp add: ready_slots_def)
  have "sum_list (map (\<lambda>e. nrefs (sl_control e)) (rp_slots ?r)) = (\<Sum>s<rp_capacity ?r. on_slot s ?m)"
    unfolding sum_list_nth ro(1) using so by (intro sum.cong) auto
  also have "\<dots> = size ?m"
    by (rule size_on_slots) (use slot_of_lease(1) [OF inv] in auto)
  finally show ?thesis using sum ready by (simp add: repo_stats_def)
qed

theorem stats_account_for_everything_witness:
  "st_leases (repo_stats (w_repo ex_live)) = 1 \<and> ready_slots (w_repo ex_live) = 1"
  using stats_account_for_everything [OF reachable_ex_live]
  by (simp add: ex_live_def u64_def) (simp add: ex_repo_def ready_slots_def ring_size_def ring_init_def)

section \<open>Exact effects of retirement, rescue and reclaim\<close>

text \<open>
  Policy retirement under a caller's own lease succeeds exactly when the slot is live and
  that lease is the only one; it then moves the phase to \<open>Retired\<close> and nothing else.
\<close>

theorem retire_if_only_reader_exact:
  assumes "reachable w" and "h \<in># w_leases w"
  shows "retire_if_only_reader (w_repo w) (own_lease w h) =
    (if phase (control (w_repo w) (h_slot h)) = Some Live \<and>
        on_slot (h_slot h) (w_leases w + w_writers w) = 1
     then (set_control (w_repo w) (h_slot h) (state Retired 1), True) else (w_repo w, False))"
proof -
  let ?v = "control (w_repo w) (h_slot h)"
  have n: "nrefs ?v = on_slot (h_slot h) (w_leases w + w_writers w)"
    using slot_of_lease(3) [OF reachable_inv [OF assms(1)], of h] assms(2) by simp
  have "?v = state Live 1 \<longleftrightarrow> phase ?v = Some Live \<and> nrefs ?v = 1"
  proof
    assume a: "phase ?v = Some Live \<and> nrefs ?v = 1"
    then have "drop_bit phase_shift ?v = 2" by (auto simp: phase_def Let_def split: if_splits)
    then have "unat ?v div 2 ^ 60 = 2" using phase_bits [of ?v] by simp
    moreover have "unat ?v mod 2 ^ 60 = 1" using a by (simp add: nrefs_mod)
    ultimately have "unat ?v = 2 * 2 ^ 60 + 1" using div_mult_mod_eq [of "unat ?v" "2 ^ 60"] by simp
    then show "?v = state Live 1" by (simp add: word_unat_eq_iff unat_state)
  qed simp
  then show ?thesis using n by (simp add: retire_if_only_reader_def Let_def)
qed

theorem retire_if_only_reader_exact_witness:
  "retire_if_only_reader (w_repo ex_live) (own_lease ex_live ex_handle) =
    (ex_repo (state Retired 1), True)"
  using retire_if_only_reader_exact [OF reachable_ex_live, of ex_handle]
  by (simp add: ex_live_def ex_handle_def ex_repo_def control_def set_control_def)

text \<open>
  \<open>retire\<close> answers true exactly when the handle names the live generation of its slot (and
  one more pin is representable); it then changes that slot's phase to \<open>Retired\<close> and leaves the lease
  count, every other slot, the ready queue and the sequence untouched. Otherwise nothing changes.
\<close>

theorem retire_exact:
  assumes "reachable w" and "retire (w_repo w) h = (r', b)"
  shows "if b then lease_ok (w_repo w) h \<and> phase (control (w_repo w) (h_slot h)) = Some Live \<and>
       r' = set_control (w_repo w) (h_slot h) (state Retired (refs (control (w_repo w) (h_slot h))))
     else r' = w_repo w \<and> snd (try_pin (w_repo w) h) = None"
proof (cases "try_pin (w_repo w) h")
  case (Pair r1 res)
  note inv = reachable_inv [OF assms(1)]
  have len: "length (rp_slots (w_repo w)) = rp_capacity (w_repo w)"
    using world_invD(1) [OF inv] by (simp add: repo_ok_def)
  show ?thesis
  proof (cases res)
    case None
    then show ?thesis using try_pin_restores [OF inv] Pair assms(2) by (auto simp: retire_def)
  next
    case (Some h')
    let ?v = "control (w_repo w) (h_slot h)"
    note p = try_pin_Some [OF inv Pair [unfolded Some]]
    have s: "h_slot h < length (rp_slots (w_repo w))" using p(2) len by (simp add: lease_ok_def)
    have rm: "refs ?v \<noteq> ref_mask"
      using Pair Some p(1) by (auto simp: try_pin_def try_pin_slot_def acquire_def split: if_splits option.splits)
    note a = acquire_word [OF rm]
    have "refs (?v + 1) \<noteq> 0" using a(2) by (simp add: refs_eq_iff)
    then have m: "state Retired (refs (?v + 1)) - 1 = state Retired (refs ?v)"
    proof -
      have l: "unat (refs ?v) + 1 < 2 ^ 60" "unat (refs (?v + 1)) = unat (refs ?v) + 1"
        using a(2) nrefs_less [of "?v + 1"] by (simp_all add: nrefs_def)
      then have "unat (state Retired (refs (?v + 1))) = unat (state Retired (refs ?v)) + 1"
        by (simp add: unat_state)
      moreover have "state Retired (refs (?v + 1)) \<noteq> 0" using calculation by auto
      ultimately have "unat (state Retired (refs (?v + 1)) - 1) = unat (state Retired (refs ?v))"
        using unat_minus_one [of "state Retired (refs (?v + 1))"] by simp
      then show ?thesis by (simp add: word_unat_eq_iff)
    qed
    have "retire (w_repo w) h = (set_control (w_repo w) (h_slot h) (state Retired (refs ?v)), True)"
      using Pair Some p(1,3,4) s a(1) m
      by (simp add: retire_def retire_cas_def Let_def control_set_control lease_reset_def)
        (simp add: set_control_def)
    then show ?thesis using assms(2) p(2,3) by auto
  qed
qed

theorem retire_exact_witness: "retire (w_repo ex_retired) ex_handle = (w_repo ex_retired, False)"
proof -
  have "\<not> snd (retire (w_repo ex_retired) ex_handle)"
    using retire_exact [OF reachable_ex_retired surjective_pairing, of ex_handle]
    by (auto simp: ex_retired_def ex_repo_def ex_handle_def control_def)
  then show ?thesis using retire_exact [OF reachable_ex_retired surjective_pairing, of ex_handle]
    by (simp add: prod_eq_iff)
qed

text \<open>
  Claim C35. Once a handle's slot is retired (or its reservation was cancelled) and its last lease is
  gone, reclaiming with a callback that releases the bundle succeeds: the callback is run on that
  handle's own record, the slot becomes free and ready, and every other slot is untouched.
\<close>

theorem reclaim_completes:
  assumes "reachable w" and "w_reclaiming w = None" and "h_slot h < rp_capacity (w_repo w)"
    and "sl_generation (rp_slots (w_repo w) ! h_slot h) = h_generation h"
    and "phase (control (w_repo w) (h_slot h)) \<in> {Some Retired, Some Cancelled}"
    and "on_slot (h_slot h) (w_leases w + w_writers w) = 0"
    and "release (lease_record (w_repo w) h) = Inr True"
  shows "\<exists>r'. try_reclaim (w_repo w) h (Some release) = (r', Inr Reclaimed) \<and>
    phase (control r' (h_slot h)) = Some Free \<and> br_handle (lease_record (w_repo w) h) = h \<and>
    ring_list (rp_ring r') = ring_list (rp_ring (w_repo w)) @ [h_slot h] \<and>
    (\<forall>s. s \<noteq> h_slot h \<longrightarrow> rp_slots r' ! s = rp_slots (w_repo w) ! s)"
proof -
  let ?r = "w_repo w" and ?r1 = "(set_control (w_repo w) (h_slot h) (state Releasing 0))\<lparr>rp_reclaim_owner := True\<rparr>"
  note inv = reachable_inv [OF assms(1)]
  have own: "\<not> rp_reclaim_owner ?r" using inv assms(2) by (simp add: world_inv_def Let_def)
  note so = world_invD(3) [OF inv assms(3)]
  have g: "h_generation h \<noteq> 0" and rc: "br_handle (lease_record ?r h) = h"
    and nr: "refs (control ?r (h_slot h)) = 0"
    using so assms(4-6) by (auto simp: slot_ok_def control_def lease_record_def refs_eq_iff)
  have b: "reclaim_begin ?r h = Inr ?r1"
    using own assms(3-5) g nr by (auto simp: reclaim_begin_def reclaimable_def Let_def)
  have "reachable (w\<lparr>w_repo := ?r1, w_reclaiming := Some h\<rparr>)"
    by (rule reachable.step [OF assms(1) wstep.reclaim_start [OF b]])
  from reclaim_push_ok [OF this, of h] obtain r' where
    f: "reclaim_finish ?r1 (h_slot h) = Inr r'" "phase (control r' (h_slot h)) = Some Free"
    "ring_list (rp_ring r') = ring_list (rp_ring ?r) @ [h_slot h]" by auto
  have len: "h_slot h < length (rp_slots ?r)" using world_invD(1) [OF inv] assms(3) by (simp add: repo_ok_def)
  have rec: "lease_record ?r1 h = lease_record ?r h" using len by (simp add: lease_record_def)
  have "\<forall>s. s \<noteq> h_slot h \<longrightarrow> rp_slots r' ! s = rp_slots ?r ! s"
    using f(1) by (auto simp: reclaim_finish_def set_control_def split: sum.splits)
  moreover have "try_reclaim ?r h (Some release) = (r', Inr Reclaimed)"
    using b f(1) assms(3,7) g rec by (simp add: try_reclaim_def)
  ultimately show ?thesis using f rc by blast
qed

theorem reclaim_completes_witness:
  "\<exists>r'. try_reclaim (w_repo ex_retired) ex_handle (Some (\<lambda>_. Inr True)) = (r', Inr Reclaimed) \<and>
     ring_list (rp_ring r') = [1, 0]"
  using reclaim_completes [OF reachable_ex_retired, of ex_handle "\<lambda>_. Inr True"]
  by (auto simp: ex_retired_def ex_repo_ring ex_handle_def) (auto simp: ex_repo_def control_def)

end
