(* ===== verification/Page_Pools.thy ===== *)
theory Page_Pools
  imports Prelude
begin

text \<open>
  The three allocators behind the interface \<open>KvPhysicalPageAllocator\<close>
  (\<open>src/src/qwen_executor.hpp\<close>): the arena shared by all requests (\<open>GlobalKvPagePool\<close>), the private
  pool of a bounded request with a scratch reserve (\<open>LocalKvPagePool\<close>), and the per-request quota
  leased from a parent allocator (\<open>SharedKvPagePool\<close>). A vector used as a stack keeps its C++ order:
  \<open>back()\<close> is \<open>last\<close>, \<open>pop_back()\<close> is \<open>butlast\<close>. A mutex-protected member function is one
  transition. The locale \<open>page_allocator\<close> is what the page table and the quota pool rely on.
\<close>

section \<open>The interface\<close>

locale page_allocator =
  fixes inv :: "'a \<Rightarrow> bool"
    and owned :: "'a \<Rightarrow> int set"
    and capacity :: "'a \<Rightarrow> nat"
    and alloc :: "'a \<Rightarrow> 'a \<times> int result"
    and release :: "'a \<Rightarrow> int list \<Rightarrow> 'a"
  assumes alloc_ok: "inv a \<Longrightarrow> alloc a = (a', Inr p) \<Longrightarrow>
      inv a' \<and> p \<notin> owned a \<and> owned a' = insert p (owned a) \<and> capacity a' = capacity a"
    and alloc_err: "inv a \<Longrightarrow> alloc a = (a', Inl e) \<Longrightarrow> a' = a"
    and release_ok: "inv a \<Longrightarrow> inv (release a ps) \<and> capacity (release a ps) = capacity a \<and>
      owned (release a ps) \<subseteq> owned a \<and> owned a - set ps \<subseteq> owned (release a ps)"
    and owned_range: "inv a \<Longrightarrow> p \<in> owned a \<Longrightarrow> 0 \<le> p \<and> p < int (capacity a)"
begin

lemma alloc_range: "inv a \<Longrightarrow> alloc a = (a', Inr p) \<Longrightarrow> 0 \<le> p \<and> p < int (capacity a)"
  using alloc_ok owned_range by fastforce

lemma release_inv: "inv a \<Longrightarrow> inv (release a ps)"
  using release_ok by blast

lemma release_keeps: "inv a \<Longrightarrow> p \<in> owned a \<Longrightarrow> p \<notin> set ps \<Longrightarrow> p \<in> owned (release a ps)"
  using release_ok by blast

lemma release_sub: "inv a \<Longrightarrow> owned (release a ps) \<subseteq> owned a"
  using release_ok by blast

lemma release_capacity: "inv a \<Longrightarrow> capacity (release a ps) = capacity a"
  using release_ok by blast

end

text \<open>Pools that give every released page back (the global arena keeps pinned pages out).\<close>

locale exact_page_allocator = page_allocator +
  assumes release_exact: "inv a \<Longrightarrow> owned (release a ps) = owned a - set ps"
begin

lemma alloc_release:
  "inv a \<Longrightarrow> alloc a = (a', Inr p) \<Longrightarrow> owned (release a' [p]) = owned a"
  using alloc_ok release_exact by fastforce

end

text \<open>The test \<open>page < 0 || uint32_t(page) >= total\<close>, negated, and a page as an index.\<close>

definition in_pool :: "int \<Rightarrow> nat \<Rightarrow> bool" where
  "in_pool p n \<longleftrightarrow> 0 \<le> p \<and> nat p < n"

definition marked :: "bool list \<Rightarrow> int set" where
  "marked bs = {p. in_pool p (length bs) \<and> bs ! nat p}"

lemma nth_pool_update:
  "in_pool p (length xs) \<Longrightarrow> in_pool q (length xs) \<Longrightarrow>
     (xs[nat p := v]) ! nat q = (if q = p then v else xs ! nat q)"
  by (auto simp: in_pool_def nth_list_update)

lemma marked_update:
  assumes "in_pool p (length bs)"
  shows "marked (bs[nat p := b]) = (if b then insert p (marked bs) else marked bs - {p})"
proof (rule set_eqI)
  fix q
  show "q \<in> marked (bs[nat p := b]) \<longleftrightarrow> q \<in> (if b then insert p (marked bs) else marked bs - {p})"
    using assms nth_pool_update [OF assms, of q b] by (cases "q = p") (auto simp: marked_def)
qed

lemma marked_range: "p \<in> marked bs \<Longrightarrow> in_pool p (length bs)"
  by (simp add: marked_def)

lemma card_marked: "card (marked bs) = length (filter id bs)"
proof -
  have e: "marked bs = int ` {i. i < length bs \<and> bs ! i}"
    by (force simp: marked_def in_pool_def)
  have "card (marked bs) = card {i. i < length bs \<and> bs ! i}"
    unfolding e by (rule card_image) (simp add: inj_on_def)
  then show ?thesis by (simp add: length_filter_conv_card)
qed

lemma finite_marked [simp]: "finite (marked bs)"
proof -
  have "marked bs = int ` {i. i < length bs \<and> bs ! i}" by (force simp: marked_def in_pool_def)
  then show ?thesis by simp
qed

lemma butlast_last_facts:
  assumes "xs \<noteq> []" and "distinct xs"
  shows "distinct (butlast xs)" and "last xs \<notin> set (butlast xs)"
    and "set xs = insert (last xs) (set (butlast xs))"
proof -
  have e: "xs = butlast xs @ [last xs]" using assms(1) by simp
  have "distinct (butlast xs @ [last xs])" using assms(2) e by simp
  then show "distinct (butlast xs)" and "last xs \<notin> set (butlast xs)" by auto
  show "set xs = insert (last xs) (set (butlast xs))" by (subst e) simp
qed

section \<open>GlobalKvPagePool\<close>

record gpool =
  gp_total :: nat
  gp_page_size :: nat
  gp_free :: "int list"
  gp_pin :: "nat list"         \<comment> \<open>\<open>page_pin_refcount_\<close>\<close>
  gp_allocated :: "bool list"
  gp_pinned :: nat
  gp_used :: nat

definition gp_new :: "nat \<Rightarrow> nat \<Rightarrow> gpool" where
  "gp_new tot page_size = \<lparr>gp_total = tot, gp_page_size = page_size,
     gp_free = map (\<lambda>i. int (tot - 1 - i)) [0..<tot], gp_pin = replicate tot 0,
     gp_allocated = replicate tot False, gp_pinned = 0, gp_used = 0\<rparr>"

text \<open>One turn under the lock: pop the free stack, or report that it is empty.\<close>

definition gp_pop :: "gpool \<Rightarrow> (gpool \<times> int) option" where
  "gp_pop g = (if gp_free g = [] then None
     else let page = last (gp_free g) in
       Some (g\<lparr>gp_free := butlast (gp_free g), gp_allocated := (gp_allocated g)[nat page := True],
               gp_used := gp_used g + 1\<rparr>, page))"

text \<open>
  \<open>allocate_physical_page\<close> with an eviction callback. The callback belongs to the prefix cache: it
  is a parameter that acts on the pool and on its own state \<open>c\<close> and answers the number of entries it
  evicted. The loop ends when a page is free or the callback answers 0; nothing else bounds it, so
  the definition is partial (\<open>None\<close>: the loop does not end).
\<close>

partial_function (option) gp_alloc_evict ::
  "(gpool \<times> 'c \<Rightarrow> (gpool \<times> 'c) \<times> nat) \<Rightarrow> gpool \<times> 'c \<Rightarrow> ((gpool \<times> 'c) \<times> int result) option" where
  "gp_alloc_evict evict s = (case gp_pop (fst s) of
      Some (g', page) \<Rightarrow> Some ((g', snd s), Inr page)
    | None \<Rightarrow> (case evict s of (s', k) \<Rightarrow>
        if k = 0 then Some (s', Inl RuntimeError) else gp_alloc_evict evict s'))"

text \<open>Without a callback (\<open>evict_cb_\<close> empty) the loop body runs once.\<close>

definition gp_alloc :: "gpool \<Rightarrow> gpool \<times> int result" where
  "gp_alloc g = (case gp_pop g of Some (g', page) \<Rightarrow> (g', Inr page) | None \<Rightarrow> (g, Inl RuntimeError))"

fun gp_release :: "gpool \<Rightarrow> int list \<Rightarrow> gpool" where
  "gp_release g [] = g"
| "gp_release g (page # pages) =
     (if \<not> in_pool page (gp_total g) then gp_release g pages
      else if 0 < gp_pin g ! nat page \<or> \<not> gp_allocated g ! nat page then gp_release g pages
      else gp_release (g\<lparr>gp_allocated := (gp_allocated g)[nat page := False],
             gp_free := gp_free g @ [page],
             gp_used := (if 0 < gp_used g then gp_used g - 1 else gp_used g)\<rparr>) pages)"

fun gp_pin_pages :: "gpool \<Rightarrow> int list \<Rightarrow> gpool" where
  "gp_pin_pages g [] = g"
| "gp_pin_pages g (page # pages) =
     (if \<not> in_pool page (gp_total g) then gp_pin_pages g pages
      else gp_pin_pages (g\<lparr>gp_pin := (gp_pin g)[nat page := u32 (gp_pin g ! nat page + 1)],
             gp_pinned := (if gp_pin g ! nat page = 0 then gp_pinned g + 1 else gp_pinned g)\<rparr>) pages)"

fun gp_unpin_pages :: "gpool \<Rightarrow> int list \<Rightarrow> gpool" where
  "gp_unpin_pages g [] = g"
| "gp_unpin_pages g (page # pages) =
     (if \<not> in_pool page (gp_total g) then gp_unpin_pages g pages
      else if gp_pin g ! nat page = 0 then gp_unpin_pages g pages
      else gp_unpin_pages (g\<lparr>gp_pin := (gp_pin g)[nat page := gp_pin g ! nat page - 1],
             gp_pinned := (if gp_pin g ! nat page = 1 then gp_pinned g - 1 else gp_pinned g)\<rparr>) pages)"

definition gp_free_pages :: "gpool \<Rightarrow> nat" where "gp_free_pages g = length (gp_free g)"

definition gp_owned :: "gpool \<Rightarrow> int set" where "gp_owned g = marked (gp_allocated g)"

definition gp_ok :: "gpool \<Rightarrow> bool" where
  "gp_ok g \<longleftrightarrow> length (gp_allocated g) = gp_total g \<and> length (gp_pin g) = gp_total g \<and>
     distinct (gp_free g) \<and>
     set (gp_free g) = {p. in_pool p (gp_total g) \<and> \<not> gp_allocated g ! nat p} \<and>
     gp_used g = card (gp_owned g) \<and>
     gp_pinned g = length (filter (\<lambda>k. 0 < k) (gp_pin g))"

lemma gp_ok_new: "gp_ok (gp_new n ps)"
proof -
  have "set (map (\<lambda>i. int (n - 1 - i)) [0..<n]) = {p. in_pool p n}"
  proof (intro set_eqI iffI)
    fix p assume "p \<in> {p. in_pool p n}"
    then have "p = int (n - 1 - (n - 1 - nat p))" "n - 1 - nat p < n" by (auto simp: in_pool_def)
    then show "p \<in> set (map (\<lambda>i. int (n - 1 - i)) [0..<n])" by force
  qed (auto simp: in_pool_def)
  moreover have "distinct (map (\<lambda>i. int (n - 1 - i)) [0..<n])"
    by (auto simp: distinct_map inj_on_def)
  moreover have "marked (replicate n False) = {}" by (auto simp: marked_def in_pool_def)
  ultimately show ?thesis by (auto simp: gp_ok_def gp_new_def gp_owned_def in_pool_def)
qed

lemma gp_pop_facts:
  assumes ok: "gp_ok g" and pop: "gp_pop g = Some (g', p)"
  shows "gp_ok g'" and "p \<notin> gp_owned g" and "gp_owned g' = insert p (gp_owned g)"
    and "gp_total g' = gp_total g" and "gp_pin g' = gp_pin g"
proof -
  have ne: "gp_free g \<noteq> []" and p: "p = last (gp_free g)" and
    g': "g' = g\<lparr>gp_free := butlast (gp_free g), gp_allocated := (gp_allocated g)[nat p := True],
      gp_used := gp_used g + 1\<rparr>"
    using pop by (auto simp: gp_pop_def Let_def split: if_splits)
  have len: "length (gp_allocated g) = gp_total g"
    and fr: "set (gp_free g) = {p. in_pool p (gp_total g) \<and> \<not> gp_allocated g ! nat p}"
    and d: "distinct (gp_free g)"
    using ok by (auto simp: gp_ok_def)
  have pin: "in_pool p (gp_total g)" "\<not> gp_allocated g ! nat p" using ne p fr last_in_set by blast+
  show fresh: "p \<notin> gp_owned g" using pin by (simp add: gp_owned_def marked_def)
  show own: "gp_owned g' = insert p (gp_owned g)"
    using g' pin len by (simp add: gp_owned_def marked_update)
  have "set (butlast (gp_free g)) = set (gp_free g) - {p}"
    using butlast_last_facts [OF ne d] p by auto
  also have "\<dots> = {q. in_pool q (gp_total g) \<and> \<not> gp_allocated g' ! nat q}"
    using fr pin(1) g' len nth_pool_update [of p "gp_allocated g" _ True] by (auto split: if_splits)
  finally have "set (gp_free g') = {q. in_pool q (gp_total g') \<and> \<not> gp_allocated g' ! nat q}"
    using g' by simp
  moreover have "gp_used g' = card (gp_owned g')"
    using ok g' own fresh by (simp add: gp_ok_def gp_owned_def)
  ultimately show "gp_ok g'" using ok g' butlast_last_facts [OF ne d] by (simp add: gp_ok_def)
  show "gp_total g' = gp_total g" and "gp_pin g' = gp_pin g" using g' by simp_all
qed

lemma gp_release_step:
  assumes ok: "gp_ok g" and page: "in_pool p (gp_total g)" "gp_allocated g ! nat p"
  defines "g' \<equiv> g\<lparr>gp_allocated := (gp_allocated g)[nat p := False], gp_free := gp_free g @ [p],
     gp_used := (if 0 < gp_used g then gp_used g - 1 else gp_used g)\<rparr>"
  shows "gp_ok g'" and "gp_owned g' = gp_owned g - {p}"
proof -
  have len: "length (gp_allocated g) = gp_total g"
    and fr: "set (gp_free g) = {p. in_pool p (gp_total g) \<and> \<not> gp_allocated g ! nat p}"
    using ok by (auto simp: gp_ok_def)
  have p: "p \<in> gp_owned g" using page len by (simp add: gp_owned_def marked_def)
  show own: "gp_owned g' = gp_owned g - {p}"
    using page len by (simp add: g'_def gp_owned_def marked_update)
  have fin: "finite (gp_owned g)" by (simp add: gp_owned_def)
  then have "0 < gp_used g" using ok p by (auto simp: gp_ok_def card_gt_0_iff)
  then have "gp_used g' = card (gp_owned g')"
    using ok own p fin by (simp add: g'_def gp_ok_def)
  moreover have "insert p (set (gp_free g)) = {q. in_pool q (gp_total g) \<and> \<not> gp_allocated g' ! nat q}"
    using fr page len nth_pool_update [of p "gp_allocated g" _ False]
    by (auto simp: g'_def split: if_splits)
  moreover have "p \<notin> set (gp_free g)" using fr page by simp
  ultimately show "gp_ok g'" using ok by (simp add: gp_ok_def g'_def)
qed

lemma gp_release_facts:
  assumes "gp_ok g"
  shows "gp_ok (gp_release g ps)"
    and "gp_owned (gp_release g ps) =
      gp_owned g - {p \<in> set ps. in_pool p (gp_total g) \<and> gp_pin g ! nat p = 0}"
    and "gp_total (gp_release g ps) = gp_total g" and "gp_pin (gp_release g ps) = gp_pin g"
proof -
  have "gp_ok (gp_release g ps) \<and> gp_owned (gp_release g ps) =
      gp_owned g - {p \<in> set ps. in_pool p (gp_total g) \<and> gp_pin g ! nat p = 0} \<and>
      gp_total (gp_release g ps) = gp_total g \<and> gp_pin (gp_release g ps) = gp_pin g"
    using assms
  proof (induction g ps rule: gp_release.induct)
    case (2 g p ps)
    have len: "length (gp_allocated g) = gp_total g" using 2(4) by (simp add: gp_ok_def)
    consider "\<not> in_pool p (gp_total g)"
      | "in_pool p (gp_total g)" "0 < gp_pin g ! nat p \<or> \<not> gp_allocated g ! nat p"
      | "in_pool p (gp_total g)" "gp_pin g ! nat p = 0" "gp_allocated g ! nat p" by blast
    then show ?case
    proof cases
      case 1
      then show ?thesis using "2.IH"(1) "2.prems" by auto
    next
      case c: 2
      then have "p \<notin> gp_owned g \<or> gp_pin g ! nat p \<noteq> 0" by (auto simp: gp_owned_def marked_def)
      then show ?thesis using c "2.IH"(2) "2.prems" by auto
    next
      case c: 3
      show ?thesis using c "2.IH"(3) gp_release_step [OF "2.prems" c(1,3)] by auto
    qed
  qed simp
  then show "gp_ok (gp_release g ps)"
    and "gp_owned (gp_release g ps) =
      gp_owned g - {p \<in> set ps. in_pool p (gp_total g) \<and> gp_pin g ! nat p = 0}"
    and "gp_total (gp_release g ps) = gp_total g" and "gp_pin (gp_release g ps) = gp_pin g" by auto
qed

lemma gp_owned_range: "gp_ok g \<Longrightarrow> p \<in> gp_owned g \<Longrightarrow> in_pool p (gp_total g)"
  using marked_range [of p "gp_allocated g"] by (simp add: gp_owned_def gp_ok_def)

interpretation global: page_allocator gp_ok gp_owned gp_total gp_alloc gp_release
proof unfold_locales
  fix g g' p
  assume ok: "gp_ok g" and al: "gp_alloc g = (g', Inr p)"
  have pop: "gp_pop g = Some (g', p)" using al by (auto simp: gp_alloc_def split: option.splits)
  show "gp_ok g' \<and> p \<notin> gp_owned g \<and> gp_owned g' = insert p (gp_owned g) \<and> gp_total g' = gp_total g"
    using gp_pop_facts [OF ok pop] by blast
next
  fix g g' e
  assume "gp_alloc g = (g', Inl e)"
  then show "g' = g" by (auto simp: gp_alloc_def split: option.splits)
next
  fix g ps
  assume ok: "gp_ok g"
  show "gp_ok (gp_release g ps) \<and> gp_total (gp_release g ps) = gp_total g \<and>
      gp_owned (gp_release g ps) \<subseteq> gp_owned g \<and> gp_owned g - set ps \<subseteq> gp_owned (gp_release g ps)"
    using gp_release_facts [OF ok, of ps] by auto
next
  fix g p
  assume "gp_ok g" "p \<in> gp_owned g"
  then show "0 \<le> p \<and> p < int (gp_total g)" using gp_owned_range by (fastforce simp: in_pool_def)
qed

section \<open>LocalKvPagePool\<close>

record lpool =
  lp_total :: nat
  lp_reserve :: nat
  lp_transient :: bool
  lp_page_size :: nat
  lp_free :: "int list"
  lp_in_free :: "bool list"
  lp_used :: nat

definition checked_total :: "nat \<Rightarrow> nat \<Rightarrow> nat result" where
  "checked_total ordinary reserve = (let n = max 1 ordinary + reserve in
     if INT32_MAX < n then Inl InvalidArgument else Inr n)"

definition lp_new :: "nat \<Rightarrow> nat \<Rightarrow> nat \<Rightarrow> lpool result" where
  "lp_new total_pages page_size reserve = (case checked_total total_pages reserve of
      Inl e \<Rightarrow> Inl e
    | Inr n \<Rightarrow> Inr \<lparr>lp_total = n, lp_reserve = reserve, lp_transient = False,
        lp_page_size = max 1 page_size, lp_free = map (\<lambda>i. int (n - 1 - i)) [0..<n],
        lp_in_free = replicate n True, lp_used = 0\<rparr>)"

definition lp_free_pages :: "lpool \<Rightarrow> nat" where
  "lp_free_pages l = (let free = length (lp_free l) in
     if lp_transient l then free
     else if lp_reserve l < free then free - lp_reserve l else 0)"

definition lp_alloc :: "lpool \<Rightarrow> lpool \<times> int result" where
  "lp_alloc l = (if lp_free_pages l = 0 then (l, Inl RuntimeError)
     else let page = last (lp_free l) in
       (l\<lparr>lp_free := butlast (lp_free l),
          lp_in_free := (if in_pool page (length (lp_in_free l))
                         then (lp_in_free l)[nat page := False] else lp_in_free l),
          lp_used := lp_used l + 1\<rparr>, Inr page))"

fun lp_release :: "lpool \<Rightarrow> int list \<Rightarrow> lpool" where
  "lp_release l [] = l"
| "lp_release l (page # pages) =
     (if \<not> in_pool page (lp_total l) then lp_release l pages
      else if lp_in_free l ! nat page then lp_release l pages
      else lp_release (l\<lparr>lp_in_free := (lp_in_free l)[nat page := True],
             lp_free := lp_free l @ [page],
             lp_used := (if 0 < lp_used l then lp_used l - 1 else lp_used l)\<rparr>) pages)"

definition lp_set_transient :: "lpool \<Rightarrow> bool \<Rightarrow> lpool" where
  "lp_set_transient l b = l\<lparr>lp_transient := b\<rparr>"

definition lp_owned :: "lpool \<Rightarrow> int set" where "lp_owned l = marked (map Not (lp_in_free l))"

definition lp_ok :: "lpool \<Rightarrow> bool" where
  "lp_ok l \<longleftrightarrow> length (lp_in_free l) = lp_total l \<and> distinct (lp_free l) \<and>
     set (lp_free l) = {p. in_pool p (lp_total l) \<and> lp_in_free l ! nat p} \<and>
     lp_used l = card (lp_owned l)"

lemma lp_owned_iff: "p \<in> lp_owned l \<longleftrightarrow> in_pool p (length (lp_in_free l)) \<and> \<not> lp_in_free l ! nat p"
  by (auto simp: lp_owned_def marked_def in_pool_def)

lemma lp_alloc_facts:
  assumes ok: "lp_ok l" and al: "lp_alloc l = (l', Inr p)"
  shows "lp_ok l'" and "p \<notin> lp_owned l" and "lp_owned l' = insert p (lp_owned l)"
    and "lp_total l' = lp_total l"
proof -
  have fp: "lp_free_pages l \<noteq> 0" and p: "p = last (lp_free l)"
    using al by (auto simp: lp_alloc_def Let_def split: if_splits)
  have ne: "lp_free l \<noteq> []" using fp by (auto simp: lp_free_pages_def Let_def split: if_splits)
  have len: "length (lp_in_free l) = lp_total l" and d: "distinct (lp_free l)"
    and fr: "set (lp_free l) = {p. in_pool p (lp_total l) \<and> lp_in_free l ! nat p}"
    using ok by (auto simp: lp_ok_def)
  have pin: "in_pool p (lp_total l)" "lp_in_free l ! nat p" using ne p fr last_in_set by blast+
  have l': "l' = l\<lparr>lp_free := butlast (lp_free l), lp_in_free := (lp_in_free l)[nat p := False],
      lp_used := lp_used l + 1\<rparr>"
    using al fp p pin len by (auto simp: lp_alloc_def Let_def)
  show fresh: "p \<notin> lp_owned l" using pin by (simp add: lp_owned_iff)
  have "map Not (lp_in_free l') = (map Not (lp_in_free l))[nat p := True]"
    using l' by (simp add: map_update)
  then show own: "lp_owned l' = insert p (lp_owned l)"
    using pin len by (simp add: lp_owned_def marked_update)
  have "set (lp_free l') = set (lp_free l) - {p}"
    using butlast_last_facts [OF ne d] p l' by auto
  also have "\<dots> = {q. in_pool q (lp_total l') \<and> lp_in_free l' ! nat q}"
    using fr pin(1) l' len nth_pool_update [of p "lp_in_free l" _ False] by (auto split: if_splits)
  finally show "lp_ok l'" using ok l' own fresh butlast_last_facts [OF ne d]
    by (simp add: lp_ok_def lp_owned_def)
  show "lp_total l' = lp_total l" using l' by simp
qed

lemma lp_release_step:
  assumes ok: "lp_ok l" and page: "in_pool p (lp_total l)" "\<not> lp_in_free l ! nat p"
  defines "l' \<equiv> l\<lparr>lp_in_free := (lp_in_free l)[nat p := True], lp_free := lp_free l @ [p],
     lp_used := (if 0 < lp_used l then lp_used l - 1 else lp_used l)\<rparr>"
  shows "lp_ok l'" and "lp_owned l' = lp_owned l - {p}"
proof -
  have len: "length (lp_in_free l) = lp_total l"
    and fr: "set (lp_free l) = {p. in_pool p (lp_total l) \<and> lp_in_free l ! nat p}"
    using ok by (auto simp: lp_ok_def)
  have p: "p \<in> lp_owned l" using page len by (simp add: lp_owned_iff)
  have "map Not (lp_in_free l') = (map Not (lp_in_free l))[nat p := False]"
    by (simp add: l'_def map_update)
  then show own: "lp_owned l' = lp_owned l - {p}"
    using page len by (simp add: lp_owned_def marked_update)
  have fin: "finite (lp_owned l)" by (simp add: lp_owned_def)
  then have "0 < lp_used l" using ok p by (auto simp: lp_ok_def card_gt_0_iff)
  then have "lp_used l' = card (lp_owned l')" using ok own p fin by (simp add: l'_def lp_ok_def)
  moreover have "insert p (set (lp_free l)) = {q. in_pool q (lp_total l) \<and> lp_in_free l' ! nat q}"
    using fr page len nth_pool_update [of p "lp_in_free l" _ True]
    by (auto simp: l'_def split: if_splits)
  moreover have "p \<notin> set (lp_free l)" using fr page by simp
  ultimately show "lp_ok l'" using ok by (simp add: lp_ok_def l'_def)
qed

lemma lp_release_facts:
  "lp_ok l \<Longrightarrow> lp_ok (lp_release l ps) \<and> lp_owned (lp_release l ps) = lp_owned l - set ps \<and>
     lp_total (lp_release l ps) = lp_total l"
proof (induction l ps rule: lp_release.induct)
  case (2 l p ps)
  have len: "length (lp_in_free l) = lp_total l" using 2(4) by (simp add: lp_ok_def)
  consider "\<not> in_pool p (lp_total l)" | "in_pool p (lp_total l)" "lp_in_free l ! nat p"
    | "in_pool p (lp_total l)" "\<not> lp_in_free l ! nat p" by blast
  then show ?case
  proof cases
    case 1
    then have "p \<notin> lp_owned l" using len by (simp add: lp_owned_iff)
    then show ?thesis using 1 "2.IH"(1) "2.prems" by auto
  next
    case c: 2
    then have "p \<notin> lp_owned l" by (simp add: lp_owned_iff)
    then show ?thesis using c "2.IH"(2) "2.prems" by auto
  next
    case c: 3
    show ?thesis using c "2.IH"(3) lp_release_step [OF "2.prems" c] by auto
  qed
qed simp

interpretation local_pool: exact_page_allocator lp_ok lp_owned lp_total lp_alloc lp_release
proof unfold_locales
  fix l l' p
  assume "lp_ok l" "lp_alloc l = (l', Inr p)"
  from lp_alloc_facts [OF this]
  show "lp_ok l' \<and> p \<notin> lp_owned l \<and> lp_owned l' = insert p (lp_owned l) \<and> lp_total l' = lp_total l"
    by blast
next
  fix l l' e
  assume "lp_alloc l = (l', Inl e)"
  then show "l' = l" by (auto simp: lp_alloc_def Let_def split: if_splits)
next
  fix l ps
  assume "lp_ok l"
  from lp_release_facts [OF this, of ps]
  show "lp_ok (lp_release l ps) \<and> lp_total (lp_release l ps) = lp_total l \<and>
      lp_owned (lp_release l ps) \<subseteq> lp_owned l \<and> lp_owned l - set ps \<subseteq> lp_owned (lp_release l ps)"
    and "lp_owned (lp_release l ps) = lp_owned l - set ps" by auto
next
  fix l p
  assume ok: "lp_ok l" and p: "p \<in> lp_owned l"
  have "length (lp_in_free l) = lp_total l" using ok by (simp add: lp_ok_def)
  then show "0 \<le> p \<and> p < int (lp_total l)" using p by (auto simp: lp_owned_iff in_pool_def)
qed

lemma lp_ok_new: "lp_new t ps rv = Inr l \<Longrightarrow> lp_ok l"
proof -
  assume "lp_new t ps rv = Inr l"
  then obtain n where l: "lp_total l = n" "lp_free l = map (\<lambda>i. int (n - 1 - i)) [0..<n]"
    "lp_in_free l = replicate n True" "lp_used l = 0"
    by (auto simp: lp_new_def split: sum.splits)
  have "set (lp_free l) = {p. in_pool p n}" "distinct (lp_free l)"
    using gp_ok_new [of n ps] l by (auto simp: gp_ok_def gp_new_def in_pool_def)
  moreover have "lp_owned l = {}" using l by (auto simp: lp_owned_iff in_pool_def)
  ultimately show ?thesis using l by (auto simp: lp_ok_def in_pool_def)
qed

end
