(* ===== verification/Page_Table.thy ===== *)
theory Page_Table
  imports Page_Pools
begin

text \<open>
  \<open>QwenExecutor::KvPageTable\<close> (\<open>src/src/qwen_executor.cpp\<close>, declared in \<open>src/src/qwen_executor.hpp\<close>):
  the map from logical to physical KV pages of one sequence, with its copy on the device. The
  physical allocator it points to is threaded through as the field \<open>pt_alloc\<close> (its operations are
  arguments of the definitions), the device tensor is a list of cells of which \<open>None\<close> has never been
  written, and a device copy is reported as failing or not by the argument \<open>cp\<close>. Functions that
  throw return the state they leave behind.
\<close>

record 'p ptab =
  pt_page_size :: nat
  pt_max :: nat
  pt_mode :: string
  pt_pages :: "int list"
  pt_owned :: "bool list"
  pt_device :: "int option list option"
  pt_alloc :: "'p option"
  pt_synced :: nat
  pt_bounded :: bool

type_synonym copy_ok = "nat \<Rightarrow> nat \<Rightarrow> bool"

text \<open>The cast of a 32-bit unsigned value to \<open>int32_t\<close>.\<close>

definition to_i32 :: "nat \<Rightarrow> int" where
  "to_i32 n = (if n \<le> INT32_MAX then int n else int n - 4294967296)"

section \<open>Operations\<close>

definition pt_page_of :: "'p ptab \<Rightarrow> nat \<Rightarrow> int result" where
  "pt_page_of t logical_page =
     (if pt_max t \<le> logical_page then Inl RuntimeError
      else if pt_mode t = ''identity'' then Inr (to_i32 logical_page)
      else if pt_mode t = ''reverse'' then Inr (to_i32 (pt_max t - 1 - logical_page))
      else if pt_mode t = ''evens-first'' then
        (let even_count = u32 (pt_max t + 1) div 2;
             physical_page = (if logical_page < even_count then u32 (logical_page * 2)
                              else u32 ((logical_page - even_count) * 2 + 1)) in
         if pt_max t \<le> physical_page then Inl RuntimeError else Inr (to_i32 physical_page))
      else Inl RuntimeError)"

text \<open>\<open>allocator ? allocator->allocate_physical_page() : allocate_physical_page(lp)\<close>\<close>

definition pt_fetch :: "('p \<Rightarrow> 'p \<times> int result) \<Rightarrow> 'p ptab \<Rightarrow> nat \<Rightarrow> 'p ptab \<times> int result" where
  "pt_fetch palloc t lp = (case pt_alloc t of
      Some p \<Rightarrow> (case palloc p of (p', r) \<Rightarrow> (t\<lparr>pt_alloc := Some p'\<rparr>, r))
    | None \<Rightarrow> (t, pt_page_of t lp))"

definition pt_give_back :: "('p \<Rightarrow> int list \<Rightarrow> 'p) \<Rightarrow> 'p ptab \<Rightarrow> int list \<Rightarrow> 'p ptab" where
  "pt_give_back prelease t released = (case pt_alloc t of
      Some p \<Rightarrow> if released = [] then t else t\<lparr>pt_alloc := Some (prelease p released)\<rparr>
    | None \<Rightarrow> t)"

text \<open>\<open>i >= owned.size() || owned[i]\<close>\<close>

definition pt_is_owned :: "'p ptab \<Rightarrow> nat \<Rightarrow> bool" where
  "pt_is_owned t i \<longleftrightarrow> length (pt_owned t) \<le> i \<or> pt_owned t ! i"

definition pt_reset :: "('p \<Rightarrow> int list \<Rightarrow> 'p) \<Rightarrow> 'p ptab \<Rightarrow> 'p ptab" where
  "pt_reset prelease t =
     (let t1 = pt_give_back prelease t
             (map ((!) (pt_pages t)) (filter (pt_is_owned t) [0..<length (pt_pages t)]))
      in if pt_bounded t
         then t1\<lparr>pt_pages := replicate (pt_max t) (- 1), pt_owned := replicate (pt_max t) False,
                pt_synced := 0\<rparr>
         else t1\<lparr>pt_pages := [], pt_owned := [], pt_synced := 0\<rparr>)"

text \<open>\<open>env_page\<close> and \<open>env_mode\<close> are the values of \<open>QW3_PAGED_KV_PAGE_SIZE\<close> and of the lower-cased
  \<open>QW3_PAGED_KV_ALLOC\<close>.\<close>

definition pt_configure :: "('p \<Rightarrow> int list \<Rightarrow> 'p) \<Rightarrow> nat \<Rightarrow> string \<Rightarrow> nat \<Rightarrow> 'p option \<Rightarrow> 'p ptab \<Rightarrow>
    'p ptab \<times> unit result" where
  "pt_configure prelease env_page env_mode ctx_size alloc t =
     (let page = max 1 env_page;
          mode = (if env_mode = [] then ''identity'' else env_mode);
          t1 = t\<lparr>pt_bounded := False, pt_page_size := page, pt_max := u32 (ctx_size + page - 1) div page,
                 pt_alloc := alloc, pt_mode := mode\<rparr>
      in if mode \<noteq> ''identity'' \<and> mode \<noteq> ''reverse'' \<and> mode \<noteq> ''evens-first''
         then (t1, Inl RuntimeError) else (pt_reset prelease t1, Inr ()))"

definition pt_configure_bounded :: "('p \<Rightarrow> int list \<Rightarrow> 'p) \<Rightarrow> nat \<Rightarrow> string \<Rightarrow> nat \<Rightarrow> 'p option \<Rightarrow>
    'p ptab \<Rightarrow> 'p ptab \<times> unit result" where
  "pt_configure_bounded prelease env_page env_mode storage_tokens alloc t =
     (if list_ex (\<lambda>p. 0 \<le> p) (pt_pages t) then (t, Inl LogicError)
      else then_do (pt_configure prelease env_page env_mode storage_tokens alloc t) (\<lambda>t1 _.
        (t1\<lparr>pt_bounded := True, pt_pages := replicate (pt_max t1) (- 1),
            pt_owned := replicate (pt_max t1) False\<rparr>, Inr ())))"

definition pt_set_allocator :: "'p option \<Rightarrow> 'p ptab \<Rightarrow> 'p ptab \<times> unit result" where
  "pt_set_allocator alloc t =
     (if \<not> pt_bounded t \<and> pt_pages t \<noteq> [] \<or> list_ex (\<lambda>p. 0 \<le> p) (pt_pages t)
      then (t, Inl RuntimeError) else (t\<lparr>pt_alloc := alloc, pt_synced := 0\<rparr>, Inr ()))"

text \<open>Creating the device tensor on first use, and one host-to-device copy of page entries.\<close>

definition pt_device_cells :: "'p ptab \<Rightarrow> int option list" where
  "pt_device_cells t = (case pt_device t of Some d \<Rightarrow> d | None \<Rightarrow> replicate (max (pt_max t) 1) None)"

definition pt_copied :: "'p ptab \<Rightarrow> nat \<Rightarrow> nat \<Rightarrow> int option list" where
  "pt_copied t start n = (let d = pt_device_cells t in
     map (\<lambda>i. if start \<le> i \<and> i < start + n then Some (pt_pages t ! i) else d ! i) [0..<length d])"

definition pt_upload :: "copy_ok \<Rightarrow> 'p ptab \<Rightarrow> nat \<Rightarrow> nat \<Rightarrow> 'p ptab \<times> unit result" where
  "pt_upload cp t start n =
     (if cp start n then (t\<lparr>pt_device := Some (pt_copied t start n)\<rparr>, Inr ())
      else (t\<lparr>pt_device := Some (pt_device_cells t)\<rparr>, Inl RuntimeError))"

definition pt_push :: "'p ptab \<Rightarrow> int \<Rightarrow> 'p ptab" where
  "pt_push t page = t\<lparr>pt_pages := pt_pages t @ [page], pt_owned := pt_owned t @ [True]\<rparr>"

definition pt_put :: "'p ptab \<Rightarrow> nat \<Rightarrow> int \<Rightarrow> 'p ptab" where
  "pt_put t lp page = (let ow = pt_owned t @ replicate (length (pt_pages t) - length (pt_owned t)) True
     in t\<lparr>pt_pages := (pt_pages t)[lp := page], pt_owned := ow[lp := True]\<rparr>)"

text \<open>\<open>while (pages.size() < n)\<close>: \<open>k\<close> iterations remain.\<close>

fun pt_grow :: "('p \<Rightarrow> 'p \<times> int result) \<Rightarrow> nat \<Rightarrow> 'p ptab \<Rightarrow> 'p ptab \<times> unit result" where
  "pt_grow palloc 0 t = (t, Inr ())"
| "pt_grow palloc (Suc k) t = then_do (pt_fetch palloc t (length (pt_pages t)))
     (\<lambda>t1 page. pt_grow palloc k (pt_push t1 page))"

fun pt_grow_checked :: "('p \<Rightarrow> 'p \<times> int result) \<Rightarrow> ('p \<Rightarrow> int list \<Rightarrow> 'p) \<Rightarrow> ('p \<Rightarrow> nat) \<Rightarrow> nat \<Rightarrow>
    'p ptab \<Rightarrow> 'p ptab \<times> unit result" where
  "pt_grow_checked palloc prelease pcap 0 t = (t, Inr ())"
| "pt_grow_checked palloc prelease pcap (Suc k) t =
     then_do (pt_fetch palloc t (length (pt_pages t))) (\<lambda>t1 page.
       (if \<not> in_pool page (case pt_alloc t1 of Some p \<Rightarrow> pcap p | None \<Rightarrow> pt_max t1)
        then (pt_give_back prelease t1 [page], Inl RuntimeError)
        else pt_grow_checked palloc prelease pcap k (pt_push t1 page)))"

fun pt_fill :: "('p \<Rightarrow> 'p \<times> int result) \<Rightarrow> nat list \<Rightarrow> 'p ptab \<Rightarrow> 'p ptab \<times> unit result" where
  "pt_fill palloc [] t = (t, Inr ())"
| "pt_fill palloc (lp # lps) t =
     (if 0 \<le> pt_pages t ! lp then pt_fill palloc lps t
      else then_do (pt_fetch palloc t lp) (\<lambda>t1 page. pt_fill palloc lps (pt_put t1 lp page)))"

text \<open>The loop over the ranges; it accumulates the interval to upload.\<close>

fun pt_fill_ranges :: "('p \<Rightarrow> 'p \<times> int result) \<Rightarrow> (nat \<times> nat) list \<Rightarrow> nat \<times> nat \<Rightarrow> 'p ptab \<Rightarrow>
    'p ptab \<times> (nat \<times> nat) result" where
  "pt_fill_ranges palloc [] up t = (t, Inr up)"
| "pt_fill_ranges palloc ((start, n) # rs) up t =
     (if n = 0 then pt_fill_ranges palloc rs up t
      else if pt_max t \<le> start \<or> pt_max t < start + n then (t, Inl RuntimeError)
      else then_do (pt_grow palloc (start + n - length (pt_pages t)) t) (\<lambda>t1 _.
        then_do (pt_fill palloc [start..<start + n] t1) (\<lambda>t2 _.
          pt_fill_ranges palloc rs (min (fst up) start, max (snd up) (start + n)) t2)))"

definition pt_ensure_ranges :: "('p \<Rightarrow> 'p \<times> int result) \<Rightarrow> copy_ok \<Rightarrow> (nat \<times> nat) list \<Rightarrow> 'p ptab \<Rightarrow>
    'p ptab \<times> unit result" where
  "pt_ensure_ranges palloc cp ranges t =
     (if ranges = [] then (t, Inr ())
      else then_do (pt_fill_ranges palloc ranges (pt_max t, 0) t) (\<lambda>t1 (upload_begin, upload_end).
        (if upload_end \<le> upload_begin then (t1, Inr ())
         else let from = min upload_begin (pt_synced t1) in
           then_do (pt_upload cp t1 from (upload_end - from)) (\<lambda>t2 _.
             (t2\<lparr>pt_synced := max (pt_synced t2) upload_end\<rparr>, Inr ())))))"

definition pt_ensure_pages :: "('p \<Rightarrow> 'p \<times> int result) \<Rightarrow> ('p \<Rightarrow> int list \<Rightarrow> 'p) \<Rightarrow> ('p \<Rightarrow> nat) \<Rightarrow>
    copy_ok \<Rightarrow> nat \<Rightarrow> nat \<Rightarrow> nat \<Rightarrow> 'p ptab \<Rightarrow> 'p ptab \<times> unit result" where
  "pt_ensure_pages palloc prelease pcap cp ctx_size logical_pos n t =
     (if n = 0 then (t, Inr ())
      else if ctx_size < logical_pos + n then (t, Inl RuntimeError)
      else let need = u32 ((logical_pos + n + pt_page_size t - 1) div pt_page_size t) in
        if pt_max t < need then (t, Inl RuntimeError)
        else if pt_bounded t then
          (let first = logical_pos div pt_page_size t in
            pt_ensure_ranges palloc cp [(first, need - first)] t)
        else then_do (pt_grow_checked palloc prelease pcap (need - length (pt_pages t)) t) (\<lambda>t1 _.
          (let t2 = (if pt_device t1 = None
                 then t1\<lparr>pt_device := Some (pt_device_cells t1), pt_synced := 0\<rparr> else t1);
               have_pages = length (pt_pages t2) in
           if pt_synced t2 < have_pages
           then then_do (pt_upload cp t2 (pt_synced t2) (have_pages - pt_synced t2))
             (\<lambda>t3 _. (t3\<lparr>pt_synced := have_pages\<rparr>, Inr ()))
           else (t2, Inr ()))))"

definition pt_ensure_page :: "('p \<Rightarrow> 'p \<times> int result) \<Rightarrow> copy_ok \<Rightarrow> nat \<Rightarrow> 'p ptab \<Rightarrow>
    'p ptab \<times> int result" where
  "pt_ensure_page palloc cp logical_page t =
     (if pt_max t \<le> logical_page then (t, Inl RuntimeError)
      else then_do (pt_grow palloc (Suc logical_page - length (pt_pages t)) t) (\<lambda>t1 _.
        then_do (pt_fill palloc [logical_page] t1) (\<lambda>t2 _.
        then_do (pt_upload cp t2 logical_page 1) (\<lambda>t3 _.
          (t3\<lparr>pt_synced := max (pt_synced t3) (logical_page + 1)\<rparr>, Inr (pt_pages t3 ! logical_page))))))"

definition pt_validate :: "nat \<Rightarrow> 'p ptab \<Rightarrow> unit result" where
  "pt_validate physical_slots t =
     (if pt_page_size t = 0 then Inl RuntimeError
      else let physical_pages = (physical_slots + pt_page_size t - 1) div pt_page_size t in
        if list_ex (\<lambda>page. 0 \<le> page \<and> int physical_pages \<le> page) (pt_pages t)
        then Inl RuntimeError else Inr ())"

definition pt_truncate :: "('p \<Rightarrow> int list \<Rightarrow> 'p) \<Rightarrow> nat \<Rightarrow> 'p ptab \<Rightarrow> 'p ptab \<times> unit result" where
  "pt_truncate prelease n t =
     (if pt_bounded t \<and> n < pt_max t then (t, Inl LogicError)
      else if length (pt_pages t) \<le> n then (t, Inr ())
      else (pt_give_back prelease
              (t\<lparr>pt_pages := take n (pt_pages t), pt_owned := take n (pt_owned t),
                 pt_synced := min (pt_synced t) n\<rparr>)
              (map ((!) (pt_pages t)) (filter (pt_is_owned t) [n..<length (pt_pages t)])), Inr ()))"

definition pt_resident :: "'p ptab \<Rightarrow> nat \<Rightarrow> bool" where
  "pt_resident t lp \<longleftrightarrow> lp < length (pt_pages t) \<and> 0 \<le> pt_pages t ! lp"

text \<open>Marking one logical page absent; an owned physical page is queued for release.\<close>

definition pt_clear :: "'p ptab \<times> int list \<Rightarrow> nat \<Rightarrow> 'p ptab \<times> int list" where
  "pt_clear s lp = (case s of (t, released) \<Rightarrow>
     if pt_pages t ! lp < 0 then (t, released)
     else (t\<lparr>pt_pages := (pt_pages t)[lp := - 1], pt_owned := (pt_owned t)[lp := False]\<rparr>,
           if pt_is_owned t lp then released @ [pt_pages t ! lp] else released))"

text \<open>The end of the range is computed at 32 bits, and so is the length of the upload.\<close>

definition sub32 :: "nat \<Rightarrow> nat \<Rightarrow> nat" where "sub32 a b = u32 (a + 4294967296 - b)"

lemma sub32_le:
  assumes "b \<le> a" and "a \<le> UINT32_MAX"
  shows "sub32 a b = a - b"
proof -
  have e: "a + 4294967296 - b = (a - b) + 4294967296" using assms(1) by linarith
  have "a - b < 4294967296" using assms unfolding UINT32_MAX_def by linarith
  then show ?thesis unfolding sub32_def u32_def e mod_add_self2 by (rule mod_less)
qed

definition pt_release_pages :: "('p \<Rightarrow> int list \<Rightarrow> 'p) \<Rightarrow> copy_ok \<Rightarrow> nat \<Rightarrow> nat \<Rightarrow> 'p ptab \<Rightarrow>
    'p ptab \<times> unit result" where
  "pt_release_pages prelease cp start n t =
     (if n = 0 \<or> length (pt_pages t) \<le> start then (t, Inr ())
      else let stop = min (length (pt_pages t)) (u32 (start + n));
               (t1, released) = foldl pt_clear (t, []) [start..<stop];
               t2 = pt_give_back prelease t1 released in
        if pt_device t2 = None then (t2, Inr ()) else pt_upload cp t2 start (sub32 stop start))"

fun pt_clear_ranges :: "(nat \<times> nat) list \<Rightarrow> 'p ptab \<times> int list \<Rightarrow> nat \<times> nat \<Rightarrow>
    ('p ptab \<times> int list) \<times> nat \<times> nat" where
  "pt_clear_ranges [] s up = (s, up)"
| "pt_clear_ranges ((start, n) # rs) s up =
     (if n = 0 \<or> length (pt_pages (fst s)) \<le> start then pt_clear_ranges rs s up
      else let stop = min (length (pt_pages (fst s))) (u32 (start + n)) in
        pt_clear_ranges rs (foldl pt_clear s [start..<stop]) (min (fst up) start, max (snd up) stop))"

definition pt_release_ranges :: "('p \<Rightarrow> int list \<Rightarrow> 'p) \<Rightarrow> copy_ok \<Rightarrow> (nat \<times> nat) list \<Rightarrow> 'p ptab \<Rightarrow>
    'p ptab \<times> unit result" where
  "pt_release_ranges prelease cp ranges t =
     (if ranges = [] \<or> pt_pages t = [] then (t, Inr ())
      else case pt_clear_ranges ranges (t, []) (length (pt_pages t), 0) of
        ((t1, released), upload_begin, upload_end) \<Rightarrow>
          (let t2 = pt_give_back prelease t1 released in
           if pt_device t2 = None \<or> upload_end \<le> upload_begin then (t2, Inr ())
           else pt_upload cp t2 upload_begin (upload_end - upload_begin)))"

definition pt_adopt :: "copy_ok \<Rightarrow> int list \<Rightarrow> 'p ptab \<Rightarrow> 'p ptab \<times> unit result" where
  "pt_adopt cp shared t =
     (if pt_pages t \<noteq> [] then (t, Inl RuntimeError)
      else if shared = [] then (t, Inr ())
      else if pt_max t < length shared then (t, Inl RuntimeError)
      else then_do (pt_upload cp (t\<lparr>pt_pages := shared, pt_owned := replicate (length shared) False\<rparr>)
                      0 (length shared))
        (\<lambda>t1 _. (t1\<lparr>pt_synced := length shared\<rparr>, Inr ())))"

definition pt_detach :: "nat \<Rightarrow> 'p ptab \<Rightarrow> 'p ptab \<times> int list" where
  "pt_detach start t =
     (if length (pt_pages t) \<le> start then (t, [])
      else (t\<lparr>pt_pages := take start (pt_pages t), pt_owned := take start (pt_owned t),
              pt_synced := min (pt_synced t) start\<rparr>, drop start (pt_pages t)))"

definition pt_physical_slots :: "'p ptab \<Rightarrow> nat" where
  "pt_physical_slots t = max (pt_max t) 1 * pt_page_size t"

end
