(* ===== verification/Shared_Pool.thy ===== *)
theory Shared_Pool
  imports Page_Pools
begin

text \<open>
  \<open>SharedKvPagePool\<close> (\<open>src/src/shared_kv_page_pool.hpp\<close>): a request's lease over a parent allocator.
  Resident pages are taken from the parent when the pool is built and stay leased until it is
  destroyed; scratch pages are borrowed one by one while a reversible probe is active. The parent's
  operations are arguments of the definitions; the lemmas about them are proved in the locale
  \<open>page_allocator\<close>, and the pool is again an instance of that interface.
\<close>

record 'p spool =
  sp_parent :: 'p
  sp_resident :: nat
  sp_reserve :: nat
  sp_pages :: "int list"
  sp_private :: "int list"
  sp_free :: "nat list"
  sp_in_use :: "bool list"
  sp_slots :: "int \<rightharpoonup> nat"
  sp_transient :: bool

text \<open>
  The constructor's loop: \<open>i\<close> pages are leased already, \<open>k\<close> are still to be leased. A page out of
  the parent's range or leased twice is an error; the catch clause returns what was taken.
\<close>

fun sp_fill :: "('p \<Rightarrow> 'p \<times> int result) \<Rightarrow> ('p \<Rightarrow> nat) \<Rightarrow> nat \<Rightarrow> 'p \<Rightarrow> int list \<Rightarrow> (int \<rightharpoonup> nat) \<Rightarrow>
    'p \<times> int list \<times> (int \<rightharpoonup> nat) result" where
  "sp_fill palloc pcap 0 p pages slots = (p, pages, Inr slots)"
| "sp_fill palloc pcap (Suc k) p pages slots = (case palloc p of
      (p', Inl e) \<Rightarrow> (p', pages, Inl e)
    | (p', Inr page) \<Rightarrow>
        if \<not> in_pool page (pcap p') \<or> slots page \<noteq> None
        then (p', pages @ [page], Inl RuntimeError)
        else sp_fill palloc pcap k p' (pages @ [page]) (slots(page \<mapsto> length pages)))"

definition sp_new :: "('p \<Rightarrow> 'p \<times> int result) \<Rightarrow> ('p \<Rightarrow> int list \<Rightarrow> 'p) \<Rightarrow> ('p \<Rightarrow> nat) \<Rightarrow>
    nat \<Rightarrow> nat \<Rightarrow> 'p \<Rightarrow> 'p \<times> 'p spool result" where
  "sp_new palloc prelease pcap resident reserve p =
     (if resident = 0 \<or> INT32_MAX < resident + reserve then (p, Inl InvalidArgument)
      else case sp_fill palloc pcap resident p [] Map.empty of
        (p', pages, Inl e) \<Rightarrow> (prelease p' pages, Inl e)
      | (p', pages, Inr slots) \<Rightarrow> (p', Inr \<lparr>sp_parent = p', sp_resident = resident,
          sp_reserve = reserve, sp_pages = pages, sp_private = [],
          sp_free = map (\<lambda>i. resident - 1 - i) [0..<resident],
          sp_in_use = replicate resident False, sp_slots = slots, sp_transient = False\<rparr>))"

definition sp_destroy :: "('p \<Rightarrow> int list \<Rightarrow> 'p) \<Rightarrow> 'p spool \<Rightarrow> 'p" where
  "sp_destroy prelease s = prelease (prelease (sp_parent s) (sp_private s)) (sp_pages s)"

definition sp_alloc :: "('p \<Rightarrow> 'p \<times> int result) \<Rightarrow> 'p spool \<Rightarrow> 'p spool \<times> int result" where
  "sp_alloc palloc s =
     (if sp_free s \<noteq> [] then
        (let slot = last (sp_free s) in
          (s\<lparr>sp_free := butlast (sp_free s), sp_in_use := (sp_in_use s)[slot := True]\<rparr>,
           Inr (sp_pages s ! slot)))
      else if sp_transient s \<and> length (sp_private s) < sp_reserve s then
        (case palloc (sp_parent s) of
           (p', Inl e) \<Rightarrow> (s\<lparr>sp_parent := p'\<rparr>, Inl e)
         | (p', Inr page) \<Rightarrow> (s\<lparr>sp_parent := p', sp_private := sp_private s @ [page]\<rparr>, Inr page))
      else (s, Inl RuntimeError))"

definition sp_release_one :: "('p \<Rightarrow> int list \<Rightarrow> 'p) \<Rightarrow> 'p spool \<Rightarrow> int \<Rightarrow> 'p spool" where
  "sp_release_one prelease s page = (case sp_slots s page of
        Some slot \<Rightarrow> (if sp_in_use s ! slot
          then s\<lparr>sp_in_use := (sp_in_use s)[slot := False], sp_free := sp_free s @ [slot]\<rparr> else s)
      | None \<Rightarrow> (if page \<in> set (sp_private s)
          then s\<lparr>sp_parent := prelease (sp_parent s) [page],
                 sp_private := remove1 page (sp_private s)\<rparr> else s))"

fun sp_release :: "('p \<Rightarrow> int list \<Rightarrow> 'p) \<Rightarrow> 'p spool \<Rightarrow> int list \<Rightarrow> 'p spool" where
  "sp_release prelease s [] = s"
| "sp_release prelease s (page # ps) = sp_release prelease (sp_release_one prelease s page) ps"

definition sp_free_pages :: "('p \<Rightarrow> nat) \<Rightarrow> 'p spool \<Rightarrow> nat" where
  "sp_free_pages pfree s = length (sp_free s) +
     (if sp_transient s then min (sp_reserve s - length (sp_private s)) (pfree (sp_parent s)) else 0)"

definition sp_used_pages :: "'p spool \<Rightarrow> nat" where
  "sp_used_pages s = sp_resident s - length (sp_free s) + length (sp_private s)"

definition sp_total_pages :: "'p spool \<Rightarrow> nat" where
  "sp_total_pages s = sp_resident s + sp_reserve s"

definition sp_set_transient :: "'p spool \<Rightarrow> bool \<Rightarrow> 'p spool" where
  "sp_set_transient s b = s\<lparr>sp_transient := b\<rparr>"

section \<open>Invariant\<close>

definition sp_shape :: "'p spool \<Rightarrow> bool" where
  "sp_shape s \<longleftrightarrow> distinct (sp_pages s @ sp_private s) \<and>
     length (sp_pages s) = sp_resident s \<and> length (sp_in_use s) = sp_resident s \<and>
     (\<forall>i < sp_resident s. sp_slots s (sp_pages s ! i) = Some i) \<and>
     dom (sp_slots s) = set (sp_pages s) \<and> distinct (sp_free s) \<and>
     set (sp_free s) = {i. i < sp_resident s \<and> \<not> sp_in_use s ! i} \<and>
     length (sp_private s) \<le> sp_reserve s"

definition sp_ok :: "('p \<Rightarrow> bool) \<Rightarrow> ('p \<Rightarrow> int set) \<Rightarrow> 'p spool \<Rightarrow> bool" where
  "sp_ok pinv powned s \<longleftrightarrow> pinv (sp_parent s) \<and> sp_shape s \<and>
     set (sp_pages s) \<union> set (sp_private s) \<subseteq> powned (sp_parent s)"

definition sp_owned :: "'p spool \<Rightarrow> int set" where
  "sp_owned s = {sp_pages s ! i | i. i < sp_resident s \<and> sp_in_use s ! i} \<union> set (sp_private s)"

definition sp_capacity :: "('p \<Rightarrow> nat) \<Rightarrow> 'p spool \<Rightarrow> nat" where
  "sp_capacity pcap s = pcap (sp_parent s)"

lemma sp_shape_slot:
  assumes "sp_shape s" and "sp_slots s p = Some i"
  shows "i < sp_resident s" and "sp_pages s ! i = p" and "p \<in> set (sp_pages s)"
proof -
  have "p \<in> set (sp_pages s)" using assms by (auto simp: sp_shape_def)
  then obtain j where j: "j < sp_resident s" "sp_pages s ! j = p"
    using assms(1) by (auto simp: sp_shape_def in_set_conv_nth)
  then have "sp_slots s p = Some j" using assms(1) by (auto simp: sp_shape_def)
  then show "i < sp_resident s" and "sp_pages s ! i = p" and "p \<in> set (sp_pages s)"
    using assms(2) j \<open>p \<in> set (sp_pages s)\<close> by auto
qed

lemma sp_pages_inj:
  "sp_shape s \<Longrightarrow> i < sp_resident s \<Longrightarrow> j < sp_resident s \<Longrightarrow> sp_pages s ! i = sp_pages s ! j \<Longrightarrow> i = j"
  by (auto simp: sp_shape_def nth_eq_iff_index_eq)

lemma sp_take_slot:
  assumes sh: "sp_shape s" and ne: "sp_free s \<noteq> []"
  defines "i \<equiv> last (sp_free s)"
  defines "s' \<equiv> s\<lparr>sp_free := butlast (sp_free s), sp_in_use := (sp_in_use s)[i := True]\<rparr>"
  shows "sp_shape s'" and "sp_pages s ! i \<notin> sp_owned s"
    and "sp_owned s' = insert (sp_pages s ! i) (sp_owned s)"
proof -
  have d: "distinct (sp_free s)" and fr: "set (sp_free s) = {j. j < sp_resident s \<and> \<not> sp_in_use s ! j}"
    and len: "length (sp_in_use s) = sp_resident s" "length (sp_pages s) = sp_resident s"
    and dd: "distinct (sp_pages s @ sp_private s)"
    using sh by (auto simp: sp_shape_def)
  have i: "i < sp_resident s" "\<not> sp_in_use s ! i" using ne fr last_in_set i_def by blast+
  have iu: "(sp_in_use s)[i := True] ! j = (j = i \<or> sp_in_use s ! j)" if "j < sp_resident s" for j
    using that len i by (auto simp: nth_list_update)
  note bl = butlast_last_facts [OF ne d]
  have "set (butlast (sp_free s)) = set (sp_free s) - {i}" using bl by (auto simp: i_def)
  also have "\<dots> = {j. j < sp_resident s \<and> \<not> (sp_in_use s)[i := True] ! j}"
    unfolding fr by (auto simp: iu)
  finally show "sp_shape s'" using sh bl by (simp add: sp_shape_def s'_def)
  have "sp_pages s ! i \<in> set (sp_pages s)" using i len by simp
  then have "sp_pages s ! i \<notin> set (sp_private s)" using dd by auto
  then show "sp_pages s ! i \<notin> sp_owned s" using i sp_pages_inj [OF sh] by (auto simp: sp_owned_def)
  show "sp_owned s' = insert (sp_pages s ! i) (sp_owned s)"
    using i by (auto simp: sp_owned_def s'_def iu)
qed

lemma sp_give_slot:
  assumes sh: "sp_shape s" and i: "i < sp_resident s" "sp_in_use s ! i"
  defines "s' \<equiv> s\<lparr>sp_in_use := (sp_in_use s)[i := False], sp_free := sp_free s @ [i]\<rparr>"
  shows "sp_shape s'" and "sp_owned s' = sp_owned s - {sp_pages s ! i}"
proof -
  have d: "distinct (sp_free s)" and fr: "set (sp_free s) = {j. j < sp_resident s \<and> \<not> sp_in_use s ! j}"
    and len: "length (sp_in_use s) = sp_resident s" "length (sp_pages s) = sp_resident s"
    and dd: "distinct (sp_pages s @ sp_private s)"
    using sh by (auto simp: sp_shape_def)
  have iu: "(sp_in_use s)[i := False] ! j = (j \<noteq> i \<and> sp_in_use s ! j)" if "j < sp_resident s" for j
    using that len i by (auto simp: nth_list_update)
  have "insert i (set (sp_free s)) = {j. j < sp_resident s \<and> \<not> (sp_in_use s)[i := False] ! j}"
    unfolding fr using i by (auto simp: iu)
  moreover have "i \<notin> set (sp_free s)" using fr i by simp
  ultimately show "sp_shape s'" using sh d by (simp add: sp_shape_def s'_def)
  have "sp_pages s ! i \<in> set (sp_pages s)" using i len by simp
  then have "sp_pages s ! i \<notin> set (sp_private s)" using dd by auto
  then show "sp_owned s' = sp_owned s - {sp_pages s ! i}"
    using sp_pages_inj [OF sh] i by (auto simp: sp_owned_def s'_def iu)
qed

section \<open>The pool over any page allocator\<close>

context page_allocator begin

lemma sp_alloc_facts:
  assumes ok: "sp_ok inv owned s" and al: "sp_alloc alloc s = (s', Inr p)"
  shows "sp_ok inv owned s'" and "p \<notin> sp_owned s" and "sp_owned s' = insert p (sp_owned s)"
    and "sp_capacity capacity s' = sp_capacity capacity s"
proof -
  have sh: "sp_shape s" and pi: "inv (sp_parent s)"
    and sub: "set (sp_pages s) \<union> set (sp_private s) \<subseteq> owned (sp_parent s)"
    using ok by (auto simp: sp_ok_def)
  have "sp_ok inv owned s' \<and> p \<notin> sp_owned s \<and> sp_owned s' = insert p (sp_owned s) \<and>
      sp_capacity capacity s' = sp_capacity capacity s"
  proof (cases "sp_free s = []")
    case False
    then have s': "s' = s\<lparr>sp_free := butlast (sp_free s), sp_in_use := (sp_in_use s)[last (sp_free s) := True]\<rparr>"
      and p: "p = sp_pages s ! last (sp_free s)"
      using al by (auto simp: sp_alloc_def Let_def)
    show ?thesis using sp_take_slot [OF sh False] pi sub
      by (simp add: sp_ok_def s' p sp_capacity_def)
  next
    case True
    then obtain p' where r: "length (sp_private s) < sp_reserve s" and pa: "alloc (sp_parent s) = (p', Inr p)"
      and s': "s' = s\<lparr>sp_parent := p', sp_private := sp_private s @ [p]\<rparr>"
      using al by (auto simp: sp_alloc_def split: if_splits prod.splits sum.splits)
    note a = alloc_ok [OF pi pa]
    have np: "p \<notin> set (sp_pages s)" "p \<notin> set (sp_private s)" using a sub by auto
    have "sp_shape s'" using sh np r by (simp add: sp_shape_def s')
    moreover have "p \<notin> sp_owned s" using np sh by (auto simp: sp_owned_def sp_shape_def)
    moreover have "sp_owned s' = insert p (sp_owned s)" by (auto simp: sp_owned_def s')
    ultimately show ?thesis using a sub by (auto simp: sp_ok_def s' sp_capacity_def)
  qed
  then show "sp_ok inv owned s'" and "p \<notin> sp_owned s" and "sp_owned s' = insert p (sp_owned s)"
    and "sp_capacity capacity s' = sp_capacity capacity s" by auto
qed

lemma sp_alloc_error:
  "sp_ok inv owned s \<Longrightarrow> sp_alloc alloc s = (s', Inl e) \<Longrightarrow> s' = s"
  using alloc_err by (auto simp: sp_alloc_def sp_ok_def Let_def split: if_splits prod.splits sum.splits)

lemma sp_release_one_facts:
  assumes ok: "sp_ok inv owned s"
  shows "sp_ok inv owned (sp_release_one release s p) \<and>
     sp_owned (sp_release_one release s p) = sp_owned s - {p} \<and>
     sp_capacity capacity (sp_release_one release s p) = sp_capacity capacity s"
proof -
  have sh: "sp_shape s" and pi: "inv (sp_parent s)"
    and sub: "set (sp_pages s) \<union> set (sp_private s) \<subseteq> owned (sp_parent s)"
    using ok by (auto simp: sp_ok_def)
  show ?thesis
  proof (cases "sp_slots s p")
    case None
    then have np: "p \<notin> set (sp_pages s)" using sh by (auto simp: sp_shape_def)
    show ?thesis
    proof (cases "p \<in> set (sp_private s)")
      case True
      let ?s = "s\<lparr>sp_parent := release (sp_parent s) [p], sp_private := remove1 p (sp_private s)\<rparr>"
      have d: "distinct (sp_private s)" using sh by (simp add: sp_shape_def)
      have "sp_shape ?s" using sh length_remove1 [of p "sp_private s"] d
        by (auto simp: sp_shape_def)
      moreover have "set (sp_pages s) \<union> set (remove1 p (sp_private s)) \<subseteq> owned (release (sp_parent s) [p])"
      proof -
        have "t \<in> owned (release (sp_parent s) [p])"
          if "t \<in> set (sp_pages s) \<or> t \<in> set (remove1 p (sp_private s))" for t
        proof (rule release_keeps [OF pi])
          show "t \<in> owned (sp_parent s)" using that sub set_remove1_subset by fastforce
          show "t \<notin> set [p]" using that np d by auto
        qed
        then show ?thesis by blast
      qed
      ultimately have "sp_ok inv owned ?s" using release_inv [OF pi] by (simp add: sp_ok_def)
      moreover have "sp_owned ?s = sp_owned s - {p}"
      proof -
        have "sp_pages s ! i \<noteq> p" if "i < sp_resident s" for i
        proof -
          have "length (sp_pages s) = sp_resident s" using sh by (simp add: sp_shape_def)
          then have "sp_pages s ! i \<in> set (sp_pages s)" using that by simp
          then show ?thesis using np by blast
        qed
        then show ?thesis using d by (auto simp: sp_owned_def)
      qed
      moreover have "sp_capacity capacity ?s = sp_capacity capacity s"
        using release_capacity [OF pi] by (simp add: sp_capacity_def)
      ultimately show ?thesis using None True by (simp add: sp_release_one_def)
    next
      case False
      then have "p \<notin> sp_owned s" using np sh by (auto simp: sp_owned_def sp_shape_def)
      then show ?thesis using ok None False by (simp add: sp_release_one_def)
    qed
  next
    case (Some i)
    note i = sp_shape_slot [OF sh Some]
    show ?thesis
    proof (cases "sp_in_use s ! i")
      case True
      have "sp_ok inv owned (s\<lparr>sp_in_use := (sp_in_use s)[i := False], sp_free := sp_free s @ [i]\<rparr>)"
        using sp_give_slot(1) [OF sh i(1) True] pi sub by (simp add: sp_ok_def)
      then show ?thesis using Some True sp_give_slot(2) [OF sh i(1) True] i
        by (simp add: sp_capacity_def sp_release_one_def)
    next
      case False
      have "set (sp_pages s) \<inter> set (sp_private s) = {}" using sh by (simp add: sp_shape_def)
      then have "p \<notin> set (sp_private s)" using i(3) by blast
      moreover have "\<not> sp_in_use s ! j" if "j < sp_resident s" "p = sp_pages s ! j" for j
        using sp_pages_inj [OF sh that(1) i(1)] that(2) i(2) False by simp
      ultimately have "p \<notin> sp_owned s" unfolding sp_owned_def by blast
      then show ?thesis using ok Some False by (simp add: sp_release_one_def)
    qed
  qed
qed

lemma sp_release_facts:
  "sp_ok inv owned s \<Longrightarrow> sp_ok inv owned (sp_release release s ps) \<and>
     sp_owned (sp_release release s ps) = sp_owned s - set ps \<and>
     sp_capacity capacity (sp_release release s ps) = sp_capacity capacity s"
proof (induction ps arbitrary: s)
  case (Cons p ps)
  let ?s = "sp_release_one release s p"
  note one = sp_release_one_facts [OF Cons.prems, of p]
  then have "sp_ok inv owned ?s" by blast
  note IH = Cons.IH [OF this]
  have "sp_owned (sp_release release ?s ps) = sp_owned s - set (p # ps)"
    unfolding conjunct1 [OF conjunct2 [OF IH]] conjunct1 [OF conjunct2 [OF one]] by auto
  with IH one show ?case unfolding sp_release.simps by metis
qed simp

lemma sp_owned_subset:
  assumes "sp_ok inv owned s"
  shows "sp_owned s \<subseteq> owned (sp_parent s)"
proof -
  have len: "length (sp_pages s) = sp_resident s" using assms by (simp add: sp_ok_def sp_shape_def)
  have "sp_owned s \<subseteq> set (sp_pages s) \<union> set (sp_private s)"
    unfolding sp_owned_def len [symmetric] using nth_mem by blast
  then show ?thesis using assms unfolding sp_ok_def by blast
qed

lemma sp_instance: "exact_page_allocator (sp_ok inv owned) sp_owned (sp_capacity capacity)
  (sp_alloc alloc) (sp_release release)"
proof unfold_locales
  fix s s' p
  assume "sp_ok inv owned s" "sp_alloc alloc s = (s', Inr p)"
  from sp_alloc_facts [OF this] show "sp_ok inv owned s' \<and> p \<notin> sp_owned s \<and>
      sp_owned s' = insert p (sp_owned s) \<and> sp_capacity capacity s' = sp_capacity capacity s" by blast
next
  fix s s' e
  assume "sp_ok inv owned s" "sp_alloc alloc s = (s', Inl e)"
  then show "s' = s" by (rule sp_alloc_error)
next
  fix s ps
  assume "sp_ok inv owned s"
  from sp_release_facts [OF this, of ps]
  show "sp_ok inv owned (sp_release release s ps) \<and>
      sp_capacity capacity (sp_release release s ps) = sp_capacity capacity s \<and>
      sp_owned (sp_release release s ps) \<subseteq> sp_owned s \<and>
      sp_owned s - set ps \<subseteq> sp_owned (sp_release release s ps)"
    and "sp_owned (sp_release release s ps) = sp_owned s - set ps" by auto
next
  fix s p
  assume ok: "sp_ok inv owned s" and p: "p \<in> sp_owned s"
  then have "p \<in> owned (sp_parent s)" using sp_owned_subset by blast
  then show "0 \<le> p \<and> p < int (sp_capacity capacity s)"
    using ok owned_range [of "sp_parent s" p] by (simp add: sp_ok_def sp_capacity_def)
qed

end

section \<open>Over the global arena and over a local pool\<close>

interpretation shared_global: exact_page_allocator "sp_ok gp_ok gp_owned" sp_owned
  "sp_capacity gp_total" "sp_alloc gp_alloc" "sp_release gp_release"
  by (rule global.sp_instance)

interpretation shared_local: exact_page_allocator "sp_ok lp_ok lp_owned" sp_owned
  "sp_capacity lp_total" "sp_alloc lp_alloc" "sp_release lp_release"
  by (rule local_pool.sp_instance)

end
