(* ===== verification/Pool_Safety.thy ===== *)
theory Pool_Safety
  imports Shared_Pool
begin

text \<open>
  What the page pools promise their clients: pinned pages stay out of circulation, eviction-driven
  allocation ends, the scratch reserve of a local pool is not eaten by ordinary allocations, and a
  shared pool's resident quota is leased completely at construction, survives whatever the other
  requests do to the arena, and is returned.
\<close>

section \<open>Runs of the global arena\<close>

text \<open>A client of the arena as an explicit sequence of its locked operations.\<close>

datatype gop = Alloc | Release "int list" | Pin "int list" | Unpin "int list"

fun gp_run :: "gpool \<Rightarrow> gop list \<Rightarrow> gpool \<times> int list" where
  "gp_run g [] = (g, [])"
| "gp_run g (Alloc # ops) = (case gp_alloc g of
      (g', Inl e) \<Rightarrow> gp_run g' ops
    | (g', Inr p) \<Rightarrow> (case gp_run g' ops of (g'', out) \<Rightarrow> (g'', p # out)))"
| "gp_run g (Release ps # ops) = gp_run (gp_release g ps) ops"
| "gp_run g (Pin ps # ops) = gp_run (gp_pin_pages g ps) ops"
| "gp_run g (Unpin ps # ops) = gp_run (gp_unpin_pages g ps) ops"

fun pins_in :: "int \<Rightarrow> gop list \<Rightarrow> nat" where
  "pins_in p [] = 0"
| "pins_in p (Pin ps # ops) = count_list ps p + pins_in p ops"
| "pins_in p (_ # ops) = pins_in p ops"

lemma pinned_count_update:
  assumes "i < length ks"
  shows "length (filter (\<lambda>k. 0 < k) (ks[i := v])) + (if 0 < ks ! i then 1 else 0) =
    length (filter (\<lambda>k. 0 < k) ks) + (if 0 < (v :: nat) then 1 else 0)"
  using card_filter_update [OF assms, of "\<lambda>k. 0 < k"] .

lemma gp_pin_step:
  assumes ok: "gp_ok g" and page: "in_pool p (gp_total g)" and fit: "gp_pin g ! nat p < UINT32_MAX"
  shows "gp_ok (g\<lparr>gp_pin := (gp_pin g)[nat p := u32 (gp_pin g ! nat p + 1)],
      gp_pinned := (if gp_pin g ! nat p = 0 then gp_pinned g + 1 else gp_pinned g)\<rparr>)"
proof -
  have i: "nat p < length (gp_pin g)" using ok page by (auto simp: gp_ok_def in_pool_def)
  show ?thesis using ok fit pinned_count_update [OF i, of "gp_pin g ! nat p + 1"]
    by (auto simp: gp_ok_def gp_owned_def)
qed

lemma gp_unpin_ok: "gp_ok g \<Longrightarrow> gp_ok (gp_unpin_pages g ps) \<and>
  gp_owned (gp_unpin_pages g ps) = gp_owned g \<and> gp_total (gp_unpin_pages g ps) = gp_total g"
proof (induction ps arbitrary: g)
  case (Cons p ps)
  show ?case
  proof (cases "in_pool p (gp_total g) \<and> gp_pin g ! nat p \<noteq> 0")
    case True
    let ?g = "g\<lparr>gp_pin := (gp_pin g)[nat p := gp_pin g ! nat p - 1],
      gp_pinned := (if gp_pin g ! nat p = 1 then gp_pinned g - 1 else gp_pinned g)\<rparr>"
    have i: "nat p < length (gp_pin g)" using Cons.prems True by (auto simp: gp_ok_def in_pool_def)
    have "gp_ok ?g" using Cons.prems True pinned_count_update [OF i, of "gp_pin g ! nat p - 1"]
      by (auto simp: gp_ok_def gp_owned_def)
    from Cons.IH [OF this] True show ?thesis by (simp add: gp_owned_def)
  qed (use Cons in auto)
qed simp

lemma gp_unpin_other:
  "p \<notin> set ps \<Longrightarrow> 0 \<le> p \<Longrightarrow> gp_pin (gp_unpin_pages g ps) ! nat p = gp_pin g ! nat p"
proof (induction ps arbitrary: g)
  case (Cons q ps)
  have "nat q \<noteq> nat p" if "in_pool q (gp_total g)" using that Cons.prems by (auto simp: in_pool_def)
  then show ?case using Cons by auto
qed simp

lemma gp_pin_same:
  "gp_owned (gp_pin_pages g ps) = gp_owned g \<and> gp_total (gp_pin_pages g ps) = gp_total g \<and>
   gp_allocated (gp_pin_pages g ps) = gp_allocated g \<and> gp_free (gp_pin_pages g ps) = gp_free g \<and>
   length (gp_pin (gp_pin_pages g ps)) = length (gp_pin g)"
  by (induction ps arbitrary: g) (auto simp: gp_owned_def)

lemma gp_pin_grows:
  assumes "in_pool p (gp_total g)" and "length (gp_pin g) = gp_total g"
    and "gp_pin g ! nat p + count_list ps p \<le> UINT32_MAX"
  shows "gp_pin (gp_pin_pages g ps) ! nat p = gp_pin g ! nat p + count_list ps p"
  using assms
proof (induction ps arbitrary: g)
  case (Cons q ps)
  have ne: "nat q \<noteq> nat p" if "in_pool q (gp_total g)" "q \<noteq> p"
    using that Cons.prems(1) by (auto simp: in_pool_def)
  have lt: "nat p < gp_total g" using Cons.prems(1) by (auto simp: in_pool_def)
  show ?case
    using Cons.IH ne lt Cons.prems by (cases "in_pool q (gp_total g)"; cases "q = p") auto
qed simp

text \<open>
  The structural half of the arena's invariant, which pinning keeps whatever the counters do: the
  free stack and the allocation bits agree.
\<close>

definition gp_stack_ok :: "gpool \<Rightarrow> bool" where
  "gp_stack_ok g \<longleftrightarrow> length (gp_allocated g) = gp_total g \<and> length (gp_pin g) = gp_total g \<and>
     set (gp_free g) \<subseteq> {p. in_pool p (gp_total g) \<and> \<not> gp_allocated g ! nat p} \<and> distinct (gp_free g)"

lemma gp_ok_stack: "gp_ok g \<Longrightarrow> gp_stack_ok g"
  by (simp add: gp_ok_def gp_stack_ok_def)

definition gp_held :: "gpool \<Rightarrow> int \<Rightarrow> bool" where
  "gp_held g p \<longleftrightarrow> gp_stack_ok g \<and> in_pool p (gp_total g) \<and> gp_allocated g ! nat p \<and> 0 < gp_pin g ! nat p"

lemma gp_alloc_held:
  assumes "gp_held g p" and "gp_alloc g = (g', Inr q)"
  shows "gp_held g' p" and "q \<noteq> p" and "gp_pin g' = gp_pin g"
proof -
  have st: "gp_stack_ok g" and p: "in_pool p (gp_total g)" "gp_allocated g ! nat p" "0 < gp_pin g ! nat p"
    using assms(1) by (auto simp: gp_held_def)
  have ne: "gp_free g \<noteq> []" and q: "q = last (gp_free g)"
    and g': "g' = g\<lparr>gp_free := butlast (gp_free g), gp_allocated := (gp_allocated g)[nat q := True],
        gp_used := gp_used g + 1\<rparr>"
    using assms(2) by (auto simp: gp_alloc_def gp_pop_def Let_def split: if_splits)
  have qin: "q \<in> set (gp_free g)" using ne q by simp
  then have qf: "in_pool q (gp_total g)" "\<not> gp_allocated g ! nat q"
    using st by (auto simp: gp_stack_ok_def)
  then show "q \<noteq> p" using p by auto
  have d: "distinct (gp_free g)" using st by (simp add: gp_stack_ok_def)
  note bl = butlast_last_facts [OF ne d]
  have len: "length (gp_allocated g) = gp_total g" using st by (simp add: gp_stack_ok_def)
  have "\<not> gp_allocated g' ! nat r" if r: "r \<in> set (butlast (gp_free g))" for r
  proof -
    have rin: "r \<in> set (gp_free g)" "r \<noteq> q" using r bl q by auto
    then have "in_pool r (gp_total g)" "\<not> gp_allocated g ! nat r" using st by (auto simp: gp_stack_ok_def)
    then show ?thesis using rin(2) qf g' len nth_pool_update [of q "gp_allocated g" r True] by auto
  qed
  moreover have "set (butlast (gp_free g)) \<subseteq> {r. in_pool r (gp_total g)}"
    using st bl(3) by (auto simp: gp_stack_ok_def)
  ultimately have "gp_stack_ok g'" using st bl(1) g' by (auto simp: gp_stack_ok_def)
  then show "gp_held g' p" using p g' len qf nth_pool_update [of q "gp_allocated g" p True]
    by (simp add: gp_held_def)
  show "gp_pin g' = gp_pin g" using g' by simp
qed

lemma gp_release_held:
  "gp_held g p \<Longrightarrow> gp_held (gp_release g ps) p \<and> gp_pin (gp_release g ps) = gp_pin g"
proof (induction ps arbitrary: g)
  case (Cons q ps)
  show ?case
  proof (cases "in_pool q (gp_total g) \<and> gp_pin g ! nat q = 0 \<and> gp_allocated g ! nat q")
    case True
    let ?g = "g\<lparr>gp_allocated := (gp_allocated g)[nat q := False], gp_free := gp_free g @ [q],
             gp_used := (if 0 < gp_used g then gp_used g - 1 else gp_used g)\<rparr>"
    have st: "gp_stack_ok g" and p: "in_pool p (gp_total g)" "gp_allocated g ! nat p" "0 < gp_pin g ! nat p"
      using Cons.prems by (auto simp: gp_held_def)
    have len: "length (gp_allocated g) = gp_total g" using st by (simp add: gp_stack_ok_def)
    have pq: "p \<noteq> q" using p True by auto
    have upd: "(gp_allocated g)[nat q := False] ! nat r = (r \<noteq> q \<and> gp_allocated g ! nat r)"
      if "in_pool r (gp_total g)" for r
      using nth_pool_update [of q "gp_allocated g" r False] True len that by (auto split: if_splits)
    have "q \<notin> set (gp_free g)" using st True by (auto simp: gp_stack_ok_def)
    moreover have "\<not> (gp_allocated g)[nat q := False] ! nat r \<and> in_pool r (gp_total g)"
      if "r \<in> set (gp_free g @ [q])" for r
    proof -
      have "in_pool r (gp_total g)" "r = q \<or> \<not> gp_allocated g ! nat r"
        using that st True by (auto simp: gp_stack_ok_def)
      then show ?thesis using upd [of r] by auto
    qed
    ultimately have "gp_stack_ok ?g" using st unfolding gp_stack_ok_def by auto
    then have "gp_held ?g p" using p pq upd [OF p(1)] by (simp add: gp_held_def)
    from Cons.IH [OF this] True show ?thesis by simp
  next
    case False
    then show ?thesis using Cons by auto
  qed
qed simp

lemma gp_unpin_stack:
  "gp_stack_ok g \<Longrightarrow> gp_stack_ok (gp_unpin_pages g ps) \<and> gp_total (gp_unpin_pages g ps) = gp_total g \<and>
    gp_allocated (gp_unpin_pages g ps) = gp_allocated g"
proof (induction ps arbitrary: g)
  case (Cons q ps)
  have "gp_stack_ok (g\<lparr>gp_pin := (gp_pin g)[nat q := k], gp_pinned := n\<rparr>)" for k n
    using Cons.prems by (simp add: gp_stack_ok_def)
  then show ?case using Cons by simp
qed simp

lemma gp_run_held:
  assumes "gp_held g p" and "\<forall>ps. Unpin ps \<in> set ops \<longrightarrow> p \<notin> set ps"
    and "gp_pin g ! nat p + pins_in p ops \<le> UINT32_MAX" and "gp_run g ops = (g', out)"
  shows "gp_held g' p \<and> p \<notin> set out"
  using assms
proof (induction g ops arbitrary: g' out rule: gp_run.induct)
  case (2 g ops)
  show ?case
  proof (cases "gp_alloc g")
    case (Pair g1 r)
    show ?thesis
    proof (cases r)
      case (Inl e)
      have "g1 = g" using Pair Inl by (auto simp: gp_alloc_def split: option.splits)
      then show ?thesis using 2 Pair Inl by auto
    next
      case (Inr q)
      note h = gp_alloc_held [OF "2.prems"(1) Pair [unfolded Inr]]
      obtain g2 o2 where r2: "gp_run g1 ops = (g2, o2)" by (cases "gp_run g1 ops")
      have "gp_held g2 p \<and> p \<notin> set o2"
        using "2.IH"(2) [OF Pair [symmetric] Inr h(1) _ _ r2] "2.prems" h(3) by auto
      then show ?thesis using "2.prems"(4) Pair Inr r2 h(2) by auto
    qed
  qed
next
  case (3 g ps ops)
  show ?case using "3.IH" "3.prems" gp_release_held [OF "3.prems"(1), of ps] by auto
next
  case (4 g ps ops)
  have "gp_pin (gp_pin_pages g ps) ! nat p = gp_pin g ! nat p + count_list ps p"
    using gp_pin_grows [of p g ps] "4.prems" by (auto simp: gp_held_def gp_stack_ok_def)
  moreover from this have "gp_held (gp_pin_pages g ps) p"
    using "4.prems"(1) gp_pin_same [of g ps] by (auto simp: gp_held_def gp_stack_ok_def)
  ultimately show ?case using "4.IH" "4.prems" by auto
next
  case (5 g ps ops)
  have p: "p \<notin> set ps" "0 \<le> p" using "5.prems"(1,2) by (auto simp: gp_held_def in_pool_def)
  have "gp_held (gp_unpin_pages g ps) p"
    using "5.prems"(1) gp_unpin_stack [of g ps] gp_unpin_other [OF p, of g] by (auto simp: gp_held_def)
  then show ?case using "5.IH" "5.prems" gp_unpin_other [OF p, of g] by auto
qed simp



section \<open>Allocation with eviction\<close>

text \<open>
  The callback's contract, which the allocator's comment states: it keeps the arena consistent,
  answers 0 only when it has changed nothing, and otherwise has dropped at least one cache entry.
\<close>

definition evicts_entries :: "(gpool \<times> 'c \<Rightarrow> (gpool \<times> 'c) \<times> nat) \<Rightarrow> ('c \<Rightarrow> nat) \<Rightarrow> bool" where
  "evicts_entries evict entries \<longleftrightarrow> (\<forall>s. gp_ok (fst s) \<longrightarrow> gp_ok (fst (fst (evict s))) \<and>
     (snd (evict s) = 0 \<longrightarrow> fst (evict s) = s) \<and>
     (snd (evict s) \<noteq> 0 \<longrightarrow> entries (snd (fst (evict s))) < entries (snd s)))"

lemma gp_alloc_evict_returns:
  assumes "evicts_entries evict entries" and "gp_ok (fst s)"
  shows "\<exists>s' r. gp_alloc_evict evict s = Some (s', r) \<and> gp_ok (fst s') \<and>
    (case r of Inl e \<Rightarrow> gp_free (fst s') = [] \<and> snd (evict s') = 0
     | Inr p \<Rightarrow> p \<in> gp_owned (fst s'))"
  using assms(2)
proof (induction "entries (snd s)" arbitrary: s rule: less_induct)
  case less
  show ?case
  proof (cases "gp_pop (fst s)")
    case (Some gp)
    obtain g' p where gp: "gp = (g', p)" by (cases gp)
    then show ?thesis
      using gp_pop_facts [OF less.prems, of g' p] Some by (simp add: gp_alloc_evict.simps)
  next
    case None
    then have empty: "gp_free (fst s) = []" by (simp add: gp_pop_def Let_def split: if_splits)
    obtain s1 k where ev: "evict s = (s1, k)" by (cases "evict s")
    have c: "gp_ok (fst s1)" "k = 0 \<longrightarrow> s1 = s" "k \<noteq> 0 \<longrightarrow> entries (snd s1) < entries (snd s)"
      using assms(1) less.prems ev unfolding evicts_entries_def by (metis fst_conv snd_conv)+
    show ?thesis
    proof (cases "k = 0")
      case True
      then have "gp_alloc_evict evict s = Some (s, Inl RuntimeError)"
        using None ev c(2) by (simp add: gp_alloc_evict.simps)
      then show ?thesis using less.prems empty ev True by auto
    next
      case False
      have "gp_alloc_evict evict s = gp_alloc_evict evict s1"
        using None ev False by (subst gp_alloc_evict.simps) simp
      then show ?thesis using less.hyps [of s1] c False by simp
    qed
  qed
qed

text \<open> Claim C37. Allocation that may evict prefix-cache entries always returns when every successful
  eviction drops at least one entry: either a page, which is then allocated, or the exhaustion
  error, and the error only when no page is free and nothing is left to evict.\<close>

theorem evicting_allocation_returns:
  assumes "evicts_entries evict entries" and "gp_ok (fst s)"
  shows "\<exists>s' r. gp_alloc_evict evict s = Some (s', r) \<and> gp_ok (fst s') \<and>
    (case r of Inl e \<Rightarrow> gp_free (fst s') = [] \<and> snd (evict s') = 0
     | Inr p \<Rightarrow> p \<in> gp_owned (fst s'))"
  using gp_alloc_evict_returns [OF assms] .

text \<open>A cache of page lists that gives up its oldest entry, as an example of the contract.\<close>

definition evict_oldest :: "gpool \<times> int list list \<Rightarrow> (gpool \<times> int list list) \<times> nat" where
  "evict_oldest s = (case snd s of [] \<Rightarrow> (s, 0)
     | ps # rest \<Rightarrow> ((gp_release (gp_unpin_pages (fst s) ps) ps, rest), 1))"

lemma evict_oldest_contract: "evicts_entries evict_oldest length"
  using gp_unpin_ok gp_release_facts(1)
  by (auto simp: evicts_entries_def evict_oldest_def split: list.splits)

theorem evicting_allocation_returns_witness:
  "\<exists>s' r. gp_alloc_evict evict_oldest (gp_new 2 16, [[0], [1]]) = Some (s', r) \<and> gp_ok (fst s') \<and>
    (case r of Inl e \<Rightarrow> gp_free (fst s') = [] \<and> snd (evict_oldest s') = 0
     | Inr p \<Rightarrow> p \<in> gp_owned (fst s'))"
  by (rule evicting_allocation_returns [OF evict_oldest_contract]) (simp add: gp_ok_new)

section \<open>The scratch reserve of a local pool\<close>

text \<open> While transient allocation is off, a local pool hands out a page exactly when more
  pages than the scratch reserve are free, so the reserve is never touched: after a successful
  allocation the reserve is still free and the number reported free went down by one.\<close>

theorem scratch_reserve_untouched:
  assumes "lp_ok l" and "\<not> lp_transient l" and "lp_alloc l = (l', r)"
  shows "case r of
      Inl e \<Rightarrow> length (lp_free l) \<le> lp_reserve l \<and> l' = l
    | Inr p \<Rightarrow> lp_reserve l < length (lp_free l) \<and> lp_reserve l' \<le> length (lp_free l') \<and>
        lp_free_pages l' + 1 = lp_free_pages l \<and> p \<notin> lp_owned l \<and> in_pool p (lp_total l)"
proof (cases r)
  case (Inl e)
  then show ?thesis using assms(2,3)
    by (auto simp: lp_alloc_def lp_free_pages_def Let_def split: if_splits)
next
  case (Inr p)
  note a = lp_alloc_facts [OF assms(1) assms(3) [unfolded Inr]]
  have "in_pool p (lp_total l)" using a local_pool.owned_range [of l' p] by (auto simp: in_pool_def)
  moreover have "lp_reserve l < length (lp_free l) \<and> lp_reserve l' \<le> length (lp_free l') \<and>
      lp_free_pages l' + 1 = lp_free_pages l"
    using assms(2,3) Inr by (auto simp: lp_alloc_def lp_free_pages_def Let_def split: if_splits)
  ultimately show ?thesis using a(2) Inr by simp
qed

definition ex_local :: lpool where
  "ex_local = \<lparr>lp_total = 3, lp_reserve = 1, lp_transient = False, lp_page_size = 16,
     lp_free = [2, 1, 0], lp_in_free = [True, True, True], lp_used = 0\<rparr>"

lemma ex_local_new: "lp_new 2 16 1 = Inr ex_local"
proof -
  have "[0..<3] = [0, 1, 2]" and "replicate 3 True = [True, True, True]"
    by (simp_all add: upt_rec numeral_eq_Suc)
  then show ?thesis by (simp add: ex_local_def lp_new_def checked_total_def INT32_MAX_def Let_def)
qed

theorem scratch_reserve_untouched_witness:
  "lp_reserve ex_local < length (lp_free ex_local) \<and> lp_alloc ex_local =
     (ex_local\<lparr>lp_free := [2, 1], lp_in_free := [False, True, True], lp_used := 1\<rparr>, Inr 0) \<and> 0 \<notin> lp_owned ex_local"
proof -
  let ?l = "ex_local\<lparr>lp_free := [2, 1], lp_in_free := [False, True, True], lp_used := 1\<rparr>"
  have nt: "\<not> lp_transient ex_local" by (simp add: ex_local_def)
  have al: "lp_alloc ex_local = (?l, Inr 0)"
    by (simp add: ex_local_def lp_alloc_def lp_free_pages_def Let_def in_pool_def)
  show ?thesis
    using scratch_reserve_untouched [OF lp_ok_new [OF ex_local_new] nt al] al by simp
qed

section \<open>The resident quota of a shared pool\<close>

text \<open>\<open>k\<close> successive allocations; the pages they return, in order.\<close>

fun sp_take :: "('p \<Rightarrow> 'p \<times> int result) \<Rightarrow> 'p spool \<Rightarrow> nat \<Rightarrow> 'p spool \<times> int list" where
  "sp_take palloc s 0 = (s, [])"
| "sp_take palloc s (Suc k) = (case sp_alloc palloc s of
      (s', Inl e) \<Rightarrow> (s', [])
    | (s', Inr p) \<Rightarrow> (case sp_take palloc s' k of (s'', ps) \<Rightarrow> (s'', p # ps)))"

text \<open> The resident quota is guaranteed: with \<open>k\<close> resident pages unused, the next \<open>k\<close>
  allocations all succeed whatever the parent arena would answer (it is not even asked), and they
  return pairwise distinct pages of the lease that the request did not hold.\<close>

theorem resident_quota_guaranteed:
  assumes "sp_shape s" and "k \<le> length (sp_free s)" and "sp_take palloc s k = (s', ps)"
  shows "length ps = k \<and> distinct ps \<and> set ps \<subseteq> set (sp_pages s) - sp_owned s \<and>
    sp_parent s' = sp_parent s \<and> sp_owned s' = sp_owned s \<union> set ps"
  using assms
proof (induction k arbitrary: s ps)
  case (Suc k)
  have ne: "sp_free s \<noteq> []" using Suc.prems(2) by auto
  let ?i = "last (sp_free s)"
  let ?s = "s\<lparr>sp_free := butlast (sp_free s), sp_in_use := (sp_in_use s)[?i := True]\<rparr>"
  note t = sp_take_slot [OF Suc.prems(1) ne]
  have i: "?i < sp_resident s" "length (sp_pages s) = sp_resident s"
    using ne last_in_set Suc.prems(1) by (auto simp: sp_shape_def)
  have "sp_alloc palloc s = (?s, Inr (sp_pages s ! ?i))" using ne by (simp add: sp_alloc_def Let_def)
  moreover obtain ps1 where r: "sp_take palloc ?s k = (s', ps1)" and ps: "ps = sp_pages s ! ?i # ps1"
    using Suc.prems(3) calculation by (auto split: prod.splits)
  have "k \<le> length (sp_free ?s)" using Suc.prems(2) by simp
  from Suc.IH [OF t(1) this r] show ?case
    using t(2,3) i nth_mem [of ?i "sp_pages s"] unfolding ps by auto
qed simp

text \<open>Leasing over the arena: what the constructor's loop keeps, and when it succeeds.\<close>

lemma gp_alloc_ok:
  assumes "gp_ok g" and "gp_free g \<noteq> []"
  obtains g' p where "gp_alloc g = (g', Inr p)" "length (gp_free g') + 1 = length (gp_free g)"
    "gp_pin g' = gp_pin g"
  using assms(2) that by (auto simp: gp_alloc_def gp_pop_def Let_def)

lemma sp_fill_gp:
  assumes "gp_ok g" and "distinct pages" and "dom slots = set pages" and "set pages \<subseteq> gp_owned g"
    and "\<forall>i < length pages. slots (pages ! i) = Some i"
    and "sp_fill gp_alloc gp_total k g pages slots = (g', pages', r)"
  shows "gp_ok g' \<and> gp_total g' = gp_total g \<and> gp_pin g' = gp_pin g \<and> distinct pages' \<and>
    (\<exists>new. pages' = pages @ new \<and> set new \<inter> gp_owned g = {} \<and> gp_owned g' = gp_owned g \<union> set new) \<and>
    (case r of Inr slots' \<Rightarrow> k \<le> length (gp_free g) \<and> length pages' = length pages + k \<and>
        dom slots' = set pages' \<and> (\<forall>i < length pages'. slots' (pages' ! i) = Some i)
     | Inl e \<Rightarrow> length (gp_free g) < k)"
  using assms
proof (induction k arbitrary: g pages slots)
  case (Suc k)
  show ?case
  proof (cases "gp_free g = []")
    case True
    then have "gp_alloc g = (g, Inl RuntimeError)" by (simp add: gp_alloc_def gp_pop_def)
    then show ?thesis using Suc.prems True by auto
  next
    case False
    obtain g1 p where al: "gp_alloc g = (g1, Inr p)" and fl: "length (gp_free g1) + 1 = length (gp_free g)"
      and pin: "gp_pin g1 = gp_pin g" using gp_alloc_ok [OF Suc.prems(1) False] .
    note a = global.alloc_ok [OF Suc.prems(1) al]
    have rng: "in_pool p (gp_total g1)" using gp_owned_range [of g1 p] a by blast
    have np: "p \<notin> set pages" using a Suc.prems(4) by blast
    then have sl: "slots p = None" using Suc.prems(3) by blast
    have ih: "sp_fill gp_alloc gp_total k g1 (pages @ [p]) (slots(p \<mapsto> length pages)) = (g', pages', r)"
      using Suc.prems(6) al rng sl by simp
    have pre: "distinct (pages @ [p])" "dom (slots(p \<mapsto> length pages)) = set (pages @ [p])"
        "set (pages @ [p]) \<subseteq> gp_owned g1"
        "\<forall>i < length (pages @ [p]). (slots(p \<mapsto> length pages)) ((pages @ [p]) ! i) = Some i"
      using np a Suc.prems(2-5) by (auto simp: nth_append)
    have "gp_ok g1" using a by blast
    from Suc.IH [OF this pre ih]
    obtain new where n: "gp_ok g'" "gp_total g' = gp_total g1" "gp_pin g' = gp_pin g1" "distinct pages'"
      "pages' = (pages @ [p]) @ new" "set new \<inter> gp_owned g1 = {}" "gp_owned g' = gp_owned g1 \<union> set new"
      "case r of Inr slots' \<Rightarrow> k \<le> length (gp_free g1) \<and> length pages' = length (pages @ [p]) + k \<and>
        dom slots' = set pages' \<and> (\<forall>i < length pages'. slots' (pages' ! i) = Some i)
     | Inl e \<Rightarrow> length (gp_free g1) < k" by auto
    have "pages' = pages @ (p # new)" "set (p # new) \<inter> gp_owned g = {}"
      "gp_owned g' = gp_owned g \<union> set (p # new)"
      using n(5-7) a by auto
    moreover have "case r of Inr slots' \<Rightarrow> Suc k \<le> length (gp_free g) \<and> length pages' = length pages + Suc k \<and>
        dom slots' = set pages' \<and> (\<forall>i < length pages'. slots' (pages' ! i) = Some i)
     | Inl e \<Rightarrow> length (gp_free g) < Suc k" using n(8) fl by (cases r) auto
    ultimately show ?thesis using n(1-4) a pin by metis
  qed
qed auto

text \<open>No page is pinned that is not allocated (the prefix cache pins pages it holds).\<close>

definition gp_pins_held :: "gpool \<Rightarrow> bool" where
  "gp_pins_held g \<longleftrightarrow> (\<forall>i < gp_total g. 0 < gp_pin g ! i \<longrightarrow> gp_allocated g ! i)"

lemma gp_unheld_unpinned:
  assumes "gp_ok g" and "gp_pins_held g" and "in_pool p (gp_total g)" and "p \<notin> gp_owned g"
  shows "gp_pin g ! nat p = 0"
  using assms by (auto simp: gp_pins_held_def gp_owned_def marked_def gp_ok_def in_pool_def)

lemma sp_new_shape:
  assumes "distinct pages" and "length pages = n" and "dom slots = set pages"
    and "\<forall>i < n. slots (pages ! i) = Some i"
  shows "sp_shape \<lparr>sp_parent = g, sp_resident = n, sp_reserve = rv, sp_pages = pages, sp_private = [],
     sp_free = map (\<lambda>i. n - 1 - i) [0..<n], sp_in_use = replicate n False, sp_slots = slots,
     sp_transient = False\<rparr>"
proof -
  have "distinct (map (\<lambda>i. n - 1 - i) [0..<n])" by (auto simp: distinct_map inj_on_def)
  moreover have "set (map (\<lambda>i. n - 1 - i) [0..<n]) = {i. i < n \<and> \<not> replicate n False ! i}"
  proof (intro set_eqI iffI)
    fix i assume "i \<in> {i. i < n \<and> \<not> replicate n False ! i}"
    then have "i = n - 1 - (n - 1 - i)" "n - 1 - i < n" by auto
    then show "i \<in> set (map (\<lambda>i. n - 1 - i) [0..<n])" by force
  qed auto
  ultimately show ?thesis using assms by (simp add: sp_shape_def)
qed

text \<open> Building a shared pool over the arena either leases the whole resident quota - fresh
  pages, none of them held by anyone before, all unused and ready - or fails and leaves the arena
  with exactly the pages that were allocated before. It succeeds exactly when the quota is positive
  and representable and that many pages are free.\<close>

theorem shared_pool_leases_or_rolls_back:
  assumes "gp_ok g" and "gp_pins_held g"
    and "sp_new gp_alloc gp_release gp_total res rv g = (g', r)"
  shows "gp_ok g' \<and> (case r of
      Inl e \<Rightarrow> gp_owned g' = gp_owned g \<and> (res = 0 \<or> INT32_MAX < res + rv \<or> gp_free_pages g < res)
    | Inr s \<Rightarrow> 0 < res \<and> res + rv \<le> INT32_MAX \<and> res \<le> gp_free_pages g \<and>
        sp_ok gp_ok gp_owned s \<and> sp_parent s = g' \<and> sp_owned s = {} \<and> length (sp_free s) = res \<and>
        set (sp_pages s) \<inter> gp_owned g = {} \<and> gp_owned g' = gp_owned g \<union> set (sp_pages s))"
proof (cases "res = 0 \<or> INT32_MAX < res + rv")
  case True
  then show ?thesis using assms(1,3) by (auto simp: sp_new_def)
next
  case False
  obtain g1 pages q where f: "sp_fill gp_alloc gp_total res g [] Map.empty = (g1, pages, q)"
    by (metis prod_cases3)
  have F: "gp_ok g1" "gp_total g1 = gp_total g" "gp_pin g1 = gp_pin g" "distinct pages"
    "set pages \<inter> gp_owned g = {}" "gp_owned g1 = gp_owned g \<union> set pages"
    "case q of Inr slots' \<Rightarrow> res \<le> length (gp_free g) \<and> length pages = res \<and>
      dom slots' = set pages \<and> (\<forall>i < length pages. slots' (pages ! i) = Some i)
     | Inl e \<Rightarrow> length (gp_free g) < res"
    using sp_fill_gp [OF assms(1), of "[]" Map.empty res g1 pages q] f by (auto split: sum.splits)
  show ?thesis
  proof (cases q)
    case (Inl e)
    have "gp_pin g1 ! nat p = 0" if "p \<in> set pages" for p
    proof -
      have "in_pool p (gp_total g)" using gp_owned_range [OF F(1), of p] F(2,6) that by simp
      then show ?thesis using gp_unheld_unpinned [OF assms(1,2)] F(3,5) that by auto
    qed
    moreover have "in_pool p (gp_total g1)" if "p \<in> set pages" for p
      using gp_owned_range [OF F(1), of p] F(6) that by simp
    ultimately have "gp_owned (gp_release g1 pages) = gp_owned g"
      using gp_release_facts(2) [OF F(1), of pages] F(5,6) by auto
    then show ?thesis using assms(3) f Inl False F(7) gp_release_facts(1) [OF F(1)]
      by (auto simp: sp_new_def gp_free_pages_def)
  next
    case (Inr slots)
    let ?s = "\<lparr>sp_parent = g1, sp_resident = res, sp_reserve = rv, sp_pages = pages, sp_private = [],
        sp_free = map (\<lambda>i. res - 1 - i) [0..<res], sp_in_use = replicate res False,
        sp_slots = slots, sp_transient = False\<rparr>"
    have "g' = g1" and r: "r = Inr ?s" using assms(3) f Inr False by (auto simp: sp_new_def)
    moreover have "sp_shape ?s" by (rule sp_new_shape) (use F(4,7) Inr in auto)
    ultimately show ?thesis using F Inr False
      by (auto simp: sp_ok_def sp_owned_def gp_free_pages_def)
  qed
qed

text \<open> Tearing a shared pool down gives the arena back every page the request took from it,
  resident and scratch, except the pages the prefix cache has pinned meanwhile, and touches no other
  page.\<close>

theorem shared_pool_returns_pages:
  assumes "sp_ok gp_ok gp_owned s"
  shows "gp_ok (sp_destroy gp_release s) \<and> gp_owned (sp_destroy gp_release s) = gp_owned (sp_parent s) -
    {p \<in> set (sp_pages s) \<union> set (sp_private s). gp_pin (sp_parent s) ! nat p = 0}"
proof -
  let ?g = "sp_parent s" and ?g1 = "gp_release (sp_parent s) (sp_private s)"
  have ok: "gp_ok ?g" and sub: "set (sp_pages s) \<union> set (sp_private s) \<subseteq> gp_owned ?g"
    using assms by (auto simp: sp_ok_def)
  note r1 = gp_release_facts [OF ok, of "sp_private s"]
  note r2 = gp_release_facts [OF r1(1), of "sp_pages s"]
  have rng: "in_pool p (gp_total ?g)" if "p \<in> set (sp_pages s) \<union> set (sp_private s)" for p
    using gp_owned_range [OF ok] sub that by blast
  have "gp_owned (sp_destroy gp_release s) = gp_owned ?g1 -
      {p \<in> set (sp_pages s). in_pool p (gp_total ?g) \<and> gp_pin ?g ! nat p = 0}"
    using r2(2) r1(3,4) by (simp add: sp_destroy_def)
  also have "\<dots> = gp_owned ?g - {p \<in> set (sp_pages s) \<union> set (sp_private s). gp_pin ?g ! nat p = 0}"
    unfolding r1(2) using rng by blast
  finally show ?thesis using r2(1) by (simp add: sp_destroy_def)
qed

section \<open>A concrete lease\<close>

definition ex_arena :: gpool where
  "ex_arena = \<lparr>gp_total = 4, gp_page_size = 16, gp_free = [3, 2, 1, 0], gp_pin = [0, 0, 0, 0],
     gp_allocated = [False, False, False, False], gp_pinned = 0, gp_used = 0\<rparr>"

definition ex_leased :: gpool where
  "ex_leased = \<lparr>gp_total = 4, gp_page_size = 16, gp_free = [3, 2], gp_pin = [0, 0, 0, 0],
     gp_allocated = [True, True, False, False], gp_pinned = 0, gp_used = 2\<rparr>"

definition ex_shared :: "gpool spool" where
  "ex_shared = \<lparr>sp_parent = ex_leased, sp_resident = 2, sp_reserve = 1, sp_pages = [0, 1],
     sp_private = [], sp_free = [1, 0], sp_in_use = [False, False],
     sp_slots = [0 \<mapsto> 0, 1 \<mapsto> 1], sp_transient = False\<rparr>"

lemma ex_arena_ok: "gp_ok ex_arena" "gp_pins_held ex_arena"
proof -
  have "[0..<4] = [0, 1, 2, 3]" "replicate 4 False = [False, False, False, False]"
    "replicate 4 (0 :: nat) = [0, 0, 0, 0]" by (simp_all add: upt_rec numeral_eq_Suc)
  then have e: "ex_arena = gp_new 4 16" by (simp add: ex_arena_def gp_new_def)
  show "gp_ok ex_arena" unfolding e by (rule gp_ok_new)
  show "gp_pins_held ex_arena"
    by (auto simp: gp_pins_held_def ex_arena_def less_Suc_eq numeral_eq_Suc)
qed

lemma ex_shared_new: "sp_new gp_alloc gp_release gp_total 2 1 ex_arena = (ex_leased, Inr ex_shared)"
proof -
  have "[0..<2] = [0, 1 :: nat]" "replicate 2 False = [False, False]"
    by (simp_all add: upt_rec numeral_eq_Suc)
  moreover have "sp_fill gp_alloc gp_total 2 ex_arena [] Map.empty =
      (ex_leased, [0, 1], Inr [0 \<mapsto> 0, 1 \<mapsto> 1])"
    by (simp add: numeral_2_eq_2 ex_arena_def ex_leased_def gp_alloc_def gp_pop_def in_pool_def)
  ultimately show ?thesis
    by (simp add: sp_new_def ex_shared_def INT32_MAX_def)
qed

theorem shared_pool_leases_or_rolls_back_witness:
  "sp_ok gp_ok gp_owned ex_shared \<and> gp_owned ex_leased = gp_owned ex_arena \<union> set (sp_pages ex_shared)"
  using shared_pool_leases_or_rolls_back [OF ex_arena_ok ex_shared_new] by simp

lemma ex_shared_shape: "sp_shape ex_shared"
  by (auto simp: sp_shape_def ex_shared_def less_Suc_eq numeral_2_eq_2)

lemma ex_shared_ok: "sp_ok gp_ok gp_owned ex_shared"
proof -
  note g1 = global.alloc_ok [OF ex_arena_ok(1), of "fst (gp_alloc ex_arena)" 0]
  have e: "gp_alloc ex_arena = (fst (gp_alloc ex_arena), Inr 0)"
      "gp_alloc (fst (gp_alloc ex_arena)) = (ex_leased, Inr 1)"
    by (simp_all add: ex_arena_def ex_leased_def gp_alloc_def gp_pop_def)
  have "gp_ok ex_leased" using g1 [OF e(1)] global.alloc_ok [OF _ e(2)] by blast
  moreover have "{0, 1} \<subseteq> gp_owned ex_leased"
    by (simp add: gp_owned_def marked_def ex_leased_def in_pool_def)
  ultimately show ?thesis using ex_shared_shape by (simp add: sp_ok_def ex_shared_def)
qed

theorem resident_quota_guaranteed_witness:
  "snd (sp_take (\<lambda>g. (g, Inl RuntimeError)) ex_shared 2) = [0, 1] \<and>
   sp_owned (fst (sp_take (\<lambda>g. (g, Inl RuntimeError)) ex_shared 2)) = sp_owned ex_shared \<union> {0, 1}"
proof -
  have t: "sp_take (\<lambda>g. (g, Inl RuntimeError)) ex_shared 2 =
      (ex_shared\<lparr>sp_free := [], sp_in_use := [True, True]\<rparr>, [0, 1])"
    by (simp add: numeral_2_eq_2 ex_shared_def sp_alloc_def)
  show ?thesis using resident_quota_guaranteed [OF ex_shared_shape _ t] t
    by (simp add: ex_shared_def)
qed

theorem shared_pool_returns_pages_witness:
  "gp_owned (sp_destroy gp_release ex_shared) = {}"
proof -
  have "gp_owned ex_leased = {0, 1}"
    by (auto simp: gp_owned_def marked_def in_pool_def ex_leased_def less_Suc_eq numeral_eq_Suc nth_Cons'
        split: if_splits)
  then show ?thesis using shared_pool_returns_pages [OF ex_shared_ok]
    by (auto simp: ex_shared_def ex_leased_def)
qed

end
