(* ===== verification/Page_Table_Safety.thy ===== *)
theory Page_Table_Safety
  imports Page_Table Pool_Safety
begin

text \<open>
  Two invariants of the page table. \<open>pt_ok\<close> is the accounting: the allocator owns exactly the pages
  this table has taken and the pages others hold (\<open>base\<close>), no physical page backs two logical pages,
  and a borrowed page is never counted as the table's own. \<open>pt_mirror\<close> says the device copy agrees
  with the host over the published prefix \<open>device_synced\<close>.
\<close>

section \<open>Accounting\<close>

definition pt_mine :: "'p ptab \<Rightarrow> int set" where
  "pt_mine t = {pt_pages t ! i | i. i < length (pt_pages t) \<and> pt_owned t ! i}"

definition pt_borrowed :: "'p ptab \<Rightarrow> int set" where
  "pt_borrowed t = {pt_pages t ! i | i. i < length (pt_pages t) \<and> \<not> pt_owned t ! i \<and> 0 \<le> pt_pages t ! i}"

definition pt_inj :: "'p ptab \<Rightarrow> bool" where
  "pt_inj t \<longleftrightarrow> (\<forall>i < length (pt_pages t). \<forall>j < length (pt_pages t).
     pt_pages t ! i = pt_pages t ! j \<longrightarrow> 0 \<le> pt_pages t ! i \<longrightarrow> i = j)"

definition pt_shape :: "'p ptab \<Rightarrow> bool" where
  "pt_shape t \<longleftrightarrow> length (pt_owned t) = length (pt_pages t) \<and> length (pt_pages t) \<le> pt_max t \<and>
     (\<forall>i < length (pt_pages t). pt_owned t ! i \<longrightarrow> 0 \<le> pt_pages t ! i) \<and> pt_inj t"

definition pt_ok :: "('p \<Rightarrow> bool) \<Rightarrow> ('p \<Rightarrow> int set) \<Rightarrow> int set \<Rightarrow> 'p ptab \<Rightarrow> bool" where
  "pt_ok pinv powned base t \<longleftrightarrow> pt_shape t \<and> (\<exists>p. pt_alloc t = Some p \<and> pinv p \<and>
     powned p = base \<union> pt_mine t \<and> base \<inter> pt_mine t = {} \<and> pt_borrowed t \<subseteq> base)"

lemma pt_inj_eq: "pt_inj t \<Longrightarrow> i < length (pt_pages t) \<Longrightarrow> j < length (pt_pages t) \<Longrightarrow>
    pt_pages t ! i = pt_pages t ! j \<Longrightarrow> 0 \<le> pt_pages t ! i \<Longrightarrow> i = j"
  unfolding pt_inj_def by blast

lemma pt_is_owned_shape: "pt_shape t \<Longrightarrow> i < length (pt_pages t) \<Longrightarrow> pt_is_owned t i = pt_owned t ! i"
  by (simp add: pt_is_owned_def pt_shape_def)

lemma pt_all_pages:
  assumes "i < length (pt_pages t)" and "0 \<le> pt_pages t ! i"
  shows "pt_pages t ! i \<in> pt_mine t \<union> pt_borrowed t"
  using assms unfolding pt_mine_def pt_borrowed_def by blast

text \<open>The indexed image behind both sets, and what changing one index does to it.\<close>

definition picked :: "nat \<Rightarrow> (nat \<Rightarrow> bool) \<Rightarrow> (nat \<Rightarrow> int) \<Rightarrow> int set" where
  "picked n P f = {f i | i. i < n \<and> P i}"

lemma picked_Suc: "picked (Suc n) P f = picked n P f \<union> (if P n then {f n} else {})"
  by (auto simp: picked_def less_Suc_eq)

lemma picked_cong:
  assumes "\<And>i. i < n \<Longrightarrow> P i = Q i" and "\<And>i. i < n \<Longrightarrow> P i \<Longrightarrow> f i = g i"
  shows "picked n P f = picked n Q g"
proof -
  have "i < n \<and> P i \<longleftrightarrow> i < n \<and> Q i" for i using assms(1) by blast
  moreover have "f i = g i" if "i < n \<and> Q i" for i using assms that by blast
  ultimately show ?thesis unfolding picked_def by (metis (no_types, lifting))
qed

lemma picked_update:
  assumes "k < n" and "\<And>i. i < n \<Longrightarrow> i \<noteq> k \<Longrightarrow> P' i = P i" and "\<And>i. i < n \<Longrightarrow> i \<noteq> k \<Longrightarrow> f' i = f i"
  shows "picked n P' f' = picked n (\<lambda>i. P i \<and> i \<noteq> k) f \<union> (if P' k then {f' k} else {})"
proof -
  have "picked n P' f' = picked n (\<lambda>i. P' i \<and> i \<noteq> k) f' \<union> (if P' k then {f' k} else {})"
    using assms(1) unfolding picked_def by auto
  also have "picked n (\<lambda>i. P' i \<and> i \<noteq> k) f' = picked n (\<lambda>i. P i \<and> i \<noteq> k) f"
    using assms(2,3) by (intro picked_cong) blast+
  finally show ?thesis .
qed

lemma pt_mine_picked: "pt_mine t = picked (length (pt_pages t)) (\<lambda>i. pt_owned t ! i) ((!) (pt_pages t))"
  by (simp add: pt_mine_def picked_def)

lemma pt_borrowed_picked: "pt_borrowed t = picked (length (pt_pages t))
    (\<lambda>i. \<not> pt_owned t ! i \<and> 0 \<le> pt_pages t ! i) ((!) (pt_pages t))"
  by (simp add: pt_borrowed_def picked_def)

text \<open>Appending a fresh page and filling an absent one.\<close>

lemma pt_push_sets:
  assumes "pt_shape t"
  shows "pt_mine (pt_push t page) = insert page (pt_mine t)" and "pt_borrowed (pt_push t page) = pt_borrowed t"
proof -
  have len: "length (pt_owned t) = length (pt_pages t)" using assms by (simp add: pt_shape_def)
  have n: "length (pt_pages (pt_push t page)) = Suc (length (pt_pages t))" by (simp add: pt_push_def)
  show "pt_mine (pt_push t page) = insert page (pt_mine t)"
    unfolding pt_mine_picked n picked_Suc using len
    by (simp add: pt_push_def nth_append cong: picked_cong)
  show "pt_borrowed (pt_push t page) = pt_borrowed t"
    unfolding pt_borrowed_picked n picked_Suc using len
    by (simp add: pt_push_def nth_append cong: picked_cong)
qed

lemma pt_push_shape:
  assumes sh: "pt_shape t" and "length (pt_pages t) < pt_max t" and "0 \<le> page"
    and fresh: "page \<notin> pt_mine t \<union> pt_borrowed t"
  shows "pt_shape (pt_push t page)"
proof -
  have ne: "pt_pages t ! i \<noteq> page" if "i < length (pt_pages t)" for i
    using pt_all_pages [OF that] fresh assms(3) by auto
  have inj: "pt_inj t" and len: "length (pt_owned t) = length (pt_pages t)"
    using sh by (simp_all add: pt_shape_def)
  have "pt_inj (pt_push t page)"
    unfolding pt_inj_def pt_push_def using pt_inj_eq [OF inj] ne
    by (fastforce simp: nth_append less_Suc_eq)
  then show ?thesis using sh assms(2,3) len
    by (auto simp: pt_shape_def pt_push_def nth_append less_Suc_eq)
qed

lemma pt_put_eq:
  "pt_shape t \<Longrightarrow> pt_put t lp page = t\<lparr>pt_pages := (pt_pages t)[lp := page], pt_owned := (pt_owned t)[lp := True]\<rparr>"
  by (simp add: pt_put_def pt_shape_def)

lemma pt_put_sets:
  assumes sh: "pt_shape t" and lp: "lp < length (pt_pages t)" "pt_pages t ! lp < 0"
  shows "pt_mine (pt_put t lp page) = insert page (pt_mine t)" and "pt_borrowed (pt_put t lp page) = pt_borrowed t"
proof -
  let ?n = "length (pt_pages t)" and ?u = "pt_put t lp page"
  have len: "length (pt_owned t) = ?n" and no: "\<not> pt_owned t ! lp"
    using sh lp by (auto simp: pt_shape_def)
  have n: "length (pt_pages ?u) = ?n" and at: "pt_owned ?u ! lp" "pt_pages ?u ! lp = page"
    and off: "\<And>i. i \<noteq> lp \<Longrightarrow> pt_owned ?u ! i = pt_owned t ! i" "\<And>i. i \<noteq> lp \<Longrightarrow> pt_pages ?u ! i = pt_pages t ! i"
    using lp len by (simp_all add: pt_put_eq [OF sh])
  have "picked ?n (\<lambda>i. pt_owned t ! i \<and> i \<noteq> lp) ((!) (pt_pages t)) = pt_mine t"
    unfolding pt_mine_picked using no by (intro picked_cong) auto
  then show "pt_mine ?u = insert page (pt_mine t)"
    using picked_update [OF lp(1), of "\<lambda>i. pt_owned ?u ! i" "\<lambda>i. pt_owned t ! i" "(!) (pt_pages ?u)" "(!) (pt_pages t)"]
      off at unfolding pt_mine_picked [of ?u] n by simp
  have "picked ?n (\<lambda>i. (\<not> pt_owned t ! i \<and> 0 \<le> pt_pages t ! i) \<and> i \<noteq> lp) ((!) (pt_pages t)) = pt_borrowed t"
    unfolding pt_borrowed_picked using lp by (intro picked_cong) auto
  then show "pt_borrowed ?u = pt_borrowed t"
    using picked_update [OF lp(1), of "\<lambda>i. \<not> pt_owned ?u ! i \<and> 0 \<le> pt_pages ?u ! i"
        "\<lambda>i. \<not> pt_owned t ! i \<and> 0 \<le> pt_pages t ! i" "(!) (pt_pages ?u)" "(!) (pt_pages t)"]
      off at unfolding pt_borrowed_picked [of ?u] n by simp
qed

lemma pt_put_shape:
  assumes sh: "pt_shape t" and lp: "lp < length (pt_pages t)" "pt_pages t ! lp < 0" and "0 \<le> page"
    and fresh: "page \<notin> pt_mine t \<union> pt_borrowed t"
  shows "pt_shape (pt_put t lp page)"
proof -
  have ne: "pt_pages t ! i \<noteq> page" if "i < length (pt_pages t)" for i
    using pt_all_pages [OF that] fresh assms(4) by auto
  have inj: "pt_inj t" and len: "length (pt_owned t) = length (pt_pages t)"
    using sh by (simp_all add: pt_shape_def)
  have "i = j" if "i < length (pt_pages t)" "j < length (pt_pages t)"
      "(pt_pages t)[lp := page] ! i = (pt_pages t)[lp := page] ! j" "0 \<le> (pt_pages t)[lp := page] ! i" for i j
    using that pt_inj_eq [OF inj, of i j] ne [of i] ne [of j]
    by (cases "i = lp"; cases "j = lp") auto
  then have "pt_inj (pt_put t lp page)" unfolding pt_inj_def pt_put_eq [OF sh] by simp
  moreover have "0 \<le> (pt_pages t)[lp := page] ! i" if "i < length (pt_pages t)" "(pt_owned t)[lp := True] ! i" for i
    using that sh assms(4) by (cases "i = lp") (auto simp: pt_shape_def)
  ultimately show ?thesis using sh unfolding pt_shape_def by (simp add: pt_put_eq [OF sh])
qed

text \<open>What does not matter for the accounting.\<close>

lemma pt_sets_other [simp]:
  "pt_mine (t\<lparr>pt_alloc := a\<rparr>) = pt_mine t" "pt_borrowed (t\<lparr>pt_alloc := a\<rparr>) = pt_borrowed t"
  "pt_mine (t\<lparr>pt_device := d\<rparr>) = pt_mine t" "pt_borrowed (t\<lparr>pt_device := d\<rparr>) = pt_borrowed t"
  "pt_mine (t\<lparr>pt_synced := n\<rparr>) = pt_mine t" "pt_borrowed (t\<lparr>pt_synced := n\<rparr>) = pt_borrowed t"
  "pt_shape (t\<lparr>pt_alloc := a\<rparr>) = pt_shape t" "pt_shape (t\<lparr>pt_device := d\<rparr>) = pt_shape t"
  "pt_shape (t\<lparr>pt_synced := n\<rparr>) = pt_shape t"
  by (simp_all add: pt_mine_def pt_borrowed_def pt_shape_def pt_inj_def)

lemma pt_ok_other [simp]:
  "pt_ok pinv powned base (t\<lparr>pt_device := d\<rparr>) = pt_ok pinv powned base t"
  "pt_ok pinv powned base (t\<lparr>pt_synced := n\<rparr>) = pt_ok pinv powned base t"
  by (simp_all add: pt_ok_def)

text \<open>The order in which the growing operations move: residents keep their page.\<close>

definition pt_ext :: "'p ptab \<Rightarrow> 'p ptab \<Rightarrow> bool" where
  "pt_ext t t' \<longleftrightarrow> pt_max t' = pt_max t \<and> pt_page_size t' = pt_page_size t \<and> pt_mode t' = pt_mode t \<and>
     pt_bounded t' = pt_bounded t \<and> pt_device t' = pt_device t \<and> pt_synced t' = pt_synced t \<and>
     length (pt_pages t) \<le> length (pt_pages t') \<and>
     (\<forall>i < length (pt_pages t). 0 \<le> pt_pages t ! i \<longrightarrow> pt_pages t' ! i = pt_pages t ! i)"

lemma pt_ext_refl [simp]: "pt_ext t t"
  by (simp add: pt_ext_def)

lemma pt_ext_trans: "pt_ext t u \<Longrightarrow> pt_ext u v \<Longrightarrow> pt_ext t v"
  by (auto simp: pt_ext_def)

lemma pt_ext_resident: "pt_ext t u \<Longrightarrow> pt_resident t lp \<Longrightarrow> pt_resident u lp"
  by (auto simp: pt_ext_def pt_resident_def)

lemma pt_ext_push: "pt_ext t (pt_push (t\<lparr>pt_alloc := a\<rparr>) page)"
  by (simp add: pt_ext_def pt_push_def nth_append)

lemma pt_ext_put: "pt_pages t ! lp < 0 \<Longrightarrow> pt_ext t (pt_put (t\<lparr>pt_alloc := a\<rparr>) lp page)"
proof -
  assume "pt_pages t ! lp < 0"
  then have "(pt_pages t)[lp := page] ! i = pt_pages t ! i" if "0 \<le> pt_pages t ! i" for i
    using that by (cases "i = lp") auto
  then show ?thesis by (simp add: pt_ext_def pt_put_def Let_def)
qed

context page_allocator begin

lemma pt_fetch_ok:
  assumes ok: "pt_ok inv owned base t" and f: "pt_fetch alloc t lp = (t', r)"
  shows "case r of Inl e \<Rightarrow> t' = t
    | Inr page \<Rightarrow> (\<exists>p'. t' = t\<lparr>pt_alloc := Some p'\<rparr> \<and> inv p' \<and>
        owned p' = base \<union> insert page (pt_mine t) \<and> page \<notin> base \<and> page \<notin> pt_mine t \<union> pt_borrowed t \<and>
        0 \<le> page \<and> page < int (capacity p'))"
proof -
  obtain p where p: "pt_alloc t = Some p" "inv p" "owned p = base \<union> pt_mine t" "pt_borrowed t \<subseteq> base"
    using ok by (auto simp: pt_ok_def)
  obtain p' r' where a: "alloc p = (p', r')" by (cases "alloc p")
  then have t': "t' = t\<lparr>pt_alloc := Some p'\<rparr>" "r = r'" using f p(1) by (simp_all add: pt_fetch_def)
  show ?thesis
  proof (cases r)
    case (Inl e)
    then have "p' = p" using alloc_err [OF p(2)] a t' by simp
    then show ?thesis using t'(1) p(1) Inl by simp
  next
    case (Inr page)
    have al: "alloc p = (p', Inr page)" using a t' Inr by simp
    note A = alloc_ok [OF p(2) al]
    have "0 \<le> page \<and> page < int (capacity p')" using alloc_range [OF p(2) al] A by simp
    moreover have "page \<notin> pt_borrowed t" using A p(3,4) by blast
    ultimately have "inv p' \<and> owned p' = base \<union> insert page (pt_mine t) \<and> page \<notin> base \<and>
        page \<notin> pt_mine t \<union> pt_borrowed t \<and> 0 \<le> page \<and> page < int (capacity p')"
      using A p(3) by simp
    then show ?thesis using t'(1) Inr by auto
  qed
qed

lemma pt_push_ok:
  assumes "pt_ok inv owned base t" and "pt_fetch alloc t lp = (t', Inr page)"
    and "length (pt_pages t) < pt_max t"
  shows "pt_ok inv owned base (pt_push t' page)" and "pt_ext t (pt_push t' page)"
    and "length (pt_pages (pt_push t' page)) = Suc (length (pt_pages t))"
    and "pt_resident (pt_push t' page) (length (pt_pages t))"
proof -
  obtain p' where p': "t' = t\<lparr>pt_alloc := Some p'\<rparr>" "inv p'"
    "owned p' = base \<union> insert page (pt_mine t)" "page \<notin> base" "page \<notin> pt_mine t \<union> pt_borrowed t" "0 \<le> page"
    using pt_fetch_ok [OF assms(1,2)] by auto
  have sh: "pt_shape t'" and o: "base \<inter> pt_mine t = {}" "pt_borrowed t \<subseteq> base"
    using assms(1) p'(1) by (auto simp: pt_ok_def)
  have "pt_shape (pt_push t' page)" using pt_push_shape [OF sh] assms(3) p' by simp
  moreover have "pt_alloc (pt_push t' page) = Some p'" using p'(1) by (simp add: pt_push_def)
  ultimately show "pt_ok inv owned base (pt_push t' page)"
    unfolding pt_ok_def pt_push_sets [OF sh] using p' o by auto
  show "pt_ext t (pt_push t' page)" unfolding p'(1) by (rule pt_ext_push)
  show "length (pt_pages (pt_push t' page)) = Suc (length (pt_pages t))"
    and "pt_resident (pt_push t' page) (length (pt_pages t))"
    using p'(1,6) by (simp_all add: pt_push_def pt_resident_def)
qed

lemma pt_put_ok:
  assumes "pt_ok inv owned base t" and "pt_fetch alloc t k = (t', Inr page)"
    and "lp < length (pt_pages t)" and "pt_pages t ! lp < 0"
  shows "pt_ok inv owned base (pt_put t' lp page)" and "pt_ext t (pt_put t' lp page)"
    and "length (pt_pages (pt_put t' lp page)) = length (pt_pages t)"
    and "pt_resident (pt_put t' lp page) lp"
    and "i \<noteq> lp \<Longrightarrow> pt_pages (pt_put t' lp page) ! i = pt_pages t ! i"
proof -
  obtain p' where p': "t' = t\<lparr>pt_alloc := Some p'\<rparr>" "inv p'"
    "owned p' = base \<union> insert page (pt_mine t)" "page \<notin> base" "page \<notin> pt_mine t \<union> pt_borrowed t" "0 \<le> page"
    using pt_fetch_ok [OF assms(1,2)] by auto
  have sh: "pt_shape t'" and o: "base \<inter> pt_mine t = {}" "pt_borrowed t \<subseteq> base"
    using assms(1) p'(1) by (auto simp: pt_ok_def)
  have lp: "lp < length (pt_pages t')" "pt_pages t' ! lp < 0" using assms(3,4) p'(1) by simp_all
  have "pt_shape (pt_put t' lp page)" using pt_put_shape [OF sh lp] p' by simp
  moreover have "pt_alloc (pt_put t' lp page) = Some p'" using p'(1) by (simp add: pt_put_def Let_def)
  ultimately show "pt_ok inv owned base (pt_put t' lp page)"
    unfolding pt_ok_def pt_put_sets [OF sh lp] using p' o by auto
  show "pt_ext t (pt_put t' lp page)" unfolding p'(1) by (rule pt_ext_put [OF assms(4)])
  show "length (pt_pages (pt_put t' lp page)) = length (pt_pages t)"
    and "pt_resident (pt_put t' lp page) lp"
    using p'(1,6) assms(3) by (simp_all add: pt_put_def Let_def pt_resident_def)
  show "i \<noteq> lp \<Longrightarrow> pt_pages (pt_put t' lp page) ! i = pt_pages t ! i"
    using p'(1) by (simp add: pt_put_def Let_def)
qed

text \<open>The growing loops, whatever their outcome.\<close>

lemma pt_grow_ok:
  assumes "pt_ok inv owned base t" and "length (pt_pages t) + k \<le> pt_max t" and "pt_grow alloc k t = (t', r)"
  shows "pt_ok inv owned base t' \<and> pt_ext t t' \<and> length (pt_pages t') \<le> length (pt_pages t) + k \<and>
    (\<forall>i < length (pt_pages t). pt_pages t' ! i = pt_pages t ! i) \<and>
    (r = Inr () \<longrightarrow> length (pt_pages t') = length (pt_pages t) + k \<and>
       (\<forall>lp. length (pt_pages t) \<le> lp \<and> lp < length (pt_pages t) + k \<longrightarrow> pt_resident t' lp))"
  using assms
proof (induction k arbitrary: t)
  case (Suc k)
  obtain t1 q where f: "pt_fetch alloc t (length (pt_pages t)) = (t1, q)" by fastforce
  show ?case
  proof (cases q)
    case (Inl e)
    then have "t' = t1" "r = Inl e" using Suc.prems(3) f by simp_all
    then show ?thesis using pt_fetch_ok [OF Suc.prems(1) f] Inl Suc.prems(1) by simp
  next
    case (Inr page)
    let ?u = "pt_push t1 page"
    have lt: "length (pt_pages t) < pt_max t" using Suc.prems(2) by simp
    note P = pt_push_ok [OF Suc.prems(1) f [unfolded Inr] lt]
    have m: "pt_max ?u = pt_max t" using P(2) by (simp add: pt_ext_def)
    have "pt_grow alloc k ?u = (t', r)" using Suc.prems(3) f Inr by simp
    from Suc.IH [OF P(1) _ this] Suc.prems(2) m P(3)
    have I: "pt_ok inv owned base t'" "pt_ext ?u t'" "length (pt_pages t') \<le> length (pt_pages t) + Suc k"
      "\<forall>i < Suc (length (pt_pages t)). pt_pages t' ! i = pt_pages ?u ! i"
      "r = Inr () \<longrightarrow> length (pt_pages t') = length (pt_pages t) + Suc k \<and>
       (\<forall>lp. Suc (length (pt_pages t)) \<le> lp \<and> lp < length (pt_pages t) + Suc k \<longrightarrow> pt_resident t' lp)" by simp_all
    obtain p' where t1: "t1 = t\<lparr>pt_alloc := Some p'\<rparr>"
      using pt_fetch_ok [OF Suc.prems(1) f] Inr by auto
    have "\<forall>i < length (pt_pages t). pt_pages t' ! i = pt_pages t ! i"
      using I(4) t1 by (simp add: pt_push_def nth_append)
    moreover have "pt_resident t' (length (pt_pages t))" using pt_ext_resident [OF I(2) P(4)] .
    then have "r = Inr () \<longrightarrow> length (pt_pages t') = length (pt_pages t) + Suc k \<and>
       (\<forall>lp. length (pt_pages t) \<le> lp \<and> lp < length (pt_pages t) + Suc k \<longrightarrow> pt_resident t' lp)"
      using I(5) by (metis Suc_leI le_neq_implies_less)
    ultimately show ?thesis using I(1,3) pt_ext_trans [OF P(2) I(2)] by simp
  qed
qed auto

lemma pt_fill_ok:
  assumes "pt_ok inv owned base t" and "\<forall>lp \<in> set lps. lp < length (pt_pages t)"
    and "pt_fill alloc lps t = (t', r)"
  shows "pt_ok inv owned base t' \<and> pt_ext t t' \<and> length (pt_pages t') = length (pt_pages t) \<and>
    (\<forall>i. i \<notin> set lps \<longrightarrow> pt_pages t' ! i = pt_pages t ! i) \<and>
    (r = Inr () \<longrightarrow> (\<forall>lp \<in> set lps. pt_resident t' lp))"
  using assms
proof (induction lps arbitrary: t)
  case (Cons lp lps)
  show ?case
  proof (cases "0 \<le> pt_pages t ! lp")
    case True
    then have f: "pt_fill alloc lps t = (t', r)" and "pt_resident t lp"
      using Cons.prems(2,3) by (auto simp: pt_resident_def)
    have "\<forall>lp \<in> set lps. lp < length (pt_pages t)" using Cons.prems(2) by simp
    note I = Cons.IH [OF Cons.prems(1) this f]
    then show ?thesis using pt_ext_resident \<open>pt_resident t lp\<close> by auto
  next
    case False
    obtain t1 q where f: "pt_fetch alloc t lp = (t1, q)" by fastforce
    show ?thesis
    proof (cases q)
      case (Inl e)
      then have "t' = t1" "r = Inl e" using Cons.prems(3) f False by simp_all
      then show ?thesis using pt_fetch_ok [OF Cons.prems(1) f] Inl Cons.prems(1) by simp
    next
      case (Inr page)
      let ?u = "pt_put t1 lp page"
      have lp: "lp < length (pt_pages t)" "pt_pages t ! lp < 0" using Cons.prems(2) False by simp_all
      note P = pt_put_ok [OF Cons.prems(1) f [unfolded Inr] lp]
      have "pt_fill alloc lps ?u = (t', r)" using Cons.prems(3) f Inr False by simp
      from Cons.IH [OF P(1) _ this] Cons.prems(2) P(3)
      have I: "pt_ok inv owned base t'" "pt_ext ?u t'" "length (pt_pages t') = length (pt_pages t)"
        "\<forall>i. i \<notin> set lps \<longrightarrow> pt_pages t' ! i = pt_pages ?u ! i"
        "r = Inr () \<longrightarrow> (\<forall>lp \<in> set lps. pt_resident t' lp)" by simp_all
      have "pt_resident t' lp" using pt_ext_resident [OF I(2) P(4)] .
      then show ?thesis using I pt_ext_trans [OF P(2) I(2)] P(5) by simp
    qed
  qed
qed simp

lemma pt_fill_ranges_ok:
  assumes "pt_ok inv owned base t" and "pt_fill_ranges alloc rs up t = (t', r)"
  shows "pt_ok inv owned base t' \<and> pt_ext t t' \<and> (\<forall>up'. r = Inr up' \<longrightarrow>
    fst up' \<le> fst up \<and> snd up \<le> snd up' \<and> snd up' \<le> max (snd up) (pt_max t) \<and>
    length (pt_pages t') \<le> max (length (pt_pages t)) (snd up') \<and>
    snd up' \<le> max (snd up) (length (pt_pages t')) \<and>
    (\<forall>i < length (pt_pages t). pt_pages t' ! i \<noteq> pt_pages t ! i \<longrightarrow> fst up' \<le> i \<and> i < snd up') \<and>
    (\<forall>(a, n) \<in> set rs. \<forall>lp. a \<le> lp \<and> lp < a + n \<longrightarrow> fst up' \<le> lp \<and> lp < snd up' \<and> pt_resident t' lp))"
  using assms
proof (induction rs arbitrary: t up)
  case (Cons ab rs)
  obtain a n where ab: "ab = (a, n)" by (cases ab)
  consider "n = 0" | "n \<noteq> 0" "pt_max t < a + n" | "n \<noteq> 0" "a + n \<le> pt_max t" by linarith
  then show ?case
  proof cases
    case 1
    then have f: "pt_fill_ranges alloc rs up t = (t', r)" using Cons.prems(2) ab by simp
    have cover: "\<And>up'. (\<forall>(a, n) \<in> set (ab # rs). \<forall>lp. a \<le> lp \<and> lp < a + n \<longrightarrow> fst up' \<le> lp \<and> lp < snd up' \<and> pt_resident t' lp) \<longleftrightarrow>
        (\<forall>(a, n) \<in> set rs. \<forall>lp. a \<le> lp \<and> lp < a + n \<longrightarrow> fst up' \<le> lp \<and> lp < snd up' \<and> pt_resident t' lp)" using 1 ab by auto
    show ?thesis unfolding cover by (rule Cons.IH [OF Cons.prems(1) f])
  next
    case 2
    then show ?thesis using Cons.prems ab by auto
  next
    case 3
    obtain t1 q1 where g: "pt_grow alloc (a + n - length (pt_pages t)) t = (t1, q1)" by fastforce
    have "length (pt_pages t) \<le> pt_max t" using Cons.prems(1) by (simp add: pt_ok_def pt_shape_def)
    then have "length (pt_pages t) + (a + n - length (pt_pages t)) \<le> pt_max t" using 3 by simp
    note G = pt_grow_ok [OF Cons.prems(1) this g]
    have step: "pt_fill_ranges alloc ((a, n) # rs) up t = then_do (t1, q1) (\<lambda>t1 _.
        then_do (pt_fill alloc [a..<a + n] t1) (\<lambda>t2 _.
          pt_fill_ranges alloc rs (min (fst up) a, max (snd up) (a + n)) t2))"
      using 3 g by simp
    show ?thesis
    proof (cases q1)
      case (Inl e)
      then show ?thesis using Cons.prems(2) G step ab by simp
    next
      case (Inr u)
      have len1: "length (pt_pages t1) = max (length (pt_pages t)) (a + n)" using G Inr by simp
      obtain t2 q2 where f: "pt_fill alloc [a..<a + n] t1 = (t2, q2)" by fastforce
      have ok1: "pt_ok inv owned base t1" using G by simp
      have "\<forall>lp \<in> set [a..<a + n]. lp < length (pt_pages t1)" using len1 by auto
      note F = pt_fill_ok [OF ok1 this f]
      have ext2: "pt_ext t t2" using G F pt_ext_trans by blast
      show ?thesis
      proof (cases q2)
        case (Inl e)
        then show ?thesis using Cons.prems(2) F ext2 step ab Inr f by simp
      next
        case i2: (Inr u2)
        let ?up = "(min (fst up) a, max (snd up) (a + n))"
        have rest: "pt_fill_ranges alloc rs ?up t2 = (t', r)"
          using Cons.prems(2) step ab Inr i2 f by simp
        have ok2: "pt_ok inv owned base t2" and len2: "length (pt_pages t2) = max (length (pt_pages t)) (a + n)"
          using F len1 by simp_all
        note I = Cons.IH [OF ok2 rest]
        have res2: "pt_resident t2 lp" if "a \<le> lp" "lp < a + n" for lp using F i2 that by simp
        have ch2: "a \<le> i \<and> i < a + n" if "i < length (pt_pages t)" "pt_pages t2 ! i \<noteq> pt_pages t ! i" for i
        proof (rule ccontr)
          assume "\<not> (a \<le> i \<and> i < a + n)"
          then have "i \<notin> set [a..<a + n]" by auto
          then show False using F G that by metis
        qed
        have m2: "pt_max t2 = pt_max t" using ext2 by (simp add: pt_ext_def)
        have "\<forall>up'. r = Inr up' \<longrightarrow>
          fst up' \<le> fst up \<and> snd up \<le> snd up' \<and> snd up' \<le> max (snd up) (pt_max t) \<and>
          length (pt_pages t') \<le> max (length (pt_pages t)) (snd up') \<and>
          snd up' \<le> max (snd up) (length (pt_pages t')) \<and>
          (\<forall>i < length (pt_pages t). pt_pages t' ! i \<noteq> pt_pages t ! i \<longrightarrow> fst up' \<le> i \<and> i < snd up') \<and>
          (\<forall>(a, n) \<in> set ((a, n) # rs). \<forall>lp. a \<le> lp \<and> lp < a + n \<longrightarrow> fst up' \<le> lp \<and> lp < snd up' \<and> pt_resident t' lp)"
        proof (intro allI impI)
          fix up' assume r: "r = Inr up'"
          have J: "fst up' \<le> min (fst up) a" "max (snd up) (a + n) \<le> snd up'"
            "snd up' \<le> max (max (snd up) (a + n)) (pt_max t2)"
            "length (pt_pages t') \<le> max (length (pt_pages t2)) (snd up')"
            "snd up' \<le> max (max (snd up) (a + n)) (length (pt_pages t'))"
            "\<forall>i < length (pt_pages t2). pt_pages t' ! i \<noteq> pt_pages t2 ! i \<longrightarrow> fst up' \<le> i \<and> i < snd up'"
            "\<forall>(a, n) \<in> set rs. \<forall>lp. a \<le> lp \<and> lp < a + n \<longrightarrow> fst up' \<le> lp \<and> lp < snd up' \<and> pt_resident t' lp"
            "pt_ext t2 t'"
            using I r by simp_all
          have res: "fst up' \<le> lp \<and> lp < snd up' \<and> pt_resident t' lp" if "a \<le> lp \<and> lp < a + n" for lp
            using pt_ext_resident [OF J(8)] res2 J(1,2) that by fastforce
          have ch: "fst up' \<le> i \<and> i < snd up'"
            if i: "i < length (pt_pages t)" "pt_pages t' ! i \<noteq> pt_pages t ! i" for i
          proof (cases "pt_pages t' ! i = pt_pages t2 ! i")
            case True
            then show ?thesis using ch2 [OF i(1)] i(2) J(1,2) by auto
          next
            case False
            then show ?thesis using J(6) i(1) len2 by simp
          qed
          have "length (pt_pages t2) \<le> length (pt_pages t')" using J(8) by (simp add: pt_ext_def)
          then show "fst up' \<le> fst up \<and> snd up \<le> snd up' \<and> snd up' \<le> max (snd up) (pt_max t) \<and>
            length (pt_pages t') \<le> max (length (pt_pages t)) (snd up') \<and>
            snd up' \<le> max (snd up) (length (pt_pages t')) \<and>
            (\<forall>i < length (pt_pages t). pt_pages t' ! i \<noteq> pt_pages t ! i \<longrightarrow> fst up' \<le> i \<and> i < snd up') \<and>
            (\<forall>(a, n) \<in> set ((a, n) # rs). \<forall>lp. a \<le> lp \<and> lp < a + n \<longrightarrow> fst up' \<le> lp \<and> lp < snd up' \<and> pt_resident t' lp)"
            using J(1-5,7) len2 m2 3 res ch by auto
        qed
        then show ?thesis using I pt_ext_trans [OF ext2] ab by blast
      qed
    qed
  qed
qed auto

end

section \<open>The device copy\<close>

definition pt_mirror :: "'p ptab \<Rightarrow> bool" where
  "pt_mirror t \<longleftrightarrow> pt_synced t \<le> length (pt_pages t) \<and> (case pt_device t of None \<Rightarrow> pt_synced t = 0
     | Some d \<Rightarrow> pt_max t \<le> length d \<and> (\<forall>i < pt_synced t. d ! i = Some (pt_pages t ! i)))"

lemma pt_cells_mirror:
  assumes "pt_mirror t"
  shows "pt_max t \<le> length (pt_device_cells t)"
    and "i < pt_synced t \<Longrightarrow> pt_device_cells t ! i = Some (pt_pages t ! i)"
  using assms by (auto simp: pt_mirror_def pt_device_cells_def split: option.splits)

lemma pt_copied_nth:
  "i < length (pt_device_cells t) \<Longrightarrow> pt_copied t a n ! i =
     (if a \<le> i \<and> i < a + n then Some (pt_pages t ! i) else pt_device_cells t ! i)"
  by (simp add: pt_copied_def Let_def)

lemma length_pt_copied [simp]: "length (pt_copied t a n) = length (pt_device_cells t)"
  by (simp add: pt_copied_def Let_def)

text \<open>
  Publishing the interval from \<open>a\<close> to \<open>e\<close> keeps the mirror for any prefix length every index of
  which lies in the interval or was published before and has not changed.
\<close>

lemma pt_publish_gen:
  assumes m: "pt_mirror t" and same: "pt_device u = pt_device t" "pt_max u = pt_max t"
    and len: "length (pt_pages u) \<le> pt_max t" and k: "k \<le> length (pt_pages u)"
    and cov: "\<And>i. i < k \<Longrightarrow> a \<le> i \<and> i < e \<or> i < pt_synced t \<and> pt_pages u ! i = pt_pages t ! i"
  shows "pt_mirror (u\<lparr>pt_device := Some (pt_copied u a (e - a)), pt_synced := k\<rparr>)"
proof -
  have cells: "pt_device_cells u = pt_device_cells t"
    using same by (simp add: pt_device_cells_def cong: option.case_cong)
  have "pt_copied u a (e - a) ! i = Some (pt_pages u ! i)" if i: "i < k" for i
  proof -
    have len: "i < length (pt_device_cells u)"
      using i k len pt_cells_mirror(1) [OF m] unfolding cells by simp
    show ?thesis using cov [OF i] pt_copied_nth [OF len, of a "e - a"] pt_cells_mirror(2) [OF m, of i]
      by (auto simp: cells)
  qed
  then show ?thesis using k same pt_cells_mirror(1) [OF m] by (simp add: pt_mirror_def cells)
qed

lemma pt_publish:
  assumes m: "pt_mirror t" and ext: "pt_ext t u" and a: "a \<le> pt_synced t"
    and e: "e \<le> length (pt_pages u)" "length (pt_pages u) \<le> pt_max t"
    and ch: "\<And>i. i < pt_synced t \<Longrightarrow> pt_pages u ! i \<noteq> pt_pages t ! i \<Longrightarrow> a \<le> i \<and> i < e"
  shows "pt_mirror (u\<lparr>pt_device := Some (pt_copied u a (e - a)), pt_synced := max (pt_synced u) e\<rparr>)"
proof (rule pt_publish_gen [OF m])
  fix i assume i: "i < max (pt_synced u) e"
  show "a \<le> i \<and> i < e \<or> i < pt_synced t \<and> pt_pages u ! i = pt_pages t ! i"
  proof (cases "i < pt_synced t")
    case True
    then show ?thesis using ch by blast
  next
    case False
    then show ?thesis using i a ext by (simp add: pt_ext_def)
  qed
qed (use e ext m in \<open>auto simp: pt_ext_def pt_mirror_def\<close>)

lemma pt_upload_ok:
  assumes "pt_upload cp t a n = (t', r)"
  shows "(\<exists>d. t' = t\<lparr>pt_device := Some d\<rparr>)"
    and "r = Inr () \<Longrightarrow> t' = t\<lparr>pt_device := Some (pt_copied t a n)\<rparr>"
  using assms by (auto simp: pt_upload_def split: if_splits)

context page_allocator begin

lemma pt_ensure_ranges_ok:
  assumes ok: "pt_ok inv owned base t" and en: "pt_ensure_ranges alloc cp rs t = (t', r)"
  shows "pt_ok inv owned base t'"
    and "pt_mirror t \<Longrightarrow> r = Inr () \<Longrightarrow> pt_mirror t'"
    and "r = Inr () \<Longrightarrow> \<forall>(a, n) \<in> set rs. \<forall>lp. a \<le> lp \<and> lp < a + n \<longrightarrow> pt_resident t' lp \<and> lp < pt_synced t'"
    and "\<forall>i < length (pt_pages t). 0 \<le> pt_pages t ! i \<longrightarrow> pt_pages t' ! i = pt_pages t ! i"
    and "length (pt_pages t) \<le> length (pt_pages t')" and "pt_max t' = pt_max t"
proof -
  have "pt_ok inv owned base t' \<and> (pt_mirror t \<longrightarrow> r = Inr () \<longrightarrow> pt_mirror t') \<and>
    (r = Inr () \<longrightarrow> (\<forall>(a, n) \<in> set rs. \<forall>lp. a \<le> lp \<and> lp < a + n \<longrightarrow> pt_resident t' lp \<and> lp < pt_synced t')) \<and>
    (\<forall>i < length (pt_pages t). 0 \<le> pt_pages t ! i \<longrightarrow> pt_pages t' ! i = pt_pages t ! i) \<and>
    length (pt_pages t) \<le> length (pt_pages t') \<and> pt_max t' = pt_max t"
  proof (cases "rs = []")
    case True
    then show ?thesis using en ok by (auto simp: pt_ensure_ranges_def)
  next
    case False
    obtain u q where f: "pt_fill_ranges alloc rs (pt_max t, 0) t = (u, q)" by fastforce
    note F = pt_fill_ranges_ok [OF ok f]
    have ext: "pt_ext t u" and oku: "pt_ok inv owned base u" using F by simp_all
    have ext': "(\<forall>i < length (pt_pages t). 0 \<le> pt_pages t ! i \<longrightarrow> pt_pages u ! i = pt_pages t ! i)"
      "length (pt_pages t) \<le> length (pt_pages u)" "pt_max u = pt_max t" "pt_synced u = pt_synced t"
      using ext by (simp_all add: pt_ext_def)
    show ?thesis
    proof (cases q)
      case (Inl e)
      then show ?thesis using en f False oku ext' by (auto simp: pt_ensure_ranges_def)
    next
      case (Inr up)
      obtain b e where up: "up = (b, e)" by (cases up)
      have J: "e \<le> max 0 (length (pt_pages u))"
        "\<forall>i < length (pt_pages t). pt_pages u ! i \<noteq> pt_pages t ! i \<longrightarrow> b \<le> i \<and> i < e"
        "\<forall>(a, n) \<in> set rs. \<forall>lp. a \<le> lp \<and> lp < a + n \<longrightarrow> b \<le> lp \<and> lp < e \<and> pt_resident u lp"
        "length (pt_pages u) \<le> max (length (pt_pages t)) e" "b \<le> pt_max t"
        using F Inr up by simp_all
      show ?thesis
      proof (cases "e \<le> b")
        case True
        then have t': "t' = u" "r = Inr ()" using en f False Inr up by (simp_all add: pt_ensure_ranges_def)
        have same: "pt_pages u ! i = pt_pages t ! i" if "i < length (pt_pages t)" for i
          using J(2) that True by fastforce
        have "pt_mirror u" if m: "pt_mirror t"
          using m ext same by (auto simp: pt_mirror_def pt_ext_def split: option.splits)
        moreover have "\<forall>(a, n) \<in> set rs. \<forall>lp. a \<le> lp \<and> lp < a + n \<longrightarrow> pt_resident u lp \<and> lp < pt_synced u"
          using J(3) True by fastforce
        ultimately show ?thesis using t' oku ext' by simp
      next
        case ne: False
        let ?a = "min b (pt_synced u)"
        obtain v q2 where p: "pt_upload cp u ?a (e - ?a) = (v, q2)" by fastforce
        have t': "t' = (case q2 of Inl x \<Rightarrow> v | Inr x \<Rightarrow> v\<lparr>pt_synced := max (pt_synced v) e\<rparr>)" "(r = Inr ()) = (q2 = Inr ())"
          using en f False Inr up ne p by (cases q2; auto simp: pt_ensure_ranges_def Let_def)+
        obtain d where v: "v = u\<lparr>pt_device := Some d\<rparr>" using pt_upload_ok(1) [OF p] by blast
        have base: "pt_ok inv owned base t'" "pt_pages t' = pt_pages u" "pt_max t' = pt_max u"
          using t'(1) v oku by (auto split: sum.splits)
        have "pt_mirror t'" if m: "pt_mirror t" and r: "r = Inr ()"
        proof -
          have w: "t' = u\<lparr>pt_device := Some (pt_copied u ?a (e - ?a)), pt_synced := max (pt_synced u) e\<rparr>"
            using t' r pt_upload_ok(2) [OF p] by simp
          show ?thesis unfolding w
          proof (rule pt_publish [OF m ext])
            show "length (pt_pages u) \<le> pt_max t" using oku ext'(3) by (simp add: pt_ok_def pt_shape_def)
            fix i assume "i < pt_synced t" "pt_pages u ! i \<noteq> pt_pages t ! i"
            moreover from this have "i < length (pt_pages t)" using m by (simp add: pt_mirror_def)
            ultimately have "b \<le> i \<and> i < e" using J(2) by blast
            then show "?a \<le> i \<and> i < e" by (auto simp: min_le_iff_disj)
          qed (use J(1) ext'(4) in simp_all)
        qed
        moreover have "\<forall>(a, n) \<in> set rs. \<forall>lp. a \<le> lp \<and> lp < a + n \<longrightarrow> pt_resident t' lp \<and> lp < pt_synced t'"
          if "r = Inr ()"
          using J(3) that t' base(2) by (fastforce simp: pt_resident_def)
        ultimately show ?thesis using base ext' by simp
      qed
    qed
  qed
  then show "pt_ok inv owned base t'"
    and "pt_mirror t \<Longrightarrow> r = Inr () \<Longrightarrow> pt_mirror t'"
    and "r = Inr () \<Longrightarrow> \<forall>(a, n) \<in> set rs. \<forall>lp. a \<le> lp \<and> lp < a + n \<longrightarrow> pt_resident t' lp \<and> lp < pt_synced t'"
    and "\<forall>i < length (pt_pages t). 0 \<le> pt_pages t ! i \<longrightarrow> pt_pages t' ! i = pt_pages t ! i"
    and "length (pt_pages t) \<le> length (pt_pages t')" and "pt_max t' = pt_max t" by blast+
qed

lemma pt_grow_checked_eq:
  "pt_ok inv owned base t \<Longrightarrow> length (pt_pages t) + k \<le> pt_max t \<Longrightarrow>
    pt_grow_checked alloc release capacity k t = pt_grow alloc k t"
proof (induction k arbitrary: t)
  case (Suc k)
  obtain t1 q where f: "pt_fetch alloc t (length (pt_pages t)) = (t1, q)" by fastforce
  show ?case
  proof (cases q)
    case (Inr page)
    have lt: "length (pt_pages t) < pt_max t" using Suc.prems(2) by simp
    note P = pt_push_ok [OF Suc.prems(1) f [unfolded Inr] lt]
    obtain p' where t1: "t1 = t\<lparr>pt_alloc := Some p'\<rparr>" "0 \<le> page" "page < int (capacity p')"
      using pt_fetch_ok [OF Suc.prems(1) f] Inr by auto
    have "in_pool page (capacity p')" using t1 by (auto simp: in_pool_def)
    moreover have "pt_max (pt_push t1 page) = pt_max t" using P(2) by (simp add: pt_ext_def)
    ultimately show ?thesis using Suc.IH [OF P(1)] Suc.prems(2) P(3) f Inr t1(1) by simp
  qed (simp add: f)
qed simp

lemma pt_need_pages:
  assumes "0 < ps" and "0 < x" and "x \<le> UINT32_MAX"
  shows "u32 ((x + ps - 1) div ps) = ceil_div x ps" and "x \<le> u32 ((x + ps - 1) div ps) * ps"
proof -
  have "ceil_div x ps \<le> UINT32_MAX" using ceil_div_le_self [OF assms(1), of x] assms(3) by simp
  then show e: "u32 ((x + ps - 1) div ps) = ceil_div x ps"
    unfolding ceil_div_def by (rule u32_id)
  show "x \<le> u32 ((x + ps - 1) div ps) * ps" unfolding e by (rule ceil_div_bounds(1) [OF assms(1)])
qed

lemma pt_ensure_pages_ok:
  assumes ok: "pt_ok inv owned base t" and nb: "\<not> pt_bounded t" and ps: "0 < pt_page_size t"
    and ctx: "ctx_size \<le> UINT32_MAX" and m: "pt_mirror t"
    and en: "pt_ensure_pages alloc release capacity cp ctx_size pos n t = (t', r)"
  shows "pt_ok inv owned base t'"
    and "\<forall>i < length (pt_pages t). 0 \<le> pt_pages t ! i \<longrightarrow> pt_pages t' ! i = pt_pages t ! i"
    and "r = Inr () \<Longrightarrow> pt_mirror t'"
    and "r = Inr () \<Longrightarrow> n \<noteq> 0 \<Longrightarrow> pt_synced t' = length (pt_pages t') \<and>
      pos + n \<le> length (pt_pages t') * pt_page_size t \<and>
      (\<forall>lp. length (pt_pages t) \<le> lp \<and> lp < length (pt_pages t') \<longrightarrow> pt_resident t' lp)"
proof -
  let ?need = "u32 ((pos + n + pt_page_size t - 1) div pt_page_size t)"
  let ?k = "?need - length (pt_pages t)"
  have "pt_ok inv owned base t' \<and>
    (\<forall>i < length (pt_pages t). 0 \<le> pt_pages t ! i \<longrightarrow> pt_pages t' ! i = pt_pages t ! i) \<and>
    (r = Inr () \<longrightarrow> pt_mirror t' \<and> (n \<noteq> 0 \<longrightarrow> pt_synced t' = length (pt_pages t') \<and>
      pos + n \<le> length (pt_pages t') * pt_page_size t \<and>
      (\<forall>lp. length (pt_pages t) \<le> lp \<and> lp < length (pt_pages t') \<longrightarrow> pt_resident t' lp)))"
  proof (cases "n = 0 \<or> ctx_size < pos + n \<or> pt_max t < ?need")
    case True
    then show ?thesis using en ok m by (auto simp: pt_ensure_pages_def Let_def split: if_splits)
  next
    case False
    have lm: "length (pt_pages t) \<le> pt_max t" using ok by (simp add: pt_ok_def pt_shape_def)
    have fits: "pos + n \<le> ?need * pt_page_size t"
      by (rule pt_need_pages(2) [OF ps]) (use False ctx in simp_all)
    have km: "length (pt_pages t) + ?k \<le> pt_max t" using False lm by linarith
    obtain u q where g: "pt_grow alloc ?k t = (u, q)" by fastforce
    note G = pt_grow_ok [OF ok km g]
    have gc: "pt_grow_checked alloc release capacity ?k t = (u, q)"
      using pt_grow_checked_eq [OF ok km] g by simp
    have ext: "pt_ext t u" and oku: "pt_ok inv owned base u" using G by simp_all
    have keep: "\<forall>i < length (pt_pages t). 0 \<le> pt_pages t ! i \<longrightarrow> pt_pages u ! i = pt_pages t ! i"
      using G by simp
    show ?thesis
    proof (cases q)
      case (Inl e)
      then have "t' = u" "r = Inl e" using en False nb gc by (simp_all add: pt_ensure_pages_def Let_def)
      then show ?thesis using oku keep by simp
    next
      case (Inr x)
      define w where w_def: "w = (if pt_device u = None
        then u\<lparr>pt_device := Some (pt_device_cells u), pt_synced := 0\<rparr> else u)"
      have tail: "pt_ensure_pages alloc release capacity cp ctx_size pos n t =
          (if pt_synced w < length (pt_pages w)
           then then_do (pt_upload cp w (pt_synced w) (length (pt_pages w) - pt_synced w))
             (\<lambda>t3 _. (t3\<lparr>pt_synced := length (pt_pages w)\<rparr>, Inr ()))
           else (w, Inr ()))"
        using False nb gc Inr by (simp add: pt_ensure_pages_def Let_def w_def [symmetric])
      have lu: "length (pt_pages u) = max (length (pt_pages t)) ?need" "length (pt_pages u) \<le> pt_max t"
        using G Inr km lm by auto
      have res: "\<forall>lp. length (pt_pages t) \<le> lp \<and> lp < length (pt_pages u) \<longrightarrow> pt_resident u lp"
        using G Inr lu by auto
      have mu: "pt_mirror u" using m ext keep G by (auto simp: pt_mirror_def pt_ext_def split: option.splits)
      have w: "pt_mirror w" "pt_synced w = pt_synced u" "pt_pages w = pt_pages u" "pt_max w = pt_max u"
          "pt_ok inv owned base w" "pt_device_cells w = pt_device_cells u"
        using mu oku by (cases "pt_device u"; simp add: w_def pt_mirror_def pt_device_cells_def)+
      have n2: "pos + n \<le> length (pt_pages u) * pt_page_size t"
      proof -
        have "?need * pt_page_size t \<le> length (pt_pages u) * pt_page_size t"
          unfolding lu(1) by (intro mult_le_mono1) simp
        then show ?thesis using fits by (rule le_trans [rotated])
      qed
      show ?thesis
      proof (cases "pt_synced u < length (pt_pages u)")
        case True
        obtain v q2 where p: "pt_upload cp w (pt_synced w) (length (pt_pages w) - pt_synced w) = (v, q2)"
          by fastforce
        have t': "t' = (case q2 of Inl x \<Rightarrow> v | Inr x \<Rightarrow> v\<lparr>pt_synced := length (pt_pages u)\<rparr>)" "(r = Inr ()) = (q2 = Inr ())"
        proof -
          have "pt_synced w < length (pt_pages w)" using True w(2,3) by simp
          then have "(t', r) = then_do (v, q2) (\<lambda>t3 _. (t3\<lparr>pt_synced := length (pt_pages w)\<rparr>, Inr ()))"
            using en unfolding tail p by simp
          then show "t' = (case q2 of Inl x \<Rightarrow> v | Inr x \<Rightarrow> v\<lparr>pt_synced := length (pt_pages u)\<rparr>)"
            and "(r = Inr ()) = (q2 = Inr ())" using w(3) by (cases q2; simp)+
        qed
        obtain d where v: "v = w\<lparr>pt_device := Some d\<rparr>" using pt_upload_ok(1) [OF p] by blast
        have B: "pt_ok inv owned base t'" "pt_pages t' = pt_pages u"
          using t'(1) v w(3,5) by (auto split: sum.splits)
        have "pt_mirror t' \<and> pt_synced t' = length (pt_pages t')" if r: "r = Inr ()"
        proof -
          have e: "t' = w\<lparr>pt_device := Some (pt_copied w (pt_synced w) (length (pt_pages w) - pt_synced w)),
              pt_synced := length (pt_pages w)\<rparr>"
            using t' r pt_upload_ok(2) [OF p] w(3) by simp
          have "pt_mirror t'" unfolding e
            by (rule pt_publish_gen [OF w(1)]) (use w ext lu in \<open>auto simp: pt_ext_def\<close>)
          then show ?thesis using e B(2) w(3) by simp
        qed
        moreover have "pt_resident t' lp = pt_resident u lp" for lp using B(2) by (simp add: pt_resident_def)
        ultimately show ?thesis using B keep n2 res by simp
      next
        case f: False
        then have "\<not> pt_synced w < length (pt_pages w)" using w(2,3) by simp
        then have "t' = w" "r = Inr ()" using en unfolding tail by simp_all
        moreover have "pt_synced u = length (pt_pages u)" using f mu by (simp add: pt_mirror_def)
        moreover have "pt_resident w lp = pt_resident u lp" for lp using w(3) by (simp add: pt_resident_def)
        ultimately show ?thesis using w keep n2 res by simp
      qed
    qed
  qed
  then show "pt_ok inv owned base t'"
    and "\<forall>i < length (pt_pages t). 0 \<le> pt_pages t ! i \<longrightarrow> pt_pages t' ! i = pt_pages t ! i"
    and "r = Inr () \<Longrightarrow> pt_mirror t'"
    and "r = Inr () \<Longrightarrow> n \<noteq> 0 \<Longrightarrow> pt_synced t' = length (pt_pages t') \<and>
      pos + n \<le> length (pt_pages t') * pt_page_size t \<and>
      (\<forall>lp. length (pt_pages t) \<le> lp \<and> lp < length (pt_pages t') \<longrightarrow> pt_resident t' lp)" by blast+
qed

end

section \<open>Giving pages up\<close>

text \<open>
  While pages are being cleared the released ones are still the allocator's and nobody's: they count
  as part of the base. \<open>pt_pending\<close> is the accounting with the list \<open>rel\<close> of such pages.
\<close>

definition pt_pending :: "('p \<Rightarrow> bool) \<Rightarrow> ('p \<Rightarrow> int set) \<Rightarrow> int set \<Rightarrow> 'p ptab \<times> int list \<Rightarrow> bool" where
  "pt_pending pinv powned base s \<longleftrightarrow> pt_ok pinv powned (base \<union> set (snd s)) (fst s) \<and>
     set (snd s) \<inter> base = {} \<and> set (snd s) \<inter> pt_borrowed (fst s) = {}"

lemma pt_pending_start: "pt_pending pinv powned base (t, []) = pt_ok pinv powned base t"
  by (simp add: pt_pending_def)

definition pt_cleared :: "nat set \<Rightarrow> 'p ptab \<Rightarrow> 'p ptab \<Rightarrow> bool" where
  "pt_cleared lps t t' \<longleftrightarrow> pt_max t' = pt_max t \<and> pt_device t' = pt_device t \<and> pt_synced t' = pt_synced t \<and>
     pt_bounded t' = pt_bounded t \<and> pt_page_size t' = pt_page_size t \<and>
     length (pt_pages t') = length (pt_pages t) \<and>
     (\<forall>i < length (pt_pages t). i \<notin> lps \<longrightarrow> pt_pages t' ! i = pt_pages t ! i) \<and>
     (\<forall>i < length (pt_pages t). i \<in> lps \<longrightarrow> pt_pages t' ! i < 0)"

lemma pt_clear_one:
  assumes pe: "pt_pending pinv powned base (t, rel)" and lp: "lp < length (pt_pages t)"
    and c: "pt_clear (t, rel) lp = (t', rel')"
  shows "pt_pending pinv powned base (t', rel') \<and> pt_cleared {lp} t t'"
proof (cases "pt_pages t ! lp < 0")
  case True
  then show ?thesis using pe c by (simp add: pt_clear_def pt_cleared_def)
next
  case False
  let ?n = "length (pt_pages t)" and ?q = "pt_pages t ! lp"
  let ?u = "t\<lparr>pt_pages := (pt_pages t)[lp := - 1], pt_owned := (pt_owned t)[lp := False]\<rparr>"
  have ok: "pt_ok pinv powned (base \<union> set rel) t" and rb: "set rel \<inter> base = {}" "set rel \<inter> pt_borrowed t = {}"
    using pe by (simp_all add: pt_pending_def)
  have sh: "pt_shape t" and inj: "pt_inj t" and len: "length (pt_owned t) = ?n"
    using ok by (simp_all add: pt_ok_def pt_shape_def)
  have q: "0 \<le> ?q" using False by simp
  have eq: "t' = ?u" "rel' = (if pt_owned t ! lp then rel @ [?q] else rel)"
    using c False pt_is_owned_shape [OF sh lp] by (auto simp: pt_clear_def)
  have other: "pt_pages t ! i \<noteq> ?q" if "i < ?n" "i \<noteq> lp" for i
    using pt_inj_eq [OF inj lp that(1)] q that(2) by metis
  have off: "\<And>i. i \<noteq> lp \<Longrightarrow> pt_owned ?u ! i = pt_owned t ! i" "\<And>i. i \<noteq> lp \<Longrightarrow> pt_pages ?u ! i = pt_pages t ! i"
    and at: "\<not> pt_owned ?u ! lp" "pt_pages ?u ! lp = - 1" using lp len by simp_all
  have n: "length (pt_pages ?u) = ?n" by simp
  have mine: "pt_mine ?u = pt_mine t - {?q}"
  proof -
    have "pt_mine ?u = picked ?n (\<lambda>i. pt_owned t ! i \<and> i \<noteq> lp) ((!) (pt_pages t))"
      using picked_update [OF lp, of "\<lambda>i. pt_owned ?u ! i" "\<lambda>i. pt_owned t ! i" "(!) (pt_pages ?u)" "(!) (pt_pages t)"]
        off at unfolding pt_mine_picked [of ?u] n by simp
    also have "\<dots> = pt_mine t - {?q}" using other by (auto simp: picked_def pt_mine_def)
    finally show ?thesis .
  qed
  have bor: "pt_borrowed ?u = pt_borrowed t - {?q}"
  proof -
    have "pt_borrowed ?u = picked ?n (\<lambda>i. (\<not> pt_owned t ! i \<and> 0 \<le> pt_pages t ! i) \<and> i \<noteq> lp) ((!) (pt_pages t))"
      using picked_update [OF lp, of "\<lambda>i. \<not> pt_owned ?u ! i \<and> 0 \<le> pt_pages ?u ! i"
        "\<lambda>i. \<not> pt_owned t ! i \<and> 0 \<le> pt_pages t ! i" "(!) (pt_pages ?u)" "(!) (pt_pages t)"]
        off at unfolding pt_borrowed_picked [of ?u] n by simp
    also have "\<dots> = pt_borrowed t - {?q}" using other by (auto simp: picked_def pt_borrowed_def)
    finally show ?thesis .
  qed
  have sh': "pt_shape ?u"
  proof -
    have "i = j" if "i < ?n" "j < ?n" "pt_pages ?u ! i = pt_pages ?u ! j" "0 \<le> pt_pages ?u ! i" for i j
      using that pt_inj_eq [OF inj, of i j] at off by (cases "i = lp"; cases "j = lp") auto
    then have "pt_inj ?u" unfolding pt_inj_def n by blast
    moreover have "0 \<le> pt_pages ?u ! i" if "i < ?n" "pt_owned ?u ! i" for i
      using that sh at off by (cases "i = lp") (auto simp: pt_shape_def)
    ultimately show ?thesis using sh unfolding pt_shape_def by simp
  qed
  obtain p where p: "pt_alloc t = Some p" "pinv p" "powned p = base \<union> set rel \<union> pt_mine t"
      "(base \<union> set rel) \<inter> pt_mine t = {}" "pt_borrowed t \<subseteq> base \<union> set rel"
    using ok by (auto simp: pt_ok_def)
  have cl: "pt_cleared {lp} t ?u" using lp by (simp add: pt_cleared_def)
  have "pt_pending pinv powned base (?u, rel')"
  proof (cases "pt_owned t ! lp")
    case True
    then have qm: "?q \<in> pt_mine t" using lp by (auto simp: pt_mine_def)
    have "set rel' = insert ?q (set rel)" using eq(2) True by simp
    moreover have "?q \<notin> base" using qm p(4) by blast
    moreover have "powned p = base \<union> set rel' \<union> pt_mine ?u" "(base \<union> set rel') \<inter> pt_mine ?u = {}"
      unfolding mine \<open>set rel' = insert ?q (set rel)\<close> using p(3,4) qm by blast+
    moreover have "pt_borrowed ?u \<subseteq> base \<union> set rel'" "set rel' \<inter> base = {}" "set rel' \<inter> pt_borrowed ?u = {}"
      unfolding bor \<open>set rel' = insert ?q (set rel)\<close> using p(5) rb \<open>?q \<notin> base\<close> by blast+
    moreover have "pt_alloc ?u = Some p" using p(1) by simp
    ultimately show ?thesis using p(2) sh' unfolding pt_pending_def pt_ok_def fst_conv snd_conv by blast
  next
    case False
    then have "?q \<in> pt_borrowed t" using lp q by (auto simp: pt_borrowed_def)
    then have "?q \<notin> pt_mine t" using p(4,5) by blast
    then have "pt_mine ?u = pt_mine t" unfolding mine by simp
    then have own: "powned p = base \<union> set rel \<union> pt_mine ?u" "(base \<union> set rel) \<inter> pt_mine ?u = {}"
      using p(3,4) by simp_all
    have sub: "pt_borrowed ?u \<subseteq> pt_borrowed t" unfolding bor by blast
    have al: "pt_alloc ?u = Some p" and r: "rel' = rel" using p(1) eq(2) False by simp_all
    have "pt_borrowed ?u \<subseteq> base \<union> set rel" using sub p(5) by (rule subset_trans)
    then have "pt_ok pinv powned (base \<union> set rel) ?u"
      unfolding pt_ok_def using sh' al p(2) own by blast
    moreover have "set rel \<inter> pt_borrowed ?u = {}" using sub rb(2) by blast
    ultimately show ?thesis using rb(1) unfolding pt_pending_def r by simp
  qed
  then show ?thesis using cl eq(1) by simp
qed

lemma pt_clear_many:
  assumes "pt_pending pinv powned base (t, rel)" and "\<forall>lp \<in> set lps. lp < length (pt_pages t)"
    and "foldl pt_clear (t, rel) lps = (t', rel')"
  shows "pt_pending pinv powned base (t', rel') \<and> pt_cleared (set lps) t t'"
  using assms
proof (induction lps arbitrary: t rel)
  case (Cons lp lps)
  obtain t1 rel1 where c: "pt_clear (t, rel) lp = (t1, rel1)" by fastforce
  have lp: "lp < length (pt_pages t)" using Cons.prems(2) by simp
  note S = pt_clear_one [OF Cons.prems(1) lp c]
  then have len: "length (pt_pages t1) = length (pt_pages t)" by (simp add: pt_cleared_def)
  have "pt_pending pinv powned base (t', rel') \<and> pt_cleared (set lps) t1 t'"
    by (rule Cons.IH) (use S len Cons.prems(2,3) c in auto)
  then show ?case using S by (auto simp: pt_cleared_def)
qed (simp add: pt_cleared_def)

text \<open>Dropping the logical tail: what it owned becomes pending.\<close>

lemma pt_drop_tail:
  assumes ok: "pt_ok pinv powned base t" and n: "n \<le> length (pt_pages t)"
    and rel: "set rel = {pt_pages t ! i | i. n \<le> i \<and> i < length (pt_pages t) \<and> pt_owned t ! i}"
  shows "pt_pending pinv powned base
    (t\<lparr>pt_pages := take n (pt_pages t), pt_owned := take n (pt_owned t), pt_synced := k\<rparr>, rel)"
proof -
  let ?u = "t\<lparr>pt_pages := take n (pt_pages t), pt_owned := take n (pt_owned t), pt_synced := k\<rparr>"
  have sh: "pt_shape t" and inj: "pt_inj t" using ok by (simp_all add: pt_ok_def pt_shape_def)
  obtain p where p: "pt_alloc t = Some p" "pinv p" "powned p = base \<union> pt_mine t"
      "base \<inter> pt_mine t = {}" "pt_borrowed t \<subseteq> base"
    using ok by (auto simp: pt_ok_def)
  have pos: "0 \<le> pt_pages t ! i" if "i < length (pt_pages t)" "pt_owned t ! i" for i
    using sh that by (simp add: pt_shape_def)
  have mine_u: "pt_mine ?u = {pt_pages t ! i | i. i < n \<and> pt_owned t ! i}"
    and bor_u: "pt_borrowed ?u = {pt_pages t ! i | i. i < n \<and> \<not> pt_owned t ! i \<and> 0 \<le> pt_pages t ! i}"
  proof -
    have len: "length (pt_pages ?u) = n" using n by simp
    show "pt_mine ?u = {pt_pages t ! i | i. i < n \<and> pt_owned t ! i}"
      unfolding pt_mine_picked picked_def [of n, symmetric] len by (simp cong: picked_cong)
    show "pt_borrowed ?u = {pt_pages t ! i | i. i < n \<and> \<not> pt_owned t ! i \<and> 0 \<le> pt_pages t ! i}"
      unfolding pt_borrowed_picked picked_def [of n, symmetric] len by (simp cong: picked_cong)
  qed
  have split: "pt_mine t = pt_mine ?u \<union> set rel"
    unfolding mine_u rel unfolding pt_mine_def using n by (auto, metis not_le)
  have disj: "set rel \<inter> pt_mine ?u = {}"
  proof -
    have "pt_pages t ! i \<noteq> pt_pages t ! j"
      if "n \<le> i" "i < length (pt_pages t)" "pt_owned t ! i" "j < n" for i j
      using pt_inj_eq [OF inj that(2), of j] pos [OF that(2,3)] that n by auto
    then show ?thesis unfolding mine_u rel by blast
  qed
  have bsub: "pt_borrowed ?u \<subseteq> pt_borrowed t" unfolding bor_u unfolding pt_borrowed_def using n by fastforce
  have shu: "pt_shape ?u" using sh n by (auto simp: pt_shape_def pt_inj_def)
  have own: "powned p = base \<union> set rel \<union> pt_mine ?u" "(base \<union> set rel) \<inter> pt_mine ?u = {}"
    using p(3,4) split disj by blast+
  have "pt_borrowed ?u \<subseteq> base \<union> set rel" using bsub p(5) by blast
  then have "pt_ok pinv powned (base \<union> set rel) ?u"
    unfolding pt_ok_def using shu p(1,2) own by auto
  moreover have "set rel \<inter> base = {}" using p(4) split by blast
  moreover have "set rel \<inter> pt_borrowed ?u = {}" using bsub p(4,5) split by blast
  ultimately show ?thesis unfolding pt_pending_def fst_conv snd_conv by blast
qed

lemma pt_tail_released:
  assumes "pt_shape t"
  shows "set (map ((!) (pt_pages t)) (filter (pt_is_owned t) [n..<length (pt_pages t)])) =
    {pt_pages t ! i | i. n \<le> i \<and> i < length (pt_pages t) \<and> pt_owned t ! i}"
  using pt_is_owned_shape [OF assms] by auto

text \<open>The synced prefix does not matter for the accounting.\<close>

lemma pt_pending_synced:
  "pt_pending pinv powned base (t\<lparr>pt_synced := k\<rparr>, rel) = pt_pending pinv powned base (t, rel)"
  by (simp add: pt_pending_def)

context exact_page_allocator begin

lemma pt_give_back_ok:
  assumes "pt_pending inv owned base (t, rel)"
  shows "pt_ok inv owned base (pt_give_back release t rel)"
    and "\<exists>a. pt_give_back release t rel = t\<lparr>pt_alloc := a\<rparr>"
proof -
  have ok: "pt_ok inv owned (base \<union> set rel) t" and d: "set rel \<inter> base = {}" "set rel \<inter> pt_borrowed t = {}"
    using assms by (simp_all add: pt_pending_def)
  obtain p where p: "pt_alloc t = Some p" "inv p" "owned p = base \<union> set rel \<union> pt_mine t"
      "(base \<union> set rel) \<inter> pt_mine t = {}" "pt_borrowed t \<subseteq> base \<union> set rel"
    using ok by (auto simp: pt_ok_def)
  show "pt_ok inv owned base (pt_give_back release t rel)"
  proof (cases "rel = []")
    case True
    then show ?thesis using ok p(1) by (simp add: pt_give_back_def)
  next
    case False
    have g: "pt_give_back release t rel = t\<lparr>pt_alloc := Some (release p rel)\<rparr>"
      using p(1) False by (simp add: pt_give_back_def)
    have "owned (release p rel) = base \<union> pt_mine t"
      using release_exact [OF p(2), of rel] p(3,4) d(1) by blast
    moreover have "pt_borrowed t \<subseteq> base" using p(5) d(2) by blast
    ultimately show ?thesis using ok p(4) release_inv [OF p(2)] unfolding g pt_ok_def by auto
  qed
  show "\<exists>a. pt_give_back release t rel = t\<lparr>pt_alloc := a\<rparr>"
    using p(1) by (cases "rel = []") (auto simp: pt_give_back_def intro: exI [of _ "Some p"])
qed

lemma pt_truncate_ok:
  assumes "pt_ok inv owned base t" and "pt_truncate release n t = (t', r)"
  shows "pt_ok inv owned base t'"
proof (cases "pt_bounded t \<and> n < pt_max t \<or> length (pt_pages t) \<le> n")
  case True
  then show ?thesis using assms by (auto simp: pt_truncate_def split: if_splits)
next
  case False
  have sh: "pt_shape t" using assms(1) by (simp add: pt_ok_def)
  have n: "n \<le> length (pt_pages t)" using False by simp
  note P = pt_drop_tail [OF assms(1) n pt_tail_released [OF sh], of "min (pt_synced t) n"]
  show ?thesis using assms(2) False pt_give_back_ok(1) [OF P] by (auto simp: pt_truncate_def)
qed

lemma pt_reset_ok:
  assumes ok: "pt_ok inv owned base t"
  shows "pt_ok inv owned base (pt_reset release t)" and "pt_mine (pt_reset release t) = {}"
    and "pt_mirror t \<Longrightarrow> pt_mirror (pt_reset release t)"
proof -
  let ?rel = "map ((!) (pt_pages t)) (filter (pt_is_owned t) [0..<length (pt_pages t)])"
  have sh: "pt_shape t" using ok by (simp add: pt_ok_def)
  define u where "u = t\<lparr>pt_pages := take 0 (pt_pages t), pt_owned := take 0 (pt_owned t), pt_synced := 0\<rparr>"
  have u: "pt_ok inv owned base (pt_give_back release u ?rel)"
    unfolding u_def by (rule pt_give_back_ok(1) [OF pt_drop_tail [OF ok _ pt_tail_released [OF sh]]]) simp
  obtain p where p: "pt_alloc t = Some p" using ok by (auto simp: pt_ok_def)
  let ?a = "pt_alloc (pt_give_back release t ?rel)"
  have g: "pt_give_back release t ?rel = t\<lparr>pt_alloc := ?a\<rparr>" "pt_give_back release u ?rel = u\<lparr>pt_alloc := ?a\<rparr>"
    using p by (auto simp: pt_give_back_def u_def)
  have R: "pt_reset release t = (if pt_bounded t
      then t\<lparr>pt_alloc := ?a, pt_pages := replicate (pt_max t) (- 1), pt_owned := replicate (pt_max t) False, pt_synced := 0\<rparr>
      else t\<lparr>pt_alloc := ?a, pt_pages := [], pt_owned := [], pt_synced := 0\<rparr>)"
    unfolding pt_reset_def Let_def by (subst g(1), subst g(1)) simp
  show "pt_mine (pt_reset release t) = {}" unfolding R by (simp add: pt_mine_def)
  have "pt_shape (pt_reset release t)" "pt_borrowed (pt_reset release t) = {}" "pt_alloc (pt_reset release t) = ?a"
    unfolding R by (auto simp: pt_shape_def pt_inj_def pt_borrowed_def)
  moreover have "pt_alloc (pt_give_back release u ?rel) = ?a" "pt_mine (pt_give_back release u ?rel) = {}"
    by (subst g(2), simp add: u_def pt_mine_def)+
  ultimately show "pt_ok inv owned base (pt_reset release t)"
    using u \<open>pt_mine (pt_reset release t) = {}\<close> by (auto simp: pt_ok_def)
  show "pt_mirror t \<Longrightarrow> pt_mirror (pt_reset release t)"
    unfolding R by (auto simp: pt_mirror_def split: option.splits)
qed

text \<open>Detached pages move from the table to its surroundings; nothing is released.\<close>

lemma pt_detach_ok:
  assumes ok: "pt_ok inv owned base t" and de: "pt_detach n t = (t', ps)"
  shows "pt_ok inv owned (base \<union> {pt_pages t ! i | i. n \<le> i \<and> i < length (pt_pages t) \<and> pt_owned t ! i}) t'"
    and "pt_pages t = pt_pages t' @ ps" and "pt_alloc t' = pt_alloc t"
    and "pt_mirror t \<Longrightarrow> pt_mirror t'"
proof -
  have sh: "pt_shape t" using ok by (simp add: pt_ok_def)
  show "pt_ok inv owned (base \<union> {pt_pages t ! i | i. n \<le> i \<and> i < length (pt_pages t) \<and> pt_owned t ! i}) t'"
  proof (cases "length (pt_pages t) \<le> n")
    case True
    then have "{pt_pages t ! i | i. n \<le> i \<and> i < length (pt_pages t) \<and> pt_owned t ! i} = {}" by auto
    then show ?thesis using ok de True by (simp only: Un_empty_right) (simp add: pt_detach_def)
  next
    case False
    have n: "n \<le> length (pt_pages t)" using False by simp
    from pt_drop_tail [OF ok n pt_tail_released [OF sh], of "min (pt_synced t) n"]
    show ?thesis using de False pt_tail_released [OF sh, of n] by (auto simp: pt_pending_def pt_detach_def)
  qed
  show "pt_pages t = pt_pages t' @ ps" and "pt_alloc t' = pt_alloc t"
    using de by (auto simp: pt_detach_def split: if_splits)
  show "pt_mirror t \<Longrightarrow> pt_mirror t'"
    using de by (auto simp: pt_detach_def pt_mirror_def min_def split: if_splits option.splits)
qed

end

end
