(* ===== verification/Page_Table_Runs.thy ===== *)
theory Page_Table_Runs
  imports Page_Table_Safety
begin

text \<open>
  Releases of logical ranges, adoption of shared prefix pages, and arbitrary runs of the page table;
  the properties of the page table over a request's quota of the serving arena.
\<close>

lemma pt_clear_ranges_ok:
  assumes "pt_pending pinv powned base (t, rel)" and "fst up \<le> length (pt_pages t)" and "snd up \<le> length (pt_pages t)"
    and "pt_clear_ranges rs (t, rel) up = ((t', rel'), b, e)"
  shows "pt_pending pinv powned base (t', rel') \<and> b \<le> fst up \<and> snd up \<le> e \<and> e \<le> length (pt_pages t) \<and>
    (\<exists>S. pt_cleared S t t' \<and> (\<forall>i \<in> S. b \<le> i \<and> i < e) \<and>
      (\<forall>(a, n) \<in> set rs. \<forall>lp. a \<le> lp \<and> lp < u32 (a + n) \<and> lp < length (pt_pages t) \<and> n \<noteq> 0 \<longrightarrow> lp \<in> S))"
  using assms
proof (induction rs arbitrary: t rel up)
  case Nil
  have "pt_cleared {} t t" by (simp add: pt_cleared_def)
  then show ?case using Nil by auto
next
  case (Cons ab rs)
  obtain a n where ab: "ab = (a, n)" by (cases ab)
  show ?case
  proof (cases "n = 0 \<or> length (pt_pages t) \<le> a")
    case True
    then have "pt_clear_ranges rs (t, rel) up = ((t', rel'), b, e)" using Cons.prems(4) ab by auto
    from Cons.IH [OF Cons.prems(1-3) this] show ?thesis using True ab by fastforce
  next
    case False
    let ?stop = "min (length (pt_pages t)) (u32 (a + n))"
    obtain t1 rel1 where f: "foldl pt_clear (t, rel) [a..<?stop] = (t1, rel1)" by fastforce
    have "\<forall>lp \<in> set [a..<?stop]. lp < length (pt_pages t)" by auto
    note M = pt_clear_many [OF Cons.prems(1) this f]
    have len: "length (pt_pages t1) = length (pt_pages t)" using M by (simp add: pt_cleared_def)
    have c1: "pt_clear_ranges rs (t1, rel1) (min (fst up) a, max (snd up) ?stop) = ((t', rel'), b, e)"
      using Cons.prems(4) False f ab by (auto simp: Let_def)
    have c2: "fst (min (fst up) a, max (snd up) ?stop) \<le> length (pt_pages t1)"
      and c3: "snd (min (fst up) a, max (snd up) ?stop) \<le> length (pt_pages t1)"
      using Cons.prems(2,3) len by auto
    note IH = Cons.IH [OF conjunct1 [OF M] c2 c3 c1, unfolded len fst_conv snd_conv]
    then
    obtain S where S: "pt_pending pinv powned base (t', rel')" "b \<le> min (fst up) a" "max (snd up) ?stop \<le> e"
      "e \<le> length (pt_pages t)" "pt_cleared S t1 t'" "\<forall>i \<in> S. b \<le> i \<and> i < e"
      "\<forall>(a, n) \<in> set rs. \<forall>lp. a \<le> lp \<and> lp < u32 (a + n) \<and> lp < length (pt_pages t) \<and> n \<noteq> 0 \<longrightarrow> lp \<in> S"
      by blast
    let ?S = "S \<union> set [a..<?stop]"
    have "pt_cleared ?S t t'"
      using M S(5) len unfolding pt_cleared_def by (auto simp del: set_upt)
    moreover have "\<forall>i \<in> ?S. b \<le> i \<and> i < e" using S(2,3,6) by auto
    moreover have cov: "\<forall>(a, n) \<in> set (ab # rs). \<forall>lp. a \<le> lp \<and> lp < u32 (a + n) \<and> lp < length (pt_pages t) \<and> n \<noteq> 0 \<longrightarrow> lp \<in> ?S"
      using S(7) ab by auto
    moreover have "b \<le> fst up" "snd up \<le> e" using S(2,3) by auto
    ultimately show ?thesis using S(1,4) by blast
  qed
qed

lemma pt_cleared_mirror:
  assumes m: "pt_mirror t" and c: "pt_cleared S t u" and lm: "length (pt_pages t) \<le> pt_max t"
    and S: "\<forall>i \<in> S. a \<le> i \<and> i < e"
  shows "pt_device t \<noteq> None \<Longrightarrow> pt_mirror (u\<lparr>pt_alloc := x, pt_device := Some (pt_copied (u\<lparr>pt_alloc := x\<rparr>) a (e - a))\<rparr>)"
    and "pt_device t = None \<Longrightarrow> pt_mirror (u\<lparr>pt_alloc := x\<rparr>)"
    and "S = {} \<Longrightarrow> pt_mirror (u\<lparr>pt_alloc := x\<rparr>)"
proof -
  let ?u = "u\<lparr>pt_alloc := x\<rparr>"
  have f: "pt_device ?u = pt_device t" "pt_max ?u = pt_max t" "pt_synced ?u = pt_synced t"
    "length (pt_pages ?u) = length (pt_pages t)"
    and un: "\<And>i. i < length (pt_pages t) \<Longrightarrow> i \<notin> S \<Longrightarrow> pt_pages ?u ! i = pt_pages t ! i"
    using c by (auto simp: pt_cleared_def)
  have sl: "pt_synced t \<le> length (pt_pages t)" using m by (simp add: pt_mirror_def)
  have "pt_mirror (?u\<lparr>pt_device := Some (pt_copied ?u a (e - a)), pt_synced := pt_synced ?u\<rparr>)"
  proof (rule pt_publish_gen [OF m f(1,2)])
    fix i assume i: "i < pt_synced ?u"
    show "a \<le> i \<and> i < e \<or> i < pt_synced t \<and> pt_pages ?u ! i = pt_pages t ! i"
      using S un [of i] i f(3) sl by (cases "i \<in> S") auto
  qed (use f lm sl in simp_all)
  then show "pt_mirror (u\<lparr>pt_alloc := x, pt_device := Some (pt_copied (u\<lparr>pt_alloc := x\<rparr>) a (e - a))\<rparr>)" by simp
  show "pt_device t = None \<Longrightarrow> pt_mirror (u\<lparr>pt_alloc := x\<rparr>)" using m f sl by (simp add: pt_mirror_def)
  show "S = {} \<Longrightarrow> pt_mirror (u\<lparr>pt_alloc := x\<rparr>)"
    using m f sl un by (auto simp: pt_mirror_def split: option.splits)
qed

context exact_page_allocator begin

lemma pt_release_ranges_ok:
  assumes ok: "pt_ok inv owned base t" and re: "pt_release_ranges release cp rs t = (t', r)"
  shows "pt_ok inv owned base t'"
    and "length (pt_pages t') = length (pt_pages t)"
    and "r = Inr () \<Longrightarrow> pt_mirror t \<Longrightarrow> pt_mirror t'"
    and "\<forall>(a, n) \<in> set rs. \<forall>lp. a \<le> lp \<and> lp < u32 (a + n) \<and> n \<noteq> 0 \<longrightarrow> \<not> pt_resident t' lp"
    and "\<forall>i < length (pt_pages t). pt_pages t' ! i = pt_pages t ! i \<or> pt_pages t' ! i < 0"
proof -
  have "pt_ok inv owned base t' \<and> length (pt_pages t') = length (pt_pages t) \<and>
    (r = Inr () \<longrightarrow> pt_mirror t \<longrightarrow> pt_mirror t') \<and>
    (\<forall>(a, n) \<in> set rs. \<forall>lp. a \<le> lp \<and> lp < u32 (a + n) \<and> n \<noteq> 0 \<longrightarrow> \<not> pt_resident t' lp) \<and>
    (\<forall>i < length (pt_pages t). pt_pages t' ! i = pt_pages t ! i \<or> pt_pages t' ! i < 0)"
  proof (cases "rs = [] \<or> pt_pages t = []")
    case True
    then show ?thesis using ok re by (auto simp: pt_release_ranges_def pt_resident_def)
  next
    case False
    obtain u rel b e where c: "pt_clear_ranges rs (t, []) (length (pt_pages t), 0) = ((u, rel), b, e)"
      by (metis prod.collapse)
    have pe: "pt_pending inv owned base (t, [])" using ok by (simp add: pt_pending_def)
    from pt_clear_ranges_ok [OF pe _ _ c] obtain S where
      S: "pt_pending inv owned base (u, rel)" "pt_cleared S t u" "\<forall>i \<in> S. b \<le> i \<and> i < e"
      "\<forall>(a, n) \<in> set rs. \<forall>lp. a \<le> lp \<and> lp < u32 (a + n) \<and> lp < length (pt_pages t) \<and> n \<noteq> 0 \<longrightarrow> lp \<in> S"
      by auto
    obtain x where g: "pt_give_back release u rel = u\<lparr>pt_alloc := x\<rparr>" and oku: "pt_ok inv owned base (u\<lparr>pt_alloc := x\<rparr>)"
      using pt_give_back_ok [OF S(1)] by metis
    let ?u = "u\<lparr>pt_alloc := x\<rparr>"
    have pages: "length (pt_pages u) = length (pt_pages t)" "pt_device u = pt_device t"
      and neg: "\<And>i. i < length (pt_pages t) \<Longrightarrow> i \<in> S \<Longrightarrow> pt_pages u ! i < 0"
      and un: "\<And>i. i < length (pt_pages t) \<Longrightarrow> i \<notin> S \<Longrightarrow> pt_pages u ! i = pt_pages t ! i"
      using S(2) by (auto simp: pt_cleared_def)
    have lm: "length (pt_pages t) \<le> pt_max t" using ok by (simp add: pt_ok_def pt_shape_def)
    have body: "(t', r) = (if pt_device ?u = None \<or> e \<le> b then (?u, Inr ()) else pt_upload cp ?u b (e - b))"
      using re False c by (auto simp: pt_release_ranges_def Let_def g split: if_splits)
    have t': "\<exists>d. t' = ?u \<or> t' = ?u\<lparr>pt_device := d\<rparr>"
      using body pt_upload_ok(1) [of cp ?u b "e - b" t' r] by (auto split: if_splits)
    then have B: "pt_ok inv owned base t'" "pt_pages t' = pt_pages u" using oku by auto
    have "pt_mirror t'" if r: "r = Inr ()" and m: "pt_mirror t"
    proof (cases "pt_device ?u = None \<or> e \<le> b")
      case True
      then have t'u: "t' = ?u" using body by simp
      show ?thesis
      proof (cases "pt_device t = None")
        case True
        then show ?thesis using pt_cleared_mirror(2) [OF m S(2) lm S(3)] t'u by simp
      next
        case f: False
        then have "e \<le> b" using True pages(2) by auto
        then have "S = {}" using S(3) by fastforce
        then show ?thesis using pt_cleared_mirror(3) [OF m S(2) lm S(3)] t'u by simp
      qed
    next
      case f: False
      then have up: "pt_upload cp ?u b (e - b) = (t', Inr ())" using body r by auto
      then have "t' = ?u\<lparr>pt_device := Some (pt_copied ?u b (e - b))\<rparr>" by (rule pt_upload_ok(2)) simp
      then show ?thesis using pt_cleared_mirror(1) [OF m S(2) lm S(3)] f pages(2) by simp
    qed
    moreover have "\<not> pt_resident t' lp" if "(a, n) \<in> set rs" "a \<le> lp \<and> lp < u32 (a + n) \<and> n \<noteq> 0" for a n lp
    proof (cases "lp < length (pt_pages t)")
      case True
      then have "lp \<in> S" using S(4) that by fastforce
      then show ?thesis using neg [OF True] B(2) by (simp add: pt_resident_def)
    qed (simp add: pt_resident_def B(2) pages)
    moreover have "pt_pages t' ! i = pt_pages t ! i \<or> pt_pages t' ! i < 0" if "i < length (pt_pages t)" for i
      using neg [OF that] un [OF that] B(2) by auto
    ultimately show ?thesis using B pages by auto
  qed
  then show "pt_ok inv owned base t'"
    and "length (pt_pages t') = length (pt_pages t)"
    and "r = Inr () \<Longrightarrow> pt_mirror t \<Longrightarrow> pt_mirror t'"
    and "\<forall>(a, n) \<in> set rs. \<forall>lp. a \<le> lp \<and> lp < u32 (a + n) \<and> n \<noteq> 0 \<longrightarrow> \<not> pt_resident t' lp"
    and "\<forall>i < length (pt_pages t). pt_pages t' ! i = pt_pages t ! i \<or> pt_pages t' ! i < 0" by blast+
qed

lemma pt_release_pages_ok:
  assumes ok: "pt_ok inv owned base t" and re: "pt_release_pages release cp start n t = (t', r)"
  shows "pt_ok inv owned base t'"
proof (cases "n = 0 \<or> length (pt_pages t) \<le> start")
  case True
  then show ?thesis using ok re by (auto simp: pt_release_pages_def)
next
  case False
  let ?stop = "min (length (pt_pages t)) (u32 (start + n))"
  obtain u rel where f: "foldl pt_clear (t, []) [start..<?stop] = (u, rel)" by fastforce
  have pe: "pt_pending inv owned base (t, [])" using ok by (simp add: pt_pending_def)
  have "\<forall>lp \<in> set [start..<?stop]. lp < length (pt_pages t)" by auto
  note M = pt_clear_many [OF pe this f]
  have "pt_ok inv owned base (pt_give_back release u rel)"
    using pt_give_back_ok(1) M by blast
  moreover have "\<exists>d. t' = pt_give_back release u rel \<or> t' = (pt_give_back release u rel)\<lparr>pt_device := d\<rparr>"
    using re False f pt_upload_ok(1) [of cp "pt_give_back release u rel" start "sub32 ?stop start" t' r]
    by (auto simp: pt_release_pages_def Let_def split: if_splits)
  ultimately show ?thesis by auto
qed

lemma pt_adopt_ok:
  assumes ok: "pt_ok inv owned base t" and sh: "distinct shared" "set shared \<subseteq> base"
    and m: "pt_mirror t" and ad: "pt_adopt cp shared t = (t', r)"
  shows "pt_ok inv owned base t'"
    and "r = Inr () \<Longrightarrow> pt_mirror t' \<and> pt_pages t' = shared \<and> pt_synced t' = length shared"
    and "r = Inr () \<Longrightarrow> pt_mine t' = {} \<and> pt_alloc t' = pt_alloc t"
proof -
  have "pt_ok inv owned base t' \<and> (r = Inr () \<longrightarrow> pt_mirror t' \<and> pt_pages t' = shared \<and>
      pt_synced t' = length shared \<and> pt_mine t' = {} \<and> pt_alloc t' = pt_alloc t)"
  proof (cases "pt_pages t \<noteq> [] \<or> shared = [] \<or> pt_max t < length shared")
    case True
    then show ?thesis using ok ad m by (auto simp: pt_adopt_def pt_mine_def pt_mirror_def split: if_splits)
  next
    case False
    let ?u = "t\<lparr>pt_pages := shared, pt_owned := replicate (length shared) False\<rparr>"
    obtain p where p: "pt_alloc t = Some p" "inv p" "owned p = base \<union> pt_mine t" using ok by (auto simp: pt_ok_def)
    have m0: "pt_mine t = {}" using False by (simp add: pt_mine_def)
    have mu: "pt_mine ?u = {}" and bu: "pt_borrowed ?u \<subseteq> base"
      using sh(2) by (auto simp: pt_mine_def pt_borrowed_def)
    have "pt_inj ?u" using sh(1) by (auto simp: pt_inj_def nth_eq_iff_index_eq)
    then have "pt_shape ?u" using False by (simp add: pt_shape_def)
    then have oku: "pt_ok inv owned base ?u" unfolding pt_ok_def using p m0 mu bu by auto
    obtain v q where up: "pt_upload cp ?u 0 (length shared) = (v, q)" by fastforce
    obtain d where v: "v = ?u\<lparr>pt_device := Some d\<rparr>" using pt_upload_ok(1) [OF up] by blast
    have t': "t' = (case q of Inl x \<Rightarrow> v | Inr x \<Rightarrow> v\<lparr>pt_synced := length shared\<rparr>)" "(r = Inr ()) = (q = Inr ())"
      using ad False up by (cases q; auto simp: pt_adopt_def)+
    have a: "pt_ok inv owned base t'" "pt_pages t' = shared" "pt_alloc t' = pt_alloc t" "pt_mine t' = {}"
      using t'(1) v oku mu by (auto split: sum.splits)
    have "pt_mirror t' \<and> pt_synced t' = length shared" if "r = Inr ()"
    proof -
      have e: "t' = ?u\<lparr>pt_device := Some (pt_copied ?u 0 (length shared - 0)), pt_synced := length shared\<rparr>"
        using t' that pt_upload_ok(2) [OF up] by simp
      have "pt_mirror t'" unfolding e
        by (rule pt_publish_gen [OF m]) (use False in auto)
      then show ?thesis using e by simp
    qed
    then show ?thesis using a by simp
  qed
  then show "pt_ok inv owned base t'"
    and "r = Inr () \<Longrightarrow> pt_mirror t' \<and> pt_pages t' = shared \<and> pt_synced t' = length shared"
    and "r = Inr () \<Longrightarrow> pt_mine t' = {} \<and> pt_alloc t' = pt_alloc t" by blast+
qed

lemma pt_ensure_page_ok:
  assumes ok: "pt_ok inv owned base t" and en: "pt_ensure_page alloc cp lp t = (t', r)"
  shows "pt_ok inv owned base t'"
proof (cases "pt_max t \<le> lp")
  case True
  then show ?thesis using ok en by (simp add: pt_ensure_page_def)
next
  case False
  obtain u q where g: "pt_grow alloc (Suc lp - length (pt_pages t)) t = (u, q)" by fastforce
  have "length (pt_pages t) \<le> pt_max t" using ok by (simp add: pt_ok_def pt_shape_def)
  then have "length (pt_pages t) + (Suc lp - length (pt_pages t)) \<le> pt_max t" using False by simp
  note G = pt_grow_ok [OF ok this g]
  show ?thesis
  proof (cases q)
    case (Inl e)
    then show ?thesis using en False g G by (simp add: pt_ensure_page_def del: pt_fill.simps)
  next
    case (Inr x)
    obtain v q2 where f: "pt_fill alloc [lp] u = (v, q2)" by fastforce
    have oku: "pt_ok inv owned base u" using G by simp
    have "\<forall>k \<in> set [lp]. k < length (pt_pages u)" using G Inr by auto
    from pt_fill_ok [OF oku this f] have okv: "pt_ok inv owned base v" by simp
    show ?thesis
    proof (cases q2)
      case (Inl e)
      then show ?thesis using en False g f \<open>q = Inr x\<close> okv by (simp add: pt_ensure_page_def del: pt_fill.simps)
    next
      case i2: (Inr y)
      obtain w q3 where up: "pt_upload cp v lp 1 = (w, q3)" by fastforce
      have "pt_ok inv owned base w" using pt_upload_ok(1) [OF up] okv by auto
      moreover have "then_do (w, q3) (\<lambda>t3 _. (t3\<lparr>pt_synced := max (pt_synced t3) (lp + 1)\<rparr>, Inr (pt_pages t3 ! lp))) = (t', r)"
        using en False g f Inr i2 up by (simp add: pt_ensure_page_def del: pt_fill.simps)
      ultimately show ?thesis by (cases q3) auto
    qed
  qed
qed

lemma pt_ensure_pages_acct:
  assumes ok: "pt_ok inv owned base t"
    and en: "pt_ensure_pages alloc release capacity cp ctx_size pos n t = (t', r)"
  shows "pt_ok inv owned base t'"
proof -
  let ?need = "u32 ((pos + n + pt_page_size t - 1) div pt_page_size t)"
  let ?k = "?need - length (pt_pages t)"
  consider "n = 0 \<or> ctx_size < pos + n \<or> pt_max t < ?need"
    | "n \<noteq> 0" "\<not> ctx_size < pos + n" "\<not> pt_max t < ?need" "pt_bounded t"
    | "n \<noteq> 0" "\<not> ctx_size < pos + n" "\<not> pt_max t < ?need" "\<not> pt_bounded t" by blast
  then show ?thesis
  proof cases
    case 1
    then show ?thesis using en ok by (auto simp: pt_ensure_pages_def Let_def split: if_splits)
  next
    case 2
    then show ?thesis using en pt_ensure_ranges_ok(1) [OF ok]
      by (simp add: pt_ensure_pages_def Let_def)
  next
    case 3
    have "length (pt_pages t) \<le> pt_max t" using ok by (simp add: pt_ok_def pt_shape_def)
    then have km: "length (pt_pages t) + ?k \<le> pt_max t" using 3 by linarith
    obtain u q where g: "pt_grow alloc ?k t = (u, q)" by fastforce
    have gc: "pt_grow_checked alloc release capacity ?k t = (u, q)"
      using pt_grow_checked_eq [OF ok km] g by simp
    have oku: "pt_ok inv owned base u" using pt_grow_ok [OF ok km g] by simp
    define w where w_def: "w = (if pt_device u = None
        then u\<lparr>pt_device := Some (pt_device_cells u), pt_synced := 0\<rparr> else u)"
    have okw: "pt_ok inv owned base w" using oku by (simp add: w_def)
    show ?thesis
    proof (cases q)
      case (Inl e)
      then show ?thesis using en 3 gc oku by (simp add: pt_ensure_pages_def Let_def)
    next
      case (Inr x)
      have tail: "pt_ensure_pages alloc release capacity cp ctx_size pos n t =
          (if pt_synced w < length (pt_pages w)
           then then_do (pt_upload cp w (pt_synced w) (length (pt_pages w) - pt_synced w))
             (\<lambda>t3 _. (t3\<lparr>pt_synced := length (pt_pages w)\<rparr>, Inr ()))
           else (w, Inr ()))"
        using 3 gc Inr by (simp add: pt_ensure_pages_def Let_def w_def [symmetric])
      show ?thesis
      proof (cases "pt_synced w < length (pt_pages w)")
        case True
        obtain v q2 where up: "pt_upload cp w (pt_synced w) (length (pt_pages w) - pt_synced w) = (v, q2)"
          by fastforce
        have okv: "pt_ok inv owned base v" using pt_upload_ok(1) [OF up] okw by auto
        have "(t', r) = then_do (v, q2) (\<lambda>t3 _. (t3\<lparr>pt_synced := length (pt_pages w)\<rparr>, Inr ()))"
          using en True unfolding tail up by simp
        then show ?thesis using okv by (cases q2) auto
      next
        case f: False
        then show ?thesis using en okw unfolding tail by simp
      qed
    qed
  qed
qed

end

section \<open>Runs\<close>

text \<open>One call of the table's interface; \<open>cp\<close> says whether its device copy succeeds.\<close>

datatype ptop =
    EnsurePages nat nat nat
  | EnsurePage nat
  | EnsureRanges "(nat \<times> nat) list"
  | ReleasePages nat nat
  | ReleaseRanges "(nat \<times> nat) list"
  | Truncate nat
  | Reset

fun pt_step :: "('p \<Rightarrow> 'p \<times> int result) \<Rightarrow> ('p \<Rightarrow> int list \<Rightarrow> 'p) \<Rightarrow> ('p \<Rightarrow> nat) \<Rightarrow> 'p ptab \<Rightarrow>
    ptop \<times> copy_ok \<Rightarrow> 'p ptab" where
  "pt_step palloc prelease pcap t (EnsurePages ctx pos n, cp) = fst (pt_ensure_pages palloc prelease pcap cp ctx pos n t)"
| "pt_step palloc prelease pcap t (EnsurePage lp, cp) = fst (pt_ensure_page palloc cp lp t)"
| "pt_step palloc prelease pcap t (EnsureRanges rs, cp) = fst (pt_ensure_ranges palloc cp rs t)"
| "pt_step palloc prelease pcap t (ReleasePages a n, cp) = fst (pt_release_pages prelease cp a n t)"
| "pt_step palloc prelease pcap t (ReleaseRanges rs, cp) = fst (pt_release_ranges prelease cp rs t)"
| "pt_step palloc prelease pcap t (Truncate n, cp) = fst (pt_truncate prelease n t)"
| "pt_step palloc prelease pcap t (Reset, cp) = pt_reset prelease t"

definition pt_run :: "('p \<Rightarrow> 'p \<times> int result) \<Rightarrow> ('p \<Rightarrow> int list \<Rightarrow> 'p) \<Rightarrow> ('p \<Rightarrow> nat) \<Rightarrow> 'p ptab \<Rightarrow>
    (ptop \<times> copy_ok) list \<Rightarrow> 'p ptab" where
  "pt_run palloc prelease pcap t ops = foldl (pt_step palloc prelease pcap) t ops"

context exact_page_allocator begin

lemma pt_step_ok:
  assumes ok: "pt_ok inv owned base t"
  shows "pt_ok inv owned base (pt_step alloc release capacity t op)"
proof -
  obtain k cp where op: "op = (k, cp)" by (cases op)
  show ?thesis
  proof (cases k)
    case (EnsurePages ctx pos n)
    show ?thesis unfolding op EnsurePages by (simp add: pt_ensure_pages_acct [OF ok prod.collapse [symmetric]])
  next
    case (EnsurePage lp)
    show ?thesis unfolding op EnsurePage by (simp add: pt_ensure_page_ok [OF ok prod.collapse [symmetric]])
  next
    case (EnsureRanges rs)
    show ?thesis unfolding op EnsureRanges by (simp add: pt_ensure_ranges_ok(1) [OF ok prod.collapse [symmetric]])
  next
    case (ReleasePages a n)
    show ?thesis unfolding op ReleasePages by (simp add: pt_release_pages_ok [OF ok prod.collapse [symmetric]])
  next
    case (ReleaseRanges rs)
    show ?thesis unfolding op ReleaseRanges by (simp add: pt_release_ranges_ok(1) [OF ok prod.collapse [symmetric]])
  next
    case (Truncate n)
    show ?thesis unfolding op Truncate by (simp add: pt_truncate_ok [OF ok prod.collapse [symmetric]])
  next
    case Reset
    show ?thesis unfolding op Reset by (simp add: pt_reset_ok(1) [OF ok])
  qed
qed

lemma pt_run_ok: "pt_ok inv owned base t \<Longrightarrow> pt_ok inv owned base (pt_run alloc release capacity t ops)"
  unfolding pt_run_def by (induction ops arbitrary: t) (auto intro: pt_step_ok)

end

section \<open>Properties over a request's quota of the arena\<close>

text \<open>A freshly configured table over a pool that leases two pages of an arena of four.\<close>

definition ex_table :: "gpool spool ptab" where
  "ex_table = \<lparr>pt_page_size = 16, pt_max = 2, pt_mode = ''identity'', pt_pages = [], pt_owned = [],
     pt_device = None, pt_alloc = Some ex_shared, pt_synced = 0, pt_bounded = False\<rparr>"

lemma ex_table_configured:
  "pt_configure (sp_release gp_release) 16 [] 32 (Some ex_shared)
     \<lparr>pt_page_size = 16, pt_max = 0, pt_mode = ''identity'', pt_pages = [], pt_owned = [],
      pt_device = None, pt_alloc = None, pt_synced = 0, pt_bounded = False\<rparr> = (ex_table, Inr ())"
  by (simp add: pt_configure_def ex_table_def pt_reset_def pt_give_back_def u32_def)

lemma ex_table_ok: "pt_ok (sp_ok gp_ok gp_owned) sp_owned {} ex_table" and ex_table_mirror: "pt_mirror ex_table"
  using ex_shared_ok
  by (auto simp: pt_ok_def pt_shape_def pt_inj_def pt_mine_def pt_borrowed_def ex_table_def pt_mirror_def
      sp_owned_def ex_shared_def less_Suc_eq numeral_2_eq_2)

text \<open> Claim C19. Whatever sequence of calls a request makes on its page table - growing it, making
  ranges resident, releasing, truncating, resetting, with device copies failing or not and the quota
  running out or not - no two logical pages ever share a physical page, and the quota pool's
  account is exact: it holds the pages of others and precisely those this table owns.\<close>

theorem page_table_accounting_exact:
  assumes "pt_ok (sp_ok gp_ok gp_owned) sp_owned base t"
    and "t' = pt_run (sp_alloc gp_alloc) (sp_release gp_release) (sp_capacity gp_total) t ops"
  shows "(\<exists>s. pt_alloc t' = Some s \<and> sp_ok gp_ok gp_owned s \<and> sp_owned s = base \<union> pt_mine t' \<and>
      base \<inter> pt_mine t' = {}) \<and>
    (\<forall>i < length (pt_pages t'). \<forall>j < length (pt_pages t').
      pt_pages t' ! i = pt_pages t' ! j \<longrightarrow> 0 \<le> pt_pages t' ! i \<longrightarrow> i = j)"
  using shared_global.pt_run_ok [OF assms(1), of ops] unfolding assms(2)
  by (auto simp: pt_ok_def pt_shape_def pt_inj_def)

theorem page_table_accounting_exact_witness:
  "\<exists>s. pt_alloc (pt_run (sp_alloc gp_alloc) (sp_release gp_release) (sp_capacity gp_total) ex_table
        [(EnsurePages 32 0 20, \<lambda>_ _. True), (Truncate 1, \<lambda>_ _. True)]) = Some s \<and>
      sp_owned s = {} \<union> pt_mine (pt_run (sp_alloc gp_alloc) (sp_release gp_release) (sp_capacity gp_total) ex_table
        [(EnsurePages 32 0 20, \<lambda>_ _. True), (Truncate 1, \<lambda>_ _. True)])"
  using page_table_accounting_exact [OF ex_table_ok refl] by blast

text \<open> The table leaks nothing: after any run, resetting it leaves the quota pool with exactly
  the pages others hold, and no logical page resident.\<close>

theorem page_table_reset_returns_all:
  assumes "pt_ok (sp_ok gp_ok gp_owned) sp_owned base t"
  shows "let t' = pt_reset (sp_release gp_release)
      (pt_run (sp_alloc gp_alloc) (sp_release gp_release) (sp_capacity gp_total) t ops) in
    (\<exists>s. pt_alloc t' = Some s \<and> sp_owned s = base) \<and> (\<forall>lp. \<not> pt_resident t' lp)"
proof -
  let ?u = "pt_run (sp_alloc gp_alloc) (sp_release gp_release) (sp_capacity gp_total) t ops"
  let ?t = "pt_reset (sp_release gp_release) ?u"
  note R = shared_global.pt_reset_ok [OF shared_global.pt_run_ok [OF assms, of ops]]
  have "\<not> pt_resident ?t lp" for lp
    by (auto simp: pt_resident_def pt_reset_def Let_def)
  then show ?thesis using R(1,2) by (auto simp: pt_ok_def Let_def)
qed

theorem page_table_reset_returns_all_witness:
  "\<exists>s. pt_alloc (pt_reset (sp_release gp_release)
      (pt_run (sp_alloc gp_alloc) (sp_release gp_release) (sp_capacity gp_total) ex_table
        [(EnsurePages 32 0 20, \<lambda>_ _. True)])) = Some s \<and> sp_owned s = {}"
  using page_table_reset_returns_all [OF ex_table_ok, of "[(EnsurePages 32 0 20, \<lambda>_ _. True)]"]
  unfolding Let_def by blast



text \<open> When \<open>ensure_logical_page_ranges_resident\<close> returns, every page of every requested range
  is resident and lies in the published prefix, the device copy agrees with the host on that whole
  prefix (also over any gap the table grew across), and resident pages kept their place.\<close>

theorem ensure_ranges_publishes:
  assumes "pt_ok (sp_ok gp_ok gp_owned) sp_owned base t" and "pt_mirror t"
    and "pt_ensure_ranges (sp_alloc gp_alloc) cp rs t = (t', Inr ())"
  shows "(\<forall>(a, n) \<in> set rs. \<forall>lp. a \<le> lp \<and> lp < a + n \<longrightarrow> pt_resident t' lp \<and> lp < pt_synced t') \<and>
    (\<forall>lp < length (pt_pages t). 0 \<le> pt_pages t ! lp \<longrightarrow> pt_pages t' ! lp = pt_pages t ! lp) \<and> pt_mirror t'"
  using shared_global.pt_ensure_ranges_ok [OF assms(1,3)] assms(2) by blast

theorem ensure_ranges_publishes_witness:
  "pt_resident (fst (pt_ensure_ranges (sp_alloc gp_alloc) (\<lambda>_ _. True) [(1, 1)] ex_table)) 1"
proof -
  let ?r = "pt_ensure_ranges (sp_alloc gp_alloc) (\<lambda>_ _. True) [(1, 1)] ex_table"
  have "snd ?r = Inr ()"
    by (simp add: pt_ensure_ranges_def ex_table_def numeral_2_eq_2 pt_fetch_def sp_alloc_def ex_shared_def
        pt_push_def pt_upload_def)
  then have r: "?r = (fst ?r, Inr ())" by (metis prod.collapse)
  show ?thesis using ensure_ranges_publishes [OF ex_table_ok ex_table_mirror r] by auto
qed

text \<open> Releasing many logical ranges with one upload leaves no page of those ranges resident,
  changes no other page, gives the quota pool back exactly what the table owned there, and keeps the
  device copy in agreement with the published prefix. (The end of a range is computed at 32 bits.)\<close>

theorem release_ranges_exact:
  assumes "pt_ok (sp_ok gp_ok gp_owned) sp_owned base t" and "pt_mirror t"
    and "pt_release_ranges (sp_release gp_release) cp rs t = (t', Inr ())"
  shows "pt_ok (sp_ok gp_ok gp_owned) sp_owned base t' \<and> pt_mirror t' \<and>
    length (pt_pages t') = length (pt_pages t) \<and>
    (\<forall>(a, n) \<in> set rs. \<forall>lp. a \<le> lp \<and> lp < u32 (a + n) \<and> n \<noteq> 0 \<longrightarrow> \<not> pt_resident t' lp) \<and>
    (\<forall>lp < length (pt_pages t). pt_pages t' ! lp = pt_pages t ! lp \<or> \<not> pt_resident t' lp)"
proof -
  note R = shared_global.pt_release_ranges_ok [OF assms(1,3)]
  have "pt_pages t' ! lp = pt_pages t ! lp \<or> \<not> pt_resident t' lp" if "lp < length (pt_pages t)" for lp
    using R(5) that by (auto simp: pt_resident_def)
  then show ?thesis using R(1-4) assms(2) by blast
qed

theorem release_ranges_exact_witness:
  "\<not> pt_resident (fst (pt_release_ranges (sp_release gp_release) (\<lambda>_ _. True) [(0, 1)]
      (fst (pt_ensure_ranges (sp_alloc gp_alloc) (\<lambda>_ _. True) [(0, 2)] ex_table)))) 0"
proof -
  let ?e = "pt_ensure_ranges (sp_alloc gp_alloc) (\<lambda>_ _. True) [(0, 2)] ex_table"
  let ?r = "pt_release_ranges (sp_release gp_release) (\<lambda>_ _. True) [(0, 1)] (fst ?e)"
  have se: "snd ?e = Inr ()"
    by (simp add: pt_ensure_ranges_def ex_table_def numeral_2_eq_2 pt_fetch_def sp_alloc_def ex_shared_def
        pt_push_def pt_upload_def)
  then have e: "?e = (fst ?e, Inr ())" by (metis prod.collapse)
  note E = shared_global.pt_ensure_ranges_ok [OF ex_table_ok e]
  have "snd ?r = Inr ()"
    by (auto simp: pt_release_ranges_def Let_def pt_upload_def split: prod.splits)
  then have r: "?r = (fst ?r, Inr ())" by (metis prod.collapse)
  have "u32 (0 + 1) = 1" by (simp add: u32_def)
  then show ?thesis using release_ranges_exact [OF E(1) E(2) [OF ex_table_mirror refl] r] by auto
qed

section \<open>Prefix pages\<close>

text \<open> Pages detached for a prefix-cache entry leave the table without being released: the
  table keeps the shorter prefix, the caller gets the rest in order, and a later reset returns only
  what the table still owns - the detached pages stay allocated.\<close>

theorem detach_transfers_ownership:
  assumes "pt_ok (sp_ok gp_ok gp_owned) sp_owned base t" and "pt_detach n t = (t', ps)"
  shows "pt_pages t = pt_pages t' @ ps \<and> pt_alloc t' = pt_alloc t \<and>
    (\<exists>s. pt_alloc (pt_reset (sp_release gp_release) t') = Some s \<and>
       sp_owned s = base \<union> {pt_pages t ! i | i. n \<le> i \<and> i < length (pt_pages t) \<and> pt_owned t ! i})"
proof -
  note D = shared_global.pt_detach_ok [OF assms]
  show ?thesis using D(2,3) shared_global.pt_reset_ok(1,2) [OF D(1)] by (auto simp: pt_ok_def)
qed

theorem detach_transfers_ownership_witness:
  "pt_pages (fst (pt_ensure_ranges (sp_alloc gp_alloc) (\<lambda>_ _. True) [(0, 2)] ex_table)) = [0, 1] \<and>
   snd (pt_detach 1 (fst (pt_ensure_ranges (sp_alloc gp_alloc) (\<lambda>_ _. True) [(0, 2)] ex_table))) = [1]"
proof -
  let ?e = "pt_ensure_ranges (sp_alloc gp_alloc) (\<lambda>_ _. True) [(0, 2)] ex_table"
  have pg: "pt_pages (fst ?e) = [0, 1]" and se: "snd ?e = Inr ()"
    by (simp_all add: pt_ensure_ranges_def ex_table_def numeral_2_eq_2 pt_fetch_def sp_alloc_def ex_shared_def
        pt_push_def pt_upload_def)
  have e: "?e = (fst ?e, Inr ())" using se by (metis prod.collapse)
  have d: "pt_detach 1 (fst ?e) = (fst (pt_detach 1 (fst ?e)), snd (pt_detach 1 (fst ?e)))" by simp
  have "pt_pages (fst (pt_detach 1 (fst ?e))) = [0]" using pg by (simp add: pt_detach_def)
  then show ?thesis
    using detach_transfers_ownership [OF shared_global.pt_ensure_ranges_ok(1) [OF ex_table_ok e] d] pg by simp
qed

text \<open> Adopting a cached prefix takes no ownership: the table shows exactly the shared pages,
  published on the device, its pool is untouched, and a later reset releases none of them.\<close>

theorem adopt_borrows:
  assumes "pt_ok (sp_ok gp_ok gp_owned) sp_owned base t" and "pt_mirror t"
    and "distinct shared" and "set shared \<subseteq> base" and "pt_adopt cp shared t = (t', Inr ())"
  shows "pt_pages t' = shared \<and> pt_synced t' = length shared \<and> pt_mirror t' \<and> pt_alloc t' = pt_alloc t \<and>
    (\<exists>s. pt_alloc (pt_reset (sp_release gp_release) t') = Some s \<and> sp_owned s = base)"
proof -
  note A = shared_global.pt_adopt_ok [OF assms(1,3,4,2,5)]
  show ?thesis using A(2,3) shared_global.pt_reset_ok(1,2) [OF A(1)] by (auto simp: pt_ok_def)
qed

text \<open>A table whose pool already lends page 0 to somebody else.\<close>

definition ex_lent :: "gpool spool ptab" where
  "ex_lent = ex_table\<lparr>pt_alloc := Some (fst (sp_alloc gp_alloc ex_shared))\<rparr>"

lemma ex_lent_ok: "pt_ok (sp_ok gp_ok gp_owned) sp_owned {0} ex_lent" and ex_lent_mirror: "pt_mirror ex_lent"
proof -
  have a: "sp_alloc gp_alloc ex_shared = (fst (sp_alloc gp_alloc ex_shared), Inr 0)"
    by (simp add: sp_alloc_def ex_shared_def)
  have "\<not> sp_in_use ex_shared ! i" if "i < sp_resident ex_shared" for i
    using that by (cases i) (auto simp: ex_shared_def)
  then have "sp_owned ex_shared = {}" by (auto simp: sp_owned_def ex_shared_def)
  with shared_global.alloc_ok [OF ex_shared_ok a] show "pt_ok (sp_ok gp_ok gp_owned) sp_owned {0} ex_lent"
    by (auto simp: pt_ok_def pt_shape_def pt_inj_def pt_mine_def pt_borrowed_def ex_table_def ex_lent_def)
  show "pt_mirror ex_lent" by (simp add: pt_mirror_def ex_lent_def ex_table_def)
qed

theorem adopt_borrows_witness:
  "pt_pages (fst (pt_adopt (\<lambda>_ _. True) [0] ex_lent)) = [0] \<and>
   (\<exists>s. pt_alloc (pt_reset (sp_release gp_release) (fst (pt_adopt (\<lambda>_ _. True) [0] ex_lent))) = Some s \<and> sp_owned s = {0})"
proof -
  let ?r = "pt_adopt (\<lambda>_ _. True) [0] ex_lent"
  have "snd ?r = Inr ()" by (simp add: pt_adopt_def ex_lent_def ex_table_def pt_upload_def)
  then have r: "?r = (fst ?r, Inr ())" by (metis prod.collapse)
  show ?thesis using adopt_borrows [OF ex_lent_ok ex_lent_mirror _ _ r] by simp
qed

section \<open>Page placement without an allocator\<close>

definition known_mode :: "string \<Rightarrow> bool" where
  "known_mode m \<longleftrightarrow> m = ''identity'' \<or> m = ''reverse'' \<or> m = ''evens-first''"

definition placed :: "'p ptab \<Rightarrow> nat \<Rightarrow> nat" where
  "placed t lp = (if pt_mode t = ''identity'' then lp
     else if pt_mode t = ''reverse'' then pt_max t - 1 - lp
     else if lp < (pt_max t + 1) div 2 then lp * 2 else (lp - (pt_max t + 1) div 2) * 2 + 1)"

lemma placed_lt: "lp < pt_max t \<Longrightarrow> placed t lp < pt_max t"
  unfolding placed_def by (cases "lp < (pt_max t + 1) div 2") (simp, presburger, simp, presburger)

lemma pt_page_of_placed:
  assumes "known_mode (pt_mode t)" and "lp < pt_max t" and "pt_max t \<le> INT32_MAX"
  shows "pt_page_of t lp = Inr (int (placed t lp))"
proof -
  have lt: "placed t lp < pt_max t" by (rule placed_lt [OF assms(2)])
  have b: "pt_max t + 1 \<le> UINT32_MAX" "lp * 2 \<le> UINT32_MAX" "(lp - (pt_max t + 1) div 2) * 2 + 1 \<le> UINT32_MAX"
    using assms(2,3) by (simp_all add: INT32_MAX_def UINT32_MAX_def)
  have i: "to_i32 k = int k" if "k < pt_max t" for k
    using that assms(3) by (simp add: to_i32_def)
  show ?thesis using assms(1,2) lt i [OF lt] b i [of lp] i [of "pt_max t - 1 - lp"]
    by (auto simp: pt_page_of_def placed_def known_mode_def Let_def)
qed

text \<open> Without an allocator each placement mode is a permutation: every logical page of the
  table gets a physical page below its capacity, and no two get the same one.\<close>

theorem placement_is_permutation:
  assumes "known_mode (pt_mode t)" and "pt_max t \<le> INT32_MAX"
  shows "(\<forall>lp < pt_max t. \<exists>p. pt_page_of t lp = Inr p \<and> in_pool p (pt_max t)) \<and>
    (\<forall>i < pt_max t. \<forall>j < pt_max t. pt_page_of t i = pt_page_of t j \<longrightarrow> i = j)"
proof -
  have "placed t i = placed t j \<Longrightarrow> i = j" if "i < pt_max t" "j < pt_max t" for i j
    using that unfolding placed_def
    by (cases "i < (pt_max t + 1) div 2"; cases "j < (pt_max t + 1) div 2") (auto split: if_splits, presburger+)
  then show ?thesis
    using pt_page_of_placed [OF assms(1) _ assms(2)] placed_lt by (auto simp: in_pool_def)
qed

theorem placement_is_permutation_witness:
  "let t = ex_table\<lparr>pt_mode := ''evens-first'', pt_max := 5\<rparr> in
   map (pt_page_of t) [0..<5] = [Inr 0, Inr 2, Inr 4, Inr 1, Inr 3] \<and>
   (\<forall>i < pt_max t. \<forall>j < pt_max t. pt_page_of t i = pt_page_of t j \<longrightarrow> i = j)"
proof -
  let ?t = "ex_table\<lparr>pt_mode := ''evens-first'', pt_max := 5\<rparr>"
  have "known_mode (pt_mode ?t)" "pt_max ?t \<le> INT32_MAX" by (simp_all add: known_mode_def INT32_MAX_def)
  from placement_is_permutation [OF this] show ?thesis
    by (simp add: Let_def upt_rec pt_page_of_def u32_def to_i32_def INT32_MAX_def)
qed

section \<open>A gap the single-page variant leaves\<close>

text \<open>
  \<open>ensure_logical_page_resident\<close> grows the table up to the requested page but uploads that page only,
  and then raises \<open>device_synced\<close> past the pages it skipped. The batched variant includes the gap.
\<close>

text \<open> Claim C40. Making a page beyond the published prefix resident with
  \<open>ensure_logical_page_resident\<close> succeeds and marks the skipped pages as published although the
  device never received them, and the next \<open>ensure_pages\<close> over them succeeds without uploading them:
  the kernel would read an unwritten entry for logical page 0.\<close>

theorem single_page_leaves_device_gap:
  "let (t1, r1) = pt_ensure_page (sp_alloc gp_alloc) (\<lambda>_ _. True) 1 ex_table;
       (t2, r2) = pt_ensure_pages (sp_alloc gp_alloc) (sp_release gp_release) (sp_capacity gp_total)
         (\<lambda>_ _. True) 32 0 32 t1
   in r1 = Inr 1 \<and> r2 = Inr () \<and> pt_synced t2 = 2 \<and> pt_pages t2 = [0, 1] \<and>
      pt_device t2 = Some [None, Some 1] \<and> pt_mirror ex_table \<and> \<not> pt_mirror t2"
proof -
  obtain t1 where t1: "pt_ensure_page (sp_alloc gp_alloc) (\<lambda>_ _. True) 1 ex_table = (t1, Inr 1)"
    and f: "pt_pages t1 = [0, 1]" "pt_device t1 = Some [None, Some 1]" "pt_synced t1 = 2"
      "pt_max t1 = 2" "pt_page_size t1 = 16" "\<not> pt_bounded t1"
    by (simp add: pt_ensure_page_def ex_table_def numeral_2_eq_2 pt_fetch_def sp_alloc_def ex_shared_def
        pt_push_def pt_upload_def pt_copied_def pt_device_cells_def upt_rec)
  have t2: "pt_ensure_pages (sp_alloc gp_alloc) (sp_release gp_release) (sp_capacity gp_total)
         (\<lambda>_ _. True) 32 0 32 t1 = (t1, Inr ())"
    using f by (simp add: pt_ensure_pages_def u32_def)
  have "\<not> pt_mirror t1"
  proof
    assume "pt_mirror t1"
    then have "\<forall>i < 2. [None, Some 1] ! i = Some (pt_pages t1 ! i)" using f by (simp add: pt_mirror_def)
    then have "[None, Some 1] ! 0 = Some (pt_pages t1 ! 0)" using zero_less_numeral by blast
    then show False by simp
  qed
  then show ?thesis using t1 t2 f ex_table_mirror by simp
qed

end
