(* ===== verification/Request_Plan.thy ===== *)
theory Request_Plan
  imports Prelude
begin

text \<open>
  Admission planning of a request (\<open>src/src/kvmem_request_plan.hpp\<close>, with the plan itself declared in
  \<open>src/include/qw3/qw3.hpp\<close>): fitting the blocks a protocol must keep into a finite active window,
  drafting the action before execution, and finalising it against the checkpoint that was found.
  Byte arrays of marks are lists of booleans; the closures of the fitting routine are functions on the
  pair of marks and counter they capture.
\<close>

section \<open>Data\<close>

datatype plan_action = Disabled | DenseAppend | PressurePrefill | KeepSelectedAppend
  | ResumeMThenAppend | ResumePThenReplayTail | ReselectWithUserQuery
  | GeneratePrivateQueryThenReselect | RejectBeforeExecution

datatype reject_reason = NoReject | ContextLimit | InvalidBudget | CapacityFitFailure

record plan =
  rp_enabled :: bool
  rp_finalized :: bool
  rp_above_budget :: bool
  rp_action :: plan_action
  rp_semantic_action :: plan_action
  rp_reject :: reject_reason
  rp_logical_prompt :: nat
  rp_request_prompt :: nat
  rp_context_limit :: nat
  rp_selection_budget :: nat
  rp_generation_budget :: nat
  rp_refresh_trigger :: nat
  rp_requested_output :: nat
  rp_block_tokens :: nat
  rp_raw_mandatory :: nat
  rp_mandatory :: nat
  rp_raw_live_suffix :: nat
  rp_live_suffix :: nat
  rp_soft_retrievable :: nat
  rp_sink :: nat
  rp_retrieval_reserve :: nat
  rp_capacity_fitted :: bool
  rp_pressure_ingest :: bool
  rp_checkpoint_available :: bool
  rp_resume_position :: nat
  rp_common_prefix :: nat
  rp_incremental_suffix :: nat

record plan_input =
  pi_enabled :: bool
  pi_reselect :: bool
  pi_private_query :: bool
  pi_keep_selected :: bool
  pi_logical_prompt :: nat
  pi_request_prompt :: nat
  pi_context_limit :: nat
  pi_selection_budget :: nat
  pi_generation_budget :: nat
  pi_refresh_trigger :: nat
  pi_requested_output :: nat
  pi_block_tokens :: nat
  pi_raw_mandatory :: nat
  pi_mandatory :: nat
  pi_raw_live_suffix :: nat
  pi_live_suffix :: nat
  pi_soft_retrievable :: nat
  pi_sink :: nat
  pi_retrieval_reserve :: nat
  pi_capacity_fitted :: bool
  pi_pressure_ingest :: bool

record block_span =
  bs_begin :: nat
  bs_end :: nat
  bs_priority :: nat

record fit_input =
  fi_prompt :: nat
  fi_budget :: nat
  fi_sink :: nat
  fi_recent :: nat
  fi_spans :: "block_span list"
  fi_live_begin :: nat
  fi_live_end :: nat

record fit_result =
  fr_hard :: "nat list"
  fr_raw_mandatory :: nat
  fr_raw_live :: nat
  fr_fitted_live :: nat
  fr_soft :: nat
  fr_reserve :: nat
  fr_replay_begin :: nat
  fr_fitted :: bool

definition fit_result_empty :: fit_result where
  "fit_result_empty = \<lparr>fr_hard = [], fr_raw_mandatory = 0, fr_raw_live = 0, fr_fitted_live = 0,
     fr_soft = 0, fr_reserve = 0, fr_replay_begin = 0, fr_fitted = False\<rparr>"

section \<open>Fitting mandatory blocks\<close>

definition mark_range :: "bool list \<Rightarrow> nat \<Rightarrow> nat \<Rightarrow> bool list" where
  "mark_range marks b e = map (\<lambda>i. min b (length marks) \<le> i \<and> i < min e (length marks) \<or> marks ! i) [0..<length marks]"

definition marked_ids :: "bool list \<Rightarrow> nat list" where
  "marked_ids marks = filter (\<lambda>i. marks ! i) [0..<length marks]"

text \<open>The marks and their count, as \<open>add_block\<close> captures them.\<close>

type_synonym fit_state = "bool list \<times> nat"

definition add_block :: "nat \<Rightarrow> fit_state \<Rightarrow> nat \<Rightarrow> bool \<times> fit_state" where
  "add_block limit s k = (case s of (hard, cnt) \<Rightarrow>
     if length hard \<le> k \<or> hard ! k \<or> limit \<le> cnt then (False, s)
     else (True, hard[k := True], cnt + 1))"

text \<open>A loop \<open>for (...) add_block(id)\<close>; with \<open>guarded\<close> it stops at the limit.\<close>

definition add_all :: "nat \<Rightarrow> nat list \<Rightarrow> fit_state \<Rightarrow> fit_state" where
  "add_all limit ids s = foldl (\<lambda>s k. snd (add_block limit s k)) s ids"

fun add_guarded :: "nat \<Rightarrow> nat list \<Rightarrow> fit_state \<Rightarrow> fit_state" where
  "add_guarded limit [] s = s"
| "add_guarded limit (k # ids) s =
     (if snd s < limit then add_guarded limit ids (snd (add_block limit s k)) else s)"

definition span_less :: "block_span \<Rightarrow> block_span \<Rightarrow> bool" where
  "span_less a b = (if bs_priority a \<noteq> bs_priority b then bs_priority a < bs_priority b
     else if bs_begin a \<noteq> bs_begin b then bs_begin a < bs_begin b else bs_end a < bs_end b)"

definition add_edges :: "nat \<Rightarrow> nat \<Rightarrow> fit_state \<Rightarrow> block_span \<Rightarrow> fit_state" where
  "add_edges limit prompt s span =
     (let b = min (bs_begin span) prompt; e = min (bs_end span) prompt in
      if e \<le> b then s
      else let anchors = min 4 (e - b) in
        add_all limit (map (\<lambda>i. e - 1 - i) [0..<anchors])
          (add_all limit (map (\<lambda>i. b + i) [0..<anchors]) s))"

text \<open>\<open>while (id < end && hard[id]) ++id\<close>\<close>

function skip_marked :: "bool list \<Rightarrow> nat \<Rightarrow> nat \<Rightarrow> nat" where
  "skip_marked hard e i = (if i < e \<and> hard ! i then skip_marked hard e (Suc i) else i)"
  by auto
termination by (relation "measure (\<lambda>(_, e, i). e - i)") auto

declare skip_marked.simps [simp del]

text \<open>One round over the spans of a tier, each with its cursor.\<close>

fun fit_round :: "nat \<Rightarrow> nat \<Rightarrow> nat \<Rightarrow> (block_span \<times> nat) list \<Rightarrow> fit_state \<Rightarrow>
    (block_span \<times> nat) list \<times> bool \<times> fit_state" where
  "fit_round limit prompt priority [] s = ([], False, s)"
| "fit_round limit prompt priority ((span, cursor) # rest) s =
     (if limit \<le> snd s then ((span, cursor) # rest, False, s)
      else if bs_priority span \<noteq> priority then
        (case fit_round limit prompt priority rest s of (rest', p, s') \<Rightarrow> ((span, cursor) # rest', p, s'))
      else let b = min (bs_begin span) prompt; e = min (bs_end span) prompt;
               at = skip_marked (fst s) e (b + cursor) in
        if e \<le> at then
          (case fit_round limit prompt priority rest s of (rest', p, s') \<Rightarrow> ((span, at - b) # rest', p, s'))
        else (case add_block limit s at of (added, s1) \<Rightarrow>
          (case fit_round limit prompt priority rest s1 of (rest', p, s') \<Rightarrow>
            ((span, Suc (at - b)) # rest', added \<or> p, s'))))"

lemma add_block_count:
  "snd (snd (add_block limit s k)) = (if fst (add_block limit s k) then Suc (snd s) else snd s)"
  by (simp add: add_block_def split: prod.splits)

lemma fit_round_progress:
  "fit_round limit prompt priority cs s = (cs', p, s') \<Longrightarrow>
    snd s \<le> snd s' \<and> (p \<longrightarrow> snd s < snd s')"
proof (induction limit prompt priority cs s arbitrary: cs' p s' rule: fit_round.induct)
  case (2 limit prompt priority span cursor rest s)
  define b where "b = min (bs_begin span) prompt"
  define e where "e = min (bs_end span) prompt"
  define at where "at = skip_marked (fst s) e (b + cursor)"
  consider "limit \<le> snd s" | "\<not> limit \<le> snd s" "bs_priority span \<noteq> priority"
    | "\<not> limit \<le> snd s" "bs_priority span = priority" "e \<le> at"
    | "\<not> limit \<le> snd s" "bs_priority span = priority" "\<not> e \<le> at" by blast
  then show ?case
  proof cases
    case 1
    then show ?thesis using "2.prems" by simp
  next
    case c: 2
    obtain r q t where r: "fit_round limit prompt priority rest s = (r, q, t)" by (metis prod_cases3)
    show ?thesis using "2.IH"(1) [OF c(1,2) r] "2.prems" c r by simp
  next
    case c: 3
    obtain r q t where r: "fit_round limit prompt priority rest s = (r, q, t)" by (metis prod_cases3)
    have "snd s \<le> snd t \<and> (q \<longrightarrow> snd s < snd t)"
      by (rule "2.IH"(2) [OF c(1) _ b_def e_def at_def c(3) r]) (use c(2) in simp)
    then show ?thesis using "2.prems" c r by (simp add: Let_def b_def [symmetric] e_def [symmetric] at_def [symmetric])
  next
    case c: 4
    obtain a s1 where ad: "add_block limit s at = (a, s1)" by (cases "add_block limit s at")
    obtain r q t where r: "fit_round limit prompt priority rest s1 = (r, q, t)" by (metis prod_cases3)
    have "snd s1 \<le> snd t \<and> (q \<longrightarrow> snd s1 < snd t)"
      by (rule "2.IH"(3) [OF c(1) _ b_def e_def at_def c(3) ad [symmetric] r]) (use c(2) in simp)
    moreover have "snd s1 = (if a then Suc (snd s) else snd s)" using add_block_count [of limit s at] ad by simp
    ultimately show ?thesis using "2.prems" c r ad
      by (auto simp: Let_def b_def [symmetric] e_def [symmetric] at_def [symmetric] split: if_splits)
  qed
qed simp

text \<open>\<open>while (progress && hard_count < hard_limit)\<close>\<close>

function fit_rounds :: "nat \<Rightarrow> nat \<Rightarrow> nat \<Rightarrow> (block_span \<times> nat) list \<Rightarrow> fit_state \<Rightarrow> fit_state" where
  "fit_rounds limit prompt priority cs s =
     (if limit \<le> snd s then s
      else case fit_round limit prompt priority cs s of (cs', p, s') \<Rightarrow>
        if p then fit_rounds limit prompt priority cs' s' else s')"
  by auto
termination
proof (relation "measure (\<lambda>(limit, _, _, _, s). limit - snd s)")
  fix limit prompt priority cs s cs' y p s'
  assume c: "\<not> limit \<le> snd (s :: fit_state)" and e: "(cs', y) = fit_round limit prompt priority cs s"
    "(p, s') = y" and p
  from e have "fit_round limit prompt priority cs s = (cs', p, s')" by simp
  from fit_round_progress [OF this] \<open>p\<close> have "snd s < snd s'" by simp
  then show "((limit, prompt, priority, cs', s'), limit, prompt, priority, cs, s)
        \<in> measure (\<lambda>(limit, _, _, _, s). limit - snd s)" using c by simp
qed simp

declare fit_rounds.simps [simp del]

definition fit_live :: "nat \<Rightarrow> nat \<Rightarrow> nat \<Rightarrow> nat \<Rightarrow> fit_state \<Rightarrow> fit_state" where
  "fit_live limit live_begin live_end recent s =
     (let raw_live = live_end - live_begin;
          live_head = min 16 raw_live;
          desired_tail = min raw_live (max 8 recent);
          tail_begin = live_end - desired_tail in
      add_all limit (map (\<lambda>i. live_begin + i) [0..<live_head])
        (add_guarded limit [tail_begin..<live_end] s))"

definition fit_tiers :: "nat \<Rightarrow> nat \<Rightarrow> block_span list \<Rightarrow> fit_state \<Rightarrow> fit_state" where
  "fit_tiers limit prompt spans s =
     foldl (\<lambda>s priority. if snd s < limit
       then fit_rounds limit prompt priority (map (\<lambda>span. (span, 0)) spans) s else s) s [0, 1, 2, 3]"

text \<open>\<open>while (replay > live_begin && hard[replay - 1]) --replay\<close>\<close>

fun replay_from :: "bool list \<Rightarrow> nat \<Rightarrow> nat \<Rightarrow> nat" where
  "replay_from hard live_begin 0 = 0"
| "replay_from hard live_begin (Suc r) =
     (if live_begin < Suc r \<and> hard ! r then replay_from hard live_begin r else Suc r)"

definition fit_raw_marks :: "fit_input \<Rightarrow> bool list" where
  "fit_raw_marks x =
     (let prompt = fi_prompt x; lb = min (fi_live_begin x) prompt; le = min (fi_live_end x) prompt;
          m0 = mark_range (replicate prompt False) 0 (min (fi_sink x) prompt);
          m1 = foldl (\<lambda>m span. mark_range m (bs_begin span) (bs_end span)) m0 (fi_spans x) in
      if lb < le then mark_range m1 lb le else m1)"

definition fit_hard_marks :: "fit_input \<Rightarrow> fit_state" where
  "fit_hard_marks x =
     (let prompt = fi_prompt x; lb = min (fi_live_begin x) prompt; le = min (fi_live_end x) prompt;
          sink = min (min (fi_sink x) prompt) (fi_budget x);
          limit = fi_budget x - fi_budget x div 8;
          s0 = (replicate prompt False, 0);
          s1 = (if lb < le then fit_live limit lb le (fi_recent x) s0 else s0);
          s2 = add_guarded limit [0..<sink] s1;
          spans = sort_by span_less (fi_spans x);
          s3 = foldl (add_edges limit prompt) s2 spans in
      fit_tiers limit prompt spans s3)"

definition fit_mandatory_blocks :: "fit_input \<Rightarrow> fit_result" where
  "fit_mandatory_blocks x =
     (if fi_prompt x = 0 \<or> fi_budget x = 0 then fit_result_empty
      else let prompt = fi_prompt x; lb = min (fi_live_begin x) prompt; le = min (fi_live_end x) prompt;
               raw_live = (if lb < le then le - lb else 0);
               raw = fit_raw_marks x; raw_count = length (marked_ids raw) in
        if raw_count \<le> fi_budget x
        then fit_result_empty\<lparr>fr_raw_live := raw_live, fr_raw_mandatory := raw_count,
               fr_hard := marked_ids raw, fr_fitted_live := raw_live,
               fr_replay_begin := (if lb < le then lb else le)\<rparr>
        else case fit_hard_marks x of (hard, hard_count) \<Rightarrow>
          fit_result_empty\<lparr>fr_raw_live := raw_live, fr_raw_mandatory := raw_count, fr_fitted := True,
            fr_reserve := fi_budget x div 8, fr_hard := marked_ids hard,
            fr_fitted_live := (if lb < le then length (filter (\<lambda>i. hard ! i) [lb..<le]) else 0),
            fr_replay_begin := (if lb < le then replay_from hard lb le else le),
            fr_soft := (if hard_count < raw_count then raw_count - hard_count else 0)\<rparr>)"

section \<open>Drafting and finalising a plan\<close>

definition plan_of_input :: "plan_input \<Rightarrow> plan" where
  "plan_of_input x = \<lparr>rp_enabled = pi_enabled x, rp_finalized = False, rp_above_budget = False,
     rp_action = Disabled, rp_semantic_action = Disabled, rp_reject = NoReject,
     rp_logical_prompt = pi_logical_prompt x, rp_request_prompt = pi_request_prompt x,
     rp_context_limit = pi_context_limit x, rp_selection_budget = pi_selection_budget x,
     rp_generation_budget = pi_generation_budget x, rp_refresh_trigger = pi_refresh_trigger x,
     rp_requested_output = pi_requested_output x, rp_block_tokens = pi_block_tokens x,
     rp_raw_mandatory = pi_raw_mandatory x, rp_mandatory = pi_mandatory x,
     rp_raw_live_suffix = pi_raw_live_suffix x, rp_live_suffix = pi_live_suffix x,
     rp_soft_retrievable = pi_soft_retrievable x, rp_sink = pi_sink x,
     rp_retrieval_reserve = pi_retrieval_reserve x, rp_capacity_fitted = pi_capacity_fitted x,
     rp_pressure_ingest = pi_pressure_ingest x, rp_checkpoint_available = False,
     rp_resume_position = 0, rp_common_prefix = 0, rp_incremental_suffix = 0\<rparr>"

definition draft_reject :: "plan_input \<Rightarrow> reject_reason" where
  "draft_reject x =
     (if pi_selection_budget x = 0 \<or> pi_block_tokens x = 0 \<or> pi_selection_budget x < pi_block_tokens x
      then InvalidBudget
      else if 0 < pi_context_limit x \<and> pi_context_limit x \<le> pi_logical_prompt x then ContextLimit
      else if pi_selection_budget x div pi_block_tokens x < pi_mandatory x then CapacityFitFailure
      else NoReject)"

definition draft_request_plan :: "plan_input \<Rightarrow> plan" where
  "draft_request_plan x =
     (let out = plan_of_input x in
      if \<not> pi_enabled x then out
      else if draft_reject x \<noteq> NoReject
      then out\<lparr>rp_action := RejectBeforeExecution, rp_reject := draft_reject x,
               rp_semantic_action := RejectBeforeExecution, rp_finalized := True\<rparr>
      else let above = pi_selection_budget x < pi_logical_prompt x;
               action = (if \<not> above then DenseAppend
                 else if pi_reselect x
                 then (if pi_private_query x then GeneratePrivateQueryThenReselect else ReselectWithUserQuery)
                 else if pi_keep_selected x then KeepSelectedAppend else PressurePrefill)
           in out\<lparr>rp_above_budget := above, rp_action := action, rp_semantic_action := action\<rparr>)"

record checkpoint_input =
  ci_warm :: bool
  ci_resume :: nat
  ci_prompt_checkpoint :: bool
  ci_common_prefix :: nat

definition checkpoint_consistent :: "plan \<Rightarrow> checkpoint_input \<Rightarrow> bool" where
  "checkpoint_consistent p c \<longleftrightarrow> ci_warm c \<and> 0 < ci_resume c \<and> ci_resume c \<le> rp_request_prompt p \<and>
     ci_resume c \<le> ci_common_prefix c"

definition finalize_request_plan :: "plan \<Rightarrow> checkpoint_input \<Rightarrow> plan" where
  "finalize_request_plan p c =
     (if \<not> rp_enabled p \<or> rp_finalized p \<or> rp_action p = RejectBeforeExecution then p
      else let ok = checkpoint_consistent p c;
               p1 = p\<lparr>rp_common_prefix := ci_common_prefix c, rp_checkpoint_available := ok,
                      rp_resume_position := (if ok then ci_resume c else 0),
                      rp_incremental_suffix := (if ok then rp_request_prompt p - ci_resume c
                                                else rp_incremental_suffix p)\<rparr>;
               exhausts = (ok \<and> rp_above_budget p \<and> 0 < rp_generation_budget p \<and>
                           rp_generation_budget p < rp_incremental_suffix p1);
               p2 = (if exhausts
                     then p1\<lparr>rp_pressure_ingest := True,
                            rp_action := (if rp_action p = KeepSelectedAppend then PressurePrefill else rp_action p)\<rparr>
                     else if ok
                     then (if rp_action p = KeepSelectedAppend \<or> rp_action p = DenseAppend
                           then p1\<lparr>rp_action := (if ci_prompt_checkpoint c then ResumePThenReplayTail
                                                else ResumeMThenAppend)\<rparr> else p1)
                     else if rp_action p = GeneratePrivateQueryThenReselect
                     then p1\<lparr>rp_pressure_ingest := True\<rparr>
                     else if rp_action p = KeepSelectedAppend
                     then p1\<lparr>rp_action := PressurePrefill, rp_pressure_ingest := True\<rparr>
                     else p1)
           in p2\<lparr>rp_finalized := True\<rparr>)"

definition plan_action_name :: "plan_action \<Rightarrow> string" where
  "plan_action_name a = (case a of
      Disabled \<Rightarrow> ''disabled'' | DenseAppend \<Rightarrow> ''dense-append'' | PressurePrefill \<Rightarrow> ''pressure-prefill''
    | KeepSelectedAppend \<Rightarrow> ''keep-selected-append'' | ResumeMThenAppend \<Rightarrow> ''resume-m-then-append''
    | ResumePThenReplayTail \<Rightarrow> ''resume-p-then-replay-tail''
    | ReselectWithUserQuery \<Rightarrow> ''reselect-with-user-query''
    | GeneratePrivateQueryThenReselect \<Rightarrow> ''generate-private-query-then-reselect''
    | RejectBeforeExecution \<Rightarrow> ''reject-before-execution'')"

definition reject_reason_name :: "reject_reason \<Rightarrow> string" where
  "reject_reason_name r = (case r of NoReject \<Rightarrow> ''none'' | ContextLimit \<Rightarrow> ''context-limit''
    | InvalidBudget \<Rightarrow> ''invalid-budget'' | CapacityFitFailure \<Rightarrow> ''capacity-fit-failure'')"

section \<open>What the fitting keeps\<close>

lemma length_mark_range [simp]: "length (mark_range m b e) = length m"
  by (simp add: mark_range_def)

lemma mark_range_nth: "i < length m \<Longrightarrow> mark_range m b e ! i = (b \<le> i \<and> i < e \<or> m ! i)"
  by (auto simp: mark_range_def)

lemma fold_mark_range:
  "length (foldl (\<lambda>m s. mark_range m (bs_begin s) (bs_end s)) m spans) = length m \<and>
   (\<forall>i < length m. foldl (\<lambda>m s. mark_range m (bs_begin s) (bs_end s)) m spans ! i =
      (m ! i \<or> (\<exists>s \<in> set spans. bs_begin s \<le> i \<and> i < bs_end s)))"
  by (induction spans arbitrary: m) (auto simp: mark_range_nth)

lemma fit_raw_marks_nth:
  assumes "i < fi_prompt x"
  shows "fit_raw_marks x ! i \<longleftrightarrow> i < fi_sink x \<or>
    (\<exists>s \<in> set (fi_spans x). bs_begin s \<le> i \<and> i < bs_end s) \<or> fi_live_begin x \<le> i \<and> i < fi_live_end x"
  using assms fold_mark_range [of "mark_range (replicate (fi_prompt x) False) 0 (min (fi_sink x) (fi_prompt x))" "fi_spans x"]
  by (auto simp: fit_raw_marks_def Let_def mark_range_nth)

lemma length_fit_raw_marks [simp]: "length (fit_raw_marks x) = fi_prompt x"
  using fold_mark_range [of "mark_range (replicate (fi_prompt x) False) 0 (min (fi_sink x) (fi_prompt x))" "fi_spans x"]
  by (simp add: fit_raw_marks_def Let_def)

lemma marked_ids_facts:
  "sorted (marked_ids m)" "distinct (marked_ids m)" "set (marked_ids m) = {i. i < length m \<and> m ! i}"
  by (auto simp: marked_ids_def sorted_wrt_filter)

lemma length_marked_ids: "length (marked_ids m) = card {i. i < length m \<and> m ! i}"
  using marked_ids_facts(2,3) [of m] by (metis distinct_card)

text \<open>The invariant of the fitting loops.\<close>

definition fit_inv :: "bool list \<Rightarrow> nat \<Rightarrow> fit_state \<Rightarrow> bool" where
  "fit_inv raw limit s \<longleftrightarrow> length (fst s) = length raw \<and> snd s = length (marked_ids (fst s)) \<and>
     snd s \<le> limit \<and> (\<forall>i < length raw. fst s ! i \<longrightarrow> raw ! i)"

text \<open>Marks are never withdrawn.\<close>

definition fit_grows :: "fit_state \<Rightarrow> fit_state \<Rightarrow> bool" where
  "fit_grows s t \<longleftrightarrow> length (fst t) = length (fst s) \<and> snd s \<le> snd t \<and> (\<forall>i < length (fst s). fst s ! i \<longrightarrow> fst t ! i)"

lemma fit_grows_refl [simp]: "fit_grows s s"
  by (simp add: fit_grows_def)

lemma fit_grows_trans: "fit_grows s t \<Longrightarrow> fit_grows t u \<Longrightarrow> fit_grows s u"
  by (auto simp: fit_grows_def)

lemma add_block_inv:
  assumes inv: "fit_inv raw limit s" and k: "k < length raw \<Longrightarrow> raw ! k"
  shows "fit_inv raw limit (snd (add_block limit s k)) \<and> fit_grows s (snd (add_block limit s k))"
proof (cases "length (fst s) \<le> k \<or> fst s ! k \<or> limit \<le> snd s")
  case True
  then show ?thesis using inv by (auto simp: add_block_def split: prod.splits)
next
  case False
  obtain hard c where s: "s = (hard, c)" by (cases s)
  have len: "length hard = length raw" and klt: "k < length raw" using inv False s by (auto simp: fit_inv_def)
  have "{i. i < length (hard[k := True]) \<and> hard[k := True] ! i} = insert k {i. i < length hard \<and> hard ! i}"
    using klt len by (auto simp: nth_list_update)
  moreover have "k \<notin> {i. i < length hard \<and> hard ! i}" using False s by simp
  moreover have "finite {i. i < length hard \<and> hard ! i}" by simp
  ultimately have "length (marked_ids (hard[k := True])) = Suc (length (marked_ids hard))"
    unfolding length_marked_ids by simp
  moreover have "hard[k := True] ! i \<longrightarrow> raw ! i" if "i < length raw" for i
    using inv k klt that s by (cases "i = k") (auto simp: fit_inv_def)
  moreover have "hard ! i \<longrightarrow> hard[k := True] ! i" if "i < length raw" for i
    using that len by (cases "i = k") auto
  ultimately show ?thesis using inv False s len by (simp add: add_block_def fit_inv_def fit_grows_def)
qed

lemma add_all_inv:
  assumes "fit_inv raw limit s" and "\<forall>k \<in> set ks. k < length raw \<longrightarrow> raw ! k"
  shows "fit_inv raw limit (add_all limit ks s) \<and> fit_grows s (add_all limit ks s)"
  using assms
proof (induction ks arbitrary: s)
  case (Cons k ks)
  have "k < length raw \<Longrightarrow> raw ! k" using Cons.prems(2) by simp
  note A = add_block_inv [OF Cons.prems(1) this]
  have "fit_inv raw limit (add_all limit ks (snd (add_block limit s k))) \<and>
      fit_grows (snd (add_block limit s k)) (add_all limit ks (snd (add_block limit s k)))"
    using Cons.IH [OF conjunct1 [OF A]] Cons.prems(2) by simp
  then show ?case using A fit_grows_trans [of s "snd (add_block limit s k)"] by (simp add: add_all_def)
qed (simp add: add_all_def)

lemma add_guarded_inv:
  assumes "fit_inv raw limit s" and "\<forall>k \<in> set ks. k < length raw \<longrightarrow> raw ! k"
  shows "fit_inv raw limit (add_guarded limit ks s) \<and> fit_grows s (add_guarded limit ks s)"
  using assms
proof (induction ks arbitrary: s)
  case (Cons k ks)
  have "k < length raw \<Longrightarrow> raw ! k" using Cons.prems(2) by simp
  note A = add_block_inv [OF Cons.prems(1) this]
  have "fit_inv raw limit (add_guarded limit ks (snd (add_block limit s k))) \<and>
      fit_grows (snd (add_block limit s k)) (add_guarded limit ks (snd (add_block limit s k)))"
    using Cons.IH [OF conjunct1 [OF A]] Cons.prems(2) by simp
  then show ?case using A fit_grows_trans [of s "snd (add_block limit s k)"] Cons.prems(1) by simp
qed simp

text \<open>A guarded loop with enough room left marks every index.\<close>

lemma add_guarded_all:
  assumes "fit_inv raw limit s" and "\<forall>k \<in> set ks. k < length raw \<and> raw ! k" and "snd s + length ks \<le> limit"
  shows "\<forall>k \<in> set ks. fst (add_guarded limit ks s) ! k"
  using assms
proof (induction ks arbitrary: s)
  case (Cons k ks)
  have k: "k < length raw" "raw ! k" using Cons.prems(2) by simp_all
  let ?t = "snd (add_block limit s k)"
  have A: "fit_inv raw limit ?t" "fit_grows s ?t" using add_block_inv [OF Cons.prems(1)] k by simp_all
  have room: "snd s < limit" using Cons.prems(3) by simp
  have kt: "fst ?t ! k" using k room Cons.prems(1) by (auto simp: add_block_def fit_inv_def split: prod.splits)
  have "snd ?t \<le> Suc (snd s)" using add_block_count [of limit s k] by simp
  then have "\<forall>j \<in> set ks. fst (add_guarded limit ks ?t) ! j"
    using Cons.IH [OF A(1)] Cons.prems(2,3) by simp
  moreover have "fit_grows ?t (add_guarded limit ks ?t)"
    using add_guarded_inv [OF A(1)] Cons.prems(2) by simp
  then have "fst (add_guarded limit ks ?t) ! k"
    using kt k A(1) by (auto simp: fit_grows_def fit_inv_def)
  ultimately show ?case using room by simp
qed simp

lemma skip_marked_ge: "i \<le> skip_marked hard e i"
proof (induction hard e i rule: skip_marked.induct)
  case (1 hard e i)
  show ?case
  proof (cases "i < e \<and> hard ! i")
    case True
    then have "Suc i \<le> skip_marked hard e (Suc i)" using "1.IH" by blast
    then show ?thesis using True by (subst skip_marked.simps) simp
  qed (subst skip_marked.simps, auto)
qed

definition span_raw :: "bool list \<Rightarrow> nat \<Rightarrow> block_span \<Rightarrow> bool" where
  "span_raw raw prompt s \<longleftrightarrow> (\<forall>i. bs_begin s \<le> i \<and> i < min (bs_end s) prompt \<longrightarrow> raw ! i)"

lemma add_edges_inv:
  assumes inv: "fit_inv raw limit s" and raw: "length raw = prompt" "span_raw raw prompt sp"
  shows "fit_inv raw limit (add_edges limit prompt s sp) \<and> fit_grows s (add_edges limit prompt s sp)"
proof -
  define b where "b = min (bs_begin sp) prompt"
  define e where "e = min (bs_end sp) prompt"
  show ?thesis
  proof (cases "e \<le> b")
    case True
    then show ?thesis using inv by (simp add: add_edges_def Let_def b_def [symmetric] e_def [symmetric])
  next
    case False
    have r: "raw ! i" if "b \<le> i" "i < e" for i
      using raw that False by (auto simp: span_raw_def b_def e_def)
    let ?a = "min 4 (e - b)"
    have "\<forall>k \<in> set (map (\<lambda>i. b + i) [0..<?a]). k < length raw \<longrightarrow> raw ! k" using r False by auto
    note A = add_all_inv [OF inv this]
    have "\<forall>k \<in> set (map (\<lambda>i. e - 1 - i) [0..<?a]). k < length raw \<longrightarrow> raw ! k" using r False by auto
    note B = add_all_inv [OF conjunct1 [OF A] this]
    have eq: "add_edges limit prompt s sp = add_all limit (map (\<lambda>i. e - 1 - i) [0..<?a])
        (add_all limit (map (\<lambda>i. b + i) [0..<?a]) s)"
      using False unfolding add_edges_def Let_def b_def [symmetric] e_def [symmetric] by (rule if_not_P)
    show ?thesis unfolding eq using A B fit_grows_trans by blast
  qed
qed

lemma fit_round_inv:
  "fit_inv raw limit s \<Longrightarrow> length raw = prompt \<Longrightarrow> \<forall>(sp, c) \<in> set cs. span_raw raw prompt sp \<Longrightarrow>
    fit_round limit prompt priority cs s = (cs', p, s') \<Longrightarrow>
    fit_inv raw limit s' \<and> fit_grows s s' \<and> map fst cs' = map fst (take (length cs') cs)"
proof (induction limit prompt priority cs s arbitrary: cs' p s' rule: fit_round.induct)
  case (2 limit prompt priority span cursor rest s)
  define b where "b = min (bs_begin span) prompt"
  define e where "e = min (bs_end span) prompt"
  define at where "at = skip_marked (fst s) e (b + cursor)"
  have sp: "span_raw raw prompt span" and rest: "\<forall>(sp, c) \<in> set rest. span_raw raw prompt sp"
    using "2.prems"(3) by auto
  consider "limit \<le> snd s" | "\<not> limit \<le> snd s" "bs_priority span \<noteq> priority"
    | "\<not> limit \<le> snd s" "bs_priority span = priority" "e \<le> at"
    | "\<not> limit \<le> snd s" "bs_priority span = priority" "\<not> e \<le> at" by blast
  then show ?case
  proof cases
    case 1
    then show ?thesis using "2.prems" by auto
  next
    case c: 2
    obtain r q t where r: "fit_round limit prompt priority rest s = (r, q, t)" by (metis prod_cases3)
    show ?thesis using "2.IH"(1) [OF c(1,2) "2.prems"(1,2) rest r] "2.prems"(4) c r by auto
  next
    case c: 3
    obtain r q t where r: "fit_round limit prompt priority rest s = (r, q, t)" by (metis prod_cases3)
    have "fit_inv raw limit t \<and> fit_grows s t \<and> map fst r = map fst (take (length r) rest)"
      by (rule "2.IH"(2) [OF c(1) _ b_def e_def at_def c(3) "2.prems"(1,2) rest r]) (use c(2) in simp)
    then show ?thesis using "2.prems"(4) c r
      by (auto simp: Let_def b_def [symmetric] e_def [symmetric] at_def [symmetric])
  next
    case c: 4
    obtain a s1 where ad: "add_block limit s at = (a, s1)" by (cases "add_block limit s at")
    obtain r q t where r: "fit_round limit prompt priority rest s1 = (r, q, t)" by (metis prod_cases3)
    have "b \<le> at" using skip_marked_ge [of "b + cursor" "fst s" e] by (simp add: at_def)
    then have "bs_begin span \<le> at \<and> at < min (bs_end span) prompt" using c(3) by (auto simp: b_def e_def)
    then have "raw ! at" using sp by (simp add: span_raw_def)
    then have A: "fit_inv raw limit s1 \<and> fit_grows s s1" using add_block_inv [OF "2.prems"(1), of at] ad by simp
    have "fit_inv raw limit t \<and> fit_grows s1 t \<and> map fst r = map fst (take (length r) rest)"
      by (rule "2.IH"(3) [OF c(1) _ b_def e_def at_def c(3) ad [symmetric] conjunct1 [OF A] "2.prems"(2) rest r])
        (use c(2) in simp)
    then show ?thesis using "2.prems"(4) c r ad A fit_grows_trans [of s s1 t]
      by (auto simp: Let_def b_def [symmetric] e_def [symmetric] at_def [symmetric])
  qed
qed simp

lemma fit_rounds_inv:
  "fit_inv raw limit s \<Longrightarrow> length raw = prompt \<Longrightarrow> \<forall>(sp, c) \<in> set cs. span_raw raw prompt sp \<Longrightarrow>
    fit_inv raw limit (fit_rounds limit prompt priority cs s) \<and> fit_grows s (fit_rounds limit prompt priority cs s)"
proof (induction limit prompt priority cs s rule: fit_rounds.induct)
  case (1 limit prompt priority cs s)
  show ?case
  proof (cases "limit \<le> snd s")
    case True
    then show ?thesis using "1.prems" by (simp add: fit_rounds.simps)
  next
    case False
    obtain cs' p s' where r: "fit_round limit prompt priority cs s = (cs', p, s')" by (metis prod_cases3)
    note R = fit_round_inv [OF "1.prems" r]
    have cs': "\<forall>(sp, c) \<in> set cs'. span_raw raw prompt sp"
    proof (clarify)
      fix sp c assume "(sp, c) \<in> set cs'"
      then have "sp \<in> set (map fst cs')" by force
      then have "sp \<in> set (map fst (take (length cs') cs))" using R by simp
      then obtain c' where "(sp, c') \<in> set cs" by (auto dest: in_set_takeD)
      then show "span_raw raw prompt sp" using "1.prems"(3) by blast
    qed
    show ?thesis
    proof (cases p)
      case True
      have "fit_inv raw limit (fit_rounds limit prompt priority cs' s') \<and>
          fit_grows s' (fit_rounds limit prompt priority cs' s')"
        using "1.IH" [OF False r [symmetric] refl True] R "1.prems"(2) cs' by blast
      then show ?thesis using R r False True fit_grows_trans [of s s']
        by (subst fit_rounds.simps, subst fit_rounds.simps) simp
    next
      case np: False
      then show ?thesis using R r False by (simp add: fit_rounds.simps)
    qed
  qed
qed

lemma fit_tiers_inv:
  assumes "fit_inv raw limit s" and "length raw = prompt" and "\<forall>sp \<in> set spans. span_raw raw prompt sp"
  shows "fit_inv raw limit (fit_tiers limit prompt spans s) \<and> fit_grows s (fit_tiers limit prompt spans s)"
proof -
  let ?f = "\<lambda>s priority. if snd s < limit
       then fit_rounds limit prompt priority (map (\<lambda>span. (span, 0)) spans) s else s"
  have "fit_inv raw limit (foldl ?f s ps) \<and> fit_grows s (foldl ?f s ps)" for ps
    using assms(1)
  proof (induction ps arbitrary: s)
    case (Cons q ps)
    have "\<forall>(sp, c) \<in> set (map (\<lambda>span. (span, 0)) spans). span_raw raw prompt sp" using assms(3) by auto
    note R = fit_rounds_inv [OF Cons.prems assms(2) this, of q]
    then have S: "fit_inv raw limit (?f s q) \<and> fit_grows s (?f s q)" using Cons.prems by simp
    from Cons.IH [OF conjunct1 [OF S]] show ?case using S fit_grows_trans [of s "?f s q"] by simp
  qed simp
  then show ?thesis unfolding fit_tiers_def by blast
qed

lemma replay_from_facts:
  assumes "lb \<le> r"
  shows "lb \<le> replay_from hard lb r \<and> replay_from hard lb r \<le> r \<and>
    (\<forall>i. replay_from hard lb r \<le> i \<and> i < r \<longrightarrow> hard ! i) \<and>
    (lb < replay_from hard lb r \<longrightarrow> \<not> hard ! (replay_from hard lb r - 1))"
  using assms
proof (induction r)
  case (Suc r)
  show ?case
  proof (cases "lb < Suc r \<and> hard ! r")
    case True
    then have "lb \<le> r" by simp
    from Suc.IH [OF this] show ?thesis using True by (auto simp: less_Suc_eq)
  qed (use Suc.prems in auto)
qed simp

text \<open>The state after the live range, and the whole of the fitting.\<close>

lemma fit_start_inv: "fit_inv raw limit (replicate (length raw) False, 0)"
  by (auto simp: fit_inv_def marked_ids_def)

lemma fit_live_inv:
  assumes inv: "fit_inv raw limit s" and len: "le \<le> length raw" and raw: "\<And>i. lb \<le> i \<Longrightarrow> i < le \<Longrightarrow> raw ! i"
    and lt: "lb < le"
  shows "fit_inv raw limit (fit_live limit lb le recent s)"
    and "snd s + min (le - lb) (max 8 recent) \<le> limit \<Longrightarrow> le - min (le - lb) (max 8 recent) \<le> i \<Longrightarrow> i < le \<Longrightarrow>
      fst (fit_live limit lb le recent s) ! i"
proof -
  let ?d = "min (le - lb) (max 8 recent)"
  let ?tail = "[le - ?d..<le]"
  let ?t = "add_guarded limit ?tail s"
  have tl: "\<forall>k \<in> set ?tail. k < length raw \<and> raw ! k" using raw len lt by auto
  then have T: "fit_inv raw limit ?t \<and> fit_grows s ?t" using add_guarded_inv [OF inv] by simp
  let ?h = "map (\<lambda>i. lb + i) [0..<min 16 (le - lb)]"
  have "\<forall>k \<in> set ?h. k < length raw \<longrightarrow> raw ! k" using raw by auto
  note H = add_all_inv [OF conjunct1 [OF T] this]
  have eq: "fit_live limit lb le recent s = add_all limit ?h ?t" by (simp add: fit_live_def Let_def)
  show "fit_inv raw limit (fit_live limit lb le recent s)" using H eq by simp
  assume room: "snd s + ?d \<le> limit" and i: "le - ?d \<le> i" "i < le"
  have "length ?tail = ?d" using lt by simp
  then have "\<forall>k \<in> set ?tail. fst ?t ! k" using add_guarded_all [OF inv tl] room by simp
  then have "fst ?t ! i" using i by simp
  moreover have "i < length (fst ?t)" using i len T by (simp add: fit_inv_def)
  ultimately show "fst (fit_live limit lb le recent s) ! i" using H eq by (simp add: fit_grows_def)
qed

lemma fit_hard_marks_inv:
  fixes x :: fit_input
  defines "raw \<equiv> fit_raw_marks x" and "limit \<equiv> fi_budget x - fi_budget x div 8"
    and "lb \<equiv> min (fi_live_begin x) (fi_prompt x)" and "le \<equiv> min (fi_live_end x) (fi_prompt x)"
  shows "fit_inv raw limit (fit_hard_marks x)"
    and "lb < le \<Longrightarrow> fit_grows (fit_live limit lb le (fi_recent x) (replicate (fi_prompt x) False, 0)) (fit_hard_marks x)"
proof -
  let ?p = "fi_prompt x"
  let ?s0 = "(replicate ?p False, 0) :: fit_state"
  define s1 where "s1 = (if lb < le then fit_live limit lb le (fi_recent x) ?s0 else ?s0)"
  have len: "length raw = ?p" by (simp add: raw_def)
  have rw: "raw ! i" if "i < ?p" "i < fi_sink x \<or> (\<exists>s \<in> set (fi_spans x). bs_begin s \<le> i \<and> i < bs_end s) \<or>
      fi_live_begin x \<le> i \<and> i < fi_live_end x" for i
    using fit_raw_marks_nth [OF that(1)] that(2) by (simp add: raw_def)
  have i0: "fit_inv raw limit ?s0" using fit_start_inv [of raw limit] by (simp add: len)
  have i1: "fit_inv raw limit s1"
  proof (cases "lb < le")
    case True
    have "raw ! i" if "lb \<le> i" "i < le" for i
    proof -
      have "i < fi_prompt x" "fi_live_begin x \<le> i" "i < fi_live_end x" using that by (auto simp: lb_def le_def)
      then show ?thesis using rw by blast
    qed
    then show ?thesis using fit_live_inv(1) [OF i0 _ _ True] len True by (simp add: s1_def le_def)
  qed (simp add: s1_def i0)
  define s2 where "s2 = add_guarded limit [0..<min (min (fi_sink x) ?p) (fi_budget x)] s1"
  have i2: "fit_inv raw limit s2 \<and> fit_grows s1 s2"
    unfolding s2_def by (rule add_guarded_inv [OF i1]) (use rw in auto)
  have spans: "span_raw raw ?p sp" if "sp \<in> set (sort_by span_less (fi_spans x))" for sp
    using that rw by (auto simp: span_raw_def)
  define s3 where "s3 = foldl (add_edges limit ?p) s2 (sort_by span_less (fi_spans x))"
  have "fit_inv raw limit (foldl (add_edges limit ?p) s sps) \<and> fit_grows s (foldl (add_edges limit ?p) s sps)"
    if "fit_inv raw limit s" "\<forall>sp \<in> set sps. span_raw raw ?p sp" for s sps
    using that
  proof (induction sps arbitrary: s)
    case (Cons sp sps)
    have sp: "span_raw raw ?p sp" using Cons.prems(2) by simp
    note E = add_edges_inv [OF Cons.prems(1) len sp]
    have "\<forall>sp \<in> set sps. span_raw raw ?p sp" using Cons.prems(2) by simp
    from Cons.IH [OF conjunct1 [OF E] this] show ?case using E fit_grows_trans [of s "add_edges limit ?p s sp"] by simp
  qed simp
  then have i3: "fit_inv raw limit s3 \<and> fit_grows s2 s3"
    unfolding s3_def using i2 spans by blast
  have i4: "fit_inv raw limit (fit_tiers limit ?p (sort_by span_less (fi_spans x)) s3) \<and>
      fit_grows s3 (fit_tiers limit ?p (sort_by span_less (fi_spans x)) s3)"
    by (rule fit_tiers_inv) (use i3 len spans in auto)
  have eq: "fit_hard_marks x = fit_tiers limit ?p (sort_by span_less (fi_spans x)) s3"
    by (simp add: fit_hard_marks_def Let_def s3_def s2_def s1_def limit_def lb_def le_def)
  show "fit_inv raw limit (fit_hard_marks x)" unfolding eq using i4 by blast
  have "fit_grows s1 (fit_hard_marks x)" unfolding eq using i2 i3 i4 fit_grows_trans by blast
  then show "lb < le \<Longrightarrow> fit_grows (fit_live limit lb le (fi_recent x) ?s0) (fit_hard_marks x)"
    by (simp add: s1_def)
qed

section \<open>Properties\<close>

text \<open>The blocks of a fitted request, in order, within the budget.\<close>

lemma fit_budget_facts:
  assumes "0 < fi_prompt x" and "0 < fi_budget x"
  shows "let r = fit_mandatory_blocks x in
    sorted (fr_hard r) \<and> distinct (fr_hard r) \<and>
    set (fr_hard r) \<subseteq> {i. i < fi_prompt x \<and> fit_raw_marks x ! i} \<and>
    length (fr_hard r) \<le> (if fr_fitted r then fi_budget x - fi_budget x div 8 else fi_budget x) \<and>
    length (fr_hard r) + fr_soft r = fr_raw_mandatory r \<and>
    fr_raw_mandatory r = card {i. i < fi_prompt x \<and> fit_raw_marks x ! i} \<and>
    (fr_fitted r \<longleftrightarrow> fi_budget x < fr_raw_mandatory r)"
proof -
  let ?raw = "fit_raw_marks x"
  have ids: "sorted (marked_ids ?raw)" "distinct (marked_ids ?raw)"
    "set (marked_ids ?raw) = {i. i < fi_prompt x \<and> ?raw ! i}"
    "length (marked_ids ?raw) = card {i. i < fi_prompt x \<and> ?raw ! i}"
    using marked_ids_facts [of ?raw] length_marked_ids [of ?raw] by simp_all
  show ?thesis
  proof (cases "length (marked_ids ?raw) \<le> fi_budget x")
    case True
    then show ?thesis using assms ids
      by (simp add: fit_mandatory_blocks_def Let_def fit_result_empty_def)
  next
    case False
    obtain hard c where h: "fit_hard_marks x = (hard, c)" by (cases "fit_hard_marks x")
    have inv: "length hard = fi_prompt x" "c = length (marked_ids hard)" "c \<le> fi_budget x - fi_budget x div 8"
      "\<forall>i < fi_prompt x. hard ! i \<longrightarrow> ?raw ! i"
      using fit_hard_marks_inv(1) [of x] h by (simp_all add: fit_inv_def)
    have hids: "sorted (marked_ids hard)" "distinct (marked_ids hard)"
      "set (marked_ids hard) = {i. i < fi_prompt x \<and> hard ! i}"
      using marked_ids_facts [of hard] inv(1) by simp_all
    have "c \<le> length (marked_ids ?raw)" using inv(3) False by simp
    then show ?thesis using assms False h inv hids ids(4)
      by (auto simp: fit_mandatory_blocks_def Let_def fit_result_empty_def)
  qed
qed

lemma fit_all_hard: "0 < fi_prompt x \<Longrightarrow> 0 < fi_budget x \<Longrightarrow> \<not> fr_fitted (fit_mandatory_blocks x) \<Longrightarrow>
    set (fr_hard (fit_mandatory_blocks x)) = {i. i < fi_prompt x \<and> fit_raw_marks x ! i} \<and>
    (fi_live_begin x < min (fi_live_end x) (fi_prompt x) \<longrightarrow> fr_replay_begin (fit_mandatory_blocks x) = fi_live_begin x)"
  using marked_ids_facts [of "fit_raw_marks x"]
  by (auto simp: fit_mandatory_blocks_def Let_def fit_result_empty_def split: if_splits prod.splits)

lemma fit_replay_hard:
  assumes "0 < fi_prompt x" "fr_fitted (fit_mandatory_blocks x)" "fi_live_begin x < min (fi_live_end x) (fi_prompt x)"
  shows "fi_live_begin x \<le> fr_replay_begin (fit_mandatory_blocks x)"
    "fr_replay_begin (fit_mandatory_blocks x) \<le> fi_prompt x"
    "{fr_replay_begin (fit_mandatory_blocks x)..<min (fi_live_end x) (fi_prompt x)} \<subseteq> set (fr_hard (fit_mandatory_blocks x))"
proof -
  obtain hard c where h: "fit_hard_marks x = (hard, c)" by (cases "fit_hard_marks x")
  have len: "length hard = fi_prompt x" using fit_hard_marks_inv(1) [of x] h by (simp add: fit_inv_def)
  have r: "fr_replay_begin (fit_mandatory_blocks x) = replay_from hard (fi_live_begin x) (min (fi_live_end x) (fi_prompt x))"
    "fr_hard (fit_mandatory_blocks x) = marked_ids hard"
    using assms h by (auto simp: fit_mandatory_blocks_def Let_def fit_result_empty_def split: if_splits)
  have "fi_live_begin x \<le> min (fi_live_end x) (fi_prompt x)" using assms(3) by simp
  note R = replay_from_facts [OF this, of hard]
  show "fi_live_begin x \<le> fr_replay_begin (fit_mandatory_blocks x)" using R r by simp
  show "fr_replay_begin (fit_mandatory_blocks x) \<le> fi_prompt x" using R r by simp
  show "{fr_replay_begin (fit_mandatory_blocks x)..<min (fi_live_end x) (fi_prompt x)} \<subseteq> set (fr_hard (fit_mandatory_blocks x))"
    using R r len by (auto simp: marked_ids_facts(3))
qed

text \<open> Claim C30. Fitting never overfills the window and drops nothing silently: the hard blocks are
  distinct prompt blocks in order, each one mandatory, at most the budget in number - seven eighths
  of it, rounded up, when the request had to be fitted - and every mandatory block that is not hard
  is counted as softly retrievable.\<close>

theorem fit_within_budget:
  assumes "0 < fi_prompt x" and "0 < fi_budget x"
  shows "let r = fit_mandatory_blocks x in
    sorted (fr_hard r) \<and> distinct (fr_hard r) \<and>
    set (fr_hard r) \<subseteq> {i. i < fi_prompt x \<and> fit_raw_marks x ! i} \<and>
    length (fr_hard r) \<le> (if fr_fitted r then fi_budget x - fi_budget x div 8 else fi_budget x) \<and>
    length (fr_hard r) + fr_soft r = fr_raw_mandatory r \<and>
    fr_raw_mandatory r = card {i. i < fi_prompt x \<and> fit_raw_marks x ! i} \<and>
    (fr_fitted r \<longleftrightarrow> fi_budget x < fr_raw_mandatory r)"
  using assms by (rule fit_budget_facts)

text \<open>A prompt of 40 blocks with a long live tool body and one policy span, and a window of 16.\<close>

definition ex_fit :: fit_input where
  "ex_fit = \<lparr>fi_prompt = 40, fi_budget = 16, fi_sink = 2, fi_recent = 4,
     fi_spans = [\<lparr>bs_begin = 4, bs_end = 8, bs_priority = 1\<rparr>], fi_live_begin = 10, fi_live_end = 40\<rparr>"

theorem fit_within_budget_witness:
  "length (fr_hard (fit_mandatory_blocks ex_fit)) + fr_soft (fit_mandatory_blocks ex_fit) =
     fr_raw_mandatory (fit_mandatory_blocks ex_fit)"
proof -
  have "0 < fi_prompt ex_fit" "0 < fi_budget ex_fit" by (simp_all add: ex_fit_def)
  from fit_within_budget [OF this] show ?thesis by (simp add: Let_def)
qed

text \<open> When a request with a live range has to be fitted and the newest blocks of that range
  fit the hard limit, they are all kept hard, and the replay begins at a maximal hard suffix of the
  live range that includes them: every block from there to the end of the range is hard.\<close>

theorem fit_keeps_live_tail:
  assumes "0 < fi_prompt x" and "fr_fitted (fit_mandatory_blocks x)"
    and "lb = min (fi_live_begin x) (fi_prompt x)" and "le = min (fi_live_end x) (fi_prompt x)" and "lb < le"
    and "tail = min (le - lb) (max 8 (fi_recent x))" and "tail \<le> fi_budget x - fi_budget x div 8"
  shows "let r = fit_mandatory_blocks x in {le - tail..<le} \<subseteq> set (fr_hard r) \<and>
    lb \<le> fr_replay_begin r \<and> fr_replay_begin r \<le> le - tail \<and> {fr_replay_begin r..<le} \<subseteq> set (fr_hard r) \<and>
    (lb < fr_replay_begin r \<longrightarrow> fr_replay_begin r - 1 \<notin> set (fr_hard r))"
proof -
  let ?limit = "fi_budget x - fi_budget x div 8"
  let ?s0 = "(replicate (fi_prompt x) False, 0) :: fit_state"
  have big: "\<not> length (marked_ids (fit_raw_marks x)) \<le> fi_budget x" "fi_budget x \<noteq> 0"
    using assms(2) by (auto simp: fit_mandatory_blocks_def Let_def fit_result_empty_def split: if_splits)
  obtain hard c where h: "fit_hard_marks x = (hard, c)" by (cases "fit_hard_marks x")
  have len: "length hard = fi_prompt x"
    using fit_hard_marks_inv(1) [of x] h by (simp add: fit_inv_def)
  have le: "le \<le> fi_prompt x" using assms(4) by simp
  have live: "fit_raw_marks x ! i" if "lb \<le> i" "i < le" for i
  proof -
    have "i < fi_prompt x" "fi_live_begin x \<le> i" "i < fi_live_end x" using that assms(3,4) by auto
    then show ?thesis using fit_raw_marks_nth [of i x] by simp
  qed
  have i0: "fit_inv (fit_raw_marks x) ?limit ?s0" using fit_start_inv [of "fit_raw_marks x"] by simp
  have g: "fit_grows (fit_live ?limit lb le (fi_recent x) ?s0) (hard, c)"
    using fit_hard_marks_inv(2) [of x, folded assms(3,4)] h assms(5) by simp
  have hard_tail: "hard ! i" if "le - tail \<le> i" "i < le" for i
  proof -
    have "fst (fit_live ?limit lb le (fi_recent x) ?s0) ! i"
      using fit_live_inv(2) [OF i0 _ live assms(5), of "fi_recent x" i] that assms(6,7) le by simp
    moreover have "length (fst (fit_live ?limit lb le (fi_recent x) ?s0)) = fi_prompt x"
      using fit_live_inv(1) [OF i0 _ live assms(5), of "fi_recent x"] le by (simp add: fit_inv_def)
    ultimately show ?thesis using g that(2) le by (simp add: fit_grows_def)
  qed
  have R: "lb \<le> replay_from hard lb le" "replay_from hard lb le \<le> le"
    "\<forall>i. replay_from hard lb le \<le> i \<and> i < le \<longrightarrow> hard ! i"
    "lb < replay_from hard lb le \<longrightarrow> \<not> hard ! (replay_from hard lb le - 1)"
    using replay_from_facts [of lb le hard] assms(5) by auto
  have tl: "tail \<le> le - lb" using assms(6) by simp
  have "replay_from hard lb le \<le> le - tail"
  proof (rule ccontr)
    assume c: "\<not> replay_from hard lb le \<le> le - tail"
    have "le - tail \<le> replay_from hard lb le - 1" "replay_from hard lb le - 1 < le" using c R(2) by auto
    then have "hard ! (replay_from hard lb le - 1)" by (rule hard_tail)
    moreover have "lb < replay_from hard lb le" using c tl assms(5) by linarith
    ultimately show False using R(4) by blast
  qed
  moreover have "fit_mandatory_blocks x = fit_result_empty\<lparr>fr_raw_live := le - lb,
      fr_raw_mandatory := length (marked_ids (fit_raw_marks x)), fr_fitted := True,
      fr_reserve := fi_budget x div 8, fr_hard := marked_ids hard,
      fr_fitted_live := length (filter (\<lambda>i. hard ! i) [lb..<le]),
      fr_replay_begin := replay_from hard lb le,
      fr_soft := (if c < length (marked_ids (fit_raw_marks x)) then length (marked_ids (fit_raw_marks x)) - c else 0)\<rparr>"
    using big assms(1,3-5) h by (simp add: fit_mandatory_blocks_def Let_def)
  moreover have "set (marked_ids hard) = {i. i < fi_prompt x \<and> hard ! i}"
    using marked_ids_facts(3) [of hard] len by simp
  ultimately show ?thesis using R hard_tail le by (auto simp: Let_def)
qed

lemma ex_fit_fitted: "fr_fitted (fit_mandatory_blocks ex_fit)"
proof -
  have "{10..<40} \<subseteq> {i. i < fi_prompt ex_fit \<and> fit_raw_marks ex_fit ! i}"
    using fit_raw_marks_nth [of _ ex_fit] by (auto simp: ex_fit_def)
  then have "card {10..<40 :: nat} \<le> card {i. i < fi_prompt ex_fit \<and> fit_raw_marks ex_fit ! i}"
    by (intro card_mono) auto
  then have "fi_budget ex_fit < length (marked_ids (fit_raw_marks ex_fit))"
    using length_marked_ids [of "fit_raw_marks ex_fit"] by (simp add: ex_fit_def)
  then show ?thesis by (auto simp: fit_mandatory_blocks_def Let_def fit_result_empty_def ex_fit_def split: prod.splits)
qed

theorem fit_keeps_live_tail_witness:
  "{32..<40} \<subseteq> set (fr_hard (fit_mandatory_blocks ex_fit)) \<and> fr_replay_begin (fit_mandatory_blocks ex_fit) \<le> 32"
proof -
  have "0 < fi_prompt ex_fit" by (simp add: ex_fit_def)
  from fit_keeps_live_tail [OF this ex_fit_fitted refl refl _ refl] show ?thesis
    by (simp add: ex_fit_def Let_def)
qed

text \<open> Admission is decided before execution: an enabled request is rejected exactly when its
  window cannot hold one block, its prompt does not fit the context, or its mandatory blocks exceed
  the window; otherwise a prompt within the budget is appended densely and only a larger one can
  reselect, keep its selection or prefill under pressure.\<close>

theorem draft_plan_decision:
  assumes "pi_enabled x"
  shows "(rp_action (draft_request_plan x) = RejectBeforeExecution \<longleftrightarrow>
      pi_block_tokens x = 0 \<or> pi_selection_budget x < pi_block_tokens x \<or>
      0 < pi_context_limit x \<and> pi_context_limit x \<le> pi_logical_prompt x \<or>
      pi_selection_budget x div pi_block_tokens x < pi_mandatory x) \<and>
    (rp_action (draft_request_plan x) = DenseAppend \<longrightarrow> pi_logical_prompt x \<le> pi_selection_budget x) \<and>
    (rp_action (draft_request_plan x) \<notin> {RejectBeforeExecution, DenseAppend} \<longrightarrow>
      rp_above_budget (draft_request_plan x) \<and> pi_selection_budget x < pi_logical_prompt x) \<and>
    rp_semantic_action (draft_request_plan x) = rp_action (draft_request_plan x) \<and>
    (rp_finalized (draft_request_plan x) \<longleftrightarrow> rp_action (draft_request_plan x) = RejectBeforeExecution)"
  using assms by (auto simp: draft_request_plan_def draft_reject_def plan_of_input_def Let_def)

definition ex_plan_input :: plan_input where
  "ex_plan_input = \<lparr>pi_enabled = True, pi_reselect = False, pi_private_query = False, pi_keep_selected = True,
     pi_logical_prompt = 5000, pi_request_prompt = 5000, pi_context_limit = 100000,
     pi_selection_budget = 4096, pi_generation_budget = 1024, pi_refresh_trigger = 900,
     pi_requested_output = 100, pi_block_tokens = 32, pi_raw_mandatory = 10, pi_mandatory = 10,
     pi_raw_live_suffix = 0, pi_live_suffix = 0, pi_soft_retrievable = 0, pi_sink = 2,
     pi_retrieval_reserve = 0, pi_capacity_fitted = False, pi_pressure_ingest = False\<rparr>"

theorem draft_plan_decision_witness:
  "rp_action (draft_request_plan ex_plan_input) = KeepSelectedAppend \<and> rp_above_budget (draft_request_plan ex_plan_input)"
  using draft_plan_decision [of ex_plan_input]
  by (simp add: ex_plan_input_def draft_request_plan_def draft_reject_def plan_of_input_def Let_def)

lemma draft_request_plan_shape:
  assumes "pi_enabled x"
  shows "rp_enabled (draft_request_plan x)"
    and "rp_finalized (draft_request_plan x) \<longleftrightarrow> rp_action (draft_request_plan x) = RejectBeforeExecution"
    and "rp_action (draft_request_plan x) \<noteq> ResumeMThenAppend"
    and "rp_action (draft_request_plan x) \<noteq> ResumePThenReplayTail"
  using assms by (auto simp: draft_request_plan_def plan_of_input_def Let_def)

lemma finalize_finalized: "rp_finalized p \<Longrightarrow> finalize_request_plan p c = p"
  by (simp add: finalize_request_plan_def)

lemma finalize_open_plan:
  assumes "rp_enabled p" and "\<not> rp_finalized p" and "rp_action p \<noteq> RejectBeforeExecution"
    and "rp_action p \<noteq> ResumeMThenAppend" and "rp_action p \<noteq> ResumePThenReplayTail"
  shows "rp_finalized (finalize_request_plan p c) \<and>
    rp_semantic_action (finalize_request_plan p c) = rp_semantic_action p \<and>
    rp_action (finalize_request_plan p c) \<noteq> KeepSelectedAppend \<and>
    (rp_action p = KeepSelectedAppend \<and> \<not> rp_checkpoint_available (finalize_request_plan p c) \<longrightarrow>
      rp_action (finalize_request_plan p c) = PressurePrefill \<and>
      rp_pressure_ingest (finalize_request_plan p c) \<and> rp_resume_position (finalize_request_plan p c) = 0) \<and>
    (rp_action (finalize_request_plan p c) = ResumeMThenAppend \<or>
     rp_action (finalize_request_plan p c) = ResumePThenReplayTail \<longrightarrow>
      rp_checkpoint_available (finalize_request_plan p c) \<and>
      rp_resume_position (finalize_request_plan p c) \<le> rp_common_prefix (finalize_request_plan p c) \<and>
      rp_resume_position (finalize_request_plan p c) + rp_incremental_suffix (finalize_request_plan p c) =
        rp_request_prompt p \<and>
      (rp_above_budget p \<and> 0 < rp_generation_budget p \<longrightarrow>
        rp_incremental_suffix (finalize_request_plan p c) \<le> rp_generation_budget p))"
proof (cases "checkpoint_consistent p c")
  case True
  then have "ci_resume c \<le> rp_request_prompt p" "ci_resume c \<le> ci_common_prefix c"
    by (simp_all add: checkpoint_consistent_def)
  then show ?thesis using assms True
    by (cases "rp_above_budget p \<and> 0 < rp_generation_budget p \<and>
        rp_generation_budget p < rp_request_prompt p - ci_resume c"; cases "rp_action p")
      (auto simp: finalize_request_plan_def Let_def)
next
  case False
  then show ?thesis using assms by (cases "rp_action p") (simp_all add: finalize_request_plan_def Let_def)
qed

text \<open> Finalisation never lets a request run on as a kept selection without a consistent
  checkpoint, never appends more than the generation budget to a restored oversized epoch, keeps the
  drafted semantic action, only claims a resume position the checkpoint and the prompt cover, and is
  idempotent.\<close>

theorem finalize_plan_safe:
  assumes "p = draft_request_plan x" and "pi_enabled x"
  shows "let q = finalize_request_plan p c in
    rp_finalized q \<and> rp_semantic_action q = rp_semantic_action p \<and>
    rp_action q \<noteq> KeepSelectedAppend \<and>
    (rp_action p = KeepSelectedAppend \<and> \<not> rp_checkpoint_available q \<longrightarrow>
      rp_action q = PressurePrefill \<and> rp_pressure_ingest q \<and> rp_resume_position q = 0) \<and>
    (rp_action q \<in> {ResumeMThenAppend, ResumePThenReplayTail} \<longrightarrow>
      rp_checkpoint_available q \<and> rp_resume_position q \<le> rp_common_prefix q \<and>
      rp_resume_position q + rp_incremental_suffix q = rp_request_prompt p \<and>
      (rp_above_budget p \<and> 0 < rp_generation_budget p \<longrightarrow> rp_incremental_suffix q \<le> rp_generation_budget p)) \<and>
    finalize_request_plan q c' = q"
proof -
  note D = draft_request_plan_shape [OF assms(2), folded assms(1)]
  show ?thesis
  proof (cases "rp_finalized p")
    case True
    then show ?thesis using D by (auto simp: Let_def finalize_request_plan_def)
  next
    case False
    then have e: "rp_enabled p" "rp_action p \<noteq> RejectBeforeExecution" "rp_action p \<noteq> ResumeMThenAppend"
      "rp_action p \<noteq> ResumePThenReplayTail" using D by auto
    note F = finalize_open_plan [OF e(1) False e(2-4), of c]
    have "finalize_request_plan (finalize_request_plan p c) c' = finalize_request_plan p c"
      using F by (intro finalize_finalized) blast
    then show ?thesis unfolding Let_def insert_iff empty_iff simp_thms using F by argo
  qed
qed

theorem finalize_plan_safe_witness:
  "rp_action (finalize_request_plan (draft_request_plan ex_plan_input)
      \<lparr>ci_warm = True, ci_resume = 4900, ci_prompt_checkpoint = False, ci_common_prefix = 4950\<rparr>) \<noteq> KeepSelectedAppend"
proof -
  have "pi_enabled ex_plan_input" by (simp add: ex_plan_input_def)
  then show ?thesis by (rule conjunct1 [OF conjunct2 [OF conjunct2 [OF finalize_plan_safe [OF refl, unfolded Let_def]]]])
qed

end
