(* ===== verification/Refresh_Policy.thy ===== *)
theory Refresh_Policy
  imports Prelude
begin

text \<open>
  The refresh policy (\<open>src/src/kvmem_refresh_policy.hpp\<close>): when a decode epoch must be refreshed, how
  far speculation may run ahead, what a harness turn does to the selection, where a generated text may
  be cut, and how much of the live tail is pinned. All of it is pure arithmetic on token counts and
  scanning of text (byte strings as lists of characters).
\<close>

section \<open>Epochs and triggers\<close>

definition rope_batch_within_limit :: "nat \<Rightarrow> nat \<Rightarrow> nat \<Rightarrow> int list option \<Rightarrow> bool" where
  "rope_batch_within_limit scalar_base tokens limit mrope =
     (if limit = 0 then True
      else case mrope of
        None \<Rightarrow> scalar_base \<le> limit \<and> tokens \<le> limit - scalar_base
      | Some ps \<Rightarrow> if length ps \<noteq> tokens * 3 then False
          else list_all (\<lambda>p. 0 \<le> p \<and> nat p < limit) ps)"

definition refresh_due :: "nat \<Rightarrow> nat \<Rightarrow> nat \<Rightarrow> nat \<Rightarrow> nat \<Rightarrow> bool" where
  "refresh_due decoded epoch_begin trigger refreshes max_refreshes \<longleftrightarrow>
     0 < trigger \<and> 0 < max_refreshes \<and> refreshes < max_refreshes \<and> epoch_begin \<le> decoded \<and>
     trigger \<le> decoded - epoch_begin"

definition trigger_for_epoch :: "nat \<Rightarrow> nat \<Rightarrow> nat \<Rightarrow> nat" where
  "trigger_for_epoch first_trigger steady_trigger completed =
     (if 0 < completed \<and> 0 < steady_trigger then steady_trigger else first_trigger)"

definition draft_limit :: "nat \<Rightarrow> nat \<Rightarrow> nat \<Rightarrow> nat \<Rightarrow> nat \<Rightarrow> nat \<Rightarrow> nat" where
  "draft_limit requested decoded epoch_begin trigger refreshes max_refreshes =
     (if trigger = 0 \<or> max_refreshes = 0 \<or> max_refreshes \<le> refreshes then requested
      else if decoded < epoch_begin then 0
      else let elapsed = decoded - epoch_begin in
        if trigger \<le> elapsed then 0 else min requested (trigger - elapsed - 1))"

definition mtp_compact_output_horizon :: "nat \<Rightarrow> nat \<Rightarrow> nat \<Rightarrow> nat \<Rightarrow> nat \<Rightarrow> nat" where
  "mtp_compact_output_horizon request_max first_limit steady_limit trigger max_refreshes =
     (if request_max = 0 \<or> trigger = 0 \<or> max_refreshes = 0 \<or> first_limit = 0 \<or> steady_limit = 0
      then request_max else min request_max (max first_limit steady_limit))"

definition guided_query_complete :: "nat \<Rightarrow> nat \<Rightarrow> bool \<Rightarrow> bool" where
  "guided_query_complete query_tokens max_tokens natural \<longleftrightarrow> 0 < query_tokens \<and> 0 < max_tokens \<and> natural"

section \<open>Harness turns\<close>

record cross_turn =
  ct_reset :: bool
  ct_due :: bool
  ct_delta :: nat

datatype refresh_reason = NoReason | ExplicitForce | ColdAboveBudget | NewUserQuery
  | InitialHeadroom | CrossTurnGrowth | EvidenceChanged

definition refresh_reason_name :: "refresh_reason \<Rightarrow> string" where
  "refresh_reason_name r = (case r of NoReason \<Rightarrow> ''none'' | ExplicitForce \<Rightarrow> ''explicit-force''
    | ColdAboveBudget \<Rightarrow> ''cold-above-budget'' | NewUserQuery \<Rightarrow> ''new-user-query''
    | InitialHeadroom \<Rightarrow> ''initial-headroom'' | CrossTurnGrowth \<Rightarrow> ''cross-turn-growth''
    | EvidenceChanged \<Rightarrow> ''evidence-changed'')"

record harness_input =
  hi_known :: bool
  hi_same_query :: bool
  hi_selection_started :: bool
  hi_incoming_reselect :: bool
  hi_force :: bool
  hi_reset :: bool
  hi_prompt :: nat
  hi_budget :: nat
  hi_trigger :: nat
  hi_cross_turn :: cross_turn
  hi_evidence_changed :: bool

record harness_decision =
  hd_reselect :: bool
  hd_private_query :: bool
  hd_grace :: bool
  hd_initial_grace :: bool
  hd_tokens_until_refresh :: nat
  hd_reason :: refresh_reason

definition no_decision :: harness_decision where
  "no_decision = \<lparr>hd_reselect = False, hd_private_query = False, hd_grace = False,
     hd_initial_grace = False, hd_tokens_until_refresh = 0, hd_reason = NoReason\<rparr>"

definition saturating_add_u64 :: "nat \<Rightarrow> nat \<Rightarrow> nat" where
  "saturating_add_u64 lhs rhs = (if UINT64_MAX - lhs < rhs then UINT64_MAX else lhs + rhs)"

text \<open>The 32-bit sum of the source wraps before the division.\<close>

definition prefill_chunk_pages :: "nat \<Rightarrow> nat \<Rightarrow> nat" where
  "prefill_chunk_pages chunk_tokens page_tokens =
     (if chunk_tokens = 0 \<or> page_tokens = 0 then 0
      else u32 (u32 (chunk_tokens + page_tokens) + 4294967295) div page_tokens)"

definition prefill_chunk_fits :: "nat \<Rightarrow> nat \<Rightarrow> nat \<Rightarrow> bool" where
  "prefill_chunk_fits free_pages chunk_tokens page_tokens \<longleftrightarrow>
     prefill_chunk_pages chunk_tokens page_tokens \<le> free_pages"

definition initial_headroom_target :: "nat \<Rightarrow> nat \<Rightarrow> nat" where
  "initial_headroom_target budget trigger = saturating_add_u64 budget trigger"

definition private_refresh_requires_pressure :: "bool \<Rightarrow> bool \<Rightarrow> nat \<Rightarrow> nat \<Rightarrow> nat \<Rightarrow> nat \<Rightarrow> bool" where
  "private_refresh_requires_pressure private_refresh selection_started delta prompt budget generation =
     (if \<not> private_refresh \<or> generation = 0 then False
      else generation \<le> (if selection_started then delta else if budget < prompt then prompt - budget else 0))"

definition checkpoint_pressure_allowed :: "bool \<Rightarrow> bool" where
  "checkpoint_pressure_allowed keep_selected \<longleftrightarrow> \<not> keep_selected"

definition refresh_prefill_keeps_epoch :: "bool \<Rightarrow> bool \<Rightarrow> bool" where
  "refresh_prefill_keeps_epoch grace private_guided \<longleftrightarrow> grace \<or> private_guided"

definition harness_refresh_decision :: "harness_input \<Rightarrow> bool \<Rightarrow> harness_decision" where
  "harness_refresh_decision x guided =
     (if hi_force x then no_decision\<lparr>hd_reselect := True, hd_reason := ExplicitForce\<rparr>
      else if hi_budget x = 0 \<or> hi_prompt x \<le> hi_budget x then no_decision
      else if \<not> hi_known x \<or> hi_reset x then
        (if hi_incoming_reselect x then no_decision\<lparr>hd_reselect := True, hd_reason := ColdAboveBudget\<rparr>
         else no_decision)
      else if \<not> hi_same_query x then no_decision\<lparr>hd_reselect := True, hd_reason := NewUserQuery\<rparr>
      else if hi_evidence_changed x then
        no_decision\<lparr>hd_reselect := True, hd_private_query := guided, hd_reason := EvidenceChanged\<rparr>
      else if \<not> guided then no_decision
      else if \<not> hi_selection_started x then
        (let target = initial_headroom_target (hi_budget x) (hi_trigger x) in
         if hi_trigger x = 0 \<or> target \<le> hi_prompt x then
           no_decision\<lparr>hd_reselect := True, hd_private_query := (hi_trigger x \<noteq> 0), hd_reason := InitialHeadroom\<rparr>
         else no_decision\<lparr>hd_grace := True, hd_initial_grace := True,
                hd_tokens_until_refresh := target - hi_prompt x\<rparr>)
      else if ct_due (hi_cross_turn x) then
        no_decision\<lparr>hd_reselect := True, hd_private_query := True, hd_reason := CrossTurnGrowth\<rparr>
      else if 0 < hi_trigger x \<and> ct_delta (hi_cross_turn x) < hi_trigger x then
        no_decision\<lparr>hd_grace := True, hd_tokens_until_refresh := hi_trigger x - ct_delta (hi_cross_turn x)\<rparr>
      else no_decision)"

definition harness_turn_gate :: "bool \<Rightarrow> bool \<Rightarrow> bool \<Rightarrow> cross_turn \<Rightarrow> bool \<times> bool" where
  "harness_turn_gate known_task incoming force ct =
     (if force then (True, False)
      else if \<not> known_task then (incoming, False)
      else if ct_due ct then (True, True) else (False, False))"

definition prompt_trajectory_reset :: "nat \<Rightarrow> nat \<Rightarrow> bool" where
  "prompt_trajectory_reset prompt last_seen =
     (if last_seen = 0 \<or> last_seen \<le> prompt then False
      else max 1024 (last_seen div 100) < last_seen - prompt)"

definition cross_turn_refresh_decision :: "nat \<Rightarrow> nat \<Rightarrow> nat \<Rightarrow> nat \<Rightarrow> cross_turn" where
  "cross_turn_refresh_decision prompt last_seen last_refresh trigger =
     (let reset = prompt_trajectory_reset prompt last_seen in
      if reset \<or> last_refresh = 0 \<or> prompt < last_refresh
      then \<lparr>ct_reset = reset, ct_due = False, ct_delta = 0\<rparr>
      else \<lparr>ct_reset = reset, ct_due = (0 < trigger \<and> trigger \<le> prompt - last_refresh),
             ct_delta = prompt - last_refresh\<rparr>)"

section \<open>Safe text boundaries\<close>

definition occurs_at :: "string \<Rightarrow> string \<Rightarrow> nat \<Rightarrow> bool" where
  "occurs_at text pat i \<longleftrightarrow> i + length pat \<le> length text \<and> take (length pat) (drop i text) = pat"

text \<open>\<open>rfind\<close>; \<open>None\<close> is \<open>npos\<close>.\<close>

definition rfind :: "string \<Rightarrow> string \<Rightarrow> nat option" where
  "rfind text pat = (case filter (occurs_at text pat) [0..<Suc (length text)] of
      [] \<Rightarrow> None | is \<Rightarrow> Some (last is))"

definition has_unclosed_marker :: "string \<Rightarrow> string \<Rightarrow> string \<Rightarrow> bool" where
  "has_unclosed_marker text open close = (case rfind text open of
      None \<Rightarrow> False
    | Some open_pos \<Rightarrow> (case rfind text close of None \<Rightarrow> True | Some close_pos \<Rightarrow> close_pos < open_pos))"

definition ends_with_partial_marker :: "string \<Rightarrow> string \<Rightarrow> bool" where
  "ends_with_partial_marker text marker =
     list_ex (\<lambda>n. drop (length text - n) text = take n marker)
       [1..<Suc (min (length text) (length marker - 1))]"

text \<open>The non-overlapping fences the \<open>find\<close> loop counts.\<close>

fun count_fences :: "string \<Rightarrow> nat" where
  "count_fences [] = 0"
| "count_fences (c # cs) =
     (if take 3 (c # cs) = ''```'' then Suc (count_fences (drop 2 cs)) else count_fences cs)"

definition ends_with :: "string \<Rightarrow> string \<Rightarrow> bool" where
  "ends_with text suf \<longleftrightarrow> length suf \<le> length text \<and> drop (length text - length suf) text = suf"

definition strip_blank :: "string \<Rightarrow> string" where
  "strip_blank text = rev (dropWhile (\<lambda>c. c = CHR '' '' \<or> c = CHR 0x09 \<or> c = CHR 0x0D) (rev text))"

definition tool_open :: string where "tool_open = ''<tool_call>''"
definition tool_close :: string where "tool_close = ''</tool_call>''"
definition fn_open :: string where "fn_open = ''<function=''"
definition fn_close :: string where "fn_close = ''</function>''"
definition fence :: string where "fence = ''```''"

definition text_safe :: "string \<Rightarrow> bool" where
  "text_safe generated =
     (if generated = [] then False
      else if list_ex (ends_with_partial_marker generated) [tool_open, tool_close, fn_open, fn_close, fence]
      then False
      else if has_unclosed_marker generated tool_open tool_close then False
      else if has_unclosed_marker generated fn_open fn_close then False
      else if odd (count_fences generated) then False
      else if ends_with generated tool_close \<or> ends_with generated fence then True
      else let g = strip_blank generated in
        if g = [] then False
        else if last g = CHR 0x0A then True
        else if last g \<in> {CHR ''.'', CHR ''!'', CHR ''?'', CHR '';'', CHR '':''} then True
        else ends_with g [CHR 0xE3, CHR 0x80, CHR 0x82] \<or> ends_with g [CHR 0xEF, CHR 0xBC, CHR 0x81] \<or>
             ends_with g [CHR 0xEF, CHR 0xBC, CHR 0x9F])"

section \<open>The live tail\<close>

definition recent_tokens :: "nat \<Rightarrow> nat" where
  "recent_tokens select_budget = min 16384 (max 4096 (select_budget div 8))"

definition emergency_refresh_due :: "nat \<Rightarrow> nat \<Rightarrow> nat \<Rightarrow> bool" where
  "emergency_refresh_due epoch_tokens epoch_limit guard =
     (if epoch_limit = 0 then False
      else epoch_limit \<le> epoch_tokens \<or> epoch_limit - epoch_tokens \<le> guard)"

definition generate_private_query :: "bool \<Rightarrow> bool" where
  "generate_private_query emergency \<longleftrightarrow> \<not> emergency"

definition refresh_recent_tokens :: "nat \<Rightarrow> nat \<Rightarrow> bool \<Rightarrow> nat" where
  "refresh_recent_tokens select_budget epoch_tokens emergency =
     (if emergency then max (recent_tokens select_budget) epoch_tokens else recent_tokens select_budget)"

definition pin_from_block :: "nat \<Rightarrow> nat \<Rightarrow> nat \<Rightarrow> nat" where
  "pin_from_block committed select_budget block_tokens =
     (let bt = max 1 block_tokens; keep = recent_tokens select_budget in
      (if keep < committed then committed - keep else 0) div bt)"

definition mark_ids :: "nat \<Rightarrow> nat list \<Rightarrow> bool list" where
  "mark_ids n ids = foldl (\<lambda>m k. if k < n then m[k := True] else m) (replicate n False) ids"

function shrink_tail :: "bool list \<Rightarrow> nat \<Rightarrow> nat \<Rightarrow> nat \<Rightarrow> nat \<Rightarrow> nat" where
  "shrink_tail mandatory n budget first total_blocks =
     (if first < n \<and> budget < total_blocks
      then shrink_tail mandatory n budget (Suc first) (total_blocks - (if mandatory ! first then 0 else 1))
      else first)"
  by auto
termination by (relation "measure (\<lambda>(_, n, _, first, _). n - first)") auto

declare shrink_tail.simps [simp del]

definition bounded_tail_pin_from_block :: "nat \<Rightarrow> nat \<Rightarrow> nat \<Rightarrow> nat list \<Rightarrow> nat" where
  "bounded_tail_pin_from_block block_count budget desired ids =
     (if block_count = 0 \<or> budget = 0 then UINT32_MAX
      else let mandatory = mark_ids block_count ids; m = length (filter id mandatory) in
        if budget < m then UINT32_MAX
        else let first = block_count - min desired block_count;
                 total_blocks = m + length (filter (\<lambda>i. \<not> mandatory ! i) [first..<block_count]);
                 pin = shrink_tail mandatory block_count budget first total_blocks in
          if pin = block_count then UINT32_MAX else pin)"

section \<open>Properties\<close>

text \<open>
  Decoding with speculation: each cycle asks for \<open>requested\<close> drafts, gets at most the limit, accepts
  some of them and emits one token more; decoding stops as soon as a refresh is due.
\<close>

fun spec_decode :: "nat \<Rightarrow> nat \<Rightarrow> nat \<Rightarrow> nat \<Rightarrow> (nat \<times> nat) list \<Rightarrow> nat \<Rightarrow> nat" where
  "spec_decode epoch_begin trigger refreshes max_refreshes [] decoded = decoded"
| "spec_decode epoch_begin trigger refreshes max_refreshes ((requested, accepted) # cycles) decoded =
     (if refresh_due decoded epoch_begin trigger refreshes max_refreshes then decoded
      else spec_decode epoch_begin trigger refreshes max_refreshes cycles
        (decoded + min accepted (draft_limit requested decoded epoch_begin trigger refreshes max_refreshes) + 1))"

text \<open> Claim C31. Speculative decoding never runs past a refresh threshold: while refreshes remain, any
  sequence of speculative cycles of an epoch stops at or before the position where a serial decoder
  would refresh, and it stops early only if the cycles ran out.\<close>

theorem speculation_never_overshoots:
  assumes "0 < trigger" and "refreshes < max_refreshes" and "epoch_begin \<le> decoded"
    and "decoded \<le> epoch_begin + trigger"
  shows "let d = spec_decode epoch_begin trigger refreshes max_refreshes cycles decoded in
    d \<le> epoch_begin + trigger \<and> decoded \<le> d \<and>
    (trigger \<le> length cycles \<longrightarrow> refresh_due d epoch_begin trigger refreshes max_refreshes)"
proof -
  have "spec_decode epoch_begin trigger refreshes max_refreshes cycles decoded \<le> epoch_begin + trigger \<and>
    decoded \<le> spec_decode epoch_begin trigger refreshes max_refreshes cycles decoded \<and>
    (epoch_begin + trigger - decoded \<le> length cycles \<longrightarrow>
      refresh_due (spec_decode epoch_begin trigger refreshes max_refreshes cycles decoded)
        epoch_begin trigger refreshes max_refreshes)"
    using assms(3,4)
  proof (induction cycles arbitrary: decoded)
    case Nil
    then show ?case using assms(1,2) by (auto simp: refresh_due_def)
  next
    case (Cons c cycles)
    obtain rq ac where c: "c = (rq, ac)" by (cases c)
    show ?case
    proof (cases "refresh_due decoded epoch_begin trigger refreshes max_refreshes")
      case True
      then show ?thesis using Cons.prems c by simp
    next
      case False
      then have lt: "decoded - epoch_begin < trigger" using assms(1,2) Cons.prems by (auto simp: refresh_due_def)
      let ?d = "decoded + min ac (draft_limit rq decoded epoch_begin trigger refreshes max_refreshes) + 1"
      have "draft_limit rq decoded epoch_begin trigger refreshes max_refreshes \<le> trigger - (decoded - epoch_begin) - 1"
        using assms(1,2) Cons.prems lt by (auto simp: draft_limit_def Let_def)
      then have d: "epoch_begin \<le> ?d" "?d \<le> epoch_begin + trigger" using Cons.prems lt by linarith+
      have room: "epoch_begin + trigger - ?d \<le> length cycles" if "epoch_begin + trigger - decoded \<le> length (c # cycles)"
        using that by simp
      from Cons.IH [OF d] show ?thesis using False c room by auto
    qed
  qed
  moreover have "epoch_begin + trigger - decoded \<le> trigger" using assms(3) by simp
  ultimately show ?thesis unfolding Let_def by linarith
qed

theorem speculation_never_overshoots_witness:
  "spec_decode 100 10 0 4 [(6, 6), (6, 6), (6, 6)] 100 = 110"
proof -
  have "draft_limit 6 100 100 10 0 4 = 6" "draft_limit 6 107 100 10 0 4 = 2"
    by (simp_all add: draft_limit_def)
  then have "spec_decode 100 10 0 4 [(6, 6), (6, 6), (6, 6)] 100 = 110"
    by (simp add: refresh_due_def)
  then show ?thesis
    using speculation_never_overshoots [of 10 0 4 100 100 "[(6, 6), (6, 6), (6, 6)]"] by simp
qed

text \<open> The harness decision is coherent: it never both reselects and grants headroom grace, a
  private query is generated only for a reselection, a reselection always carries its reason and only
  an explicit force reselects a prompt within the budget; and a grace names exactly the tokens left
  to the threshold, so the mid-decode trigger fires at the same position a turn boundary would.\<close>

theorem harness_decision_coherent:
  assumes "d = harness_refresh_decision x guided"
    and "hi_cross_turn x = cross_turn_refresh_decision (hi_prompt x) last_seen last_refresh (hi_trigger x)"
    and "hi_budget x + hi_trigger x \<le> UINT64_MAX"
  shows "\<not> (hd_reselect d \<and> hd_grace d) \<and>
    (hd_private_query d \<longrightarrow> hd_reselect d \<and> guided) \<and>
    (hd_reselect d \<longleftrightarrow> hd_reason d \<noteq> NoReason) \<and>
    (hd_reselect d \<and> hi_prompt x \<le> hi_budget x \<longrightarrow> hd_reason d = ExplicitForce) \<and>
    (hd_grace d \<longleftrightarrow> 0 < hd_tokens_until_refresh d) \<and>
    (hd_grace d \<longrightarrow> guided \<and> hi_known x \<and> hi_same_query x \<and> hi_budget x < hi_prompt x) \<and>
    (hd_initial_grace d \<longrightarrow> hd_grace d \<and> hi_prompt x + hd_tokens_until_refresh d = hi_budget x + hi_trigger x) \<and>
    (hd_grace d \<and> \<not> hd_initial_grace d \<and> 0 < last_refresh \<and> last_refresh \<le> hi_prompt x \<and> \<not> hi_reset x \<and>
       \<not> prompt_trajectory_reset (hi_prompt x) last_seen \<longrightarrow>
      hi_prompt x + hd_tokens_until_refresh d = last_refresh + hi_trigger x)"
proof -
  have sat: "initial_headroom_target (hi_budget x) (hi_trigger x) = hi_budget x + hi_trigger x"
    using assms(3) by (auto simp: initial_headroom_target_def saturating_add_u64_def)
  show ?thesis unfolding assms(1)
    by (cases "hi_force x"; cases "hi_budget x = 0 \<or> hi_prompt x \<le> hi_budget x"; cases "\<not> hi_known x \<or> hi_reset x";
        cases "hi_same_query x"; cases "hi_evidence_changed x"; cases guided; cases "hi_selection_started x")
      (auto simp: harness_refresh_decision_def no_decision_def sat Let_def assms(2) cross_turn_refresh_decision_def)
qed

definition ex_harness :: harness_input where
  "ex_harness = \<lparr>hi_known = True, hi_same_query = True, hi_selection_started = False,
     hi_incoming_reselect = True, hi_force = False, hi_reset = False, hi_prompt = 4200, hi_budget = 4096,
     hi_trigger = 900, hi_cross_turn = cross_turn_refresh_decision 4200 4000 0 900,
     hi_evidence_changed = False\<rparr>"

theorem harness_decision_coherent_witness:
  "hd_initial_grace (harness_refresh_decision ex_harness True) \<and>
   hi_prompt ex_harness + hd_tokens_until_refresh (harness_refresh_decision ex_harness True) = 4096 + 900"
proof -
  have g: "hd_initial_grace (harness_refresh_decision ex_harness True)"
    by (simp add: ex_harness_def harness_refresh_decision_def no_decision_def initial_headroom_target_def
        saturating_add_u64_def UINT64_MAX_def)
  have c: "hi_cross_turn ex_harness = cross_turn_refresh_decision (hi_prompt ex_harness) 4000 0 (hi_trigger ex_harness)"
    and b: "hi_budget ex_harness + hi_trigger ex_harness \<le> UINT64_MAX"
    and v: "hi_budget ex_harness = 4096" "hi_trigger ex_harness = 900"
    by (simp_all add: ex_harness_def UINT64_MAX_def)
  show ?thesis using harness_decision_coherent [OF refl c b, of True] g v by simp
qed

lemma rfind_Some:
  assumes "rfind text pat = Some i"
  shows "occurs_at text pat i" and "occurs_at text pat j \<Longrightarrow> j \<le> i"
proof -
  let ?f = "filter (occurs_at text pat) [0..<Suc (length text)]"
  have ne: "?f \<noteq> []" and i: "i = last ?f"
    using assms by (cases ?f; simp add: rfind_def del: upt_Suc)+
  then have "i \<in> set ?f" using last_in_set by blast
  then show "occurs_at text pat i" by (simp del: upt_Suc)
  assume o: "occurs_at text pat j"
  then have "j \<in> set ?f" by (simp add: occurs_at_def del: upt_Suc)
  then obtain k where k: "k < length ?f" "?f ! k = j" unfolding in_set_conv_nth by blast
  have "sorted ?f" by (simp add: sorted_wrt_filter del: upt_Suc)
  then have "?f ! k \<le> ?f ! (length ?f - 1)" using k(1) by (intro sorted_nth_mono) auto
  then show "j \<le> i" using k(2) i ne by (simp add: last_conv_nth)
qed

lemma rfind_None: "rfind text pat = None \<Longrightarrow> \<not> occurs_at text pat j"
proof -
  assume "rfind text pat = None"
  then have "filter (occurs_at text pat) [0..<Suc (length text)] = []"
    by (cases "filter (occurs_at text pat) [0..<Suc (length text)]") (simp_all add: rfind_def del: upt_Suc)
  then have "\<forall>i \<in> set [0..<Suc (length text)]. \<not> occurs_at text pat i" by (simp add: filter_empty_conv del: upt_Suc)
  moreover have "occurs_at text pat j \<Longrightarrow> j \<in> set [0..<Suc (length text)]" by (auto simp: occurs_at_def)
  ultimately show "\<not> occurs_at text pat j" by blast
qed

lemma closed_marker:
  assumes "\<not> has_unclosed_marker text opn cls" and "occurs_at text opn i"
  shows "\<exists>j \<ge> i. occurs_at text cls j"
proof -
  obtain a where a: "rfind text opn = Some a" using rfind_None assms(2) by (cases "rfind text opn") auto
  then obtain b where b: "rfind text cls = Some b" "a \<le> b"
    using assms(1) by (cases "rfind text cls") (auto simp: has_unclosed_marker_def)
  have "i \<le> a" using rfind_Some(2) [OF a assms(2)] .
  then show ?thesis using rfind_Some(1) [OF b(1)] b(2) le_trans by blast
qed

text \<open> A text accepted as a refresh boundary is never cut inside a structured fragment: every
  opened tool call and function tag is followed by its closing marker, the code fences pair up, and
  the text does not end in the middle of a marker.\<close>

theorem safe_boundary_closes_fragments:
  assumes "text_safe text"
  shows "(\<forall>i. occurs_at text tool_open i \<longrightarrow> (\<exists>j \<ge> i. occurs_at text tool_close j)) \<and>
    (\<forall>i. occurs_at text fn_open i \<longrightarrow> (\<exists>j \<ge> i. occurs_at text fn_close j)) \<and>
    even (count_fences text) \<and> text \<noteq> [] \<and>
    (\<forall>m \<in> {tool_open, tool_close, fn_open, fn_close, fence}. \<forall>n. 0 < n \<and> n < length m \<and> n \<le> length text \<longrightarrow>
      drop (length text - n) text \<noteq> take n m)"
proof -
  have u: "\<not> has_unclosed_marker text tool_open tool_close" "\<not> has_unclosed_marker text fn_open fn_close"
    "even (count_fences text)" "text \<noteq> []"
    and pm: "\<forall>m \<in> {tool_open, tool_close, fn_open, fn_close, fence}. \<not> ends_with_partial_marker text m"
    using assms by (auto simp: text_safe_def split: if_splits)
  have "drop (length text - n) text \<noteq> take n m"
    if "m \<in> {tool_open, tool_close, fn_open, fn_close, fence}" "0 < n" "n < length m" "n \<le> length text" for m n
  proof -
    have "\<not> ends_with_partial_marker text m" using pm that(1) by blast
    moreover have "n \<in> set [1..<Suc (min (length text) (length m - 1))]" using that(2-4) by auto
    ultimately show ?thesis unfolding ends_with_partial_marker_def list_ex_iff by blast
  qed
  then show ?thesis using u closed_marker [OF u(1)] closed_marker [OF u(2)] by blast
qed

theorem safe_boundary_closes_fragments_witness:
  "text_safe ''Done.'' \<and> even (count_fences ''Done.'')"
proof -
  have "text_safe ''Done.''" by code_simp
  from this safe_boundary_closes_fragments [OF this] show ?thesis by blast
qed

lemma mark_ids_facts:
  "length (mark_ids n ks) = n \<and> (\<forall>i < n. mark_ids n ks ! i = (i \<in> set ks))"
proof -
  have "length (foldl (\<lambda>m k. if k < n then m[k := True] else m) m ks) = length m \<and>
      (\<forall>i < n. foldl (\<lambda>m k. if k < n then m[k := True] else m) m ks ! i = (i \<in> set ks \<or> m ! i))"
    if "length m = n" for m
    using that
  proof (induction ks arbitrary: m)
    case (Cons k ks)
    let ?m = "if k < n then m[k := True] else m"
    have "length ?m = n" using Cons.prems by simp
    moreover have "?m ! i = (i = k \<or> m ! i)" if "i < n" for i
      using that Cons.prems by (cases "i = k") auto
    ultimately show ?case using Cons.IH [of ?m] Cons.prems by auto
  qed simp
  from this [of "replicate n False"] show ?thesis by (simp add: mark_ids_def)
qed

text \<open>The blocks kept when the live tail starts at \<open>b\<close>.\<close>

definition kept_blocks :: "nat \<Rightarrow> nat list \<Rightarrow> nat \<Rightarrow> nat set" where
  "kept_blocks n ks b = {i. i < n \<and> (i \<in> set ks \<or> b \<le> i)}"

lemma kept_blocks_step:
  assumes "b < n"
  shows "card (kept_blocks n ks b) = card (kept_blocks n ks (Suc b)) + (if b \<in> set ks then 0 else 1)"
proof (cases "b \<in> set ks")
  case True
  have "kept_blocks n ks b = kept_blocks n ks (Suc b)"
    using True by (auto simp: kept_blocks_def Suc_le_eq le_less)
  then show ?thesis using True by simp
next
  case False
  have e: "kept_blocks n ks b = insert b (kept_blocks n ks (Suc b))"
    using assms by (auto simp: kept_blocks_def Suc_le_eq le_less)
  have "b \<notin> kept_blocks n ks (Suc b)" "finite (kept_blocks n ks (Suc b))"
    using False by (auto simp: kept_blocks_def)
  then show ?thesis unfolding e using False by simp
qed

lemma kept_count:
  assumes "b \<le> n"
  shows "length (filter id (mark_ids n ks)) + length (filter (\<lambda>i. \<not> mark_ids n ks ! i) [b..<n]) =
    card (kept_blocks n ks b)"
  using assms
proof (induction "n - b" arbitrary: b)
  case 0
  then have "b = n" by simp
  have "length (filter id (mark_ids n ks)) = card {i. i < n \<and> mark_ids n ks ! i}"
    using length_filter_conv_card [of id "mark_ids n ks"] mark_ids_facts [of n ks] by simp
  also have "{i. i < n \<and> mark_ids n ks ! i} = kept_blocks n ks b"
    using mark_ids_facts [of n ks] \<open>b = n\<close> by (auto simp: kept_blocks_def)
  finally show ?case using \<open>b = n\<close> by simp
next
  case (Suc m)
  then have b: "b < n" and m: "m = n - Suc b" by simp_all
  have "mark_ids n ks ! b = (b \<in> set ks)" using mark_ids_facts b by blast
  then show ?case using Suc.hyps(1) [OF m] b kept_blocks_step [OF b, of ks] by (simp add: upt_conv_Cons)
qed

lemma shrink_tail_facts:
  assumes "first \<le> n" and "total_blocks = card (kept_blocks n ks first)"
  shows "let b = shrink_tail (mark_ids n ks) n budget first total_blocks in
    first \<le> b \<and> b \<le> n \<and> (b < n \<longrightarrow> card (kept_blocks n ks b) \<le> budget) \<and>
    (\<forall>c. first \<le> c \<and> c < b \<longrightarrow> budget < card (kept_blocks n ks c))"
  using assms
proof (induction "n - first" arbitrary: first total_blocks)
  case 0
  then have "n = first" by simp
  then have "shrink_tail (mark_ids n ks) n budget first total_blocks = first"
    by (subst shrink_tail.simps) simp
  then show ?case using \<open>n = first\<close> by (simp add: Let_def)
next
  case (Suc m)
  then have f: "first < n" and m: "m = n - Suc first" by simp_all
  show ?case
  proof (cases "budget < total_blocks")
    case False
    then show ?thesis using Suc.prems f by (simp add: Let_def shrink_tail.simps [of _ n _ first])
  next
    case True
    let ?t = "total_blocks - (if mark_ids n ks ! first then 0 else 1)"
    have "mark_ids n ks ! first = (first \<in> set ks)" using mark_ids_facts f by blast
    then have t: "?t = card (kept_blocks n ks (Suc first))"
      using kept_blocks_step [OF f, of ks] Suc.prems(2) by simp
    have e: "shrink_tail (mark_ids n ks) n budget first total_blocks = shrink_tail (mark_ids n ks) n budget (Suc first) ?t"
      using f True by (subst shrink_tail.simps) simp
    define b where "b = shrink_tail (mark_ids n ks) n budget (Suc first) ?t"
    have "Suc first \<le> n" using f by simp
    from Suc.hyps(1) [OF m this t] have I: "Suc first \<le> b" "b \<le> n" "b < n \<longrightarrow> card (kept_blocks n ks b) \<le> budget"
      "\<forall>c. Suc first \<le> c \<and> c < b \<longrightarrow> budget < card (kept_blocks n ks c)"
      by (simp_all add: Let_def b_def)
    have "budget < card (kept_blocks n ks c)" if "first \<le> c" "c < b" for c
      using I(4) that True Suc.prems(2) by (cases "c = first") auto
    then show ?thesis using e I(1-3) by (simp add: Let_def b_def [symmetric])
  qed
qed

text \<open> The live tail to pin is the longest one that fits: together with the mandatory blocks,
  which are counted once, it stays within the budget, it is at most as long as asked for, one block
  more would either exceed that length or the budget, and the sentinel is returned exactly when not
  even the last block can be pinned.\<close>

theorem tail_pin_is_longest_fit:
  assumes "0 < n" and "n < UINT32_MAX" and "pin = bounded_tail_pin_from_block n budget desired ks"
  shows "(pin = UINT32_MAX \<longleftrightarrow> budget = 0 \<or> desired = 0 \<or> budget < card (kept_blocks n ks (n - 1))) \<and>
    (pin \<noteq> UINT32_MAX \<longrightarrow> pin < n \<and> n - pin \<le> desired \<and> card (kept_blocks n ks pin) \<le> budget \<and>
      (\<forall>c < pin. n - c \<le> desired \<longrightarrow> budget < card (kept_blocks n ks c)))"
proof -
  let ?first = "n - min desired n"
  let ?m = "length (filter id (mark_ids n ks))"
  have mn: "?m = card (kept_blocks n ks n)" using kept_count [of n n ks] by simp
  have last: "card (kept_blocks n ks n) \<le> card (kept_blocks n ks (n - 1))"
    using kept_blocks_step [of "n - 1" n ks] assms(1) by simp
  have tot: "?m + length (filter (\<lambda>i. \<not> mark_ids n ks ! i) [?first..<n]) = card (kept_blocks n ks ?first)"
    by (rule kept_count) simp
  define b where "b = shrink_tail (mark_ids n ks) n budget ?first (card (kept_blocks n ks ?first))"
  have "?first \<le> n" by simp
  note B = shrink_tail_facts [OF this refl, of ks budget, unfolded Let_def b_def [symmetric]]
  have pin: "pin = (if budget = 0 \<or> budget < ?m then UINT32_MAX else if b = n then UINT32_MAX else b)"
    unfolding assms(3) bounded_tail_pin_from_block_def b_def using assms(1) tot by (simp add: Let_def)
  have bn: "b = n \<longleftrightarrow> desired = 0 \<or> budget < card (kept_blocks n ks (n - 1))" if "\<not> budget < ?m"
  proof
    assume "b = n"
    show "desired = 0 \<or> budget < card (kept_blocks n ks (n - 1))"
    proof (cases "desired = 0")
      case False
      then have "?first \<le> n - 1 \<and> n - 1 < b" using assms(1) \<open>b = n\<close> by auto
      then show ?thesis using B by blast
    qed simp
  next
    assume d: "desired = 0 \<or> budget < card (kept_blocks n ks (n - 1))"
    show "b = n"
    proof (rule ccontr)
      assume "b \<noteq> n"
      then have lt: "b < n" "card (kept_blocks n ks b) \<le> budget" using B by auto
      have "kept_blocks n ks (n - 1) \<subseteq> kept_blocks n ks b" using lt(1) by (auto simp: kept_blocks_def)
      moreover have "finite (kept_blocks n ks b)" by (simp add: kept_blocks_def)
      ultimately have "card (kept_blocks n ks (n - 1)) \<le> budget" using card_mono lt(2) le_trans by blast
      then have "desired = 0" using d by simp
      then have "?first = n" by simp
      then show False using B lt(1) by simp
    qed
  qed
  show ?thesis
  proof (cases "budget = 0 \<or> budget < ?m \<or> b = n")
    case True
    then have "pin = UINT32_MAX" using pin by auto
    then show ?thesis using True bn mn last assms(2) by auto
  next
    case False
    then have p: "pin = b" "b < n" using pin B by auto
    have "c < b \<Longrightarrow> n - c \<le> desired \<Longrightarrow> ?first \<le> c" for c by simp
    then show ?thesis using False p bn B assms(2) by fastforce
  qed
qed

theorem tail_pin_is_longest_fit_witness:
  "bounded_tail_pin_from_block 10 4 6 [0, 9] = 7 \<and> card (kept_blocks 10 [0, 9] 7) \<le> 4"
proof -
  have p: "bounded_tail_pin_from_block 10 4 6 [0, 9] = 7" by code_simp
  have "(10 :: nat) < UINT32_MAX" by (simp add: UINT32_MAX_def)
  from tail_pin_is_longest_fit [OF _ this refl, of 4 6 "[0, 9]"] p show ?thesis
    by (simp add: UINT32_MAX_def)
qed

text \<open> Page admission of a prefill chunk is exact as long as the 32-bit sum does not wrap: the
  pages it asks for are the least number that holds the chunk.\<close>

theorem prefill_chunk_pages_exact:
  assumes "0 < page_tokens" and "chunk_tokens + page_tokens \<le> UINT32_MAX"
  shows "chunk_tokens \<le> prefill_chunk_pages chunk_tokens page_tokens * page_tokens \<and>
    (\<forall>k. chunk_tokens \<le> k * page_tokens \<longrightarrow> prefill_chunk_pages chunk_tokens page_tokens \<le> k)"
proof (cases "chunk_tokens = 0")
  case False
  have "u32 (chunk_tokens + page_tokens) = chunk_tokens + page_tokens" by (rule u32_id [OF assms(2)])
  moreover have "u32 (chunk_tokens + page_tokens + 4294967295) = chunk_tokens + page_tokens - 1"
  proof -
    have e: "chunk_tokens + page_tokens + 4294967295 = (chunk_tokens + page_tokens - 1) + 4294967296"
      using assms(1) by linarith
    have "chunk_tokens + page_tokens - 1 < 4294967296" using assms(2) unfolding UINT32_MAX_def by linarith
    then show ?thesis unfolding u32_def e mod_add_self2 by (rule mod_less)
  qed
  ultimately have eq: "prefill_chunk_pages chunk_tokens page_tokens = ceil_div chunk_tokens page_tokens"
    using False assms(1) by (simp add: prefill_chunk_pages_def ceil_div_def)
  have "ceil_div chunk_tokens page_tokens \<le> k" if "chunk_tokens \<le> k * page_tokens" for k
  proof (rule ccontr)
    assume "\<not> ceil_div chunk_tokens page_tokens \<le> k"
    then have "Suc k * page_tokens \<le> ceil_div chunk_tokens page_tokens * page_tokens"
      by (intro mult_le_mono1) simp
    then show False using ceil_div_bounds(2) [OF assms(1), of chunk_tokens] False that by simp
  qed
  then show ?thesis unfolding eq using ceil_div_bounds(1) [OF assms(1)] by simp
qed (simp add: prefill_chunk_pages_def)

theorem prefill_chunk_pages_exact_witness:
  "31 \<le> prefill_chunk_pages 31 32 * 32 \<and> prefill_chunk_pages 31 32 = 1"
proof -
  have "(0 :: nat) < 32" "31 + 32 \<le> UINT32_MAX" by (simp_all add: UINT32_MAX_def)
  from prefill_chunk_pages_exact [OF this] show ?thesis
    by (simp add: prefill_chunk_pages_def u32_def)
qed

end
