(* ===== verification/Prefix_Reuse.thy ===== *)
theory Prefix_Reuse
  imports Prelude
begin

text \<open>
  Where a prefix can be checkpointed and resumed (\<open>src/src/kvmem_prefix_reuse_policy.hpp\<close>): draft
  limits that stop at block boundaries, replay boundaries around the retrieval query, and the
  admission of checkpoints and query snapshots. Positions are 64-bit and every sum of the source is
  guarded or bounded by a position, so natural numbers represent them.
\<close>

section \<open>Block boundaries and drafts\<close>

definition checkpoint_draft_limit :: "nat \<Rightarrow> nat \<Rightarrow> nat \<Rightarrow> bool \<Rightarrow> nat" where
  "checkpoint_draft_limit position block_tokens drafts due =
     (if \<not> due \<or> block_tokens = 0 then drafts
      else let gap = block_tokens - position mod block_tokens in
        if drafts < gap then drafts else gap - 1)"

definition periodic_boundary_due :: "nat \<Rightarrow> nat \<Rightarrow> nat \<Rightarrow> nat \<Rightarrow> bool" where
  "periodic_boundary_due position last_reselect interval block_tokens =
     (let bt = (if block_tokens \<noteq> 0 then block_tokens else 1);
          gap = (if interval \<noteq> 0 then interval else 1) in
      last_reselect \<le> position \<and> gap \<le> position - last_reselect \<and> position mod bt = 0)"

definition periodic_align_drafts :: "nat \<Rightarrow> nat \<Rightarrow> nat \<Rightarrow> nat \<Rightarrow> nat \<Rightarrow> bool" where
  "periodic_align_drafts position last_reselect interval block_tokens requested =
     (if position < last_reselect \<or> block_tokens = 0 then False
      else let elapsed = position - last_reselect;
               gap = (if interval \<noteq> 0 then interval else 1);
               boundary_distance = block_tokens - position mod block_tokens in
        gap \<le> elapsed \<or> gap - elapsed \<le> boundary_distance \<or> gap - elapsed \<le> requested + 1)"

section \<open>Replay boundaries\<close>

definition replay_capture_begin :: "nat \<Rightarrow> nat \<Rightarrow> nat \<Rightarrow> nat" where
  "replay_capture_begin query_begin replay_begin replay_end =
     (if replay_begin < replay_end \<and> replay_begin < query_begin then replay_begin else query_begin)"

definition block_or_1 :: "nat \<Rightarrow> nat" where
  "block_or_1 block_tokens = (if block_tokens = 0 then 1 else block_tokens)"

definition complete_query_replay_boundary :: "nat \<Rightarrow> nat \<Rightarrow> nat \<Rightarrow> nat \<Rightarrow> nat" where
  "complete_query_replay_boundary requested query_begin query_end block_tokens =
     (let bt = block_or_1 block_tokens;
          boundary = requested div bt * bt;
          before_query = query_begin div bt * bt in
      if 0 < before_query \<and> before_query < boundary \<and> boundary < query_end then before_query else boundary)"

definition cached_query_replay_boundary :: "nat \<Rightarrow> nat \<Rightarrow> nat \<Rightarrow> nat \<Rightarrow> nat \<Rightarrow> nat" where
  "cached_query_replay_boundary requested query_begin query_end block_tokens resume =
     (let live = complete_query_replay_boundary requested query_begin query_end block_tokens in
      if resume < live then live else resume)"

definition branch_safe_split :: "nat \<Rightarrow> nat \<Rightarrow> nat \<Rightarrow> nat" where
  "branch_safe_split prompt_end prefill_base block_tokens =
     (if prompt_end \<le> prefill_base then 0
      else let bt = block_or_1 block_tokens;
               split = (if bt < prompt_end
                 then (let last_boundary = (prompt_end - 1) div bt * bt in
                   if bt \<le> last_boundary then last_boundary - bt else 0)
                 else if 4 < prompt_end then prompt_end - 4 else 0) in
        if split < prefill_base
        then (let gap = (bt - prefill_base mod bt) mod bt in
          if gap < prompt_end - prefill_base then prefill_base + gap else 0)
        else if prompt_end \<le> split then 0 else split)"

definition query_safe_split :: "nat \<Rightarrow> nat \<Rightarrow> nat \<Rightarrow> nat \<Rightarrow> nat \<Rightarrow> nat" where
  "query_safe_split prompt_end prefill_base block_tokens query_begin query_end =
     (let split = branch_safe_split prompt_end prefill_base block_tokens in
      if query_end \<le> query_begin then split
      else let bt = block_or_1 block_tokens; replay_boundary = query_begin div bt * bt in
        if replay_boundary < split \<and> split < query_end \<and> prefill_base \<le> replay_boundary \<and>
           replay_boundary < prompt_end
        then (let gap = (bt - query_end mod bt) mod bt in
          if replay_boundary = 0 \<and> query_end < prompt_end \<and> gap < prompt_end - query_end \<and>
             prefill_base \<le> query_end + gap
          then query_end + gap else replay_boundary)
        else split)"

section \<open>Admission\<close>

record reuse_safety =
  rs_above_budget :: bool
  rs_index_required :: bool
  rs_layout_incompatible :: bool
  rs_block_end :: bool
  rs_block_prompt :: bool

definition prefix_reuse_safety :: "nat \<Rightarrow> nat \<Rightarrow> bool \<Rightarrow> bool \<Rightarrow> bool \<Rightarrow> bool \<Rightarrow> bool \<Rightarrow> bool \<Rightarrow> reuse_safety" where
  "prefix_reuse_safety logical budget capture per_token end_resumable end_ready prompt_resumable prompt_ready =
     (let above = (0 < budget \<and> budget < logical);
          required = (capture \<or> above);
          incompatible = (above \<and> per_token) in
      \<lparr>rs_above_budget = above, rs_index_required = required, rs_layout_incompatible = incompatible,
       rs_block_end = (incompatible \<or> required \<and> (\<not> end_resumable \<or> \<not> end_ready)),
       rs_block_prompt = (incompatible \<or> required \<and> (\<not> prompt_resumable \<or> \<not> prompt_ready))\<rparr>)"

definition preserve_warm_history_index :: "bool \<Rightarrow> bool \<Rightarrow> bool" where
  "preserve_warm_history_index warm_reuse capture \<longleftrightarrow> warm_reuse \<and> capture"

definition checkpoint_selection_compatible :: "nat \<Rightarrow> nat \<Rightarrow> bool" where
  "checkpoint_selection_compatible checkpoint_generation current_generation \<longleftrightarrow>
     checkpoint_generation = current_generation"

definition checkpoint_outside_query :: "nat \<Rightarrow> nat \<Rightarrow> nat \<Rightarrow> nat \<Rightarrow> bool" where
  "checkpoint_outside_query position query_begin query_end block_tokens =
     (let bt = block_or_1 block_tokens in
      query_end \<le> query_begin \<or> position \<le> query_begin div bt * bt \<or> query_end \<le> position)"

definition query_snapshot_coordinates_match :: "bool \<Rightarrow> nat \<Rightarrow> nat \<Rightarrow> nat \<Rightarrow> nat \<Rightarrow> nat \<Rightarrow> bool" where
  "query_snapshot_coordinates_match stashed stored_begin stored_end stored_source_end req_begin req_end \<longleftrightarrow>
     stashed \<and> stored_begin = req_begin \<and> stored_end = req_end \<and> stored_end \<le> stored_source_end"

definition query_snapshot_reusable :: "bool \<Rightarrow> nat \<Rightarrow> nat \<Rightarrow> nat \<Rightarrow> nat \<Rightarrow> nat \<Rightarrow> nat \<Rightarrow> bool" where
  "query_snapshot_reusable stashed stored_begin stored_end stored_source_end req_begin req_end common_prefix \<longleftrightarrow>
     query_snapshot_coordinates_match stashed stored_begin stored_end stored_source_end req_begin req_end \<and>
     stored_source_end \<le> common_prefix"

definition query_snapshot_capture_ready :: "bool \<Rightarrow> bool \<Rightarrow> bool \<Rightarrow> bool \<Rightarrow> bool" where
  "query_snapshot_capture_ready guided inherited scorer_ready original_complete =
     (if guided \<or> inherited then scorer_ready else original_complete)"

definition query_replay_capture_ready :: "bool \<Rightarrow> bool \<Rightarrow> bool \<Rightarrow> bool" where
  "query_replay_capture_ready inherited scorer_ready public_complete =
     (if inherited then scorer_ready else public_complete)"

definition query_storage_rows :: "nat \<Rightarrow> nat \<Rightarrow> nat" where
  "query_storage_rows public_rows restored_rows =
     (let rows = (if restored_rows < public_rows then public_rows else restored_rows) in
      if rows = 0 then 1 else rows)"

definition post_query_replay_aligned :: "bool \<Rightarrow> nat \<Rightarrow> nat \<Rightarrow> nat \<Rightarrow> bool" where
  "post_query_replay_aligned semantic_replay checkpoint ceiling block_tokens =
     (let bt = block_or_1 block_tokens in
      \<not> semantic_replay \<or> checkpoint \<le> ceiling \<or> checkpoint mod bt = 0)"

definition query_snapshot_source_end :: "bool \<Rightarrow> bool \<Rightarrow> nat \<Rightarrow> nat \<Rightarrow> nat \<Rightarrow> nat" where
  "query_snapshot_source_end guided inherited prompt inherited_end query_end =
     (if guided then prompt else if inherited then inherited_end else query_end)"

section \<open>Properties\<close>

lemma block_or_1_pos [simp]: "0 < block_or_1 bt"
  by (simp add: block_or_1_def)

lemma no_boundary_inside:
  assumes "0 < bt" and "p < b" and "b < p + (bt - p mod bt)"
  shows "b mod bt \<noteq> (0 :: nat)"
proof
  assume "b mod bt = 0"
  then obtain k where k: "b = k * bt" by (metis div_mult_mod_eq add.right_neutral)
  have e: "p div bt * bt + p mod bt = p" by (rule div_mult_mod_eq)
  have r: "p mod bt < bt" using assms(1) by simp
  have "k * bt < p div bt * bt + bt" using assms(3) k e r by linarith
  then have "k * bt < Suc (p div bt) * bt" by simp
  then have "k \<le> p div bt" using mult_less_cancel2 [of k bt "Suc (p div bt)"] by simp
  then have "k * bt \<le> p div bt * bt" by (rule mult_le_mono1)
  then show False using assms(2) k e by linarith
qed

text \<open> A speculative cycle clamped by the two draft rules never jumps over a scheduled
  reselection: no position strictly inside the tokens it can commit is a due block boundary, so the
  decoder lands on every one of them.\<close>

theorem scheduled_boundary_not_skipped:
  assumes "0 < block_tokens" and "last_reselect \<le> position"
    and "allowed = checkpoint_draft_limit position block_tokens requested
      (periodic_align_drafts position last_reselect interval block_tokens requested)"
    and "position < b" and "b < position + allowed + 1"
  shows "\<not> periodic_boundary_due b last_reselect interval block_tokens"
proof (cases "periodic_align_drafts position last_reselect interval block_tokens requested")
  case True
  have "position mod block_tokens < block_tokens" using assms(1) by simp
  then have g: "0 < block_tokens - position mod block_tokens" by simp
  define gap where "gap = block_tokens - position mod block_tokens"
  have "allowed = (if requested < gap then requested else gap - 1)"
    using assms(1,3) True by (simp add: checkpoint_draft_limit_def Let_def gap_def)
  moreover have "0 < gap" using g by (simp add: gap_def)
  ultimately have "allowed + 1 \<le> gap" by simp
  then have "allowed + 1 \<le> block_tokens - position mod block_tokens" by (simp add: gap_def)
  then have "b mod block_tokens \<noteq> 0"
    using no_boundary_inside [OF assms(1,4)] assms(5) by linarith
  then show ?thesis using assms(1) by (simp add: periodic_boundary_due_def)
next
  case False
  let ?gap = "if interval \<noteq> 0 then interval else 1"
  have "allowed = requested" using assms(3) False by (simp add: checkpoint_draft_limit_def)
  moreover have "requested + 1 < ?gap - (position - last_reselect)"
    using False assms(1,2) by (simp add: periodic_align_drafts_def Let_def not_le)
  ultimately have "b - last_reselect < ?gap" using assms(2,4,5) by linarith
  then show ?thesis by (simp add: periodic_boundary_due_def Let_def)
qed

theorem scheduled_boundary_not_skipped_witness:
  "\<not> periodic_boundary_due 62 0 60 32 \<and> checkpoint_draft_limit 61 32 6 (periodic_align_drafts 61 0 60 32 6) = 2"
proof -
  have l: "checkpoint_draft_limit 61 32 6 (periodic_align_drafts 61 0 60 32 6) = 2" by code_simp
  show ?thesis using scheduled_boundary_not_skipped [of 32 0 61 2 6 60 62] l by simp
qed

text \<open> The boundary a live suffix is replayed from is block-aligned, never after the requested
  begin, and, for a query that starts after the first block, never cuts the query: it is at or before
  the query's block or at or after its end, which is what admits the snapshot as a reusable
  checkpoint. With a cached query the origin never moves behind the restored position.\<close>

theorem replay_boundary_legal:
  assumes "block_or_1 block_tokens \<le> query_begin"
  shows "let b = complete_query_replay_boundary requested query_begin query_end block_tokens in
    b mod block_or_1 block_tokens = 0 \<and> b \<le> requested \<and>
    checkpoint_outside_query b query_begin query_end block_tokens \<and>
    post_query_replay_aligned True b ceiling block_tokens \<and>
    cached_query_replay_boundary requested query_begin query_end block_tokens resume = max b resume"
proof -
  let ?bt = "block_or_1 block_tokens"
  have "1 \<le> query_begin div ?bt" using assms by (simp add: less_eq_div_iff_mult_less_eq)
  then have pos: "0 < query_begin div ?bt * ?bt" by simp
  have r: "requested div ?bt * ?bt \<le> requested" by (rule div_times_less_eq_dividend)
  have m: "(k * ?bt) mod ?bt = 0" for k by simp
  have r2: "query_begin div ?bt * ?bt \<le> requested" if "query_begin div ?bt < requested div ?bt"
  proof -
    have "query_begin div ?bt * ?bt \<le> requested div ?bt * ?bt" using that by (intro mult_le_mono1) simp
    then show ?thesis using r by (rule le_trans)
  qed
  show ?thesis using pos r m r2
    by (auto simp: Let_def complete_query_replay_boundary_def checkpoint_outside_query_def
        cached_query_replay_boundary_def post_query_replay_aligned_def)
qed

theorem replay_boundary_legal_witness:
  "checkpoint_outside_query (complete_query_replay_boundary 101 70 130 32) 70 130 32 \<and>
   complete_query_replay_boundary 101 70 130 32 = 64"
proof -
  have b: "complete_query_replay_boundary 101 70 130 32 = 64" by code_simp
  have "block_or_1 32 \<le> 70" by (simp add: block_or_1_def)
  from replay_boundary_legal [OF this, of 101 130 0 0] b show ?thesis by (simp add: Let_def)
qed

lemma branch_safe_split_range:
  "branch_safe_split prompt_end base bt = 0 \<or>
   base \<le> branch_safe_split prompt_end base bt \<and> branch_safe_split prompt_end base bt < prompt_end"
proof (cases "prompt_end \<le> base")
  case False
  define gap where "gap = (block_or_1 bt - base mod block_or_1 bt) mod block_or_1 bt"
  define split where "split = (if block_or_1 bt < prompt_end
                 then (let last_boundary = (prompt_end - 1) div block_or_1 bt * block_or_1 bt in
                   if block_or_1 bt \<le> last_boundary then last_boundary - block_or_1 bt else 0)
                 else if 4 < prompt_end then prompt_end - 4 else 0)"
  have "branch_safe_split prompt_end base bt = (if split < base
      then (if gap < prompt_end - base then base + gap else 0)
      else if prompt_end \<le> split then 0 else split)"
    using False unfolding branch_safe_split_def split_def gap_def by (simp only: Let_def if_False)
  then show ?thesis using False by auto
qed (simp add: branch_safe_split_def)



end
