(* ===== verification/Storage_Spans.thy ===== *)
theory Storage_Spans
  imports Page_Table Repository
begin

text \<open>
  The translation of a history interval, stored in slices of reusable physical slots, into pages:
  \<open>kvmem_storage_page_spans\<close> (\<open>src/src/kvmem_store.cpp\<close>) merges the slices of one ordinary forward
  into page aliases, and \<open>KvPageTable::batch_storage_indices\<close> (\<open>src/src/qwen_executor.cpp\<close>) resolves
  these through the page directory. The theorem says that the page list so built sends every token
  of the batch to the page and row the store assigned to it.
\<close>

record storage_span =
  ss_history :: nat
  ss_storage :: nat
  ss_count :: nat
  ss_handle :: handle

record page_span =
  pg_storage :: nat
  pg_window :: nat
  pg_count :: nat

definition span_rejected :: "nat \<Rightarrow> nat \<Rightarrow> nat \<Rightarrow> bool \<Rightarrow> storage_span \<Rightarrow> bool" where
  "span_rejected page history window have_out span \<longleftrightarrow>
     ss_count span = 0 \<or> ss_history span \<noteq> history \<or> UINT64_MAX - ss_count span < history \<or>
     INT32_MAX < ss_storage span + ss_count span \<or> INT32_MAX < window + ss_count span \<or>
     ss_storage span mod page \<noteq> window mod page \<or> have_out \<and> window mod page \<noteq> 0"

definition push_page_span :: "page_span list \<Rightarrow> nat \<Rightarrow> nat \<Rightarrow> nat \<Rightarrow> page_span list" where
  "push_page_span out first win_page n =
     (if out \<noteq> [] \<and> pg_storage (last out) + pg_count (last out) = first \<and>
         pg_window (last out) + pg_count (last out) = win_page
      then butlast out @ [(last out)\<lparr>pg_count := pg_count (last out) + n\<rparr>]
      else out @ [\<lparr>pg_storage = first, pg_window = win_page, pg_count = n\<rparr>])"

definition span_pages :: "nat \<Rightarrow> storage_span \<Rightarrow> nat" where
  "span_pages page span = (ss_storage span + ss_count span + page - 1) div page - ss_storage span div page"

fun page_spans_from :: "nat \<Rightarrow> storage_span list \<Rightarrow> nat \<Rightarrow> nat \<Rightarrow> page_span list \<Rightarrow>
    page_span list result" where
  "page_spans_from page [] history window out = Inr out"
| "page_spans_from page (span # spans) history window out =
     (if span_rejected page history window (out \<noteq> []) span then Inl InvalidArgument
      else page_spans_from page spans (history + ss_count span) (window + ss_count span)
        (push_page_span out (ss_storage span div page) (window div page) (span_pages page span)))"

definition storage_page_spans :: "storage_span list \<Rightarrow> nat \<Rightarrow> nat \<Rightarrow> page_span list result" where
  "storage_page_spans spans page window_begin =
     (if page = 0 then Inl InvalidArgument
      else page_spans_from page spans (case spans of [] \<Rightarrow> 0 | s # _ \<Rightarrow> ss_history s) window_begin [])"

section \<open>Through the page directory\<close>

fun alias_pages_of :: "'p ptab \<Rightarrow> nat list \<Rightarrow> int list \<Rightarrow> int list result" where
  "alias_pages_of t [] out = Inr out"
| "alias_pages_of t (p # ps) out =
     (if pt_pages t ! p < 0 then Inl RuntimeError else alias_pages_of t ps (out @ [pt_pages t ! p]))"

fun batch_aliases :: "'p ptab \<Rightarrow> page_span list \<Rightarrow> int list \<Rightarrow> int list result" where
  "batch_aliases t [] out = Inr out"
| "batch_aliases t (a # as) out =
     (if pg_window a \<noteq> length out \<or> length (pt_pages t) < pg_storage a + pg_count a then Inl RuntimeError
      else case alias_pages_of t [pg_storage a..<pg_storage a + pg_count a] out of
          Inl e \<Rightarrow> Inl e
        | Inr out' \<Rightarrow> batch_aliases t as out')"

definition batch_storage_indices :: "'p ptab \<Rightarrow> storage_span list \<Rightarrow> int list result" where
  "batch_storage_indices t spans = (case spans of [] \<Rightarrow> Inr []
     | s # _ \<Rightarrow> (case storage_page_spans spans (pt_page_size t) (u32 (ss_history s mod pt_page_size t)) of
           Inl e \<Rightarrow> Inl e
         | Inr aliases \<Rightarrow> batch_aliases t aliases []))"

section \<open>What the aliases stand for\<close>

definition pages_of :: "page_span list \<Rightarrow> nat list" where
  "pages_of as = concat (map (\<lambda>a. [pg_storage a..<pg_storage a + pg_count a]) as)"

definition page_run :: "nat \<Rightarrow> storage_span \<Rightarrow> nat list" where
  "page_run page span = [ss_storage span div page..<ss_storage span div page + span_pages page span]"

text \<open>The storage position of the \<open>k\<close>-th token of the spans.\<close>

fun storage_at :: "storage_span list \<Rightarrow> nat \<Rightarrow> nat" where
  "storage_at [] k = 0"
| "storage_at (s # ss) k =
     (if k < ss_count s then ss_storage s + k else storage_at ss (k - ss_count s))"

definition span_tokens :: "storage_span list \<Rightarrow> nat" where
  "span_tokens spans = sum_list (map ss_count spans)"

text \<open>The aliases cover consecutive window pages from page \<open>b\<close> to page \<open>e\<close>.\<close>

fun tiles :: "nat \<Rightarrow> page_span list \<Rightarrow> nat \<Rightarrow> bool" where
  "tiles b [] e \<longleftrightarrow> b = e"
| "tiles b (a # as) e \<longleftrightarrow> pg_window a = b \<and> tiles (b + pg_count a) as e"

lemma tiles_append: "tiles b (as @ [a]) e \<longleftrightarrow> tiles b as (pg_window a) \<and> pg_window a + pg_count a = e"
  by (induction as arbitrary: b) auto

lemma pages_of_append [simp]: "pages_of (as @ bs) = pages_of as @ pages_of bs"
  by (simp add: pages_of_def)

lemma push_page_span_snoc:
  "push_page_span (as @ [a]) first w n =
     (if pg_storage a + pg_count a = first \<and> pg_window a + pg_count a = w
      then as @ [a\<lparr>pg_count := pg_count a + n\<rparr>]
      else as @ [a, \<lparr>pg_storage = first, pg_window = w, pg_count = n\<rparr>])"
  by (simp add: push_page_span_def)

lemma pages_of_push: "pages_of (push_page_span out first w n) = pages_of out @ [first..<first + n]"
proof (cases out rule: rev_cases)
  case (snoc as a)
  have "[pg_storage a..<pg_storage a + (pg_count a + n)] =
      [pg_storage a..<pg_storage a + pg_count a] @ [pg_storage a + pg_count a..<pg_storage a + pg_count a + n]"
    unfolding add.assoc [symmetric] by (rule upt_add_eq_append) simp
  then show ?thesis unfolding snoc push_page_span_snoc by (simp add: pages_of_def)
qed (simp add: push_page_span_def pages_of_def)

lemma tiles_push: "tiles b out e \<Longrightarrow> tiles b (push_page_span out first e n) (e + n)"
proof (cases out rule: rev_cases)
  case (snoc as a)
  assume "tiles b out e"
  then have "tiles b as (pg_window a)" and "pg_window a + pg_count a = e"
    by (simp_all add: snoc tiles_append)
  then show ?thesis
    using tiles_append [of b "as @ [a]"] by (simp add: snoc push_page_span_snoc tiles_append add.assoc)
qed (simp add: push_page_span_def)

lemma push_nonempty [simp]: "push_page_span out f w n \<noteq> []"
  by (simp add: push_page_span_def)

section \<open>Page arithmetic of one span\<close>

lemma ceil_add_div:
  fixes page s n :: nat
  assumes "0 < page"
  shows "(s + n + page - 1) div page - s div page = (s mod page + n + page - 1) div page"
proof -
  have e: "s + n + page - 1 = (s mod page + n + page - 1) + page * (s div page)"
    using assms mult_div_mod_eq [of page s] by linarith
  have "(s + n + page - 1) div page = s div page + (s mod page + n + page - 1) div page"
    unfolding e by (rule div_mult_self2) (use assms in simp)
  then show ?thesis by linarith
qed

lemma span_pages_window:
  assumes "0 < page" and "ss_storage span mod page = window mod page"
  shows "window div page + span_pages page span = (window + ss_count span + page - 1) div page"
proof -
  have "window div page \<le> (window + ss_count span + page - 1) div page"
    using assms(1) by (intro div_le_mono) linarith
  then show ?thesis
    using ceil_add_div [OF assms(1), of "ss_storage span" "ss_count span"]
      ceil_add_div [OF assms(1), of window "ss_count span"] assms(2)
    by (simp add: span_pages_def)
qed

lemma div_skip:
  fixes page x r q :: nat
  assumes "0 < page" and "x = r + page * q"
  shows "x div page = q + r div page"
  unfolding assms(2) by (rule div_mult_self2) (use assms(1) in simp)

lemma ceil_exact:
  fixes page x :: nat
  assumes "0 < page" and "x mod page = 0"
  shows "(x + page - 1) div page = x div page"
proof -
  have e: "x + page - 1 = (page - 1) + page * (x div page)"
    using assms mult_div_mod_eq [of page x] by linarith
  have "(x + page - 1) div page = x div page + (page - 1) div page"
    unfolding e by (rule div_mult_self2) (use assms in simp)
  then show ?thesis using assms(1) by simp
qed

lemma offset_div:
  fixes page s k :: nat
  assumes "0 < page"
  shows "s div page + (s mod page + k) div page = (s + k) div page"
proof -
  have e: "s + k = (s mod page + k) + page * (s div page)"
    using mult_div_mod_eq [of page s] by linarith
  have "(s + k) div page = s div page + (s mod page + k) div page"
    by (subst e, rule div_mult_self2) (use assms in simp)
  then show ?thesis by simp
qed

lemma offset_page_lt:
  fixes page x n :: nat
  assumes "0 < page" and "x < n"
  shows "x div page < (n + page - 1) div page"
proof -
  have "(x + page) div page \<le> (n + page - 1) div page" using assms by (intro div_le_mono) linarith
  moreover have "(x + page) div page = x div page + 1" using assms(1) by (simp only: div_add_self2)
  ultimately show ?thesis by linarith
qed

section \<open>The accepted spans\<close>

lemma page_spans_from_pages:
  "page_spans_from page spans history window out = Inr as \<Longrightarrow>
     pages_of as = pages_of out @ concat (map (page_run page) spans)"
  by (induction page spans history window out rule: page_spans_from.induct)
    (auto simp: pages_of_push page_run_def split: if_splits)

lemma page_spans_from_tiles:
  assumes "page_spans_from page spans history window out = Inr as" and "0 < page"
    and "tiles b out (if out = [] then window div page else (window + page - 1) div page)"
  shows "\<exists>e. tiles b as e"
  using assms
proof (induction page spans history window out rule: page_spans_from.induct)
  case (2 page span spans history window out)
  have ok: "\<not> span_rejected page history window (out \<noteq> []) span" using "2.prems"(1) by (simp split: if_splits)
  then have m: "ss_storage span mod page = window mod page" and z: "out \<noteq> [] \<Longrightarrow> window mod page = 0"
    by (auto simp: span_rejected_def)
  have "tiles b out (window div page)"
    using "2.prems"(3) z ceil_exact [OF "2.prems"(2)] by (cases "out = []") simp_all
  then have "tiles b (push_page_span out (ss_storage span div page) (window div page) (span_pages page span))
      ((window + ss_count span + page - 1) div page)"
    using tiles_push span_pages_window [OF "2.prems"(2) m] by metis
  then show ?case using "2.IH" [OF ok] "2.prems"(1,2) ok by simp
qed auto

lemma run_lookup:
  assumes "page_spans_from page spans history window out = Inr as" and "0 < page"
    and "k < span_tokens spans"
  shows "(window mod page + k) div page < length (concat (map (page_run page) spans)) \<and>
    concat (map (page_run page) spans) ! ((window mod page + k) div page) = storage_at spans k div page \<and>
    (window + k) mod page = storage_at spans k mod page"
  using assms
proof (induction page spans history window out arbitrary: k rule: page_spans_from.induct)
  case (2 page span spans history window out)
  let ?n = "ss_count span" and ?s = "ss_storage span"
  have ok: "\<not> span_rejected page history window (out \<noteq> []) span" using "2.prems"(1) by (simp split: if_splits)
  then have m: "?s mod page = window mod page" by (auto simp: span_rejected_def)
  have len: "length (page_run page span) = (window mod page + ?n + page - 1) div page"
    using ceil_add_div [OF "2.prems"(2), of ?s ?n] m by (simp add: page_run_def span_pages_def)
  show ?case
  proof (cases "k < ?n")
    case True
    have "(window mod page + k) div page < length (page_run page span)"
      unfolding len by (rule offset_page_lt) (use "2.prems"(2) True in simp_all)
    moreover have "page_run page span ! ((window mod page + k) div page) = (?s + k) div page"
      using calculation offset_div [OF "2.prems"(2), of ?s k] m by (simp add: page_run_def)
    moreover have "(window + k) mod page = (?s + k) mod page" using m by (metis mod_add_left_eq)
    ultimately show ?thesis using True by (simp add: nth_append)
  next
    case False
    have rest: "page_spans_from page spans (history + ?n) (window + ?n)
        (push_page_span out (?s div page) (window div page) (span_pages page span)) = Inr as"
      using "2.prems"(1) ok by simp
    have kt: "k - ?n < span_tokens spans" using "2.prems"(3) False by (simp add: span_tokens_def)
    then have "spans \<noteq> []" by (auto simp: span_tokens_def)
    then have z: "(window + ?n) mod page = 0"
      using rest by (cases spans) (auto simp: span_rejected_def split: if_splits)
    have zz: "(window mod page + ?n) mod page = 0" using z by (simp add: mod_add_left_eq)
    have l: "length (page_run page span) = (window mod page + ?n) div page"
      unfolding len by (rule ceil_exact [OF "2.prems"(2) zz])
    have "window mod page + k = (k - ?n) + page * ((window mod page + ?n) div page)"
      using zz False mult_div_mod_eq [of page "window mod page + ?n"] by linarith
    then have d: "(window mod page + k) div page = length (page_run page span) + (k - ?n) div page"
      unfolding l by (rule div_skip [OF "2.prems"(2)])
    have wk: "(window + ?n) + (k - ?n) = window + k" using False by linarith
    let ?R = "concat (map (page_run page) spans)"
    have ih: "(k - ?n) div page < length ?R" "?R ! ((k - ?n) div page) = storage_at spans (k - ?n) div page"
      "(window + k) mod page = storage_at spans (k - ?n) mod page"
      using "2.IH" [OF ok rest "2.prems"(2) kt] unfolding z wk by simp_all
    have st: "storage_at (span # spans) k = storage_at spans (k - ?n)" using False by simp
    have cc: "concat (map (page_run page) (span # spans)) = page_run page span @ ?R" by simp
    show ?thesis unfolding st cc d using ih by simp
  qed
qed (simp add: span_tokens_def)

section \<open>Through the directory\<close>

lemma alias_pages_of_ok:
  "alias_pages_of t ps out = Inr out' \<longleftrightarrow>
     (\<forall>p \<in> set ps. 0 \<le> pt_pages t ! p) \<and> out' = out @ map ((!) (pt_pages t)) ps"
  by (induction ps arbitrary: out) auto

lemma batch_aliases_ok:
  "batch_aliases t as out = Inr pages \<Longrightarrow>
     pages = out @ map ((!) (pt_pages t)) (pages_of as) \<and> (\<forall>p \<in> set (pages_of as). p < length (pt_pages t) \<and> 0 \<le> pt_pages t ! p)"
proof (induction t as out rule: batch_aliases.induct)
  case (2 t a as out)
  obtain out' where o: "alias_pages_of t [pg_storage a..<pg_storage a + pg_count a] out = Inr out'"
    and le: "pg_storage a + pg_count a \<le> length (pt_pages t)"
    and r: "pg_window a = length out" and b: "batch_aliases t as out' = Inr pages"
    using "2.prems" by (auto split: if_splits sum.splits)
  have "\<not> (pg_window a \<noteq> length out \<or> length (pt_pages t) < pg_storage a + pg_count a)" using r le by simp
  from "2.IH" [OF this o b] o le show ?case
    by (auto simp: alias_pages_of_ok pages_of_def)
qed (simp add: pages_of_def)

lemma batch_aliases_total:
  "tiles (length out) as e \<Longrightarrow> (\<forall>p \<in> set (pages_of as). p < length (pt_pages t) \<and> 0 \<le> pt_pages t ! p) \<Longrightarrow>
     \<forall>a \<in> set as. 0 < pg_count a \<Longrightarrow> \<exists>pages. batch_aliases t as out = Inr pages"
proof (induction t as out rule: batch_aliases.induct)
  case (2 t a as out)
  have c: "0 < pg_count a" and r: "pg_window a = length out" and ti: "tiles (length out + pg_count a) as e"
    using "2.prems" by simp_all
  have "pg_storage a \<le> pg_storage a + pg_count a - Suc 0" using c by linarith
  then have "pg_storage a + pg_count a - 1 \<in> set (pages_of (a # as))" using c by (simp add: pages_of_def)
  then have le: "\<not> length (pt_pages t) < pg_storage a + pg_count a" using "2.prems"(2) c by fastforce
  have o: "alias_pages_of t [pg_storage a..<pg_storage a + pg_count a] out =
      Inr (out @ map ((!) (pt_pages t)) [pg_storage a..<pg_storage a + pg_count a])"
    using "2.prems"(2) by (simp add: alias_pages_of_ok pages_of_def)
  have "\<exists>pages. batch_aliases t as (out @ map ((!) (pt_pages t)) [pg_storage a..<pg_storage a + pg_count a]) = Inr pages"
    by (rule "2.IH" [OF _ o]) (use r le ti "2.prems"(2,3) in \<open>auto simp: pages_of_def\<close>)
  then show ?case using r le o by simp
qed simp

lemma span_pages_pos: "0 < page \<Longrightarrow> 0 < ss_count span \<Longrightarrow> 0 < span_pages page span"
  using ceil_add_div [of page "ss_storage span" "ss_count span"]
    offset_page_lt [of page 0 "ss_storage span mod page + ss_count span"]
  by (simp add: span_pages_def)

lemma page_spans_from_pos:
  "page_spans_from page spans history window out = Inr as \<Longrightarrow> 0 < page \<Longrightarrow>
     \<forall>a \<in> set out. 0 < pg_count a \<Longrightarrow> \<forall>a \<in> set as. 0 < pg_count a"
proof (induction page spans history window out rule: page_spans_from.induct)
  case (2 page span spans history window out)
  have ok: "\<not> span_rejected page history window (out \<noteq> []) span" using "2.prems"(1) by (simp split: if_splits)
  then have "0 < span_pages page span" using "2.prems"(2) by (intro span_pages_pos) (auto simp: span_rejected_def)
  then have "\<forall>a \<in> set (push_page_span out (ss_storage span div page) (window div page) (span_pages page span)). 0 < pg_count a"
    using "2.prems"(3) by (cases out rule: rev_cases) (auto simp: push_page_span_snoc push_page_span_def)
  then show ?case using "2.IH" [OF ok] "2.prems"(1,2) ok by simp
qed simp

text \<open> Claim C34. The page list of a batch sends every token to the row the store assigned to it: the
  \<open>k\<close>-th token of the spans, which is token \<open>k\<close> of the window shifted by the batch's offset in its
  first page, finds there the resident physical page of its storage position, at the same row of the
  page. Whenever the spans pass the alignment check, building the list can only fail because a page
  is missing from the directory.\<close>

theorem batch_pages_translate:
  assumes "0 < pt_page_size t" and "pt_page_size t \<le> UINT32_MAX" and "spans \<noteq> []"
    and "w = ss_history (hd spans) mod pt_page_size t"
  shows "(\<forall>pages k. batch_storage_indices t spans = Inr pages \<longrightarrow> k < span_tokens spans \<longrightarrow>
      (w + k) div pt_page_size t < length pages \<and>
      storage_at spans k div pt_page_size t < length (pt_pages t) \<and>
      pages ! ((w + k) div pt_page_size t) = pt_pages t ! (storage_at spans k div pt_page_size t) \<and>
      0 \<le> pages ! ((w + k) div pt_page_size t) \<and>
      (w + k) mod pt_page_size t = storage_at spans k mod pt_page_size t) \<and>
    (\<forall>as. storage_page_spans spans (pt_page_size t) w = Inr as \<longrightarrow>
      (\<forall>p \<in> set (pages_of as). p < length (pt_pages t) \<and> 0 \<le> pt_pages t ! p) \<longrightarrow>
      (\<exists>pages. batch_storage_indices t spans = Inr pages))"
proof (intro conjI allI impI)
  let ?p = "pt_page_size t"
  have w: "w < ?p" "w mod ?p = w" "w div ?p = 0" using assms by simp_all
  have u: "u32 w = w" by (rule u32_id) (use w(1) assms(2) in linarith)
  obtain s ss where s: "spans = s # ss" using assms(3) by (cases spans) auto
  have sps: "storage_page_spans spans ?p w = page_spans_from ?p spans (ss_history s) w []"
    using assms(1) by (simp add: storage_page_spans_def s)
  have bsi: "batch_storage_indices t spans =
      (case storage_page_spans spans ?p w of Inl e \<Rightarrow> Inl e | Inr as \<Rightarrow> batch_aliases t as [])"
    using assms(4) u by (simp add: batch_storage_indices_def s)
  show "\<exists>pages. batch_storage_indices t spans = Inr pages"
    if a: "storage_page_spans spans ?p w = Inr as"
      and r: "\<forall>p \<in> set (pages_of as). p < length (pt_pages t) \<and> 0 \<le> pt_pages t ! p" for as
  proof -
    note a' = a [unfolded sps]
    obtain e where "tiles 0 as e" using page_spans_from_tiles [OF a' assms(1), of 0] w by auto
    then show ?thesis
      using batch_aliases_total [of "[]" as e t] r page_spans_from_pos [OF a' assms(1)] a bsi by simp
  qed
  fix pages k
  assume b: "batch_storage_indices t spans = Inr pages" and k: "k < span_tokens spans"
  obtain as where a: "storage_page_spans spans ?p w = Inr as" and o: "batch_aliases t as [] = Inr pages"
    using b bsi by (auto split: sum.splits)
  note a' = a [unfolded sps]
  define P where "P = concat (map (page_run ?p) spans)"
  have "pages_of as = P" using page_spans_from_pages [OF a'] by (simp add: P_def pages_of_def)
  with batch_aliases_ok [OF o] have pages: "pages = map ((!) (pt_pages t)) P"
    and dir: "\<And>p. p \<in> set P \<Longrightarrow> p < length (pt_pages t) \<and> 0 \<le> pt_pages t ! p" by simp_all
  have i: "(w + k) div ?p < length P" "P ! ((w + k) div ?p) = storage_at spans k div ?p"
    "(w + k) mod ?p = storage_at spans k mod ?p"
    using run_lookup [OF a' assms(1) k] w(2) by (simp_all add: P_def)
  have "storage_at spans k div ?p \<in> set P" using i(1,2) nth_mem by metis
  note d = dir [OF this]
  show "(w + k) div ?p < length pages" using i(1) pages by simp
  show "storage_at spans k div ?p < length (pt_pages t)" using d ..
  show g: "pages ! ((w + k) div ?p) = pt_pages t ! (storage_at spans k div ?p)"
    using i(1,2) pages by simp
  show "0 \<le> pages ! ((w + k) div ?p)" using g d by simp
  show "(w + k) mod ?p = storage_at spans k mod ?p" by (rule i(3))
qed

definition ex_spans :: "storage_span list" where
  "ex_spans =
     [\<lparr>ss_history = 6, ss_storage = 10, ss_count = 2, ss_handle = \<lparr>h_slot = 1, h_generation = 4\<rparr>\<rparr>,
      \<lparr>ss_history = 8, ss_storage = 0, ss_count = 5, ss_handle = \<lparr>h_slot = 0, h_generation = 5\<rparr>\<rparr>]"

definition ex_directory :: "unit ptab" where
  "ex_directory = \<lparr>pt_page_size = 4, pt_max = 4, pt_mode = ''identity'', pt_pages = [7, 3, 9, - 1],
     pt_owned = [True, True, True, False], pt_device = None, pt_alloc = None, pt_synced = 0, pt_bounded = True\<rparr>"

lemma ex_batch: "batch_storage_indices ex_directory ex_spans = Inr [9, 7, 3]"
  by (simp add: batch_storage_indices_def ex_directory_def ex_spans_def storage_page_spans_def span_rejected_def
      u32_def UINT64_MAX_def INT32_MAX_def span_pages_def push_page_span_def upt_rec)

theorem batch_pages_translate_witness:
  "batch_storage_indices ex_directory ex_spans = Inr [9, 7, 3] \<and>
   storage_at ex_spans 6 = 4 \<and> [9, 7, 3 :: int] ! ((2 + 6) div 4) = pt_pages ex_directory ! (4 div 4)"
proof -
  have h: "0 < pt_page_size ex_directory" "pt_page_size ex_directory \<le> UINT32_MAX" "ex_spans \<noteq> []"
    "2 = ss_history (hd ex_spans) mod pt_page_size ex_directory"
    by (simp_all add: ex_directory_def ex_spans_def UINT32_MAX_def)
  have s: "storage_at ex_spans 6 = 4" "6 < span_tokens ex_spans" "pt_page_size ex_directory = 4"
    by (simp_all add: ex_spans_def span_tokens_def ex_directory_def)
  show ?thesis using batch_pages_translate [OF h] ex_batch s by metis
qed

end
