(* ===== verification/Keep_Allocation.thy ===== *)
theory Keep_Allocation
  imports Prelude
begin

text \<open>
  The always-kept bands of the selection window: \<open>resolve_kvmem_keep_allocation\<close>
  (\<open>src/src/kvmem_store.cpp\<close>) turns the configured sink and recent bands, given in blocks, in tokens
  or left automatic (a negative value), into block counts, and rejects a pair that does not fit the
  selection budget.
\<close>

definition ceil_div_u32 :: "nat \<Rightarrow> nat \<Rightarrow> nat" where
  "ceil_div_u32 v d = (if v = 0 then 0 else u32 ((v + d - 1) div d))"

definition clamp_u32 :: "nat \<Rightarrow> nat \<Rightarrow> nat \<Rightarrow> nat" where
  "clamp_u32 v lo hi = min (max v lo) hi"

definition ceil_percent :: "nat \<Rightarrow> nat \<Rightarrow> nat" where
  "ceil_percent v percent = u32 ((v * percent + 99) div 100)"

datatype keep_source = KeepAuto | KeepTokens | KeepBlocks

record keep_allocation =
  ka_sink_target :: nat
  ka_recent_target :: nat
  ka_sink_blocks :: nat
  ka_recent_blocks :: nat
  ka_sink_effective :: nat
  ka_recent_effective :: nat
  ka_sink_source :: keep_source
  ka_recent_source :: keep_source

text \<open>What the lambda \<open>resolve_band\<close> writes through its references.\<close>

record keep_band =
  kb_target :: nat
  kb_blocks :: nat
  kb_effective :: nat
  kb_source :: keep_source

definition resolve_band :: "nat \<Rightarrow> int \<Rightarrow> int \<Rightarrow> nat \<Rightarrow> keep_band result" where
  "resolve_band block_tokens explicit_blocks explicit_tokens auto_tokens =
     (if 0 \<le> explicit_blocks
      then (if int UINT32_MAX < explicit_blocks then Inl RuntimeError
        else let blocks = nat explicit_blocks; tokens = blocks * block_tokens in
          if UINT32_MAX < tokens then Inl RuntimeError
          else Inr \<lparr>kb_target = tokens, kb_blocks = blocks, kb_effective = tokens, kb_source = KeepBlocks\<rparr>)
      else let requested = (if 0 \<le> explicit_tokens then nat explicit_tokens else auto_tokens) in
        if UINT32_MAX < requested then Inl RuntimeError
        else let blocks = ceil_div_u32 requested block_tokens; rounded = blocks * block_tokens in
          if UINT32_MAX < rounded then Inl RuntimeError
          else Inr \<lparr>kb_target = requested, kb_blocks = blocks, kb_effective = rounded,
                    kb_source = (if 0 \<le> explicit_tokens then KeepTokens else KeepAuto)\<rparr>)"

definition keep_of_bands :: "keep_band \<Rightarrow> keep_band \<Rightarrow> keep_allocation" where
  "keep_of_bands s r = \<lparr>ka_sink_target = kb_target s, ka_recent_target = kb_target r,
     ka_sink_blocks = kb_blocks s, ka_recent_blocks = kb_blocks r,
     ka_sink_effective = kb_effective s, ka_recent_effective = kb_effective r,
     ka_sink_source = kb_source s, ka_recent_source = kb_source r\<rparr>"

definition auto_sink_tokens :: "nat \<Rightarrow> nat" where
  "auto_sink_tokens select_budget = clamp_u32 (ceil_percent select_budget 1) 1024 2048"

definition auto_recent_tokens :: "nat \<Rightarrow> nat" where
  "auto_recent_tokens select_budget = clamp_u32 (ceil_percent select_budget 8) 4096 16384"

definition resolve_keep_allocation :: "nat \<Rightarrow> nat \<Rightarrow> int \<Rightarrow> int \<Rightarrow> int \<Rightarrow> int \<Rightarrow> keep_allocation result" where
  "resolve_keep_allocation block_tokens select_budget sink_blocks recent_blocks sink_tokens recent_tokens =
     (if block_tokens = 0 then Inl RuntimeError
      else if select_budget < block_tokens then Inl RuntimeError
      else if 0 \<le> sink_blocks \<and> 0 \<le> sink_tokens then Inl RuntimeError
      else if 0 \<le> recent_blocks \<and> 0 \<le> recent_tokens then Inl RuntimeError
      else case resolve_band block_tokens sink_blocks sink_tokens (auto_sink_tokens select_budget) of
          Inl e \<Rightarrow> Inl e
        | Inr s \<Rightarrow> (case resolve_band block_tokens recent_blocks recent_tokens (auto_recent_tokens select_budget) of
            Inl e \<Rightarrow> Inl e
          | Inr r \<Rightarrow> let budget_blocks = select_budget div block_tokens in
              if budget_blocks < kb_blocks s \<or> budget_blocks < kb_blocks r \<or>
                 budget_blocks < kb_blocks s + kb_blocks r
              then Inl RuntimeError else Inr (keep_of_bands s r)))"

section \<open>What a band promises\<close>

lemma ceil_div_u32_ceil:
  assumes "0 < d" and "v \<le> UINT32_MAX"
  shows "ceil_div_u32 v d = ceil_div v d"
proof (cases "v = 0")
  case True
  then show ?thesis using assms(1) by (simp add: ceil_div_u32_def)
next
  case False
  have "ceil_div v d \<le> UINT32_MAX" using ceil_div_le_self [OF assms(1), of v] assms(2) by linarith
  then have "u32 (ceil_div v d) = ceil_div v d" by (rule u32_id)
  then show ?thesis using False by (simp add: ceil_div_u32_def ceil_div_def)
qed

definition band_ok :: "nat \<Rightarrow> int \<Rightarrow> int \<Rightarrow> nat \<Rightarrow> nat \<Rightarrow> nat \<Rightarrow> nat \<Rightarrow> keep_source \<Rightarrow> bool" where
  "band_ok block_tokens explicit_blocks explicit_tokens auto_tokens target blocks effective source \<longleftrightarrow>
     effective = blocks * block_tokens \<and> target \<le> effective \<and> effective < target + block_tokens \<and>
     effective \<le> UINT32_MAX \<and>
     (if 0 \<le> explicit_blocks then source = KeepBlocks \<and> blocks = nat explicit_blocks
      else if 0 \<le> explicit_tokens then source = KeepTokens \<and> target = nat explicit_tokens
      else source = KeepAuto \<and> target = auto_tokens)"

lemma resolve_band_ok:
  assumes "0 < block_tokens" and "resolve_band block_tokens eb et auto = Inr b"
  shows "band_ok block_tokens eb et auto (kb_target b) (kb_blocks b) (kb_effective b) (kb_source b)"
proof (cases "0 \<le> eb")
  case True
  then show ?thesis using assms by (auto simp: resolve_band_def Let_def band_ok_def split: if_splits)
next
  case False
  define q where "q = (if 0 \<le> et then nat et else auto)"
  have q: "q \<le> UINT32_MAX" and b: "b = \<lparr>kb_target = q, kb_blocks = ceil_div_u32 q block_tokens,
      kb_effective = ceil_div_u32 q block_tokens * block_tokens, kb_source = (if 0 \<le> et then KeepTokens else KeepAuto)\<rparr>"
    and m: "ceil_div_u32 q block_tokens * block_tokens \<le> UINT32_MAX"
    using assms(2) False by (auto simp: resolve_band_def Let_def q_def split: if_splits)
  have c: "q \<le> ceil_div_u32 q block_tokens * block_tokens"
    "ceil_div_u32 q block_tokens * block_tokens < q + block_tokens"
    using ceil_div_bounds [OF assms(1), of q] assms(1) unfolding ceil_div_u32_ceil [OF assms(1) q]
    by (cases "q = 0"; simp)+
  show ?thesis unfolding band_ok_def b using c m False by (simp add: q_def)
qed

lemma auto_bounds:
  "1024 \<le> auto_sink_tokens n" "auto_sink_tokens n \<le> 2048"
  "4096 \<le> auto_recent_tokens n" "auto_recent_tokens n \<le> 16384"
  by (simp_all add: auto_sink_tokens_def auto_recent_tokens_def clamp_u32_def)

text \<open> An accepted keep allocation fits the selection budget and honours the configuration:
  the sink and recent bands together take at most the budget's blocks and tokens, each band is the
  least number of whole blocks that holds its target, the target is the configured value (or the
  automatic one, within its fixed limits), and nothing overflows the 32-bit token accounting. A band
  given both in blocks and in tokens is always refused.\<close>

theorem keep_allocation_within_budget:
  assumes "resolve_keep_allocation block_tokens select_budget sb rb st rt = Inr a"
  shows "0 < block_tokens \<and> ka_sink_blocks a + ka_recent_blocks a \<le> select_budget div block_tokens \<and>
    ka_sink_effective a + ka_recent_effective a \<le> select_budget \<and>
    band_ok block_tokens sb st (auto_sink_tokens select_budget)
      (ka_sink_target a) (ka_sink_blocks a) (ka_sink_effective a) (ka_sink_source a) \<and>
    band_ok block_tokens rb rt (auto_recent_tokens select_budget)
      (ka_recent_target a) (ka_recent_blocks a) (ka_recent_effective a) (ka_recent_source a) \<and>
    \<not> (0 \<le> sb \<and> 0 \<le> st) \<and> \<not> (0 \<le> rb \<and> 0 \<le> rt) \<and>
    1024 \<le> auto_sink_tokens select_budget \<and> auto_sink_tokens select_budget \<le> 2048 \<and>
    4096 \<le> auto_recent_tokens select_budget \<and> auto_recent_tokens select_budget \<le> 16384"
proof -
  obtain s r where p: "0 < block_tokens" "\<not> (0 \<le> sb \<and> 0 \<le> st)" "\<not> (0 \<le> rb \<and> 0 \<le> rt)"
    and s: "resolve_band block_tokens sb st (auto_sink_tokens select_budget) = Inr s"
    and r: "resolve_band block_tokens rb rt (auto_recent_tokens select_budget) = Inr r"
    and le: "kb_blocks s + kb_blocks r \<le> select_budget div block_tokens" and a: "a = keep_of_bands s r"
    using assms by (auto simp: resolve_keep_allocation_def Let_def split: if_splits sum.splits)
  note bs = resolve_band_ok [OF p(1) s] and br = resolve_band_ok [OF p(1) r]
  have "(kb_blocks s + kb_blocks r) * block_tokens \<le> select_budget div block_tokens * block_tokens"
    using le by (rule mult_le_mono1)
  also have "... \<le> select_budget" by (rule div_times_less_eq_dividend)
  finally have "kb_blocks s * block_tokens + kb_blocks r * block_tokens \<le> select_budget"
    by (simp only: distrib_right)
  then have "kb_effective s + kb_effective r \<le> select_budget" using bs br unfolding band_ok_def by argo
  then show ?thesis using p le bs br auto_bounds by (simp add: a keep_of_bands_def)
qed

lemma ex_keep: "resolve_keep_allocation 128 131072 (- 1) 40 1000 (- 1) =
    Inr \<lparr>ka_sink_target = 1000, ka_recent_target = 5120, ka_sink_blocks = 8, ka_recent_blocks = 40,
         ka_sink_effective = 1024, ka_recent_effective = 5120, ka_sink_source = KeepTokens,
         ka_recent_source = KeepBlocks\<rparr>"
  by (simp add: resolve_keep_allocation_def resolve_band_def ceil_div_u32_def u32_def UINT32_MAX_def keep_of_bands_def)

theorem keep_allocation_within_budget_witness:
  "resolve_keep_allocation 128 131072 (- 1) 40 1000 (- 1) =
    Inr \<lparr>ka_sink_target = 1000, ka_recent_target = 5120, ka_sink_blocks = 8, ka_recent_blocks = 40,
         ka_sink_effective = 1024, ka_recent_effective = 5120, ka_sink_source = KeepTokens,
         ka_recent_source = KeepBlocks\<rparr> \<and>
   (8 :: nat) + 40 \<le> 131072 div 128 \<and> (1024 :: nat) + 5120 \<le> 131072"
  using keep_allocation_within_budget [OF ex_keep] ex_keep by simp

end
