(* ===== verification/Store_State.thy ===== *)
theory Store_State
  imports Repository Complex_Main "HOL-Library.Sublist"
begin

text \<open>
  The block store: \<open>KvMemStore\<close> (\<open>src/src/kvmem_store.cpp\<close>, \<open>src/include/qw3/kvmem_store.hpp\<close>). It
  runs in one of two modes: legacy (\<open>repository_\<close> empty: blocks are the context in order, their index
  is their identity) and bounded (blocks are reusable physical slots of a \<open>KvMemRepository\<close>, in the
  order of a history directory). This theory holds the state, the queries both modes share, the
  legacy context growth (\<open>register_append\<close>, \<open>truncate_to\<close>), the score updates and the per-block
  metadata updates. The background policy workers (\<open>gc_\<close>, \<open>repository_gc_\<close>) are not attached; the
  foreground thread runs alone. Scores (\<open>double\<close>) are real numbers, so rounding is not modelled, and
  where the code tests \<open>isfinite\<close> on an argument, \<open>None\<close> stands for a value that is not finite.
\<close>

section \<open>Data\<close>

datatype tier = TierGPU | TierCPU | TierSSD

record block =
  bk_id :: nat
  bk_pos :: nat
  bk_tokens :: nat
  bk_tier :: tier
  bk_gpu_slot :: int
  bk_cpu_slot :: int
  bk_nvme_slot :: int
  bk_ssd_clean :: bool
  bk_dirty :: bool
  bk_in_flight :: bool
  bk_baked :: int
  bk_remaps :: nat
  bk_delta :: nat
  bk_in_ws :: bool
  bk_attn :: real
  bk_action :: real
  bk_profile :: real
  bk_retrieval :: real
  bk_generation :: nat
  bk_logical :: nat
  bk_history :: nat

definition block_init :: block where
  "block_init = \<lparr>bk_id = 0, bk_pos = 0, bk_tokens = 0, bk_tier = TierGPU, bk_gpu_slot = - 1,
     bk_cpu_slot = - 1, bk_nvme_slot = - 1, bk_ssd_clean = False, bk_dirty = False, bk_in_flight = False,
     bk_baked = - 1, bk_remaps = 0, bk_delta = 0, bk_in_ws = False, bk_attn = 0, bk_action = 0,
     bk_profile = 0, bk_retrieval = 0, bk_generation = 0, bk_logical = 0, bk_history = 0\<rparr>"

definition block_end :: "block \<Rightarrow> nat" where "block_end b = bk_pos b + bk_tokens b"

record dropped_block =
  db_id :: nat
  db_tier :: tier
  db_gpu_slot :: int
  db_cpu_slot :: int
  db_nvme_slot :: int

datatype select_policy = PolicyTopK | PolicyQuota

text \<open>The configuration fields the store reads.\<close>

record config =
  cf_gc_max_live :: nat
  cf_block_tokens :: nat
  cf_select_budget :: nat
  cf_prefill_budget :: nat
  cf_sink_blocks :: nat
  cf_recent_blocks :: nat
  cf_policy :: select_policy
  cf_action_fraction :: real
  cf_action_combine :: string
  cf_retrieval_blocks :: nat
  cf_profile_blocks :: nat
  cf_optimize_stage_out :: bool
  cf_optimize_stage_in :: bool
  cf_immutable_k :: bool
  cf_refresh_remaps :: nat
  cf_refresh_delta :: nat
  cf_max_baked :: nat
  cf_repository_blocks :: nat

text \<open>
  \<open>st_history\<close> is the \<open>std::map\<close> from history position to handle as a list sorted by key;
  \<open>st_nodes\<close> says whether a slot's preallocated map node is outside the map.
\<close>

record store =
  st_cfg :: config
  st_repo :: "repo option"
  st_flags :: "32 word list"
  st_leases :: "handle option list"
  st_history :: "(nat \<times> handle) list"
  st_nodes :: "bool list"
  st_pending :: bool
  st_runtime :: nat
  st_blocks :: "block list"
  st_total :: nat
  st_score_handles :: "handle list"
  st_scores_pending :: bool

definition ValueBacked :: "32 word" where "ValueBacked = 16"
definition RawBacked :: "32 word" where "RawBacked = 32"
definition Indexed :: "32 word" where "Indexed = 4096"

section \<open>Construction and queries\<close>

definition store_new :: "config \<Rightarrow> store result" where
  "store_new cfg =
     (if cf_action_fraction cfg < 0 \<or> 1 < cf_action_fraction cfg then Inl InvalidArgument
      else if cf_action_combine cfg \<noteq> ''quota'' \<and> cf_action_combine cfg \<noteq> ''score'' then Inl InvalidArgument
      else Inr \<lparr>st_cfg = cfg, st_repo = None, st_flags = [], st_leases = [], st_history = [], st_nodes = [],
        st_pending = False, st_runtime = 0, st_blocks = [], st_total = 0, st_score_handles = [],
        st_scores_pending = False\<rparr>)"

definition store_new_bounded :: "config \<Rightarrow> repo option \<Rightarrow> store result" where
  "store_new_bounded cfg repository =
     (case store_new cfg of Inl e \<Rightarrow> Inl e | Inr s \<Rightarrow>
       (case repository of None \<Rightarrow> Inl InvalidArgument
        | Some r \<Rightarrow>
            if cf_block_tokens cfg = 0 \<or> rp_block_tokens r \<noteq> cf_block_tokens cfg \<or>
               cf_repository_blocks cfg \<noteq> 0 \<and> cf_repository_blocks cfg \<noteq> rp_capacity r \<or>
               INT32_MAX < rp_capacity r * cf_block_tokens cfg
            then Inl InvalidArgument
            else if cf_gc_max_live cfg \<noteq> 0 \<and> cf_repository_blocks cfg = 0 then Inl InvalidArgument
            else Inr (s\<lparr>st_repo := Some r,
                   st_blocks := map (\<lambda>i. block_init\<lparr>bk_id := i\<rparr>) [0..<rp_capacity r],
                   st_leases := replicate (rp_capacity r) None, st_flags := replicate (rp_capacity r) 0,
                   st_nodes := replicate (rp_capacity r) True\<rparr>)))"

definition block_count :: "store \<Rightarrow> nat" where "block_count s = length (st_blocks s)"

definition repository_handle :: "store \<Rightarrow> nat \<Rightarrow> handle" where
  "repository_handle s i =
     (if st_repo s = None \<or> block_count s \<le> i then no_handle
      else \<lparr>h_slot = i, h_generation = bk_generation (st_blocks s ! i)\<rparr>)"

text \<open>A pin taken and dropped again: only whether it succeeded remains.\<close>

definition pinnable :: "repo \<Rightarrow> handle \<Rightarrow> bool" where
  "pinnable r h \<longleftrightarrow> snd (try_pin r h) \<noteq> None"

definition is_live :: "store \<Rightarrow> nat \<Rightarrow> bool" where
  "is_live s i \<longleftrightarrow> i < block_count s \<and>
     (case st_repo s of None \<Rightarrow> True | Some r \<Rightarrow> pinnable r (repository_handle s i))"

definition earlier :: "store \<Rightarrow> nat \<Rightarrow> nat \<Rightarrow> bool" where
  "earlier s a b = (case st_repo s of None \<Rightarrow> a < b
     | Some _ \<Rightarrow> let x = st_blocks s ! a; y = st_blocks s ! b in
         if bk_history x \<noteq> bk_history y then bk_history x < bk_history y else bk_logical x < bk_logical y)"

definition sink_block :: "store \<Rightarrow> nat \<Rightarrow> bool" where
  "sink_block s i = (case st_repo s of None \<Rightarrow> i < cf_sink_blocks (st_cfg s)
     | Some _ \<Rightarrow> bk_history (st_blocks s ! i) < cf_sink_blocks (st_cfg s) * cf_block_tokens (st_cfg s))"

definition chronological_ids :: "store \<Rightarrow> nat list" where
  "chronological_ids s = (case st_repo s of None \<Rightarrow> [0..<block_count s]
     | Some r \<Rightarrow> map (\<lambda>(_, h). h_slot h) (filter (\<lambda>(_, h). pinnable r h) (st_history s)))"

definition select_budget_tokens :: "store \<Rightarrow> nat" where
  "select_budget_tokens s = (if st_runtime s \<noteq> 0 then st_runtime s else cf_select_budget (st_cfg s))"

definition budget_blocks :: "store \<Rightarrow> nat" where
  "budget_blocks s = select_budget_tokens s div cf_block_tokens (st_cfg s)"

definition prefill_budget_blocks :: "store \<Rightarrow> nat" where
  "prefill_budget_blocks s =
     (let tokens = (if cf_prefill_budget (st_cfg s) \<noteq> 0 then cf_prefill_budget (st_cfg s)
                    else cf_select_budget (st_cfg s))
      in tokens div cf_block_tokens (st_cfg s))"

definition set_runtime_select_budget :: "store \<Rightarrow> nat \<Rightarrow> store \<times> unit result" where
  "set_runtime_select_budget s tokens =
     (let bt = cf_block_tokens (st_cfg s) in
      if tokens = 0 then (s\<lparr>st_runtime := 0\<rparr>, Inr ())
      else if cf_select_budget (st_cfg s) < tokens then (s, Inl InvalidArgument)
      else if tokens < bt \<or> tokens mod bt \<noteq> 0 then (s, Inl InvalidArgument)
      else if tokens div bt < cf_sink_blocks (st_cfg s) + cf_recent_blocks (st_cfg s)
      then (s, Inl InvalidArgument)
      else (s\<lparr>st_runtime := tokens\<rparr>, Inr ()))"

section \<open>Growing and truncating the legacy context\<close>

definition set_block :: "store \<Rightarrow> nat \<Rightarrow> (block \<Rightarrow> block) \<Rightarrow> store" where
  "set_block s i f = s\<lparr>st_blocks := (st_blocks s)[i := f (st_blocks s ! i)]\<rparr>"

definition legacy_block :: "nat \<Rightarrow> nat \<Rightarrow> nat \<Rightarrow> block" where
  "legacy_block i start n = block_init\<lparr>bk_id := i, bk_pos := start, bk_tokens := n, bk_baked := int start\<rparr>"

text \<open>The spill loop; \<open>None\<close> is a loop that does not end, which takes a block size of 0.\<close>

partial_function (option) append_blocks :: "store \<Rightarrow> nat \<Rightarrow> store option" where
  "append_blocks s remaining =
     (if remaining = 0 then Some s
      else let n = min (cf_block_tokens (st_cfg s)) remaining in
        append_blocks (s\<lparr>st_blocks := st_blocks s @ [legacy_block (block_count s) (st_total s) n],
            st_total := st_total s + n\<rparr>) (remaining - n))"

definition extend_last :: "store \<Rightarrow> nat \<Rightarrow> store \<times> nat" where
  "extend_last s n =
     (let bt = cf_block_tokens (st_cfg s); l = block_count s - 1 in
      if st_blocks s = [] \<or> bt \<le> bk_tokens (last (st_blocks s)) then (s, n)
      else let take_n = min (bt - bk_tokens (last (st_blocks s))) n in
        ((set_block s l (\<lambda>b. b\<lparr>bk_tokens := bk_tokens b + take_n\<rparr>))\<lparr>st_total := st_total s + take_n\<rparr>, n - take_n))"

definition register_append :: "store \<Rightarrow> nat \<Rightarrow> store result option" where
  "register_append s n =
     (if st_repo s \<noteq> None then Some (Inl LogicError)
      else if UINT32_MAX < st_total s + n then Some (Inl OverflowError)
      else if n = 0 then Some (Inr s)
      else case extend_last s n of (s1, remaining) \<Rightarrow> map_option Inr (append_blocks s1 remaining))"

definition drop_block :: "block \<Rightarrow> dropped_block" where
  "drop_block b = \<lparr>db_id = bk_id b, db_tier = bk_tier b, db_gpu_slot = bk_gpu_slot b,
     db_cpu_slot = bk_cpu_slot b, db_nvme_slot = bk_nvme_slot b\<rparr>"

text \<open>The popping loop, on the blocks in reverse.\<close>

fun pop_past :: "nat \<Rightarrow> block list \<Rightarrow> nat \<Rightarrow> dropped_block list \<Rightarrow> block list \<times> nat \<times> dropped_block list" where
  "pop_past token_pos [] n dropped = ([], n, dropped)"
| "pop_past token_pos (b # bs) n dropped =
     (if token_pos \<le> bk_pos b then pop_past token_pos bs (n - bk_tokens b) (dropped @ [drop_block b])
      else (b # bs, n, dropped))"

definition truncate_to :: "store \<Rightarrow> nat \<Rightarrow> store \<times> dropped_block list result" where
  "truncate_to s token_pos =
     (if st_repo s \<noteq> None then (s, Inl LogicError)
      else if st_total s \<le> token_pos then (s, Inr [])
      else case pop_past token_pos (rev (st_blocks s)) (st_total s) [] of (rest, n, dropped) \<Rightarrow>
        (case rest of
           [] \<Rightarrow> (s\<lparr>st_blocks := [], st_total := n\<rparr>, Inr dropped)
         | l # others \<Rightarrow>
             (if token_pos < block_end l
              then let keep = token_pos - bk_pos l in
                (s\<lparr>st_blocks := rev (l\<lparr>bk_tokens := keep\<rparr> # others), st_total := n - (bk_tokens l - keep)\<rparr>,
                 Inr dropped)
              else (s\<lparr>st_blocks := rev rest, st_total := n\<rparr>, Inr dropped))))"

section \<open>The legacy context is a sequence of full blocks with a partial tail\<close>

text \<open>Block \<open>i\<close> of a context of \<open>total\<close> tokens.\<close>

definition fitted :: "nat \<Rightarrow> nat \<Rightarrow> nat \<Rightarrow> block \<Rightarrow> block" where
  "fitted bt n i b = b\<lparr>bk_tokens := min bt (n - i * bt)\<rparr>"

definition contiguous :: "store \<Rightarrow> bool" where
  "contiguous s \<longleftrightarrow> st_repo s = None \<and> 0 < cf_block_tokens (st_cfg s) \<and> st_total s \<le> UINT32_MAX \<and>
     length (st_blocks s) = ceil_div (st_total s) (cf_block_tokens (st_cfg s)) \<and>
     (\<forall>i < length (st_blocks s). bk_id (st_blocks s ! i) = i \<and>
        bk_pos (st_blocks s ! i) = i * cf_block_tokens (st_cfg s) \<and>
        bk_tokens (st_blocks s ! i) = min (cf_block_tokens (st_cfg s)) (st_total s - i * cf_block_tokens (st_cfg s)))"

text \<open>The store after growing to \<open>n\<close> tokens: old blocks keep everything but their extent.\<close>

definition grown :: "store \<Rightarrow> nat \<Rightarrow> store" where
  "grown s n = (let bt = cf_block_tokens (st_cfg s) in
     s\<lparr>st_blocks := map (\<lambda>i. if i < length (st_blocks s) then fitted bt n i (st_blocks s ! i)
          else legacy_block i (i * bt) (min bt (n - i * bt))) [0..<ceil_div n bt], st_total := n\<rparr>)"

lemma ceil_div_unique:
  fixes d k v :: nat
  assumes "0 < d" and "v \<le> k * d" and "k * d < v + d"
  shows "ceil_div v d = k"
proof -
  have "ceil_div v d * d < v + d" "v \<le> ceil_div v d * d"
    using ceil_div_bounds [OF assms(1), of v] assms(1) by (cases "v = 0"; simp)+
  then have "ceil_div v d * d < k * d + d" "k * d < ceil_div v d * d + d" using assms(2,3) by linarith+
  then have "ceil_div v d * d < (k + 1) * d" "k * d < (ceil_div v d + 1) * d" by (simp_all add: distrib_right)
  then have "ceil_div v d < k + 1" "k < ceil_div v d + 1" using mult_less_cancel2 by blast+
  then show ?thesis by simp
qed

lemma ceil_div_step:
  assumes "0 < d" and "0 < n"
  shows "ceil_div (k * d + n) d = k + ceil_div n d"
proof -
  have b: "n \<le> ceil_div n d * d" "ceil_div n d * d < n + d" using ceil_div_bounds assms by blast+
  show ?thesis
    by (rule ceil_div_unique [OF assms(1)]) (use b in \<open>simp_all add: distrib_right\<close>)
qed

lemma ceil_div_small: "0 < v \<Longrightarrow> v \<le> d \<Longrightarrow> ceil_div v d = 1"
  by (rule ceil_div_unique) simp_all

lemma index_lt_ceil: "0 < d \<Longrightarrow> i < ceil_div v d \<longleftrightarrow> i * d < v"
proof
  assume d: "0 < d"
  show "i * d < v" if "i < ceil_div v d"
  proof (rule ccontr)
    assume "\<not> i * d < v"
    moreover have "0 < v" using that d by (cases "v = 0") simp_all
    ultimately have "ceil_div v d * d < i * d + d" using ceil_div_bounds(2) [OF d, of v] by linarith
    then have "ceil_div v d * d < (i + 1) * d" by simp
    then show False using that mult_less_cancel2 by (metis Suc_eq_plus1 not_less_eq)
  qed
  show "i < ceil_div v d" if "i * d < v"
    using that ceil_div_bounds(1) [OF d, of v] by (metis d le_less_trans less_le_trans mult_less_cancel2)
qed

lemma append_blocks_aligned:
  assumes "0 < cf_block_tokens (st_cfg s)" and "st_total s = length (st_blocks s) * cf_block_tokens (st_cfg s)"
  shows "append_blocks s n = Some (s\<lparr>st_blocks := st_blocks s @
      map (\<lambda>i. legacy_block i (i * cf_block_tokens (st_cfg s)) (min (cf_block_tokens (st_cfg s)) (st_total s + n - i * cf_block_tokens (st_cfg s))))
        [length (st_blocks s)..<ceil_div (st_total s + n) (cf_block_tokens (st_cfg s))],
      st_total := st_total s + n\<rparr>)"
  using assms
proof (induction n arbitrary: s rule: less_induct)
  case (less n)
  let ?bt = "cf_block_tokens (st_cfg s)" and ?m = "length (st_blocks s)"
  show ?case
  proof (cases "n = 0")
    case True
    have "ceil_div (st_total s) ?bt = ?m" unfolding less.prems(2)
      by (rule ceil_div_unique) (use less.prems(1) in simp_all)
    then show ?thesis using True by (simp add: append_blocks.simps)
  next
    case False
    define k where "k = min ?bt n"
    define t where "t = s\<lparr>st_blocks := st_blocks s @ [legacy_block (block_count s) (st_total s) k], st_total := st_total s + k\<rparr>"
    have k: "0 < k" "k \<le> n" using False less.prems(1) by (simp_all add: k_def)
    have step: "append_blocks s n = append_blocks t (n - k)"
      using False by (subst append_blocks.simps) (simp add: k_def t_def Let_def)
    have up: "[?m..<ceil_div (st_total s + n) ?bt] = ?m # [Suc ?m..<ceil_div (st_total s + n) ?bt]"
    proof -
      have "?m * ?bt < st_total s + n" using less.prems(2) False by simp
      then show ?thesis using index_lt_ceil [OF less.prems(1)] upt_conv_Cons by blast
    qed
    have head: "legacy_block (block_count s) (st_total s) k =
        legacy_block ?m (?m * ?bt) (min ?bt (st_total s + n - ?m * ?bt))"
      using less.prems(2) by (simp add: block_count_def k_def)
    show ?thesis
    proof (cases "n \<le> ?bt")
      case True
      then have "n - k = 0" by (simp add: k_def)
      moreover have "ceil_div (st_total s + n) ?bt = Suc ?m"
        using ceil_div_step [OF less.prems(1), of n ?m] ceil_div_small [of n ?bt] False True
        by (simp add: less.prems(2))
      ultimately show ?thesis
        unfolding step up using head True by (simp add: append_blocks.simps t_def k_def)
    next
      case f: False
      then have kk: "k = ?bt" by (simp add: k_def)
      have "append_blocks t (n - k) = Some (t\<lparr>st_blocks := st_blocks t @
          map (\<lambda>i. legacy_block i (i * ?bt) (min ?bt (st_total t + (n - k) - i * ?bt)))
            [length (st_blocks t)..<ceil_div (st_total t + (n - k)) ?bt], st_total := st_total t + (n - k)\<rparr>)"
        using less.IH [of "n - k" t] k less.prems by (simp add: t_def kk)
      then show ?thesis unfolding step up using head k by (simp add: t_def)
    qed
  qed
qed

lemma contiguousD:
  assumes "contiguous s"
  shows "st_repo s = None" and "0 < cf_block_tokens (st_cfg s)" and "st_total s \<le> UINT32_MAX"
    and "length (st_blocks s) = ceil_div (st_total s) (cf_block_tokens (st_cfg s))"
    and "\<And>i. i < length (st_blocks s) \<Longrightarrow> bk_id (st_blocks s ! i) = i"
    and "\<And>i. i < length (st_blocks s) \<Longrightarrow> bk_pos (st_blocks s ! i) = i * cf_block_tokens (st_cfg s)"
    and "\<And>i. i < length (st_blocks s) \<Longrightarrow> bk_tokens (st_blocks s ! i) =
      min (cf_block_tokens (st_cfg s)) (st_total s - i * cf_block_tokens (st_cfg s))"
  using assms unfolding contiguous_def by blast+

lemma grown_simps [simp]:
  "st_total (grown s n) = n" "st_cfg (grown s n) = st_cfg s" "st_repo (grown s n) = st_repo s"
  "length (st_blocks (grown s n)) = ceil_div n (cf_block_tokens (st_cfg s))"
  by (simp_all add: grown_def Let_def)

lemma grown_nth:
  "i < ceil_div n (cf_block_tokens (st_cfg s)) \<Longrightarrow> st_blocks (grown s n) ! i =
     (if i < length (st_blocks s) then fitted (cf_block_tokens (st_cfg s)) n i (st_blocks s ! i)
      else legacy_block i (i * cf_block_tokens (st_cfg s)) (min (cf_block_tokens (st_cfg s)) (n - i * cf_block_tokens (st_cfg s))))"
  by (simp add: grown_def Let_def)

lemma fitted_simps [simp]:
  "bk_id (fitted bt n i b) = bk_id b" "bk_pos (fitted bt n i b) = bk_pos b"
  "bk_tokens (fitted bt n i b) = min bt (n - i * bt)" "fitted bt n i (fitted bt m i b) = fitted bt n i b"
  "fitted bt n i (legacy_block i p q) = legacy_block i p (min bt (n - i * bt))"
  by (simp_all add: fitted_def legacy_block_def)

lemma legacy_block_simps [simp]:
  "bk_id (legacy_block i p n) = i" "bk_pos (legacy_block i p n) = p" "bk_tokens (legacy_block i p n) = n"
  by (simp_all add: legacy_block_def block_init_def)

lemma fitted_same: "bk_tokens b = min bt (n - i * bt) \<Longrightarrow> fitted bt n i b = b"
  by (simp add: fitted_def)

lemma grown_contiguous:
  assumes "contiguous s" and "n \<le> UINT32_MAX"
  shows "contiguous (grown s n)"
  unfolding contiguous_def
proof (intro conjI allI impI)
  fix i assume "i < length (st_blocks (grown s n))"
  then have i: "i < ceil_div n (cf_block_tokens (st_cfg s))" by simp
  have old: "i < length (st_blocks s) \<Longrightarrow> bk_id (st_blocks s ! i) = i"
    "i < length (st_blocks s) \<Longrightarrow> bk_pos (st_blocks s ! i) = i * cf_block_tokens (st_cfg s)"
    using contiguousD(5,6) [OF assms(1)] by blast+
  show "bk_id (st_blocks (grown s n) ! i) = i"
    "bk_pos (st_blocks (grown s n) ! i) = i * cf_block_tokens (st_cfg (grown s n))"
    "bk_tokens (st_blocks (grown s n) ! i) = min (cf_block_tokens (st_cfg (grown s n)))
       (st_total (grown s n) - i * cf_block_tokens (st_cfg (grown s n)))"
    unfolding grown_nth [OF i] using old by simp_all
qed (use contiguousD(1,2) [OF assms(1)] assms(2) in simp_all)

lemma grown_eqI:
  assumes "length bs = ceil_div n (cf_block_tokens (st_cfg s))"
    and "\<And>i. i < length bs \<Longrightarrow> bs ! i = st_blocks (grown s n) ! i"
  shows "s\<lparr>st_blocks := bs, st_total := n\<rparr> = grown s n"
proof -
  have "bs = st_blocks (grown s n)" by (rule nth_equalityI) (use assms in simp_all)
  then show ?thesis by (simp add: grown_def Let_def)
qed

lemma grown_same: "contiguous s \<Longrightarrow> grown s (st_total s) = s"
proof -
  assume c: "contiguous s"
  have "s\<lparr>st_blocks := st_blocks s, st_total := st_total s\<rparr> = grown s (st_total s)"
    by (rule grown_eqI) (use contiguousD [OF c] in \<open>simp_all add: grown_nth fitted_same\<close>)
  then show ?thesis by simp
qed

lemma grown_grown:
  assumes "contiguous s" and "st_total s \<le> a"
  shows "grown (grown s a) b = grown s b"
proof -
  let ?bt = "cf_block_tokens (st_cfg s)"
  have d: "0 < ?bt" and l: "length (st_blocks s) = ceil_div (st_total s) ?bt" using contiguousD [OF assms(1)] by simp_all
  have le: "i < ceil_div a ?bt" if "i < length (st_blocks s)" for i
    using that assms(2) unfolding l index_lt_ceil [OF d] by linarith
  have "st_blocks (grown s b) ! i = st_blocks (grown (grown s a) b) ! i" if i: "i < ceil_div b ?bt" for i
  proof (cases "i < length (st_blocks s)")
    case True
    then show ?thesis using i le [OF True] by (simp add: grown_nth)
  next
    case False
    then show ?thesis using i by (cases "i < ceil_div a ?bt") (simp_all add: grown_nth)
  qed
  then have "(grown s a)\<lparr>st_blocks := st_blocks (grown s b), st_total := b\<rparr> = grown (grown s a) b"
    by (intro grown_eqI) simp_all
  then show ?thesis by (simp add: grown_def Let_def)
qed

lemma append_blocks_grown:
  assumes "contiguous s" and "st_total s = length (st_blocks s) * cf_block_tokens (st_cfg s)"
  shows "append_blocks s n = Some (grown s (st_total s + n))"
proof -
  let ?bt = "cf_block_tokens (st_cfg s)" and ?m = "length (st_blocks s)"
  note c = contiguousD [OF assms(1)]
  have le: "?m \<le> ceil_div (st_total s + n) ?bt"
  proof (rule ccontr)
    assume "\<not> ?m \<le> ceil_div (st_total s + n) ?bt"
    then have "\<not> ceil_div (st_total s + n) ?bt * ?bt < st_total s + n \<and> ceil_div (st_total s + n) ?bt * ?bt < st_total s"
      using ceil_div_bounds(1) [OF c(2), of "st_total s + n"] c(2) assms(2) by simp
    then show False using ceil_div_bounds(1) [OF c(2), of "st_total s + n"] by linarith
  qed
  have old: "st_blocks s ! i = fitted ?bt (st_total s + n) i (st_blocks s ! i)" if "i < ?m" for i
  proof (rule fitted_same [symmetric])
    have "(i + 1) * ?bt \<le> ?m * ?bt" using that by (intro mult_le_mono1) simp
    then have "i * ?bt + ?bt \<le> st_total s" using assms(2) by simp
    then show "bk_tokens (st_blocks s ! i) = min ?bt (st_total s + n - i * ?bt)" using c(7) [OF that] by simp
  qed
  show ?thesis unfolding append_blocks_aligned [OF c(2) assms(2)]
    by (rule arg_cong [where f = Some], rule grown_eqI) (use le old in \<open>auto simp: grown_nth nth_append\<close>)
qed

lemma extend_last_grown:
  assumes c: "contiguous s" and n: "st_total s + n \<le> UINT32_MAX"
    and e: "extend_last s n = (t, r)"
  shows "\<exists>k. t = grown s (st_total s + k) \<and> n = k + r \<and>
    (r = 0 \<or> st_total s + k = length (st_blocks t) * cf_block_tokens (st_cfg s))"
proof -
  let ?bt = "cf_block_tokens (st_cfg s)" and ?m = "length (st_blocks s)"
  note d = contiguousD [OF c]
  show ?thesis
  proof (cases "st_blocks s = [] \<or> ?bt \<le> bk_tokens (last (st_blocks s))")
    case True
    then have t: "t = s" "r = n" using e by (auto simp: extend_last_def Let_def)
    have "st_total s = ?m * ?bt"
    proof (cases "st_blocks s = []")
      case True
      then have "ceil_div (st_total s) ?bt = 0" using d(4) by simp
      then have "st_total s \<le> 0" using ceil_div_bounds(1) [OF d(2), of "st_total s"] by simp
      then show ?thesis using True by simp
    next
      case False
      then have l: "?m - 1 < ?m" by simp
      have "?bt \<le> st_total s - (?m - 1) * ?bt"
        using \<open>st_blocks s = [] \<or> _\<close> d(7) [OF l] False by (simp add: last_conv_nth)
      then have "?m * ?bt \<le> st_total s" using d(2) l by (cases ?m) auto
      moreover have "st_total s \<le> ?m * ?bt" using ceil_div_bounds(1) [OF d(2), of "st_total s"] d(4) by simp
      ultimately show ?thesis by simp
    qed
    then show ?thesis using t grown_same [OF c] by (intro exI [of _ 0]) simp
  next
    case False
    define k where "k = min (?bt - bk_tokens (last (st_blocks s))) n"
    have l: "?m - 1 < ?m" "last (st_blocks s) = st_blocks s ! (?m - 1)" using False by (simp_all add: last_conv_nth)
    define q where "q = ?m - 1"
    have m: "?m = Suc q" using l(1) by (simp add: q_def)
    have tot: "st_total s = q * ?bt + bk_tokens (last (st_blocks s))" "0 < bk_tokens (last (st_blocks s))"
    proof -
      have qq: "q * ?bt < st_total s" using index_lt_ceil [OF d(2), of q "st_total s"] d(4) m by simp
      have "bk_tokens (last (st_blocks s)) = min ?bt (st_total s - q * ?bt)"
        using d(7) [OF l(1)] unfolding l(2) q_def .
      then show "st_total s = q * ?bt + bk_tokens (last (st_blocks s))" "0 < bk_tokens (last (st_blocks s))"
        using False qq by auto
    qed
    have kb: "bk_tokens (last (st_blocks s)) + k \<le> ?bt" "k \<le> n" using False by (auto simp: k_def)
    have cd: "ceil_div (st_total s + k) ?bt = Suc q"
      using ceil_div_step [OF d(2), of "bk_tokens (last (st_blocks s)) + k" q] tot kb
        ceil_div_small [of "bk_tokens (last (st_blocks s)) + k" ?bt] by (simp add: add.assoc)
    have t: "t = s\<lparr>st_blocks := (st_blocks s)[q := (st_blocks s ! q)\<lparr>bk_tokens := bk_tokens (st_blocks s ! q) + k\<rparr>],
        st_total := st_total s + k\<rparr>" "r = n - k"
      using e False by (auto simp: extend_last_def Let_def set_block_def block_count_def k_def q_def)
    have g: "t = grown s (st_total s + k)" unfolding t(1)
    proof (rule grown_eqI)
      fix i assume "i < length ((st_blocks s)[q := (st_blocks s ! q)\<lparr>bk_tokens := bk_tokens (st_blocks s ! q) + k\<rparr>])"
      then have i: "i < Suc q" using m by simp
      show "(st_blocks s)[q := (st_blocks s ! q)\<lparr>bk_tokens := bk_tokens (st_blocks s ! q) + k\<rparr>] ! i =
          st_blocks (grown s (st_total s + k)) ! i"
      proof (cases "i = q")
        case True
        then show ?thesis using i m cd tot kb l by (simp add: grown_nth fitted_def q_def [symmetric])
      next
        case f: False
        then have "(i + 1) * ?bt \<le> q * ?bt" using i by (intro mult_le_mono1) simp
        then have "bk_tokens (st_blocks s ! i) = min ?bt (st_total s + k - i * ?bt)"
          using d(7) [of i] i m tot by simp
        then show ?thesis using f i m cd by (simp add: grown_nth fitted_same)
      qed
    qed (simp add: m cd)
    have "r = 0 \<or> st_total s + k = length (st_blocks t) * ?bt"
    proof (cases "k = n")
      case False
      then have "bk_tokens (last (st_blocks s)) + k = ?bt" using \<open>\<not> (_ \<or> _)\<close> by (auto simp: k_def min_def split: if_splits)
      then show ?thesis using tot cd by (simp add: g)
    qed (simp add: t)
    then show ?thesis using g t kb by auto
  qed
qed

lemma register_append_grown:
  assumes "contiguous s" and "st_total s + n \<le> UINT32_MAX"
  shows "register_append s n = Some (Inr (grown s (st_total s + n)))"
proof (cases "n = 0")
  case True
  then show ?thesis using assms grown_same [OF assms(1)] contiguousD(1,3) [OF assms(1)] by (simp add: register_append_def)
next
  case False
  obtain t r where e: "extend_last s n = (t, r)" by fastforce
  obtain k where k: "t = grown s (st_total s + k)" "n = k + r"
    "r = 0 \<or> st_total s + k = length (st_blocks t) * cf_block_tokens (st_cfg s)"
    using extend_last_grown [OF assms e] by blast
  have ct: "contiguous t" unfolding k(1) by (rule grown_contiguous) (use assms k(2) in simp_all)
  have tot: "st_total t = st_total s + k" and cfg: "st_cfg t = st_cfg s" using k(1) by simp_all
  have "append_blocks t r = Some (grown t (st_total t + r))"
  proof (cases "r = 0")
    case True
    then show ?thesis using grown_same [OF ct] by (simp add: append_blocks.simps)
  next
    case False
    show ?thesis by (rule append_blocks_grown [OF ct]) (use False k(3) tot cfg in simp)
  qed
  moreover have "grown t (st_total t + r) = grown s (st_total s + n)"
    using grown_grown [OF assms(1), of "st_total s + k"] k(1,2) tot by (simp add: add.assoc)
  ultimately show ?thesis using False e assms(2) contiguousD(1) [OF assms(1)] by (simp add: register_append_def)
qed

lemma pop_past_rev:
  assumes "k \<le> length bs" and "\<And>i. k \<le> i \<Longrightarrow> i < length bs \<Longrightarrow> token_pos \<le> bk_pos (bs ! i)"
    and "k = 0 \<or> bk_pos (bs ! (k - 1)) < token_pos"
  shows "pop_past token_pos (rev bs) n d =
    (rev (take k bs), n - sum_list (map bk_tokens (drop k bs)), d @ map drop_block (rev (drop k bs)))"
  using assms
proof (induction bs arbitrary: n d rule: rev_induct)
  case (snoc b bs)
  show ?case
  proof (cases "k = Suc (length bs)")
    case True
    then show ?thesis using snoc.prems(3) by simp
  next
    case False
    then have k: "k \<le> length bs" using snoc.prems(1) by simp
    have "token_pos \<le> bk_pos (bs ! i)" if "k \<le> i" "i < length bs" for i
      using snoc.prems(2) [of i] that by (simp add: nth_append)
    moreover have "k = 0 \<or> bk_pos (bs ! (k - 1)) < token_pos"
      using snoc.prems(3) k by (cases k) (simp_all add: nth_append)
    moreover have "token_pos \<le> bk_pos b" using snoc.prems(2) [of "length bs"] k by simp
    ultimately show ?thesis using snoc.IH [OF k] k by (simp add: diff_diff_eq add.commute)
  qed
qed simp

lemma min_step: "min n (x + d) = min n x + min d (n - x)" for n x d :: nat
  by (auto simp: min_def)

lemma contiguous_sum_take:
  assumes "contiguous s" and "k \<le> length (st_blocks s)"
  shows "sum_list (map bk_tokens (take k (st_blocks s))) = min (st_total s) (k * cf_block_tokens (st_cfg s))"
  using assms(2)
proof (induction k)
  case (Suc k)
  have "take (Suc k) (st_blocks s) = take k (st_blocks s) @ [st_blocks s ! k]"
    using Suc.prems by (simp add: take_Suc_conv_app_nth)
  then show ?case using Suc contiguousD(7) [OF assms(1), of k]
      min_step [of "st_total s" "k * cf_block_tokens (st_cfg s)" "cf_block_tokens (st_cfg s)"]
    by (simp add: add.commute)
qed simp

lemma contiguous_sum_drop:
  assumes "contiguous s" and "k \<le> length (st_blocks s)"
  shows "st_total s - sum_list (map bk_tokens (drop k (st_blocks s))) = min (st_total s) (k * cf_block_tokens (st_cfg s))"
proof -
  note d = contiguousD [OF assms(1)]
  let ?bs = "st_blocks s"
  have "sum_list (map bk_tokens ?bs) = min (st_total s) (length ?bs * cf_block_tokens (st_cfg s))"
    using contiguous_sum_take [OF assms(1), of "length ?bs"] by simp
  then have "sum_list (map bk_tokens ?bs) = st_total s"
    using ceil_div_bounds(1) [OF d(2), of "st_total s"] d(4) by simp
  moreover have "sum_list (map bk_tokens ?bs) = sum_list (map bk_tokens (take k ?bs)) + sum_list (map bk_tokens (drop k ?bs))"
    by (metis append_take_drop_id map_append sum_list_append)
  ultimately show ?thesis using contiguous_sum_take [OF assms] by linarith
qed

lemma truncate_to_grown:
  assumes c: "contiguous s" and p: "token_pos < st_total s"
  shows "truncate_to s token_pos = (grown s token_pos,
    Inr (map drop_block (rev (drop (ceil_div token_pos (cf_block_tokens (st_cfg s))) (st_blocks s)))))"
proof -
  let ?bt = "cf_block_tokens (st_cfg s)" and ?m = "length (st_blocks s)"
  define k where "k = ceil_div token_pos ?bt"
  note d = contiguousD [OF c]
  have km: "k \<le> ?m"
  proof (rule ccontr)
    assume "\<not> k \<le> ?m"
    then have "?m < k" by simp
    then have "?m * ?bt < token_pos" using index_lt_ceil [OF d(2)] unfolding k_def by blast
    then show False using ceil_div_bounds(1) [OF d(2), of "st_total s"] p d(4) by simp
  qed
  have kp: "k = 0 \<or> bk_pos (st_blocks s ! (k - 1)) < token_pos"
    using index_lt_ceil [OF d(2), of "k - 1" token_pos] d(6) [of "k - 1"] km unfolding k_def by fastforce
  have kq: "token_pos \<le> bk_pos (st_blocks s ! i)" if "k \<le> i" "i < ?m" for i
    using index_lt_ceil [OF d(2), of i token_pos] d(6) [OF that(2)] that(1) unfolding k_def by fastforce
  define dr where "dr = map drop_block (rev (drop k (st_blocks s)))"
  have pop: "pop_past token_pos (rev (st_blocks s)) (st_total s) [] =
      (rev (take k (st_blocks s)), st_total s - sum_list (map bk_tokens (drop k (st_blocks s))), dr)"
    using pop_past_rev [of k "st_blocks s" token_pos "st_total s" "[]", OF km kq kp] by (simp add: dr_def)
  have rest: "st_total s - sum_list (map bk_tokens (drop k (st_blocks s))) = min (st_total s) (k * ?bt)"
    by (rule contiguous_sum_drop [OF c km])
  have le: "token_pos \<le> k * ?bt" using ceil_div_bounds(1) [OF d(2)] by (simp add: k_def)
  have unf: "truncate_to s token_pos = (case rev (take k (st_blocks s)) of
       [] \<Rightarrow> (s\<lparr>st_blocks := [], st_total := min (st_total s) (k * ?bt)\<rparr>, Inr dr)
     | l # others \<Rightarrow> if token_pos < block_end l
         then (s\<lparr>st_blocks := rev (l\<lparr>bk_tokens := token_pos - bk_pos l\<rparr> # others),
               st_total := min (st_total s) (k * ?bt) - (bk_tokens l - (token_pos - bk_pos l))\<rparr>, Inr dr)
         else (s\<lparr>st_blocks := rev (l # others), st_total := min (st_total s) (k * ?bt)\<rparr>, Inr dr))"
    unfolding truncate_to_def pop rest using p d(1) by (auto simp: Let_def split: list.splits)
  have fin: "s\<lparr>st_blocks := bs, st_total := token_pos\<rparr> = grown s token_pos"
    if "length bs = k" and "\<And>i. i < k \<Longrightarrow> bs ! i = fitted ?bt token_pos i (st_blocks s ! i)" for bs
    by (rule grown_eqI) (use that km in \<open>simp_all add: grown_nth k_def [symmetric]\<close>)
  have drk: "map drop_block (rev (drop (ceil_div token_pos ?bt) (st_blocks s))) = dr" by (simp add: dr_def k_def)
  show ?thesis unfolding drk
  proof (cases k)
    case 0
    then have "token_pos = 0" using le by simp
    then show "truncate_to s token_pos = (grown s token_pos, Inr dr)" using unf fin [of "[]"] 0 by simp
  next
    case (Suc q)
    have qm: "q < ?m" using km Suc by simp
    have qp: "q * ?bt < token_pos" using index_lt_ceil [OF d(2), of q token_pos] Suc by (simp add: k_def)
    define l where "l = st_blocks s ! q"
    have l: "bk_pos l = q * ?bt" "bk_tokens l = min ?bt (st_total s - q * ?bt)" using d(6,7) [OF qm] by (simp_all add: l_def)
    have tk: "take k (st_blocks s) = take q (st_blocks s) @ [l]" using qm Suc by (simp add: l_def take_Suc_conv_app_nth)
    have rv: "rev (take k (st_blocks s)) = l # rev (take q (st_blocks s))" by (simp add: tk)
    have small: "st_blocks s ! i = fitted ?bt token_pos i (st_blocks s ! i)" if "i < q" for i
    proof (rule fitted_same [symmetric])
      have "(i + 1) * ?bt \<le> q * ?bt" using that by (intro mult_le_mono1) simp
      then show "bk_tokens (st_blocks s ! i) = min ?bt (token_pos - i * ?bt)"
        using d(7) [of i] that qm qp p by simp
    qed
    have lf: "l\<lparr>bk_tokens := token_pos - bk_pos l\<rparr> = fitted ?bt token_pos q (st_blocks s ! q)"
      using le qp l Suc by (simp add: fitted_def l_def [symmetric] min_def)
    have g: "s\<lparr>st_blocks := take q (st_blocks s) @ [l\<lparr>bk_tokens := token_pos - bk_pos l\<rparr>], st_total := token_pos\<rparr> = grown s token_pos"
      by (rule fin) (use qm Suc small lf in \<open>auto simp: nth_append less_Suc_eq\<close>)
    show "truncate_to s token_pos = (grown s token_pos, Inr dr)"
    proof (cases "token_pos < block_end l")
      case True
      have mt: "min (st_total s) (k * ?bt) = q * ?bt + bk_tokens l"
        using min_step [of "st_total s" "q * ?bt" ?bt] l(2) qp p Suc by (simp add: add.commute)
      have "min (st_total s) (k * ?bt) - (bk_tokens l - (token_pos - bk_pos l)) = token_pos"
        using True mt l(1) qp unfolding block_end_def by linarith
      then show ?thesis unfolding unf rv using True g by simp
    next
      case False
      have "token_pos = k * ?bt" and kt: "min (st_total s) (k * ?bt) = token_pos" and same: "bk_tokens l = token_pos - bk_pos l"
        using False l p le Suc by (auto simp: block_end_def min_def split: if_splits)
      have "l\<lparr>bk_tokens := token_pos - bk_pos l\<rparr> = l" using same by simp
      then show ?thesis unfolding unf rv using False g kt by simp
    qed
  qed
qed

text \<open> Claim C33. Growing and truncating the legacy context keep it a contiguous sequence of full blocks
  with one partial tail; how the growth is split into calls makes no difference; and truncating back
  undoes a growth exactly, reporting just the blocks the growth had added, last first, while blocks
  that stay keep all their metadata.\<close>

theorem append_truncate_roundtrip:
  assumes "contiguous s" and "st_total s + a + b \<le> UINT32_MAX" and "0 < a"
  shows "\<exists>t. register_append s a = Some (Inr t) \<and> contiguous t \<and> st_total t = st_total s + a \<and>
    register_append t b = register_append s (a + b) \<and>
    truncate_to t (st_total s) = (s, Inr (map drop_block (rev (drop (block_count s) (st_blocks t))))) \<and>
    (\<forall>p < st_total s. fst (truncate_to t p) = fst (truncate_to s p) \<and> contiguous (fst (truncate_to s p)))"
proof (intro exI [of _ "grown s (st_total s + a)"] conjI allI impI)
  let ?t = "grown s (st_total s + a)"
  show "register_append s a = Some (Inr ?t)" using register_append_grown assms by simp
  show c: "contiguous ?t" using grown_contiguous assms by simp
  show "st_total ?t = st_total s + a" by simp
  have "register_append ?t b = Some (Inr (grown ?t (st_total ?t + b)))"
    by (rule register_append_grown [OF c]) (use assms in simp)
  then show "register_append ?t b = register_append s (a + b)"
    using register_append_grown [OF assms(1), of "a + b"] assms grown_grown [OF assms(1)]
    by (simp add: add.assoc)
  have "truncate_to ?t (st_total s) = (grown ?t (st_total s), Inr (map drop_block (rev (drop (ceil_div (st_total s)
      (cf_block_tokens (st_cfg ?t))) (st_blocks ?t)))))"
    by (rule truncate_to_grown [OF c]) (use assms in simp)
  then show "truncate_to ?t (st_total s) = (s, Inr (map drop_block (rev (drop (block_count s) (st_blocks ?t)))))"
    using grown_grown [OF assms(1)] grown_same [OF assms(1)] contiguousD(4) [OF assms(1)]
    by (simp add: block_count_def)
  fix p assume p: "p < st_total s"
  show "fst (truncate_to ?t p) = fst (truncate_to s p)"
    using truncate_to_grown [OF c, of p] truncate_to_grown [OF assms(1) p] p grown_grown [OF assms(1)] by simp
  show "contiguous (fst (truncate_to s p))"
    using truncate_to_grown [OF assms(1) p] grown_contiguous [OF assms(1)] p contiguousD(3) [OF assms(1)] by simp
qed

section \<open>An example context\<close>

definition ex_config :: config where
  "ex_config = \<lparr>cf_gc_max_live = 0, cf_block_tokens = 4, cf_select_budget = 16, cf_prefill_budget = 0,
     cf_sink_blocks = 1, cf_recent_blocks = 1, cf_policy = PolicyTopK, cf_action_fraction = 0,
     cf_action_combine = ''quota'', cf_retrieval_blocks = 0, cf_profile_blocks = 0,
     cf_optimize_stage_out = True, cf_optimize_stage_in = True, cf_immutable_k = True,
     cf_refresh_remaps = 8, cf_refresh_delta = 100, cf_max_baked = 1000, cf_repository_blocks = 0\<rparr>"

definition ex_store :: store where
  "ex_store = \<lparr>st_cfg = ex_config, st_repo = None, st_flags = [], st_leases = [], st_history = [],
     st_nodes = [], st_pending = False, st_runtime = 0,
     st_blocks = [(legacy_block 0 0 4)\<lparr>bk_attn := 3\<rparr>, legacy_block 1 4 2], st_total = 6,
     st_score_handles = [], st_scores_pending = False\<rparr>"

lemma contiguous_ex_store: "contiguous ex_store"
  by (simp add: contiguous_def ex_store_def ex_config_def ceil_div_def UINT32_MAX_def less_Suc_eq numeral_2_eq_2)

theorem append_truncate_roundtrip_witness:
  "\<exists>t. register_append ex_store 5 = Some (Inr t) \<and> contiguous t \<and> st_total t = 11 \<and>
     register_append t 3 = register_append ex_store 8 \<and> fst (truncate_to t 6) = ex_store"
proof -
  have t: "st_total ex_store = 6" by (simp add: ex_store_def)
  have "st_total ex_store + 5 + 3 \<le> UINT32_MAX" by (simp add: t UINT32_MAX_def)
  from append_truncate_roundtrip [OF contiguous_ex_store this] show ?thesis unfolding t by auto
qed

end
