(* ===== verification/Store_Selection.thy ===== *)
theory Store_Selection
  imports Store_State
begin

text \<open>
  The selectors of \<open>KvMemStore\<close> (\<open>src/src/kvmem_store.cpp\<close>): which blocks form the next working set.
  \<open>pick_topk_blocks\<close> ranks the history by the configured scores, \<open>pick_semantic_groups\<close> takes whole
  logical groups, \<open>pick_prefill_pressure_from\<close> keeps a deterministic newest window while a long
  prefill is under memory pressure. All three start from the always-kept blocks and stay within a
  budget of blocks.
\<close>

text \<open>The marks and their count, as the \<open>keep\<close> lambdas capture them.\<close>

type_synonym marks = "bool list \<times> nat"

definition keep :: "store \<Rightarrow> marks \<Rightarrow> nat \<Rightarrow> marks" where
  "keep s ks i = (case ks of (kept, n) \<Rightarrow>
     if i < block_count s \<and> is_live s i \<and> \<not> kept ! i then (kept[i := True], n + 1) else ks)"

definition keep_all :: "store \<Rightarrow> nat list \<Rightarrow> marks \<Rightarrow> marks" where
  "keep_all s ids ks = foldl (keep s) ks ids"

text \<open>\<open>for (...; ... && kept_count < budget; ...) keep(id)\<close>\<close>

definition keep_upto :: "store \<Rightarrow> nat \<Rightarrow> nat list \<Rightarrow> marks \<Rightarrow> marks" where
  "keep_upto s budget ids ks = foldl (\<lambda>ks i. if snd ks < budget then keep s ks i else ks) ks ids"

definition keep_sinks :: "store \<Rightarrow> nat \<Rightarrow> nat list \<Rightarrow> marks \<Rightarrow> marks" where
  "keep_sinks s budget order ks = keep_upto s budget (filter (sink_block s) order) ks"

text \<open>The last \<open>recent\<close> blocks, newest first.\<close>

definition keep_recent :: "store \<Rightarrow> nat \<Rightarrow> nat list \<Rightarrow> nat \<Rightarrow> marks \<Rightarrow> marks" where
  "keep_recent s budget order recent ks =
     keep_upto s budget (map (\<lambda>i. order ! (length order - 1 - i)) [0..<recent]) ks"

definition no_marks :: "store \<Rightarrow> marks" where
  "no_marks s = (replicate (block_count s) False, 0)"

definition marked_in :: "marks \<Rightarrow> nat list \<Rightarrow> nat list" where
  "marked_in ks order = filter (\<lambda>i. fst ks ! i) order"

definition validate_mandatory :: "store \<Rightarrow> nat list \<Rightarrow> unit result" where
  "validate_mandatory s ids =
     (if st_repo s \<noteq> None \<and> list_ex (\<lambda>i. \<not> is_live s i) ids then Inl RuntimeError else Inr ())"

section \<open>Top-k\<close>

definition better :: "store \<Rightarrow> (block \<Rightarrow> real) \<Rightarrow> nat \<Rightarrow> nat \<Rightarrow> bool" where
  "better s score a b =
     (let sa = score (st_blocks s ! a); sb = score (st_blocks s ! b) in
      if sa \<noteq> sb then sb < sa else earlier s b a)"

definition top_candidates :: "store \<Rightarrow> (block \<Rightarrow> real) \<Rightarrow> bool \<Rightarrow> marks \<Rightarrow> nat list" where
  "top_candidates s score positive_only ks =
     filter (\<lambda>i. \<not> fst ks ! i \<and> is_live s i \<and> (\<not> positive_only \<or> 0 < score (st_blocks s ! i)))
       [0..<block_count s]"

definition take_top :: "store \<Rightarrow> nat \<Rightarrow> nat \<Rightarrow> (block \<Rightarrow> real) \<Rightarrow> bool \<Rightarrow> marks \<Rightarrow> marks" where
  "take_top s budget quota score positive_only ks =
     (if budget \<le> snd ks \<or> quota = 0 then ks
      else let candidates = top_candidates s score positive_only ks in
        if candidates = [] then ks
        else let need = min (min quota (budget - snd ks)) (length candidates) in
          keep_all s (if need < length candidates
                      then take need (sort_by (better s score) candidates) else candidates) ks)"

text \<open>The output-attention history, or the input-attention fallback when it is empty.\<close>

definition attention_score :: "store \<Rightarrow> nat list \<Rightarrow> (nat \<times> real) list \<Rightarrow> block \<Rightarrow> real" where
  "attention_score s order prefill b =
     (if \<not> (prefill \<noteq> [] \<and> \<not> list_ex (\<lambda>i. is_live s i \<and> 0 < bk_action (st_blocks s ! i)) order)
      then bk_action b
      else case map_of prefill (if st_repo s \<noteq> None then bk_history b else bk_pos b) of
          None \<Rightarrow> 0 | Some v \<Rightarrow> v)"

definition max_score :: "(nat \<Rightarrow> real) \<Rightarrow> nat list \<Rightarrow> real" where
  "max_score f ids = foldl (\<lambda>m i. max m (f i)) 0 ids"

text \<open>Fusing the two positive streams, each normalised to sum 1 over the unkept blocks.\<close>

definition fused_scores :: "store \<Rightarrow> nat list \<Rightarrow> (block \<Rightarrow> real) \<Rightarrow> marks \<Rightarrow> (bool \<times> real list) result" where
  "fused_scores s order attention ks =
     (let ids = filter (\<lambda>i. \<not> fst ks ! i) order;
          q = (\<lambda>i. bk_retrieval (st_blocks s ! i)); a = (\<lambda>i. attention (st_blocks s ! i)) in
      if list_ex (\<lambda>i. a i < 0) ids then Inl RuntimeError
      else let qmax = max_score q ids; amax = max_score a ids;
               qsum = (if 0 < qmax then sum_list (map (\<lambda>i. max 0 (q i) / qmax) ids) else 0);
               asum = (if 0 < amax then sum_list (map (\<lambda>i. a i / amax) ids) else 0);
               aw = (if 0 < asum then (if 0 < qsum then cf_action_fraction (st_cfg s) else 1) else 0);
               qw = (if 0 < qsum then 1 - aw else 0) in
        Inr (0 < qsum \<or> 0 < asum,
          map (\<lambda>i. if i \<in> set ids
                 then (if 0 < qw then qw * (max 0 (q i) / qmax) / qsum else 0) +
                      (if 0 < aw then aw * (a i / amax) / asum else 0)
                 else 0) [0..<block_count s]))"

definition topk_fusion :: "store \<Rightarrow> nat \<Rightarrow> nat list \<Rightarrow> (nat \<times> real) list \<Rightarrow> marks \<Rightarrow> marks result" where
  "topk_fusion s budget order prefill ks =
     (case fused_scores s order (attention_score s order prefill) ks of
        Inl e \<Rightarrow> Inl e
      | Inr (some_score, fused) \<Rightarrow>
          Inr (take_top s budget (budget - snd ks)
                (if some_score then (\<lambda>b. fused ! bk_id b) else bk_retrieval) False ks))"

definition topk_action_quota :: "store \<Rightarrow> nat \<Rightarrow> nat list \<Rightarrow> (nat \<times> real) list \<Rightarrow> marks \<Rightarrow> marks" where
  "topk_action_quota s budget order prefill ks =
     (let remaining = budget - snd ks;
          action_quota = nat \<lfloor>real remaining * cf_action_fraction (st_cfg s)\<rfloor>;
          ks1 = take_top s budget (remaining - action_quota) bk_retrieval False ks;
          ks2 = take_top s budget action_quota (attention_score s order prefill) True ks1
      in take_top s budget (budget - snd ks2) bk_retrieval False ks2)"

definition topk_quotas :: "config \<Rightarrow> nat \<Rightarrow> nat \<times> nat" where
  "topk_quotas cfg remaining =
     (let rq = cf_retrieval_blocks cfg; pq = cf_profile_blocks cfg in
      if rq = 0 \<and> pq = 0 then (u32 (remaining * 2) div 3, remaining - u32 (remaining * 2) div 3)
      else if rq = 0 then (if pq < remaining then remaining - pq else 0, pq)
      else if pq = 0 then (rq, if rq < remaining then remaining - rq else 0)
      else (rq, pq))"

definition topk_quota :: "store \<Rightarrow> nat \<Rightarrow> marks \<Rightarrow> marks" where
  "topk_quota s budget ks =
     (case topk_quotas (st_cfg s) (budget - snd ks) of (rq, pq) \<Rightarrow>
        let ks2 = take_top s budget pq bk_profile False (take_top s budget rq bk_retrieval False ks) in
        if snd ks2 < budget then take_top s budget (budget - snd ks2) bk_attn False ks2 else ks2)"

text \<open>The last branch of the code spells \<open>take_top\<close> out once more, with \<open>attn_score\<close>.\<close>

definition pick_topk_blocks :: "store \<Rightarrow> nat list \<Rightarrow> (nat \<times> real) list \<Rightarrow> nat list result" where
  "pick_topk_blocks s mandatory prefill =
     (let order = chronological_ids s; budget = budget_blocks s in
      if block_count s = 0 then Inr []
      else case validate_mandatory s mandatory of Inl e \<Rightarrow> Inl e | Inr _ \<Rightarrow>
        if budget = 0 \<or> length order \<le> budget then Inr (filter (is_live s) order)
        else let recent = min (cf_recent_blocks (st_cfg s)) (length order);
                 ks1 = keep_all s mandatory (keep_sinks s budget order (no_marks s)) in
          if budget < snd ks1 then Inl RuntimeError
          else let ks = keep_recent s budget order recent ks1; cfg = st_cfg s in
            if 0 < cf_action_fraction cfg \<and> snd ks < budget
            then (if cf_action_combine cfg = ''score''
                  then (case topk_fusion s budget order prefill ks of
                          Inl e \<Rightarrow> Inl e | Inr ks' \<Rightarrow> Inr (marked_in ks' order))
                  else Inr (marked_in (topk_action_quota s budget order prefill ks) order))
            else if cf_policy cfg = PolicyQuota \<and> snd ks < budget
            then Inr (marked_in (topk_quota s budget ks) order)
            else Inr (marked_in (take_top s budget (budget - snd ks) bk_attn False ks) order))"

section \<open>The pressure window\<close>

text \<open>Resident candidates with an action score, best first.\<close>

definition resident_candidate :: "store \<Rightarrow> nat list \<Rightarrow> nat \<Rightarrow> bool" where
  "resident_candidate s order i \<longleftrightarrow> i < block_count s \<and> i \<in> set order \<and> is_live s i"

definition action_better :: "store \<Rightarrow> nat \<times> real \<Rightarrow> nat \<times> real \<Rightarrow> bool" where
  "action_better s a b = (if snd a \<noteq> snd b then snd b < snd a else earlier s (fst b) (fst a))"

definition pressure_candidates :: "store \<Rightarrow> nat list \<Rightarrow> (nat \<times> real option) list \<Rightarrow> marks \<Rightarrow>
    (nat \<times> real) list" where
  "pressure_candidates s order action ks =
     sort_by (action_better s) (filter (\<lambda>(i, v). resident_candidate s order i \<and> \<not> fst ks ! i \<and> 0 < v)
       (map (\<lambda>(i, v). (i, the v)) action))"

definition pick_prefill_pressure_from :: "store \<Rightarrow> nat list \<Rightarrow> nat list \<Rightarrow> (nat \<times> real option) list \<Rightarrow>
    nat list result" where
  "pick_prefill_pressure_from s order mandatory action =
     (if block_count s = 0 then Inr []
      else case validate_mandatory s mandatory of Inl e \<Rightarrow> Inl e | Inr _ \<Rightarrow>
        if st_repo s \<noteq> None \<and> list_ex (\<lambda>i. block_count s \<le> i) mandatory then Inl OutOfRange
        else if st_repo s \<noteq> None \<and> list_ex (\<lambda>i. i \<notin> set order) mandatory then Inl RuntimeError
        else let budget = prefill_budget_blocks s in
          if budget = 0 \<or> length order \<le> budget then Inr (filter (is_live s) order)
          else let ks = keep_all s mandatory (keep_sinks s budget order (no_marks s)) in
            if budget < snd ks then Inl RuntimeError
            else if list_ex (\<lambda>(_, v). case v of None \<Rightarrow> True | Some x \<Rightarrow> x < 0) action
            then Inl InvalidArgument
            else let ks1 = keep_upto s budget (map fst (pressure_candidates s order action ks)) ks;
                     newest = (if action = [] then rev order
                       else filter (\<lambda>i. i \<in> fst ` set action \<and> resident_candidate s order i) (rev order))
              in Inr (marked_in (keep_upto s budget newest ks1) order))"

definition pick_prefill_pressure_blocks :: "store \<Rightarrow> nat list \<Rightarrow> (nat \<times> real option) list \<Rightarrow>
    nat list result" where
  "pick_prefill_pressure_blocks s mandatory action =
     pick_prefill_pressure_from s (chronological_ids s) mandatory action"

section \<open>Whole semantic groups\<close>

record candidate =
  cd_group :: nat
  cd_first :: nat
  cd_last :: nat
  cd_score :: real

definition group_candidate :: "store \<Rightarrow> nat \<Rightarrow> nat \<times> nat \<Rightarrow> real \<Rightarrow> candidate option" where
  "group_candidate s g grp score =
     (let bt = max 1 (cf_block_tokens (st_cfg s)); n = block_count s;
          covered = block_end (last (st_blocks s)) in
      case grp of (b, e) \<Rightarrow>
        if e \<le> b \<or> covered \<le> b then None
        else let capped = min e covered; f = b div bt; l = (capped - 1) div bt in
          if n \<le> f then None
          else Some \<lparr>cd_group = g, cd_first = f, cd_last = min l (n - 1), cd_score = score\<rparr>)"

definition candidate_better :: "candidate \<Rightarrow> candidate \<Rightarrow> bool" where
  "candidate_better a b =
     (if cd_score a \<noteq> cd_score b then cd_score b < cd_score a else cd_group b < cd_group a)"

definition group_candidates :: "store \<Rightarrow> (nat \<times> nat) list \<Rightarrow> real list \<Rightarrow> candidate list" where
  "group_candidates s groups scores = sort_by candidate_better
     (List.map_filter (\<lambda>g. group_candidate s g (groups ! g) (scores ! g)) [0..<length groups])"

text \<open>One group: taken with all its blocks, or skipped; the loop stops when the budget is full.\<close>

fun take_groups :: "store \<Rightarrow> nat \<Rightarrow> candidate list \<Rightarrow> marks \<Rightarrow> marks" where
  "take_groups s budget [] ks = ks"
| "take_groups s budget (c # cs) ks =
     (let ids = [cd_first c..<Suc (cd_last c)] in
      if \<not> list_all (is_live s) ids then take_groups s budget cs ks
      else if budget - snd ks < length (filter (\<lambda>i. \<not> fst ks ! i) ids) then take_groups s budget cs ks
      else let ks1 = keep_all s ids ks in
        if snd ks1 = budget then ks1 else take_groups s budget cs ks1)"

definition pick_legacy_groups :: "store \<Rightarrow> (nat \<times> nat) list \<Rightarrow> real list \<Rightarrow> nat list \<Rightarrow> nat list result" where
  "pick_legacy_groups s groups scores mandatory =
     (let n = block_count s; budget = budget_blocks s in
      if n = 0 then Inr []
      else case validate_mandatory s mandatory of Inl e \<Rightarrow> Inl e | Inr _ \<Rightarrow>
        if length groups \<noteq> length scores then Inl RuntimeError
        else if budget = 0 \<or> n \<le> budget then Inr (filter (is_live s) [0..<n])
        else let sink = min (cf_sink_blocks (st_cfg s)) n; recent = min (cf_recent_blocks (st_cfg s)) n;
                 ks = keep_all s mandatory (keep_upto s budget [0..<sink] (no_marks s)) in
          if budget < snd ks then Inl RuntimeError
          else let ks1 = keep_upto s budget (map (\<lambda>i. n - 1 - i) [0..<recent]) ks
            in Inr (marked_in (take_groups s budget (group_candidates s groups scores) ks1) [0..<n]))"

section \<open>Groups of a bounded history\<close>

text \<open>\<open>upper_bound(begin)\<close>, one step back.\<close>

definition directory_from :: "(nat \<times> handle) list \<Rightarrow> nat \<Rightarrow> (nat \<times> handle) list" where
  "directory_from hist b = (case rev (takeWhile (\<lambda>(k, _). k \<le> b) hist) of
     [] \<Rightarrow> hist | e # _ \<Rightarrow> e # dropWhile (\<lambda>(k, _). k \<le> b) hist)"

text \<open>The lambda \<open>visit\<close> over the candidate blocks; it accumulates the covered end and the ids.\<close>

fun visit_span :: "store \<Rightarrow> nat \<Rightarrow> nat \<Rightarrow> bool \<Rightarrow> nat list \<Rightarrow> nat \<Rightarrow> nat list \<Rightarrow> (nat \<times> nat list) result" where
  "visit_span s b e whole [] covered ids = Inr (covered, ids)"
| "visit_span s b e whole (i # is) covered ids =
     (let blk = st_blocks s ! i; first = (if st_repo s \<noteq> None then bk_history blk else bk_pos blk);
          stop = first + bk_tokens blk in
      if \<not> is_live s i \<or> stop \<le> b \<or> e \<le> first then visit_span s b e whole is covered ids
      else if whole \<and> covered < first then Inl RuntimeError
      else visit_span s b e whole is (max covered (min e stop)) (ids @ [i]))"

definition history_span_blocks :: "store \<Rightarrow> nat \<Rightarrow> nat \<Rightarrow> bool \<Rightarrow> nat list result" where
  "history_span_blocks s b e whole =
     (if e \<le> b then Inr []
      else let slots = (case st_repo s of None \<Rightarrow> chronological_ids s
                 | Some _ \<Rightarrow> map (\<lambda>(_, h). h_slot h)
                     (takeWhile (\<lambda>(k, _). k < e) (directory_from (st_history s) b))) in
        case visit_span s b e whole slots b [] of
          Inl err \<Rightarrow> Inl err
        | Inr (covered, ids) \<Rightarrow> if whole \<and> covered < e then Inl RuntimeError else Inr ids)"

definition mark_unchecked :: "marks \<Rightarrow> nat \<Rightarrow> marks" where
  "mark_unchecked ks i = (case ks of (kept, n) \<Rightarrow> if \<not> kept ! i then (kept[i := True], n + 1) else ks)"

definition mark_upto :: "nat \<Rightarrow> nat list \<Rightarrow> marks \<Rightarrow> marks" where
  "mark_upto budget ids ks = foldl (\<lambda>ks i. if snd ks < budget then mark_unchecked ks i else ks) ks ids"

fun take_history_groups :: "store \<Rightarrow> nat \<Rightarrow> (nat \<times> nat) list \<Rightarrow> marks \<Rightarrow> marks" where
  "take_history_groups s budget [] ks = ks"
| "take_history_groups s budget ((b, e) # gs) ks =
     (if e \<le> b \<or> st_total s \<le> b then take_history_groups s budget gs ks
      else case history_span_blocks s b (min e (st_total s)) True of
          Inl _ \<Rightarrow> take_history_groups s budget gs ks
        | Inr ids \<Rightarrow>
            if budget - snd ks < length (filter (\<lambda>i. \<not> fst ks ! i) ids)
            then take_history_groups s budget gs ks
            else let ks1 = foldl mark_unchecked ks ids in
              if snd ks1 = budget then ks1 else take_history_groups s budget gs ks1)"

definition rank_better :: "real list \<Rightarrow> nat \<Rightarrow> nat \<Rightarrow> bool" where
  "rank_better scores a b = (if scores ! a \<noteq> scores ! b then scores ! b < scores ! a else b < a)"

definition pick_repository_groups :: "store \<Rightarrow> (nat \<times> nat) list \<Rightarrow> real list \<Rightarrow> nat list \<Rightarrow> nat list result" where
  "pick_repository_groups s groups scores mandatory =
     (if st_repo s = None \<or> length groups \<noteq> length scores then Inl InvalidArgument
      else case validate_mandatory s mandatory of Inl e \<Rightarrow> Inl e | Inr _ \<Rightarrow>
        let order = chronological_ids s; budget = budget_blocks s in
        if budget = 0 \<or> length order \<le> budget then Inr order
        else let ks = foldl mark_unchecked (mark_upto budget (filter (sink_block s) order) (no_marks s)) mandatory in
          if budget < snd ks then Inl RuntimeError
          else let recent = min (cf_recent_blocks (st_cfg s)) (length order);
                   ks1 = mark_upto budget (map (\<lambda>i. order ! (length order - 1 - i)) [0..<recent]) ks;
                   ranked = map ((!) groups) (sort_by (rank_better scores) [0..<length groups])
            in Inr (marked_in (take_history_groups s budget ranked ks1) order))"

definition pick_semantic_groups :: "store \<Rightarrow> (nat \<times> nat) list \<Rightarrow> real list \<Rightarrow> nat list \<Rightarrow> nat list result" where
  "pick_semantic_groups s groups scores mandatory =
     (if st_repo s \<noteq> None then pick_repository_groups s groups scores mandatory
      else pick_legacy_groups s groups scores mandatory)"

end
