(* ===== verification/Store_Selection_Safety.thy ===== *)
theory Store_Selection_Safety
  imports Store_Selection
begin

text \<open>
  What the selectors of \<open>KvMemStore\<close> promise. They share one device, a table of marks with its count,
  used through a marking step; the locale states the step's law and proves what the marking loops do
  once for the checked step (\<open>keep\<close>) and the unchecked one of the bounded group selector.
\<close>

section \<open>Marking loops\<close>

definition kset :: "marks \<Rightarrow> nat set" where
  "kset ks = {i. i < length (fst ks) \<and> fst ks ! i}"

definition upto_budget :: "(marks \<Rightarrow> nat \<Rightarrow> marks) \<Rightarrow> nat \<Rightarrow> nat list \<Rightarrow> marks \<Rightarrow> marks" where
  "upto_budget mark b ids ks = foldl (\<lambda>ks i. if snd ks < b then mark ks i else ks) ks ids"

locale marker =
  fixes mark :: "marks \<Rightarrow> nat \<Rightarrow> marks" and n :: nat and adm :: "nat \<Rightarrow> bool" and ok :: "nat \<Rightarrow> bool"
  assumes mark_eq: "length (fst ks) = n \<Longrightarrow> adm i \<Longrightarrow> mark ks i =
      (if ok i \<and> \<not> fst ks ! i then ((fst ks)[i := True], snd ks + 1) else ks)"
    and ok_lt: "ok i \<Longrightarrow> i < n"
begin

definition good :: "marks \<Rightarrow> bool" where
  "good ks \<longleftrightarrow> length (fst ks) = n \<and> snd ks = card (kset ks) \<and> kset ks \<subseteq> {i. ok i}"

lemma finite_kset: "finite (kset ks)"
  by (simp add: kset_def)

lemma mark_kset:
  assumes "good ks" and "adm i"
  shows "kset (mark ks i) = kset ks \<union> (if ok i then {i} else {})" and "good (mark ks i)"
proof -
  have len: "length (fst ks) = n" using assms(1) by (simp add: good_def)
  note e = mark_eq [OF len assms(2)]
  show k: "kset (mark ks i) = kset ks \<union> (if ok i then {i} else {})"
    using ok_lt [of i] len by (auto simp: e kset_def nth_list_update)
  have "snd (mark ks i) = card (kset (mark ks i))"
  proof (cases "ok i \<and> \<not> fst ks ! i")
    case True
    then have "i \<notin> kset ks" by (simp add: kset_def)
    then have "card (kset (mark ks i)) = card (kset ks) + 1" using True finite_kset [of ks] unfolding k by simp
    then show ?thesis using True assms(1) unfolding e good_def by simp
  next
    case False
    then show ?thesis using assms(1) unfolding e good_def by auto
  qed
  moreover have "kset (mark ks i) \<subseteq> {i. ok i}" using assms(1) unfolding k by (auto simp: good_def)
  moreover have "length (fst (mark ks i)) = n" using len by (simp add: e)
  ultimately show "good (mark ks i)" by (simp add: good_def)
qed

lemma mark_snd: "good ks \<Longrightarrow> adm i \<Longrightarrow> snd (mark ks i) \<le> snd ks + 1 \<and> snd ks \<le> snd (mark ks i)"
  using mark_eq [of ks i] by (auto simp: good_def)

lemma fold_mark:
  "good ks \<Longrightarrow> \<forall>i \<in> set ids. adm i \<Longrightarrow>
     good (foldl mark ks ids) \<and> kset (foldl mark ks ids) = kset ks \<union> {i \<in> set ids. ok i}"
proof (induction ids arbitrary: ks)
  case (Cons i ids)
  then show ?case using mark_kset [of ks i] by auto
qed simp

lemma fold_upto:
  "good ks \<Longrightarrow> \<forall>i \<in> set ids. adm i \<Longrightarrow>
     good (upto_budget mark b ids ks) \<and> kset ks \<subseteq> kset (upto_budget mark b ids ks) \<and>
     kset (upto_budget mark b ids ks) \<subseteq> kset ks \<union> {i \<in> set ids. ok i} \<and>
     snd (upto_budget mark b ids ks) \<le> max b (snd ks) \<and>
     (snd (upto_budget mark b ids ks) < b \<longrightarrow> kset (upto_budget mark b ids ks) = kset ks \<union> {i \<in> set ids. ok i})"
proof (induction ids arbitrary: ks)
  case (Cons i ids)
  let ?U = "{j \<in> set (i # ids). ok j}" and ?V = "{j \<in> set ids. ok j}"
  have VU: "?V \<subseteq> ?U" by auto
  show ?case
  proof (cases "snd ks < b")
    case True
    define t where "t = mark ks i"
    have t: "good t" "kset t = kset ks \<union> (if ok i then {i} else {})" "snd t \<le> snd ks + 1"
      using mark_kset [of ks i] mark_snd [of ks i] Cons.prems by (simp_all add: t_def)
    define r where "r = upto_budget mark b ids t"
    have u: "upto_budget mark b (i # ids) ks = r"
      using True by (simp add: upto_budget_def t_def r_def)
    have h: "good r" "kset t \<subseteq> kset r" "kset r \<subseteq> kset t \<union> ?V" "snd r \<le> max b (snd t)"
      "snd r < b \<longrightarrow> kset r = kset t \<union> ?V"
      using Cons.IH [OF t(1)] Cons.prems(2) unfolding r_def by simp_all
    have s: "kset t \<union> ?V = kset ks \<union> ?U" unfolding t(2) by auto
    have k: "kset ks \<subseteq> kset t" unfolding t(2) by blast
    have m: "snd r \<le> max b (snd ks)" using h(4) t(3) True by linarith
    show ?thesis unfolding u using h(1) subset_trans [OF k h(2)] h(3,5) m unfolding s by blast
  next
    case False
    define r where "r = upto_budget mark b ids ks"
    have u: "upto_budget mark b (i # ids) ks = r" using False by (simp add: upto_budget_def r_def)
    have h: "good r" "kset ks \<subseteq> kset r" "kset r \<subseteq> kset ks \<union> ?V" "snd r \<le> max b (snd ks)"
      using Cons.IH [OF Cons.prems(1)] Cons.prems(2) unfolding r_def by simp_all
    have "card (kset ks) \<le> card (kset r)" by (rule card_mono [OF finite_kset h(2)])
    then have "\<not> snd r < b" using h(1) Cons.prems(1) False by (simp add: good_def)
    then show ?thesis unfolding u using h VU by blast
  qed
qed (simp add: upto_budget_def)

text \<open>The loop takes a prefix of its list.\<close>

lemma fold_upto_prefix:
  "good ks \<Longrightarrow> \<forall>i \<in> set ids. adm i \<Longrightarrow>
     \<exists>m \<le> length ids. kset (upto_budget mark b ids ks) = kset ks \<union> {i \<in> set (take m ids). ok i}"
proof (induction ids arbitrary: ks)
  case (Cons i ids)
  show ?case
  proof (cases "snd ks < b")
    case True
    have t: "good (mark ks i)" "kset (mark ks i) = kset ks \<union> (if ok i then {i} else {})"
      using mark_kset [of ks i] Cons.prems by simp_all
    obtain m where m: "m \<le> length ids"
      "kset (upto_budget mark b ids (mark ks i)) = kset (mark ks i) \<union> {j \<in> set (take m ids). ok j}"
      using Cons.IH [OF t(1)] Cons.prems(2) by auto
    have "upto_budget mark b (i # ids) ks = upto_budget mark b ids (mark ks i)"
      using True by (simp add: upto_budget_def)
    then have "kset (upto_budget mark b (i # ids) ks) = kset ks \<union> {j \<in> set (take (Suc m) (i # ids)). ok j}"
      using m(2) t(2) by auto
    then show ?thesis using m(1) by (intro exI [of _ "Suc m"]) simp
  next
    case False
    have "upto_budget mark b ids ks = ks" for ids
      by (induction ids) (use False in \<open>simp_all add: upto_budget_def\<close>)
    then show ?thesis by (intro exI [of _ 0]) simp
  qed
qed (simp add: upto_budget_def)

text \<open>A full count of the set of allowed ids.\<close>

lemma good_le: "good ks \<Longrightarrow> snd ks \<le> card {i. ok i}"
proof -
  assume g: "good ks"
  have "finite {i. ok i}" by (rule finite_subset [of _ "{..<n}"]) (use ok_lt in auto)
  then have "card (kset ks) \<le> card {i. ok i}" using g by (intro card_mono) (auto simp: good_def)
  then show ?thesis using g by (simp add: good_def)
qed

end

interpretation kp: marker "keep s" "block_count s" "\<lambda>_. True" "is_live s" for s
proof
  fix ks :: marks and i
  show "length (fst ks) = block_count s \<Longrightarrow> keep s ks i =
      (if is_live s i \<and> \<not> fst ks ! i then ((fst ks)[i := True], snd ks + 1) else ks)"
    by (cases ks) (auto simp: keep_def is_live_def)
  show "is_live s i \<Longrightarrow> i < block_count s" by (simp add: is_live_def)
qed

interpretation mk: marker mark_unchecked n "\<lambda>i. i < n" "\<lambda>i. i < n" for n
  by unfold_locales (auto simp: mark_unchecked_def split: prod.splits)

lemma keep_upto_budget: "keep_upto s b ids ks = upto_budget (keep s) b ids ks"
  by (simp add: keep_upto_def upto_budget_def)

lemma mark_upto_budget: "mark_upto b ids ks = upto_budget mark_unchecked b ids ks"
  by (simp add: mark_upto_def upto_budget_def)

section \<open>Filling the budget\<close>

definition live_count :: "store \<Rightarrow> nat" where "live_count s = card {i. is_live s i}"

text \<open>The history order lists the live blocks, each once.\<close>

definition directory_ok :: "store \<Rightarrow> bool" where
  "directory_ok s \<longleftrightarrow> distinct (chronological_ids s) \<and> set (chronological_ids s) = {i. is_live s i}"

lemma directory_ok_legacy: "st_repo s = None \<Longrightarrow> directory_ok s"
  by (auto simp: directory_ok_def chronological_ids_def is_live_def)

lemma good_no_marks [simp]: "kp.good s (no_marks s)" "kset (no_marks s) = {}" "snd (no_marks s) = 0"
  by (auto simp: kp.good_def no_marks_def kset_def)

lemma keep_all_good:
  "kp.good s ks \<Longrightarrow> kp.good s (keep_all s ids ks) \<and>
     kset (keep_all s ids ks) = kset ks \<union> {i \<in> set ids. is_live s i}"
  unfolding keep_all_def by (rule kp.fold_mark) simp_all

lemma keep_upto_good:
  "kp.good s ks \<Longrightarrow> kp.good s (keep_upto s b ids ks) \<and> kset ks \<subseteq> kset (keep_upto s b ids ks) \<and>
     kset (keep_upto s b ids ks) \<subseteq> kset ks \<union> {i \<in> set ids. is_live s i} \<and>
     snd (keep_upto s b ids ks) \<le> max b (snd ks) \<and>
     (snd (keep_upto s b ids ks) < b \<longrightarrow> kset (keep_upto s b ids ks) = kset ks \<union> {i \<in> set ids. is_live s i})"
  unfolding keep_upto_budget by (rule kp.fold_upto) simp_all

lemma marked_in_spec:
  assumes "directory_ok s" and "kp.good s ks"
  shows "distinct (marked_in ks (chronological_ids s))" "set (marked_in ks (chronological_ids s)) = kset ks"
    "length (marked_in ks (chronological_ids s)) = snd ks"
    "subseq (marked_in ks (chronological_ids s)) (chronological_ids s)"
proof -
  show d: "distinct (marked_in ks (chronological_ids s))" using assms(1) by (simp add: marked_in_def directory_ok_def)
  show e: "set (marked_in ks (chronological_ids s)) = kset ks"
    using assms by (auto simp: marked_in_def directory_ok_def kset_def kp.good_def is_live_def)
  show "length (marked_in ks (chronological_ids s)) = snd ks"
    using distinct_card [OF d] assms(2) by (simp add: e kp.good_def)
  show "subseq (marked_in ks (chronological_ids s)) (chronological_ids s)"
    unfolding marked_in_def by (rule subseq_filter_left)
qed

lemma live_finite: "finite {i. is_live s i}"
  by (rule finite_subset [of _ "{..<block_count s}"]) (auto simp: is_live_def)

lemma top_candidates_set:
  "set (top_candidates s score pos ks) = {i. is_live s i \<and> \<not> fst ks ! i \<and> (pos \<longrightarrow> 0 < score (st_blocks s ! i))}"
  "distinct (top_candidates s score pos ks)"
  by (auto simp: top_candidates_def is_live_def)

lemma take_top_spec:
  assumes g: "kp.good s ks"
  shows "\<exists>cs. kp.good s (take_top s b quota score pos ks) \<and>
    kset (take_top s b quota score pos ks) = kset ks \<union> set cs \<and>
    distinct cs \<and> set cs \<subseteq> set (top_candidates s score pos ks) \<and>
    length cs = min (min quota (b - snd ks)) (length (top_candidates s score pos ks)) \<and>
    snd (take_top s b quota score pos ks) = snd ks + length cs \<and>
    (length cs < length (top_candidates s score pos ks) \<longrightarrow>
       cs = take (length cs) (sort_by (better s score) (top_candidates s score pos ks)))"
proof (cases "b \<le> snd ks \<or> quota = 0 \<or> top_candidates s score pos ks = []")
  case True
  then have "take_top s b quota score pos ks = ks" by (auto simp: take_top_def Let_def)
  then show ?thesis using g True by (intro exI [of _ "[]"]) auto
next
  case False
  define C where "C = top_candidates s score pos ks"
  define need where "need = min (min quota (b - snd ks)) (length C)"
  define cs where "cs = (if need < length C then take need (sort_by (better s score) C) else C)"
  have t: "take_top s b quota score pos ks = keep_all s cs ks"
    using False unfolding take_top_def Let_def C_def [symmetric] need_def [symmetric] cs_def [symmetric] by simp
  have dC: "distinct C" and sC: "set C \<subseteq> {i. is_live s i}" "set C \<inter> kset ks = {}"
    using top_candidates_set [of s score pos ks] by (auto simp: C_def kset_def)
  have l: "length cs = need" "distinct cs" using dC by (auto simp: cs_def need_def)
  have s: "set cs \<subseteq> set C" using set_take_subset [of need "sort_by (better s score) C"] by (auto simp: cs_def)
  have live: "{i \<in> set cs. is_live s i} = set cs" using s sC by auto
  note k = keep_all_good [OF g, of cs, unfolded live]
  have "snd (keep_all s cs ks) = card (kset ks \<union> set cs)" using k by (simp add: kp.good_def)
  also have "... = card (kset ks) + card (set cs)"
    by (rule card_Un_disjoint) (use s sC kp.finite_kset in auto)
  finally have n: "snd (keep_all s cs ks) = snd ks + length cs"
    using g distinct_card [OF l(2)] by (simp add: kp.good_def)
  have last: "length cs < length C \<longrightarrow> cs = take (length cs) (sort_by (better s score) C)"
    unfolding l(1) by (simp add: cs_def)
  show ?thesis unfolding t
    by (rule exI [of _ cs]) (use k l s n last in \<open>simp add: C_def need_def\<close>)
qed

text \<open>What every stage of a selector keeps: the marks grow and stay within the budget.\<close>

definition stage :: "store \<Rightarrow> nat \<Rightarrow> marks \<Rightarrow> marks \<Rightarrow> bool" where
  "stage s b ks t \<longleftrightarrow> kp.good s t \<and> kset ks \<subseteq> kset t \<and> snd t \<le> b"

lemma stage_refl: "kp.good s ks \<Longrightarrow> snd ks \<le> b \<Longrightarrow> stage s b ks ks"
  by (simp add: stage_def)

lemma stage_trans: "stage s b ks t \<Longrightarrow> stage s b t u \<Longrightarrow> stage s b ks u"
  by (auto simp: stage_def)

lemma stage_take_top:
  assumes "kp.good s ks" and "snd ks \<le> b"
  shows "stage s b ks (take_top s b quota score pos ks)"
proof -
  obtain cs where c: "kp.good s (take_top s b quota score pos ks)"
    "kset (take_top s b quota score pos ks) = kset ks \<union> set cs"
    "length cs = min (min quota (b - snd ks)) (length (top_candidates s score pos ks))"
    "snd (take_top s b quota score pos ks) = snd ks + length cs"
    using take_top_spec [OF assms(1), of b quota score pos] by blast
  have "length cs \<le> b - snd ks" unfolding c(3) by linarith
  then show ?thesis using c(1,2,4) assms(2) by (auto simp: stage_def)
qed

lemma take_top_fills:
  assumes "kp.good s ks" and "snd ks \<le> b"
  shows "snd (take_top s b (b - snd ks) score False ks) = min b (live_count s)"
proof -
  let ?C = "top_candidates s score False ks"
  have "set ?C = {i. is_live s i} - kset ks"
    using assms(1) top_candidates_set(1) [of s score False ks] by (auto simp: kset_def kp.good_def is_live_def)
  then have "length ?C = card ({i. is_live s i} - kset ks)"
    using distinct_card [OF top_candidates_set(2), of s score False ks] by simp
  also have "... = live_count s - snd ks"
    using assms(1) kp.finite_kset [of ks] by (simp add: kp.good_def live_count_def card_Diff_subset)
  finally have "length ?C = live_count s - snd ks" .
  moreover have "snd ks \<le> live_count s" using kp.good_le [OF assms(1)] by (simp add: live_count_def)
  ultimately show ?thesis
    using take_top_spec [OF assms(1), of b "b - snd ks" score False] assms(2) by auto
qed

section \<open>Top-k\<close>

lemma earlier_asym: "earlier s a b \<Longrightarrow> \<not> earlier s b a"
  by (auto simp: earlier_def Let_def split: option.splits if_splits)

lemma earlier_trans: "\<not> earlier s a b \<Longrightarrow> \<not> earlier s b c \<Longrightarrow> \<not> earlier s a c"
  by (auto simp: earlier_def Let_def split: option.splits if_splits)

lemma strict_weak_better: "strict_weak (better s score)"
  unfolding strict_weak_def better_def Let_def
  using earlier_asym [of s] earlier_trans [of s] by (smt (verit))

lemma order_count: "directory_ok s \<Longrightarrow> length (chronological_ids s) = live_count s"
  by (metis directory_ok_def distinct_card live_count_def)

lemma topk_action_quota_spec:
  assumes g: "kp.good s ks" and b: "snd ks \<le> b"
  shows "stage s b ks (topk_action_quota s b order prefill ks) \<and>
    snd (topk_action_quota s b order prefill ks) = min b (live_count s)"
proof -
  define q where "q = nat \<lfloor>real (b - snd ks) * cf_action_fraction (st_cfg s)\<rfloor>"
  define k1 where "k1 = take_top s b (b - snd ks - q) bk_retrieval False ks"
  define k2 where "k2 = take_top s b q (attention_score s order prefill) True k1"
  have s1: "stage s b ks k1" unfolding k1_def by (rule stage_take_top [OF g b])
  have s2: "stage s b k1 k2" unfolding k2_def by (rule stage_take_top) (use s1 in \<open>simp_all add: stage_def\<close>)
  have g2: "kp.good s k2" "snd k2 \<le> b" using s2 by (simp_all add: stage_def)
  have e: "topk_action_quota s b order prefill ks = take_top s b (b - snd k2) bk_retrieval False k2"
    by (simp add: topk_action_quota_def Let_def k2_def k1_def q_def)
  show ?thesis unfolding e
    using stage_trans [OF stage_trans [OF s1 s2] stage_take_top [OF g2]] take_top_fills [OF g2] by blast
qed

lemma topk_quota_spec:
  assumes g: "kp.good s ks" and b: "snd ks \<le> b" and l: "b \<le> live_count s"
  shows "stage s b ks (topk_quota s b ks) \<and> snd (topk_quota s b ks) = b"
proof -
  obtain rq pq where q: "topk_quotas (st_cfg s) (b - snd ks) = (rq, pq)" by fastforce
  define k1 where "k1 = take_top s b rq bk_retrieval False ks"
  define k2 where "k2 = take_top s b pq bk_profile False k1"
  have s1: "stage s b ks k1" unfolding k1_def by (rule stage_take_top [OF g b])
  have s2: "stage s b k1 k2" unfolding k2_def by (rule stage_take_top) (use s1 in \<open>simp_all add: stage_def\<close>)
  have g2: "kp.good s k2" "snd k2 \<le> b" using s2 by (simp_all add: stage_def)
  have e: "topk_quota s b ks = (if snd k2 < b then take_top s b (b - snd k2) bk_attn False k2 else k2)"
    by (simp add: topk_quota_def q Let_def k2_def k1_def)
  show ?thesis unfolding e
    using stage_trans [OF s1 s2] stage_trans [OF stage_trans [OF s1 s2] stage_take_top [OF g2]]
      take_top_fills [OF g2, of bk_attn] g2(2) l by auto
qed

lemma topk_fusion_spec:
  assumes g: "kp.good s ks" and b: "snd ks \<le> b" and f: "topk_fusion s b order prefill ks = Inr t"
  shows "stage s b ks t \<and> snd t = min b (live_count s)"
proof -
  obtain score where "t = take_top s b (b - snd ks) score False ks"
    using f by (auto simp: topk_fusion_def split: sum.splits prod.splits)
  then show ?thesis using stage_take_top [OF g b] take_top_fills [OF g b] by simp
qed

text \<open>The always-kept blocks, before any score is looked at.\<close>

definition pinned_blocks :: "store \<Rightarrow> nat list \<Rightarrow> nat set" where
  "pinned_blocks s mandatory = {i. is_live s i \<and> (sink_block s i \<or> i \<in> set mandatory)} \<union>
     set (drop (length (chronological_ids s) - cf_recent_blocks (st_cfg s)) (chronological_ids s))"

definition topk_marks :: "store \<Rightarrow> nat list \<Rightarrow> marks" where
  "topk_marks s mandatory = (let order = chronological_ids s; b = budget_blocks s in
     keep_recent s b order (min (cf_recent_blocks (st_cfg s)) (length order))
       (keep_all s mandatory (keep_sinks s b order (no_marks s))))"

lemma recent_set:
  "set (map (\<lambda>i. xs ! (length xs - 1 - i)) [0..<min r (length xs)]) = set (drop (length xs - r) xs)"
proof
  show "set (map (\<lambda>i. xs ! (length xs - 1 - i)) [0..<min r (length xs)]) \<subseteq> set (drop (length xs - r) xs)"
  proof
    fix x assume "x \<in> set (map (\<lambda>i. xs ! (length xs - 1 - i)) [0..<min r (length xs)])"
    then obtain i where i: "i < r" "i < length xs" "x = xs ! (length xs - 1 - i)" by auto
    have "drop (length xs - r) xs ! (length xs - 1 - i - (length xs - r)) = x"
      using i by (simp add: nth_drop)
    moreover have "length xs - 1 - i - (length xs - r) < length (drop (length xs - r) xs)" using i by simp
    ultimately show "x \<in> set (drop (length xs - r) xs)" by (metis nth_mem)
  qed
  show "set (drop (length xs - r) xs) \<subseteq> set (map (\<lambda>i. xs ! (length xs - 1 - i)) [0..<min r (length xs)])"
  proof
    fix x assume "x \<in> set (drop (length xs - r) xs)"
    then obtain j where j: "j < length xs - (length xs - r)" "x = xs ! (length xs - r + j)"
      by (auto simp: in_set_conv_nth nth_drop)
    define i where "i = length xs - 1 - (length xs - r + j)"
    have "i < r" "i < length xs" "length xs - 1 - i = length xs - r + j" using j(1) unfolding i_def by linarith+
    then have "i < min r (length xs)" "x = xs ! (length xs - 1 - i)" using j(2) by simp_all
    then show "x \<in> set (map (\<lambda>i. xs ! (length xs - 1 - i)) [0..<min r (length xs)])" by auto
  qed
qed

lemma topk_marks_spec:
  assumes d: "directory_ok s" and c: "snd (keep_all s mandatory (keep_sinks s (budget_blocks s) (chronological_ids s) (no_marks s)))
      \<le> budget_blocks s"
  shows "kp.good s (topk_marks s mandatory)" "snd (topk_marks s mandatory) \<le> budget_blocks s"
    "{i \<in> set mandatory. is_live s i} \<subseteq> kset (topk_marks s mandatory)"
    "kset (topk_marks s mandatory) \<subseteq> pinned_blocks s mandatory"
    "card (pinned_blocks s mandatory) \<le> budget_blocks s \<Longrightarrow> pinned_blocks s mandatory \<subseteq> kset (topk_marks s mandatory)"
proof -
  let ?o = "chronological_ids s" and ?b = "budget_blocks s" and ?P = "pinned_blocks s mandatory"
  define R where "R = map (\<lambda>i. ?o ! (length ?o - 1 - i)) [0..<min (cf_recent_blocks (st_cfg s)) (length ?o)]"
  define k0 where "k0 = keep_upto s ?b (filter (sink_block s) ?o) (no_marks s)"
  define k1 where "k1 = keep_all s mandatory k0"
  define k2 where "k2 = keep_upto s ?b R k1"
  have tm: "topk_marks s mandatory = k2"
    by (simp add: topk_marks_def Let_def keep_recent_def keep_sinks_def R_def k0_def k1_def k2_def)
  have o: "set ?o = {i. is_live s i}" using d by (simp add: directory_ok_def)
  have R: "set R = set (drop (length ?o - cf_recent_blocks (st_cfg s)) ?o)" unfolding R_def by (rule recent_set)
  have P: "?P = {i. is_live s i \<and> (sink_block s i \<or> i \<in> set mandatory)} \<union> set R"
    by (simp add: pinned_blocks_def R)
  have Rl: "set R \<subseteq> {i. is_live s i}" unfolding R o [symmetric] by (rule set_drop_subset)
  have h0: "kp.good s k0" "kset k0 \<subseteq> {i. is_live s i \<and> sink_block s i}" "snd k0 \<le> ?b"
    "snd k0 < ?b \<longrightarrow> kset k0 = {i. is_live s i \<and> sink_block s i}"
  proof -
    have s: "{i \<in> set (filter (sink_block s) ?o). is_live s i} = {i. is_live s i \<and> sink_block s i}" using o by auto
    note k = keep_upto_good [OF good_no_marks(1), of s ?b "filter (sink_block s) ?o", unfolded s good_no_marks,
        folded k0_def]
    show "kp.good s k0" "kset k0 \<subseteq> {i. is_live s i \<and> sink_block s i}" "snd k0 \<le> ?b"
      "snd k0 < ?b \<longrightarrow> kset k0 = {i. is_live s i \<and> sink_block s i}"
      using k by simp_all
  qed
  have h1: "kp.good s k1" "kset k1 = kset k0 \<union> {i \<in> set mandatory. is_live s i}"
    using keep_all_good [OF h0(1)] by (simp_all add: k1_def)
  have c1: "snd k1 \<le> ?b" using c by (simp add: k1_def k0_def keep_sinks_def)
  have h2: "kp.good s k2" "kset k1 \<subseteq> kset k2" "kset k2 \<subseteq> kset k1 \<union> {i \<in> set R. is_live s i}" "snd k2 \<le> max ?b (snd k1)"
    "snd k2 < ?b \<longrightarrow> kset k2 = kset k1 \<union> {i \<in> set R. is_live s i}"
    using keep_upto_good [OF h1(1), of ?b R] unfolding k2_def by blast+
  show "kp.good s (topk_marks s mandatory)" unfolding tm by (rule h2(1))
  show "snd (topk_marks s mandatory) \<le> ?b" unfolding tm using h2(4) c1 by simp
  show "{i \<in> set mandatory. is_live s i} \<subseteq> kset (topk_marks s mandatory)" unfolding tm using h1(2) h2(2) by blast
  show sub: "kset (topk_marks s mandatory) \<subseteq> ?P" unfolding tm P using h2(3) h1(2) h0(2) by blast
  assume le: "card ?P \<le> ?b"
  have fP: "finite ?P" unfolding P by (rule finite_subset [OF _ live_finite [of s]]) (use Rl in auto)
  have full: "?P \<subseteq> kset k" if "kp.good s k" "kset k \<subseteq> ?P" "\<not> snd k < ?b" for k
  proof -
    have "card (kset k) = card ?P"
      using that le card_mono [OF fP that(2)] by (simp add: kp.good_def)
    then show ?thesis using card_subset_eq [OF fP that(2)] by simp
  qed
  show "?P \<subseteq> kset (topk_marks s mandatory)" unfolding tm
  proof (cases "snd k2 < ?b")
    case False
    then show "?P \<subseteq> kset k2" using full [OF h2(1)] sub tm by simp
  next
    case True
    have k: "kset k2 = kset k1 \<union> set R" using h2(5) True Rl by blast
    have "card (kset k0) \<le> card (kset k2)" using h1(2) h2(2) by (intro card_mono kp.finite_kset) blast
    then have "snd k0 < ?b" using True h0(1) h2(1) by (simp add: kp.good_def)
    then show "?P \<subseteq> kset k2" unfolding k P h1(2) using h0(4) by blast
  qed
qed

lemma topk_branches:
  assumes d: "directory_ok s" and p: "pick_topk_blocks s mandatory prefill = Inr ids"
    and n: "block_count s \<noteq> 0" and big: "budget_blocks s \<noteq> 0" "budget_blocks s < length (chronological_ids s)"
  shows "snd (keep_all s mandatory (keep_sinks s (budget_blocks s) (chronological_ids s) (no_marks s))) \<le> budget_blocks s"
    and "\<exists>t. ids = marked_in t (chronological_ids s) \<and> stage s (budget_blocks s) (topk_marks s mandatory) t \<and>
      snd t = budget_blocks s"
    and "\<not> (0 < cf_action_fraction (st_cfg s)) \<Longrightarrow> cf_policy (st_cfg s) = PolicyTopK \<Longrightarrow>
      ids = marked_in (take_top s (budget_blocks s) (budget_blocks s - snd (topk_marks s mandatory)) bk_attn False
        (topk_marks s mandatory)) (chronological_ids s)"
proof -
  let ?o = "chronological_ids s" and ?b = "budget_blocks s" and ?cfg = "st_cfg s"
  define k1 where "k1 = keep_all s mandatory (keep_sinks s ?b ?o (no_marks s))"
  define ks where "ks = topk_marks s mandatory"
  have small: "\<not> (?b = 0 \<or> length ?o \<le> ?b)" using big by linarith
  have main: "(if ?b < snd k1 then Inl RuntimeError
       else if 0 < cf_action_fraction ?cfg \<and> snd ks < ?b
            then (if cf_action_combine ?cfg = ''score''
                  then (case topk_fusion s ?b ?o prefill ks of Inl e \<Rightarrow> Inl e | Inr ks' \<Rightarrow> Inr (marked_in ks' ?o))
                  else Inr (marked_in (topk_action_quota s ?b ?o prefill ks) ?o))
            else if cf_policy ?cfg = PolicyQuota \<and> snd ks < ?b then Inr (marked_in (topk_quota s ?b ks) ?o)
            else Inr (marked_in (take_top s ?b (?b - snd ks) bk_attn False ks) ?o)) = Inr ids"
  proof (cases "validate_mandatory s mandatory")
    case (Inl e)
    then show ?thesis using p n by (simp add: pick_topk_blocks_def)
  next
    case (Inr u)
    then show ?thesis using p n small
      unfolding pick_topk_blocks_def topk_marks_def ks_def k1_def Let_def by simp
  qed
  show k1: "snd (keep_all s mandatory (keep_sinks s ?b ?o (no_marks s))) \<le> ?b"
    using main unfolding k1_def [symmetric] by (simp split: if_splits)
  have g: "kp.good s ks" "snd ks \<le> ?b" using topk_marks_spec(1,2) [OF d k1] by (simp_all add: ks_def)
  have l: "?b \<le> live_count s" using big order_count [OF d] by simp
  then have m: "min ?b (live_count s) = ?b" by simp
  show "ids = marked_in (take_top s ?b (?b - snd (topk_marks s mandatory)) bk_attn False (topk_marks s mandatory)) ?o"
    if "\<not> (0 < cf_action_fraction ?cfg)" "cf_policy ?cfg = PolicyTopK"
    using main that unfolding ks_def [symmetric] by (simp split: if_splits)
  show "\<exists>t. ids = marked_in t ?o \<and> stage s ?b (topk_marks s mandatory) t \<and> snd t = ?b"
    unfolding ks_def [symmetric]
  proof (cases "0 < cf_action_fraction ?cfg \<and> snd ks < ?b")
    case True
    show "\<exists>t. ids = marked_in t ?o \<and> stage s ?b ks t \<and> snd t = ?b"
    proof (cases "cf_action_combine ?cfg = ''score''")
      case True
      then obtain t where t: "topk_fusion s ?b ?o prefill ks = Inr t" "ids = marked_in t ?o"
        using main \<open>_ \<and> _\<close> by (auto split: if_splits sum.splits)
      have "stage s ?b ks t \<and> snd t = ?b" using topk_fusion_spec [OF g t(1)] m by simp
      then show ?thesis using t(2) by blast
    next
      case False
      then have "ids = marked_in (topk_action_quota s ?b ?o prefill ks) ?o"
        using main \<open>_ \<and> _\<close> by (simp split: if_splits)
      moreover have "stage s ?b ks (topk_action_quota s ?b ?o prefill ks) \<and> snd (topk_action_quota s ?b ?o prefill ks) = ?b"
        using topk_action_quota_spec [OF g, of ?o prefill] m by simp
      ultimately show ?thesis by blast
    qed
  next
    case f: False
    show "\<exists>t. ids = marked_in t ?o \<and> stage s ?b ks t \<and> snd t = ?b"
    proof (cases "cf_policy ?cfg = PolicyQuota \<and> snd ks < ?b")
      case True
      then have "ids = marked_in (topk_quota s ?b ks) ?o" using main f by (simp split: if_splits)
      then show ?thesis using topk_quota_spec [OF g l] by blast
    next
      case False
      then have "ids = marked_in (take_top s ?b (?b - snd ks) bk_attn False ks) ?o" using main f by (simp split: if_splits)
      moreover have "stage s ?b ks (take_top s ?b (?b - snd ks) bk_attn False ks) \<and>
          snd (take_top s ?b (?b - snd ks) bk_attn False ks) = ?b"
        using stage_take_top [OF g, of "?b - snd ks" bk_attn False] take_top_fills [OF g, of bk_attn] m by simp
      ultimately show ?thesis by blast
    qed
  qed
qed

lemma topk_selection_spec:
  assumes "directory_ok s" and "pick_topk_blocks s mandatory prefill = Inr ids"
  shows "distinct ids \<and> subseq ids (chronological_ids s) \<and> set ids \<subseteq> {i. is_live s i} \<and>
    length ids = (if budget_blocks s = 0 then live_count s else min (budget_blocks s) (live_count s)) \<and>
    {i \<in> set mandatory. is_live s i} \<subseteq> set ids \<and>
    (budget_blocks s = 0 \<or> card (pinned_blocks s mandatory) \<le> budget_blocks s \<longrightarrow> pinned_blocks s mandatory \<subseteq> set ids)"
proof -
  let ?o = "chronological_ids s" and ?b = "budget_blocks s"
  have d: "distinct ?o" "set ?o = {i. is_live s i}" and len: "length ?o = live_count s"
    using assms(1) order_count by (simp_all add: directory_ok_def)
  have all: ?thesis if "ids = ?o" "?b = 0 \<or> live_count s \<le> ?b"
  proof -
    have "pinned_blocks s mandatory \<subseteq> set ?o"
      using set_drop_subset [of "length ?o - cf_recent_blocks (st_cfg s)" ?o] d(2) by (auto simp: pinned_blocks_def)
    then show ?thesis using that d len by auto
  qed
  show ?thesis
  proof (cases "block_count s = 0")
    case True
    then have "ids = []" using assms(2) by (simp add: pick_topk_blocks_def)
    moreover have "set ?o = {}" using True d(2) by (auto simp: is_live_def)
    ultimately show ?thesis using all len by simp
  next
    case n: False
    show ?thesis
    proof (cases "?b = 0 \<or> length ?o \<le> ?b")
      case True
      have "ids = filter (is_live s) ?o"
      proof (cases "validate_mandatory s mandatory")
        case (Inl e)
        then show ?thesis using assms(2) n by (simp add: pick_topk_blocks_def)
      next
        case (Inr u)
        then show ?thesis using assms(2) n True unfolding pick_topk_blocks_def Let_def by simp
      qed
      then have "ids = ?o" using d(2) by (auto simp: filter_id_conv)
      then show ?thesis using all True len by simp
    next
      case False
      then have big: "?b \<noteq> 0" "?b < length ?o" by simp_all
      note br = topk_branches [OF assms(1,2) n big]
      obtain t where t: "ids = marked_in t ?o" "stage s ?b (topk_marks s mandatory) t" "snd t = ?b" using br(2) by blast
      have g: "kp.good s t" and sub: "kset (topk_marks s mandatory) \<subseteq> kset t" using t(2) by (simp_all add: stage_def)
      note mi = marked_in_spec [OF assms(1) g, folded t(1)]
      note tm = topk_marks_spec [OF assms(1) br(1)]
      have "length ids = min ?b (live_count s)" using mi(3) t(3) big len by simp
      moreover have "kset t \<subseteq> {i. is_live s i}" using g by (simp add: kp.good_def)
      ultimately show ?thesis unfolding mi(2) using mi(1,4) tm(3,5) sub big(1) by auto
    qed
  qed
qed

text \<open> Claim C27. A top-k selection uses exactly its budget: in every configuration (plain, quota, action
  quota, score fusion) the selected blocks are live, in history order, each once; they are as many
  as the budget allows and the history has; every mandatory block is among them; and the whole
  always-kept set - sinks, mandatory and recent blocks - is, as soon as it fits.\<close>

theorem topk_selection_within_budget:
  assumes "directory_ok s" and "pick_topk_blocks s mandatory prefill = Inr ids"
  shows "distinct ids \<and> subseq ids (chronological_ids s) \<and> set ids \<subseteq> {i. is_live s i} \<and>
    length ids = (if budget_blocks s = 0 then live_count s else min (budget_blocks s) (live_count s)) \<and>
    {i \<in> set mandatory. is_live s i} \<subseteq> set ids \<and>
    (budget_blocks s = 0 \<or> card (pinned_blocks s mandatory) \<le> budget_blocks s \<longrightarrow> pinned_blocks s mandatory \<subseteq> set ids)"
  using topk_selection_spec [OF assms] .

text \<open> In the plain configuration the budget goes to the best blocks: beyond the always-kept
  set, no live block that was left out has a higher score than a block that was chosen, and of two
  equal scores the later block wins.\<close>

theorem topk_keeps_best:
  assumes "directory_ok s" and "pick_topk_blocks s mandatory prefill = Inr ids"
    and "\<not> 0 < cf_action_fraction (st_cfg s)" and "cf_policy (st_cfg s) = PolicyTopK"
    and "budget_blocks s \<noteq> 0" and "is_live s out" and "out \<notin> set ids"
    and "chosen \<in> set ids" and "chosen \<notin> pinned_blocks s mandatory"
  shows "bk_attn (st_blocks s ! out) < bk_attn (st_blocks s ! chosen) \<or>
    bk_attn (st_blocks s ! out) = bk_attn (st_blocks s ! chosen) \<and> \<not> earlier s chosen out"
proof -
  let ?o = "chronological_ids s" and ?b = "budget_blocks s"
  have o: "set ?o = {i. is_live s i}" using assms(1) by (simp add: directory_ok_def)
  have n: "block_count s \<noteq> 0" using assms(6) by (auto simp: is_live_def)
  have len: "?b < length ?o"
  proof (rule ccontr)
    assume "\<not> ?b < length ?o"
    then have "length ids = card {i. is_live s i}" "distinct ids" "set ids \<subseteq> {i. is_live s i}"
      using topk_selection_spec [OF assms(1,2)] order_count [OF assms(1)] assms(5)
      by (auto simp: live_count_def)
    then have "set ids = {i. is_live s i}" using card_subset_eq [OF live_finite] distinct_card by metis
    then show False using assms(6,7) by simp
  qed
  note br = topk_branches [OF assms(1,2) n assms(5) len]
  define ks where "ks = topk_marks s mandatory"
  define t where "t = take_top s ?b (?b - snd ks) bk_attn False ks"
  have ids: "ids = marked_in t ?o" using br(3) [OF assms(3,4)] by (simp add: t_def ks_def)
  have g: "kp.good s ks" and sub: "kset ks \<subseteq> pinned_blocks s mandatory"
    using topk_marks_spec(1,4) [OF assms(1) br(1)] by (simp_all add: ks_def)
  define C where "C = top_candidates s bk_attn False ks"
  obtain cs where c: "kp.good s t" "kset t = kset ks \<union> set cs"
    "length cs < length C \<longrightarrow> cs = take (length cs) (sort_by (better s bk_attn) C)" "distinct cs" "set cs \<subseteq> set C"
    using take_top_spec [OF g, of ?b "?b - snd ks" bk_attn False] unfolding t_def [symmetric] C_def [symmetric] by blast
  have "set ids = kset t" using marked_in_spec(2) [OF assms(1) c(1)] ids by simp
  then have ch: "chosen \<in> set cs" and ou: "out \<notin> set cs" "out \<notin> kset ks" using assms(7-9) c(2) sub by auto
  have "out \<in> set C"
    using ou(2) assms(6) g top_candidates_set(1) [of s bk_attn False ks]
    by (auto simp: C_def kset_def kp.good_def is_live_def)
  then have "set cs \<noteq> set C" using ou by auto
  then have "length cs < length C"
    using c(4,5) top_candidates_set(2) [of s bk_attn False ks] unfolding C_def [symmetric]
    by (metis card_subset_eq distinct_card finite_set card_mono le_neq_implies_less)
  then have cs: "cs = take (length cs) (sort_by (better s bk_attn) C)" using c(3) by simp
  define S where "S = sort_by (better s bk_attn) C"
  have so: "sorted_wrt (\<lambda>a b. \<not> better s bk_attn b a) (take (length cs) S @ drop (length cs) S)"
    using sorted_sort_by [OF strict_weak_better] by (simp add: S_def)
  have "out \<in> set S" using \<open>out \<in> set C\<close> by (simp add: S_def)
  then have "out \<in> set (drop (length cs) S)" using ou cs unfolding S_def [symmetric]
    by (metis Un_iff append_take_drop_id set_append)
  moreover have "chosen \<in> set (take (length cs) S)" using ch cs unfolding S_def [symmetric] by simp
  ultimately have "\<not> better s bk_attn out chosen" using so unfolding sorted_wrt_append by blast
  then show ?thesis by (auto simp: better_def Let_def split: if_splits)
qed

section \<open>Examples\<close>

definition ex_history :: store where
  "ex_history = ex_store\<lparr>st_total := 23,
     st_blocks := map (\<lambda>i. (legacy_block i (i * 4) (if i = 5 then 3 else 4))
       \<lparr>bk_attn := [0, 5, 1, 9, 2, 0] ! i\<rparr>) [0..<6]\<rparr>"

lemma ex_blocks: "st_blocks ex_history =
  [legacy_block 0 0 4, (legacy_block 1 4 4)\<lparr>bk_attn := 5\<rparr>, (legacy_block 2 8 4)\<lparr>bk_attn := 1\<rparr>,
   (legacy_block 3 12 4)\<lparr>bk_attn := 9\<rparr>, (legacy_block 4 16 4)\<lparr>bk_attn := 2\<rparr>, legacy_block 5 20 3]"
proof -
  have "[0..<6] = [0, 1, 2, 3, 4, 5 :: nat]" by (simp add: upt_rec)
  then show ?thesis by (simp add: ex_history_def legacy_block_def block_init_def)
qed

lemma ex_cfg: "st_cfg ex_history = ex_config" "st_repo ex_history = None" "st_runtime ex_history = 0" "st_total ex_history = 23"
  by (simp_all add: ex_history_def ex_store_def)

lemma ex_live_ids: "is_live ex_history i \<longleftrightarrow> i < 6" "block_count ex_history = 6"
  by (auto simp: is_live_def block_count_def ex_cfg ex_blocks)

lemma ex_order: "chronological_ids ex_history = [0, 1, 2, 3, 4, 5]"
  by (simp add: chronological_ids_def ex_cfg ex_live_ids upt_rec)

lemma ex_no_marks: "no_marks ex_history = ([False, False, False, False, False, False], 0)"
  by (simp add: no_marks_def ex_live_ids numeral_eq_Suc)

lemma ex_topk: "pick_topk_blocks ex_history [2] [] = Inr [0, 2, 3, 5]"
  by (simp add: pick_topk_blocks_def ex_order ex_live_ids ex_cfg validate_mandatory_def budget_blocks_def
      select_budget_tokens_def ex_config_def keep_sinks_def keep_upto_def keep_recent_def keep_all_def keep_def ex_no_marks
      sink_block_def take_top_def top_candidates_def better_def ex_blocks earlier_def marked_in_def upt_rec
      legacy_block_def block_init_def)

theorem topk_selection_within_budget_witness:
  "pick_topk_blocks ex_history [2] [] = Inr [0, 2, 3, 5] \<and> distinct [0, 2, 3, 5 :: nat] \<and>
   length [0, 2, 3, 5 :: nat] = min (budget_blocks ex_history) (live_count ex_history)"
proof -
  have "budget_blocks ex_history = 4" by (simp add: budget_blocks_def select_budget_tokens_def ex_cfg ex_config_def)
  then show ?thesis
    using topk_selection_within_budget [OF directory_ok_legacy ex_topk] ex_topk by (simp add: ex_cfg)
qed

theorem topk_keeps_best_witness:
  "bk_attn (st_blocks ex_history ! 1) < bk_attn (st_blocks ex_history ! 3) \<or>
   bk_attn (st_blocks ex_history ! 1) = bk_attn (st_blocks ex_history ! 3) \<and> \<not> earlier ex_history 3 1"
proof (rule topk_keeps_best [OF directory_ok_legacy ex_topk])
  have "drop 5 [0, 1, 2, 3, 4, 5 :: nat] = [5]" by simp
  then show "3 \<notin> pinned_blocks ex_history [2]"
    by (simp add: pinned_blocks_def ex_order ex_cfg ex_config_def ex_live_ids sink_block_def)
qed (simp_all add: ex_cfg ex_config_def ex_live_ids budget_blocks_def select_budget_tokens_def)

end
