(* ===== verification/Store_Windows.thy ===== *)
theory Store_Windows
  imports Store_Selection_Safety
begin

text \<open>
  The pressure window of a long prefill and the whole-group selection of \<open>KvMemStore\<close>
  (\<open>src/src/kvmem_store.cpp\<close>): budgets, the newest suffix, and groups taken as a whole.
\<close>

section \<open>The pressure window\<close>

text \<open>Sinks up to the budget, then the mandatory blocks.\<close>

definition pressure_marks :: "store \<Rightarrow> nat list \<Rightarrow> nat list \<Rightarrow> marks" where
  "pressure_marks s order mandatory =
     keep_all s mandatory (keep_sinks s (prefill_budget_blocks s) order (no_marks s))"

lemma pressure_marks_good:
  "kp.good s (pressure_marks s order mandatory)"
  "{i \<in> set mandatory. is_live s i} \<subseteq> kset (pressure_marks s order mandatory)"
proof -
  have g: "kp.good s (keep_sinks s (prefill_budget_blocks s) order (no_marks s))"
    unfolding keep_sinks_def using keep_upto_good [OF good_no_marks(1)] by blast
  show "kp.good s (pressure_marks s order mandatory)"
    "{i \<in> set mandatory. is_live s i} \<subseteq> kset (pressure_marks s order mandatory)"
    using keep_all_good [OF g, of mandatory] by (simp_all add: pressure_marks_def)
qed

lemma marked_in_order:
  assumes "distinct order" and "set order = {i. is_live s i}" and "kp.good s ks"
  shows "distinct (marked_in ks order)" "set (marked_in ks order) = kset ks"
    "length (marked_in ks order) = snd ks" "subseq (marked_in ks order) order"
proof -
  show d: "distinct (marked_in ks order)" using assms(1) by (simp add: marked_in_def)
  show e: "set (marked_in ks order) = kset ks"
    using assms(2,3) by (auto simp: marked_in_def kset_def kp.good_def is_live_def)
  show "length (marked_in ks order) = snd ks"
    using distinct_card [OF d] assms(3) by (simp add: e kp.good_def)
  show "subseq (marked_in ks order) order" unfolding marked_in_def by (rule subseq_filter_left)
qed

lemma keep_upto_prefix:
  assumes "kp.good s ks"
  shows "\<exists>m \<le> length ids. kset (keep_upto s b ids ks) = kset ks \<union> {i \<in> set (take m ids). is_live s i}"
  unfolding keep_upto_budget by (rule kp.fold_upto_prefix [OF assms]) simp

lemma pressure_result:
  assumes p: "pick_prefill_pressure_from s order mandatory action = Inr ids"
    and n: "block_count s \<noteq> 0" and big: "prefill_budget_blocks s \<noteq> 0" "prefill_budget_blocks s < length order"
  shows "snd (pressure_marks s order mandatory) \<le> prefill_budget_blocks s"
    and "ids = marked_in (keep_upto s (prefill_budget_blocks s)
        (if action = [] then rev order
         else filter (\<lambda>i. i \<in> fst ` set action \<and> resident_candidate s order i) (rev order))
        (keep_upto s (prefill_budget_blocks s)
          (map fst (pressure_candidates s order action (pressure_marks s order mandatory)))
          (pressure_marks s order mandatory))) order"
proof -
  have small: "\<not> (prefill_budget_blocks s = 0 \<or> length order \<le> prefill_budget_blocks s)" using big by linarith
  define k where "k = pressure_marks s order mandatory"
  have "(if prefill_budget_blocks s < snd k then Inl RuntimeError
     else if list_ex (\<lambda>(_, v). case v of None \<Rightarrow> True | Some x \<Rightarrow> x < 0) action then Inl InvalidArgument
     else Inr (marked_in (keep_upto s (prefill_budget_blocks s)
        (if action = [] then rev order
         else filter (\<lambda>i. i \<in> fst ` set action \<and> resident_candidate s order i) (rev order))
        (keep_upto s (prefill_budget_blocks s) (map fst (pressure_candidates s order action k)) k)) order)) = Inr ids"
  proof (cases "validate_mandatory s mandatory")
    case (Inl e)
    then show ?thesis using p n by (simp add: pick_prefill_pressure_from_def)
  next
    case (Inr u)
    then show ?thesis using p n small
      unfolding pick_prefill_pressure_from_def k_def pressure_marks_def Let_def by (simp split: if_splits)
  qed
  then show "snd (pressure_marks s order mandatory) \<le> prefill_budget_blocks s"
    and "ids = marked_in (keep_upto s (prefill_budget_blocks s)
        (if action = [] then rev order
         else filter (\<lambda>i. i \<in> fst ` set action \<and> resident_candidate s order i) (rev order))
        (keep_upto s (prefill_budget_blocks s)
          (map fst (pressure_candidates s order action (pressure_marks s order mandatory)))
          (pressure_marks s order mandatory))) order"
    unfolding k_def [symmetric] by (simp_all split: if_splits)
qed

text \<open> Under memory pressure the window never grows past the prefill budget and always holds the
  mandatory blocks. Without action scores it is filled exactly, by the newest blocks: it is the
  sinks and mandatory blocks plus a suffix of the history. With action scores, every further block
  is one of the resident candidates the executor offered, so no cold block is pulled in.\<close>

theorem pressure_window_bounded:
  assumes "distinct order" and "set order = {i. is_live s i}"
    and "pick_prefill_pressure_from s order mandatory action = Inr ids"
    and "prefill_budget_blocks s \<noteq> 0" and "prefill_budget_blocks s < length order"
  shows "distinct ids \<and> subseq ids order \<and> length ids \<le> prefill_budget_blocks s \<and>
    {i \<in> set mandatory. is_live s i} \<subseteq> set ids \<and>
    (action = [] \<longrightarrow> length ids = prefill_budget_blocks s \<and>
       (\<exists>m. set ids = kset (pressure_marks s order mandatory) \<union> set (drop m order))) \<and>
    (action \<noteq> [] \<longrightarrow> (\<forall>i \<in> set ids - kset (pressure_marks s order mandatory).
       i \<in> fst ` set action \<and> resident_candidate s order i))"
proof -
  let ?b = "prefill_budget_blocks s"
  define k where "k = pressure_marks s order mandatory"
  define newest where "newest = (if action = [] then rev order
    else filter (\<lambda>i. i \<in> fst ` set action \<and> resident_candidate s order i) (rev order))"
  define k1 where "k1 = keep_upto s ?b (map fst (pressure_candidates s order action k)) k"
  define k2 where "k2 = keep_upto s ?b newest k1"
  have "order \<noteq> []" using assms(5) by auto
  then obtain x where "x \<in> set order" by fastforce
  then have n: "block_count s \<noteq> 0" using assms(2) by (auto simp: is_live_def)
  note pr = pressure_result [OF assms(3) n assms(4,5), folded k_def, folded k1_def, folded newest_def, folded k2_def]
  have g: "kp.good s k" "{i \<in> set mandatory. is_live s i} \<subseteq> kset k"
    using pressure_marks_good by (simp_all add: k_def)
  have h1: "kp.good s k1" "kset k \<subseteq> kset k1" "snd k1 \<le> max ?b (snd k)"
    "kset k1 \<subseteq> kset k \<union> {i \<in> set (map fst (pressure_candidates s order action k)). is_live s i}"
    using keep_upto_good [OF g(1), of ?b] unfolding k1_def by blast+
  have h2: "kp.good s k2" "kset k1 \<subseteq> kset k2" "snd k2 \<le> max ?b (snd k1)" "kset k2 \<subseteq> kset k1 \<union> {i \<in> set newest. is_live s i}"
    "snd k2 < ?b \<longrightarrow> kset k2 = kset k1 \<union> {i \<in> set newest. is_live s i}"
    using keep_upto_good [OF h1(1), of ?b newest] unfolding k2_def by blast+
  note m = marked_in_order [OF assms(1,2) h2(1), folded pr(2)]
  have le: "snd k2 \<le> ?b" using h2(3) h1(3) pr(1) by linarith
  have cand: "i \<in> fst ` set action \<and> resident_candidate s order i"
    if "i \<in> set (map fst (pressure_candidates s order action k))" for i
    using that by (force simp: pressure_candidates_def)
  have a0: "length ids = ?b \<and> (\<exists>m. set ids = kset k \<union> set (drop m order))" if a: "action = []"
  proof
    have k1: "k1 = k" using a by (simp add: k1_def pressure_candidates_def keep_upto_def)
    have nw: "newest = rev order" using a by (simp add: newest_def)
    have all: "{i \<in> set newest. is_live s i} = set order" using assms(2) by (auto simp: nw)
    have "\<not> snd k2 < ?b"
    proof
      assume lt: "snd k2 < ?b"
      then have "set order \<subseteq> kset k2" using h2(5) all by auto
      then have "card (set order) \<le> card (kset k2)" by (rule card_mono [OF kp.finite_kset])
      then show False using lt h2(1) assms(5) distinct_card [OF assms(1)] by (simp add: kp.good_def)
    qed
    then show "length ids = ?b" using m(3) le by simp
    obtain j where j: "kset k2 = kset k1 \<union> {i \<in> set (take j newest). is_live s i}"
      using keep_upto_prefix [OF h1(1), of newest ?b] unfolding k2_def [symmetric] by blast
    have "set (take j (rev order)) = set (drop (length order - j) order)" by (simp add: take_rev)
    moreover have "set (drop (length order - j) order) \<subseteq> {i. is_live s i}" using set_drop_subset assms(2) by metis
    ultimately have "set ids = kset k \<union> set (drop (length order - j) order)" using j m(2) by (auto simp: nw k1)
    then show "\<exists>m. set ids = kset k \<union> set (drop m order)" ..
  qed
  have a1: "i \<in> fst ` set action \<and> resident_candidate s order i"
    if "action \<noteq> []" "i \<in> set ids" "i \<notin> kset k" for i
  proof -
    have "i \<in> set (map fst (pressure_candidates s order action k)) \<or> i \<in> set newest"
      using that(2,3) h1(4) h2(4) unfolding m(2) by blast
    then show ?thesis using cand [of i] that(1) unfolding newest_def by auto
  qed
  show ?thesis unfolding k_def [symmetric]
    using m(1,4) m(3) le g(2) h1(2) h2(2) a0 a1 by (auto simp: m(2))
qed

lemma ex_pressure: "pick_prefill_pressure_from ex_history [0, 1, 2, 3, 4, 5] [2] [] = Inr [0, 2, 4, 5]"
  by (simp add: pick_prefill_pressure_from_def ex_live_ids ex_cfg validate_mandatory_def prefill_budget_blocks_def
      ex_config_def keep_sinks_def keep_upto_def keep_all_def keep_def ex_no_marks sink_block_def
      pressure_candidates_def marked_in_def)

theorem pressure_window_bounded_witness:
  "pick_prefill_pressure_from ex_history [0, 1, 2, 3, 4, 5] [2] [] = Inr [0, 2, 4, 5] \<and>
   length [0, 2, 4, 5 :: nat] = prefill_budget_blocks ex_history"
proof -
  have s: "set [0, 1, 2, 3, 4, 5] = {i. is_live ex_history i}" by (auto simp: ex_live_ids)
  have b: "prefill_budget_blocks ex_history \<noteq> 0" "prefill_budget_blocks ex_history < length [0, 1, 2, 3, 4, 5 :: nat]"
    by (simp_all add: prefill_budget_blocks_def ex_cfg ex_config_def)
  show ?thesis using pressure_window_bounded [OF _ s ex_pressure b] ex_pressure by simp
qed

section \<open>Whole groups\<close>

text \<open>The blocks that hold a token of a group, capped at the end of the context.\<close>

definition group_blocks :: "store \<Rightarrow> nat \<times> nat \<Rightarrow> nat set" where
  "group_blocks s grp = (let bt = cf_block_tokens (st_cfg s) in
     {i. i < block_count s \<and> i * bt < min (snd grp) (st_total s) \<and> fst grp < (i + 1) * bt})"

definition group_marks :: "store \<Rightarrow> nat list \<Rightarrow> marks" where
  "group_marks s mandatory =
     (let n = block_count s; b = budget_blocks s in
      keep_upto s b (map (\<lambda>i. n - 1 - i) [0..<min (cf_recent_blocks (st_cfg s)) n])
        (keep_all s mandatory (keep_upto s b [0..<min (cf_sink_blocks (st_cfg s)) n] (no_marks s))))"

lemma take_groups_spec:
  assumes "kp.good s ks" and "snd ks \<le> b"
  shows "\<exists>chosen. chosen \<subseteq> set cs \<and> kp.good s (take_groups s b cs ks) \<and> snd (take_groups s b cs ks) \<le> b \<and>
    kset (take_groups s b cs ks) = kset ks \<union> (\<Union>c \<in> chosen. {cd_first c..cd_last c})"
  using assms
proof (induction cs arbitrary: ks)
  case Nil
  then show ?case by (intro exI [of _ "{}"]) simp
next
  case (Cons c cs)
  define ids where "ids = [cd_first c..<Suc (cd_last c)]"
  show ?case
  proof (cases "\<not> list_all (is_live s) ids \<or> b - snd ks < length (filter (\<lambda>i. \<not> fst ks ! i) ids)")
    case True
    then have "take_groups s b (c # cs) ks = take_groups s b cs ks" by (auto simp: ids_def Let_def)
    then show ?thesis using Cons.IH [OF Cons.prems] by (metis set_subset_Cons subset_trans)
  next
    case False
    define t where "t = keep_all s ids ks"
    have live: "{i \<in> set ids. is_live s i} = {cd_first c..cd_last c}" using False by (auto simp: ids_def list_all_iff)
    have t: "kp.good s t" "kset t = kset ks \<union> {cd_first c..cd_last c}"
      using keep_all_good [OF Cons.prems(1), of ids, unfolded live] by (simp_all add: t_def)
    define new where "new = filter (\<lambda>i. \<not> fst ks ! i) ids"
    have sub: "kset t \<subseteq> kset ks \<union> set new"
    proof
      fix i assume i: "i \<in> kset t"
      then have "i < block_count s" using t(1) by (auto simp: kset_def kp.good_def)
      then show "i \<in> kset ks \<union> set new"
        using i t(2) Cons.prems(1) by (auto simp: new_def ids_def kset_def kp.good_def)
    qed
    have "card (kset t) \<le> card (kset ks \<union> set new)" by (rule card_mono [OF _ sub]) (simp add: kp.finite_kset)
    also have "... \<le> card (kset ks) + card (set new)" by (rule card_Un_le)
    also have "... \<le> card (kset ks) + length new" using card_length [of new] by simp
    finally have "snd t \<le> snd ks + length new" using t(1) Cons.prems(1) by (simp add: kp.good_def)
    moreover have "length new \<le> b - snd ks" using False by (simp add: new_def)
    ultimately have le: "snd t \<le> b" using Cons.prems(2) by linarith
    have e: "take_groups s b (c # cs) ks = (if snd t = b then t else take_groups s b cs t)"
      using False by (simp add: ids_def t_def Let_def)
    obtain ch where ch: "ch \<subseteq> set cs" "kp.good s (take_groups s b cs t)" "snd (take_groups s b cs t) \<le> b"
      "kset (take_groups s b cs t) = kset t \<union> (\<Union>c \<in> ch. {cd_first c..cd_last c})"
      using Cons.IH [OF t(1) le] by blast
    show ?thesis
    proof (cases "snd t = b")
      case True
      then show ?thesis unfolding e using t le by (intro exI [of _ "{c}"]) auto
    next
      case False
      then show ?thesis unfolding e using ch t(2) by (intro exI [of _ "insert c ch"]) auto
    qed
  qed
qed

lemma group_candidate_blocks:
  assumes c: "contiguous s" and g: "group_candidate s j grp v = Some cand"
  shows "{cd_first cand..cd_last cand} = group_blocks s grp" and "cd_group cand = j"
proof -
  let ?bt = "cf_block_tokens (st_cfg s)"
  note d = contiguousD [OF c]
  obtain b e where be: "grp = (b, e)" by fastforce
  have ne: "st_blocks s \<noteq> []" using g by (auto simp: group_candidate_def be block_count_def Let_def split: if_splits)
  then have l: "length (st_blocks s) - 1 < length (st_blocks s)" by simp
  have lb: "(length (st_blocks s) - 1) * ?bt < st_total s"
    using index_lt_ceil [OF d(2), of "length (st_blocks s) - 1" "st_total s"] d(4) l by simp
  have ub: "st_total s \<le> length (st_blocks s) * ?bt" using ceil_div_bounds(1) [OF d(2), of "st_total s"] d(4) by simp
  have cov: "block_end (last (st_blocks s)) = st_total s"
  proof -
    have m: "length (st_blocks s) * ?bt = (length (st_blocks s) - 1) * ?bt + ?bt"
      using l by (cases "length (st_blocks s)") auto
    then show ?thesis
      using ne d(6,7) [OF l] lb ub by (auto simp: block_end_def last_conv_nth min_def)
  qed
  have bt: "max 1 ?bt = ?bt" using d(2) by simp
  define cap where "cap = min e (st_total s)"
  have cd: "b < cap" "cand = \<lparr>cd_group = j, cd_first = b div ?bt, cd_last = min ((cap - 1) div ?bt) (block_count s - 1), cd_score = v\<rparr>"
    using g unfolding group_candidate_def be cov bt Let_def cap_def by (auto split: if_splits)
  show "cd_group cand = j" using cd(2) by simp
  have "(cap - 1) div ?bt < block_count s"
  proof -
    have "cap \<le> st_total s" by (simp add: cap_def)
    then have "cap - 1 < length (st_blocks s) * ?bt" using ub cd(1) by linarith
    then have "cap - 1 < block_count s * ?bt" by (simp only: block_count_def)
    then show ?thesis using d(2) by (simp add: less_mult_imp_div_less)
  qed
  then have last: "min ((cap - 1) div ?bt) (block_count s - 1) = (cap - 1) div ?bt" by simp
  have lo: "b div ?bt \<le> i \<longleftrightarrow> b < (i + 1) * ?bt" for i
    using d(2) by (metis Suc_eq_plus1 div_less_iff_less_mult less_Suc_eq_le)
  have hi: "i \<le> (cap - 1) div ?bt \<longleftrightarrow> i * ?bt < cap" for i
    using d(2) cd(1) by (simp add: less_eq_div_iff_mult_less_eq) linarith
  have "i < block_count s" if "i * ?bt < cap" for i
    using that index_lt_ceil [OF d(2), of i "st_total s"] d(4) by (simp add: cap_def block_count_def)
  then show "{cd_first cand..cd_last cand} = group_blocks s grp"
    unfolding group_blocks_def Let_def be using cd(2) last lo hi by (auto simp: cap_def [symmetric])
qed

lemma group_marks_spec:
  assumes "snd (keep_all s mandatory (keep_upto s (budget_blocks s)
      [0..<min (cf_sink_blocks (st_cfg s)) (block_count s)] (no_marks s))) \<le> budget_blocks s"
  shows "kp.good s (group_marks s mandatory)" "snd (group_marks s mandatory) \<le> budget_blocks s"
    "{i \<in> set mandatory. is_live s i} \<subseteq> kset (group_marks s mandatory)"
proof -
  define k0 where "k0 = keep_upto s (budget_blocks s) [0..<min (cf_sink_blocks (st_cfg s)) (block_count s)] (no_marks s)"
  have g0: "kp.good s k0" unfolding k0_def using keep_upto_good [OF good_no_marks(1)] by blast
  note g1 = keep_all_good [OF g0, of mandatory]
  then have g: "kp.good s (keep_all s mandatory k0)" by blast
  note h = keep_upto_good [OF g, of "budget_blocks s"
      "map (\<lambda>i. block_count s - 1 - i) [0..<min (cf_recent_blocks (st_cfg s)) (block_count s)]"]
  have e: "group_marks s mandatory = keep_upto s (budget_blocks s)
      (map (\<lambda>i. block_count s - 1 - i) [0..<min (cf_recent_blocks (st_cfg s)) (block_count s)]) (keep_all s mandatory k0)"
    by (simp add: group_marks_def Let_def k0_def)
  have c: "snd (keep_all s mandatory k0) \<le> budget_blocks s" using assms by (simp add: k0_def)
  show "kp.good s (group_marks s mandatory)" unfolding e using h by blast
  show "snd (group_marks s mandatory) \<le> budget_blocks s" unfolding e using h c by linarith
  show "{i \<in> set mandatory. is_live s i} \<subseteq> kset (group_marks s mandatory)" unfolding e using h g1 by blast
qed

lemma legacy_groups_result:
  assumes p: "pick_legacy_groups s groups scores mandatory = Inr ids"
    and big: "budget_blocks s \<noteq> 0" "budget_blocks s < block_count s"
  shows "snd (keep_all s mandatory (keep_upto s (budget_blocks s)
      [0..<min (cf_sink_blocks (st_cfg s)) (block_count s)] (no_marks s))) \<le> budget_blocks s"
    and "ids = marked_in (take_groups s (budget_blocks s) (group_candidates s groups scores) (group_marks s mandatory))
      [0..<block_count s]"
    and "length groups = length scores"
proof -
  define k where "k = keep_all s mandatory (keep_upto s (budget_blocks s)
      [0..<min (cf_sink_blocks (st_cfg s)) (block_count s)] (no_marks s))"
  have small: "block_count s \<noteq> 0" "\<not> (budget_blocks s = 0 \<or> block_count s \<le> budget_blocks s)" using big by linarith+
  have "(if length groups \<noteq> length scores then Inl RuntimeError else if budget_blocks s < snd k then Inl RuntimeError
    else Inr (marked_in (take_groups s (budget_blocks s) (group_candidates s groups scores) (group_marks s mandatory))
      [0..<block_count s])) = Inr ids"
  proof (cases "validate_mandatory s mandatory")
    case (Inl e)
    then show ?thesis using p small by (simp add: pick_legacy_groups_def)
  next
    case (Inr u)
    then show ?thesis using p small
      unfolding pick_legacy_groups_def group_marks_def k_def Let_def by (simp split: if_splits)
  qed
  then show "length groups = length scores"
    "snd (keep_all s mandatory (keep_upto s (budget_blocks s)
      [0..<min (cf_sink_blocks (st_cfg s)) (block_count s)] (no_marks s))) \<le> budget_blocks s"
    "ids = marked_in (take_groups s (budget_blocks s) (group_candidates s groups scores) (group_marks s mandatory))
      [0..<block_count s]"
    unfolding k_def [symmetric] by (simp_all split: if_splits)
qed


lemma contiguous_ex_history: "contiguous ex_history"
  unfolding contiguous_def
proof (intro conjI allI impI)
  fix i assume "i < length (st_blocks ex_history)"
  then consider "i = 0" | "i = 1" | "i = 2" | "i = 3" | "i = 4" | "i = 5" by (auto simp: ex_blocks less_Suc_eq)
  then show "bk_id (st_blocks ex_history ! i) = i"
    "bk_pos (st_blocks ex_history ! i) = i * cf_block_tokens (st_cfg ex_history)"
    "bk_tokens (st_blocks ex_history ! i) = min (cf_block_tokens (st_cfg ex_history))
       (st_total ex_history - i * cf_block_tokens (st_cfg ex_history))"
    by (cases; simp add: ex_blocks ex_cfg ex_config_def)+
qed (simp_all add: ex_blocks ex_cfg ex_config_def UINT32_MAX_def ceil_div_def)

lemma ex_group_candidates: "group_candidates ex_history [(4, 10), (12, 15)] [1, 5] =
  [\<lparr>cd_group = 1, cd_first = 3, cd_last = 3, cd_score = 5\<rparr>, \<lparr>cd_group = 0, cd_first = 1, cd_last = 2, cd_score = 1\<rparr>]"
proof -
  have u: "[0..<length [(4, 10), (12, 15 :: nat)]] = [0, 1]" by simp
  have e: "block_end (last (st_blocks ex_history)) = 23" by (simp add: ex_blocks block_end_def)
  show ?thesis unfolding group_candidates_def u
    by (simp add: List.map_filter_def group_candidate_def e ex_live_ids ex_cfg ex_config_def candidate_better_def)
qed

lemma ex_groups: "pick_semantic_groups ex_history [(4, 10), (12, 15)] [1, 5] [] = Inr [0, 3, 5]"
proof -
  have b: "budget_blocks ex_history = 4" by (simp add: budget_blocks_def select_budget_tokens_def ex_cfg ex_config_def)
  have m: "group_marks ex_history [] = ([True, False, False, False, False, True], 2)"
    by (simp add: group_marks_def b ex_live_ids ex_cfg ex_config_def keep_upto_def keep_all_def keep_def ex_no_marks)
  have k: "snd (keep_all ex_history [] (keep_upto ex_history 4 [0..<min (cf_sink_blocks (st_cfg ex_history)) 6] (no_marks ex_history))) = 1"
    by (simp add: ex_live_ids ex_cfg ex_config_def keep_upto_def keep_all_def keep_def ex_no_marks)
  have g: "keep_upto ex_history 4 (map (\<lambda>i. 6 - 1 - i) [0..<min (cf_recent_blocks (st_cfg ex_history)) 6])
      (keep_all ex_history [] (keep_upto ex_history 4 [0..<min (cf_sink_blocks (st_cfg ex_history)) 6] (no_marks ex_history))) =
      ([True, False, False, False, False, True], 2)"
    using m by (simp only: group_marks_def b ex_live_ids Let_def)
  have u: "[3..<Suc 3] = [3 :: nat]" "[1..<Suc 2] = [1, 2 :: nat]" "[Suc 0..<3] = [1, 2 :: nat]" "[0..<6] = [0, 1, 2, 3, 4, 5 :: nat]" by (simp_all add: upt_rec)
  have t: "take_groups ex_history 4 (group_candidates ex_history [(4, 10), (12, 15)] [1, 5])
      ([True, False, False, False, False, True], 2) = ([True, False, False, True, False, True], 3)"
    unfolding ex_group_candidates by (simp add: u Let_def ex_live_ids keep_all_def keep_def del: upt_Suc)
  have v: "validate_mandatory ex_history [] = Inr ()" by (simp add: validate_mandatory_def)
  have r: "st_repo ex_history \<noteq> None \<longleftrightarrow> False" by (simp add: ex_cfg)
  have i: "(6 :: nat) = 0 \<longleftrightarrow> False" "length [(4, 10), (12, 15 :: nat)] \<noteq> length [1, 5 :: real] \<longleftrightarrow> False"
    "(4 :: nat) = 0 \<or> (6 :: nat) \<le> 4 \<longleftrightarrow> False" "(4 :: nat) < 1 \<longleftrightarrow> False" by simp_all
  show ?thesis unfolding pick_semantic_groups_def pick_legacy_groups_def Let_def b ex_live_ids(2) g t v r i k if_False sum.case
    by (simp add: marked_in_def u)
qed


end
