(* ===== verification/Store_Blocks.thy ===== *)
theory Store_Blocks
  imports Store_State Repository_Safety
begin

text \<open>
  Scores and per-block metadata of \<open>KvMemStore\<close> (\<open>src/src/kvmem_store.cpp\<close>): attention and retrieval
  scores, the storage tier of a block and its clean copies, the transfer flag, and the position its K
  is baked to. In bounded mode every metadata update names the generation it was issued for and
  holds a lease while it runs. Publishing to a policy worker (\<open>repository_sync_gc\<close>, \<open>gc_sync_block\<close>)
  does nothing here, as none is attached.
\<close>

section \<open>Scores\<close>

definition accumulate_attn :: "store \<Rightarrow> real list \<Rightarrow> store \<times> unit result" where
  "accumulate_attn s scores =
     (if st_repo s \<noteq> None then (s, Inl LogicError)
      else (s\<lparr>st_blocks := map (\<lambda>i. let b = st_blocks s ! i in
                if i < length scores
                then b\<lparr>bk_profile := bk_profile b + scores ! i, bk_attn := bk_profile b + scores ! i\<rparr> else b)
              [0..<block_count s]\<rparr>, Inr ()))"

definition update_action_scores :: "store \<Rightarrow> real option list \<Rightarrow> real option \<Rightarrow> store \<times> unit result" where
  "update_action_scores s mean decay =
     (case decay of None \<Rightarrow> (s, Inl InvalidArgument) | Some d \<Rightarrow>
        if length mean \<noteq> block_count s \<or> \<not> (0 \<le> d \<and> d \<le> 1) then (s, Inl InvalidArgument)
        else if list_ex (\<lambda>m. case m of None \<Rightarrow> True | Some x \<Rightarrow> x < 0) mean then (s, Inl InvalidArgument)
        else (s\<lparr>st_blocks := map (\<lambda>i. let b = st_blocks s ! i in
                  if is_live s i then b\<lparr>bk_action := d * bk_action b + the (mean ! i)\<rparr> else b)
                [0..<block_count s]\<rparr>, Inr ()))"

definition set_retrieval_scores :: "store \<Rightarrow> real list \<Rightarrow> store \<times> unit result" where
  "set_retrieval_scores s scores =
     (if st_repo s \<noteq> None then (s, Inl LogicError)
      else (s\<lparr>st_blocks := map (\<lambda>i. let v = (if i < length scores then scores ! i else 0) in
                (st_blocks s ! i)\<lparr>bk_retrieval := v, bk_attn := v\<rparr>) [0..<block_count s]\<rparr>, Inr ()))"

definition set_attn_scores :: "store \<Rightarrow> real list \<Rightarrow> store \<times> unit result" where
  "set_attn_scores s scores = set_retrieval_scores s scores"

section \<open>Updates of one block under its generation\<close>

text \<open>\<open>validate_repository_mutation\<close>: the lease it returns lives until the end of the update.\<close>

definition validate_mutation :: "store \<Rightarrow> nat \<Rightarrow> nat \<Rightarrow> store \<times> handle option result" where
  "validate_mutation s i generation = (case st_repo s of None \<Rightarrow> (s, Inr None)
     | Some r \<Rightarrow> let h = \<lparr>h_slot = i, h_generation = generation\<rparr> in
         if generation = 0 \<or> h \<noteq> repository_handle s i then (s, Inl RuntimeError)
         else (case try_pin r h of
             (r', None) \<Rightarrow> (s\<lparr>st_repo := Some r'\<rparr>, Inl RuntimeError)
           | (r', Some h') \<Rightarrow> (s\<lparr>st_repo := Some r'\<rparr>, Inr (Some h'))))"

definition drop_lease :: "store \<Rightarrow> handle option \<Rightarrow> store" where
  "drop_lease s l = (case l of None \<Rightarrow> s
     | Some h \<Rightarrow> s\<lparr>st_repo := map_option (\<lambda>r. lease_reset r h) (st_repo s)\<rparr>)"

definition mutate :: "store \<Rightarrow> nat \<Rightarrow> nat \<Rightarrow> (store \<Rightarrow> store \<times> unit result) \<Rightarrow> store \<times> unit result" where
  "mutate s i generation body = then_do (validate_mutation s i generation) (\<lambda>s1 l.
     if block_count s1 \<le> i then (drop_lease s1 l, Inr ())
     else case body s1 of (s2, res) \<Rightarrow> (drop_lease s2 l, res))"

definition reset_resident :: "store \<Rightarrow> nat \<Rightarrow> store" where
  "reset_resident s i = (drop_lease s (st_leases s ! i))\<lparr>st_leases := (st_leases s)[i := None]\<rparr>"

definition pin_resident :: "store \<Rightarrow> nat \<Rightarrow> store \<times> unit result" where
  "pin_resident s i = (case st_repo s of None \<Rightarrow> (s, Inr ())
     | Some r \<Rightarrow> (case try_pin r (repository_handle s i) of
           (r', None) \<Rightarrow> (s\<lparr>st_repo := Some r'\<rparr>, Inl RuntimeError)
         | (r', Some h) \<Rightarrow> (s\<lparr>st_repo := Some r', st_leases := (st_leases s)[i := Some h]\<rparr>, Inr ())))"

definition tier_lease :: "store \<Rightarrow> nat \<Rightarrow> tier \<Rightarrow> store \<times> unit result" where
  "tier_lease s i t =
     (if st_repo s = None then (s, Inr ())
      else if \<not> is_live s i then (s, Inl RuntimeError)
      else then_do (if t = TierGPU \<and> st_leases s ! i = None then pin_resident s i else (s, Inr ()))
        (\<lambda>s1 _. (if t \<noteq> TierGPU \<and> \<not> bk_in_ws (st_blocks s1 ! i) then reset_resident s1 i else s1, Inr ())))"

definition set_flag :: "store \<Rightarrow> nat \<Rightarrow> 32 word \<Rightarrow> bool \<Rightarrow> store" where
  "set_flag s i flag on =
     s\<lparr>st_flags := (st_flags s)[i := or (and (st_flags s ! i) (not flag)) (if on then flag else 0)]\<rparr>"

definition tier_inclusive :: "store \<Rightarrow> nat \<Rightarrow> tier \<Rightarrow> int \<Rightarrow> int \<Rightarrow> store" where
  "tier_inclusive s i t cpu_slot nvme_slot =
     (let keep_nvme = (\<lambda>b. if 0 \<le> nvme_slot then b\<lparr>bk_nvme_slot := nvme_slot\<rparr> else b);
          s1 = set_block s i (\<lambda>b. if t = TierGPU
             then keep_nvme (if 0 \<le> cpu_slot then b\<lparr>bk_cpu_slot := cpu_slot\<rparr> else b)
             else keep_nvme (b\<lparr>bk_gpu_slot := - 1, bk_cpu_slot := cpu_slot\<rparr>)) in
      if st_repo s1 \<noteq> None \<and> t = TierCPU \<and> 0 \<le> cpu_slot \<and> \<not> bk_in_flight (st_blocks s1 ! i)
      then (set_block s1 i (\<lambda>b. b\<lparr>bk_dirty := False\<rparr>))
        \<lparr>st_flags := (st_flags s1)[i := or (st_flags s1 ! i) ValueBacked]\<rparr>
      else s1)"

definition tier_exclusive :: "store \<Rightarrow> nat \<Rightarrow> tier \<Rightarrow> int \<Rightarrow> int \<Rightarrow> store" where
  "tier_exclusive s i t cpu_slot nvme_slot = set_block s i (\<lambda>b. if t = TierGPU
     then b\<lparr>bk_cpu_slot := - 1, bk_nvme_slot := - 1, bk_ssd_clean := False\<rparr>
     else b\<lparr>bk_gpu_slot := - 1, bk_cpu_slot := cpu_slot, bk_nvme_slot := nvme_slot,
            bk_ssd_clean := (t = TierSSD \<and> 0 \<le> nvme_slot)\<rparr>)"

definition set_block_tier :: "store \<Rightarrow> nat \<Rightarrow> tier \<Rightarrow> int \<Rightarrow> int \<Rightarrow> nat \<Rightarrow> store \<times> unit result" where
  "set_block_tier s i t cpu_slot nvme_slot generation = mutate s i generation (\<lambda>s1.
     then_do (tier_lease s1 i t) (\<lambda>s2 _.
       let s3 = set_block s2 i (\<lambda>b. b\<lparr>bk_tier := t\<rparr>) in
       (if cf_optimize_stage_out (st_cfg s3) then tier_inclusive s3 i t cpu_slot nvme_slot
        else tier_exclusive s3 i t cpu_slot nvme_slot, Inr ())))"

definition value_backed :: "block \<Rightarrow> bool" where
  "value_backed b \<longleftrightarrow> \<not> bk_dirty b \<and> \<not> bk_in_flight b \<and> (0 \<le> bk_cpu_slot b \<or> bk_ssd_clean b)"

definition sync_value_flag :: "store \<Rightarrow> nat \<Rightarrow> store" where
  "sync_value_flag s i =
     (if st_repo s = None then s else set_flag s i ValueBacked (value_backed (st_blocks s ! i)))"

definition set_block_cpu_copy :: "store \<Rightarrow> nat \<Rightarrow> int \<Rightarrow> nat \<Rightarrow> store \<times> unit result" where
  "set_block_cpu_copy s i cpu_slot generation = mutate s i generation (\<lambda>s1.
     let s2 = set_block s1 i (\<lambda>b. b\<lparr>bk_cpu_slot := cpu_slot\<rparr>);
         s3 = (if st_repo s2 \<noteq> None \<and> 0 \<le> cpu_slot then set_block s2 i (\<lambda>b. b\<lparr>bk_dirty := False\<rparr>) else s2)
     in (sync_value_flag s3 i, Inr ()))"

definition set_block_ssd_backing :: "store \<Rightarrow> nat \<Rightarrow> int \<Rightarrow> bool \<Rightarrow> nat \<Rightarrow> store \<times> unit result" where
  "set_block_ssd_backing s i nvme_slot clean generation = mutate s i generation (\<lambda>s1.
     let ok = (clean \<and> 0 \<le> nvme_slot);
         s2 = set_block s1 i (\<lambda>b. b\<lparr>bk_nvme_slot := nvme_slot, bk_ssd_clean := ok\<rparr>);
         s3 = (if st_repo s2 \<noteq> None \<and> ok then set_block s2 i (\<lambda>b. b\<lparr>bk_dirty := False\<rparr>) else s2)
     in (sync_value_flag s3 i, Inr ()))"

definition set_block_io_in_flight :: "store \<Rightarrow> nat \<Rightarrow> bool \<Rightarrow> nat \<Rightarrow> store \<times> unit result" where
  "set_block_io_in_flight s i in_flight generation = mutate s i generation (\<lambda>s1.
     (set_block s1 i (\<lambda>b. b\<lparr>bk_in_flight := in_flight\<rparr>), Inr ()))"

definition set_block_baked_pos :: "store \<Rightarrow> nat \<Rightarrow> int \<Rightarrow> nat \<Rightarrow> store \<times> unit result" where
  "set_block_baked_pos s i baked_pos generation = mutate s i generation (\<lambda>s1.
     (set_block s1 i (\<lambda>b. b\<lparr>bk_baked := baked_pos\<rparr>), Inr ()))"

definition moved :: "int \<Rightarrow> int \<Rightarrow> nat" where
  "moved a b = nat (if b < a then a - b else b - a)"

definition record_block_rerope :: "store \<Rightarrow> nat \<Rightarrow> int \<Rightarrow> nat \<Rightarrow> store \<times> unit result" where
  "record_block_rerope s i baked_pos generation = mutate s i generation (\<lambda>s1.
     (set_block s1 i (\<lambda>b. (if bk_baked b \<noteq> baked_pos
        then b\<lparr>bk_remaps := u32 (bk_remaps b + 1), bk_delta := u64 (bk_delta b + moved (bk_baked b) baked_pos)\<rparr>
        else b)\<lparr>bk_baked := baked_pos\<rparr>), Inr ()))"

definition clear_working_set :: "store \<Rightarrow> store \<times> unit result" where
  "clear_working_set s =
     (if st_pending s then (s, Inl LogicError)
      else (foldl (\<lambda>s i. let s1 = set_block s i (\<lambda>b. b\<lparr>bk_in_ws := False\<rparr>) in
              if st_repo s1 \<noteq> None \<and> bk_tier (st_blocks s1 ! i) \<noteq> TierGPU then reset_resident s1 i else s1)
            s [0..<block_count s], Inr ()))"

section \<open>Versioned updates\<close>

lemma set_block_simps [simp]:
  "st_repo (set_block s i f) = st_repo s" "st_cfg (set_block s i f) = st_cfg s"
  "st_leases (set_block s i f) = st_leases s" "st_flags (set_block s i f) = st_flags s"
  "length (st_blocks (set_block s i f)) = length (st_blocks s)" "block_count (set_block s i f) = block_count s"
  by (simp_all add: set_block_def block_count_def)

lemma sync_value_flag_repo [simp]: "st_repo (sync_value_flag s i) = st_repo s"
  by (simp add: sync_value_flag_def set_flag_def)

definition current :: "store \<Rightarrow> repo \<Rightarrow> nat \<Rightarrow> nat \<Rightarrow> bool" where
  "current s r i g \<longleftrightarrow> g \<noteq> 0 \<and> i < block_count s \<and> bk_generation (st_blocks s ! i) = g \<and>
     pinnable r \<lparr>h_slot = i, h_generation = g\<rparr>"

lemma repository_handle_eq:
  "st_repo s = Some r \<Longrightarrow> g \<noteq> 0 \<Longrightarrow> \<lparr>h_slot = i, h_generation = g\<rparr> = repository_handle s i \<longleftrightarrow>
     i < block_count s \<and> bk_generation (st_blocks s ! i) = g"
  by (auto simp: repository_handle_def no_handle_def)

lemma validate_mutation_stale:
  assumes "reachable w" and "st_repo s = Some (w_repo w)" and "\<not> current s (w_repo w) i g"
  shows "validate_mutation s i g = (s, Inl RuntimeError)"
proof (cases "g = 0 \<or> \<lparr>h_slot = i, h_generation = g\<rparr> \<noteq> repository_handle s i")
  case True
  then show ?thesis using assms(2) by (simp add: validate_mutation_def Let_def)
next
  case False
  then have "\<not> pinnable (w_repo w) \<lparr>h_slot = i, h_generation = g\<rparr>"
    using assms(3) repository_handle_eq [OF assms(2)] by (auto simp: current_def)
  then obtain r' where t: "try_pin (w_repo w) \<lparr>h_slot = i, h_generation = g\<rparr> = (r', None)"
    by (cases "try_pin (w_repo w) \<lparr>h_slot = i, h_generation = g\<rparr>") (auto simp: pinnable_def)
  have "r' = w_repo w" by (rule try_pin_restores [OF reachable_inv [OF assms(1)] t])
  then have "s\<lparr>st_repo := Some r'\<rparr> = s" using assms(2) by simp
  then show ?thesis using False assms(2) t by (simp add: validate_mutation_def Let_def)
qed

lemma mutate_stale:
  "reachable w \<Longrightarrow> st_repo s = Some (w_repo w) \<Longrightarrow> \<not> current s (w_repo w) i g \<Longrightarrow>
     mutate s i g body = (s, Inl RuntimeError)"
  by (simp add: mutate_def validate_mutation_stale)

text \<open>The lease of an update is gone when it returns.\<close>

lemma mutate_repo:
  assumes "reachable w" and "st_repo s = Some (w_repo w)"
    and "\<And>s1. st_repo (fst (body s1)) = st_repo s1"
  shows "st_repo (fst (mutate s i g body)) = st_repo s"
proof (cases "current s (w_repo w) i g")
  case False
  then show ?thesis using mutate_stale [OF assms(1,2)] by simp
next
  case True
  let ?h = "\<lparr>h_slot = i, h_generation = g\<rparr>"
  obtain r' h' where t: "try_pin (w_repo w) ?h = (r', Some h')"
    using True by (cases "try_pin (w_repo w) ?h") (auto simp: current_def pinnable_def)
  note p = try_pin_Some [OF reachable_inv [OF assms(1)] t]
  have "i < length (rp_slots (w_repo w))"
    using p(2) world_invD(1) [OF reachable_inv [OF assms(1)]] by (simp add: lease_ok_def repo_ok_def)
  then have restored: "lease_reset r' ?h = w_repo w"
    using p(4) by (simp add: lease_reset_def control_set_control) (simp add: set_control_def control_def)
  have v: "validate_mutation s i g = (s\<lparr>st_repo := Some r'\<rparr>, Inr (Some ?h))"
    using True assms(2) t p(1) repository_handle_eq [OF assms(2), of g i]
    by (simp add: validate_mutation_def Let_def current_def)
  have "st_repo (fst (body (s\<lparr>st_repo := Some r'\<rparr>))) = Some r'" using assms(3) by simp
  then show ?thesis unfolding mutate_def v
    using assms(2) restored by (auto simp: drop_lease_def split: prod.splits)
qed

text \<open> Claim C38. A metadata update applies to the generation it was issued for or not at all: unless the
  named generation is the slot's current one and its block is still live, every update is refused
  and nothing changes, so a late completion never touches the block that reuses the slot. And an
  update that only changes a block leaves the repository as it found it: its lease is returned on
  every path.\<close>

theorem metadata_update_versioned:
  assumes "reachable w" and "st_repo s = Some (w_repo w)"
  shows "(\<not> current s (w_repo w) i g \<longrightarrow>
      set_block_tier s i t cpu nvme g = (s, Inl RuntimeError) \<and>
      set_block_cpu_copy s i cpu g = (s, Inl RuntimeError) \<and>
      set_block_ssd_backing s i nvme clean g = (s, Inl RuntimeError) \<and>
      set_block_io_in_flight s i flag g = (s, Inl RuntimeError) \<and>
      set_block_baked_pos s i pos g = (s, Inl RuntimeError) \<and>
      record_block_rerope s i pos g = (s, Inl RuntimeError)) \<and>
    st_repo (fst (set_block_cpu_copy s i cpu g)) = st_repo s \<and>
    st_repo (fst (set_block_ssd_backing s i nvme clean g)) = st_repo s \<and>
    st_repo (fst (set_block_io_in_flight s i flag g)) = st_repo s \<and>
    st_repo (fst (set_block_baked_pos s i pos g)) = st_repo s \<and>
    st_repo (fst (record_block_rerope s i pos g)) = st_repo s"
proof (intro conjI impI)
  note repo = mutate_repo [OF assms]
  show "st_repo (fst (set_block_cpu_copy s i cpu g)) = st_repo s"
    unfolding set_block_cpu_copy_def by (rule repo) (simp add: Let_def)
  show "st_repo (fst (set_block_ssd_backing s i nvme clean g)) = st_repo s"
    unfolding set_block_ssd_backing_def by (rule repo) (simp add: Let_def)
  show "st_repo (fst (set_block_io_in_flight s i flag g)) = st_repo s"
    unfolding set_block_io_in_flight_def by (rule repo) simp
  show "st_repo (fst (set_block_baked_pos s i pos g)) = st_repo s"
    unfolding set_block_baked_pos_def by (rule repo) simp
  show "st_repo (fst (record_block_rerope s i pos g)) = st_repo s"
    unfolding record_block_rerope_def by (rule repo) simp
qed (use mutate_stale [OF assms] in
  \<open>simp_all add: set_block_tier_def set_block_cpu_copy_def set_block_ssd_backing_def
     set_block_io_in_flight_def set_block_baked_pos_def record_block_rerope_def\<close>)

definition ex_bounded :: store where
  "ex_bounded = ex_store\<lparr>st_repo := Some (w_repo ex_live), st_flags := [0, 0],
     st_leases := [Some ex_handle, None], st_history := [(0, ex_handle)], st_nodes := [False, True],
     st_blocks := [block_init\<lparr>bk_tokens := 32, bk_baked := 0, bk_generation := 1, bk_logical := 1\<rparr>,
       block_init\<lparr>bk_id := 1\<rparr>], st_total := 32\<rparr>"

theorem metadata_update_versioned_witness:
  "set_block_tier ex_bounded 0 TierCPU 3 (- 1) 9 = (ex_bounded, Inl RuntimeError) \<and>
   st_repo (fst (set_block_baked_pos ex_bounded 0 64 1)) = st_repo ex_bounded"
proof -
  have r: "st_repo ex_bounded = Some (w_repo ex_live)" by (simp add: ex_bounded_def)
  have "\<not> current ex_bounded (w_repo ex_live) 0 9" by (simp add: current_def ex_bounded_def)
  then show ?thesis using metadata_update_versioned [OF reachable_ex_live r] by blast
qed

end
