(* ===== verification/Store_Remap.thy ===== *)
theory Store_Remap
  imports Store_Blocks
begin

text \<open>
  Installing a selection: \<open>KvMemStore::set_selection_impl\<close> (\<open>src/src/kvmem_store.cpp\<close>) turns the selected
  blocks into the next window. It packs them from position 0 in history order, lists what enters and
  leaves the GPU, and says for each block whether its rotated K is kept, rotated in place or rebuilt
  from the unrotated mirror. The theorems say that the window is packed without gaps, that the plan
  is never contradictory, and that the rounding drift of in-place rotations stays within the
  configured limits for ever.
\<close>

record remap =
  rm_id :: nat
  rm_tokens :: nat
  rm_from :: int
  rm_to :: int
  rm_resident :: bool
  rm_skip :: bool
  rm_raw :: bool

record window_plan =
  wp_previous :: "handle list"
  wp_stage_in :: "nat list"
  wp_stage_out :: "nat list"
  wp_remaps :: "remap list"
  wp_total :: nat
  wp_overlap :: nat
  wp_reused :: nat
  wp_stable :: nat
  wp_moved :: nat

definition plan_empty :: window_plan where
  "plan_empty = \<lparr>wp_previous = [], wp_stage_in = [], wp_stage_out = [], wp_remaps = [], wp_total = 0,
     wp_overlap = 0, wp_reused = 0, wp_stable = 0, wp_moved = 0\<rparr>"

text \<open>The cast to \<open>int32_t\<close>.\<close>

definition i32 :: "int \<Rightarrow> int" where "i32 x = (x + 2147483648) mod 4294967296 - 2147483648"

text \<open>Out-of-range ids dropped, sorted into history order, duplicates removed (\<open>std::unique\<close>).\<close>

definition window_ids :: "store \<Rightarrow> nat list \<Rightarrow> nat list" where
  "window_ids s ids = remdups_adj (sort_by (earlier s) (filter (\<lambda>i. i < block_count s) ids))"

text \<open>The blocks the loops skip: retired ones of a bounded store.\<close>

definition seen :: "store \<Rightarrow> nat \<Rightarrow> bool" where
  "seen s i \<longleftrightarrow> st_repo s = None \<or> is_live s i"

definition was_in_window :: "store \<Rightarrow> nat \<Rightarrow> bool" where
  "was_in_window s i \<longleftrightarrow> seen s i \<and> bk_in_ws (st_blocks s ! i)"

definition leaves_gpu :: "store \<Rightarrow> nat list \<Rightarrow> nat \<Rightarrow> bool" where
  "leaves_gpu s sel i \<longleftrightarrow> seen s i \<and> bk_tier (st_blocks s ! i) = TierGPU \<and>
     (i \<notin> set sel \<or> \<not> cf_optimize_stage_in (st_cfg s))"

text \<open>The stage-out loop: membership is cleared for what leaves the window or the GPU.\<close>

definition stage_out_blocks :: "store \<Rightarrow> nat list \<Rightarrow> block list" where
  "stage_out_blocks s sel = map (\<lambda>i. let b = st_blocks s ! i in
     if seen s i \<and> (st_repo s \<noteq> None \<and> i \<notin> set sel \<or> leaves_gpu s sel i) then b\<lparr>bk_in_ws := False\<rparr> else b)
     [0..<block_count s]"

section \<open>One block\<close>

definition remap_limit :: "config \<Rightarrow> block \<Rightarrow> bool" where
  "remap_limit cfg b \<longleftrightarrow> 0 < cf_refresh_remaps cfg \<and> cf_refresh_remaps cfg \<le> bk_remaps b"

definition delta_limit :: "config \<Rightarrow> block \<Rightarrow> nat \<Rightarrow> bool" where
  "delta_limit cfg b delta \<longleftrightarrow> 0 < cf_refresh_delta cfg \<and>
     (cf_refresh_delta cfg \<le> bk_delta b \<or>
      cf_refresh_delta cfg - min (bk_delta b) (cf_refresh_delta cfg) \<le> delta)"

definition baked_out_of_range :: "config \<Rightarrow> block \<Rightarrow> bool" where
  "baked_out_of_range cfg b \<longleftrightarrow> 0 < cf_max_baked cfg \<and>
     (bk_baked b < 0 \<or> cf_max_baked cfg < nat (bk_baked b) + bk_tokens b)"

definition remap_of :: "config \<Rightarrow> bool \<Rightarrow> bool \<Rightarrow> nat \<Rightarrow> block \<Rightarrow> nat \<Rightarrow> remap" where
  "remap_of cfg cold force i b window_pos =
     (let same = (bk_baked b = int window_pos);
          delta = moved (bk_baked b) (int window_pos);
          raw0 = (cf_immutable_k cfg \<and> (cold \<or> \<not> same) \<and>
            (cold \<or> remap_limit cfg b \<or> delta_limit cfg b delta \<or> baked_out_of_range cfg b))
      in \<lparr>rm_id = i, rm_tokens = bk_tokens b, rm_from = i32 (bk_baked b), rm_to = i32 (int window_pos),
          rm_resident = (\<not> cold), rm_skip = (same \<and> (\<not> cf_immutable_k cfg \<or> \<not> cold) \<and> \<not> force),
          rm_raw = (raw0 \<or> cf_immutable_k cfg \<and> force)\<rparr>)"

definition remapped :: "remap \<Rightarrow> nat \<Rightarrow> block \<Rightarrow> block" where
  "remapped rm window_pos b =
     (let b1 = b\<lparr>bk_in_ws := True\<rparr>;
          b2 = (if rm_skip rm then b1
                else if rm_raw rm then b1\<lparr>bk_remaps := 0, bk_delta := 0\<rparr>
                else b1\<lparr>bk_remaps := u32 (bk_remaps b + 1),
                        bk_delta := u64 (bk_delta b + moved (bk_baked b) (int window_pos))\<rparr>)
      in b2\<lparr>bk_baked := int window_pos\<rparr>)"

section \<open>The window\<close>

text \<open>The packing loop; \<open>was\<close> is the membership before the call.\<close>

fun pack_window :: "config \<Rightarrow> (nat \<Rightarrow> bool) \<Rightarrow> bool \<Rightarrow> nat list \<Rightarrow> nat \<Rightarrow> block list \<times> window_plan \<Rightarrow>
    block list \<times> window_plan result" where
  "pack_window cfg was force [] window_pos (bs, p) = (bs, Inr (p\<lparr>wp_total := window_pos\<rparr>))"
| "pack_window cfg was force (i # is) window_pos (bs, p) =
     (let b = bs ! i; full = (\<not> cf_optimize_stage_in cfg);
          natural = (was i \<and> bk_tier b = TierGPU);
          p1 = (if natural then (if bk_baked b = int window_pos then p\<lparr>wp_stable := wp_stable p + 1\<rparr>
                                 else p\<lparr>wp_moved := wp_moved p + 1\<rparr>) else p);
          p2 = (if natural \<and> \<not> full then p1\<lparr>wp_reused := wp_reused p1 + 1\<rparr> else p1);
          cold = (bk_tier b \<noteq> TierGPU \<or> full);
          p3 = (if \<not> bk_in_ws b then p2\<lparr>wp_stage_in := wp_stage_in p2 @ [i]\<rparr> else p2);
          rm = remap_of cfg cold force i b window_pos in
      if rm_skip rm \<and> rm_raw rm then (bs, Inl LogicError)
      else pack_window cfg was force is (u32 (window_pos + bk_tokens b))
        (bs[i := remapped rm window_pos b], p3\<lparr>wp_remaps := wp_remaps p3 @ [rm]\<rparr>))"

definition set_selection_impl :: "store \<Rightarrow> nat list \<Rightarrow> bool \<Rightarrow> store \<times> window_plan result" where
  "set_selection_impl s ids force =
     (let sel = window_ids s ids;
          p = plan_empty\<lparr>wp_overlap := length (filter (\<lambda>i. was_in_window s i \<and> i \<in> set sel) [0..<block_count s]),
            wp_stage_out := filter (leaves_gpu s sel) [0..<block_count s]\<rparr>
      in case pack_window (st_cfg s) (was_in_window s) force sel 0 (stage_out_blocks s sel, p) of
           (bs, r) \<Rightarrow> (s\<lparr>st_blocks := bs\<rparr>, r))"

definition set_selection :: "store \<Rightarrow> nat list \<Rightarrow> bool \<Rightarrow> store \<times> window_plan result" where
  "set_selection s ids force =
     (if st_repo s \<noteq> None then (s, Inl LogicError) else set_selection_impl s ids force)"

section \<open>The plan is never contradictory\<close>

lemma remap_of_consistent: "\<not> (rm_skip (remap_of cfg cold force i b w) \<and> rm_raw (remap_of cfg cold force i b w))"
  by (auto simp: remap_of_def Let_def)

text \<open>The overflow-free form of the displacement test is the plain one.\<close>

lemma delta_limit_iff: "delta_limit cfg b d \<longleftrightarrow> 0 < cf_refresh_delta cfg \<and> cf_refresh_delta cfg \<le> bk_delta b + d"
  by (auto simp: delta_limit_def)

section \<open>What packing does\<close>

text \<open>The window position of each selected block, with the wrap-around of the 32-bit sum.\<close>

fun window_slots :: "block list \<Rightarrow> nat list \<Rightarrow> nat \<Rightarrow> nat list" where
  "window_slots bs [] w = []"
| "window_slots bs (i # is) w = w # window_slots bs is (u32 (w + bk_tokens (bs ! i)))"

lemma window_slots_cong: "(\<And>i. i \<in> set is \<Longrightarrow> bk_tokens (bs ! i) = bk_tokens (bs' ! i)) \<Longrightarrow>
    window_slots bs is w = window_slots bs' is w"
  by (induction "is" arbitrary: w) auto

lemma length_window_slots [simp]: "length (window_slots bs is w) = length is"
  by (induction "is" arbitrary: w) auto

definition cold_block :: "config \<Rightarrow> block \<Rightarrow> bool" where
  "cold_block cfg b \<longleftrightarrow> bk_tier b \<noteq> TierGPU \<or> \<not> cf_optimize_stage_in cfg"

definition plan_remap :: "config \<Rightarrow> bool \<Rightarrow> block list \<Rightarrow> nat \<times> nat \<Rightarrow> remap" where
  "plan_remap cfg force bs iw = remap_of cfg (cold_block cfg (bs ! fst iw)) force (fst iw) (bs ! fst iw) (snd iw)"

lemma remapped_tokens [simp]: "bk_tokens (remapped rm w b) = bk_tokens b" "bk_tier (remapped rm w b) = bk_tier b"
  "bk_id (remapped rm w b) = bk_id b" "bk_pos (remapped rm w b) = bk_pos b" "bk_in_ws (remapped rm w b)"
  "bk_baked (remapped rm w b) = int w"
  by (simp_all add: remapped_def Let_def)

lemma plan_remap_update: "j \<noteq> i \<Longrightarrow> plan_remap cfg force (bs[i := b]) (j, w) = plan_remap cfg force bs (j, w)"
  by (simp add: plan_remap_def)

text \<open>One iteration: the block's remap is \<open>plan_remap\<close>, and the contradiction test never fires.\<close>

lemma pack_window_step:
  "\<exists>p1. pack_window cfg was force (i # is) w (bs, p) = pack_window cfg was force is (u32 (w + bk_tokens (bs ! i)))
       (bs[i := remapped (plan_remap cfg force bs (i, w)) w (bs ! i)], p1) \<and>
     wp_remaps p1 = wp_remaps p @ [plan_remap cfg force bs (i, w)] \<and>
     wp_stage_in p1 = wp_stage_in p @ (if bk_in_ws (bs ! i) then [] else [i]) \<and>
     wp_stage_out p1 = wp_stage_out p \<and> wp_overlap p1 = wp_overlap p"
proof -
  have e: "remap_of cfg (bk_tier (bs ! i) \<noteq> TierGPU \<or> \<not> cf_optimize_stage_in cfg) force i (bs ! i) w =
      plan_remap cfg force bs (i, w)"
    by (simp add: plan_remap_def cold_block_def)
  have c: "\<not> (rm_skip (plan_remap cfg force bs (i, w)) \<and> rm_raw (plan_remap cfg force bs (i, w)))"
    unfolding plan_remap_def by (rule remap_of_consistent)
  show ?thesis unfolding pack_window.simps Let_def e if_not_P [OF c]
    by (rule exI, rule conjI, rule refl) simp
qed

text \<open>What packing a list of distinct blocks leaves behind.\<close>

definition packed :: "config \<Rightarrow> bool \<Rightarrow> nat list \<Rightarrow> nat \<Rightarrow> block list \<Rightarrow> window_plan \<Rightarrow> block list \<Rightarrow> window_plan \<Rightarrow> bool" where
  "packed cfg force is w bs p bs' p' \<longleftrightarrow> length bs' = length bs \<and>
    wp_remaps p' = wp_remaps p @ map (plan_remap cfg force bs) (zip is (window_slots bs is w)) \<and>
    wp_stage_in p' = wp_stage_in p @ filter (\<lambda>i. \<not> bk_in_ws (bs ! i)) is \<and>
    wp_stage_out p' = wp_stage_out p \<and> wp_overlap p' = wp_overlap p \<and>
    wp_total p' = foldl (\<lambda>w i. u32 (w + bk_tokens (bs ! i))) w is \<and>
    (\<forall>i. i \<notin> set is \<longrightarrow> bs' ! i = bs ! i) \<and>
    (\<forall>k < length is. bs' ! (is ! k) =
       remapped (plan_remap cfg force bs (is ! k, window_slots bs is w ! k)) (window_slots bs is w ! k) (bs ! (is ! k)))"

lemma pack_window_ok:
  assumes "distinct is" and "\<forall>i \<in> set is. i < length bs"
  shows "\<exists>bs' p'. pack_window cfg was force is w (bs, p) = (bs', Inr p') \<and> packed cfg force is w bs p bs' p'"
  using assms
proof (induction "is" arbitrary: w bs p)
  case Nil
  then show ?case by (simp add: packed_def)
next
  case (Cons i "is")
  define w1 where "w1 = u32 (w + bk_tokens (bs ! i))"
  define b1 where "b1 = remapped (plan_remap cfg force bs (i, w)) w (bs ! i)"
  define bs1 where "bs1 = bs[i := b1]"
  obtain p1 where p1: "pack_window cfg was force (i # is) w (bs, p) = pack_window cfg was force is w1 (bs1, p1)"
    "wp_remaps p1 = wp_remaps p @ [plan_remap cfg force bs (i, w)]"
    "wp_stage_in p1 = wp_stage_in p @ (if bk_in_ws (bs ! i) then [] else [i])"
    "wp_stage_out p1 = wp_stage_out p" "wp_overlap p1 = wp_overlap p"
    using pack_window_step [of cfg was force i "is" w bs p] unfolding w1_def bs1_def b1_def by (elim exE conjE)
  have i: "i < length bs" "i \<notin> set is" and d: "distinct is" "\<forall>j \<in> set is. j < length bs1"
    using Cons.prems by (auto simp: bs1_def)
  obtain bs' p' where r: "pack_window cfg was force is w1 (bs1, p1) = (bs', Inr p')" and k: "packed cfg force is w1 bs1 p1 bs' p'"
    using Cons.IH [OF d, of w1 p1] by (elim exE conjE)
  have same: "bs1 ! j = bs ! j" if "j \<in> set is" for j
  proof -
    have "i \<noteq> j" using that i(2) by blast
    then show ?thesis by (simp add: bs1_def)
  qed
  have ws: "window_slots bs1 is w1 = window_slots bs is w1" by (rule window_slots_cong) (simp add: same)
  have pr: "plan_remap cfg force bs1 (j, v) = plan_remap cfg force bs (j, v)" if "j \<in> set is" for j v
    using that i unfolding bs1_def by (intro plan_remap_update) auto
  have mp: "map (plan_remap cfg force bs1) (zip is (window_slots bs is w1)) = map (plan_remap cfg force bs) (zip is (window_slots bs is w1))"
  proof (rule map_cong [OF refl])
    fix x assume x: "x \<in> set (zip is (window_slots bs is w1))"
    obtain j v where jv: "x = (j, v)" by fastforce
    have "fst x \<in> set is" using set_zip_leftD [OF x [unfolded jv]] jv by simp
    then show "plan_remap cfg force bs1 x = plan_remap cfg force bs x" using pr by (cases x) simp
  qed
  have fl: "filter (\<lambda>j. \<not> bk_in_ws (bs1 ! j)) is = filter (\<lambda>j. \<not> bk_in_ws (bs ! j)) is"
    by (rule filter_cong) (simp_all add: same)
  have fo: "foldl (\<lambda>w j. u32 (w + bk_tokens (bs1 ! j))) w1 is = foldl (\<lambda>w j. u32 (w + bk_tokens (bs ! j))) w1 is"
    by (rule foldl_cong) (simp_all add: same)
  have "packed cfg force (i # is) w bs p bs' p'"
    unfolding packed_def
  proof (intro conjI allI impI)
    show "length bs' = length bs" using k by (simp add: packed_def bs1_def)
    show "wp_remaps p' = wp_remaps p @ map (plan_remap cfg force bs) (zip (i # is) (window_slots bs (i # is) w))"
      using k p1(2) ws mp by (simp add: packed_def w1_def)
    show "wp_stage_in p' = wp_stage_in p @ filter (\<lambda>j. \<not> bk_in_ws (bs ! j)) (i # is)"
      using k p1(3) fl by (simp add: packed_def)
    show "wp_stage_out p' = wp_stage_out p" "wp_overlap p' = wp_overlap p" using k p1(4,5) by (simp_all add: packed_def)
    show "wp_total p' = foldl (\<lambda>w j. u32 (w + bk_tokens (bs ! j))) w (i # is)"
      using k fo by (simp add: packed_def w1_def)
    show "bs' ! j = bs ! j" if "j \<notin> set (i # is)" for j
      using that k by (auto simp: packed_def bs1_def)
    fix n assume n: "n < length (i # is)"
    show "bs' ! ((i # is) ! n) = remapped (plan_remap cfg force bs ((i # is) ! n, window_slots bs (i # is) w ! n))
        (window_slots bs (i # is) w ! n) (bs ! ((i # is) ! n))"
    proof (cases n)
      case 0
      have "bs' ! i = bs1 ! i" using k i(2) by (simp add: packed_def)
      then show ?thesis using 0 i(1) by (simp add: bs1_def b1_def)
    next
      case (Suc m)
      then have m: "m < length is" using n by simp
      then have mem: "is ! m \<in> set is" by simp
      have "bs' ! (is ! m) = remapped (plan_remap cfg force bs1 (is ! m, window_slots bs1 is w1 ! m))
          (window_slots bs1 is w1 ! m) (bs1 ! (is ! m))"
        using k m by (simp add: packed_def)
      then show ?thesis unfolding ws pr [OF mem] same [OF mem] using Suc by (simp add: w1_def)
    qed
  qed
  then show ?case using p1(1) r by (simp del: pack_window.simps)
qed

section \<open>The order of the window\<close>

definition ordered_by_history :: "store \<Rightarrow> nat set \<Rightarrow> bool" where
  "ordered_by_history s A \<longleftrightarrow> (\<forall>i \<in> A. \<forall>j \<in> A. i \<noteq> j \<longrightarrow> earlier s i j \<or> earlier s j i)"

lemma ordered_legacy: "st_repo s = None \<Longrightarrow> ordered_by_history s A"
  by (auto simp: ordered_by_history_def earlier_def)

lemma earlier_irrefl [simp]: "\<not> earlier s i i"
  by (auto simp: earlier_def Let_def split: option.splits)

lemma earlier_strict: "strict_weak (earlier s)"
  unfolding strict_weak_def
  by (auto simp: earlier_def Let_def split: option.splits if_splits)

lemma earlier_chain: "earlier s a b \<Longrightarrow> earlier s b c \<Longrightarrow> earlier s a c"
  by (auto simp: earlier_def Let_def split: option.splits if_splits)

lemma remdups_adj_ordered:
  assumes "sorted_wrt (\<lambda>a b. a = b \<or> earlier s a b) xs"
  shows "sorted_wrt (earlier s) (remdups_adj xs)"
  using assms
proof (induction xs rule: remdups_adj.induct)
  case (3 x y xs)
  show ?case
  proof (cases "x = y")
    case True
    then show ?thesis using 3 by simp
  next
    case False
    have xy: "earlier s x y" using "3.prems" False by simp
    have "earlier s x z" if "z \<in> set (remdups_adj (y # xs))" for z
    proof -
      have "z = y \<or> z \<in> set xs" using that by simp
      then show ?thesis
      proof
        assume "z \<in> set xs"
        then have "y = z \<or> earlier s y z" using "3.prems" by simp
        then show ?thesis using xy earlier_chain by blast
      qed (use xy in simp)
    qed
    then show ?thesis using False "3.IH"(2) [OF False] "3.prems" by simp
  qed
qed auto

lemma window_ids_spec:
  assumes "ordered_by_history s {i \<in> set ids. i < block_count s}"
  shows "sorted_wrt (earlier s) (window_ids s ids)" and "distinct (window_ids s ids)"
    and "set (window_ids s ids) = {i \<in> set ids. i < block_count s}"
proof -
  let ?xs = "sort_by (earlier s) (filter (\<lambda>i. i < block_count s) ids)"
  have s: "set ?xs = {i \<in> set ids. i < block_count s}" by auto
  have "sorted_wrt (\<lambda>a b. \<not> earlier s b a) ?xs" by (rule sorted_sort_by [OF earlier_strict])
  moreover have "\<And>a b. a \<in> set ?xs \<Longrightarrow> b \<in> set ?xs \<Longrightarrow> \<not> earlier s b a \<Longrightarrow> a = b \<or> earlier s a b"
    using assms unfolding s ordered_by_history_def by blast
  ultimately have "sorted_wrt (\<lambda>a b. a = b \<or> earlier s a b) ?xs" by (rule sorted_wrt_mono_rel [rotated])
  then show e: "sorted_wrt (earlier s) (window_ids s ids)" unfolding window_ids_def by (rule remdups_adj_ordered)
  show "set (window_ids s ids) = {i \<in> set ids. i < block_count s}" by (simp add: window_ids_def)
  have "sorted_wrt (earlier s) xs \<Longrightarrow> distinct xs" for xs by (induction xs) auto
  then show "distinct (window_ids s ids)" using e .
qed

section \<open>Installing a selection\<close>

lemma length_stage_out_blocks [simp]: "length (stage_out_blocks s sel) = block_count s"
  by (simp add: stage_out_blocks_def)

lemma stage_out_blocks_nth:
  "i < block_count s \<Longrightarrow> stage_out_blocks s sel ! i =
     (if seen s i \<and> (st_repo s \<noteq> None \<and> i \<notin> set sel \<or> leaves_gpu s sel i)
      then (st_blocks s ! i)\<lparr>bk_in_ws := False\<rparr> else st_blocks s ! i)"
  unfolding stage_out_blocks_def Let_def by (simp del: not_None_eq split del: if_split cong: if_cong)

lemma block_ws_self: "(b :: block)\<lparr>bk_in_ws := bk_in_ws b\<rparr> = b"
  by simp

lemma stage_out_blocks_ws:
  assumes "i < block_count s"
  shows "stage_out_blocks s sel ! i = (st_blocks s ! i)\<lparr>bk_in_ws := bk_in_ws (stage_out_blocks s sel ! i)\<rparr>"
proof (cases "seen s i \<and> (st_repo s \<noteq> None \<and> i \<notin> set sel \<or> leaves_gpu s sel i)")
  case True
  then have "stage_out_blocks s sel ! i = (st_blocks s ! i)\<lparr>bk_in_ws := False\<rparr>"
    unfolding stage_out_blocks_nth [OF assms] by (rule if_P)
  then show ?thesis by simp
next
  case False
  then have "stage_out_blocks s sel ! i = st_blocks s ! i"
    unfolding stage_out_blocks_nth [OF assms] by (rule if_not_P)
  then show ?thesis by (simp add: block_ws_self)
qed

lemma plan_remap_ws: "plan_remap cfg force bs (i, w) = plan_remap cfg force bs' (i, w)"
  if "bs ! i = (bs' ! i)\<lparr>bk_in_ws := x\<rparr>" for x
proof -
  have "bk_tier (bs ! i) = bk_tier (bs' ! i)" "bk_baked (bs ! i) = bk_baked (bs' ! i)" "bk_tokens (bs ! i) = bk_tokens (bs' ! i)"
    "bk_remaps (bs ! i) = bk_remaps (bs' ! i)" "bk_delta (bs ! i) = bk_delta (bs' ! i)"
    using that by simp_all
  then show ?thesis
    by (simp add: plan_remap_def cold_block_def remap_of_def remap_limit_def delta_limit_def baked_out_of_range_def)
qed

text \<open>The window position of the \<open>k\<close>-th block is the number of tokens before it.\<close>

lemma window_slots_prefix:
  "w + sum_list (map (\<lambda>i. bk_tokens (bs ! i)) is) \<le> UINT32_MAX \<Longrightarrow> k < length is \<Longrightarrow>
     window_slots bs is w ! k = w + sum_list (map (\<lambda>i. bk_tokens (bs ! i)) (take k is))"
proof (induction "is" arbitrary: w k)
  case (Cons i "is")
  have "u32 (w + bk_tokens (bs ! i)) = w + bk_tokens (bs ! i)" using Cons.prems(1) by (intro u32_id) simp
  then show ?case using Cons by (cases k) (simp_all add: add.assoc)
qed simp

lemma window_total:
  "w + sum_list (map (\<lambda>i. bk_tokens (bs ! i)) is) \<le> UINT32_MAX \<Longrightarrow>
     foldl (\<lambda>w i. u32 (w + bk_tokens (bs ! i))) w is = w + sum_list (map (\<lambda>i. bk_tokens (bs ! i)) is)"
proof (induction "is" arbitrary: w)
  case (Cons i "is")
  have "u32 (w + bk_tokens (bs ! i)) = w + bk_tokens (bs ! i)" using Cons.prems by (intro u32_id) simp
  then show ?case using Cons by (simp add: add.assoc)
qed simp

definition tokens_of :: "store \<Rightarrow> nat list \<Rightarrow> nat" where
  "tokens_of s is = sum_list (map (\<lambda>i. bk_tokens (st_blocks s ! i)) is)"

lemma set_selection_spec:
  assumes o: "ordered_by_history s {i \<in> set ids. i < block_count s}"
    and u: "tokens_of s (window_ids s ids) \<le> UINT32_MAX" and r: "set_selection_impl s ids force = (s', r)"
  shows "\<exists>p. r = Inr p \<and> wp_total p = tokens_of s (window_ids s ids) \<and>
    map rm_id (wp_remaps p) = window_ids s ids \<and>
    wp_stage_out p = filter (leaves_gpu s (window_ids s ids)) [0..<block_count s] \<and>
    wp_stage_in p = filter (\<lambda>i. \<not> bk_in_ws (stage_out_blocks s (window_ids s ids) ! i)) (window_ids s ids) \<and>
    length (st_blocks s') = block_count s \<and> st_cfg s' = st_cfg s \<and>
    (\<forall>i < block_count s. i \<notin> set (window_ids s ids) \<longrightarrow> st_blocks s' ! i = stage_out_blocks s (window_ids s ids) ! i) \<and>
    (\<forall>k < length (window_ids s ids). let i = window_ids s ids ! k; w = tokens_of s (take k (window_ids s ids));
        rm = plan_remap (st_cfg s) force (st_blocks s) (i, w) in
      wp_remaps p ! k = rm \<and> st_blocks s' ! i = remapped rm w (stage_out_blocks s (window_ids s ids) ! i))"
proof -
  define sel where "sel = window_ids s ids"
  define bs where "bs = stage_out_blocks s sel"
  define p0 where "p0 = plan_empty\<lparr>wp_overlap := length (filter (\<lambda>i. was_in_window s i \<and> i \<in> set sel) [0..<block_count s]),
            wp_stage_out := filter (leaves_gpu s sel) [0..<block_count s]\<rparr>"
  note w = window_ids_spec [OF o, folded sel_def]
  have lt: "\<forall>i \<in> set sel. i < length bs" using w(3) by (auto simp: bs_def)
  obtain bs' p where pk: "pack_window (st_cfg s) (was_in_window s) force sel 0 (bs, p0) = (bs', Inr p)"
    and k: "packed (st_cfg s) force sel 0 bs p0 bs' p"
    using pack_window_ok [OF w(2) lt, of "st_cfg s" "was_in_window s" force 0 p0] by (elim exE conjE)
  have res: "s' = s\<lparr>st_blocks := bs'\<rparr>" "r = Inr p"
    using r pk by (simp_all add: set_selection_impl_def Let_def sel_def bs_def p0_def)
  have tok: "bk_tokens (bs ! i) = bk_tokens (st_blocks s ! i)" if "i \<in> set sel" for i
    using that lt by (simp add: bs_def stage_out_blocks_nth)
  have sums: "sum_list (map (\<lambda>i. bk_tokens (bs ! i)) (take n sel)) = tokens_of s (take n sel)" for n
    unfolding tokens_of_def by (rule arg_cong [where f = sum_list], rule map_cong [OF refl]) (use tok in_set_takeD in fast)
  have sum: "sum_list (map (\<lambda>i. bk_tokens (bs ! i)) sel) = tokens_of s sel" using sums [of "length sel"] by simp
  have le: "0 + sum_list (map (\<lambda>i. bk_tokens (bs ! i)) sel) \<le> UINT32_MAX" using u sum by (simp add: sel_def)
  have slot: "window_slots bs sel 0 ! n = tokens_of s (take n sel)" if "n < length sel" for n
    using window_slots_prefix [OF le that] sums by simp
  have pr: "plan_remap (st_cfg s) force bs (i, v) = plan_remap (st_cfg s) force (st_blocks s) (i, v)" if "i \<in> set sel" for i v
  proof -
    have "i < block_count s" using that lt by (simp add: bs_def)
    then have "bs ! i = (st_blocks s ! i)\<lparr>bk_in_ws := bk_in_ws (bs ! i)\<rparr>"
      unfolding bs_def by (rule stage_out_blocks_ws)
    then show ?thesis by (rule plan_remap_ws)
  qed
  have rem: "wp_remaps p = map (plan_remap (st_cfg s) force bs) (zip sel (window_slots bs sel 0))"
    using k by (simp add: packed_def p0_def plan_empty_def)
  have ids: "map rm_id (wp_remaps p) = sel"
    unfolding rem by (rule nth_equalityI) (simp_all add: plan_remap_def remap_of_def Let_def)
  have each: "let i = sel ! n; w = tokens_of s (take n sel); rm = plan_remap (st_cfg s) force (st_blocks s) (i, w) in
      wp_remaps p ! n = rm \<and> st_blocks s' ! i = remapped rm w (bs ! i)" if n: "n < length sel" for n
  proof -
    have m: "sel ! n \<in> set sel" using n by simp
    have "bs' ! (sel ! n) = remapped (plan_remap (st_cfg s) force bs (sel ! n, window_slots bs sel 0 ! n))
        (window_slots bs sel 0 ! n) (bs ! (sel ! n))"
      using k n by (simp add: packed_def)
    moreover have "wp_remaps p ! n = plan_remap (st_cfg s) force bs (sel ! n, window_slots bs sel 0 ! n)"
      unfolding rem using n by simp
    ultimately show ?thesis unfolding slot [OF n] pr [OF m] Let_def res(1) by simp
  qed
  show ?thesis unfolding sel_def [symmetric] bs_def [symmetric]
  proof (intro exI [of _ p] conjI)
    show "r = Inr p" by (rule res(2))
    show "wp_total p = tokens_of s sel" using k window_total [OF le] sum by (simp add: packed_def)
    show "map rm_id (wp_remaps p) = sel" by (rule ids)
    show "wp_stage_out p = filter (leaves_gpu s sel) [0..<block_count s]" using k by (simp add: packed_def p0_def)
    show "wp_stage_in p = filter (\<lambda>i. \<not> bk_in_ws (bs ! i)) sel" using k by (simp add: packed_def p0_def plan_empty_def)
    show "length (st_blocks s') = block_count s" using k res(1) by (simp add: packed_def bs_def)
    show "st_cfg s' = st_cfg s" using res(1) by simp
    show "\<forall>i < block_count s. i \<notin> set sel \<longrightarrow> st_blocks s' ! i = bs ! i" using k res(1) by (simp add: packed_def)
  qed (use each in blast)
qed

text \<open> Claim C28. Installing a selection always succeeds and packs the window without gaps: the chosen
  blocks stand in history order, each once, block by block from position 0, and are afterwards in
  the working set and baked at exactly their window position; a kept K is one already at that
  position (and, with an immutable source, resident), a block with no resident K is rebuilt from the
  mirror, never kept and rebuilt at once; and what leaves the GPU is exactly the resident blocks that
  were not chosen (all resident ones when reuse is switched off).\<close>

theorem selection_window_packed:
  assumes "ordered_by_history s {i \<in> set ids. i < block_count s}"
    and "tokens_of s (window_ids s ids) \<le> INT32_MAX" and "set_selection_impl s ids force = (s', r)"
  shows "\<exists>p sel. r = Inr p \<and> sel = map rm_id (wp_remaps p) \<and> sorted_wrt (earlier s) sel \<and>
    set sel = {i \<in> set ids. i < block_count s} \<and> wp_total p = tokens_of s sel \<and>
    set (wp_stage_out p) = {i. i < block_count s \<and> leaves_gpu s sel i} \<and>
    (\<forall>k < length sel. rm_to (wp_remaps p ! k) = int (tokens_of s (take k sel)) \<and>
       bk_baked (st_blocks s' ! (sel ! k)) = rm_to (wp_remaps p ! k) \<and> bk_in_ws (st_blocks s' ! (sel ! k)) \<and>
       (rm_skip (wp_remaps p ! k) \<longrightarrow> \<not> force \<and> bk_baked (st_blocks s ! (sel ! k)) = rm_to (wp_remaps p ! k) \<and>
          (cf_immutable_k (st_cfg s) \<longrightarrow> rm_resident (wp_remaps p ! k))) \<and>
       (cf_immutable_k (st_cfg s) \<and> (force \<or> \<not> rm_resident (wp_remaps p ! k)) \<longrightarrow> rm_raw (wp_remaps p ! k)) \<and>
       \<not> (rm_skip (wp_remaps p ! k) \<and> rm_raw (wp_remaps p ! k)))"
proof -
  let ?sel = "window_ids s ids"
  have u: "tokens_of s ?sel \<le> UINT32_MAX" using assms(2) int32_le_uint32 by linarith
  obtain p where p: "r = Inr p" "wp_total p = tokens_of s ?sel" "map rm_id (wp_remaps p) = ?sel"
    "wp_stage_out p = filter (leaves_gpu s ?sel) [0..<block_count s]"
    "\<forall>k < length ?sel. let i = ?sel ! k; w = tokens_of s (take k ?sel); rm = plan_remap (st_cfg s) force (st_blocks s) (i, w) in
      wp_remaps p ! k = rm \<and> st_blocks s' ! i = remapped rm w (stage_out_blocks s ?sel ! i)"
    using set_selection_spec [OF assms(1) u assms(3)] by (elim exE conjE)
  note w = window_ids_spec [OF assms(1)]
  have each: "rm_to (wp_remaps p ! k) = int (tokens_of s (take k ?sel)) \<and>
       bk_baked (st_blocks s' ! (?sel ! k)) = rm_to (wp_remaps p ! k) \<and> bk_in_ws (st_blocks s' ! (?sel ! k)) \<and>
       (rm_skip (wp_remaps p ! k) \<longrightarrow> \<not> force \<and> bk_baked (st_blocks s ! (?sel ! k)) = rm_to (wp_remaps p ! k) \<and>
          (cf_immutable_k (st_cfg s) \<longrightarrow> rm_resident (wp_remaps p ! k))) \<and>
       (cf_immutable_k (st_cfg s) \<and> (force \<or> \<not> rm_resident (wp_remaps p ! k)) \<longrightarrow> rm_raw (wp_remaps p ! k)) \<and>
       \<not> (rm_skip (wp_remaps p ! k) \<and> rm_raw (wp_remaps p ! k))" if k: "k < length ?sel" for k
  proof -
    define t where "t = tokens_of s (take k ?sel)"
    define rm where "rm = plan_remap (st_cfg s) force (st_blocks s) (?sel ! k, t)"
    have e: "wp_remaps p ! k = rm" "st_blocks s' ! (?sel ! k) = remapped rm t (stage_out_blocks s ?sel ! (?sel ! k))"
      using p(5) k by (simp_all add: Let_def rm_def t_def)
    have "tokens_of s (take k ?sel) + tokens_of s (drop k ?sel) = tokens_of s ?sel"
      unfolding tokens_of_def by (metis append_take_drop_id map_append sum_list_append)
    then have "t \<le> INT32_MAX" using assms(2) by (simp add: t_def)
    then have "int t < 2147483648" by (simp add: INT32_MAX_def)
    then have "i32 (int t) = int t" by (simp add: i32_def)
    then have to: "rm_to rm = int t" by (simp add: rm_def plan_remap_def remap_of_def Let_def)
    have c: "\<not> (rm_skip rm \<and> rm_raw rm)" unfolding rm_def plan_remap_def by (rule remap_of_consistent)
    have f: "rm_skip rm \<Longrightarrow> \<not> force \<and> bk_baked (st_blocks s ! (?sel ! k)) = int t \<and> (cf_immutable_k (st_cfg s) \<longrightarrow> rm_resident rm)"
      "cf_immutable_k (st_cfg s) \<and> (force \<or> \<not> rm_resident rm) \<Longrightarrow> rm_raw rm"
      by (auto simp: rm_def plan_remap_def remap_of_def Let_def)
    show ?thesis unfolding e t_def [symmetric] remapped_tokens to using c f to by simp
  qed
  show ?thesis
    by (intro exI [of _ p] exI [of _ ?sel] conjI) (use p(1-4) w each in \<open>simp_all\<close>)
qed

section \<open>The drift of in-place rotations\<close>

definition drift_ok :: "config \<Rightarrow> block \<Rightarrow> bool" where
  "drift_ok cfg b \<longleftrightarrow> (0 < cf_refresh_remaps cfg \<longrightarrow> bk_remaps b \<le> cf_refresh_remaps cfg) \<and>
     (0 < cf_refresh_delta cfg \<longrightarrow> bk_delta b < cf_refresh_delta cfg)"

lemma drift_remapped:
  assumes "cf_immutable_k cfg" and "cf_refresh_remaps cfg \<le> UINT32_MAX" and "cf_refresh_delta cfg \<le> UINT64_MAX"
    and "drift_ok cfg b" and "rm = remap_of cfg cold force i b w" and "b' = b\<lparr>bk_in_ws := x\<rparr>"
  shows "drift_ok cfg (remapped rm w b')"
proof (cases "rm_skip rm \<or> rm_raw rm")
  case True
  then show ?thesis using assms(4,6) by (auto simp: drift_ok_def remapped_def Let_def)
next
  case False
  let ?d = "moved (bk_baked b) (int w)"
  have n: "\<not> remap_limit cfg b" "\<not> delta_limit cfg b ?d"
    using False assms(1) by (auto simp: assms(5) remap_of_def Let_def)
  have e: "bk_remaps (remapped rm w b') = u32 (bk_remaps b + 1)" "bk_delta (remapped rm w b') = u64 (bk_delta b + ?d)"
    using False by (simp_all add: remapped_def assms(6))
  have "u32 (bk_remaps b + 1) \<le> cf_refresh_remaps cfg" if "0 < cf_refresh_remaps cfg"
    using n(1) that assms(2) u32_id [of "bk_remaps b + 1"] by (simp add: remap_limit_def)
  moreover have "u64 (bk_delta b + ?d) < cf_refresh_delta cfg" if "0 < cf_refresh_delta cfg"
    using n(2) that assms(3) u64_id [of "bk_delta b + ?d"] by (simp add: delta_limit_iff)
  ultimately show ?thesis unfolding drift_ok_def e by blast
qed

text \<open> Claim C29. Rounding drift never exceeds the configured limits: with an immutable source of K, installing
  a selection preserves that no block has been rotated in place more often than the remap limit, nor
  by a total distance that reaches the displacement limit, since it was last rebuilt from the
  unrotated mirror.\<close>

theorem drift_stays_bounded:
  assumes "cf_immutable_k (st_cfg s)" and "cf_refresh_remaps (st_cfg s) \<le> UINT32_MAX"
    and "cf_refresh_delta (st_cfg s) \<le> UINT64_MAX"
    and "ordered_by_history s {i \<in> set ids. i < block_count s}"
    and "tokens_of s (window_ids s ids) \<le> UINT32_MAX" and "set_selection_impl s ids force = (s', r)"
    and "\<forall>b \<in> set (st_blocks s). drift_ok (st_cfg s) b"
  shows "\<forall>b \<in> set (st_blocks s'). drift_ok (st_cfg s') b"
proof -
  let ?sel = "window_ids s ids"
  obtain p :: window_plan where p: "length (st_blocks s') = block_count s" "st_cfg s' = st_cfg s"
    "\<forall>i < block_count s. i \<notin> set ?sel \<longrightarrow> st_blocks s' ! i = stage_out_blocks s ?sel ! i"
    "\<forall>k < length ?sel. let i = ?sel ! k; w = tokens_of s (take k ?sel); rm = plan_remap (st_cfg s) force (st_blocks s) (i, w) in
      wp_remaps p ! k = rm \<and> st_blocks s' ! i = remapped rm w (stage_out_blocks s ?sel ! i)"
    using set_selection_spec [OF assms(4-6)] by (elim exE conjE) (rule that)
  have old: "drift_ok (st_cfg s) (st_blocks s ! i)" if "i < block_count s" for i
    using assms(7) that by (simp add: block_count_def)
  note so = stage_out_blocks_ws [of _ s ?sel]
  have "drift_ok (st_cfg s) (st_blocks s' ! i)" if i: "i < block_count s" for i
  proof (cases "i \<in> set ?sel")
    case False
    then have "st_blocks s' ! i = (st_blocks s ! i)\<lparr>bk_in_ws := bk_in_ws (stage_out_blocks s ?sel ! i)\<rparr>"
      using p(3) i so [OF i] by metis
    moreover have "drift_ok (st_cfg s) ((st_blocks s ! i)\<lparr>bk_in_ws := x\<rparr>)" for x
      using old [OF i] by (simp add: drift_ok_def)
    ultimately show ?thesis by metis
  next
    case True
    then obtain k where k: "k < length ?sel" "?sel ! k = i" by (auto simp: in_set_conv_nth)
    define w where "w = tokens_of s (take k ?sel)"
    have "st_blocks s' ! i = remapped (plan_remap (st_cfg s) force (st_blocks s) (i, w)) w (stage_out_blocks s ?sel ! i)"
      using p(4) k unfolding w_def Let_def by blast
    then show ?thesis
      using drift_remapped [OF assms(1-3) old [OF i] _ so [OF i], of "plan_remap (st_cfg s) force (st_blocks s) (i, w)"
          "cold_block (st_cfg s) (st_blocks s ! i)" force i w]
      by (simp add: plan_remap_def)
  qed
  then show ?thesis using p(1,2) by (auto simp: in_set_conv_nth block_count_def)
qed

section \<open>An example selection\<close>

definition ex_warm :: store where
  "ex_warm = ex_store\<lparr>st_blocks := [(legacy_block 0 0 4)\<lparr>bk_tier := TierGPU, bk_in_ws := True\<rparr>,
     (legacy_block 1 4 2)\<lparr>bk_tier := TierGPU\<rparr>]\<rparr>"

lemma ex_warm_fields:
  "st_repo ex_warm = None" "st_cfg ex_warm = ex_config" "block_count ex_warm = 2"
  "st_blocks ex_warm = [(legacy_block 0 0 4)\<lparr>bk_tier := TierGPU, bk_in_ws := True\<rparr>, (legacy_block 1 4 2)\<lparr>bk_tier := TierGPU\<rparr>]"
  by (simp_all add: ex_warm_def ex_store_def block_count_def)

lemma ex_warm_ids: "window_ids ex_warm [1, 7, 1] = [1]"
  by (simp add: window_ids_def ex_warm_fields earlier_def del: One_nat_def)

lemma ex_warm_tokens: "tokens_of ex_warm (window_ids ex_warm [1, 7, 1]) = 2"
  unfolding ex_warm_ids by (simp add: tokens_of_def ex_warm_fields legacy_block_def)

lemma ex_warm_leaves: "1 \<in> set sel \<Longrightarrow> 0 \<notin> set sel \<Longrightarrow> {i. i < block_count ex_warm \<and> leaves_gpu ex_warm sel i} = {0}"
  by (auto simp: ex_warm_fields leaves_gpu_def seen_def ex_config_def less_Suc_eq numeral_2_eq_2)

theorem selection_window_packed_witness:
  "\<exists>p. snd (set_selection_impl ex_warm [1, 7, 1] False) = Inr p \<and> rm_id ` set (wp_remaps p) = {1} \<and>
     set (wp_stage_out p) = {0}"
proof -
  have o: "ordered_by_history ex_warm {i \<in> set [1, 7, 1]. i < block_count ex_warm}" by (rule ordered_legacy) (simp add: ex_warm_fields)
  have t: "tokens_of ex_warm (window_ids ex_warm [1, 7, 1]) \<le> INT32_MAX" unfolding ex_warm_tokens by (simp add: INT32_MAX_def)
  have r: "set_selection_impl ex_warm [1, 7, 1] False =
      (fst (set_selection_impl ex_warm [1, 7, 1] False), snd (set_selection_impl ex_warm [1, 7, 1] False))" by simp
  obtain p :: window_plan and sel where p: "snd (set_selection_impl ex_warm [1, 7, 1] False) = Inr p"
    "sel = map rm_id (wp_remaps p)" "set sel = {i \<in> set [1, 7, 1]. i < block_count ex_warm}"
    "set (wp_stage_out p) = {i. i < block_count ex_warm \<and> leaves_gpu ex_warm sel i}"
    using selection_window_packed [OF o t r] by (elim exE conjE) (rule that)
  have s: "set sel = {1}" unfolding p(3) by (auto simp: ex_warm_fields)
  have "rm_id ` set (wp_remaps p) = {1}" using s unfolding p(2) by simp
  moreover have "set (wp_stage_out p) = {0}" unfolding p(4) by (rule ex_warm_leaves) (simp_all add: s)
  ultimately show ?thesis using p(1) by blast
qed

theorem drift_stays_bounded_witness:
  "list_all (drift_ok (st_cfg (fst (set_selection_impl ex_warm [1, 7, 1] False))))
     (st_blocks (fst (set_selection_impl ex_warm [1, 7, 1] False)))"
  unfolding list_all_iff
proof (rule drift_stays_bounded [where s = ex_warm and ids = "[1, 7, 1]" and force = False
      and r = "snd (set_selection_impl ex_warm [1, 7, 1] False)"])
  show "ordered_by_history ex_warm {i \<in> set [1, 7, 1]. i < block_count ex_warm}"
    by (rule ordered_legacy) (simp add: ex_warm_fields)
  show "tokens_of ex_warm (window_ids ex_warm [1, 7, 1]) \<le> UINT32_MAX"
    unfolding ex_warm_tokens by (simp add: UINT32_MAX_def)
qed (simp_all add: ex_warm_fields ex_config_def drift_ok_def legacy_block_def block_init_def UINT32_MAX_def UINT64_MAX_def)

end
