(* ===== verification/Store_Append.thy ===== *)
theory Store_Append
  imports Storage_Spans Keep_Allocation Store_Blocks Store_Selection
begin

text \<open>
  The bounded history of \<open>KvMemStore\<close> (\<open>src/src/kvmem_store.cpp\<close>): reading a history interval as
  storage spans with their leases, installing a committed slot in the directory, and the append
  transaction \<open>RepositoryAppend\<close> - reserve whole slots, hand their addresses to the producer, publish
  the accepted prefix. A \<open>Lease\<close> object is the handle it pins; the repository inside the store counts
  it, so taking and dropping one is a change of \<open>st_repo\<close>. The transaction object is a record beside
  the store, \<open>ap_open\<close> standing for a non-null \<open>owner_\<close>.
\<close>

section \<open>Reading a history interval\<close>

record storage_read =
  sr_spans :: "storage_span list"
  sr_leases :: "handle list"

definition drop_leases :: "repo \<Rightarrow> handle list \<Rightarrow> repo" where
  "drop_leases r hs = foldl lease_reset r hs"

text \<open>The directory walk: repository, covered end and spans so far; every span holds one lease.\<close>

fun read_walk :: "store \<Rightarrow> (nat \<times> handle) list \<Rightarrow> nat \<Rightarrow> nat \<Rightarrow> repo \<Rightarrow> storage_span list \<Rightarrow>
    repo \<times> nat \<times> storage_span list" where
  "read_walk s [] covered stop r spans = (r, covered, spans)"
| "read_walk s ((first, h) # es) covered stop r spans =
     (if stop \<le> covered then (r, covered, spans)
      else case try_pin r h of
          (r', None) \<Rightarrow> (r', covered, spans)
        | (r', Some l) \<Rightarrow>
            let b = st_blocks s ! h_slot h; last_pos = first + bk_tokens b in
            if covered < first \<or> last_pos \<le> covered then (lease_reset r' l, covered, spans)
            else let n = min last_pos stop - covered in
              read_walk s es (covered + n) stop r'
                (spans @ [\<lparr>ss_history = covered, ss_storage = u32 (bk_pos b + (covered - first)),
                           ss_count = n, ss_handle = h\<rparr>]))"

definition repository_storage_read :: "store \<Rightarrow> nat \<Rightarrow> nat \<Rightarrow> store \<times> storage_read result" where
  "repository_storage_read s b0 n = (case st_repo s of None \<Rightarrow> (s, Inl LogicError)
     | Some r \<Rightarrow>
         if UINT64_MAX - n < b0 then (s, Inl OverflowError)
         else if n = 0 then (s, Inr \<lparr>sr_spans = [], sr_leases = []\<rparr>)
         else (case read_walk s (directory_from (st_history s) b0) b0 (b0 + n) r [] of
             (r', covered, spans) \<Rightarrow>
               if covered \<noteq> b0 + n
               then (s\<lparr>st_repo := Some (drop_leases r' (map ss_handle spans))\<rparr>, Inl RuntimeError)
               else (s\<lparr>st_repo := Some r'\<rparr>, Inr \<lparr>sr_spans = spans, sr_leases = map ss_handle spans\<rparr>)))"

section \<open>Installing a slot\<close>

text \<open>Insertion into the \<open>std::map\<close>, and extraction of a key.\<close>

fun hist_insert :: "nat \<Rightarrow> handle \<Rightarrow> (nat \<times> handle) list \<Rightarrow> (nat \<times> handle) list" where
  "hist_insert k h [] = [(k, h)]"
| "hist_insert k h (e # es) = (if k < fst e then (k, h) # e # es else e # hist_insert k h es)"

definition hist_extract :: "nat \<Rightarrow> (nat \<times> handle) list \<Rightarrow> (nat \<times> handle) list" where
  "hist_extract k es = filter (\<lambda>e. fst e \<noteq> k) es"

definition has_key :: "nat \<Rightarrow> (nat \<times> handle) list \<Rightarrow> bool" where
  "has_key k es \<longleftrightarrow> k \<in> fst ` set es"

definition installed_block :: "nat \<Rightarrow> block_record \<Rightarrow> nat \<Rightarrow> nat \<Rightarrow> block" where
  "installed_block bt rec baked valid = block_init\<lparr>bk_id := h_slot (br_handle rec),
     bk_pos := u32 (h_slot (br_handle rec) * bt), bk_tokens := valid, bk_dirty := True,
     bk_baked := int baked, bk_generation := h_generation (br_handle rec),
     bk_logical := br_logical_id rec, bk_history := br_token_begin rec\<rparr>"

definition bad_extent :: "nat \<Rightarrow> block_record \<Rightarrow> nat \<Rightarrow> nat \<Rightarrow> bool" where
  "bad_extent bt rec baked valid \<longleftrightarrow> br_token_count rec = 0 \<or> bt < br_token_count rec \<or>
     br_token_begin rec mod bt \<noteq> 0 \<or> valid = 0 \<or> br_token_count rec < valid \<or> INT32_MAX < baked + valid"

text \<open>The lease is passed by value: when an exception leaves the function, it is dropped.\<close>

definition install_block :: "store \<Rightarrow> handle \<Rightarrow> nat \<Rightarrow> nat \<Rightarrow> store \<times> unit result" where
  "install_block s h baked valid = (case st_repo s of None \<Rightarrow> (s, Inl InvalidArgument)
     | Some r \<Rightarrow>
       let fail = (\<lambda>e. (s\<lparr>st_repo := Some (lease_reset r h)\<rparr>, Inl e)); bt = cf_block_tokens (st_cfg s);
           rec = lease_record r h; i = h_slot (br_handle rec); key = br_token_begin rec in
       if \<not> pinnable r h then fail InvalidArgument
       else if bad_extent bt rec baked valid then fail InvalidArgument
       else if st_leases s ! i \<noteq> None \<or> bk_generation (st_blocks s ! i) = h_generation (br_handle rec)
       then fail LogicError
       else if has_key key (st_history s) then fail LogicError
       else if \<not> st_nodes s ! i \<and> \<not> has_key (bk_history (st_blocks s ! i)) (st_history s) then fail LogicError
       else let hist = (if st_nodes s ! i then st_history s
                        else hist_extract (bk_history (st_blocks s ! i)) (st_history s)) in
         (s\<lparr>st_history := hist_insert key (br_handle rec) hist, st_nodes := (st_nodes s)[i := False],
            st_blocks := (st_blocks s)[i := installed_block bt rec baked valid],
            st_flags := (st_flags s)[i := 0], st_total := max (st_total s) (key + valid),
            st_leases := (st_leases s)[i := Some h]\<rparr>, Inr ()))"

definition register_repository_block :: "store \<Rightarrow> handle \<Rightarrow> nat \<Rightarrow> store \<times> unit result" where
  "register_repository_block s h baked =
     (if st_pending s then (drop_lease s (Some h), Inl LogicError)
      else install_block s h baked
        (case st_repo s of None \<Rightarrow> 0 | Some r \<Rightarrow> br_token_count (lease_record r h)))"

section \<open>The append transaction\<close>

record repo_append =
  ap_open :: bool
  ap_begin :: nat
  ap_count :: nat
  ap_baked :: nat
  ap_spans :: "storage_span list"
  ap_reservations :: "handle list"
  ap_tail :: "handle option"

definition ap_end :: "repo_append \<Rightarrow> nat" where "ap_end a = ap_begin a + ap_count a"

text \<open>One reservation per block position; the error, if any, comes with what was reserved before it.\<close>

fun reserve_blocks :: "repo \<Rightarrow> nat \<Rightarrow> nat \<Rightarrow> nat list \<Rightarrow> storage_span list \<Rightarrow> handle list \<Rightarrow>
    repo \<times> storage_span list \<times> handle list \<times> error option" where
  "reserve_blocks r bt stop [] spans rs = (r, spans, rs, None)"
| "reserve_blocks r bt stop (p # ps) spans rs = (case try_reserve r p bt of
       Inl e \<Rightarrow> (r, spans, rs, Some e)
     | Inr (r', None) \<Rightarrow> (r', spans, rs, Some LogicError)
     | Inr (r', Some h) \<Rightarrow> reserve_blocks r' bt stop ps
         (spans @ [\<lparr>ss_history = p, ss_storage = u32 (h_slot h * bt), ss_count = min bt (stop - p), ss_handle = h\<rparr>])
         (rs @ [h]))"

text \<open>The positions \<open>for (pos = first; pos < stop; pos += B)\<close> visits.\<close>

definition block_positions :: "nat \<Rightarrow> nat \<Rightarrow> nat \<Rightarrow> nat list" where
  "block_positions first stop bt = map (\<lambda>i. first + i * bt) [0..<ceil_div (stop - first) bt]"

definition prepare_tail :: "store \<Rightarrow> repo \<Rightarrow> nat \<Rightarrow> nat \<Rightarrow> nat \<Rightarrow>
    repo \<times> (handle option \<times> storage_span list) result" where
  "prepare_tail s r off n baked =
     (if n = 0 then (r, Inr (None, []))
      else case map_of (st_history s) (st_total s - off) of None \<Rightarrow> (r, Inl RuntimeError)
      | Some h \<Rightarrow> (case try_pin r h of (r', None) \<Rightarrow> (r', Inl RuntimeError)
        | (r', Some l) \<Rightarrow>
            let rec = lease_record r' l; b = st_blocks s ! h_slot (br_handle rec) in
            if bk_tokens b \<noteq> off \<or> bk_tier b \<noteq> TierGPU \<or> bk_baked b + int off \<noteq> int baked \<or>
               br_token_count rec < off + n
            then (lease_reset r' l, Inl LogicError)
            else (r', Inr (Some l, [\<lparr>ss_history = st_total s, ss_storage = u32 (bk_pos b + off),
                ss_count = n, ss_handle = br_handle rec\<rparr>]))))"

definition lease_list :: "handle option \<Rightarrow> handle list" where
  "lease_list l = (case l of None \<Rightarrow> [] | Some h \<Rightarrow> [h])"

definition cancel_all :: "repo \<Rightarrow> handle option \<Rightarrow> handle list \<Rightarrow> repo" where
  "cancel_all r tail rs = foldl reservation_cancel (drop_leases r (lease_list tail)) rs"

definition prepare_repository_append :: "store \<Rightarrow> nat \<Rightarrow> nat \<Rightarrow> store \<times> repo_append option result" where
  "prepare_repository_append s n baked =
     (if st_pending s then (s, Inl LogicError)
      else case st_repo s of None \<Rightarrow> (s, Inl InvalidArgument)
      | Some r \<Rightarrow>
        if n = 0 \<or> UINT64_MAX - n < st_total s \<or> INT32_MAX < baked + n then (s, Inl InvalidArgument)
        else let bt = cf_block_tokens (st_cfg s); b0 = st_total s; stop = b0 + n; off = b0 mod bt;
                 tail_n = (if off \<noteq> 0 then min n (bt - off) else 0);
                 needed = ceil_div_u32 (n - tail_n) bt in
          if needed \<noteq> 0 \<and> (UINT64_MAX - bt) div bt < (stop - 1) div bt then (s, Inl OverflowError)
          else if ready_slots r < needed then (s, Inr None)
          else case prepare_tail s r off tail_n baked of
              (r1, Inl e) \<Rightarrow> (s\<lparr>st_repo := Some r1\<rparr>, Inl e)
            | (r1, Inr (tail, spans)) \<Rightarrow>
                (case reserve_blocks r1 bt stop (block_positions (b0 + tail_n) stop bt) spans [] of
                   (r2, _, rs, Some e) \<Rightarrow> (s\<lparr>st_repo := Some (cancel_all r2 tail rs)\<rparr>, Inl e)
                 | (r2, spans', rs, None) \<Rightarrow>
                     (s\<lparr>st_repo := Some r2, st_pending := True\<rparr>,
                      Inr (Some \<lparr>ap_open = True, ap_begin = b0, ap_count = n, ap_baked = baked,
                        ap_spans = spans', ap_reservations = rs, ap_tail = tail\<rparr>))))"

definition append_extend :: "store \<Rightarrow> repo_append \<Rightarrow> nat \<Rightarrow> store \<times> repo_append \<times> bool result" where
  "append_extend s a n =
     (if \<not> ap_open a then (s, a, Inl LogicError)
      else if n \<le> ap_count a then (s, a, Inr True)
      else case st_repo s of None \<Rightarrow> (s, a, Inl LogicError)
      | Some r \<Rightarrow>
        let bt = cf_block_tokens (st_cfg s) in
        if UINT64_MAX - n < ap_begin a \<or> INT32_MAX < ap_baked a + n then (s, a, Inl InvalidArgument)
        else let new_end = ap_begin a + n in
          if (UINT64_MAX - bt) div bt < (new_end - 1) div bt then (s, a, Inl OverflowError)
          else let old_end = ((ap_end a - 1) div bt + 1) * bt;
                   needed = (if new_end \<le> old_end then 0 else ceil_div_u32 (u32 (new_end - old_end)) bt);
                   k = length (ap_spans a) - 1 in
            if ready_slots r < needed then (s, a, Inr False)
            else case reserve_blocks r bt new_end (block_positions old_end new_end bt) (ap_spans a) (ap_reservations a) of
                (r', spans, rs, Some e) \<Rightarrow>
                  (s\<lparr>st_repo := Some r'\<rparr>, a\<lparr>ap_spans := spans, ap_reservations := rs\<rparr>, Inl e)
              | (r', spans, rs, None) \<Rightarrow>
                  (s\<lparr>st_repo := Some r'\<rparr>,
                   a\<lparr>ap_spans := spans[k := (spans ! k)\<lparr>ss_count := min new_end old_end - ss_history (spans ! k)\<rparr>],
                     ap_reservations := rs, ap_count := n\<rparr>, Inr True))"

text \<open>\<open>io_leases\<close>: a clone of every lease of the transaction; an exception drops the clones made.\<close>

definition ap_leases :: "repo_append \<Rightarrow> handle list" where
  "ap_leases a = lease_list (ap_tail a) @ ap_reservations a"

fun clone_all :: "repo \<Rightarrow> handle list \<Rightarrow> handle list \<Rightarrow> repo \<times> handle list result" where
  "clone_all r [] done_hs = (r, Inr done_hs)"
| "clone_all r (h # hs) done_hs = (case lease_clone r h of
       Inl e \<Rightarrow> (drop_leases r done_hs, Inl e)
     | Inr r' \<Rightarrow> clone_all r' hs (done_hs @ [h]))"

definition io_leases :: "store \<Rightarrow> repo_append \<Rightarrow> store \<times> handle list result" where
  "io_leases s a =
     (if \<not> ap_open a then (s, Inl LogicError)
      else case st_repo s of None \<Rightarrow> (s, Inr [])
      | Some r \<Rightarrow> (case clone_all r (ap_leases a) [] of (r', res) \<Rightarrow> (s\<lparr>st_repo := Some r'\<rparr>, res)))"

text \<open>\<open>storage_write\<close>: the part of each span inside the interval.\<close>

definition span_part :: "nat \<Rightarrow> nat \<Rightarrow> storage_span \<Rightarrow> storage_span option" where
  "span_part b0 stop sp =
     (let first = max b0 (ss_history sp); last_pos = min stop (ss_history sp + ss_count sp) in
      if last_pos \<le> first then None
      else Some \<lparr>ss_history = first, ss_storage = u32 (ss_storage sp + (first - ss_history sp)),
                 ss_count = last_pos - first, ss_handle = ss_handle sp\<rparr>)"

definition storage_write :: "store \<Rightarrow> repo_append \<Rightarrow> nat \<Rightarrow> nat \<Rightarrow> store \<times> storage_read result" where
  "storage_write s a b0 n =
     (if \<not> ap_open a \<or> b0 < ap_begin a \<or> ap_end a < b0 \<or> ap_end a - b0 < n then (s, Inl InvalidArgument)
      else if n = 0 then (s, Inr \<lparr>sr_spans = [], sr_leases = []\<rparr>)
      else case st_repo s of None \<Rightarrow> (s, Inl LogicError)
      | Some r \<Rightarrow>
        let parts = List.map_filter (\<lambda>(sp, h). map_option (\<lambda>p. (p, h)) (span_part b0 (b0 + n) sp))
              (zip (ap_spans a) (ap_leases a)) in
        case clone_all r (map snd parts) [] of (r', res) \<Rightarrow>
          (s\<lparr>st_repo := Some r'\<rparr>,
           case res of Inl e \<Rightarrow> Inl e | Inr hs \<Rightarrow> Inr \<lparr>sr_spans = map fst parts, sr_leases = hs\<rparr>))"

text \<open>\<open>discarded_page_ranges\<close>: the pages behind the accepted prefix, adjacent ranges merged.\<close>

definition push_range :: "(nat \<times> nat) list \<Rightarrow> nat \<Rightarrow> nat \<Rightarrow> (nat \<times> nat) list" where
  "push_range out first last_page =
     (if out \<noteq> [] \<and> fst (last out) + snd (last out) = first
      then butlast out @ [(fst (last out), snd (last out) + (last_page - first))]
      else out @ [(first, last_page - first)])"

definition rejected_begin :: "nat \<Rightarrow> storage_span \<Rightarrow> nat" where
  "rejected_begin kept_end sp = ss_storage sp + (if ss_history sp < kept_end then kept_end - ss_history sp else 0)"

fun discard_walk :: "nat \<Rightarrow> nat \<Rightarrow> storage_span list \<Rightarrow> (nat \<times> nat) list \<Rightarrow> (nat \<times> nat) list" where
  "discard_walk page kept_end [] out = out"
| "discard_walk page kept_end (sp # sps) out =
     (let first = (rejected_begin kept_end sp + page - 1) div page;
          last_page = (ss_storage sp + ss_count sp + page - 1) div page in
      discard_walk page kept_end sps
        (if ss_history sp + ss_count sp \<le> kept_end \<or> last_page \<le> first then out
         else push_range out first last_page))"

definition discarded_page_ranges :: "store \<Rightarrow> repo_append \<Rightarrow> nat \<Rightarrow> nat \<Rightarrow> (nat \<times> nat) list result" where
  "discarded_page_ranges s a accepted page =
     (if \<not> ap_open a \<or> ap_count a < accepted \<or> page = 0 \<or> cf_block_tokens (st_cfg s) mod page \<noteq> 0
      then Inl InvalidArgument
      else Inr (discard_walk page (ap_begin a + accepted) (ap_spans a) []))"

section \<open>Commit and cancellation\<close>

definition rewritten_flags :: "32 word \<Rightarrow> 32 word" where
  "rewritten_flags f = and f (not (or RawBacked (or ValueBacked Indexed)))"

definition commit_tail :: "store \<Rightarrow> storage_span \<Rightarrow> nat \<Rightarrow> store" where
  "commit_tail s sp accepted =
     (let i = h_slot (ss_handle sp);
          s1 = set_block s i (\<lambda>b. b\<lparr>bk_tokens := u32 (bk_tokens b + min (ss_count sp) accepted)\<rparr>) in
      if accepted = 0 then s1
      else (set_block s1 i (\<lambda>b. b\<lparr>bk_dirty := True, bk_ssd_clean := False\<rparr>))
        \<lparr>st_flags := (st_flags s1)[i := rewritten_flags (st_flags s1 ! i)]\<rparr>)"

text \<open>
  The reservations in order. A committed one gives its lease to the directory; the result holds
  those still owned by the transaction: the rejected ones, and after an error also the rest.
\<close>

fun commit_blocks :: "store \<Rightarrow> repo_append \<Rightarrow> nat \<Rightarrow> (storage_span \<times> handle) list \<Rightarrow> handle list \<Rightarrow>
    store \<times> handle list \<times> unit result" where
  "commit_blocks s a stop [] left = (s, left, Inr ())"
| "commit_blocks s a stop ((sp, h) # es) left =
     (if stop \<le> ss_history sp then commit_blocks s a stop es (left @ [h])
      else case st_repo s of None \<Rightarrow> (s, left @ h # map snd es, Inl LogicError)
      | Some r \<Rightarrow> (case reservation_commit r h of
          Inl e \<Rightarrow> (s, left @ h # map snd es, Inl e)
        | Inr r' \<Rightarrow> (case install_block (s\<lparr>st_repo := Some r'\<rparr>) h (ap_baked a + (ss_history sp - ap_begin a))
              (min (ss_count sp) (stop - ss_history sp)) of
            (s', Inl e) \<Rightarrow> (s', left @ map snd es, Inl e)
          | (s', Inr _) \<Rightarrow> commit_blocks s' a stop es left)))"

definition append_commit :: "store \<Rightarrow> repo_append \<Rightarrow> nat \<Rightarrow> store \<times> repo_append \<times> unit result" where
  "append_commit s a accepted =
     (if \<not> ap_open a \<or> ap_count a < accepted then (s, a, Inl InvalidArgument)
      else if st_total s \<noteq> ap_begin a then (s, a, Inl LogicError)
      else let stop = ap_begin a + accepted;
               s1 = (if ap_tail a = None then s else commit_tail s (hd (ap_spans a)) accepted);
               spans = (if ap_tail a = None then ap_spans a else tl (ap_spans a)) in
        case commit_blocks s1 a stop (zip spans (ap_reservations a)) [] of
          (s2, left, Inl e) \<Rightarrow> (s2, a\<lparr>ap_reservations := left\<rparr>, Inl e)
        | (s2, left, Inr _) \<Rightarrow>
            (s2\<lparr>st_total := stop, st_pending := False,
                st_repo := map_option (\<lambda>r. drop_leases (foldl reservation_cancel r left) (lease_list (ap_tail a)))
                  (st_repo s2)\<rparr>,
             a\<lparr>ap_open := False, ap_reservations := [], ap_tail := None\<rparr>, Inr ()))"

text \<open>The destructor: an unfinished transaction ends without publishing anything.\<close>

definition append_destroy :: "store \<Rightarrow> repo_append \<Rightarrow> store" where
  "append_destroy s a = s\<lparr>st_pending := (st_pending s \<and> \<not> ap_open a),
     st_repo := map_option (\<lambda>r. cancel_all r (ap_tail a) (ap_reservations a)) (st_repo s)\<rparr>"

section \<open>Physical scans and leases of the whole history\<close>

definition repository_read_leases :: "store \<Rightarrow> store \<times> handle list" where
  "repository_read_leases s = (case st_repo s of None \<Rightarrow> (s, [])
     | Some r \<Rightarrow> (case foldl (\<lambda>(r, hs) (_, h). case try_pin r h of
           (r', None) \<Rightarrow> (r', hs) | (r', Some l) \<Rightarrow> (r', hs @ [l])) (r, []) (st_history s) of
         (r', hs) \<Rightarrow> (s\<lparr>st_repo := Some r'\<rparr>, hs)))"

text \<open>One slot of \<open>repository_slot_read\<close>: the prepared lease if there is one, otherwise a pin.\<close>

fun slot_walk :: "store \<Rightarrow> nat list \<Rightarrow> (storage_span \<times> handle) list \<Rightarrow> repo \<Rightarrow> storage_read \<Rightarrow>
    repo \<times> (storage_span \<times> handle) list \<times> storage_read \<times> bool" where
  "slot_walk s [] ws r out = (r, ws, out, True)"
| "slot_walk s (i # is) ws r out =
     (let bt = cf_block_tokens (st_cfg s);
          push = (\<lambda>r l n. out\<lparr>sr_spans := sr_spans out @ [\<lparr>ss_history = br_token_begin (lease_record r l),
              ss_storage = u32 (i * bt), ss_count = n, ss_handle = br_handle (lease_record r l)\<rparr>],
              sr_leases := sr_leases out @ [l]\<rparr>) in
      if ws \<noteq> [] \<and> h_slot (snd (hd ws)) = i
      then (let sp = fst (hd ws); l = snd (hd ws); n = ss_storage sp mod bt + ss_count sp in
            if ss_handle sp \<noteq> l then (r, ws, out, False)
            else if n = 0 \<or> bt < n then (lease_reset r l, tl ws, out, False)
            else slot_walk s is (tl ws) r (push r l n))
      else (case try_pin r (repository_handle s i) of
          (r', None) \<Rightarrow> slot_walk s is ws r' out
        | (r', Some l) \<Rightarrow> (let n = bk_tokens (st_blocks s ! i) in
            if n = 0 \<or> bt < n then (lease_reset r' l, ws, out, False)
            else slot_walk s is ws r' (push r' l n))))"

definition repository_slot_read :: "store \<Rightarrow> nat \<Rightarrow> nat \<Rightarrow> repo_append option \<Rightarrow> store \<times> storage_read result" where
  "repository_slot_read s first n prepared =
     (if st_repo s = None \<or> block_count s < first \<or> block_count s - first < n then (s, Inl InvalidArgument)
      else if (case prepared of None \<Rightarrow> False | Some a \<Rightarrow> \<not> ap_open a) then (s, Inl InvalidArgument)
      else then_do (case prepared of None \<Rightarrow> (s, Inr []) | Some a \<Rightarrow> io_leases s a) (\<lambda>s1 hs.
        let writes = sort_by (\<lambda>a b. h_slot a < h_slot b) hs;
            spans = sort_by (\<lambda>a b. h_slot (ss_handle a) < h_slot (ss_handle b))
              (case prepared of None \<Rightarrow> [] | Some a \<Rightarrow> ap_spans a);
            skipped = takeWhile (\<lambda>h. h_slot h < first) writes;
            ws = zip (dropWhile (\<lambda>sp. h_slot (ss_handle sp) < first) spans)
                     (dropWhile (\<lambda>h. h_slot h < first) writes) in
        case slot_walk s1 [first..<first + n] ws (the (st_repo s1)) \<lparr>sr_spans = [], sr_leases = []\<rparr> of
          (r', rest, out, ok) \<Rightarrow>
            (s1\<lparr>st_repo := Some (drop_leases r' (skipped @ map snd rest @ (if ok then [] else sr_leases out)))\<rparr>,
             if ok then Inr out else Inl LogicError)))"

end
