(* ===== verification/Repository_Client.thy ===== *)
theory Repository_Client
  imports Repository_Safety
begin

text \<open>
  The repository as the store's foreground thread uses it: which handles are live, and what each
  call changes of that. Every lemma takes a reachable world and gives the next one, so a sequence of
  calls is a chain of steps of the interleaving semantics.
\<close>

definition live :: "repo \<Rightarrow> handle \<Rightarrow> bool" where
  "live r h \<longleftrightarrow> lease_ok r h \<and> phase (control r (h_slot h)) = Some Live"

definition frame :: "repo \<Rightarrow> repo \<Rightarrow> bool" where
  "frame r r' \<longleftrightarrow> rp_capacity r' = rp_capacity r \<and> rp_block_tokens r' = rp_block_tokens r \<and>
     rp_sequence r \<le> rp_sequence r'"

lemma frame_refl [simp]: "frame r r"
  by (simp add: frame_def)

lemma frame_trans: "frame a b \<Longrightarrow> frame b c \<Longrightarrow> frame a c"
  by (auto simp: frame_def)

lemma block_tokens_set_control [simp]: "rp_block_tokens (set_control r s v) = rp_block_tokens r"
  by (simp add: set_control_def)

lemma frame_set_control [simp]: "frame r (set_control r s v)"
  by (simp add: frame_def)

lemma slots_length: "world_inv w \<Longrightarrow> length (rp_slots (w_repo w)) = rp_capacity (w_repo w)"
  using world_invD(1) [of w] by (simp add: repo_ok_def)

lemma live_set_control:
  assumes "world_inv w" and "s < rp_capacity (w_repo w)" and "phase v = phase (control (w_repo w) s)"
  shows "live (set_control (w_repo w) s v) = live (w_repo w)"
  using assms slots_length [OF assms(1)] by (auto simp: live_def fun_eq_iff control_set_control)

section \<open>Pins\<close>

lemma client_pin:
  assumes w: "reachable w" and p: "try_pin (w_repo w) h = (r', Some l)"
  shows "l = h" and "live (w_repo w) h" and "live r' = live (w_repo w)" and "frame (w_repo w) r'"
    and "reachable (w\<lparr>w_repo := r', w_leases := add_mset h (w_leases w)\<rparr>)"
    and "lease_record r' g = lease_record (w_repo w) g"
proof -
  note inv = reachable_inv [OF w] and t = try_pin_Some [OF reachable_inv [OF w] p]
  show "l = h" by (rule t(1))
  show "live (w_repo w) h" using t(2,3) by (simp add: live_def)
  have s: "h_slot h < rp_capacity (w_repo w)" using t(2) by (simp add: lease_ok_def)
  obtain v where a: "acquire False (control (w_repo w) (h_slot h)) = Some v"
    and r: "r' = set_control (w_repo w) (h_slot h) v"
    using p by (auto simp: try_pin_def try_pin_slot_def split: option.splits if_splits)
  show "live r' = live (w_repo w)" unfolding r
    by (rule live_set_control [OF inv s]) (use acquire_Some [OF a] in metis)
  show "frame (w_repo w) r'" by (simp add: r)
  show "reachable (w\<lparr>w_repo := r', w_leases := add_mset h (w_leases w)\<rparr>)"
    by (rule reachable.step [OF w t(5)])
  show "lease_record r' g = lease_record (w_repo w) g"
    using s slots_length [OF inv] by (simp add: r lease_record_def)
qed

lemma client_pin_none: "reachable w \<Longrightarrow> try_pin (w_repo w) h = (r', None) \<Longrightarrow> r' = w_repo w"
  by (rule try_pin_restores [OF reachable_inv])

text \<open>A live handle can be pinned unless its 60-bit counter is exhausted.\<close>

lemma pin_live:
  assumes w: "reachable w" and "live (w_repo w) h" and "refs (control (w_repo w) (h_slot h)) \<noteq> ref_mask"
  shows "\<exists>r'. try_pin (w_repo w) h = (r', Some h)"
proof -
  have s: "h_slot h < rp_capacity (w_repo w)" and g: "sl_generation (rp_slots (w_repo w) ! h_slot h) = h_generation h"
    "h_generation h \<noteq> 0" and p: "phase (control (w_repo w) (h_slot h)) = Some Live"
    using assms(2) by (auto simp: live_def lease_ok_def)
  have "br_handle (sl_record (rp_slots (w_repo w) ! h_slot h)) = h"
    using world_invD(3) [OF reachable_inv [OF w] s] g by (auto simp: slot_ok_def)
  moreover have "acquire False (control (w_repo w) (h_slot h)) = Some (control (w_repo w) (h_slot h) + 1)"
    using p assms(3) by (simp add: acquire_def)
  ultimately show ?thesis using s by (simp add: try_pin_def try_pin_slot_def)
qed

section \<open>Dropping leases\<close>

lemma client_drop:
  assumes w: "reachable w" and h: "h \<in># w_leases w"
  shows "reachable (w\<lparr>w_repo := lease_reset (w_repo w) h, w_leases := w_leases w - {#h#}\<rparr>)"
    and "live (lease_reset (w_repo w) h) = live (w_repo w)" and "frame (w_repo w) (lease_reset (w_repo w) h)"
    and "lease_record (lease_reset (w_repo w) h) g = lease_record (w_repo w) g"
proof -
  note inv = reachable_inv [OF w]
  have "h \<in># w_leases w + w_writers w" using h by simp
  note l = slot_of_lease [OF inv this]
  show "reachable (w\<lparr>w_repo := lease_reset (w_repo w) h, w_leases := w_leases w - {#h#}\<rparr>)"
    by (rule reachable.step [OF w wstep.drop]) (use h in simp)
  have "nrefs (control (w_repo w) (h_slot h)) \<noteq> 0" using l by simp
  note rw = release_word [OF this]
  show "live (lease_reset (w_repo w) h) = live (w_repo w)" unfolding lease_reset_def
    by (rule live_set_control [OF inv l(1)]) (rule rw)
  show "frame (w_repo w) (lease_reset (w_repo w) h)" by (simp add: lease_reset_def)
  show "lease_record (lease_reset (w_repo w) h) g = lease_record (w_repo w) g"
    using l(1) slots_length [OF inv] by (simp add: lease_reset_def lease_record_def)
qed

section \<open>Reservations\<close>

lemma client_reserve:
  assumes w: "reachable w" and p: "try_reserve (w_repo w) pos n = Inr (r', Some h)"
  shows "reachable (w\<lparr>w_repo := r', w_writers := add_mset h (w_writers w)\<rparr>)"
    and "live r' = live (w_repo w)" and "frame (w_repo w) r'"
    and "h_slot h < rp_capacity (w_repo w)" and "h_generation h = rp_sequence (w_repo w) + 1"
    and "rp_sequence r' = rp_sequence (w_repo w) + 1"
    and "lease_record r' h = \<lparr>br_handle = h, br_logical_id = h_generation h, br_token_begin = pos, br_token_count = n\<rparr>"
    and "control r' (h_slot h) = state Writing 1"
    and "ready_slots (w_repo w) = ready_slots r' + 1"
    and "phase (control (w_repo w) (h_slot h)) = Some Free"
    and "t \<noteq> h_slot h \<Longrightarrow> control r' t = control (w_repo w) t"
proof -
  note inv = reachable_inv [OF w]
  note len = slots_length [OF inv]
  obtain q s where pop: "ring_pop (rp_ring (w_repo w)) = Some (q, s)"
    and h: "h = \<lparr>h_slot = s, h_generation = rp_sequence (w_repo w) + 1\<rparr>"
    and r': "r' = (w_repo w)\<lparr>rp_ring := q, rp_slots := (rp_slots (w_repo w))[s := \<lparr>sl_control = state Writing 1,
        sl_generation = rp_sequence (w_repo w) + 1, sl_record = \<lparr>br_handle = h,
        br_logical_id = rp_sequence (w_repo w) + 1, br_token_begin = pos, br_token_count = n\<rparr>\<rparr>],
        rp_sequence := rp_sequence (w_repo w) + 1, rp_reservations := u64 (rp_reservations (w_repo w) + 1)\<rparr>"
    using p by (auto simp: try_reserve_def Let_def split: if_splits option.splits)
  have ro: "repo_ok (w_repo w)" by (rule world_invD(1) [OF inv])
  have ring: "ring_ok (rp_ring (w_repo w))" using ro by (simp add: repo_ok_def)
  have "s \<in> set (ring_list (rp_ring (w_repo w)))" using fifo.pop_elems [OF ring pop] by simp
  then have s: "s < rp_capacity (w_repo w)" "phase (control (w_repo w) s) = Some Free"
    using ro unfolding repo_ok_def by blast+
  show "reachable (w\<lparr>w_repo := r', w_writers := add_mset h (w_writers w)\<rparr>)"
    by (rule reachable.step [OF w wstep.reserve [OF p]])
  show "h_slot h < rp_capacity (w_repo w)" "h_generation h = rp_sequence (w_repo w) + 1"
    "phase (control (w_repo w) (h_slot h)) = Some Free"
    using s by (simp_all add: h)
  show "rp_sequence r' = rp_sequence (w_repo w) + 1" "frame (w_repo w) r'"
    by (simp_all add: r' frame_def)
  show "lease_record r' h = \<lparr>br_handle = h, br_logical_id = h_generation h, br_token_begin = pos, br_token_count = n\<rparr>"
    using s len by (simp add: r' lease_record_def h)
  show "control r' (h_slot h) = state Writing 1" using s len by (simp add: r' control_def h)
  show "t \<noteq> h_slot h \<Longrightarrow> control r' t = control (w_repo w) t" using s len by (simp add: r' control_def h)
  show "ready_slots (w_repo w) = ready_slots r' + 1"
    using ring_size_list [OF ring] ring_size_list [OF fifo.pop_inv [OF ring pop]] fifo.pop_elems [OF ring pop]
    by (simp add: r' ready_slots_def)
  show "live r' = live (w_repo w)"
  proof
    fix g
    show "live r' g = live (w_repo w) g"
      using s len by (cases "h_slot g = s") (auto simp: live_def r' lease_ok_def control_def)
  qed
qed

lemma client_commit:
  assumes w: "reachable w" and h: "h \<in># w_writers w"
  shows "\<exists>r'. reservation_commit (w_repo w) h = Inr r' \<and>
    reachable (w\<lparr>w_repo := r', w_leases := add_mset h (w_leases w), w_writers := w_writers w - {#h#}\<rparr>) \<and>
    (\<forall>g. live r' g \<longleftrightarrow> live (w_repo w) g \<or> g = h) \<and> frame (w_repo w) r' \<and>
    (\<forall>g. lease_record r' g = lease_record (w_repo w) g) \<and>
    refs (control r' (h_slot h)) = refs (control (w_repo w) (h_slot h)) \<and>
    (\<forall>t. t \<noteq> h_slot h \<longrightarrow> control r' t = control (w_repo w) t)"
proof -
  note inv = reachable_inv [OF w]
  note len = slots_length [OF inv] and wp = writer_phase [OF inv h]
  have "h \<in># w_leases w + w_writers w" using h by simp
  note l = slot_of_lease [OF inv this] and lo = world_invD(4) [OF inv this]
  let ?r = "set_control (w_repo w) (h_slot h) (state Live (refs (control (w_repo w) (h_slot h))))"
  have c: "reservation_commit (w_repo w) h = Inr ?r" using wp by (simp add: reservation_commit_def Let_def)
  have "reachable (w\<lparr>w_repo := ?r, w_leases := add_mset h (w_leases w), w_writers := w_writers w - {#h#}\<rparr>)"
    by (rule reachable.step [OF w wstep.commit [OF _ c]]) (use h in simp)
  moreover have "live ?r g \<longleftrightarrow> live (w_repo w) g \<or> g = h" for g
  proof (cases "h_slot g = h_slot h")
    case True
    have "lease_ok (w_repo w) g \<longleftrightarrow> g = h" using True lo by (auto simp: lease_ok_def intro: handle.equality)
    then show ?thesis using True wp l len lo by (auto simp: live_def control_set_control phase_state_refs)
  next
    case False
    then show ?thesis using l len by (auto simp: live_def control_set_control)
  qed
  moreover have "refs (control ?r (h_slot h)) = refs (control (w_repo w) (h_slot h))"
  proof -
    have "unat (refs (control (w_repo w) (h_slot h))) < 2 ^ 60"
      using nrefs_less [of "control (w_repo w) (h_slot h)"] by (simp add: nrefs_def)
    from phase_state(2) [OF this] show ?thesis using l len by (simp add: control_set_control)
  qed
  ultimately show ?thesis using c l len
    by (intro exI [of _ ?r]) (simp add: lease_record_def control_set_control)
qed

lemma client_cancel:
  assumes w: "reachable w" and h: "h \<in># w_writers w"
  shows "reachable (w\<lparr>w_repo := reservation_cancel (w_repo w) h, w_writers := w_writers w - {#h#}\<rparr>)"
    and "live (reservation_cancel (w_repo w) h) = live (w_repo w)"
    and "frame (w_repo w) (reservation_cancel (w_repo w) h)"
    and "lease_record (reservation_cancel (w_repo w) h) g = lease_record (w_repo w) g"
proof -
  note inv = reachable_inv [OF w]
  note len = slots_length [OF inv] and wp = writer_phase [OF inv h]
  have hh: "h \<in># w_leases w + w_writers w" using h by simp
  note l = slot_of_lease [OF inv hh]
  show "reachable (w\<lparr>w_repo := reservation_cancel (w_repo w) h, w_writers := w_writers w - {#h#}\<rparr>)"
    by (rule reachable.step [OF w wstep.cancel]) (use h in simp)
  let ?v = "state Cancelled (refs (control (w_repo w) (h_slot h)))"
  have e: "reservation_cancel (w_repo w) h = set_control (w_repo w) (h_slot h) (?v - 1)"
    using wp l len by (simp add: reservation_cancel_def lease_reset_def control_set_control)
      (simp add: set_control_def)
  have "nrefs ?v \<noteq> 0" using l phase_state_refs(2) by simp
  note rw = release_word [OF this]
  show "live (reservation_cancel (w_repo w) h) = live (w_repo w)"
  proof
    fix g
    show "live (reservation_cancel (w_repo w) h) g = live (w_repo w) g"
      unfolding e using l len wp rw
      by (cases "h_slot g = h_slot h") (auto simp: live_def control_set_control phase_state_refs)
  qed
  show "frame (w_repo w) (reservation_cancel (w_repo w) h)" by (simp add: e)
  show "lease_record (reservation_cancel (w_repo w) h) g = lease_record (w_repo w) g"
    using l len by (simp add: e lease_record_def)
qed

end
