(* ===== verification/Store_Append_Safety.thy ===== *)
theory Store_Append_Safety
  imports Store_Append Repository_Client
begin

text \<open>
  The bounded history keeps its promises. \<open>store_ok\<close> couples a store with a reachable world of the
  repository: the directory is sorted and agrees with the block metadata, resident leases are leases
  of that world, generations are below the issued sequence. \<open>stored_at\<close> is what the directory means:
  which physical token row holds which history position. The theorems relate the transactions to it.
\<close>

section \<open>The meaning of the directory\<close>

definition stored_at :: "store \<Rightarrow> nat \<Rightarrow> nat \<Rightarrow> bool" where
  "stored_at s p q \<longleftrightarrow> (case st_repo s of None \<Rightarrow> False
     | Some r \<Rightarrow> list_ex (\<lambda>(k, h). live r h \<and> k \<le> p \<and> p < k + bk_tokens (st_blocks s ! h_slot h) \<and>
         q = bk_pos (st_blocks s ! h_slot h) + (p - k)) (st_history s))"

lemma stored_at_iff: "st_repo s = Some r \<Longrightarrow> stored_at s p q \<longleftrightarrow>
    (\<exists>k h. (k, h) \<in> set (st_history s) \<and> live r h \<and> k \<le> p \<and> p < k + bk_tokens (st_blocks s ! h_slot h) \<and>
       q = bk_pos (st_blocks s ! h_slot h) + (p - k))"
  by (auto simp: stored_at_def list_ex_iff)

definition held :: "handle option list \<Rightarrow> handle multiset" where
  "held ls = mset (map the (filter (\<lambda>l. l \<noteq> None) ls))"

lemma held_install: "i < length ls \<Longrightarrow> ls ! i = None \<Longrightarrow> held (ls[i := Some h]) = add_mset h (held ls)"
  by (induction ls arbitrary: i) (auto simp: held_def split: nat.splits)

lemma held_reset: "i < length ls \<Longrightarrow> ls ! i = Some h \<Longrightarrow> held ls = add_mset h (held (ls[i := None]))"
  by (induction ls arbitrary: i) (auto simp: held_def split: nat.splits)

lemma held_member: "i < length ls \<Longrightarrow> ls ! i = Some h \<Longrightarrow> h \<in># held ls"
  using held_reset by fastforce

definition entry_ok :: "store \<Rightarrow> nat \<Rightarrow> nat \<Rightarrow> nat \<times> handle \<Rightarrow> bool" where
  "entry_ok s n hi e \<longleftrightarrow> (let k = fst e; h = snd e; b = st_blocks s ! h_slot h; bt = cf_block_tokens (st_cfg s) in
     h_slot h < n \<and> h_generation h \<noteq> 0 \<and> bk_generation b = h_generation h \<and> bk_history b = k \<and> k mod bt = 0 \<and>
     0 < bk_tokens b \<and> bk_tokens b \<le> bt \<and> k + bk_tokens b \<le> hi \<and> bk_pos b = h_slot h * bt \<and>
     \<not> st_nodes s ! h_slot h)"

definition store_ok :: "world \<Rightarrow> store \<Rightarrow> nat \<Rightarrow> bool" where
  "store_ok w s hi \<longleftrightarrow> (let r = w_repo w; n = rp_capacity r; bt = cf_block_tokens (st_cfg s) in
     reachable w \<and> st_repo s = Some r \<and> 0 < bt \<and> rp_block_tokens r = bt \<and> n * bt \<le> INT32_MAX \<and>
     length (st_blocks s) = n \<and> length (st_leases s) = n \<and> length (st_nodes s) = n \<and> length (st_flags s) = n \<and>
     sorted_wrt (<) (map fst (st_history s)) \<and> (\<forall>e \<in> set (st_history s). entry_ok s n hi e) \<and>
     (\<forall>i < n. \<not> st_nodes s ! i \<longrightarrow> (\<exists>h. (bk_history (st_blocks s ! i), h) \<in> set (st_history s) \<and> h_slot h = i)) \<and>
     (\<forall>i < n. bk_generation (st_blocks s ! i) \<le> rp_sequence r) \<and>
     (\<forall>i < n. \<forall>h. st_leases s ! i = Some h \<longrightarrow> h_slot h = i \<and> h_generation h = bk_generation (st_blocks s ! i)) \<and>
     held (st_leases s) \<subseteq># w_leases w)"

lemma store_okD:
  assumes "store_ok w s hi"
  shows "reachable w" "st_repo s = Some (w_repo w)" "0 < cf_block_tokens (st_cfg s)"
    "rp_block_tokens (w_repo w) = cf_block_tokens (st_cfg s)"
    "rp_capacity (w_repo w) * cf_block_tokens (st_cfg s) \<le> INT32_MAX"
    "length (st_blocks s) = rp_capacity (w_repo w)" "length (st_leases s) = rp_capacity (w_repo w)"
    "length (st_nodes s) = rp_capacity (w_repo w)" "length (st_flags s) = rp_capacity (w_repo w)"
    "sorted_wrt (<) (map fst (st_history s))" "held (st_leases s) \<subseteq># w_leases w"
  using assms by (simp_all add: store_ok_def Let_def)

lemma store_okI:
  assumes "reachable w" "st_repo s = Some (w_repo w)" "0 < cf_block_tokens (st_cfg s)"
    "rp_block_tokens (w_repo w) = cf_block_tokens (st_cfg s)"
    "rp_capacity (w_repo w) * cf_block_tokens (st_cfg s) \<le> INT32_MAX"
    "length (st_blocks s) = rp_capacity (w_repo w)" "length (st_leases s) = rp_capacity (w_repo w)"
    "length (st_nodes s) = rp_capacity (w_repo w)" "length (st_flags s) = rp_capacity (w_repo w)"
    "sorted_wrt (<) (map fst (st_history s))"
    and "\<And>e. e \<in> set (st_history s) \<Longrightarrow> entry_ok s (rp_capacity (w_repo w)) hi e"
    and "\<And>i. i < rp_capacity (w_repo w) \<Longrightarrow> \<not> st_nodes s ! i \<Longrightarrow>
      \<exists>h. (bk_history (st_blocks s ! i), h) \<in> set (st_history s) \<and> h_slot h = i"
    and "\<And>i. i < rp_capacity (w_repo w) \<Longrightarrow> bk_generation (st_blocks s ! i) \<le> rp_sequence (w_repo w)"
    and "\<And>i h. i < rp_capacity (w_repo w) \<Longrightarrow> st_leases s ! i = Some h \<Longrightarrow>
      h_slot h = i \<and> h_generation h = bk_generation (st_blocks s ! i)"
    and "held (st_leases s) \<subseteq># w_leases w"
  shows "store_ok w s hi"
  unfolding store_ok_def Let_def by (intro conjI ballI allI impI assms)

lemma store_ok_entry: "store_ok w s hi \<Longrightarrow> e \<in> set (st_history s) \<Longrightarrow> entry_ok s (rp_capacity (w_repo w)) hi e"
  by (simp add: store_ok_def Let_def)

lemma store_ok_node: "store_ok w s hi \<Longrightarrow> i < rp_capacity (w_repo w) \<Longrightarrow> \<not> st_nodes s ! i \<Longrightarrow>
    \<exists>h. (bk_history (st_blocks s ! i), h) \<in> set (st_history s) \<and> h_slot h = i"
  by (simp add: store_ok_def Let_def)

lemma store_ok_generation: "store_ok w s hi \<Longrightarrow> i < rp_capacity (w_repo w) \<Longrightarrow>
    bk_generation (st_blocks s ! i) \<le> rp_sequence (w_repo w)"
  by (simp add: store_ok_def Let_def)

lemma store_ok_lease: "store_ok w s hi \<Longrightarrow> i < rp_capacity (w_repo w) \<Longrightarrow> st_leases s ! i = Some h \<Longrightarrow>
    h_slot h = i \<and> h_generation h = bk_generation (st_blocks s ! i) \<and> h \<in># w_leases w"
proof -
  assume ok: "store_ok w s hi" and i: "i < rp_capacity (w_repo w)" and l: "st_leases s ! i = Some h"
  have "h \<in># held (st_leases s)" by (rule held_member [OF _ l]) (simp only: store_okD(7) [OF ok] i)
  then have "h \<in># w_leases w" by (rule mset_subset_eqD [OF store_okD(11) [OF ok]])
  moreover have "h_slot h = i \<and> h_generation h = bk_generation (st_blocks s ! i)"
    using ok i l unfolding store_ok_def Let_def by blast
  ultimately show ?thesis by blast
qed

text \<open>Steps of the repository that keep the store's leases keep the coupling.\<close>

lemma store_ok_repo:
  assumes "store_ok w s hi" and "reachable w'" and "frame (w_repo w) (w_repo w')"
    and "held (st_leases s) \<subseteq># w_leases w'" and "s' = s\<lparr>st_repo := Some (w_repo w'), st_pending := b\<rparr>"
  shows "store_ok w' s' hi"
proof -
  have f: "rp_capacity (w_repo w') = rp_capacity (w_repo w)" "rp_block_tokens (w_repo w') = rp_block_tokens (w_repo w)"
    "rp_sequence (w_repo w) \<le> rp_sequence (w_repo w')"
    using assms(3) by (simp_all add: frame_def)
  have e: "entry_ok s' n hi e = entry_ok s n hi e" for n e by (simp add: assms(5) entry_ok_def)
  have g: "bk_generation (st_blocks s ! i) \<le> rp_sequence (w_repo w')" if "i < rp_capacity (w_repo w)" for i
    using store_ok_generation [OF assms(1) that] f(3) by linarith
  note d = store_okD [OF assms(1)]
  show ?thesis
  proof (rule store_okI)
    show "entry_ok s' (rp_capacity (w_repo w')) hi x" if "x \<in> set (st_history s')" for x
      using that store_ok_entry [OF assms(1), of x] unfolding e f by (simp add: assms(5))
    show "\<exists>h. (bk_history (st_blocks s' ! i), h) \<in> set (st_history s') \<and> h_slot h = i"
      if "i < rp_capacity (w_repo w')" "\<not> st_nodes s' ! i" for i
      using that store_ok_node [OF assms(1), of i] by (simp add: assms(5) f)
    show "bk_generation (st_blocks s' ! i) \<le> rp_sequence (w_repo w')" if "i < rp_capacity (w_repo w')" for i
      using that g by (simp add: assms(5) f)
    show "h_slot h = i \<and> h_generation h = bk_generation (st_blocks s' ! i)"
      if "i < rp_capacity (w_repo w')" "st_leases s' ! i = Some h" for i h
      using store_ok_lease [OF assms(1), of i h] that by (simp add: assms(5) f)
  qed (use d assms(2,4) f in \<open>simp_all add: assms(5)\<close>)
qed

lemma stored_at_repo:
  "st_repo s = Some r \<Longrightarrow> live r' = live r \<Longrightarrow> s' = s\<lparr>st_repo := Some r', st_pending := b\<rparr> \<Longrightarrow>
     stored_at s' p q = stored_at s p q"
  by (simp add: stored_at_def)

text \<open>Entries do not overlap: their positions are multiples of the block size.\<close>

lemma aligned_disjoint:
  fixes k k' bt p :: nat
  assumes "k mod bt = 0" and "k' mod bt = 0" and "k \<le> p" and "p < k + bt" and "k' \<le> p" and "p < k' + bt"
  shows "k = k'"
proof -
  obtain a b where ab: "k = a * bt" "k' = b * bt" using assms(1,2) by (metis mod_0_imp_dvd dvd_def mult.commute)
  have bt: "0 < bt" using assms by simp
  have "a * bt < (b + 1) * bt" "b * bt < (a + 1) * bt" using assms ab by simp_all
  then have "a < b + 1" "b < a + 1" using bt by (simp_all only: mult_less_cancel2)
  then show ?thesis using ab by simp
qed

lemma entry_slot_unique:
  assumes "store_ok w s hi" and "(k, h) \<in> set (st_history s)" and "(k', h') \<in> set (st_history s)" and "h_slot h = h_slot h'"
  shows "k = k' \<and> h = h'"
proof -
  have "bk_history (st_blocks s ! h_slot h) = k" "bk_history (st_blocks s ! h_slot h) = k'"
    "h_generation h = h_generation h'"
    using store_ok_entry [OF assms(1,2)] store_ok_entry [OF assms(1,3)] assms(4) by (auto simp: entry_ok_def Let_def)
  then show ?thesis using assms(4) by (auto intro: handle.equality)
qed

lemma sorted_keys_distinct: "sorted_wrt (<) (map fst (es :: (nat \<times> 'a) list)) \<Longrightarrow> distinct (map fst es)"
  by (simp add: strict_sorted_iff)

text \<open>A position is stored at one row only.\<close>

lemma stored_at_unique:
  assumes ok: "store_ok w s hi" and "stored_at s p q" and "stored_at s p q'"
  shows "q = q'"
proof -
  note d = store_okD [OF ok]
  obtain k h where e: "(k, h) \<in> set (st_history s)" "k \<le> p" "p < k + bk_tokens (st_blocks s ! h_slot h)"
    "q = bk_pos (st_blocks s ! h_slot h) + (p - k)"
    using assms(2) stored_at_iff [OF d(2)] by blast
  obtain k' h' where e': "(k', h') \<in> set (st_history s)" "k' \<le> p" "p < k' + bk_tokens (st_blocks s ! h_slot h')"
    "q' = bk_pos (st_blocks s ! h_slot h') + (p - k')"
    using assms(3) stored_at_iff [OF d(2)] by blast
  have "k = k'"
    by (rule aligned_disjoint [of k "cf_block_tokens (st_cfg s)" k' p])
      (use store_ok_entry [OF ok e(1)] store_ok_entry [OF ok e'(1)] e e' in \<open>auto simp: entry_ok_def Let_def\<close>)
  moreover have "h = h'" using calculation e(1) e'(1) sorted_keys_distinct [OF d(10)]
    by (metis eq_key_imp_eq_value)
  ultimately show ?thesis using e(4) e'(4) by simp
qed

section \<open>Installing a slot\<close>

lemma set_hist_insert [simp]: "set (hist_insert k h es) = insert (k, h) (set es)"
  by (induction es) auto

lemma sorted_hist_insert:
  "sorted_wrt (<) (map fst es) \<Longrightarrow> \<not> has_key k es \<Longrightarrow> sorted_wrt (<) (map fst (hist_insert k h es))"
  by (induction es) (auto simp: has_key_def)

lemma set_hist_extract [simp]: "set (hist_extract k es) = {e \<in> set es. fst e \<noteq> k}"
  by (auto simp: hist_extract_def)

lemma sorted_hist_extract: "sorted_wrt (<) (map fst es) \<Longrightarrow> sorted_wrt (<) (map fst (hist_extract k es))"
  unfolding hist_extract_def sorted_wrt_map by (rule sorted_wrt_filter)

lemma pinnable_live:
  assumes "reachable w"
  shows "pinnable (w_repo w) h \<Longrightarrow> live (w_repo w) h"
    and "live (w_repo w) h \<Longrightarrow> refs (control (w_repo w) (h_slot h)) \<noteq> ref_mask \<Longrightarrow> pinnable (w_repo w) h"
proof -
  show "pinnable (w_repo w) h \<Longrightarrow> live (w_repo w) h"
    using client_pin(2) [OF assms] by (cases "try_pin (w_repo w) h") (auto simp: pinnable_def)
  show "live (w_repo w) h \<Longrightarrow> refs (control (w_repo w) (h_slot h)) \<noteq> ref_mask \<Longrightarrow> pinnable (w_repo w) h"
    using pin_live [OF assms, of h] by (auto simp: pinnable_def)
qed

lemma same_slot_lease:
  assumes "store_ok w s hi" and "lease_ok (w_repo w) h" and "bk_generation (st_blocks s ! h_slot h) \<noteq> h_generation h"
  shows "st_leases s ! h_slot h = None"
proof (rule ccontr)
  assume "st_leases s ! h_slot h \<noteq> None"
  then obtain g where g: "st_leases s ! h_slot h = Some g" by blast
  have i: "h_slot h < rp_capacity (w_repo w)" using assms(2) by (simp add: lease_ok_def)
  note l = store_ok_lease [OF assms(1) i g]
  have "lease_ok (w_repo w) g"
    by (rule world_invD(4) [OF reachable_inv [OF store_okD(1) [OF assms(1)]]]) (use l in simp)
  then have "h_generation g = h_generation h" using l assms(2) by (simp add: lease_ok_def)
  then show False using l assms(3) by simp
qed

text \<open>The slot's new directory: the old entry of the slot goes, the new one comes.\<close>

definition installed_history :: "store \<Rightarrow> nat \<Rightarrow> handle \<Rightarrow> (nat \<times> handle) list" where
  "installed_history s key h = hist_insert key h (if st_nodes s ! h_slot h then st_history s
     else hist_extract (bk_history (st_blocks s ! h_slot h)) (st_history s))"

lemma installed_history_set:
  assumes ok: "store_ok w s hi" and i: "h_slot h < rp_capacity (w_repo w)"
  shows "set (installed_history s key h) = insert (key, h) {e \<in> set (st_history s). h_slot (snd e) \<noteq> h_slot h}"
proof -
  have "{e \<in> set (st_history s). h_slot (snd e) \<noteq> h_slot h} = set (st_history s)" if n: "st_nodes s ! h_slot h"
  proof -
    have "h_slot (snd e) \<noteq> h_slot h" if "e \<in> set (st_history s)" for e
      using store_ok_entry [OF ok that] n by (auto simp: entry_ok_def Let_def)
    then show ?thesis by blast
  qed
  moreover have "{e \<in> set (st_history s). h_slot (snd e) \<noteq> h_slot h} =
      {e \<in> set (st_history s). fst e \<noteq> bk_history (st_blocks s ! h_slot h)}" if n: "\<not> st_nodes s ! h_slot h"
  proof -
    obtain g where g: "(bk_history (st_blocks s ! h_slot h), g) \<in> set (st_history s)" "h_slot g = h_slot h"
      using store_ok_node [OF ok i n] by blast
    have "h_slot (snd e) = h_slot h \<longleftrightarrow> fst e = bk_history (st_blocks s ! h_slot h)" if e: "e \<in> set (st_history s)" for e
    proof
      assume "h_slot (snd e) = h_slot h"
      then show "fst e = bk_history (st_blocks s ! h_slot h)"
        using store_ok_entry [OF ok e] by (auto simp: entry_ok_def Let_def)
    next
      assume "fst e = bk_history (st_blocks s ! h_slot h)"
      then have "e = (bk_history (st_blocks s ! h_slot h), g)"
        using e g(1) sorted_keys_distinct [OF store_okD(10) [OF ok]] by (metis eq_key_imp_eq_value prod.collapse)
      then show "h_slot (snd e) = h_slot h" using g(2) by simp
    qed
    then show ?thesis by blast
  qed
  ultimately show ?thesis by (simp add: installed_history_def)
qed

lemma installed_history_sorted:
  assumes "store_ok w s hi" and "\<not> has_key key (st_history s)"
  shows "sorted_wrt (<) (map fst (installed_history s key h))"
proof -
  have "\<not> has_key key (hist_extract k (st_history s))" for k using assms(2) by (auto simp: has_key_def)
  then show ?thesis using store_okD(10) [OF assms(1)] assms(2)
    by (simp add: installed_history_def sorted_hist_insert sorted_hist_extract)
qed

definition installed :: "store \<Rightarrow> handle \<Rightarrow> block_record \<Rightarrow> nat \<Rightarrow> nat \<Rightarrow> store" where
  "installed s h rec baked valid = s\<lparr>st_history := installed_history s (br_token_begin rec) h,
     st_nodes := (st_nodes s)[h_slot h := False],
     st_blocks := (st_blocks s)[h_slot h := installed_block (cf_block_tokens (st_cfg s)) rec baked valid],
     st_flags := (st_flags s)[h_slot h := 0], st_total := max (st_total s) (br_token_begin rec + valid),
     st_leases := (st_leases s)[h_slot h := Some h]\<rparr>"

text \<open>A slot that may be installed: live under a handle the store has not seen, for a new position.\<close>

definition installable :: "world \<Rightarrow> store \<Rightarrow> nat \<Rightarrow> handle \<Rightarrow> block_record \<Rightarrow> nat \<Rightarrow> nat \<Rightarrow> bool" where
  "installable w s hi h rec baked valid \<longleftrightarrow> (let bt = cf_block_tokens (st_cfg s) in
     live (w_repo w) h \<and> refs (control (w_repo w) (h_slot h)) \<noteq> ref_mask \<and> lease_record (w_repo w) h = rec \<and>
     br_handle rec = h \<and> bk_generation (st_blocks s ! h_slot h) \<noteq> h_generation h \<and>
     br_token_begin rec mod bt = 0 \<and> 0 < valid \<and> valid \<le> br_token_count rec \<and> br_token_count rec \<le> bt \<and>
     baked + valid \<le> INT32_MAX \<and> br_token_begin rec + valid \<le> hi \<and>
     \<not> has_key (br_token_begin rec) (st_history s) \<and> add_mset h (held (st_leases s)) \<subseteq># w_leases w)"

lemma install_run:
  assumes ok: "store_ok w s hi" and i: "installable w s hi h rec baked valid"
  shows "install_block s h baked valid = (installed s h rec baked valid, Inr ())"
proof -
  note d = store_okD [OF ok] and i = i [unfolded installable_def Let_def]
  have lo: "lease_ok (w_repo w) h" using i by (simp add: live_def)
  have p: "pinnable (w_repo w) h" by (rule pinnable_live(2) [OF d(1)]) (use i in blast)+
  have l: "st_leases s ! h_slot h = None" by (rule same_slot_lease [OF ok lo]) (use i in blast)
  have n: "\<not> (\<not> st_nodes s ! h_slot h \<and> \<not> has_key (bk_history (st_blocks s ! h_slot h)) (st_history s))"
  proof (rule notI, elim conjE)
    assume a: "\<not> st_nodes s ! h_slot h" and k: "\<not> has_key (bk_history (st_blocks s ! h_slot h)) (st_history s)"
    have "h_slot h < rp_capacity (w_repo w)" using lo by (simp add: lease_ok_def)
    from store_ok_node [OF ok this a] show False using k by (force simp: has_key_def)
  qed
  have b: "\<not> bad_extent (cf_block_tokens (st_cfg s)) rec baked valid" using i by (simp add: bad_extent_def)
  have e: "lease_record (w_repo w) h = rec" "br_handle rec = h" "bk_generation (st_blocks s ! h_slot h) \<noteq> h_generation h"
    "\<not> has_key (br_token_begin rec) (st_history s)" using i by blast+
  show ?thesis
    unfolding install_block_def d(2) Let_def e(1,2) option.case
    using p b l e(3,4) n by (simp add: installed_def installed_history_def)
qed

lemma installed_simps [simp]:
  "st_repo (installed s h rec baked valid) = st_repo s" "st_cfg (installed s h rec baked valid) = st_cfg s"
  "st_pending (installed s h rec baked valid) = st_pending s"
  "st_leases (installed s h rec baked valid) = (st_leases s)[h_slot h := Some h]"
  "st_nodes (installed s h rec baked valid) = (st_nodes s)[h_slot h := False]"
  "st_history (installed s h rec baked valid) = installed_history s (br_token_begin rec) h"
  "st_blocks (installed s h rec baked valid) =
     (st_blocks s)[h_slot h := installed_block (cf_block_tokens (st_cfg s)) rec baked valid]"
  "length (st_flags (installed s h rec baked valid)) = length (st_flags s)"
  by (simp_all add: installed_def)

lemma installed_block_simps [simp]:
  "bk_tokens (installed_block bt rec baked valid) = valid" "bk_history (installed_block bt rec baked valid) = br_token_begin rec"
  "bk_generation (installed_block bt rec baked valid) = h_generation (br_handle rec)"
  "bk_pos (installed_block bt rec baked valid) = u32 (h_slot (br_handle rec) * bt)"
  "bk_tier (installed_block bt rec baked valid) = TierGPU" "bk_baked (installed_block bt rec baked valid) = int baked"
  by (simp_all add: installed_block_def block_init_def)

lemma slot_row_bound:
  assumes "store_ok w s hi" and "i < rp_capacity (w_repo w)"
  shows "i * cf_block_tokens (st_cfg s) + cf_block_tokens (st_cfg s) \<le> INT32_MAX"
proof -
  have "(i + 1) * cf_block_tokens (st_cfg s) \<le> rp_capacity (w_repo w) * cf_block_tokens (st_cfg s)"
    using assms(2) by (intro mult_le_mono1) simp
  then have "i * cf_block_tokens (st_cfg s) + cf_block_tokens (st_cfg s) \<le> rp_capacity (w_repo w) * cf_block_tokens (st_cfg s)"
    by (simp only: distrib_right mult_1)
  then show ?thesis using store_okD(5) [OF assms(1)] by linarith
qed

lemma u32_slot: "store_ok w s hi \<Longrightarrow> i < rp_capacity (w_repo w) \<Longrightarrow> k \<le> cf_block_tokens (st_cfg s) \<Longrightarrow>
    u32 (i * cf_block_tokens (st_cfg s) + k) = i * cf_block_tokens (st_cfg s) + k"
  using slot_row_bound [of w s hi i] by (intro u32_id) (simp add: INT32_MAX_def UINT32_MAX_def)

lemma installed_ok:
  assumes ok: "store_ok w s hi" and i: "installable w s hi h rec baked valid"
  shows "store_ok w (installed s h rec baked valid) hi"
proof -
  note d = store_okD [OF ok] and j = i [unfolded installable_def Let_def]
  let ?n = "rp_capacity (w_repo w)" and ?s = "installed s h rec baked valid"
  have lo: "lease_ok (w_repo w) h" using j by (simp add: live_def)
  then have sl: "h_slot h < ?n" "h_generation h \<noteq> 0" by (simp_all add: lease_ok_def)
  have e: "br_handle rec = h" "\<not> has_key (br_token_begin rec) (st_history s)" using j by blast+
  have l: "st_leases s ! h_slot h = None" by (rule same_slot_lease [OF ok lo]) (use j in blast)
  have u: "u32 (h_slot h * cf_block_tokens (st_cfg s)) = h_slot h * cf_block_tokens (st_cfg s)"
    using u32_slot [OF ok sl(1), of 0] by simp
  have hs: "set (st_history ?s) = insert (br_token_begin rec, h) {x \<in> set (st_history s). h_slot (snd x) \<noteq> h_slot h}"
    using installed_history_set [OF ok sl(1)] by simp
  show ?thesis
  proof (rule store_okI)
    show "sorted_wrt (<) (map fst (st_history ?s))" using installed_history_sorted [OF ok e(2)] by simp
    show "entry_ok ?s ?n hi x" if x: "x \<in> set (st_history ?s)" for x
    proof (cases "x = (br_token_begin rec, h)")
      case True
      have v: "0 < valid" "valid \<le> cf_block_tokens (st_cfg s)" "br_token_begin rec mod cf_block_tokens (st_cfg s) = 0"
        "br_token_begin rec + valid \<le> hi" using j by auto
      then show ?thesis using True sl d(6,8) u by (simp add: entry_ok_def e(1))
    next
      case False
      then have "x \<in> set (st_history s)" "h_slot (snd x) \<noteq> h_slot h" using x unfolding hs by auto
      then show ?thesis using store_ok_entry [OF ok, of x] by (simp add: entry_ok_def Let_def)
    qed
    show "\<exists>g. (bk_history (st_blocks ?s ! k), g) \<in> set (st_history ?s) \<and> h_slot g = k"
      if k: "k < ?n" "\<not> st_nodes ?s ! k" for k
    proof (cases "k = h_slot h")
      case True
      then show ?thesis using hs d(6) sl by auto
    next
      case False
      then obtain g where "(bk_history (st_blocks s ! k), g) \<in> set (st_history s)" "h_slot g = k"
        using store_ok_node [OF ok k(1)] k(2) by auto
      then show ?thesis using False unfolding hs by auto
    qed
    show "bk_generation (st_blocks ?s ! k) \<le> rp_sequence (w_repo w)" if k: "k < ?n" for k
    proof (cases "k = h_slot h")
      case True
      have "slot_ok (rp_sequence (w_repo w)) k (rp_slots (w_repo w) ! k)
          (on_slot k (w_leases w + w_writers w)) (on_slot k (w_writers w))"
        by (rule world_invD(3) [OF reachable_inv [OF d(1)] k])
      then show ?thesis using True lo d(6) sl by (simp add: slot_ok_def lease_ok_def e(1))
    qed (use store_ok_generation [OF ok k] in simp)
    show "h_slot g = k \<and> h_generation g = bk_generation (st_blocks ?s ! k)"
      if k: "k < ?n" and g: "st_leases ?s ! k = Some g" for k g
    proof (cases "k = h_slot h")
      case True
      then show ?thesis using g d(6,7) sl by (simp add: e(1))
    next
      case False
      then show ?thesis using g store_ok_lease [OF ok k, of g] by simp
    qed
    show "held (st_leases ?s) \<subseteq># w_leases w"
      using held_install [of "h_slot h" "st_leases s" h] l sl d(7) j by simp
  qed (use d in simp_all)
qed

lemma installed_stored:
  assumes ok: "store_ok w s hi" and i: "installable w s hi h rec baked valid"
  shows "stored_at (installed s h rec baked valid) p q \<longleftrightarrow> stored_at s p q \<or>
    br_token_begin rec \<le> p \<and> p < br_token_begin rec + valid \<and>
    q = h_slot h * cf_block_tokens (st_cfg s) + (p - br_token_begin rec)"
proof -
  note d = store_okD [OF ok] and j = i [unfolded installable_def Let_def]
  let ?s = "installed s h rec baked valid" and ?k = "br_token_begin rec"
  have lv: "live (w_repo w) h" and e: "br_handle rec = h" and g: "bk_generation (st_blocks s ! h_slot h) \<noteq> h_generation h"
    using j by blast+
  then have sl: "h_slot h < rp_capacity (w_repo w)" and sg: "sl_generation (rp_slots (w_repo w) ! h_slot h) = h_generation h"
    by (simp_all add: live_def lease_ok_def)
  have b: "st_blocks ?s ! h_slot h = installed_block (cf_block_tokens (st_cfg s)) rec baked valid"
    using sl d(6) by simp
  have u: "bk_pos (st_blocks ?s ! h_slot h) = h_slot h * cf_block_tokens (st_cfg s)"
    unfolding b using u32_slot [OF ok sl, of 0] by (simp add: e)
  have stale: "h_slot x \<noteq> h_slot h" if x: "(k, x) \<in> set (st_history s)" "live (w_repo w) x" for k x
  proof
    assume same: "h_slot x = h_slot h"
    have "h_generation x = bk_generation (st_blocks s ! h_slot h)"
      using store_ok_entry [OF ok x(1)] same by (simp add: entry_ok_def Let_def)
    moreover have "h_generation x = h_generation h" using x(2) same sg by (simp add: live_def lease_ok_def)
    ultimately show False using g by simp
  qed
  have hs: "set (st_history ?s) = insert (?k, h) {x \<in> set (st_history s). h_slot (snd x) \<noteq> h_slot h}"
    using installed_history_set [OF ok sl] by simp
  have r: "st_repo ?s = Some (w_repo w)" using d(2) by simp
  have other: "st_blocks ?s ! h_slot x = st_blocks s ! h_slot x" if "h_slot x \<noteq> h_slot h" for x using that by simp
  show ?thesis unfolding stored_at_iff [OF r] stored_at_iff [OF d(2)] hs
  proof (intro iffI)
    assume "\<exists>k x. (k, x) \<in> insert (?k, h) {x \<in> set (st_history s). h_slot (snd x) \<noteq> h_slot h} \<and> live (w_repo w) x \<and>
      k \<le> p \<and> p < k + bk_tokens (st_blocks ?s ! h_slot x) \<and> q = bk_pos (st_blocks ?s ! h_slot x) + (p - k)"
    then obtain k x where kx: "(k, x) \<in> insert (?k, h) {x \<in> set (st_history s). h_slot (snd x) \<noteq> h_slot h}"
      "live (w_repo w) x" "k \<le> p" "p < k + bk_tokens (st_blocks ?s ! h_slot x)"
      "q = bk_pos (st_blocks ?s ! h_slot x) + (p - k)" by blast
    show "(\<exists>k x. (k, x) \<in> set (st_history s) \<and> live (w_repo w) x \<and> k \<le> p \<and>
        p < k + bk_tokens (st_blocks s ! h_slot x) \<and> q = bk_pos (st_blocks s ! h_slot x) + (p - k)) \<or>
      ?k \<le> p \<and> p < ?k + valid \<and> q = h_slot h * cf_block_tokens (st_cfg s) + (p - ?k)"
    proof (cases "(k, x) = (?k, h)")
      case True
      then have "k = ?k" "x = h" by simp_all
      then show ?thesis using kx(3-5) u b by simp
    next
      case False
      then have m: "(k, x) \<in> set (st_history s)" "h_slot x \<noteq> h_slot h" using kx(1) by auto
      have "p < k + bk_tokens (st_blocks s ! h_slot x)" "q = bk_pos (st_blocks s ! h_slot x) + (p - k)"
        using kx(4,5) unfolding other [OF m(2)] .
      then show ?thesis using kx(2,3) m(1) by blast
    qed
  next
    assume "(\<exists>k x. (k, x) \<in> set (st_history s) \<and> live (w_repo w) x \<and> k \<le> p \<and>
        p < k + bk_tokens (st_blocks s ! h_slot x) \<and> q = bk_pos (st_blocks s ! h_slot x) + (p - k)) \<or>
      ?k \<le> p \<and> p < ?k + valid \<and> q = h_slot h * cf_block_tokens (st_cfg s) + (p - ?k)"
    then show "\<exists>k x. (k, x) \<in> insert (?k, h) {x \<in> set (st_history s). h_slot (snd x) \<noteq> h_slot h} \<and> live (w_repo w) x \<and>
      k \<le> p \<and> p < k + bk_tokens (st_blocks ?s ! h_slot x) \<and> q = bk_pos (st_blocks ?s ! h_slot x) + (p - k)"
    proof (elim disjE exE conjE)
      fix k x assume kx: "(k, x) \<in> set (st_history s)" "live (w_repo w) x" "k \<le> p"
        "p < k + bk_tokens (st_blocks s ! h_slot x)" "q = bk_pos (st_blocks s ! h_slot x) + (p - k)"
      note n = stale [OF kx(1,2)]
      have "(k, x) \<in> insert (?k, h) {x \<in> set (st_history s). h_slot (snd x) \<noteq> h_slot h}" using kx(1) n by simp
      moreover have "p < k + bk_tokens (st_blocks ?s ! h_slot x)" "q = bk_pos (st_blocks ?s ! h_slot x) + (p - k)"
        unfolding other [OF n] by (rule kx)+
      ultimately show ?thesis using kx(2,3) by (intro exI [of _ k] exI [of _ x] conjI)
    next
      assume new: "?k \<le> p" "p < ?k + valid" "q = h_slot h * cf_block_tokens (st_cfg s) + (p - ?k)"
      have "p < ?k + bk_tokens (st_blocks ?s ! h_slot h)" "q = bk_pos (st_blocks ?s ! h_slot h) + (p - ?k)"
        using new b u by simp_all
      then show ?thesis using new(1) lv by (intro exI [of _ ?k] exI [of _ h] conjI) simp_all
    qed
  qed
qed

section \<open>Committing reservations\<close>

lemma writers_distinct:
  assumes inv: "world_inv w"
  shows "mset hs \<subseteq># w_writers w \<Longrightarrow> distinct (map h_slot hs)"
proof (induction hs)
  case (Cons h hs)
  have sub: "mset hs \<subseteq># w_writers w" using Cons.prems by (auto intro: subset_mset.order_trans [rotated])
  have h: "h \<in># w_writers w" using Cons.prems by (auto dest: mset_subset_eqD)
  have "on_slot (h_slot h) (mset (h # hs)) \<le> on_slot (h_slot h) (w_writers w)"
    unfolding on_slot_def by (intro size_mset_mono multiset_filter_mono Cons.prems)
  then have "on_slot (h_slot h) (mset hs) = 0" using writer_phase(2) [OF inv h] by simp
  then have "h_slot h \<notin> h_slot ` set hs"
    using on_slot_pos [of _ "mset hs"] by (metis (no_types) imageE less_numeral_extra(3) set_mset_mset)
  then show ?case using Cons.IH [OF sub] by simp
qed simp

definition pending_ok :: "world \<Rightarrow> store \<Rightarrow> repo_append \<Rightarrow> storage_span \<times> handle \<Rightarrow> bool" where
  "pending_ok w s a e \<longleftrightarrow> (let sp = fst e; h = snd e; bt = cf_block_tokens (st_cfg s) in
     ss_handle sp = h \<and> ss_storage sp = h_slot h * bt \<and> 0 < ss_count sp \<and> ss_count sp \<le> bt \<and>
     ss_history sp mod bt = 0 \<and> ap_begin a \<le> ss_history sp \<and>
     ap_baked a + (ss_history sp - ap_begin a) + ss_count sp \<le> INT32_MAX \<and>
     lease_record (w_repo w) h = \<lparr>br_handle = h, br_logical_id = h_generation h,
       br_token_begin = ss_history sp, br_token_count = bt\<rparr> \<and>
     bk_generation (st_blocks s ! h_slot h) \<noteq> h_generation h \<and>
     refs (control (w_repo w) (h_slot h)) \<noteq> ref_mask \<and> \<not> has_key (ss_history sp) (st_history s))"

text \<open>The part of a span inside the accepted prefix.\<close>

definition span_holds :: "nat \<Rightarrow> storage_span \<Rightarrow> nat \<Rightarrow> nat \<Rightarrow> bool" where
  "span_holds stop sp p q \<longleftrightarrow> ss_history sp \<le> p \<and> p < ss_history sp + ss_count sp \<and> p < stop \<and>
     q = ss_storage sp + (p - ss_history sp)"

lemma store_repo_same: "s\<lparr>st_repo := x, st_pending := st_pending s\<rparr> = (s :: store)\<lparr>st_repo := x\<rparr>"
  by (cases s) simp

text \<open>One reservation: published, then installed.\<close>

lemma commit_one:
  assumes ok: "store_ok w s hi" and p: "pending_ok w s a (sp, h)" and wr: "h \<in># w_writers w"
    and lt: "ss_history sp < stop" and hi: "stop \<le> hi" and x: "held (st_leases s) + x \<subseteq># w_leases w"
  obtains r' s' w' where "reservation_commit (w_repo w) h = Inr r'"
    and "install_block (s\<lparr>st_repo := Some r'\<rparr>) h (ap_baked a + (ss_history sp - ap_begin a))
       (min (ss_count sp) (stop - ss_history sp)) = (s', Inr ())"
    and "store_ok w' s' hi" and "st_cfg s' = st_cfg s" and "st_pending s' = st_pending s"
    and "held (st_leases s') + x \<subseteq># w_leases w'" and "w_writers w' = w_writers w - {#h#}"
    and "\<And>p q. stored_at s' p q \<longleftrightarrow> stored_at s p q \<or> span_holds stop sp p q"
    and "\<And>g. lease_record (w_repo w') g = lease_record (w_repo w) g"
    and "\<And>t. t \<noteq> h_slot h \<Longrightarrow> control (w_repo w') t = control (w_repo w) t \<and> st_blocks s' ! t = st_blocks s ! t"
    and "\<And>k. has_key k (st_history s') \<Longrightarrow> has_key k (st_history s) \<or> k = ss_history sp"
proof -
  note d = store_okD [OF ok] and P = p [unfolded pending_ok_def Let_def fst_conv snd_conv]
  let ?bt = "cf_block_tokens (st_cfg s)" and ?v = "min (ss_count sp) (stop - ss_history sp)"
    and ?b = "ap_baked a + (ss_history sp - ap_begin a)"
  let ?rec = "\<lparr>br_handle = h, br_logical_id = h_generation h, br_token_begin = ss_history sp, br_token_count = ?bt\<rparr>"
  obtain r' where c: "reservation_commit (w_repo w) h = Inr r'"
    and rw: "reachable (w\<lparr>w_repo := r', w_leases := add_mset h (w_leases w), w_writers := w_writers w - {#h#}\<rparr>)"
    and lv: "\<forall>g. live r' g \<longleftrightarrow> live (w_repo w) g \<or> g = h" and fr: "frame (w_repo w) r'"
    and rec: "\<forall>g. lease_record r' g = lease_record (w_repo w) g"
    and rf: "refs (control r' (h_slot h)) = refs (control (w_repo w) (h_slot h))"
    and ct: "\<forall>t. t \<noteq> h_slot h \<longrightarrow> control r' t = control (w_repo w) t"
    using client_commit [OF d(1) wr] by (elim exE conjE)
  define w' where "w' = w\<lparr>w_repo := r', w_leases := add_mset h (w_leases w), w_writers := w_writers w - {#h#}\<rparr>"
  define s1 where "s1 = s\<lparr>st_repo := Some r'\<rparr>"
  have w': "w_repo w' = r'" "w_leases w' = add_mset h (w_leases w)" "w_writers w' = w_writers w - {#h#}" "reachable w'"
    using rw by (simp_all add: w'_def)
  have s1: "st_repo s1 = Some r'" "st_cfg s1 = st_cfg s" "st_pending s1 = st_pending s" "st_leases s1 = st_leases s"
    "st_blocks s1 = st_blocks s" "st_history s1 = st_history s" "st_nodes s1 = st_nodes s" by (simp_all add: s1_def)
  have sub: "held (st_leases s) \<subseteq># w_leases w'" unfolding w'(2)
    by (rule subset_mset.order_trans [OF d(11)]) simp
  have ok1: "store_ok w' s1 hi"
    by (rule store_ok_repo [OF ok w'(4) _ sub, of s1 "st_pending s"])
      (simp_all add: w'(1) fr s1_def store_repo_same)
  have new: "g \<noteq> h" if "(k, g) \<in> set (st_history s)" for k g
    using store_ok_entry [OF ok that] P by (auto simp: entry_ok_def Let_def)
  have st1: "stored_at s1 p q = stored_at s p q" for p q
    unfolding stored_at_iff [OF s1(1)] stored_at_iff [OF d(2)] s1 using lv new by blast
  have hx: "add_mset h (held (st_leases s) + x) \<subseteq># w_leases w'" using x by (simp add: w'(2))
  have i: "installable w' s1 hi h ?rec ?b ?v"
    unfolding installable_def Let_def w'(1) s1 rf block_record.select_convs
  proof (intro conjI)
    show "add_mset h (held (st_leases s)) \<subseteq># w_leases w'"
      by (rule subset_mset.order_trans [OF _ hx]) simp
    show "lease_record r' h = ?rec" using rec P by simp
  qed (use P lt hi lv in auto)
  have sl: "h_slot h < rp_capacity (w_repo w)"
    using world_invD(4) [OF reachable_inv [OF d(1)], of h] wr by (simp add: lease_ok_def)
  note run = install_run [OF ok1 i]
  let ?s = "installed s1 h ?rec ?b ?v"
  have lease: "st_leases s ! h_slot h = None"
    by (rule same_slot_lease [OF ok]) (use world_invD(4) [OF reachable_inv [OF d(1)], of h] wr P in auto)
  show ?thesis
  proof (rule that [OF c])
    show "install_block (s\<lparr>st_repo := Some r'\<rparr>) h ?b ?v = (?s, Inr ())" using run by (simp add: s1_def)
    show "store_ok w' ?s hi" by (rule installed_ok [OF ok1 i])
    show "st_cfg ?s = st_cfg s" "st_pending ?s = st_pending s" by (simp_all add: s1)
    show "held (st_leases ?s) + x \<subseteq># w_leases w'"
      using hx held_install [of "h_slot h" "st_leases s" h] lease sl d(7) by (simp add: s1)
    show "w_writers w' = w_writers w - {#h#}" by (rule w')
    show "stored_at ?s p q \<longleftrightarrow> stored_at s p q \<or> span_holds stop sp p q" for p q
      unfolding installed_stored [OF ok1 i] st1 using P by (auto simp: span_holds_def s1)
    show "lease_record (w_repo w') g = lease_record (w_repo w) g" for g using rec by (simp add: w')
    show "control (w_repo w') t = control (w_repo w) t \<and> st_blocks ?s ! t = st_blocks s ! t" if "t \<noteq> h_slot h" for t
      using ct that by (simp add: w' s1)
    show "has_key k (st_history s) \<or> k = ss_history sp" if "has_key k (st_history ?s)" for k
      using that installed_history_set [OF ok1, of h "ss_history sp"] sl fr
      by (auto simp: has_key_def s1 w' frame_def)
  qed
qed

definition rejected :: "nat \<Rightarrow> (storage_span \<times> handle) list \<Rightarrow> handle list" where
  "rejected stop es = map snd (filter (\<lambda>e. stop \<le> ss_history (fst e)) es)"

lemma commit_blocks_ok:
  assumes "store_ok w s hi" and "stop \<le> hi" and "\<forall>e \<in> set es. pending_ok w s a e"
    and "distinct (map (\<lambda>e. ss_history (fst e)) es)" and "mset (map snd es) + y \<subseteq># w_writers w"
    and "held (st_leases s) + x \<subseteq># w_leases w"
  shows "\<exists>s' w'. commit_blocks s a stop es left = (s', left @ rejected stop es, Inr ()) \<and> store_ok w' s' hi \<and>
    st_cfg s' = st_cfg s \<and> st_pending s' = st_pending s \<and> held (st_leases s') + x \<subseteq># w_leases w' \<and>
    mset (rejected stop es) + y \<subseteq># w_writers w' \<and>
    (\<forall>p q. stored_at s' p q \<longleftrightarrow> stored_at s p q \<or> (\<exists>e \<in> set es. span_holds stop (fst e) p q))"
  using assms
proof (induction es arbitrary: w s left y)
  case Nil
  then show ?case by (auto simp: rejected_def)
next
  case (Cons e es)
  obtain sp h where e: "e = (sp, h)" by fastforce
  note d = store_okD [OF Cons.prems(1)] and inv = reachable_inv [OF store_okD(1) [OF Cons.prems(1)]]
  show ?case
  proof (cases "stop \<le> ss_history sp")
    case True
    have "mset (map snd es) + add_mset h y \<subseteq># w_writers w" using Cons.prems(5) by (simp add: e)
    moreover have "\<forall>e \<in> set es. pending_ok w s a e" "distinct (map (\<lambda>e. ss_history (fst e)) es)"
      using Cons.prems(3,4) by simp_all
    ultimately obtain s' w' where r: "commit_blocks s a stop es (left @ [h]) = (s', (left @ [h]) @ rejected stop es, Inr ())"
      "store_ok w' s' hi" "st_cfg s' = st_cfg s" "st_pending s' = st_pending s" "held (st_leases s') + x \<subseteq># w_leases w'"
      "mset (rejected stop es) + add_mset h y \<subseteq># w_writers w'"
      "\<forall>p q. stored_at s' p q \<longleftrightarrow> stored_at s p q \<or> (\<exists>e \<in> set es. span_holds stop (fst e) p q)"
      using Cons.IH [OF Cons.prems(1,2), of "add_mset h y" "left @ [h]"] Cons.prems(6) by blast
    have "\<not> span_holds stop sp p q" for p q using True by (auto simp: span_holds_def)
    then show ?thesis using r True by (intro exI [of _ s'] exI [of _ w']) (simp add: e rejected_def)
  next
    case False
    have wr: "h \<in># w_writers w" using Cons.prems(5) by (auto simp: e dest: mset_subset_eqD)
    have p: "pending_ok w s a (sp, h)" using Cons.prems(3) by (simp add: e)
    have lt: "ss_history sp < stop" using False by simp
    obtain r' s1 w1 where c: "reservation_commit (w_repo w) h = Inr r'"
      "install_block (s\<lparr>st_repo := Some r'\<rparr>) h (ap_baked a + (ss_history sp - ap_begin a))
         (min (ss_count sp) (stop - ss_history sp)) = (s1, Inr ())"
      and ok1: "store_ok w1 s1 hi" and c1: "st_cfg s1 = st_cfg s" "st_pending s1 = st_pending s"
      and x1: "held (st_leases s1) + x \<subseteq># w_leases w1" and wr1: "w_writers w1 = w_writers w - {#h#}"
      and st: "\<And>p q. stored_at s1 p q \<longleftrightarrow> stored_at s p q \<or> span_holds stop sp p q"
      and rec: "\<And>g. lease_record (w_repo w1) g = lease_record (w_repo w) g"
      and oth: "\<And>t. t \<noteq> h_slot h \<Longrightarrow> control (w_repo w1) t = control (w_repo w) t \<and> st_blocks s1 ! t = st_blocks s ! t"
      and key: "\<And>k. has_key k (st_history s1) \<Longrightarrow> has_key k (st_history s) \<or> k = ss_history sp"
      by (rule commit_one [OF Cons.prems(1) p wr lt Cons.prems(2) Cons.prems(6)]) (rule that)
    have "mset (map snd (e # es)) \<subseteq># w_writers w" using Cons.prems(5) by (rule subset_mset.order_trans [rotated]) simp
    then have ds: "distinct (map h_slot (map snd (e # es)))" by (rule writers_distinct [OF inv])
    have "\<forall>x \<in> set es. pending_ok w1 s1 a x"
    proof
      fix x assume x: "x \<in> set es"
      have "h_slot h \<notin> h_slot ` snd ` set es" using ds by (simp add: e image_image)
      then have "h_slot (snd x) \<noteq> h_slot h" using x by (metis imageI)
      note o = oth [OF this]
      have "ss_history sp \<notin> (\<lambda>e. ss_history (fst e)) ` set es" using Cons.prems(4) by (simp add: e)
      then have "ss_history (fst x) \<noteq> ss_history sp" using x by (metis (no_types, lifting) image_eqI)
      then have "\<not> has_key (ss_history (fst x)) (st_history s1)"
        using key [of "ss_history (fst x)"] Cons.prems(3) x by (auto simp: pending_ok_def Let_def)
      then show "pending_ok w1 s1 a x"
        using Cons.prems(3) x o unfolding pending_ok_def Let_def rec c1 by auto
    qed
    moreover have "mset (map snd es) + y \<subseteq># w_writers w1"
      using Cons.prems(5) unfolding wr1 e by (simp add: insert_subset_eq_iff)
    moreover have "distinct (map (\<lambda>e. ss_history (fst e)) es)" using Cons.prems(4) by simp
    ultimately obtain s' w' where r: "commit_blocks s1 a stop es left = (s', left @ rejected stop es, Inr ())"
      "store_ok w' s' hi" "st_cfg s' = st_cfg s1" "st_pending s' = st_pending s1" "held (st_leases s') + x \<subseteq># w_leases w'"
      "mset (rejected stop es) + y \<subseteq># w_writers w'"
      "\<forall>p q. stored_at s' p q \<longleftrightarrow> stored_at s1 p q \<or> (\<exists>e \<in> set es. span_holds stop (fst e) p q)"
      using Cons.IH [OF ok1 Cons.prems(2), of y left] x1 by blast
    have "commit_blocks s a stop (e # es) left = commit_blocks s1 a stop es left"
      using False c d(2) by (simp add: e)
    moreover have "rejected stop (e # es) = rejected stop es" using False by (simp add: rejected_def e)
    moreover have "stored_at s' p q \<longleftrightarrow> stored_at s p q \<or> (\<exists>e \<in> set (e # es). span_holds stop (fst e) p q)" for p q
      unfolding r(7) [rule_format] st by (auto simp: e)
    ultimately show ?thesis using r(1-6) c1 by (intro exI [of _ s'] exI [of _ w']) simp
  qed
qed

section \<open>Extending the tail\<close>

lemma store_ok_mono:
  assumes "store_ok w s hi" and "hi \<le> hi'"
  shows "store_ok w s hi'"
proof (rule store_okI)
  show "entry_ok s (rp_capacity (w_repo w)) hi' e" if "e \<in> set (st_history s)" for e
    using store_ok_entry [OF assms(1) that] assms(2) by (auto simp: entry_ok_def Let_def)
qed (use store_okD [OF assms(1)] store_ok_node [OF assms(1)] store_ok_generation [OF assms(1)] store_ok_lease [OF assms(1)]
  in \<open>blast | simp\<close>)+

lemma commit_tail_fields:
  "st_repo (commit_tail s sp n) = st_repo s" "st_cfg (commit_tail s sp n) = st_cfg s"
  "st_pending (commit_tail s sp n) = st_pending s" "st_leases (commit_tail s sp n) = st_leases s"
  "st_nodes (commit_tail s sp n) = st_nodes s" "st_history (commit_tail s sp n) = st_history s"
  "length (st_flags (commit_tail s sp n)) = length (st_flags s)"
  "length (st_blocks (commit_tail s sp n)) = length (st_blocks s)" "st_total (commit_tail s sp n) = st_total s"
  by (simp_all add: commit_tail_def set_block_def Let_def)

lemma commit_tail_block:
  assumes "h_slot (ss_handle sp) < length (st_blocks s)"
  shows "bk_tokens (st_blocks (commit_tail s sp n) ! h_slot (ss_handle sp)) =
      u32 (bk_tokens (st_blocks s ! h_slot (ss_handle sp)) + min (ss_count sp) n)"
    and "bk_generation (st_blocks (commit_tail s sp n) ! i) = bk_generation (st_blocks s ! i)"
    and "bk_history (st_blocks (commit_tail s sp n) ! i) = bk_history (st_blocks s ! i)"
    and "bk_pos (st_blocks (commit_tail s sp n) ! i) = bk_pos (st_blocks s ! i)"
    and "i \<noteq> h_slot (ss_handle sp) \<Longrightarrow> st_blocks (commit_tail s sp n) ! i = st_blocks s ! i"
  using assms by (cases "i = h_slot (ss_handle sp)"; simp add: commit_tail_def set_block_def Let_def)+

lemma commit_tail_ok:
  assumes ok: "store_ok w s hi" and e: "(k, h) \<in> set (st_history s)" and lv: "live (w_repo w) h"
    and sp: "ss_handle sp = h" "ss_history sp = k + off" "ss_storage sp = h_slot h * cf_block_tokens (st_cfg s) + off"
      "off + ss_count sp \<le> cf_block_tokens (st_cfg s)"
    and off: "bk_tokens (st_blocks s ! h_slot h) = off" and hi: "hi \<le> hi'" "k + off + min (ss_count sp) n \<le> hi'"
  shows "store_ok w (commit_tail s sp n) hi'"
    and "stored_at (commit_tail s sp n) p q \<longleftrightarrow> stored_at s p q \<or> span_holds (k + off + n) sp p q"
proof -
  note d = store_okD [OF ok] and E = store_ok_entry [OF ok e, unfolded entry_ok_def Let_def fst_conv snd_conv]
  let ?s = "commit_tail s sp n"
  have sl: "h_slot h < rp_capacity (w_repo w)" using E by blast
  then have len: "h_slot (ss_handle sp) < length (st_blocks s)" using d(6) sp(1) by simp
  note cb = commit_tail_block [OF len, unfolded sp(1) off]
  have "off + min (ss_count sp) n \<le> UINT32_MAX"
    using slot_row_bound [OF ok sl] sp(4) by (simp add: INT32_MAX_def UINT32_MAX_def)
  then have t: "bk_tokens (st_blocks ?s ! h_slot h) = off + min (ss_count sp) n" using cb(1) [of n] by simp
  have uniq: "k' = k \<and> x = h" if "(k', x) \<in> set (st_history s)" "h_slot x = h_slot h" for k' x
    using entry_slot_unique [OF ok that(1) e that(2)] .
  have ent: "entry_ok ?s (rp_capacity (w_repo w)) hi' x" if x: "x \<in> set (st_history s)" for x
  proof (cases "h_slot (snd x) = h_slot h")
    case True
    then have "x = (k, h)" using uniq [of "fst x" "snd x"] x by (cases x) simp
    then show ?thesis using E t cb(2-4) off hi sp(4) by (simp add: entry_ok_def Let_def commit_tail_fields)
  next
    case False
    then show ?thesis using store_ok_entry [OF ok x] cb(5) [OF False] hi(1)
      by (simp add: entry_ok_def Let_def commit_tail_fields)
  qed
  show "store_ok w ?s hi'"
  proof (rule store_okI, unfold commit_tail_fields cb(2,3))
    show "\<exists>h. (bk_history (st_blocks s ! i), h) \<in> set (st_history s) \<and> h_slot h = i"
      if "i < rp_capacity (w_repo w)" "\<not> st_nodes s ! i" for i
      by (rule store_ok_node [OF ok that])
    show "h_slot g = i \<and> h_generation g = bk_generation (st_blocks s ! i)"
      if "i < rp_capacity (w_repo w)" "st_leases s ! i = Some g" for i g
      using store_ok_lease [OF ok that] by blast
  qed (use d ent store_ok_generation [OF ok] in simp_all)
  have r: "st_repo ?s = Some (w_repo w)" using d(2) by (simp add: commit_tail_fields)
  have other: "bk_tokens (st_blocks ?s ! h_slot x) = bk_tokens (st_blocks s ! h_slot x)" if "h_slot x \<noteq> h_slot h" for x
    using cb(5) [OF that] by simp
  have pos: "bk_pos (st_blocks s ! h_slot h) = h_slot h * cf_block_tokens (st_cfg s)" using E by blast
  show "stored_at ?s p q \<longleftrightarrow> stored_at s p q \<or> span_holds (k + off + n) sp p q"
    unfolding stored_at_iff [OF r] stored_at_iff [OF d(2)] commit_tail_fields cb(4)
  proof (intro iffI)
    assume "\<exists>k' x. (k', x) \<in> set (st_history s) \<and> live (w_repo w) x \<and> k' \<le> p \<and>
      p < k' + bk_tokens (st_blocks ?s ! h_slot x) \<and> q = bk_pos (st_blocks s ! h_slot x) + (p - k')"
    then obtain k' x where kx: "(k', x) \<in> set (st_history s)" "live (w_repo w) x" "k' \<le> p"
      "p < k' + bk_tokens (st_blocks ?s ! h_slot x)" "q = bk_pos (st_blocks s ! h_slot x) + (p - k')" by blast
    show "(\<exists>k' x. (k', x) \<in> set (st_history s) \<and> live (w_repo w) x \<and> k' \<le> p \<and>
        p < k' + bk_tokens (st_blocks s ! h_slot x) \<and> q = bk_pos (st_blocks s ! h_slot x) + (p - k')) \<or>
      span_holds (k + off + n) sp p q"
    proof (cases "h_slot x = h_slot h \<and> k + off \<le> p")
      case True
      then have "k' = k" "x = h" using uniq [OF kx(1)] by blast+
      then show ?thesis using kx True t pos sp by (auto simp: span_holds_def)
    next
      case False
      have "p < k' + bk_tokens (st_blocks s ! h_slot x)"
      proof (cases "h_slot x = h_slot h")
        case True
        then have "k' = k" "x = h" using uniq [OF kx(1)] by blast+
        then show ?thesis using False off by simp
      next
        case n: False
        show ?thesis using kx(4) unfolding other [OF n] .
      qed
      then show ?thesis using kx by blast
    qed
  next
    assume "(\<exists>k' x. (k', x) \<in> set (st_history s) \<and> live (w_repo w) x \<and> k' \<le> p \<and>
        p < k' + bk_tokens (st_blocks s ! h_slot x) \<and> q = bk_pos (st_blocks s ! h_slot x) + (p - k')) \<or>
      span_holds (k + off + n) sp p q"
    then show "\<exists>k' x. (k', x) \<in> set (st_history s) \<and> live (w_repo w) x \<and> k' \<le> p \<and>
      p < k' + bk_tokens (st_blocks ?s ! h_slot x) \<and> q = bk_pos (st_blocks s ! h_slot x) + (p - k')"
    proof (elim disjE exE conjE)
      fix k' x assume kx: "(k', x) \<in> set (st_history s)" "live (w_repo w) x" "k' \<le> p"
        "p < k' + bk_tokens (st_blocks s ! h_slot x)" "q = bk_pos (st_blocks s ! h_slot x) + (p - k')"
      have "bk_tokens (st_blocks s ! h_slot x) \<le> bk_tokens (st_blocks ?s ! h_slot x)"
      proof (cases "h_slot x = h_slot h")
        case True
        then show ?thesis using t off uniq [OF kx(1)] by simp
      next
        case n: False
        show ?thesis unfolding other [OF n] by (rule le_refl)
      qed
      then have "p < k' + bk_tokens (st_blocks ?s ! h_slot x)" using kx(4) by linarith
      then show ?thesis using kx by blast
    next
      assume "span_holds (k + off + n) sp p q"
      then have "k \<le> p" "p < k + bk_tokens (st_blocks ?s ! h_slot h)" "q = bk_pos (st_blocks s ! h_slot h) + (p - k)"
        using t pos sp by (auto simp: span_holds_def)
      then show ?thesis using e lv by blast
    qed
  qed
qed

section \<open>The spans of a transaction\<close>

fun consecutive :: "nat \<Rightarrow> storage_span list \<Rightarrow> bool" where
  "consecutive b [] \<longleftrightarrow> True"
| "consecutive b (sp # sps) \<longleftrightarrow> ss_history sp = b \<and> consecutive (b + ss_count sp) sps"

lemma consecutive_lower: "consecutive b sps \<Longrightarrow> sp \<in> set sps \<Longrightarrow> b \<le> ss_history sp"
  by (induction sps arbitrary: b) (auto, fastforce)

text \<open>Consecutive spans hold exactly the rows \<open>storage_at\<close> names.\<close>

lemma spans_hold:
  "consecutive b sps \<Longrightarrow> (\<exists>sp \<in> set sps. span_holds stop sp p q) \<longleftrightarrow>
     b \<le> p \<and> p < b + span_tokens sps \<and> p < stop \<and> q = storage_at sps (p - b)"
proof (induction sps arbitrary: b)
  case (Cons sp sps)
  have ih: "(\<exists>sp \<in> set sps. span_holds stop sp p q) \<longleftrightarrow> b + ss_count sp \<le> p \<and>
      p < b + ss_count sp + span_tokens sps \<and> p < stop \<and> q = storage_at sps (p - (b + ss_count sp))"
    using Cons by simp
  have "p - b - ss_count sp = p - (b + ss_count sp)" by simp
  then show ?case using Cons.prems ih
    by (cases "p < b + ss_count sp") (auto simp: span_holds_def span_tokens_def)
qed (simp add: span_tokens_def)

definition block_span :: "nat \<Rightarrow> nat \<Rightarrow> nat \<Rightarrow> handle \<Rightarrow> storage_span" where
  "block_span bt stop p h = \<lparr>ss_history = p, ss_storage = h_slot h * bt, ss_count = min bt (stop - p), ss_handle = h\<rparr>"

lemma length_block_positions [simp]: "length (block_positions first stop bt) = ceil_div (stop - first) bt"
  by (simp add: block_positions_def)

lemma nth_block_positions: "i < ceil_div (stop - first) bt \<Longrightarrow> block_positions first stop bt ! i = first + i * bt"
  by (simp add: block_positions_def)

lemma position_before:
  assumes "0 < bt" and "i < ceil_div n bt"
  shows "i * bt < (n :: nat)"
proof (cases "n = 0")
  case False
  have "(i + 1) * bt \<le> ceil_div n bt * bt" using assms(2) by (intro mult_le_mono1) simp
  moreover have "ceil_div n bt * bt < n + bt" using ceil_div_bounds(2) [OF assms(1)] False by simp
  ultimately show ?thesis by (simp add: distrib_right)
qed (use assms in simp)

lemma block_positions_Cons:
  assumes "0 < bt" and "first < stop"
  shows "block_positions first stop bt = first # block_positions (first + bt) stop bt"
proof (rule nth_equalityI)
  have c: "ceil_div (stop - first) bt = Suc (ceil_div (stop - (first + bt)) bt)"
  proof -
    have "first + bt < stop \<Longrightarrow> ?thesis"
    proof -
      assume n: "first + bt < stop"
      have "stop - first + bt - 1 = (stop - (first + bt) + bt - 1) + bt" using n assms(1) by linarith
      then have "(stop - first + bt - 1) div bt = Suc ((stop - (first + bt) + bt - 1) div bt)"
        using assms(1) by (simp only: div_add_self2 Suc_eq_plus1)
      then show ?thesis by (simp only: ceil_div_def)
    qed
    moreover have "\<not> first + bt < stop \<Longrightarrow> ?thesis"
    proof -
      assume n: "\<not> first + bt < stop"
      have "(stop - first + bt - 1) div bt = 1" using n assms by (intro div_nat_eqI) simp_all
      moreover have "stop - (first + bt) = 0" using n by simp
      ultimately show ?thesis using assms(1) by (simp add: ceil_div_def)
    qed
    ultimately show ?thesis by blast
  qed
  then show "length (block_positions first stop bt) = length (first # block_positions (first + bt) stop bt)" by simp
  fix i assume "i < length (block_positions first stop bt)"
  then show "block_positions first stop bt ! i = (first # block_positions (first + bt) stop bt) ! i"
    using c by (cases i) (simp_all add: nth_block_positions add.assoc)
qed

lemma block_positions_Nil: "0 < bt \<Longrightarrow> stop \<le> first \<Longrightarrow> block_positions first stop bt = []"
  by (simp add: block_positions_def)

text \<open>The slots of a list of positions, filled up to \<open>stop\<close>, follow each other without a gap.\<close>

lemma block_spans_consecutive:
  assumes "0 < bt" and "length hs = length (block_positions first stop bt)"
  shows "consecutive first (map2 (block_span bt stop) (block_positions first stop bt) hs) \<and>
    span_tokens (map2 (block_span bt stop) (block_positions first stop bt) hs) = stop - first"
  using assms(2)
proof (induction hs arbitrary: first)
  case Nil
  have "stop \<le> first"
  proof (rule ccontr)
    assume "\<not> stop \<le> first"
    then show False using Nil assms(1) block_positions_Cons [of bt first stop] by simp
  qed
  then show ?case by (simp add: span_tokens_def)
next
  case (Cons h hs)
  have lt: "first < stop"
  proof (rule ccontr)
    assume "\<not> first < stop"
    then show False using Cons.prems block_positions_Nil [OF assms(1)] by simp
  qed
  note c = block_positions_Cons [OF assms(1) lt]
  have l: "length hs = length (block_positions (first + bt) stop bt)" using Cons.prems unfolding c by simp
  note ih = Cons.IH [OF l]
  show ?case
  proof (cases "stop \<le> first + bt")
    case True
    then show ?thesis using l lt unfolding c block_positions_Nil [OF assms(1) True]
      by (simp add: block_span_def span_tokens_def)
  next
    case False
    then have "min bt (stop - first) = bt" by simp
    then show ?thesis using ih False unfolding c by (simp add: block_span_def span_tokens_def)
  qed
qed

section \<open>An open transaction\<close>

definition tail_offset :: "store \<Rightarrow> repo_append \<Rightarrow> nat" where
  "tail_offset s a = ap_begin a mod cf_block_tokens (st_cfg s)"

definition tail_take :: "store \<Rightarrow> repo_append \<Rightarrow> nat" where
  "tail_take s a = (if tail_offset s a \<noteq> 0 then min (ap_count a) (cf_block_tokens (st_cfg s) - tail_offset s a) else 0)"

definition tail_spans :: "store \<Rightarrow> repo_append \<Rightarrow> storage_span list" where
  "tail_spans s a = map (\<lambda>h. \<lparr>ss_history = ap_begin a, ss_storage = h_slot h * cf_block_tokens (st_cfg s) + tail_offset s a,
     ss_count = tail_take s a, ss_handle = h\<rparr>) (lease_list (ap_tail a))"

definition fresh_positions :: "store \<Rightarrow> repo_append \<Rightarrow> nat list" where
  "fresh_positions s a = block_positions (ap_begin a + tail_take s a) (ap_end a) (cf_block_tokens (st_cfg s))"

definition append_ok :: "world \<Rightarrow> store \<Rightarrow> repo_append \<Rightarrow> bool" where
  "append_ok w s a \<longleftrightarrow> (let bt = cf_block_tokens (st_cfg s); rs = ap_reservations a; ps = fresh_positions s a in
     store_ok w s (st_total s) \<and> st_pending s \<and> ap_open a \<and> ap_begin a = st_total s \<and> 0 < ap_count a \<and>
     ap_baked a + ap_count a \<le> INT32_MAX \<and> length rs = length ps \<and>
     ap_spans a = tail_spans s a @ map2 (block_span bt (ap_end a)) ps rs \<and>
     held (st_leases s) + mset (lease_list (ap_tail a)) \<subseteq># w_leases w \<and> mset rs \<subseteq># w_writers w \<and>
     (ap_tail a = None \<longrightarrow> tail_offset s a = 0) \<and>
     (\<forall>h. ap_tail a = Some h \<longrightarrow> tail_offset s a \<noteq> 0 \<and>
        (ap_begin a - tail_offset s a, h) \<in> set (st_history s) \<and> live (w_repo w) h \<and>
        bk_tokens (st_blocks s ! h_slot h) = tail_offset s a) \<and>
     (\<forall>i < length rs. lease_record (w_repo w) (rs ! i) = \<lparr>br_handle = rs ! i, br_logical_id = h_generation (rs ! i),
        br_token_begin = ps ! i, br_token_count = bt\<rparr>) \<and>
     (\<forall>h \<in> set rs. bk_generation (st_blocks s ! h_slot h) \<noteq> h_generation h))"

text \<open>No reserved slot has so many clones of its lease that its counter is exhausted.\<close>

definition unsaturated :: "world \<Rightarrow> repo_append \<Rightarrow> bool" where
  "unsaturated w a \<longleftrightarrow> list_all (\<lambda>h. refs (control (w_repo w) (h_slot h)) \<noteq> ref_mask) (ap_reservations a)"

lemma append_okD:
  assumes "append_ok w s a"
  shows "store_ok w s (st_total s)" "st_pending s" "ap_open a" "ap_begin a = st_total s" "0 < ap_count a"
    "ap_baked a + ap_count a \<le> INT32_MAX" "length (ap_reservations a) = length (fresh_positions s a)"
    "ap_spans a = tail_spans s a @ map2 (block_span (cf_block_tokens (st_cfg s)) (ap_end a)) (fresh_positions s a) (ap_reservations a)"
    "held (st_leases s) + mset (lease_list (ap_tail a)) \<subseteq># w_leases w" "mset (ap_reservations a) \<subseteq># w_writers w"
    "ap_tail a = None \<Longrightarrow> tail_offset s a = 0"
    "ap_tail a = Some h \<Longrightarrow> tail_offset s a \<noteq> 0 \<and> (ap_begin a - tail_offset s a, h) \<in> set (st_history s) \<and>
       live (w_repo w) h \<and> bk_tokens (st_blocks s ! h_slot h) = tail_offset s a"
    "i < length (ap_reservations a) \<Longrightarrow> lease_record (w_repo w) (ap_reservations a ! i) =
       \<lparr>br_handle = ap_reservations a ! i, br_logical_id = h_generation (ap_reservations a ! i),
        br_token_begin = fresh_positions s a ! i, br_token_count = cf_block_tokens (st_cfg s)\<rparr>"
    "h \<in> set (ap_reservations a) \<Longrightarrow> bk_generation (st_blocks s ! h_slot h) \<noteq> h_generation h"
  by (insert assms [unfolded append_ok_def Let_def]) blast+

text \<open>The fresh blocks start at multiples of the block size behind the tail.\<close>

lemma fresh_position:
  assumes ok: "append_ok w s a" and i: "i < length (ap_reservations a)" and p: "p = fresh_positions s a ! i"
  shows "p mod cf_block_tokens (st_cfg s) = 0" and "ap_begin a \<le> p" and "p < ap_end a"
    and "p = ap_begin a + tail_take s a + i * cf_block_tokens (st_cfg s)"
proof -
  let ?bt = "cf_block_tokens (st_cfg s)" and ?first = "ap_begin a + tail_take s a"
  have bt: "0 < ?bt" by (rule store_okD(3) [OF append_okD(1) [OF ok]])
  have c: "i < ceil_div (ap_end a - ?first) ?bt" using i append_okD(7) [OF ok] by (simp add: fresh_positions_def)
  then show e: "p = ?first + i * ?bt" unfolding p fresh_positions_def by (rule nth_block_positions)
  then show "ap_begin a \<le> p" by simp
  have lt: "i * ?bt < ap_end a - ?first" by (rule position_before [OF bt c])
  then show "p < ap_end a" using e by simp
  have first: "?first < ap_end a" using lt by simp
  have "?first mod ?bt = 0"
  proof (cases "tail_offset s a = 0")
    case True
    then show ?thesis by (simp add: tail_take_def tail_offset_def)
  next
    case False
    have "tail_take s a = ?bt - tail_offset s a"
      using first False by (auto simp: tail_take_def ap_end_def min_def split: if_splits)
    moreover have "tail_offset s a < ?bt" using bt by (simp add: tail_offset_def)
    ultimately have "?first = (ap_begin a - tail_offset s a) + ?bt"
      using mod_less_eq_dividend [of "ap_begin a" ?bt] by (simp add: tail_offset_def)
    moreover have "(ap_begin a - tail_offset s a) mod ?bt = 0" by (simp add: tail_offset_def minus_mod_eq_mult_div)
    ultimately show ?thesis by simp
  qed
  then show "p mod ?bt = 0" using e by simp
qed

lemma spans_consecutive:
  assumes ok: "append_ok w s a"
  shows "consecutive (ap_begin a) (ap_spans a)" and "span_tokens (ap_spans a) = ap_count a"
proof -
  let ?bt = "cf_block_tokens (st_cfg s)" and ?first = "ap_begin a + tail_take s a"
  have bt: "0 < ?bt" by (rule store_okD(3) [OF append_okD(1) [OF ok]])
  have l: "length (ap_reservations a) = length (block_positions ?first (ap_end a) ?bt)"
    using append_okD(7) [OF ok] by (simp add: fresh_positions_def)
  note c = block_spans_consecutive [OF bt l]
  have le: "tail_take s a \<le> ap_count a" by (simp add: tail_take_def)
  have "consecutive (ap_begin a) (ap_spans a) \<and> span_tokens (ap_spans a) = ap_count a"
  proof (cases "ap_tail a")
    case None
    then have "tail_take s a = 0" using append_okD(11) [OF ok] by (simp add: tail_take_def)
    then show ?thesis using c None append_okD(8) [OF ok]
      by (simp add: tail_spans_def lease_list_def fresh_positions_def ap_end_def)
  next
    case (Some h)
    then show ?thesis using c append_okD(8) [OF ok] le
      by (simp add: tail_spans_def lease_list_def fresh_positions_def ap_end_def span_tokens_def)
  qed
  then show "consecutive (ap_begin a) (ap_spans a)" and "span_tokens (ap_spans a) = ap_count a" by blast+
qed

lemma store_ok_total [simp]: "store_ok w (s\<lparr>st_total := n\<rparr>) hi = store_ok w s hi"
  by (simp add: store_ok_def entry_ok_def Let_def)

lemma stored_at_total [simp]: "stored_at (s\<lparr>st_total := n\<rparr>) p q = stored_at s p q"
  by (cases "st_repo s") (simp_all add: stored_at_def)

lemma cancel_list:
  assumes "reachable w" and "mset hs \<subseteq># w_writers w"
  shows "\<exists>w'. reachable w' \<and> w_repo w' = foldl reservation_cancel (w_repo w) hs \<and> w_leases w' = w_leases w \<and>
    live (w_repo w') = live (w_repo w) \<and> frame (w_repo w) (w_repo w')"
  using assms
proof (induction hs arbitrary: w)
  case (Cons h hs)
  have h: "h \<in># w_writers w" using Cons.prems(2) by (auto dest: mset_subset_eqD)
  note c = client_cancel [OF Cons.prems(1) h]
  let ?w = "w\<lparr>w_repo := reservation_cancel (w_repo w) h, w_writers := w_writers w - {#h#}\<rparr>"
  have "mset hs \<subseteq># w_writers ?w" using Cons.prems(2) by (simp add: insert_subset_eq_iff)
  from Cons.IH [OF c(1) this] obtain w' where w': "reachable w'"
    "w_repo w' = foldl reservation_cancel (reservation_cancel (w_repo w) h) hs" "w_leases w' = w_leases w"
    "live (w_repo w') = live (reservation_cancel (w_repo w) h)" "frame (reservation_cancel (w_repo w) h) (w_repo w')"
    by auto
  show ?case
    by (intro exI [of _ w'] conjI) (use w' c(2) frame_trans [OF c(3)] in auto)
qed auto

lemma drop_list:
  assumes "reachable w" and "x + mset hs \<subseteq># w_leases w"
  shows "\<exists>w'. reachable w' \<and> w_repo w' = drop_leases (w_repo w) hs \<and> x \<subseteq># w_leases w' \<and>
    live (w_repo w') = live (w_repo w) \<and> frame (w_repo w) (w_repo w') \<and> w_writers w' = w_writers w \<and>
    (\<forall>g. lease_record (w_repo w') g = lease_record (w_repo w) g)"
  using assms
proof (induction hs arbitrary: w)
  case (Cons h hs)
  have "add_mset h (x + mset hs) \<subseteq># w_leases w" using Cons.prems(2) by simp
  then have h: "h \<in># w_leases w" and sub: "x + mset hs \<subseteq># w_leases w - {#h#}"
    by (simp_all add: insert_subset_eq_iff)
  note c = client_drop [OF Cons.prems(1) h]
  let ?w = "w\<lparr>w_repo := lease_reset (w_repo w) h, w_leases := w_leases w - {#h#}\<rparr>"
  have "x + mset hs \<subseteq># w_leases ?w" using sub by simp
  from Cons.IH [OF c(1) this] obtain w' where w': "reachable w'"
    "w_repo w' = drop_leases (lease_reset (w_repo w) h) hs" "x \<subseteq># w_leases w'"
    "live (w_repo w') = live (lease_reset (w_repo w) h)" "frame (lease_reset (w_repo w) h) (w_repo w')"
    "w_writers w' = w_writers w" "\<forall>g. lease_record (w_repo w') g = lease_record (lease_reset (w_repo w) h) g"
    by auto
  show ?case
    by (intro exI [of _ w'] conjI) (use w' c(2,4) frame_trans [OF c(3)] in \<open>auto simp: drop_leases_def\<close>)
qed (auto simp: drop_leases_def)

text \<open>The end of a transaction: the reservations left are cancelled, the tail's lease is dropped.\<close>

lemma finish_ok:
  assumes ok: "store_ok w s hi" and rs: "mset hs \<subseteq># w_writers w"
    and ls: "held (st_leases s) + mset ts \<subseteq># w_leases w"
  shows "\<exists>w'. store_ok w' (s\<lparr>st_repo := map_option (\<lambda>r. drop_leases (foldl reservation_cancel r hs) ts) (st_repo s),
      st_pending := b\<rparr>) hi \<and>
    (\<forall>p q. stored_at (s\<lparr>st_repo := map_option (\<lambda>r. drop_leases (foldl reservation_cancel r hs) ts) (st_repo s),
      st_pending := b\<rparr>) p q = stored_at s p q)"
proof -
  note d = store_okD [OF ok]
  obtain w1 where w1: "reachable w1" "w_repo w1 = foldl reservation_cancel (w_repo w) hs" "w_leases w1 = w_leases w"
    "live (w_repo w1) = live (w_repo w)" "frame (w_repo w) (w_repo w1)"
    using cancel_list [OF d(1) rs] by (elim exE conjE)
  obtain w2 where w2: "reachable w2" "w_repo w2 = drop_leases (w_repo w1) ts" "held (st_leases s) \<subseteq># w_leases w2"
    "live (w_repo w2) = live (w_repo w1)" "frame (w_repo w1) (w_repo w2)"
    using drop_list [OF w1(1), of "held (st_leases s)" ts] ls unfolding w1(3) by blast
  have e: "s\<lparr>st_repo := map_option (\<lambda>r. drop_leases (foldl reservation_cancel r hs) ts) (st_repo s), st_pending := b\<rparr> =
      s\<lparr>st_repo := Some (w_repo w2), st_pending := b\<rparr>"
    using d(2) by (simp add: w2(2) w1(2))
  have "store_ok w2 (s\<lparr>st_repo := Some (w_repo w2), st_pending := b\<rparr>) hi"
    by (rule store_ok_repo [OF ok w2(1) frame_trans [OF w1(5) w2(5)] w2(3) refl])
  moreover have "stored_at (s\<lparr>st_repo := Some (w_repo w2), st_pending := b\<rparr>) p q = stored_at s p q" for p q
    by (rule stored_at_repo [OF d(2) _ refl]) (simp add: w2(4) w1(4))
  ultimately show ?thesis unfolding e by blast
qed

lemma distinct_block_positions: "0 < bt \<Longrightarrow> distinct (block_positions first stop bt)"
  by (auto simp: block_positions_def distinct_map inj_on_def)

section \<open>Commit publishes the accepted prefix\<close>

lemma tail_committed:
  assumes ok: "append_ok w s a" and acc: "accepted \<le> ap_count a" and stop: "stop = ap_begin a + accepted"
    and s1: "s1 = (if ap_tail a = None then s else commit_tail s (hd (ap_spans a)) accepted)"
  shows "store_ok w s1 stop" and "st_cfg s1 = st_cfg s" and "st_pending s1 = st_pending s"
    and "st_leases s1 = st_leases s" and "st_history s1 = st_history s"
    and "bk_generation (st_blocks s1 ! i) = bk_generation (st_blocks s ! i)"
    and "stored_at s1 p q \<longleftrightarrow> stored_at s p q \<or> (\<exists>sp \<in> set (tail_spans s a). span_holds stop sp p q)"
proof -
  note A = append_okD [OF ok] and d = store_okD [OF append_okD(1) [OF ok]]
  have le: "st_total s \<le> stop" using A(4) stop by simp
  have "store_ok w s1 stop \<and> st_cfg s1 = st_cfg s \<and> st_pending s1 = st_pending s \<and> st_leases s1 = st_leases s \<and>
    st_history s1 = st_history s \<and> bk_generation (st_blocks s1 ! i) = bk_generation (st_blocks s ! i) \<and>
    (stored_at s1 p q \<longleftrightarrow> stored_at s p q \<or> (\<exists>sp \<in> set (tail_spans s a). span_holds stop sp p q))" for i p q
  proof (cases "ap_tail a")
    case None
    then show ?thesis using store_ok_mono [OF A(1) le] by (simp add: s1 tail_spans_def lease_list_def)
  next
    case (Some h)
    note T = A(12) [OF Some]
    let ?sp = "\<lparr>ss_history = ap_begin a, ss_storage = h_slot h * cf_block_tokens (st_cfg s) + tail_offset s a,
      ss_count = tail_take s a, ss_handle = h\<rparr>"
    have ts: "tail_spans s a = [?sp]" by (simp add: tail_spans_def lease_list_def Some)
    then have e: "s1 = commit_tail s ?sp accepted" using A(8) by (simp add: s1 Some)
    have off: "tail_offset s a \<le> ap_begin a" "tail_offset s a < cf_block_tokens (st_cfg s)"
      using d(3) by (simp_all add: tail_offset_def)
    then have k: "ap_begin a - tail_offset s a + tail_offset s a = ap_begin a" by simp
    have ent: "(ap_begin a - tail_offset s a, h) \<in> set (st_history s)" and lv: "live (w_repo w) h"
      and tk: "bk_tokens (st_blocks s ! h_slot h) = tail_offset s a" using T by blast+
    have cnt: "tail_offset s a + ss_count ?sp \<le> cf_block_tokens (st_cfg s)"
      using off T by (auto simp: tail_take_def)
    have sl: "h_slot (ss_handle ?sp) < length (st_blocks s)"
      using store_ok_entry [OF A(1) ent] d(6) by (simp add: entry_ok_def Let_def)
    have hi: "ap_begin a - tail_offset s a + tail_offset s a + min (ss_count ?sp) accepted \<le> stop"
      unfolding k stop by simp
    have sp: "ss_handle ?sp = h" "ss_history ?sp = ap_begin a - tail_offset s a + tail_offset s a"
      "ss_storage ?sp = h_slot h * cf_block_tokens (st_cfg s) + tail_offset s a" using k by simp_all
    note C = commit_tail_ok [OF A(1) ent lv sp cnt tk le hi]
    show ?thesis unfolding e ts using C(1) C(2) [of p q] commit_tail_block(2) [OF sl] k stop
      by (simp add: commit_tail_fields)
  qed
  then show "store_ok w s1 stop" "st_cfg s1 = st_cfg s" "st_pending s1 = st_pending s" "st_leases s1 = st_leases s"
    "st_history s1 = st_history s" "bk_generation (st_blocks s1 ! i) = bk_generation (st_blocks s ! i)"
    "stored_at s1 p q \<longleftrightarrow> stored_at s p q \<or> (\<exists>sp \<in> set (tail_spans s a). span_holds stop sp p q)"
    by blast+
qed

lemma fresh_pending:
  assumes ok: "append_ok w s a" and un: "unsaturated w a" and e: "e \<in> set (zip (map2 (block_span (cf_block_tokens (st_cfg s)) (ap_end a))
      (fresh_positions s a) (ap_reservations a)) (ap_reservations a))"
    and s1: "st_cfg s1 = st_cfg s" "st_history s1 = st_history s"
      "\<And>i. bk_generation (st_blocks s1 ! i) = bk_generation (st_blocks s ! i)"
  shows "pending_ok w s1 a e"
proof -
  note A = append_okD [OF ok]
  let ?bt = "cf_block_tokens (st_cfg s)"
  obtain i where i: "i < length (ap_reservations a)" and ee: "e = (block_span ?bt (ap_end a) (fresh_positions s a ! i)
      (ap_reservations a ! i), ap_reservations a ! i)"
    using e A(7) by (auto simp: in_set_conv_nth)
  let ?p = "fresh_positions s a ! i" and ?h = "ap_reservations a ! i"
  note P = fresh_position [OF ok i refl]
  have nk: "\<not> has_key ?p (st_history s)"
  proof
    assume "has_key ?p (st_history s)"
    then obtain g where g: "(?p, g) \<in> set (st_history s)" by (auto simp: has_key_def)
    have "?p < st_total s" using store_ok_entry [OF A(1) g] by (auto simp: entry_ok_def Let_def)
    then show False using P(2) A(4) by simp
  qed
  have bt: "0 < ?bt" by (rule store_okD(3) [OF A(1)])
  have "?h \<in> set (ap_reservations a)" using i by simp
  then have g: "bk_generation (st_blocks s ! h_slot ?h) \<noteq> h_generation ?h"
    and sat: "refs (control (w_repo w) (h_slot ?h)) \<noteq> ref_mask"
    using A(14) un by (auto simp: unsaturated_def list_all_iff)
  have len: "ap_baked a + (?p - ap_begin a) + min ?bt (ap_end a - ?p) \<le> INT32_MAX"
    using A(6) P(2,3) by (simp add: ap_end_def)
  have c: "0 < min ?bt (ap_end a - ?p)" using bt P(3) by simp
  show ?thesis unfolding pending_ok_def Let_def ee s1 fst_conv snd_conv
    using P(1,2) nk g sat len c A(13) [OF i] by (simp add: block_span_def)
qed

lemma fresh_distinct:
  assumes ok: "append_ok w s a"
  shows "distinct (map (\<lambda>e. ss_history (fst e)) (zip (map2 (block_span (cf_block_tokens (st_cfg s)) (ap_end a))
      (fresh_positions s a) (ap_reservations a)) (ap_reservations a)))"
proof -
  have "map (\<lambda>e. ss_history (fst e)) (zip (map2 (block_span bt stop) ps hs) hs) = ps" if "length hs = length ps" for bt stop ps hs
    using that by (intro nth_equalityI) (simp_all add: block_span_def)
  then show ?thesis using append_okD(7) [OF ok] distinct_block_positions [OF store_okD(3) [OF append_okD(1) [OF ok]]]
    by (simp add: fresh_positions_def)
qed

lemma append_commit_ok:
  assumes ok: "append_ok w s a" and acc: "accepted \<le> ap_count a" and un: "unsaturated w a"
  shows "\<exists>s' a' w'. append_commit s a accepted = (s', a', Inr ()) \<and> \<not> ap_open a' \<and> \<not> st_pending s' \<and>
    st_cfg s' = st_cfg s \<and> st_total s' = st_total s + accepted \<and> store_ok w' s' (st_total s') \<and>
    (\<forall>p q. stored_at s' p q \<longleftrightarrow> stored_at s p q \<or>
       st_total s \<le> p \<and> p < st_total s + accepted \<and> q = storage_at (ap_spans a) (p - st_total s))"
proof -
  note A = append_okD [OF ok]
  define stop where "stop = ap_begin a + accepted"
  define s1 where "s1 = (if ap_tail a = None then s else commit_tail s (hd (ap_spans a)) accepted)"
  define fresh where "fresh = map2 (block_span (cf_block_tokens (st_cfg s)) (ap_end a)) (fresh_positions s a) (ap_reservations a)"
  note T = tail_committed [OF ok acc stop_def s1_def]
  have sp: "ap_spans a = tail_spans s a @ fresh" using A(8) by (simp add: fresh_def)
  have len: "length fresh = length (ap_reservations a)" using A(7) by (simp add: fresh_def)
  have tl: "(if ap_tail a = None then ap_spans a else tl (ap_spans a)) = fresh"
    using sp by (auto simp: tail_spans_def lease_list_def split: option.splits)
  have hs: "map snd (zip fresh (ap_reservations a)) = ap_reservations a" "map fst (zip fresh (ap_reservations a)) = fresh"
    using len by simp_all
  have pend: "\<forall>e \<in> set (zip fresh (ap_reservations a)). pending_ok w s1 a e"
    unfolding fresh_def by (intro ballI fresh_pending [OF ok un]) (use T in auto)
  have dist: "distinct (map (\<lambda>e. ss_history (fst e)) (zip fresh (ap_reservations a)))"
    unfolding fresh_def by (rule fresh_distinct [OF ok])
  have wr: "mset (map snd (zip fresh (ap_reservations a))) + {#} \<subseteq># w_writers w" using A(10) unfolding hs by simp
  have ls: "held (st_leases s1) + mset (lease_list (ap_tail a)) \<subseteq># w_leases w" using A(9) unfolding T(4) .
  obtain s2 w2 where c: "commit_blocks s1 a stop (zip fresh (ap_reservations a)) [] =
      (s2, [] @ rejected stop (zip fresh (ap_reservations a)), Inr ())"
    and ok2: "store_ok w2 s2 stop" and f2: "st_cfg s2 = st_cfg s1"
    and l2: "held (st_leases s2) + mset (lease_list (ap_tail a)) \<subseteq># w_leases w2"
    and r2: "mset (rejected stop (zip fresh (ap_reservations a))) + {#} \<subseteq># w_writers w2"
    and st2: "\<forall>p q. stored_at s2 p q \<longleftrightarrow> stored_at s1 p q \<or> (\<exists>e \<in> set (zip fresh (ap_reservations a)). span_holds stop (fst e) p q)"
    using commit_blocks_ok [OF T(1) le_refl pend dist wr ls, of "[]"] by (elim exE conjE)
  let ?left = "rejected stop (zip fresh (ap_reservations a))" and ?ts = "lease_list (ap_tail a)"
  define s3 where "s3 = s2\<lparr>st_repo := map_option (\<lambda>r. drop_leases (foldl reservation_cancel r ?left) ?ts) (st_repo s2), st_pending := False\<rparr>"
  obtain w3 where ok3: "store_ok w3 s3 stop" and st3: "\<forall>p q. stored_at s3 p q = stored_at s2 p q"
    using finish_ok [OF ok2 _ l2, of ?left False] r2 unfolding s3_def by auto
  have run: "append_commit s a accepted =
      (s3\<lparr>st_total := stop\<rparr>, a\<lparr>ap_open := False, ap_reservations := [], ap_tail := None\<rparr>, Inr ())"
    unfolding append_commit_def Let_def stop_def [symmetric] s1_def [symmetric] tl
    using A(3,4) acc c by (simp add: s3_def)
  have fs: "(\<exists>e \<in> set (zip fresh (ap_reservations a)). span_holds stop (fst e) p q) \<longleftrightarrow> (\<exists>sp \<in> set fresh. span_holds stop sp p q)" for p q
  proof -
    have "fst ` set (zip fresh (ap_reservations a)) = set fresh" using hs(2) by (metis list.set_map)
    then show ?thesis by (metis (no_types, lifting) imageE image_eqI)
  qed
  have "stored_at (s3\<lparr>st_total := stop\<rparr>) p q \<longleftrightarrow> stored_at s p q \<or>
      st_total s \<le> p \<and> p < st_total s + accepted \<and> q = storage_at (ap_spans a) (p - st_total s)" for p q
  proof -
    have "stored_at (s3\<lparr>st_total := stop\<rparr>) p q \<longleftrightarrow> stored_at s p q \<or> (\<exists>sp \<in> set (ap_spans a). span_holds stop sp p q)"
      unfolding stored_at_total st3 [rule_format] st2 [rule_format] T(7) fs sp by auto
    also have "(\<exists>sp \<in> set (ap_spans a). span_holds stop sp p q) \<longleftrightarrow>
        st_total s \<le> p \<and> p < st_total s + accepted \<and> q = storage_at (ap_spans a) (p - st_total s)"
      unfolding spans_hold [OF spans_consecutive(1) [OF ok]] spans_consecutive(2) [OF ok] using acc A(4)
      by (auto simp: stop_def)
    finally show ?thesis .
  qed
  then show ?thesis using run ok3 T(2) f2 A(4)
    by (intro exI [of _ "s3\<lparr>st_total := stop\<rparr>"] exI [of _ "a\<lparr>ap_open := False, ap_reservations := [], ap_tail := None\<rparr>"] exI [of _ w3])
      (simp add: stop_def s3_def)
qed

section \<open>Reserving\<close>

lemma reserve_blocks_ok:
  assumes "reachable w" and "reserve_blocks (w_repo w) bt stop ps spans rs = (r', spans', rs', None)"
    and "rp_capacity (w_repo w) * bt \<le> INT32_MAX"
  shows "\<exists>hs w'. reachable w' \<and> w_repo w' = r' \<and> w_leases w' = w_leases w \<and> w_writers w' = w_writers w + mset hs \<and>
    rs' = rs @ hs \<and> length hs = length ps \<and> spans' = spans @ map2 (block_span bt stop) ps hs \<and>
    live r' = live (w_repo w) \<and> frame (w_repo w) r' \<and>
    (\<forall>i < length ps. lease_record r' (hs ! i) = \<lparr>br_handle = hs ! i, br_logical_id = h_generation (hs ! i),
       br_token_begin = ps ! i, br_token_count = bt\<rparr>) \<and>
    (\<forall>h \<in> set hs. h_slot h < rp_capacity (w_repo w) \<and> rp_sequence (w_repo w) < h_generation h) \<and>
    (\<forall>g. g \<in># w_leases w + w_writers w \<longrightarrow> lease_record r' g = lease_record (w_repo w) g) \<and>
    (\<forall>t. phase (control (w_repo w) t) \<noteq> Some Free \<longrightarrow> control r' t = control (w_repo w) t) \<and>
    (\<forall>h \<in> set hs. control r' (h_slot h) = state Writing 1)"
  using assms
proof (induction ps arbitrary: w spans rs)
  case Nil
  then show ?case by (intro exI [of _ "[]"] exI [of _ w]) simp
next
  case (Cons p ps)
  obtain r1 h where res: "try_reserve (w_repo w) p bt = Inr (r1, Some h)"
    and rest: "reserve_blocks r1 bt stop ps (spans @ [\<lparr>ss_history = p, ss_storage = u32 (h_slot h * bt),
        ss_count = min bt (stop - p), ss_handle = h\<rparr>]) (rs @ [h]) = (r', spans', rs', None)"
    using Cons.prems(2) by (auto split: sum.splits prod.splits option.splits)
  note c = client_reserve [OF Cons.prems(1) res]
  define w1 where "w1 = w\<lparr>w_repo := r1, w_writers := add_mset h (w_writers w)\<rparr>"
  have w1: "w_repo w1 = r1" "w_leases w1 = w_leases w" "w_writers w1 = add_mset h (w_writers w)" "reachable w1"
    using c(1) by (simp_all add: w1_def)
  have cap: "rp_capacity r1 = rp_capacity (w_repo w)" using c(3) by (simp add: frame_def)
  obtain hs w' where IH: "reachable w'" "w_repo w' = r'" "w_leases w' = w_leases w1" "w_writers w' = w_writers w1 + mset hs"
    "rs' = (rs @ [h]) @ hs" "length hs = length ps"
    "spans' = (spans @ [\<lparr>ss_history = p, ss_storage = u32 (h_slot h * bt), ss_count = min bt (stop - p), ss_handle = h\<rparr>]) @
        map2 (block_span bt stop) ps hs"
    "live r' = live r1" "frame r1 r'"
    "\<forall>i < length ps. lease_record r' (hs ! i) = \<lparr>br_handle = hs ! i, br_logical_id = h_generation (hs ! i),
       br_token_begin = ps ! i, br_token_count = bt\<rparr>"
    "\<forall>h \<in> set hs. h_slot h < rp_capacity (w_repo w) \<and> rp_sequence r1 < h_generation h"
    "\<forall>g. g \<in># w_leases w1 + w_writers w1 \<longrightarrow> lease_record r' g = lease_record r1 g"
    "\<forall>t. phase (control r1 t) \<noteq> Some Free \<longrightarrow> control r' t = control r1 t"
    "\<forall>h \<in> set hs. control r' (h_slot h) = state Writing 1"
    using Cons.IH [OF w1(4), unfolded w1(1) cap, OF rest Cons.prems(3)] unfolding w1(1) cap by blast
  have "(h_slot h + 1) * bt \<le> rp_capacity (w_repo w) * bt" using c(4) by (intro mult_le_mono1) simp
  then have "h_slot h * bt \<le> UINT32_MAX" using Cons.prems(3) by (simp add: INT32_MAX_def UINT32_MAX_def)
  then have u: "u32 (h_slot h * bt) = h_slot h * bt" by (rule u32_id)
  have "h \<in># w_leases w1 + w_writers w1" by (simp add: w1(3))
  then have rh: "lease_record r' h = \<lparr>br_handle = h, br_logical_id = h_generation h, br_token_begin = p, br_token_count = bt\<rparr>"
    using IH(12) c(7) by auto
  have old: "lease_record r' g = lease_record (w_repo w) g" if g: "g \<in># w_leases w + w_writers w" for g
  proof -
    have "lease_record r' g = lease_record r1 g" using IH(12) g by (auto simp: w1)
    also have "\<dots> = lease_record (w_repo w) g"
      using wstep_keeps_record [OF reachable_inv [OF Cons.prems(1)] wstep.reserve [OF res] g] by simp
    finally show ?thesis .
  qed
  have rec: "lease_record r' ((h # hs) ! i) = \<lparr>br_handle = (h # hs) ! i, br_logical_id = h_generation ((h # hs) ! i),
       br_token_begin = (p # ps) ! i, br_token_count = bt\<rparr>" if "i < length (p # ps)" for i
    using that IH(10) rh by (cases i) simp_all
  have sq: "rp_sequence (w_repo w) < h_generation x \<and> h_slot x < rp_capacity (w_repo w)" if "x \<in> set (h # hs)" for x
    using that IH(11) c(4,5,6) cap by (auto simp: w1(1))
  have kept: "control r' t = control (w_repo w) t" if t: "phase (control (w_repo w) t) \<noteq> Some Free" for t
  proof -
    have "t \<noteq> h_slot h" using t c(10) by auto
    then show ?thesis using IH(13) c(11) t by metis
  qed
  have "phase (control r1 (h_slot h)) \<noteq> Some Free" unfolding c(8) using phase_state(1) [of 1 Writing] by simp
  then have one: "control r' (h_slot h) = state Writing 1" using IH(13) c(8) by metis
  show ?case
  proof (intro exI [of _ "h # hs"] exI [of _ w'] conjI)
    show "w_writers w' = w_writers w + mset (h # hs)" using IH(4) by (simp add: w1(3))
    show "spans' = spans @ map2 (block_span bt stop) (p # ps) (h # hs)" using IH(7) u by (simp add: block_span_def)
    show "live r' = live (w_repo w)" using IH(8) c(2) by (simp add: w1(1))
    show "frame (w_repo w) r'" using frame_trans [OF c(3)] IH(9) by (simp add: w1(1))
  qed (use IH(1-3,5,6,14) w1(2) rec sq old kept one in auto)
qed

section \<open>A concrete store\<close>

text \<open>A store of two 32-token slots whose first slot holds 20 tokens of history.\<close>

definition ex_rows :: store where
  "ex_rows = ex_bounded\<lparr>st_cfg := ex_config\<lparr>cf_block_tokens := 32\<rparr>, st_total := 20,
     st_blocks := [block_init\<lparr>bk_tokens := 20, bk_baked := 0, bk_generation := 1, bk_logical := 1\<rparr>,
       block_init\<lparr>bk_id := 1\<rparr>]\<rparr>"

lemma ex_rows_ok: "store_ok ex_live ex_rows (st_total ex_rows)"
  by (rule store_okI [OF reachable_ex_live])
    (auto simp: ex_rows_def ex_bounded_def ex_store_def ex_config_def ex_live_def ex_repo_def ex_handle_def
      INT32_MAX_def entry_ok_def block_init_def held_def less_Suc_eq numeral_2_eq_2)

lemma ex_rows_stored: "stored_at ex_rows p q \<longleftrightarrow> p < 20 \<and> q = p"
proof -
  have "live (w_repo ex_live) ex_handle"
    by (simp add: live_def lease_ok_def ex_live_def ex_repo_def ex_handle_def control_def)
  then show ?thesis by (auto simp: stored_at_def ex_rows_def ex_bounded_def ex_handle_def block_init_def)
qed

end
