(* ===== verification/Store_Append_Runs.thy ===== *)
theory Store_Append_Runs
  imports Store_Append_Safety
begin

text \<open>
  Whole runs of the append transaction: prepare, extend, commit or cancel, and the reads around them.
  Each theorem says what a run does to the meaning \<open>stored_at\<close> of the directory.
\<close>

section \<open>Preparing\<close>

lemma live_handle:
  assumes "reachable w" and "live (w_repo w) h"
  shows "br_handle (lease_record (w_repo w) h) = h"
proof -
  have s: "h_slot h < rp_capacity (w_repo w)" and g: "sl_generation (rp_slots (w_repo w) ! h_slot h) = h_generation h"
    "h_generation h \<noteq> 0"
    using assms(2) by (auto simp: live_def lease_ok_def)
  show ?thesis using world_invD(3) [OF reachable_inv [OF assms(1)] s] g by (auto simp: slot_ok_def lease_record_def)
qed

lemma prepare_tail_ok:
  assumes ok: "store_ok w s (st_total s)" and p: "prepare_tail s (w_repo w) off n baked = (r1, Inr (tail, spans))"
    and off: "off = st_total s mod cf_block_tokens (st_cfg s)" and n: "n \<noteq> 0 \<longleftrightarrow> off \<noteq> 0"
  shows "\<exists>w1. reachable w1 \<and> w_repo w1 = r1 \<and> w_writers w1 = w_writers w \<and>
    w_leases w1 = w_leases w + mset (lease_list tail) \<and> live r1 = live (w_repo w) \<and> frame (w_repo w) r1 \<and>
    (tail = None \<longrightarrow> off = 0) \<and>
    spans = map (\<lambda>h. \<lparr>ss_history = st_total s, ss_storage = h_slot h * cf_block_tokens (st_cfg s) + off,
      ss_count = n, ss_handle = h\<rparr>) (lease_list tail) \<and>
    (\<forall>h. tail = Some h \<longrightarrow> off \<noteq> 0 \<and> (st_total s - off, h) \<in> set (st_history s) \<and> live (w_repo w) h \<and>
       bk_tokens (st_blocks s ! h_slot h) = off)"
proof (cases "n = 0")
  case True
  then have "r1 = w_repo w" "tail = None" "spans = []" using p by (simp_all add: prepare_tail_def)
  then show ?thesis using True n store_okD(1) [OF ok] by (intro exI [of _ w]) (simp add: lease_list_def)
next
  case False
  note d = store_okD [OF ok]
  obtain h where m: "map_of (st_history s) (st_total s - off) = Some h"
    using p False by (auto simp: prepare_tail_def split: option.splits)
  obtain r' l where t: "try_pin (w_repo w) h = (r', Some l)"
    using p False m by (cases "try_pin (w_repo w) h") (auto simp: prepare_tail_def split: option.splits)
  note c = client_pin [OF d(1) t]
  have e: "(st_total s - off, h) \<in> set (st_history s)" by (rule map_of_SomeD [OF m])
  have rec: "br_handle (lease_record r' h) = h" unfolding c(6) by (rule live_handle [OF d(1) c(2)])
  have r: "r1 = r'" "tail = Some h" "bk_tokens (st_blocks s ! h_slot h) = off"
    "spans = [\<lparr>ss_history = st_total s, ss_storage = u32 (bk_pos (st_blocks s ! h_slot h) + off), ss_count = n, ss_handle = h\<rparr>]"
    using p False m t c(1) rec by (auto simp: prepare_tail_def Let_def split: if_splits)
  note en = store_ok_entry [OF ok e, unfolded entry_ok_def Let_def, simplified]
  have "off \<le> cf_block_tokens (st_cfg s)" using d(3) off by (simp add: less_imp_le)
  then have "u32 (bk_pos (st_blocks s ! h_slot h) + off) = h_slot h * cf_block_tokens (st_cfg s) + off"
    using en u32_slot [OF ok, of "h_slot h" off] by simp
  then show ?thesis using c r e False n
    by (intro exI [of _ "w\<lparr>w_repo := r', w_leases := add_mset h (w_leases w)\<rparr>"]) (simp add: lease_list_def)
qed

lemma append_okI:
  assumes "store_ok w s (st_total s)" "st_pending s" "ap_open a" "ap_begin a = st_total s" "0 < ap_count a"
    "ap_baked a + ap_count a \<le> INT32_MAX" "length (ap_reservations a) = length (fresh_positions s a)"
    "ap_spans a = tail_spans s a @ map2 (block_span (cf_block_tokens (st_cfg s)) (ap_end a)) (fresh_positions s a) (ap_reservations a)"
    "held (st_leases s) + mset (lease_list (ap_tail a)) \<subseteq># w_leases w" "mset (ap_reservations a) \<subseteq># w_writers w"
    "ap_tail a = None \<longrightarrow> tail_offset s a = 0"
    and "\<And>h. ap_tail a = Some h \<Longrightarrow> tail_offset s a \<noteq> 0 \<and> (ap_begin a - tail_offset s a, h) \<in> set (st_history s) \<and>
       live (w_repo w) h \<and> bk_tokens (st_blocks s ! h_slot h) = tail_offset s a"
    and "\<And>i. i < length (ap_reservations a) \<Longrightarrow> lease_record (w_repo w) (ap_reservations a ! i) =
       \<lparr>br_handle = ap_reservations a ! i, br_logical_id = h_generation (ap_reservations a ! i),
        br_token_begin = fresh_positions s a ! i, br_token_count = cf_block_tokens (st_cfg s)\<rparr>"
    and "\<And>h. h \<in> set (ap_reservations a) \<Longrightarrow> bk_generation (st_blocks s ! h_slot h) \<noteq> h_generation h"
  shows "append_ok w s a"
  unfolding append_ok_def Let_def by (intro conjI ballI allI impI assms)

lemma prepare_run:
  assumes "prepare_repository_append s n baked = (s', Inr (Some a))" and "st_repo s = Some r"
    and "bt = cf_block_tokens (st_cfg s)" and "off = st_total s mod bt"
    and "tn = (if off \<noteq> 0 then min n (bt - off) else 0)"
  shows "\<exists>r1 tail spans r2 spans' rs. \<not> st_pending s \<and> n \<noteq> 0 \<and> baked + n \<le> INT32_MAX \<and>
    prepare_tail s r off tn baked = (r1, Inr (tail, spans)) \<and>
    reserve_blocks r1 bt (st_total s + n) (block_positions (st_total s + tn) (st_total s + n) bt) spans [] = (r2, spans', rs, None) \<and>
    s' = s\<lparr>st_repo := Some r2, st_pending := True\<rparr> \<and>
    a = \<lparr>ap_open = True, ap_begin = st_total s, ap_count = n, ap_baked = baked, ap_spans = spans',
         ap_reservations = rs, ap_tail = tail\<rparr>"
  using assms(1) unfolding prepare_repository_append_def Let_def assms(2) assms(3-5) [symmetric]
  by (auto split: if_splits prod.splits sum.splits option.splits)

text \<open>What \<open>prepare_repository_append\<close> returns is an open transaction over an unchanged history.\<close>

lemma prepare_ok:
  assumes ok: "store_ok w s (st_total s)" and p: "prepare_repository_append s n baked = (s', Inr (Some a))"
  shows "\<exists>w'. append_ok w' s' a \<and> unsaturated w' a \<and> ap_count a = n \<and> st_total s' = st_total s \<and> st_cfg s' = st_cfg s \<and>
    (\<forall>p q. stored_at s' p q = stored_at s p q)"
proof -
  define bt where "bt = cf_block_tokens (st_cfg s)"
  define off where "off = st_total s mod bt"
  define tn where "tn = (if off \<noteq> 0 then min n (bt - off) else 0)"
  note d = store_okD [OF ok]
  obtain r1 tail spans r2 spans' rs where P: "\<not> st_pending s" "n \<noteq> 0" "baked + n \<le> INT32_MAX"
    "prepare_tail s (w_repo w) off tn baked = (r1, Inr (tail, spans))"
    "reserve_blocks r1 bt (st_total s + n) (block_positions (st_total s + tn) (st_total s + n) bt) spans [] = (r2, spans', rs, None)"
    "s' = s\<lparr>st_repo := Some r2, st_pending := True\<rparr>"
    "a = \<lparr>ap_open = True, ap_begin = st_total s, ap_count = n, ap_baked = baked, ap_spans = spans',
         ap_reservations = rs, ap_tail = tail\<rparr>"
    using prepare_run [OF p d(2) bt_def off_def tn_def] by blast
  have btp: "0 < bt" using d(3) by (simp add: bt_def)
  have tn0: "tn \<noteq> 0 \<longleftrightarrow> off \<noteq> 0" using P(2) btp by (simp add: tn_def off_def)
  obtain w1 where w1: "reachable w1" "w_repo w1 = r1" "w_writers w1 = w_writers w"
    "w_leases w1 = w_leases w + mset (lease_list tail)" "live r1 = live (w_repo w)" "frame (w_repo w) r1"
    "tail = None \<longrightarrow> off = 0"
    "spans = map (\<lambda>h. \<lparr>ss_history = st_total s, ss_storage = h_slot h * bt + off, ss_count = tn, ss_handle = h\<rparr>) (lease_list tail)"
    "\<forall>h. tail = Some h \<longrightarrow> off \<noteq> 0 \<and> (st_total s - off, h) \<in> set (st_history s) \<and> live (w_repo w) h \<and>
       bk_tokens (st_blocks s ! h_slot h) = off"
    using prepare_tail_ok [OF ok P(4) off_def [unfolded bt_def] tn0] unfolding bt_def [symmetric] by blast
  have cap: "rp_capacity r1 = rp_capacity (w_repo w)" "rp_sequence (w_repo w) \<le> rp_sequence r1"
    using w1(6) by (simp_all add: frame_def)
  have cb: "rp_capacity (w_repo w1) * bt \<le> INT32_MAX" using d(5) cap by (simp add: w1(2) bt_def)
  obtain hs w2 where w2: "reachable w2" "w_repo w2 = r2" "w_leases w2 = w_leases w1" "w_writers w2 = w_writers w1 + mset hs"
    "rs = [] @ hs" "length hs = length (block_positions (st_total s + tn) (st_total s + n) bt)"
    "spans' = spans @ map2 (block_span bt (st_total s + n)) (block_positions (st_total s + tn) (st_total s + n) bt) hs"
    "live r2 = live (w_repo w1)" "frame (w_repo w1) r2"
    "\<forall>i < length (block_positions (st_total s + tn) (st_total s + n) bt). lease_record r2 (hs ! i) =
       \<lparr>br_handle = hs ! i, br_logical_id = h_generation (hs ! i),
        br_token_begin = block_positions (st_total s + tn) (st_total s + n) bt ! i, br_token_count = bt\<rparr>"
    "\<forall>h \<in> set hs. h_slot h < rp_capacity (w_repo w1) \<and> rp_sequence (w_repo w1) < h_generation h"
    "\<forall>h \<in> set hs. control r2 (h_slot h) = state Writing 1"
    using reserve_blocks_ok [OF w1(1) _ cb, unfolded w1(2), OF P(5)] unfolding w1(2) by blast
  have lv: "live r2 = live (w_repo w)" using w2(8) w1(2,5) by simp
  have fr: "frame (w_repo w) r2" using frame_trans [OF w1(6)] w2(9) w1(2) by simp
  have lease: "held (st_leases s) + mset (lease_list tail) \<subseteq># w_leases w2"
    using d(11) by (simp add: w2(3) w1(4))
  have hl: "held (st_leases s) \<subseteq># w_leases w2" using d(11) by (simp add: w2(3) w1(4) subset_mset.add_increasing2)
  have sok: "store_ok w2 s' (st_total s)"
    by (rule store_ok_repo [OF ok w2(1) _ hl]) (use fr P(6) in \<open>simp_all add: w2(2)\<close>)
  have gen: "bk_generation (st_blocks s ! h_slot h) \<noteq> h_generation h" if "h \<in> set hs" for h
  proof -
    have "h_slot h < rp_capacity (w_repo w)" "rp_sequence (w_repo w1) < h_generation h"
      using that w2(11) cap w1(2) by auto
    then show ?thesis using store_ok_generation [OF ok] cap(2) w1(2) by fastforce
  qed
  have ps: "fresh_positions s' a = block_positions (st_total s + tn) (st_total s + n) bt"
    and to: "tail_offset s' a = off" and tt: "tail_take s' a = tn"
    by (simp_all add: fresh_positions_def tail_take_def tail_offset_def ap_end_def P(6,7) tn_def off_def bt_def)
  have bt': "cf_block_tokens (st_cfg s') = bt" by (simp add: P(6) bt_def)
  have ts: "tail_spans s' a = spans" unfolding tail_spans_def tt to bt' w1(8) by (simp add: P(7))
  have "append_ok w2 s' a"
  proof (rule append_okI, unfold ps to bt')
    show "ap_spans a = tail_spans s' a @ map2 (block_span bt (ap_end a))
        (block_positions (st_total s + tn) (st_total s + n) bt) (ap_reservations a)"
      unfolding ts using w2(5,7) by (simp add: P(7) ap_end_def)
  qed (use sok P(2,3) w2(4,5,6,10) w1(7,9) lease gen lv in \<open>simp_all add: P(6,7) w2(2)\<close>)
  moreover have "unsaturated w2 a"
    using w2(5,12) phase_state(2) [of 1 Writing] by (simp add: unsaturated_def list_all_iff P(7) w2(2) ref_mask_def phase_shift_def)
  moreover have "stored_at s' p q = stored_at s p q" for p q by (rule stored_at_repo [OF d(2) lv P(6)])
  ultimately show ?thesis using P(6,7) by (intro exI [of _ w2]) simp
qed

lemma destroy_ok:
  assumes "append_ok w s a"
  shows "\<exists>w'. store_ok w' (append_destroy s a) (st_total s) \<and> (\<forall>p q. stored_at (append_destroy s a) p q = stored_at s p q)"
proof -
  note A = append_okD [OF assms]
  note d = store_okD [OF A(1)]
  obtain w1 where w1: "reachable w1" "w_repo w1 = drop_leases (w_repo w) (lease_list (ap_tail a))"
    "held (st_leases s) \<subseteq># w_leases w1" "live (w_repo w1) = live (w_repo w)" "frame (w_repo w) (w_repo w1)"
    "w_writers w1 = w_writers w"
    using drop_list [OF d(1) A(9)] by blast
  have "mset (ap_reservations a) \<subseteq># w_writers w1" using A(10) w1(6) by simp
  from cancel_list [OF w1(1) this] obtain w2 where w2: "reachable w2"
    "w_repo w2 = foldl reservation_cancel (w_repo w1) (ap_reservations a)" "w_leases w2 = w_leases w1"
    "live (w_repo w2) = live (w_repo w1)" "frame (w_repo w1) (w_repo w2)" by blast
  have e: "append_destroy s a = s\<lparr>st_repo := Some (w_repo w2), st_pending := st_pending s \<and> \<not> ap_open a\<rparr>"
    using d(2) by (simp add: append_destroy_def cancel_all_def w2(2) w1(2))
  have "store_ok w2 (append_destroy s a) (st_total s)"
    by (rule store_ok_repo [OF A(1) w2(1) frame_trans [OF w1(5) w2(5)] _ e]) (use w1(3) w2(3) in simp)
  moreover have "stored_at (append_destroy s a) p q = stored_at s p q" for p q
    by (rule stored_at_repo [OF d(2) _ e]) (simp add: w2(4) w1(4))
  ultimately show ?thesis by blast
qed

text \<open>
  Claim C4. An append transaction is atomic. Committing \<open>accepted\<close> tokens of a prepared transaction
  succeeds whatever prefix was accepted, and the new history is the old one plus exactly the accepted
  positions, each at the row \<open>storage_at\<close> the producer was given; the directory stays well formed
  and the transaction is closed. Destroying it instead leaves the history as it was.
\<close>

theorem append_atomic:
  assumes "store_ok w s (st_total s)" and "prepare_repository_append s n baked = (s1, Inr (Some a))" and "accepted \<le> n"
  shows "(\<exists>s2 a' w'. append_commit s1 a accepted = (s2, a', Inr ()) \<and> \<not> ap_open a' \<and> \<not> st_pending s2 \<and>
      st_total s2 = st_total s + accepted \<and> store_ok w' s2 (st_total s2) \<and>
      (\<forall>p q. stored_at s2 p q \<longleftrightarrow> stored_at s p q \<or>
        st_total s \<le> p \<and> p < st_total s + accepted \<and> q = storage_at (ap_spans a) (p - st_total s))) \<and>
    (\<exists>w'. store_ok w' (append_destroy s1 a) (st_total s) \<and> \<not> st_pending (append_destroy s1 a) \<and>
      st_total (append_destroy s1 a) = st_total s \<and>
      (\<forall>p q. stored_at (append_destroy s1 a) p q = stored_at s p q))"
proof -
  obtain w1 where w1: "append_ok w1 s1 a" "unsaturated w1 a" "ap_count a = n" "st_total s1 = st_total s"
    "\<forall>p q. stored_at s1 p q = stored_at s p q"
    using prepare_ok [OF assms(1,2)] by blast
  have "accepted \<le> ap_count a" using assms(3) w1(3) by simp
  note c = append_commit_ok [OF w1(1) this w1(2), unfolded w1(4) w1(5) [rule_format]]
  note e = destroy_ok [OF w1(1), unfolded w1(4) w1(5) [rule_format]]
  have "ap_open a" by (rule append_okD(3) [OF w1(1)])
  then show ?thesis using c e w1(4) by (auto simp: append_destroy_def)
qed

lemmas run_simps = prepare_repository_append_def prepare_tail_def ex_rows_def ex_bounded_def ex_store_def ex_config_def
    ex_live_def ex_repo_def ex_handle_def INT32_MAX_def UINT64_MAX_def UINT32_MAX_def ceil_div_u32_def ready_slots_def
    ring_size_def ring_init_def try_pin_def try_pin_slot_def control_def acquire_def state_refs_const ref_mask_def
    phase_shift_def set_control_def lease_record_def block_init_def block_positions_def ceil_div_def u32_def
    try_reserve_def ring_pop_def Let_def upt_rec

lemma ex_rows_prepare: "\<exists>s1 a. prepare_repository_append ex_rows 30 20 = (s1, Inr (Some a)) \<and>
    map ss_storage (ap_spans a) = [20, 32] \<and> map ss_count (ap_spans a) = [12, 18]"
  by (simp add: run_simps)

theorem append_atomic_witness:
  "\<exists>s1 a s2 a'. prepare_repository_append ex_rows 30 20 = (s1, Inr (Some a)) \<and>
     append_commit s1 a 25 = (s2, a', Inr ()) \<and> st_total s2 = 45 \<and> stored_at s2 7 7 \<and> stored_at s2 40 40 \<and>
     \<not> stored_at s2 45 45 \<and> \<not> stored_at (append_destroy s1 a) 40 40"
proof -
  obtain s1 a where p: "prepare_repository_append ex_rows 30 20 = (s1, Inr (Some a))"
    and st: "map ss_storage (ap_spans a) = [20, 32]" and ct: "map ss_count (ap_spans a) = [12, 18]"
    using ex_rows_prepare by (elim exE conjE)
  obtain x y where "ap_spans a = [x, y]" using st by (cases "ap_spans a"; cases "tl (ap_spans a)") auto
  then have at: "storage_at (ap_spans a) 20 = 40" using st ct by simp
  have t: "st_total ex_rows = 20" by (simp add: ex_rows_def)
  show ?thesis using append_atomic [OF ex_rows_ok p, of 25] at p by (auto simp: t ex_rows_stored)
qed

section \<open>Extending\<close>

definition reserved_span :: "nat \<Rightarrow> nat \<Rightarrow> nat \<Rightarrow> handle \<Rightarrow> storage_span" where
  "reserved_span bt stop p h =
     \<lparr>ss_history = p, ss_storage = u32 (h_slot h * bt), ss_count = min bt (stop - p), ss_handle = h\<rparr>"

lemma reserve_blocks_stop:
  "reserve_blocks r bt stop ps spans rs = (r', spans', rs', None) \<Longrightarrow>
   \<exists>hs. length hs = length ps \<and> rs' = rs @ hs \<and>
     (\<forall>stop2 spans2 rs2. reserve_blocks r bt stop2 ps spans2 rs2 =
        (r', spans2 @ map2 (reserved_span bt stop2) ps hs,
         rs2 @ hs, None))"
proof (induction ps arbitrary: r spans rs)
  case (Cons p ps)
  obtain r1 h where t: "try_reserve r p bt = Inr (r1, Some h)"
    using Cons.prems by (auto split: sum.splits prod.splits option.splits)
  with Cons.prems obtain hs where "length hs = length ps" "rs' = (rs @ [h]) @ hs"
    "\<forall>stop2 spans2 rs2. reserve_blocks r1 bt stop2 ps spans2 rs2 =
        (r', spans2 @ map2 (reserved_span bt stop2) ps hs,
         rs2 @ hs, None)"
    using Cons.IH [of r1 _ "rs @ [h]"] by auto
  then show ?case using t by (intro exI [of _ "h # hs"]) (simp add: reserved_span_def)
qed simp

lemma reserve_blocks_append:
  "reserve_blocks r bt stop (ps @ qs) spans rs = (case reserve_blocks r bt stop ps spans rs of
     (r', spans', rs', None) \<Rightarrow> reserve_blocks r' bt stop qs spans' rs' | x \<Rightarrow> x)"
  by (induction ps arbitrary: r spans rs) (auto split: sum.splits prod.splits option.splits)

lemma prepare_tail_count:
  "prepare_tail s r off n baked = (r1, Inr (tail, spans)) \<Longrightarrow> n \<le> n' \<Longrightarrow> n \<noteq> 0 \<Longrightarrow>
     prepare_tail s r off n' baked = (case prepare_tail s r off n baked of (r2, _) \<Rightarrow>
       if br_token_count (lease_record r1 (the tail)) < off + n' then (lease_reset r1 (the tail), Inl LogicError)
       else (r1, Inr (tail, map (\<lambda>sp. sp\<lparr>ss_count := n'\<rparr>) spans)))"
  by (auto simp: prepare_tail_def Let_def split: option.splits prod.splits if_splits)

lemma covered_end:
  assumes "0 < bt" and "F mod bt = 0" and "F < stop + bt" and "0 < stop"
  shows "((stop - 1) div bt + 1) * bt = F + ceil_div (stop - F) bt * bt"
proof -
  obtain f where f: "F = f * bt" using assms(2) by (metis mod_0_imp_dvd dvd_def mult.commute)
  show ?thesis
  proof (cases "F < stop")
    case True
    then have "stop - 1 = (stop - F - 1) + f * bt" using f by simp
    then have "(stop - 1) div bt = (stop - F - 1) div bt + f" using assms(1) by (simp only: div_mult_self1 not_gr0)
    then show ?thesis using True assms(1) f by (simp add: ceil_div_pos distrib_right)
  next
    case False
    obtain g where g: "f = Suc g" using False f assms(4) by (cases f) auto
    have "bt * g \<le> stop - 1" "stop - 1 < bt * Suc g" using False f g assms by (simp_all add: mult.commute)
    then have "(stop - 1) div bt = g" by (rule div_nat_eqI)
    then show ?thesis using False f g assms(1) by (simp add: ceil_div_def)
  qed
qed

lemma block_positions_split:
  assumes "0 < bt" and "first \<le> mid" and "mid = first + c * bt" and "c = ceil_div (stop - first) bt" and "stop \<le> stop'"
  shows "block_positions first stop' bt = block_positions first stop bt @ block_positions mid stop' bt"
proof -
  have e: "ceil_div (stop' - mid) bt = ceil_div (stop' - first) bt - c"
    using ceil_div_diff [OF assms(1), of "stop' - first" c] assms(3) by (simp add: diff_diff_left)
  have "c \<le> ceil_div (stop' - first) bt" unfolding assms(4) ceil_div_def by (rule div_le_mono) (use assms(5) in simp)
  then have "[0..<ceil_div (stop' - first) bt] = [0..<c] @ map (\<lambda>i. i + c) [0..<ceil_div (stop' - first) bt - c]"
    using upt_add_eq_append [of 0 c "ceil_div (stop' - first) bt - c"] by (simp add: map_add_upt)
  then show ?thesis unfolding block_positions_def e assms(4) [symmetric]
    by (simp add: assms(3) comp_def distrib_right add.assoc add.commute)
qed
lemma first_positions:
  assumes "0 < bt" and "off = b0 mod bt" and "F = (if off = 0 then b0 else b0 - off + bt)"
  shows "block_positions (b0 + (if off \<noteq> 0 then min n (bt - off) else 0)) (b0 + n) bt = block_positions F (b0 + n) bt"
    and "F mod bt = 0" and "F < b0 + bt" and "b0 \<le> F" and "off \<noteq> 0 \<Longrightarrow> F = b0 + (bt - off)"
proof -
  have le: "off \<le> b0" "off < bt" using assms(1,2) by simp_all
  show "b0 \<le> F" "off \<noteq> 0 \<Longrightarrow> F = b0 + (bt - off)" "F < b0 + bt" using le assms(1,3) by auto
  show "F mod bt = 0" using assms by (auto simp: minus_mod_eq_mult_div)
  show "block_positions (b0 + (if off \<noteq> 0 then min n (bt - off) else 0)) (b0 + n) bt = block_positions F (b0 + n) bt"
  proof (cases "off \<noteq> 0 \<and> n < bt - off")
    case True
    then have "block_positions (b0 + n) (b0 + n) bt = []" "block_positions F (b0 + n) bt = []"
      using le assms(3) by (auto intro: block_positions_Nil [OF assms(1)])
    moreover have "(if off \<noteq> 0 then min n (bt - off) else 0) = n" using True by simp
    ultimately show ?thesis by (simp only:)
  next
    case False
    then have "b0 + (if off \<noteq> 0 then min n (bt - off) else 0) = F" using le assms(3) by auto
    then show ?thesis by (simp only:)
  qed
qed

lemma reserve_ready:
  assumes "reachable w" and "reserve_blocks (w_repo w) bt stop ps spans rs = (r', spans', rs', None)"
  shows "ready_slots (w_repo w) = ready_slots r' + length ps"
  using assms
proof (induction ps arbitrary: w spans rs)
  case (Cons p ps)
  obtain r1 h where t: "try_reserve (w_repo w) p bt = Inr (r1, Some h)"
    using Cons.prems(2) by (auto split: sum.splits prod.splits option.splits)
  note c = client_reserve(1,9) [OF Cons.prems(1) t]
  show ?case using Cons.IH [OF c(1)] Cons.prems(2) t c(2) by simp
qed simp

lemma prepare_tail_ready: "prepare_tail s r off n baked = (r1, Inr x) \<Longrightarrow> ready_slots r1 = ready_slots r"
  by (auto simp: prepare_tail_def try_pin_def try_pin_slot_def Let_def ready_slots_def set_control_def
    split: option.splits if_splits prod.splits)

lemma extend_run:
  assumes "append_extend s a n = (s', a', Inr True)" and "ap_count a < n" and "st_repo s = Some r"
    and "bt = cf_block_tokens (st_cfg s)" and "stop = ap_begin a + n" and "mid = ((ap_end a - 1) div bt + 1) * bt"
  shows "\<exists>r' spans rs. \<not> UINT64_MAX - n < ap_begin a \<and> ap_baked a + n \<le> INT32_MAX \<and>
    \<not> (UINT64_MAX - bt) div bt < (stop - 1) div bt \<and>
    reserve_blocks r bt stop (block_positions mid stop bt) (ap_spans a) (ap_reservations a) = (r', spans, rs, None) \<and>
    s' = s\<lparr>st_repo := Some r'\<rparr> \<and>
    a' = a\<lparr>ap_spans := spans[length (ap_spans a) - 1 := (spans ! (length (ap_spans a) - 1))
        \<lparr>ss_count := min stop mid - ss_history (spans ! (length (ap_spans a) - 1))\<rparr>],
      ap_reservations := rs, ap_count := n\<rparr>"
  using assms(1,2) unfolding append_extend_def Let_def assms(3) assms(4-6) [symmetric] option.case
  by (auto split: if_splits prod.splits option.splits)

lemma min_add_diff: "min y (x + b) - x = min b (y - (x :: nat))"
  by (auto simp: min_def)

text \<open>Growing the last span turns the spans of the shorter transaction into those of the longer one.\<close>

lemma last_span:
  assumes "0 < bt" and "b0 < stop" and "stop \<le> stop'" and "length hs = ceil_div (stop - F) bt" and "b0 \<le> F"
    and "mid = F + ceil_div (stop - F) bt * bt"
    and "T = [] \<and> F = b0 \<and> T' = [] \<or> T = [t] \<and> T' = [t\<lparr>ss_count := min (stop' - b0) (F - b0)\<rparr>] \<and> ss_history t = b0 \<and>
      ss_count t = min (stop - b0) (F - b0)"
    and "X = T @ map2 (reserved_span bt stop) (block_positions F stop bt) hs" and "k = length X - 1"
  shows "X \<noteq> []" and "X[k := (X ! k)\<lparr>ss_count := min stop' mid - ss_history (X ! k)\<rparr>] =
    T' @ map2 (reserved_span bt stop') (block_positions F stop bt) hs"
proof -
  let ?c = "ceil_div (stop - F) bt" and ?M = "\<lambda>stop. map2 (reserved_span bt stop) (block_positions F stop bt) hs"
  have l: "length (block_positions F stop bt) = length hs" using assms(4) by simp
  show ne: "X \<noteq> []"
  proof (cases "T = []")
    case True
    then have "F = b0" using assms(7) by auto
    then have "0 < ?c" using assms(1,2) by (simp add: ceil_div_pos)
    then show ?thesis using assms(4,8) l by (cases hs; cases "block_positions F stop bt") auto
  qed (use assms(8) in simp)
  show "X[k := (X ! k)\<lparr>ss_count := min stop' mid - ss_history (X ! k)\<rparr>] =
    T' @ map2 (reserved_span bt stop') (block_positions F stop bt) hs"
  proof (cases "F < stop")
    case False
    then have c: "?c = 0" using assms(1) by simp
    then have "hs = []" "mid = F" using assms(4,6) by simp_all
    moreover have "T = [t]" "T' = [t\<lparr>ss_count := min (stop' - b0) (F - b0)\<rparr>]" "ss_history t = b0"
      using assms(2,7) False by auto
    ultimately show ?thesis using assms(5,8,9) by (simp add: min_diff)
  next
    case True
    then have c: "0 < ?c" using assms(1) by (simp add: ceil_div_pos)
    have T: "T = T'" using assms(3,7) True by auto
    let ?A = "map2 (reserved_span bt stop) (block_positions F stop bt) hs"
    let ?B = "map2 (reserved_span bt stop') (block_positions F stop bt) hs"
    have lA: "length ?A = ?c" "length ?B = ?c" using assms(4) l by simp_all
    have k: "k = length T + (?c - 1)" using assms(8,9) c lA by simp
    have nA: "?A ! i = reserved_span bt stop (F + i * bt) (hs ! i)" "?B ! i = reserved_span bt stop' (F + i * bt) (hs ! i)"
      if "i < ?c" for i using that assms(4) by (simp_all add: nth_block_positions)
    have Xk: "X ! k = ?A ! (?c - 1)" using assms(8) k by (simp add: nth_append)
    have mid: "mid = F + (?c - 1) * bt + bt" using assms(6) c by (cases ?c) simp_all
    have "?A[?c - 1 := (?A ! (?c - 1))\<lparr>ss_count := min stop' mid - ss_history (?A ! (?c - 1))\<rparr>] = ?B"
    proof (rule nth_equalityI)
      fix i assume "i < length (?A[?c - 1 := (?A ! (?c - 1))\<lparr>ss_count := min stop' mid - ss_history (?A ! (?c - 1))\<rparr>])"
      then have i: "i < ?c" using lA by simp
      show "?A[?c - 1 := (?A ! (?c - 1))\<lparr>ss_count := min stop' mid - ss_history (?A ! (?c - 1))\<rparr>] ! i = ?B ! i"
      proof (cases "i = ?c - 1")
        case True
        have "min stop' mid - (F + (?c - 1) * bt) = min bt (stop' - (F + (?c - 1) * bt))"
          unfolding mid by (rule min_add_diff)
        then have "(?A ! (?c - 1))\<lparr>ss_count := min stop' mid - ss_history (?A ! (?c - 1))\<rparr> = ?B ! (?c - 1)"
          unfolding nA [OF i [unfolded True]] by (simp add: reserved_span_def)
        moreover have "?c - 1 < length ?A" using i lA unfolding True by simp
        ultimately show ?thesis unfolding True by (simp only: nth_list_update_eq)
      next
        case False
        then have "(i + 1) * bt \<le> (?c - 1) * bt" using i by (intro mult_le_mono1) simp
        moreover have "(?c - 1) * bt < stop - F" by (rule position_before [OF assms(1)]) (use c in simp)
        ultimately have "F + i * bt + bt \<le> stop" by (simp add: distrib_right)
        then show ?thesis using i False lA assms(3) by (simp add: nA nth_block_positions reserved_span_def)
      qed
    qed (use lA in simp)
    then show ?thesis unfolding assms(8) Xk [unfolded assms(8)] using k T by (simp add: list_update_append)
  qed
qed

text \<open>
  Claim C9. Extending an open transaction is the same as having prepared the larger one: the same
  repository and store, the same reservations, and the same rows for the same positions, provided the
  tail's slot was reserved with full capacity.
\<close>

theorem extend_as_prepared:
  assumes ok: "store_ok w s (st_total s)" and p: "prepare_repository_append s n baked = (s1, Inr (Some a))"
    and x: "append_extend s1 a n' = (s2, a', Inr True)" and n: "n < n'"
    and full: "list_all (\<lambda>h. br_token_count (lease_record (the (st_repo s1)) h) = cf_block_tokens (st_cfg s)) (lease_list (ap_tail a))"
  shows "prepare_repository_append s n' baked = (s2, Inr (Some a'))"
proof -
  define bt where "bt = cf_block_tokens (st_cfg s)"
  define off where "off = st_total s mod bt"
  define b0 where "b0 = st_total s"
  define tn where "tn = (\<lambda>n. if off \<noteq> 0 then min n (bt - off) else 0)"
  define F where "F = (if off = 0 then b0 else b0 - off + bt)"
  note d = store_okD [OF ok]
  obtain r1 tail T r2 X hs where P: "\<not> st_pending s" "n \<noteq> 0"
    "prepare_tail s (w_repo w) off (tn n) baked = (r1, Inr (tail, T))"
    "reserve_blocks r1 bt (b0 + n) (block_positions (b0 + tn n) (b0 + n) bt) T [] = (r2, X, hs, None)"
    "s1 = s\<lparr>st_repo := Some r2, st_pending := True\<rparr>"
    "a = \<lparr>ap_open = True, ap_begin = b0, ap_count = n, ap_baked = baked, ap_spans = X, ap_reservations = hs, ap_tail = tail\<rparr>"
    using prepare_run [OF p d(2) bt_def off_def refl] unfolding tn_def b0_def by blast
  have btp: "0 < bt" using d(3) by (simp add: bt_def)
  have off': "off = b0 mod bt" by (simp add: off_def b0_def)
  note fp = first_positions [OF btp off' F_def]
  have pos: "block_positions (b0 + tn m) (b0 + m) bt = block_positions F (b0 + m) bt" for m unfolding tn_def by (rule fp(1))
  define mid where "mid = F + ceil_div (b0 + n - F) bt * bt"
  have mid': "mid = ((ap_end a - 1) div bt + 1) * bt"
    using covered_end [OF btp fp(2), of "b0 + n"] fp(3) P(2) by (simp add: P(6) ap_end_def mid_def)
  obtain r3 Y rs where X: "\<not> UINT64_MAX - n' < b0" "baked + n' \<le> INT32_MAX" "\<not> (UINT64_MAX - bt) div bt < (b0 + n' - 1) div bt"
    "reserve_blocks r2 bt (b0 + n') (block_positions mid (b0 + n') bt) X hs = (r3, Y, rs, None)"
    "s2 = s1\<lparr>st_repo := Some r3\<rparr>"
    "a' = a\<lparr>ap_spans := Y[length X - 1 := (Y ! (length X - 1))\<lparr>ss_count := min (b0 + n') mid - ss_history (Y ! (length X - 1))\<rparr>],
       ap_reservations := rs, ap_count := n'\<rparr>"
    using extend_run [OF x _ _ _ refl mid', of r2] n by (auto simp: P(5,6) bt_def)
  define T' where "T' = map (\<lambda>sp. sp\<lparr>ss_count := tn n'\<rparr>) T"
  have tn0: "tn m \<noteq> 0 \<longleftrightarrow> off \<noteq> 0" if "m \<noteq> 0" for m using that btp by (simp add: tn_def off_def)
  obtain w1 where w1: "reachable w1" "w_repo w1 = r1" "w_leases w1 = w_leases w + mset (lease_list tail)" "frame (w_repo w) r1"
    "tail = None \<longrightarrow> off = 0"
    "T = map (\<lambda>h. \<lparr>ss_history = b0, ss_storage = h_slot h * bt + off, ss_count = tn n, ss_handle = h\<rparr>) (lease_list tail)"
    "\<forall>h. tail = Some h \<longrightarrow> off \<noteq> 0"
    using prepare_tail_ok [OF ok P(3) off_def [unfolded bt_def] tn0 [OF P(2)]] unfolding bt_def [symmetric] b0_def by blast
  have cap: "rp_capacity (w_repo w1) * bt \<le> INT32_MAX" using d(5) w1(4) by (simp add: w1(2) bt_def frame_def)
  obtain h1 where h1: "length h1 = length (block_positions (b0 + tn n) (b0 + n) bt)" "hs = [] @ h1"
    "\<forall>stop2 spans2 rs2. reserve_blocks r1 bt stop2 (block_positions (b0 + tn n) (b0 + n) bt) spans2 rs2 =
       (r2, spans2 @ map2 (reserved_span bt stop2) (block_positions (b0 + tn n) (b0 + n) bt) h1, rs2 @ h1, None)"
    using reserve_blocks_stop [OF P(4)] by (elim exE conjE)
  obtain h2 where h2: "length h2 = length (block_positions mid (b0 + n') bt)" "rs = hs @ h2"
    "\<forall>stop2 spans2 rs2. reserve_blocks r2 bt stop2 (block_positions mid (b0 + n') bt) spans2 rs2 =
       (r3, spans2 @ map2 (reserved_span bt stop2) (block_positions mid (b0 + n') bt) h2, rs2 @ h2, None)"
    using reserve_blocks_stop [OF X(4)] by (elim exE conjE)
  have split: "block_positions F (b0 + n') bt = block_positions F (b0 + n) bt @ block_positions mid (b0 + n') bt"
    by (rule block_positions_split [OF btp _ mid_def refl]) (use n in \<open>simp_all add: mid_def\<close>)
  have res: "reserve_blocks r1 bt (b0 + n') (block_positions (b0 + tn n') (b0 + n') bt) T' [] =
     (r3, T' @ map2 (reserved_span bt (b0 + n')) (block_positions F (b0 + n) bt) h1 @
        map2 (reserved_span bt (b0 + n')) (block_positions mid (b0 + n') bt) h2, hs @ h2, None)"
    unfolding pos split reserve_blocks_append h1(3) [rule_format, unfolded pos] option.case prod.case
      h2(3) [rule_format] using h1(2) by simp
  have tail: "prepare_tail s (w_repo w) off (tn n') baked = (r1, Inr (tail, T'))"
  proof (cases "off = 0")
    case True
    then show ?thesis using P(3) by (simp add: tn_def prepare_tail_def T'_def)
  next
    case False
    then obtain h where h: "tail = Some h" using w1(5) by blast
    have "h \<in># w_leases w1 + w_writers w1" by (simp add: w1(3) h lease_list_def)
    then have "lease_record r2 h = lease_record r1 h"
      using reserve_blocks_ok [OF w1(1) _ cap, unfolded w1(2), OF P(4)] w1(2) by blast
    then have "br_token_count (lease_record r1 h) = bt" using full by (simp add: P(5,6) h lease_list_def bt_def)
    moreover have "off + tn n' \<le> bt"
    proof -
      have "off < bt" using btp by (simp add: off_def)
      then show ?thesis by (auto simp: tn_def min_def)
    qed
    moreover have "tn n \<le> tn n'" using n by (auto simp: tn_def min_def)
    moreover have "tn n \<noteq> 0" using tn0 [OF P(2)] False by simp
    ultimately show ?thesis using prepare_tail_count [OF P(3)] by (simp add: h P(3) T'_def)
  qed
  have ready: "\<not> ready_slots (w_repo w) < ceil_div_u32 (n' - tn n') bt"
  proof -
    have "ready_slots (w_repo w) = ready_slots r3 + ceil_div (n' - tn n') bt"
      using reserve_ready [OF w1(1), unfolded w1(2), OF res] prepare_tail_ready [OF P(3)] by simp
    moreover have "ceil_div_u32 (n' - tn n') bt = ceil_div (n' - tn n') bt"
      by (rule ceil_div_u32_ceil [OF btp]) (use X(2) in \<open>simp add: INT32_MAX_def UINT32_MAX_def\<close>)
    ultimately show ?thesis by simp
  qed
  have spans: "Y[length X - 1 := (Y ! (length X - 1))\<lparr>ss_count := min (b0 + n') mid - ss_history (Y ! (length X - 1))\<rparr>] =
     T' @ map2 (reserved_span bt (b0 + n')) (block_positions F (b0 + n) bt) h1 @
        map2 (reserved_span bt (b0 + n')) (block_positions mid (b0 + n') bt) h2"
  proof -
    have Xe: "X = T @ map2 (reserved_span bt (b0 + n)) (block_positions F (b0 + n) bt) h1"
      using h1(3) [rule_format, of "b0 + n" T "[]"] P(4) unfolding pos by simp
    have Ye: "Y = X @ map2 (reserved_span bt (b0 + n')) (block_positions mid (b0 + n') bt) h2"
      using h2(3) [rule_format, of "b0 + n'" X hs] X(4) by simp
    have len: "length h1 = ceil_div (b0 + n - F) bt" using h1(1) unfolding pos by simp
    have T: "T = [] \<and> F = b0 \<and> T' = [] \<or> T = [hd T] \<and> T' = [(hd T)\<lparr>ss_count := min (b0 + n' - b0) (F - b0)\<rparr>] \<and>
        ss_history (hd T) = b0 \<and> ss_count (hd T) = min (b0 + n - b0) (F - b0)"
    proof (cases tail)
      case None
      then show ?thesis using w1(5,6) by (simp add: lease_list_def T'_def F_def)
    next
      case (Some h)
      then have "off \<noteq> 0" using w1(7) by blast
      then show ?thesis using w1(6) fp(5) by (simp add: Some lease_list_def T'_def tn_def)
    qed
    note ls = last_span [OF btp _ _ len fp(4) mid_def T Xe refl]
    have "X \<noteq> []" by (rule ls(1)) (use P(2) n in simp_all)
    then have k: "length X - 1 < length X" by simp
    then show ?thesis using ls(2) P(2) n unfolding Ye by (simp add: nth_append list_update_append1)
  qed
  show ?thesis
    unfolding prepare_repository_append_def Let_def d(2) option.case
    unfolding bt_def [symmetric] b0_def [symmetric] off'[symmetric]
    using P(1,2) X(1-3) n tail res ready spans 
    by (simp add: tn_def X(5,6) P(5,6) h2(2) b0_def [symmetric])
qed

lemma ex_rows_extend: "\<exists>s1 a s2 a'. prepare_repository_append ex_rows 5 20 = (s1, Inr (Some a)) \<and>
    append_extend s1 a 30 = (s2, a', Inr True) \<and>
    list_all (\<lambda>h. br_token_count (lease_record (the (st_repo s1)) h) = cf_block_tokens (st_cfg ex_rows)) (lease_list (ap_tail a))"
  by (simp add: run_simps append_extend_def ap_end_def lease_list_def)

theorem extend_as_prepared_witness:
  "\<exists>s1 a s2 a'. prepare_repository_append ex_rows 5 20 = (s1, Inr (Some a)) \<and>
     append_extend s1 a 30 = (s2, a', Inr True) \<and> prepare_repository_append ex_rows 30 20 = (s2, Inr (Some a'))"
proof -
  obtain s1 a s2 a' where e: "prepare_repository_append ex_rows 5 20 = (s1, Inr (Some a))"
    "append_extend s1 a 30 = (s2, a', Inr True)"
    "list_all (\<lambda>h. br_token_count (lease_record (the (st_repo s1)) h) = cf_block_tokens (st_cfg ex_rows)) (lease_list (ap_tail a))"
    using ex_rows_extend by (elim exE conjE)
  have "prepare_repository_append ex_rows 30 20 = (s2, Inr (Some a'))"
    by (rule extend_as_prepared [OF ex_rows_ok e(1,2) _ e(3)]) simp
  then show ?thesis using e(1,2) by blast
qed

end
