(* ===== verification/Store_Reads.thy ===== *)
theory Store_Reads
  imports Store_Append_Runs
begin

text \<open>
  Reads of the bounded history and the pages an append gives back. A storage read is exact: it leases
  and returns the rows the directory holds for the interval, or fails and keeps nothing. The discarded
  page ranges of a commit are exactly the pages without a kept row.
\<close>

section \<open>The directory walk\<close>

definition span_stored :: "store \<Rightarrow> repo \<Rightarrow> storage_span \<Rightarrow> bool" where
  "span_stored s r sp \<longleftrightarrow> (\<exists>k. (k, ss_handle sp) \<in> set (st_history s) \<and> live r (ss_handle sp) \<and> k \<le> ss_history sp \<and>
     ss_history sp + ss_count sp \<le> k + bk_tokens (st_blocks s ! h_slot (ss_handle sp)) \<and>
     ss_storage sp = bk_pos (st_blocks s ! h_slot (ss_handle sp)) + (ss_history sp - k))"

lemma consecutive_append:
  "consecutive b (xs @ ys) \<longleftrightarrow> consecutive b xs \<and> consecutive (b + span_tokens xs) ys"
  by (induction xs arbitrary: b) (auto simp: span_tokens_def add.assoc)

lemma span_tokens_append [simp]: "span_tokens (xs @ ys) = span_tokens xs + span_tokens ys"
  by (simp add: span_tokens_def)

lemma entry_row:
  assumes "store_ok w s hi" and "(k, h) \<in> set (st_history s)" and "j \<le> bk_tokens (st_blocks s ! h_slot h)"
  shows "u32 (bk_pos (st_blocks s ! h_slot h) + j) = bk_pos (st_blocks s ! h_slot h) + j"
    and "k + bk_tokens (st_blocks s ! h_slot h) \<le> hi" and "0 < bk_tokens (st_blocks s ! h_slot h)"
    and "bk_tokens (st_blocks s ! h_slot h) \<le> cf_block_tokens (st_cfg s)" and "k mod cf_block_tokens (st_cfg s) = 0"
    and "bk_pos (st_blocks s ! h_slot h) = h_slot h * cf_block_tokens (st_cfg s)" and "h_slot h < rp_capacity (w_repo w)"
proof -
  note e = store_ok_entry [OF assms(1,2), unfolded entry_ok_def Let_def, simplified]
  show "k + bk_tokens (st_blocks s ! h_slot h) \<le> hi" "0 < bk_tokens (st_blocks s ! h_slot h)"
    "bk_tokens (st_blocks s ! h_slot h) \<le> cf_block_tokens (st_cfg s)" "k mod cf_block_tokens (st_cfg s) = 0"
    "bk_pos (st_blocks s ! h_slot h) = h_slot h * cf_block_tokens (st_cfg s)" "h_slot h < rp_capacity (w_repo w)"
    using e by (simp_all add: mod_eq_0_iff_dvd)
  then show "u32 (bk_pos (st_blocks s ! h_slot h) + j) = bk_pos (st_blocks s ! h_slot h) + j"
    using u32_slot [OF assms(1), of "h_slot h" j] assms(3) by simp
qed

text \<open>Whatever the walk returns is stored, leased and without a gap.\<close>

lemma read_walk_sound:
  assumes ok: "store_ok w0 s hi" and "reachable w" and "x + mset (map ss_handle spans) \<subseteq># w_leases w"
    and "set es \<subseteq> set (st_history s)" and "live (w_repo w) = live (w_repo w0)"
    and "list_all (span_stored s (w_repo w0)) spans" and "consecutive b0 spans" and "covered = b0 + span_tokens spans"
    and "covered \<le> stop" and "read_walk s es covered stop (w_repo w) spans = (r', covered', spans')"
  shows "\<exists>w'. reachable w' \<and> w_repo w' = r' \<and> x + mset (map ss_handle spans') \<subseteq># w_leases w' \<and>
    live r' = live (w_repo w0) \<and> frame (w_repo w) r' \<and> list_all (span_stored s (w_repo w0)) spans' \<and>
    consecutive b0 spans' \<and> covered' = b0 + span_tokens spans' \<and> covered' \<le> stop"
  using assms(2-)
proof (induction es arbitrary: w covered spans)
  case Nil
  then show ?case by (intro exI [of _ w]) auto
next
  case (Cons e es)
  obtain k h where e: "e = (k, h)" by (cases e)
  obtain r1 l where t: "try_pin (w_repo w) h = (r1, l)" by (cases "try_pin (w_repo w) h")
  let ?b = "st_blocks s ! h_slot h"
  have m: "(k, h) \<in> set (st_history s)" using Cons.prems(3) e by simp
  show ?case
  proof (cases "stop \<le> covered \<or> l = None")
    case True
    then have "r' = w_repo w \<or> r' = r1 \<and> l = None" "covered' = covered" "spans' = spans"
      using Cons.prems(9) t by (auto simp: e split: if_splits)
    moreover have "l = None \<Longrightarrow> r1 = w_repo w" using client_pin_none [OF Cons.prems(1)] t by simp
    ultimately show ?thesis using Cons.prems by (intro exI [of _ w]) auto
  next
    case False
    then obtain l' where l: "l = Some l'" by blast
    note c = client_pin [OF Cons.prems(1) t [unfolded l]]
    let ?w = "w\<lparr>w_repo := r1, w_leases := add_mset h (w_leases w)\<rparr>"
    show ?thesis
    proof (cases "covered < k \<or> k + bk_tokens ?b \<le> covered")
      case True
      then have r: "r' = lease_reset r1 h" "covered' = covered" "spans' = spans"
        using Cons.prems(9) False t l c(1) by (auto simp: e Let_def)
      have "h \<in># w_leases ?w" by simp
      note dr = client_drop [OF c(5) this, simplified]
      show ?thesis
        by (rule exI [of _ "w\<lparr>w_repo := lease_reset r1 h\<rparr>"])
          (use dr c(3,4) Cons.prems r frame_trans in \<open>auto\<close>)
    next
      case n: False
      let ?n = "min (k + bk_tokens ?b) stop - covered"
      define sp where "sp = \<lparr>ss_history = covered, ss_storage = u32 (bk_pos ?b + (covered - k)), ss_count = ?n, ss_handle = h\<rparr>"
      have run: "read_walk s es (covered + ?n) stop r1 (spans @ [sp]) = (r', covered', spans')"
        using Cons.prems(9) False n t l by (simp add: e Let_def sp_def)
      have "u32 (bk_pos ?b + (covered - k)) = bk_pos ?b + (covered - k)" by (rule entry_row(1) [OF ok m]) (use n in linarith)
      then have st: "span_stored s (w_repo w0) sp"
        using m n c(2) Cons.prems(4) by (auto simp: span_stored_def sp_def)
      have sub: "x + mset (map ss_handle (spans @ [sp])) \<subseteq># w_leases ?w" using Cons.prems(2) by (simp add: sp_def)
      obtain w' where w': "reachable w'" "w_repo w' = r'" "x + mset (map ss_handle spans') \<subseteq># w_leases w'"
        "live r' = live (w_repo w0)" "frame (w_repo ?w) r'" "list_all (span_stored s (w_repo w0)) spans'"
        "consecutive b0 spans'" "covered' = b0 + span_tokens spans'" "covered' \<le> stop"
        using Cons.IH [OF c(5) sub] Cons.prems(3,4,5,6,7,8) st run c(3) n
        by (auto simp: consecutive_append sp_def span_tokens_def)
      then show ?thesis using frame_trans [OF c(4)] by (intro exI [of _ w']) simp
    qed
  qed
qed

lemma read_walk_done: "stop \<le> covered \<Longrightarrow> read_walk s es covered stop r spans = (r, covered, spans)"
  by (cases es) auto

lemma try_pin_control: "try_pin r h = (r', Some l) \<Longrightarrow> t \<noteq> h_slot h \<Longrightarrow> control r' t = control r t"
  by (auto simp: try_pin_def try_pin_slot_def set_control_def control_def split: option.splits if_splits)

lemma aligned_gap: "a mod d = 0 \<Longrightarrow> b mod d = 0 \<Longrightarrow> a < b \<Longrightarrow> a + d \<le> (b :: nat)"
proof -
  assume "a mod d = 0" "b mod d = 0" "a < b"
  then obtain i j where "a = i * d" "b = j * d" by (metis mod_0_imp_dvd dvd_def mult.commute)
  then have "i < j" using \<open>a < b\<close> by simp
  then have "(i + 1) * d \<le> j * d" by (intro mult_le_mono1) simp
  then show ?thesis using \<open>a = i * d\<close> \<open>b = j * d\<close> by simp
qed

text \<open>If every position of the rest is stored and no counter is exhausted, the walk reaches the end.\<close>

lemma read_walk_complete:
  assumes ok: "store_ok w0 s hi" and "reachable w" and "sorted_wrt (<) (map fst es)" and "set es \<subseteq> set (st_history s)"
    and "live (w_repo w) = live (w_repo w0)" and "\<forall>e \<in> set es. refs (control (w_repo w) (h_slot (snd e))) \<noteq> ref_mask"
    and "\<forall>e \<in> set (tl es). covered < fst e"
    and "\<forall>k h. (k, h) \<in> set (st_history s) \<longrightarrow> covered < k + bk_tokens (st_blocks s ! h_slot h) \<longrightarrow> (k, h) \<in> set es"
    and "\<forall>p. covered \<le> p \<longrightarrow> p < stop \<longrightarrow> (\<exists>q. stored_at s p q)"
    and "read_walk s es covered stop (w_repo w) spans = (r', covered', spans')"
  shows "stop \<le> covered'"
  using assms(2-)
proof (induction es arbitrary: w covered spans)
  case Nil
  show ?case
  proof (rule ccontr)
    assume n: "\<not> stop \<le> covered'"
    have "covered' = covered" using Nil.prems(9) by simp
    then obtain q where "stored_at s covered q" using Nil.prems(8) n by fastforce
    then obtain k h where "(k, h) \<in> set (st_history s)" "covered < k + bk_tokens (st_blocks s ! h_slot h)"
      using stored_at_iff [OF store_okD(2) [OF ok]] by blast
    then show False using Nil.prems(7) by simp
  qed
next
  case (Cons e es)
  show ?case
  proof (cases "stop \<le> covered")
    case True
    then show ?thesis using Cons.prems(9) read_walk_done by simp
  next
    case lt: False
    then obtain q where "stored_at s covered q" using Cons.prems(8) by fastforce
    then obtain k h where kh: "(k, h) \<in> set (st_history s)" "k \<le> covered" "covered < k + bk_tokens (st_blocks s ! h_slot h)"
      "live (w_repo w0) h"
      using stored_at_iff [OF store_okD(2) [OF ok]] by blast
    have "(k, h) \<in> set (e # es)" using Cons.prems(7) kh by blast
    moreover have "(k, h) \<notin> set es" using Cons.prems(6) kh(2) by fastforce
    ultimately have e: "e = (k, h)" by simp
    let ?b = "st_blocks s ! h_slot h" and ?bt = "cf_block_tokens (st_cfg s)"
    have "live (w_repo w) h" "refs (control (w_repo w) (h_slot h)) \<noteq> ref_mask"
      using kh(4) Cons.prems(4,5) by (simp_all add: e)
    from pin_live [OF Cons.prems(1) this] obtain r1 where t: "try_pin (w_repo w) h = (r1, Some h)" by blast
    note c = client_pin [OF Cons.prems(1) t]
    let ?m = "min (k + bk_tokens ?b) stop" and ?w = "w\<lparr>w_repo := r1, w_leases := add_mset h (w_leases w)\<rparr>"
    have "\<exists>sp. read_walk s es (?m) stop (w_repo ?w) (spans @ [sp]) = (r', covered', spans')"
      using Cons.prems(9) t lt kh(2,3) by (simp add: e Let_def) blast
    then obtain sp where run: "read_walk s es (?m) stop (w_repo ?w) (spans @ [sp]) = (r', covered', spans')" by blast
    show ?thesis
    proof (cases "stop \<le> k + bk_tokens ?b")
      case True
      then show ?thesis using run lt read_walk_done [of stop "?m"] by simp
    next
      case False
      then have n: "?m = k + bk_tokens ?b" by simp
      note row = entry_row [OF ok kh(1) le_refl]
      have after: "k + bk_tokens ?b \<le> fst x" if x: "x \<in> set es" for x
      proof -
        have "(fst x, snd x) \<in> set (st_history s)" using Cons.prems(3) x by auto
        from entry_row(5) [OF ok this le_refl] have "fst x mod ?bt = 0" .
        moreover have "k < fst x" using Cons.prems(2) x by (auto simp: e)
        ultimately have "k + ?bt \<le> fst x" by (rule aligned_gap [OF row(5)])
        then show ?thesis using row(4) by linarith
      qed
      show ?thesis
      proof (rule Cons.IH [OF c(5)])
        show "\<forall>x \<in> set es. refs (control (w_repo ?w) (h_slot (snd x))) \<noteq> ref_mask"
        proof
          fix x assume x: "x \<in> set es"
          have "(fst x, snd x) \<in> set (st_history s)" using Cons.prems(3) x by auto
          moreover have "k < fst x" using Cons.prems(2) x by (auto simp: e)
          ultimately have "h_slot (snd x) \<noteq> h_slot h" using entry_slot_unique [OF ok kh(1)] by fastforce
          then show "refs (control (w_repo ?w) (h_slot (snd x))) \<noteq> ref_mask"
            using try_pin_control [OF t] Cons.prems(5) x by simp
        qed
        show "\<forall>x \<in> set (tl es). ?m < fst x" unfolding n
        proof
          fix x assume x: "x \<in> set (tl es)"
          then obtain y ys where es: "es = y # ys" "x \<in> set ys" by (cases es) auto
          have "fst y < fst x" using Cons.prems(2) es by (auto simp: e)
          then show "k + bk_tokens ?b < fst x" using after [of y] es(1) by simp
        qed
        show "\<forall>k' h'. (k', h') \<in> set (st_history s) \<longrightarrow> ?m < k' + bk_tokens (st_blocks s ! h_slot h') \<longrightarrow> (k', h') \<in> set es"
          unfolding n using Cons.prems(7) kh(3) by (fastforce simp: e)
        show "\<forall>p. ?m \<le> p \<longrightarrow> p < stop \<longrightarrow> (\<exists>q. stored_at s p q)"
          unfolding n by (intro allI impI, rule Cons.prems(8) [rule_format]) (use kh(3) in linarith)+
      qed (use Cons.prems(2,3,4) c(3) run in \<open>simp_all add: e\<close>)
    qed
  qed
qed

lemma directory_from_exact:
  fixes hist :: "(nat \<times> handle) list"
  assumes "sorted_wrt (<) (map fst hist)" and "es = directory_from hist b"
  shows "sorted_wrt (<) (map fst es)" and "set es \<subseteq> set hist" and "\<forall>e \<in> set (tl es). b < fst e"
    and "\<forall>e \<in> set hist. e \<notin> set es \<longrightarrow> (\<exists>e' \<in> set hist. fst e < fst e' \<and> fst e' \<le> b)"
proof -
  define A where "A = takeWhile (\<lambda>(k, _). k \<le> b) hist"
  define B where "B = dropWhile (\<lambda>(k, _). k \<le> b) hist"
  have h: "hist = A @ B" by (simp add: A_def B_def)
  have A: "fst e \<le> b" if "e \<in> set A" for e using set_takeWhileD [OF that [unfolded A_def]] by (auto split: prod.splits)
  have B: "b < fst e" if e: "e \<in> set B" for e
  proof -
    obtain y ys where ys: "B = y # ys" using e by (cases B) auto
    have "B \<noteq> []" using ys by simp
    from hd_dropWhile [OF this [unfolded B_def]] have "b < fst y" using ys by (auto simp: B_def [symmetric] split: prod.splits)
    moreover have "fst y \<le> fst e" using assms(1) e ys by (auto simp: h sorted_wrt_append)
    ultimately show ?thesis by simp
  qed
  have "sorted_wrt (<) (map fst es) \<and> set es \<subseteq> set hist \<and> (\<forall>e \<in> set (tl es). b < fst e) \<and>
    (\<forall>e \<in> set hist. e \<notin> set es \<longrightarrow> (\<exists>e' \<in> set hist. fst e < fst e' \<and> fst e' \<le> b))"
  proof (cases A rule: rev_cases)
    case Nil
    have es: "es = hist" unfolding assms(2) directory_from_def A_def [symmetric] Nil by simp
    have "\<forall>e \<in> set hist. b < fst e" using B Nil unfolding h by simp
    then have "\<forall>e \<in> set (tl hist). b < fst e" by (cases hist) simp_all
    then show ?thesis unfolding es using assms(1) by blast
  next
    case (snoc A' a)
    have es: "es = a # B" unfolding assms(2) directory_from_def A_def [symmetric] B_def [symmetric] snoc by simp
    have hi: "hist = A' @ a # B" using h snoc by simp
    have "fst a \<le> b" using A snoc by simp
    then show ?thesis unfolding es using assms(1) B unfolding hi by (auto simp: sorted_wrt_append)
  qed
  then show "sorted_wrt (<) (map fst es)" and "set es \<subseteq> set hist" and "\<forall>e \<in> set (tl es). b < fst e"
    and "\<forall>e \<in> set hist. e \<notin> set es \<longrightarrow> (\<exists>e' \<in> set hist. fst e < fst e' \<and> fst e' \<le> b)" by blast+
qed

lemma spans_stored_at:
  assumes "st_repo s = Some r" and "list_all (span_stored s r) spans" and "consecutive b spans" and "i < span_tokens spans"
  shows "stored_at s (b + i) (storage_at spans i)"
proof -
  have "\<exists>sp \<in> set spans. span_holds (b + i + 1) sp (b + i) (storage_at spans i)"
    unfolding spans_hold [OF assms(3)] using assms(4) by simp
  then obtain sp where sp: "sp \<in> set spans" "span_holds (b + i + 1) sp (b + i) (storage_at spans i)" by blast
  have "span_stored s r sp" using assms(2) sp(1) by (simp add: list_all_iff)
  then obtain k where k: "(k, ss_handle sp) \<in> set (st_history s)" "live r (ss_handle sp)" "k \<le> ss_history sp"
     "ss_history sp + ss_count sp \<le> k + bk_tokens (st_blocks s ! h_slot (ss_handle sp))"
     "ss_storage sp = bk_pos (st_blocks s ! h_slot (ss_handle sp)) + (ss_history sp - k)"
    by (auto simp: span_stored_def)
  show ?thesis unfolding stored_at_iff [OF assms(1)]
    by (rule exI [of _ k], rule exI [of _ "ss_handle sp"]) (use k sp(2) in \<open>auto simp: span_holds_def\<close>)
qed

lemma read_covers:
  assumes ok: "store_ok w s hi" and "list_all (\<lambda>e. refs (control (w_repo w) (h_slot (snd e))) \<noteq> ref_mask) (st_history s)"
    and "\<forall>p. b0 \<le> p \<longrightarrow> p < stop \<longrightarrow> (\<exists>q. stored_at s p q)"
    and "read_walk s (directory_from (st_history s) b0) b0 stop (w_repo w) [] = (r', covered, spans)"
  shows "stop \<le> covered"
proof -
  note d = store_okD [OF ok]
  define es where "es = directory_from (st_history s) b0"
  note D = directory_from_exact [OF d(10) es_def]
  have "(k, h) \<in> set es" if e: "(k, h) \<in> set (st_history s)" and b: "b0 < k + bk_tokens (st_blocks s ! h_slot h)" for k h
  proof (rule ccontr)
    assume "(k, h) \<notin> set es"
    then obtain k' h' where k': "(k', h') \<in> set (st_history s)" "k < k'" "k' \<le> b0" using D(4) e by fastforce
    have "k + cf_block_tokens (st_cfg s) \<le> k'"
      by (rule aligned_gap [OF entry_row(5) [OF ok e le_refl] entry_row(5) [OF ok k'(1) le_refl] k'(2)])
    then show False using entry_row(4) [OF ok e le_refl] k'(3) b by linarith
  qed
  moreover have "\<forall>e \<in> set es. refs (control (w_repo w) (h_slot (snd e))) \<noteq> ref_mask"
    using assms(2) D(2) by (auto simp: list_all_iff)
  ultimately show ?thesis
    using read_walk_complete [OF ok d(1) D(1,2) refl _ D(3) _ assms(3) assms(4) [folded es_def]] by blast
qed

text \<open>
  Claim C6. A storage read is exact. If it returns, its spans cover the interval without a gap and
  give every position the row the directory stores it at, and their leases are held. If it fails, some
  position of the interval is not stored, so a completely stored interval is always readable. Either
  way the history is unchanged and a failed read keeps no lease.
\<close>

theorem storage_read_exact:
  assumes ok: "store_ok w s (st_total s)" and run: "repository_storage_read s b0 n = (s', res)" and "b0 + n \<le> UINT64_MAX"
    and un: "list_all (\<lambda>e. refs (control (w_repo w) (h_slot (snd e))) \<noteq> ref_mask) (st_history s)"
  shows "(case res of Inr out \<Rightarrow> span_tokens (sr_spans out) = n \<and>
        (\<forall>i. i < n \<longrightarrow> stored_at s (b0 + i) (storage_at (sr_spans out) i))
      | Inl e \<Rightarrow> e = RuntimeError \<and> (\<exists>p. b0 \<le> p \<and> p < b0 + n \<and> (\<forall>q. \<not> stored_at s p q))) \<and>
    (\<exists>w'. store_ok w' s' (st_total s) \<and> (\<forall>p q. stored_at s' p q = stored_at s p q) \<and>
      held (st_leases s') + (case res of Inr out \<Rightarrow> mset (sr_leases out) | Inl e \<Rightarrow> {#}) \<subseteq># w_leases w')"
proof (cases "n = 0")
  case True
  then have "s' = s" "res = Inr \<lparr>sr_spans = [], sr_leases = []\<rparr>"
    using run store_okD(2) [OF ok] assms(3) by (simp_all add: repository_storage_read_def)
  then show ?thesis using True ok store_okD(11) [OF ok] by (auto simp: span_tokens_def intro!: exI [of _ w])
next
  case False
  note d = store_okD [OF ok]
  define es where "es = directory_from (st_history s) b0"
  note D = directory_from_exact [OF d(10) es_def]
  obtain r' covered spans where walk: "read_walk s es b0 (b0 + n) (w_repo w) [] = (r', covered, spans)"
    by (cases "read_walk s es b0 (b0 + n) (w_repo w) []")
  obtain w' where w': "reachable w'" "w_repo w' = r'" "held (st_leases s) + mset (map ss_handle spans) \<subseteq># w_leases w'"
    "live r' = live (w_repo w)" "frame (w_repo w) r'" "list_all (span_stored s (w_repo w)) spans" "consecutive b0 spans"
    "covered = b0 + span_tokens spans" "covered \<le> b0 + n"
    using read_walk_sound [OF ok d(1) _ D(2) refl _ _ _ _ walk, of "held (st_leases s)" b0] d(11)
    by (auto simp: span_tokens_def)
  have ng: "\<not> UINT64_MAX - n < b0" using assms(3) by linarith
  have ev: "repository_storage_read s b0 n = (if covered \<noteq> b0 + n
      then (s\<lparr>st_repo := Some (drop_leases r' (map ss_handle spans))\<rparr>, Inl RuntimeError)
      else (s\<lparr>st_repo := Some r'\<rparr>, Inr \<lparr>sr_spans = spans, sr_leases = map ss_handle spans\<rparr>))"
    unfolding repository_storage_read_def d(2) option.case es_def [symmetric] walk prod.case if_not_P [OF ng] if_not_P [OF False]
    by (rule refl)
  show ?thesis
  proof (cases "covered = b0 + n")
    case True
    then have r: "s' = s\<lparr>st_repo := Some r'\<rparr>" "res = Inr \<lparr>sr_spans = spans, sr_leases = map ss_handle spans\<rparr>"
      using run unfolding ev by simp_all
    have s': "s' = s\<lparr>st_repo := Some (w_repo w'), st_pending := st_pending s\<rparr>" using r(1) w'(2) by simp
    have "held (st_leases s) \<subseteq># w_leases w'" using w'(3) by (rule mset_subset_eq_add_left [THEN subset_mset.order_trans])
    from store_ok_repo [OF ok w'(1) _ this s'] have "store_ok w' s' (st_total s)" using w'(2,5) by simp
    moreover have "stored_at s' p q = stored_at s p q" for p q
      by (rule stored_at_repo [OF d(2) w'(4) [folded w'(2)] s'])
    moreover have "span_tokens spans = n" using True w'(8) by simp
    ultimately show ?thesis using spans_stored_at [OF d(2) w'(6,7)] w'(3) r by auto
  next
    case n: False
    have r: "s' = s\<lparr>st_repo := Some (drop_leases r' (map ss_handle spans))\<rparr>" "res = Inl RuntimeError"
      using run n unfolding ev by simp_all
    obtain w2 where w2: "reachable w2" "w_repo w2 = drop_leases r' (map ss_handle spans)" "held (st_leases s) \<subseteq># w_leases w2"
      "live (w_repo w2) = live r'" "frame r' (w_repo w2)"
      using drop_list [OF w'(1,3)] unfolding w'(2) by blast
    have s': "s' = s\<lparr>st_repo := Some (w_repo w2), st_pending := st_pending s\<rparr>" using r(1) w2(2) by simp
    have "store_ok w2 s' (st_total s)" by (rule store_ok_repo [OF ok w2(1) frame_trans [OF w'(5) w2(5)] w2(3) s'])
    moreover have "stored_at s' p q = stored_at s p q" for p q
      by (rule stored_at_repo [OF d(2) _ s']) (simp add: w2(4) w'(4))
    moreover have "\<exists>p. b0 \<le> p \<and> p < b0 + n \<and> (\<forall>q. \<not> stored_at s p q)"
      using read_covers [OF ok un _ walk [unfolded es_def]] n w'(9) by fastforce
    ultimately show ?thesis using r w2(3) by auto
  qed
qed

theorem storage_read_exact_witness:
  "\<exists>s' out s2. repository_storage_read ex_rows 5 10 = (s', Inr out) \<and> span_tokens (sr_spans out) = 10 \<and>
     storage_at (sr_spans out) 9 = 14 \<and> repository_storage_read ex_rows 15 10 = (s2, Inl RuntimeError)"
proof -
  have un: "list_all (\<lambda>e. refs (control (w_repo ex_live) (h_slot (snd e))) \<noteq> ref_mask) (st_history ex_rows)"
    by (simp add: ex_rows_def ex_bounded_def ex_live_def ex_repo_def ex_handle_def control_def state_refs_const
      ref_mask_def phase_shift_def)
  obtain s1 res1 where r1: "repository_storage_read ex_rows 5 10 = (s1, res1)" by (rule prod.exhaust)
  obtain s2 res2 where r2: "repository_storage_read ex_rows 15 10 = (s2, res2)" by (rule prod.exhaust)
  have u: "5 + 10 \<le> UINT64_MAX" "15 + 10 \<le> UINT64_MAX" by (simp_all add: UINT64_MAX_def)
  note e1 = storage_read_exact [OF ex_rows_ok r1 u(1) un, THEN conjunct1, unfolded ex_rows_stored]
  note e2 = storage_read_exact [OF ex_rows_ok r2 u(2) un, THEN conjunct1, unfolded ex_rows_stored]
  obtain out where o: "res1 = Inr out" using e1 by (cases res1) auto
  then have "span_tokens (sr_spans out) = 10" "storage_at (sr_spans out) 9 = 14" using e1 by auto
  moreover have "res2 = Inl RuntimeError" using e2 by (cases res2) (auto dest: spec [of _ "9 :: nat"])
  ultimately show ?thesis using r1 r2 o by blast
qed

section \<open>Discarded pages\<close>

definition page_in :: "(nat \<times> nat) list \<Rightarrow> nat \<Rightarrow> bool" where
  "page_in out P \<longleftrightarrow> list_ex (\<lambda>(f, c). f \<le> P \<and> P < f + c) out"

lemma page_in_append [simp]: "page_in (xs @ ys) P \<longleftrightarrow> page_in xs P \<or> page_in ys P"
  by (simp add: page_in_def)

lemma page_in_one [simp]: "page_in [(f, c)] P \<longleftrightarrow> f \<le> P \<and> P < f + c"
  by (simp add: page_in_def)

lemma push_range_pages:
  assumes "first < last_page"
  shows "page_in (push_range out first last_page) P \<longleftrightarrow> page_in out P \<or> first \<le> P \<and> P < last_page"
proof (cases out rule: rev_cases)
  case (snoc xs x)
  then show ?thesis using assms by (cases x) (auto simp: push_range_def page_in_def)
qed (use assms in \<open>simp add: push_range_def page_in_def\<close>)

lemma ceil_le_iff: "0 < d \<Longrightarrow> (x + d - 1) div d \<le> P \<longleftrightarrow> x \<le> P * (d::nat)"
proof -
  assume d: "0 < d"
  have "(x + d - 1) div d \<le> P \<longleftrightarrow> (x + d - 1) div d < P + 1" by auto
  also have "\<dots> \<longleftrightarrow> x + d - 1 < (P + 1) * d" using d by (rule div_less_iff_less_mult)
  also have "\<dots> \<longleftrightarrow> x \<le> P * d" using d by (simp add: distrib_right) linarith
  finally show ?thesis .
qed

lemma discard_walk_pages:
  assumes "0 < page"
  shows "page_in (discard_walk page ke sps out) P \<longleftrightarrow> page_in out P \<or>
    (\<exists>sp \<in> set sps. ke < ss_history sp + ss_count sp \<and> rejected_begin ke sp \<le> P * page \<and>
      P * page < ss_storage sp + ss_count sp)"
proof (induction sps arbitrary: out)
  case (Cons sp sps)
  let ?f = "(rejected_begin ke sp + page - 1) div page" and ?l = "(ss_storage sp + ss_count sp + page - 1) div page"
  have f: "?f \<le> P \<longleftrightarrow> rejected_begin ke sp \<le> P * page" by (rule ceil_le_iff [OF assms])
  have l: "P < ?l \<longleftrightarrow> P * page < ss_storage sp + ss_count sp"
    using ceil_le_iff [OF assms, of "ss_storage sp + ss_count sp" P] by (simp only: not_le [symmetric])
  have "page_in (if ss_history sp + ss_count sp \<le> ke \<or> ?l \<le> ?f then out else push_range out ?f ?l) P \<longleftrightarrow>
      page_in out P \<or> ke < ss_history sp + ss_count sp \<and> ?f \<le> P \<and> P < ?l"
    using push_range_pages [of ?f ?l out P] by auto
  then show ?case unfolding discard_walk.simps Let_def Cons.IH f l by auto
qed simp

section \<open>The slots of a transaction\<close>

text \<open>A span is the tail's or one fresh block's; its rows lie in its own slot, behind the tail's stored rows.\<close>

lemma span_cases:
  assumes ok: "append_ok w s a" and sp: "sp \<in> set (ap_spans a)"
  obtains (tail) h where "ap_tail a = Some h" "sp = \<lparr>ss_history = ap_begin a,
      ss_storage = h_slot h * cf_block_tokens (st_cfg s) + tail_offset s a, ss_count = tail_take s a, ss_handle = h\<rparr>"
  | (fresh) i where "i < length (ap_reservations a)"
      "sp = block_span (cf_block_tokens (st_cfg s)) (ap_end a) (fresh_positions s a ! i) (ap_reservations a ! i)"
  using sp unfolding append_okD(8) [OF ok] tail_spans_def
  by (auto simp: in_set_conv_nth lease_list_def append_okD(7) [OF ok] split: option.splits)

lemma reserved_not_live:
  assumes ok: "append_ok w s a" and h: "h \<in> set (ap_reservations a)" and g: "live (w_repo w) g"
  shows "h_slot g \<noteq> h_slot h"
proof -
  note A = append_okD [OF ok]
  have "h \<in># w_writers w" by (rule mset_subset_eqD [OF A(10)]) (use h in simp)
  from writer_phase(1) [OF reachable_inv [OF store_okD(1) [OF A(1)]] this] show ?thesis using g by (auto simp: live_def)
qed

lemma span_slot_rows:
  assumes ok: "append_ok w s a" and sp: "sp \<in> set (ap_spans a)"
  shows "h_slot (ss_handle sp) * cf_block_tokens (st_cfg s) \<le> ss_storage sp"
    and "ss_storage sp + ss_count sp \<le> h_slot (ss_handle sp) * cf_block_tokens (st_cfg s) + cf_block_tokens (st_cfg s)"
proof -
  let ?bt = "cf_block_tokens (st_cfg s)"
  have bt: "0 < ?bt" by (rule store_okD(3) [OF append_okD(1) [OF ok]])
  have off: "tail_offset s a < ?bt" using bt by (simp add: tail_offset_def)
  have "h_slot (ss_handle sp) * ?bt \<le> ss_storage sp \<and>
    ss_storage sp + ss_count sp \<le> h_slot (ss_handle sp) * ?bt + ?bt"
    using ok sp
  proof (cases rule: span_cases)
    case (tail h)
    have "tail_offset s a + tail_take s a \<le> ?bt" using off by (auto simp: tail_take_def min_def)
    then show ?thesis by (simp add: tail(2))
  qed (simp add: block_span_def)
  then show "h_slot (ss_handle sp) * ?bt \<le> ss_storage sp"
    "ss_storage sp + ss_count sp \<le> h_slot (ss_handle sp) * ?bt + ?bt" by blast+
qed

lemma span_slot_unique:
  assumes ok: "append_ok w s a" and "sp \<in> set (ap_spans a)" and "sp' \<in> set (ap_spans a)"
    and same: "h_slot (ss_handle sp) = h_slot (ss_handle sp')"
  shows "sp = sp'"
proof -
  note A = append_okD [OF ok]
  have d: "distinct (map h_slot (ap_reservations a))"
    by (rule writers_distinct [OF reachable_inv [OF store_okD(1) [OF A(1)]] A(10)])
  have mixed: False if "ap_tail a = Some h" "i < length (ap_reservations a)" "h_slot h = h_slot (ap_reservations a ! i)" for h i
    using reserved_not_live [OF ok nth_mem [OF that(2)]] A(12) [OF that(1)] that(3) by blast
  show ?thesis
    using ok assms(2)
  proof (cases rule: span_cases)
    case (tail h)
    show ?thesis using ok assms(3)
    proof (cases rule: span_cases)
      case (fresh i)
      then show ?thesis using mixed [OF tail(1) fresh(1)] same tail(2) by (simp add: block_span_def)
    qed (use tail in simp)
  next
    case (fresh i)
    show ?thesis using ok assms(3)
    proof (cases rule: span_cases)
      case (tail h)
      then show ?thesis using mixed [OF tail(1) fresh(1)] same fresh(2) by (simp add: block_span_def)
    next
      case f: (fresh j)
      have "i = j" using d fresh f same by (auto simp: block_span_def distinct_conv_nth)
      then show ?thesis using fresh f by simp
    qed
  qed
qed

lemma slot_rows_before:
  assumes ok: "append_ok w s a" and sp: "sp \<in> set (ap_spans a)"
    and lo: "h_slot (ss_handle sp) * cf_block_tokens (st_cfg s) \<le> q"
    and hi: "q < h_slot (ss_handle sp) * cf_block_tokens (st_cfg s) + cf_block_tokens (st_cfg s)"
  shows "(\<exists>p. stored_at s p q) \<longleftrightarrow> q < ss_storage sp"
proof -
  let ?bt = "cf_block_tokens (st_cfg s)" and ?i = "h_slot (ss_handle sp)"
  note A = append_okD [OF ok]
  note d = store_okD [OF A(1)]
  have slot: "q div ?bt = ?i" using lo hi by (intro div_nat_eqI) (simp_all add: mult.commute)
  have row: "h_slot h = ?i" if "(k, h) \<in> set (st_history s)" "k \<le> p" "p < k + bk_tokens (st_blocks s ! h_slot h)"
    "q = bk_pos (st_blocks s ! h_slot h) + (p - k)" for k h p
  proof -
    note e = entry_row [OF A(1) that(1) le_refl]
    have "q div ?bt = h_slot h" using that e by (intro div_nat_eqI) (simp_all add: mult.commute)
    then show ?thesis using slot by simp
  qed
  show ?thesis
    using ok sp
  proof (cases rule: span_cases)
    case (tail h)
    note t = A(12) [OF tail(1)]
    have e: "(ap_begin a - tail_offset s a, h) \<in> set (st_history s)" using t by blast
    note er = entry_row(6) [OF A(1) e le_refl]
    have sp': "ss_storage sp = ?i * ?bt + tail_offset s a" "h = ss_handle sp" using tail(2) by simp_all
    show ?thesis
    proof
      assume "\<exists>p. stored_at s p q"
      then obtain p k g where g: "(k, g) \<in> set (st_history s)" "k \<le> p" "p < k + bk_tokens (st_blocks s ! h_slot g)"
        "q = bk_pos (st_blocks s ! h_slot g) + (p - k)"
        using stored_at_iff [OF d(2)] by blast
      have "g = h" using entry_slot_unique [OF A(1) g(1) e] row [OF g] sp'(2) by simp
      then show "q < ss_storage sp" using g t er sp' by auto
    next
      assume "q < ss_storage sp"
      then have "stored_at s (ap_begin a - tail_offset s a + (q - ?i * ?bt)) q"
        unfolding stored_at_iff [OF d(2)]
        by (intro exI [of _ "ap_begin a - tail_offset s a"] exI [of _ h]) (use e t er sp' lo in auto)
      then show "\<exists>p. stored_at s p q" by blast
    qed
  next
    case (fresh i)
    have h: "ss_handle sp \<in> set (ap_reservations a)" "ss_storage sp = ?i * ?bt" using fresh by (simp_all add: block_span_def)
    have "\<not> stored_at s p q" for p
      using row reserved_not_live [OF ok h(1)] stored_at_iff [OF d(2)] by blast
    then show ?thesis using h(2) lo by simp
  qed
qed

lemma storage_at_span:
  assumes ok: "append_ok w s a" and i: "i < ap_count a"
  shows "storage_at (ap_spans a) i = q \<longleftrightarrow> (\<exists>sp \<in> set (ap_spans a). ss_history sp \<le> ap_begin a + i \<and>
    ap_begin a + i < ss_history sp + ss_count sp \<and> q = ss_storage sp + (ap_begin a + i - ss_history sp))"
  using spans_hold [OF spans_consecutive(1) [OF ok], of "ap_begin a + i + 1" "ap_begin a + i" q]
    spans_consecutive(2) [OF ok] i
  by (auto simp: span_holds_def)

lemma page_in_slot:
  assumes "page dvd bt" and "0 < page" and "i * bt \<le> q" and "q < i * bt + bt" and "q div page = q' div page"
  shows "i * bt \<le> q'" and "q' < i * bt + (bt :: nat)"
proof -
  obtain c where c: "bt = page * c" using assms(1) by (rule dvdE)
  have e: "q' div bt = q div bt" using assms(5) by (simp add: c div_mult2_eq)
  have "0 < bt" using assms(3,4) by linarith
  moreover have "q div bt = i" using assms(3,4) by (intro div_nat_eqI) (simp_all add: mult.commute)
  ultimately have "q' mod bt < bt" "i * bt + q' mod bt = q'"
    using e div_mult_mod_eq [of q' bt] by simp_all
  then have "i * bt \<le> q' \<and> q' < i * bt + bt" by linarith
  then show "i * bt \<le> q'" "q' < i * bt + bt" by blast+
qed

definition kept_row :: "store \<Rightarrow> repo_append \<Rightarrow> nat \<Rightarrow> nat \<Rightarrow> bool" where
  "kept_row s a accepted q \<longleftrightarrow> (\<exists>p. stored_at s p q) \<or> (\<exists>i < accepted. q = storage_at (ap_spans a) i)"

lemma rejected_rows:
  assumes ok: "append_ok w s a" and acc: "accepted \<le> ap_count a" and page: "page dvd cf_block_tokens (st_cfg s)" "0 < page"
    and sp: "sp \<in> set (ap_spans a)" "ap_begin a + accepted < ss_history sp + ss_count sp"
    and P: "rejected_begin (ap_begin a + accepted) sp \<le> P * page" "P * page < ss_storage sp + ss_count sp"
  shows "\<exists>i. accepted \<le> i \<and> i < ap_count a \<and> storage_at (ap_spans a) i div page = P"
    and "q div page = P \<Longrightarrow> \<not> kept_row s a accepted q"
proof -
  let ?bt = "cf_block_tokens (st_cfg s)" and ?q = "P * page" and ?ke = "ap_begin a + accepted" and ?i = "h_slot (ss_handle sp)"
  have lo: "ss_storage sp \<le> ?q" "?ke - ss_history sp \<le> ?q - ss_storage sp"
    using P(1) by (auto simp: rejected_begin_def split: if_splits)
  have hist: "ap_begin a \<le> ss_history sp" by (rule consecutive_lower [OF spans_consecutive(1) [OF ok] sp(1)])
  define i where "i = ss_history sp + (?q - ss_storage sp) - ap_begin a"
  have end_sp: "ss_history sp + ss_count sp \<le> ap_begin a + ap_count a"
  proof -
    have "\<exists>sp' \<in> set (ap_spans a). span_holds (ss_history sp + ss_count sp) sp' (ss_history sp + ss_count sp - 1)
        (ss_storage sp + (ss_count sp - 1))"
      by (rule bexI [OF _ sp(1)]) (use P(2) lo in \<open>auto simp: span_holds_def\<close>)
    then show ?thesis
      unfolding spans_hold [OF spans_consecutive(1) [OF ok]] spans_consecutive(2) [OF ok] using P(2) lo by linarith
  qed
  have i: "accepted \<le> i" "i < ap_count a" using lo P(2) hist end_sp by (auto simp: i_def)
  have "storage_at (ap_spans a) i = ?q"
    unfolding storage_at_span [OF ok i(2)] by (rule bexI [OF _ sp(1)]) (use lo P(2) hist in \<open>auto simp: i_def\<close>)
  then show "\<exists>i. accepted \<le> i \<and> i < ap_count a \<and> storage_at (ap_spans a) i div page = P"
    using i page(2) by (intro exI [of _ i]) simp
  show "\<not> kept_row s a accepted q" if q: "q div page = P"
  proof
    assume k: "kept_row s a accepted q"
    note rows = span_slot_rows [OF ok sp(1)]
    have qd: "?q div page = q div page" using q page(2) by simp
    note in_slot = page_in_slot [OF page _ _ qd, of ?i]
    have sl: "?i * ?bt \<le> q" "q < ?i * ?bt + ?bt" using in_slot rows lo(1) P(2) by linarith+
    have ge: "?q \<le> q" using q div_times_less_eq_dividend [of q page] by simp
    show False using k unfolding kept_row_def
    proof
      assume "\<exists>p. stored_at s p q"
      then show False using slot_rows_before [OF ok sp(1) sl] ge lo(1) by simp
    next
      assume "\<exists>j < accepted. q = storage_at (ap_spans a) j"
      then obtain j where j: "j < accepted" "q = storage_at (ap_spans a) j" by blast
      have "j < ap_count a" using j(1) acc by simp
      from storage_at_span [OF ok this, of q] j(2) obtain sp' where s: "sp' \<in> set (ap_spans a)"
        "ss_history sp' \<le> ap_begin a + j" "ap_begin a + j < ss_history sp' + ss_count sp'"
        "q = ss_storage sp' + (ap_begin a + j - ss_history sp')" by auto
      note r = span_slot_rows [OF ok s(1)]
      have "q div ?bt = h_slot (ss_handle sp')" using r s by (intro div_nat_eqI) (simp_all add: mult.commute)
      moreover have "q div ?bt = ?i" using sl by (intro div_nat_eqI) (simp_all add: mult.commute)
      ultimately have "sp' = sp" using span_slot_unique [OF ok s(1) sp(1)] by simp
      then show False using s j(1) ge lo by simp
    qed
  qed
qed

lemma rejected_page:
  assumes ok: "append_ok w s a" and acc: "accepted \<le> ap_count a" and page: "page dvd cf_block_tokens (st_cfg s)" "0 < page"
    and i: "accepted \<le> i" "i < ap_count a" and none: "\<And>q. kept_row s a accepted q \<Longrightarrow> q div page \<noteq> storage_at (ap_spans a) i div page"
  shows "\<exists>sp \<in> set (ap_spans a). ap_begin a + accepted < ss_history sp + ss_count sp \<and>
    rejected_begin (ap_begin a + accepted) sp \<le> storage_at (ap_spans a) i div page * page \<and>
    storage_at (ap_spans a) i div page * page < ss_storage sp + ss_count sp"
proof -
  let ?bt = "cf_block_tokens (st_cfg s)" and ?ke = "ap_begin a + accepted" and ?q = "storage_at (ap_spans a) i"
  let ?z = "?q div page * page"
  obtain sp where sp: "sp \<in> set (ap_spans a)" "ss_history sp \<le> ap_begin a + i"
    "ap_begin a + i < ss_history sp + ss_count sp" "?q = ss_storage sp + (ap_begin a + i - ss_history sp)"
    using iffD1 [OF storage_at_span [OF ok i(2)] refl] by (elim bexE conjE) (rule that)
  let ?i = "h_slot (ss_handle sp)"
  note rows = span_slot_rows [OF ok sp(1)]
  have le: "?z \<le> ?q" by (rule div_times_less_eq_dividend)
  have hist: "ap_begin a \<le> ss_history sp" by (rule consecutive_lower [OF spans_consecutive(1) [OF ok] sp(1)])
  have dv: "?q div page = ?z div page" using page(2) by simp
  have "?i * ?bt \<le> ?q" "?q < ?i * ?bt + ?bt" using rows sp by linarith+
  note sl = page_in_slot [OF page this dv]
  have "rejected_begin ?ke sp \<le> ?z"
  proof (rule ccontr)
    assume n: "\<not> rejected_begin ?ke sp \<le> ?z"
    have "kept_row s a accepted ?z"
    proof (cases "?z < ss_storage sp")
      case True
      then show ?thesis using slot_rows_before [OF ok sp(1) sl] by (simp add: kept_row_def)
    next
      case False
      define j where "j = ss_history sp + (?z - ss_storage sp) - ap_begin a"
      have b: "?z < ss_storage sp + (?ke - ss_history sp)" "ss_history sp < ?ke"
        using n False by (auto simp: rejected_begin_def split: if_splits)
      have j: "j < accepted" using b False hist unfolding j_def by linarith
      have jc: "j < ap_count a" using j acc by simp
      have "storage_at (ap_spans a) j = ?z"
        unfolding storage_at_span [OF ok jc]
      proof (rule bexI [OF _ sp(1)], intro conjI)
        show "ss_history sp \<le> ap_begin a + j" "ap_begin a + j < ss_history sp + ss_count sp"
          "?z = ss_storage sp + (ap_begin a + j - ss_history sp)"
          using False hist le sp(2-4) unfolding j_def by linarith+
      qed
      then show ?thesis using j unfolding kept_row_def by metis
    qed
    then show False using none [of ?z] dv by simp
  qed
  then show ?thesis using sp i le by (intro bexI [OF _ sp(1)]) linarith
qed

text \<open>
  Claim C7. The page ranges given back for an accepted prefix are exactly the pages that hold a
  rejected row and no kept row: the resident pages of the old history and of the accepted positions
  are never discarded, and no page that only rejected rows use is missed.
\<close>

theorem discarded_pages_exact:
  assumes "store_ok w s (st_total s)" and "prepare_repository_append s n baked = (s1, Inr (Some a))"
    and "discarded_page_ranges s1 a accepted page = Inr out"
  shows "page_in out P \<longleftrightarrow>
    (\<exists>i. accepted \<le> i \<and> i < n \<and> storage_at (ap_spans a) i div page = P) \<and>
    \<not> (\<exists>q. ((\<exists>p. stored_at s p q) \<or> (\<exists>i < accepted. q = storage_at (ap_spans a) i)) \<and> q div page = P)"
proof -
  obtain w1 where ok: "append_ok w1 s1 a" and n: "ap_count a = n" and st: "\<forall>p q. stored_at s1 p q = stored_at s p q"
    using prepare_ok [OF assms(1,2)] by blast
  have d: "accepted \<le> ap_count a" "page \<noteq> 0" "cf_block_tokens (st_cfg s1) mod page = 0"
    and out: "out = discard_walk page (ap_begin a + accepted) (ap_spans a) []"
    using assms(3) by (auto simp: discarded_page_ranges_def split: if_splits)
  have pg: "page dvd cf_block_tokens (st_cfg s1)" "0 < page" using d(2,3) by auto
  have "page_in out P \<longleftrightarrow> (\<exists>sp \<in> set (ap_spans a). ap_begin a + accepted < ss_history sp + ss_count sp \<and>
      rejected_begin (ap_begin a + accepted) sp \<le> P * page \<and> P * page < ss_storage sp + ss_count sp)"
    unfolding out discard_walk_pages [OF pg(2)] by (simp add: page_in_def)
  also have "\<dots> \<longleftrightarrow> (\<exists>i. accepted \<le> i \<and> i < ap_count a \<and> storage_at (ap_spans a) i div page = P) \<and>
      \<not> (\<exists>q. kept_row s1 a accepted q \<and> q div page = P)"
    using rejected_rows [OF ok d(1) pg] rejected_page [OF ok d(1) pg] by metis
  finally show ?thesis by (simp add: kept_row_def st n)
qed

lemma ex_rows_discard: "\<exists>s1 a. prepare_repository_append ex_rows 30 20 = (s1, Inr (Some a)) \<and>
    discarded_page_ranges s1 a 5 8 = Inr [(4, 3)] \<and> storage_at (ap_spans a) 4 = 24 \<and> storage_at (ap_spans a) 5 = 25"
  by (simp add: run_simps discarded_page_ranges_def push_range_def rejected_begin_def)

theorem discarded_pages_exact_witness:
  "\<exists>s1 a. prepare_repository_append ex_rows 30 20 = (s1, Inr (Some a)) \<and>
     discarded_page_ranges s1 a 5 8 = Inr [(4, 3)] \<and> \<not> page_in [(4, 3)] 3 \<and> storage_at (ap_spans a) 5 div 8 = 3"
proof -
  obtain s1 a where p: "prepare_repository_append ex_rows 30 20 = (s1, Inr (Some a))"
    and d: "discarded_page_ranges s1 a 5 8 = Inr [(4, 3)]" and at: "storage_at (ap_spans a) 4 = 24" "storage_at (ap_spans a) 5 = 25"
    using ex_rows_discard by (elim exE conjE)
  note e = discarded_pages_exact [OF ex_rows_ok p d]
  have "\<exists>q. ((\<exists>p. stored_at ex_rows p q) \<or> (\<exists>i < 5. q = storage_at (ap_spans a) i)) \<and> q div 8 = 3"
    by (intro exI [of _ 24] conjI disjI2 exI [of _ 4]) (simp_all add: at)
  then have "\<not> page_in [(4, 3)] 3" unfolding e by blast
  then show ?thesis using p d at by simp
qed

end
