(* ===== verification/Store_Rewind.thy ===== *)
theory Store_Rewind
  imports Store_Append Store_Remap
begin

text \<open>
  The rest of the bounded store (\<open>src/src/kvmem_store.cpp\<close>): checkpoints, the rewind transaction, score
  frames and the selection by handles. A \<open>RepositoryCheckpoint\<close> is shared between the store's
  registry, which holds it weakly, and its owner; the registry is a list with one entry per
  \<open>weak_ptr\<close>, \<open>None\<close> once expired, and an owner names its checkpoint by the entry. A rewind is a record
  beside the store, \<open>rw_open\<close> standing for a non-null \<open>owner_\<close>.
\<close>

section \<open>Checkpoints\<close>

record checkpoint =
  cp_position :: nat
  cp_valid :: bool
  cp_leases :: "handle list"

type_synonym registry = "checkpoint option list"

definition checkpoint_capacity :: nat where "checkpoint_capacity = 32"

definition registry_new :: registry where "registry_new = replicate checkpoint_capacity None"

text \<open>\<open>repository_checkpoint_leases\<close>: every resident or selected block is pinned, or none is.\<close>

definition checkpointed :: "block \<Rightarrow> bool" where
  "checkpointed b \<longleftrightarrow> bk_generation b \<noteq> 0 \<and> bk_tokens b \<noteq> 0 \<and> (bk_in_ws b \<or> bk_tier b = TierGPU)"

fun checkpoint_walk :: "store \<Rightarrow> block list \<Rightarrow> repo \<Rightarrow> handle list \<Rightarrow> repo \<times> handle list result" where
  "checkpoint_walk s [] r hs = (r, Inr hs)"
| "checkpoint_walk s (b # bs) r hs =
     (if \<not> checkpointed b then checkpoint_walk s bs r hs
      else case try_pin r (repository_handle s (bk_id b)) of
          (r', None) \<Rightarrow> (drop_leases r' hs, Inl RuntimeError)
        | (r', Some l) \<Rightarrow> checkpoint_walk s bs r' (hs @ [l]))"

definition repository_checkpoint_leases :: "store \<Rightarrow> store \<times> handle list result" where
  "repository_checkpoint_leases s = (case st_repo s of None \<Rightarrow> (s, Inr [])
     | Some r \<Rightarrow> (case checkpoint_walk s (st_blocks s) r [] of (r', res) \<Rightarrow> (s\<lparr>st_repo := Some r'\<rparr>, res)))"

definition checkpoint_valid :: "store \<Rightarrow> checkpoint \<Rightarrow> bool" where
  "checkpoint_valid s c \<longleftrightarrow> (case st_repo s of None \<Rightarrow> False
     | Some r \<Rightarrow> cp_valid c \<and> cp_position c \<le> st_total s \<and>
         list_all (\<lambda>h. repository_handle s (h_slot h) = h \<and> pinnable r h) (cp_leases c))"

definition drop_all :: "store \<Rightarrow> handle list \<Rightarrow> store" where
  "drop_all s hs = s\<lparr>st_repo := map_option (\<lambda>r. drop_leases r hs) (st_repo s)\<rparr>"

text \<open>\<open>protect_repository_checkpoint\<close>: keep the leases before the position, drop the others and the old ones.\<close>

definition protect_checkpoint :: "store \<Rightarrow> checkpoint \<Rightarrow> store \<times> checkpoint result" where
  "protect_checkpoint s c =
     (if \<not> checkpoint_valid s c then (s, Inl RuntimeError)
      else then_do (repository_checkpoint_leases s) (\<lambda>s1 hs.
        let kept = (\<lambda>h. case st_repo s1 of None \<Rightarrow> True
              | Some r \<Rightarrow> br_token_begin (lease_record r h) < cp_position c) in
        (drop_all s1 (filter (\<lambda>h. \<not> kept h) hs @ cp_leases c), Inr (c\<lparr>cp_leases := filter kept hs\<rparr>))))"

fun free_entry :: "registry \<Rightarrow> nat option" where
  "free_entry [] = None"
| "free_entry (e # es) = (if e = None then Some 0 else map_option Suc (free_entry es))"

definition repository_checkpoint :: "store \<Rightarrow> registry \<Rightarrow> nat \<Rightarrow> bool \<Rightarrow> store \<times> registry \<times> nat result" where
  "repository_checkpoint s reg position pin_ws =
     (if st_repo s = None \<or> st_total s < position then (s, reg, Inl InvalidArgument)
      else case free_entry reg of None \<Rightarrow> (s, reg, Inl RuntimeError)
      | Some i \<Rightarrow> let c = \<lparr>cp_position = position, cp_valid = True, cp_leases = []\<rparr> in
          (case (if pin_ws then protect_checkpoint s c else (s, Inr c)) of
             (s', Inl e) \<Rightarrow> (s', reg, Inl e)
           | (s', Inr c') \<Rightarrow> (s', reg[i := Some c'], Inr i)))"

text \<open>The owner releases its checkpoint: the object dies with its leases.\<close>

definition release_checkpoint :: "store \<Rightarrow> registry \<Rightarrow> nat \<Rightarrow> store \<times> registry" where
  "release_checkpoint s reg i = (case reg ! i of None \<Rightarrow> (s, reg)
     | Some c \<Rightarrow> (drop_all s (cp_leases c), reg[i := None]))"

section \<open>Rewinding\<close>

record rewind =
  rw_open :: bool
  rw_position :: nat
  rw_captured :: storage_read
  rw_discarded :: "storage_span list"

definition rewind_keep :: "block \<Rightarrow> nat \<Rightarrow> nat" where
  "rewind_keep b position = (if bk_history b < position then u32 (position - bk_history b) else 0)"

text \<open>The directory walk; an error drops the lease in hand and the captured ones.\<close>

fun rewind_walk :: "store \<Rightarrow> nat \<Rightarrow> (nat \<times> handle) list \<Rightarrow> repo \<Rightarrow> storage_read \<Rightarrow> storage_span list \<Rightarrow>
    repo \<times> (storage_read \<times> storage_span list) result" where
  "rewind_walk s position [] r cap disc = (r, Inr (cap, disc))"
| "rewind_walk s position ((_, h) # es) r cap disc = (case try_pin r h of
       (r', None) \<Rightarrow> rewind_walk s position es r' cap disc
     | (r', Some l) \<Rightarrow>
         let b = st_blocks s ! h_slot h; n = rewind_keep b position in
         if bk_in_flight b \<or> bk_tokens b < n then (drop_leases (lease_reset r' l) (sr_leases cap), Inl LogicError)
         else if n = bk_tokens b then rewind_walk s position es (lease_reset r' l) cap disc
         else rewind_walk s position es r'
           \<lparr>sr_spans = sr_spans cap @ [\<lparr>ss_history = bk_history b, ss_storage = bk_pos b, ss_count = bk_tokens b, ss_handle = h\<rparr>],
            sr_leases = sr_leases cap @ [l]\<rparr>
           (disc @ [\<lparr>ss_history = bk_history b + n, ss_storage = u32 (bk_pos b + n), ss_count = bk_tokens b - n, ss_handle = h\<rparr>]))"

definition missing_tail :: "repo \<Rightarrow> nat \<Rightarrow> (nat \<times> handle) list \<Rightarrow> bool" where
  "missing_tail r boundary es = (case es of [] \<Rightarrow> True | (k, h) # _ \<Rightarrow> k \<noteq> boundary \<or> \<not> pinnable r h)"

definition prepare_repository_rewind :: "store \<Rightarrow> nat \<Rightarrow> store \<times> rewind result" where
  "prepare_repository_rewind s position =
     (if st_pending s then (s, Inl LogicError)
      else case st_repo s of None \<Rightarrow> (s, Inl InvalidArgument)
      | Some r \<Rightarrow>
        if st_total s < position then (s, Inl InvalidArgument)
        else let bt = cf_block_tokens (st_cfg s); boundary = position - position mod bt;
                 es = dropWhile (\<lambda>(k, _). k < boundary) (st_history s);
                 none = \<lparr>sr_spans = [], sr_leases = []\<rparr> in
          if position \<noteq> st_total s \<and> position mod bt \<noteq> 0 \<and> missing_tail r boundary es then (s, Inl RuntimeError)
          else case (if position = st_total s then (r, Inr (none, [])) else rewind_walk s position es r none []) of
              (r', Inl e) \<Rightarrow> (s\<lparr>st_repo := Some r'\<rparr>, Inl e)
            | (r', Inr (cap, disc)) \<Rightarrow>
                (s\<lparr>st_repo := Some r', st_pending := True\<rparr>,
                 Inr \<lparr>rw_open = True, rw_position = position, rw_captured = cap, rw_discarded = disc\<rparr>))"

text \<open>Checkpoints behind the position die for good; their leases are dropped.\<close>

definition invalidated :: "nat \<Rightarrow> checkpoint option \<Rightarrow> checkpoint option" where
  "invalidated position c = (case c of None \<Rightarrow> None
     | Some c \<Rightarrow> Some (if position < cp_position c then c\<lparr>cp_valid := False, cp_leases := []\<rparr> else c))"

definition invalidated_leases :: "nat \<Rightarrow> registry \<Rightarrow> handle list" where
  "invalidated_leases position reg = concat (map (\<lambda>c. case c of None \<Rightarrow> []
     | Some c \<Rightarrow> if position < cp_position c then cp_leases c else []) reg)"

definition rewind_span :: "nat \<Rightarrow> store \<Rightarrow> storage_span \<Rightarrow> store" where
  "rewind_span position s sp =
     (let i = h_slot (ss_handle sp); b = st_blocks s ! i in
      if bk_history b < position
      then (set_block s i (\<lambda>b. b\<lparr>bk_tokens := u32 (position - bk_history b), bk_dirty := True, bk_ssd_clean := False\<rparr>))
        \<lparr>st_flags := (st_flags s)[bk_id b := rewritten_flags (st_flags s ! bk_id b)]\<rparr>
      else let s1 = s\<lparr>st_repo := map_option (\<lambda>r. fst (retire r (ss_handle sp))) (st_repo s)\<rparr>;
               s2 = reset_resident s1 (bk_id b) in
        (set_block s2 i (\<lambda>b. b\<lparr>bk_tokens := 0, bk_in_ws := False\<rparr>))\<lparr>st_flags := (st_flags s2)[bk_id b := 0]\<rparr>)"

text \<open>The directory nodes from the position on return to their slots.\<close>

definition cut_history :: "nat \<Rightarrow> store \<Rightarrow> store" where
  "cut_history position s =
     s\<lparr>st_history := takeWhile (\<lambda>(k, _). k < position) (st_history s),
       st_nodes := foldl (\<lambda>ns e. ns[h_slot (snd e) := True]) (st_nodes s)
         (dropWhile (\<lambda>(k, _). k < position) (st_history s))\<rparr>"

definition rewind_commit :: "store \<Rightarrow> registry \<Rightarrow> rewind \<Rightarrow> store \<times> registry \<times> rewind \<times> unit result" where
  "rewind_commit s reg rw =
     (if \<not> rw_open rw then (s, reg, rw, Inl LogicError)
      else let position = rw_position rw;
               s1 = drop_all s (invalidated_leases position reg);
               s2 = foldl (rewind_span position) s1 (sr_spans (rw_captured rw)) in
        ((cut_history position s2)\<lparr>st_total := position, st_scores_pending := False, st_score_handles := [],
           st_pending := False\<rparr>,
         map (invalidated position) reg, rw\<lparr>rw_open := False\<rparr>, Inr ()))"

definition rewind_destroy :: "store \<Rightarrow> rewind \<Rightarrow> store" where
  "rewind_destroy s rw = drop_all (s\<lparr>st_pending := (st_pending s \<and> \<not> rw_open rw)\<rparr>) (sr_leases (rw_captured rw))"

section \<open>Score frames\<close>

record index_stamp =
  ix_handle :: handle
  ix_tokens :: nat

record score_frame =
  sf_leases :: "handle list"
  sf_enabled :: "bool list"

text \<open>The blocks of the frame in history order, or \<open>None\<close> for a block the index does not cover.\<close>

fun frame_blocks :: "store \<Rightarrow> index_stamp list \<Rightarrow> nat \<Rightarrow> handle list \<Rightarrow> nat list \<Rightarrow> nat list option" where
  "frame_blocks s ix boundary [] out = Some out"
| "frame_blocks s ix boundary (h # hs) out =
     (let b = st_blocks s ! h_slot h; expected = u32 (min (bk_tokens b) (boundary - bk_history b)) in
      if boundary \<le> bk_history b then frame_blocks s ix boundary hs out
      else if expected = 0 \<or> ix_handle (ix ! h_slot h) \<noteq> h \<or> ix_tokens (ix ! h_slot h) \<noteq> expected then None
      else frame_blocks s ix boundary hs (out @ [h_slot h]))"

definition mask_bands :: "store \<Rightarrow> nat list \<Rightarrow> nat list" where
  "mask_bands s ids =
     (let n = length ids; sink = min (cf_sink_blocks (st_cfg s)) n; recent = min (cf_recent_blocks (st_cfg s)) n in
      if budget_blocks s < n \<and> sink + recent < n then take (n - recent - sink) (drop sink ids) else ids)"

definition repository_score_frame :: "store \<Rightarrow> index_stamp list \<Rightarrow> nat \<Rightarrow> bool \<Rightarrow> store \<times> score_frame result" where
  "repository_score_frame s ix boundary mask_kept =
     (if st_repo s = None \<or> length ix \<noteq> block_count s then (s, Inl InvalidArgument)
      else case repository_read_leases s of (s1, hs) \<Rightarrow>
        (case frame_blocks s ix boundary hs [] of None \<Rightarrow> (drop_all s1 hs, Inl RuntimeError)
         | Some ids \<Rightarrow> (s1, Inr \<lparr>sf_leases = hs,
             sf_enabled = map (\<lambda>i. i \<in> set (if mask_kept then mask_bands s ids else ids)) [0..<block_count s]\<rparr>)))"

text \<open>Every handle of a frame is pinned once before any score changes; the leases live until the return.\<close>

fun frame_pins :: "store \<Rightarrow> error \<Rightarrow> handle list \<Rightarrow> repo \<Rightarrow> handle list \<Rightarrow> repo \<times> handle list result" where
  "frame_pins s dup [] r hs = (r, Inr hs)"
| "frame_pins s dup (h # rest) r hs =
     (if h \<noteq> repository_handle s (h_slot h) \<or> h_generation h = 0 then (drop_leases r hs, Inl RuntimeError)
      else case try_pin r h of
          (r', None) \<Rightarrow> (drop_leases r' hs, Inl RuntimeError)
        | (r', Some l) \<Rightarrow>
            if h_slot h \<in> h_slot ` set hs then (drop_leases (lease_reset r' l) hs, Inl dup)
            else frame_pins s dup rest r' (hs @ [l]))"

definition with_frame :: "store \<Rightarrow> error \<Rightarrow> handle list \<Rightarrow> real list \<Rightarrow> (store \<Rightarrow> store) \<Rightarrow> store \<times> unit result" where
  "with_frame s dup handles scores body =
     (if st_pending s then (s, Inl LogicError)
      else case st_repo s of None \<Rightarrow> (s, Inl InvalidArgument)
      | Some r \<Rightarrow>
        if length handles \<noteq> length scores then (s, Inl InvalidArgument)
        else case frame_pins s dup handles r [] of
            (r', Inl e) \<Rightarrow> (s\<lparr>st_repo := Some r'\<rparr>, Inl e)
          | (r', Inr hs) \<Rightarrow> (drop_all (body (s\<lparr>st_repo := Some r'\<rparr>)) hs, Inr ()))"

definition set_repository_retrieval_scores :: "store \<Rightarrow> handle list \<Rightarrow> real list \<Rightarrow> store \<times> unit result" where
  "set_repository_retrieval_scores s handles scores = with_frame s RuntimeError handles scores (\<lambda>s1.
     (foldl (\<lambda>s (h, v). set_block s (h_slot h) (\<lambda>b. b\<lparr>bk_attn := v, bk_retrieval := v\<rparr>))
        (s1\<lparr>st_blocks := map (\<lambda>b. b\<lparr>bk_attn := 0, bk_retrieval := 0\<rparr>) (st_blocks s1)\<rparr>) (zip handles scores))
     \<lparr>st_score_handles := handles, st_scores_pending := True\<rparr>)"

definition accumulate_repository_attn :: "store \<Rightarrow> handle list \<Rightarrow> real list \<Rightarrow> store \<times> unit result" where
  "accumulate_repository_attn s handles scores = with_frame s InvalidArgument handles scores (\<lambda>s1.
     foldl (\<lambda>s (h, v). set_block s (h_slot h)
         (\<lambda>b. b\<lparr>bk_profile := bk_profile b + v, bk_attn := bk_profile b + v\<rparr>)) s1 (zip handles scores))"

section \<open>Selection by handles\<close>

definition pin_repository_pressure_selection :: "store \<Rightarrow> nat list \<Rightarrow> (nat \<times> real option) list \<Rightarrow>
    store \<times> (nat list \<times> handle list) result" where
  "pin_repository_pressure_selection s mandatory action =
     (if st_repo s = None then (s, Inl LogicError)
      else case repository_read_leases s of (s1, hs) \<Rightarrow>
        (case pick_prefill_pressure_from s1 (map h_slot hs) mandatory action of
           Inl e \<Rightarrow> (drop_all s1 hs, Inl e)
         | Inr blocks \<Rightarrow> (drop_all s1 (filter (\<lambda>h. h_slot h \<notin> set blocks) hs),
             Inr (blocks, filter (\<lambda>h. h_slot h \<in> set blocks) hs))))"

fun selection_pins :: "store \<Rightarrow> handle list \<Rightarrow> repo \<Rightarrow> handle list \<Rightarrow> repo \<times> handle list result" where
  "selection_pins s [] r hs = (r, Inr hs)"
| "selection_pins s (h # rest) r hs =
     (if h \<noteq> repository_handle s (h_slot h) \<or> h_generation h = 0 then (drop_leases r hs, Inl RuntimeError)
      else case try_pin r h of
          (r', None) \<Rightarrow> (drop_leases r' hs, Inl RuntimeError)
        | (r', Some l) \<Rightarrow> selection_pins s rest r' (hs @ [l]))"

text \<open>A new resident lease replaces, and so drops, the one the slot had.\<close>

definition install_lease :: "store \<Rightarrow> handle \<Rightarrow> store" where
  "install_lease s h = (let s1 = drop_lease s (st_leases s ! h_slot h) in
     s1\<lparr>st_leases := (st_leases s1)[h_slot h := Some h]\<rparr>)"

definition set_repository_selection :: "store \<Rightarrow> handle list \<Rightarrow> bool \<Rightarrow> store \<times> window_plan result" where
  "set_repository_selection s handles force =
     (if st_pending s then (s, Inl LogicError)
      else case st_repo s of None \<Rightarrow> (s, Inl LogicError)
      | Some r \<Rightarrow> (case selection_pins s handles r [] of
          (r', Inl e) \<Rightarrow> (s\<lparr>st_repo := Some r'\<rparr>, Inl e)
        | (r', Inr next_hs) \<Rightarrow> (case repository_checkpoint_leases (s\<lparr>st_repo := Some r'\<rparr>) of
            (s1, Inl e) \<Rightarrow> (drop_all s1 next_hs, Inl e)
          | (s1, Inr old) \<Rightarrow> (case set_selection_impl s1 (map h_slot next_hs) force of
              (s2, Inl e) \<Rightarrow> (drop_all s2 (next_hs @ old), Inl e)
            | (s2, Inr plan) \<Rightarrow>
                let s3 = foldl (\<lambda>s i. if \<not> bk_in_ws (st_blocks s ! i) \<and> bk_tier (st_blocks s ! i) \<noteq> TierGPU
                           then reset_resident s (bk_id (st_blocks s ! i)) else s) s2 [0..<block_count s2]
                in (foldl install_lease s3 next_hs, Inr (plan\<lparr>wp_previous := old\<rparr>))))))"

end
