(* ===== verification/Store_Rewind_Safety.thy ===== *)
theory Store_Rewind_Safety
  imports Store_Reads Store_Rewind
begin

text \<open>
  The rewind transaction cuts the history exactly at its position: nothing before it moves, everything
  behind it is gone from the directory, the pages it gives back are the rows that disappear, and the
  checkpoints behind it can never be used again.
\<close>

section \<open>Retiring a slot the store holds a lease of\<close>

lemma control_release:
  assumes "t \<noteq> h_slot h"
  shows "control (lease_reset r h) t = control r t"
  using assms by (simp add: lease_reset_def set_control_def control_def)

lemma client_retire:
  assumes w: "reachable w"
  shows "\<exists>w'. reachable w' \<and> w_repo w' = fst (retire (w_repo w) h) \<and> w_leases w' = w_leases w \<and> w_writers w' = w_writers w \<and>
    frame (w_repo w) (w_repo w') \<and> (\<forall>g. live (w_repo w') g \<longrightarrow> live (w_repo w) g) \<and>
    (\<forall>g. g \<noteq> h \<longrightarrow> live (w_repo w) g \<longrightarrow> live (w_repo w') g)"
proof (cases "try_pin (w_repo w) h")
  case (Pair r1 l)
  show ?thesis
  proof (cases l)
    case None
    then have "fst (retire (w_repo w) h) = w_repo w" using client_pin_none [OF w] Pair by (simp add: retire_def)
    then show ?thesis using w by (intro exI [of _ w]) simp
  next
    case (Some l')
    note c = client_pin [OF w Pair [unfolded Some]]
    let ?w1 = "w\<lparr>w_repo := r1, w_leases := add_mset h (w_leases w)\<rparr>"
    obtain r2 b where rc: "retire_cas r1 (h_slot h) = (r2, b)" by (cases "retire_cas r1 (h_slot h)")
    have inv1: "world_inv ?w1" by (rule reachable_inv [OF c(5)])
    have lo: "lease_ok r1 h" using world_invD(4) [OF inv1, of h] by simp
    then have s: "h_slot h < rp_capacity r1" by (simp add: lease_ok_def)
    have len: "length (rp_slots r1) = rp_capacity r1" using slots_length [OF inv1] by simp
    let ?w2 = "w\<lparr>w_repo := r2, w_leases := add_mset h (w_leases w)\<rparr>"
    have e2: "?w1\<lparr>w_repo := r2\<rparr> = ?w2" by (cases w) simp
    have "wstep ?w1 ?w2" unfolding e2 [symmetric] by (rule wstep.retire [of h _ r2 b]) (use rc in simp_all)
    then have r2: "reachable ?w2" by (rule reachable.step [OF c(5)])
    have lv1: "live r1 h" using c(2,3) by simp
    have r2e: "r2 = set_control r1 (h_slot h) (state Retired (refs (control r1 (h_slot h))))"
      using rc lv1 by (simp add: retire_cas_def live_def Let_def split: if_splits)
    have fr: "frame r1 r2" by (simp add: r2e)
    have lv: "live r2 g \<longleftrightarrow> live r1 g \<and> g \<noteq> h" for g
    proof (cases "h_slot g = h_slot h")
      case True
      have "lease_ok r1 g \<longleftrightarrow> g = h" using True lo by (auto simp: lease_ok_def intro: handle.equality)
      then show ?thesis using True s len lo by (auto simp: live_def r2e control_set_control phase_state_refs)
    next
      case False
      then show ?thesis using s len by (auto simp: live_def r2e control_set_control)
    qed
    have "h \<in># w_leases ?w2" by simp
    note dr = client_drop [OF r2 this, simplified]
    have l': "l' = h" by (rule c(1))
    have fr': "frame (w_repo w) (lease_reset r2 h)" by (rule frame_trans [OF c(4) frame_trans [OF fr dr(3)]])
    have e: "fst (retire (w_repo w) h) = lease_reset r2 h" using Pair Some rc l' by (simp add: retire_def)
    show ?thesis unfolding e
      by (rule exI [of _ "w\<lparr>w_repo := lease_reset r2 h\<rparr>"])
        (use dr(1,2) fr' lv c(3) in auto)
  qed
qed

section \<open>The walk over the suffix\<close>

definition captured_span :: "store \<Rightarrow> handle \<Rightarrow> storage_span" where
  "captured_span s h = (let b = st_blocks s ! h_slot h in
     \<lparr>ss_history = bk_history b, ss_storage = bk_pos b, ss_count = bk_tokens b, ss_handle = h\<rparr>)"

definition discarded_span :: "store \<Rightarrow> nat \<Rightarrow> handle \<Rightarrow> storage_span" where
  "discarded_span s position h = (let b = st_blocks s ! h_slot h; n = rewind_keep b position in
     \<lparr>ss_history = bk_history b + n, ss_storage = u32 (bk_pos b + n), ss_count = bk_tokens b - n, ss_handle = h\<rparr>)"

lemma pinnable_refs: "pinnable r h \<Longrightarrow> refs (control r (h_slot h)) \<noteq> ref_mask"
  by (auto simp: pinnable_def try_pin_def try_pin_slot_def split: option.splits if_splits dest: acquire_Some)

lemma rewind_walk_ok:
  assumes ok: "store_ok w0 s hi" and "reachable w" and "x + mset (sr_leases cap) \<subseteq># w_leases w"
    and "sorted_wrt (<) (map fst es)" and "set es \<subseteq> set (st_history s)" and "live (w_repo w) = live (w_repo w0)"
    and "rewind_walk s position es (w_repo w) cap disc = (r', Inr (cap', disc'))"
  shows "\<exists>w' hs. reachable w' \<and> w_repo w' = r' \<and> x + mset (sr_leases cap') \<subseteq># w_leases w' \<and>
    live r' = live (w_repo w0) \<and> frame (w_repo w) r' \<and>
    sr_spans cap' = sr_spans cap @ map (captured_span s) hs \<and> sr_leases cap' = sr_leases cap @ hs \<and>
    disc' = disc @ map (discarded_span s position) hs \<and> set hs \<subseteq> snd ` set es \<and> distinct (map h_slot hs) \<and>
    (\<forall>h \<in> set hs. live (w_repo w0) h \<and> rewind_keep (st_blocks s ! h_slot h) position < bk_tokens (st_blocks s ! h_slot h)) \<and>
    (\<forall>h \<in> snd ` set es. live (w_repo w0) h \<longrightarrow> refs (control (w_repo w) (h_slot h)) \<noteq> ref_mask \<longrightarrow>
       h \<in> set hs \<or> rewind_keep (st_blocks s ! h_slot h) position = bk_tokens (st_blocks s ! h_slot h))"
  using assms(2-)
proof (induction es arbitrary: w cap disc)
  case Nil
  then show ?case by (intro exI [of _ w] exI [of _ "[]"]) auto
next
  case (Cons e es)
  obtain k h where e: "e = (k, h)" by (cases e)
  let ?b = "st_blocks s ! h_slot h"
  have m: "(k, h) \<in> set (st_history s)" using Cons.prems(4) e by simp
  have others: "h_slot (snd y) \<noteq> h_slot h" if y: "y \<in> set es" for y
  proof -
    have "(fst y, snd y) \<in> set (st_history s)" using Cons.prems(4) y by auto
    moreover have "k < fst y" using Cons.prems(3) y by (auto simp: e)
    ultimately show ?thesis using entry_slot_unique [OF ok m] by fastforce
  qed
  have sub: "sorted_wrt (<) (map fst es)" "set es \<subseteq> set (st_history s)" using Cons.prems(3,4) by simp_all
  obtain r1 l where t: "try_pin (w_repo w) h = (r1, l)" by (cases "try_pin (w_repo w) h")
  show ?case
  proof (cases l)
    case None
    then have r1: "r1 = w_repo w" using client_pin_none [OF Cons.prems(1)] t by simp
    have run: "rewind_walk s position es (w_repo w) cap disc = (r', Inr (cap', disc'))"
      using Cons.prems(6) t None by (simp add: e r1)
    have "\<not> (live (w_repo w0) h \<and> refs (control (w_repo w) (h_slot h)) \<noteq> ref_mask)"
      using pin_live [OF Cons.prems(1), of h] t None Cons.prems(5) by auto
    then show ?thesis using Cons.IH [OF Cons.prems(1,2) sub Cons.prems(5) run] by (auto simp: e)
  next
    case (Some l')
    note c = client_pin [OF Cons.prems(1) t [unfolded Some]]
    have lh: "l' = h" by (rule c(1))
    let ?w = "w\<lparr>w_repo := r1, w_leases := add_mset h (w_leases w)\<rparr>"
    let ?n = "rewind_keep ?b position"
    have lv: "live (w_repo w0) h" using c(2) Cons.prems(5) by simp
    have nf: "\<not> (bk_in_flight ?b \<or> bk_tokens ?b < ?n)"
      using Cons.prems(6) t Some by (auto simp: e Let_def split: if_splits)
    have ctl: "control r1 (h_slot (snd y)) = control (w_repo w) (h_slot (snd y))" if "y \<in> set es" for y
      by (rule try_pin_control [OF t [unfolded Some] others [OF that]])
    show ?thesis
    proof (cases "?n = bk_tokens ?b")
      case True
      have "h \<in># w_leases ?w" by simp
      note dr = client_drop [OF c(5) this, simplified]
      let ?w' = "w\<lparr>w_repo := lease_reset r1 h\<rparr>"
      have run: "rewind_walk s position es (w_repo ?w') cap disc = (r', Inr (cap', disc'))"
        using Cons.prems(6) t Some nf True lh by (simp add: e Let_def)
      have lv': "live (w_repo ?w') = live (w_repo w0)" using dr(2) c(3) Cons.prems(5) by simp
      have ctl': "control (lease_reset r1 h) (h_slot (snd y)) = control (w_repo w) (h_slot (snd y))" if "y \<in> set es" for y
        using control_release [OF others [OF that]] ctl [OF that] by simp
      have sub': "x + mset (sr_leases cap) \<subseteq># w_leases ?w'" using Cons.prems(2) by simp
      obtain w' hs where IH: "reachable w'" "w_repo w' = r'" "x + mset (sr_leases cap') \<subseteq># w_leases w'"
        "live r' = live (w_repo w0)" "frame (w_repo ?w') r'"
        "sr_spans cap' = sr_spans cap @ map (captured_span s) hs" "sr_leases cap' = sr_leases cap @ hs"
        "disc' = disc @ map (discarded_span s position) hs" "set hs \<subseteq> snd ` set es" "distinct (map h_slot hs)"
        "\<forall>h \<in> set hs. live (w_repo w0) h \<and> rewind_keep (st_blocks s ! h_slot h) position < bk_tokens (st_blocks s ! h_slot h)"
        "\<forall>h \<in> snd ` set es. live (w_repo w0) h \<longrightarrow> refs (control (w_repo ?w') (h_slot h)) \<noteq> ref_mask \<longrightarrow>
           h \<in> set hs \<or> rewind_keep (st_blocks s ! h_slot h) position = bk_tokens (st_blocks s ! h_slot h)"
        using Cons.IH [OF dr(1) sub' sub lv' run] by (elim exE conjE) (rule that)
      have fr: "frame (w_repo w) r'" using frame_trans [OF c(4) frame_trans [OF dr(3) IH(5) [simplified]]] .
      show ?thesis
        by (rule exI [of _ w'], rule exI [of _ hs])
          (use IH fr True ctl' in \<open>auto simp: e\<close>)
    next
      case n: False
      let ?cap = "\<lparr>sr_spans = sr_spans cap @ [captured_span s h], sr_leases = sr_leases cap @ [h]\<rparr>"
      have run: "rewind_walk s position es (w_repo ?w) ?cap (disc @ [discarded_span s position h]) = (r', Inr (cap', disc'))"
        using Cons.prems(6) t Some nf n lh by (simp add: e Let_def captured_span_def discarded_span_def)
      have lv': "live (w_repo ?w) = live (w_repo w0)" using c(3) Cons.prems(5) by simp
      have sub': "x + mset (sr_leases ?cap) \<subseteq># w_leases ?w" using Cons.prems(2) by simp
      obtain w' hs where IH: "reachable w'" "w_repo w' = r'" "x + mset (sr_leases cap') \<subseteq># w_leases w'"
        "live r' = live (w_repo w0)" "frame (w_repo ?w) r'"
        "sr_spans cap' = sr_spans ?cap @ map (captured_span s) hs" "sr_leases cap' = sr_leases ?cap @ hs"
        "disc' = (disc @ [discarded_span s position h]) @ map (discarded_span s position) hs"
        "set hs \<subseteq> snd ` set es" "distinct (map h_slot hs)"
        "\<forall>h \<in> set hs. live (w_repo w0) h \<and> rewind_keep (st_blocks s ! h_slot h) position < bk_tokens (st_blocks s ! h_slot h)"
        "\<forall>h \<in> snd ` set es. live (w_repo w0) h \<longrightarrow> refs (control (w_repo ?w) (h_slot h)) \<noteq> ref_mask \<longrightarrow>
           h \<in> set hs \<or> rewind_keep (st_blocks s ! h_slot h) position = bk_tokens (st_blocks s ! h_slot h)"
        using Cons.IH [OF c(5) sub' sub lv' run] by (elim exE conjE) (rule that)
      have "h_slot h \<notin> h_slot ` set hs" using IH(9) others by fastforce
      moreover have "?n < bk_tokens ?b" using nf n by simp
      ultimately show ?thesis
        by (intro exI [of _ w'] exI [of _ "h # hs"])
          (use IH frame_trans [OF c(4)] lv ctl in \<open>auto simp: e\<close>)
    qed
  qed
qed

section \<open>Committing the cut\<close>

definition rewound :: "nat \<Rightarrow> store \<Rightarrow> handle list \<Rightarrow> store \<Rightarrow> bool" where
  "rewound position s hs s' \<longleftrightarrow> st_cfg s' = st_cfg s \<and> st_history s' = st_history s \<and> st_nodes s' = st_nodes s \<and>
     length (st_blocks s') = length (st_blocks s) \<and> length (st_leases s') = length (st_leases s) \<and>
     length (st_flags s') = length (st_flags s) \<and>
     (\<forall>i < length (st_blocks s). bk_id (st_blocks s' ! i) = bk_id (st_blocks s ! i) \<and>
        bk_generation (st_blocks s' ! i) = bk_generation (st_blocks s ! i) \<and>
        bk_history (st_blocks s' ! i) = bk_history (st_blocks s ! i) \<and> bk_pos (st_blocks s' ! i) = bk_pos (st_blocks s ! i)) \<and>
     (\<forall>i < length (st_blocks s). i \<notin> h_slot ` set hs \<longrightarrow>
        bk_tokens (st_blocks s' ! i) = bk_tokens (st_blocks s ! i) \<and> st_leases s' ! i = st_leases s ! i) \<and>
     (\<forall>h \<in> set hs. let i = h_slot h in
        (bk_history (st_blocks s ! i) < position \<longrightarrow>
           bk_tokens (st_blocks s' ! i) = rewind_keep (st_blocks s ! i) position \<and> st_leases s' ! i = st_leases s ! i) \<and>
        (position \<le> bk_history (st_blocks s ! i) \<longrightarrow> st_leases s' ! i = None))"

lemma rewind_span_ok:
  assumes "reachable w" and "st_repo s = Some (w_repo w)" and "\<forall>i < length (st_blocks s). bk_id (st_blocks s ! i) = i"
    and "length (st_leases s) = length (st_blocks s)" and "x + held (st_leases s) \<subseteq># w_leases w"
    and "h_slot (ss_handle sp) < length (st_blocks s)"
  shows "\<exists>w'. reachable w' \<and> st_repo (rewind_span position s sp) = Some (w_repo w') \<and> frame (w_repo w) (w_repo w') \<and>
    x + held (st_leases (rewind_span position s sp)) \<subseteq># w_leases w' \<and> rewound position s [ss_handle sp] (rewind_span position s sp) \<and>
    (\<forall>g. live (w_repo w') g \<longrightarrow> live (w_repo w) g) \<and>
    (\<forall>g. live (w_repo w) g \<longrightarrow> (g = ss_handle sp \<longrightarrow> bk_history (st_blocks s ! h_slot g) < position) \<longrightarrow> live (w_repo w') g)"
proof -
  define i where "i = h_slot (ss_handle sp)"
  define b where "b = st_blocks s ! i"
  have i: "i < length (st_blocks s)" "bk_id b = i" using assms(3,6) by (simp_all add: i_def b_def)
  show ?thesis
  proof (cases "bk_history b < position")
    case True
    have e: "rewind_span position s sp = (set_block s i (\<lambda>b. b\<lparr>bk_tokens := u32 (position - bk_history b), bk_dirty := True,
        bk_ssd_clean := False\<rparr>))\<lparr>st_flags := (st_flags s)[i := rewritten_flags (st_flags s ! i)]\<rparr>"
      using True i(2) by (simp add: rewind_span_def Let_def i_def b_def set_block_def)
    have "rewound position s [ss_handle sp] (rewind_span position s sp)"
      unfolding rewound_def e using i True
      by (auto simp: set_block_def nth_list_update i_def [symmetric] b_def [symmetric] rewind_keep_def Let_def)
    moreover have "st_repo (rewind_span position s sp) = Some (w_repo w)" "st_leases (rewind_span position s sp) = st_leases s"
      using assms(2) by (simp_all add: e set_block_def)
    ultimately show ?thesis using assms(1,5) by (intro exI [of _ w]) simp
  next
    case False
    obtain w1 where w1: "reachable w1" "w_repo w1 = fst (retire (w_repo w) (ss_handle sp))" "w_leases w1 = w_leases w"
      "frame (w_repo w) (w_repo w1)" "\<forall>g. live (w_repo w1) g \<longrightarrow> live (w_repo w) g"
      "\<forall>g. g \<noteq> ss_handle sp \<longrightarrow> live (w_repo w) g \<longrightarrow> live (w_repo w1) g"
      using client_retire [OF assms(1), of "ss_handle sp"] by blast
    define r2 where "r2 = (case st_leases s ! i of None \<Rightarrow> w_repo w1 | Some l \<Rightarrow> lease_reset (w_repo w1) l)"
    have e: "st_repo (rewind_span position s sp) = Some r2" "st_leases (rewind_span position s sp) = (st_leases s)[i := None]"
      "rewound position s [ss_handle sp] (rewind_span position s sp)"
    proof -
      have u: "rewind_span position s sp = (let s2 = reset_resident (s\<lparr>st_repo := Some (w_repo w1)\<rparr>) i in
          (set_block s2 i (\<lambda>b. b\<lparr>bk_tokens := 0, bk_in_ws := False\<rparr>))\<lparr>st_flags := (st_flags s2)[i := 0]\<rparr>)"
        using False i(2) assms(2) by (simp add: rewind_span_def Let_def i_def b_def w1(2))
      show "st_repo (rewind_span position s sp) = Some r2" "st_leases (rewind_span position s sp) = (st_leases s)[i := None]"
        unfolding u by (simp_all add: Let_def set_block_def reset_resident_def drop_lease_def r2_def split: option.splits)
      show "rewound position s [ss_handle sp] (rewind_span position s sp)"
        unfolding rewound_def u using i False assms(4)
        by (auto simp: Let_def set_block_def reset_resident_def drop_lease_def nth_list_update i_def [symmetric] b_def [symmetric]
          split: option.splits)
    qed
    show ?thesis
    proof (cases "st_leases s ! i")
      case None
      then have "(st_leases s)[i := None] = st_leases s" by (metis list_update_id)
      then show ?thesis using w1 e None assms(5) False by (intro exI [of _ w1]) (auto simp: r2_def b_def i_def)
    next
      case (Some l)
      have h: "held (st_leases s) = add_mset l (held ((st_leases s)[i := None]))"
        by (rule held_reset [OF _ Some]) (use i(1) assms(4) in simp)
      then have sub: "add_mset l (x + held ((st_leases s)[i := None])) \<subseteq># w_leases w1" using assms(5) w1(3) by simp
      then have "l \<in># w_leases w1" "x + held ((st_leases s)[i := None]) \<subseteq># w_leases w1 - {#l#}"
        by (simp_all add: insert_subset_eq_iff)
      note dr = client_drop [OF w1(1) this(1)] and rest = this(2)
      show ?thesis
        by (rule exI [of _ "w1\<lparr>w_repo := lease_reset (w_repo w1) l, w_leases := w_leases w1 - {#l#}\<rparr>"])
          (use w1 e Some dr rest False frame_trans [OF w1(4) dr(3)] in \<open>auto simp: r2_def b_def i_def\<close>)
    qed
  qed
qed

lemma rewoundD:
  assumes "rewound position s hs s'"
  shows "st_cfg s' = st_cfg s" "st_history s' = st_history s" "st_nodes s' = st_nodes s"
    "length (st_blocks s') = length (st_blocks s)" "length (st_leases s') = length (st_leases s)"
    "length (st_flags s') = length (st_flags s)"
    and "i < length (st_blocks s) \<Longrightarrow> bk_id (st_blocks s' ! i) = bk_id (st_blocks s ! i)"
    and "i < length (st_blocks s) \<Longrightarrow> bk_generation (st_blocks s' ! i) = bk_generation (st_blocks s ! i)"
    and "i < length (st_blocks s) \<Longrightarrow> bk_history (st_blocks s' ! i) = bk_history (st_blocks s ! i)"
    and "i < length (st_blocks s) \<Longrightarrow> bk_pos (st_blocks s' ! i) = bk_pos (st_blocks s ! i)"
    and "i < length (st_blocks s) \<Longrightarrow> i \<notin> h_slot ` set hs \<Longrightarrow> bk_tokens (st_blocks s' ! i) = bk_tokens (st_blocks s ! i)"
    and "i < length (st_blocks s) \<Longrightarrow> i \<notin> h_slot ` set hs \<Longrightarrow> st_leases s' ! i = st_leases s ! i"
    and "h \<in> set hs \<Longrightarrow> bk_history (st_blocks s ! h_slot h) < position \<Longrightarrow>
      bk_tokens (st_blocks s' ! h_slot h) = rewind_keep (st_blocks s ! h_slot h) position"
    and "h \<in> set hs \<Longrightarrow> bk_history (st_blocks s ! h_slot h) < position \<Longrightarrow> st_leases s' ! h_slot h = st_leases s ! h_slot h"
    and "h \<in> set hs \<Longrightarrow> position \<le> bk_history (st_blocks s ! h_slot h) \<Longrightarrow> st_leases s' ! h_slot h = None"
  using assms unfolding rewound_def Let_def by blast+

lemma rewound_refl: "rewound position s [] s"
  by (simp add: rewound_def)

lemma rewound_trans:
  assumes a: "rewound position s [h] s1" and b: "rewound position s1 hs s2" and d: "h_slot h \<notin> h_slot ` set hs"
    and l: "\<forall>g \<in> set (h # hs). h_slot g < length (st_blocks s)"
  shows "rewound position s (h # hs) s2"
proof -
  note A = rewoundD [OF a] and B = rewoundD [OF b]
  have l1: "length (st_blocks s1) = length (st_blocks s)" by (rule A(4))
  show ?thesis unfolding rewound_def Let_def
  proof (intro conjI allI impI ballI)
    fix g assume g: "g \<in> set (h # hs)" and p: "bk_history (st_blocks s ! h_slot g) < position"
    have gl: "h_slot g < length (st_blocks s)" using l g by blast
    show "bk_tokens (st_blocks s2 ! h_slot g) = rewind_keep (st_blocks s ! h_slot g) position"
      "st_leases s2 ! h_slot g = st_leases s ! h_slot g"
    proof (atomize (full), cases "g = h")
      case True
      then show "bk_tokens (st_blocks s2 ! h_slot g) = rewind_keep (st_blocks s ! h_slot g) position \<and>
          st_leases s2 ! h_slot g = st_leases s ! h_slot g"
        using A(13,14) [of h] B(11,12) [of "h_slot h"] p gl l1 d by simp
    next
      case False
      then have g1: "g \<in> set hs" using g by simp
      then have "h_slot g \<in> h_slot ` set hs" by (rule imageI)
      then have "h_slot g \<noteq> h_slot h" using d by (metis (no_types))
      then have gs: "g \<in> set hs" "h_slot g \<notin> h_slot ` set [h]" using g1 by simp_all
      have "rewind_keep (st_blocks s1 ! h_slot g) position = rewind_keep (st_blocks s ! h_slot g) position"
        using A(9) [OF gl] by (simp add: rewind_keep_def)
      then show "bk_tokens (st_blocks s2 ! h_slot g) = rewind_keep (st_blocks s ! h_slot g) position \<and>
          st_leases s2 ! h_slot g = st_leases s ! h_slot g"
        using B(13,14) [OF gs(1)] A(12) [OF gl gs(2)] A(9) [OF gl] p by simp
    qed
  next
    fix g assume g: "g \<in> set (h # hs)" and p: "position \<le> bk_history (st_blocks s ! h_slot g)"
    have gl: "h_slot g < length (st_blocks s)" using l g by blast
    show "st_leases s2 ! h_slot g = None"
    proof (cases "g = h")
      case True
      then show ?thesis using A(15) [of h] B(12) [of "h_slot h"] p gl l1 d by simp
    next
      case False
      then have "g \<in> set hs" using g by simp
      then show ?thesis using B(15) A(9) [OF gl] p by simp
    qed
  next
    fix i assume i: "i < length (st_blocks s)" and n: "i \<notin> h_slot ` set (h # hs)"
    show "bk_tokens (st_blocks s2 ! i) = bk_tokens (st_blocks s ! i)" "st_leases s2 ! i = st_leases s ! i"
      using A(11,12) [OF i] B(11,12) [of i] i n l1 by simp_all
  qed (use A(1-10) B(1-10) l1 in simp_all)
qed

lemma rewind_fold_ok:
  assumes "reachable w" and "st_repo s = Some (w_repo w)" and "\<forall>i < length (st_blocks s). bk_id (st_blocks s ! i) = i"
    and "length (st_leases s) = length (st_blocks s)" and "x + held (st_leases s) \<subseteq># w_leases w"
    and "\<forall>h \<in> set (map ss_handle sps). h_slot h < length (st_blocks s)" and "distinct (map h_slot (map ss_handle sps))"
    and "s' = foldl (rewind_span position) s sps"
  shows "\<exists>w'. reachable w' \<and> st_repo s' = Some (w_repo w') \<and> frame (w_repo w) (w_repo w') \<and>
    x + held (st_leases s') \<subseteq># w_leases w' \<and> rewound position s (map ss_handle sps) s' \<and>
    (\<forall>g. live (w_repo w') g \<longrightarrow> live (w_repo w) g) \<and>
    (\<forall>g. live (w_repo w) g \<longrightarrow> (g \<in> set (map ss_handle sps) \<longrightarrow> bk_history (st_blocks s ! h_slot g) < position) \<longrightarrow> live (w_repo w') g)"
  using assms
proof (induction sps arbitrary: s w)
  case Nil
  then show ?case using rewound_refl by (intro exI [of _ w]) simp
next
  case (Cons sp sps)
  let ?s1 = "rewind_span position s sp" and ?h = "ss_handle sp" and ?hs = "map ss_handle sps"
  have hl: "h_slot ?h < length (st_blocks s)" using Cons.prems(6) by simp
  obtain w1 where w1: "reachable w1" "st_repo ?s1 = Some (w_repo w1)" "frame (w_repo w) (w_repo w1)"
    "x + held (st_leases ?s1) \<subseteq># w_leases w1" "rewound position s [?h] ?s1"
    "\<forall>g. live (w_repo w1) g \<longrightarrow> live (w_repo w) g"
    "\<forall>g. live (w_repo w) g \<longrightarrow> (g = ?h \<longrightarrow> bk_history (st_blocks s ! h_slot g) < position) \<longrightarrow> live (w_repo w1) g"
    using rewind_span_ok [OF Cons.prems(1-5) hl, of position] by (elim exE conjE)
  note A = rewoundD [OF w1(5)]
  have ids: "\<forall>i < length (st_blocks ?s1). bk_id (st_blocks ?s1 ! i) = i" using A(4,7) Cons.prems(3) by simp
  have len: "length (st_leases ?s1) = length (st_blocks ?s1)" using A(4,5) Cons.prems(4) by simp
  have hsl: "\<forall>h \<in> set ?hs. h_slot h < length (st_blocks ?s1)" using A(4) Cons.prems(6) by simp
  have dist: "distinct (map h_slot ?hs)" "h_slot ?h \<notin> h_slot ` set ?hs" using Cons.prems(7) by (simp_all add: image_image)
  have s': "s' = foldl (rewind_span position) ?s1 sps" using Cons.prems(8) by simp
  obtain w2 where w2: "reachable w2" "st_repo s' = Some (w_repo w2)" "frame (w_repo w1) (w_repo w2)"
    "x + held (st_leases s') \<subseteq># w_leases w2" "rewound position ?s1 ?hs s'"
    "\<forall>g. live (w_repo w2) g \<longrightarrow> live (w_repo w1) g"
    "\<forall>g. live (w_repo w1) g \<longrightarrow> (g \<in> set ?hs \<longrightarrow> bk_history (st_blocks ?s1 ! h_slot g) < position) \<longrightarrow> live (w_repo w2) g"
    using Cons.IH [OF w1(1,2) ids len w1(4) hsl dist(1) s'] by (elim exE conjE)
  have all: "\<forall>g \<in> set (?h # ?hs). h_slot g < length (st_blocks s)" using Cons.prems(6) by simp
  have rw: "rewound position s (map ss_handle (sp # sps)) s'"
    using rewound_trans [OF w1(5) w2(5) dist(2) all] by simp
  have keep: "live (w_repo w2) g" if g: "live (w_repo w) g"
    and p: "g \<in> set (map ss_handle (sp # sps)) \<longrightarrow> bk_history (st_blocks s ! h_slot g) < position" for g
  proof -
    have "live (w_repo w1) g" using w1(7) g p by simp
    moreover have "g \<in> set ?hs \<longrightarrow> bk_history (st_blocks ?s1 ! h_slot g) < position"
      using p A(9) [of "h_slot g"] all by auto
    ultimately show ?thesis using w2(7) by blast
  qed
  show ?case
    by (rule exI [of _ w2]) (use w2(1,2,4,6) w1(6) frame_trans [OF w1(3) w2(3)] rw keep in blast)
qed

lemma dropWhile_from:
  assumes "sorted_wrt (<) (map fst (es :: (nat \<times> handle) list))"
  shows "set (dropWhile (\<lambda>(k, _). k < b) es) = {e \<in> set es. b \<le> fst e}"
    and "set (takeWhile (\<lambda>(k, _). k < b) es) = {e \<in> set es. fst e < b}"
  using assms by (induction es) (auto split: if_splits)

lemma prepare_rewind_ok:
  assumes ok: "store_ok w s (st_total s)" and p: "prepare_repository_rewind s position = (s1, Inr rw)"
    and x: "x \<subseteq># w_leases w"
  shows "\<exists>w1 hs. reachable w1 \<and> s1 = s\<lparr>st_repo := Some (w_repo w1), st_pending := True\<rparr> \<and> frame (w_repo w) (w_repo w1) \<and>
    live (w_repo w1) = live (w_repo w) \<and> x + mset hs \<subseteq># w_leases w1 \<and> position \<le> st_total s \<and>
    rw = \<lparr>rw_open = True, rw_position = position,
      rw_captured = \<lparr>sr_spans = map (captured_span s) hs, sr_leases = hs\<rparr>, rw_discarded = map (discarded_span s position) hs\<rparr> \<and>
    distinct (map h_slot hs) \<and>
    (\<forall>h \<in> set hs. (bk_history (st_blocks s ! h_slot h), h) \<in> set (st_history s) \<and> live (w_repo w) h \<and>
       position < bk_history (st_blocks s ! h_slot h) + bk_tokens (st_blocks s ! h_slot h)) \<and>
    (\<forall>k h. (k, h) \<in> set (st_history s) \<longrightarrow> k < position \<longrightarrow>
       position < k + bk_tokens (st_blocks s ! h_slot h) \<longrightarrow> h \<in> set hs) \<and>
    (\<forall>k h. (k, h) \<in> set (st_history s) \<longrightarrow> live (w_repo w) h \<longrightarrow> refs (control (w_repo w) (h_slot h)) \<noteq> ref_mask \<longrightarrow>
       position \<le> k \<longrightarrow> h \<in> set hs)"
proof -
  note d = store_okD [OF ok]
  let ?bt = "cf_block_tokens (st_cfg s)"
  define boundary where "boundary = position - position mod ?bt"
  define es where "es = dropWhile (\<lambda>(k, _). k < boundary) (st_history s)"
  have pos: "position \<le> st_total s" and np: "\<not> st_pending s"
    using p d(2) by (auto simp: prepare_repository_rewind_def Let_def split: if_splits)
  have set_es: "set es = {e \<in> set (st_history s). boundary \<le> fst e}"
    unfolding es_def by (rule dropWhile_from(1) [OF d(10)])
  have sorted_es: "sorted_wrt (<) (map fst es)"
    using d(10) unfolding es_def by (metis dropWhile_eq_drop drop_map sorted_wrt_drop)
  have bt: "0 < ?bt" by (rule d(3))
  have blk: "k = bk_history (st_blocks s ! h_slot h) \<and> 0 < bk_tokens (st_blocks s ! h_slot h) \<and>
      bk_tokens (st_blocks s ! h_slot h) \<le> ?bt \<and> k + bk_tokens (st_blocks s ! h_slot h) \<le> st_total s \<and> k mod ?bt = 0"
    if "(k, h) \<in> set (st_history s)" for k h
    using store_ok_entry [OF ok that] by (auto simp: entry_ok_def Let_def)
  have keep: "rewind_keep (st_blocks s ! h_slot h) position = position - k" if "(k, h) \<in> set es" for k h
  proof -
    have k: "k = bk_history (st_blocks s ! h_slot h)" "boundary \<le> k" using that blk set_es by auto
    have "position - boundary < ?bt" using bt by (simp add: boundary_def)
    then have "position - k < ?bt" using k(2) by linarith
    moreover have "?bt \<le> UINT32_MAX"
    proof -
      have "h_slot h < rp_capacity (w_repo w)" using store_ok_entry [OF ok, of "(k, h)"] that set_es
        by (auto simp: entry_ok_def Let_def)
      from slot_row_bound [OF ok this] show ?thesis by (simp add: INT32_MAX_def UINT32_MAX_def)
    qed
    ultimately show ?thesis using k(1) u32_id [of "position - k"] by (auto simp: rewind_keep_def)
  qed
  show ?thesis
  proof (cases "position = st_total s")
    case True
    then have r: "s1 = s\<lparr>st_repo := Some (w_repo w), st_pending := True\<rparr>" "rw = \<lparr>rw_open = True, rw_position = position,
        rw_captured = \<lparr>sr_spans = [], sr_leases = []\<rparr>, rw_discarded = []\<rparr>"
      using p d(2) np by (auto simp: prepare_repository_rewind_def Let_def split: if_splits)
    show ?thesis
      by (rule exI [of _ w], rule exI [of _ "[]"]) (use r d(1) x True blk in \<open>fastforce\<close>)
  next
    case False
    obtain r' cap disc where walk: "rewind_walk s position es (w_repo w) \<lparr>sr_spans = [], sr_leases = []\<rparr> [] = (r', Inr (cap, disc))"
      and mt: "\<not> (position mod ?bt \<noteq> 0 \<and> missing_tail (w_repo w) boundary es)"
      and s1: "s1 = s\<lparr>st_repo := Some r', st_pending := True\<rparr>"
      and rw: "rw = \<lparr>rw_open = True, rw_position = position, rw_captured = cap, rw_discarded = disc\<rparr>"
      using p d(2) np pos False unfolding prepare_repository_rewind_def Let_def es_def boundary_def
      by (auto split: if_splits prod.splits sum.splits)
    have sub: "x + mset (sr_leases \<lparr>sr_spans = [], sr_leases = []\<rparr>) \<subseteq># w_leases w" using x by simp
    have es_sub: "set es \<subseteq> set (st_history s)" using set_es by blast
    obtain w' hs where W: "reachable w'" "w_repo w' = r'" "x + mset (sr_leases cap) \<subseteq># w_leases w'"
      "live r' = live (w_repo w)" "frame (w_repo w) r'"
      "sr_spans cap = sr_spans \<lparr>sr_spans = [], sr_leases = []\<rparr> @ map (captured_span s) hs"
      "sr_leases cap = sr_leases \<lparr>sr_spans = [], sr_leases = []\<rparr> @ hs"
      "disc = [] @ map (discarded_span s position) hs" "set hs \<subseteq> snd ` set es" "distinct (map h_slot hs)"
      "\<forall>h \<in> set hs. live (w_repo w) h \<and> rewind_keep (st_blocks s ! h_slot h) position < bk_tokens (st_blocks s ! h_slot h)"
      "\<forall>h \<in> snd ` set es. live (w_repo w) h \<longrightarrow> refs (control (w_repo w) (h_slot h)) \<noteq> ref_mask \<longrightarrow>
         h \<in> set hs \<or> rewind_keep (st_blocks s ! h_slot h) position = bk_tokens (st_blocks s ! h_slot h)"
      using rewind_walk_ok [OF ok d(1) sub sorted_es es_sub refl walk] by (elim exE conjE) (rule that)
    have cap: "cap = \<lparr>sr_spans = map (captured_span s) hs, sr_leases = hs\<rparr>" using W(6,7) by (cases cap) simp
    have a: "(bk_history (st_blocks s ! h_slot h), h) \<in> set (st_history s) \<and> live (w_repo w) h \<and>
       position < bk_history (st_blocks s ! h_slot h) + bk_tokens (st_blocks s ! h_slot h)" if h: "h \<in> set hs" for h
    proof -
      obtain k where k: "(k, h) \<in> set es" using W(9) h by auto
      then have "(k, h) \<in> set (st_history s)" using es_sub by blast
      then show ?thesis using blk [of k h] keep [OF k] W(11) h by auto
    qed
    have b: "h \<in> set hs" if "(k, h) \<in> set (st_history s)" "k < position"
      "position < k + bk_tokens (st_blocks s ! h_slot h)" for k h
    proof -
      note B = blk [OF that(1)]
      have b0: "boundary mod ?bt = 0" by (simp add: boundary_def minus_mod_eq_mult_div)
      have b1: "boundary \<le> position" by (simp add: boundary_def)
      have b2: "position < boundary + ?bt" using mod_less_divisor [OF bt, of position] unfolding boundary_def by linarith
      have k1: "k mod ?bt = 0" "k \<le> position" "position < k + ?bt" using B that(2,3) by linarith+
      have kb: "k = boundary" by (rule aligned_disjoint [OF k1(1) b0 k1(2,3) b1 b2])
      have "position mod ?bt \<noteq> 0" using kb that(2) by (auto simp: boundary_def)
      then have "\<not> missing_tail (w_repo w) boundary es" using mt by blast
      then obtain h' es' where e: "es = (boundary, h') # es'" "pinnable (w_repo w) h'"
        by (auto simp: missing_tail_def split: list.splits)
      have "(boundary, h') \<in> set (st_history s)" using e(1) es_sub by auto
      then have "h' = h" using that(1) kb sorted_keys_distinct [OF d(10)] by (metis eq_key_imp_eq_value)
      then have "(boundary, h) \<in> set es" "refs (control (w_repo w) (h_slot h)) \<noteq> ref_mask" "live (w_repo w) h"
        using e pinnable_refs pinnable_live(1) [OF d(1)] by auto
      then show ?thesis using W(12) keep [of boundary h] kb that(2,3) by fastforce
    qed
    have c: "h \<in> set hs" if "(k, h) \<in> set (st_history s)" "live (w_repo w) h"
      "refs (control (w_repo w) (h_slot h)) \<noteq> ref_mask" "position \<le> k" for k h
    proof -
      have "boundary \<le> k" using that(4) by (simp add: boundary_def)
      then have k: "(k, h) \<in> set es" using set_es that(1) by simp
      then have "rewind_keep (st_blocks s ! h_slot h) position \<noteq> bk_tokens (st_blocks s ! h_slot h)"
        using keep [OF k] blk [OF that(1)] that(4) by simp
      then show ?thesis using W(12) k that(2,3) by force
    qed
    show ?thesis
    proof (intro exI [of _ w'] exI [of _ hs] conjI)
      show "s1 = s\<lparr>st_repo := Some (w_repo w'), st_pending := True\<rparr>" using s1 W(2) by simp
      show "rw = \<lparr>rw_open = True, rw_position = position, rw_captured = \<lparr>sr_spans = map (captured_span s) hs, sr_leases = hs\<rparr>,
          rw_discarded = map (discarded_span s position) hs\<rparr>"
        using rw cap W(8) by simp
      show "x + mset hs \<subseteq># w_leases w'" using W(3) cap by simp
      show "\<forall>h \<in> set hs. (bk_history (st_blocks s ! h_slot h), h) \<in> set (st_history s) \<and> live (w_repo w) h \<and>
          position < bk_history (st_blocks s ! h_slot h) + bk_tokens (st_blocks s ! h_slot h)" by (intro ballI a)
      show "reachable w'" "position \<le> st_total s" "distinct (map h_slot hs)" by (rule W(1) pos W(10))+
      show "frame (w_repo w) (w_repo w')" "live (w_repo w') = live (w_repo w)" using W(2,4,5) by simp_all
    qed (intro allI impI b c; assumption)+
  qed
qed

lemma mark_one: "i < length ns \<Longrightarrow> ns[j := True] ! i \<longleftrightarrow> ns ! i \<or> i = j"
  by (cases "j = i") simp_all

lemma mark_length: "length (foldl (\<lambda>ns e. ns[h_slot (snd e) := True]) ns es) = length ns"
  by (induction es arbitrary: ns) simp_all

lemma mark_nodes:
  "i < length ns \<Longrightarrow> foldl (\<lambda>ns e. ns[h_slot (snd e) := True]) ns es ! i \<longleftrightarrow> ns ! i \<or> i \<in> (\<lambda>e. h_slot (snd e)) ` set es"
  by (induction es arbitrary: ns) (auto simp: mark_one)

definition registry_held :: "registry \<Rightarrow> handle multiset" where
  "registry_held reg = mset (concat (map (\<lambda>c. case c of None \<Rightarrow> [] | Some c \<Rightarrow> cp_leases c) reg))"

lemma registry_split: "registry_held reg = mset (invalidated_leases position reg) + registry_held (map (invalidated position) reg)"
  by (induction reg) (auto simp: registry_held_def invalidated_leases_def invalidated_def split: option.splits)

lemma cut_ok:
  assumes ok: "store_ok w s hi" and ids: "\<forall>i < length (st_blocks s). bk_id (st_blocks s ! i) = i"
    and rw: "rewound position s hs sB" and rb: "reachable wB" and fr: "frame (w_repo w) (w_repo wB)"
    and hs: "\<forall>h \<in> set hs. (bk_history (st_blocks s ! h_slot h), h) \<in> set (st_history s) \<and>
      position < bk_history (st_blocks s ! h_slot h) + bk_tokens (st_blocks s ! h_slot h)"
    and tail: "\<forall>k h. (k, h) \<in> set (st_history s) \<longrightarrow> k < position \<longrightarrow>
       position < k + bk_tokens (st_blocks s ! h_slot h) \<longrightarrow> h \<in> set hs"
    and held: "held (st_leases sB) \<subseteq># w_leases wB"
    and s': "s' = (cut_history position sB)\<lparr>st_total := position, st_scores_pending := False, st_score_handles := [],
       st_pending := False, st_repo := Some (w_repo wB)\<rparr>"
  shows "store_ok wB s' position" and "\<forall>k h. (k, h) \<in> set (st_history s') \<longleftrightarrow> (k, h) \<in> set (st_history s) \<and> k < position"
    and "(k, h) \<in> set (st_history s) \<Longrightarrow> k < position \<Longrightarrow>
      bk_tokens (st_blocks s' ! h_slot h) = min (bk_tokens (st_blocks s ! h_slot h)) (position - k) \<and>
      bk_pos (st_blocks s' ! h_slot h) = bk_pos (st_blocks s ! h_slot h)"
proof -
  note d = store_okD [OF ok] and R = rewoundD [OF rw]
  let ?bt = "cf_block_tokens (st_cfg s)" and ?n = "rp_capacity (w_repo w)"
  have f: "rp_capacity (w_repo wB) = ?n" "rp_block_tokens (w_repo wB) = ?bt" "rp_sequence (w_repo w) \<le> rp_sequence (w_repo wB)"
    using fr d(4) by (simp_all add: frame_def)
  have hist: "st_history s' = takeWhile (\<lambda>(k, _). k < position) (st_history s)"
    and nodes: "st_nodes s' = foldl (\<lambda>ns e. ns[h_slot (snd e) := True]) (st_nodes s) (dropWhile (\<lambda>(k, _). k < position) (st_history s))"
    and flds: "st_cfg s' = st_cfg s" "st_blocks s' = st_blocks sB" "st_leases s' = st_leases sB" "st_flags s' = st_flags sB"
      "st_repo s' = Some (w_repo wB)" "st_total s' = position"
    using R(1-3) by (simp_all add: s' cut_history_def)
  have set_hist: "set (st_history s') = {e \<in> set (st_history s). fst e < position}"
    unfolding hist by (rule dropWhile_from(2) [OF d(10)])
  then show mem: "\<forall>k h. (k, h) \<in> set (st_history s') \<longleftrightarrow> (k, h) \<in> set (st_history s) \<and> k < position" by auto
  have toks: "bk_tokens (st_blocks s' ! h_slot h) = min (bk_tokens (st_blocks s ! h_slot h)) (position - k) \<and>
      bk_pos (st_blocks s' ! h_slot h) = bk_pos (st_blocks s ! h_slot h)"
    if kh: "(k, h) \<in> set (st_history s)" and kp: "k < position" for k h
  proof -
    note e = store_ok_entry [OF ok kh, unfolded entry_ok_def Let_def, simplified]
    have i: "h_slot h < length (st_blocks s)" using e d(6) by simp
    have hk: "bk_history (st_blocks s ! h_slot h) = k" using e by simp
    have "?bt \<le> UINT32_MAX" using slot_row_bound [OF ok, of "h_slot h"] e by (simp add: INT32_MAX_def UINT32_MAX_def)
    show ?thesis
    proof (cases "h \<in> set hs")
      case True
      have lt: "position < k + bk_tokens (st_blocks s ! h_slot h)" using hs True hk by auto
      then have "position - k \<le> UINT32_MAX" using e \<open>?bt \<le> UINT32_MAX\<close> by linarith
      then have "rewind_keep (st_blocks s ! h_slot h) position = position - k"
        using kp hk by (simp add: rewind_keep_def u32_id)
      then show ?thesis using R(13) [OF True] R(10) [OF i] hk kp lt by (simp add: flds)
    next
      case False
      have "h_slot h \<notin> h_slot ` set hs"
      proof
        assume "h_slot h \<in> h_slot ` set hs"
        then obtain g where g: "g \<in> set hs" "h_slot g = h_slot h" by auto
        then have "g = h" using entry_slot_unique [OF ok _ kh] hs by blast
        then show False using False g(1) by simp
      qed
      moreover have "\<not> position < k + bk_tokens (st_blocks s ! h_slot h)" using tail kh kp False by blast
      ultimately show ?thesis using R(10,11) [OF i] by (simp add: flds)
    qed
  qed
  then show "(k, h) \<in> set (st_history s) \<Longrightarrow> k < position \<Longrightarrow>
      bk_tokens (st_blocks s' ! h_slot h) = min (bk_tokens (st_blocks s ! h_slot h)) (position - k) \<and>
      bk_pos (st_blocks s' ! h_slot h) = bk_pos (st_blocks s ! h_slot h)" .
  have node: "st_nodes s' ! i \<longleftrightarrow> st_nodes s ! i \<or> i \<in> (\<lambda>e. h_slot (snd e)) ` {e \<in> set (st_history s). position \<le> fst e}"
    if "i < ?n" for i
    unfolding nodes by (subst mark_nodes) (use that d(8) dropWhile_from(1) [OF d(10)] in simp_all)
  show "store_ok wB s' position"
  proof (rule store_okI)
    fix e assume "e \<in> set (st_history s')"
    then have "e \<in> {e \<in> set (st_history s). fst e < position}" by (simp only: set_hist)
    then obtain k h where e: "e = (k, h)" "(k, h) \<in> set (st_history s)" "k < position" by (cases e) auto
    note en = store_ok_entry [OF ok e(2), unfolded entry_ok_def Let_def, simplified]
    have i: "h_slot h < length (st_blocks s)" using en d(6) by simp
    have "\<not> st_nodes s' ! h_slot h"
    proof
      assume "st_nodes s' ! h_slot h"
      then obtain x where x: "x \<in> set (st_history s)" "position \<le> fst x" "h_slot (snd x) = h_slot h"
        using node [of "h_slot h"] en by auto
      have "(fst x, snd x) \<in> set (st_history s)" using x(1) by simp
      then have "fst x = k" using entry_slot_unique [OF ok _ e(2) x(3)] by blast
      then show False using x(2) e(3) by simp
    qed
    moreover have "0 < min (bk_tokens (st_blocks s ! h_slot h)) (position - k)"
      "min (bk_tokens (st_blocks s ! h_slot h)) (position - k) \<le> ?bt"
      "k + min (bk_tokens (st_blocks s ! h_slot h)) (position - k) \<le> position" using en e(3) by (auto simp: min_def)
    ultimately show "entry_ok s' (rp_capacity (w_repo wB)) position e"
      using toks [OF e(2,3)] en e(1) R(8,9) [OF i] f(1) by (simp add: entry_ok_def Let_def flds)
  next
    fix i assume i: "i < rp_capacity (w_repo wB)" "\<not> st_nodes s' ! i"
    have il: "i < length (st_blocks s)" using i(1) f(1) d(6) by simp
    have ns: "\<not> st_nodes s ! i" "\<not> (\<exists>e \<in> set (st_history s). position \<le> fst e \<and> h_slot (snd e) = i)"
      using node [of i] i f(1) by auto
    obtain h where h: "(bk_history (st_blocks s ! i), h) \<in> set (st_history s)" "h_slot h = i"
      using store_ok_node [OF ok, of i] i(1) f(1) ns(1) by auto
    have "bk_history (st_blocks s ! i) < position" using ns(2) h by fastforce
    then show "\<exists>h. (bk_history (st_blocks s' ! i), h) \<in> set (st_history s') \<and> h_slot h = i"
      using h mem R(9) [OF il] by (intro exI [of _ h]) (simp add: flds)
  next
    fix i assume "i < rp_capacity (w_repo wB)"
    then have i: "i < ?n" "i < length (st_blocks s)" using f(1) d(6) by simp_all
    show "bk_generation (st_blocks s' ! i) \<le> rp_sequence (w_repo wB)"
      using store_ok_generation [OF ok i(1)] R(8) [OF i(2)] f(3) by (simp add: flds)
  next
    fix i h assume i0: "i < rp_capacity (w_repo wB)" and l: "st_leases s' ! i = Some h"
    then have i: "i < ?n" "i < length (st_blocks s)" using f(1) d(6) by simp_all
    have "st_leases s ! i = Some h"
    proof (cases "i \<in> h_slot ` set hs")
      case True
      then obtain g where g: "g \<in> set hs" "i = h_slot g" by auto
      show ?thesis using R(14,15) [OF g(1)] l g(2) by (cases "bk_history (st_blocks s ! i) < position") (auto simp: flds)
    next
      case False
      then show ?thesis using R(12) [OF i(2)] l by (simp add: flds)
    qed
    then show "h_slot h = i \<and> h_generation h = bk_generation (st_blocks s' ! i)"
      using store_ok_lease [OF ok i(1)] R(8) [OF i(2)] by (simp add: flds)
  next
    show "sorted_wrt (<) (map fst (st_history s'))"
      using d(10) unfolding hist by (metis takeWhile_eq_take take_map sorted_wrt_take)
  qed (use rb d f R(4-6) held in \<open>simp_all add: flds nodes mark_length\<close>)
qed

lemma rewind_run:
  assumes ok: "store_ok w s (st_total s)" and ids: "\<forall>i < length (st_blocks s). bk_id (st_blocks s ! i) = i"
    and cl: "held (st_leases s) + registry_held reg \<subseteq># w_leases w"
    and p: "prepare_repository_rewind s position = (s1, Inr rw)"
  shows "\<exists>s2 rw' w'. rewind_commit s1 reg rw = (s2, map (invalidated position) reg, rw', Inr ()) \<and>
    store_ok w' (rewind_destroy s2 rw') position \<and> st_total (rewind_destroy s2 rw') = position \<and>
    \<not> st_pending (rewind_destroy s2 rw') \<and>
    held (st_leases (rewind_destroy s2 rw')) + registry_held (map (invalidated position) reg) \<subseteq># w_leases w' \<and>
    (\<forall>p q. stored_at (rewind_destroy s2 rw') p q \<longleftrightarrow> stored_at s p q \<and> p < position)"
proof -
  note d = store_okD [OF ok]
  let ?reg' = "map (invalidated position) reg"
  obtain w1 hs where P: "reachable w1" "s1 = s\<lparr>st_repo := Some (w_repo w1), st_pending := True\<rparr>" "frame (w_repo w) (w_repo w1)"
    "live (w_repo w1) = live (w_repo w)" "held (st_leases s) + registry_held reg + mset hs \<subseteq># w_leases w1" "position \<le> st_total s"
    "rw = \<lparr>rw_open = True, rw_position = position,
      rw_captured = \<lparr>sr_spans = map (captured_span s) hs, sr_leases = hs\<rparr>, rw_discarded = map (discarded_span s position) hs\<rparr>"
    "distinct (map h_slot hs)"
    "\<forall>h \<in> set hs. (bk_history (st_blocks s ! h_slot h), h) \<in> set (st_history s) \<and> live (w_repo w) h \<and>
       position < bk_history (st_blocks s ! h_slot h) + bk_tokens (st_blocks s ! h_slot h)"
    "\<forall>k h. (k, h) \<in> set (st_history s) \<longrightarrow> k < position \<longrightarrow>
       position < k + bk_tokens (st_blocks s ! h_slot h) \<longrightarrow> h \<in> set hs"
    using prepare_rewind_ok [OF ok p cl] by (elim exE conjE) (rule that)
  have "held (st_leases s) + registry_held ?reg' + mset hs + mset (invalidated_leases position reg) \<subseteq># w_leases w1"
    using P(5) unfolding registry_split [of reg position] by (simp add: ac_simps)
  from drop_list [OF P(1) this] obtain wA where A: "reachable wA"
    "w_repo wA = drop_leases (w_repo w1) (invalidated_leases position reg)"
    "held (st_leases s) + registry_held ?reg' + mset hs \<subseteq># w_leases wA"
    "live (w_repo wA) = live (w_repo w1)" "frame (w_repo w1) (w_repo wA)" by blast
  define sA where "sA = drop_all s1 (invalidated_leases position reg)"
  have sA: "sA = s\<lparr>st_repo := Some (w_repo wA), st_pending := True\<rparr>" by (simp add: sA_def drop_all_def P(2) A(2))
  define sps where "sps = map (captured_span s) hs"
  have sps: "map ss_handle sps = hs" by (simp add: sps_def comp_def captured_span_def Let_def)
  define sB where "sB = foldl (rewind_span position) sA sps"
  have sl: "\<forall>h \<in> set hs. h_slot h < length (st_blocks s)"
  proof
    fix h assume "h \<in> set hs"
    then have "(bk_history (st_blocks s ! h_slot h), h) \<in> set (st_history s)" using P(9) by blast
    from store_ok_entry [OF ok this] show "h_slot h < length (st_blocks s)" using d(6) by (simp add: entry_ok_def Let_def)
  qed
  have fold: "\<exists>w'. reachable w' \<and> st_repo sB = Some (w_repo w') \<and> frame (w_repo wA) (w_repo w') \<and>
    (registry_held ?reg' + mset hs) + held (st_leases sB) \<subseteq># w_leases w' \<and> rewound position sA (map ss_handle sps) sB \<and>
    (\<forall>g. live (w_repo w') g \<longrightarrow> live (w_repo wA) g) \<and>
    (\<forall>g. live (w_repo wA) g \<longrightarrow> (g \<in> set (map ss_handle sps) \<longrightarrow> bk_history (st_blocks sA ! h_slot g) < position) \<longrightarrow> live (w_repo w') g)"
    by (rule rewind_fold_ok [OF A(1) _ _ _ _ _ _ sB_def])
      (use ids A(3) d(6,7) sl P(8) in \<open>simp_all add: sps sA ac_simps del: map_map\<close>)
  then obtain wB where B: "reachable wB" "st_repo sB = Some (w_repo wB)" "frame (w_repo wA) (w_repo wB)"
    "(registry_held ?reg' + mset hs) + held (st_leases sB) \<subseteq># w_leases wB" "rewound position sA (map ss_handle sps) sB"
    "\<forall>g. live (w_repo wB) g \<longrightarrow> live (w_repo wA) g"
    "\<forall>g. live (w_repo wA) g \<longrightarrow> (g \<in> set (map ss_handle sps) \<longrightarrow> bk_history (st_blocks sA ! h_slot g) < position) \<longrightarrow> live (w_repo wB) g"
    by (elim exE conjE)
  have "held (st_leases sB) + registry_held ?reg' + mset hs \<subseteq># w_leases wB" using B(4) by (simp add: ac_simps)
  from drop_list [OF B(1) this] obtain wC where C: "reachable wC" "w_repo wC = drop_leases (w_repo wB) hs"
    "held (st_leases sB) + registry_held ?reg' \<subseteq># w_leases wC" "live (w_repo wC) = live (w_repo wB)"
    "frame (w_repo wB) (w_repo wC)" by blast
  define s2 where "s2 = (cut_history position sB)\<lparr>st_total := position, st_scores_pending := False, st_score_handles := [],
       st_pending := False\<rparr>"
  define rw' where "rw' = rw\<lparr>rw_open := False\<rparr>"
  have commit: "rewind_commit s1 reg rw = (s2, ?reg', rw', Inr ())"
    by (simp add: rewind_commit_def Let_def P(7) sA_def [symmetric] sps_def [symmetric] sB_def [symmetric] s2_def rw'_def)
  define s3 where "s3 = rewind_destroy s2 rw'"
  have s3: "s3 = (cut_history position sB)\<lparr>st_total := position, st_scores_pending := False, st_score_handles := [],
       st_pending := False, st_repo := Some (w_repo wC)\<rparr>"
    by (simp add: s3_def rewind_destroy_def s2_def rw'_def P(7) drop_all_def cut_history_def B(2) C(2))
  have rws: "rewound position s hs sB" using B(5) unfolding sps by (simp add: rewound_def sA)
  have fr: "frame (w_repo w) (w_repo wC)"
    by (rule frame_trans [OF P(3) frame_trans [OF A(5) frame_trans [OF B(3) C(5)]]])
  have hs: "\<forall>h \<in> set hs. (bk_history (st_blocks s ! h_slot h), h) \<in> set (st_history s) \<and>
      position < bk_history (st_blocks s ! h_slot h) + bk_tokens (st_blocks s ! h_slot h)" using P(9) by blast
  have hl: "held (st_leases sB) \<subseteq># w_leases wC" using C(3) by (rule mset_subset_eq_add_left [THEN subset_mset.order_trans])
  note K = cut_ok [OF ok ids rws C(1) fr hs P(10) hl s3]
  have lv: "live (w_repo wC) h \<longleftrightarrow> live (w_repo w) h" if kh: "(k, h) \<in> set (st_history s)" "k < position" for k h
  proof -
    have "bk_history (st_blocks s ! h_slot h) = k" using store_ok_entry [OF ok kh(1)] by (simp add: entry_ok_def Let_def)
    then show ?thesis using B(6,7) kh(2) P(4) A(4) C(4) by (auto simp: sA)
  qed
  have st: "stored_at s3 p q \<longleftrightarrow> stored_at s p q \<and> p < position" for p q
  proof -
    have r3: "st_repo s3 = Some (w_repo wC)" by (simp add: s3)
    show ?thesis
    proof
      assume "stored_at s3 p q"
      then obtain k h where kh: "(k, h) \<in> set (st_history s3)" "live (w_repo wC) h" "k \<le> p"
        "p < k + bk_tokens (st_blocks s3 ! h_slot h)" "q = bk_pos (st_blocks s3 ! h_slot h) + (p - k)"
        using stored_at_iff [OF r3] by blast
      have e: "(k, h) \<in> set (st_history s)" "k < position" using K(2) kh(1) by blast+
      have "stored_at s p q" unfolding stored_at_iff [OF d(2)]
        by (rule exI [of _ k], rule exI [of _ h]) (use kh e lv [OF e] K(3) [OF e] in auto)
      moreover have "p < position" using kh(3,4) e(2) K(3) [OF e] by auto
      ultimately show "stored_at s p q \<and> p < position" by blast
    next
      assume a: "stored_at s p q \<and> p < position"
      then obtain k h where kh: "(k, h) \<in> set (st_history s)" "live (w_repo w) h" "k \<le> p"
        "p < k + bk_tokens (st_blocks s ! h_slot h)" "q = bk_pos (st_blocks s ! h_slot h) + (p - k)"
        using stored_at_iff [OF d(2)] by blast
      have kp: "k < position" using kh(3) a by simp
      have e3: "(k, h) \<in> set (st_history s3)" using K(2) kh(1) kp by blast
      show "stored_at s3 p q" unfolding stored_at_iff [OF r3]
        by (rule exI [of _ k], rule exI [of _ h]) (use kh e3 a lv [OF kh(1) kp] K(3) [OF kh(1) kp] in auto)
    qed
  qed
  have fin: "st_total s3 = position" "\<not> st_pending s3" "st_leases s3 = st_leases sB"
    by (simp_all add: s3 cut_history_def)
  have leases: "held (st_leases s3) + registry_held ?reg' \<subseteq># w_leases wC" unfolding fin(3) by (rule C(3))
  show ?thesis
    by (rule exI [of _ s2], rule exI [of _ rw'], rule exI [of _ wC], unfold s3_def [symmetric])
      (use commit K(1) fin(1,2) leases st in blast)
qed

lemma discarded_rows:
  assumes ok: "store_ok w s (st_total s)" and p: "prepare_repository_rewind s position = (s1, Inr rw)"
    and un: "list_all (\<lambda>e. refs (control (w_repo w) (h_slot (snd e))) \<noteq> ref_mask) (st_history s)"
  shows "(\<exists>sp \<in> set (rw_discarded rw). ss_storage sp \<le> q \<and> q < ss_storage sp + ss_count sp) \<longleftrightarrow>
    (\<exists>p. position \<le> p \<and> stored_at s p q)"
proof -
  note d = store_okD [OF ok]
  obtain hs where P: "rw_discarded rw = map (discarded_span s position) hs"
    "\<forall>h \<in> set hs. (bk_history (st_blocks s ! h_slot h), h) \<in> set (st_history s) \<and> live (w_repo w) h \<and>
       position < bk_history (st_blocks s ! h_slot h) + bk_tokens (st_blocks s ! h_slot h)"
    "\<forall>k h. (k, h) \<in> set (st_history s) \<longrightarrow> k < position \<longrightarrow>
       position < k + bk_tokens (st_blocks s ! h_slot h) \<longrightarrow> h \<in> set hs"
    "\<forall>k h. (k, h) \<in> set (st_history s) \<longrightarrow> live (w_repo w) h \<longrightarrow> refs (control (w_repo w) (h_slot h)) \<noteq> ref_mask \<longrightarrow>
       position \<le> k \<longrightarrow> h \<in> set hs"
    using prepare_rewind_ok [OF ok p, of "{#}"] by auto
  have span: "discarded_span s position h = \<lparr>ss_history = k + (position - k), ss_storage = bk_pos (st_blocks s ! h_slot h) + (position - k),
      ss_count = bk_tokens (st_blocks s ! h_slot h) - (position - k), ss_handle = h\<rparr>"
    if kh: "(k, h) \<in> set (st_history s)" and lt: "position < k + bk_tokens (st_blocks s ! h_slot h)" for k h
  proof -
    note e = store_ok_entry [OF ok kh, unfolded entry_ok_def Let_def, simplified]
    have "position - k \<le> bk_tokens (st_blocks s ! h_slot h)" using lt by linarith
    moreover have "bk_tokens (st_blocks s ! h_slot h) \<le> UINT32_MAX"
      using slot_row_bound [OF ok, of "h_slot h"] e by (simp add: INT32_MAX_def UINT32_MAX_def)
    ultimately have "rewind_keep (st_blocks s ! h_slot h) position = position - k"
      using e u32_id [of "position - k"] by (auto simp: rewind_keep_def)
    then show ?thesis using e entry_row(1) [OF ok kh \<open>position - k \<le> _\<close>] by (simp add: discarded_span_def Let_def)
  qed
  show ?thesis
  proof
    assume "\<exists>sp \<in> set (rw_discarded rw). ss_storage sp \<le> q \<and> q < ss_storage sp + ss_count sp"
    then obtain h where h: "h \<in> set hs" "ss_storage (discarded_span s position h) \<le> q"
      "q < ss_storage (discarded_span s position h) + ss_count (discarded_span s position h)" unfolding P(1) by auto
    define k where "k = bk_history (st_blocks s ! h_slot h)"
    have kh: "(k, h) \<in> set (st_history s)" "live (w_repo w) h" "position < k + bk_tokens (st_blocks s ! h_slot h)"
      using P(2) h(1) by (auto simp: k_def)
    define j where "j = q - bk_pos (st_blocks s ! h_slot h)"
    have j: "q = bk_pos (st_blocks s ! h_slot h) + j" "position - k \<le> j" "j < bk_tokens (st_blocks s ! h_slot h)"
      using h(2,3) kh(3) unfolding span [OF kh(1,3)] by (auto simp: j_def)
    have "stored_at s (k + j) q"
      unfolding stored_at_iff [OF d(2)] by (rule exI [of _ k], rule exI [of _ h]) (use kh j in simp)
    moreover have "position \<le> k + j" using j(2) by simp
    ultimately show "\<exists>p. position \<le> p \<and> stored_at s p q" by blast
  next
    assume "\<exists>p. position \<le> p \<and> stored_at s p q"
    then obtain p k h where kh: "position \<le> p" "(k, h) \<in> set (st_history s)" "live (w_repo w) h" "k \<le> p"
      "p < k + bk_tokens (st_blocks s ! h_slot h)" "q = bk_pos (st_blocks s ! h_slot h) + (p - k)"
      using stored_at_iff [OF d(2)] by blast
    have "refs (control (w_repo w) (h_slot h)) \<noteq> ref_mask" using un kh(2) by (auto simp: list_all_iff)
    then have h: "h \<in> set hs" using P(3,4) kh by (cases "k < position") auto
    have lt: "position < k + bk_tokens (st_blocks s ! h_slot h)" using kh(1,5) by simp
    have "discarded_span s position h \<in> set (rw_discarded rw)" unfolding P(1) using h by simp
    moreover have "ss_storage (discarded_span s position h) \<le> q \<and>
        q < ss_storage (discarded_span s position h) + ss_count (discarded_span s position h)"
      unfolding span [OF kh(2) lt] using kh by auto
    ultimately show "\<exists>sp \<in> set (rw_discarded rw). ss_storage sp \<le> q \<and> q < ss_storage sp + ss_count sp"
      by blast
  qed
qed

text \<open>
  Claim C8. A rewind cuts the history exactly at its position. Committed and destroyed, it leaves a well-formed
  directory that stores every earlier position at its old row and no later one; the rows it told the
  foreground to discard are exactly those of the later positions; every checkpoint behind the position
  is invalid for good, and the leases of the earlier ones are still held.
\<close>

theorem rewind_exact:
  assumes "store_ok w s (st_total s)" and ids: "map bk_id (st_blocks s) = [0..<block_count s]"
    and "held (st_leases s) + registry_held reg \<subseteq># w_leases w"
    and "prepare_repository_rewind s position = (s1, Inr rw)"
    and "list_all (\<lambda>e. refs (control (w_repo w) (h_slot (snd e))) \<noteq> ref_mask) (st_history s)"
  shows "(\<exists>s2 reg' rw' w'. rewind_commit s1 reg rw = (s2, reg', rw', Inr ()) \<and>
      store_ok w' (rewind_destroy s2 rw') position \<and> st_total (rewind_destroy s2 rw') = position \<and>
      \<not> st_pending (rewind_destroy s2 rw') \<and>
      held (st_leases (rewind_destroy s2 rw')) + registry_held reg' \<subseteq># w_leases w' \<and>
      (\<forall>p q. stored_at (rewind_destroy s2 rw') p q \<longleftrightarrow> stored_at s p q \<and> p < position) \<and>
      (\<forall>t c. Some c \<in> set reg' \<longrightarrow> position < cp_position c \<longrightarrow> \<not> checkpoint_valid t c) \<and>
      (\<forall>c. Some c \<in> set reg \<longrightarrow> cp_position c \<le> position \<longrightarrow> Some c \<in> set reg')) \<and>
    (\<forall>q. (\<exists>sp \<in> set (rw_discarded rw). ss_storage sp \<le> q \<and> q < ss_storage sp + ss_count sp) \<longleftrightarrow>
      (\<exists>p. position \<le> p \<and> stored_at s p q))"
proof -
  have "\<forall>i < length (st_blocks s). bk_id (st_blocks s ! i) = i"
  proof (intro allI impI)
    fix i assume i: "i < length (st_blocks s)"
    then have "map bk_id (st_blocks s) ! i = i" unfolding ids block_count_def by simp
    then show "bk_id (st_blocks s ! i) = i" using i by simp
  qed
  note R = rewind_run [OF assms(1) this assms(3,4)]
  have bad: "\<not> checkpoint_valid t c" if c: "Some c \<in> set (map (invalidated position) reg)" "position < cp_position c" for t c
  proof -
    obtain c0 where "c0 \<in> set reg" "invalidated position c0 = Some c" using c(1) by auto
    then have "\<not> cp_valid c" using c(2) by (auto simp: invalidated_def split: option.splits if_splits)
    then show ?thesis by (simp add: checkpoint_valid_def split: option.splits)
  qed
  have kept: "Some c \<in> set (map (invalidated position) reg)" if "Some c \<in> set reg" "cp_position c \<le> position" for c
    using that by (force simp: invalidated_def image_iff)
  show ?thesis using R bad kept discarded_rows [OF assms(1,4,5)] by blast
qed

lemma ex_rows_rewind: "\<exists>s1 rw. prepare_repository_rewind ex_rows 7 = (s1, Inr rw)"
  by (simp add: run_simps prepare_repository_rewind_def missing_tail_def pinnable_def rewind_keep_def)

theorem rewind_exact_witness:
  "\<exists>s1 rw s2 rw'. prepare_repository_rewind ex_rows 7 = (s1, Inr rw) \<and>
     rewind_commit s1 registry_new rw = (s2, registry_new, rw', Inr ()) \<and>
     stored_at (rewind_destroy s2 rw') 6 6 \<and> \<not> stored_at (rewind_destroy s2 rw') 7 7"
proof -
  obtain s1 rw where p: "prepare_repository_rewind ex_rows 7 = (s1, Inr rw)" using ex_rows_rewind by (elim exE)
  have ids: "map bk_id (st_blocks ex_rows) = [0..<block_count ex_rows]"
    by (simp add: ex_rows_def block_init_def block_count_def upt_rec)
  have held: "held (st_leases ex_rows) + registry_held registry_new \<subseteq># w_leases ex_live"
    by (simp add: ex_rows_def ex_bounded_def held_def registry_held_def registry_new_def checkpoint_capacity_def ex_live_def)
  have un: "list_all (\<lambda>e. refs (control (w_repo ex_live) (h_slot (snd e))) \<noteq> ref_mask) (st_history ex_rows)"
    by (simp add: ex_rows_def ex_bounded_def ex_live_def ex_repo_def ex_handle_def control_def state_refs_const
      ref_mask_def phase_shift_def)
  obtain s2 reg' rw' where r: "rewind_commit s1 registry_new rw = (s2, reg', rw', Inr ())"
    "\<forall>p q. stored_at (rewind_destroy s2 rw') p q \<longleftrightarrow> stored_at ex_rows p q \<and> p < 7"
    using rewind_exact [OF ex_rows_ok ids held p un] by blast
  have "rw_open rw" using p by (auto simp: prepare_repository_rewind_def Let_def split: if_splits option.splits prod.splits sum.splits)
  then have "reg' = map (invalidated (rw_position rw)) registry_new" using r(1) by (simp add: rewind_commit_def Let_def)
  then have "reg' = registry_new" by (simp add: registry_new_def invalidated_def)
  then have c: "rewind_commit s1 registry_new rw = (s2, registry_new, rw', Inr ())" using r(1) by simp
  have "stored_at (rewind_destroy s2 rw') 6 6" "\<not> stored_at (rewind_destroy s2 rw') 7 7"
    unfolding r(2) [rule_format] ex_rows_stored by simp_all
  then show ?thesis using p c by blast
qed

end
