(* ===== verification/Gc_Policy.thy ===== *)
theory Gc_Policy
  imports Complex_Main Prelude
begin

text \<open>
  The rule policy of both garbage collectors (\<open>src/include/qw3/kvmem_gc.hpp\<close>, \<open>src/src/kvmem_gc.cpp\<close>):
  what is known of a block, the level it is put on and its score. Floating point is real arithmetic.
\<close>

section \<open>Definitions\<close>

record gc_config =
  gc_max_live_blocks :: nat
  gc_half_life_steps :: nat
  gc_grace_steps :: nat
  gc_candidate_steps :: nat
  gc_low_observations :: nat
  gc_scan_blocks :: nat
  gc_batch_blocks :: nat
  gc_poll_ms :: nat

datatype gc_reason = GcOrdinary | GcDuplicate | GcSuperseded | GcLowScore | GcRecent | GcFrequent
  | GcHighScore | GcAnchor | GcUnknownScore | GcPinned | GcNotDurable

record gc_features =
  ft_birth :: nat
  ft_last_use :: nat
  ft_step :: nat
  ft_frequency :: real
  ft_semantic_heat :: real
  ft_low_streak :: nat
  ft_score_valid :: bool
  ft_high_score :: bool
  ft_duplicate :: bool
  ft_superseded :: bool
  ft_anchor :: bool

text \<open>\<open>reasons\<close> is the set of the flags or-ed together.\<close>

record gc_decision =
  dc_level :: nat
  dc_reasons :: "gc_reason set"
  dc_score :: real

definition elapsed :: "nat \<Rightarrow> nat \<Rightarrow> nat" where
  "elapsed now since = (if since < now then now - since else 0)"

definition decay :: "nat \<Rightarrow> nat \<Rightarrow> real" where
  "decay age half = 2 powr (- (real age / real (max 1 half)))"

definition unit_clamp :: "real \<Rightarrow> real" where
  "unit_clamp x = (if x < 0 then 0 else if 1 < x then 1 else x)"

definition gc_level :: "gc_features \<Rightarrow> gc_config \<Rightarrow> nat \<times> gc_reason set" where
  "gc_level f c =
     (let idle = elapsed (ft_step f) (max (ft_birth f) (ft_last_use f));
          high = ft_score_valid f \<and> ft_high_score f;
          unknown = (if ft_score_valid f then {} else {GcUnknownScore}) in
      if ft_anchor f then (4, {GcAnchor} \<union> unknown)
      else if idle < gc_grace_steps c \<or> 2 \<le> ft_frequency f \<or> high
      then (3, (if idle < gc_grace_steps c then {GcRecent} else {}) \<union> (if 2 \<le> ft_frequency f then {GcFrequent} else {}) \<union>
          (if high then {GcHighScore} else {}) \<union> unknown)
      else if ft_duplicate f then (0, {GcDuplicate} \<union> unknown)
      else if ft_superseded f \<or> (ft_score_valid f \<and> gc_low_observations c \<le> ft_low_streak f)
      then (1, {if ft_superseded f then GcSuperseded else GcLowScore} \<union> unknown)
      else (2, {GcOrdinary} \<union> unknown))"

definition gc_score :: "gc_features \<Rightarrow> gc_config \<Rightarrow> gc_decision" where
  "gc_score f c =
     (let recency = decay (elapsed (ft_step f) (max (ft_birth f) (ft_last_use f))) (gc_half_life_steps c);
          frequency = unit_clamp (ft_frequency f / 4);
          semantic = (if ft_score_valid f then unit_clamp (ft_semantic_heat f) else 0);
          (level, reasons) = gc_level f c in
      \<lparr>dc_level = level, dc_reasons = reasons,
       dc_score = 20 * real level + 19 * max (max recency frequency) semantic\<rparr>)"

section \<open>Levels and scores\<close>

lemma decay_bounds: "0 < decay age half" "decay age half \<le> 1"
proof -
  have "- (real age / real (max 1 half)) \<le> 0" by simp
  then have "2 powr (- (real age / real (max 1 half))) \<le> 2 powr (0 :: real)" by (intro powr_mono) simp_all
  then show "decay age half \<le> 1" by (simp add: decay_def)
qed (simp add: decay_def)

lemma unit_clamp_bounds: "0 \<le> unit_clamp x" "unit_clamp x \<le> 1"
  by (simp_all add: unit_clamp_def)

lemma gc_level_cases:
  "fst (gc_level f c) \<le> 4"
  "fst (gc_level f c) = 4 \<longleftrightarrow> ft_anchor f"
  by (simp_all add: gc_level_def Let_def)

lemma gc_score_level: "dc_level (gc_score f c) = fst (gc_level f c)"
  by (simp add: gc_score_def Let_def split: prod.splits)

lemma gc_score_band:
  "20 * real (dc_level (gc_score f c)) < dc_score (gc_score f c)"
  "dc_score (gc_score f c) \<le> 20 * real (dc_level (gc_score f c)) + 19"
  using decay_bounds [of "elapsed (ft_step f) (max (ft_birth f) (ft_last_use f))" "gc_half_life_steps c"]
    unit_clamp_bounds [of "ft_frequency f / 4"] unit_clamp_bounds [of "ft_semantic_heat f"]
  by (auto simp: gc_score_def Let_def split: prod.splits)

text \<open>
  A lower level is always a lower score: whatever the recency, frequency and semantic heat, duplicates go
  before superseded blocks, those before ordinary ones, and retained blocks last; only anchors have
  the level that is never retired.
\<close>

theorem score_respects_levels:
  assumes "dc_level (gc_score f c) < dc_level (gc_score g c')"
  shows "dc_score (gc_score f c) < dc_score (gc_score g c') \<and> (dc_level (gc_score f c) = 4 \<longleftrightarrow> ft_anchor f) \<and>
    0 < dc_score (gc_score f c) \<and> dc_score (gc_score g c') \<le> 99"
proof -
  have "real (dc_level (gc_score f c)) + 1 \<le> real (dc_level (gc_score g c'))" using assms by simp
  moreover have "dc_level (gc_score g c') \<le> 4" "dc_level (gc_score f c) = 4 \<longleftrightarrow> ft_anchor f"
    using gc_level_cases [of g c'] gc_level_cases [of f c] by (simp_all add: gc_score_level)
  moreover have "real (dc_level (gc_score g c')) \<le> 4" using calculation(2) by simp
  ultimately show ?thesis using gc_score_band [of f c] gc_score_band [of g c'] by (auto intro: le_less_trans)
qed

definition ex_features :: gc_features where
  "ex_features = \<lparr>ft_birth = 0, ft_last_use = 3, ft_step = 40, ft_frequency = 0, ft_semantic_heat = 0, ft_low_streak = 0,
     ft_score_valid = False, ft_high_score = False, ft_duplicate = True, ft_superseded = False, ft_anchor = False\<rparr>"

definition ex_gc_config :: gc_config where
  "ex_gc_config = \<lparr>gc_max_live_blocks = 4, gc_half_life_steps = 8, gc_grace_steps = 4, gc_candidate_steps = 2,
     gc_low_observations = 3, gc_scan_blocks = 256, gc_batch_blocks = 64, gc_poll_ms = 25\<rparr>"

theorem score_respects_levels_witness:
  "dc_level (gc_score ex_features ex_gc_config) = 0 \<and>
   dc_score (gc_score ex_features ex_gc_config) < dc_score (gc_score (ex_features\<lparr>ft_frequency := 2\<rparr>) ex_gc_config)"
proof -
  have a: "dc_level (gc_score ex_features ex_gc_config) = 0"
    "dc_level (gc_score (ex_features\<lparr>ft_frequency := 2\<rparr>) ex_gc_config) = 3"
    by (simp_all add: gc_score_def gc_level_def ex_features_def ex_gc_config_def elapsed_def)
  then have "dc_level (gc_score ex_features ex_gc_config) < dc_level (gc_score (ex_features\<lparr>ft_frequency := 2\<rparr>) ex_gc_config)"
    by simp
  from score_respects_levels [OF this] a show ?thesis by simp
qed

end
