(* ===== verification/Repository_Gc.thy ===== *)
theory Repository_Gc
  imports Gc_Policy Store_State Repository_Client
begin

text \<open>
  The retirement worker of the bounded repository, \<open>KvMemRepositoryGc\<close>
  (\<open>src/src/kvmem_repository_gc.cpp\<close>). What the foreground publishes through atomics is the record
  \<open>foreground\<close>; the rest of \<open>rgc\<close> belongs to the worker. \<open>tick\<close> is one round of it. Its parameters stand
  for what the code cannot decide: \<open>late_scan\<close> and \<open>late_pick\<close> for the clock having passed the
  deadline, \<open>release\<close> for the cleanup callback, and \<open>race n\<close> for whatever the foreground published between
  the snapshot and the compare-and-swap of the \<open>n\<close>th candidate. Counters do not wrap around.
\<close>

section \<open>State\<close>

definition Sealed :: "32 word" where "Sealed = 2"
definition Gpu :: "32 word" where "Gpu = 4"
definition Io :: "32 word" where "Io = 8"
definition Anchor :: "32 word" where "Anchor = 64"
definition Duplicate :: "32 word" where "Duplicate = 128"
definition Superseded :: "32 word" where "Superseded = 256"
definition Mandatory :: "32 word" where "Mandatory = 512"

datatype gc_mode = GcOff | GcShadow | GcDelete

record rgc_config =
  rc_policy :: gc_config
  rc_ready_low :: nat
  rc_ready_high :: nat
  rc_recent_tokens :: nat
  rc_candidate_ingest_tokens :: nat
  rc_tick_budget_us :: nat
  rc_mode :: gc_mode
  rc_background :: bool

text \<open>Versioned metadata of a slot; a snapshot is a copy of it.\<close>

record metadata =
  md_version :: nat
  md_generation :: nat
  md_birth :: nat
  md_last_use :: nat
  md_uses :: nat
  md_flags :: "32 word"

record score =
  sc_handle :: handle
  sc_value :: "real option"
  sc_selected :: bool

record scores =
  sq_sequence :: nat
  sq_step :: nat
  sq_epoch :: nat
  sq_entries :: "score list"

record foreground =
  fg_metadata :: "metadata list"
  fg_step :: nat
  fg_history_end :: nat
  fg_scores :: "scores option"
  fg_submitted :: nat

record history =
  hs_generation :: nat
  hs_uses :: nat
  hs_decay_step :: nat
  hs_score_step :: nat
  hs_score_sequence :: nat
  hs_candidate_step :: nat
  hs_candidate_version :: nat
  hs_candidate_history_end :: nat
  hs_high_step :: nat
  hs_frequency :: real
  hs_q :: "real list"
  hs_q_step :: "nat list"
  hs_low_streak :: nat
  hs_q_count :: nat
  hs_q_cursor :: nat
  hs_score_valid :: bool
  hs_high :: bool
  hs_shadow :: bool
  hs_pending :: bool
  hs_candidate_observed :: bool

record gc_candidate =
  cd_handle :: handle
  cd_version :: nat
  cd_score :: real
  cd_last_use :: nat
  cd_level :: nat

record gc_stats =
  gs_ticks :: nat
  gs_examined :: nat
  gs_retired :: nat
  gs_reclaimed :: nat
  gs_protected :: nat
  gs_deferred :: nat
  gs_failures :: nat
  gs_races :: nat
  gs_gaps :: nat
  gs_stale :: nat
  gs_shadow :: nat
  gs_shadow_reuses :: nat
  gs_fallback :: nat
  gs_incomplete :: nat
  gs_conflicts :: nat

record rgc =
  kg_config :: rgc_config
  kg_fore :: foreground
  kg_history :: "history list"
  kg_seen :: "nat list"
  kg_score_sequence :: nat
  kg_scorer_epoch :: nat
  kg_cursor :: nat
  kg_pending :: nat
  kg_shadow_live :: nat
  kg_pressure_scanned :: nat
  kg_replenishing :: bool
  kg_stats :: gc_stats

definition metadata_new :: metadata where
  "metadata_new = \<lparr>md_version = 0, md_generation = 0, md_birth = 0, md_last_use = 0, md_uses = 0, md_flags = 0\<rparr>"

definition history_new :: history where
  "history_new = \<lparr>hs_generation = 0, hs_uses = 0, hs_decay_step = 0, hs_score_step = 0, hs_score_sequence = 0,
     hs_candidate_step = 0, hs_candidate_version = 0, hs_candidate_history_end = 0, hs_high_step = 0,
     hs_frequency = 0, hs_q = [0, 0, 0], hs_q_step = [0, 0, 0], hs_low_streak = 0, hs_q_count = 0, hs_q_cursor = 0,
     hs_score_valid = False, hs_high = False, hs_shadow = False, hs_pending = False, hs_candidate_observed = False\<rparr>"

definition rgc_new :: "rgc_config \<Rightarrow> repo \<Rightarrow> bool \<Rightarrow> rgc result" where
  "rgc_new c r has_release =
     (let p = rc_policy c; n = rp_capacity r in
      if \<not> has_release \<or> rc_ready_low c = 0 \<or> rc_ready_high c < rc_ready_low c \<or> n < rc_ready_high c \<or>
         gc_poll_ms p = 0 \<or> gc_scan_blocks p = 0 \<or> gc_batch_blocks p = 0 \<or> gc_half_life_steps p = 0 \<or>
         gc_low_observations p = 0 \<or> rc_tick_budget_us c = 0
      then Inl InvalidArgument
      else Inr \<lparr>kg_config = c,
        kg_fore = \<lparr>fg_metadata = replicate n metadata_new, fg_step = 0, fg_history_end = 0, fg_scores = None, fg_submitted = 0\<rparr>,
        kg_history = replicate n history_new, kg_seen = replicate n 0, kg_score_sequence = 0, kg_scorer_epoch = 0,
        kg_cursor = 0, kg_pending = 0, kg_shadow_live = 0, kg_pressure_scanned = 0, kg_replenishing = False,
        kg_stats = \<lparr>gs_ticks = 0, gs_examined = 0, gs_retired = 0, gs_reclaimed = 0, gs_protected = 0, gs_deferred = 0,
          gs_failures = 0, gs_races = 0, gs_gaps = 0, gs_stale = 0, gs_shadow = 0, gs_shadow_reuses = 0,
          gs_fallback = 0, gs_incomplete = 0, gs_conflicts = 0\<rparr>\<rparr>)"

section \<open>The foreground's calls\<close>

definition begin_step :: "foreground \<Rightarrow> foreground \<times> nat" where
  "begin_step f = (f\<lparr>fg_step := fg_step f + 1\<rparr>, fg_step f + 1)"

definition set_history_end :: "foreground \<Rightarrow> nat \<Rightarrow> foreground" where
  "set_history_end f e = f\<lparr>fg_history_end := e\<rparr>"

definition published :: "metadata \<Rightarrow> nat \<Rightarrow> nat \<Rightarrow> 32 word \<Rightarrow> bool \<Rightarrow> metadata" where
  "published m generation now flags use =
     (let fresh = (md_generation m \<noteq> generation) in
      if \<not> fresh \<and> \<not> use \<and> md_flags m = flags then m
      else let m1 = (if fresh then m\<lparr>md_generation := generation, md_birth := now, md_last_use := now,
                 md_uses := (if now \<noteq> 0 then 1 else 0)\<rparr> else m);
               m2 = (if use \<and> md_last_use m1 < now then m1\<lparr>md_last_use := now, md_uses := md_uses m1 + 1\<rparr> else m1) in
        m2\<lparr>md_flags := flags, md_version := md_version m + 2\<rparr>)"

text \<open>The verifying pin is dropped on return, so the repository is left as it was.\<close>

definition publish :: "foreground \<Rightarrow> repo \<Rightarrow> lease option \<Rightarrow> 32 word \<Rightarrow> bool \<Rightarrow> foreground \<times> repo \<times> unit result" where
  "publish f r l flags use = (case l of None \<Rightarrow> (f, r, Inl InvalidArgument)
     | Some l \<Rightarrow> let h = ls_handle l in (case try_pin r h of
         (r', None) \<Rightarrow> (f, r', Inl InvalidArgument)
       | (r', Some v) \<Rightarrow>
           if ls_shared l \<noteq> rp_id r then (f, lease_reset r' v, Inl InvalidArgument)
           else (f\<lparr>fg_metadata := (fg_metadata f)[h_slot h :=
                   published (fg_metadata f ! h_slot h) (h_generation h) (fg_step f) flags use]\<rparr>,
                 lease_reset r' v, Inr ())))"

definition submit_scores :: "foreground \<Rightarrow> repo \<Rightarrow> scores option \<Rightarrow> foreground \<times> unit result" where
  "submit_scores f r sc = (case sc of None \<Rightarrow> (f, Inl InvalidArgument)
     | Some s \<Rightarrow>
         if sq_sequence s = 0 \<or> rp_capacity r < length (sq_entries s) \<or> sq_sequence s \<le> fg_submitted f
         then (f, Inl InvalidArgument)
         else (f\<lparr>fg_scores := Some s, fg_submitted := sq_sequence s\<rparr>, Inr ()))"

section \<open>The worker's view of a slot\<close>

definition snapshot :: "foreground \<Rightarrow> nat \<Rightarrow> metadata option" where
  "snapshot f slot = (let m = fg_metadata f ! slot in if odd (md_version m) then None else Some m)"

definition required_flags :: "32 word" where
  "required_flags = or Sealed (or RawBacked (or ValueBacked Indexed))"

definition pinned_flags :: "32 word" where
  "pinned_flags = or Gpu (or Io (or Mandatory Anchor))"

definition protected_now :: "rgc \<Rightarrow> block_record \<Rightarrow> metadata \<Rightarrow> bool" where
  "protected_now g rec m =
     (let recent = rc_recent_tokens (kg_config g); e = fg_history_end (kg_fore g);
          recent_begin = (if recent < e then e - recent else 0) in
      md_generation m \<noteq> h_generation (br_handle rec) \<or> and (md_flags m) required_flags \<noteq> required_flags \<or>
      and (md_flags m) pinned_flags \<noteq> 0 \<or> (0 < recent \<and> recent_begin < token_end rec))"

definition cool :: "nat \<Rightarrow> nat \<Rightarrow> real" where
  "cool age half = 2 powr (- (real age / real half))"

definition bump :: "((nat \<Rightarrow> nat) \<Rightarrow> gc_stats \<Rightarrow> gc_stats) \<Rightarrow> rgc \<Rightarrow> rgc" where
  "bump upd g = g\<lparr>kg_stats := upd Suc (kg_stats g)\<rparr>"

definition refresh :: "nat \<Rightarrow> metadata \<Rightarrow> nat \<Rightarrow> rgc \<Rightarrow> rgc" where
  "refresh slot m now g =
     (let h0 = kg_history g ! slot; changed = (hs_generation h0 \<noteq> md_generation m);
          g1 = (if changed then g\<lparr>kg_pending := kg_pending g - (if hs_pending h0 then 1 else 0),
                  kg_shadow_live := kg_shadow_live g - (if hs_shadow h0 then 1 else 0)\<rparr> else g);
          h1 = (if changed then history_new\<lparr>hs_generation := md_generation m, hs_decay_step := now\<rparr> else h0);
          h2 = h1\<lparr>hs_frequency := hs_frequency h1 *
                  cool (elapsed now (hs_decay_step h1)) (gc_half_life_steps (rc_policy (kg_config g))),
                hs_decay_step := now\<rparr>;
          revived = (hs_shadow h2 \<and> hs_candidate_version h2 \<noteq> md_version m);
          g2 = (if revived \<and> hs_uses h2 < md_uses m then bump gs_shadow_reuses_update g1 else g1);
          g3 = (if revived then g2\<lparr>kg_shadow_live := kg_shadow_live g2 - 1\<rparr> else g2);
          h3 = (if revived then h2\<lparr>hs_shadow := False\<rparr> else h2);
          h4 = (if md_uses m \<noteq> hs_uses h3
                then h3\<lparr>hs_frequency := hs_frequency h3 + (if hs_uses h3 < md_uses m then real (md_uses m - hs_uses h3) else 0),
                       hs_uses := md_uses m\<rparr> else h3);
          h5 = (if hs_candidate_version h4 \<noteq> md_version m
                then h4\<lparr>hs_candidate_observed := False, hs_candidate_version := md_version m\<rparr> else h4)
      in g3\<lparr>kg_history := (kg_history g3)[slot := h5]\<rparr>)"

section \<open>Scores\<close>

text \<open>The usable entries of a frame: finite, of the slot's current generation, pinnable and not seen before.\<close>

fun usable_scores :: "rgc \<Rightarrow> repo \<Rightarrow> nat \<Rightarrow> score list \<Rightarrow> rgc \<times> (score \<times> real) list" where
  "usable_scores g r sequence [] = (g, [])"
| "usable_scores g r sequence (s # rest) =
     (let h = sc_handle s; stale = usable_scores (bump gs_stale_update g) r sequence rest in
      case sc_value s of None \<Rightarrow> stale
      | Some v \<Rightarrow>
        if h_generation h = 0 \<or> rp_capacity r \<le> h_slot h then stale
        else case snapshot (kg_fore g) (h_slot h) of None \<Rightarrow> stale
        | Some m \<Rightarrow>
          if md_generation m \<noteq> h_generation h \<or> \<not> pinnable r h then stale
          else if kg_seen g ! h_slot h = sequence then stale
          else (case usable_scores (g\<lparr>kg_seen := (kg_seen g)[h_slot h := sequence]\<rparr>) r sequence rest of
            (g', out) \<Rightarrow> (g', (s, v) # out)))"

definition push_heat :: "history \<Rightarrow> bool \<Rightarrow> real \<Rightarrow> nat \<Rightarrow> history" where
  "push_heat h new_step heat now =
     (if new_step \<or> hs_q_count h = 0
      then let cursor = (if hs_q_count h = 0 then 0 else (hs_q_cursor h + 1) mod 3) in
        h\<lparr>hs_q_cursor := cursor, hs_q_count := min (hs_q_count h + 1) 3,
          hs_q := (hs_q h)[cursor := heat], hs_q_step := (hs_q_step h)[cursor := now]\<rparr>
      else h\<lparr>hs_q := (hs_q h)[hs_q_cursor h := max (hs_q h ! hs_q_cursor h) heat]\<rparr>)"

record frame_facts =
  ff_gap :: bool
  ff_distinct :: bool
  ff_selected :: nat
  ff_cutoff :: real

definition scored :: "rgc \<Rightarrow> scores \<Rightarrow> frame_facts \<Rightarrow> real \<Rightarrow> bool \<Rightarrow> history \<Rightarrow> history" where
  "scored g sc ff heat selected h =
     (let fresh = (hs_score_valid h \<and> elapsed (sq_step sc) (hs_score_step h) \<le> gc_half_life_steps (rc_policy (kg_config g)));
          new_step = (hs_score_sequence h = 0 \<or> hs_score_step h < sq_step sc);
          near = (0 < ff_selected ff \<and> ff_cutoff ff - 5 / 100 \<le> heat);
          h1 = (if ff_gap ff \<or> \<not> fresh \<or> hs_score_sequence h + 1 \<noteq> sq_sequence sc then h\<lparr>hs_low_streak := 0\<rparr> else h);
          h2 = (if ff_distinct ff \<and> heat < 2 / 10 \<and> \<not> near \<and> \<not> selected
                then (if new_step \<and> hs_low_streak h1 < UINT32_MAX then h1\<lparr>hs_low_streak := hs_low_streak h1 + 1\<rparr> else h1)
                else h1\<lparr>hs_low_streak := 0\<rparr>);
          h3 = (if ff_gap ff \<or> \<not> fresh then h2\<lparr>hs_q_count := 0, hs_q_cursor := 0\<rparr> else h2);
          h4 = (if ff_distinct ff then push_heat h3 new_step heat (sq_step sc) else h3);
          h5 = (if ff_distinct ff \<and> (8 / 10 \<le> heat \<or> near) then h4\<lparr>hs_high := True, hs_high_step := sq_step sc\<rparr> else h4)
      in h5\<lparr>hs_score_valid := ff_distinct ff, hs_score_step := sq_step sc, hs_score_sequence := sq_sequence sc\<rparr>)"

definition score_one :: "scores \<Rightarrow> frame_facts \<Rightarrow> real \<Rightarrow> rgc \<Rightarrow> score \<Rightarrow> rgc" where
  "score_one sc ff heat g s =
     (let slot = h_slot (sc_handle s) in
      case snapshot (kg_fore g) slot of None \<Rightarrow> bump gs_stale_update g
      | Some m \<Rightarrow>
        if md_generation m \<noteq> h_generation (sc_handle s) then bump gs_stale_update g
        else let g1 = refresh slot m (fg_step (kg_fore g)) g; h = kg_history g1 ! slot in
          if hs_score_sequence h = sq_sequence sc then bump gs_stale_update g1
          else g1\<lparr>kg_history := (kg_history g1)[slot := scored g1 sc ff heat (sc_selected s) h]\<rparr>)"

text \<open>Groups of equal scores, each with its midpoint percentile.\<close>

function score_groups :: "nat \<Rightarrow> nat \<Rightarrow> (score \<times> real) list \<Rightarrow> (real \<times> score list) list" where
  "score_groups n i [] = []"
| "score_groups n i (x # xs) =
     (let same = takeWhile (\<lambda>y. snd y = snd x) xs; e = i + 1 + length same;
          heat = ((real i + real e - 1) * (1 / 2)) / real (max 1 (n - 1)) in
      (heat, map fst (x # same)) # score_groups n e (drop (length same) xs))"
  by pat_completeness auto

termination
  by (relation "measure (\<lambda>(n, i, xs). length xs)") auto

definition begin_frame :: "scores \<Rightarrow> bool \<Rightarrow> rgc \<Rightarrow> rgc" where
  "begin_frame sc gap g =
     (if gap then (bump gs_gaps_update g)\<lparr>kg_history := map (\<lambda>h. h\<lparr>hs_low_streak := 0\<rparr>) (kg_history g)\<rparr> else g)
     \<lparr>kg_score_sequence := sq_sequence sc, kg_scorer_epoch := sq_epoch sc\<rparr>"

definition facts_of :: "bool \<Rightarrow> (score \<times> real) list \<Rightarrow> frame_facts" where
  "facts_of gap ranked =
     (let n = length ranked; selected = length (filter (\<lambda>s. sc_selected (fst s)) ranked) in
      \<lparr>ff_gap = gap, ff_distinct = (1 < n \<and> snd (hd ranked) \<noteq> snd (last ranked)), ff_selected = selected,
       ff_cutoff = 1 - real selected / real (max 1 n)\<rparr>)"

definition rank_frame :: "scores \<Rightarrow> bool \<Rightarrow> (score \<times> real) list \<Rightarrow> rgc \<Rightarrow> rgc" where
  "rank_frame sc gap ranked g =
     foldl (\<lambda>g hg. foldl (score_one sc (facts_of gap ranked) (fst hg)) g (snd hg)) g (score_groups (length ranked) 0 ranked)"

definition consume_scores :: "rgc \<Rightarrow> repo \<Rightarrow> rgc" where
  "consume_scores g r = (case fg_scores (kg_fore g) of None \<Rightarrow> g
     | Some sc \<Rightarrow>
       if sq_sequence sc \<le> kg_score_sequence g then g
       else let gap = (sq_sequence sc \<noteq> kg_score_sequence g + 1 \<or> sq_epoch sc \<noteq> kg_scorer_epoch g) in
         (case usable_scores (begin_frame sc gap g) r (sq_sequence sc) (sq_entries sc) of (g', usable) \<Rightarrow>
           rank_frame sc gap (sort_by (\<lambda>a b. snd a < snd b) usable) g'))"

section \<open>Releasing and scanning\<close>

definition gc_release :: "(block_record \<Rightarrow> bool result) \<Rightarrow> handle \<Rightarrow> rgc \<Rightarrow> repo \<Rightarrow> rgc \<times> repo" where
  "gc_release release handle g r =
     (let slot = h_slot handle; h0 = kg_history g ! slot;
          g1 = (if hs_shadow h0 then g\<lparr>kg_shadow_live := kg_shadow_live g - 1\<rparr> else g);
          h1 = h0\<lparr>hs_shadow := False\<rparr>;
          changed = (hs_generation h1 \<noteq> h_generation handle);
          g2 = (if changed \<and> hs_pending h1 then g1\<lparr>kg_pending := kg_pending g1 - 1\<rparr> else g1);
          h2 = (if changed then history_new\<lparr>hs_generation := h_generation handle\<rparr> else h1);
          g3 = (if \<not> hs_pending h2 then g2\<lparr>kg_pending := kg_pending g2 + 1\<rparr> else g2);
          h3 = h2\<lparr>hs_pending := True\<rparr>;
          put = (\<lambda>g h. g\<lparr>kg_history := (kg_history g)[slot := h]\<rparr>);
          done = (\<lambda>g. put (g\<lparr>kg_pending := kg_pending g - 1\<rparr>) (h3\<lparr>hs_pending := False\<rparr>)) in
      case try_reclaim r handle (Some release) of
        (r', Inl e) \<Rightarrow> (put (bump gs_failures_update g3) h3, r')
      | (r', Inr Reclaimed) \<Rightarrow> (done (bump gs_reclaimed_update g3), r')
      | (r', Inr NotRetired) \<Rightarrow> (done g3, r')
      | (r', Inr StaleHandle) \<Rightarrow> (done g3, r')
      | (r', Inr _) \<Rightarrow> (put (bump gs_deferred_update g3) h3, r'))"

definition features_of :: "rgc \<Rightarrow> nat \<Rightarrow> metadata \<Rightarrow> history \<Rightarrow> gc_features" where
  "features_of g now m h =
     (let half = gc_half_life_steps (rc_policy (kg_config g)) in
      \<lparr>ft_birth = md_birth m, ft_last_use = md_last_use m, ft_step = now, ft_frequency = hs_frequency h,
       ft_semantic_heat = foldl (\<lambda>heat j. if elapsed now (hs_q_step h ! j) \<le> half
           then max heat (hs_q h ! j * cool (elapsed now (hs_q_step h ! j)) half) else heat) 0 [0..<hs_q_count h],
       ft_low_streak = hs_low_streak h,
       ft_score_valid = (hs_score_valid h \<and> elapsed now (hs_score_step h) \<le> half),
       ft_high_score = (hs_high h \<and> elapsed now (hs_high_step h) \<le> half),
       ft_duplicate = (and (md_flags m) Duplicate \<noteq> 0), ft_superseded = (and (md_flags m) Superseded \<noteq> 0),
       ft_anchor = False\<rparr>)"

text \<open>
  The part of the scan after the pin: refresh, protection, the observation of a candidate and its grace.
\<close>

definition observe :: "nat \<Rightarrow> metadata \<Rightarrow> block_record \<Rightarrow> rgc \<Rightarrow> rgc \<times> gc_candidate option" where
  "observe now m rec g0 =
     (let handle = br_handle rec; slot = h_slot handle; c = kg_config g0; set = (\<lambda>g h. g\<lparr>kg_history := (kg_history g)[slot := h]\<rparr>);
          h = kg_history g0 ! slot in
      if protected_now g0 rec m
      then (set (bump gs_protected_update
          (if and (md_flags m) required_flags \<noteq> required_flags then bump gs_incomplete_update g0 else g0))
          (h\<lparr>hs_candidate_observed := False\<rparr>), None)
      else let d = gc_score (features_of g0 now m h) (rc_policy c) in
        if 4 \<le> dc_level d then (set g0 (h\<lparr>hs_candidate_observed := False\<rparr>), None)
        else let e = fg_history_end (kg_fore g0);
                 h1 = (if hs_candidate_observed h then h
                   else h\<lparr>hs_candidate_observed := True, hs_candidate_step := now, hs_candidate_history_end := e\<rparr>);
                 ingest = (rc_candidate_ingest_tokens c \<noteq> 0 \<and>
                   rc_candidate_ingest_tokens c \<le> elapsed e (hs_candidate_history_end h1));
                 g1 = set g0 h1 in
          if (\<not> ingest \<and> elapsed now (hs_candidate_step h1) < gc_candidate_steps (rc_policy c)) \<or> \<not> kg_replenishing g1
          then (g1, None)
          else (g1, Some \<lparr>cd_handle = handle, cd_version = md_version m, cd_score = dc_score d,
              cd_last_use = md_last_use m, cd_level = dc_level d\<rparr>))"

record scan =
  sn_gc :: rgc
  sn_repo :: repo
  sn_releases :: nat
  sn_candidates :: "gc_candidate list"

definition low_water :: "rgc \<Rightarrow> repo \<Rightarrow> rgc" where
  "low_water g r = (if ready_slots r + kg_shadow_live g < rc_ready_low (kg_config g) then g\<lparr>kg_replenishing := True\<rparr> else g)"

definition scan_advance :: "nat \<Rightarrow> rgc \<Rightarrow> rgc" where
  "scan_advance n g = bump gs_examined_update (g\<lparr>kg_cursor := (if kg_cursor g + 1 = n then 0 else kg_cursor g + 1),
     kg_pressure_scanned := kg_pressure_scanned g + (if kg_replenishing g \<and> kg_pressure_scanned g < n then 1 else 0)\<rparr>)"

definition scan_live :: "nat \<Rightarrow> nat \<Rightarrow> rgc \<Rightarrow> scan \<Rightarrow> scan" where
  "scan_live now slot g sn = (case try_pin_slot (sn_repo sn) slot of None \<Rightarrow> sn\<lparr>sn_gc := g\<rparr>
     | Some (r1, l) \<Rightarrow>
       (case snapshot (kg_fore g) slot of None \<Rightarrow> sn\<lparr>sn_gc := g, sn_repo := lease_reset r1 l\<rparr>
        | Some m \<Rightarrow>
          if md_generation m \<noteq> h_generation l then sn\<lparr>sn_gc := g, sn_repo := lease_reset r1 l\<rparr>
          else (case observe now m (lease_record r1 l) (low_water (refresh slot m now g) r1) of
            (g2, c) \<Rightarrow> sn\<lparr>sn_gc := g2, sn_repo := lease_reset r1 l,
              sn_candidates := sn_candidates sn @ (case c of None \<Rightarrow> [] | Some c \<Rightarrow> [c])\<rparr>)))"

definition scan_slot :: "(block_record \<Rightarrow> bool result) \<Rightarrow> nat \<Rightarrow> scan \<Rightarrow> scan" where
  "scan_slot release now sn =
     (let slot = kg_cursor (sn_gc sn); g = scan_advance (rp_capacity (sn_repo sn)) (sn_gc sn);
          retired = retired_at (sn_repo sn) slot in
      if h_generation retired \<noteq> 0
      then (if sn_releases sn < gc_batch_blocks (rc_policy (kg_config g))
            then case gc_release release retired g (sn_repo sn) of (g', r') \<Rightarrow>
              sn\<lparr>sn_gc := g', sn_repo := r', sn_releases := sn_releases sn + 1\<rparr>
            else sn\<lparr>sn_gc := g\<rparr>)
      else if rc_mode (kg_config g) = GcOff then sn\<lparr>sn_gc := g\<rparr>
      else scan_live now slot g sn)"

text \<open>The scan of \<open>n\<close> slots, stopping early once the deadline has passed; the first is always scanned.\<close>

fun scan_loop :: "(block_record \<Rightarrow> bool result) \<Rightarrow> (nat \<Rightarrow> bool) \<Rightarrow> nat \<Rightarrow> nat \<Rightarrow> nat \<Rightarrow> scan \<Rightarrow> scan" where
  "scan_loop release late now i 0 sn = sn"
| "scan_loop release late now i (Suc n) sn =
     (if 0 < i \<and> late i then sn else scan_loop release late now (i + 1) n (scan_slot release now sn))"

section \<open>Retiring\<close>

record picking =
  pk_gc :: rgc
  pk_repo :: repo
  pk_releases :: nat
  pk_picked :: nat

text \<open>
  One candidate up to \<open>continue\<close>: \<open>race\<close> is what the foreground publishes between the snapshot and the
  retirement. The worker's lease is dropped on every path.
\<close>

definition pick_one :: "(block_record \<Rightarrow> bool result) \<Rightarrow> (foreground \<Rightarrow> foreground) \<Rightarrow> gc_candidate \<Rightarrow> picking \<Rightarrow> picking" where
  "pick_one release race cand pk =
     (let g = pk_gc pk; r = pk_repo pk; c = kg_config g; handle = cd_handle cand; slot = h_slot handle;
          batch = gc_batch_blocks (rc_policy c) in
      if cd_level cand = 3 \<and> kg_pressure_scanned g < rp_capacity r then pk
      else case try_pin r handle of
        (r1, None) \<Rightarrow> pk\<lparr>pk_gc := bump gs_races_update g, pk_repo := r1\<rparr>
      | (r1, Some l) \<Rightarrow>
        (case snapshot (kg_fore g) slot of None \<Rightarrow> pk\<lparr>pk_gc := bump gs_races_update g, pk_repo := lease_reset r1 l\<rparr>
         | Some m \<Rightarrow>
           if md_version m \<noteq> cd_version cand \<or> protected_now g (lease_record r1 l) m
           then pk\<lparr>pk_gc := bump gs_races_update g, pk_repo := lease_reset r1 l\<rparr>
           else if rc_mode c = GcShadow then
             let h = kg_history g ! slot;
                 g1 = (if hs_shadow h then g
                   else (bump gs_shadow_update g)\<lparr>kg_shadow_live := kg_shadow_live g + 1,
                     kg_history := (kg_history g)[slot := h\<lparr>hs_shadow := True\<rparr>]\<rparr>) in
             pk\<lparr>pk_gc := g1, pk_repo := lease_reset r1 l, pk_picked := pk_picked pk + 1\<rparr>
           else let g1 = g\<lparr>kg_fore := race (kg_fore g)\<rparr> in
             (case retire_if_only_reader r1 (Some \<lparr>ls_shared = rp_id r1, ls_handle = l\<rparr>) of
               (r2, False) \<Rightarrow> pk\<lparr>pk_gc := bump gs_conflicts_update (bump gs_protected_update g1), pk_repo := lease_reset r2 l\<rparr>
             | (r2, True) \<Rightarrow>
               (case snapshot (kg_fore g1) slot of
                  None \<Rightarrow> pk\<lparr>pk_gc := bump gs_races_update g1,
                    pk_repo := lease_reset (fst (rescue r2 (Some \<lparr>ls_shared = rp_id r2, ls_handle = l\<rparr>))) l\<rparr>
                | Some a \<Rightarrow>
                  if md_version a \<noteq> md_version m \<or> fg_submitted (kg_fore g1) \<noteq> kg_score_sequence g1 \<or>
                     protected_now g1 (lease_record r2 l) a
                  then pk\<lparr>pk_gc := bump gs_races_update g1,
                    pk_repo := lease_reset (fst (rescue r2 (Some \<lparr>ls_shared = rp_id r2, ls_handle = l\<rparr>))) l\<rparr>
                  else let g2 = bump gs_retired_update g1;
                           g3 = (if cd_level cand = 3 then bump gs_fallback_update g2 else g2);
                           r3 = lease_reset r2 l; h = kg_history g3 ! slot in
                    if pk_releases pk < batch
                    then (case gc_release release handle g3 r3 of (g4, r4) \<Rightarrow>
                      \<lparr>pk_gc = g4, pk_repo = r4, pk_releases = pk_releases pk + 1, pk_picked = pk_picked pk + 1\<rparr>)
                    else pk\<lparr>pk_gc := (if hs_pending h then g3
                        else g3\<lparr>kg_pending := kg_pending g3 + 1, kg_history := (kg_history g3)[slot := h\<lparr>hs_pending := True\<rparr>]\<rparr>),
                      pk_repo := r3, pk_picked := pk_picked pk + 1\<rparr>))))"

fun pick_loop :: "(block_record \<Rightarrow> bool result) \<Rightarrow> (nat \<Rightarrow> bool) \<Rightarrow> (nat \<Rightarrow> foreground \<Rightarrow> foreground) \<Rightarrow> nat \<Rightarrow>
    gc_candidate list \<Rightarrow> picking \<Rightarrow> picking" where
  "pick_loop release late race k [] pk = pk"
| "pick_loop release late race k (c # cs) pk =
     (let g = pk_gc pk in
      if gc_batch_blocks (rc_policy (kg_config g)) \<le> pk_picked pk \<or> late k then pk
      else if rc_ready_high (kg_config g) \<le> ready_slots (pk_repo pk) + kg_pending g + kg_shadow_live g then pk
      else pick_loop release late race (k + 1) cs (pick_one release (race k) c pk))"

definition candidate_less :: "gc_candidate \<Rightarrow> gc_candidate \<Rightarrow> bool" where
  "candidate_less a b \<longleftrightarrow> (if cd_score a \<noteq> cd_score b then cd_score a < cd_score b else cd_last_use a < cd_last_use b)"

definition tick :: "(block_record \<Rightarrow> bool result) \<Rightarrow> (nat \<Rightarrow> bool) \<Rightarrow> (nat \<Rightarrow> bool) \<Rightarrow> (nat \<Rightarrow> foreground \<Rightarrow> foreground) \<Rightarrow>
    rgc \<Rightarrow> repo \<Rightarrow> rgc \<times> repo" where
  "tick release late_scan late_pick race g r =
     (let c = kg_config g;
          g1 = (if rc_mode c = GcOff then g else consume_scores g r);
          now = fg_step (kg_fore g1);
          ready = ready_slots r + kg_shadow_live g1;
          g2 = (if ready < rc_ready_low c then g1\<lparr>kg_replenishing := True\<rparr> else g1);
          g3 = (if rc_ready_high c \<le> ready then g2\<lparr>kg_replenishing := False, kg_pressure_scanned := 0\<rparr> else g2);
          sn = scan_loop release late_scan now 0 (min (gc_scan_blocks (rc_policy c)) (rp_capacity r))
            \<lparr>sn_gc = g3, sn_repo = r, sn_releases = 0, sn_candidates = []\<rparr>;
          pk = pick_loop release late_pick race 0 (sort_by candidate_less (sn_candidates sn))
            \<lparr>pk_gc = sn_gc sn, pk_repo = sn_repo sn, pk_releases = sn_releases sn, pk_picked = 0\<rparr> in
      (bump gs_ticks_update (pk_gc pk), pk_repo pk))"

end
