(* ===== verification/Repository_Gc_Safety.thy ===== *)
theory Repository_Gc_Safety
  imports Repository_Gc
begin

text \<open>
  What the retirement worker may do to the repository, for every foreground it runs beside: it keeps the
  directory reachable, and a block stops being live only in delete mode, without a lease, fully backed,
  unpinned, outside the recent window - as the foreground's metadata stand at the moment of retirement.
\<close>

section \<open>Calls that leave the live blocks alone\<close>

text \<open>\<open>leads w w'\<close>: a reachable world with the same objects alive outside the repository.\<close>

definition leads :: "world \<Rightarrow> repo \<Rightarrow> bool" where
  "leads w r \<longleftrightarrow> reachable (w\<lparr>w_repo := r\<rparr>) \<and> frame (w_repo w) r \<and> lease_record r = lease_record (w_repo w)"

lemma records_set_control [simp]: "lease_record (set_control r s v) = lease_record r"
proof (rule ext)
  show "lease_record (set_control r s v) h = lease_record r h" for h
    by (cases "s < length (rp_slots r)") (auto simp: lease_record_def set_control_def nth_list_update list_update_beyond)
qed

lemma records_update [simp]:
  "lease_record (r\<lparr>rp_reclaim_owner := b\<rparr>) = lease_record r"
  "lease_record (r\<lparr>rp_ring := q\<rparr>) = lease_record r" "lease_record (r\<lparr>rp_reclaimed := n\<rparr>) = lease_record r"
  by (simp_all add: fun_eq_iff lease_record_def)

lemma records_lease_reset [simp]: "lease_record (lease_reset r h) = lease_record r"
  by (simp add: lease_reset_def)

definition quiet :: "world \<Rightarrow> repo \<Rightarrow> bool" where
  "quiet w r \<longleftrightarrow> leads w r \<and> live r = live (w_repo w) \<and> ready_slots (w_repo w) \<le> ready_slots r"

lemma quiet_refl: "reachable w \<Longrightarrow> quiet w (w_repo w)"
  by (simp add: quiet_def leads_def world_same)

lemma quiet_trans: "quiet w r \<Longrightarrow> quiet (w\<lparr>w_repo := r\<rparr>) r' \<Longrightarrow> quiet w r'"
  by (auto simp: quiet_def leads_def intro: frame_trans)

lemma quiet_reachable: "quiet w r \<Longrightarrow> reachable (w\<lparr>w_repo := r\<rparr>)"
  by (simp add: quiet_def leads_def)

lemma ready_set_control [simp]: "ready_slots (set_control r s v) = ready_slots r"
  by (simp add: ready_slots_def)

lemma ready_lease_reset [simp]: "ready_slots (lease_reset r h) = ready_slots r"
  by (simp add: lease_reset_def)

text \<open>A pin that is dropped again.\<close>

lemma pin_slot_handle:
  assumes "reachable w" "try_pin_slot (w_repo w) s = Some (r1, l)"
  shows "h_slot l = s" and "live (w_repo w) l" and "live r1 = live (w_repo w)" and "frame (w_repo w) r1"
    and "reachable (w\<lparr>w_repo := r1, w_leases := add_mset l (w_leases w)\<rparr>)"
    and "lease_record r1 l = lease_record (w_repo w) l" and "br_handle (lease_record (w_repo w) l) = l"
    and "ready_slots r1 = ready_slots (w_repo w)"
proof -
  note inv = reachable_inv [OF assms(1)]
  have s: "s < rp_capacity (w_repo w)" and l: "l = br_handle (sl_record (rp_slots (w_repo w) ! s))"
    using assms(2) by (auto simp: try_pin_slot_def split: if_splits option.splits)
  obtain v where a: "acquire False (control (w_repo w) s) = Some v" and r: "r1 = set_control (w_repo w) s v"
    using assms(2) by (auto simp: try_pin_slot_def split: if_splits option.splits)
  have p: "phase (control (w_repo w) s) = Some Live" using a by (auto simp: acquire_def split: if_splits)
  have so: "slot_ok (rp_sequence (w_repo w)) s (rp_slots (w_repo w) ! s)
      (on_slot s (w_leases w + w_writers w)) (on_slot s (w_writers w))" by (rule world_invD(3) [OF inv s])
  then have g: "sl_generation (rp_slots (w_repo w) ! s) \<noteq> 0" using p by (auto simp: slot_ok_def control_def)
  then have l2: "l = \<lparr>h_slot = s, h_generation = sl_generation (rp_slots (w_repo w) ! s)\<rparr>" using so l by (simp add: slot_ok_def)
  then show "h_slot l = s" by simp
  show "live (w_repo w) l" using l2 g p s by (simp add: live_def lease_ok_def)
  show "live r1 = live (w_repo w)" unfolding r
    by (rule live_set_control [OF inv s]) (use acquire_Some [OF a] in metis)
  show "frame (w_repo w) r1" by (simp add: r)
  show "reachable (w\<lparr>w_repo := r1, w_leases := add_mset l (w_leases w)\<rparr>)"
    by (rule reachable.step [OF assms(1) wstep.pin [OF assms(2)]])
  have ls: "h_slot l = s" using l2 by simp
  show "lease_record r1 l = lease_record (w_repo w) l" "br_handle (lease_record (w_repo w) l) = l"
    unfolding lease_record_def ls using s slots_length [OF inv] l by (simp_all add: r)
  show "ready_slots r1 = ready_slots (w_repo w)" by (simp add: r)
qed

lemma pin_is_slot_pin: "try_pin r h = (r1, Some l) \<Longrightarrow> try_pin_slot r (h_slot h) = Some (r1, l) \<and> l = h"
  by (auto simp: try_pin_def split: option.splits if_splits)

lemma pinned_drop:
  assumes "reachable (w\<lparr>w_repo := r, w_leases := add_mset l (w_leases w)\<rparr>)"
  shows "reachable (w\<lparr>w_repo := lease_reset r l\<rparr>)" "live (lease_reset r l) = live r" "frame r (lease_reset r l)"
  using client_drop [OF assms, of l] by simp_all

lemma pin_drop_quiet:
  assumes "reachable w" "try_pin_slot (w_repo w) s = Some (r1, l)"
  shows "quiet w (lease_reset r1 l)"
proof -
  note P = pin_slot_handle [OF assms]
  note D = pinned_drop [OF P(5)]
  have "lease_record r1 = lease_record (w_repo w)"
    using assms(2) by (auto simp: try_pin_slot_def split: if_splits option.splits)
  then show ?thesis unfolding quiet_def leads_def using D P(3,8) frame_trans [OF P(4) D(3)] by simp
qed

section \<open>Releasing retired slots\<close>

lemma reclaim_quiet:
  assumes w: "reachable w" "w_reclaiming w = None" and t: "try_reclaim (w_repo w) h (Some f) = (r', res)"
  shows "quiet w r'"
proof (cases "(rp_capacity (w_repo w) \<le> h_slot h \<or> h_generation h = 0) \<or> (\<exists>x. reclaim_begin (w_repo w) h = Inl x)")
  case True
  then have "r' = w_repo w" using t by (auto simp: try_reclaim_def split: if_splits)
  then show ?thesis using quiet_refl [OF w(1)] by simp
next
  case False
  then have ok: "\<not> (rp_capacity (w_repo w) \<le> h_slot h \<or> h_generation h = 0)" by blast
  obtain r1 where r1: "reclaim_begin (w_repo w) h = Inr r1" using False by (cases "reclaim_begin (w_repo w) h") auto
  note inv = reachable_inv [OF w(1)]
  have s: "h_slot h < length (rp_slots (w_repo w))" using ok slots_length [OF inv] by simp
  define w1 where "w1 = w\<lparr>w_repo := r1, w_reclaiming := Some h\<rparr>"
  have w1: "reachable w1" unfolding w1_def by (rule reachable.step [OF w(1) wstep.reclaim_start [OF r1]])
  obtain v where v: "r1 = (set_control (w_repo w) (h_slot h) v)\<lparr>rp_reclaim_owner := True\<rparr>" "phase v \<noteq> Some Live"
    "phase (control (w_repo w) (h_slot h)) \<noteq> Some Live"
  proof -
    have d: "reclaimable (phase (control (w_repo w) (h_slot h)))" using r1 by (auto simp: reclaim_begin_def Let_def split: if_splits)
    then have nl: "phase (control (w_repo w) (h_slot h)) \<noteq> Some Live" by (auto simp: reclaimable_def)
    show ?thesis
    proof (cases "phase (control (w_repo w) (h_slot h)) = Some Releasing")
      case True
      have "set_control (w_repo w) (h_slot h) (control (w_repo w) (h_slot h)) = w_repo w"
        using s by (simp add: set_control_def control_def)
      then show ?thesis using r1 True nl
        by (intro that [of "control (w_repo w) (h_slot h)"]) (auto simp: reclaim_begin_def Let_def split: if_splits)
    next
      case False
      then show ?thesis using r1 nl
        by (intro that [of "state Releasing 0"]) (auto simp: reclaim_begin_def Let_def phase_state_const split: if_splits)
    qed
  qed
  have live1: "live (r1\<lparr>rp_reclaim_owner := False\<rparr>) = live (w_repo w)"
    using v s by (auto simp: fun_eq_iff live_def lease_ok_def control_def set_control_def nth_list_update)
  have fr1: "frame (w_repo w) (r1\<lparr>rp_reclaim_owner := False\<rparr>)" "ready_slots (r1\<lparr>rp_reclaim_owner := False\<rparr>) = ready_slots (w_repo w)"
    using v by (simp_all add: frame_def set_control_def ready_slots_def)
  have "reachable (w1\<lparr>w_repo := (w_repo w1)\<lparr>rp_reclaim_owner := False\<rparr>, w_reclaiming := None\<rparr>)"
    by (rule reachable.step [OF w1 wstep.reclaim_defer [where h = h]]) (simp add: w1_def)
  moreover have "w1\<lparr>w_repo := (w_repo w1)\<lparr>rp_reclaim_owner := False\<rparr>, w_reclaiming := None\<rparr> = w\<lparr>w_repo := r1\<lparr>rp_reclaim_owner := False\<rparr>\<rparr>"
    using w(2) by (cases w) (simp add: w1_def)
  ultimately have deferred: "quiet w (r1\<lparr>rp_reclaim_owner := False\<rparr>)"
    using live1 fr1 v(1) by (simp add: quiet_def leads_def)
  show ?thesis
  proof (cases "f (lease_record r1 h) = Inr True")
    case False
    then have "r' = r1\<lparr>rp_reclaim_owner := False\<rparr>"
      using t ok r1 by (auto simp: try_reclaim_def split: sum.splits bool.splits)
    then show ?thesis using deferred by simp
  next
    case True
    from reclaim_push_ok [OF w1, of h] obtain r2 where r2: "reclaim_finish r1 (h_slot h) = Inr r2"
      "phase (control r2 (h_slot h)) = Some Free" "ring_list (rp_ring r2) = ring_list (rp_ring r1) @ [h_slot h]"
      by (auto simp: w1_def)
    then have r': "r' = r2" using t ok r1 True by (simp add: try_reclaim_def)
    have "reachable (w1\<lparr>w_repo := r2, w_reclaiming := None\<rparr>)"
      by (rule reachable.step [OF w1 wstep.reclaim_done [where h = h]]) (simp_all add: w1_def r2)
    moreover have "w1\<lparr>w_repo := r2, w_reclaiming := None\<rparr> = w\<lparr>w_repo := r2\<rparr>" using w(2) by (cases w) (simp add: w1_def)
    ultimately have reach: "reachable (w\<lparr>w_repo := r2\<rparr>)" by simp
    obtain q where q: "r2 = (set_control r1 (h_slot h) (state Free 0))\<lparr>rp_ring := q, rp_reclaimed := u64 (rp_reclaimed r1 + 1),
        rp_reclaim_owner := False\<rparr>" using r2(1) by (auto simp: reclaim_finish_def split: sum.splits)
    have "live r2 = live (w_repo w)"
      using v s r2(2) by (auto simp: q fun_eq_iff live_def lease_ok_def control_def set_control_def nth_list_update phase_state_const)
    moreover have "frame (w_repo w) r2" using v by (simp add: q frame_def set_control_def)
    moreover have "ready_slots (w_repo w) \<le> ready_slots r2"
    proof -
      have ok0: "ring_ok (rp_ring (w_repo w))" "ring_ok (rp_ring r2)"
        using world_invD(1) [OF inv] world_invD(1) [OF reachable_inv [OF reach]] by (simp_all add: repo_ok_def)
      have "ring_list (rp_ring r1) = ring_list (rp_ring (w_repo w))" using v by (simp add: set_control_def)
      then show ?thesis using r2(3) ring_size_list [OF ok0(1)] ring_size_list [OF ok0(2)] by (simp add: ready_slots_def)
    qed
    moreover have "lease_record r2 = lease_record (w_repo w)"
      unfolding q v(1) by simp
    ultimately show ?thesis using reach r' by (simp add: quiet_def leads_def)
  qed
qed

section \<open>The scan\<close>

text \<open>The worker does not change its configuration or what the foreground published.\<close>

definition same_fore :: "rgc \<Rightarrow> rgc \<Rightarrow> bool" where
  "same_fore g g' \<longleftrightarrow> kg_config g' = kg_config g \<and> kg_fore g' = kg_fore g"

lemma same_fore_refl [simp]: "same_fore g g"
  by (simp add: same_fore_def)

lemma same_fore_trans: "same_fore a b \<Longrightarrow> same_fore b c \<Longrightarrow> same_fore a c"
  by (simp add: same_fore_def)

lemma bump_simps [simp]:
  "kg_config (bump upd g) = kg_config g" "kg_fore (bump upd g) = kg_fore g" "kg_history (bump upd g) = kg_history g"
  "kg_pending (bump upd g) = kg_pending g" "kg_shadow_live (bump upd g) = kg_shadow_live g"
  "kg_score_sequence (bump upd g) = kg_score_sequence g" "kg_pressure_scanned (bump upd g) = kg_pressure_scanned g"
  "kg_seen (bump upd g) = kg_seen g" "kg_replenishing (bump upd g) = kg_replenishing g"
  by (simp_all add: bump_def)

lemma let_fore:
  "(\<And>x. same_fore g (f x)) \<Longrightarrow> same_fore g (let x = s in f x)"
  "same_fore g s' \<Longrightarrow> (\<And>x. same_fore g x \<Longrightarrow> same_fore g (f' x)) \<Longrightarrow> same_fore g (let x = s' in f' x)"
  by (simp_all add: Let_def)

lemma refresh_same_fore: "same_fore g (refresh slot m now g)"
  unfolding refresh_def
  apply (rule let_fore(1), rule let_fore(1), rule let_fore(2), simp add: same_fore_def)
  apply (rule let_fore(1), rule let_fore(1), rule let_fore(1), rule let_fore(2), simp add: same_fore_def)
  apply (rule let_fore(2), simp add: same_fore_def)
  apply ((rule let_fore(1))+, simp add: same_fore_def)
  done

lemma refresh_fore [simp]: "kg_config (refresh slot m now g) = kg_config g" "kg_fore (refresh slot m now g) = kg_fore g"
  using refresh_same_fore [of g slot m now] by (simp_all add: same_fore_def)

lemma release_fore: "same_fore g (fst (gc_release release h g r))"
proof -
  obtain r' res where t: "try_reclaim r h (Some release) = (r', res)" by fastforce
  have fst_let: "fst (let x = s in f x) = (let x = s in fst (f x))" for s :: 'x and f :: "'x \<Rightarrow> rgc \<times> repo" by (simp add: Let_def)
  show ?thesis
    unfolding gc_release_def t fst_let
    apply (rule let_fore(1), rule let_fore(1), rule let_fore(2), simp add: same_fore_def)
    apply (rule let_fore(1), rule let_fore(1), rule let_fore(2), simp add: same_fore_def)
    apply (rule let_fore(1), rule let_fore(2), simp add: same_fore_def)
    apply (rule let_fore(1))
    apply (simp add: Let_def same_fore_def split: sum.split ReclaimResult.split)
    done
qed

lemma release_repo: "snd (gc_release release h g r) = fst (try_reclaim r h (Some release))"
  by (auto simp: gc_release_def Let_def split: prod.splits sum.splits ReclaimResult.splits)

lemma observe_fore: "same_fore g (fst (observe now m rec g))"
  by (auto simp: observe_def Let_def same_fore_def)

lemma usable_fore: "usable_scores g r sequence ss = (g', out) \<Longrightarrow> same_fore g g'"
proof (induction ss arbitrary: g g' out)
  case (Cons s ss)
  have "same_fore g g1" if "usable_scores (g\<lparr>kg_seen := x\<rparr>) r sequence ss = (g1, o1)" for x g1 o1
    using Cons.IH [OF that] by (simp add: same_fore_def)
  moreover have "same_fore g g1" if "usable_scores (bump upd g) r sequence ss = (g1, o1)" for upd g1 o1
    using Cons.IH [OF that] by (simp add: same_fore_def)
  ultimately show ?case using Cons.prems by (auto simp: Let_def split: option.splits prod.splits if_splits)
qed simp

lemma score_one_fore: "same_fore g (score_one sc ff heat g s)"
  by (auto simp: score_one_def Let_def same_fore_def split: option.splits)

lemma foldl_fore: "(\<And>g x. same_fore g (f g x)) \<Longrightarrow> same_fore g (foldl f g xs)"
  by (induction xs arbitrary: g) (auto intro: same_fore_trans)

lemma consume_fore: "same_fore g (consume_scores g r)"
proof (cases "fg_scores (kg_fore g)")
  case None
  then show ?thesis by (simp add: consume_scores_def)
next
  case (Some sc)
  have "same_fore g (begin_frame sc gap g)" for gap by (simp add: begin_frame_def same_fore_def)
  moreover have "same_fore g1 (rank_frame sc gap ranked g1)" for gap ranked g1
    unfolding rank_frame_def by (intro foldl_fore score_one_fore)
  ultimately have "same_fore g (rank_frame sc gap ranked g1)" if "usable_scores (begin_frame sc gap g) r q es = (g1, u)" for gap ranked g1 q es u
    using usable_fore [OF that] same_fore_trans by blast
  then show ?thesis using Some by (auto simp: consume_scores_def Let_def split: prod.splits)
qed

lemma scan_live_quiet:
  assumes "reachable (w\<lparr>w_repo := sn_repo sn\<rparr>)"
  shows "quiet (w\<lparr>w_repo := sn_repo sn\<rparr>) (sn_repo (scan_live now slot g sn)) \<and>
    same_fore g (sn_gc (scan_live now slot g sn))"
proof (cases "try_pin_slot (sn_repo sn) slot")
  case None
  then show ?thesis using quiet_refl [OF assms] by (simp add: scan_live_def)
next
  case (Some p)
  obtain r1 l where p: "try_pin_slot (sn_repo sn) slot = Some (r1, l)" using Some by (cases p) auto
  have q: "quiet (w\<lparr>w_repo := sn_repo sn\<rparr>) (lease_reset r1 l)" by (rule pin_drop_quiet [OF assms, of slot]) (simp add: p)
  have f: "same_fore g (fst (observe now m rec (low_water (refresh slot m now g) r1)))" for m rec
    by (rule same_fore_trans [OF _ observe_fore]) (simp add: low_water_def same_fore_def)
  show ?thesis
  proof (cases "snapshot (kg_fore g) slot")
    case None
    then show ?thesis using p q by (simp add: scan_live_def)
  next
    case (Some m)
    then show ?thesis using p q f [of m "lease_record r1 l"]
      by (cases "observe now m (lease_record r1 l) (low_water (refresh slot m now g) r1)") (simp add: scan_live_def)
  qed
qed

lemma scan_slot_quiet:
  assumes w: "reachable (w\<lparr>w_repo := sn_repo sn\<rparr>)" "w_reclaiming w = None"
  shows "quiet (w\<lparr>w_repo := sn_repo sn\<rparr>) (sn_repo (scan_slot release now sn)) \<and>
    same_fore (sn_gc sn) (sn_gc (scan_slot release now sn)) \<and>
    (rc_mode (kg_config (sn_gc sn)) = GcOff \<longrightarrow> sn_candidates (scan_slot release now sn) = sn_candidates sn)"
proof -
  define v where "v = w\<lparr>w_repo := sn_repo sn\<rparr>"
  define slot where "slot = kg_cursor (sn_gc sn)"
  define g where "g = scan_advance (rp_capacity (sn_repo sn)) (sn_gc sn)"
  define retired where "retired = retired_at (sn_repo sn) slot"
  have g: "same_fore (sn_gc sn) g" by (simp add: g_def scan_advance_def same_fore_def)
  have v: "reachable v" "w_reclaiming v = None" "w_repo v = sn_repo sn" using w by (simp_all add: v_def)
  have keep: "quiet v (sn_repo sn)" using quiet_refl [OF v(1)] v(3) by simp
  have free: "quiet v (snd (gc_release release retired g (sn_repo sn)))"
    "same_fore (sn_gc sn) (fst (gc_release release retired g (sn_repo sn)))"
  proof -
    obtain r' res where t: "try_reclaim (sn_repo sn) retired (Some release) = (r', res)" by fastforce
    then show "quiet v (snd (gc_release release retired g (sn_repo sn)))"
      using reclaim_quiet [OF v(1,2), of retired release r' res] v(3) by (simp add: release_repo)
    show "same_fore (sn_gc sn) (fst (gc_release release retired g (sn_repo sn)))" by (rule same_fore_trans [OF g release_fore])
  qed
  note live = scan_live_quiet [OF w(1), of now slot g, folded v_def]
  note L = conjunct1 [OF live] same_fore_trans [OF g conjunct2 [OF live]]
  show ?thesis
    unfolding v_def [symmetric] scan_slot_def slot_def [symmetric] g_def [symmetric] Let_def retired_def [symmetric]
    using keep free g L by (auto simp: same_fore_def split: prod.splits)
qed

lemma scan_loop_quiet:
  assumes "reachable (w\<lparr>w_repo := sn_repo sn\<rparr>)" "w_reclaiming w = None"
  shows "quiet (w\<lparr>w_repo := sn_repo sn\<rparr>) (sn_repo (scan_loop release late now i n sn)) \<and>
    same_fore (sn_gc sn) (sn_gc (scan_loop release late now i n sn)) \<and>
    (rc_mode (kg_config (sn_gc sn)) = GcOff \<longrightarrow> sn_candidates (scan_loop release late now i n sn) = sn_candidates sn)"
  using assms(1)
proof (induction n arbitrary: i sn)
  case 0
  then show ?case using quiet_refl by fastforce
next
  case (Suc n)
  show ?case
  proof (cases "0 < i \<and> late i")
    case True
    then show ?thesis using Suc.prems quiet_refl by fastforce
  next
    case False
    define sn1 where "sn1 = scan_slot release now sn"
    note S = scan_slot_quiet [OF Suc.prems assms(2), of release now, folded sn1_def]
    have "reachable (w\<lparr>w_repo := sn_repo sn1\<rparr>)" using quiet_reachable [OF conjunct1 [OF S]] by simp
    note I = Suc.IH [OF this, of "i + 1"]
    have "quiet (w\<lparr>w_repo := sn_repo sn\<rparr>) (sn_repo (scan_loop release late now (i + 1) n sn1))"
      by (rule quiet_trans [OF conjunct1 [OF S]]) (use I in simp)
    moreover have "same_fore (sn_gc sn) (sn_gc (scan_loop release late now (i + 1) n sn1))"
      using S I same_fore_trans by blast
    ultimately show ?thesis using False S I by (auto simp: sn1_def [symmetric] same_fore_def)
  qed
qed

section \<open>Retirement\<close>

lemma live_slot_unique: "live r a \<Longrightarrow> live r b \<Longrightarrow> h_slot a = h_slot b \<Longrightarrow> a = b"
  by (cases a; cases b) (auto simp: live_def lease_ok_def)

lemma retire_run:
  assumes w: "reachable w" and p: "try_pin (w_repo w) h = (r1, Some l)"
    and t: "retire_if_only_reader r1 (Some \<lparr>ls_shared = rp_id r1, ls_handle = l\<rparr>) = (r2, True)"
  shows "on_slot (h_slot h) (w_leases w + w_writers w) = 0"
    and "leads w (lease_reset r2 l)" and "live (lease_reset r2 l) = (\<lambda>x. live (w_repo w) x \<and> x \<noteq> h)"
    and "ready_slots (lease_reset r2 l) = ready_slots (w_repo w)"
    and "quiet w (lease_reset (fst (rescue r2 (Some \<lparr>ls_shared = rp_id r2, ls_handle = l\<rparr>))) l)"
    and "lease_record r2 = lease_record (w_repo w)" and "live (w_repo w) h" and "br_handle (lease_record (w_repo w) h) = h"
proof -
  have ps: "try_pin_slot (w_repo w) (h_slot h) = Some (r1, l)" and lh: "l = h" using pin_is_slot_pin [OF p] by simp_all
  note P = pin_slot_handle [OF w ps, unfolded lh]
  define w1 where "w1 = w\<lparr>w_repo := r1, w_leases := add_mset h (w_leases w)\<rparr>"
  have w1: "reachable w1" "h \<in># w_leases w1" "w_repo w1 = r1" using P(5) by (simp_all add: w1_def)
  note inv1 = reachable_inv [OF w1(1)]
  have s: "h_slot h < rp_capacity r1" "h_slot h < length (rp_slots r1)"
    using P(2,3) slots_length [OF inv1] by (auto simp: live_def lease_ok_def w1_def fun_eq_iff)
  have ex: "retire_if_only_reader r1 (Some \<lparr>ls_shared = rp_id r1, ls_handle = h\<rparr>) =
      (if phase (control r1 (h_slot h)) = Some Live \<and> on_slot (h_slot h) (w_leases w1 + w_writers w1) = 1
       then (set_control r1 (h_slot h) (state Retired 1), True) else (r1, False))"
    using retire_if_only_reader_exact [OF w1(1,2)] by (simp add: w1(3))
  then have one: "phase (control r1 (h_slot h)) = Some Live" "on_slot (h_slot h) (w_leases w1 + w_writers w1) = 1"
    and r2: "r2 = set_control r1 (h_slot h) (state Retired 1)" using t lh by (auto split: if_splits)
  show "on_slot (h_slot h) (w_leases w + w_writers w) = 0" using one(2) by (simp add: w1_def)
  have rec1: "lease_record r1 = lease_record (w_repo w)"
    using ps by (auto simp: try_pin_slot_def split: if_splits option.splits)
  show "lease_record r2 = lease_record (w_repo w)" using rec1 r2 by simp
  show "live (w_repo w) h" "br_handle (lease_record (w_repo w) h) = h" by (rule P(2), rule P(7))
  have w2: "reachable (w1\<lparr>w_repo := r2\<rparr>)"
    using reachable.step [OF w1(1) wstep.retire_sole [OF w1(2), of r2 True]] t lh by (simp add: w1(3))
  have live2: "live r2 x \<longleftrightarrow> live r1 x \<and> x \<noteq> h" for x
  proof -
    have "live r2 x \<longleftrightarrow> live r1 x \<and> h_slot x \<noteq> h_slot h"
      using s by (auto simp: r2 live_def control_set_control phase_state_const)
    then show ?thesis using live_slot_unique [of r1 x h] P(2,3) by auto
  qed
  have w2': "reachable (w\<lparr>w_repo := r2, w_leases := add_mset h (w_leases w)\<rparr>)" using w2 by (cases w) (simp add: w1_def)
  note D = pinned_drop [OF w2']
  show "leads w (lease_reset r2 l)"
    unfolding leads_def lh using D(1) frame_trans [OF frame_trans [OF P(4)] D(3)] rec1 r2 by simp
  show "live (lease_reset r2 l) = (\<lambda>x. live (w_repo w) x \<and> x \<noteq> h)" using D(2) live2 P(3) lh by (simp add: fun_eq_iff)
  show "ready_slots (lease_reset r2 l) = ready_slots (w_repo w)" using P(8) by (simp add: r2)
  define r3 where "r3 = set_control r2 (h_slot h) (state Live 1)"
  have c2: "control r2 (h_slot h) = state Retired 1" using s by (simp add: r2 control_set_control)
  have res: "rescue r2 (Some \<lparr>ls_shared = rp_id r2, ls_handle = h\<rparr>) = (r3, True)"
    by (simp add: rescue_def c2 phase_state_const state_refs_const r3_def Let_def)
  have "reachable ((w1\<lparr>w_repo := r2\<rparr>)\<lparr>w_repo := r3\<rparr>)"
    by (rule reachable.step [OF w2 wstep.rescue [where h = h and b = True]]) (use w1(2) res in simp_all)
  then have w3: "reachable (w\<lparr>w_repo := r3, w_leases := add_mset h (w_leases w)\<rparr>)" by (cases w) (simp add: w1_def)
  have "live r3 x \<longleftrightarrow> live r1 x" for x
    using s one(1) by (auto simp: r3_def r2 live_def control_set_control phase_state_const lease_ok_def)
  then have live3: "live r3 = live (w_repo w)" using P(3) by (simp add: fun_eq_iff)
  have fr: "frame (w_repo w) (lease_reset r3 h)"
    using frame_trans [OF P(4)] pinned_drop(3) [OF w3] frame_trans by (simp add: frame_def r3_def r2)
  have "quiet w (lease_reset r3 h)"
    using pinned_drop(1,2) [OF w3] live3 fr rec1 P(8) by (simp add: quiet_def leads_def r3_def r2)
  then show "quiet w (lease_reset (fst (rescue r2 (Some \<lparr>ls_shared = rp_id r2, ls_handle = l\<rparr>))) l)" using res lh by simp
qed

text \<open>A block may be retired: its metadata are of its generation, fully backed, not pinned, and old enough.\<close>

definition retirable :: "rgc_config \<Rightarrow> foreground \<Rightarrow> block_record \<Rightarrow> bool" where
  "retirable c f rec \<longleftrightarrow> (let h = br_handle rec; m = fg_metadata f ! h_slot h in
     even (md_version m) \<and> md_generation m = h_generation h \<and>
     and (md_flags m) required_flags = required_flags \<and> and (md_flags m) pinned_flags = 0 \<and>
     (rc_recent_tokens c = 0 \<or> token_end rec + rc_recent_tokens c \<le> fg_history_end f \<or>
       token_end rec = 0))"

lemma unprotected_retirable:
  assumes "snapshot (kg_fore g) (h_slot (br_handle rec)) = Some m" "\<not> protected_now g rec m"
  shows "retirable (kg_config g) (kg_fore g) rec"
  using assms by (auto simp: snapshot_def protected_now_def retirable_def Let_def split: if_splits)

definition picked_one :: "world \<Rightarrow> rgc \<Rightarrow> handle \<Rightarrow> repo \<Rightarrow> bool" where
  "picked_one w g h r \<longleftrightarrow> leads w r \<and> live (w_repo w) h \<and> live r = (\<lambda>x. live (w_repo w) x \<and> x \<noteq> h) \<and>
     on_slot (h_slot h) (w_leases w + w_writers w) = 0 \<and> rc_mode (kg_config g) \<noteq> GcShadow \<and>
     retirable (kg_config g) (kg_fore g) (lease_record (w_repo w) h)"

lemma leads_quiet: "leads w r \<Longrightarrow> quiet (w\<lparr>w_repo := r\<rparr>) r' \<Longrightarrow> leads w r' \<and> live r' = live r"
  by (auto simp: quiet_def leads_def intro: frame_trans)

lemma pick_retired:
  assumes w: "reachable w" "w_reclaiming w = None" and p: "try_pin (w_repo w) h = (r1, Some l)"
    and t: "retire_if_only_reader r1 (Some \<lparr>ls_shared = rp_id r1, ls_handle = l\<rparr>) = (r2, True)"
    and a: "snapshot (kg_fore g) (h_slot h) = Some a" "\<not> protected_now g (lease_record r2 l) a"
    and m: "rc_mode (kg_config g) \<noteq> GcShadow" "same_fore g g'"
  shows "picked_one w g' h (lease_reset r2 l)"
    and "picked_one w (fst (gc_release release h g' (lease_reset r2 l))) h (snd (gc_release release h g' (lease_reset r2 l)))"
proof -
  note R = retire_run [OF w(1) p t]
  have lh: "l = h" using pin_is_slot_pin [OF p] by simp
  have rec: "lease_record r2 l = lease_record (w_repo w) h" "br_handle (lease_record (w_repo w) h) = h"
    using R(6,8) lh by simp_all
  have ok: "retirable (kg_config g) (kg_fore g) (lease_record (w_repo w) h)"
    by (rule unprotected_retirable [of g _ a]) (use a rec in simp_all)
  show one: "picked_one w g' h (lease_reset r2 l)"
    using R(1,2,3,7) ok m by (simp add: picked_one_def same_fore_def)
  define v where "v = w\<lparr>w_repo := lease_reset r2 l\<rparr>"
  have v: "reachable v" "w_reclaiming v = None" "w_repo v = lease_reset r2 l"
    using R(2) w(2) by (simp_all add: v_def leads_def)
  obtain r4 res where t4: "try_reclaim (w_repo v) h (Some release) = (r4, res)" by fastforce
  have "quiet v r4" by (rule reclaim_quiet [OF v(1,2) t4])
  then have "leads w r4 \<and> live r4 = live (lease_reset r2 l)" using leads_quiet [OF R(2)] by (simp add: v_def)
  then show "picked_one w (fst (gc_release release h g' (lease_reset r2 l))) h (snd (gc_release release h g' (lease_reset r2 l)))"
    using one t4 v(3) release_fore [of g' release h "lease_reset r2 l"]
    by (simp add: picked_one_def release_repo same_fore_def)
qed

lemma pick_one_effect:
  assumes w: "reachable w" "w_reclaiming w = None" "w_repo w = pk_repo pk"
    and pk': "pk' = pick_one release race cand pk"
  shows "kg_config (pk_gc pk') = kg_config (pk_gc pk) \<and>
    (kg_fore (pk_gc pk') = kg_fore (pk_gc pk) \<or> kg_fore (pk_gc pk') = race (kg_fore (pk_gc pk))) \<and>
    (quiet w (pk_repo pk') \<and> pk_picked pk \<le> pk_picked pk' \<or>
     picked_one w (pk_gc pk') (cd_handle cand) (pk_repo pk') \<and> pk_picked pk' = pk_picked pk + 1)"
proof -
  define g where "g = pk_gc pk"
  define h where "h = cd_handle cand"
  define slot where "slot = h_slot h"
  obtain r1 lo where pin: "try_pin (pk_repo pk) h = (r1, lo)" by fastforce
  have none: "quiet w r1" if "lo = None"
    using client_pin_none [OF w(1), of h r1] pin that quiet_refl [OF w(1)] w(3) by simp
  have dropped: "quiet w (lease_reset r1 l)" if "lo = Some l" for l
    by (rule pin_drop_quiet [OF w(1), of "h_slot h"]) (use pin_is_slot_pin [of "pk_repo pk" h r1 l] pin that w(3) in simp)
  show ?thesis
  proof (cases "cd_level cand = 3 \<and> kg_pressure_scanned g < rp_capacity (pk_repo pk)")
    case True
    then have "pk' = pk" by (simp add: pk' pick_one_def g_def [symmetric])
    then show ?thesis using quiet_refl [OF w(1)] w(3) by simp
  next
    case eligible: False
    show ?thesis
    proof (cases lo)
      case None
      then have "pk' = pk\<lparr>pk_gc := bump gs_races_update g, pk_repo := r1\<rparr>"
        using eligible pin by (auto simp: pk' pick_one_def g_def h_def Let_def)
      then show ?thesis using none [OF None] by (simp add: g_def)
    next
      case l: (Some l)
      note q = dropped [OF l]
      consider "snapshot (kg_fore g) slot = None"
        | m where "snapshot (kg_fore g) slot = Some m" "md_version m \<noteq> cd_version cand \<or> protected_now g (lease_record r1 l) m"
        | m where "snapshot (kg_fore g) slot = Some m" "\<not> (md_version m \<noteq> cd_version cand \<or> protected_now g (lease_record r1 l) m)"
          "rc_mode (kg_config g) = GcShadow"
        | m where "snapshot (kg_fore g) slot = Some m" "\<not> (md_version m \<noteq> cd_version cand \<or> protected_now g (lease_record r1 l) m)"
          "rc_mode (kg_config g) \<noteq> GcShadow"
        by (cases "snapshot (kg_fore g) slot") auto
      then show ?thesis
      proof cases
        case (4 m)
        define g1 where "g1 = g\<lparr>kg_fore := race (kg_fore g)\<rparr>"
        have g1: "kg_config g1 = kg_config g" "kg_fore g1 = race (kg_fore g)" by (simp_all add: g1_def)
        obtain r2 b where t: "retire_if_only_reader r1 (Some \<lparr>ls_shared = rp_id r1, ls_handle = l\<rparr>) = (r2, b)" by fastforce
        have pin': "try_pin (w_repo w) h = (r1, Some l)" using pin l w(3) by simp
        note U = pk' [unfolded pick_one_def, folded g_def h_def, unfolded Let_def, folded slot_def]
        note E = pin l 4 t eligible
        show ?thesis
        proof (cases b)
          case False
          have "r2 = r1" using t False by (auto simp: retire_if_only_reader_def Let_def split: if_splits option.splits)
          moreover have "pk' = pk\<lparr>pk_gc := bump gs_conflicts_update (bump gs_protected_update g1), pk_repo := lease_reset r2 l\<rparr>"
            using E False by (auto simp add: U g1_def [symmetric] g_def [symmetric])
          ultimately show ?thesis using q g1 by (simp add: g_def)
        next
          case True
          have tT: "retire_if_only_reader r1 (Some \<lparr>ls_shared = rp_id r1, ls_handle = l\<rparr>) = (r2, True)" using t True by simp
          note R = retire_run [OF w(1) pin' tT]
          show ?thesis
          proof (cases "\<exists>a. snapshot (kg_fore g1) slot = Some a \<and> \<not> (md_version a \<noteq> md_version m \<or>
              fg_submitted (kg_fore g1) \<noteq> kg_score_sequence g1 \<or> protected_now g1 (lease_record r2 l) a)")
            case False
            have "pk' = pk\<lparr>pk_gc := bump gs_races_update g1,
                pk_repo := lease_reset (fst (rescue r2 (Some \<lparr>ls_shared = rp_id r2, ls_handle = l\<rparr>))) l\<rparr>"
              using E True False by (cases "snapshot (kg_fore g1) slot") (auto simp add: U g1_def [symmetric] g_def [symmetric])
            then show ?thesis using R(5) g1 by (simp add: g_def)
          next
            case again: True
            then obtain a where a: "snapshot (kg_fore g1) slot = Some a" "md_version a = md_version m"
              "fg_submitted (kg_fore g1) = kg_score_sequence g1" "\<not> protected_now g1 (lease_record r2 l) a" by auto
            define g2 where "g2 = (if cd_level cand = 3 then bump gs_fallback_update (bump gs_retired_update g1) else bump gs_retired_update g1)"
            define r3 where "r3 = lease_reset r2 l"
            define x where "x = kg_history g2 ! slot"
            define g5 where "g5 = (if hs_pending x then g2
              else g2\<lparr>kg_pending := kg_pending g2 + 1, kg_history := (kg_history g2)[slot := x\<lparr>hs_pending := True\<rparr>]\<rparr>)"
            have sf: "same_fore g1 g2" "same_fore g1 g5" by (simp_all add: g2_def g5_def same_fore_def)
            note K = pick_retired [OF w(1,2) pin' tT, of g1 a, folded slot_def r3_def]
            have mode: "rc_mode (kg_config g1) \<noteq> GcShadow" using 4 by (simp add: g1)
            note K1 = K(1) [OF a(1,4) mode sf(2)] and K2 = K(2) [OF a(1,4) mode sf(1), of release]
            have pk2: "pk' = (if pk_releases pk < gc_batch_blocks (rc_policy (kg_config g))
              then \<lparr>pk_gc = fst (gc_release release h g2 r3), pk_repo = snd (gc_release release h g2 r3),
                pk_releases = pk_releases pk + 1, pk_picked = pk_picked pk + 1\<rparr>
              else pk\<lparr>pk_gc := g5, pk_repo := r3, pk_picked := pk_picked pk + 1\<rparr>)"
              using E True a unfolding g5_def x_def g2_def r3_def
              by (simp add: U g1_def [symmetric] split: prod.splits)
            show ?thesis using K1 K2 sf g1 release_fore [of g2 release h r3] unfolding pk2
              by (auto simp: same_fore_def h_def g_def)
          qed
        qed
      qed (use eligible pin l q in \<open>auto simp: pk' pick_one_def g_def h_def slot_def Let_def\<close>)
    qed
  qed
qed

text \<open>
  \<open>h\<close> may go: it is live, nobody outside holds a lease on it, and its metadata allow retirement after some
  of the foreground's updates.
\<close>

definition may_go :: "world \<Rightarrow> rgc_config \<Rightarrow> (nat \<Rightarrow> foreground \<Rightarrow> foreground) \<Rightarrow> foreground \<Rightarrow> handle \<Rightarrow> bool" where
  "may_go w c race f h \<longleftrightarrow> live (w_repo w) h \<and> on_slot (h_slot h) (w_leases w + w_writers w) = 0 \<and> rc_mode c \<noteq> GcShadow \<and>
     (\<exists>ks. retirable c (foldl (\<lambda>f k. race k f) f ks) (lease_record (w_repo w) h))"

lemma may_go_fore:
  assumes "f' = f \<or> f' = race k f" "may_go w c race f' h"
  shows "may_go w c race f h"
  using assms(1)
proof
  assume f': "f' = race k f"
  obtain ks where "retirable c (foldl (\<lambda>f k. race k f) f' ks) (lease_record (w_repo w) h)"
    using assms(2) by (auto simp: may_go_def)
  then have "retirable c (foldl (\<lambda>f k. race k f) f (k # ks)) (lease_record (w_repo w) h)" using f' by simp
  then show ?thesis using assms(2) unfolding may_go_def by blast
qed (use assms(2) in simp)

lemma may_go_repo: "may_go (w\<lparr>w_repo := r\<rparr>) c race f h \<Longrightarrow> leads w r \<Longrightarrow> live (w_repo w) h \<Longrightarrow> may_go w c race f h"
  by (simp add: may_go_def leads_def)

lemma leads_trans: "leads w r \<Longrightarrow> leads (w\<lparr>w_repo := r\<rparr>) r' \<Longrightarrow> leads w r'"
  by (auto simp: leads_def intro: frame_trans)

text \<open>The retired handles of a run of the loop.\<close>

definition lost :: "world \<Rightarrow> rgc_config \<Rightarrow> (nat \<Rightarrow> foreground \<Rightarrow> foreground) \<Rightarrow> foreground \<Rightarrow> repo \<Rightarrow> handle list \<Rightarrow> bool" where
  "lost w c race f r hs \<longleftrightarrow> leads w r \<and> live r = (\<lambda>x. live (w_repo w) x \<and> x \<notin> set hs) \<and> (\<forall>h\<in>set hs. may_go w c race f h)"

lemma lost_quiet: "quiet w r \<Longrightarrow> lost w c race f r []"
  by (simp add: lost_def quiet_def)

lemma lost_fore: "f' = f \<or> f' = race k f \<Longrightarrow> lost w c race f' r hs \<Longrightarrow> lost w c race f r hs"
  unfolding lost_def using may_go_fore [of f' f race k] by blast

lemma lost_repo:
  assumes "leads w r" "live r = (\<lambda>x. live (w_repo w) x \<and> x \<notin> set old)" "\<And>h. h \<in> set old \<Longrightarrow> may_go w c race f h"
    and "lost (w\<lparr>w_repo := r\<rparr>) c race f r' hs"
  shows "lost w c race f r' (old @ hs)"
proof -
  have l: "leads w r'" using assms(1,4) leads_trans by (simp add: lost_def)
  have "may_go w c race f h" if "h \<in> set hs" for h
    by (rule may_go_repo [OF _ assms(1)]) (use assms(2,4) that in \<open>auto simp: lost_def may_go_def\<close>)
  then show ?thesis using l assms(2,3,4) by (auto simp: lost_def)
qed

lemma lost_later:
  assumes "quiet w r" "lost (w\<lparr>w_repo := r\<rparr>) c race f' r' hs" "f' = f \<or> f' = race k f"
  shows "lost w c race f r' hs"
  using lost_repo [of w r "[]" c race f r' hs] assms(1) lost_fore [of f' f race k] assms(2,3) by (simp add: quiet_def)

lemma lost_picked:
  assumes "picked_one w g h r" "lost (w\<lparr>w_repo := r\<rparr>) (kg_config g) race (kg_fore g) r' hs" "kg_fore g = f \<or> kg_fore g = race k f"
  shows "lost w (kg_config g) race f r' (h # hs)"
proof -
  have r: "leads w r" "live r = (\<lambda>x. live (w_repo w) x \<and> x \<notin> set [h])" using assms(1) by (auto simp: picked_one_def)
  have "retirable (kg_config g) (foldl (\<lambda>f k. race k f) (kg_fore g) []) (lease_record (w_repo w) h)"
    using assms(1) by (simp add: picked_one_def)
  then have "may_go w (kg_config g) race (kg_fore g) h" unfolding may_go_def using assms(1)
    by (auto simp only: picked_one_def)
  then have "lost w (kg_config g) race (kg_fore g) r' ([h] @ hs)" by (intro lost_repo [OF r _ assms(2)]) simp
  then show ?thesis using lost_fore [of "kg_fore g" f race k] assms(3) by simp
qed

lemma pick_loop_effect:
  assumes "reachable w" "w_reclaiming w = None" "w_repo w = pk_repo pk" "pk' = pick_loop release late race k cs pk"
  shows "\<exists>hs. lost w (kg_config (pk_gc pk)) race (kg_fore (pk_gc pk)) (pk_repo pk') hs \<and>
    length hs \<le> gc_batch_blocks (rc_policy (kg_config (pk_gc pk))) - pk_picked pk"
  using assms
proof (induction cs arbitrary: w pk k)
  case Nil
  then show ?case using lost_quiet [OF quiet_refl] by fastforce
next
  case (Cons c cs)
  define g where "g = pk_gc pk"
  show ?case
  proof (cases "(gc_batch_blocks (rc_policy (kg_config g)) \<le> pk_picked pk \<or> late k) \<or>
      rc_ready_high (kg_config g) \<le> ready_slots (pk_repo pk) + kg_pending g + kg_shadow_live g")
    case True
    then have "pk' = pk" using Cons.prems(4) by (auto simp: g_def Let_def)
    then show ?thesis using lost_quiet [OF quiet_refl [OF Cons.prems(1)]] Cons.prems(3) by fastforce
  next
    case False
    define pk1 where "pk1 = pick_one release (race k) c pk"
    note E = pick_one_effect [OF Cons.prems(1,2,3) pk1_def]
    define w1 where "w1 = w\<lparr>w_repo := pk_repo pk1\<rparr>"
    have w1: "w_reclaiming w1 = None" "w_repo w1 = pk_repo pk1" using Cons.prems(2) by (simp_all add: w1_def)
    have r1: "reachable w1" using E by (auto simp: w1_def quiet_def leads_def picked_one_def)
    have pk': "pk' = pick_loop release late race (k + 1) cs pk1"
      using Cons.prems(4) False by (simp add: g_def pk1_def Let_def)
    obtain hs where hs: "lost w1 (kg_config (pk_gc pk1)) race (kg_fore (pk_gc pk1)) (pk_repo pk') hs"
      "length hs \<le> gc_batch_blocks (rc_policy (kg_config (pk_gc pk1))) - pk_picked pk1"
      using Cons.IH [OF r1 w1 pk'] by blast
    have c: "kg_config (pk_gc pk1) = kg_config (pk_gc pk)" "kg_fore (pk_gc pk1) = kg_fore (pk_gc pk) \<or> kg_fore (pk_gc pk1) = race k (kg_fore (pk_gc pk))"
      using E by auto
    from E consider "quiet w (pk_repo pk1)" "pk_picked pk \<le> pk_picked pk1"
      | "picked_one w (pk_gc pk1) (cd_handle c) (pk_repo pk1)" "pk_picked pk1 = pk_picked pk + 1" by blast
    then show ?thesis
    proof cases
      case 1
      have "lost w (kg_config (pk_gc pk)) race (kg_fore (pk_gc pk)) (pk_repo pk') hs"
        by (rule lost_later [where f' = "kg_fore (pk_gc pk1)" and k = k, OF 1(1)]) (use hs(1) c w1_def in simp_all)
      then show ?thesis using hs(2) 1(2) c(1) by (intro exI [of _ hs]) simp
    next
      case 2
      have "lost w (kg_config (pk_gc pk1)) race (kg_fore (pk_gc pk)) (pk_repo pk') (cd_handle c # hs)"
        by (rule lost_picked [where k = k, OF 2(1)]) (use hs(1) c(2) w1_def in simp_all)
      moreover have "length (cd_handle c # hs) \<le> gc_batch_blocks (rc_policy (kg_config (pk_gc pk))) - pk_picked pk"
        using hs(2) 2(2) c(1) False by (auto simp: g_def)
      ultimately show ?thesis using c(1) by auto
    qed
  qed
qed

lemma pick_loop_full:
  "rc_ready_high (kg_config (pk_gc pk)) \<le> ready_slots (pk_repo pk) \<Longrightarrow> pick_loop release late race k cs pk = pk"
  by (cases cs) (simp_all add: Let_def)

section \<open>One round\<close>

lemma tick_effect:
  assumes w: "reachable w" "w_reclaiming w = None" and t: "tick release late_scan late_pick race g (w_repo w) = (g', r')"
  shows "(\<exists>hs. lost w (kg_config g) race (kg_fore g) r' hs \<and>
    length hs \<le> gc_batch_blocks (rc_policy (kg_config g)) \<and>
    (rc_mode (kg_config g) = GcOff \<or> rc_ready_high (kg_config g) \<le> ready_slots (w_repo w) \<longrightarrow> hs = []))"
proof -
  define c where "c = kg_config g"
  define g1 where "g1 = (if rc_mode c = GcOff then g else consume_scores g (w_repo w))"
  define g2 where "g2 = (if ready_slots (w_repo w) + kg_shadow_live g1 < rc_ready_low c then g1\<lparr>kg_replenishing := True\<rparr> else g1)"
  define g3 where "g3 = (if rc_ready_high c \<le> ready_slots (w_repo w) + kg_shadow_live g1
    then g2\<lparr>kg_replenishing := False, kg_pressure_scanned := 0\<rparr> else g2)"
  define sn0 where "sn0 = \<lparr>sn_gc = g3, sn_repo = w_repo w, sn_releases = 0, sn_candidates = []\<rparr>"
  define sn where "sn = scan_loop release late_scan (fg_step (kg_fore g1)) 0
    (min (gc_scan_blocks (rc_policy c)) (rp_capacity (w_repo w))) sn0"
  define pk0 where "pk0 = \<lparr>pk_gc = sn_gc sn, pk_repo = sn_repo sn, pk_releases = sn_releases sn, pk_picked = 0\<rparr>"
  define pk where "pk = pick_loop release late_pick race 0 (sort_by candidate_less (sn_candidates sn)) pk0"
  have t': "g' = bump gs_ticks_update (pk_gc pk)" "r' = pk_repo pk"
    using t [unfolded tick_def Let_def, folded c_def, folded g1_def, folded g2_def, folded g3_def, folded sn0_def,
      folded sn_def, folded pk0_def, folded pk_def] by simp_all
  have g3: "same_fore g g3" using consume_fore [of g "w_repo w"] by (auto simp: g1_def g2_def g3_def same_fore_def)
  have w0: "reachable (w\<lparr>w_repo := sn_repo sn0\<rparr>)" "w\<lparr>w_repo := sn_repo sn0\<rparr> = w" using w(1) by (simp_all add: sn0_def)
  have sc: "quiet w (sn_repo sn)" "same_fore g (sn_gc sn)" "rc_mode c = GcOff \<Longrightarrow> sn_candidates sn = []"
    using scan_loop_quiet [OF w0(1) w(2), of release late_scan "fg_step (kg_fore g1)" 0
        "min (gc_scan_blocks (rc_policy c)) (rp_capacity (w_repo w))", folded sn_def] g3
    by (simp_all add: w0(2)) (auto simp: sn0_def same_fore_def c_def)
  define w1 where "w1 = w\<lparr>w_repo := sn_repo sn\<rparr>"
  have w1: "reachable w1" "w_reclaiming w1 = None" "w_repo w1 = pk_repo pk0"
    using quiet_reachable [OF sc(1)] w(2) by (simp_all add: w1_def pk0_def)
  obtain hs where hs: "lost w1 c race (kg_fore g) (pk_repo pk) hs" "length hs \<le> gc_batch_blocks (rc_policy c)"
    using pick_loop_effect [OF w1 pk_def] sc(2) by (auto simp: pk0_def same_fore_def c_def)
  have lost: "lost w c race (kg_fore g) r' hs"
    unfolding t' by (rule lost_later [where k = 0 and f' = "kg_fore g", OF sc(1)]) (use hs(1) w1_def in simp_all)
  have "pk = pk0" if "rc_mode c = GcOff \<or> rc_ready_high c \<le> ready_slots (w_repo w)"
    using that
  proof
    assume "rc_mode c = GcOff"
    then show ?thesis using sc(3) by (simp add: pk_def)
  next
    assume "rc_ready_high c \<le> ready_slots (w_repo w)"
    then show ?thesis unfolding pk_def using sc(1,2)
      by (intro pick_loop_full) (simp add: pk0_def quiet_def same_fore_def c_def)
  qed
  then have "lost w c race (kg_fore g) r' []" if "rc_mode c = GcOff \<or> rc_ready_high c \<le> ready_slots (w_repo w)"
    using that lost_quiet [OF sc(1)] by (simp add: t' pk0_def)
  then show ?thesis using lost hs(2) unfolding c_def [symmetric] by (cases "rc_mode c = GcOff \<or> rc_ready_high c \<le> ready_slots (w_repo w)") auto
qed


definition ex_gc_policy :: rgc_config where
  "ex_gc_policy = \<lparr>rc_policy = \<lparr>gc_max_live_blocks = 2, gc_half_life_steps = 32, gc_grace_steps = 0,
     gc_candidate_steps = 0, gc_low_observations = 3, gc_scan_blocks = 8, gc_batch_blocks = 2, gc_poll_ms = 20\<rparr>, rc_ready_low = 1, rc_ready_high = 2,
     rc_recent_tokens = 0, rc_candidate_ingest_tokens = 0, rc_tick_budget_us = 1000, rc_mode = GcDelete, rc_background = False\<rparr>"

definition ex_gc :: rgc where
  "ex_gc = projr (rgc_new ex_gc_policy (w_repo ex_live) True)"


end
