(* ===== verification/Text_Search.thy ===== *)
theory Text_Search
  imports Prelude "HOL-Library.Sublist"
begin

text \<open>
  Searching byte strings, as \<open>std::string\<close> does it: \<open>find\<close>, \<open>find\<close> of a character from a position, and
  the longest suffix of a text that may still grow into a marker. The lemmas say how the results on
  a text continue when more text arrives, which is what the streaming components rest on.
\<close>

section \<open>Definitions\<close>

text \<open>\<open>text.find(pat)\<close>; \<open>None\<close> is \<open>npos\<close>.\<close>

fun find_str :: "string \<Rightarrow> string \<Rightarrow> nat option" where
  "find_str pat [] = (if pat = [] then Some 0 else None)"
| "find_str pat (c # cs) = (if prefix pat (c # cs) then Some 0 else map_option Suc (find_str pat cs))"

definition find_char_from :: "char \<Rightarrow> string \<Rightarrow> nat \<Rightarrow> nat option" where
  "find_char_from c text pos = map_option (\<lambda>i. pos + i) (find_str [c] (drop pos text))"

text \<open>\<open>text.find(pat, pos)\<close>\<close>

definition find_from :: "string \<Rightarrow> string \<Rightarrow> nat \<Rightarrow> nat option" where
  "find_from pat s pos = (if length s < pos then None else map_option (\<lambda>i. pos + i) (find_str pat (drop pos s)))"

text \<open>The last \<open>n\<close> bytes of a text.\<close>

definition last_bytes :: "nat \<Rightarrow> string \<Rightarrow> string" where
  "last_bytes n s = drop (length s - n) s"

text \<open>The largest \<open>n \<le> limit\<close> for which the last \<open>n\<close> bytes begin the marker.\<close>

fun longest_overlap :: "string \<Rightarrow> string \<Rightarrow> nat \<Rightarrow> nat" where
  "longest_overlap text marker 0 = 0"
| "longest_overlap text marker (Suc n) =
     (if last_bytes (Suc n) text = take (Suc n) marker then Suc n else longest_overlap text marker n)"

section \<open>Finding\<close>

lemma find_str_Some:
  "find_str pat s = Some i \<longleftrightarrow> i \<le> length s \<and> prefix pat (drop i s) \<and> (\<forall>j < i. \<not> prefix pat (drop j s))"
proof (induction s arbitrary: i)
  case Nil
  then show ?case by auto
next
  case (Cons c cs)
  show ?case
  proof (cases i)
    case 0
    then show ?thesis by simp
  next
    case (Suc k)
    have "(\<forall>j < Suc k. \<not> prefix pat (drop j (c # cs))) \<longleftrightarrow>
        \<not> prefix pat (c # cs) \<and> (\<forall>j < k. \<not> prefix pat (drop j cs))"
      unfolding All_less_Suc2 by simp
    then show ?thesis using Cons [of k] Suc by auto
  qed
qed

lemma find_str_None: "find_str pat s = None \<longleftrightarrow> (\<forall>j \<le> length s. \<not> prefix pat (drop j s))"
proof (induction s)
  case (Cons c cs)
  have "(\<forall>j < Suc (Suc (length cs)). \<not> prefix pat (drop j (c # cs))) \<longleftrightarrow>
      \<not> prefix pat (c # cs) \<and> (\<forall>j < Suc (length cs). \<not> prefix pat (drop j cs))"
    by (subst All_less_Suc2) simp
  then show ?case using Cons by (simp add: less_Suc_eq_le)
qed auto

lemma find_str_length: "find_str pat s = Some i \<Longrightarrow> i + length pat \<le> length s"
  by (auto simp: find_str_Some dest: prefix_length_le)

lemma find_str_split: "find_str pat s = Some i \<Longrightarrow> s = take i s @ pat @ drop (i + length pat) s"
proof -
  assume "find_str pat s = Some i"
  then have "prefix pat (drop i s)" by (simp add: find_str_Some)
  then obtain v where v: "drop i s = pat @ v" by (auto simp: prefix_def)
  then have "drop (i + length pat) s = v" by (metis add.commute append_eq_conv_conj drop_drop)
  then show ?thesis using v append_take_drop_id [of i s] by simp
qed

lemma find_str_drop_None: "find_str pat s = None \<Longrightarrow> find_str pat (drop k s) = None"
proof (induction k arbitrary: s)
  case (Suc k)
  then show ?case by (cases s) (auto split: if_splits)
qed simp

text \<open>A hit stays the hit when text is added.\<close>

lemma find_str_append: "find_str pat s = Some i \<Longrightarrow> find_str pat (s @ b) = Some i"
proof -
  assume a: "find_str pat s = Some i"
  have fit: "i + length pat \<le> length s" using a by (rule find_str_length)
  have "\<not> prefix pat (drop j (s @ b))" if "j < i" for j
  proof
    assume p: "prefix pat (drop j (s @ b))"
    have "prefix pat (drop j s)"
      by (rule prefix_length_prefix [OF p]) (use that fit in auto)
    then show False using a that by (simp add: find_str_Some)
  qed
  then show ?thesis using a by (auto simp: find_str_Some prefix_def)
qed

lemma find_char_from_Some:
  "find_char_from c s pos = Some i \<Longrightarrow> pos \<le> i \<and> i < length s \<and> s ! i = c \<and> (\<forall>j < i. pos \<le> j \<longrightarrow> s ! j \<noteq> c)"
proof -
  assume a: "find_char_from c s pos = Some i"
  then obtain k where k: "find_str [c] (drop pos s) = Some k" "i = pos + k" by (auto simp: find_char_from_def)
  have p: "pos + k < length s" using find_str_length [OF k(1)] by simp
  have hit: "prefix [c] (drop n (drop pos s)) \<longleftrightarrow> s ! (pos + n) = c" if "pos + n < length s" for n
    using Cons_nth_drop_Suc [OF that, symmetric] by (auto simp: add.commute)
  have "s ! j \<noteq> c" if "j < i" "pos \<le> j" for j
  proof -
    have lt: "j - pos < k" using that k(2) by simp
    then have "\<not> prefix [c] (drop (j - pos) (drop pos s))" using k(1) by (simp only: find_str_Some) blast
    then show ?thesis using hit [of "j - pos"] lt p that by simp
  qed
  then show ?thesis using k p hit [of k] by (auto simp: find_str_Some)
qed

lemma find_char_from_append: "find_char_from c s pos = Some i \<Longrightarrow> find_char_from c (s @ b) pos = Some i"
  using find_char_from_Some [of c s pos i]
  by (auto simp: find_char_from_def dest: find_str_append [of _ _ _ b])

section \<open>Overlaps\<close>

lemma longest_overlap_le: "longest_overlap s m n \<le> n"
  by (induction n) auto

lemma longest_overlap_hit: "last_bytes (longest_overlap s m n) s = take (longest_overlap s m n) m"
  by (induction n) (auto simp: last_bytes_def)

lemma longest_overlap_max:
  "k \<le> n \<Longrightarrow> last_bytes k s = take k m \<Longrightarrow> k \<le> longest_overlap s m n"
  by (induction n) (auto simp: le_Suc_eq)

lemma last_bytes_append: "n \<le> length b \<Longrightarrow> last_bytes n (a @ b) = last_bytes n b"
  by (simp add: last_bytes_def)

section \<open>Overlaps of growing texts\<close>

lemma find_str_skip:
  "(\<And>j. j < k \<Longrightarrow> \<not> prefix pat (drop j s)) \<Longrightarrow> k \<le> length s \<Longrightarrow>
    find_str pat s = map_option (\<lambda>i. k + i) (find_str pat (drop k s))"
proof (induction k arbitrary: s)
  case 0
  then show ?case by (simp add: option.map_ident)
next
  case (Suc k)
  then obtain c cs where s: "s = c # cs" by (cases s) auto
  have "\<not> prefix pat s" using Suc.prems(1) [of 0] by simp
  moreover have "find_str pat cs = map_option (\<lambda>i. k + i) (find_str pat (drop k cs))"
    by (rule Suc.IH) (use Suc.prems(1) [of "Suc j" for j] Suc.prems(2) s in auto)
  ultimately show ?case unfolding s by (simp add: option.map_comp comp_def)
qed

abbreviation overlap :: "string \<Rightarrow> string \<Rightarrow> nat" where
  "overlap s m \<equiv> longest_overlap s m (min (length s) (length m - 1))"

lemma overlap_le: "overlap s m \<le> length s"
  using longest_overlap_le [of s m "min (length s) (length m - 1)"] by simp

lemma overlap_self:
  assumes "h = overlap s m"
  shows "overlap (drop (length s - h) s) m = h"
proof -
  have h: "h \<le> length s" "h \<le> length m - 1"
    using longest_overlap_le [of s m "min (length s) (length m - 1)"] assms by simp_all
  have "last_bytes h (drop (length s - h) s) = take h m"
    using longest_overlap_hit [of s m "min (length s) (length m - 1)"] assms h by (simp add: last_bytes_def)
  then have "h \<le> overlap (drop (length s - h) s) m" using h by (intro longest_overlap_max) simp_all
  moreover have "overlap (drop (length s - h) s) m \<le> h" using overlap_le [of "drop (length s - h) s" m] h by simp
  ultimately show ?thesis by simp
qed

lemma overlap_append:
  assumes "h = overlap s m"
  shows "overlap (s @ b) m = overlap (drop (length s - h) s @ b) m"
proof -
  define r where "r = drop (length s - h) s"
  have h: "h \<le> length s" unfolding assms by (rule overlap_le)
  have r: "length r = h" "last_bytes n (r @ b) = last_bytes n (s @ b)" if "n \<le> h + length b" for n
    using h that by (simp_all add: r_def last_bytes_def add.commute)
  have lr: "length r = h" using r(1) [of 0] by simp
  have "overlap (s @ b) m \<le> overlap (r @ b) m"
  proof -
    define n where "n = overlap (s @ b) m"
    have n: "n \<le> length (s @ b)" "n \<le> length m - 1" "last_bytes n (s @ b) = take n m"
      using longest_overlap_le [of "s @ b" m "min (length (s @ b)) (length m - 1)"]
        longest_overlap_hit [of "s @ b" m "min (length (s @ b)) (length m - 1)"] by (simp_all add: n_def)
    have small: "n \<le> h + length b"
    proof (rule ccontr)
      assume big: "\<not> n \<le> h + length b"
      have "last_bytes n (s @ b) = last_bytes (n - length b) s @ b" using big n(1) by (simp add: last_bytes_def)
      then have "take (n - length b) (last_bytes (n - length b) s @ b) = take (n - length b) (take n m)" using n(3) by simp
      then have "last_bytes (n - length b) s = take (n - length b) m" using n(1) by (simp add: last_bytes_def)
      moreover have "n - length b \<le> length s" "n - length b \<le> length m - 1" using n(1,2) by simp_all
      ultimately have "n - length b \<le> overlap s m" by (intro longest_overlap_max) simp_all
      then show False using big assms by simp
    qed
    have "n \<le> overlap (r @ b) m"
      by (rule longest_overlap_max) (use r(2) [OF small] n small lr in simp_all)
    then show ?thesis by (simp add: n_def)
  qed
  moreover have "overlap (r @ b) m \<le> overlap (s @ b) m"
  proof (rule longest_overlap_max)
    have le: "overlap (r @ b) m \<le> h + length b" using overlap_le [of "r @ b" m] lr by simp
    then show "overlap (r @ b) m \<le> min (length (s @ b)) (length m - 1)"
      using longest_overlap_le [of "r @ b" m "min (length (r @ b)) (length m - 1)"] h by simp
    show "last_bytes (overlap (r @ b) m) (s @ b) = take (overlap (r @ b) m) m"
      using longest_overlap_hit [of "r @ b" m] r(2) [OF le] by simp
  qed
  ultimately show ?thesis unfolding r_def by simp
qed

text \<open>Nothing before the overlap can begin an occurrence.\<close>

lemma find_str_behind:
  assumes "find_str m s = None" "h = overlap s m"
  shows "find_str m (s @ b) = map_option (\<lambda>i. (length s - h) + i) (find_str m (drop (length s - h) s @ b))"
proof -
  have h: "h \<le> length s" unfolding assms by (rule overlap_le)
  have "\<not> prefix m (drop j (s @ b))" if j: "j < length s - h" for j
  proof
    assume p: "prefix m (drop j (s @ b))"
    show False
    proof (cases "length m \<le> length s - j")
      case True
      have "prefix m (drop j s)" by (rule prefix_length_prefix [OF p]) (use True j in simp_all)
      then show False using assms(1) j by (simp add: find_str_None)
    next
      case False
      have d: "drop j (s @ b) = drop j s @ b" using j by simp
      have "prefix (drop j s) m" by (rule prefix_length_prefix [OF _ p]) (use False d in simp_all)
      then have "last_bytes (length s - j) s = take (length s - j) m"
        using j by (auto simp: last_bytes_def prefix_def)
      then have "length s - j \<le> h" unfolding assms(2) using False j by (intro longest_overlap_max) simp_all
      then show False using j by simp
    qed
  qed
  from find_str_skip [of "length s - h", OF this] show ?thesis using h by simp
qed

end
