(* ===== verification/Tool_Calls.thy ===== *)
theory Tool_Calls
  imports Text_Search "HOL-Library.Word"
begin

unbundle bit_operations_syntax

text \<open>
  The incremental parser of canonical tool calls (\<open>src/src/tool_call_stream.cpp\<close>): bytes arrive in
  arbitrary chunks and events are emitted that cannot be retracted. \<open>parse_body\<close> is one round of the
  loop of \<open>parse\<close>; its last component says whether the round reached the end of the loop's body or
  left the loop by \<open>break\<close>. Strings are byte strings, the character classes those of the C locale.
\<close>

section \<open>Bytes\<close>

definition LF :: char where "LF = CHR 0x0A"
definition CR :: char where "CR = CHR 0x0D"

definition is_space :: "char \<Rightarrow> bool" where
  "is_space c \<longleftrightarrow> c = CHR '' '' \<or> (9 \<le> (of_char c :: nat) \<and> (of_char c :: nat) \<le> 13)"

definition is_alnum :: "char \<Rightarrow> bool" where
  "is_alnum c \<longleftrightarrow> (let n = of_char c :: nat in (48 \<le> n \<and> n \<le> 57) \<or> (65 \<le> n \<and> n \<le> 90) \<or> (97 \<le> n \<and> n \<le> 122))"

definition identifier_char :: "char \<Rightarrow> bool" where
  "identifier_char c \<longleftrightarrow> is_alnum c \<or> c = CHR ''_'' \<or> c = CHR ''-''"

definition is_utf8_continuation :: "char \<Rightarrow> bool" where
  "is_utf8_continuation c \<longleftrightarrow> (of_char c :: 8 word) AND 0xC0 = 0x80"

text \<open>The inner loop: from a byte position back to the first byte of its code point.\<close>

fun code_point_start :: "string \<Rightarrow> nat \<Rightarrow> nat" where
  "code_point_start s 0 = 0"
| "code_point_start s (Suc p) = (if is_utf8_continuation (s ! Suc p) then code_point_start s p else Suc p)"

fun codepoints_back :: "string \<Rightarrow> nat \<Rightarrow> nat \<Rightarrow> nat" where
  "codepoints_back s 0 pos = pos"
| "codepoints_back s (Suc n) pos =
     (if pos = 0 then 0 else codepoints_back s n (code_point_start s (pos - 1)))"

definition start_of_last_utf8_codepoints :: "string \<Rightarrow> nat \<Rightarrow> nat" where
  "start_of_last_utf8_codepoints s n = codepoints_back s n (length s)"

definition longest_suffix_prefix :: "string \<Rightarrow> string \<Rightarrow> nat" where
  "longest_suffix_prefix s marker = longest_overlap s marker (min (length s) (length marker - 1))"

section \<open>Escaping\<close>

definition hex_digit :: "nat \<Rightarrow> char" where
  "hex_digit n = ''0123456789abcdef'' ! n"

definition json_byte :: "char \<Rightarrow> string" where
  "json_byte c =
     (if c = CHR 0x22 then [CHR 0x5C, CHR 0x22]
      else if c = CHR 0x5C then [CHR 0x5C, CHR 0x5C]
      else if c = CHR 0x08 then [CHR 0x5C, CHR ''b'']
      else if c = CHR 0x0C then [CHR 0x5C, CHR ''f'']
      else if c = LF then [CHR 0x5C, CHR ''n'']
      else if c = CR then [CHR 0x5C, CHR ''r'']
      else if c = CHR 0x09 then [CHR 0x5C, CHR ''t'']
      else let n = of_char c :: nat in
        if n < 32 then CHR 0x5C # ''u00'' @ [hex_digit (n div 16 mod 16), hex_digit (n mod 16)] else [c])"

definition json_string_fragment :: "string \<Rightarrow> string" where
  "json_string_fragment s = concat (map json_byte s)"

section \<open>Events and states\<close>

datatype event_kind = EvToolStart | EvParameterStart | EvParameterData | EvParameterEnd | EvToolEnd

type_synonym event = "event_kind \<times> string"

datatype tool_state = ToolOpen | FunctionOpen | ParameterOrFunctionEnd | ParameterValue | ToolEnd
  | Complete | Failed

datatype leading_trim = OptionalLf | OptionalCr | TrimDone

record tool_parser =
  tp_state :: tool_state
  tp_trim :: leading_trim
  tp_pending :: string
  tp_tail :: string
  tp_error :: string
  tp_started :: bool

definition parser_new :: tool_parser where
  "parser_new = \<lparr>tp_state = ToolOpen, tp_trim = OptionalLf, tp_pending = [], tp_tail = [], tp_error = [],
     tp_started = False\<rparr>"

definition parse_fail :: "tool_parser \<Rightarrow> string \<Rightarrow> tool_parser" where
  "parse_fail p msg = p\<lparr>tp_state := Failed, tp_error := msg\<rparr>"

definition consume_whitespace :: "tool_parser \<Rightarrow> tool_parser" where
  "consume_whitespace p = p\<lparr>tp_pending := dropWhile is_space (tp_pending p)\<rparr>"

definition consume_exact :: "string \<Rightarrow> tool_parser \<Rightarrow> tool_parser \<times> bool" where
  "consume_exact tag p =
     (if length (tp_pending p) < length tag
      then (if prefix (tp_pending p) tag then p else parse_fail p (''expected '' @ tag), False)
      else if take (length tag) (tp_pending p) \<noteq> tag then (parse_fail p (''expected '' @ tag), False)
      else (p\<lparr>tp_pending := drop (length tag) (tp_pending p)\<rparr>, True))"

section \<open>Parameter values\<close>

text \<open>\<open>emit_parameter_prefix\<close> and the two halves of \<open>emit_safe_parameter_tail\<close>.\<close>

definition trim_cr :: "bool \<Rightarrow> string \<Rightarrow> leading_trim \<times> string" where
  "trim_cr final tail = (case tail of [] \<Rightarrow> (if final then TrimDone else OptionalCr, [])
     | c # cs \<Rightarrow> (TrimDone, if c = CR then cs else tail))"

definition emit_parameter_prefix :: "bool \<Rightarrow> leading_trim \<Rightarrow> string \<Rightarrow> leading_trim \<times> string" where
  "emit_parameter_prefix final trim tail = (case trim of TrimDone \<Rightarrow> (TrimDone, tail)
     | OptionalCr \<Rightarrow> trim_cr final tail
     | OptionalLf \<Rightarrow> (case tail of [] \<Rightarrow> (if final then TrimDone else OptionalLf, [])
         | c # cs \<Rightarrow> trim_cr final (if c = LF then cs else tail)))"

definition pop_last :: "char \<Rightarrow> string \<Rightarrow> string" where
  "pop_last c s = (if s \<noteq> [] \<and> last s = c then butlast s else s)"

definition emit_final_tail :: "string \<Rightarrow> string \<times> event list" where
  "emit_final_tail tail = (let t = pop_last CR (pop_last LF tail) in
     (t, if t = [] then [] else [(EvParameterData, t)]))"

definition emit_safe_tail :: "string \<Rightarrow> string \<times> event list" where
  "emit_safe_tail tail = (let keep_from = start_of_last_utf8_codepoints tail 2 in
     if keep_from = 0 then (tail, []) else (drop keep_from tail, [(EvParameterData, take keep_from tail)]))"

definition process_parameter_data :: "string \<Rightarrow> bool \<Rightarrow> tool_parser \<Rightarrow> tool_parser \<times> event list" where
  "process_parameter_data s final p =
     (case emit_parameter_prefix final (tp_trim p) (tp_tail p @ s) of (trim, tail) \<Rightarrow>
        (case (if trim \<noteq> TrimDone then (tail, [])
               else if final then (case emit_final_tail tail of (t, evs) \<Rightarrow> ([], evs))
               else emit_safe_tail tail) of (tail', evs) \<Rightarrow>
           (p\<lparr>tp_trim := trim, tp_tail := tail'\<rparr>, evs)))"

section \<open>The loop\<close>

type_synonym step = "tool_parser \<times> event list \<times> bool"

definition tool_open_step :: "tool_parser \<Rightarrow> step" where
  "tool_open_step p = (case consume_exact ''<tool_call>'' (consume_whitespace p) of
       (p1, False) \<Rightarrow> (p1, [], False)
     | (p1, True) \<Rightarrow> (p1\<lparr>tp_state := FunctionOpen\<rparr>, [], True))"

definition function_open_step :: "tool_parser \<Rightarrow> step" where
  "function_open_step p =
     (let p1 = consume_whitespace p; s = tp_pending p1; tag = ''<function=''; k = length tag;
          failed = parse_fail p1 ''expected <function=...>'' in
      if length s < k then (if prefix s tag then p1 else failed, [], False)
      else if take k s \<noteq> tag then (failed, [], False)
      else case find_char_from (CHR ''>'') s k of None \<Rightarrow> (p1, [], False)
      | Some end_pos \<Rightarrow> let name = take (end_pos - k) (drop k s) in
          if name = [] \<or> \<not> list_all identifier_char name
          then (parse_fail p1 ''invalid canonical tool function name'', [], False)
          else (p1\<lparr>tp_pending := drop (end_pos + 1) s, tp_started := True, tp_state := ParameterOrFunctionEnd\<rparr>,
            [(EvToolStart, name)], True))"

definition parameter_open_step :: "tool_parser \<Rightarrow> step" where
  "parameter_open_step p =
     (let p1 = consume_whitespace p; s = tp_pending p1; close = ''</function>''; opn = ''<parameter=''; k = length opn in
      if s = [] then (p1, [], False)
      else if length close \<le> length s \<and> take (length close) s = close
      then (p1\<lparr>tp_pending := drop (length close) s, tp_state := ToolEnd\<rparr>, [], True)
      else if k \<le> length s \<and> take k s = opn then
        (case find_char_from (CHR ''>'') s k of None \<Rightarrow> (p1, [], False)
         | Some end_pos \<Rightarrow> let name = take (end_pos - k) (drop k s) in
             if name = [] then (parse_fail p1 ''empty canonical tool parameter name'', [], False)
             else (p1\<lparr>tp_pending := drop (end_pos + 1) s, tp_tail := [], tp_trim := OptionalLf,
                 tp_state := ParameterValue\<rparr>, [(EvParameterStart, name)], True))
      else if prefix s close \<or> prefix s opn then (p1, [], False)
      else (parse_fail p1 ''expected canonical parameter or </function>'', [], False))"

definition parameter_value_step :: "tool_parser \<Rightarrow> step" where
  "parameter_value_step p =
     (let s = tp_pending p; tag = ''</parameter>'' in
      case find_str tag s of
        Some close \<Rightarrow> (case process_parameter_data (take close s) True p of (p1, evs) \<Rightarrow>
          (p1\<lparr>tp_pending := drop (close + length tag) s, tp_state := ParameterOrFunctionEnd\<rparr>,
             evs @ [(EvParameterEnd, [])], True))
      | None \<Rightarrow> let safe = length s - longest_suffix_prefix s tag in
          if safe = 0 then (p, [], False)
          else case process_parameter_data (take safe s) False p of (p1, evs) \<Rightarrow>
            (p1\<lparr>tp_pending := drop safe s\<rparr>, evs, True))"

definition tool_end_step :: "tool_parser \<Rightarrow> step" where
  "tool_end_step p = (case consume_exact ''</tool_call>'' (consume_whitespace p) of
       (p1, False) \<Rightarrow> (p1, [], False)
     | (p1, True) \<Rightarrow> (p1\<lparr>tp_state := Complete\<rparr>, [(EvToolEnd, [])], True))"

definition parse_body :: "tool_parser \<Rightarrow> step" where
  "parse_body p = (case tp_state p of ToolOpen \<Rightarrow> tool_open_step p
     | FunctionOpen \<Rightarrow> function_open_step p
     | ParameterOrFunctionEnd \<Rightarrow> parameter_open_step p
     | ParameterValue \<Rightarrow> parameter_value_step p
     | ToolEnd \<Rightarrow> tool_end_step p
     | _ \<Rightarrow> (p, [], True))"

definition parse_over :: "tool_parser \<Rightarrow> bool" where
  "parse_over p \<longleftrightarrow> tp_state p = Failed \<or> tp_state p = Complete"

text \<open>The body leaves the loop, or the guard at its end found no progress.\<close>

definition parse_stops :: "tool_parser \<Rightarrow> step \<Rightarrow> bool" where
  "parse_stops p st = (case st of (p1, evs, cont) \<Rightarrow>
     \<not> cont \<or> (length (tp_pending p1) = length (tp_pending p) \<and> tp_state p1 = tp_state p))"

lemma process_parameter_data_pending:
  "process_parameter_data s final p = (p1, evs) \<Longrightarrow> tp_pending p1 = tp_pending p \<and> tp_state p1 = tp_state p"
  by (auto simp: process_parameter_data_def split: prod.splits)

text \<open>Whatever goes on past the body has consumed bytes, so the loop ends.\<close>

lemma consume_exact_True: "consume_exact tag p = (p1, True) \<Longrightarrow>
    p1 = p\<lparr>tp_pending := drop (length tag) (tp_pending p)\<rparr> \<and> length tag \<le> length (tp_pending p)"
  by (auto simp: consume_exact_def split: if_splits)

lemma parse_body_shrinks:
  assumes "parse_body p = (p1, evs, True)" "\<not> parse_over p"
  shows "length (tp_pending p1) < length (tp_pending p)"
proof -
  have ws: "length (tp_pending (consume_whitespace p)) \<le> length (tp_pending p)"
    by (simp add: consume_whitespace_def length_dropWhile_le)
  consider "tp_state p = ToolOpen" | "tp_state p = FunctionOpen" | "tp_state p = ParameterOrFunctionEnd"
    | "tp_state p = ParameterValue" | "tp_state p = ToolEnd"
    using assms(2) by (cases "tp_state p") (auto simp: parse_over_def)
  then show ?thesis
  proof cases
    case 1
    then have "tool_open_step p = (p1, evs, True)" using assms(1) by (simp add: parse_body_def)
    then show ?thesis using ws by (auto simp: tool_open_step_def dest!: consume_exact_True split: prod.splits bool.splits)
  next
    case 5
    then have "tool_end_step p = (p1, evs, True)" using assms(1) by (simp add: parse_body_def)
    then show ?thesis using ws by (auto simp: tool_end_step_def dest!: consume_exact_True split: prod.splits bool.splits)
  next
    case 2
    then have "function_open_step p = (p1, evs, True)" using assms(1) by (simp add: parse_body_def)
    then show ?thesis using ws by (auto simp: function_open_step_def Let_def split: if_splits option.splits)
  next
    case 3
    then have "parameter_open_step p = (p1, evs, True)" using assms(1) by (simp add: parse_body_def)
    then show ?thesis using ws by (auto simp: parameter_open_step_def Let_def split: if_splits option.splits)
  next
    case 4
    then have "parameter_value_step p = (p1, evs, True)" using assms(1) by (simp add: parse_body_def)
    then show ?thesis
      by (auto simp: parameter_value_step_def Let_def dest: find_str_length split: if_splits option.splits prod.splits)
  qed
qed

function parse :: "tool_parser \<Rightarrow> tool_parser \<times> event list" where
  "parse p =
     (if parse_over p then (p, [])
      else case parse_body p of (p1, evs, cont) \<Rightarrow>
        if parse_stops p (p1, evs, cont) then (p1, evs)
        else case parse p1 of (p2, evs2) \<Rightarrow> (p2, evs @ evs2))"
  by auto

termination
proof (relation "measure (\<lambda>p. length (tp_pending p))", goal_cases)
  case (2 p p1 st evs)
  then obtain cont where st: "parse_body p = (p1, evs, cont)" by (cases st) (metis prod.inject)
  then have cont using 2 by (simp add: parse_stops_def)
  then show ?case using parse_body_shrinks [of p p1 evs] st 2(1) by simp
qed simp

declare parse.simps [simp del]

section \<open>The interface\<close>

text \<open>Every call returns the parser, the events appended to the caller's vector and the result.\<close>

definition feed :: "tool_parser \<Rightarrow> string \<Rightarrow> tool_parser \<times> event list \<times> bool" where
  "feed p s =
     (if tp_state p = Failed then (p, [], False)
      else if tp_state p = Complete then (p, [], True)
      else case parse (p\<lparr>tp_pending := tp_pending p @ s\<rparr>) of (p1, evs) \<Rightarrow> (p1, evs, tp_state p1 \<noteq> Failed))"

definition finish :: "tool_parser \<Rightarrow> tool_parser \<times> event list \<times> bool" where
  "finish p = (case feed p [] of (p1, evs, ok) \<Rightarrow>
     if \<not> ok then (p1, evs, False)
     else if tp_state p1 \<noteq> Complete then (parse_fail p1 ''incomplete canonical tool call'', evs, False)
     else (p1, evs, True))"

text \<open>\<open>trim_single_newlines\<close> of the full-response parser (\<open>src/src/qw3_server.cpp\<close>).\<close>

definition pop_first :: "char \<Rightarrow> string \<Rightarrow> string" where
  "pop_first c s = (if s \<noteq> [] \<and> hd s = c then tl s else s)"

definition trim_single_newlines :: "string \<Rightarrow> string" where
  "trim_single_newlines s = pop_last CR (pop_last LF (pop_first CR (pop_first LF s)))"

end
