(* ===== verification/Tool_Calls_Stream.thy ===== *)
theory Tool_Calls_Stream
  imports Tool_Calls
begin

text \<open>
  What the incremental parser of \<open>Tool_Calls\<close> promises: the way the bytes are cut into chunks does not
  matter, a call is accepted exactly when its text is canonical, and the values it streams are those
  the full-response parser would have trimmed. Events are compared by \<open>flat\<close>, which spells parameter
  data out byte by byte, so that only its fragmentation is forgotten.
\<close>

definition flat_event :: "event \<Rightarrow> (event + char) list" where
  "flat_event e = (if fst e = EvParameterData then map Inr (snd e) else [Inl e])"

definition flat :: "event list \<Rightarrow> (event + char) list" where
  "flat evs = concat (map flat_event evs)"

lemma flat_simps [simp]:
  "flat [] = []" "flat (e # es) = flat_event e @ flat es" "flat (a @ b) = flat a @ flat b"
  "flat_event (EvParameterData, v) = map Inr v"
  "k \<noteq> EvParameterData \<Longrightarrow> flat_event (k, v) = [Inl (k, v)]"
  by (auto simp: flat_def flat_event_def)

section \<open>Holding back code points\<close>

lemma code_point_start_le: "code_point_start s p \<le> p"
  by (induction p) auto

lemma codepoints_back_le: "codepoints_back s n pos \<le> pos"
proof (induction n arbitrary: pos)
  case (Suc n)
  show ?case
  proof (cases "pos = 0")
    case False
    then show ?thesis using Suc [of "code_point_start s (pos - 1)"] code_point_start_le [of s "pos - 1"] by simp
  qed simp
qed simp

lemma code_point_start_cong: "p < length s \<Longrightarrow> code_point_start (s @ t) p = code_point_start s p"
  by (induction p) (auto simp: nth_append)

lemma codepoints_back_cong: "pos \<le> length s \<Longrightarrow> codepoints_back (s @ t) n pos = codepoints_back s n pos"
proof (induction n arbitrary: pos)
  case (Suc n)
  show ?case
  proof (cases "pos = 0")
    case False
    then have lt: "pos - 1 < length s" using Suc.prems by simp
    then have "code_point_start s (pos - 1) \<le> length s" using code_point_start_le [of s "pos - 1"] by linarith
    then show ?thesis using False Suc.IH code_point_start_cong [OF lt, of t] by simp
  qed simp
qed simp

lemma code_point_start_mono: "p \<le> q \<Longrightarrow> code_point_start s p \<le> code_point_start s q"
proof (induction q)
  case (Suc q)
  then show ?case
    using code_point_start_le [of s p] by (cases "p = Suc q") (auto simp: le_Suc_eq)
qed simp

lemma codepoints_back_mono: "p \<le> q \<Longrightarrow> codepoints_back s n p \<le> codepoints_back s n q"
proof (induction n arbitrary: p q)
  case (Suc n)
  then show ?case using code_point_start_mono [of "p - 1" "q - 1" s] by simp
qed simp

text \<open>A cut at the first byte of a code point does not disturb the search behind it.\<close>

definition cut_at :: "string \<Rightarrow> nat \<Rightarrow> bool" where
  "cut_at s k \<longleftrightarrow> k = 0 \<or> (k < length s \<and> \<not> is_utf8_continuation (s ! k))"

lemma code_point_start_shift:
  "cut_at s k \<Longrightarrow> k + j < length s \<Longrightarrow> code_point_start s (k + j) = k + code_point_start (drop k s) j"
proof (induction j)
  case 0
  then show ?case by (cases k) (auto simp: cut_at_def)
next
  case (Suc j)
  then show ?case by (simp add: nth_drop)
qed

lemma codepoints_back_shift:
  assumes "cut_at s k" "k + j \<le> length s"
  shows "k + codepoints_back (drop k s) n j = max k (codepoints_back s n (k + j))"
  using assms(2)
proof (induction n arbitrary: j)
  case (Suc n)
  show ?case
  proof (cases j)
    case 0
    then show ?thesis using codepoints_back_le [of s "Suc n" k] by simp
  next
    case (Suc i)
    have "code_point_start (drop k s) i \<le> i" by (rule code_point_start_le)
    then have "k + codepoints_back (drop k s) n (code_point_start (drop k s) i) =
        max k (codepoints_back s n (k + code_point_start (drop k s) i))"
      using Suc.IH Suc Suc.prems by simp
    moreover have "code_point_start s (k + i) = k + code_point_start (drop k s) i"
      by (rule code_point_start_shift [OF assms(1)]) (use Suc Suc.prems in simp)
    ultimately show ?thesis using Suc by simp
  qed
qed simp

lemma code_point_start_cut: "p < length s \<Longrightarrow> cut_at s (code_point_start s p)"
  by (induction p) (auto simp: cut_at_def)

lemma codepoints_back_cut: "0 < n \<Longrightarrow> pos \<le> length s \<Longrightarrow> cut_at s (codepoints_back s n pos)"
proof (induction n arbitrary: pos)
  case (Suc n)
  show ?case
  proof (cases "pos = 0")
    case False
    then have lt: "pos - 1 < length s" using Suc.prems by simp
    then have le: "code_point_start s (pos - 1) \<le> length s" using code_point_start_le [of s "pos - 1"] by linarith
    show ?thesis
      using Suc.IH [OF _ le] code_point_start_cut [OF lt] False by (cases "n = 0") auto
  qed (simp add: cut_at_def)
qed simp

lemma keep_from_append:
  defines "k \<equiv> start_of_last_utf8_codepoints"
  shows "k (s @ t) 2 = k s 2 + k (drop (k s 2) s @ t) 2"
proof -
  define c where "c = k s 2"
  have here: "codepoints_back (s @ t) 2 (length s) = c"
    unfolding c_def k_def start_of_last_utf8_codepoints_def by (simp add: codepoints_back_cong)
  have cle: "c \<le> length s" unfolding c_def k_def start_of_last_utf8_codepoints_def by (rule codepoints_back_le)
  have "cut_at (s @ t) c" unfolding here [symmetric] by (rule codepoints_back_cut) simp_all
  from codepoints_back_shift [OF this, of "length s + length t - c" 2]
  have "c + k (drop c (s @ t)) 2 = max c (k (s @ t) 2)"
    using cle by (simp add: k_def start_of_last_utf8_codepoints_def)
  moreover have "c \<le> k (s @ t) 2"
    unfolding here [symmetric] k_def start_of_last_utf8_codepoints_def by (rule codepoints_back_mono) simp
  moreover have "drop c (s @ t) = drop c s @ t" using cle by simp
  ultimately show ?thesis unfolding c_def by (simp add: max_def)
qed

lemma keep_from_le: "start_of_last_utf8_codepoints s n \<le> length s"
  unfolding start_of_last_utf8_codepoints_def by (rule codepoints_back_le)

lemma codepoints_back_room: "0 < codepoints_back s n pos \<Longrightarrow> codepoints_back s n pos + n \<le> pos"
proof (induction n arbitrary: pos)
  case (Suc n)
  have p: "0 < pos" using Suc.prems by (cases pos) auto
  then have "codepoints_back s n (code_point_start s (pos - 1)) + n \<le> code_point_start s (pos - 1)"
    using Suc by simp
  then show ?case using p code_point_start_le [of s "pos - 1"] by simp
qed simp

section \<open>Values arriving in pieces\<close>

lemma emit_safe_append:
  assumes "emit_safe_tail s = (r, e1)" "emit_safe_tail (r @ t) = (r2, e2)"
  shows "\<exists>e. emit_safe_tail (s @ t) = (r2, e) \<and> flat e = flat e1 @ flat e2"
proof -
  define k where "k = start_of_last_utf8_codepoints s 2"
  define j where "j = start_of_last_utf8_codepoints (drop k s @ t) 2"
  have kj: "start_of_last_utf8_codepoints (s @ t) 2 = k + j" unfolding k_def j_def by (rule keep_from_append)
  have kle: "k \<le> length s" unfolding k_def by (rule keep_from_le)
  have r: "r = drop k s" "flat e1 = map Inr (take k s)"
    using assms(1) by (auto simp: emit_safe_tail_def k_def Let_def split: if_splits)
  have r2: "r2 = drop j (drop k s @ t)" "flat e2 = map Inr (take j (drop k s @ t))"
    using assms(2) unfolding r by (auto simp: emit_safe_tail_def j_def Let_def split: if_splits)
  have "drop (k + j) (s @ t) = r2" unfolding r2
    by (simp add: add.commute [of k j] drop_drop [symmetric] kle del: drop_append drop_drop) (simp add: kle)
  moreover have "take (k + j) (s @ t) = take k s @ take j (drop k s @ t)"
    using take_add [of k j "s @ t"] by (simp add: kle)
  ultimately show ?thesis
    unfolding emit_safe_tail_def kj Let_def r(2) r2(2) by (cases "k + j = 0") auto
qed

lemma pop_last_append: "t \<noteq> [] \<Longrightarrow> pop_last c (s @ t) = s @ pop_last c t"
  by (simp add: pop_last_def butlast_append)

lemma pop_last_length: "length s \<le> Suc (length (pop_last c s))"
  by (simp add: pop_last_def)

lemma emit_final_append:
  assumes "emit_safe_tail s = (r, e1)"
  shows "flat (snd (emit_final_tail (s @ t))) = flat e1 @ flat (snd (emit_final_tail (r @ t)))"
proof (cases "start_of_last_utf8_codepoints s 2 = 0")
  case True
  then have "r = s" "e1 = []" using assms by (auto simp: emit_safe_tail_def)
  then show ?thesis by simp
next
  case False
  define k where "k = start_of_last_utf8_codepoints s 2"
  have r: "r = drop k s" "flat e1 = map Inr (take k s)"
    using assms False by (auto simp: emit_safe_tail_def k_def Let_def)
  have "k + 2 \<le> length s" using codepoints_back_room [of s 2 "length s"] False
    by (simp add: k_def start_of_last_utf8_codepoints_def)
  then have len: "2 \<le> length (r @ t)" unfolding r by simp
  have ne: "pop_last LF (r @ t) \<noteq> []" using pop_last_length [of "r @ t" LF] len by auto
  have "r @ t \<noteq> []" using len by auto
  moreover have "s @ t = take k s @ (r @ t)" unfolding r by simp
  ultimately have "pop_last CR (pop_last LF (s @ t)) = take k s @ pop_last CR (pop_last LF (r @ t))"
    using pop_last_append ne by metis
  then show ?thesis unfolding emit_final_tail_def Let_def r(2) by auto
qed

lemma prefix_append:
  assumes "emit_parameter_prefix False trim s = (trim1, r)"
  shows "emit_parameter_prefix final trim (s @ t) = emit_parameter_prefix final trim1 (r @ t)"
    and "trim1 \<noteq> TrimDone \<Longrightarrow> r = []"
proof -
  have cr: "trim_cr final (s @ t) = emit_parameter_prefix final trim1 (r @ t) \<and> (trim1 \<noteq> TrimDone \<longrightarrow> r = [])"
    if "trim_cr False s = (trim1, r)" for s
    using that by (cases s) (auto simp: emit_parameter_prefix_def trim_cr_def split: if_splits)
  have "emit_parameter_prefix final trim (s @ t) = emit_parameter_prefix final trim1 (r @ t) \<and>
      (trim1 \<noteq> TrimDone \<longrightarrow> r = [])"
  proof (cases trim)
    case OptionalLf
    then show ?thesis using assms cr [of s] cr [of "tl s"]
      by (cases s) (auto simp: emit_parameter_prefix_def [of False] emit_parameter_prefix_def [of final OptionalLf])
  next
    case OptionalCr
    then show ?thesis using assms cr [of s] by (simp add: emit_parameter_prefix_def [of _ OptionalCr])
  next
    case TrimDone
    then show ?thesis using assms by (simp add: emit_parameter_prefix_def)
  qed
  then show "emit_parameter_prefix final trim (s @ t) = emit_parameter_prefix final trim1 (r @ t)"
    "trim1 \<noteq> TrimDone \<Longrightarrow> r = []" by simp_all
qed

lemma prefix_done: "emit_parameter_prefix True trim s = (trim1, r) \<Longrightarrow> trim1 = TrimDone"
  by (auto simp: emit_parameter_prefix_def trim_cr_def split: leading_trim.splits list.splits if_splits)

text \<open>Feeding a value in two pieces is feeding it whole.\<close>

lemma process_append:
  assumes "process_parameter_data s False p = (p1, e1)" "process_parameter_data t final p1 = (p2, e2)"
  shows "\<exists>e. process_parameter_data (s @ t) final p = (p2, e) \<and> flat e = flat e1 @ flat e2"
proof -
  obtain trim1 tail1 where a: "emit_parameter_prefix False (tp_trim p) (tp_tail p @ s) = (trim1, tail1)"
    by (cases "emit_parameter_prefix False (tp_trim p) (tp_tail p @ s)")
  note P = prefix_append [OF a]
  show ?thesis
  proof (cases "trim1 = TrimDone")
    case False
    then have p1: "p1 = p\<lparr>tp_trim := trim1, tp_tail := []\<rparr>" "e1 = []"
      using assms(1) a P(2) by (auto simp: process_parameter_data_def)
    have "process_parameter_data (s @ t) final p = process_parameter_data t final p1"
      using P(1) [of final t] P(2) False unfolding p1 process_parameter_data_def by (simp split: prod.splits)
    then show ?thesis using assms(2) p1 by simp
  next
    case True
    obtain r where r: "emit_safe_tail tail1 = (r, e1)" "p1 = p\<lparr>tp_trim := TrimDone, tp_tail := r\<rparr>"
      using assms(1) a True by (auto simp: process_parameter_data_def split: prod.splits)
    have whole: "emit_parameter_prefix final (tp_trim p) (tp_tail p @ s @ t) = (TrimDone, tail1 @ t)"
      using P(1) [of final t] True by (simp add: emit_parameter_prefix_def)
    have part: "emit_parameter_prefix final (tp_trim p1) (tp_tail p1 @ t) = (TrimDone, r @ t)"
      using r by (simp add: emit_parameter_prefix_def)
    show ?thesis
    proof (cases final)
      case True
      then show ?thesis
        using emit_final_append [OF r(1), of t] assms(2) whole part r(2)
        by (auto simp: process_parameter_data_def emit_final_tail_def Let_def)
    next
      case False
      obtain r2 where r2: "emit_safe_tail (r @ t) = (r2, e2)" "p2 = p1\<lparr>tp_trim := TrimDone, tp_tail := r2\<rparr>"
        using assms(2) part False by (auto simp: process_parameter_data_def split: prod.splits)
      from emit_safe_append [OF r(1) r2(1)] show ?thesis
        using whole r(2) r2(2) False by (auto simp: process_parameter_data_def)
    qed
  qed
qed

text \<open>A whole value is trimmed as the full-response parser trims it.\<close>

lemma process_whole:
  assumes "tp_trim p = OptionalLf" "tp_tail p = []"
  shows "\<exists>e. process_parameter_data s True p = (p\<lparr>tp_trim := TrimDone, tp_tail := []\<rparr>, e) \<and>
    flat e = map Inr (trim_single_newlines s)"
proof -
  have "emit_parameter_prefix True OptionalLf s = (TrimDone, pop_first CR (pop_first LF s))"
    by (auto simp: emit_parameter_prefix_def trim_cr_def pop_first_def split: list.splits)
  then show ?thesis using assms
    by (auto simp: process_parameter_data_def trim_single_newlines_def emit_final_tail_def Let_def)
qed

section \<open>The loop on growing input\<close>

abbreviation with_pending :: "tool_parser \<Rightarrow> string \<Rightarrow> tool_parser" where
  "with_pending p s \<equiv> p\<lparr>tp_pending := s\<rparr>"

text \<open>What is left over once the parser has stopped for good does not matter.\<close>

definition sealed :: "tool_parser \<Rightarrow> tool_parser" where
  "sealed p = (if parse_over p then with_pending p [] else p)"

lemma parse_stops_iff:
  assumes "\<not> parse_over p" "parse_body p = (p1, evs, cont)"
  shows "parse_stops p (parse_body p) \<longleftrightarrow> \<not> cont"
  using parse_body_shrinks [of p p1 evs] assms by (cases cont) (auto simp: parse_stops_def)

lemma parse_unfold:
  assumes "\<not> parse_over p" "parse_body p = (p1, evs, cont)"
  shows "parse p = (if cont then (fst (parse p1), evs @ snd (parse p1)) else (p1, evs))"
  using parse_stops_iff [OF assms] parse.simps [of p] assms by (auto split: prod.splits)

lemma parse_over_same [simp]: "parse_over p \<Longrightarrow> parse p = (p, [])"
  by (simp add: parse.simps)

lemma dropWhile_again: "dropWhile P (dropWhile P x @ b) = dropWhile P (x @ b)"
  by (induction x) auto

lemma dropWhile_rest: "dropWhile P x \<noteq> [] \<Longrightarrow> dropWhile P (x @ b) = dropWhile P x @ b"
  by (induction x) auto

lemma consume_whitespace_append:
  "consume_whitespace (with_pending (consume_whitespace p) (tp_pending (consume_whitespace p) @ b)) =
   consume_whitespace (with_pending p (tp_pending p @ b))"
  by (simp add: consume_whitespace_def dropWhile_again)

text \<open>
  Given more bytes, a round that went on goes on the same way, a round that failed fails the same way,
  and a round that waited has only skipped white space.
\<close>

definition continues :: "(tool_parser \<Rightarrow> step) \<Rightarrow> tool_parser \<Rightarrow> string \<Rightarrow> bool" where
  "continues f p b = (case f p of (p1, evs, cont) \<Rightarrow>
     if cont then f (with_pending p (tp_pending p @ b)) = (with_pending p1 (tp_pending p1 @ b), evs, True)
     else evs = [] \<and>
       (if tp_state p1 = Failed
        then \<exists>s. f (with_pending p (tp_pending p @ b)) = (with_pending p1 s, [], False)
        else p1 = consume_whitespace p))"

lemma not_prefix_append: "length s < length tag \<Longrightarrow> \<not> prefix s tag \<Longrightarrow>
    \<not> prefix (s @ b) tag \<and> take (length tag) (s @ b) \<noteq> tag"
proof (intro conjI notI)
  assume a: "length s < length tag" "\<not> prefix s tag"
  show False if "prefix (s @ b) tag" using a(2) append_prefixD [OF that] by simp
  show False if "take (length tag) (s @ b) = tag"
  proof -
    have "tag = s @ take (length tag - length s) b" using that a(1) by simp
    then show False using a(2) by (metis prefixI)
  qed
qed

lemma take_append_le: "n \<le> length s \<Longrightarrow> take n (s @ b) = take n s"
  by simp

lemma consume_exact_append:
  assumes "consume_exact tag (consume_whitespace p) = (p1, ok)" "tp_state p \<noteq> Failed" "tag \<noteq> []"
  shows "ok \<Longrightarrow> consume_exact tag (consume_whitespace (with_pending p (tp_pending p @ b))) =
      (with_pending p1 (tp_pending p1 @ b), True)"
    and "\<not> ok \<Longrightarrow> tp_state p1 \<noteq> Failed \<Longrightarrow> p1 = consume_whitespace p"
    and "\<not> ok \<Longrightarrow> tp_state p1 = Failed \<Longrightarrow>
      \<exists>s. consume_exact tag (consume_whitespace (with_pending p (tp_pending p @ b))) = (with_pending p1 s, False)"
proof -
  define y where "y = dropWhile is_space (tp_pending p)"
  have w: "tp_pending (consume_whitespace p) = y" by (simp add: consume_whitespace_def y_def)
  have grow: "consume_whitespace (with_pending p (tp_pending p @ b)) = with_pending p (y @ b)" if "y \<noteq> []"
    using dropWhile_rest [of is_space "tp_pending p" b] that by (simp add: consume_whitespace_def y_def)
  {
    assume ok
    then have k: "length tag \<le> length y" "take (length tag) y = tag" "p1 = with_pending p (drop (length tag) y)"
      using assms(1) unfolding consume_exact_def w by (auto simp: consume_whitespace_def split: if_splits)
    then have "y \<noteq> []" using assms(3) by auto
    then show "consume_exact tag (consume_whitespace (with_pending p (tp_pending p @ b))) =
        (with_pending p1 (tp_pending p1 @ b), True)"
      using k unfolding consume_exact_def grow [OF \<open>y \<noteq> []\<close>] by simp
  next
    assume "\<not> ok" "tp_state p1 \<noteq> Failed"
    then show "p1 = consume_whitespace p"
      using assms(1) by (auto simp: consume_exact_def parse_fail_def split: if_splits)
  next
    assume no: "\<not> ok" "tp_state p1 = Failed"
    have st: "tp_state (consume_whitespace p) \<noteq> Failed" using assms(2) by (simp add: consume_whitespace_def)
    have p1: "p1 = parse_fail (consume_whitespace p) (''expected '' @ tag)"
      using no assms(1) st by (auto simp: consume_exact_def split: if_splits)
    have bad: "(length y < length tag \<and> \<not> prefix y tag) \<or> (length tag \<le> length y \<and> take (length tag) y \<noteq> tag)"
      using no assms(1) st unfolding consume_exact_def w by (auto split: if_splits)
    then have ne: "y \<noteq> []" using assms(3) by auto
    have "(if length (y @ b) < length tag then \<not> prefix (y @ b) tag else take (length tag) (y @ b) \<noteq> tag)"
      using bad not_prefix_append [of y tag b] by (auto simp: not_less)
    then show "\<exists>s. consume_exact tag (consume_whitespace (with_pending p (tp_pending p @ b))) = (with_pending p1 s, False)"
      unfolding p1 consume_exact_def grow [OF ne]
      by (intro exI [of _ "y @ b"], cases p) (auto simp: parse_fail_def consume_whitespace_def split: if_splits)
  }
qed

lemma continues_exact:
  assumes "tp_state p \<noteq> Failed" "tag \<noteq> []"
    and f: "\<And>q. f q = (case consume_exact tag (consume_whitespace q) of
      (q1, False) \<Rightarrow> (q1, [], False) | (q1, True) \<Rightarrow> (q1\<lparr>tp_state := st\<rparr>, evs, True))"
  shows "continues f p b"
proof -
  obtain p1 ok where e: "consume_exact tag (consume_whitespace p) = (p1, ok)"
    by (cases "consume_exact tag (consume_whitespace p)")
  note C = consume_exact_append [OF e assms(1,2)]
  show ?thesis
  proof (cases ok)
    case True
    then show ?thesis using C(1) [of b] e by (cases p1) (simp add: continues_def f)
  next
    case False
    show ?thesis
    proof (cases "tp_state p1 = Failed")
      case True
      from C(3) [OF False True, of b] obtain s where
        "consume_exact tag (consume_whitespace (with_pending p (tp_pending p @ b))) = (with_pending p1 s, False)"
        by (elim exE)
      then have "f (with_pending p (tp_pending p @ b)) = (with_pending p1 s, [], False)" by (simp add: f)
      then have "\<exists>s. f (with_pending p (tp_pending p @ b)) = (with_pending p1 s, [], False)" by (rule exI)
      then show ?thesis using True False e unfolding continues_def by (simp add: f)
    next
      case False
      then show ?thesis using C(2) \<open>\<not> ok\<close> e by (simp add: continues_def f)
    qed
  qed
qed

lemma continues_tool_open: "tp_state p \<noteq> Failed \<Longrightarrow> continues tool_open_step p b"
  by (rule continues_exact [where tag = "''<tool_call>''"]) (simp_all add: tool_open_step_def)

lemma continues_tool_end: "tp_state p \<noteq> Failed \<Longrightarrow> continues tool_end_step p b"
  by (rule continues_exact [where tag = "''</tool_call>''"]) (simp_all add: tool_end_step_def)

text \<open>The two steps that read a name up to a closing bracket, after the white space is skipped.\<close>

lemma tp_pending_with: "tp_pending (with_pending p s) = s"
  by simp

lemma continues_skipped:
  assumes f: "\<And>q. f q = g (consume_whitespace q) (dropWhile is_space (tp_pending q))"
    and wait: "dropWhile is_space (tp_pending p) = [] \<Longrightarrow> g (consume_whitespace p) [] = (consume_whitespace p, [], False)"
    and st: "tp_state p \<noteq> Failed"
    and step: "\<And>q y. tp_state q \<noteq> Failed \<Longrightarrow> tp_pending q = y \<Longrightarrow> y \<noteq> [] \<Longrightarrow> (case g q y of (p1, evs, cont) \<Rightarrow>
      if cont then g (with_pending q (y @ b)) (y @ b) = (with_pending p1 (tp_pending p1 @ b), evs, True)
      else evs = [] \<and> (if tp_state p1 = Failed then \<exists>s. g (with_pending q (y @ b)) (y @ b) = (with_pending p1 s, [], False)
        else p1 = q))"
  shows "continues f p b"
proof -
  define y where "y = dropWhile is_space (tp_pending p)"
  define q where "q = consume_whitespace p"
  have q: "tp_pending q = y" "tp_state q \<noteq> Failed" using st by (simp_all add: q_def y_def consume_whitespace_def)
  show ?thesis
  proof (cases "y = []")
    case True
    then show ?thesis using wait st q by (simp add: continues_def f q_def [symmetric] y_def [symmetric])
  next
    case False
    then have g: "consume_whitespace (with_pending p (tp_pending p @ b)) = with_pending q (y @ b)"
      "dropWhile is_space (tp_pending p @ b) = y @ b"
      using dropWhile_rest [of is_space "tp_pending p" b] by (simp_all add: consume_whitespace_def y_def q_def)
    obtain p1 evs cont where e: "g q y = (p1, evs, cont)" by (cases "g q y") auto
    show ?thesis
      using step [OF q(2,1) False] unfolding continues_def f tp_pending_with g
        q_def [symmetric] y_def [symmetric] e by simp
  qed
qed

lemma continues_function_open: 
  assumes "tp_state p \<noteq> Failed"
  shows "continues function_open_step p b"
proof -
  define tag where "tag = ''<function=''"
  define g where "g q s = (let k = length tag; failed = parse_fail q ''expected <function=...>'' in
      if length s < k then (if prefix s tag then q else failed, [], False)
      else if take k s \<noteq> tag then (failed, [], False)
      else case find_char_from (CHR ''>'') s k of None \<Rightarrow> (q, [], False)
      | Some end_pos \<Rightarrow> let name = take (end_pos - k) (drop k s) in
          if name = [] \<or> \<not> list_all identifier_char name
          then (parse_fail q ''invalid canonical tool function name'', [], False)
          else (q\<lparr>tp_pending := drop (end_pos + 1) s, tp_started := True, tp_state := ParameterOrFunctionEnd\<rparr>,
            [(EvToolStart, name)], True))" for q s
  show ?thesis
  proof (rule continues_skipped [where g = g])
    show "function_open_step q = g (consume_whitespace q) (dropWhile is_space (tp_pending q))" for q
      unfolding function_open_step_def g_def tag_def Let_def consume_whitespace_def tp_pending_with by (rule refl)
    show "g (consume_whitespace p) [] = (consume_whitespace p, [], False)" by (simp add: g_def tag_def)
    show "tp_state p \<noteq> Failed" by fact
    fix q :: tool_parser and y assume q: "tp_state q \<noteq> Failed" "tp_pending q = y" "y \<noteq> []"
    show "case g q y of (p1, evs, cont) \<Rightarrow>
      if cont then g (with_pending q (y @ b)) (y @ b) = (with_pending p1 (tp_pending p1 @ b), evs, True)
      else evs = [] \<and> (if tp_state p1 = Failed then \<exists>s. g (with_pending q (y @ b)) (y @ b) = (with_pending p1 s, [], False)
        else p1 = q)"
    proof (cases "find_char_from (CHR ''>'') y (length tag)")
      case None
      then show ?thesis using q not_prefix_append [of y tag b]
        by (cases q) (auto simp: g_def Let_def parse_fail_def)
    next
      case (Some e)
      then show ?thesis using q not_prefix_append [of y tag b] find_char_from_append [OF Some, of b] find_char_from_Some [OF Some]
        by (cases q) (auto simp: g_def Let_def parse_fail_def)
    qed
  qed
qed

lemma not_start_append:
  assumes "\<not> (length tag \<le> length y \<and> take (length tag) y = tag)" "\<not> prefix y tag"
  shows "\<not> (length tag \<le> length (y @ b) \<and> take (length tag) (y @ b) = tag) \<and> \<not> prefix (y @ b) tag"
proof (cases "length y < length tag")
  case True
  then show ?thesis using not_prefix_append [OF True assms(2), of b] by simp
next
  case False
  then show ?thesis using assms append_prefixD [of y b tag] by auto
qed

lemma continues_parameter_open:
  assumes "tp_state p \<noteq> Failed"
  shows "continues parameter_open_step p b"
proof -
  define close where "close = ''</function>''"
  define opn where "opn = ''<parameter=''"
  define g where "g q s = (let k = length opn in
      if s = [] then (q, [], False)
      else if length close \<le> length s \<and> take (length close) s = close
      then (q\<lparr>tp_pending := drop (length close) s, tp_state := ToolEnd\<rparr>, [], True)
      else if k \<le> length s \<and> take k s = opn then
        (case find_char_from (CHR ''>'') s k of None \<Rightarrow> (q, [], False)
         | Some end_pos \<Rightarrow> let name = take (end_pos - k) (drop k s) in
             if name = [] then (parse_fail q ''empty canonical tool parameter name'', [], False)
             else (q\<lparr>tp_pending := drop (end_pos + 1) s, tp_tail := [], tp_trim := OptionalLf,
                 tp_state := ParameterValue\<rparr>, [(EvParameterStart, name)], True))
      else if prefix s close \<or> prefix s opn then (q, [], False)
      else (parse_fail q ''expected canonical parameter or </function>'', [], False))" for q s
  have len: "length close = length opn" by (simp add: close_def opn_def)
  have ne: "close \<noteq> opn" by (simp add: close_def opn_def)
  show ?thesis
  proof (rule continues_skipped [where g = g])
    show "parameter_open_step q = g (consume_whitespace q) (dropWhile is_space (tp_pending q))" for q
      unfolding parameter_open_step_def g_def close_def opn_def Let_def consume_whitespace_def tp_pending_with by (rule refl)
    show "g (consume_whitespace p) [] = (consume_whitespace p, [], False)" by (simp add: g_def Let_def)
    show "tp_state p \<noteq> Failed" by fact
    fix q :: tool_parser and y assume q: "tp_state q \<noteq> Failed" "tp_pending q = y" "y \<noteq> []"
    have grow: "take (length t) (y @ b) = take (length t) y" if "length t \<le> length y" for t using that by simp
    consider "length close \<le> length y" "take (length close) y = close"
      | "length close \<le> length y" "take (length opn) y = opn" "take (length close) y \<noteq> close"
      | "\<not> (length close \<le> length y \<and> take (length close) y = close)"
        "\<not> (length opn \<le> length y \<and> take (length opn) y = opn)" "prefix y close \<or> prefix y opn"
      | "\<not> (length close \<le> length y \<and> take (length close) y = close)"
        "\<not> (length opn \<le> length y \<and> take (length opn) y = opn)" "\<not> prefix y close" "\<not> prefix y opn"
      using len by auto
    then show "case g q y of (p1, evs, cont) \<Rightarrow>
      if cont then g (with_pending q (y @ b)) (y @ b) = (with_pending p1 (tp_pending p1 @ b), evs, True)
      else evs = [] \<and> (if tp_state p1 = Failed then \<exists>s. g (with_pending q (y @ b)) (y @ b) = (with_pending p1 s, [], False)
        else p1 = q)"
    proof cases
      case 1
      then show ?thesis using q by (cases q) (simp add: g_def Let_def)
    next
      case 2
      show ?thesis
      proof (cases "find_char_from (CHR ''>'') y (length opn)")
        case None
        then show ?thesis using q 2 len by (simp add: g_def Let_def)
      next
        case (Some e)
        then show ?thesis using q 2 len find_char_from_append [OF Some, of b] find_char_from_Some [OF Some]
          by (cases q) (auto simp: g_def Let_def parse_fail_def)
      qed
    next
      case 3
      then show ?thesis using q by (auto simp: g_def Let_def)
    next
      case 4
      have "g q y = (parse_fail q ''expected canonical parameter or </function>'', [], False)"
        using 4 q unfolding g_def Let_def by (simp only: if_False de_Morgan_disj simp_thms if_not_P)
      moreover have "g (with_pending q (y @ b)) (y @ b) =
          (parse_fail (with_pending q (y @ b)) ''expected canonical parameter or </function>'', [], False)"
        using not_start_append [OF 4(1,3), of b] not_start_append [OF 4(2,4), of b] q(3)
        unfolding g_def Let_def by (simp only: append_is_Nil_conv if_False de_Morgan_disj simp_thms if_not_P)
      moreover have "parse_fail (with_pending q (y @ b)) msg = with_pending (parse_fail q msg) (y @ b)" for msg
        by (cases q) (simp add: parse_fail_def)
      moreover have "tp_state (parse_fail q msg) = Failed" for msg by (simp add: parse_fail_def)
      ultimately show ?thesis by auto
    qed
  qed
qed

lemma parse_body_continues:
  assumes "\<not> parse_over p" "tp_state p \<noteq> ParameterValue"
  shows "continues parse_body p b"
proof -
  have st: "tp_state p \<noteq> Failed" using assms(1) by (simp add: parse_over_def)
  have one: "continues f p b \<Longrightarrow> (\<And>s. parse_body (with_pending p s) = f (with_pending p s)) \<Longrightarrow> continues parse_body p b" for f
  proof -
    assume a: "continues f p b" "\<And>s. parse_body (with_pending p s) = f (with_pending p s)"
    have b: "parse_body p = f p" using a(2) [of "tp_pending p"] by simp
    show ?thesis using a(1) unfolding continues_def b a(2) .
  qed
  show ?thesis
  proof (cases "tp_state p")
    case ToolOpen
    then show ?thesis by (intro one [OF continues_tool_open [OF st]]) (simp add: parse_body_def)
  next
    case FunctionOpen
    then show ?thesis by (intro one [OF continues_function_open [OF st]]) (simp add: parse_body_def)
  next
    case ParameterOrFunctionEnd
    then show ?thesis by (intro one [OF continues_parameter_open [OF st]]) (simp add: parse_body_def)
  next
    case ToolEnd
    then show ?thesis by (intro one [OF continues_tool_end [OF st]]) (simp add: parse_body_def)
  qed (use assms in \<open>simp_all add: parse_over_def\<close>)
qed

text \<open>A value without its end in sight: the held-back overlap and what arrives next.\<close>

lemma process_with_pending:
  "process_parameter_data s final (with_pending p z) =
    (case process_parameter_data s final p of (p1, evs) \<Rightarrow> (with_pending p1 z, evs))"
  by (cases p) (auto simp: process_parameter_data_def split: prod.splits)

lemma value_waits:
  assumes "tp_state p = ParameterValue" "find_str ''</parameter>'' s = None"
    "longest_suffix_prefix s ''</parameter>'' = length s"
  shows "parse (with_pending p s) = (with_pending p s, [])"
proof -
  have "parse_body (with_pending p s) = (with_pending p s, [], False)"
    using assms by (simp add: parse_body_def parameter_value_step_def Let_def)
  from parse_unfold [OF _ this] show ?thesis using assms(1) by (simp add: parse_over_def)
qed

lemma value_partial:
  assumes st: "tp_state p = ParameterValue" and no: "find_str ''</parameter>'' (tp_pending p) = None"
    and safe: "safe = length (tp_pending p) - longest_suffix_prefix (tp_pending p) ''</parameter>''" "safe \<noteq> 0"
    and run: "process_parameter_data (take safe (tp_pending p)) False p = (p1, e1)"
    and rest: "parse (with_pending p1 (drop safe (tp_pending p) @ b)) = (p2, e2)"
  shows "\<exists>e. parse (with_pending p (tp_pending p @ b)) = (p2, e) \<and> flat e = flat e1 @ flat e2"
proof -
  define tag where "tag = ''</parameter>''"
  define s where "s = tp_pending p"
  define r where "r = drop safe s"
  define h where "h = longest_suffix_prefix s tag"
  have sh: "safe = length s - h" "h \<le> length s"
    using safe(1) overlap_le [of s tag] by (simp_all add: s_def h_def tag_def longest_suffix_prefix_def)
  have p1: "tp_state p1 = ParameterValue" using process_parameter_data_pending [OF run] st by simp
  have find: "find_str tag (s @ b) = map_option (\<lambda>i. safe + i) (find_str tag (r @ b))"
    unfolding r_def sh(1)
    by (rule find_str_behind) (use no in \<open>simp_all add: s_def tag_def h_def longest_suffix_prefix_def\<close>)
  have over: "longest_suffix_prefix (s @ b) tag = longest_suffix_prefix (r @ b) tag"
    unfolding longest_suffix_prefix_def r_def sh(1) by (rule overlap_append) (simp add: h_def longest_suffix_prefix_def)
  have cut: "take (safe + i) (s @ b) = take safe s @ take i (r @ b)" "drop (safe + i) (s @ b) = drop i (r @ b)" for i
    using take_add [of safe i "s @ b"] drop_drop [of i safe "s @ b"] sh by (simp_all add: r_def add.commute)
  have pv: "parse_body (with_pending q z) = parameter_value_step (with_pending q z)" "\<not> parse_over (with_pending q z)"
    if "tp_state q = ParameterValue" for q z using that by (simp_all add: parse_body_def parse_over_def)
  have goes: "\<exists>e'. process_parameter_data (take (safe + i) (s @ b)) final p = (q, e') \<and> flat e' = flat e1 @ flat e"
    if "process_parameter_data (take i (r @ b)) final p1 = (q, e)" for i final q e
    using process_append [OF run that] unfolding cut(1) by (simp add: s_def)
  show ?thesis
  proof (cases "find_str tag (r @ b)")
    case (Some i)
    obtain q e where q: "process_parameter_data (take i (r @ b)) True p1 = (q, e)" by fastforce
    define next_p where "next_p = with_pending q (drop (i + length tag) (r @ b))\<lparr>tp_state := ParameterOrFunctionEnd\<rparr>"
    from goes [OF q] obtain e' where e': "process_parameter_data (take (safe + i) (s @ b)) True p = (q, e')"
      "flat e' = flat e1 @ flat e" by blast
    have "parse_body (with_pending p1 (r @ b)) = (next_p, e @ [(EvParameterEnd, [])], True)"
      using Some q unfolding pv(1) [OF p1] parameter_value_step_def Let_def tag_def [symmetric] tp_pending_with
      by (simp add: process_with_pending next_p_def)
    note one = parse_unfold [OF pv(2) [OF p1] this]
    have "parse_body (with_pending p (s @ b)) = (next_p, e' @ [(EvParameterEnd, [])], True)"
      using find Some e' cut(2) [of "i + length tag"]
      unfolding pv(1) [OF st] parameter_value_step_def Let_def tag_def [symmetric] tp_pending_with
      by (simp add: process_with_pending next_p_def add.assoc)
    note two = parse_unfold [OF pv(2) [OF st] this]
    show ?thesis using one two rest e'(2) by (auto simp: s_def [symmetric] r_def [symmetric])
  next
    case None
    define rsafe where "rsafe = length (r @ b) - longest_suffix_prefix (r @ b) tag"
    have "longest_suffix_prefix (r @ b) tag \<le> length (r @ b)"
      unfolding longest_suffix_prefix_def by (rule overlap_le)
    moreover have "length r = h" using sh by (simp add: r_def)
    ultimately have total: "length (s @ b) - longest_suffix_prefix (s @ b) tag = safe + rsafe"
      using sh unfolding over rsafe_def by simp
    obtain q e where q: "process_parameter_data (take rsafe (r @ b)) False p1 = (q, e)" by fastforce
    from goes [OF q] obtain e' where e': "process_parameter_data (take (safe + rsafe) (s @ b)) False p = (q, e')"
      "flat e' = flat e1 @ flat e" by blast
    have "parse_body (with_pending p (s @ b)) = (with_pending q (drop rsafe (r @ b)), e', True)"
      using find None e' total safe(2) cut(2) [of rsafe]
      unfolding pv(1) [OF st] parameter_value_step_def Let_def tag_def [symmetric] tp_pending_with
      by (simp add: process_with_pending)
    note two = parse_unfold [OF pv(2) [OF st] this]
    show ?thesis
    proof (cases "rsafe = 0")
      case True
      have "longest_suffix_prefix (r @ b) tag = length (r @ b)"
        using True overlap_le [of "r @ b" tag] unfolding rsafe_def longest_suffix_prefix_def by simp
      note w = value_waits [OF p1, of "r @ b", folded tag_def, OF None this]
      have "parse (with_pending p (s @ b)) = (with_pending p1 (r @ b), e1)"
      proof -
        have "process_parameter_data (take (safe + rsafe) (s @ b)) False p = (p1, e1)"
          using run True sh by (simp add: s_def)
        then have "q = p1" "e' = e1" using e'(1) by simp_all
        then show ?thesis using two w True by simp
      qed
      then show ?thesis using w rest by (simp add: s_def [symmetric] r_def [symmetric])
    next
      case False
      have "parse_body (with_pending p1 (r @ b)) = (with_pending q (drop rsafe (r @ b)), e, True)"
        using None q False
        unfolding pv(1) [OF p1] parameter_value_step_def Let_def tag_def [symmetric] tp_pending_with rsafe_def [symmetric]
        by (simp add: process_with_pending)
      note one = parse_unfold [OF pv(2) [OF p1] this]
      show ?thesis using one two rest e'(2) by (auto simp: s_def [symmetric] r_def [symmetric])
    qed
  qed
qed

lemma parse_append_value:
  assumes st: "tp_state p = ParameterValue" "find_str ''</parameter>'' (tp_pending p) = None"
    and run: "parse p = (p1, e1)" "parse (with_pending p1 (tp_pending p1 @ b)) = (p2, e2)"
  shows "\<exists>e. parse (with_pending p (tp_pending p @ b)) = (p2, e) \<and> flat e = flat e1 @ flat e2"
proof -
  define s where "s = tp_pending p"
  define h where "h = longest_suffix_prefix s ''</parameter>''"
  define safe where "safe = length s - h"
  have h: "h = overlap s ''</parameter>''" unfolding h_def longest_suffix_prefix_def by (rule refl)
  have sh: "h \<le> length s" unfolding h by (rule overlap_le)
  have over: "\<not> parse_over p" using st(1) by (simp add: parse_over_def)
  have step: "parse_body p = (if safe = 0 then (p, [], False)
      else case process_parameter_data (take safe s) False p of (p1, evs) \<Rightarrow> (with_pending p1 (drop safe s), evs, True))"
    using st by (simp add: parse_body_def parameter_value_step_def safe_def h_def s_def Let_def)
  show ?thesis
  proof (cases "safe = 0")
    case True
    then have "parse_body p = (p, [], False)" using step by simp
    from parse_unfold [OF over this] have "p1 = p" "e1 = []" using run(1) by simp_all
    then show ?thesis using run(2) by simp
  next
    case False
    obtain q e where q: "process_parameter_data (take safe s) False p = (q, e)" by fastforce
    have q': "tp_state q = ParameterValue" using process_parameter_data_pending [OF q] st(1) by simp
    have self: "longest_suffix_prefix (drop safe s) ''</parameter>'' = length (drop safe s)"
      using overlap_self [OF h] sh unfolding longest_suffix_prefix_def safe_def by simp
    have "find_str ''</parameter>'' (drop safe s) = None"
      using find_str_behind [OF st(2) [folded s_def] h, of "[]"] st(2) unfolding safe_def append_Nil2 s_def by simp
    note wait = value_waits [OF q' this self]
    have "parse_body p = (with_pending q (drop safe s), e, True)" using step False q by simp
    from parse_unfold [OF over this] have "p1 = with_pending q (drop safe s)" "e1 = e" using wait run(1) by simp_all
    then have "parse (with_pending q (drop safe s @ b)) = (p2, e2)" using run(2) by simp
    from value_partial [OF st safe_def [unfolded h_def s_def] False q [unfolded s_def] this [unfolded s_def]]
    show ?thesis using \<open>e1 = e\<close> by simp
  qed
qed

lemma continues_value:
  assumes "tp_state p = ParameterValue" "find_str ''</parameter>'' (tp_pending p) = Some i"
  shows "continues parse_body p b"
  using assms find_str_append [OF assms(2), of b] find_str_length [OF assms(2)]
  by (auto simp: continues_def parse_body_def parameter_value_step_def Let_def process_with_pending split: prod.splits)

lemma parse_same_body:
  assumes "\<not> parse_over p" "\<not> parse_over q" "parse_body p = parse_body q"
  shows "parse p = parse q"
proof -
  obtain r evs cont where b: "parse_body q = (r, evs, cont)" by (cases "parse_body q") auto
  show ?thesis using parse_unfold [OF assms(1) b [folded assms(3)]] parse_unfold [OF assms(2) b] by simp
qed

lemma parse_append_wait:
  assumes "\<not> parse_over p" "tp_state p \<noteq> ParameterValue" "q = consume_whitespace p"
  shows "parse (with_pending q (tp_pending q @ b)) = parse (with_pending p (tp_pending p @ b))"
proof (rule parse_same_body)
  have st: "tp_state q = tp_state p" unfolding assms(3) by (simp add: consume_whitespace_def)
  show "\<not> parse_over (with_pending q (tp_pending q @ b))" "\<not> parse_over (with_pending p (tp_pending p @ b))"
    using assms(1) st by (simp_all add: parse_over_def)
  note w = consume_whitespace_append [of p b, folded assms(3)]
  show "parse_body (with_pending q (tp_pending q @ b)) = parse_body (with_pending p (tp_pending p @ b))"
    using assms(1,2) by (cases "tp_state p") (simp_all add: parse_body_def st tool_open_step_def
      function_open_step_def parameter_open_step_def tool_end_step_def w parse_over_def)
qed

lemma value_goes_on:
  "tp_state p = ParameterValue \<Longrightarrow> find_str ''</parameter>'' (tp_pending p) = Some i \<Longrightarrow>
    parse_body p = (q, evs, cont) \<Longrightarrow> cont"
  by (auto simp: parse_body_def parameter_value_step_def Let_def split: prod.splits)

text \<open>Parsing in two portions is parsing the whole.\<close>

lemma parse_append:
  "parse p = (p1, e1) \<Longrightarrow> parse (with_pending p1 (tp_pending p1 @ b)) = (p2, e2) \<Longrightarrow>
   \<exists>p3 e3. parse (with_pending p (tp_pending p @ b)) = (p3, e3) \<and> sealed p3 = sealed p2 \<and> flat e3 = flat e1 @ flat e2"
proof (induction p arbitrary: p1 e1 rule: parse.induct)
  case (1 p)
  obtain q evs cont where body: "parse_body p = (q, evs, cont)" by (cases "parse_body p") auto
  consider "parse_over p" | "tp_state p = ParameterValue" "find_str ''</parameter>'' (tp_pending p) = None"
    | "\<not> parse_over p" "tp_state p = ParameterValue \<longrightarrow> (\<exists>i. find_str ''</parameter>'' (tp_pending p) = Some i)"
    by fastforce
  then show ?case
  proof cases
    case 1
    then show ?thesis using "1.prems" by simp
  next
    case 2
    from parse_append_value [OF this "1.prems"] show ?thesis by blast
  next
    case 3
    note run = parse_unfold [OF 3(1) body]
    have grown: "\<not> parse_over (with_pending p z)" for z using 3(1) by (simp add: parse_over_def)
    have cont: "continues parse_body p b"
      using 3 parse_body_continues [OF 3(1)] continues_value by blast
    show ?thesis
    proof (cases cont)
      case True
      then have "parse_body (with_pending p (tp_pending p @ b)) = (with_pending q (tp_pending q @ b), evs, True)"
        using \<open>continues parse_body p b\<close> body by (simp add: continues_def)
      note two = parse_unfold [OF grown this]
      obtain e where e: "parse q = (p1, e)" "e1 = evs @ e" using run True "1.prems"(1) by (cases "parse q") simp
      have "\<not> parse_stops p (parse_body p)" using parse_stops_iff [OF 3(1) body] True by simp
      then obtain p3 e3 where "parse (with_pending q (tp_pending q @ b)) = (p3, e3)"
          "sealed p3 = sealed p2" "flat e3 = flat e @ flat e2"
        using "1.IH" [OF 3(1) body [symmetric] refl _ e(1) "1.prems"(2)] body by auto
      then show ?thesis using two e(2) by simp
    next
      case no: False
      then have p1: "p1 = q" "e1 = evs" using run "1.prems"(1) by simp_all
      show ?thesis
      proof (cases "tp_state q = Failed")
        case True
        then obtain s where s: "parse_body (with_pending p (tp_pending p @ b)) = (with_pending q s, [], False)" "evs = []"
          using cont body no by (auto simp: continues_def)
        have over: "parse_over (with_pending q z)" for z using True by (simp add: parse_over_def)
        have "p2 = with_pending q (tp_pending q @ b)" "e2 = []" using "1.prems"(2) over unfolding p1 by simp_all
        then show ?thesis using parse_unfold [OF grown s(1)] over s(2) p1 by (simp add: sealed_def)
      next
        case False
        then have q: "q = consume_whitespace p" "evs = []" using cont body no by (auto simp: continues_def)
        have "tp_state p \<noteq> ParameterValue" using 3(2) value_goes_on body no by blast
        from parse_append_wait [OF 3(1) this q(1)] show ?thesis using "1.prems"(2) q(2) p1 by simp
      qed
    qed
  qed
qed

section \<open>Feeding chunks\<close>

text \<open>A client feeds chunk after chunk and collects the events.\<close>

fun feeds :: "tool_parser \<Rightarrow> string list \<Rightarrow> tool_parser \<times> event list" where
  "feeds p [] = (p, [])"
| "feeds p (c # cs) = (case feed p c of (p1, e1, _) \<Rightarrow> case feeds p1 cs of (p2, e2) \<Rightarrow> (p2, e1 @ e2))"

definition whole :: "tool_parser \<Rightarrow> string \<Rightarrow> tool_parser \<times> event list" where
  "whole p s = parse (with_pending p (tp_pending p @ s))"

lemma feed_whole: "fst (feed p s) = (if parse_over p then p else fst (whole p s))"
    "fst (snd (feed p s)) = (if parse_over p then [] else snd (whole p s))"
  by (auto simp: feed_def whole_def parse_over_def split: prod.splits)

lemma sealed_eq:
  assumes "sealed p = sealed q"
  shows "parse_over p = parse_over q" "tp_state p = tp_state q" "\<not> parse_over p \<Longrightarrow> p = q"
proof -
  have "tp_state (sealed r) = tp_state r" for r by (simp add: sealed_def)
  then show st: "tp_state p = tp_state q" using assms by metis
  then show "parse_over p = parse_over q" by (simp add: parse_over_def)
  then show "\<not> parse_over p \<Longrightarrow> p = q" using assms by (simp add: sealed_def)
qed

lemma whole_over: "parse_over p \<Longrightarrow> sealed (fst (whole p s)) = sealed p \<and> snd (whole p s) = []"
  by (simp add: whole_def sealed_def parse_over_def)

lemma whole_append:
  assumes "whole p a = (p1, e1)" "whole p1 b = (p2, e2)"
  shows "sealed (fst (whole p (a @ b))) = sealed p2 \<and> flat (snd (whole p (a @ b))) = flat e1 @ flat e2"
proof -
  from parse_append [of "with_pending p (tp_pending p @ a)" p1 e1 b p2 e2] assms
  obtain p3 e3 where "whole p (a @ b) = (p3, e3)" "sealed p3 = sealed p2" "flat e3 = flat e1 @ flat e2"
    by (auto simp: whole_def)
  then show ?thesis by simp
qed

lemma feeds_over: "parse_over p \<Longrightarrow> feeds p cs = (p, [])"
proof (induction cs)
  case (Cons c cs)
  then show ?case using feed_whole [of p c] by (cases "feed p c") auto
qed simp

lemma feeds_whole:
  "cs \<noteq> [] \<Longrightarrow> feeds p cs = (q, e) \<Longrightarrow>
    sealed q = sealed (fst (whole p (concat cs))) \<and> flat e = flat (snd (whole p (concat cs)))"
proof (induction cs arbitrary: p e)
  case (Cons c cs)
  show ?case
  proof (cases "parse_over p")
    case True
    then show ?thesis using whole_over [OF True, of "concat (c # cs)"] feeds_over [OF True, of "c # cs"] Cons.prems(2) by simp
  next
    case False
    obtain p1 e1 where one: "whole p c = (p1, e1)" by fastforce
    then have "fst (feed p c) = p1" "fst (snd (feed p c)) = e1" using feed_whole [of p c] False by simp_all
    then obtain e' where two: "feeds p1 cs = (q, e')" "e = e1 @ e'"
      using Cons.prems(2) by (cases "feed p c") (auto split: prod.splits)
    show ?thesis
    proof (cases "cs = []")
      case True
      then show ?thesis using one two by simp
    next
      case ne: False
      obtain p2 e2 where rest: "whole p1 (concat cs) = (p2, e2)" by fastforce
      have "sealed q = sealed p2" "flat e' = flat e2" using Cons.IH [OF ne two(1)] rest by simp_all
      then show ?thesis using whole_append [OF one rest] two(2) by simp
    qed
  qed
qed simp

lemma whole_new_nil: "whole parser_new [] = (parser_new, [])"
proof -
  have b: "parse_body parser_new = (parser_new, [], False)"
    by (simp add: parse_body_def parser_new_def tool_open_step_def consume_exact_def consume_whitespace_def)
  have "\<not> parse_over parser_new" by (simp add: parse_over_def parser_new_def)
  from parse_unfold [OF this b] show ?thesis by (simp add: whole_def parser_new_def)
qed

lemma feeds_new:
  assumes "feeds parser_new cs = (q, e)"
  shows "sealed q = sealed (fst (whole parser_new (concat cs))) \<and> flat e = flat (snd (whole parser_new (concat cs)))"
  using feeds_whole [OF _ assms] whole_new_nil assms by (cases "cs = []") auto

definition session :: "string list \<Rightarrow> tool_parser \<times> event list \<times> bool" where
  "session cs = (case feeds parser_new cs of (p, e) \<Rightarrow> case finish p of (p1, e1, ok) \<Rightarrow> (p1, e @ e1, ok))"

lemma finish_eq:
  "finish p = (if tp_state p = Complete then (p, [], True) else if tp_state p = Failed then (p, [], False)
    else case whole p [] of (p1, e1) \<Rightarrow>
      if tp_state p1 = Complete then (p1, e1, True) else if tp_state p1 = Failed then (p1, e1, False)
      else (parse_fail p1 ''incomplete canonical tool call'', e1, False))"
  by (auto simp: finish_def feed_def whole_def split: prod.splits)

lemma session_whole:
  assumes "session cs = (p, e, ok)"
  defines "w \<equiv> whole parser_new (concat cs)"
  shows "ok \<longleftrightarrow> tp_state (fst w) = Complete" "flat e = flat (snd w)"
    "sealed p = sealed (if parse_over (fst w) then fst w else parse_fail (fst w) ''incomplete canonical tool call'')"
proof -
  obtain q e0 where fd: "feeds parser_new cs = (q, e0)" by fastforce
  note fw = feeds_new [OF fd, folded w_def]
  note sq = sealed_eq [OF conjunct1 [OF fw]]
  have "(ok \<longleftrightarrow> tp_state (fst w) = Complete) \<and> flat e = flat (snd w) \<and>
    sealed p = sealed (if parse_over (fst w) then fst w else parse_fail (fst w) ''incomplete canonical tool call'')"
  proof (cases "parse_over (fst w)")
    case True
    then show ?thesis using assms(1) fd fw sq(2)
      by (auto simp: session_def finish_eq parse_over_def split: if_splits)
  next
    case False
    then have q: "q = fst w" using sq by simp
    obtain p2 e2 where again: "whole q [] = (p2, e2)" by fastforce
    have "whole parser_new (concat cs) = (q, snd w)" using q by (simp add: w_def)
    from whole_append [OF this again] have "sealed q = sealed p2" "flat e2 = []" using q by (simp_all add: w_def)
    moreover from this(1) have "p2 = q" using sealed_eq [of p2 q] False q by metis
    ultimately show ?thesis using assms(1) fd fw False again q
      by (auto simp: session_def finish_eq parse_over_def split: if_splits)
  qed
  then show "ok \<longleftrightarrow> tp_state (fst w) = Complete" "flat e = flat (snd w)"
    "sealed p = sealed (if parse_over (fst w) then fst w else parse_fail (fst w) ''incomplete canonical tool call'')"
    by auto
qed

text \<open>
  Claim C16. Chunk boundaries do not matter: however the same bytes are cut, the parser ends in the same state with
  the same error, accepts or rejects alike and has emitted the same events up to the fragmentation of
  parameter data.
\<close>

theorem chunking_irrelevant:
  assumes "concat cs = concat ds" "session cs = (p, e, ok)" "session ds = (q, e', ok')"
  shows "ok = ok' \<and> sealed p = sealed q \<and> flat e = flat e'"
  using session_whole [OF assms(2)] session_whole [OF assms(3)] unfolding assms(1) by simp

section \<open>Canonical calls\<close>

text \<open>A parameter is the white space before it, its key and its raw value.\<close>

type_synonym parameter = "string \<times> string \<times> string"

fun parameter_text :: "parameter \<Rightarrow> string" where
  "parameter_text (w, k, v) = w @ ''<parameter='' @ k @ ''>'' @ v @ ''</parameter>''"

fun parameter_ok :: "parameter \<Rightarrow> bool" where
  "parameter_ok (w, k, v) \<longleftrightarrow> list_all is_space w \<and> k \<noteq> [] \<and> CHR ''>'' \<notin> set k \<and>
     find_str ''</parameter>'' (v @ ''</parameter>'') = Some (length v)"

fun parameter_events :: "parameter \<Rightarrow> (event + char) list" where
  "parameter_events (w, k, v) =
     Inl (EvParameterStart, k) # map Inr (trim_single_newlines v) @ [Inl (EvParameterEnd, [])]"

record call =
  ca_spaces :: "string \<times> string \<times> string \<times> string"
  ca_name :: string
  ca_parameters :: "parameter list"

definition call_text :: "call \<Rightarrow> string" where
  "call_text c = (case ca_spaces c of (w0, w1, w2, w3) \<Rightarrow>
     w0 @ ''<tool_call>'' @ w1 @ ''<function='' @ ca_name c @ ''>'' @
     concat (map parameter_text (ca_parameters c)) @ w2 @ ''</function>'' @ w3 @ ''</tool_call>'')"

definition call_ok :: "call \<Rightarrow> bool" where
  "call_ok c \<longleftrightarrow> (case ca_spaces c of (w0, w1, w2, w3) \<Rightarrow>
       list_all is_space w0 \<and> list_all is_space w1 \<and> list_all is_space w2 \<and> list_all is_space w3) \<and>
     ca_name c \<noteq> [] \<and> list_all identifier_char (ca_name c) \<and> list_all parameter_ok (ca_parameters c)"

definition call_events :: "call \<Rightarrow> (event + char) list" where
  "call_events c = Inl (EvToolStart, ca_name c) # concat (map parameter_events (ca_parameters c)) @ [Inl (EvToolEnd, [])]"

lemma skip_spaces:
  assumes "\<not> is_space (hd t)" "t \<noteq> []"
  shows "dropWhile is_space s = t @ z \<longleftrightarrow> (\<exists>w. list_all is_space w \<and> s = w @ t @ z)"
proof
  assume "dropWhile is_space s = t @ z"
  then have "s = takeWhile is_space s @ t @ z" by (metis takeWhile_dropWhile_id)
  moreover have "list_all is_space (takeWhile is_space s)" by (auto simp: list_all_iff dest: set_takeWhileD)
  ultimately show "\<exists>w. list_all is_space w \<and> s = w @ t @ z" by blast
next
  assume "\<exists>w. list_all is_space w \<and> s = w @ t @ z"
  then obtain w where w: "list_all is_space w" "s = w @ t @ z" by blast
  have "dropWhile is_space (w @ t @ z) = dropWhile is_space (t @ z)"
    using w(1) by (intro dropWhile_append2) (auto simp: list_all_iff)
  also have "\<dots> = t @ z" using assms by (cases t) auto
  finally show "dropWhile is_space s = t @ z" using w(2) by simp
qed

lemma starts_iff: "length t \<le> length s \<and> take (length t) s = t \<longleftrightarrow> (\<exists>z. s = t @ z)"
  by (metis append_eq_conv_conj append_take_drop_id length_append le_add1)

lemma consume_exact_iff:
  assumes "\<not> is_space (hd tag)" "tag \<noteq> []"
  shows "consume_exact tag (consume_whitespace p) = (p1, True) \<longleftrightarrow>
    (\<exists>w z. list_all is_space w \<and> tp_pending p = w @ tag @ z \<and> p1 = with_pending p z)"
proof -
  define y where "y = dropWhile is_space (tp_pending p)"
  have w: "consume_whitespace p = with_pending p y" by (simp add: consume_whitespace_def y_def)
  have "consume_exact tag (with_pending p y) = (p1, True) \<longleftrightarrow>
      (length tag \<le> length y \<and> take (length tag) y = tag) \<and> p1 = with_pending p (drop (length tag) y)"
    by (auto simp: consume_exact_def)
  also have "\<dots> \<longleftrightarrow> (\<exists>z. y = tag @ z \<and> p1 = with_pending p z)" unfolding starts_iff by auto
  also have "\<dots> \<longleftrightarrow> (\<exists>w z. list_all is_space w \<and> tp_pending p = w @ tag @ z \<and> p1 = with_pending p z)"
    unfolding y_def using skip_spaces [OF assms] by blast
  finally show ?thesis unfolding w .
qed

lemma find_char_split:
  assumes "k \<le> length s"
  shows "find_char_from c s k = Some e \<longleftrightarrow> (\<exists>n z. drop k s = n @ c # z \<and> c \<notin> set n \<and> e = k + length n)"
proof
  assume a: "find_char_from c s k = Some e"
  note F = find_char_from_Some [OF a]
  have "drop k s = take (e - k) (drop k s) @ c # drop (Suc e) s"
    using F id_take_nth_drop [of "e - k" "drop k s"] diff_less_mono [of e "length s" k] by simp
  moreover have "c \<notin> set (take (e - k) (drop k s))"
    using F by (auto simp: in_set_conv_nth)
  moreover have "e = k + length (take (e - k) (drop k s))" using F by (auto simp: min_def)
  ultimately show "\<exists>n z. drop k s = n @ c # z \<and> c \<notin> set n \<and> e = k + length n" by blast
next
  assume "\<exists>n z. drop k s = n @ c # z \<and> c \<notin> set n \<and> e = k + length n"
  then obtain n z where n: "drop k s = n @ c # z" "c \<notin> set n" "e = k + length n" by blast
  have "find_str [c] (n @ c # z) = Some (length n)" using n(2) by (induction n) auto
  then show "find_char_from c s k = Some e" using n by (simp add: find_char_from_def)
qed

lemma tool_open_iff:
  "tool_open_step p = (p1, evs, True) \<longleftrightarrow>
    (\<exists>w z. list_all is_space w \<and> tp_pending p = w @ ''<tool_call>'' @ z \<and>
      p1 = (with_pending p z)\<lparr>tp_state := FunctionOpen\<rparr> \<and> evs = [])"
proof -
  have "tool_open_step p = (p1, evs, True) \<longleftrightarrow>
      (\<exists>q. consume_exact ''<tool_call>'' (consume_whitespace p) = (q, True) \<and> p1 = q\<lparr>tp_state := FunctionOpen\<rparr> \<and> evs = [])"
    unfolding tool_open_step_def by (auto split: prod.splits bool.splits)
  then show ?thesis by (subst (asm) consume_exact_iff) (auto simp: is_space_def)
qed

lemma tool_end_iff:
  "tool_end_step p = (p1, evs, True) \<longleftrightarrow>
    (\<exists>w z. list_all is_space w \<and> tp_pending p = w @ ''</tool_call>'' @ z \<and>
      p1 = (with_pending p z)\<lparr>tp_state := Complete\<rparr> \<and> evs = [(EvToolEnd, [])])"
proof -
  have "tool_end_step p = (p1, evs, True) \<longleftrightarrow>
      (\<exists>q. consume_exact ''</tool_call>'' (consume_whitespace p) = (q, True) \<and> p1 = q\<lparr>tp_state := Complete\<rparr> \<and>
        evs = [(EvToolEnd, [])])"
    unfolding tool_end_step_def by (auto split: prod.splits bool.splits)
  then show ?thesis by (subst (asm) consume_exact_iff) (auto simp: is_space_def)
qed

text \<open>A tag, a name and a closing bracket, after white space.\<close>

definition opens :: "string \<Rightarrow> string \<Rightarrow> string \<Rightarrow> string \<Rightarrow> bool" where
  "opens s tag name z \<longleftrightarrow> CHR ''>'' \<notin> set name \<and> (\<exists>w. list_all is_space w \<and> s = w @ tag @ name @ CHR ''>'' # z)"

lemma opens_iff:
  assumes "\<not> is_space (hd tag)" "tag \<noteq> []" "y = dropWhile is_space s"
  shows "(length tag \<le> length y \<and> take (length tag) y = tag) \<and> find_char_from (CHR ''>'') y (length tag) = Some e \<and>
      name = take (e - length tag) (drop (length tag) y) \<and> z = drop (e + 1) y \<longleftrightarrow>
    opens s tag name z \<and> e = length tag + length name"
proof
  assume a: "(length tag \<le> length y \<and> take (length tag) y = tag) \<and> find_char_from (CHR ''>'') y (length tag) = Some e \<and>
      name = take (e - length tag) (drop (length tag) y) \<and> z = drop (e + 1) y"
  then obtain r where r: "y = tag @ r" using starts_iff by blast
  obtain n z' where n: "r = n @ CHR ''>'' # z'" "CHR ''>'' \<notin> set n" "e = length tag + length n"
    using a find_char_split [of "length tag" y] r by auto
  then have "name = n" "z = z'" using a r by simp_all
  then have "dropWhile is_space s = tag @ (name @ CHR ''>'' # z)" using assms(3) r n(1) by simp
  then show "opens s tag name z \<and> e = length tag + length name"
    using skip_spaces [OF assms(1,2)] n \<open>name = n\<close> by (auto simp: opens_def)
next
  assume a: "opens s tag name z \<and> e = length tag + length name"
  then have y: "y = tag @ (name @ CHR ''>'' # z)" using skip_spaces [OF assms(1,2)] assms(3) by (auto simp: opens_def)
  have "find_char_from (CHR ''>'') y (length tag) = Some e"
    using a y find_char_split [of "length tag" y] by (auto simp: opens_def)
  then show "(length tag \<le> length y \<and> take (length tag) y = tag) \<and> find_char_from (CHR ''>'') y (length tag) = Some e \<and>
      name = take (e - length tag) (drop (length tag) y) \<and> z = drop (e + 1) y"
    using y a by simp
qed

lemma function_open_iff:
  "function_open_step p = (p1, evs, True) \<longleftrightarrow>
    (\<exists>name z. opens (tp_pending p) ''<function='' name z \<and> name \<noteq> [] \<and> list_all identifier_char name \<and>
      p1 = (with_pending p z)\<lparr>tp_started := True, tp_state := ParameterOrFunctionEnd\<rparr> \<and> evs = [(EvToolStart, name)])"
    (is "?l \<longleftrightarrow> ?r")
proof -
  define y where "y = dropWhile is_space (tp_pending p)"
  define tag where "tag = ''<function=''"
  have w: "consume_whitespace p = with_pending p y" by (simp add: consume_whitespace_def y_def)
  have "?l \<longleftrightarrow> (\<exists>e name z. ((length tag \<le> length y \<and> take (length tag) y = tag) \<and>
        find_char_from (CHR ''>'') y (length tag) = Some e \<and>
        name = take (e - length tag) (drop (length tag) y) \<and> z = drop (e + 1) y) \<and>
      name \<noteq> [] \<and> list_all identifier_char name \<and>
      p1 = (with_pending p z)\<lparr>tp_started := True, tp_state := ParameterOrFunctionEnd\<rparr> \<and> evs = [(EvToolStart, name)])"
  proof (cases "length tag \<le> length y \<and> take (length tag) y = tag")
    case False
    then show ?thesis unfolding function_open_step_def Let_def w tag_def [symmetric] tp_pending_with by (auto simp: not_less)
  next
    case True
    show ?thesis
    proof (cases "find_char_from (CHR ''>'') y (length tag)")
      case None
      then show ?thesis using True unfolding function_open_step_def Let_def w tag_def [symmetric] tp_pending_with
        by (simp add: not_less)
    next
      case (Some e)
      define n where "n = take (e - length tag) (drop (length tag) y)"
      have "function_open_step p = (if n = [] \<or> \<not> list_all identifier_char n
          then (parse_fail (with_pending p y) ''invalid canonical tool function name'', [], False)
          else ((with_pending p (drop (e + 1) y))\<lparr>tp_started := True, tp_state := ParameterOrFunctionEnd\<rparr>,
            [(EvToolStart, n)], True))"
        using True Some unfolding function_open_step_def Let_def w tag_def [symmetric] tp_pending_with
        by (simp add: not_less n_def)
      then show ?thesis using True Some unfolding n_def by auto
    qed
  qed
  also have "\<dots> \<longleftrightarrow> ?r"
    unfolding tag_def [symmetric] by (subst opens_iff [OF _ _ y_def]) (auto simp: tag_def is_space_def)
  finally show ?thesis .
qed

lemma function_end_iff:
  "parameter_open_step p = (p1, evs, True) \<and> tp_state p1 = ToolEnd \<longleftrightarrow>
    (\<exists>w z. list_all is_space w \<and> tp_pending p = w @ ''</function>'' @ z \<and>
      p1 = (with_pending p z)\<lparr>tp_state := ToolEnd\<rparr> \<and> evs = [])" (is "?l \<longleftrightarrow> ?r")
proof -
  define y where "y = dropWhile is_space (tp_pending p)"
  define tag where "tag = ''</function>''"
  have w: "consume_whitespace p = with_pending p y" by (simp add: consume_whitespace_def y_def)
  have "?l \<longleftrightarrow> (length tag \<le> length y \<and> take (length tag) y = tag) \<and>
      p1 = (with_pending p (drop (length tag) y))\<lparr>tp_state := ToolEnd\<rparr> \<and> evs = []"
  proof (cases "length tag \<le> length y \<and> take (length tag) y = tag")
    case True
    then have "y \<noteq> []" by (auto simp: tag_def)
    then have "parameter_open_step p = ((with_pending p (drop (length tag) y))\<lparr>tp_state := ToolEnd\<rparr>, [], True)"
      using True unfolding parameter_open_step_def Let_def w tag_def [symmetric] tp_pending_with by simp
    then show ?thesis using True by auto
  next
    case False
    have "\<not> (parameter_open_step p = (p1, evs, True) \<and> tp_state p1 = ToolEnd)"
      unfolding parameter_open_step_def Let_def w tag_def [symmetric] tp_pending_with if_not_P [OF False]
      by (auto split: option.splits if_splits)
    then show ?thesis using False by blast
  qed
  also have "\<dots> \<longleftrightarrow> (\<exists>z. y = tag @ z \<and> p1 = (with_pending p z)\<lparr>tp_state := ToolEnd\<rparr> \<and> evs = [])"
    unfolding starts_iff by auto
  also have "\<dots> \<longleftrightarrow> ?r" unfolding y_def tag_def using skip_spaces [of "''</function>''" "tp_pending p"]
    by (auto simp: is_space_def)
  finally show ?thesis .
qed

lemma parameter_start_iff:
  "parameter_open_step p = (p1, evs, True) \<and> tp_state p1 = ParameterValue \<longleftrightarrow>
    (\<exists>name z. opens (tp_pending p) ''<parameter='' name z \<and> name \<noteq> [] \<and>
      p1 = (with_pending p z)\<lparr>tp_tail := [], tp_trim := OptionalLf, tp_state := ParameterValue\<rparr> \<and>
      evs = [(EvParameterStart, name)])" (is "?l \<longleftrightarrow> ?r")
proof -
  define y where "y = dropWhile is_space (tp_pending p)"
  define close where "close = ''</function>''"
  define tag where "tag = ''<parameter=''"
  have w: "consume_whitespace p = with_pending p y" by (simp add: consume_whitespace_def y_def)
  have "?l \<longleftrightarrow> (\<exists>e name z. ((length tag \<le> length y \<and> take (length tag) y = tag) \<and>
        find_char_from (CHR ''>'') y (length tag) = Some e \<and>
        name = take (e - length tag) (drop (length tag) y) \<and> z = drop (e + 1) y) \<and>
      name \<noteq> [] \<and> p1 = (with_pending p z)\<lparr>tp_tail := [], tp_trim := OptionalLf, tp_state := ParameterValue\<rparr> \<and>
      evs = [(EvParameterStart, name)])"
  proof (cases "length tag \<le> length y \<and> take (length tag) y = tag")
    case False
    have "\<not> (parameter_open_step p = (p1, evs, True) \<and> tp_state p1 = ParameterValue)"
      unfolding parameter_open_step_def Let_def w tag_def [symmetric] tp_pending_with if_not_P [OF False] by auto
    then show ?thesis using False by blast
  next
    case True
    then obtain r where r: "y = tag @ r" using starts_iff by blast
    then have ne: "y \<noteq> []" "\<not> (length close \<le> length y \<and> take (length close) y = close)"
      by (simp_all add: tag_def close_def)
    show ?thesis
    proof (cases "find_char_from (CHR ''>'') y (length tag)")
      case None
      then have "parameter_open_step p = (with_pending p y, [], False)"
        unfolding parameter_open_step_def Let_def w tag_def [symmetric] close_def [symmetric] tp_pending_with
          if_not_P [OF ne(1)] if_not_P [OF ne(2)] if_P [OF True] by simp
      then show ?thesis using None by simp
    next
      case (Some e)
      define n where "n = take (e - length tag) (drop (length tag) y)"
      have "parameter_open_step p = (if n = []
          then (parse_fail (with_pending p y) ''empty canonical tool parameter name'', [], False)
          else ((with_pending p (drop (e + 1) y))\<lparr>tp_tail := [], tp_trim := OptionalLf, tp_state := ParameterValue\<rparr>,
            [(EvParameterStart, n)], True))"
        unfolding parameter_open_step_def Let_def w tag_def [symmetric] close_def [symmetric] tp_pending_with
          if_not_P [OF ne(1)] if_not_P [OF ne(2)] if_P [OF True] Some n_def by simp
      then show ?thesis using True Some unfolding n_def by auto
    qed
  qed
  also have "\<dots> \<longleftrightarrow> ?r"
    unfolding tag_def [symmetric] by (subst opens_iff [OF _ _ y_def]) (auto simp: tag_def is_space_def)
  finally show ?thesis .
qed

lemma parameter_open_goes: "parameter_open_step p = (p1, evs, True) \<Longrightarrow> tp_state p1 = ToolEnd \<or> tp_state p1 = ParameterValue"
  unfolding parameter_open_step_def Let_def by (auto split: if_splits option.splits)

section \<open>Acceptance\<close>

definition completes :: "tool_parser \<Rightarrow> (event + char) list \<Rightarrow> bool" where
  "completes p es \<longleftrightarrow> tp_state (fst (parse p)) = Complete \<and> flat (snd (parse p)) = es"

lemma value_stuck:
  "tp_state p = ParameterValue \<Longrightarrow> find_str ''</parameter>'' (tp_pending p) = None \<Longrightarrow>
    tp_state (fst (parse p)) = ParameterValue"
proof (induction p rule: parse.induct)
  case (1 p)
  define safe where "safe = length (tp_pending p) - longest_suffix_prefix (tp_pending p) ''</parameter>''"
  have over: "\<not> parse_over p" using 1(2) by (simp add: parse_over_def)
  have step: "parse_body p = (if safe = 0 then (p, [], False)
      else case process_parameter_data (take safe (tp_pending p)) False p of (p1, evs) \<Rightarrow>
        (with_pending p1 (drop safe (tp_pending p)), evs, True))"
    using 1(2,3) by (simp add: parse_body_def parameter_value_step_def safe_def Let_def)
  show ?case
  proof (cases "safe = 0")
    case True
    then have "parse_body p = (p, [], False)" using step by simp
    from parse_unfold [OF over this] show ?thesis using 1(2) by simp
  next
    case False
    obtain q e where q: "process_parameter_data (take safe (tp_pending p)) False p = (q, e)" by fastforce
    define q' where "q' = with_pending q (drop safe (tp_pending p))"
    have body: "parse_body p = (q', e, True)" using step False q by (simp add: q'_def)
    have "tp_state q' = ParameterValue" using process_parameter_data_pending [OF q] 1(2) by (simp add: q'_def)
    moreover have "find_str ''</parameter>'' (tp_pending q') = None"
      unfolding q'_def tp_pending_with by (rule find_str_drop_None [OF 1(3)])
    moreover have "\<not> parse_stops p (parse_body p)" using parse_stops_iff [OF over body] by simp
    ultimately have "tp_state (fst (parse q')) = ParameterValue"
      using 1(1) [OF over body [symmetric] refl] body by simp
    then show ?thesis using parse_unfold [OF over body] by simp
  qed
qed

lemma body_waits:
  assumes "\<not> parse_over p" "parse_body p = (p1, evs, False)"
  shows "tp_state p1 \<noteq> Complete"
proof (cases "tp_state p = ParameterValue")
  case True
  then show ?thesis using assms
    by (auto simp: parse_body_def parameter_value_step_def Let_def split: option.splits prod.splits if_splits)
next
  case False
  from parse_body_continues [OF assms(1) False, of "[]"] assms show ?thesis
    by (auto simp: continues_def consume_whitespace_def parse_over_def split: if_splits)
qed

lemma completes_step:
  assumes "\<not> parse_over p"
  shows "completes p es \<longleftrightarrow> (\<exists>p1 evs es'. parse_body p = (p1, evs, True) \<and> es = flat evs @ es' \<and> completes p1 es')"
proof -
  obtain p1 evs cont where body: "parse_body p = (p1, evs, cont)" by (cases "parse_body p") auto
  show ?thesis
    using parse_unfold [OF assms body] body body_waits [OF assms, of p1 evs] by (cases cont) (auto simp: completes_def)
qed

lemma completes_over: "tp_state p = Complete \<Longrightarrow> completes p es \<longleftrightarrow> es = []"
  by (auto simp: completes_def parse_over_def)

definition closes :: "string \<Rightarrow> (event + char) list \<Rightarrow> bool" where
  "closes s es \<longleftrightarrow> (\<exists>w z. list_all is_space w \<and> s = w @ ''</tool_call>'' @ z) \<and> es = [Inl (EvToolEnd, [])]"

lemma completes_tool_end:
  assumes "tp_state p = ToolEnd"
  shows "completes p es \<longleftrightarrow> closes (tp_pending p) es"
proof -
  have "\<not> parse_over p" using assms by (simp add: parse_over_def)
  note C = completes_step [OF this, of es]
  have b: "parse_body p = tool_end_step p" using assms by (simp add: parse_body_def)
  show ?thesis
  proof
    assume "completes p es"
    then obtain p1 evs es' where e: "tool_end_step p = (p1, evs, True)" "es = flat evs @ es'" "completes p1 es'"
      using C b by auto
    then have "tp_state p1 = Complete" unfolding tool_end_iff by auto
    then show "closes (tp_pending p) es" using e unfolding tool_end_iff closes_def by (auto simp: completes_over)
  next
    assume a: "closes (tp_pending p) es"
    then obtain w z where w: "list_all is_space w" "tp_pending p = w @ ''</tool_call>'' @ z" by (auto simp: closes_def)
    define p1 where "p1 = (with_pending p z)\<lparr>tp_state := Complete\<rparr>"
    have "tool_end_step p = (p1, [(EvToolEnd, [])], True)" unfolding tool_end_iff p1_def using w by blast
    moreover have "completes p1 []" by (simp add: completes_over p1_def)
    ultimately show "completes p es" using a C b by (auto simp: closes_def)
  qed
qed


text \<open>The raw value ends at the first closing tag.\<close>

lemma value_cut:
  "find_str tag s = Some i \<longleftrightarrow> (\<exists>v z. s = v @ tag @ z \<and> find_str tag (v @ tag) = Some (length v) \<and> i = length v)"
proof
  assume a: "find_str tag s = Some i"
  define v where "v = take i s"
  have i: "i + length tag \<le> length s" by (rule find_str_length [OF a])
  have s: "s = (v @ tag) @ drop (i + length tag) s" unfolding v_def append_assoc by (rule find_str_split [OF a])
  have v: "length v = i" using i by (simp add: v_def)
  have "\<not> prefix tag (drop j (v @ tag))" if j: "j < length v" for j
  proof
    assume "prefix tag (drop j (v @ tag))"
    then have "prefix tag (drop j (v @ tag) @ drop (i + length tag) s)" by (rule prefix_prefix)
    then have "prefix tag (drop j ((v @ tag) @ drop (i + length tag) s))" using j by simp
    then show False using a j v unfolding s [symmetric] by (simp add: find_str_Some)
  qed
  then have "find_str tag (v @ tag) = Some (length v)" by (simp add: find_str_Some)
  then show "\<exists>v z. s = v @ tag @ z \<and> find_str tag (v @ tag) = Some (length v) \<and> i = length v"
    using s v by auto
next
  assume "\<exists>v z. s = v @ tag @ z \<and> find_str tag (v @ tag) = Some (length v) \<and> i = length v"
  then show "find_str tag s = Some i" using find_str_append [of tag "v @ tag" "length v" for v] by fastforce
qed

lemma value_cutI: "find_str tag (v @ tag) = Some (length v) \<Longrightarrow> find_str tag (v @ tag @ z) = Some (length v)"
  using find_str_append [of tag "v @ tag" "length v" z] by simp

lemma completes_value:
  assumes st: "tp_state p = ParameterValue" "tp_trim p = OptionalLf" "tp_tail p = []"
  shows "completes p es \<longleftrightarrow> (\<exists>v z es' q. tp_pending p = v @ ''</parameter>'' @ z \<and>
    find_str ''</parameter>'' (v @ ''</parameter>'') = Some (length v) \<and>
    es = map Inr (trim_single_newlines v) @ Inl (EvParameterEnd, []) # es' \<and>
    q = p\<lparr>tp_trim := TrimDone, tp_tail := [], tp_pending := z, tp_state := ParameterOrFunctionEnd\<rparr> \<and> completes q es')"
proof -
  define tag where "tag = ''</parameter>''"
  have over: "\<not> parse_over p" using st(1) by (simp add: parse_over_def)
  show ?thesis
  proof (cases "find_str tag (tp_pending p)")
    case None
    then have "\<not> completes p es" using value_stuck [OF st(1)] by (simp add: completes_def tag_def)
    moreover have "\<not> (tp_pending p = v @ tag @ z \<and> find_str tag (v @ tag) = Some (length v))" for v z
      using None value_cutI [of tag v z] by auto
    ultimately show ?thesis unfolding tag_def [symmetric] by blast
  next
    case (Some i)
    then obtain v z where v: "tp_pending p = v @ tag @ z" "find_str tag (v @ tag) = Some (length v)" "i = length v"
      using value_cut [of tag "tp_pending p" i] by blast
    have uniq: "v' = v \<and> z' = z" if "tp_pending p = v' @ tag @ z'" "find_str tag (v' @ tag) = Some (length v')" for v' z'
    proof -
      have "find_str tag (tp_pending p) = Some (length v')" unfolding that(1) by (rule value_cutI [OF that(2)])
      then have len: "length v' = length v" using v(3) Some by simp
      have "v' @ tag @ z' = v @ tag @ z" by (rule trans [OF that(1) [symmetric] v(1)])
      then show ?thesis using len by simp
    qed
    obtain e where e: "process_parameter_data v True p = (p\<lparr>tp_trim := TrimDone, tp_tail := []\<rparr>, e)"
        "flat e = map Inr (trim_single_newlines v)"
      using process_whole [OF st(2,3), of v] by blast
    define q where "q = p\<lparr>tp_trim := TrimDone, tp_tail := [], tp_pending := z, tp_state := ParameterOrFunctionEnd\<rparr>"
    have "parse_body p = (q, e @ [(EvParameterEnd, [])], True)"
      using st(1) Some e v unfolding parse_body_def parameter_value_step_def Let_def tag_def [symmetric]
      by (simp add: q_def)
    then have "completes p es \<longleftrightarrow>
        (\<exists>es'. es = map Inr (trim_single_newlines v) @ Inl (EvParameterEnd, []) # es' \<and> completes q es')"
      using completes_step [OF over, of es] e(2) by auto
    then have C: "completes p es \<longleftrightarrow> (\<exists>es'. es = map Inr (trim_single_newlines v) @ Inl (EvParameterEnd, []) # es' \<and>
        completes (p\<lparr>tp_trim := TrimDone, tp_tail := [], tp_pending := z, tp_state := ParameterOrFunctionEnd\<rparr>) es')"
      unfolding q_def .
    show ?thesis unfolding tag_def [symmetric]
    proof
      assume "completes p es"
      then show "\<exists>v z es' q. tp_pending p = v @ tag @ z \<and> find_str tag (v @ tag) = Some (length v) \<and>
          es = map Inr (trim_single_newlines v) @ Inl (EvParameterEnd, []) # es' \<and>
          q = p\<lparr>tp_trim := TrimDone, tp_tail := [], tp_pending := z, tp_state := ParameterOrFunctionEnd\<rparr> \<and> completes q es'"
        using C v(1,2) by blast
    next
      assume "\<exists>v z es' q. tp_pending p = v @ tag @ z \<and> find_str tag (v @ tag) = Some (length v) \<and>
          es = map Inr (trim_single_newlines v) @ Inl (EvParameterEnd, []) # es' \<and>
          q = p\<lparr>tp_trim := TrimDone, tp_tail := [], tp_pending := z, tp_state := ParameterOrFunctionEnd\<rparr> \<and> completes q es'"
      then obtain v' z' es' where a: "tp_pending p = v' @ tag @ z'" "find_str tag (v' @ tag) = Some (length v')"
          "es = map Inr (trim_single_newlines v') @ Inl (EvParameterEnd, []) # es'"
          "completes (p\<lparr>tp_trim := TrimDone, tp_tail := [], tp_pending := z', tp_state := ParameterOrFunctionEnd\<rparr>) es'"
        by (elim exE conjE) simp
      then show "completes p es" using C uniq [OF a(1,2)] by blast
    qed
  qed
qed

text \<open>From a position between parameters.\<close>

definition finishes :: "string \<Rightarrow> (event + char) list \<Rightarrow> bool" where
  "finishes s es \<longleftrightarrow> (\<exists>ps w2 w3 rest.
     s = concat (map parameter_text ps) @ w2 @ ''</function>'' @ w3 @ ''</tool_call>'' @ rest \<and>
     list_all is_space w2 \<and> list_all is_space w3 \<and> list_all parameter_ok ps \<and>
     es = concat (map parameter_events ps) @ [Inl (EvToolEnd, [])])"

lemma finishes_unfold:
  "finishes s es \<longleftrightarrow> (\<exists>w z. list_all is_space w \<and> s = w @ ''</function>'' @ z \<and> closes z es) \<or>
    (\<exists>k y v z es'. opens s ''<parameter='' k y \<and> k \<noteq> [] \<and> y = v @ ''</parameter>'' @ z \<and>
      find_str ''</parameter>'' (v @ ''</parameter>'') = Some (length v) \<and> finishes z es' \<and>
      es = Inl (EvParameterStart, k) # map Inr (trim_single_newlines v) @ Inl (EvParameterEnd, []) # es')"
  (is "_ \<longleftrightarrow> ?closing \<or> ?more")
proof
  assume "finishes s es"
  then obtain ps w2 w3 rest where f:
    "s = concat (map parameter_text ps) @ w2 @ ''</function>'' @ w3 @ ''</tool_call>'' @ rest"
    "list_all is_space w2" "list_all is_space w3" "list_all parameter_ok ps"
    "es = concat (map parameter_events ps) @ [Inl (EvToolEnd, [])]" unfolding finishes_def by blast
  show "?closing \<or> ?more"
  proof (cases ps)
    case Nil
    then have "s = w2 @ ''</function>'' @ w3 @ ''</tool_call>'' @ rest" "closes (w3 @ ''</tool_call>'' @ rest) es"
      using f unfolding closes_def by (simp, auto)
    then show ?thesis using f(2) by blast
  next
    case (Cons p qs)
    obtain w k v where p: "p = (w, k, v)" by (cases p) auto
    define z where "z = concat (map parameter_text qs) @ w2 @ ''</function>'' @ w3 @ ''</tool_call>'' @ rest"
    define es' where "es' = concat (map parameter_events qs) @ [Inl (EvToolEnd, [] :: string)]"
    have "finishes z es'" unfolding finishes_def z_def es'_def using f Cons by auto
    moreover have "opens s ''<parameter='' k (v @ ''</parameter>'' @ z)"
      unfolding opens_def using f(1,4) Cons p by (auto simp: z_def)
    ultimately have ?more
      by (intro exI [of _ k] exI [of _ "v @ ''</parameter>'' @ z"] exI [of _ v] exI [of _ z] exI [of _ es'])
        (use f(4,5) Cons p in \<open>simp add: es'_def\<close>)
    then show ?thesis by blast
  qed
next
  assume "?closing \<or> ?more"
  then show "finishes s es"
  proof
    assume ?closing
    then obtain w z where w: "list_all is_space w" "s = w @ ''</function>'' @ z" "closes z es" by blast
    then obtain w3 r where "list_all is_space w3" "z = w3 @ ''</tool_call>'' @ r" "es = [Inl (EvToolEnd, [])]"
      unfolding closes_def by blast
    then show ?thesis unfolding finishes_def using w
      by (intro exI [of _ "[]"] exI [of _ w] exI [of _ w3] exI [of _ r]) simp
  next
    assume ?more
    then obtain k y v z es' where m: "opens s ''<parameter='' k y" "k \<noteq> []" "y = v @ ''</parameter>'' @ z"
      "find_str ''</parameter>'' (v @ ''</parameter>'') = Some (length v)" "finishes z es'"
      "es = Inl (EvParameterStart, k) # map Inr (trim_single_newlines v) @ Inl (EvParameterEnd, []) # es'" by blast
    obtain ps w2 w3 rest where f: "z = concat (map parameter_text ps) @ w2 @ ''</function>'' @ w3 @ ''</tool_call>'' @ rest"
      "list_all is_space w2" "list_all is_space w3" "list_all parameter_ok ps"
      "es' = concat (map parameter_events ps) @ [Inl (EvToolEnd, [])]" using m(5) unfolding finishes_def by blast
    obtain w where w: "list_all is_space w" "s = w @ ''<parameter='' @ k @ CHR ''>'' # y" "CHR ''>'' \<notin> set k"
      using m(1) unfolding opens_def by blast
    show ?thesis unfolding finishes_def
      by (rule exI [of _ "(w, k, v) # ps"], rule exI [of _ w2], rule exI [of _ w3], rule exI [of _ rest])
        (use m f w in simp)
  qed
qed

lemma completes_between:
  "tp_state p = ParameterOrFunctionEnd \<Longrightarrow> completes p es \<longleftrightarrow> finishes (tp_pending p) es"
proof (induction "length (tp_pending p)" arbitrary: p es rule: less_induct)
  case less
  have over: "\<not> parse_over p" using less.prems by (simp add: parse_over_def)
  have body: "parse_body p = parameter_open_step p" using less.prems by (simp add: parse_body_def)
  note C = completes_step [OF over, of es, unfolded body]
  show ?case
  proof
    assume "completes p es"
    then obtain p1 evs es' where p1: "parameter_open_step p = (p1, evs, True)" "es = flat evs @ es'" "completes p1 es'"
      using C by blast
    from parameter_open_goes [OF p1(1)] show "finishes (tp_pending p) es"
    proof
      assume "tp_state p1 = ToolEnd"
      then obtain w z where w: "list_all is_space w" "tp_pending p = w @ ''</function>'' @ z"
          "p1 = (with_pending p z)\<lparr>tp_state := ToolEnd\<rparr>" "evs = []"
        using p1(1) function_end_iff [of p p1 evs] by blast
      then have "closes z es" using p1(2,3) completes_tool_end [of p1 es'] by simp
      then show ?thesis unfolding finishes_unfold [of "tp_pending p"] using w(1,2) by blast
    next
      assume pv: "tp_state p1 = ParameterValue"
      then obtain k y where k: "opens (tp_pending p) ''<parameter='' k y" "k \<noteq> []" "evs = [(EvParameterStart, k)]"
          "p1 = (with_pending p y)\<lparr>tp_tail := [], tp_trim := OptionalLf, tp_state := ParameterValue\<rparr>"
        using p1(1) parameter_start_iff [of p p1 evs] by blast
      have t: "tp_trim p1 = OptionalLf" "tp_tail p1 = []" "tp_pending p1 = y" using k(4) by simp_all
      from iffD1 [OF completes_value [OF pv t(1,2)] p1(3)] obtain v z es2 q where v0: "tp_pending p1 = v @ ''</parameter>'' @ z"
          "find_str ''</parameter>'' (v @ ''</parameter>'') = Some (length v)"
          "es' = map Inr (trim_single_newlines v) @ Inl (EvParameterEnd, []) # es2"
          "q = p1\<lparr>tp_trim := TrimDone, tp_tail := [], tp_pending := z, tp_state := ParameterOrFunctionEnd\<rparr>"
          "completes q es2"
        by (elim exE conjE) (rule that)
      have v: "y = v @ ''</parameter>'' @ z" "find_str ''</parameter>'' (v @ ''</parameter>'') = Some (length v)"
          "es' = map Inr (trim_single_newlines v) @ Inl (EvParameterEnd, []) # es2"
          "tp_state q = ParameterOrFunctionEnd" "tp_pending q = z" "completes q es2"
        using v0 t(3) by simp_all
      have "length (tp_pending q) < length (tp_pending p)" using k(1) v(1,5) by (auto simp: opens_def)
      then have "finishes z es2" using less.hyps v(4,5,6) by blast
      moreover have "es = Inl (EvParameterStart, k) # map Inr (trim_single_newlines v) @ Inl (EvParameterEnd, []) # es2"
        using p1(2) k(3) v(3) by simp
      ultimately show ?thesis unfolding finishes_unfold [of "tp_pending p"] using k(1,2) v(1,2) by blast
    qed
  next
    assume "finishes (tp_pending p) es"
    then consider w z where "list_all is_space w" "tp_pending p = w @ ''</function>'' @ z" "closes z es"
      | k y v z es' where "opens (tp_pending p) ''<parameter='' k y" "k \<noteq> []" "y = v @ ''</parameter>'' @ z"
        "find_str ''</parameter>'' (v @ ''</parameter>'') = Some (length v)" "finishes z es'"
        "es = Inl (EvParameterStart, k) # map Inr (trim_single_newlines v) @ Inl (EvParameterEnd, []) # es'"
      unfolding finishes_unfold [of "tp_pending p"] by blast
    then show "completes p es"
    proof cases
      case 1
      define p1 where "p1 = (with_pending p z)\<lparr>tp_state := ToolEnd\<rparr>"
      have "parameter_open_step p = (p1, [], True)" using function_end_iff [of p p1 "[]"] 1 p1_def by blast
      moreover have "completes p1 es" using completes_tool_end [of p1 es] 1(3) by (simp add: p1_def)
      ultimately show ?thesis using C by auto
    next
      case 2
      define p1 where "p1 = (with_pending p y)\<lparr>tp_tail := [], tp_trim := OptionalLf, tp_state := ParameterValue\<rparr>"
      define q where "q = p1\<lparr>tp_trim := TrimDone, tp_tail := [], tp_pending := z, tp_state := ParameterOrFunctionEnd\<rparr>"
      have step: "parameter_open_step p = (p1, [(EvParameterStart, k)], True)"
        using parameter_start_iff [of p p1 "[(EvParameterStart, k)]"] 2(1,2) p1_def by blast
      have "length (tp_pending q) < length (tp_pending p)" using 2(1,3) by (auto simp: opens_def q_def)
      then have q: "completes q es'" using less.hyps [of q es'] 2(5) by (simp add: q_def)
      have "tp_pending p1 = v @ ''</parameter>'' @ z" "tp_state p1 = ParameterValue" "tp_trim p1 = OptionalLf" "tp_tail p1 = []"
        using 2(3) by (simp_all add: p1_def)
      then have "completes p1 (map Inr (trim_single_newlines v) @ Inl (EvParameterEnd, []) # es')"
        using completes_value [of p1] 2(4) q q_def by blast
      then show ?thesis using C step 2(6) by auto
    qed
  qed
qed

lemma completes_function:
  assumes "tp_state p = FunctionOpen"
  shows "completes p es \<longleftrightarrow> (\<exists>name z es'. opens (tp_pending p) ''<function='' name z \<and> name \<noteq> [] \<and>
    list_all identifier_char name \<and> finishes z es' \<and> es = Inl (EvToolStart, name) # es')"
proof -
  have over: "\<not> parse_over p" using assms by (simp add: parse_over_def)
  have body: "parse_body p = function_open_step p" using assms by (simp add: parse_body_def)
  have next_c: "completes ((with_pending p z)\<lparr>tp_started := True, tp_state := ParameterOrFunctionEnd\<rparr>) es' \<longleftrightarrow> finishes z es'"
    for z es' by (subst completes_between) simp_all
  show ?thesis
    unfolding completes_step [OF over, of es, unfolded body] function_open_iff
    using next_c by fastforce
qed

lemma completes_new:
  "completes (with_pending parser_new s) es \<longleftrightarrow> (\<exists>c rest. s = call_text c @ rest \<and> call_ok c \<and> es = call_events c)"
proof -
  define p where "p = with_pending parser_new s"
  have over: "\<not> parse_over p" by (simp add: p_def parse_over_def parser_new_def)
  have body: "parse_body p = tool_open_step p" by (simp add: p_def parse_body_def parser_new_def)
  note C = completes_step [OF over, of es, unfolded body]
  show ?thesis unfolding p_def [symmetric]
  proof
    assume "completes p es"
    then obtain p1 evs es' where p1: "tool_open_step p = (p1, evs, True)" "es = flat evs @ es'" "completes p1 es'"
      using C by blast
    obtain w0 z where w0: "list_all is_space w0" "s = w0 @ ''<tool_call>'' @ z" "evs = []" "tp_state p1 = FunctionOpen" "tp_pending p1 = z"
      using p1(1) unfolding tool_open_iff by (auto simp: p_def)
    obtain name y es2 where f: "opens z ''<function='' name y" "name \<noteq> []" "list_all identifier_char name"
        "finishes y es2" "es' = Inl (EvToolStart, name) # es2"
      using p1(3) completes_function [OF w0(4)] w0(5) by auto
    obtain w1 where w1: "list_all is_space w1" "z = w1 @ ''<function='' @ name @ CHR ''>'' # y" using f(1) by (auto simp: opens_def)
    obtain ps w2 w3 rest where ps: "y = concat (map parameter_text ps) @ w2 @ ''</function>'' @ w3 @ ''</tool_call>'' @ rest"
        "list_all is_space w2" "list_all is_space w3" "list_all parameter_ok ps"
        "es2 = concat (map parameter_events ps) @ [Inl (EvToolEnd, [])]" using f(4) unfolding finishes_def by blast
    define c where "c = \<lparr>ca_spaces = (w0, w1, w2, w3), ca_name = name, ca_parameters = ps\<rparr>"
    have "s = call_text c @ rest" using w0(2) w1(2) ps(1) by (simp add: call_text_def c_def)
    moreover have "call_ok c" using w0(1) w1(1) ps f(2,3) by (simp add: call_ok_def c_def)
    moreover have "es = call_events c" using p1(2) w0(3) f(5) ps(5) by (simp add: call_events_def c_def)
    ultimately show "\<exists>c rest. s = call_text c @ rest \<and> call_ok c \<and> es = call_events c" by blast
  next
    assume "\<exists>c rest. s = call_text c @ rest \<and> call_ok c \<and> es = call_events c"
    then obtain c rest where c: "s = call_text c @ rest" "call_ok c" "es = call_events c" by blast
    obtain w0 w1 w2 w3 where w: "ca_spaces c = (w0, w1, w2, w3)" by (cases "ca_spaces c") auto
    define y where "y = concat (map parameter_text (ca_parameters c)) @ w2 @ ''</function>'' @ w3 @ ''</tool_call>'' @ rest"
    define es2 where "es2 = concat (map parameter_events (ca_parameters c)) @ [Inl (EvToolEnd, [] :: string)]"
    define z where "z = w1 @ ''<function='' @ ca_name c @ CHR ''>'' # y"
    define p1 where "p1 = (with_pending p z)\<lparr>tp_state := FunctionOpen\<rparr>"
    have s: "tp_pending p = w0 @ ''<tool_call>'' @ z" using c(1) w by (simp add: p_def call_text_def z_def y_def)
    have ok: "list_all is_space w0" "list_all is_space w1" "list_all is_space w2" "list_all is_space w3"
      "ca_name c \<noteq> []" "list_all identifier_char (ca_name c)" "list_all parameter_ok (ca_parameters c)"
      using c(2) w by (auto simp: call_ok_def)
    have "finishes y es2" unfolding finishes_def y_def es2_def using ok by blast
    moreover have "CHR ''>'' \<notin> set (ca_name c)"
      using ok(6) by (auto simp: list_all_iff identifier_char_def is_alnum_def)
    then have "opens z ''<function='' (ca_name c) y" using ok(2) by (auto simp: opens_def z_def)
    ultimately have "completes p1 (Inl (EvToolStart, ca_name c) # es2)"
      using completes_function [of p1] ok(5,6) by (auto simp: p1_def)
    moreover have "tool_open_step p = (p1, [], True)" unfolding tool_open_iff p1_def using s ok(1) by blast
    moreover have "es = flat [] @ Inl (EvToolStart, ca_name c) # es2" using c(3) by (simp add: call_events_def es2_def)
    ultimately show "completes p es" using C by blast
  qed
qed


definition ex_call :: string where
  "ex_call = ''<tool_call><function=f> <parameter=k>'' @ [LF] @ ''</a'' @ [CR, LF] @ ''</parameter></function></tool_call>''"

lemma ex_session:
  "snd (snd (session [ex_call])) = True \<and> flat (fst (snd (session [ex_call]))) =
    [Inl (EvToolStart, ''f''), Inl (EvParameterStart, ''k''), Inr (CHR ''<''), Inr (CHR ''/''), Inr (CHR ''a''),
     Inl (EvParameterEnd, ''''), Inl (EvToolEnd, '''')]"
  by code_simp

theorem chunking_irrelevant_witness:
  "\<exists>p e q e' ok. session [ex_call] = (p, e, True) \<and> session [take 40 ex_call, drop 40 ex_call] = (q, e', ok) \<and>
    ok \<and> flat e' = flat e"
proof -
  obtain p e where a: "session [ex_call] = (p, e, True)" using ex_session by (metis prod.collapse)
  obtain q e' ok where b: "session [take 40 ex_call, drop 40 ex_call] = (q, e', ok)" by (metis prod.collapse)
  have "concat [ex_call] = concat [take 40 ex_call, drop 40 ex_call]" by simp
  from chunking_irrelevant [OF this a b] show ?thesis using a b by auto
qed


section \<open>Escaped fragments\<close>

text \<open>The contents of a JSON string literal, decoded as RFC 8259 has it; escapes of code points outside ASCII are not needed.\<close>

definition hex_value :: "char \<Rightarrow> nat option" where
  "hex_value c = (let n = of_char c :: nat in
     if 48 \<le> n \<and> n \<le> 57 then Some (n - 48) else if 97 \<le> n \<and> n \<le> 102 then Some (n - 87)
     else if 65 \<le> n \<and> n \<le> 70 then Some (n - 55) else None)"

definition short_escape :: "char \<Rightarrow> char option" where
  "short_escape c = (if c = CHR 0x22 \<or> c = CHR 0x5C \<or> c = CHR ''/'' then Some c
     else if c = CHR ''b'' then Some (CHR 0x08) else if c = CHR ''f'' then Some (CHR 0x0C)
     else if c = CHR ''n'' then Some (CHR 0x0A) else if c = CHR ''r'' then Some (CHR 0x0D)
     else if c = CHR ''t'' then Some (CHR 0x09) else None)"

fun json_contents :: "string \<Rightarrow> string option" where
  "json_contents [] = Some []"
| "json_contents (c # cs) =
     (if c = CHR 0x22 \<or> (of_char c :: nat) < 32 then None
      else if c \<noteq> CHR 0x5C then map_option (Cons c) (json_contents cs)
      else case cs of [] \<Rightarrow> None
      | e # ds \<Rightarrow> if e = CHR ''u'' then (case ds of a # b # h # l # es \<Rightarrow>
            (case (hex_value h, hex_value l) of (Some x, Some y) \<Rightarrow>
               if a = CHR ''0'' \<and> b = CHR ''0'' \<and> x < 8 then map_option (Cons (char_of (16 * x + y))) (json_contents es) else None
             | _ \<Rightarrow> None)
          | _ \<Rightarrow> None)
        else (case short_escape e of None \<Rightarrow> None | Some d \<Rightarrow> map_option (Cons d) (json_contents ds)))"

lemma hex_value_digit: "n < 16 \<Longrightarrow> hex_value (hex_digit n) = Some n"
proof -
  have "list_all (\<lambda>n. hex_value (hex_digit n) = Some n) [0..<16]" by code_simp
  then show "n < 16 \<Longrightarrow> hex_value (hex_digit n) = Some n" by (simp add: list_all_iff)
qed

lemma json_contents_byte: "json_contents (json_byte c @ r) = map_option (Cons c) (json_contents r)"
proof (cases "(of_char c :: nat) < 32 \<and> c \<notin> {CHR 0x08, CHR 0x0C, LF, CR, CHR 0x09}")
  case True
  define n where "n = (of_char c :: nat)"
  have n: "n div 16 < 2" "n mod 16 < 16" "n div 16 mod 16 < 16" "16 * (n div 16 mod 16) + n mod 16 = n"
  proof -
    have "n < 32" using True by (simp add: n_def)
    then show small: "n div 16 < 2" using less_mult_imp_div_less [of n 2 16] by simp
    show "n mod 16 < 16" "n div 16 mod 16 < 16" by simp_all
    have "n div 16 mod 16 = n div 16" using small by simp
    then show "16 * (n div 16 mod 16) + n mod 16 = n" by simp
  qed
  have "c = char_of n" by (simp add: n_def)
  moreover have "c \<noteq> CHR 0x22" "c \<noteq> CHR 0x5C" using True by auto
  ultimately show ?thesis
    using True n hex_value_digit [OF n(2)] hex_value_digit [OF n(3)] by (simp add: json_byte_def n_def [symmetric] Let_def)
next
  case False
  then show ?thesis by (auto simp: json_byte_def LF_def CR_def Let_def short_escape_def)
qed

text \<open>
  Fragments escaped one by one, as the server appends them to the open string of the arguments, decode
  to the value they were cut from.
\<close>

theorem fragments_decode: "json_contents (concat (map json_string_fragment vs)) = Some (concat vs)"
proof -
  have "json_contents (json_string_fragment s @ r) = map_option (\<lambda>t. s @ t) (json_contents r)" for s r
    unfolding json_string_fragment_def
    by (induction s) (simp_all add: json_contents_byte option.map_comp comp_def option.map_ident)
  then show ?thesis by (induction vs) simp_all
qed

text \<open>
  The trim takes a line feed, then a carriage return: a leading CRLF pair loses only its first half,
  a trailing one is removed whole.
\<close>

lemma leading_crlf_keeps_lf: "v \<noteq> [] \<Longrightarrow> last v \<noteq> CR \<Longrightarrow> trim_single_newlines ([CR, LF] @ v @ [CR, LF]) = LF # v"
  by (simp add: trim_single_newlines_def pop_first_def pop_last_def LF_def CR_def butlast_append)

end
