(* ===== verification/Completion_Stop.thy ===== *)
theory Completion_Stop
  imports Text_Search
begin

text \<open>
  \<open>CompletionStopBuffer\<close> (\<open>src/src/completion_stop_buffer.hpp\<close>): generated text is passed on as soon as it
  can no longer be the beginning of a stop string. The lemmas say what is passed on for any sequence
  of pieces, and when that does not depend on how the text was cut into pieces.
\<close>

section \<open>Definitions\<close>

record stop_buffer =
  sb_stops :: "string list"
  sb_pending :: string
  sb_stopped :: bool

definition stop_buffer_new :: "string list \<Rightarrow> stop_buffer" where
  "stop_buffer_new stops = \<lparr>sb_stops = stops, sb_pending = [], sb_stopped = False\<rparr>"

text \<open>\<open>std::min\<close> over positions, \<open>None\<close> being \<open>npos\<close>.\<close>

fun min_pos :: "nat option \<Rightarrow> nat option \<Rightarrow> nat option" where
  "min_pos None b = b"
| "min_pos (Some a) None = Some a"
| "min_pos (Some a) (Some b) = Some (min a b)"

definition found_stop :: "string list \<Rightarrow> string \<Rightarrow> nat option" where
  "found_stop stops pending = foldl (\<lambda>f stop. if stop \<noteq> [] then min_pos f (find_str stop pending) else f) None stops"

text \<open>The inner loop: it only looks for overlaps longer than those of the stops before.\<close>

fun hold_loop :: "string \<Rightarrow> string \<Rightarrow> nat \<Rightarrow> nat \<Rightarrow> nat" where
  "hold_loop pending stop hold 0 = hold"
| "hold_loop pending stop hold (Suc n) =
     (if Suc n \<le> hold then hold
      else if last_bytes (Suc n) pending = take (Suc n) stop then Suc n
      else hold_loop pending stop hold n)"

definition held :: "string list \<Rightarrow> string \<Rightarrow> nat" where
  "held stops pending =
     foldl (\<lambda>hold stop. hold_loop pending stop hold (min (length pending) (length stop))) 0 stops"

definition push :: "stop_buffer \<Rightarrow> string \<Rightarrow> stop_buffer \<times> string" where
  "push b piece =
     (if sb_stopped b then (b, [])
      else let pending = sb_pending b @ piece in
        case found_stop (sb_stops b) pending of
          Some i \<Rightarrow> (b\<lparr>sb_stopped := True, sb_pending := []\<rparr>, take i pending)
        | None \<Rightarrow> let keep = length pending - held (sb_stops b) pending in
            (b\<lparr>sb_pending := drop keep pending\<rparr>, take keep pending))"

definition stop_finish :: "stop_buffer \<Rightarrow> stop_buffer \<times> string" where
  "stop_finish b = (b\<lparr>sb_pending := []\<rparr>, sb_pending b)"

fun pushes :: "stop_buffer \<Rightarrow> string list \<Rightarrow> stop_buffer \<times> string" where
  "pushes b [] = (b, [])"
| "pushes b (p # ps) = (case push b p of (b1, out1) \<Rightarrow> case pushes b1 ps of (b2, out2) \<Rightarrow> (b2, out1 @ out2))"

text \<open>What the client sees of a whole generation.\<close>

definition emitted :: "string list \<Rightarrow> string list \<Rightarrow> string" where
  "emitted stops pieces = (case pushes (stop_buffer_new stops) pieces of (b, out) \<Rightarrow> out @ snd (stop_finish b))"

section \<open>Positions and overlaps\<close>

lemma min_pos_None: "min_pos a b = None \<longleftrightarrow> a = None \<and> b = None"
  by (cases a; cases b) auto

lemma min_pos_Some: "min_pos a b = Some i \<longleftrightarrow>
    (a = Some i \<or> b = Some i) \<and> (\<forall>j. a = Some j \<or> b = Some j \<longrightarrow> i \<le> j)"
  by (cases a; cases b) (auto simp: min_def)

definition stop_at :: "string list \<Rightarrow> string \<Rightarrow> nat \<Rightarrow> bool" where
  "stop_at stops s i \<longleftrightarrow> (\<exists>stop \<in> set stops. stop \<noteq> [] \<and> i \<le> length s \<and> prefix stop (drop i s))"

lemma found_stop_snoc: "found_stop (stops @ [t]) s =
    (if t \<noteq> [] then min_pos (found_stop stops s) (find_str t s) else found_stop stops s)"
  by (simp add: found_stop_def)

lemma found_stop_None: "found_stop stops s = None \<longleftrightarrow> (\<forall>t \<in> set stops. t \<noteq> [] \<longrightarrow> find_str t s = None)"
  by (induction stops rule: rev_induct) (auto simp: found_stop_snoc min_pos_None, simp add: found_stop_def)

lemma found_stop_Some: "found_stop stops s = Some i \<longleftrightarrow>
    (\<exists>t \<in> set stops. t \<noteq> [] \<and> find_str t s = Some i) \<and>
    (\<forall>t \<in> set stops. t \<noteq> [] \<longrightarrow> (\<forall>j. find_str t s = Some j \<longrightarrow> i \<le> j))"
proof (induction stops arbitrary: i rule: rev_induct)
  case Nil
  then show ?case by (simp add: found_stop_def)
next
  case (snoc t stops)
  show ?case
  proof (cases "found_stop stops s")
    case None
    then have "\<forall>u \<in> set stops. u \<noteq> [] \<longrightarrow> find_str u s = None" by (simp add: found_stop_None)
    then show ?thesis using None by (auto simp: found_stop_snoc)
  next
    case (Some k)
    then show ?thesis using snoc.IH [of k]
      by (auto simp: found_stop_snoc min_pos_Some) (metis le_trans nle_le)+
  qed
qed

lemma find_str_Least:
  assumes "i \<le> length s" "prefix t (drop i s)"
  obtains j where "find_str t s = Some j" "j \<le> i"
proof (cases "find_str t s")
  case None
  then show ?thesis using assms by (auto simp: find_str_None)
next
  case (Some j)
  then have "j \<le> i" using assms by (meson find_str_Some not_le)
  then show ?thesis using Some that by blast
qed

text \<open>The position found is the first at which any stop begins.\<close>

lemma found_stop_iff: "found_stop stops s = Some i \<longleftrightarrow> stop_at stops s i \<and> (\<forall>j < i. \<not> stop_at stops s j)"
proof
  assume a: "found_stop stops s = Some i"
  then have "stop_at stops s i" by (auto simp: found_stop_Some stop_at_def find_str_Some)
  moreover have "\<not> stop_at stops s j" if "j < i" for j
  proof
    assume "stop_at stops s j"
    then obtain t where t: "t \<in> set stops" "t \<noteq> []" "j \<le> length s" "prefix t (drop j s)" by (auto simp: stop_at_def)
    obtain k where "find_str t s = Some k" "k \<le> j" using find_str_Least [OF t(3,4)] .
    then show False using a t that by (auto simp: found_stop_Some)
  qed
  ultimately show "stop_at stops s i \<and> (\<forall>j < i. \<not> stop_at stops s j)" by blast
next
  assume a: "stop_at stops s i \<and> (\<forall>j < i. \<not> stop_at stops s j)"
  then obtain t where t: "t \<in> set stops" "t \<noteq> []" "i \<le> length s" "prefix t (drop i s)" by (auto simp: stop_at_def)
  have no: "j < i \<Longrightarrow> u \<in> set stops \<Longrightarrow> u \<noteq> [] \<Longrightarrow> j \<le> length s \<Longrightarrow> \<not> prefix u (drop j s)" for j u
    using a by (auto simp: stop_at_def)
  have "find_str t s = Some i" using t no by (auto simp: find_str_Some)
  moreover have "i \<le> j" if "u \<in> set stops" "u \<noteq> []" "find_str u s = Some j" for u j
    using no [of j u] that by (auto simp: find_str_Some not_le [symmetric])
  ultimately show "found_stop stops s = Some i" using t by (auto simp: found_stop_Some)
qed

lemma found_stop_None_iff: "found_stop stops s = None \<longleftrightarrow> (\<forall>i. \<not> stop_at stops s i)"
  by (auto simp: found_stop_None find_str_None stop_at_def)

lemma hold_loop_max: "hold_loop s t hold n = max hold (longest_overlap s t n)"
  using longest_overlap_le [of s t n]
  by (induction n) (auto simp: max_def longest_overlap_le dest: order_trans [OF longest_overlap_le])

lemma held_max: "longest_overlap s t (min (length s) (length t)) \<le> held stops s" if "t \<in> set stops"
  using that
proof (induction stops rule: rev_induct)
  case (snoc u stops)
  have "held (stops @ [u]) s = max (held stops s) (longest_overlap s u (min (length s) (length u)))"
    by (simp add: held_def hold_loop_max)
  then show ?case using snoc by auto
qed simp

lemma held_le: "held stops s \<le> length s"
proof (induction stops rule: rev_induct)
  case (snoc u stops)
  have "held (stops @ [u]) s = max (held stops s) (longest_overlap s u (min (length s) (length u)))"
    by (simp add: held_def hold_loop_max)
  then show ?case using snoc longest_overlap_le [of s u "min (length s) (length u)"] by simp
qed (simp add: held_def)

text \<open>Nothing that is passed on can be the beginning of a stop, whatever comes next.\<close>

lemma passed_on_safe:
  assumes "found_stop stops s = None" "i < length s - held stops s"
  shows "\<not> stop_at stops (s @ ext) i"
proof
  assume "stop_at stops (s @ ext) i"
  then obtain t where t: "t \<in> set stops" "t \<noteq> []" "prefix t (drop i (s @ ext))" by (auto simp: stop_at_def)
  have no: "find_str t s = None" using assms(1) t by (simp add: found_stop_None)
  show False
  proof (cases "length t \<le> length s - i")
    case True
    have "prefix t (drop i s)" by (rule prefix_length_prefix [OF t(3)]) (use True assms(2) in simp_all)
    then show False using no assms(2) by (simp add: find_str_None)
  next
    case False
    have d: "drop i (s @ ext) = drop i s @ ext" using assms(2) by simp
    have "prefix (drop i s) t" by (rule prefix_length_prefix [OF _ t(3)]) (use False d in simp_all)
    then have "last_bytes (length s - i) s = take (length s - i) t"
      using assms(2) by (auto simp: last_bytes_def prefix_def)
    then have "length s - i \<le> longest_overlap s t (min (length s) (length t))"
      using False assms(2) by (intro longest_overlap_max) simp_all
    then show False using held_max [OF t(1), of s] assms(2) by linarith
  qed
qed

section \<open>What is emitted\<close>

lemma stop_at_shift: "stop_at stops (out @ s) (length out + i) \<longleftrightarrow> stop_at stops s i"
  by (simp add: stop_at_def)

lemma found_stop_shift:
  assumes "\<forall>i < length out. \<not> stop_at stops (out @ s) i"
  shows "found_stop stops (out @ s) = map_option (\<lambda>i. length out + i) (found_stop stops s)"
proof (cases "found_stop stops s")
  case None
  then have "\<not> stop_at stops (out @ s) i" for i
    using assms stop_at_shift [of stops out s "i - length out"] by (cases "i < length out") (auto simp: found_stop_None_iff)
  then have "found_stop stops (out @ s) = None" by (simp add: found_stop_None_iff)
  then show ?thesis using None by simp
next
  case (Some i)
  have "\<not> stop_at stops (out @ s) j" if "j < length out + i" for j
    using assms that Some stop_at_shift [of stops out s "j - length out"] by (cases "j < length out") (auto simp: found_stop_iff)
  then have "found_stop stops (out @ s) = Some (length out + i)"
    using Some stop_at_shift [of stops out s i] by (simp add: found_stop_iff)
  then show ?thesis using Some by simp
qed

text \<open>A running buffer: what was emitted and what is pending make up the text, and no stop can begin in the former.\<close>

definition running :: "string list \<Rightarrow> stop_buffer \<Rightarrow> string \<Rightarrow> string \<Rightarrow> bool" where
  "running stops b out s \<longleftrightarrow> sb_stops b = stops \<and> \<not> sb_stopped b \<and> out @ sb_pending b = s \<and>
     (\<forall>ext. \<forall>i < length out. \<not> stop_at stops (s @ ext) i)"

lemma push_running:
  assumes "running stops b out s" "push b piece = (b1, o1)"
  shows "case found_stop stops (s @ piece) of
      Some i \<Rightarrow> sb_stopped b1 \<and> sb_pending b1 = [] \<and> out @ o1 = take i (s @ piece)
    | None \<Rightarrow> running stops b1 (out @ o1) (s @ piece)"
proof -
  define p where "p = sb_pending b @ piece"
  have s: "s @ piece = out @ p" and st: "sb_stops b = stops" "\<not> sb_stopped b"
    and safe: "\<And>ext i. i < length out \<Longrightarrow> \<not> stop_at stops (s @ ext) i"
    using assms(1) by (auto simp: running_def p_def)
  have found: "found_stop stops (s @ piece) = map_option (\<lambda>i. length out + i) (found_stop stops p)"
    unfolding s by (rule found_stop_shift) (use safe [of _ piece] s in simp)
  show ?thesis
  proof (cases "found_stop stops p")
    case (Some i)
    then show ?thesis using assms(2) st found s by (auto simp: push_def p_def [symmetric] Let_def)
  next
    case None
    define keep where "keep = length p - held stops p"
    have b1: "b1 = b\<lparr>sb_pending := drop keep p\<rparr>" "o1 = take keep p"
      using assms(2) st None by (simp_all add: push_def p_def [symmetric] keep_def Let_def)
    have "\<not> stop_at stops ((s @ piece) @ ext) i" if i: "i < length (out @ o1)" for i ext
    proof (cases "i < length out")
      case True
      then show ?thesis using safe [of i "piece @ ext"] by simp
    next
      case False
      have "i - length out < length p - held stops p" using i False b1(2) by (simp add: keep_def)
      from passed_on_safe [OF None this, of ext]
      have "\<not> stop_at stops (out @ p @ ext) (length out + (i - length out))" unfolding stop_at_shift .
      then show ?thesis using False s by simp
    qed
    then have "running stops b1 (out @ o1) (s @ piece)" unfolding running_def using b1 st s by simp
    then show ?thesis using found None by simp
  qed
qed

text \<open>
  The reference: the text so far is searched as a whole after every piece, and cut before the first stop.
\<close>

fun stop_reference :: "string list \<Rightarrow> string \<Rightarrow> string list \<Rightarrow> string" where
  "stop_reference stops s [] = s"
| "stop_reference stops s (p # ps) = (case found_stop stops (s @ p) of Some i \<Rightarrow> take i (s @ p)
     | None \<Rightarrow> stop_reference stops (s @ p) ps)"

lemma pushes_stopped: "sb_stopped b \<Longrightarrow> pushes b ps = (b, [])"
  by (induction ps) (simp_all add: push_def)

lemma pushes_running:
  "running stops b out s \<Longrightarrow> pushes b ps = (b', rest) \<Longrightarrow> out @ rest @ sb_pending b' = stop_reference stops s ps"
proof (induction ps arbitrary: b out s rest)
  case Nil
  then show ?case by (simp add: running_def)
next
  case (Cons p ps)
  obtain b1 o1 where one: "push b p = (b1, o1)" by fastforce
  then obtain o2 where two: "pushes b1 ps = (b', o2)" "rest = o1 @ o2" using Cons.prems(2) by (auto split: prod.splits)
  note P = push_running [OF Cons.prems(1) one]
  show ?case
  proof (cases "found_stop stops (s @ p)")
    case (Some i)
    then have "b' = b1" "o2 = []" using P pushes_stopped [of b1 ps] two(1) by simp_all
    then show ?thesis using P Some two(2) by simp
  next
    case None
    then show ?thesis using Cons.IH [of b1 "out @ o1" "s @ p" o2] P two by simp
  qed
qed

lemma emitted_reference: "emitted stops pieces = stop_reference stops [] pieces"
proof -
  have "running stops (stop_buffer_new stops) [] []" by (simp add: running_def stop_buffer_new_def)
  from pushes_running [OF this] show ?thesis
    by (auto simp: emitted_def stop_finish_def split: prod.splits)
qed

text \<open>No stop occurs inside another one, behind its first byte.\<close>

definition stops_apart :: "string list \<Rightarrow> bool" where
  "stops_apart stops \<longleftrightarrow> list_all (\<lambda>t. list_all (\<lambda>u. t = [] \<or> find_str t (tl u) = None) stops) stops"

definition cut_at_stop :: "string list \<Rightarrow> string \<Rightarrow> string" where
  "cut_at_stop stops s = (case found_stop stops s of Some i \<Rightarrow> take i s | None \<Rightarrow> s)"

lemma stop_at_append: "stop_at stops s i \<Longrightarrow> stop_at stops (s @ b) i"
  by (auto simp: stop_at_def prefix_def)

lemma found_stop_append:
  assumes "stops_apart stops" "found_stop stops s = Some i"
  shows "found_stop stops (s @ b) = Some i"
proof -
  obtain t where t: "t \<in> set stops" "t \<noteq> []" "i \<le> length s" "prefix t (drop i s)"
    using assms(2) by (auto simp: found_stop_iff stop_at_def)
  have fit: "i + length t \<le> length s" using prefix_length_le [OF t(4)] t(3) by simp
  have "\<not> stop_at stops (s @ b) j" if j: "j < i" for j
  proof
    assume "stop_at stops (s @ b) j"
    then obtain u where u: "u \<in> set stops" "u \<noteq> []" "prefix u (drop j (s @ b))" by (auto simp: stop_at_def)
    have no: "\<not> prefix u (drop j s)" using assms(2) u j t(3) by (auto simp: found_stop_iff stop_at_def)
    have long: "length s - j < length u"
    proof (rule ccontr)
      assume "\<not> length s - j < length u"
      then have "prefix u (drop j s)" by (intro prefix_length_prefix [OF u(3)]) (use j t(3) in simp_all)
      then show False using no by simp
    qed
    have d: "drop j (s @ b) = drop j s @ b" using j t(3) by simp
    have "prefix (drop j s) u" by (rule prefix_length_prefix [OF _ u(3)]) (use long d in simp_all)
    then obtain r where r: "u = drop j s @ r" by (auto simp: prefix_def)
    have "drop (i - j - 1) (tl u) = drop i s @ r"
    proof -
      have "drop (i - j) u = drop i s @ r" unfolding r using j t(3) by simp
      then show ?thesis using j by (metis Suc_diff_Suc diff_Suc_1 drop_Suc diff_diff_left plus_1_eq_Suc add.commute)
    qed
    then have "prefix t (drop (i - j - 1) (tl u))" using t(4) by simp
    moreover have "i - j - 1 \<le> length (tl u)" using long j fit by simp
    ultimately have "find_str t (tl u) \<noteq> None" by (auto simp: find_str_None)
    then show False using assms(1) t(1,2) u(1) by (auto simp: stops_apart_def list_all_iff)
  qed
  then show ?thesis using assms(2) stop_at_append by (auto simp: found_stop_iff)
qed

lemma reference_apart: "stops_apart stops \<Longrightarrow> found_stop stops s = None \<Longrightarrow>
    stop_reference stops s ps = cut_at_stop stops (s @ concat ps)"
proof (induction ps arbitrary: s)
  case Nil
  then show ?case by (simp add: cut_at_stop_def)
next
  case (Cons p ps)
  show ?case
  proof (cases "found_stop stops (s @ p)")
    case None
    then show ?thesis using Cons.IH [of "s @ p"] Cons.prems(1) by simp
  next
    case (Some i)
    then have "i \<le> length (s @ p)" by (auto simp: found_stop_iff stop_at_def)
    then show ?thesis using Some found_stop_append [OF Cons.prems(1) Some, of "concat ps"]
      by (simp add: cut_at_stop_def)
  qed
qed

text \<open>
  Claim C18. The buffer emits the text up to the first stop and nothing of the stop. After every piece its decision is
  the one a search of all the text so far would make; when no stop occurs inside another, the result does
  not depend on how the text was cut into pieces.
\<close>

theorem stop_buffer_exact:
  "emitted stops pieces = stop_reference stops [] pieces \<and>
   (stops_apart stops \<longrightarrow> emitted stops pieces = cut_at_stop stops (concat pieces))"
proof -
  have "found_stop stops [] = None" by (auto simp: found_stop_None)
  then show ?thesis using emitted_reference reference_apart [of stops "[]" pieces] by simp
qed

theorem stop_buffer_exact_witness:
  "stops_apart [''STOP'', ''###''] \<and> emitted [''STOP'', ''###''] [''ab#'', ''#cS'', ''T'', ''OPd''] = ''ab##c''"
proof -
  let ?stops = "[''STOP'', ''###'']" and ?pieces = "[''ab#'', ''#cS'', ''T'', ''OPd'']"
  have a: "stops_apart ?stops" by (simp add: stops_apart_def)
  have "cut_at_stop ?stops (concat ?pieces) = ''ab##c''" by (simp add: cut_at_stop_def found_stop_def)
  moreover have "emitted ?stops ?pieces = cut_at_stop ?stops (concat ?pieces)"
    using conjunct2 [OF stop_buffer_exact [of ?stops ?pieces]] a by (rule mp)
  ultimately show ?thesis using a by argo
qed

end
