(* ===== verification/Tokenizer.thy ===== *)
theory Tokenizer
  imports Text_Search "HOL-Library.Char_ord"
begin

unbundle bit_operations_syntax

text \<open>
  The byte-level BPE tokenizer \<open>QwenTokenizer\<close> (\<open>src/src/tokenizer.cpp\<close>): UTF-8 helpers, the byte alphabet,
  the Unicode-aware pre-tokenizer, merging, the atomic special tokens, and decoding. The generated
  Unicode tables and the NFC normaliser of utf8proc are parameters. Code points and byte values
  are natural numbers, token ids integers (a vocabulary has fewer than \<open>2^31\<close> entries).
\<close>

section \<open>UTF-8\<close>

definition byte :: "char \<Rightarrow> nat" where
  "byte c = of_char c"

definition payload :: "string \<Rightarrow> nat \<Rightarrow> nat" where
  "payload s i = byte (s ! i) AND 63"

definition utf8_decode :: "string \<Rightarrow> nat \<Rightarrow> nat \<times> nat" where
  "utf8_decode s pos =
     (if length s \<le> pos then (0, pos)
      else let c0 = byte (s ! pos); n = length s in
        if c0 < 128 then (c0, pos + 1)
        else if c0 AND 224 = 192 \<and> pos + 1 < n
          then (push_bit 6 (c0 AND 31) OR payload s (pos + 1), pos + 2)
        else if c0 AND 240 = 224 \<and> pos + 2 < n
          then (push_bit 12 (c0 AND 15) OR push_bit 6 (payload s (pos + 1)) OR payload s (pos + 2), pos + 3)
        else if c0 AND 248 = 240 \<and> pos + 3 < n
          then (push_bit 18 (c0 AND 7) OR push_bit 12 (payload s (pos + 1)) OR push_bit 6 (payload s (pos + 2)) OR
            payload s (pos + 3), pos + 4)
        else (c0, pos + 1))"

definition utf8_encode :: "nat \<Rightarrow> string" where
  "utf8_encode cp =
     (if cp < 128 then [char_of cp]
      else if cp < 2048 then [char_of (192 OR drop_bit 6 cp), char_of (128 OR cp AND 63)]
      else if cp < 65536 then [char_of (224 OR drop_bit 12 cp), char_of (128 OR drop_bit 6 cp AND 63), char_of (128 OR cp AND 63)]
      else [char_of (240 OR drop_bit 18 cp), char_of (128 OR drop_bit 12 cp AND 63), char_of (128 OR drop_bit 6 cp AND 63),
        char_of (128 OR cp AND 63)])"

section \<open>The byte alphabet\<close>

definition visible_bytes :: "nat list" where
  "visible_bytes = [33..<127] @ [161..<173] @ [174..<256]"

definition alphabet_step :: "nat list \<times> nat list \<times> nat \<Rightarrow> nat \<Rightarrow> nat list \<times> nat list \<times> nat" where
  "alphabet_step = (\<lambda>(bs, cs, n) b. if b \<in> set bs then (bs, cs, n) else (bs @ [b], cs @ [256 + n], n + 1))"

definition gpt2_bytes_to_unicode_table :: "nat list" where
  "gpt2_bytes_to_unicode_table =
     (case foldl alphabet_step (visible_bytes, visible_bytes, 0) [0..<256] of (bs, cs, n) \<Rightarrow>
       foldl (\<lambda>t i. t[bs ! i := cs ! i]) (replicate 256 0) [0..<length bs])"

definition byte_chars :: "string list" where
  "byte_chars = map utf8_encode gpt2_bytes_to_unicode_table"

definition byte_to_char :: "char \<Rightarrow> string" where
  "byte_to_char b = byte_chars ! byte b"

text \<open>The inverse map: a later byte would overwrite an earlier one with the same character.\<close>

definition char_to_byte :: "string \<rightharpoonup> char" where
  "char_to_byte = foldl (\<lambda>m b. m(byte_chars ! b \<mapsto> char_of b)) Map.empty [0..<256]"

definition bytes_to_chars :: "string \<Rightarrow> string" where
  "bytes_to_chars bytes = concat (map byte_to_char bytes)"

section \<open>Character classes\<close>

text \<open>The binary search of the generated range tables.\<close>

function contains_between :: "nat \<Rightarrow> (nat \<times> nat) list \<Rightarrow> nat \<Rightarrow> nat \<Rightarrow> nat" where
  "contains_between cp ranges lo hi =
     (if lo < hi
      then let mid = lo + (hi - lo) div 2 in
        if snd (ranges ! mid) < cp then contains_between cp ranges (mid + 1) hi else contains_between cp ranges lo mid
      else lo)"
  by pat_completeness auto

termination
  by (relation "measure (\<lambda>(cp, ranges, lo, hi). hi - lo)") auto

declare contains_between.simps [simp del]

definition contains :: "nat \<Rightarrow> (nat \<times> nat) list \<Rightarrow> bool" where
  "contains cp ranges =
     (let lo = contains_between cp ranges 0 (length ranges) in lo < length ranges \<and> fst (ranges ! lo) \<le> cp)"

record unicode =
  un_letters :: "(nat \<times> nat) list"
  un_numbers :: "(nat \<times> nat) list"
  un_marks :: "(nat \<times> nat) list"
  un_spaces :: "(nat \<times> nat) list"

definition ascii_digit :: "nat \<Rightarrow> bool" where "ascii_digit c \<longleftrightarrow> 48 \<le> c \<and> c \<le> 57"
definition ascii_alpha :: "nat \<Rightarrow> bool" where "ascii_alpha c \<longleftrightarrow> 97 \<le> c \<and> c \<le> 122 \<or> 65 \<le> c \<and> c \<le> 90"
definition ascii_space :: "nat \<Rightarrow> bool" where "ascii_space c \<longleftrightarrow> c \<in> set [32, 9, 13, 10, 11, 12]"

definition cp_is_letter :: "unicode \<Rightarrow> nat \<Rightarrow> bool" where
  "cp_is_letter u cp = (if cp < 128 then ascii_alpha cp else contains cp (un_letters u))"

definition cp_is_number :: "unicode \<Rightarrow> nat \<Rightarrow> bool" where
  "cp_is_number u cp = (if cp < 128 then ascii_digit cp else contains cp (un_numbers u))"

definition cp_is_mark :: "unicode \<Rightarrow> nat \<Rightarrow> bool" where
  "cp_is_mark u cp = (if cp < 128 then False else contains cp (un_marks u))"

definition cp_is_space :: "unicode \<Rightarrow> nat \<Rightarrow> bool" where
  "cp_is_space u cp = (if cp < 128 then ascii_space cp else contains cp (un_spaces u))"

section \<open>Pre-tokenizing\<close>

record codepoint =
  cpt_value :: nat
  cpt_begin :: nat
  cpt_end :: nat

lemma utf8_decode_progress: "pos < length s \<Longrightarrow> pos < snd (utf8_decode s pos) \<and> snd (utf8_decode s pos) \<le> length s"
  by (auto simp: utf8_decode_def Let_def)

function codepoints :: "string \<Rightarrow> nat \<Rightarrow> codepoint list" where
  "codepoints s pos =
     (if pos < length s
      then case utf8_decode s pos of (cp, e) \<Rightarrow> \<lparr>cpt_value = cp, cpt_begin = pos, cpt_end = e\<rparr> # codepoints s e
      else [])"
  by pat_completeness auto

termination
  using utf8_decode_progress by (relation "measure (\<lambda>(s, pos). length s - pos)") (auto intro!: diff_less_mono2, metis snd_conv)

declare codepoints.simps [simp del]

definition value_at :: "codepoint list \<Rightarrow> nat \<Rightarrow> nat" where
  "value_at cpts i = (if i < length cpts then cpt_value (cpts ! i) else 4294967295)"

definition class_at :: "(nat \<Rightarrow> bool) \<Rightarrow> codepoint list \<Rightarrow> nat \<Rightarrow> bool" where
  "class_at p cpts i \<longleftrightarrow> i < length cpts \<and> p (value_at cpts i)"

definition letter_or_mark :: "unicode \<Rightarrow> nat \<Rightarrow> bool" where
  "letter_or_mark u cp \<longleftrightarrow> cp_is_letter u cp \<or> cp_is_mark u cp"

text \<open>\<open>while (class(i)) ++i\<close>\<close>

definition run_end :: "(nat \<Rightarrow> bool) \<Rightarrow> codepoint list \<Rightarrow> nat \<Rightarrow> nat" where
  "run_end p cpts i = i + length (takeWhile (class_at p cpts) [i..<length cpts])"

definition fold_case :: "nat \<Rightarrow> nat" where
  "fold_case c = (if c = 383 then byte CHR ''s'' else if c < 128 then (if 65 \<le> c \<and> c \<le> 90 then c + 32 else c) else 0)"

definition is_newline :: "nat \<Rightarrow> bool" where
  "is_newline c \<longleftrightarrow> c = 13 \<or> c = 10"

text \<open>The end of a contraction, or \<open>None\<close>.\<close>

definition contraction_end :: "codepoint list \<Rightarrow> nat \<Rightarrow> nat option" where
  "contraction_end cpts pos =
     (if value_at cpts pos = byte CHR 0x27 \<and> pos + 1 < length cpts
      then let a = fold_case (value_at cpts (pos + 1));
               b = (if pos + 2 < length cpts then fold_case (value_at cpts (pos + 2)) else 0) in
        if a \<in> set (map byte ''stmd'') then Some (pos + 2)
        else if (a, b) \<in> set [(byte CHR ''r'', byte CHR ''e''), (byte CHR ''v'', byte CHR ''e''), (byte CHR ''l'', byte CHR ''l'')]
        then Some (pos + 3)
        else None
      else None)"

definition whitespace_end :: "(nat \<Rightarrow> bool) \<Rightarrow> codepoint list \<Rightarrow> nat \<Rightarrow> nat" where
  "whitespace_end space cpts pos =
     (let ws = run_end space cpts pos - pos;
          last_newline_end = foldl (\<lambda>e i. if is_newline (value_at cpts (pos + i)) then pos + i + 1 else e) 0 [0..<ws] in
      if 0 < last_newline_end then last_newline_end
      else if 1 < ws \<and> pos + ws < length cpts then pos + (ws - 1)
      else if 0 < ws then pos + ws
      else pos + 1)"

text \<open>One round of the loop: where the piece that starts at \<open>pos\<close> ends.\<close>

definition piece_end :: "unicode \<Rightarrow> codepoint list \<Rightarrow> nat \<Rightarrow> nat" where
  "piece_end u cpts pos =
     (let c0 = value_at cpts pos; lm = letter_or_mark u; num = cp_is_number u; space = cp_is_space u;
          symbol = (\<lambda>c. \<not> space c \<and> \<not> lm c \<and> \<not> num c);
          punct = (if c0 = 32 then pos + 1 else pos) in
      case contraction_end cpts pos of Some e \<Rightarrow> e
      | None \<Rightarrow>
        if \<not> is_newline c0 \<and> \<not> class_at num cpts pos \<and> (class_at lm cpts pos \<or> class_at lm cpts (pos + 1))
        then run_end lm cpts (pos + 1)
        else if class_at num cpts pos then pos + 1
        else if class_at symbol cpts punct then run_end is_newline cpts (run_end symbol cpts punct)
        else whitespace_end space cpts pos)"

definition substr :: "string \<Rightarrow> nat \<Rightarrow> nat \<Rightarrow> string" where
  "substr s a b = take (b - a) (drop a s)"

definition piece_text :: "string \<Rightarrow> codepoint list \<Rightarrow> nat \<Rightarrow> nat \<Rightarrow> string list" where
  "piece_text s cpts a b = (if b \<le> a then [] else [substr s (cpt_begin (cpts ! a)) (cpt_end (cpts ! (b - 1)))])"

lemma run_end_ge: "i \<le> run_end p cpts i"
  by (simp add: run_end_def)

lemma run_end_le: "i \<le> length cpts \<Longrightarrow> run_end p cpts i \<le> length cpts"
  using length_takeWhile_le [of "class_at p cpts" "[i..<length cpts]"] by (simp add: run_end_def)

lemma last_newline_bound:
  "foldl (\<lambda>e i. if q (pos + i) then pos + i + 1 else e) 0 [0..<n] \<le> pos + n \<and>
   (foldl (\<lambda>e i. if q (pos + i) then pos + i + 1 else e) 0 [0..<n] = 0 \<or>
    pos < foldl (\<lambda>e i. if q (pos + i) then pos + i + 1 else e) (0::nat) [0..<n])"
  by (induction n) auto

lemma run_end_class: "class_at p cpts i \<Longrightarrow> i < run_end p cpts i"
  by (simp add: run_end_def class_at_def upt_conv_Cons)

lemma whitespace_end_progress:
  assumes "pos < length cpts"
  shows "pos < whitespace_end space cpts pos \<and> whitespace_end space cpts pos \<le> length cpts"
proof -
  have ws: "run_end space cpts pos \<le> length cpts" using assms by (intro run_end_le) simp
  show ?thesis
    using last_newline_bound [of "\<lambda>i. is_newline (value_at cpts i)" pos "run_end space cpts pos - pos"] ws assms
    by (auto simp: whitespace_end_def Let_def)
qed

lemma contraction_end_progress: "contraction_end cpts pos = Some e \<Longrightarrow> pos < e \<and> e \<le> length cpts"
  by (auto simp: contraction_end_def Let_def byte_def split: if_splits)

lemma piece_end_progress:
  assumes "pos < length cpts"
  shows "pos < piece_end u cpts pos \<and> piece_end u cpts pos \<le> length cpts"
proof -
  have "pos < run_end p cpts (pos + 1)" for p using run_end_ge [of "pos + 1" p cpts] by simp
  moreover have "run_end p cpts (pos + 1) \<le> length cpts" for p using assms by (intro run_end_le) simp
  moreover have "pos < run_end q cpts (run_end p cpts i) \<and> run_end q cpts (run_end p cpts i) \<le> length cpts"
    if "class_at p cpts i" "pos \<le> i" for p q i
    using that run_end_class [OF that(1)] run_end_ge [of "run_end p cpts i" q cpts]
      run_end_le [OF run_end_le [of i cpts p], of q] by (auto simp: class_at_def)
  ultimately show ?thesis using assms whitespace_end_progress [OF assms] contraction_end_progress
    unfolding piece_end_def Let_def by (auto split: option.splits)
qed

function pieces_from :: "unicode \<Rightarrow> string \<Rightarrow> codepoint list \<Rightarrow> nat \<Rightarrow> string list" where
  "pieces_from u s cpts pos =
     (if pos < length cpts
      then let e = piece_end u cpts pos in piece_text s cpts pos e @ pieces_from u s cpts e
      else [])"
  by pat_completeness auto

termination
  by (relation "measure (\<lambda>(u, s, cpts, pos). length cpts - pos)") (auto intro!: diff_less_mono2 simp: piece_end_progress)

declare pieces_from.simps [simp del]

definition qwen_pre_tokenize :: "unicode \<Rightarrow> string \<Rightarrow> string list" where
  "qwen_pre_tokenize u s = pieces_from u s (codepoints s 0) 0"

section \<open>The vocabulary\<close>

record tokenizer =
  tk_tokens :: "string list"
  tk_ids :: "string \<rightharpoonup> int"
  tk_ranks :: "string \<times> string \<rightharpoonup> int"
  tk_special :: "(string \<times> int) list"
  tk_bos :: int
  tk_eos :: int
  tk_add_bos :: bool

text \<open>\<open>emplace\<close>: the first entry of a key stays.\<close>

definition emplace :: "('k \<rightharpoonup> 'v) \<Rightarrow> 'k \<Rightarrow> 'v \<Rightarrow> 'k \<rightharpoonup> 'v" where
  "emplace m k v = (if m k = None then m(k \<mapsto> v) else m)"

definition special_candidates :: "string list" where
  "special_candidates =
     [''<|im_start|>'', ''<|im_end|>'', ''<|endoftext|>'', ''<|fim_prefix|>'', ''<|fim_middle|>'', ''<|fim_suffix|>'',
      ''<|vision_start|>'', ''<|vision_end|>'', ''<|image_pad|>'', ''<|video_pad|>'', ''<|object_ref_start|>'',
      ''<|object_ref_end|>'', ''<|box_start|>'', ''<|box_end|>'', ''<|quad_start|>'', ''<|quad_end|>'', ''<think>'',
      ''</think>'', ''<tool_call>'', ''</tool_call>'', ''<tool_response>'', ''</tool_response>'']"

definition token_ids :: "string list \<Rightarrow> string \<rightharpoonup> int" where
  "token_ids tokens =
     foldl (\<lambda>m i. if tokens ! i \<noteq> [] then emplace m (tokens ! i) (int i) else m) Map.empty [0..<length tokens]"

definition finish_initialization :: "tokenizer \<Rightarrow> tokenizer" where
  "finish_initialization tk =
     (let ids = token_ids (tk_tokens tk);
          found = concat (map (\<lambda>s. case ids s of None \<Rightarrow> [] | Some i \<Rightarrow> [(s, i)]) special_candidates) in
      tk\<lparr>tk_ids := ids, tk_special := sort_by (\<lambda>a b. length (fst b) < length (fst a)) found\<rparr>)"

text \<open>The metadata entries of a GGUF file that are looked at.\<close>

record gguf_metadata =
  gm_tokens :: "string list option"
  gm_merges :: "string list option"
  gm_bos :: "nat option"
  gm_eos :: "nat option"
  gm_add_bos :: "bool option"

definition to_int32 :: "nat \<Rightarrow> int" where
  "to_int32 n = sint (word_of_nat n :: 32 word)"

definition split_merge :: "string \<Rightarrow> (string \<times> string) option" where
  "split_merge line = (case find_char_from (CHR '' '') line 0 of None \<Rightarrow> None
     | Some sp \<Rightarrow> Some (take sp line, drop (sp + 1) line))"

definition merge_ranks :: "(string \<times> string) option list \<Rightarrow> string \<times> string \<rightharpoonup> int" where
  "merge_ranks merges = foldl (\<lambda>m i. case merges ! i of None \<Rightarrow> m | Some p \<Rightarrow> emplace m p (int i)) Map.empty
     [0..<length merges]"

definition tokenizer_from_gguf :: "gguf_metadata \<Rightarrow> tokenizer result" where
  "tokenizer_from_gguf m = (case gm_tokens m of None \<Rightarrow> Inl RuntimeError
     | Some tokens \<Rightarrow>
       if tokens = [] then Inl RuntimeError
       else case gm_merges m of None \<Rightarrow> Inl RuntimeError
       | Some merges \<Rightarrow> Inr (finish_initialization
           \<lparr>tk_tokens = tokens, tk_ids = Map.empty, tk_ranks = merge_ranks (map split_merge merges), tk_special = [],
            tk_bos = (case gm_bos m of None \<Rightarrow> 0 | Some b \<Rightarrow> to_int32 b),
            tk_eos = (case gm_eos m of None \<Rightarrow> 0 | Some e \<Rightarrow> to_int32 e),
            tk_add_bos = (case gm_add_bos m of None \<Rightarrow> False | Some b \<Rightarrow> b)\<rparr>))"

definition vocab_size :: "tokenizer \<Rightarrow> int" where
  "vocab_size tk = int (length (tk_tokens tk))"

definition token_id :: "tokenizer \<Rightarrow> string \<Rightarrow> int" where
  "token_id tk t = (case tk_ids tk t of None \<Rightarrow> -1 | Some i \<Rightarrow> i)"

section \<open>Merging\<close>

text \<open>The leftmost pair of the lowest rank; a rank of \<open>INT32_MAX\<close> is never below the start value.\<close>

definition best_merge :: "tokenizer \<Rightarrow> string list \<Rightarrow> nat option" where
  "best_merge tk symbols = snd (foldl (\<lambda>(best, idx) i.
     case tk_ranks tk (symbols ! i, symbols ! (i + 1)) of None \<Rightarrow> (best, idx)
     | Some r \<Rightarrow> if r < best then (r, Some i) else (best, idx)) (int INT32_MAX, None) [0..<length symbols - 1])"

definition merge_at :: "string list \<Rightarrow> nat \<Rightarrow> string list" where
  "merge_at symbols i = take i symbols @ (symbols ! i @ symbols ! (i + 1)) # drop (i + 2) symbols"

lemma best_merge_bound:
  assumes "best_merge tk symbols = Some i"
  shows "i + 1 < length symbols"
proof -
  define f where "f = (\<lambda>(best, idx) i. case tk_ranks tk (symbols ! i, symbols ! (i + 1)) of None \<Rightarrow> (best, idx)
    | Some r \<Rightarrow> if r < best then (r, Some i) else (best, idx :: nat option))"
  have "snd (foldl f (int INT32_MAX, None) [0..<n]) = Some i \<Longrightarrow> i < n" for n
  proof (induction n)
    case (Suc n)
    then show ?case
      by (cases "foldl f (int INT32_MAX, None) [0..<n]") (auto simp: f_def less_Suc_eq split: option.splits if_splits)
  qed simp
  then show ?thesis using assms by (fastforce simp: best_merge_def f_def)
qed

function bpe_merge :: "tokenizer \<Rightarrow> string list \<Rightarrow> string list" where
  "bpe_merge tk symbols =
     (if 1 < length symbols
      then case best_merge tk symbols of None \<Rightarrow> symbols | Some i \<Rightarrow> bpe_merge tk (merge_at symbols i)
      else symbols)"
  by pat_completeness auto

termination
  by (relation "measure (\<lambda>(tk, symbols). length symbols)") (auto simp: merge_at_def dest: best_merge_bound)

declare bpe_merge.simps [simp del]

definition ids_of_symbol :: "tokenizer \<Rightarrow> string \<Rightarrow> int list" where
  "ids_of_symbol tk w = (case tk_ids tk w of Some i \<Rightarrow> [i]
     | None \<Rightarrow> concat (map (\<lambda>c. case tk_ids tk [c] of Some i \<Rightarrow> [i] | None \<Rightarrow> []) w))"

definition bpe_piece :: "tokenizer \<Rightarrow> string \<Rightarrow> int list" where
  "bpe_piece tk piece =
     (if piece = [] then [] else concat (map (ids_of_symbol tk) (bpe_merge tk (map byte_to_char piece))))"

section \<open>Encoding\<close>

text \<open>\<open>nfc\<close> is \<open>utf8proc_map\<close>; \<open>None\<close> is its negative result.\<close>

definition qwen_normalize_utf8 :: "(string \<Rightarrow> string option) \<Rightarrow> string \<Rightarrow> string result" where
  "qwen_normalize_utf8 nfc s =
     (if list_all (\<lambda>c. byte c < 128) s then Inr s
      else case nfc s of None \<Rightarrow> Inl RuntimeError | Some t \<Rightarrow> Inr t)"

definition encode_regular_chunk :: "(string \<Rightarrow> string option) \<Rightarrow> unicode \<Rightarrow> tokenizer \<Rightarrow> string \<Rightarrow> int list result" where
  "encode_regular_chunk nfc u tk chunk =
     (let non_ascii = list_ex (\<lambda>c. 128 \<le> byte c) chunk in
      case (if non_ascii then qwen_normalize_utf8 nfc chunk else Inr chunk) of Inl e \<Rightarrow> Inl e
      | Inr s \<Rightarrow> Inr (concat (map (bpe_piece tk) (qwen_pre_tokenize u s))))"

record segment =
  sg_begin :: nat
  sg_end :: nat
  sg_special :: int

definition special_initials :: "tokenizer \<Rightarrow> string" where
  "special_initials tk =
     foldl (\<lambda>cs s. if fst s = [] \<or> hd (fst s) \<in> set cs then cs else cs @ [hd (fst s)]) [] (tk_special tk)"

text \<open>\<open>find_first_of\<close>\<close>

definition find_first_of :: "string \<Rightarrow> string \<Rightarrow> nat \<Rightarrow> nat option" where
  "find_first_of cs s i =
     (case filter (\<lambda>j. s ! j \<in> set cs) [i..<length s] of [] \<Rightarrow> None | j # _ \<Rightarrow> Some j)"

lemma find_first_of_Some: "find_first_of cs s i = Some j \<Longrightarrow> i \<le> j \<and> j < length s \<and> s ! j \<in> set cs"
  by (auto simp: find_first_of_def filter_eq_Cons_iff split: list.splits dest!: arg_cong [where f = set])

definition special_at :: "tokenizer \<Rightarrow> string \<Rightarrow> nat \<Rightarrow> (string \<times> int) option" where
  "special_at tk s k = find (\<lambda>t. fst t \<noteq> [] \<and> hd (fst t) = s ! k \<and> prefix (fst t) (drop k s)) (tk_special tk)"

function next_special :: "tokenizer \<Rightarrow> string \<Rightarrow> nat \<Rightarrow> (nat \<times> string \<times> int) option" where
  "next_special tk s i = (case find_first_of (special_initials tk) s i of None \<Rightarrow> None
     | Some k \<Rightarrow> (case special_at tk s k of Some t \<Rightarrow> Some (k, t) | None \<Rightarrow> next_special tk s (k + 1)))"
  by pat_completeness auto

termination
  by (relation "measure (\<lambda>(tk, s, i). length s - i)") (auto dest: find_first_of_Some)

declare next_special.simps [simp del]

lemma special_at_Some:
  "special_at tk s k = Some t \<Longrightarrow> t \<in> set (tk_special tk) \<and> fst t \<noteq> [] \<and> prefix (fst t) (drop k s)"
  by (auto simp: special_at_def find_Some_iff)

lemma next_special_Some:
  "next_special tk s i = Some (k, t) \<Longrightarrow> i \<le> k \<and> k < length s \<and> special_at tk s k = Some t"
proof (induction tk s i rule: next_special.induct)
  case (1 tk s i)
  show ?case
  proof (cases "find_first_of (special_initials tk) s i")
    case None
    then show ?thesis using "1.prems" by (simp add: next_special.simps)
  next
    case (Some j)
    note j = find_first_of_Some [OF Some]
    show ?thesis
    proof (cases "special_at tk s j")
      case None
      then show ?thesis using "1.IH" [OF Some None] "1.prems" Some j by (simp add: next_special.simps [of tk s i])
    next
      case (Some t')
      then show ?thesis using "1.prems" \<open>find_first_of _ _ _ = Some j\<close> j by (simp add: next_special.simps [of tk s i])
    qed
  qed
qed

function segments_from :: "tokenizer \<Rightarrow> string \<Rightarrow> nat \<Rightarrow> segment list" where
  "segments_from tk s i =
     (if i < length s
      then case next_special tk s i of
          None \<Rightarrow> [\<lparr>sg_begin = i, sg_end = length s, sg_special = -1\<rparr>]
        | Some (k, t, tid) \<Rightarrow>
            (if i < k then [\<lparr>sg_begin = i, sg_end = k, sg_special = -1\<rparr>] else []) @
            \<lparr>sg_begin = k, sg_end = k + length t, sg_special = tid\<rparr> # segments_from tk s (k + length t)
      else [])"
  by pat_completeness auto

termination
proof (relation "measure (\<lambda>(tk, s, i). length s - i)", goal_cases)
  case (2 tk s i x k y t tid)
  then have "next_special tk s i = Some (k, (t, tid))" by simp
  from next_special_Some [OF this] have k: "i \<le> k" "k < length s" "t \<noteq> []" using special_at_Some [of tk s k "(t, tid)"] by auto
  have "0 < length t" using k(3) by simp
  then have "length s - (k + length t) < length s - i" using k(1,2) by linarith
  then show ?case by simp
qed simp

declare segments_from.simps [simp del]

text \<open>
  The regular segments are encoded one by one or, for long texts, by workers that draw the next index
  from a shared counter: \<open>schedule\<close> is the order in which they complete. A failure is rethrown.
\<close>

definition regular_segments :: "segment list \<Rightarrow> nat list" where
  "regular_segments segs = filter (\<lambda>j. sg_special (segs ! j) < 0 \<and> sg_begin (segs ! j) < sg_end (segs ! j)) [0..<length segs]"

definition regular_bytes :: "segment list \<Rightarrow> nat" where
  "regular_bytes segs = sum_list (map (\<lambda>g. if sg_special g < 0 then sg_end g - sg_begin g else 0) segs)"

definition worker_count :: "nat \<Rightarrow> nat \<Rightarrow> nat \<Rightarrow> nat" where
  "worker_count cpus bytes n =
     (if 524288 \<le> bytes \<and> 1 < n then min (min cpus (ceil_div bytes 262144)) n else 1)"

definition encode_segment :: "(string \<Rightarrow> int list result) \<Rightarrow> string \<Rightarrow> segment list \<Rightarrow> nat \<Rightarrow> int list list \<Rightarrow> int list list result" where
  "encode_segment chunk s segs j encoded = (case chunk (substr s (sg_begin (segs ! j)) (sg_end (segs ! j))) of
     Inl e \<Rightarrow> Inl e | Inr ids \<Rightarrow> Inr (encoded[j := ids]))"

fun run_schedule :: "(nat \<Rightarrow> int list list \<Rightarrow> int list list result) \<Rightarrow> nat list \<Rightarrow> int list list \<Rightarrow> int list list result" where
  "run_schedule f [] encoded = Inr encoded"
| "run_schedule f (j # js) encoded = (case f j encoded of Inl e \<Rightarrow> Inl e | Inr encoded' \<Rightarrow> run_schedule f js encoded')"

definition encode :: "(string \<Rightarrow> string option) \<Rightarrow> unicode \<Rightarrow> nat \<Rightarrow> (nat list \<Rightarrow> nat list) \<Rightarrow> tokenizer \<Rightarrow> string \<Rightarrow> bool \<Rightarrow>
    int list result" where
  "encode nfc u cpus schedule tk s add_bos =
     (let segs = segments_from tk s 0; work = regular_segments segs;
          start = map (\<lambda>g. if 0 \<le> sg_special g then [sg_special g] else []) segs;
          order = (if worker_count cpus (regular_bytes segs) (length work) \<le> 1 then work else schedule work) in
      case run_schedule (encode_segment (encode_regular_chunk nfc u tk) s segs) order start of Inl e \<Rightarrow> Inl e
      | Inr encoded \<Rightarrow>
        Inr ((if (add_bos \<or> tk_add_bos tk) \<and> tk_bos tk < vocab_size tk then [tk_bos tk] else []) @ concat encoded))"

section \<open>Decoding\<close>

function decode_from :: "string \<Rightarrow> nat \<Rightarrow> string" where
  "decode_from s pos =
     (if pos < length s
      then let e = snd (utf8_decode s pos); ch = substr s pos e in
        (case char_to_byte ch of Some b \<Rightarrow> [b] | None \<Rightarrow> ch) @ decode_from s e
      else [])"
  by pat_completeness auto

termination
  by (relation "measure (\<lambda>(s, pos). length s - pos)") (auto intro!: diff_less_mono2 simp: utf8_decode_progress)

declare decode_from.simps [simp del]

definition decode_one :: "tokenizer \<Rightarrow> int \<Rightarrow> string" where
  "decode_one tk tid = (if tid < 0 \<or> vocab_size tk \<le> tid then [] else decode_from (tk_tokens tk ! nat tid) 0)"

definition decode :: "tokenizer \<Rightarrow> int list \<Rightarrow> string" where
  "decode tk ids = concat (map (decode_one tk) ids)"

end
