(* ===== verification/Tokenizer_Bytes.thy ===== *)
theory Tokenizer_Bytes
  imports Tokenizer
begin

text \<open>
  The byte alphabet is a bijection that decoding inverts, and the pre-tokenizer cuts a text into
  nonempty pieces that make it up again.
\<close>

section \<open>The table\<close>

lemma alphabet_fold:
  "distinct xs \<Longrightarrow> foldl alphabet_step (bs, cs, n) xs =
     (let new = filter (\<lambda>x. x \<notin> set bs) xs in (bs @ new, cs @ [256 + n..<256 + n + length new], n + length new))"
proof (induction xs arbitrary: bs cs n)
  case (Cons x xs)
  show ?case
  proof (cases "x \<in> set bs")
    case True
    then show ?thesis using Cons by (simp add: alphabet_step_def Let_def)
  next
    case False
    have "filter (\<lambda>y. y \<notin> set (bs @ [x])) xs = filter (\<lambda>y. y \<notin> set bs) xs"
      using Cons.prems by (intro filter_cong) auto
    moreover have "alphabet_step (bs, cs, n) x = (bs @ [x], cs @ [256 + n], n + 1)" using False by (simp add: alphabet_step_def)
    ultimately show ?thesis using False Cons.IH [of "bs @ [x]" "cs @ [256 + n]" "n + 1"] Cons.prems
      by (simp add: Let_def upt_conv_Cons add.assoc)
  qed
qed simp

lemma scatter:
  assumes "distinct bs" "\<And>b. b \<in> set bs \<Longrightarrow> b < length t" "n \<le> length bs"
  shows "length (foldl (\<lambda>t i. t[bs ! i := cs ! i]) t [0..<n]) = length t \<and>
    (\<forall>i < n. foldl (\<lambda>t i. t[bs ! i := cs ! i]) t [0..<n] ! (bs ! i) = cs ! i)"
  using assms(3)
proof (induction n)
  case (Suc n)
  define t' where "t' = foldl (\<lambda>t i. t[bs ! i := cs ! i]) t [0..<n]"
  have IH: "length t' = length t" "\<forall>i < n. t' ! (bs ! i) = cs ! i" using Suc by (simp_all add: t'_def)
  have "t'[bs ! n := cs ! n] ! (bs ! i) = cs ! i" if i: "i < Suc n" for i
  proof (cases "i = n")
    case True
    then show ?thesis using IH(1) assms(2) Suc.prems by simp
  next
    case False
    then have "bs ! i \<noteq> bs ! n" using i Suc.prems assms(1) by (simp add: nth_eq_iff_index_eq)
    then show ?thesis using IH(2) i False by simp
  qed
  then show ?case using IH(1) by (simp add: t'_def)
qed simp

definition hidden_bytes :: "nat list" where
  "hidden_bytes = filter (\<lambda>x. x \<notin> set visible_bytes) [0..<256]"

lemma set_visible: "set visible_bytes = {33..<127} \<union> {161..<173} \<union> {174..<256}"
  by (auto simp: visible_bytes_def simp del: upt_rec_numeral)

lemma all_bytes: "distinct (visible_bytes @ hidden_bytes)" "set (visible_bytes @ hidden_bytes) = {0..<256}"
proof -
  have "distinct visible_bytes" by (auto simp: visible_bytes_def simp del: upt_rec_numeral)
  then show "distinct (visible_bytes @ hidden_bytes)" by (auto simp: hidden_bytes_def)
  show "set (visible_bytes @ hidden_bytes) = {0..<256}" by (auto simp: hidden_bytes_def set_visible)
qed

lemma length_all_bytes: "length (visible_bytes @ hidden_bytes) = 256"
  using distinct_card [OF all_bytes(1)] all_bytes(2) by simp

lemma table:
  "length gpt2_bytes_to_unicode_table = 256"
  "i < 256 \<Longrightarrow> gpt2_bytes_to_unicode_table ! ((visible_bytes @ hidden_bytes) ! i) =
     (visible_bytes @ [256..<256 + length hidden_bytes]) ! i"
proof -
  have t: "gpt2_bytes_to_unicode_table = foldl (\<lambda>t i. t[(visible_bytes @ hidden_bytes) ! i :=
      (visible_bytes @ [256..<256 + length hidden_bytes]) ! i]) (replicate 256 0) [0..<256]"
    using alphabet_fold [of "[0..<256]" visible_bytes visible_bytes 0] length_all_bytes
    by (simp add: gpt2_bytes_to_unicode_table_def hidden_bytes_def Let_def)
  note S = scatter [OF all_bytes(1), of "replicate 256 (0::nat)" 256 "visible_bytes @ [256..<256 + length hidden_bytes]"]
  have "b < length (replicate 256 (0::nat))" if "b \<in> set (visible_bytes @ hidden_bytes)" for b
    using that unfolding all_bytes(2) by simp
  note S = S [OF this]
  show "length gpt2_bytes_to_unicode_table = 256" unfolding t using S length_all_bytes by simp
  show "i < 256 \<Longrightarrow> gpt2_bytes_to_unicode_table ! ((visible_bytes @ hidden_bytes) ! i) =
      (visible_bytes @ [256..<256 + length hidden_bytes]) ! i" unfolding t using S length_all_bytes by simp
qed

lemma byte_index:
  assumes "b < 256"
  obtains i where "i < 256" "b = (visible_bytes @ hidden_bytes) ! i"
proof -
  have "b \<in> set (visible_bytes @ hidden_bytes)" unfolding all_bytes(2) using assms by simp
  then obtain i where "i < length (visible_bytes @ hidden_bytes)" "(visible_bytes @ hidden_bytes) ! i = b"
    by (auto simp only: in_set_conv_nth)
  then show ?thesis using that length_all_bytes by metis
qed

lemma length_hidden: "length hidden_bytes \<le> 256"
  using length_filter_le [of "\<lambda>x. x \<notin> set visible_bytes" "[0..<256]"] by (simp add: hidden_bytes_def)

lemma table_less: "b < 256 \<Longrightarrow> gpt2_bytes_to_unicode_table ! b < 2048"
proof -
  assume "b < 256"
  then obtain i where i: "i < 256" "b = (visible_bytes @ hidden_bytes) ! i" by (rule byte_index)
  have "(visible_bytes @ [256..<256 + length hidden_bytes]) ! i \<in> set (visible_bytes @ [256..<256 + length hidden_bytes])"
    using i(1) length_all_bytes by (intro nth_mem) simp
  then show ?thesis using table(2) [OF i(1)] i(2) length_hidden by (auto simp: set_visible)
qed

lemma table_inj: "a < 256 \<Longrightarrow> b < 256 \<Longrightarrow> gpt2_bytes_to_unicode_table ! a = gpt2_bytes_to_unicode_table ! b \<Longrightarrow> a = b"
proof -
  assume a: "a < 256" "b < 256" "gpt2_bytes_to_unicode_table ! a = gpt2_bytes_to_unicode_table ! b"
  obtain i where i: "i < 256" "a = (visible_bytes @ hidden_bytes) ! i" using a(1) by (rule byte_index)
  obtain j where j: "j < 256" "b = (visible_bytes @ hidden_bytes) ! j" using a(2) by (rule byte_index)
  have "distinct (visible_bytes @ [256..<256 + length hidden_bytes])"
    using all_bytes(1) by (auto simp: set_visible)
  then have "i = j" using a(3) i j table(2) length_all_bytes by (simp add: nth_eq_iff_index_eq)
  then show ?thesis using i j by simp
qed

lemma table_ascii: "33 \<le> b \<Longrightarrow> b < 127 \<Longrightarrow> gpt2_bytes_to_unicode_table ! b = b"
proof -
  assume b: "33 \<le> b" "b < 127"
  have "b - 33 < 94" using b by linarith
  then have v: "visible_bytes ! (b - 33) = b" using b by (simp add: visible_bytes_def nth_append del: upt_rec_numeral)
  have l: "b - 33 < length visible_bytes" using b by (simp add: visible_bytes_def del: upt_rec_numeral)
  then show ?thesis using table(2) [of "b - 33"] v b by (simp add: nth_append)
qed

section \<open>UTF-8 of the alphabet\<close>

lemma byte_char_of [simp]: "n < 256 \<Longrightarrow> byte (char_of n) = n"
  by (simp add: byte_def)

lemma byte_less [simp]: "byte c < 256"
  by (simp add: byte_def)

lemma char_of_byte [simp]: "char_of (byte c) = c"
  by (simp add: byte_def)

lemma lead_bytes: "x < 32 \<Longrightarrow> 192 OR x = 192 + x \<and> (192 + x) AND 224 = (192::nat)"
proof -
  have "list_all (\<lambda>x. 192 OR x = 192 + x \<and> (192 + x) AND 224 = (192::nat)) (0 # 1 # [2..<32])" by simp
  moreover have "x < 32 \<Longrightarrow> x \<in> set (0 # 1 # [2..<32])" by (auto simp del: upt_rec_numeral)
  ultimately show "x < 32 \<Longrightarrow> ?thesis" unfolding list_all_iff by blast
qed

lemma tail_bytes: "x < 64 \<Longrightarrow> 128 OR x = 128 + (x::nat)"
proof -
  have "list_all (\<lambda>x. 128 OR x = 128 + (x::nat)) (0 # 1 # [2..<64])" by simp
  moreover have "x < 64 \<Longrightarrow> x \<in> set (0 # 1 # [2..<64])" by (auto simp del: upt_rec_numeral)
  ultimately show "x < 64 \<Longrightarrow> ?thesis" unfolding list_all_iff by blast
qed

lemma and_63: "n AND 63 = n mod (64::nat)"
  using take_bit_eq_mask [of 6 n] by (simp add: take_bit_eq_mod mask_eq_exp_minus_1)

lemma utf8_encode_two: "128 \<le> cp \<Longrightarrow> cp < 2048 \<Longrightarrow>
    utf8_encode cp = [char_of (192 + cp div 64), char_of (128 + cp mod 64)]"
  using lead_bytes [of "cp div 64"] tail_bytes [of "cp mod 64"]
  by (simp add: utf8_encode_def drop_bit_eq_div and_63)

lemma utf8_encode_nonempty: "utf8_encode cp \<noteq> []"
  by (simp add: utf8_encode_def)

lemma utf8_encode_inj: "a < 2048 \<Longrightarrow> b < 2048 \<Longrightarrow> utf8_encode a = utf8_encode b \<Longrightarrow> a = b"
proof -
  assume a: "a < 2048" "b < 2048" "utf8_encode a = utf8_encode b"
  have one: "utf8_encode x = [char_of x]" if "x < 128" for x using that by (simp add: utf8_encode_def)
  have inj: "x = y" if "char_of x = (char_of y :: char)" "x < 256" "y < 256" for x y :: nat
    using that byte_char_of by metis
  show ?thesis
  proof (cases "a < 128"; cases "b < 128")
    assume n: "\<not> a < 128" "\<not> b < 128"
    then have "char_of (192 + a div 64) = (char_of (192 + b div 64) :: char)"
      "char_of (128 + a mod 64) = (char_of (128 + b mod 64) :: char)"
      using a by (simp_all add: utf8_encode_two)
    from inj [OF this(1)] inj [OF this(2)] have "a div 64 = b div 64" "a mod 64 = b mod 64" using a by auto
    then show ?thesis by (metis div_mult_mod_eq)
  qed (use a one utf8_encode_two inj in \<open>auto simp: not_less\<close>)
qed

lemma utf8_decode_encoded:
  assumes "cp < 2048"
  shows "snd (utf8_decode (pre @ utf8_encode cp @ post) (length pre)) = length pre + length (utf8_encode cp)"
proof (cases "cp < 128")
  case True
  then show ?thesis by (simp add: utf8_encode_def utf8_decode_def nth_append)
next
  case False
  then have "utf8_encode cp = [char_of (192 + cp div 64), char_of (128 + cp mod 64)]" using assms by (simp add: utf8_encode_two)
  moreover have "(192 + cp div 64) AND 224 = 192" "192 + cp div 64 < 256" using lead_bytes [of "cp div 64"] assms by auto
  ultimately show ?thesis by (simp add: utf8_decode_def nth_append Let_def)
qed

section \<open>Bytes and characters\<close>

lemma byte_to_char_eq: "byte_to_char b = utf8_encode (gpt2_bytes_to_unicode_table ! byte b)"
  by (simp add: byte_to_char_def byte_chars_def table(1))

lemma byte_to_char_nonempty [simp]: "byte_to_char b \<noteq> []"
  by (simp add: byte_to_char_eq utf8_encode_nonempty)

lemma byte_to_char_inj: "byte_to_char a = byte_to_char b \<Longrightarrow> a = b"
  using utf8_encode_inj table_less table_inj by (metis byte_less byte_to_char_eq char_of_byte)

lemma fold_updates:
  "inj_on f (set xs) \<Longrightarrow> x \<in> set xs \<Longrightarrow> foldl (\<lambda>m b. m(f b \<mapsto> g b)) m xs (f x) = Some (g x)"
proof (induction xs rule: rev_induct)
  case (snoc y xs)
  show ?case
  proof (cases "x = y")
    case False
    then have "f x \<noteq> f y" using snoc.prems by (auto simp: inj_on_def)
    then show ?thesis using snoc False by (auto simp: inj_on_def)
  qed simp
qed simp

lemma char_to_byte_inverse [simp]: "char_to_byte (byte_to_char b) = Some b"
proof -
  have "inj_on ((!) byte_chars) (set [0..<256])"
  proof (rule inj_onI)
    fix x y assume "x \<in> set [0..<256]" "y \<in> set [0..<256]" "byte_chars ! x = byte_chars ! y"
    then have xy: "x < 256" "y < 256" "byte_to_char (char_of x) = byte_to_char (char_of y)" by (simp_all add: byte_to_char_def)
    then have "byte (char_of x) = byte (char_of y)" by (simp only: byte_to_char_inj [OF xy(3)])
    then show "x = y" using xy by simp
  qed
  from fold_updates [OF this, of "byte b" char_of Map.empty] show ?thesis
    by (simp add: char_to_byte_def byte_to_char_def)
qed

lemma decode_from_bytes: "decode_from (pre @ bytes_to_chars bs) (length pre) = bs"
proof (induction bs arbitrary: pre)
  case Nil
  then show ?case by (simp add: decode_from.simps bytes_to_chars_def)
next
  case (Cons b bs)
  define w where "w = byte_to_char b"
  have w: "w \<noteq> []" "char_to_byte w = Some b" by (simp_all add: w_def)
  have e: "snd (utf8_decode (pre @ w @ bytes_to_chars bs) (length pre)) = length pre + length w"
    unfolding w_def byte_to_char_eq by (rule utf8_decode_encoded) (simp add: table_less)
  have "bytes_to_chars (b # bs) = w @ bytes_to_chars bs" by (simp add: bytes_to_chars_def w_def)
  then show ?case using e w Cons.IH [of "pre @ w"]
    by (subst decode_from.simps) (simp add: Let_def substr_def)
qed

lemmas decode_bytes = decode_from_bytes [of "[]", simplified]

lemma bytes_to_chars_inj: "bytes_to_chars a = bytes_to_chars b \<Longrightarrow> a = b"
  using decode_bytes by metis

lemma bytes_to_chars_ascii: "list_all (\<lambda>c. 33 \<le> byte c \<and> byte c < 127) s \<Longrightarrow> bytes_to_chars s = s"
  by (induction s) (simp_all add: bytes_to_chars_def byte_to_char_eq table_ascii utf8_encode_def)

section \<open>The pieces\<close>

definition boundary :: "string \<Rightarrow> codepoint list \<Rightarrow> nat \<Rightarrow> nat" where
  "boundary s cpts k = (if k < length cpts then cpt_begin (cpts ! k) else length s)"

lemma codepoints_tile:
  "pos \<le> length s \<Longrightarrow> boundary s (codepoints s pos) 0 = pos \<and>
     (\<forall>k < length (codepoints s pos). cpt_end (codepoints s pos ! k) = boundary s (codepoints s pos) (k + 1) \<and>
        cpt_begin (codepoints s pos ! k) < cpt_end (codepoints s pos ! k) \<and> cpt_end (codepoints s pos ! k) \<le> length s)"
proof (induction s pos rule: codepoints.induct)
  case (1 s pos)
  show ?case
  proof (cases "pos < length s")
    case True
    obtain cp e where d: "utf8_decode s pos = (cp, e)" by fastforce
    have e: "pos < e" "e \<le> length s" using utf8_decode_progress [OF True] d by auto
    define A where "A = \<lparr>cpt_value = cp, cpt_begin = pos, cpt_end = e\<rparr>"
    define C where "C = codepoints s e"
    have c: "codepoints s pos = A # C" using True d by (simp add: codepoints.simps A_def C_def)
    note IH = "1.IH" [OF True d [symmetric] e(2), folded C_def]
    have Af: "cpt_begin A = pos" "cpt_end A = e" by (simp_all add: A_def)
    have b: "boundary s (A # C) (Suc k) = boundary s C k" for k by (simp add: boundary_def)
    have "cpt_end ((A # C) ! k) = boundary s (A # C) (k + 1) \<and> cpt_begin ((A # C) ! k) < cpt_end ((A # C) ! k) \<and>
        cpt_end ((A # C) ! k) \<le> length s" if "k < length (A # C)" for k
      using that IH e by (cases k) (auto simp: b Af)
    moreover have "boundary s (A # C) 0 = pos" by (simp add: boundary_def A_def)
    ultimately show ?thesis unfolding c by blast
  next
    case False
    then show ?thesis using "1.prems" by (simp add: codepoints.simps boundary_def)
  qed
qed

lemma pieces_from_concat:
  assumes t: "\<And>k. k < length cpts \<Longrightarrow> cpt_end (cpts ! k) = boundary s cpts (k + 1) \<and> cpt_begin (cpts ! k) < cpt_end (cpts ! k) \<and>
      cpt_end (cpts ! k) \<le> length s"
  shows "pos \<le> length cpts \<Longrightarrow> concat (pieces_from u s cpts pos) = drop (boundary s cpts pos) s \<and> [] \<notin> set (pieces_from u s cpts pos)"
proof (induction "length cpts - pos" arbitrary: pos rule: less_induct)
  case less
  show ?case
  proof (cases "pos < length cpts")
    case False
    then show ?thesis using less.prems by (simp add: pieces_from.simps boundary_def)
  next
    case True
    define e where "e = piece_end u cpts pos"
    have e: "pos < e" "e \<le> length cpts" using piece_end_progress [OF True] by (simp_all add: e_def)
    have mono: "a \<le> b \<Longrightarrow> b \<le> length cpts \<Longrightarrow> boundary s cpts a \<le> boundary s cpts b" for a b
    proof (induction b rule: dec_induct)
      case (step n)
      then show ?case using t [of n] by (simp add: boundary_def)
    qed simp
    have last: "cpt_end (cpts ! (e - 1)) = boundary s cpts e" using t [of "e - 1"] e by simp
    have first: "boundary s cpts pos < boundary s cpts (pos + 1)" "boundary s cpts (pos + 1) \<le> boundary s cpts e"
      using t [OF True] mono [of "pos + 1" e] e True by (simp_all add: boundary_def)
    have le: "boundary s cpts e \<le> length s" using mono [of e "length cpts"] e by (simp add: boundary_def)
    have p: "piece_text s cpts pos e = [substr s (boundary s cpts pos) (boundary s cpts e)]"
      using e last True by (simp add: piece_text_def boundary_def [of s cpts pos])
    have ne: "substr s (boundary s cpts pos) (boundary s cpts e) \<noteq> []" using first le by (simp add: substr_def)
    have "concat (pieces_from u s cpts e) = drop (boundary s cpts e) s \<and> [] \<notin> set (pieces_from u s cpts e)"
      by (rule less.hyps) (use e True in simp_all)
    moreover have "substr s (boundary s cpts pos) (boundary s cpts e) @ drop (boundary s cpts e) s = drop (boundary s cpts pos) s"
      using first le by (simp add: substr_def) (metis append_take_drop_id drop_drop le_add_diff_inverse2 less_imp_le_nat order_trans)
    ultimately show ?thesis using True p ne by (simp add: pieces_from.simps [of u s cpts pos] e_def [symmetric])
  qed
qed

lemma pre_tokenize_concat: "concat (qwen_pre_tokenize u s) = s" "[] \<notin> set (qwen_pre_tokenize u s)"
proof -
  note T = codepoints_tile [of 0 s, simplified]
  have "concat (qwen_pre_tokenize u s) = drop (boundary s (codepoints s 0) 0) s \<and> [] \<notin> set (qwen_pre_tokenize u s)"
    unfolding qwen_pre_tokenize_def by (rule pieces_from_concat) (use T in auto)
  then show "concat (qwen_pre_tokenize u s) = s" "[] \<notin> set (qwen_pre_tokenize u s)" using T by simp_all
qed

section \<open>The range tables\<close>

text \<open>On sorted ranges the binary search decides membership.\<close>

definition sorted_ranges :: "(nat \<times> nat) list \<Rightarrow> bool" where
  "sorted_ranges rs \<longleftrightarrow> sorted_wrt (\<lambda>a b. snd a < fst b) rs \<and> list_all (\<lambda>r. fst r \<le> snd r) rs"

lemma contains_between_split:
  assumes "\<And>i j. i < j \<Longrightarrow> j < length rs \<Longrightarrow> snd (rs ! i) < snd (rs ! j)"
  shows "lo \<le> hi \<Longrightarrow> hi \<le> length rs \<Longrightarrow> \<forall>j < lo. snd (rs ! j) < cp \<Longrightarrow> \<forall>j. hi \<le> j \<and> j < length rs \<longrightarrow> cp \<le> snd (rs ! j) \<Longrightarrow>
    contains_between cp rs lo hi \<le> length rs \<and> (\<forall>j < contains_between cp rs lo hi. snd (rs ! j) < cp) \<and>
    (\<forall>j. contains_between cp rs lo hi \<le> j \<and> j < length rs \<longrightarrow> cp \<le> snd (rs ! j))"
proof (induction "hi - lo" arbitrary: lo hi rule: less_induct)
  case less
  show ?case
  proof (cases "lo < hi")
    case False
    then show ?thesis using less.prems by (simp add: contains_between.simps)
  next
    case True
    define mid where "mid = lo + (hi - lo) div 2"
    have mid: "lo \<le> mid" "mid < hi" using True by (auto simp: mid_def)
    show ?thesis
    proof (cases "snd (rs ! mid) < cp")
      case True
      have "snd (rs ! j) < cp" if "j < mid + 1" for j
        using assms [of j mid] True that mid less.prems(2) by (cases "j = mid") auto
      then have "\<forall>j < mid + 1. snd (rs ! j) < cp" by blast
      from less.hyps [OF _ _ less.prems(2) this less.prems(4)] show ?thesis
        using True mid \<open>lo < hi\<close> by (simp add: contains_between.simps [of cp rs lo hi] mid_def [symmetric])
    next
      case False
      have "cp \<le> snd (rs ! j)" if "mid \<le> j" "j < length rs" for j
        using assms [of mid j] False that by (cases "j = mid") auto
      then have "\<forall>j. mid \<le> j \<and> j < length rs \<longrightarrow> cp \<le> snd (rs ! j)" by blast
      from less.hyps [OF _ _ _ less.prems(3) this] show ?thesis
        using False mid \<open>lo < hi\<close> less.prems(2) by (simp add: contains_between.simps [of cp rs lo hi] mid_def [symmetric])
    qed
  qed
qed

lemma contains_exact:
  assumes "sorted_ranges rs"
  shows "contains cp rs \<longleftrightarrow> (\<exists>r \<in> set rs. fst r \<le> cp \<and> cp \<le> snd r)"
proof -
  have lt: "snd (rs ! i) < fst (rs ! j)" if "i < j" "j < length rs" for i j
    using assms that by (simp add: sorted_ranges_def sorted_wrt_iff_nth_less)
  have le: "fst (rs ! j) \<le> snd (rs ! j)" if "j < length rs" for j
    using assms that by (simp add: sorted_ranges_def list_all_length)
  have "snd (rs ! i) < snd (rs ! j)" if "i < j" "j < length rs" for i j using lt [OF that] le [of j] that by simp
  note S = contains_between_split [of rs 0 "length rs" cp, OF this]
  define r where "r = contains_between cp rs 0 (length rs)"
  have S: "r \<le> length rs" "\<And>j. j < r \<Longrightarrow> snd (rs ! j) < cp" "\<And>j. r \<le> j \<Longrightarrow> j < length rs \<Longrightarrow> cp \<le> snd (rs ! j)"
    using S by (simp_all add: r_def)
  have "contains cp rs \<longleftrightarrow> r < length rs \<and> fst (rs ! r) \<le> cp" by (simp add: contains_def r_def Let_def)
  also have "\<dots> \<longleftrightarrow> (\<exists>j < length rs. fst (rs ! j) \<le> cp \<and> cp \<le> snd (rs ! j))"
  proof
    assume "\<exists>j < length rs. fst (rs ! j) \<le> cp \<and> cp \<le> snd (rs ! j)"
    then obtain j where j: "j < length rs" "fst (rs ! j) \<le> cp" "cp \<le> snd (rs ! j)" by blast
    then have "r \<le> j" using S(2) [of j] by (meson not_le)
    then have "r = j" using lt [of r j] S(3) [of r] j by (cases "r = j") auto
    then show "r < length rs \<and> fst (rs ! r) \<le> cp" using j by simp
  qed (use S(3) in blast)
  finally show ?thesis by (metis in_set_conv_nth)
qed

end
