(* ===== verification/Tokenizer_Roundtrip.thy ===== *)
theory Tokenizer_Roundtrip
  imports Tokenizer_Bytes
begin

text \<open>
  What encoding promises: ids of the vocabulary, the same ids for every schedule of the workers, a
  decoding that gives the text back, and independence of the two sides of a special token.
\<close>

section \<open>The vocabulary\<close>

lemma token_ids_upto:
  "\<forall>w i. foldl (\<lambda>m i. if tokens ! i \<noteq> [] then emplace m (tokens ! i) (int i) else m) Map.empty [0..<n] w = Some i \<longrightarrow>
     w \<noteq> [] \<and> 0 \<le> i \<and> nat i < n \<and> tokens ! nat i = w"
  by (induction n) (auto simp: emplace_def less_Suc_eq split: if_splits)

lemma token_ids_Some:
  "token_ids tokens w = Some i \<Longrightarrow> w \<noteq> [] \<and> 0 \<le> i \<and> nat i < length tokens \<and> tokens ! nat i = w"
  using token_ids_upto [of tokens "length tokens"] by (simp add: token_ids_def)

lemma token_ids_dom: "w \<noteq> [] \<Longrightarrow> w \<in> set tokens \<Longrightarrow> token_ids tokens w \<noteq> None"
proof -
  assume w: "w \<noteq> []" "w \<in> set tokens"
  then obtain j where j: "j < length tokens" "tokens ! j = w" by (auto simp: in_set_conv_nth)
  have "j < n \<Longrightarrow> foldl (\<lambda>m i. if tokens ! i \<noteq> [] then emplace m (tokens ! i) (int i) else m) Map.empty [0..<n] w \<noteq> None" for n
  proof (induction n)
    case (Suc n)
    then show ?case using j w by (cases "j = n") (auto simp: emplace_def)
  qed simp
  then show ?thesis using j by (simp add: token_ids_def)
qed

text \<open>What construction establishes.\<close>

definition tokenizer_ok :: "tokenizer \<Rightarrow> bool" where
  "tokenizer_ok tk \<longleftrightarrow> tk_ids tk = token_ids (tk_tokens tk) \<and>
     set (tk_special tk) = {(s, i). s \<in> set special_candidates \<and> tk_ids tk s = Some i}"

lemma finish_initialization_ok: "tokenizer_ok (finish_initialization tk)"
  by (auto simp: tokenizer_ok_def finish_initialization_def Let_def split: option.splits)

lemma from_gguf_ok: "tokenizer_from_gguf m = Inr tk \<Longrightarrow> tokenizer_ok tk"
  by (auto simp: tokenizer_from_gguf_def finish_initialization_ok split: option.splits if_splits)

lemma ids_valid: "tokenizer_ok tk \<Longrightarrow> tk_ids tk w = Some i \<Longrightarrow> 0 \<le> i \<and> i < vocab_size tk \<and> tk_tokens tk ! nat i = w"
  using token_ids_Some [of "tk_tokens tk" w i] by (auto simp: tokenizer_ok_def vocab_size_def)

text \<open>A byte-level vocabulary: every byte and the result of every merge is a token.\<close>

definition byte_level :: "tokenizer \<Rightarrow> bool" where
  "byte_level tk \<longleftrightarrow> (\<forall>b. tk_ids tk (byte_to_char b) \<noteq> None) \<and>
     (\<forall>a b r. tk_ranks tk (a, b) = Some r \<longrightarrow> tk_ids tk (a @ b) \<noteq> None)"

section \<open>One piece\<close>

lemma best_merge_rank: "best_merge tk symbols = Some i \<Longrightarrow> tk_ranks tk (symbols ! i, symbols ! (i + 1)) \<noteq> None"
proof -
  define f where "f = (\<lambda>(best, idx) i. case tk_ranks tk (symbols ! i, symbols ! (i + 1)) of None \<Rightarrow> (best, idx)
    | Some r \<Rightarrow> if r < best then (r, Some i) else (best, idx :: nat option))"
  have "snd (foldl f (int INT32_MAX, None) [0..<n]) = Some i \<Longrightarrow> tk_ranks tk (symbols ! i, symbols ! (i + 1)) \<noteq> None" for n
  proof (induction n)
    case (Suc n)
    then show ?case by (cases "foldl f (int INT32_MAX, None) [0..<n]") (auto simp: f_def split: option.splits if_splits)
  qed simp
  then show "best_merge tk symbols = Some i \<Longrightarrow> ?thesis" by (simp add: best_merge_def f_def)
qed

lemma split_at_pair: "i + 1 < length xs \<Longrightarrow> xs = take i xs @ xs ! i # xs ! (i + 1) # drop (i + 2) xs"
  by (metis Cons_nth_drop_Suc Suc_eq_plus1 Suc_lessD add_2_eq_Suc' append_take_drop_id)

lemma bpe_merge_bytes:
  assumes "byte_level tk"
  shows "\<forall>w \<in> set (map bytes_to_chars bss). tk_ids tk w \<noteq> None \<Longrightarrow>
    \<exists>css. bpe_merge tk (map bytes_to_chars bss) = map bytes_to_chars css \<and> concat css = concat bss \<and>
      (\<forall>w \<in> set (map bytes_to_chars css). tk_ids tk w \<noteq> None)"
proof (induction "length bss" arbitrary: bss rule: less_induct)
  case less
  define syms where "syms = map bytes_to_chars bss"
  show ?case
  proof (cases "best_merge tk syms")
    case None
    then have "bpe_merge tk syms = syms" by (simp add: bpe_merge.simps)
    then show ?thesis using less.prems by (auto simp: syms_def)
  next
    case (Some i)
    have i: "i + 1 < length bss" using best_merge_bound [OF Some] by (simp add: syms_def)
    define bss' where "bss' = take i bss @ (bss ! i @ bss ! (i + 1)) # drop (i + 2) bss"
    have m: "merge_at syms i = map bytes_to_chars bss'"
      using i by (simp add: merge_at_def syms_def bss'_def take_map drop_map bytes_to_chars_def)
    have "tk_ids tk (syms ! i @ syms ! (i + 1)) \<noteq> None"
      using best_merge_rank [OF Some] assms by (auto simp: byte_level_def)
    then have "\<forall>w \<in> set (merge_at syms i). tk_ids tk w \<noteq> None"
      using less.prems by (auto simp: merge_at_def syms_def [symmetric] dest!: in_set_takeD in_set_dropD)
    moreover have "length bss' < length bss" using i by (simp add: bss'_def)
    ultimately obtain css where css: "bpe_merge tk (map bytes_to_chars bss') = map bytes_to_chars css" "concat css = concat bss'"
      "\<forall>w \<in> set (map bytes_to_chars css). tk_ids tk w \<noteq> None"
      using less.hyps [of bss'] m by auto
    have "concat bss' = concat bss" using arg_cong [where f = concat, OF split_at_pair [OF i]] by (simp add: bss'_def)
    moreover have "bpe_merge tk syms = bpe_merge tk (merge_at syms i)" using Some i by (subst bpe_merge.simps) (simp add: syms_def)
    ultimately show ?thesis using css m by (auto simp: syms_def)
  qed
qed

lemma decode_append [simp]: "decode tk (xs @ ys) = decode tk xs @ decode tk ys"
  by (simp add: decode_def)

lemma decode_Nil [simp]: "decode tk [] = []"
  by (simp add: decode_def)

lemma decode_one_id: "tokenizer_ok tk \<Longrightarrow> tk_ids tk w = Some i \<Longrightarrow> decode_one tk i = decode_from w 0"
  using ids_valid [of tk w i] by (simp add: decode_one_def)

lemma decode_piece:
  assumes "tokenizer_ok tk" "byte_level tk"
  shows "decode tk (bpe_piece tk piece) = piece"
proof -
  have m: "map byte_to_char piece = map bytes_to_chars (map (\<lambda>b. [b]) piece)" by (simp add: bytes_to_chars_def)
  have "\<forall>w \<in> set (map bytes_to_chars (map (\<lambda>b. [b]) piece)). tk_ids tk w \<noteq> None"
    using assms(2) by (auto simp: byte_level_def bytes_to_chars_def)
  from bpe_merge_bytes [OF assms(2) this] obtain css where
    css: "bpe_merge tk (map byte_to_char piece) = map bytes_to_chars css" "concat css = piece"
      "\<forall>w \<in> set (map bytes_to_chars css). tk_ids tk w \<noteq> None" unfolding m by auto
  have "decode tk (ids_of_symbol tk (bytes_to_chars cs)) = cs" if "cs \<in> set css" for cs
  proof -
    have "tk_ids tk (bytes_to_chars cs) \<noteq> None" using css(3) that by simp
    then obtain i where i: "tk_ids tk (bytes_to_chars cs) = Some i" by blast
    then show ?thesis using decode_one_id [OF assms(1) i] by (simp add: ids_of_symbol_def decode_def decode_bytes)
  qed
  then have "decode tk (concat (map (ids_of_symbol tk) (map bytes_to_chars css))) = concat css"
    by (induction css) auto
  then show ?thesis using css(1,2) by (cases "piece = []") (simp_all add: bpe_piece_def decode_def)
qed

lemma encode_chunk_decodes:
  assumes "tokenizer_ok tk" "byte_level tk" "encode_regular_chunk nfc u tk chunk = Inr ids"
  shows "qwen_normalize_utf8 nfc chunk = Inr (decode tk ids)"
proof -
  have d: "decode tk (concat (map (bpe_piece tk) ps)) = concat ps" for ps
    by (induction ps) (simp_all add: decode_piece [OF assms(1,2)])
  have "list_ex (\<lambda>c. 128 \<le> byte c) chunk \<longleftrightarrow> \<not> list_all (\<lambda>c. byte c < 128) chunk"
    by (auto simp: list_ex_iff list_all_iff not_le not_less)
  then show ?thesis using assms(3)
    by (auto simp: encode_regular_chunk_def Let_def d pre_tokenize_concat qwen_normalize_utf8_def split: sum.splits if_splits option.splits)
qed

lemma ids_in_vocab:
  assumes "tokenizer_ok tk"
  shows "\<forall>i \<in> set (ids_of_symbol tk w). 0 \<le> i \<and> i < vocab_size tk"
  using ids_valid [OF assms] by (auto simp: ids_of_symbol_def split: option.splits)

lemma chunk_in_vocab:
  assumes "tokenizer_ok tk" "encode_regular_chunk nfc u tk chunk = Inr ids"
  shows "\<forall>i \<in> set ids. 0 \<le> i \<and> i < vocab_size tk"
  using assms(2) ids_in_vocab [OF assms(1)]
  by (fastforce simp: encode_regular_chunk_def Let_def bpe_piece_def split: sum.splits if_splits)

lemma chunk_error: "encode_regular_chunk nfc u tk chunk = Inl e \<Longrightarrow> e = RuntimeError"
  by (auto simp: encode_regular_chunk_def qwen_normalize_utf8_def Let_def split: sum.splits if_splits option.splits)

section \<open>The segments\<close>

text \<open>What a segment contributes.\<close>

definition segment_ids :: "(string \<Rightarrow> int list result) \<Rightarrow> string \<Rightarrow> segment \<Rightarrow> int list result" where
  "segment_ids chunk s g = (if 0 \<le> sg_special g then Inr [sg_special g] else chunk (substr s (sg_begin g) (sg_end g)))"

lemma special_at_valid:
  assumes "tokenizer_ok tk" "special_at tk s k = Some (t, i)"
  shows "0 \<le> i" "i < vocab_size tk" "t \<in> set special_candidates" "tk_ids tk t = Some i" "prefix t (drop k s)" "0 < length t"
  using special_at_Some [OF assms(2)] assms(1) ids_valid [OF assms(1), of t i] by (auto simp: tokenizer_ok_def)

text \<open>Induction over the segments.\<close>

lemma segments_induct [case_names over tail step]:
  assumes "\<And>i. length s \<le> i \<Longrightarrow> P i []"
    and "\<And>i. i < length s \<Longrightarrow> next_special tk s i = None \<Longrightarrow> P i [\<lparr>sg_begin = i, sg_end = length s, sg_special = -1\<rparr>]"
    and "\<And>i k t tid rest. i \<le> k \<Longrightarrow> k < length s \<Longrightarrow> next_special tk s i = Some (k, t, tid) \<Longrightarrow> special_at tk s k = Some (t, tid) \<Longrightarrow>
       rest = segments_from tk s (k + length t) \<Longrightarrow> P (k + length t) rest \<Longrightarrow>
       P i ((if i < k then [\<lparr>sg_begin = i, sg_end = k, sg_special = -1\<rparr>] else []) @
            \<lparr>sg_begin = k, sg_end = k + length t, sg_special = tid\<rparr> # rest)"
  shows "P i (segments_from tk s i)"
proof (induction "length s - i" arbitrary: i rule: less_induct)
  case less
  show ?case
  proof (cases "i < length s")
    case False
    then show ?thesis using assms(1) by (simp add: segments_from.simps)
  next
    case True
    show ?thesis
    proof (cases "next_special tk s i")
      case None
      then show ?thesis using assms(2) [OF True] True by (simp add: segments_from.simps)
    next
      case (Some x)
      obtain k t tid where x: "x = (k, t, tid)" by (cases x) auto
      note n = next_special_Some [OF Some [unfolded x]]
      have "0 < length t" using special_at_Some [of tk s k "(t, tid)"] n by auto
      then have "P (k + length t) (segments_from tk s (k + length t))" using n True by (intro less.hyps) linarith
      from assms(3) [OF _ _ Some [unfolded x] _ refl this] n
      show ?thesis using True Some x by (simp add: segments_from.simps [of tk s i])
    qed
  qed
qed

lemma substr_prefix: "prefix t (drop k s) \<Longrightarrow> substr s k (k + length t) = t"
  by (auto simp: substr_def prefix_def)

lemma prefix_bound: "prefix t (drop k s) \<Longrightarrow> k \<le> length s \<Longrightarrow> k + length t \<le> length s"
  using prefix_length_le [of t "drop k s"] by simp

definition segment_ok :: "tokenizer \<Rightarrow> string \<Rightarrow> segment \<Rightarrow> bool" where
  "segment_ok tk s g \<longleftrightarrow> sg_begin g < sg_end g \<and> sg_end g \<le> length s \<and>
     (0 \<le> sg_special g \<longrightarrow> sg_special g < vocab_size tk \<and> substr s (sg_begin g) (sg_end g) \<in> set special_candidates \<and>
        tk_ids tk (substr s (sg_begin g) (sg_end g)) = Some (sg_special g))"

lemma segments_ok:
  assumes "tokenizer_ok tk"
  shows "list_all (segment_ok tk s) (segments_from tk s i)"
proof (induction rule: segments_induct)
  case (step i k t tid rest)
  note S = special_at_valid [OF assms step(4)]
  show ?case using step S prefix_bound [OF S(5)] by (auto simp: segment_ok_def substr_prefix)
qed (simp_all add: segment_ok_def)

lemma substr_join: "a \<le> b \<Longrightarrow> substr s a b @ drop b s = drop a s"
  by (simp add: substr_def) (metis append_take_drop_id drop_drop le_add_diff_inverse2)

lemma segments_concat:
  assumes "tokenizer_ok tk"
  shows "concat (map (\<lambda>g. substr s (sg_begin g) (sg_end g)) (segments_from tk s i)) = drop i s"
proof (induction rule: segments_induct)
  case (tail i)
  then show ?case by (simp add: substr_def)
next
  case (step i k t tid rest)
  note S = special_at_valid [OF assms step(4)]
  have "substr s k (k + length t) @ drop (k + length t) s = drop k s" by (rule substr_join) simp
  moreover have "substr s i k @ drop k s = drop i s" using step(1) by (rule substr_join)
  ultimately show ?case using step(1,6) by (cases "i = k") simp_all
qed simp

section \<open>The schedule\<close>

definition outcome :: "(string \<Rightarrow> int list result) \<Rightarrow> string \<Rightarrow> segment list \<Rightarrow> nat \<Rightarrow> int list result" where
  "outcome chunk s segs j = chunk (substr s (sg_begin (segs ! j)) (sg_end (segs ! j)))"

lemma run_schedule_eq:
  assumes "\<And>c e. chunk c = Inl e \<Longrightarrow> e = RuntimeError"
  shows "\<forall>j \<in> set order. j < length start \<Longrightarrow> run_schedule (encode_segment chunk s segs) order start =
    (if \<exists>j \<in> set order. isl (outcome chunk s segs j) then Inl RuntimeError
     else Inr (map (\<lambda>j. if j \<in> set order then projr (outcome chunk s segs j) else start ! j) [0..<length start]))"
proof (induction order arbitrary: start)
  case Nil
  then show ?case by (simp add: map_nth)
next
  case (Cons j js)
  show ?case
  proof (cases "outcome chunk s segs j")
    case (Inl e)
    then show ?thesis using assms by (auto simp: outcome_def encode_segment_def)
  next
    case (Inr ids)
    then have "run_schedule (encode_segment chunk s segs) (j # js) start = run_schedule (encode_segment chunk s segs) js (start[j := ids])"
      by (simp add: outcome_def encode_segment_def)
    moreover have "\<forall>k \<in> set js. k < length (start[j := ids])" using Cons.prems by simp
    note Cons.IH [OF this]
    ultimately show ?thesis using Inr Cons.prems by (auto intro!: map_cong simp: nth_list_update)
  qed
qed

definition front :: "tokenizer \<Rightarrow> bool \<Rightarrow> int list" where
  "front tk add_bos = (if (add_bos \<or> tk_add_bos tk) \<and> tk_bos tk < vocab_size tk then [tk_bos tk] else [])"

definition all_segments :: "(string \<Rightarrow> int list result) \<Rightarrow> string \<Rightarrow> segment list \<Rightarrow> int list result" where
  "all_segments chunk s segs = (if list_ex (\<lambda>g. isl (segment_ids chunk s g)) segs then Inl RuntimeError
     else Inr (concat (map (\<lambda>g. projr (segment_ids chunk s g)) segs)))"

lemma encode_eq:
  assumes "tokenizer_ok tk" "\<And>w. set (schedule w) = set w"
  shows "encode nfc u cpus schedule tk s add_bos =
    (case all_segments (encode_regular_chunk nfc u tk) s (segments_from tk s 0) of Inl e \<Rightarrow> Inl e
     | Inr ids \<Rightarrow> Inr (front tk add_bos @ ids))"
proof -
  define segs where "segs = segments_from tk s 0"
  define chunk where "chunk = encode_regular_chunk nfc u tk"
  define work where "work = regular_segments segs"
  define start where "start = map (\<lambda>g. if 0 \<le> sg_special g then [sg_special g] else []) segs"
  define order where "order = (if worker_count cpus (regular_bytes segs) (length work) \<le> 1 then work else schedule work)"
  have ok: "list_all (segment_ok tk s) segs" unfolding segs_def by (rule segments_ok [OF assms(1)])
  have j: "j \<in> set order \<longleftrightarrow> j < length segs \<and> sg_special (segs ! j) < 0" for j
    using ok assms(2) by (auto simp: order_def work_def regular_segments_def list_all_length segment_ok_def)
  have err: "chunk c = Inl e \<Longrightarrow> e = RuntimeError" for c e unfolding chunk_def by (rule chunk_error)
  have o: "outcome chunk s segs j = segment_ids chunk s (segs ! j)" if "sg_special (segs ! j) < 0" for j
    using that by (simp add: outcome_def segment_ids_def)
  have ex: "(\<exists>j \<in> set order. isl (outcome chunk s segs j)) \<longleftrightarrow> list_ex (\<lambda>g. isl (segment_ids chunk s g)) segs"
  proof
    assume "list_ex (\<lambda>g. isl (segment_ids chunk s g)) segs"
    then obtain j where "j < length segs" "isl (segment_ids chunk s (segs ! j))" by (auto simp: list_ex_length)
    moreover then have "sg_special (segs ! j) < 0" by (auto simp: segment_ids_def split: if_splits)
    ultimately show "\<exists>j \<in> set order. isl (outcome chunk s segs j)" using j o by auto
  qed (auto simp: j o list_ex_length)
  have vals: "map (\<lambda>j. if j \<in> set order then projr (outcome chunk s segs j) else start ! j) [0..<length start] =
      map (\<lambda>g. projr (segment_ids chunk s g)) segs"
    by (rule nth_equalityI) (auto simp: j o start_def segment_ids_def)
  have "run_schedule (encode_segment chunk s segs) order start = (if list_ex (\<lambda>g. isl (segment_ids chunk s g)) segs
      then Inl RuntimeError else Inr (map (\<lambda>g. projr (segment_ids chunk s g)) segs))"
    using run_schedule_eq [of chunk order start s segs] err ex vals j by (auto simp: start_def)
  then show ?thesis
    unfolding encode_def Let_def segs_def [symmetric] chunk_def [symmetric] work_def [symmetric] start_def [symmetric]
      order_def [symmetric] by (simp add: all_segments_def front_def)
qed

lemma all_segments_Inr:
  "all_segments chunk s segs = Inr ids \<Longrightarrow> ids = concat (map (\<lambda>g. projr (segment_ids chunk s g)) segs) \<and>
     (\<forall>g \<in> set segs. segment_ids chunk s g = Inr (projr (segment_ids chunk s g)))"
  by (auto simp: all_segments_def list_ex_iff sum.collapse(2) split: if_splits)

section \<open>Special tokens stand alone\<close>

lemma special_shift: "special_at tk (a @ b) (length a + k) = special_at tk b k"
  by (simp add: special_at_def nth_append)

lemma special_candidates_shape: "list_all (\<lambda>t. hd t = CHR ''<'' \<and> CHR ''<'' \<notin> set (tl t) \<and> t \<noteq> []) special_candidates"
  by (simp add: special_candidates_def)

lemma special_left:
  assumes "tokenizer_ok tk" "k < length a" "hd b = CHR ''<''"
  shows "special_at tk (a @ b) k = special_at tk a k"
proof -
  have "prefix t (drop k (a @ b)) \<longleftrightarrow> prefix t (drop k a)" if "(t, i) \<in> set (tk_special tk)" for t i
  proof -
    have t: "hd t = CHR ''<''" "CHR ''<'' \<notin> set (tl t)" "t \<noteq> []"
      using that assms(1) special_candidates_shape by (auto simp: tokenizer_ok_def list_all_iff)
    have d: "drop k (a @ b) = drop k a @ b" using assms(2) by simp
    show ?thesis
    proof (cases "length t \<le> length (drop k a) \<or> b = []")
      case True
      then show ?thesis unfolding d by (metis append_Nil2 prefix_append prefix_length_prefix prefix_prefix prefixI)
    next
      case False
      then obtain c cs where b: "b = c # cs" "c = CHR ''<''" using assms(3) by (cases b) auto
      have "\<not> prefix t (drop k a @ b)"
      proof
        assume "prefix t (drop k a @ b)"
        then have "t ! length (drop k a) = CHR ''<''" using False b by (auto simp: prefix_def nth_append) (metis (no_types, lifting) b(1) b(2) length_drop nth_append nth_append_length not_le)
        moreover have "tl t ! (length (drop k a) - 1) = t ! length (drop k a)"
          using t(3) assms(2) by (cases t) (simp_all add: nth_Cons')
        moreover have "length (drop k a) - 1 < length (tl t)" using False assms(2) by auto
        ultimately have "CHR ''<'' \<in> set (tl t)" by (metis nth_mem)
        then show False using t(2) by simp
      qed
      moreover have "\<not> prefix t (drop k a)" using False prefix_length_le [of t "drop k a"] by auto
      ultimately show ?thesis unfolding d by simp
    qed
  qed
  then show ?thesis unfolding special_at_def using assms(2) by (intro find_cong) (auto simp: nth_append)
qed

text \<open>The next special token is the first position at which one begins.\<close>

lemma special_initial: "special_at tk s k = Some t \<Longrightarrow> k < length s \<Longrightarrow> s ! k \<in> set (special_initials tk)"
proof -
  have C: "set (foldl (\<lambda>cs s. if fst s = [] \<or> hd (fst s) \<in> set cs then cs else cs @ [hd (fst s)]) cs ts) =
      set cs \<union> {hd (fst t) | t. t \<in> set ts \<and> fst t \<noteq> []}" for cs ts
    by (induction ts arbitrary: cs) auto
  then have i: "set (special_initials tk) = {hd (fst t) | t. t \<in> set (tk_special tk) \<and> fst t \<noteq> []}"
    unfolding special_initials_def C by simp
  assume "special_at tk s k = Some t" "k < length s"
  then have "t \<in> set (tk_special tk) \<and> fst t \<noteq> [] \<and> hd (fst t) = s ! k" by (auto simp: special_at_def find_Some_iff)
  then show ?thesis unfolding i by (metis (mono_tags, lifting) mem_Collect_eq)
qed

lemma find_first_of_first:
  assumes "i \<le> k" "k < length s" "s ! k \<in> set cs"
  shows "\<exists>j \<le> k. find_first_of cs s i = Some j"
proof -
  have m: "k \<in> set (filter (\<lambda>j. s ! j \<in> set cs) [i..<length s])" using assms by simp
  then obtain j js where j: "filter (\<lambda>j. s ! j \<in> set cs) [i..<length s] = j # js"
    by (cases "filter (\<lambda>j. s ! j \<in> set cs) [i..<length s]") auto
  have "sorted (filter (\<lambda>j. s ! j \<in> set cs) [i..<length s])" by (intro sorted_wrt_filter) simp
  then have "j \<le> k" using m j by auto
  then show ?thesis using j by (simp add: find_first_of_def)
qed

definition least_special :: "tokenizer \<Rightarrow> string \<Rightarrow> nat \<Rightarrow> (nat \<times> string \<times> int) option \<Rightarrow> bool" where
  "least_special tk s i x \<longleftrightarrow> (case x of None \<Rightarrow> \<forall>j. i \<le> j \<and> j < length s \<longrightarrow> special_at tk s j = None
     | Some (k, t) \<Rightarrow> i \<le> k \<and> k < length s \<and> special_at tk s k = Some t \<and> (\<forall>j. i \<le> j \<and> j < k \<longrightarrow> special_at tk s j = None))"

lemma least_special_unique:
  assumes "least_special tk s i x" "least_special tk s i y"
  shows "x = y"
proof (cases x)
  case None
  then show ?thesis using assms by (cases y) (auto simp: least_special_def)
next
  case (Some p)
  obtain k t where x: "x = Some (k, t)" using Some by (cases p) auto
  then obtain j u where y: "y = Some (j, u)" using assms by (cases y) (auto simp: least_special_def)
  have "k = j" using assms x y by (cases k j rule: linorder_cases) (auto simp: least_special_def)
  then show ?thesis using assms x y by (simp add: least_special_def)
qed

lemma next_special_least: "least_special tk s i (next_special tk s i)"
proof (induction tk s i rule: next_special.induct)
  case (1 tk s i)
  show ?case
  proof (cases "find_first_of (special_initials tk) s i")
    case None
    then have "special_at tk s j = None" if "i \<le> j" "j < length s" for j
      using special_initial [of tk s j] that find_first_of_first [OF that, of "special_initials tk"] None by (cases "special_at tk s j") auto
    then show ?thesis using None by (simp add: next_special.simps least_special_def)
  next
    case (Some k)
    then have k: "i \<le> k" "k < length s" using find_first_of_Some by blast+
    have none: "special_at tk s j = None" if j: "i \<le> j" "j < k" for j
    proof (rule ccontr)
      assume "special_at tk s j \<noteq> None"
      then have "s ! j \<in> set (special_initials tk)" using special_initial [of tk s j] j k by auto
      then show False using find_first_of_first [of i j s "special_initials tk"] Some j k by auto
    qed
    show ?thesis
    proof (cases "special_at tk s k")
      case None
      then have n: "next_special tk s i = next_special tk s (k + 1)" using Some by (simp add: next_special.simps [of tk s i])
      have "special_at tk s j = None" if "i \<le> j" "j < k + 1" for j using that none None by (cases "j = k") auto
      then show ?thesis using "1.IH" [OF Some None] k unfolding n
        by (auto simp: least_special_def split: option.splits prod.splits) (metis add_leD1 not_less)+
    next
      case (Some t)
      then show ?thesis using k none \<open>find_first_of _ _ _ = Some k\<close> by (simp add: next_special.simps least_special_def)
    qed
  qed
qed

lemma next_specialI: "least_special tk s i x \<Longrightarrow> next_special tk s i = x"
  using least_special_unique next_special_least by blast

definition moved :: "nat \<Rightarrow> segment \<Rightarrow> segment" where
  "moved n g = \<lparr>sg_begin = n + sg_begin g, sg_end = n + sg_end g, sg_special = sg_special g\<rparr>"

lemma next_special_shift:
  "next_special tk (a @ b) (length a + i) = map_option (\<lambda>(k, t). (length a + k, t)) (next_special tk b i)"
proof (rule next_specialI)
  have sh: "special_at tk (a @ b) j = None"
    if n: "\<forall>j. i \<le> j \<and> j < n \<longrightarrow> special_at tk b j = None" "length a + i \<le> j" "j < length a + n" for j n
  proof -
    obtain k where "j = length a + k" using n(2) by (metis add.assoc le_iff_add)
    then show ?thesis using n special_shift [of tk a b k] by simp
  qed
  note L = next_special_least [of tk b i]
  show "least_special tk (a @ b) (length a + i) (map_option (\<lambda>(k, t). (length a + k, t)) (next_special tk b i))"
  proof (cases "next_special tk b i")
    case None
    then show ?thesis using L sh [of "length b"] by (auto simp: least_special_def)
  next
    case (Some x)
    then show ?thesis using L sh [of "fst x"] by (cases x) (auto simp: least_special_def special_shift)
  qed
qed

lemma segments_shift: "segments_from tk (a @ b) (length a + i) = map (moved (length a)) (segments_from tk b i)"
proof (induction rule: segments_induct)
  case (over i)
  then show ?case by (simp add: segments_from.simps)
next
  case (tail i)
  then show ?case by (simp add: segments_from.simps [of tk "a @ b"] next_special_shift moved_def)
next
  case (step i k t tid rest)
  then show ?case by (simp add: segments_from.simps [of tk "a @ b" "length a + i"] next_special_shift moved_def add.assoc)
qed

lemma segments_left:
  assumes "tokenizer_ok tk" "special_at tk b 0 \<noteq> None" "hd b = CHR ''<''"
  shows "i \<le> length a \<longrightarrow> segments_from tk (a @ b) i = segments_from tk a i @ segments_from tk (a @ b) (length a)"
proof (induction rule: segments_induct [where s = a and tk = tk and
    P = "\<lambda>i gs. i \<le> length a \<longrightarrow> segments_from tk (a @ b) i = gs @ segments_from tk (a @ b) (length a)"])
  case (over i)
  then show ?case by simp
next
  case (tail i)
  obtain t tid where b: "special_at tk b 0 = Some (t, tid)" using assms(2) by auto
  then have ab: "special_at tk (a @ b) (length a) = Some (t, tid)" using special_shift [of tk a b 0] by simp
  have "b \<noteq> []" using special_at_Some [OF b] by (auto simp: prefix_def)
  then have n: "next_special tk (a @ b) j = Some (length a, t, tid)" if "i \<le> j" "j \<le> length a" for j
    using that ab tail next_special_least [of tk a i]
    by (intro next_specialI) (auto simp: least_special_def special_left [OF assms(1) _ assms(3)])
  show ?case using tail n \<open>b \<noteq> []\<close> by (simp add: segments_from.simps [of tk "a @ b" i] segments_from.simps [of tk "a @ b" "length a"])
next
  case (step i k t tid rest)
  note S = special_at_valid [OF assms(1) step(4)]
  have "next_special tk (a @ b) i = Some (k, t, tid)"
    using step(1,2,3) next_special_least [of tk a i]
    by (intro next_specialI) (auto simp: least_special_def special_left [OF assms(1) _ assms(3)])
  moreover have "k + length t \<le> length a" using prefix_bound [OF S(5)] step(2) by simp
  ultimately show ?case using step by (simp add: segments_from.simps [of tk "a @ b" i])
qed

lemma special_at_front:
  assumes "tokenizer_ok tk" "w \<in> set special_candidates" "tk_ids tk w \<noteq> None" "prefix w b"
  shows "special_at tk b 0 \<noteq> None"
proof -
  have w: "hd w = CHR ''<''" "w \<noteq> []" using special_candidates_shape assms(2) by (auto simp: list_all_iff)
  obtain i where i: "(w, i) \<in> set (tk_special tk)" using assms(1,2,3) by (auto simp: tokenizer_ok_def)
  have "hd w = b ! 0" using w assms(4) by (auto simp: prefix_def nth_append hd_conv_nth)
  then have "\<exists>x. x \<in> set (tk_special tk) \<and> fst x \<noteq> [] \<and> hd (fst x) = b ! 0 \<and> prefix (fst x) (drop 0 b)"
    using i w assms(4) by (intro exI [of _ "(w, i)"]) simp
  then show ?thesis by (simp only: special_at_def find_None_iff) blast
qed

definition plain_encode :: "(string \<Rightarrow> int list result) \<Rightarrow> tokenizer \<Rightarrow> string \<Rightarrow> int list result" where
  "plain_encode chunk tk s = all_segments chunk s (segments_from tk s 0)"

definition both :: "int list result \<Rightarrow> int list result \<Rightarrow> int list result" where
  "both x y = (case x of Inl e \<Rightarrow> Inl e | Inr u \<Rightarrow> (case y of Inl e \<Rightarrow> Inl e | Inr v \<Rightarrow> Inr (u @ v)))"

lemma all_segments_append: "all_segments chunk s (xs @ ys) = both (all_segments chunk s xs) (all_segments chunk s ys)"
  by (simp add: all_segments_def both_def)

lemma all_segments_cong:
  "(\<And>g. g \<in> set gs \<Longrightarrow> segment_ids chunk s (f g) = segment_ids chunk s' g) \<Longrightarrow>
     all_segments chunk s (map f gs) = all_segments chunk s' gs"
  by (auto simp: all_segments_def list_ex_iff comp_def intro!: arg_cong [where f = concat] map_cong)

lemma plain_encode_split:
  assumes "tokenizer_ok tk" "special_at tk b 0 \<noteq> None" "hd b = CHR ''<''"
  shows "plain_encode chunk tk (a @ b) = both (plain_encode chunk tk a) (plain_encode chunk tk b)"
proof -
  have "substr (a @ b) x y = substr a x y" if "y \<le> length a" for x y using that by (simp add: substr_def)
  then have "all_segments chunk (a @ b) (map (\<lambda>g. g) (segments_from tk a 0)) = all_segments chunk a (segments_from tk a 0)"
    using segments_ok [OF assms(1), of a 0] by (intro all_segments_cong) (auto simp: segment_ids_def list_all_iff segment_ok_def)
  moreover have "substr (a @ b) (length a + x) (length a + y) = substr b x y" for x y by (simp add: substr_def)
  then have "all_segments chunk (a @ b) (map (moved (length a)) (segments_from tk b 0)) = all_segments chunk b (segments_from tk b 0)"
    by (intro all_segments_cong) (simp add: segment_ids_def moved_def)
  ultimately show ?thesis
    using segments_left [OF assms, of 0 a] segments_shift [of tk a b 0] by (simp add: plain_encode_def all_segments_append)
qed

lemma encode_plain:
  assumes "tokenizer_ok tk" "\<And>w. set (schedule w) = set w"
  shows "encode nfc u cpus schedule tk s add_bos =
    both (Inr (front tk add_bos)) (plain_encode (encode_regular_chunk nfc u tk) tk s)"
  by (simp add: encode_eq [OF assms] both_def plain_encode_def)

lemma in_vocab_plain:
  assumes "tokenizer_ok tk" "\<And>t ids. chunk t = Inr ids \<Longrightarrow> \<forall>i \<in> set ids. 0 \<le> i \<and> i < vocab_size tk"
    and "plain_encode chunk tk s = Inr out" "i \<in> set out"
  shows "0 \<le> i \<and> i < vocab_size tk"
proof -
  obtain g ids where g: "g \<in> set (segments_from tk s 0)" "segment_ids chunk s g = Inr ids" "i \<in> set ids"
    using all_segments_Inr [OF assms(3) [unfolded plain_encode_def]] assms(4) by auto
  have "segment_ok tk s g" using segments_ok [OF assms(1)] g(1) by (auto simp: list_all_iff)
  then show ?thesis using g assms(2) by (fastforce simp: segment_ids_def segment_ok_def split: if_splits)
qed

section \<open>The theorems\<close>

text \<open>A vocabulary file that lists every byte and the result of every merge.\<close>

definition byte_level_vocab :: "gguf_metadata \<Rightarrow> bool" where
  "byte_level_vocab m = (case (gm_tokens m, gm_merges m) of
     (Some tokens, Some merges) \<Rightarrow> list_all (\<lambda>w. w \<in> set tokens) byte_chars \<and>
       list_all (\<lambda>line. case split_merge line of None \<Rightarrow> True | Some (a, b) \<Rightarrow> a @ b \<noteq> [] \<and> a @ b \<in> set tokens) merges
     | _ \<Rightarrow> False)"

lemma merge_ranks_Some: "merge_ranks ms p = Some r \<Longrightarrow> Some p \<in> set ms"
proof -
  have "foldl (\<lambda>m i. case ms ! i of None \<Rightarrow> m | Some p \<Rightarrow> emplace m p (int i)) Map.empty [0..<n] p = Some r \<Longrightarrow>
      \<exists>i < n. ms ! i = Some p" for n
    by (induction n) (auto simp: emplace_def less_Suc_eq split: option.splits if_splits)
  from this [of "length ms"] show "merge_ranks ms p = Some r \<Longrightarrow> ?thesis"
    by (auto simp: merge_ranks_def in_set_conv_nth)
qed

lemma from_gguf_byte_level:
  assumes "tokenizer_from_gguf m = Inr tk" "byte_level_vocab m"
  shows "byte_level tk"
proof -
  obtain tokens merges where m: "gm_tokens m = Some tokens" "gm_merges m = Some merges"
    using assms(2) by (auto simp: byte_level_vocab_def split: option.splits)
  have ids: "tk_ids tk = token_ids tokens" and ranks: "tk_ranks tk = merge_ranks (map split_merge merges)"
    using assms(1) m by (auto simp: tokenizer_from_gguf_def finish_initialization_def Let_def split: if_splits)
  have "byte_to_char b \<in> set tokens" for b
    using assms(2) m nth_mem [of "byte b" byte_chars] by (simp add: byte_level_vocab_def list_all_iff byte_to_char_def byte_chars_def table)
  then have "tk_ids tk (byte_to_char b) \<noteq> None" for b unfolding ids by (intro token_ids_dom) simp_all
  moreover have "tk_ids tk (a @ b) \<noteq> None" if r: "tk_ranks tk (a, b) = Some r" for a b r
  proof -
    obtain line where "line \<in> set merges" "split_merge line = Some (a, b)" using merge_ranks_Some [of "map split_merge merges" "(a, b)" r] r ranks by auto
    then have "a @ b \<noteq> []" "a @ b \<in> set tokens" using assms(2) m by (auto simp: byte_level_vocab_def list_all_iff split: option.splits)
    then show ?thesis unfolding ids by (intro token_ids_dom) simp_all
  qed
  ultimately show ?thesis unfolding byte_level_def by blast
qed

definition ex_metadata :: gguf_metadata where
  "ex_metadata = \<lparr>gm_tokens = Some (byte_chars @ [''th'', ''the'', ''<|im_start|>'', ''<think>'']),
     gm_merges = Some [''t h'', ''th e''], gm_bos = None, gm_eos = Some 256, gm_add_bos = None\<rparr>"

definition ex_unicode :: unicode where
  "ex_unicode = \<lparr>un_letters = [(170, 170), (192, 214)], un_numbers = [(178, 179)], un_marks = [], un_spaces = [(160, 160)]\<rparr>"

definition ex_tokenizer :: tokenizer where
  "ex_tokenizer = projr (tokenizer_from_gguf ex_metadata)"

lemma ex_tokenizer_built: "tokenizer_from_gguf ex_metadata = Inr ex_tokenizer"
  by (simp add: ex_tokenizer_def tokenizer_from_gguf_def ex_metadata_def)

lemma ex_tokenizer_fields: "tk_bos ex_tokenizer = 0" "tk_add_bos ex_tokenizer = False"
    "tk_tokens ex_tokenizer = byte_chars @ [''th'', ''the'', ''<|im_start|>'', ''<think>'']"
  by (simp_all add: ex_tokenizer_def tokenizer_from_gguf_def ex_metadata_def finish_initialization_def Let_def)

lemma ex_metadata_complete: "byte_level_vocab ex_metadata"
proof -
  have "split_merge ''t h'' = Some (''t'', ''h'')" "split_merge ''th e'' = Some (''th'', ''e'')" by code_simp+
  then show ?thesis by (simp add: byte_level_vocab_def ex_metadata_def list_all_iff)
qed

lemma plain_encode_total:
  assumes "\<And>t. sublist t s \<Longrightarrow> qwen_normalize_utf8 nfc t = Inr t" "tokenizer_ok tk" "byte_level tk"
  shows "\<exists>ids. plain_encode (encode_regular_chunk nfc u tk) tk s = Inr ids \<and> decode tk ids = s"
proof -
  define chunk where "chunk = encode_regular_chunk nfc u tk"
  define segs where "segs = segments_from tk s 0"
  have one: "\<exists>ids. segment_ids chunk s g = Inr ids \<and> decode tk ids = substr s (sg_begin g) (sg_end g)" if "g \<in> set segs" for g
  proof -
    define t where "t = substr s (sg_begin g) (sg_end g)"
    have ok: "segment_ok tk s g" using segments_ok [OF assms(2)] that by (auto simp: segs_def list_all_iff)
    show ?thesis
    proof (cases "0 \<le> sg_special g")
      case True
      then have t: "t \<in> set special_candidates" "tk_ids tk t = Some (sg_special g)" using ok by (simp_all add: segment_ok_def t_def)
      have "list_all (list_all (\<lambda>c. 33 \<le> byte c \<and> byte c < 127)) special_candidates"
        by (simp add: special_candidates_def byte_def of_char_def)
      then have "bytes_to_chars t = t" using t(1) by (intro bytes_to_chars_ascii) (simp add: list_all_iff)
      then have "decode_from t 0 = t" using decode_bytes [of t] by simp
      then show ?thesis using True decode_one_id [OF assms(2) t(2)] by (simp add: segment_ids_def decode_def t_def)
    next
      case False
      have "sublist t s" unfolding t_def substr_def by (meson sublist_drop sublist_order.order_trans sublist_take)
      then have n: "qwen_normalize_utf8 nfc t = Inr t" by (rule assms(1))
      then obtain ids where ids: "chunk t = Inr ids" by (auto simp: chunk_def encode_regular_chunk_def Let_def)
      then show ?thesis using False encode_chunk_decodes [OF assms(2,3) ids [unfolded chunk_def]] n
        by (simp add: segment_ids_def t_def)
    qed
  qed
  then have "\<not> list_ex (\<lambda>g. isl (segment_ids chunk s g)) segs" by (fastforce simp: list_ex_iff)
  then have r: "all_segments chunk s segs = Inr (concat (map (\<lambda>g. projr (segment_ids chunk s g)) segs))" by (simp add: all_segments_def)
  have "decode tk (concat (map (\<lambda>g. projr (segment_ids chunk s g)) gs)) = concat (map (\<lambda>g. substr s (sg_begin g) (sg_end g)) gs)"
    if "set gs \<subseteq> set segs" for gs
    using that
  proof (induction gs)
    case (Cons g gs)
    then show ?case using one [of g] by auto
  qed simp
  from this [of segs] have "decode tk (concat (map (\<lambda>g. projr (segment_ids chunk s g)) segs)) = s"
    using segments_concat [OF assms(2), of s 0] by (simp add: segs_def)
  then show ?thesis using r by (simp add: plain_encode_def chunk_def segs_def)
qed

lemma ascii_encodes:
  assumes "list_all (\<lambda>c. byte c < 128) s"
  shows "\<exists>ids. encode (\<lambda>_. None) ex_unicode cpus rev ex_tokenizer s False = Inr ids"
proof -
  have "qwen_normalize_utf8 (\<lambda>_. None) t = Inr t" if "sublist t s" for t
    using assms set_mono_sublist [OF that] by (auto simp: list_all_iff qwen_normalize_utf8_def)
  from plain_encode_total [OF this from_gguf_ok [OF ex_tokenizer_built] from_gguf_byte_level [OF ex_tokenizer_built ex_metadata_complete]]
  obtain ids where "plain_encode (encode_regular_chunk (\<lambda>_. None) ex_unicode ex_tokenizer) ex_tokenizer s = Inr ids" by blast
  then show ?thesis using encode_plain [OF from_gguf_ok [OF ex_tokenizer_built], of rev] by (simp add: both_def)
qed





text \<open>
  The order in which the worker threads finish their segments, and how many there are, is invisible in
  the result, errors included.
\<close>

theorem encode_schedule_irrelevant:
  assumes "tokenizer_from_gguf m = Inr tk" "\<And>w. mset (schedule w) = mset w"
  shows "encode nfc u cpus schedule tk s add_bos = encode nfc u 1 (\<lambda>w. w) tk s add_bos"
proof -
  have "set (schedule w) = set w" for w using assms(2) mset_eq_setD by blast
  note E = encode_plain [where schedule = schedule, OF from_gguf_ok [OF assms(1)] this]
  show ?thesis unfolding E by (subst encode_plain [OF from_gguf_ok [OF assms(1)]]) simp_all
qed

lemma encode_schedule_irrelevant_witness:
  "encode (\<lambda>_. None) ex_unicode 8 rev ex_tokenizer ''x<think>y'' False = encode (\<lambda>_. None) ex_unicode 1 (\<lambda>w. w) ex_tokenizer ''x<think>y'' False"
  by (rule encode_schedule_irrelevant [OF ex_tokenizer_built]) simp

text \<open>
  A special token in the text is a barrier: the text before it and the text from it on are encoded
  independently, so a prompt can be encoded message by message.
\<close>

theorem special_token_separates:
  assumes "tokenizer_from_gguf m = Inr tk" "\<And>w. mset (schedule w) = mset w" "\<not> tk_add_bos tk"
    and "w \<in> set special_candidates" "w \<in> set (tk_tokens tk)" "prefix w b"
    and "encode nfc u cpus schedule tk a False = Inr xs" "encode nfc u cpus schedule tk b False = Inr ys"
  shows "encode nfc u cpus schedule tk (a @ b) False = Inr (xs @ ys)"
proof -
  have ok: "tokenizer_ok tk" by (rule from_gguf_ok [OF assms(1)])
  have w: "hd w = CHR ''<''" "w \<noteq> []" using special_candidates_shape assms(4) by (auto simp: list_all_iff)
  have "tk_ids tk w \<noteq> None" using token_ids_dom [OF w(2) assms(5)] ok by (simp add: tokenizer_ok_def)
  then have s: "special_at tk b 0 \<noteq> None" using special_at_front [OF ok assms(4)] assms(6) by blast
  have h: "hd b = CHR ''<''" using w assms(6) by (auto simp: prefix_def)
  have "set (schedule w) = set w" for w using assms(2) mset_eq_setD by blast
  note E = encode_plain [where schedule = schedule, OF ok this]
  show ?thesis using assms(3,7,8) plain_encode_split [OF ok s h]
    by (simp add: E front_def both_def split: sum.splits)
qed

lemma special_token_separates_witness:
  "\<exists>xs ys. encode (\<lambda>_. None) ex_unicode 2 rev ex_tokenizer ''ab'' False = Inr xs \<and>
     encode (\<lambda>_. None) ex_unicode 2 rev ex_tokenizer ''<think>c'' False = Inr ys \<and>
     encode (\<lambda>_. None) ex_unicode 2 rev ex_tokenizer (''ab'' @ ''<think>c'') False = Inr (xs @ ys)"
proof -
  obtain xs where xs: "encode (\<lambda>_. None) ex_unicode 2 rev ex_tokenizer ''ab'' False = Inr xs"
    using ascii_encodes [of "''ab''" 2] by (auto simp: byte_def of_char_def)
  obtain ys where ys: "encode (\<lambda>_. None) ex_unicode 2 rev ex_tokenizer ''<think>c'' False = Inr ys"
    using ascii_encodes [of "''<think>c''" 2] by (auto simp: byte_def of_char_def)
  have "encode (\<lambda>_. None) ex_unicode 2 rev ex_tokenizer (''ab'' @ ''<think>c'') False = Inr (xs @ ys)"
    by (rule special_token_separates [OF ex_tokenizer_built _ _ _ _ _ xs ys, of "''<think>''"])
      (simp_all add: ex_tokenizer_fields special_candidates_def)
  then show ?thesis using xs ys by blast
qed

end
