(* ===== verification/Lru_Cache.thy ===== *)
theory Lru_Cache
  imports Prelude
begin

text \<open>
  The bounded caches of the server share one structure: a \<open>std::list\<close> of entries, most recent first,
  and an index of iterators into it. Here an iterator is the address of a list node, and moving an
  entry to the front keeps its address. The locale \<open>value_cache\<close> states what a client of such a cache
  relies on.
\<close>

section \<open>The list and its index\<close>

record ('k, 'v) lru_node =
  nd_key :: 'k
  nd_value :: 'v
  nd_bytes :: nat

record ('k, 'v) lru =
  lr_list :: "(nat \<times> ('k, 'v) lru_node) list"
  lr_index :: "'k \<rightharpoonup> nat"
  lr_bytes :: nat
  lr_fresh :: nat

definition lru_empty :: "('k, 'v) lru" where
  "lru_empty = \<lparr>lr_list = [], lr_index = Map.empty, lr_bytes = 0, lr_fresh = 0\<rparr>"

text \<open>\<open>index_.find\<close> and following the iterator.\<close>

definition lru_find :: "('k, 'v) lru \<Rightarrow> 'k \<Rightarrow> ('k, 'v) lru_node option" where
  "lru_find c k = (case lr_index c k of None \<Rightarrow> None | Some a \<Rightarrow> map_of (lr_list c) a)"

text \<open>\<open>lru_.splice(lru_.begin(), lru_, entry)\<close>\<close>

definition lru_touch :: "('k, 'v) lru \<Rightarrow> 'k \<Rightarrow> ('k, 'v) lru" where
  "lru_touch c k = (case lr_index c k of None \<Rightarrow> c
     | Some a \<Rightarrow> c\<lparr>lr_list := filter (\<lambda>n. fst n = a) (lr_list c) @ filter (\<lambda>n. fst n \<noteq> a) (lr_list c)\<rparr>)"

definition lru_pop_back :: "('k, 'v) lru \<Rightarrow> ('k, 'v) lru" where
  "lru_pop_back c = c\<lparr>lr_bytes := lr_bytes c - nd_bytes (snd (last (lr_list c))),
     lr_index := (lr_index c)(nd_key (snd (last (lr_list c))) := None), lr_list := butlast (lr_list c)\<rparr>"

function lru_evict :: "(('k, 'v) lru \<Rightarrow> bool) \<Rightarrow> ('k, 'v) lru \<Rightarrow> ('k, 'v) lru" where
  "lru_evict full c = (if lr_list c \<noteq> [] \<and> full c then lru_evict full (lru_pop_back c) else c)"
  by pat_completeness auto

termination
  by (relation "measure (\<lambda>(full, c). length (lr_list c))") (auto simp: lru_pop_back_def)

declare lru_evict.simps [simp del]

definition lru_push_front :: "('k, 'v) lru \<Rightarrow> 'k \<Rightarrow> 'v \<Rightarrow> nat \<Rightarrow> ('k, 'v) lru" where
  "lru_push_front c k v cost =
     c\<lparr>lr_list := (lr_fresh c, \<lparr>nd_key = k, nd_value = v, nd_bytes = cost\<rparr>) # lr_list c,
       lr_index := (lr_index c)(k := (case lr_index c k of None \<Rightarrow> Some (lr_fresh c) | Some a \<Rightarrow> Some a)),
       lr_bytes := lr_bytes c + cost, lr_fresh := lr_fresh c + 1\<rparr>"

section \<open>Well-formedness\<close>

definition keys_of :: "('k, 'v) lru \<Rightarrow> 'k list" where
  "keys_of c = map (\<lambda>n. nd_key (snd n)) (lr_list c)"

definition lru_ok :: "('k, 'v) lru \<Rightarrow> bool" where
  "lru_ok c \<longleftrightarrow> distinct (map fst (lr_list c)) \<and> distinct (keys_of c) \<and> (\<forall>a \<in> fst ` set (lr_list c). a < lr_fresh c) \<and>
     (\<forall>k a. lr_index c k = Some a \<longleftrightarrow> (\<exists>n. (a, n) \<in> set (lr_list c) \<and> nd_key n = k)) \<and>
     lr_bytes c = sum_list (map (\<lambda>n. nd_bytes (snd n)) (lr_list c))"

lemma lru_okD:
  assumes "lru_ok c"
  shows "distinct (map fst (lr_list c))" "distinct (keys_of c)" "(a, n) \<in> set (lr_list c) \<Longrightarrow> a < lr_fresh c"
    "lr_index c k = Some a \<longleftrightarrow> (\<exists>n. (a, n) \<in> set (lr_list c) \<and> nd_key n = k)"
    "lr_bytes c = sum_list (map (\<lambda>n. nd_bytes (snd n)) (lr_list c))"
  using assms by (auto simp: lru_ok_def)

lemma lru_ok_empty [simp]: "lru_ok lru_empty"
  by (simp add: lru_ok_def lru_empty_def keys_of_def)

lemma same_key: "lru_ok c \<Longrightarrow> (a, n) \<in> set (lr_list c) \<Longrightarrow> (b, m) \<in> set (lr_list c) \<Longrightarrow> nd_key n = nd_key m \<Longrightarrow> a = b \<and> n = m"
  using eq_key_imp_eq_value [of "map (\<lambda>n. (nd_key (snd n), n)) (lr_list c)" "nd_key n" "(a, n)" "(b, m)"] lru_okD(2) [of c]
  by (force simp: keys_of_def comp_def)

lemma lru_find_Some: "lru_ok c \<Longrightarrow> lru_find c k = Some n \<longleftrightarrow> (\<exists>a. (a, n) \<in> set (lr_list c)) \<and> nd_key n = k"
proof -
  assume ok: "lru_ok c"
  have m: "map_of (lr_list c) a = Some n \<longleftrightarrow> (a, n) \<in> set (lr_list c)" for a n using lru_okD(1) [OF ok] by simp
  have i: "lr_index c k = Some a \<longleftrightarrow> (\<exists>n. (a, n) \<in> set (lr_list c) \<and> nd_key n = k)" for a by (rule lru_okD(4) [OF ok])
  show ?thesis
  proof
    assume "lru_find c k = Some n"
    then obtain a where a: "lr_index c k = Some a" "map_of (lr_list c) a = Some n" by (auto simp: lru_find_def split: option.splits)
    then obtain n' where "(a, n') \<in> set (lr_list c)" "nd_key n' = k" using i by blast
    moreover then have "n' = n" using m [of a n'] a(2) by simp
    ultimately show "(\<exists>a. (a, n) \<in> set (lr_list c)) \<and> nd_key n = k" by blast
  next
    assume "(\<exists>a. (a, n) \<in> set (lr_list c)) \<and> nd_key n = k"
    then obtain a where "(a, n) \<in> set (lr_list c)" "nd_key n = k" by blast
    then show "lru_find c k = Some n" using i [of a] m [of a n] by (auto simp: lru_find_def)
  qed
qed

lemma keys_iff: "k \<in> set (keys_of c) \<longleftrightarrow> (\<exists>a n. (a, n) \<in> set (lr_list c) \<and> nd_key n = k)"
  by (force simp: keys_of_def)

lemma lru_index_None: "lru_ok c \<Longrightarrow> lr_index c k = None \<longleftrightarrow> k \<notin> set (keys_of c)"
  unfolding keys_iff by (metis lru_okD(4) not_None_eq)

lemma lru_find_None: "lru_ok c \<Longrightarrow> lru_find c k = None \<longleftrightarrow> k \<notin> set (keys_of c)"
  unfolding keys_iff by (metis lru_find_Some not_None_eq)

section \<open>Operations\<close>

lemma mset_parts: "mset (filter P xs) + mset (filter (\<lambda>x. \<not> P x) xs) = mset xs"
  by (metis mset_filter multiset_partition)

lemma lru_touch_ok:
  assumes "lru_ok c"
  shows "lru_ok (lru_touch c k)" "lru_find (lru_touch c k) = lru_find c" "lr_bytes (lru_touch c k) = lr_bytes c"
    "length (lr_list (lru_touch c k)) = length (lr_list c)"
proof -
  have m: "mset (lr_list (lru_touch c k)) = mset (lr_list c)" and s: "lr_bytes (lru_touch c k) = lr_bytes c"
    "lr_index (lru_touch c k) = lr_index c" "lr_fresh (lru_touch c k) = lr_fresh c"
    by (auto simp: lru_touch_def mset_parts split: option.splits)
  have set: "set (lr_list (lru_touch c k)) = set (lr_list c)" using m by (metis set_mset_mset)
  have "distinct (map fst (lr_list (lru_touch c k))) = distinct (map fst (lr_list c))"
    "distinct (map (\<lambda>n. nd_key (snd n)) (lr_list (lru_touch c k))) = distinct (map (\<lambda>n. nd_key (snd n)) (lr_list c))"
    using m by (metis mset_eq_imp_distinct_iff mset_map)+
  moreover have "sum_list (map f (lr_list (lru_touch c k))) = sum_list (map f (lr_list c))" for f :: "_ \<Rightarrow> nat"
    using m by (metis mset_map sum_mset_sum_list)
  ultimately show ok: "lru_ok (lru_touch c k)" using assms s set by (simp add: lru_ok_def keys_of_def)
  show "lr_bytes (lru_touch c k) = lr_bytes c" by (rule s)
  show "length (lr_list (lru_touch c k)) = length (lr_list c)" using m by (metis size_mset)
  show "lru_find (lru_touch c k) = lru_find c"
  proof
    fix j
    show "lru_find (lru_touch c k) j = lru_find c j"
      using lru_find_Some [OF ok, of j] lru_find_Some [OF assms, of j] set by (metis not_Some_eq)
  qed
qed

lemma lru_pop_back_ok:
  assumes "lru_ok c" "lr_list c \<noteq> []"
  shows "lru_ok (lru_pop_back c)" "lru_find (lru_pop_back c) k = Some n \<Longrightarrow> lru_find c k = Some n"
    "length (lr_list (lru_pop_back c)) < length (lr_list c)"
proof -
  obtain a m where l: "last (lr_list c) = (a, m)" by fastforce
  define xs where "xs = butlast (lr_list c)"
  have c: "lr_list c = xs @ [(a, m)]" using assms(2) l by (simp add: xs_def flip: l)
  note D = lru_okD [OF assms(1)]
  have pop: "lru_pop_back c = c\<lparr>lr_bytes := lr_bytes c - nd_bytes m, lr_index := (lr_index c)(nd_key m := None), lr_list := xs\<rparr>"
    using l by (simp add: lru_pop_back_def xs_def)
  have key: "(b, n) \<in> set xs \<Longrightarrow> nd_key n \<noteq> nd_key m" for b n using D(2) c by (force simp: keys_of_def)
  have idx: "((lr_index c)(nd_key m := None)) k = Some b \<longleftrightarrow> (\<exists>n. (b, n) \<in> set xs \<and> nd_key n = k)" for k b
    using D(4) [of k b] key c by (auto simp: fun_upd_apply)
  have "\<forall>b \<in> fst ` set xs. b < lr_fresh c" using D(3) c by force
  then show ok: "lru_ok (lru_pop_back c)"
    unfolding lru_ok_def pop using D(1,2,5) c idx by (simp add: keys_of_def)
  show "lru_find (lru_pop_back c) k = Some n \<Longrightarrow> lru_find c k = Some n"
    unfolding lru_find_Some [OF ok] lru_find_Some [OF assms(1)] using c by (auto simp: pop)
  show "length (lr_list (lru_pop_back c)) < length (lr_list c)" using c by (simp add: pop)
qed

lemma lru_evict_ok:
  "lru_ok c \<Longrightarrow> lru_ok (lru_evict full c) \<and> (\<forall>k n. lru_find (lru_evict full c) k = Some n \<longrightarrow> lru_find c k = Some n) \<and>
     (lr_list (lru_evict full c) = [] \<or> \<not> full (lru_evict full c)) \<and> lr_bytes (lru_evict full c) \<le> lr_bytes c"
proof (induction full c rule: lru_evict.induct)
  case (1 full c)
  show ?case
  proof (cases "lr_list c \<noteq> [] \<and> full c")
    case True
    note P = lru_pop_back_ok [OF "1.prems" conjunct1 [OF True]]
    note IH = "1.IH" [OF True P(1)]
    have b: "lr_bytes (lru_pop_back c) \<le> lr_bytes c" by (simp add: lru_pop_back_def)
    define e where "e = lru_evict full (lru_pop_back c)"
    have "lru_evict full c = e" using True unfolding e_def by (simp only: lru_evict.simps [of full c] if_True not_False_eq_True simp_thms)
    moreover have "lru_find c k = Some n" if "lru_find e k = Some n" for k n
      by (rule P(2)) (use IH that e_def in blast)
    moreover have "lru_ok e" "lr_list e = [] \<or> \<not> full e" "lr_bytes e \<le> lr_bytes c"
      using IH b unfolding e_def by auto
    ultimately show ?thesis by simp
  next
    case False
    then have "lru_evict full c = c" by (simp only: lru_evict.simps [of full c] if_False)
    then show ?thesis using "1.prems" False by auto
  qed
qed

lemma lru_push_ok:
  assumes "lru_ok c" "lr_index c k = None"
  shows "lru_ok (lru_push_front c k v cost)"
    "lru_find (lru_push_front c k v cost) = (lru_find c)(k := Some \<lparr>nd_key = k, nd_value = v, nd_bytes = cost\<rparr>)"
proof -
  define e where "e = \<lparr>nd_key = k, nd_value = v, nd_bytes = cost\<rparr>"
  have e: "nd_key e = k" "nd_bytes e = cost" by (simp_all add: e_def)
  have push: "lru_push_front c k v cost = c\<lparr>lr_list := (lr_fresh c, e) # lr_list c, lr_index := (lr_index c)(k := Some (lr_fresh c)),
      lr_bytes := lr_bytes c + cost, lr_fresh := lr_fresh c + 1\<rparr>"
    using assms(2) by (simp add: lru_push_front_def e_def)
  note D = lru_okD [OF assms(1)]
  have new: "k \<notin> set (keys_of c)" using lru_index_None [OF assms(1)] assms(2) by blast
  have key: "(b, n) \<in> set (lr_list c) \<Longrightarrow> nd_key n \<noteq> k" for b n using new by (force simp: keys_of_def)
  have idx: "((lr_index c)(k := Some (lr_fresh c))) j = Some b \<longleftrightarrow> (\<exists>n. (b, n) \<in> set ((lr_fresh c, e) # lr_list c) \<and> nd_key n = j)" for j b
    using D(4) [of j b] key e by (auto simp: fun_upd_apply)
  have "lr_fresh c \<notin> fst ` set (lr_list c)" using D(3) by fastforce
  then show ok: "lru_ok (lru_push_front c k v cost)"
    unfolding lru_ok_def push using D(1,2,5) idx new e D(3) by (auto simp: keys_of_def less_Suc_eq)
  show "lru_find (lru_push_front c k v cost) = (lru_find c)(k := Some \<lparr>nd_key = k, nd_value = v, nd_bytes = cost\<rparr>)"
  proof
    fix j
    have "lru_find (lru_push_front c k v cost) j = Some n \<longleftrightarrow> ((lru_find c)(k := Some e)) j = Some n" for n
      unfolding lru_find_Some [OF ok] fun_upd_apply using lru_find_Some [OF assms(1), of j n] key e by (auto simp: push)
    then show "lru_find (lru_push_front c k v cost) j = ((lru_find c)(k := Some \<lparr>nd_key = k, nd_value = v, nd_bytes = cost\<rparr>)) j"
      by (metis e_def not_Some_eq)
  qed
qed

section \<open>Storing\<close>

text \<open>\<open>index_.count(id)\<close>, the eviction loop and the insertion, the steps every cache's store shares.\<close>

definition lru_store :: "(('k, 'v) lru \<Rightarrow> bool) \<Rightarrow> ('k, 'v) lru \<Rightarrow> 'k \<Rightarrow> 'v \<Rightarrow> nat \<Rightarrow> ('k, 'v) lru \<times> bool" where
  "lru_store full c k v cost =
     (if lr_index c k \<noteq> None then (c, False) else (lru_push_front (lru_evict full c) k v cost, True))"

text \<open>The value an entry holds.\<close>

definition lru_value :: "('k, 'v) lru \<Rightarrow> 'k \<Rightarrow> 'v option" where
  "lru_value c k = map_option nd_value (lru_find c k)"

lemma lru_store_ok:
  assumes "lru_ok c" "lru_store full c k v cost = (c', stored)"
  shows "lru_ok c'" "stored \<longleftrightarrow> lru_value c k = None" "\<not> stored \<Longrightarrow> c' = c"
    "stored \<Longrightarrow> lru_value c' k = Some v" "j \<noteq> k \<Longrightarrow> lru_value c' j = Some x \<Longrightarrow> lru_value c j = Some x"
    "stored \<Longrightarrow> \<exists>e. c' = lru_push_front e k v cost \<and> (lr_list e = [] \<or> \<not> full e) \<and> lru_ok e \<and> lr_bytes e \<le> lr_bytes c"
proof -
  define e where "e = lru_evict full c"
  note E = lru_evict_ok [OF assms(1), of full, folded e_def]
  have none: "lr_index c k = None \<longleftrightarrow> lru_value c k = None"
    using lru_index_None [OF assms(1)] lru_find_None [OF assms(1)] by (simp add: lru_value_def)
  show s: "stored \<longleftrightarrow> lru_value c k = None" "\<not> stored \<Longrightarrow> c' = c"
    using assms(2) none by (auto simp: lru_store_def split: if_splits)
  have push: "c' = lru_push_front e k v cost" if stored using assms(2) that by (auto simp: lru_store_def e_def split: if_splits)
  have idx: "lr_index e k = None" if stored
  proof -
    have "lru_find c k = None" using that s by (simp add: lru_value_def)
    then have "lru_find e k = None" using E by (metis not_None_eq)
    then show ?thesis using E lru_index_None lru_find_None by metis
  qed
  show "lru_ok c'"
  proof (cases stored)
    case True
    then show ?thesis using push idx lru_push_ok(1) [of e k] E by blast
  qed (use s assms(1) in simp)
  show "stored \<Longrightarrow> lru_value c' k = Some v"
    using push idx lru_push_ok(2) [of e k v cost] E by (simp add: lru_value_def)
  show "j \<noteq> k \<Longrightarrow> lru_value c' j = Some x \<Longrightarrow> lru_value c j = Some x"
  proof (cases stored)
    case True
    assume j: "j \<noteq> k" "lru_value c' j = Some x"
    then obtain n where n: "lru_find e j = Some n" "nd_value n = x"
      using push [OF True] idx [OF True] lru_push_ok(2) [of e k v cost] E by (auto simp: lru_value_def)
    then have "lru_find c j = Some n" using E by blast
    then show ?thesis using n by (simp add: lru_value_def)
  qed (use s in simp)
  show "stored \<Longrightarrow> \<exists>e. c' = lru_push_front e k v cost \<and> (lr_list e = [] \<or> \<not> full e) \<and> lru_ok e \<and> lr_bytes e \<le> lr_bytes c"
    using push E by blast
qed

lemma lru_bytes_empty: "lru_ok c \<Longrightarrow> lr_list c = [] \<Longrightarrow> lr_bytes c = 0"
  by (simp add: lru_ok_def)

text \<open>The eviction conditions of the caches keep the accounted bytes and the number of entries in their limits.\<close>

lemma lru_store_bounded:
  assumes "lru_ok c" "lru_store full c k v cost = (c', stored)" "lr_bytes c \<le> limit" "cost \<le> limit"
    and "\<And>l. limit - cost < lr_bytes l \<Longrightarrow> full l"
  shows "lr_bytes c' \<le> limit"
proof (cases stored)
  case True
  then obtain e where e: "c' = lru_push_front e k v cost" "lr_list e = [] \<or> \<not> full e" "lru_ok e"
    using lru_store_ok(6) [OF assms(1,2)] by blast
  have "lr_bytes e \<le> limit - cost"
  proof (rule ccontr)
    assume n: "\<not> lr_bytes e \<le> limit - cost"
    then have "full e" by (intro assms(5)) simp
    then show False using e(2) lru_bytes_empty [OF e(3)] n by simp
  qed
  then show ?thesis using e(1) assms(4) by (simp add: lru_push_front_def)
next
  case False
  then show ?thesis using lru_store_ok(3) [OF assms(1,2)] assms(3) by simp
qed

lemma lru_store_entries:
  assumes "lru_ok c" "lru_store full c k v cost = (c', stored)" "length (lr_list c) \<le> n" "0 < n"
    and "\<And>l. n \<le> length (lr_list l) \<Longrightarrow> full l"
  shows "length (lr_list c') \<le> n"
proof (cases stored)
  case True
  then obtain e where e: "c' = lru_push_front e k v cost" "lr_list e = [] \<or> \<not> full e"
    using lru_store_ok(6) [OF assms(1,2)] by blast
  have "length (lr_list e) < n"
  proof (rule ccontr)
    assume n: "\<not> length (lr_list e) < n"
    then have "full e" by (intro assms(5)) simp
    then show False using e(2) assms(4) n by simp
  qed
  then show ?thesis using e(1) by (simp add: lru_push_front_def)
next
  case False
  then show ?thesis using lru_store_ok(3) [OF assms(1,2)] assms(3) by simp
qed

text \<open>
  The store of a cache bounded in bytes and in entries, the same lines in
  \<open>MessagePrefixCache::store\<close> and \<open>PreparedMessageCache::store\<close>.
\<close>

definition lru_store_limited :: "nat \<Rightarrow> nat \<Rightarrow> ('k, 'v) lru \<Rightarrow> 'k \<Rightarrow> 'v \<Rightarrow> nat \<Rightarrow> ('k, 'v) lru \<times> bool" where
  "lru_store_limited bytes entries c k v cost =
     (if entries = 0 \<or> bytes < cost then (c, False)
      else lru_store (\<lambda>l. entries \<le> length (lr_list l) \<or> bytes - cost < lr_bytes l) c k v cost)"

definition lru_limited :: "nat \<Rightarrow> nat \<Rightarrow> ('k, 'v) lru \<Rightarrow> bool" where
  "lru_limited bytes entries c \<longleftrightarrow> lru_ok c \<and> lr_bytes c \<le> bytes \<and> length (lr_list c) \<le> entries"

lemma lru_store_limited_cases:
  assumes "lru_limited B E c" "lru_store_limited B E c k v cost = (c', b)"
  shows "lru_limited B E c'" "b \<Longrightarrow> lru_value c' k = Some v" "\<not> b \<Longrightarrow> c' = c" "lru_value c k \<noteq> None \<Longrightarrow> \<not> b"
    "j \<noteq> k \<Longrightarrow> lru_value c' j = Some x \<Longrightarrow> lru_value c j = Some x"
proof -
  define full where "full = (\<lambda>l :: ('a, 'b) lru. E \<le> length (lr_list l) \<or> B - cost < lr_bytes l)"
  have ok: "lru_ok c" "lr_bytes c \<le> B" "length (lr_list c) \<le> E" using assms(1) by (simp_all add: lru_limited_def)
  have split: "c' = c \<and> \<not> b \<or> lru_store full c k v cost = (c', b) \<and> cost \<le> B \<and> 0 < E"
    using assms(2) by (auto simp: lru_store_limited_def full_def split: if_splits)
  show "lru_limited B E c'"
  proof (cases "c' = c")
    case False
    then have s: "lru_store full c k v cost = (c', b)" "cost \<le> B" "0 < E" using split by blast+
    show ?thesis
      using lru_store_ok(1) [OF ok(1) s(1)] lru_store_bounded [OF ok(1) s(1) ok(2) s(2)] lru_store_entries [OF ok(1) s(1) ok(3) s(3)]
      by (simp add: lru_limited_def full_def)
  qed (use assms(1) in simp)
  have s: "lru_store full c k v cost = (c', b)" if b using split that by blast
  show "b \<Longrightarrow> lru_value c' k = Some v" using lru_store_ok(4) [OF ok(1) s] by blast
  show "\<not> b \<Longrightarrow> c' = c" using split lru_store_ok(3) [OF ok(1)] by metis
  show "lru_value c k \<noteq> None \<Longrightarrow> \<not> b" by (cases b) (use lru_store_ok(2) [OF ok(1) s] in simp_all)
  show "j \<noteq> k \<Longrightarrow> lru_value c' j = Some x \<Longrightarrow> lru_value c j = Some x"
    using split lru_store_ok(5) [OF ok(1)] by metis
qed

lemma lru_touch_limited: "lru_limited B E c \<Longrightarrow> lru_limited B E (lru_touch c k) \<and> lru_value (lru_touch c k) = lru_value c"
  using lru_touch_ok [of c k] by (simp add: lru_limited_def lru_value_def fun_eq_iff)

lemma lru_limited_empty [simp]: "lru_limited B E lru_empty"
  by (simp add: lru_limited_def lru_empty_def lru_ok_def keys_of_def)

lemma lru_touch_missing: "lru_ok c \<Longrightarrow> lru_find c k = None \<Longrightarrow> lru_touch c k = c"
  using lru_index_None [of c k] lru_find_None [of c k] by (auto simp: lru_touch_def)

section \<open>What a client relies on\<close>

text \<open>
  A cache maps keys to values and may forget: an entry it has is one it was given, a key in use is
  never given another value, and the accounted size stays within the limit.
\<close>

locale value_cache =
  fixes cached :: "'c \<Rightarrow> 'k \<Rightarrow> 'v option"
    and store :: "'c \<Rightarrow> 'k \<Rightarrow> 'v \<Rightarrow> 'c \<times> bool"
    and use :: "'c \<Rightarrow> 'k \<Rightarrow> 'c"
    and weight :: "'c \<Rightarrow> nat"
    and limit :: "'c \<Rightarrow> nat"
    and ok :: "'c \<Rightarrow> bool"
  assumes store_ok: "ok c \<Longrightarrow> store c k v = (c', b) \<Longrightarrow> ok c' \<and> limit c' = limit c"
    and store_new: "ok c \<Longrightarrow> store c k v = (c', True) \<Longrightarrow> cached c' k = Some v"
    and store_immutable: "ok c \<Longrightarrow> cached c k \<noteq> None \<Longrightarrow> store c k v = (c, False)"
    and store_refused: "ok c \<Longrightarrow> store c k v = (c', False) \<Longrightarrow> c' = c"
    and store_keeps: "ok c \<Longrightarrow> store c k v = (c', b) \<Longrightarrow> j \<noteq> k \<Longrightarrow> cached c' j = Some x \<Longrightarrow> cached c j = Some x"
    and use_ok: "ok c \<Longrightarrow> ok (use c k) \<and> limit (use c k) = limit c \<and> cached (use c k) = cached c"
    and bounded: "ok c \<Longrightarrow> weight c \<le> limit c"

datatype ('k, 'v) cache_op = Store 'k 'v | Use 'k

context value_cache
begin

fun cache_step :: "'c \<Rightarrow> ('k, 'v) cache_op \<Rightarrow> 'c" where
  "cache_step c (Store k v) = fst (store c k v)"
| "cache_step c (Use k) = use c k"

definition cache_run :: "'c \<Rightarrow> ('k, 'v) cache_op list \<Rightarrow> 'c" where
  "cache_run c ops = foldl cache_step c ops"

lemma step_ok: "ok c \<Longrightarrow> ok (cache_step c p) \<and> limit (cache_step c p) = limit c"
  using store_ok use_ok by (cases p) (auto simp: prod_eq_iff)

lemma step_cached: "ok c \<Longrightarrow> cached (cache_step c p) k = Some v \<Longrightarrow> cached c k = Some v \<or> p = Store k v"
proof (cases p)
  case (Store j w)
  assume c: "ok c" "cached (cache_step c p) k = Some v"
  obtain c' b where s: "store c j w = (c', b)" by fastforce
  show ?thesis
  proof (cases "k = j")
    case True
    then show ?thesis using c s Store store_new [of c j w c'] store_refused [of c j w c'] by (cases b) auto
  next
    case False
    then show ?thesis using c s Store store_keeps by auto
  qed
qed (use use_ok in auto)

lemma run_ok: "ok c \<Longrightarrow> ok (cache_run c ops) \<and> limit (cache_run c ops) = limit c"
  unfolding cache_run_def using step_ok by (induction ops arbitrary: c) auto

lemma run_bounded: "ok c \<Longrightarrow> weight (cache_run c ops) \<le> limit c"
  using run_ok bounded by metis

text \<open>Whatever is remembered was stored: facts about stored pairs hold of remembered ones.\<close>

lemma run_cached: "ok c \<Longrightarrow> cached (cache_run c ops) k = Some v \<Longrightarrow> cached c k = Some v \<or> Store k v \<in> set ops"
  unfolding cache_run_def
proof (induction ops arbitrary: c)
  case (Cons p ops)
  then show ?case using step_ok [of c p] step_cached [of c p k v] by auto
qed simp

text \<open>
  A remembered key goes back to one acknowledged insertion, and has kept its value ever since.
\<close>

lemma run_snoc: "cache_run c (ops @ [p]) = cache_step (cache_run c ops) p"
  by (simp add: cache_run_def)

lemma run_origin:
  assumes "ok c" "cached c k = None" "cached (cache_run c ops) k = Some v"
  shows "\<exists>before after. ops = before @ Store k v # after \<and> snd (store (cache_run c before) k v) \<and>
    (\<forall>m \<le> length after. cached (cache_run c (before @ Store k v # take m after)) k = Some v)"
  using assms(3)
proof (induction ops rule: rev_induct)
  case (snoc p ops)
  have ok: "ok (cache_run c ops)" using run_ok assms(1) by blast
  note step = step_cached [OF ok, of p k v]
  show ?case
  proof (cases "cached (cache_run c ops) k = Some v")
    case True
    then obtain b a where ba: "ops = b @ Store k v # a" "snd (store (cache_run c b) k v)"
      "\<forall>m \<le> length a. cached (cache_run c (b @ Store k v # take m a)) k = Some v" using snoc.IH by blast
    have "cached (cache_run c (b @ Store k v # take m (a @ [p]))) k = Some v" if "m \<le> length (a @ [p])" for m
      using that ba snoc.prems by (cases "m = length (a @ [p])") auto
    then show ?thesis using ba by (intro exI [of _ b] exI [of _ "a @ [p]"]) simp
  next
    case False
    then have p: "p = Store k v" using step snoc.prems by (simp add: run_snoc)
    have "snd (store (cache_run c ops) k v)"
    proof (rule ccontr)
      assume "\<not> snd (store (cache_run c ops) k v)"
      then have "fst (store (cache_run c ops) k v) = cache_run c ops" by (intro store_refused [OF ok, of k v]) (simp add: prod_eq_iff)
      then show False using False p snoc.prems by (simp add: run_snoc)
    qed
    then show ?thesis using p snoc.prems by (intro exI [of _ ops] exI [of _ "[]"]) simp
  qed
qed (use assms(2) in \<open>simp add: cache_run_def\<close>)

text \<open>A remembered key is not rebound: it keeps its value until it is forgotten.\<close>

lemma step_immutable: "ok c \<Longrightarrow> cached c k = Some v \<Longrightarrow> cached (cache_step c p) k = Some w \<Longrightarrow> w = v"
proof (cases p)
  case (Store j x)
  assume c: "ok c" "cached c k = Some v" "cached (cache_step c p) k = Some w"
  show ?thesis
  proof (cases "k = j")
    case True
    then show ?thesis using c Store store_immutable [of c k x] by simp
  next
    case False
    then show ?thesis using c Store store_keeps [of c j x "fst (store c j x)" "snd (store c j x)" k w] by simp
  qed
qed (use use_ok in auto)

end

end
