(* ===== verification/Chat_Cache.thy ===== *)
theory Chat_Cache
  imports Tokenizer_Roundtrip Lru_Cache
begin

text \<open>
  \<open>ChatTokenCache\<close> (\<open>src/src/chat_token_cache.hpp\<close>): tokens of a rendered chat are remembered message by
  message. The lock is taken twice for a miss, before and after the tokenizer runs, so sections of
  other threads may come between: they are an explicit argument, \<open>busy\<close>, of every encoding.
\<close>

section \<open>Definitions\<close>

record chat_cache =
  cc_limit :: nat
  cc_enabled :: bool
  cc_lru :: "(string, int list) lru"
  cc_pieces :: "string list option"

definition chat_boundary :: string where
  "chat_boundary = ''<|im_start|>''"

definition chat_new :: "(string \<Rightarrow> int list result) \<Rightarrow> tokenizer \<Rightarrow> nat \<Rightarrow> chat_cache result" where
  "chat_new enc tk limit = (case enc chat_boundary of Inl e \<Rightarrow> Inl e
     | Inr marker \<Rightarrow> Inr \<lparr>cc_limit = limit,
         cc_enabled = (\<not> tk_add_bos tk \<and> length marker = 1 \<and> marker ! 0 = token_id tk chat_boundary),
         cc_lru = lru_empty, cc_pieces = None\<rparr>)"

text \<open>The two locked sections of \<open>append\<close>.\<close>

definition chat_lookup :: "chat_cache \<Rightarrow> string \<Rightarrow> chat_cache \<times> int list option" where
  "chat_lookup c t = (case lru_find (cc_lru c) t of None \<Rightarrow> (c, None)
     | Some n \<Rightarrow> (c\<lparr>cc_lru := lru_touch (cc_lru c) t\<rparr>, Some (nd_value n)))"

definition chat_cost :: "string \<Rightarrow> int list \<Rightarrow> nat" where
  "chat_cost t tokens = length t * 2 + length tokens * 4 + 256"

definition chat_store :: "chat_cache \<Rightarrow> string \<Rightarrow> int list \<Rightarrow> chat_cache \<times> bool" where
  "chat_store c t tokens =
     (let cost = chat_cost t tokens in
      if cc_limit c < cost then (c, False)
      else case lru_store (\<lambda>l. cc_limit c - cost < lr_bytes l) (cc_lru c) t tokens cost of
        (l, stored) \<Rightarrow> (c\<lparr>cc_lru := l\<rparr>, stored))"

text \<open>What another thread does while it holds the lock.\<close>

datatype chat_section = Lookup string | Insert string

fun run_section :: "(string \<Rightarrow> int list result) \<Rightarrow> chat_cache \<Rightarrow> chat_section \<Rightarrow> chat_cache" where
  "run_section enc c (Lookup t) = fst (chat_lookup c t)"
| "run_section enc c (Insert t) = (case enc t of Inl e \<Rightarrow> c | Inr tokens \<Rightarrow> fst (chat_store c t tokens))"

definition chat_sections :: "(string \<Rightarrow> int list result) \<Rightarrow> chat_cache \<Rightarrow> chat_section list \<Rightarrow> chat_cache" where
  "chat_sections enc = foldl (run_section enc)"

definition chat_append :: "(string \<Rightarrow> int list result) \<Rightarrow> chat_section list \<Rightarrow> chat_section list \<Rightarrow> chat_cache \<Rightarrow> string \<Rightarrow>
    int list \<Rightarrow> chat_cache \<times> int list result" where
  "chat_append enc before between c t output = (case chat_lookup (chat_sections enc c before) t of
     (c1, Some tokens) \<Rightarrow> (c1, Inr (output @ tokens))
   | (c1, None) \<Rightarrow> (case enc t of Inl e \<Rightarrow> (c1, Inl e)
       | Inr tokens \<Rightarrow> (fst (chat_store (chat_sections enc c1 between) t tokens), Inr (output @ tokens))))"

text \<open>The spans: cut before every boundary token but one at the very front.\<close>

function chat_spans :: "string \<Rightarrow> nat \<Rightarrow> string list" where
  "chat_spans s b =
     (if b < length s
      then let e = (case find_from chat_boundary s (b + 1) of None \<Rightarrow> length s | Some e \<Rightarrow> e) in
        substr s b e # chat_spans s e
      else [])"
  by pat_completeness auto

termination
proof (relation "measure (\<lambda>(s, b). length s - b)", goal_cases)
  case (2 s b e)
  then have "b < e" by (auto simp: find_from_def split: option.splits if_splits)
  then show ?case using 2 by simp
qed simp

declare chat_spans.simps [simp del]

fun append_spans :: "(string \<Rightarrow> int list result) \<Rightarrow> (nat \<Rightarrow> chat_section list) \<Rightarrow> nat \<Rightarrow> chat_cache \<Rightarrow> string list \<Rightarrow>
    int list \<Rightarrow> chat_cache \<times> int list result" where
  "append_spans enc busy i c [] output = (c, Inr output)"
| "append_spans enc busy i c (t # ts) output = (case chat_append enc (busy i) (busy (i + 1)) c t output of
     (c', Inl e) \<Rightarrow> (c', Inl e) | (c', Inr output') \<Rightarrow> append_spans enc busy (i + 2) c' ts output')"

definition chat_encode :: "(string \<Rightarrow> int list result) \<Rightarrow> (nat \<Rightarrow> chat_section list) \<Rightarrow> chat_cache \<Rightarrow> string \<Rightarrow>
    chat_cache \<times> int list result" where
  "chat_encode enc busy c s =
     (if \<not> cc_enabled c \<or> cc_limit c = 0 \<or> length s < 1024 then (c, enc s)
      else append_spans enc busy 0 c (chat_spans s 0) [])"

definition prepare_decoded_pieces :: "tokenizer \<Rightarrow> chat_cache \<Rightarrow> chat_cache" where
  "prepare_decoded_pieces tk c = (case cc_pieces c of Some ps \<Rightarrow> c
     | None \<Rightarrow> c\<lparr>cc_pieces := Some (map (decode_one tk) [0..vocab_size tk - 1])\<rparr>)"

definition chat_decode_one :: "tokenizer \<Rightarrow> chat_cache \<Rightarrow> int \<Rightarrow> chat_cache \<times> string" where
  "chat_decode_one tk c i =
     (let c' = prepare_decoded_pieces tk c; pieces = (case cc_pieces c' of Some ps \<Rightarrow> ps | None \<Rightarrow> []) in
      (c', if 0 \<le> i \<and> nat i < length pieces then pieces ! nat i else []))"

section \<open>The contract\<close>

definition chat_ok :: "chat_cache \<Rightarrow> bool" where
  "chat_ok c \<longleftrightarrow> lru_ok (cc_lru c) \<and> lr_bytes (cc_lru c) \<le> cc_limit c"

definition chat_cached :: "chat_cache \<Rightarrow> string \<Rightarrow> int list option" where
  "chat_cached c = lru_value (cc_lru c)"

definition chat_use :: "chat_cache \<Rightarrow> string \<Rightarrow> chat_cache" where
  "chat_use c t = fst (chat_lookup c t)"

lemma chat_use_ok: "chat_ok c \<Longrightarrow> chat_ok (chat_use c t) \<and> cc_limit (chat_use c t) = cc_limit c \<and> chat_cached (chat_use c t) = chat_cached c"
  using lru_touch_ok [of "cc_lru c" t]
  by (auto simp: chat_use_def chat_lookup_def chat_ok_def chat_cached_def lru_value_def fun_eq_iff split: option.splits)

lemma chat_store_cases:
  assumes "chat_ok c" "chat_store c t v = (c', b)"
  shows "chat_ok c' \<and> cc_limit c' = cc_limit c" "b \<Longrightarrow> chat_cached c' t = Some v" "\<not> b \<Longrightarrow> c' = c"
    "chat_cached c t \<noteq> None \<Longrightarrow> \<not> b" "j \<noteq> t \<Longrightarrow> chat_cached c' j = Some x \<Longrightarrow> chat_cached c j = Some x"
proof -
  obtain l s where s: "lru_store (\<lambda>l. cc_limit c - chat_cost t v < lr_bytes l) (cc_lru c) t v (chat_cost t v) = (l, s)" by fastforce
  have ok: "lru_ok (cc_lru c)" using assms(1) by (simp add: chat_ok_def)
  note S = lru_store_ok [OF ok s]
  have split: "c' = c \<and> \<not> b \<or> c' = c\<lparr>cc_lru := l\<rparr> \<and> b = s \<and> chat_cost t v \<le> cc_limit c"
    using assms(2) s by (auto simp: chat_store_def Let_def split: if_splits)
  have bytes: "lr_bytes l \<le> cc_limit c" if "chat_cost t v \<le> cc_limit c"
    by (rule lru_store_bounded [OF ok s _ that]) (use assms(1) in \<open>simp_all add: chat_ok_def\<close>)
  show "chat_ok c' \<and> cc_limit c' = cc_limit c" using split assms(1) S(1) bytes by (auto simp: chat_ok_def)
  have yes: "c' = c\<lparr>cc_lru := l\<rparr> \<and> s" if b using split that by blast
  show no: "\<not> b \<Longrightarrow> c' = c" using split S(3) by force
  show "b \<Longrightarrow> chat_cached c' t = Some v" using yes S(4) by (simp add: chat_cached_def)
  show "chat_cached c t \<noteq> None \<Longrightarrow> \<not> b" using yes S(2) by (auto simp: chat_cached_def)
  show "j \<noteq> t \<Longrightarrow> chat_cached c' j = Some x \<Longrightarrow> chat_cached c j = Some x"
    by (cases b) (use yes no S(5) [of j x] in \<open>simp_all add: chat_cached_def\<close>)
qed

interpretation chat: value_cache chat_cached chat_store chat_use "\<lambda>c. lr_bytes (cc_lru c)" cc_limit chat_ok
proof unfold_locales
  fix c c' :: chat_cache and k j :: string and v x :: "int list" and b :: bool
  assume ok: "chat_ok c"
  show "chat_store c k v = (c', b) \<Longrightarrow> chat_ok c' \<and> cc_limit c' = cc_limit c" using chat_store_cases(1) [OF ok] .
  show "chat_store c k v = (c', True) \<Longrightarrow> chat_cached c' k = Some v" using chat_store_cases(2) [OF ok] by blast
  show "chat_store c k v = (c', False) \<Longrightarrow> c' = c" using chat_store_cases(3) [OF ok] by blast
  show "chat_cached c k \<noteq> None \<Longrightarrow> chat_store c k v = (c, False)"
    using chat_store_cases(3,4) [OF ok, of k v "fst (chat_store c k v)" "snd (chat_store c k v)"] by (simp add: prod_eq_iff)
  show "chat_store c k v = (c', b) \<Longrightarrow> j \<noteq> k \<Longrightarrow> chat_cached c' j = Some x \<Longrightarrow> chat_cached c j = Some x"
    by (rule chat_store_cases(5) [OF ok])
  show "chat_ok (chat_use c k) \<and> cc_limit (chat_use c k) = cc_limit c \<and> chat_cached (chat_use c k) = chat_cached c"
    by (rule chat_use_ok [OF ok])
  show "lr_bytes (cc_lru c) \<le> cc_limit c" using ok by (simp add: chat_ok_def)
qed

section \<open>Soundness of the remembered tokens\<close>

definition chat_sound :: "(string \<Rightarrow> int list result) \<Rightarrow> chat_cache \<Rightarrow> bool" where
  "chat_sound enc c \<longleftrightarrow> chat_ok c \<and> (\<forall>t tokens. chat_cached c t = Some tokens \<longrightarrow> enc t = Inr tokens)"

lemma chat_sound_store:
  assumes "chat_sound enc c" "enc t = Inr tokens"
  shows "chat_sound enc (fst (chat_store c t tokens))"
  using chat.step_ok [of c "Store t tokens"] chat.step_cached [of c "Store t tokens"] assms
  by (auto simp: chat_sound_def)

lemma chat_sound_use: "chat_sound enc c \<Longrightarrow> chat_sound enc (fst (chat_lookup c t))"
  using chat.use_ok [of c t] by (auto simp: chat_sound_def chat_use_def)

lemma chat_sound_section: "chat_sound enc c \<Longrightarrow> chat_sound enc (run_section enc c p)"
  by (cases p) (auto intro: chat_sound_use chat_sound_store split: sum.split)

lemma chat_sound_sections: "chat_sound enc c \<Longrightarrow> chat_sound enc (chat_sections enc c ps)"
  unfolding chat_sections_def by (induction ps arbitrary: c) (auto intro: chat_sound_section)

lemma store_limit: "chat_ok c \<Longrightarrow> cc_limit (fst (chat_store c t v)) = cc_limit c"
  using chat.store_ok [of c t v "fst (chat_store c t v)" "snd (chat_store c t v)"] by simp

lemma section_limit: "chat_ok c \<Longrightarrow> cc_limit (run_section enc c p) = cc_limit c"
  using chat.use_ok [of c] store_limit by (cases p) (auto simp: chat_use_def split: sum.split)

lemma sections_limit: "chat_sound enc c \<Longrightarrow> cc_limit (chat_sections enc c ps) = cc_limit c"
  unfolding chat_sections_def
proof (induction ps arbitrary: c)
  case (Cons p ps)
  then show ?case using chat_sound_section [OF Cons.prems, of p] section_limit [of c enc p] by (simp add: chat_sound_def)
qed simp

lemma chat_append_result:
  assumes "chat_sound enc c"
  shows "snd (chat_append enc before between c t output) = both (Inr output) (enc t) \<and>
    chat_sound enc (fst (chat_append enc before between c t output)) \<and>
    cc_limit (fst (chat_append enc before between c t output)) = cc_limit c"
proof -
  define c1 where "c1 = chat_sections enc c before"
  have c1: "chat_sound enc c1" "cc_limit c1 = cc_limit c" unfolding c1_def by (rule chat_sound_sections sections_limit, rule assms)+
  have u: "chat_sound enc (fst (chat_lookup c1 t))" "cc_limit (fst (chat_lookup c1 t)) = cc_limit c"
    using chat_sound_use [OF c1(1)] chat.use_ok [of c1 t] c1 by (auto simp: chat_sound_def chat_use_def)
  show ?thesis
  proof (cases "lru_find (cc_lru c1) t")
    case None
    then have l: "chat_lookup c1 t = (c1, None)" by (simp add: chat_lookup_def)
    show ?thesis
    proof (cases "enc t")
      case (Inl e)
      then show ?thesis using l c1 by (simp add: chat_append_def c1_def [symmetric] both_def)
    next
      case (Inr tokens)
      have s: "chat_sound enc (chat_sections enc c1 between)" by (rule chat_sound_sections [OF c1(1)])
      then have "cc_limit (fst (chat_store (chat_sections enc c1 between) t tokens)) = cc_limit c"
        using store_limit sections_limit [OF c1(1)] c1(2) by (simp add: chat_sound_def)
      then show ?thesis using l Inr chat_sound_store [OF s Inr] by (simp add: chat_append_def c1_def [symmetric] both_def)
    qed
  next
    case (Some n)
    then have "enc t = Inr (nd_value n)" using c1(1) by (auto simp: chat_sound_def chat_cached_def lru_value_def)
    then show ?thesis using Some u by (simp add: chat_append_def c1_def [symmetric] chat_lookup_def both_def)
  qed
qed

fun encode_all :: "(string \<Rightarrow> int list result) \<Rightarrow> string list \<Rightarrow> int list result" where
  "encode_all enc [] = Inr []"
| "encode_all enc (t # ts) = both (enc t) (encode_all enc ts)"

lemma append_spans_result:
  "chat_sound enc c \<Longrightarrow> snd (append_spans enc busy i c ts acc) = both (Inr acc) (encode_all enc ts) \<and>
     chat_sound enc (fst (append_spans enc busy i c ts acc)) \<and> cc_limit (fst (append_spans enc busy i c ts acc)) = cc_limit c"
proof (induction ts arbitrary: i c acc)
  case Nil
  then show ?case by (simp add: both_def)
next
  case (Cons t ts)
  note A = chat_append_result [OF Cons.prems, of "busy i" "busy (i + 1)" t acc]
  obtain c' res where r: "chat_append enc (busy i) (busy (i + 1)) c t acc = (c', res)" by fastforce
  show ?case
  proof (cases res)
    case (Inl e)
    then show ?thesis using A r by (auto simp: both_def split: sum.splits)
  next
    case (Inr out)
    then show ?thesis using A r Cons.IH [of c' "i + 2" out] by (auto simp: both_def split: sum.splits)
  qed
qed

section \<open>The spans\<close>

lemma chat_spans_encode:
  assumes split: "\<And>a b. prefix chat_boundary b \<Longrightarrow> enc (a @ b) = both (enc a) (enc b)" and nil: "enc [] = Inr []"
  shows "b \<le> length s \<Longrightarrow> encode_all enc (chat_spans s b) = enc (drop b s)"
proof (induction "length s - b" arbitrary: b rule: less_induct)
  case less
  show ?case
  proof (cases "b < length s")
    case False
    then show ?thesis using nil by (simp add: chat_spans.simps)
  next
    case True
    show ?thesis
    proof (cases "find_from chat_boundary s (b + 1)")
      case None
      have "chat_spans s (length s) = []" by (simp add: chat_spans.simps)
      then have "chat_spans s b = [drop b s]" using True None by (simp add: chat_spans.simps [of s b] substr_def)
      then show ?thesis by (cases "enc (drop b s)") (simp_all add: both_def)
    next
      case (Some e)
      have e: "b < e" "e \<le> length s" "prefix chat_boundary (drop e s)"
        using Some True by (auto simp: find_from_def find_str_Some add.commute split: if_splits)
      have sp: "chat_spans s b = substr s b e # chat_spans s e" using True Some by (simp add: chat_spans.simps [of s b])
      have "encode_all enc (chat_spans s e) = enc (drop e s)" by (rule less.hyps) (use e True in simp_all)
      moreover have "substr s b e @ drop e s = drop b s" using e(1) by (intro substr_join) simp
      ultimately show ?thesis using split [OF e(3), of "substr s b e"] sp by simp
    qed
  qed
qed

text \<open>
  Claim C20. Caching is invisible: whatever other requests did before or do during the call, an encoding through
  the cache gives what the tokenizer gives for the whole text, errors included, and the accounted
  bytes stay within the limit.
\<close>

theorem chat_cache_transparent:
  assumes "tokenizer_from_gguf m = Inr tk" "\<And>w. mset (schedule w) = mset w"
    and "enc = (\<lambda>t. encode nfc u cpus schedule tk t False)" "chat_new enc tk limit = Inr c0"
  shows "snd (chat_encode enc busy (chat_sections enc c0 past) s) = enc s \<and>
    lr_bytes (cc_lru (fst (chat_encode enc busy (chat_sections enc c0 past) s))) \<le> limit"
proof -
  have ok: "tokenizer_ok tk" by (rule from_gguf_ok [OF assms(1)])
  have "set (schedule w) = set w" for w using assms(2) mset_eq_setD by blast
  note E = encode_plain [where schedule = schedule, OF ok this]
  have c0: "cc_limit c0 = limit" "cc_lru c0 = lru_empty" using assms(4) by (auto simp: chat_new_def split: sum.splits)
  have sound0: "chat_sound enc c0"
    unfolding chat_sound_def chat_ok_def chat_cached_def c0 by (simp add: lru_value_def lru_find_def) (simp add: lru_empty_def)
  define c where "c = chat_sections enc c0 past"
  have c: "chat_sound enc c" "cc_limit c = limit"
    unfolding c_def using chat_sound_sections [OF sound0] sections_limit [OF sound0] c0 by simp_all
  have enabled: "cc_enabled c = cc_enabled c0"
  proof -
    have "cc_enabled (run_section enc d p) = cc_enabled d" for d p
      by (cases p) (auto simp: chat_lookup_def chat_store_def Let_def split: option.splits sum.splits prod.splits)
    then show ?thesis unfolding c_def chat_sections_def by (induction past arbitrary: c0) auto
  qed
  show ?thesis
  proof (cases "\<not> cc_enabled c \<or> cc_limit c = 0 \<or> length s < 1024")
    case True
    then have "chat_encode enc busy c s = (c, enc s)" by (simp add: chat_encode_def)
    then show ?thesis using c by (simp add: c_def [symmetric] chat_sound_def chat_ok_def)
  next
    case False
    then have en: "cc_enabled c0" using enabled by simp
    obtain marker where mk: "enc chat_boundary = Inr marker" using assms(4) by (auto simp: chat_new_def split: sum.splits)
    then have mk2: "\<not> tk_add_bos tk" "length marker = 1" "marker ! 0 = token_id tk chat_boundary"
      using en assms(4) by (auto simp: chat_new_def)
    have front: "front tk False = []" using mk2 by (simp add: front_def)
    have enc: "enc t = plain_encode (encode_regular_chunk nfc u tk) tk t" for t
      unfolding assms(3) E front by (cases "plain_encode (encode_regular_chunk nfc u tk) tk t") (simp_all add: both_def)
    have "\<forall>i \<in> set marker. 0 \<le> i" using mk in_vocab_plain [OF ok, of "encode_regular_chunk nfc u tk"] chunk_in_vocab [OF ok]
      unfolding enc by fastforce
    moreover have "marker ! 0 \<in> set marker" using mk2(2) by (intro nth_mem) simp
    ultimately have "0 \<le> marker ! 0" by blast
    then have "tk_ids tk chat_boundary \<noteq> None" using mk2(3) by (auto simp: token_id_def split: option.splits)
    then have at: "special_at tk b 0 \<noteq> None" if "prefix chat_boundary b" for b
      using special_at_front [OF ok, of chat_boundary b] that by (simp add: chat_boundary_def special_candidates_def)
    have hd: "hd b = CHR ''<''" if "prefix chat_boundary b" for b using that by (auto simp: chat_boundary_def prefix_def)
    have "enc (a @ b) = both (enc a) (enc b)" if "prefix chat_boundary b" for a b
      unfolding enc by (rule plain_encode_split [OF ok at [OF that] hd [OF that]])
    moreover have "enc [] = Inr []" unfolding enc by (simp add: plain_encode_def segments_from.simps all_segments_def)
    ultimately have "encode_all enc (chat_spans s 0) = enc s" using chat_spans_encode [of enc 0 s] by simp
    moreover have "chat_encode enc busy c s = append_spans enc busy 0 c (chat_spans s 0) []" using False by (simp add: chat_encode_def)
    ultimately show ?thesis using append_spans_result [OF c(1), of busy 0 "chat_spans s 0" "[]"] c(2)
      by (cases "enc s") (auto simp: c_def [symmetric] both_def chat_sound_def chat_ok_def)
  qed
qed

definition ex_encode :: "string \<Rightarrow> int list result" where
  "ex_encode = (\<lambda>t. encode (\<lambda>_. None) ex_unicode 4 rev ex_tokenizer t False)"

definition ex_chat :: chat_cache where
  "ex_chat = projr (chat_new ex_encode ex_tokenizer 65536)"

lemma chat_cache_transparent_witness:
  "snd (chat_encode ex_encode (\<lambda>i. [Insert ''<|im_start|>hi'', Lookup ''x''])
     (chat_sections ex_encode ex_chat [Insert ''<|im_start|>hi'']) (concat (replicate 100 ''<|im_start|>hi''))) =
     ex_encode (concat (replicate 100 ''<|im_start|>hi''))"
proof -
  have "list_all (\<lambda>c. byte c < 128) chat_boundary" by (simp add: chat_boundary_def byte_def of_char_def)
  from ascii_encodes [OF this, of 4] have "chat_new ex_encode ex_tokenizer 65536 = Inr ex_chat"
    by (auto simp: ex_chat_def chat_new_def ex_encode_def)
  from chat_cache_transparent [OF ex_tokenizer_built _ ex_encode_def this] show ?thesis by simp
qed

text \<open>The table of decoded pieces agrees with decoding.\<close>

lemma chat_decode_one_eq:
  assumes "cc_pieces c = None \<or> cc_pieces c = Some (map (decode_one tk) [0..vocab_size tk - 1])"
  shows "snd (chat_decode_one tk c i) = decode_one tk i"
proof -
  have "cc_pieces (prepare_decoded_pieces tk c) = Some (map (decode_one tk) [0..vocab_size tk - 1])"
    using assms by (auto simp: prepare_decoded_pieces_def)
  then show ?thesis by (auto simp: chat_decode_one_def Let_def decode_one_def vocab_size_def nth_upto)
qed

end
