(* ===== verification/Message_Cache.thy ===== *)
theory Message_Cache
  imports Lru_Cache
begin

text \<open>
  The two caches of request messages: \<open>MessagePrefixCache\<close> (\<open>src/src/message_prefix_cache.hpp\<close>), which
  lets a client send a handle and a suffix instead of its whole history, and
  \<open>PreparedMessageCache\<close> (\<open>src/src/prepared_message_cache.hpp\<close>), which remembers prepared messages and
  finds the longest known prefix of a history. Every operation is one locked section.
\<close>

section \<open>JSON values\<close>

datatype json = JNull | JBool bool | JNumber int | JString string | JArray "json list" | JObject "(string \<times> json) list"

fun is_array :: "json \<Rightarrow> bool" where
  "is_array (JArray js) = True"
| "is_array _ = False"

fun elements :: "json \<Rightarrow> json list" where
  "elements (JArray js) = js"
| "elements _ = []"

fun json_bytes :: "json \<Rightarrow> nat" where
  "json_bytes (JString s) = 256 + length s"
| "json_bytes (JArray js) = 256 + sum_list (map json_bytes js)"
| "json_bytes (JObject kvs) = 256 + sum_list (map (\<lambda>kv. length (fst kv) + 128 + json_bytes (snd kv)) kvs)"
| "json_bytes _ = 256"

section \<open>The message cache\<close>

record message_cache =
  mc_byte_limit :: nat
  mc_entry_limit :: nat
  mc_lru :: "(string, json) lru"

datatype restore = Ok | Missing | Invalid

definition mc_new :: "nat \<Rightarrow> nat \<Rightarrow> message_cache" where
  "mc_new bytes entries = \<lparr>mc_byte_limit = bytes, mc_entry_limit = entries, mc_lru = lru_empty\<rparr>"

text \<open>\<open>messages\<close> is an output parameter: it is returned, unchanged unless the result is \<open>Ok\<close>.\<close>

definition mc_restore :: "message_cache \<Rightarrow> string \<Rightarrow> nat \<Rightarrow> json \<Rightarrow> json \<Rightarrow> message_cache \<times> json \<times> restore" where
  "mc_restore c h n suffix messages =
     (if \<not> is_array suffix then (c, messages, Invalid)
      else case lru_find (mc_lru c) h of None \<Rightarrow> (c, messages, Missing)
      | Some e \<Rightarrow>
        if length (elements (nd_value e)) < n then (c, messages, Invalid)
        else (c\<lparr>mc_lru := lru_touch (mc_lru c) h\<rparr>, JArray (take n (elements (nd_value e)) @ elements suffix), Ok))"

definition mc_store :: "message_cache \<Rightarrow> string \<Rightarrow> json \<Rightarrow> message_cache \<times> bool" where
  "mc_store c h messages =
     (if \<not> is_array messages then (c, False)
      else case lru_store_limited (mc_byte_limit c) (mc_entry_limit c) (mc_lru c) h messages (json_bytes messages + length h * 2 + 256)
        of (l, stored) \<Rightarrow> (c\<lparr>mc_lru := l\<rparr>, stored))"

definition mc_accounted_bytes :: "message_cache \<Rightarrow> nat" where
  "mc_accounted_bytes c = lr_bytes (mc_lru c)"

section \<open>The contract of the message cache\<close>

definition mc_ok :: "message_cache \<Rightarrow> bool" where
  "mc_ok c \<longleftrightarrow> lru_limited (mc_byte_limit c) (mc_entry_limit c) (mc_lru c)"

definition mc_cached :: "message_cache \<Rightarrow> string \<Rightarrow> json option" where
  "mc_cached c = lru_value (mc_lru c)"

definition mc_use :: "message_cache \<Rightarrow> string \<Rightarrow> message_cache" where
  "mc_use c h = c\<lparr>mc_lru := lru_touch (mc_lru c) h\<rparr>"

lemma mc_use_ok: "mc_ok c \<Longrightarrow> mc_ok (mc_use c h) \<and> mc_byte_limit (mc_use c h) = mc_byte_limit c \<and> mc_cached (mc_use c h) = mc_cached c"
  using lru_touch_limited by (simp add: mc_use_def mc_ok_def mc_cached_def)

lemma mc_store_cases:
  assumes "mc_ok c" "mc_store c h v = (c', b)"
  shows "mc_ok c' \<and> mc_byte_limit c' = mc_byte_limit c \<and> mc_entry_limit c' = mc_entry_limit c"
    "b \<Longrightarrow> mc_cached c' h = Some v \<and> is_array v" "\<not> b \<Longrightarrow> c' = c"
    "mc_cached c h \<noteq> None \<Longrightarrow> \<not> b" "j \<noteq> h \<Longrightarrow> mc_cached c' j = Some x \<Longrightarrow> mc_cached c j = Some x"
proof -
  obtain l s where s: "lru_store_limited (mc_byte_limit c) (mc_entry_limit c) (mc_lru c) h v (json_bytes v + length h * 2 + 256) = (l, s)"
    by fastforce
  note S = lru_store_limited_cases [OF assms(1) [unfolded mc_ok_def] s]
  have split: "c' = c \<and> \<not> b \<or> c' = c\<lparr>mc_lru := l\<rparr> \<and> b = s \<and> is_array v"
    using assms(2) s by (auto simp: mc_store_def split: if_splits)
  show "mc_ok c' \<and> mc_byte_limit c' = mc_byte_limit c \<and> mc_entry_limit c' = mc_entry_limit c"
    using split assms(1) S(1) by (auto simp: mc_ok_def)
  show "b \<Longrightarrow> mc_cached c' h = Some v \<and> is_array v" using split S(2) by (auto simp: mc_cached_def)
  show "\<not> b \<Longrightarrow> c' = c" using split S(3) by force
  show "mc_cached c h \<noteq> None \<Longrightarrow> \<not> b" using split S(4) by (auto simp: mc_cached_def)
  show "j \<noteq> h \<Longrightarrow> mc_cached c' j = Some x \<Longrightarrow> mc_cached c j = Some x"
    using split S(5) [of j x] by (auto simp: mc_cached_def)
qed

interpretation mc: value_cache mc_cached mc_store mc_use mc_accounted_bytes mc_byte_limit mc_ok
proof unfold_locales
  fix c c' :: message_cache and k j :: string and v x :: json and b :: bool
  assume ok: "mc_ok c"
  show "mc_store c k v = (c', b) \<Longrightarrow> mc_ok c' \<and> mc_byte_limit c' = mc_byte_limit c" using mc_store_cases(1) [OF ok] by blast
  show "mc_store c k v = (c', True) \<Longrightarrow> mc_cached c' k = Some v" using mc_store_cases(2) [OF ok] by blast
  show "mc_store c k v = (c', False) \<Longrightarrow> c' = c" using mc_store_cases(3) [OF ok] by blast
  show "mc_cached c k \<noteq> None \<Longrightarrow> mc_store c k v = (c, False)"
    using mc_store_cases(3,4) [OF ok, of k v "fst (mc_store c k v)" "snd (mc_store c k v)"] by (simp add: prod_eq_iff)
  show "mc_store c k v = (c', b) \<Longrightarrow> j \<noteq> k \<Longrightarrow> mc_cached c' j = Some x \<Longrightarrow> mc_cached c j = Some x"
    by (rule mc_store_cases(5) [OF ok])
  show "mc_ok (mc_use c k) \<and> mc_byte_limit (mc_use c k) = mc_byte_limit c \<and> mc_cached (mc_use c k) = mc_cached c"
    by (rule mc_use_ok [OF ok])
  show "mc_accounted_bytes c \<le> mc_byte_limit c" using ok by (simp add: mc_ok_def lru_limited_def mc_accounted_bytes_def)
qed

section \<open>Runs of the message cache\<close>

datatype mc_op = McStore string json | McRestore string nat json json

fun mc_step :: "message_cache \<Rightarrow> mc_op \<Rightarrow> message_cache" where
  "mc_step c (McStore h v) = fst (mc_store c h v)"
| "mc_step c (McRestore h n suffix out) = fst (mc_restore c h n suffix out)"

definition mc_run :: "message_cache \<Rightarrow> mc_op list \<Rightarrow> message_cache" where
  "mc_run c ops = foldl mc_step c ops"

text \<open>A restore is a use of its handle when it answers \<open>Ok\<close>, and otherwise a use of no retained handle.\<close>

lemma mc_new_ok: "mc_ok (mc_new B E)"
  by (simp add: mc_new_def mc_ok_def)

lemma mc_restore_cases:
  assumes "mc_restore c h n suffix out = (c', m, r)"
  shows "r = Ok \<Longrightarrow> \<exists>js. mc_cached c h = Some js \<and> n \<le> length (elements js) \<and> is_array suffix \<and>
      m = JArray (take n (elements js) @ elements suffix) \<and> c' = mc_use c h"
    "r \<noteq> Ok \<Longrightarrow> c' = c \<and> m = out"
  using assms by (auto simp: mc_restore_def mc_cached_def mc_use_def lru_value_def split: if_splits option.splits)

lemma mc_step_ok: "mc_ok c \<Longrightarrow> mc_ok (mc_step c p) \<and> mc_byte_limit (mc_step c p) = mc_byte_limit c \<and> mc_entry_limit (mc_step c p) = mc_entry_limit c"
proof (cases p)
  case (McStore h v)
  assume "mc_ok c"
  then show ?thesis using McStore mc_store_cases(1) [of c h v "fst (mc_store c h v)" "snd (mc_store c h v)"] by simp
next
  case (McRestore h n s out)
  assume ok: "mc_ok c"
  obtain c' m r where r: "mc_restore c h n s out = (c', m, r)" by (metis prod_cases3)
  show ?thesis
  proof (cases "r = Ok")
    case True
    then show ?thesis using mc_restore_cases(1) [OF r] mc_use_ok [OF ok, of h] McRestore r by (auto simp: mc_use_def)
  qed (use mc_restore_cases(2) [OF r] McRestore r ok in simp)
qed

lemma mc_run_ok: "mc_ok c \<Longrightarrow> mc_ok (mc_run c ops) \<and> mc_byte_limit (mc_run c ops) = mc_byte_limit c \<and> mc_entry_limit (mc_run c ops) = mc_entry_limit c"
  unfolding mc_run_def using mc_step_ok by (induction ops arbitrary: c) auto

text \<open>The run as the library sees it: a restore that answers \<open>Ok\<close> uses its handle, any other does nothing.\<close>

fun mc_ops :: "message_cache \<Rightarrow> mc_op list \<Rightarrow> (string, json) cache_op list" where
  "mc_ops c [] = []"
| "mc_ops c (McStore h v # ops) = Store h v # mc_ops (mc_step c (McStore h v)) ops"
| "mc_ops c (McRestore h n s out # ops) =
     (if snd (snd (mc_restore c h n s out)) = Ok then [Use h] else []) @ mc_ops (mc_step c (McRestore h n s out)) ops"

lemma mc_ops_append: "mc_ops c (xs @ ys) = mc_ops c xs @ mc_ops (mc_run c xs) ys"
  by (induction c xs rule: mc_ops.induct) (simp_all add: mc_run_def)

lemma mc_run_ops: "mc_run c ops = mc.cache_run c (mc_ops c ops)"
proof (induction c ops rule: mc_ops.induct)
  case (3 c h n s out ops)
  obtain c' m r where r: "mc_restore c h n s out = (c', m, r)" by (metis prod_cases3)
  have "c' = (if r = Ok then mc_use c h else c)" using mc_restore_cases [OF r] by auto
  then show ?case using 3 r by (simp add: mc_run_def mc.cache_run_def)
qed (simp_all add: mc_run_def mc.cache_run_def)

lemma mc_ops_split:
  assumes "mc_ops c ops = xs @ Store h v # ys"
  shows "\<exists>before after. ops = before @ McStore h v # after \<and> mc_ops c before = xs \<and> mc_ops (mc_run c (before @ [McStore h v])) after = ys"
  using assms
proof (induction c ops arbitrary: xs rule: mc_ops.induct)
  case (2 c h' v' ops)
  show ?case
  proof (cases xs)
    case Nil
    then show ?thesis using "2.prems" by (rule_tac x = "[]" in exI, rule_tac x = ops in exI) (simp add: mc_run_def)
  next
    case (Cons x xs')
    then have "mc_ops (mc_step c (McStore h' v')) ops = xs' @ Store h v # ys" using "2.prems" by simp
    then obtain b a where "ops = b @ McStore h v # a" "mc_ops (mc_step c (McStore h' v')) b = xs'"
      "mc_ops (mc_run (mc_step c (McStore h' v')) (b @ [McStore h v])) a = ys" using "2.IH" by blast
    then show ?thesis using Cons "2.prems" by (rule_tac x = "McStore h' v' # b" in exI, rule_tac x = a in exI) (simp add: mc_run_def)
  qed
next
  case (3 c h' n s out ops)
  define u where "u = (if snd (snd (mc_restore c h' n s out)) = Ok then [Use h'] else [] :: (string, json) cache_op list)"
  obtain xs' where xs: "xs = u @ xs'" "mc_ops (mc_step c (McRestore h' n s out)) ops = xs' @ Store h v # ys"
    using "3.prems" by (cases xs) (auto simp: u_def split: if_splits)
  then obtain b a where "ops = b @ McStore h v # a" "mc_ops (mc_step c (McRestore h' n s out)) b = xs'"
    "mc_ops (mc_run (mc_step c (McRestore h' n s out)) (b @ [McStore h v])) a = ys" using "3.IH" by blast
  then show ?case using xs by (rule_tac x = "McRestore h' n s out # b" in exI, rule_tac x = a in exI) (simp add: mc_run_def u_def)
qed simp

section \<open>What a client gets back\<close>

lemma mc_cached_origin:
  assumes "mc_cached (mc_run (mc_new B E) ops) h = Some v"
  shows "\<exists>before after. ops = before @ McStore h v # after \<and> snd (mc_store (mc_run (mc_new B E) before) h v) \<and>
    (\<forall>m \<le> length after. mc_cached (mc_run (mc_new B E) (before @ McStore h v # take m after)) h = Some v)"
proof -
  define c0 where "c0 = mc_new B E"
  have "mc_cached c0 h = None" by (simp add: c0_def mc_cached_def mc_new_def lru_value_def lru_find_def lru_empty_def)
  then obtain xs ys where s: "mc_ops c0 ops = xs @ Store h v # ys" "snd (mc_store (mc.cache_run c0 xs) h v)"
    "\<forall>m \<le> length ys. mc_cached (mc.cache_run c0 (xs @ Store h v # take m ys)) h = Some v"
    using mc.run_origin [OF mc_new_ok, of B E h "mc_ops c0 ops" v] assms by (auto simp: mc_run_ops c0_def)
  then obtain before after where ba: "ops = before @ McStore h v # after" "mc_ops c0 before = xs"
    "mc_ops (mc_run c0 (before @ [McStore h v])) after = ys" using mc_ops_split by blast
  have "mc_cached (mc_run c0 (before @ McStore h v # take m after)) h = Some v" for m
  proof -
    have r: "mc_run c0 (before @ [McStore h v]) = mc_step (mc_run c0 before) (McStore h v)" by (simp add: mc_run_def)
    have "mc_ops (mc_run c0 (before @ [McStore h v])) (take m after) @ mc_ops (mc_run c0 (before @ McStore h v # take m after)) (drop m after) = ys"
      using ba(3) mc_ops_append [of "mc_run c0 (before @ [McStore h v])" "take m after" "drop m after"] by (simp add: mc_run_def)
    then obtain j where "mc_ops (mc_run c0 (before @ [McStore h v])) (take m after) = take j ys" "j \<le> length ys"
      by (metis append_eq_conv_conj length_append le_add1)
    then have "mc_ops c0 (before @ McStore h v # take m after) = xs @ Store h v # take j ys" "j \<le> length ys"
      using ba(2) r by (simp_all add: mc_ops_append)
    then show ?thesis using s(3) by (simp add: mc_run_ops)
  qed
  moreover have "snd (mc_store (mc_run c0 before) h v)" using s(2) ba(2) by (simp add: mc_run_ops)
  ultimately show ?thesis using ba(1) unfolding c0_def by blast
qed

text \<open>
  Claim C21. After any sequence of operations on a new cache: its accounted bytes and entries are within
  the limits. A restore that answers \<open>Ok\<close> gives the requested number of messages of the array that was
  acknowledged for the handle, followed by the suffix, whatever was stored or evicted in between, and the
  handle has named that same array ever since it was acknowledged; any other answer leaves
  the caller's messages and the cache as they were. A handle that is acknowledged can be restored at once.
\<close>

theorem restored_messages_exact:
  assumes "c = mc_run (mc_new B E) ops"
  shows "mc_accounted_bytes c \<le> B \<and> length (lr_list (mc_lru c)) \<le> E \<and>
    (case mc_restore c h n suffix out of
       (c', m, Ok) \<Rightarrow> (\<exists>js before after. ops = before @ McStore h (JArray js) # after \<and>
           snd (mc_store (mc_run (mc_new B E) before) h (JArray js)) \<and>
           list_all (\<lambda>i. mc_cached (mc_run (mc_new B E) (before @ McStore h (JArray js) # take i after)) h = Some (JArray js)) [0..<Suc (length after)] \<and>
           n \<le> length js \<and> m = JArray (take n js @ elements suffix))
     | (c', m, _) \<Rightarrow> c' = c \<and> m = out) \<and>
    (snd (mc_store c h v) \<longrightarrow> mc_restore (fst (mc_store c h v)) h (length (elements v)) (JArray []) out =
       (mc_use (fst (mc_store c h v)) h, v, Ok))"
proof (intro conjI impI)
  have run: "mc_ok c" "mc_byte_limit c = B" "mc_entry_limit c = E"
    using mc_run_ok [OF mc_new_ok, of B E ops] assms by (simp_all add: mc_new_def)
  then show "mc_accounted_bytes c \<le> B" "length (lr_list (mc_lru c)) \<le> E" by (simp_all add: mc_ok_def lru_limited_def mc_accounted_bytes_def)
  obtain c' m r where r: "mc_restore c h n suffix out = (c', m, r)" by (metis prod_cases3)
  note R = mc_restore_cases [OF r]
  have got: "\<exists>js before after. ops = before @ McStore h (JArray js) # after \<and>
           snd (mc_store (mc_run (mc_new B E) before) h (JArray js)) \<and>
           list_all (\<lambda>i. mc_cached (mc_run (mc_new B E) (before @ McStore h (JArray js) # take i after)) h = Some (JArray js)) [0..<Suc (length after)] \<and>
           n \<le> length js \<and> m = JArray (take n js @ elements suffix)" if r_ok: "r = Ok"
  proof -
    obtain v where v: "mc_cached c h = Some v" "n \<le> length (elements v)" "m = JArray (take n (elements v) @ elements suffix)"
      using R(1) r_ok by blast
    then obtain before after where o: "ops = before @ McStore h v # after" "snd (mc_store (mc_run (mc_new B E) before) h v)"
      "\<forall>i \<le> length after. mc_cached (mc_run (mc_new B E) (before @ McStore h v # take i after)) h = Some v"
      using mc_cached_origin [of B E ops h v] assms by blast
    have "is_array v" using o(2) by (auto simp: mc_store_def split: if_splits)
    then obtain js where "v = JArray js" by (cases v) auto
    then show ?thesis using v o by (intro exI [of _ js] exI [of _ before] exI [of _ after]) (auto simp: list_all_iff)
  qed
  show "case mc_restore c h n suffix out of
       (c', m, Ok) \<Rightarrow> (\<exists>js before after. ops = before @ McStore h (JArray js) # after \<and>
           snd (mc_store (mc_run (mc_new B E) before) h (JArray js)) \<and>
           list_all (\<lambda>i. mc_cached (mc_run (mc_new B E) (before @ McStore h (JArray js) # take i after)) h = Some (JArray js)) [0..<Suc (length after)] \<and>
           n \<le> length js \<and> m = JArray (take n js @ elements suffix))
     | (c', m, _) \<Rightarrow> c' = c \<and> m = out"
    unfolding r using got R(2) by (cases r) simp_all
  show "mc_restore (fst (mc_store c h v)) h (length (elements v)) (JArray []) out = (mc_use (fst (mc_store c h v)) h, v, Ok)"
    if "snd (mc_store c h v)"
  proof -
    have "mc_cached (fst (mc_store c h v)) h = Some v" "is_array v"
      using mc_store_cases(2) [OF run(1), of h v "fst (mc_store c h v)" True] that by (simp_all add: prod_eq_iff)
    then show ?thesis by (cases v) (auto simp: mc_restore_def mc_use_def mc_cached_def lru_value_def)
  qed
qed

theorem restored_messages_exact_witness:
  "\<exists>c. mc_accounted_bytes c \<le> 2000 \<and> snd (snd (mc_restore c ''a'' 1 (JArray [JNull]) JNull)) = Ok \<and>
     fst (snd (mc_restore c ''a'' 1 (JArray [JNull]) JNull)) = JArray [JBool True, JNull] \<and> length (lr_list (mc_lru c)) \<le> 2"
proof -
  define c where "c = mc_run (mc_new 2000 2) [McStore ''a'' (JArray [JBool True, JString ''x'']), McStore ''a'' (JArray [])]"
  have "snd (mc_restore c ''a'' 1 (JArray [JNull]) JNull) = (JArray [JBool True, JNull], Ok)"
    by (simp add: c_def mc_run_def mc_new_def mc_store_def mc_restore_def lru_store_limited_def lru_store_def lru_empty_def lru_evict.simps lru_push_front_def
        lru_find_def Let_def)
  then show ?thesis
    using restored_messages_exact [of c 2000 2 "[McStore ''a'' (JArray [JBool True, JString ''x'']), McStore ''a'' (JArray [])]" "''a''" 1 "JArray [JNull]" JNull JNull]
    by (intro exI [of _ c]) (simp add: c_def)
qed

end
