(* ===== verification/Prepared_Cache.thy ===== *)
theory Prepared_Cache
  imports Message_Cache
begin

text \<open>
  \<open>PreparedMessageCache\<close> (\<open>src/src/prepared_message_cache.hpp\<close>): prepared messages kept on the CPU, found
  again by handle or by the longest prefix of a history they agree with. \<open>sizeof\<close> of the C++
  types is a parameter, a vector or string is its elements with its capacity, and the equality of JSON values
  that \<open>match_prefix\<close> uses (the JSON library's) is a parameter. Shared pointers to constants are their values.
\<close>

section \<open>Prepared messages and entries\<close>

record sizes =
  sz_entry :: nat
  sz_pointer :: nat
  sz_message :: nat
  sz_image :: nat
  sz_grid :: nat
  sz_mapping :: nat
  sz_position :: nat
  sz_span :: nat
  sz_native :: nat
  sz_string :: nat

type_synonym 'a vec = "'a list \<times> nat"

abbreviation items :: "'a vec \<Rightarrow> 'a list" where "items \<equiv> fst"
abbreviation capacity :: "'a vec \<Rightarrow> nat" where "capacity \<equiv> snd"

type_synonym grid = "nat \<times> nat \<times> nat"

record image_source =
  img_media_type :: string
  img_base64 :: string

record prepared_message =
  pm_raw :: json
  pm_rendered :: json
  pm_images :: "image_source list"
  pm_grids :: "grid list"
  pm_hash_state :: nat
  pm_bytes :: nat

definition account :: "sizes \<Rightarrow> prepared_message \<Rightarrow> prepared_message" where
  "account sz m = m\<lparr>pm_bytes := sz_message sz + json_bytes (pm_raw m) + json_bytes (pm_rendered m) +
     sum_list (map (\<lambda>i. sz_image sz + length (img_media_type i) + length (img_base64 i) + sz_grid sz + 64) (pm_images m))\<rparr>"

record token_mapping =
  vm_raw_tokens :: "int vec"
  vm_mapped_tokens :: "int vec"
  vm_positions :: "(nat \<times> nat \<times> nat) vec"
  vm_row_identities :: "nat vec"
  vm_spans :: "(nat \<times> nat) vec"
  vm_images :: "image_source vec"
  vm_grids :: "grid vec"

definition mapping_bytes :: "sizes \<Rightarrow> token_mapping \<Rightarrow> nat" where
  "mapping_bytes sz m = sz_mapping sz + (capacity (vm_raw_tokens m) + capacity (vm_mapped_tokens m)) * 4 +
     capacity (vm_positions m) * sz_position sz + capacity (vm_row_identities m) * 8 +
     capacity (vm_spans m) * sz_span sz + capacity (vm_images m) * sz_pointer sz + capacity (vm_grids m) * sz_grid sz"

text \<open>\<open>NativeMessageSnapshot\<close> (\<open>src/src/native_request_json.hpp\<close>).\<close>

record native_snapshot =
  ns_messages :: "char vec vec"
  ns_converted_counts :: "nat vec"
  ns_system_count :: nat

definition native_bytes :: "sizes \<Rightarrow> native_snapshot \<Rightarrow> nat" where
  "native_bytes sz n = sz_native sz + capacity (ns_messages n) * sz_pointer sz + capacity (ns_converted_counts n) * 8 +
     sum_list (map (\<lambda>m. sz_string sz + capacity m + 64) (items (ns_messages n)))"

record prepared_entry =
  pe_messages :: "prepared_message vec"
  pe_mapping :: "token_mapping option"
  pe_native :: "native_snapshot option"

section \<open>The cache\<close>

record prepared_cache =
  pc_byte_limit :: nat
  pc_entry_limit :: nat
  pc_lru :: "(string, prepared_entry) lru"

definition pc_new :: "nat \<Rightarrow> nat \<Rightarrow> prepared_cache" where
  "pc_new bytes entries = \<lparr>pc_byte_limit = bytes, pc_entry_limit = entries, pc_lru = lru_empty\<rparr>"

definition pc_values :: "prepared_cache \<Rightarrow> prepared_entry list" where
  "pc_values c = map (\<lambda>n. nd_value (snd n)) (lr_list (pc_lru c))"

text \<open>The inner loop of \<open>match_prefix\<close>: how many leading messages agree.\<close>

fun matched_prefix :: "(json \<Rightarrow> json \<Rightarrow> bool) \<Rightarrow> json list \<Rightarrow> prepared_message list \<Rightarrow> nat" where
  "matched_prefix same (m # ms) (p # ps) = (if same m (pm_raw p) then Suc (matched_prefix same ms ps) else 0)"
| "matched_prefix same _ _ = 0"

fun match_snapshots :: "(json \<Rightarrow> json \<Rightarrow> bool) \<Rightarrow> json list \<Rightarrow> nat \<Rightarrow> prepared_entry option \<Rightarrow> prepared_entry list \<Rightarrow> prepared_entry option \<times> nat" where
  "match_snapshots same ms n best [] = (best, n)"
| "match_snapshots same ms n best (e # es) =
     (if length (items (pe_messages e)) \<le> n then match_snapshots same ms n best es
      else let matched = matched_prefix same ms (items (pe_messages e)) in
        if n < matched then match_snapshots same ms matched (Some e) es else match_snapshots same ms n best es)"

definition match_prefix :: "(json \<Rightarrow> json \<Rightarrow> bool) \<Rightarrow> prepared_cache \<Rightarrow> json list \<Rightarrow> prepared_entry option \<times> nat" where
  "match_prefix same c ms = match_snapshots same ms 0 None (pc_values c)"

definition latest_native :: "prepared_cache \<Rightarrow> prepared_entry option" where
  "latest_native c = List.find (\<lambda>e. pe_native e \<noteq> None) (pc_values c)"

definition pc_restore :: "prepared_cache \<Rightarrow> string \<Rightarrow> nat \<Rightarrow> prepared_entry option \<Rightarrow> prepared_cache \<times> prepared_entry option \<times> restore" where
  "pc_restore c h n out =
     (case lru_find (pc_lru c) h of None \<Rightarrow> (c, out, Missing)
      | Some e \<Rightarrow> if length (items (pe_messages (nd_value e))) < n then (c, out, Invalid)
          else (c\<lparr>pc_lru := lru_touch (pc_lru c) h\<rparr>, Some (nd_value e), Ok))"

definition pc_cost :: "sizes \<Rightarrow> string \<Rightarrow> prepared_entry \<Rightarrow> nat" where
  "pc_cost sz h e = sz_entry sz + length h * 2 + 256 + capacity (pe_messages e) * sz_pointer sz +
     sum_list (map pm_bytes (items (pe_messages e))) +
     (case pe_mapping e of None \<Rightarrow> 0 | Some m \<Rightarrow> mapping_bytes sz m) +
     (case pe_native e of None \<Rightarrow> 0 | Some n \<Rightarrow> native_bytes sz n)"

definition pc_store :: "sizes \<Rightarrow> prepared_cache \<Rightarrow> string \<Rightarrow> prepared_entry \<Rightarrow> prepared_cache \<times> bool" where
  "pc_store sz c h e =
     (case lru_store_limited (pc_byte_limit c) (pc_entry_limit c) (pc_lru c) h e (pc_cost sz h e)
        of (l, stored) \<Rightarrow> (c\<lparr>pc_lru := l\<rparr>, stored))"

definition pc_accounted_bytes :: "prepared_cache \<Rightarrow> nat" where
  "pc_accounted_bytes c = lr_bytes (pc_lru c)"

section \<open>The contract of the prepared cache\<close>

definition pc_ok :: "prepared_cache \<Rightarrow> bool" where
  "pc_ok c \<longleftrightarrow> lru_limited (pc_byte_limit c) (pc_entry_limit c) (pc_lru c)"

definition pc_cached :: "prepared_cache \<Rightarrow> string \<Rightarrow> prepared_entry option" where
  "pc_cached c = lru_value (pc_lru c)"

definition pc_use :: "prepared_cache \<Rightarrow> string \<Rightarrow> prepared_cache" where
  "pc_use c h = c\<lparr>pc_lru := lru_touch (pc_lru c) h\<rparr>"

lemma pc_store_cases:
  assumes "pc_ok c" "pc_store sz c h e = (c', b)"
  shows "pc_ok c' \<and> pc_byte_limit c' = pc_byte_limit c" "b \<Longrightarrow> pc_cached c' h = Some e" "\<not> b \<Longrightarrow> c' = c"
    "pc_cached c h \<noteq> None \<Longrightarrow> \<not> b" "j \<noteq> h \<Longrightarrow> pc_cached c' j = Some x \<Longrightarrow> pc_cached c j = Some x"
proof -
  obtain l s where s: "lru_store_limited (pc_byte_limit c) (pc_entry_limit c) (pc_lru c) h e (pc_cost sz h e) = (l, s)" by fastforce
  note S = lru_store_limited_cases [OF assms(1) [unfolded pc_ok_def] s]
  have c: "c' = c\<lparr>pc_lru := l\<rparr>" "b = s" using assms(2) s by (simp_all add: pc_store_def)
  show "pc_ok c' \<and> pc_byte_limit c' = pc_byte_limit c" using c S(1) by (simp add: pc_ok_def)
  show "b \<Longrightarrow> pc_cached c' h = Some e" "\<not> b \<Longrightarrow> c' = c" using c S(2,3) by (simp_all add: pc_cached_def)
  show "pc_cached c h \<noteq> None \<Longrightarrow> \<not> b" using c S(4) by (simp add: pc_cached_def)
  show "j \<noteq> h \<Longrightarrow> pc_cached c' j = Some x \<Longrightarrow> pc_cached c j = Some x" using c S(5) [of j x] by (simp add: pc_cached_def)
qed

interpretation pc: value_cache pc_cached "pc_store sz" pc_use pc_accounted_bytes pc_byte_limit pc_ok for sz
proof unfold_locales
  fix c c' :: prepared_cache and k j :: string and v x :: prepared_entry and b :: bool
  assume ok: "pc_ok c"
  show "pc_store sz c k v = (c', b) \<Longrightarrow> pc_ok c' \<and> pc_byte_limit c' = pc_byte_limit c" by (rule pc_store_cases(1) [OF ok])
  show "pc_store sz c k v = (c', True) \<Longrightarrow> pc_cached c' k = Some v" using pc_store_cases(2) [OF ok] by blast
  show "pc_store sz c k v = (c', False) \<Longrightarrow> c' = c" using pc_store_cases(3) [OF ok] by blast
  show "pc_cached c k \<noteq> None \<Longrightarrow> pc_store sz c k v = (c, False)"
    using pc_store_cases(3,4) [OF ok, of sz k v "fst (pc_store sz c k v)" "snd (pc_store sz c k v)"] by (simp add: prod_eq_iff)
  show "pc_store sz c k v = (c', b) \<Longrightarrow> j \<noteq> k \<Longrightarrow> pc_cached c' j = Some x \<Longrightarrow> pc_cached c j = Some x"
    by (rule pc_store_cases(5) [OF ok])
  show "pc_ok (pc_use c k) \<and> pc_byte_limit (pc_use c k) = pc_byte_limit c \<and> pc_cached (pc_use c k) = pc_cached c"
    using lru_touch_limited ok by (simp add: pc_use_def pc_ok_def pc_cached_def)
  show "pc_accounted_bytes c \<le> pc_byte_limit c" using ok by (simp add: pc_ok_def lru_limited_def pc_accounted_bytes_def)
qed

section \<open>The longest known prefix\<close>

lemma matched_prefix_le: "matched_prefix same ms ps \<le> length ps" "matched_prefix same ms ps \<le> length ms"
  by (induction same ms ps rule: matched_prefix.induct) auto

lemma matched_prefix_agrees: "list_all2 same (take (matched_prefix same ms ps) ms) (map pm_raw (take (matched_prefix same ms ps) ps))"
  by (induction same ms ps rule: matched_prefix.induct) auto

lemma matched_prefix_maximal:
  "n \<le> length ms \<Longrightarrow> n \<le> length ps \<Longrightarrow> list_all2 same (take n ms) (map pm_raw (take n ps)) \<Longrightarrow> n \<le> matched_prefix same ms ps"
proof (induction same ms ps arbitrary: n rule: matched_prefix.induct)
  case (1 same m ms p ps)
  then show ?case by (cases n) auto
qed auto

lemma match_snapshots_spec:
  assumes "match_snapshots same ms n best es = (e, k)"
  shows "n \<le> k \<and> (\<forall>x \<in> set es. matched_prefix same ms (items (pe_messages x)) \<le> k) \<and>
    (if k = n then e = best else e = List.find (\<lambda>x. matched_prefix same ms (items (pe_messages x)) = k) es \<and> e \<noteq> None)"
  using assms
proof (induction es arbitrary: n best)
  case (Cons x es)
  define m where "m = matched_prefix same ms (items (pe_messages x))"
  have le: "m \<le> length (items (pe_messages x))" unfolding m_def by (rule matched_prefix_le)
  show ?case
  proof (cases "n < m")
    case True
    then have "match_snapshots same ms m (Some x) es = (e, k)" using Cons.prems le by (simp add: m_def [symmetric] Let_def)
    then show ?thesis using Cons.IH [of m "Some x"] True by (auto simp: m_def [symmetric] split: if_splits)
  next
    case False
    then have "match_snapshots same ms n best es = (e, k)" using Cons.prems by (auto simp: m_def [symmetric] Let_def split: if_splits)
    then show ?thesis using Cons.IH [of n best] False by (auto simp: m_def [symmetric] split: if_splits)
  qed
qed simp



end
