(* ===== verification/Harness.thy ===== *)
theory Harness
  imports Tool_Calls "HOL-Library.List_Lexorder" "HOL-Library.Char_ord"
begin

text \<open>
  The semantic plan of an agent harness's request (\<open>src/src/harness_semantics.cpp\<close>): which bytes
  of the rendered prompt are the stable controls, the newest policies, the task and the current query, and where the
  unfinished tool transaction begins. Texts are byte strings; character classes are those of
  the C locale. Strings are ordered as \<open>std::string\<close> orders them, by unsigned bytes.
\<close>

section \<open>Text\<close>

definition lower_char :: "char \<Rightarrow> char" where
  "lower_char c = (let n = of_char c :: nat in if 65 \<le> n \<and> n \<le> 90 then char_of (n + 32) else c)"

definition ascii_lower :: "string \<Rightarrow> string" where
  "ascii_lower s = map lower_char s"

definition contains_ascii_case_insensitive :: "string \<Rightarrow> string \<Rightarrow> bool" where
  "contains_ascii_case_insensitive s needle = (needle = [] \<or> find_str (ascii_lower needle) (ascii_lower s) \<noteq> None)"

definition ascii_space_only :: "string \<Rightarrow> bool" where
  "ascii_space_only s = list_all is_space s"

definition trim_ascii :: "string \<Rightarrow> string" where
  "trim_ascii s = rev (dropWhile is_space (rev (dropWhile is_space s)))"

definition has :: "string \<Rightarrow> string \<Rightarrow> bool" where
  "has s pat = (find_str pat s \<noteq> None)"

section \<open>Reminder frames\<close>

record reminder_frame =
  rf_begin :: nat
  rf_end :: nat
  rf_persistent :: bool
  rf_baseline :: bool
  rf_keys :: "string list"

definition reminder_open :: string where "reminder_open = ''<system-reminder>''"
definition reminder_close :: string where "reminder_close = ''</system-reminder>''"

definition instruction_prefixes :: "string list" where
  "instruction_prefixes = [''Instructions from:'', ''Additional instructions from:'', ''Updated instructions from:'',
     ''Instructions removed:'']"

text \<open>The lines the loop over newlines visits; the text after the last newline is a line too.\<close>

fun text_lines :: "string \<Rightarrow> string list" where
  "text_lines [] = [[]]"
| "text_lines (c # cs) =
     (if c = LF then [] # text_lines cs else case text_lines cs of [] \<Rightarrow> [[c]] | l # ls \<Rightarrow> (c # l) # ls)"

definition line_key :: "string \<Rightarrow> string option" where
  "line_key raw = (let line = trim_ascii raw in
     case find (\<lambda>p. prefix p line) instruction_prefixes of None \<Rightarrow> None
     | Some p \<Rightarrow> (let key = trim_ascii (drop (length p) line) in if key = [] then None else Some key))"

definition instruction_keys :: "string \<Rightarrow> string list" where
  "instruction_keys body = remdups_adj (sort (List.map_filter line_key (text_lines body)))"

definition classify_frame :: "nat \<Rightarrow> nat \<Rightarrow> string \<Rightarrow> reminder_frame" where
  "classify_frame b e body =
     (let keys = instruction_keys body; lower = ascii_lower body;
          baseline = has lower ''complete workspace instruction baseline'' \<or>
            has lower ''the following workspace instructions may be relevant'' in
      \<lparr>rf_begin = b, rf_end = e,
       rf_persistent = (baseline \<or> keys \<noteq> [] \<or> has lower ''agents.md'' \<or> has lower ''claude.md'' \<or> has lower ''claudemd''),
       rf_baseline = baseline, rf_keys = keys\<rparr>)"

lemma find_from_Some: "find_from pat s pos = Some i \<Longrightarrow> pos \<le> i \<and> i + length pat \<le> length s"
  by (auto simp: find_from_def split: if_splits dest!: find_str_length)

function frames_from :: "string \<Rightarrow> nat \<Rightarrow> reminder_frame list" where
  "frames_from s cursor =
     (if cursor < length s
      then case find_from reminder_open s cursor of None \<Rightarrow> []
        | Some b \<Rightarrow> (let body = b + length reminder_open in
            case find_from reminder_close s body of None \<Rightarrow> []
            | Some close \<Rightarrow> (let e = close + length reminder_close in
                classify_frame b e (take (close - body) (drop body s)) # frames_from s e))
      else [])"
  by pat_completeness auto

termination
  by (relation "measure (\<lambda>(s, cursor). length s - cursor)")
    (auto dest!: find_from_Some simp: reminder_close_def reminder_open_def)

declare frames_from.simps [simp del]

definition reminder_frames :: "string \<Rightarrow> reminder_frame list" where
  "reminder_frames s = frames_from s 0"

section \<open>Requests and messages\<close>

datatype harness_kind = NoHarness | ClaudeCode | OpenCode | DeepSeekHarness | MiniSweAgent | GenericToolClient

datatype harness_protocol = OpenAIChat | AnthropicMessages

record harness_signals =
  hs_protocol :: harness_protocol
  hs_user_agent :: string
  hs_mini_swe_agent :: bool
  hs_generic_tool :: bool
  hs_deepseek :: bool
  hs_opencode :: bool
  hs_tools :: bool
  hs_leading_control :: bool
  hs_compact :: bool

record harness_context =
  hc_kind :: harness_kind
  hc_compact :: bool

definition classify_harness :: "harness_signals \<Rightarrow> harness_context" where
  "classify_harness x =
     \<lparr>hc_kind =
        (if hs_protocol x = AnthropicMessages then ClaudeCode
         else if hs_mini_swe_agent x \<or> contains_ascii_case_insensitive (hs_user_agent x) ''mini-swe-agent'' \<or>
             contains_ascii_case_insensitive (hs_user_agent x) ''mini_swe_agent'' then MiniSweAgent
         else if hs_generic_tool x then GenericToolClient
         else if hs_deepseek x \<or> contains_ascii_case_insensitive (hs_user_agent x) ''deepseek-harness/'' then DeepSeekHarness
         else if hs_opencode x \<or> contains_ascii_case_insensitive (hs_user_agent x) ''opencode/'' then OpenCode
         else if hs_tools x \<and> hs_leading_control x then GenericToolClient else NoHarness),
      hc_compact = hs_compact x\<rparr>"

fun harness_kind_name :: "harness_kind \<Rightarrow> string" where
  "harness_kind_name ClaudeCode = ''claude-code''"
| "harness_kind_name OpenCode = ''opencode''"
| "harness_kind_name DeepSeekHarness = ''deepseek-harness''"
| "harness_kind_name MiniSweAgent = ''mini-swe-agent''"
| "harness_kind_name GenericToolClient = ''generic-tool-client''"
| "harness_kind_name NoHarness = ''none''"

definition frame_is_control :: "harness_kind \<Rightarrow> reminder_frame \<Rightarrow> bool" where
  "frame_is_control kind f =
     (if kind = NoHarness then False
      else if kind = GenericToolClient \<or> kind = MiniSweAgent then rf_persistent f else True)"

definition looks_like_tool_response :: "string \<Rightarrow> bool" where
  "looks_like_tool_response s = (let t = trim_ascii s in
     length ''<tool_response>'' + length ''</tool_response>'' \<le> length t \<and>
     prefix ''<tool_response>'' t \<and> suffix ''</tool_response>'' t)"

fun meta_only_from :: "harness_kind \<Rightarrow> string \<Rightarrow> nat \<Rightarrow> reminder_frame list \<Rightarrow> bool" where
  "meta_only_from kind s cursor [] = ascii_space_only (drop cursor s)"
| "meta_only_from kind s cursor (f # fs) =
     (if \<not> frame_is_control kind f \<or> rf_begin f < cursor \<or> \<not> ascii_space_only (take (rf_begin f - cursor) (drop cursor s))
      then False else meta_only_from kind s (rf_end f) fs)"

definition harness_message_is_meta_only :: "harness_kind \<Rightarrow> string \<Rightarrow> bool" where
  "harness_message_is_meta_only kind s =
     (let fs = reminder_frames s in if fs = [] then False else meta_only_from kind s 0 fs)"

record rendered_message =
  rm_index :: nat
  rm_role :: string
  rm_segment_begin :: nat
  rm_segment_end :: nat
  rm_content_begin :: nat
  rm_content_end :: nat

definition valid_segment_bounds :: "string \<Rightarrow> rendered_message \<Rightarrow> bool" where
  "valid_segment_bounds prompt m \<longleftrightarrow> rm_segment_begin m < rm_segment_end m \<and> rm_segment_end m \<le> length prompt"

definition valid_content_bounds :: "string \<Rightarrow> rendered_message \<Rightarrow> bool" where
  "valid_content_bounds prompt m \<longleftrightarrow> valid_segment_bounds prompt m \<and> rm_content_begin m \<le> rm_content_end m \<and>
     rm_content_end m \<le> length prompt \<and> rm_segment_begin m \<le> rm_content_begin m \<and> rm_content_end m \<le> rm_segment_end m"

definition message_content :: "string \<Rightarrow> rendered_message \<Rightarrow> string" where
  "message_content prompt m = take (rm_content_end m - rm_content_begin m) (drop (rm_content_begin m) prompt)"

definition is_tool_result_message :: "string \<Rightarrow> rendered_message \<Rightarrow> bool" where
  "is_tool_result_message prompt m =
     (if \<not> valid_segment_bounds prompt m then False
      else if rm_role m = ''tool'' then True
      else if rm_role m \<noteq> ''user'' \<or> \<not> valid_content_bounds prompt m then False
      else looks_like_tool_response (message_content prompt m))"

definition is_meta_only_message :: "harness_kind \<Rightarrow> string \<Rightarrow> rendered_message \<Rightarrow> bool" where
  "is_meta_only_message kind prompt m =
     (if rm_role m \<noteq> ''user'' \<or> \<not> valid_content_bounds prompt m then False
      else harness_message_is_meta_only kind (message_content prompt m))"

section \<open>The plan\<close>

datatype span_reason = SystemControl | CurrentQuery | LiveToolTrajectory | ProjectPolicy | RootTask

fun reason_rank :: "span_reason \<Rightarrow> nat" where
  "reason_rank SystemControl = 0"
| "reason_rank CurrentQuery = 1"
| "reason_rank LiveToolTrajectory = 2"
| "reason_rank ProjectPolicy = 3"
| "reason_rank RootTask = 4"

record byte_span =
  hb_begin :: nat
  hb_end :: nat
  hb_reason :: span_reason

record semantic_plan =
  sp_root :: "nat option"
  sp_query :: "nat option"
  sp_suffix_message :: "nat option"
  sp_suffix :: "byte_span option"
  sp_history_end :: nat
  sp_spans :: "byte_span list"
  sp_policy_frames :: nat

definition empty_plan :: semantic_plan where
  "empty_plan = \<lparr>sp_root = None, sp_query = None, sp_suffix_message = None, sp_suffix = None, sp_history_end = 0,
     sp_spans = [], sp_policy_frames = 0\<rparr>"

record policy_ref =
  pr_order :: nat
  pr_begin :: nat
  pr_end :: nat
  pr_baseline :: bool
  pr_keys :: "string list"

definition collect_policies :: "string \<Rightarrow> rendered_message list \<Rightarrow> policy_ref list" where
  "collect_policies prompt messages = concat (map (\<lambda>order. let m = messages ! order in
     if \<not> valid_content_bounds prompt m \<or> (rm_role m \<noteq> ''user'' \<and> rm_role m \<noteq> ''tool'') then []
     else map (\<lambda>f. \<lparr>pr_order = order, pr_begin = rm_content_begin m + rf_begin f, pr_end = rm_content_begin m + rf_end f,
                    pr_baseline = rf_baseline f, pr_keys = rf_keys f\<rparr>)
            (filter rf_persistent (reminder_frames (message_content prompt m)))) [0..<length messages])"

definition latest_baseline :: "policy_ref list \<Rightarrow> nat option" where
  "latest_baseline ps = foldl (\<lambda>b i. if pr_baseline (ps ! i) then Some i else b) None [0..<length ps]"

definition latest_by_key :: "policy_ref list \<Rightarrow> nat \<Rightarrow> string \<rightharpoonup> nat" where
  "latest_by_key ps start =
     foldl (\<lambda>m i. foldl (\<lambda>m key. m(key \<mapsto> i)) m (pr_keys (ps ! i))) Map.empty [start..<length ps]"

definition keep_policy :: "policy_ref list \<Rightarrow> nat \<Rightarrow> bool" where
  "keep_policy ps i =
     (let latest = latest_by_key ps (case latest_baseline ps of None \<Rightarrow> 0 | Some b \<Rightarrow> b) in
      latest_baseline ps = Some i \<or> pr_keys (ps ! i) = [] \<and> \<not> pr_baseline (ps ! i) \<or>
      list_ex (\<lambda>key. latest key = Some i) (pr_keys (ps ! i)))"

definition kept_policies :: "policy_ref list \<Rightarrow> policy_ref list" where
  "kept_policies ps =
     map (\<lambda>i. ps ! i) (filter (keep_policy ps) [(case latest_baseline ps of None \<Rightarrow> 0 | Some b \<Rightarrow> b)..<length ps])"

text \<open>The guard shared by the searches for the first and for the newest task.\<close>

definition is_task_message :: "harness_kind \<Rightarrow> string \<Rightarrow> rendered_message \<Rightarrow> bool" where
  "is_task_message kind prompt m =
     (if rm_role m \<noteq> ''user'' \<or> \<not> valid_content_bounds prompt m then False
      else \<not> (looks_like_tool_response (message_content prompt m) \<or> harness_message_is_meta_only kind (message_content prompt m)))"

definition root_order :: "harness_kind \<Rightarrow> string \<Rightarrow> rendered_message list \<Rightarrow> nat option" where
  "root_order kind prompt ms = find (\<lambda>i. is_task_message kind prompt (ms ! i)) [0..<length ms]"

definition query_order :: "harness_kind \<Rightarrow> string \<Rightarrow> rendered_message list \<Rightarrow> nat option" where
  "query_order kind prompt ms =
     find (\<lambda>i. is_task_message kind prompt (ms ! i)) (map (\<lambda>r. length ms - 1 - r) [0..<length ms])"

text \<open>\<open>while (n > lo && P(messages[n - 1])) --n\<close>\<close>

fun step_back :: "(rendered_message \<Rightarrow> bool) \<Rightarrow> rendered_message list \<Rightarrow> nat \<Rightarrow> nat \<Rightarrow> nat" where
  "step_back P ms lo 0 = 0"
| "step_back P ms lo (Suc n) = (if lo < Suc n \<and> P (ms ! n) then step_back P ms lo n else Suc n)"

definition suffix_order :: "harness_kind \<Rightarrow> string \<Rightarrow> rendered_message list \<Rightarrow> nat \<Rightarrow> nat" where
  "suffix_order kind prompt ms q =
     (let tail = step_back (is_meta_only_message kind prompt) ms (q + 1) (length ms) in
      if q + 1 < tail \<and> is_tool_result_message prompt (ms ! (tail - 1))
      then let first_result = step_back (\<lambda>m. is_tool_result_message prompt m \<or> is_meta_only_message kind prompt m) ms (q + 1) (tail - 1) in
        if q + 1 < first_result \<and> rm_role (ms ! (first_result - 1)) = ''assistant'' \<and>
            valid_segment_bounds prompt (ms ! (first_result - 1))
        then first_result - 1 else first_result
      else q)"

definition pin_less :: "byte_span \<Rightarrow> byte_span \<Rightarrow> bool" where
  "pin_less a b = (if hb_begin a \<noteq> hb_begin b then hb_begin a < hb_begin b
     else if hb_end a \<noteq> hb_end b then hb_end a < hb_end b else reason_rank (hb_reason a) < reason_rank (hb_reason b))"

definition segment_span :: "rendered_message \<Rightarrow> span_reason \<Rightarrow> byte_span" where
  "segment_span m r = \<lparr>hb_begin = rm_segment_begin m, hb_end = rm_segment_end m, hb_reason = r\<rparr>"

definition plan_pins :: "harness_kind \<Rightarrow> string \<Rightarrow> nat \<Rightarrow> rendered_message list \<Rightarrow> byte_span list" where
  "plan_pins kind prompt control ms =
     (let root = root_order kind prompt ms; query = query_order kind prompt ms in
      (if 0 < control \<and> control \<le> length prompt then [\<lparr>hb_begin = 0, hb_end = control, hb_reason = SystemControl\<rparr>] else []) @
      map (\<lambda>p. \<lparr>hb_begin = pr_begin p, hb_end = pr_end p, hb_reason = ProjectPolicy\<rparr>) (kept_policies (collect_policies prompt ms)) @
      (case query of None \<Rightarrow> [] | Some q \<Rightarrow> [segment_span (ms ! q) CurrentQuery]) @
      (case (root, query) of (Some r, Some q) \<Rightarrow> if r \<noteq> q then [segment_span (ms ! r) RootTask] else [] | _ \<Rightarrow> []))"

definition derive_harness_semantic_plan :: "harness_kind \<Rightarrow> string \<Rightarrow> nat \<Rightarrow> rendered_message list \<Rightarrow> semantic_plan" where
  "derive_harness_semantic_plan kind prompt control ms =
     (if kind = NoHarness then empty_plan
      else let query = query_order kind prompt ms;
          plan = empty_plan\<lparr>
            sp_policy_frames := length (kept_policies (collect_policies prompt ms)),
            sp_root := map_option (\<lambda>i. rm_index (ms ! i)) (root_order kind prompt ms),
            sp_query := map_option (\<lambda>i. rm_index (ms ! i)) query,
            sp_spans := remdups_adj (sort_by pin_less (plan_pins kind prompt control ms))\<rparr> in
        case query of None \<Rightarrow> plan
        | Some q \<Rightarrow> (let m = ms ! suffix_order kind prompt ms q in
            if valid_segment_bounds prompt m
            then plan\<lparr>sp_suffix_message := Some (rm_index m), sp_history_end := rm_segment_begin m,
                   sp_suffix := Some \<lparr>hb_begin = rm_segment_begin m, hb_end = length prompt, hb_reason = LiveToolTrajectory\<rparr>\<rparr>
            else plan))"

end
