(* ===== verification/Harness_Plan.thy ===== *)
theory Harness_Plan
  imports Harness
begin

text \<open>
  What the semantic plan of \<open>Harness\<close> guarantees: its spans are proper pieces of the prompt, the query and
  root are the newest and first task, the live suffix is the unfinished transaction, and of each policy only the
  newest copy is kept.
\<close>

section \<open>Frames\<close>

lemma find_from_prefix: "find_from pat s pos = Some i \<Longrightarrow> prefix pat (drop i s)"
  by (auto simp: find_from_def find_str_Some add.commute split: if_splits)

text \<open>A frame's text is what its positions cut out of the message.\<close>

definition frame_text :: "string \<Rightarrow> nat \<Rightarrow> nat \<Rightarrow> bool" where
  "frame_text s b e \<longleftrightarrow> b < e \<and> e \<le> length s \<and> prefix reminder_open (drop b s) \<and> suffix reminder_close (take e s)"

lemma suffix_take:
  assumes "prefix p (drop k s)" "k + length p \<le> length s"
  shows "suffix p (take (k + length p) s)"
proof -
  obtain v where v: "drop k s = p @ v" using assms(1) by (auto simp: prefix_def)
  have "take (k + length p) s = take k s @ take (length p) (drop k s)" by (simp add: take_add)
  then show ?thesis using v by (simp add: suffix_def)
qed

lemma frames_from_facts:
  "f \<in> set (frames_from s c) \<Longrightarrow> c \<le> rf_begin f \<and> frame_text s (rf_begin f) (rf_end f)"
proof (induction s c rule: frames_from.induct)
  case (1 s c)
  note eq = frames_from.simps [of s c]
  have lt: "c < length s"
  proof (rule ccontr)
    assume "\<not> c < length s"
    then have "frames_from s c = []" by (simp only: eq if_False)
    then show False using "1.prems" by simp
  qed
  obtain b where b: "c < length s" "find_from reminder_open s c = Some b"
    using "1.prems" lt by (cases "find_from reminder_open s c") (simp_all add: eq)
  note eq = eq [unfolded if_P [OF b(1)] b(2) option.case Let_def]
  obtain k where k: "find_from reminder_close s (b + length reminder_open) = Some k"
    using "1.prems" by (cases "find_from reminder_close s (b + length reminder_open)") (simp_all add: eq)
  note B = find_from_Some [OF b(2)] and K = find_from_Some [OF k]
  have "f = classify_frame b (k + length reminder_close) (take (k - (b + length reminder_open)) (drop (b + length reminder_open) s)) \<or>
      f \<in> set (frames_from s (k + length reminder_close))"
    using "1.prems" unfolding eq k option.case by (simp only: set_simps insert_iff)
  then show ?case
  proof
    assume "f \<in> set (frames_from s (k + length reminder_close))"
    then show ?thesis using "1.IH" [OF b refl k refl] B K by (auto simp: reminder_close_def)
  next
    assume "f = classify_frame b (k + length reminder_close) (take (k - (b + length reminder_open)) (drop (b + length reminder_open) s))"
    then have f: "rf_begin f = b" "rf_end f = k + length reminder_close" by (simp_all add: classify_frame_def Let_def)
    have "suffix reminder_close (take (k + length reminder_close) s)" using suffix_take [OF find_from_prefix [OF k]] K by simp
    then show ?thesis using f B K find_from_prefix [OF b(2)] by (simp add: frame_text_def reminder_close_def)
  qed
qed

section \<open>The searches\<close>

lemma find_upt_Some:
  "find P [0..<n] = Some i \<longleftrightarrow> i < n \<and> P i \<and> (\<forall>j < i. \<not> P j)"
  by (auto simp: find_Some_iff)

lemma find_down_Some:
  "find P (map (\<lambda>r. n - 1 - r) [0..<n]) = Some i \<longleftrightarrow> i < n \<and> P i \<and> (\<forall>j < n. i < j \<longrightarrow> \<not> P j)"
proof -
  have nth: "map (\<lambda>r. n - 1 - r) [0..<n] ! k = n - 1 - k" if "k < n" for k using that by simp
  show ?thesis
  proof
    assume "find P (map (\<lambda>r. n - 1 - r) [0..<n]) = Some i"
    then obtain k where k: "k < n" "P (n - 1 - k)" "i = n - 1 - k" "\<forall>j < k. \<not> P (n - 1 - j)"
      by (auto simp: find_Some_iff)
    have "\<not> P j" if "j < n" "i < j" for j using k(4) [rule_format, of "n - 1 - j"] that k by auto
    then show "i < n \<and> P i \<and> (\<forall>j < n. i < j \<longrightarrow> \<not> P j)" using k by auto
  next
    assume a: "i < n \<and> P i \<and> (\<forall>j < n. i < j \<longrightarrow> \<not> P j)"
    then have "\<forall>j < n - 1 - i. \<not> P (n - 1 - j)" by auto
    moreover have "n - 1 - (n - 1 - i) = i" using a by auto
    ultimately show "find P (map (\<lambda>r. n - 1 - r) [0..<n]) = Some i"
      using a unfolding find_Some_iff by (intro exI [of _ "n - 1 - i"]) auto
  qed
qed

lemma root_order_Some: "root_order kind p ms = Some i \<longleftrightarrow> i < length ms \<and> is_task_message kind p (ms ! i) \<and>
    (\<forall>j < i. \<not> is_task_message kind p (ms ! j))"
  unfolding root_order_def by (rule find_upt_Some)

lemma query_order_Some: "query_order kind p ms = Some i \<longleftrightarrow> i < length ms \<and> is_task_message kind p (ms ! i) \<and>
    (\<forall>j < length ms. i < j \<longrightarrow> \<not> is_task_message kind p (ms ! j))"
  unfolding query_order_def by (rule find_down_Some)

lemma task_bounds: "is_task_message kind p m \<Longrightarrow> rm_segment_begin m < rm_segment_end m \<and> rm_segment_end m \<le> length p"
  by (auto simp: is_task_message_def valid_content_bounds_def valid_segment_bounds_def split: if_splits)

lemma step_back_facts:
  assumes "lo \<le> n"
  shows "lo \<le> step_back P ms lo n" "step_back P ms lo n \<le> n" "\<forall>i. step_back P ms lo n \<le> i \<and> i < n \<longrightarrow> P (ms ! i)"
    "lo < step_back P ms lo n \<longrightarrow> \<not> P (ms ! (step_back P ms lo n - 1))"
proof -
  have "lo \<le> step_back P ms lo n \<and> step_back P ms lo n \<le> n \<and> (\<forall>i. step_back P ms lo n \<le> i \<and> i < n \<longrightarrow> P (ms ! i)) \<and>
    (lo < step_back P ms lo n \<longrightarrow> \<not> P (ms ! (step_back P ms lo n - 1)))"
    using assms by (induction n) (auto simp: less_Suc_eq le_Suc_eq)
  then show "lo \<le> step_back P ms lo n" "step_back P ms lo n \<le> n" "\<forall>i. step_back P ms lo n \<le> i \<and> i < n \<longrightarrow> P (ms ! i)"
    "lo < step_back P ms lo n \<longrightarrow> \<not> P (ms ! (step_back P ms lo n - 1))" by blast+
qed

section \<open>The spans\<close>

lemma collect_policies_facts:
  "r \<in> set (collect_policies p ms) \<Longrightarrow> \<exists>m \<in> set ms. valid_content_bounds p m \<and> rm_role m \<in> {''user'', ''tool''} \<and>
    rm_content_begin m \<le> pr_begin r \<and> pr_end r \<le> rm_content_end m \<and>
    frame_text (message_content p m) (pr_begin r - rm_content_begin m) (pr_end r - rm_content_begin m)"
proof -
  assume "r \<in> set (collect_policies p ms)"
  then obtain i f where i: "i < length ms" "valid_content_bounds p (ms ! i)" "rm_role (ms ! i) = ''user'' \<or> rm_role (ms ! i) = ''tool''"
    and f: "f \<in> set (reminder_frames (message_content p (ms ! i)))"
    and r: "pr_begin r = rm_content_begin (ms ! i) + rf_begin f" "pr_end r = rm_content_begin (ms ! i) + rf_end f"
    by (auto simp: collect_policies_def Let_def split: if_splits)
  have t: "frame_text (message_content p (ms ! i)) (rf_begin f) (rf_end f)"
    using frames_from_facts f by (auto simp: reminder_frames_def)
  have "length (message_content p (ms ! i)) = rm_content_end (ms ! i) - rm_content_begin (ms ! i)"
    using i(2) by (auto simp: message_content_def valid_content_bounds_def)
  then have "pr_end r \<le> rm_content_end (ms ! i)" using t r i(2) by (auto simp: frame_text_def valid_content_bounds_def)
  then show ?thesis using i r t by (intro bexI [of _ "ms ! i"]) auto
qed

lemma kept_subset: "set (kept_policies ps) \<subseteq> set ps"
  by (auto simp: kept_policies_def)

lemma policy_bounds: "r \<in> set (kept_policies (collect_policies p ms)) \<Longrightarrow> pr_begin r < pr_end r \<and> pr_end r \<le> length p"
proof -
  assume "r \<in> set (kept_policies (collect_policies p ms))"
  then obtain m where m: "valid_content_bounds p m" "rm_content_begin m \<le> pr_begin r" "pr_end r \<le> rm_content_end m"
    "frame_text (message_content p m) (pr_begin r - rm_content_begin m) (pr_end r - rm_content_begin m)"
    using collect_policies_facts kept_subset by blast
  then show ?thesis by (auto simp: frame_text_def valid_content_bounds_def)
qed

lemma order_bounds:
  "query_order kind p ms = Some i \<Longrightarrow> rm_segment_begin (ms ! i) < rm_segment_end (ms ! i) \<and> rm_segment_end (ms ! i) \<le> length p"
  "root_order kind p ms = Some i \<Longrightarrow> rm_segment_begin (ms ! i) < rm_segment_end (ms ! i) \<and> rm_segment_end (ms ! i) \<le> length p"
  using task_bounds unfolding root_order_Some query_order_Some by blast+

lemma plan_pins_bounds: "x \<in> set (plan_pins kind p control ms) \<Longrightarrow> hb_begin x < hb_end x \<and> hb_end x \<le> length p"
  using policy_bounds [of _ p ms] order_bounds [of kind p ms]
  by (auto simp: plan_pins_def Let_def segment_span_def split: if_splits option.splits)

lemma rank_inj: "reason_rank a = reason_rank b \<Longrightarrow> a = b"
  by (cases a; cases b) auto

lemma strict_weak_pin: "strict_weak pin_less"
  by (auto simp: strict_weak_def pin_less_def split: if_splits)

lemma pin_less_total: "\<not> pin_less a b \<Longrightarrow> \<not> pin_less b a \<Longrightarrow> a = (b :: byte_span)"
  by (cases a; cases b) (auto simp: pin_less_def split: if_splits dest: rank_inj)

lemma sorted_unique:
  "sorted_wrt (\<lambda>a b. \<not> pin_less b a) xs \<Longrightarrow> sorted_wrt pin_less (remdups_adj xs)"
proof (induction xs rule: remdups_adj.induct)
  case (3 x y xs)
  show ?case
  proof (cases "x = y")
    case False
    have le: "\<forall>z \<in> set (y # xs). \<not> pin_less z x" and s: "sorted_wrt (\<lambda>a b. \<not> pin_less b a) (y # xs)" using "3.prems" by simp_all
    have "pin_less x z" if z: "z \<in> set (y # xs)" for z
    proof (rule ccontr)
      assume "\<not> pin_less x z"
      then have zx: "z = x" using pin_less_total le z by blast
      have "\<not> pin_less y x" using le by simp
      moreover have "\<not> pin_less x y" using s z zx False by auto
      ultimately show False using pin_less_total False by blast
    qed
    then show ?thesis using False "3.IH"(2) [OF False s] by simp
  qed (use "3" in simp)
qed simp_all

lemma plan_spans_sorted: "sorted_wrt pin_less (remdups_adj (sort_by pin_less xs))"
  by (rule sorted_unique) (rule sorted_sort_by [OF strict_weak_pin])

text \<open>The first and the last element satisfying a predicate, as lists see them.\<close>

lemma find_nth: "map_option (\<lambda>i. xs ! i) (find (\<lambda>i. P (xs ! i)) [0..<length xs]) = (case filter P xs of [] \<Rightarrow> None | x # _ \<Rightarrow> Some x)"
proof (cases "find (\<lambda>i. P (xs ! i)) [0..<length xs]")
  case None
  then have "filter P xs = []" by (auto simp: find_None_iff filter_empty_conv in_set_conv_nth)
  then show ?thesis using None by simp
next
  case (Some i)
  then have i: "i < length xs" "P (xs ! i)" "\<forall>j < i. \<not> P (xs ! j)" by (simp_all add: find_upt_Some)
  have "filter P (take i xs) = []" using i by (auto simp: filter_empty_conv in_set_conv_nth)
  then have "filter P xs = xs ! i # filter P (drop (Suc i) xs)" using i by (subst id_take_nth_drop [OF i(1)]) simp
  then show ?thesis using Some by simp
qed

lemma find_down_nth:
  "map_option (\<lambda>i. xs ! i) (find (\<lambda>i. P (xs ! i)) (map (\<lambda>r. length xs - 1 - r) [0..<length xs])) = (case rev (filter P xs) of [] \<Rightarrow> None | x # _ \<Rightarrow> Some x)"
proof (cases "find (\<lambda>i. P (xs ! i)) (map (\<lambda>r. length xs - 1 - r) [0..<length xs])")
  case None
  have "\<not> P x" if x: "x \<in> set xs" for x
  proof -
    obtain i where i: "i < length xs" "x = xs ! i" using x by (auto simp: in_set_conv_nth)
    have "i = length xs - 1 - (length xs - 1 - i)" "length xs - 1 - i < length xs" using i by auto
    then show ?thesis using None i by (force simp: find_None_iff)
  qed
  then have "filter P xs = []" by (auto simp: filter_empty_conv)
  then show ?thesis using None by simp
next
  case (Some i)
  then have i: "i < length xs" "P (xs ! i)" "\<forall>j < length xs. i < j \<longrightarrow> \<not> P (xs ! j)" unfolding find_down_Some by blast+
  have "filter P (drop (Suc i) xs) = []" using i by (auto simp: filter_empty_conv in_set_conv_nth)
  then have "filter P xs = filter P (take i xs) @ [xs ! i]" using i by (subst id_take_nth_drop [OF i(1)]) simp
  then show ?thesis using Some by simp
qed

lemma frame_text_in_prompt:
  assumes "valid_content_bounds p m" "rm_content_begin m \<le> b" "e \<le> rm_content_end m"
    "frame_text (message_content p m) (b - rm_content_begin m) (e - rm_content_begin m)"
  shows "prefix reminder_open (drop b p) \<and> suffix reminder_close (take e p)"
proof
  define c where "c = rm_content_begin m"
  define n where "n = rm_content_end m - c"
  have content: "message_content p m = take n (drop c p)" by (simp add: message_content_def n_def c_def)
  have cb: "c \<le> b" "c \<le> e" "e - c \<le> n" using assms by (auto simp: c_def n_def frame_text_def)
  have "drop (b - c) (take n (drop c p)) = take (n - (b - c)) (drop b p)" using cb by (simp add: drop_take)
  then show "prefix reminder_open (drop b p)"
    using assms(4) take_is_prefix prefix_order.trans unfolding frame_text_def content c_def [symmetric] by metis
  have "take (e - c) (take n (drop c p)) = take (e - c) (drop c p)" using cb by (simp add: min_def)
  moreover have "take e p = take c p @ take (e - c) (drop c p)" using cb by (metis le_add_diff_inverse take_add)
  ultimately show "suffix reminder_close (take e p)"
    using assms(4) unfolding frame_text_def content c_def [symmetric] by (metis suffix_appendI)
qed

lemma policy_text: "r \<in> set (kept_policies (collect_policies p ms)) \<Longrightarrow>
    prefix reminder_open (drop (pr_begin r) p) \<and> suffix reminder_close (take (pr_end r) p)"
  using collect_policies_facts kept_subset frame_text_in_prompt by blast

definition pin_ok :: "harness_kind \<Rightarrow> string \<Rightarrow> nat \<Rightarrow> rendered_message list \<Rightarrow> byte_span \<Rightarrow> bool" where
  "pin_ok kind p control ms x \<longleftrightarrow> hb_begin x < hb_end x \<and> hb_end x \<le> length p \<and>
     (case hb_reason x of
        SystemControl \<Rightarrow> hb_begin x = 0 \<and> hb_end x = control
      | CurrentQuery \<Rightarrow> filter (is_task_message kind p) ms \<noteq> [] \<and> x = segment_span (last (filter (is_task_message kind p) ms)) CurrentQuery
      | RootTask \<Rightarrow> 2 \<le> length (filter (is_task_message kind p) ms) \<and> x = segment_span (hd (filter (is_task_message kind p) ms)) RootTask
      | ProjectPolicy \<Rightarrow> prefix reminder_open (drop (hb_begin x) p) \<and> suffix reminder_close (take (hb_end x) p)
      | LiveToolTrajectory \<Rightarrow> False)"

lemma order_lists:
  "map_option (\<lambda>i. ms ! i) (root_order kind p ms) = (case filter (is_task_message kind p) ms of [] \<Rightarrow> None | m # _ \<Rightarrow> Some m)"
  "map_option (\<lambda>i. ms ! i) (query_order kind p ms) = (case rev (filter (is_task_message kind p) ms) of [] \<Rightarrow> None | m # _ \<Rightarrow> Some m)"
  unfolding root_order_def query_order_def by (rule find_nth, rule find_down_nth)

lemma two_tasks: "root_order kind p ms = Some r \<Longrightarrow> query_order kind p ms = Some q \<Longrightarrow>
    r \<noteq> q \<longleftrightarrow> 2 \<le> length (filter (is_task_message kind p) ms)"
proof -
  let ?P = "is_task_message kind p"
  assume a: "root_order kind p ms = Some r" "query_order kind p ms = Some q"
  have len: "length (filter ?P ms) = card {i. i < length ms \<and> ?P (ms ! i)}" by (rule length_filter_conv_card)
  have in_: "r \<in> {i. i < length ms \<and> ?P (ms ! i)}" "q \<in> {i. i < length ms \<and> ?P (ms ! i)}"
    using a by (simp_all add: root_order_Some query_order_Some)
  show ?thesis
  proof
    assume "r \<noteq> q"
    then have "card {r, q} = 2" by simp
    moreover have "card {r, q} \<le> card {i. i < length ms \<and> ?P (ms ! i)}" using in_ by (intro card_mono) auto
    ultimately show "2 \<le> length (filter ?P ms)" using len by simp
  next
    assume two: "2 \<le> length (filter ?P ms)"
    show "r \<noteq> q"
    proof
      assume "r = q"
      then have "{i. i < length ms \<and> ?P (ms ! i)} \<subseteq> {r}"
        using a unfolding root_order_Some query_order_Some by (auto, metis linorder_neqE_nat)
      then have "card {i. i < length ms \<and> ?P (ms ! i)} \<le> 1" using card_mono [of "{r}"] by fastforce
      then show False using two len by simp
    qed
  qed
qed

lemma order_hd_last:
  "root_order kind p ms = Some r \<Longrightarrow> filter (is_task_message kind p) ms \<noteq> [] \<and> ms ! r = hd (filter (is_task_message kind p) ms)"
  "query_order kind p ms = Some q \<Longrightarrow> filter (is_task_message kind p) ms \<noteq> [] \<and> ms ! q = last (filter (is_task_message kind p) ms)"
proof -
  show "root_order kind p ms = Some r \<Longrightarrow> filter (is_task_message kind p) ms \<noteq> [] \<and> ms ! r = hd (filter (is_task_message kind p) ms)"
    using order_lists(1) [of ms kind p] by (auto split: list.splits)
  have r: "(case rev xs of [] \<Rightarrow> None | x # _ \<Rightarrow> Some x) = Some m \<Longrightarrow> xs \<noteq> [] \<and> m = last xs" for xs and m :: rendered_message
    by (cases xs rule: rev_cases) auto
  show "query_order kind p ms = Some q \<Longrightarrow> filter (is_task_message kind p) ms \<noteq> [] \<and> ms ! q = last (filter (is_task_message kind p) ms)"
    by (rule r) (simp flip: order_lists(2))
qed

lemma plan_pins_ok: "x \<in> set (plan_pins kind p control ms) \<Longrightarrow> pin_ok kind p control ms x"
proof -
  assume x: "x \<in> set (plan_pins kind p control ms)"
  consider "x = \<lparr>hb_begin = 0, hb_end = control, hb_reason = SystemControl\<rparr>"
    | r where "r \<in> set (kept_policies (collect_policies p ms))" "x = \<lparr>hb_begin = pr_begin r, hb_end = pr_end r, hb_reason = ProjectPolicy\<rparr>"
    | q where "query_order kind p ms = Some q" "x = segment_span (ms ! q) CurrentQuery"
    | r q where "root_order kind p ms = Some r" "query_order kind p ms = Some q" "r \<noteq> q" "x = segment_span (ms ! r) RootTask"
    using x by (cases "query_order kind p ms"; cases "root_order kind p ms") (auto simp: plan_pins_def Let_def split: if_splits)
  then show ?thesis
  proof cases
    case 2
    then show ?thesis using plan_pins_bounds [OF x] policy_text by (simp add: pin_ok_def)
  next
    case 3
    then show ?thesis using plan_pins_bounds [OF x] order_hd_last(2) [OF 3(1)] by (simp add: pin_ok_def segment_span_def)
  next
    case 4
    then show ?thesis using plan_pins_bounds [OF x] order_hd_last(1) [OF 4(1)] two_tasks [OF 4(1,2)] by (simp add: pin_ok_def segment_span_def)
  qed (use plan_pins_bounds [OF x] in \<open>simp add: pin_ok_def\<close>)
qed

section \<open>Policies\<close>

lemma latest_baseline_upto:
  "foldl (\<lambda>b i. if P i then Some i else b) None [0..<n] = (if \<exists>i < n. P i then Some (Max {i. i < n \<and> P i}) else None)"
proof (induction n)
  case (Suc n)
  have fin: "finite {i. i < n \<and> P i}" by simp
  have s: "{i. i < Suc n \<and> P i} = (if P n then insert n {i. i < n \<and> P i} else {i. i < n \<and> P i})" by (auto simp: less_Suc_eq)
  have "P n \<Longrightarrow> Max (insert n {i. i < n \<and> P i}) = n" using fin by (intro Max_eqI) auto
  then show ?case using Suc s by (auto simp: less_Suc_eq)
qed simp

lemma latest_baseline_Some:
  "latest_baseline ps = Some b \<longleftrightarrow> b < length ps \<and> pr_baseline (ps ! b) \<and> (\<forall>j < length ps. b < j \<longrightarrow> \<not> pr_baseline (ps ! j))"
proof -
  let ?A = "{i. i < length ps \<and> pr_baseline (ps ! i)}"
  have L: "latest_baseline ps = (if ?A \<noteq> {} then Some (Max ?A) else None)"
    unfolding latest_baseline_def using latest_baseline_upto [of "\<lambda>i. pr_baseline (ps ! i)" "length ps"] by auto
  have "Max ?A = b" if "b \<in> ?A" "\<forall>j < length ps. b < j \<longrightarrow> \<not> pr_baseline (ps ! j)"
    by (rule Max_eqI) (use that in \<open>auto simp: not_less [symmetric]\<close>)
  moreover have "Max ?A \<in> ?A \<and> (\<forall>j \<in> ?A. j \<le> Max ?A)" if "?A \<noteq> {}" using that Max_in [of ?A] by simp
  ultimately show ?thesis unfolding L by (auto simp: not_le [symmetric])
qed

lemma latest_baseline_None: "latest_baseline ps = None \<longleftrightarrow> (\<forall>j < length ps. \<not> pr_baseline (ps ! j))"
  unfolding latest_baseline_def latest_baseline_upto by auto

lemma fold_key: "foldl (\<lambda>m key. m(key \<mapsto> i)) m ks k = (if k \<in> set ks then Some i else m k)"
  by (induction ks arbitrary: m) auto

lemma latest_by_key_upto:
  assumes "a \<le> n"
  shows "foldl (\<lambda>m i. foldl (\<lambda>m key. m(key \<mapsto> i)) m (K i)) Map.empty [a..<n] k = Some i \<longleftrightarrow>
    a \<le> i \<and> i < n \<and> k \<in> set (K i) \<and> (\<forall>j. i < j \<and> j < n \<longrightarrow> k \<notin> set (K j))"
  using assms
proof (induction n rule: dec_induct)
  case (step n)
  have "[a..<Suc n] = [a..<n] @ [n]" using step.hyps by simp
  then have eq: "foldl (\<lambda>m i. foldl (\<lambda>m key. m(key \<mapsto> i)) m (K i)) Map.empty [a..<Suc n] k =
      (if k \<in> set (K n) then Some n else foldl (\<lambda>m i. foldl (\<lambda>m key. m(key \<mapsto> i)) m (K i)) Map.empty [a..<n] k)"
    by (simp only: foldl_append foldl_Cons foldl_Nil fold_key)
  show ?case
  proof (cases "k \<in> set (K n)")
    case True
    then show ?thesis unfolding eq if_P [OF True] using step.hyps by (auto simp: less_Suc_eq)
  next
    case False
    then show ?thesis unfolding eq if_not_P [OF False] step.IH by (auto simp: less_Suc_eq)
  qed
qed simp

lemma latest_by_key_Some:
  "latest_by_key ps a k = Some i \<longleftrightarrow> a \<le> i \<and> i < length ps \<and> k \<in> set (pr_keys (ps ! i)) \<and> (\<forall>j. i < j \<and> j < length ps \<longrightarrow> k \<notin> set (pr_keys (ps ! j)))"
proof (cases "a \<le> length ps")
  case True
  then show ?thesis unfolding latest_by_key_def by (rule latest_by_key_upto)
next
  case False
  then show ?thesis by (auto simp: latest_by_key_def)
qed

text \<open>When frame \<open>i\<close> of the collected policies is current: nothing later replaces it.\<close>

definition current_policy :: "policy_ref list \<Rightarrow> nat \<Rightarrow> bool" where
  "current_policy ps i \<longleftrightarrow> (\<forall>j. i < j \<and> j < length ps \<longrightarrow> \<not> pr_baseline (ps ! j)) \<and>
     (pr_baseline (ps ! i) \<or> pr_keys (ps ! i) = [] \<or>
      (\<exists>k \<in> set (pr_keys (ps ! i)). \<forall>j. i < j \<and> j < length ps \<longrightarrow> k \<notin> set (pr_keys (ps ! j))))"

lemma keep_policy_current:
  assumes "i < length ps"
  shows "(case latest_baseline ps of None \<Rightarrow> 0 | Some b \<Rightarrow> b) \<le> i \<and> keep_policy ps i \<longleftrightarrow> current_policy ps i"
proof (cases "latest_baseline ps")
  case None
  then have n: "\<forall>j < length ps. \<not> pr_baseline (ps ! j)" by (simp add: latest_baseline_None)
  show ?thesis using assms n None
    by (auto simp: keep_policy_def current_policy_def Let_def list_ex_iff latest_by_key_Some)
next
  case (Some b)
  then have b: "b < length ps" "pr_baseline (ps ! b)" "\<forall>j < length ps. b < j \<longrightarrow> \<not> pr_baseline (ps ! j)"
    by (simp_all add: latest_baseline_Some)
  show ?thesis
  proof (cases "b \<le> i")
    case True
    have "latest_baseline ps = Some i \<longleftrightarrow> pr_baseline (ps ! i)" using b Some assms True by (metis le_neq_implies_less option.inject)
    moreover have "\<forall>j. i < j \<and> j < length ps \<longrightarrow> \<not> pr_baseline (ps ! j)" using b True by auto
    ultimately show ?thesis using assms Some True
      by (auto simp: keep_policy_def current_policy_def Let_def list_ex_iff latest_by_key_Some)
  next
    case False
    then show ?thesis using b Some by (auto simp: current_policy_def)
  qed
qed

lemma kept_policies_current: "kept_policies ps = map (\<lambda>i. ps ! i) (filter (current_policy ps) [0..<length ps])"
proof -
  define s where "s = (case latest_baseline ps of None \<Rightarrow> 0 | Some b \<Rightarrow> b)"
  have s: "s \<le> length ps" using latest_baseline_Some [of ps] by (auto simp: s_def split: option.splits)
  have "filter (keep_policy ps) [s..<length ps] = filter (\<lambda>i. s \<le> i \<and> keep_policy ps i) [0..<length ps]"
  proof -
    have "[0..<length ps] = [0..<s] @ [s..<length ps]" using s by (metis le0 upt_add_eq_append le_add_diff_inverse)
    moreover have "filter (\<lambda>i. s \<le> i \<and> keep_policy ps i) [0..<s] = []" by (auto simp: filter_empty_conv)
    moreover have "filter (\<lambda>i. s \<le> i \<and> keep_policy ps i) [s..<length ps] = filter (keep_policy ps) [s..<length ps]"
      by (rule filter_cong) auto
    ultimately show ?thesis by simp
  qed
  also have "\<dots> = filter (current_policy ps) [0..<length ps]"
    by (rule filter_cong) (use keep_policy_current [of _ ps, folded s_def] in auto)
  finally show ?thesis unfolding kept_policies_def s_def by simp
qed

text \<open>One keyed frame per key is current, apart from the baseline.\<close>

lemma current_count:
  "length (filter (current_policy ps) [0..<length ps]) \<le>
     1 + card (\<Union>r \<in> set ps. set (pr_keys r)) + length (filter (\<lambda>r. pr_keys r = [] \<and> \<not> pr_baseline r) ps)"
proof -
  define n where "n = length ps"
  define A where "A = {i. i < n \<and> current_policy ps i \<and> pr_baseline (ps ! i)}"
  define B where "B = {i. i < n \<and> pr_keys (ps ! i) = [] \<and> \<not> pr_baseline (ps ! i)}"
  define C where "C = {i. i < n \<and> (\<exists>k \<in> set (pr_keys (ps ! i)). \<forall>j. i < j \<and> j < n \<longrightarrow> k \<notin> set (pr_keys (ps ! j)))}"
  have fin: "finite A" "finite B" "finite C" by (simp_all add: A_def B_def C_def)
  have "\<forall>i \<in> C. \<exists>k. k \<in> set (pr_keys (ps ! i)) \<and> (\<forall>j. i < j \<and> j < n \<longrightarrow> k \<notin> set (pr_keys (ps ! j)))" by (auto simp: C_def)
  then obtain f where f: "\<forall>i \<in> C. f i \<in> set (pr_keys (ps ! i)) \<and> (\<forall>j. i < j \<and> j < n \<longrightarrow> f i \<notin> set (pr_keys (ps ! j)))" by metis
  have C_n: "i < n" if "i \<in> C" for i using that by (simp add: C_def)
  have "inj_on f C"
  proof (rule inj_onI)
    fix x y assume xy: "x \<in> C" "y \<in> C" "f x = f y"
    have "x < n" "y < n" using xy by (auto simp: C_def)
    then show "x = y" using f xy by (metis linorder_neqE_nat)
  qed
  then have c: "card C \<le> card (\<Union>r \<in> set ps. set (pr_keys r))"
    by (rule card_inj_on_le) (use f C_n in \<open>auto simp: n_def intro!: bexI [OF _ nth_mem]\<close>)
  have a: "card A \<le> 1"
  proof (cases "A = {}")
    case False
    then obtain i where i: "i \<in> A" by blast
    have "A \<subseteq> {i}"
    proof
      fix x assume x: "x \<in> A"
      have base: "y < n \<and> pr_baseline (ps ! y) \<and> (\<forall>j. y < j \<and> j < n \<longrightarrow> \<not> pr_baseline (ps ! j))" if "y \<in> A" for y
        using that by (simp add: A_def current_policy_def n_def)
      have "\<not> x < i" "\<not> i < x" using base [OF x] base [OF i] by blast+
      then show "x \<in> {i}" by simp
    qed
    then show ?thesis using card_mono [of "{i}" A] by simp
  qed simp
  have "{i. i < n \<and> current_policy ps i} \<subseteq> A \<union> (C \<union> B)"
  proof
    fix i assume "i \<in> {i. i < n \<and> current_policy ps i}"
    then have i: "i < n" "current_policy ps i" by simp_all
    then consider "pr_baseline (ps ! i)" | "\<not> pr_baseline (ps ! i)" "pr_keys (ps ! i) = []"
      | "\<exists>k \<in> set (pr_keys (ps ! i)). \<forall>j. i < j \<and> j < n \<longrightarrow> k \<notin> set (pr_keys (ps ! j))"
      unfolding current_policy_def n_def by blast
    then show "i \<in> A \<union> (C \<union> B)" using i unfolding A_def B_def C_def by cases blast+
  qed
  then have "card {i. i < n \<and> current_policy ps i} \<le> card (A \<union> (C \<union> B))" using fin by (intro card_mono) simp_all
  then have "card {i. i < n \<and> current_policy ps i} \<le> card A + (card C + card B)"
    using card_Un_le [of A "C \<union> B"] card_Un_le [of C B] by linarith
  moreover have "length (filter (current_policy ps) [0..<n]) = card {i. i < n \<and> current_policy ps i}"
    by (simp add: length_filter_conv_card) (metis (mono_tags, lifting) add.left_neutral diff_zero nth_upt)
  moreover have "length (filter (\<lambda>r. pr_keys r = [] \<and> \<not> pr_baseline r) ps) = card B"
    by (simp add: length_filter_conv_card B_def n_def)
  ultimately show ?thesis using a c by (simp add: n_def)
qed

lemma policy_pins:
  assumes "kind \<noteq> NoHarness"
  shows "{(hb_begin x, hb_end x) | x. x \<in> set (sp_spans (derive_harness_semantic_plan kind p control ms)) \<and> hb_reason x = ProjectPolicy} =
     (\<lambda>r. (pr_begin r, pr_end r)) ` set (kept_policies (collect_policies p ms))"
proof -
  have "sp_spans (derive_harness_semantic_plan kind p control ms) = remdups_adj (sort_by pin_less (plan_pins kind p control ms))"
    using assms by (auto simp: derive_harness_semantic_plan_def Let_def split: option.splits)
  moreover have "x \<in> set (plan_pins kind p control ms) \<and> hb_reason x = ProjectPolicy \<longleftrightarrow>
      (\<exists>r \<in> set (kept_policies (collect_policies p ms)). x = \<lparr>hb_begin = pr_begin r, hb_end = pr_end r, hb_reason = ProjectPolicy\<rparr>)" for x
    by (cases "query_order kind p ms"; cases "root_order kind p ms") (auto simp: plan_pins_def Let_def segment_span_def split: if_splits)
  ultimately show ?thesis by force
qed

section \<open>The live suffix\<close>

lemma task_not_meta: "is_task_message kind p m \<Longrightarrow> \<not> is_meta_only_message kind p m \<and> \<not> (is_tool_result_message p m)"
  by (auto simp: is_task_message_def is_meta_only_message_def is_tool_result_message_def split: if_splits)

lemma result_valid: "is_tool_result_message p m \<Longrightarrow> valid_segment_bounds p m"
  by (simp add: is_tool_result_message_def split: if_splits)

lemma meta_valid: "is_meta_only_message kind p m \<Longrightarrow> valid_segment_bounds p m"
  by (simp add: is_meta_only_message_def valid_content_bounds_def split: if_splits)

text \<open>
  \<open>transaction ms q first tail\<close>: everything from \<open>tail\<close> on is reminders; \<open>[first, tail)\<close> is the last run of tool
  results (and reminders between them) after the query \<open>q\<close>.
\<close>

definition transaction :: "harness_kind \<Rightarrow> string \<Rightarrow> rendered_message list \<Rightarrow> nat \<Rightarrow> nat \<Rightarrow> nat \<Rightarrow> bool" where
  "transaction kind p ms q first tail \<longleftrightarrow>
     q < first \<and> first < tail \<and> tail \<le> length ms \<and> list_all (is_meta_only_message kind p) (drop tail ms) \<and>
     is_tool_result_message p (ms ! (tail - 1)) \<and> \<not> is_meta_only_message kind p (ms ! (tail - 1)) \<and>
     list_all (\<lambda>m. is_tool_result_message p m \<or> is_meta_only_message kind p m) (drop first (take tail ms)) \<and>
     (q + 1 < first \<longrightarrow> \<not> is_tool_result_message p (ms ! (first - 1)) \<and> \<not> is_meta_only_message kind p (ms ! (first - 1)))"

lemma suffix_order_cases:
  assumes q: "q < length ms"
  obtains first tail where "transaction kind p ms q first tail" "valid_segment_bounds p (ms ! first)"
      "suffix_order kind p ms q = (if q + 1 < first \<and> rm_role (ms ! (first - 1)) = ''assistant'' \<and> valid_segment_bounds p (ms ! (first - 1))
         then first - 1 else first)"
  | tail where "q < tail" "tail \<le> length ms" "list_all (is_meta_only_message kind p) (drop tail ms)"
      "q + 1 < tail \<Longrightarrow> \<not> is_meta_only_message kind p (ms ! (tail - 1)) \<and> \<not> is_tool_result_message p (ms ! (tail - 1))"
      "suffix_order kind p ms q = q"
proof -
  define tail where "tail = step_back (is_meta_only_message kind p) ms (q + 1) (length ms)"
  have "q + 1 \<le> length ms" using q by simp
  note T = step_back_facts [OF this, of "is_meta_only_message kind p" ms, folded tail_def]
  have meta: "list_all (is_meta_only_message kind p) (drop tail ms)" using T(2,3) by (auto simp: list_all_length)
  show ?thesis
  proof (cases "q + 1 < tail \<and> is_tool_result_message p (ms ! (tail - 1))")
    case True
    define P where "P = (\<lambda>m. is_tool_result_message p m \<or> is_meta_only_message kind p m)"
    define first where "first = step_back P ms (q + 1) (tail - 1)"
    have "q + 1 \<le> tail - 1" using True by (cases tail) auto
    note F = step_back_facts [OF this, of P ms, folded first_def]
    have all: "P (ms ! i)" if "first \<le> i" "i < tail" for i
      using F(3) True that by (cases "i = tail - 1") (auto simp: P_def)
    have "list_all P (drop first (take tail ms))" using all T(2) by (auto simp: list_all_length)
    moreover have "\<not> is_meta_only_message kind p (ms ! (tail - 1))" using T(4) True by simp
    ultimately have tr: "transaction kind p ms q first tail"
      using True F T(1,2) meta unfolding transaction_def P_def by auto
    have "first < tail" using F(2) True by (cases tail) auto
    then have "valid_segment_bounds p (ms ! first)" using all [of first] result_valid meta_valid unfolding P_def by blast
    moreover have "suffix_order kind p ms q = (if q + 1 < first \<and> rm_role (ms ! (first - 1)) = ''assistant'' \<and> valid_segment_bounds p (ms ! (first - 1))
         then first - 1 else first)"
      using True unfolding suffix_order_def Let_def tail_def [symmetric] P_def [symmetric] first_def [symmetric] by (simp only: if_True simp_thms)
    ultimately show ?thesis by (rule that(1) [OF tr])
  next
    case False
    then have "suffix_order kind p ms q = q" unfolding suffix_order_def Let_def tail_def [symmetric] by (simp only: if_False)
    then show ?thesis using that(2) [of tail] T False meta by auto
  qed
qed

section \<open>Theorems\<close>

lemma plan_fields:
  assumes "kind \<noteq> NoHarness"
  shows "sp_spans (derive_harness_semantic_plan kind p control ms) = remdups_adj (sort_by pin_less (plan_pins kind p control ms))"
    "sp_policy_frames (derive_harness_semantic_plan kind p control ms) = length (kept_policies (collect_policies p ms))"
    "sp_root (derive_harness_semantic_plan kind p control ms) = map_option rm_index (map_option (\<lambda>i. ms ! i) (root_order kind p ms))"
    "sp_query (derive_harness_semantic_plan kind p control ms) = map_option rm_index (map_option (\<lambda>i. ms ! i) (query_order kind p ms))"
    "query_order kind p ms = None \<Longrightarrow> sp_suffix (derive_harness_semantic_plan kind p control ms) = None \<and>
       sp_history_end (derive_harness_semantic_plan kind p control ms) = 0"
    "query_order kind p ms = Some q \<Longrightarrow> m = ms ! suffix_order kind p ms q \<Longrightarrow> valid_segment_bounds p m \<Longrightarrow>
       sp_suffix_message (derive_harness_semantic_plan kind p control ms) = Some (rm_index m) \<and>
       sp_history_end (derive_harness_semantic_plan kind p control ms) = rm_segment_begin m \<and>
       sp_suffix (derive_harness_semantic_plan kind p control ms) =
         Some \<lparr>hb_begin = rm_segment_begin m, hb_end = length p, hb_reason = LiveToolTrajectory\<rparr>"
  using assms by (auto simp: derive_harness_semantic_plan_def Let_def empty_plan_def option.map_comp comp_def split: option.splits)

lemma query_not_suffix: "query_order kind p ms = Some q \<Longrightarrow> valid_segment_bounds p (ms ! suffix_order kind p ms q) \<and>
    q \<le> suffix_order kind p ms q \<and> suffix_order kind p ms q < length ms"
proof -
  assume q: "query_order kind p ms = Some q"
  then have l: "q < length ms" "valid_segment_bounds p (ms ! q)"
    using order_bounds(1) [OF q] by (auto simp: query_order_Some valid_segment_bounds_def)
  show ?thesis
    by (rule suffix_order_cases [OF l(1), of kind p]) (use l in \<open>auto simp: transaction_def split: if_splits\<close>)
qed

text \<open>
  Claim C24. The spans of a plan are proper pieces of the prompt, strictly ordered and so distinct: the control prefix,
  complete reminder frames, the segment of the last task message and, when there is another, that of the first.
  The query and root are the last and first task message, and the live suffix is a proper tail of the prompt.
\<close>

theorem harness_plan_well_formed:
  "let plan = derive_harness_semantic_plan kind p control ms; tasks = filter (is_task_message kind p) ms in
   if kind = NoHarness then plan = empty_plan
   else sorted_wrt pin_less (sp_spans plan) \<and> list_all (pin_ok kind p control ms) (sp_spans plan) \<and>
     (case tasks of
        [] \<Rightarrow> sp_root plan = None \<and> sp_query plan = None \<and> sp_suffix plan = None \<and> sp_history_end plan = 0
      | first # _ \<Rightarrow> sp_root plan = Some (rm_index first) \<and> sp_query plan = Some (rm_index (last tasks)) \<and>
          segment_span (last tasks) CurrentQuery \<in> set (sp_spans plan) \<and>
          (2 \<le> length tasks \<longrightarrow> segment_span first RootTask \<in> set (sp_spans plan)) \<and>
          (\<exists>x. sp_suffix plan = Some x \<and> hb_begin x = sp_history_end plan \<and> hb_begin x < hb_end x \<and> hb_end x = length p))"
proof (cases "kind = NoHarness")
  case False
  define plan where "plan = derive_harness_semantic_plan kind p control ms"
  define tasks where "tasks = filter (is_task_message kind p) ms"
  note F = plan_fields [where p = p and control = control and ms = ms, OF False, folded plan_def]
  have sorted: "sorted_wrt pin_less (sp_spans plan)" unfolding F(1) by (rule plan_spans_sorted)
  have ok: "list_all (pin_ok kind p control ms) (sp_spans plan)" unfolding F(1) using plan_pins_ok by (simp add: list_all_iff)
  have "case tasks of
        [] \<Rightarrow> sp_root plan = None \<and> sp_query plan = None \<and> sp_suffix plan = None \<and> sp_history_end plan = 0
      | first # _ \<Rightarrow> sp_root plan = Some (rm_index first) \<and> sp_query plan = Some (rm_index (last tasks)) \<and>
          segment_span (last tasks) CurrentQuery \<in> set (sp_spans plan) \<and>
          (2 \<le> length tasks \<longrightarrow> segment_span first RootTask \<in> set (sp_spans plan)) \<and>
          (\<exists>x. sp_suffix plan = Some x \<and> hb_begin x = sp_history_end plan \<and> hb_begin x < hb_end x \<and> hb_end x = length p)"
  proof (cases tasks)
    case Nil
    then have "root_order kind p ms = None" "query_order kind p ms = None"
      using order_lists [of ms kind p] by (auto simp: tasks_def)
    then show ?thesis using F(3-5) Nil by simp
  next
    case (Cons first rest)
    then obtain r q where rq: "root_order kind p ms = Some r" "query_order kind p ms = Some q"
      using order_lists [of ms kind p] by (cases "rev tasks") (auto simp: tasks_def)
    have m: "ms ! r = first" "ms ! q = last tasks" using order_hd_last rq Cons by (auto simp: tasks_def)
    have "segment_span (last tasks) CurrentQuery \<in> set (sp_spans plan)"
      "2 \<le> length tasks \<longrightarrow> segment_span first RootTask \<in> set (sp_spans plan)"
      unfolding F(1) tasks_def two_tasks [OF rq, symmetric] using rq m by (simp_all add: plan_pins_def Let_def tasks_def)
    then show ?thesis
      using F(3,4) rq m Cons F(6) [OF rq(2) refl] query_not_suffix [OF rq(2)] by (simp add: valid_segment_bounds_def)
  qed
  then show ?thesis using False sorted ok by (simp add: Let_def flip: plan_def tasks_def)
qed (simp add: derive_harness_semantic_plan_def)


text \<open>
  Claim C15. The live suffix begins at the unfinished tool transaction: when only reminders follow the last tool result after the
  query, at the assistant message that called for that run of results (or at its first result), and
  otherwise at the query. With the segments in order, every message from there on is in the suffix and
  every message before it ends before it.
\<close>

theorem live_suffix_is_unfinished_transaction:
  assumes "kind \<noteq> NoHarness" "query_order kind p ms = Some q"
  shows "\<exists>j. sp_history_end (derive_harness_semantic_plan kind p control ms) = rm_segment_begin (ms ! j) \<and>
    sp_suffix_message (derive_harness_semantic_plan kind p control ms) = Some (rm_index (ms ! j)) \<and> q \<le> j \<and> j < length ms \<and>
    (if \<exists>first tail. transaction kind p ms q first tail
     then \<exists>first tail. transaction kind p ms q first tail \<and> q < j \<and>
       (if q + 1 < first \<and> rm_role (ms ! (first - 1)) = ''assistant'' \<and> valid_segment_bounds p (ms ! (first - 1))
        then j + 1 = first else j = first)
     else j = q) \<and>
    (sorted_wrt (\<lambda>a b. rm_segment_end a \<le> rm_segment_begin b) ms \<longrightarrow>
       list_all (\<lambda>m. rm_segment_end m \<le> rm_segment_begin (ms ! j)) (take j ms) \<and>
       list_all (\<lambda>m. rm_segment_begin (ms ! j) \<le> rm_segment_begin m) (drop j ms))"
proof -
  define j where "j = suffix_order kind p ms q"
  have j: "valid_segment_bounds p (ms ! j)" "q \<le> j" "j < length ms" using query_not_suffix [OF assms(2)] by (simp_all add: j_def)
  have q: "q < length ms" "is_task_message kind p (ms ! q)" using assms(2) by (simp_all add: query_order_Some)
  have shape: "if \<exists>first tail. transaction kind p ms q first tail
     then \<exists>first tail. transaction kind p ms q first tail \<and> q < j \<and>
       (if q + 1 < first \<and> rm_role (ms ! (first - 1)) = ''assistant'' \<and> valid_segment_bounds p (ms ! (first - 1))
        then j + 1 = first else j = first)
     else j = q"
  proof (rule suffix_order_cases [OF q(1), of kind p], fold j_def)
    fix first tail
    assume t: "transaction kind p ms q first tail"
      and "j = (if q + 1 < first \<and> rm_role (ms ! (first - 1)) = ''assistant'' \<and> valid_segment_bounds p (ms ! (first - 1)) then first - 1 else first)"
    then have "q < j \<and> (if q + 1 < first \<and> rm_role (ms ! (first - 1)) = ''assistant'' \<and> valid_segment_bounds p (ms ! (first - 1))
        then j + 1 = first else j = first)" by (auto simp: transaction_def)
    then show ?thesis using t by auto
  next
    fix tail
    assume t: "q < tail" "tail \<le> length ms" "list_all (is_meta_only_message kind p) (drop tail ms)" "j = q"
      "q + 1 < tail \<Longrightarrow> \<not> is_meta_only_message kind p (ms ! (tail - 1)) \<and> \<not> is_tool_result_message p (ms ! (tail - 1))"
    have "\<not> transaction kind p ms q first k" for first k
    proof
      assume "transaction kind p ms q first k"
      then have b: "q + 1 < k" "k \<le> length ms" "is_tool_result_message p (ms ! (k - 1))" "\<not> is_meta_only_message kind p (ms ! (k - 1))"
        "list_all (is_meta_only_message kind p) (drop k ms)" by (auto simp: transaction_def)
      have meta: "is_meta_only_message kind p (ms ! i)" if "list_all (is_meta_only_message kind p) (drop n ms)" "n \<le> i" "i < length ms" for n i
        using that by (auto simp: list_all_length dest: spec [of _ "i - n"])
      consider "k < tail" | "k = tail" | "tail < k" by linarith
      then show False
      proof cases
        case 1
        then show False using meta [OF b(5), of "tail - 1"] t(2,5) b(1) by auto
      next
        case 3
        then show False using meta [OF t(3), of "k - 1"] b(1,2,4) by auto
      qed (use b t(5) in simp)
    qed
    then show ?thesis using t(4) by simp
  qed
  have order: "list_all (\<lambda>m. rm_segment_end m \<le> rm_segment_begin (ms ! j)) (take j ms) \<and>
      list_all (\<lambda>m. rm_segment_begin (ms ! j) \<le> rm_segment_begin m) (drop j ms)"
    if s: "sorted_wrt (\<lambda>a b. rm_segment_end a \<le> rm_segment_begin b) ms"
  proof -
    have "rm_segment_end (ms ! i) \<le> rm_segment_begin (ms ! k)" if "i < k" "k < length ms" for i k
      using sorted_wrt_nth_less [OF s that] .
    moreover have "rm_segment_begin (ms ! j) \<le> rm_segment_end (ms ! j)" using j(1) by (simp add: valid_segment_bounds_def)
    ultimately have "rm_segment_begin (ms ! j) \<le> rm_segment_begin (ms ! k)" if "j \<le> k" "k < length ms" for k
      using that by (cases "j = k") (auto intro: le_trans)
    then show ?thesis using \<open>\<And>i k. i < k \<Longrightarrow> k < length ms \<Longrightarrow> rm_segment_end (ms ! i) \<le> rm_segment_begin (ms ! k)\<close> j(3)
      by (auto simp: list_all_length)
  qed
  note F = plan_fields(6) [OF assms(1) assms(2) refl j(1) [unfolded j_def], of control, folded j_def]
  show ?thesis by (intro exI [of _ j] conjI impI) (use F j shape order in \<open>simp_all only:\<close>)
qed

section \<open>A conversation\<close>

definition ex_prompt :: string where
  "ex_prompt = ''s<system-reminder>CLAUDE.md</system-reminder>fix itcallresult''"

definition ex_messages :: "rendered_message list" where
  "ex_messages =
     [\<lparr>rm_index = 0, rm_role = ''user'', rm_segment_begin = 1, rm_segment_end = 45, rm_content_begin = 1, rm_content_end = 45\<rparr>,
      \<lparr>rm_index = 1, rm_role = ''user'', rm_segment_begin = 45, rm_segment_end = 51, rm_content_begin = 45, rm_content_end = 51\<rparr>,
      \<lparr>rm_index = 2, rm_role = ''assistant'', rm_segment_begin = 51, rm_segment_end = 55, rm_content_begin = 51, rm_content_end = 55\<rparr>,
      \<lparr>rm_index = 3, rm_role = ''tool'', rm_segment_begin = 55, rm_segment_end = 61, rm_content_begin = 55, rm_content_end = 61\<rparr>]"

lemma ex_tasks: "filter (is_task_message ClaudeCode ex_prompt) ex_messages = [ex_messages ! 1]"
  "query_order ClaudeCode ex_prompt ex_messages = Some 1"
  "is_tool_result_message ex_prompt (ex_messages ! 3)" "\<not> is_meta_only_message ClaudeCode ex_prompt (ex_messages ! 3)"
  "\<not> is_tool_result_message ex_prompt (ex_messages ! 2)" "\<not> is_meta_only_message ClaudeCode ex_prompt (ex_messages ! 2)"
  "collect_policies ex_prompt ex_messages = [\<lparr>pr_order = 0, pr_begin = 1, pr_end = 45, pr_baseline = False, pr_keys = []\<rparr>]"
  by code_simp+

lemma ex_rest: "drop 4 ex_messages = []" "drop 3 (take 4 ex_messages) = [ex_messages ! 3]" "length ex_messages = 4" "rm_index (ex_messages ! Suc 0) = 1" "drop 3 ex_messages = [ex_messages ! 3]"
  by (simp_all add: ex_messages_def)

theorem harness_plan_well_formed_witness:
  "sp_query (derive_harness_semantic_plan ClaudeCode ex_prompt 1 ex_messages) = Some 1 \<and>
     segment_span (ex_messages ! 1) CurrentQuery \<in> set (sp_spans (derive_harness_semantic_plan ClaudeCode ex_prompt 1 ex_messages)) \<and>
     sorted_wrt pin_less (sp_spans (derive_harness_semantic_plan ClaudeCode ex_prompt 1 ex_messages))"
  using harness_plan_well_formed [of ClaudeCode ex_prompt 1 ex_messages] by (simp add: Let_def ex_tasks(1) ex_rest)


theorem live_suffix_is_unfinished_transaction_witness:
  "\<exists>j. sp_history_end (derive_harness_semantic_plan ClaudeCode ex_prompt 1 ex_messages) = rm_segment_begin (ex_messages ! j) \<and>
     1 < j \<and> j < length ex_messages \<and> transaction ClaudeCode ex_prompt ex_messages 1 3 4"
proof -
  have t: "transaction ClaudeCode ex_prompt ex_messages 1 3 4" by (simp add: transaction_def ex_tasks ex_rest)
  obtain j where j: "sp_history_end (derive_harness_semantic_plan ClaudeCode ex_prompt 1 ex_messages) = rm_segment_begin (ex_messages ! j)"
    "j < length ex_messages" "if \<exists>first tail. transaction ClaudeCode ex_prompt ex_messages 1 first tail
     then \<exists>first tail. transaction ClaudeCode ex_prompt ex_messages 1 first tail \<and> 1 < j \<and>
       (if 1 + 1 < first \<and> rm_role (ex_messages ! (first - 1)) = ''assistant'' \<and> valid_segment_bounds ex_prompt (ex_messages ! (first - 1))
        then j + 1 = first else j = first)
     else j = 1"
    using live_suffix_is_unfinished_transaction [OF _ ex_tasks(2), of 1] by blast
  then have "1 < j" using t by (simp only: split: if_splits) blast+
  then show ?thesis using j t by blast
qed

end
