(* ===== verification/Harness_Pins.thy ===== *)
theory Harness_Pins
  imports Harness_Plan Request_Plan Keep_Allocation Tokenizer_Roundtrip
begin

text \<open>
  From a semantic plan to the tokens a request pins: \<open>normalize_byte_spans\<close>
  (\<open>src/src/normalized_byte_spans.hpp\<close>) and the section of the chat handler that follows it in
  \<open>src/src/qw3_server.cpp\<close>. The plan's byte ranges are moved into the normalised text, mapped to token ranges
  through the decoded pieces, turned into blocks, fitted into the window by \<open>fit_mandatory_blocks\<close>, and returned
  as pinned token ranges and a replay range. \<open>utf8proc\<close> (NFC, code points, grapheme
  breaks) is a parameter. Requests with file evidence, and the log line with its counts, are left out.
\<close>

section \<open>Spans of normalised text\<close>

record text_span =
  ts_begin :: nat
  ts_end :: nat

record normalized_spans =
  nz_text :: string
  nz_spans :: "text_span list"
  nz_rounded :: nat

record boundary =
  bd_byte :: nat
  bd_span :: nat
  bd_end :: bool

definition boundaries_of :: "text_span list \<Rightarrow> boundary list" where
  "boundaries_of spans = concat (map (\<lambda>i. [\<lparr>bd_byte = ts_begin (spans ! i), bd_span = i, bd_end = False\<rparr>,
      \<lparr>bd_byte = ts_end (spans ! i), bd_span = i, bd_end = True\<rparr>]) [0..<length spans])"

definition set_bound :: "text_span list \<Rightarrow> boundary \<Rightarrow> nat \<Rightarrow> text_span list" where
  "set_bound spans b v = spans[bd_span b :=
     (if bd_end b then (spans ! bd_span b)\<lparr>ts_end := v\<rparr> else (spans ! bd_span b)\<lparr>ts_begin := v\<rparr>)]"

text \<open>The loop of \<open>append_cluster\<close> over the boundaries up to the cluster's end.\<close>

definition place_value :: "nat \<Rightarrow> nat \<Rightarrow> nat \<Rightarrow> nat \<Rightarrow> bool \<Rightarrow> boundary \<Rightarrow> nat \<times> nat" where
  "place_value b e mapped_b mapped_e unchanged x =
     (if bd_byte x = b then (mapped_b, 0) else if bd_byte x = e then (mapped_e, 0)
      else if unchanged then (mapped_b + bd_byte x - b, 0)
      else (if bd_end x then mapped_e else mapped_b, 1))"

fun place :: "nat \<Rightarrow> nat \<Rightarrow> nat \<Rightarrow> nat \<Rightarrow> bool \<Rightarrow> boundary list \<Rightarrow> text_span list \<Rightarrow> nat \<Rightarrow> boundary list \<times> text_span list \<times> nat" where
  "place b e mb me unchanged [] spans rounded = ([], spans, rounded)"
| "place b e mb me unchanged (x # xs) spans rounded =
     (if bd_byte x \<le> e
      then case place_value b e mb me unchanged x of (v, r) \<Rightarrow> place b e mb me unchanged xs (set_bound spans x v) (rounded + r)
      else (x # xs, spans, rounded))"

record cluster_state =
  cs_next :: "boundary list"
  cs_joined :: string
  cs_spans :: "text_span list"
  cs_rounded :: nat

definition append_cluster :: "(string \<Rightarrow> string option) \<Rightarrow> string \<Rightarrow> cluster_state \<Rightarrow> nat \<Rightarrow> nat \<Rightarrow> cluster_state result" where
  "append_cluster nfc s st b e =
     (let original = substr s b e in
      case qwen_normalize_utf8 nfc original of Inl err \<Rightarrow> Inl err
      | Inr normalized \<Rightarrow>
        (let joined = cs_joined st @ normalized in
         case place b e (length (cs_joined st)) (length joined) (original = normalized) (cs_next st) (cs_spans st) (cs_rounded st) of
           (rest, spans, rounded) \<Rightarrow> Inr \<lparr>cs_next = rest, cs_joined = joined, cs_spans = spans, cs_rounded = rounded\<rparr>))"

text \<open>\<open>code_point\<close> is \<open>utf8proc_iterate\<close> (bytes consumed and the code point), \<open>grapheme_break\<close> its stateful break test.\<close>

function cluster_loop :: "(string \<Rightarrow> int \<times> int) \<Rightarrow> (int \<Rightarrow> int \<Rightarrow> int \<Rightarrow> bool \<times> int) \<Rightarrow> (string \<Rightarrow> string option) \<Rightarrow> string \<Rightarrow>
    cluster_state \<Rightarrow> nat \<Rightarrow> nat \<Rightarrow> int \<Rightarrow> int \<Rightarrow> cluster_state result" where
  "cluster_loop code_point grapheme_break nfc s st cluster cursor previous state =
     (if cursor < length s
      then case code_point (drop cursor s) of (bytes, current) \<Rightarrow>
        if bytes \<le> 0 then Inl InvalidArgument
        else if 0 \<le> previous
        then (case grapheme_break previous current state of (break, state') \<Rightarrow>
          if break
          then (case append_cluster nfc s st cluster cursor of Inl e \<Rightarrow> Inl e
            | Inr st' \<Rightarrow> cluster_loop code_point grapheme_break nfc s st' cursor (cursor + nat bytes) current state')
          else cluster_loop code_point grapheme_break nfc s st cluster (cursor + nat bytes) current state')
        else cluster_loop code_point grapheme_break nfc s st cluster (cursor + nat bytes) current state
      else append_cluster nfc s st cluster cursor)"
  by pat_completeness auto

termination
  by (relation "measure (\<lambda>(_, _, _, s, _, _, cursor, _). length s - cursor)") auto

declare cluster_loop.simps [simp del]

definition normalize_byte_spans :: "(string \<Rightarrow> int \<times> int) \<Rightarrow> (int \<Rightarrow> int \<Rightarrow> int \<Rightarrow> bool \<times> int) \<Rightarrow> (string \<Rightarrow> string option) \<Rightarrow>
    string \<Rightarrow> text_span list \<Rightarrow> normalized_spans result" where
  "normalize_byte_spans code_point grapheme_break nfc s spans =
     (case qwen_normalize_utf8 nfc s of Inl e \<Rightarrow> Inl e
      | Inr t \<Rightarrow>
        if list_ex (\<lambda>x. ts_end x < ts_begin x \<or> length s < ts_end x) spans then Inl InvalidArgument
        else if t = s \<or> spans = [] then Inr \<lparr>nz_text = t, nz_spans = spans, nz_rounded = 0\<rparr>
        else case cluster_loop code_point grapheme_break nfc s
            \<lparr>cs_next = sort_by (\<lambda>a b. bd_byte a < bd_byte b) (boundaries_of spans), cs_joined = [], cs_spans = spans, cs_rounded = 0\<rparr>
            0 0 (- 1) 0 of Inl e \<Rightarrow> Inl e
          | Inr st \<Rightarrow>
            if cs_joined st \<noteq> t \<or> cs_next st \<noteq> [] then Inl RuntimeError
            else Inr \<lparr>nz_text = t,
              nz_spans = map2 (\<lambda>old new. if ts_begin old = ts_end old then new\<lparr>ts_end := ts_begin new\<rparr> else new) spans (cs_spans st),
              nz_rounded = cs_rounded st\<rparr>)"

section \<open>From bytes to tokens\<close>

text \<open>The positions after each decoded piece, while the pieces spell the normalised text.\<close>

fun scan_pieces :: "(int \<Rightarrow> string) \<Rightarrow> string \<Rightarrow> nat \<Rightarrow> int list \<Rightarrow> nat list \<Rightarrow> bool \<times> nat \<times> nat list" where
  "scan_pieces dec s n [] acc = (True, n, acc)"
| "scan_pieces dec s n (t # ts) acc =
     (let piece = dec t in
      if length s < n + length piece \<or> substr s n (n + length piece) \<noteq> piece then (False, n, acc)
      else scan_pieces dec s (n + length piece) ts (acc @ [n + length piece]))"

definition token_bytes :: "(int \<Rightarrow> string) \<Rightarrow> string \<Rightarrow> int list \<Rightarrow> nat list option" where
  "token_bytes dec s ids = (case scan_pieces dec s 0 ids [0] of
     (decode_matches, n, tb) \<Rightarrow> if \<not> decode_matches \<or> n \<noteq> length s then None else Some tb)"

text \<open>The binary searches over the non-decreasing positions.\<close>

definition upper_bound :: "nat list \<Rightarrow> nat \<Rightarrow> nat" where
  "upper_bound xs v = length (takeWhile (\<lambda>x. x \<le> v) xs)"

definition lower_bound :: "nat list \<Rightarrow> nat \<Rightarrow> nat" where
  "lower_bound xs v = length (takeWhile (\<lambda>x. x < v) xs)"

definition map_byte_span :: "nat list \<Rightarrow> nat \<Rightarrow> nat \<Rightarrow> text_span \<Rightarrow> (nat \<times> nat) option" where
  "map_byte_span tb tokens bytes x =
     (if ts_end x \<le> ts_begin x \<or> bytes < ts_end x then None
      else let u = upper_bound tb (ts_begin x); b = (if u = 0 then 0 else u - 1); e = lower_bound tb (ts_end x) in
        if e \<le> b \<or> tokens < e then None else Some (u32 b, u32 e))"

section \<open>From tokens to pinned blocks\<close>

datatype pinned_reason = PinSystemControl | PinCurrentQuery | PinRootTask | PinProjectPolicy | PinLiveToolTrajectory
  | PinExplicitClient

fun generation_reason :: "span_reason \<Rightarrow> pinned_reason" where
  "generation_reason SystemControl = PinSystemControl"
| "generation_reason CurrentQuery = PinCurrentQuery"
| "generation_reason LiveToolTrajectory = PinLiveToolTrajectory"
| "generation_reason ProjectPolicy = PinProjectPolicy"
| "generation_reason RootTask = PinRootTask"

fun pin_priority :: "pinned_reason \<Rightarrow> nat" where
  "pin_priority PinSystemControl = 0"
| "pin_priority PinCurrentQuery = 0"
| "pin_priority PinRootTask = 1"
| "pin_priority PinProjectPolicy = 1"
| "pin_priority PinLiveToolTrajectory = 0"
| "pin_priority PinExplicitClient = 0"

record pin_config =
  pg_block_tokens :: int
  pg_semantic_budget :: nat
  pg_budget :: int
  pg_sink_blocks :: int
  pg_recent_blocks :: int
  pg_sink_tokens :: int
  pg_recent_tokens :: int

definition pg_block :: "pin_config \<Rightarrow> nat" where
  "pg_block cfg = nat (max 1 (pg_block_tokens cfg))"

definition pg_budget_tokens :: "pin_config \<Rightarrow> nat" where
  "pg_budget_tokens cfg = (if 0 < pg_semantic_budget cfg then pg_semantic_budget cfg else nat (max 0 (pg_budget cfg)))"

definition hard_span :: "nat \<Rightarrow> nat \<Rightarrow> (nat \<times> nat) \<times> pinned_reason \<Rightarrow> block_span" where
  "hard_span bt prompt_blocks pin = (case pin of ((b, e), reason) \<Rightarrow>
     \<lparr>bs_begin = b div bt, bs_end = min (u32 ((e - 1) div bt + 1)) prompt_blocks, bs_priority = pin_priority reason\<rparr>)"

text \<open>The loop that joins consecutive hard blocks into ranges.\<close>

fun join_blocks :: "nat list \<Rightarrow> (nat \<times> nat) list" where
  "join_blocks [] = []"
| "join_blocks (k # ks) = (case join_blocks ks of [] \<Rightarrow> [(k, k + 1)]
     | (b, e) # rs \<Rightarrow> if b = k + 1 then (k, e) # rs else (k, k + 1) # (b, e) # rs)"

datatype pin_error = SpanError error | DecodeMismatch | EmptyPin | EmptySuffix | KeepError error

record harness_pins =
  hp_spans :: "(nat \<times> nat) list"
  hp_suffix :: "(nat \<times> nat) option"
  hp_fit :: fit_result
  hp_pins :: "(nat \<times> nat) list"
  hp_replay :: "(nat \<times> nat) option"

text \<open>The two results of the mapping: the token ranges of the plan's spans and of its live suffix.\<close>

definition map_plan :: "(string \<Rightarrow> int list \<Rightarrow> nat list option) \<Rightarrow> (text_span list \<Rightarrow> normalized_spans result) \<Rightarrow> int list \<Rightarrow> semantic_plan \<Rightarrow>
    pin_error + (nat \<times> nat) list \<times> (nat \<times> nat) option" where
  "map_plan pieces to_nfc ids plan =
     (let span = (\<lambda>x. \<lparr>ts_begin = hb_begin x, ts_end = hb_end x\<rparr>) in
      case to_nfc (map span (sp_spans plan) @ (case sp_suffix plan of None \<Rightarrow> [] | Some x \<Rightarrow> [span x])) of
        Inl e \<Rightarrow> Inl (SpanError e)
      | Inr nz \<Rightarrow> (case pieces (nz_text nz) ids of None \<Rightarrow> Inl DecodeMismatch
        | Some tb \<Rightarrow>
          (let look = map_byte_span tb (length ids) (length (nz_text nz));
               mapped = map look (take (length (sp_spans plan)) (nz_spans nz)) in
           if None \<in> set mapped then Inl EmptyPin
           else case sp_suffix plan of None \<Rightarrow> Inr (map the mapped, None)
             | Some x \<Rightarrow> (case look (last (nz_spans nz)) of None \<Rightarrow> Inl EmptySuffix | Some r \<Rightarrow> Inr (map the mapped, Some r)))))"

text \<open>The fitting input the handler builds.\<close>

definition fit_input_of :: "pin_config \<Rightarrow> keep_allocation \<Rightarrow> nat \<Rightarrow> (nat \<times> nat) list \<Rightarrow> span_reason list \<Rightarrow> (nat \<times> nat) option \<Rightarrow> fit_input" where
  "fit_input_of cfg keep n spans reasons live =
     (let bt = pg_block cfg; prompt_blocks = u32 ((n + bt - 1) div bt) in
      \<lparr>fi_prompt = prompt_blocks, fi_budget = pg_budget_tokens cfg div bt,
       fi_sink = min (ka_sink_blocks keep) prompt_blocks, fi_recent = ka_recent_blocks keep,
       fi_spans = map (hard_span bt prompt_blocks) (zip spans (map generation_reason reasons)),
       fi_live_begin = (case live of None \<Rightarrow> prompt_blocks | Some (b, e) \<Rightarrow> b div bt),
       fi_live_end = (case live of None \<Rightarrow> prompt_blocks | Some (b, e) \<Rightarrow> min (u32 ((e - 1) div bt + 1)) prompt_blocks)\<rparr>)"

definition harness_pins :: "(string \<Rightarrow> int list \<Rightarrow> nat list option) \<Rightarrow> (text_span list \<Rightarrow> normalized_spans result) \<Rightarrow> pin_config \<Rightarrow>
    int list \<Rightarrow> semantic_plan \<Rightarrow> pin_error + harness_pins" where
  "harness_pins pieces to_nfc cfg ids plan =
     (case map_plan pieces to_nfc ids plan of Inl e \<Rightarrow> Inl e
      | Inr (spans, live) \<Rightarrow>
        (let bt = pg_block cfg; n = length ids in
         case resolve_keep_allocation bt (pg_budget_tokens cfg) (pg_sink_blocks cfg) (pg_recent_blocks cfg) (pg_sink_tokens cfg) (pg_recent_tokens cfg) of
           Inl e \<Rightarrow> Inl (KeepError e)
         | Inr keep \<Rightarrow>
           (let fit = fit_mandatory_blocks (fit_input_of cfg keep n spans (map hb_reason (sp_spans plan)) live) in
            Inr \<lparr>hp_spans = spans, hp_suffix = live, hp_fit = fit,
              hp_pins = map (\<lambda>(b, e). (u32 (b * bt), u32 (min (e * bt) n))) (join_blocks (fr_hard fit)),
              hp_replay = (case live of None \<Rightarrow> None | Some _ \<Rightarrow> Some (min (u32 (fr_replay_begin fit * bt)) (u32 n), u32 n))\<rparr>)))"

end
