(* ===== verification/Harness_Mapping.thy ===== *)
theory Harness_Mapping
  imports Harness_Pins
begin

text \<open>
  The mapping of \<open>Harness_Pins\<close> is total and exact: a span of the plan becomes the smallest token range whose pieces
  cover it, the pinned ranges are the tokens of the hard blocks, and when nothing has to be
  demoted every byte of the plan is in a pinned token.
\<close>

section \<open>Positions of the decoded pieces\<close>

definition piece_pos :: "(int \<Rightarrow> string) \<Rightarrow> int list \<Rightarrow> nat \<Rightarrow> nat" where
  "piece_pos dec ids k = length (concat (map dec (take k ids)))"

lemma piece_pos_0 [simp]: "piece_pos dec ids 0 = 0"
  by (simp add: piece_pos_def)

lemma piece_pos_all: "piece_pos dec ids (length ids) = length (concat (map dec ids))"
  by (simp add: piece_pos_def)

lemma piece_pos_mono: "i \<le> j \<Longrightarrow> piece_pos dec ids i \<le> piece_pos dec ids j"
proof -
  assume "i \<le> j"
  then have "take j ids = take i ids @ drop i (take j ids)" by (metis append_take_drop_id min.absorb2 min.commute take_take)
  then show ?thesis unfolding piece_pos_def by (metis concat_append length_append le_add1 map_append)
qed

lemma scan_pieces_eq:
  "n \<le> length s \<Longrightarrow> fst (scan_pieces dec s n ids acc) \<longleftrightarrow> prefix (concat (map dec ids)) (drop n s)"
  "fst (scan_pieces dec s n ids acc) \<Longrightarrow>
    snd (scan_pieces dec s n ids acc) = (n + length (concat (map dec ids)), acc @ map (\<lambda>k. n + piece_pos dec ids k) [1..<length ids + 1])"
proof (induction ids arbitrary: n acc)
  case (Cons t ids)
  define p where "p = dec t"
  have fits: "(\<not> (length s < n + length p \<or> substr s n (n + length p) \<noteq> p)) \<longleftrightarrow> prefix p (drop n s)" if "n \<le> length s" for n
  proof -
    have "length s < n + length p \<Longrightarrow> \<not> prefix p (drop n s)" using that by (auto dest!: prefix_length_le)
    moreover have "prefix p (drop n s) \<longleftrightarrow> take (length p) (drop n s) = p" by (metis append_eq_conv_conj prefix_def append_take_drop_id)
    ultimately show ?thesis by (auto simp: substr_def)
  qed
  { case 1
    show ?case
    proof (cases "prefix p (drop n s)")
      case True
      then obtain v where v: "drop n s = p @ v" by (auto simp: prefix_def)
      have len: "n + length p \<le> length s" using True prefix_length_le [OF True] 1 by simp
      have "drop (n + length p) s = v" using v by (metis add.commute append_eq_conv_conj drop_drop)
      moreover have "fst (scan_pieces dec s n (t # ids) acc) = fst (scan_pieces dec s (n + length p) ids (acc @ [n + length p]))"
        using True fits [OF 1] by (simp add: p_def Let_def)
      ultimately show ?thesis using Cons.IH(1) [OF len, of "acc @ [n + length p]"] v by (simp add: p_def)
    next
      case False
      then have "\<not> fst (scan_pieces dec s n (t # ids) acc)" using fits [OF 1] by (simp add: p_def Let_def)
      moreover have "\<not> prefix (concat (map dec (t # ids))) (drop n s)" using False by (auto simp: p_def dest: append_prefixD)
      ultimately show ?thesis by blast
    qed
  next
    case 2
    have step: "scan_pieces dec s n (t # ids) acc = scan_pieces dec s (n + length p) ids (acc @ [n + length p])"
      using 2 by (auto simp: p_def Let_def split: if_splits)
    have shift: "map (\<lambda>k. n + piece_pos dec (t # ids) k) [1..<length (t # ids) + 1] = (n + length p) # map (\<lambda>k. n + length p + piece_pos dec ids k) [1..<length ids + 1]"
    proof -
      have "[1..<length (t # ids) + 1] = 1 # [2..<length ids + 2]" by (subst upt_conv_Cons) (simp_all add: numeral_2_eq_2)
      then have "[1..<length (t # ids) + 1] = 1 # map Suc [1..<length ids + 1]" by (simp add: map_Suc_upt numeral_2_eq_2 del: upt_Suc)
      then show ?thesis by (simp add: piece_pos_def p_def del: upt_Suc)
    qed
    show ?case using Cons.IH(2) [of "n + length p" "acc @ [n + length p]"] 2 unfolding step shift by (simp add: p_def)
  }
qed (auto simp: piece_pos_def)

lemma token_bytes_iff: "token_bytes dec s ids = Some tb \<longleftrightarrow>
    concat (map dec ids) = s \<and> tb = map (piece_pos dec ids) [0..<length ids + 1]"
proof -
  obtain ok n out where r: "scan_pieces dec s 0 ids [0] = (ok, n, out)" by (metis prod_cases3)
  have ok: "ok \<longleftrightarrow> prefix (concat (map dec ids)) s" using scan_pieces_eq(1) [of 0 s dec ids "[0]"] r by simp
  have out: "ok \<Longrightarrow> n = length (concat (map dec ids)) \<and> out = 0 # map (piece_pos dec ids) [1..<length ids + 1]"
    using scan_pieces_eq(2) [of dec s 0 ids "[0]"] r by simp
  have upt: "map (piece_pos dec ids) [0..<length ids + 1] = 0 # map (piece_pos dec ids) [1..<length ids + 1]"
    by (simp add: upt_conv_Cons del: upt_Suc)
  have eq: "concat (map dec ids) = s \<longleftrightarrow> prefix (concat (map dec ids)) s \<and> length (concat (map dec ids)) = length s"
    by (metis prefix_order.refl not_equal_is_parallel parallelE)
  have "token_bytes dec s ids = (if \<not> ok \<or> n \<noteq> length s then None else Some out)" unfolding token_bytes_def r by simp
  then show ?thesis unfolding upt eq using ok out by auto
qed

section \<open>The binary searches\<close>

lemma take_while_upt:
  assumes "u = length (takeWhile P (map f [0..<n]))"
  shows "u \<le> n" "k < u \<Longrightarrow> P (f k)" "u < n \<Longrightarrow> \<not> P (f u)"
proof -
  show le: "u \<le> n" using length_takeWhile_le [of P "map f [0..<n]"] assms by simp
  show "\<not> P (f u)" if "u < n" using nth_length_takeWhile [of P "map f [0..<n]"] assms that by simp
  show "P (f k)" if "k < u"
  proof -
    have "takeWhile P (map f [0..<n]) ! k \<in> set (takeWhile P (map f [0..<n]))" using that assms by simp
    then have "P (takeWhile P (map f [0..<n]) ! k)" using set_takeWhileD by fast
    then show ?thesis using that assms le by (simp add: takeWhile_nth)
  qed
qed

text \<open>The smallest range of tokens whose pieces cover the span.\<close>

definition covers :: "(int \<Rightarrow> string) \<Rightarrow> int list \<Rightarrow> text_span \<Rightarrow> nat \<times> nat \<Rightarrow> bool" where
  "covers dec ids x r \<longleftrightarrow> fst r < snd r \<and> snd r \<le> length ids \<and>
     piece_pos dec ids (fst r) \<le> ts_begin x \<and> ts_end x \<le> piece_pos dec ids (snd r) \<and>
     ts_begin x < piece_pos dec ids (fst r + 1) \<and> piece_pos dec ids (snd r - 1) < ts_end x"

lemma map_byte_span_covers:
  assumes tb: "tb = map (piece_pos dec ids) [0..<length ids + 1]" "length (concat (map dec ids)) = bytes"
    and x: "ts_begin x < ts_end x" "ts_end x \<le> bytes" and n: "length ids \<le> UINT32_MAX"
  shows "\<exists>r. map_byte_span tb (length ids) bytes x = Some r \<and> covers dec ids x r"
proof -
  define f where "f = piece_pos dec ids"
  define u where "u = upper_bound tb (ts_begin x)"
  define e where "e = lower_bound tb (ts_end x)"
  have total: "f (length ids) = bytes" using piece_pos_all tb(2) by (simp add: f_def)
  have mono: "i \<le> j \<Longrightarrow> f i \<le> f j" for i j unfolding f_def by (rule piece_pos_mono)
  note U = take_while_upt [OF u_def [unfolded upper_bound_def tb(1) f_def [symmetric]]]
  note E = take_while_upt [OF e_def [unfolded lower_bound_def tb(1) f_def [symmetric]]]
  have f0: "f 0 = 0" by (simp add: f_def)
  have u0: "0 < u"
  proof (rule ccontr)
    assume "\<not> 0 < u"
    then show False using U(3) f0 by simp
  qed
  have un: "u \<le> length ids"
  proof (rule ccontr)
    assume "\<not> u \<le> length ids"
    then have "f (length ids) \<le> ts_begin x" by (intro U(2)) simp
    then show False using total x by simp
  qed
  have en: "e \<le> length ids"
  proof (rule ccontr)
    assume "\<not> e \<le> length ids"
    then have "f (length ids) < ts_end x" by (intro E(2)) simp
    then show False using total x by simp
  qed
  have fe: "ts_end x \<le> f e" using E(3) en by simp
  have fu: "ts_begin x < f u" using U(3) un by simp
  have fb: "f (u - 1) \<le> ts_begin x" using U(2) [of "u - 1"] u0 by simp
  have ue: "u - 1 < e"
  proof (rule ccontr)
    assume "\<not> u - 1 < e"
    then have "f e \<le> f (u - 1)" by (intro mono) simp
    then show False using fe fb x by simp
  qed
  have "f (e - 1) < ts_end x" using E(2) [of "e - 1"] ue by simp
  then have "covers dec ids x (u - 1, e)" using ue en fb fe fu u0 by (simp add: covers_def f_def)
  moreover have "map_byte_span tb (length ids) bytes x = Some (u - 1, e)"
    using x ue en u0 un n by (simp add: map_byte_span_def Let_def flip: u_def e_def)
  ultimately show ?thesis by blast
qed

text \<open>Every byte of a covered span is a byte of one of the tokens.\<close>

lemma covers_byte:
  assumes "covers dec ids x r" "ts_begin x \<le> k" "k < ts_end x"
  shows "\<exists>t. fst r \<le> t \<and> t < snd r \<and> piece_pos dec ids t \<le> k \<and> k < piece_pos dec ids (t + 1)"
proof -
  define Q where "Q = (\<lambda>t. t < snd r \<and> piece_pos dec ids t \<le> k)"
  define t where "t = Greatest Q"
  have ex: "Q (fst r)" using assms by (auto simp: covers_def Q_def)
  have bound: "y \<le> snd r" if "Q y" for y using that by (simp add: Q_def)
  have t: "t < snd r \<and> piece_pos dec ids t \<le> k" using GreatestI_nat [where P = Q, OF ex bound] by (simp add: t_def Q_def)
  have le: "fst r \<le> t" unfolding t_def by (rule Greatest_le_nat [where P = Q, OF ex bound])
  have "k < piece_pos dec ids (t + 1)"
  proof (cases "t + 1 < snd r")
    case True
    show ?thesis
    proof (rule ccontr)
      assume "\<not> k < piece_pos dec ids (t + 1)"
      then have "Q (t + 1)" using True by (simp add: Q_def)
      then have "t + 1 \<le> t" unfolding t_def by (rule Greatest_le_nat [where P = Q, OF _ bound])
      then show False by simp
    qed
  next
    case False
    then have "t + 1 = snd r" using t by simp
    then show ?thesis using assms by (simp add: covers_def)
  qed
  then show ?thesis using t le by blast
qed

section \<open>Joined blocks\<close>

definition pinned_token :: "(nat \<times> nat) list \<Rightarrow> nat \<Rightarrow> bool" where
  "pinned_token pins t = list_ex (\<lambda>r. fst r \<le> t \<and> t < snd r) pins"

lemma join_blocks_facts:
  assumes "sorted_wrt (<) ks"
  shows "sorted_wrt (\<lambda>x y. snd x < fst y) (join_blocks ks)" "\<forall>r \<in> set (join_blocks ks). fst r < snd r"
    "pinned_token (join_blocks ks) k \<longleftrightarrow> k \<in> set ks" "sum_list (map (\<lambda>r. snd r - fst r) (join_blocks ks)) = length ks"
    "join_blocks ks = [] \<longleftrightarrow> ks = []" "ks \<noteq> [] \<Longrightarrow> fst (hd (join_blocks ks)) = hd ks"
proof -
  have "sorted_wrt (\<lambda>x y. snd x < fst y) (join_blocks ks) \<and> (\<forall>r \<in> set (join_blocks ks). fst r < snd r) \<and>
    (\<forall>k. pinned_token (join_blocks ks) k \<longleftrightarrow> k \<in> set ks) \<and> sum_list (map (\<lambda>r. snd r - fst r) (join_blocks ks)) = length ks \<and>
    (join_blocks ks = [] \<longleftrightarrow> ks = []) \<and> (ks \<noteq> [] \<longrightarrow> fst (hd (join_blocks ks)) = hd ks)"
    using assms
  proof (induction ks)
    case (Cons k ks)
    then have IH: "sorted_wrt (\<lambda>x y. snd x < fst y) (join_blocks ks)" "\<forall>r \<in> set (join_blocks ks). fst r < snd r"
      "\<forall>k. pinned_token (join_blocks ks) k \<longleftrightarrow> k \<in> set ks" "sum_list (map (\<lambda>r. snd r - fst r) (join_blocks ks)) = length ks"
      "join_blocks ks = [] \<longleftrightarrow> ks = []" "ks \<noteq> [] \<Longrightarrow> fst (hd (join_blocks ks)) = hd ks" by auto
    show ?case
    proof (cases "join_blocks ks")
      case Nil
      then show ?thesis using IH(5) by (simp add: pinned_token_def) auto
    next
      case (Cons r rs)
      then have ks: "ks \<noteq> []" "fst r = hd ks" "k < hd ks" using IH(5,6) Cons.prems Cons by (auto simp: neq_Nil_conv)
      have mem: "j \<in> set ks \<longleftrightarrow> fst r \<le> j \<and> j < snd r \<or> pinned_token rs j" for j
        using IH(3) Cons by (auto simp: pinned_token_def)
      show ?thesis
      proof (cases "fst r = k + 1")
        case True
        then have j: "join_blocks (k # ks) = (k, snd r) # rs" using Cons by (cases r) simp
        have "fst r < snd r" using IH(2) Cons by simp
        then show ?thesis using IH(1,2,4) Cons True mem unfolding j by (auto simp: pinned_token_def)
      next
        case False
        then have j: "join_blocks (k # ks) = (k, k + 1) # r # rs" using Cons by (cases r) simp
        have "k + 1 < fst r" using ks False by simp
        moreover have "k + 1 < fst r'" if "r' \<in> set rs" for r' using IH(1,2) Cons that \<open>k + 1 < fst r\<close> by force
        ultimately show ?thesis using IH(1,2,4) Cons mem unfolding j by (auto simp: pinned_token_def)
      qed
    qed
  qed (simp add: pinned_token_def)
  then show "sorted_wrt (\<lambda>x y. snd x < fst y) (join_blocks ks)" "\<forall>r \<in> set (join_blocks ks). fst r < snd r"
    "pinned_token (join_blocks ks) k \<longleftrightarrow> k \<in> set ks" "sum_list (map (\<lambda>r. snd r - fst r) (join_blocks ks)) = length ks"
    "join_blocks ks = [] \<longleftrightarrow> ks = []" "ks \<noteq> [] \<Longrightarrow> fst (hd (join_blocks ks)) = hd ks" by blast+
qed

section \<open>Pins\<close>

lemma map_byte_span_le:
  assumes "map_byte_span tb n bytes x = Some r" "n \<le> UINT32_MAX"
  shows "fst r < snd r \<and> snd r \<le> n"
proof -
  define u where "u = upper_bound tb (ts_begin x)"
  define e where "e = lower_bound tb (ts_end x)"
  have "u - 1 < e" "e \<le> n" "r = (u32 (u - 1), u32 e)"
    using assms(1) by (auto simp: map_byte_span_def Let_def u_def [symmetric] e_def [symmetric] split: if_splits)
  then show ?thesis using assms(2) by simp
qed

lemma map_plan_ranges:
  assumes "map_plan pieces to_nfc ids plan = Inr (spans, live)" "length ids \<le> UINT32_MAX"
  shows "\<forall>r \<in> set spans \<union> set_option live. fst r < snd r \<and> snd r \<le> length ids" "length spans \<le> length (sp_spans plan)"
proof -
  define texts where "texts = map (\<lambda>x. \<lparr>ts_begin = hb_begin x, ts_end = hb_end x\<rparr>) (sp_spans plan) @
      (case sp_suffix plan of None \<Rightarrow> [] | Some x \<Rightarrow> [\<lparr>ts_begin = hb_begin x, ts_end = hb_end x\<rparr>])"
  obtain nz where nz: "to_nfc texts = Inr nz" using assms(1) by (cases "to_nfc texts") (auto simp: map_plan_def Let_def texts_def)
  obtain tb where tb: "pieces (nz_text nz) ids = Some tb" using assms(1) nz by (cases "pieces (nz_text nz) ids") (auto simp: map_plan_def Let_def texts_def)
  define look where "look = map_byte_span tb (length ids) (length (nz_text nz))"
  define mapped where "mapped = map look (take (length (sp_spans plan)) (nz_spans nz))"
  have plan: "map_plan pieces to_nfc ids plan = (if None \<in> set mapped then Inl EmptyPin
      else case sp_suffix plan of None \<Rightarrow> Inr (map the mapped, None)
        | Some x \<Rightarrow> (case look (last (nz_spans nz)) of None \<Rightarrow> Inl EmptySuffix | Some r \<Rightarrow> Inr (map the mapped, Some r)))"
    by (simp only: map_plan_def Let_def nz [unfolded texts_def] tb sum.case option.case look_def mapped_def)
  have r: "None \<notin> set mapped" "spans = map the mapped" "live = None \<or> live = look (last (nz_spans nz))"
    using assms(1) unfolding plan by (auto split: if_splits option.splits)
  show "length spans \<le> length (sp_spans plan)" using r(2) by (simp add: mapped_def)
  have one: "\<exists>x. look x = Some q" if "q \<in> set spans" for q
    using that r(1) unfolding r(2) mapped_def by auto (metis image_eqI option.exhaust_sel)
  show "\<forall>q \<in> set spans \<union> set_option live. fst q < snd q \<and> snd q \<le> length ids"
  proof
    fix q assume "q \<in> set spans \<union> set_option live"
    then have "q \<in> set spans \<or> look (last (nz_spans nz)) = Some q" using r(3) by (cases live) auto
    then obtain x where "look x = Some q" using one [of q] by blast
    then show "fst q < snd q \<and> snd q \<le> length ids" unfolding look_def by (rule map_byte_span_le [OF _ assms(2)])
  qed
qed

text \<open>Block arithmetic.\<close>

lemma block_index:
  assumes "0 < bt" "t < (n :: nat)" shows "t div bt < (n + bt - 1) div bt"
proof -
  have "t div bt * bt \<le> t" by simp
  moreover have "(t div bt + 1) * bt = t div bt * bt + bt" by simp
  ultimately have "(t div bt + 1) * bt \<le> n + bt - 1" using assms by linarith
  then show ?thesis using less_eq_div_iff_mult_less_eq [OF assms(1), of "t div bt + 1" "n + bt - 1"] by simp
qed

lemma block_start:
  assumes "0 < bt" "k < (n + bt - 1) div (bt :: nat)" shows "k * bt < n"
  using assms less_eq_div_iff_mult_less_eq [OF assms(1), of "k + 1" "n + bt - 1"] by (simp add: algebra_simps)

lemma blocks_le: "0 < bt \<Longrightarrow> (n + bt - 1) div bt \<le> (n :: nat)"
  using ceil_div_le_self [of bt n] by (simp add: ceil_div_def)

lemma block_range: "0 < (bt :: nat) \<Longrightarrow> b \<le> t \<Longrightarrow> t < e \<Longrightarrow> b div bt \<le> t div bt \<and> t div bt < (e - 1) div bt + 1"
  by (simp add: div_le_mono less_Suc_eq_le)

text \<open>Pinned token ranges are the tokens of the joined blocks.\<close>

lemma pins_tokens:
  assumes bt: "0 < bt" and n: "n \<le> UINT32_MAX" and ks: "sorted_wrt (<) ks" "\<forall>k \<in> set ks. k * bt < n"
    and pins: "pins = map (\<lambda>(b, e). (u32 (b * bt), u32 (min (e * bt) n))) (join_blocks ks)"
  shows "pinned_token pins t \<longleftrightarrow> t < n \<and> t div bt \<in> set ks" "sorted_wrt (\<lambda>x y. snd x < fst y) pins"
    "\<forall>r \<in> set pins. fst r < snd r \<and> snd r \<le> n" "sum_list (map (\<lambda>r. snd r - fst r) pins) \<le> length ks * bt"
proof -
  note J = join_blocks_facts [OF ks(1)]
  have b: "fst r * bt < n" if "r \<in> set (join_blocks ks)" for r
  proof -
    have "pinned_token (join_blocks ks) (fst r)" using that J(2) by (auto simp: pinned_token_def list_ex_iff)
    then show ?thesis using J(3) ks(2) by blast
  qed
  have "u32 (fst r * bt) = fst r * bt" "u32 (min (snd r * bt) n) = min (snd r * bt) n" if "r \<in> set (join_blocks ks)" for r
    using b [OF that] n by (auto intro!: u32_id)
  then have p: "pins = map (\<lambda>r. (fst r * bt, min (snd r * bt) n)) (join_blocks ks)"
    unfolding pins by (intro map_cong) (auto split: prod.splits)
  have "t div bt < e \<longleftrightarrow> t < e * bt" "b \<le> t div bt \<longleftrightarrow> b * bt \<le> t" for b e
    using bt by (simp_all add: div_less_iff_less_mult less_eq_div_iff_mult_less_eq)
  then have "pinned_token pins t \<longleftrightarrow> t < n \<and> pinned_token (join_blocks ks) (t div bt)"
    unfolding p pinned_token_def by (auto simp: list_ex_iff)
  then show "pinned_token pins t \<longleftrightarrow> t < n \<and> t div bt \<in> set ks" using J(3) by simp
  show "sorted_wrt (\<lambda>x y. snd x < fst y) pins" unfolding p sorted_wrt_map
    by (rule sorted_wrt_mono_rel [OF _ J(1)]) (use bt in \<open>simp add: min.strict_coboundedI1\<close>)
  show "\<forall>r \<in> set pins. fst r < snd r \<and> snd r \<le> n" unfolding p using J(2) b bt by auto
  have total: "sum_list (map (\<lambda>r. min (snd r * bt) n - fst r * bt) rs) \<le> sum_list (map (\<lambda>r. snd r - fst r) rs) * bt" for rs
    by (induction rs) (auto simp: algebra_simps min_def intro: add_mono)
  then show "sum_list (map (\<lambda>r. snd r - fst r) pins) \<le> length ks * bt" unfolding p using total [of "join_blocks ks"] J(4) by (simp add: comp_def)
qed

section \<open>What is pinned\<close>

lemma harness_pins_cases:
  assumes "harness_pins pieces to_nfc cfg ids plan = Inr out"
  obtains keep where "map_plan pieces to_nfc ids plan = Inr (hp_spans out, hp_suffix out)"
    "resolve_keep_allocation (pg_block cfg) (pg_budget_tokens cfg) (pg_sink_blocks cfg) (pg_recent_blocks cfg) (pg_sink_tokens cfg) (pg_recent_tokens cfg) = Inr keep"
    "hp_fit out = fit_mandatory_blocks (fit_input_of cfg keep (length ids) (hp_spans out) (map hb_reason (sp_spans plan)) (hp_suffix out))"
    "hp_pins out = map (\<lambda>(b, e). (u32 (b * pg_block cfg), u32 (min (e * pg_block cfg) (length ids)))) (join_blocks (fr_hard (hp_fit out)))"
    "hp_replay out = (case hp_suffix out of None \<Rightarrow> None | Some _ \<Rightarrow> Some (min (u32 (fr_replay_begin (hp_fit out) * pg_block cfg)) (u32 (length ids)), u32 (length ids)))"
proof -
  obtain spans live where m: "map_plan pieces to_nfc ids plan = Inr (spans, live)"
    using assms by (cases "map_plan pieces to_nfc ids plan") (auto simp: harness_pins_def)
  obtain keep where k: "resolve_keep_allocation (pg_block cfg) (pg_budget_tokens cfg) (pg_sink_blocks cfg) (pg_recent_blocks cfg) (pg_sink_tokens cfg) (pg_recent_tokens cfg) = Inr keep"
    using assms m by (cases "resolve_keep_allocation (pg_block cfg) (pg_budget_tokens cfg) (pg_sink_blocks cfg) (pg_recent_blocks cfg) (pg_sink_tokens cfg) (pg_recent_tokens cfg)")
      (auto simp: harness_pins_def Let_def)
  show ?thesis
    by (rule that [OF _ k]) (use assms m k in \<open>auto simp: harness_pins_def Let_def split: option.splits\<close>)
qed

lemma pg_block_pos: "0 < pg_block cfg"
  by (simp add: pg_block_def)

lemma keep_budget: "resolve_keep_allocation bt budget a b c d = Inr keep \<Longrightarrow> 0 < bt \<Longrightarrow> 0 < budget div bt"
  by (auto simp: resolve_keep_allocation_def div_greater_zero_iff split: if_splits)

text \<open>The numbers of a request: \<open>n\<close> tokens, block size \<open>bt\<close>, and ranges of tokens within the prompt.\<close>

definition pin_setting :: "pin_config \<Rightarrow> keep_allocation \<Rightarrow> nat \<Rightarrow> (nat \<times> nat) list \<Rightarrow> span_reason list \<Rightarrow> (nat \<times> nat) option \<Rightarrow>
    nat \<Rightarrow> nat \<Rightarrow> fit_input \<Rightarrow> bool" where
  "pin_setting cfg keep n spans reasons live bt pb x \<longleftrightarrow> 0 < n \<and> n \<le> UINT32_MAX \<and> bt = pg_block cfg \<and> pb = (n + bt - 1) div bt \<and>
     x = fit_input_of cfg keep n spans reasons live \<and> (\<forall>r \<in> set spans \<union> set_option live. fst r < snd r \<and> snd r \<le> n) \<and>
     length spans \<le> length reasons \<and> 0 < pg_budget_tokens cfg div bt"

lemma setting:
  assumes "pin_setting cfg keep n spans reasons live bt pb x"
  shows "0 < bt" "u32 pb = pb" "0 < pb" "pb \<le> n" "n \<le> UINT32_MAX" "0 < n" "pb = (n + bt - 1) div bt" "0 < pg_budget_tokens cfg div bt"
    "r \<in> set spans \<union> set_option live \<Longrightarrow> fst r < snd r \<and> snd r \<le> n" "length spans \<le> length reasons"
proof -
  have S: "0 < n" "n \<le> UINT32_MAX" "bt = pg_block cfg" "pb = (n + bt - 1) div bt"
    "\<forall>r \<in> set spans \<union> set_option live. fst r < snd r \<and> snd r \<le> n" "length spans \<le> length reasons" "0 < pg_budget_tokens cfg div bt"
    using assms unfolding pin_setting_def by blast+
  show btp: "0 < bt" using pg_block_pos S(3) by simp
  show le: "pb \<le> n" unfolding S(4) using btp by (rule blocks_le)
  show "u32 pb = pb" using le S(2) by (intro u32_id) simp
  show "0 < pb" using block_index [OF btp S(1)] S(4) by simp
  show "n \<le> UINT32_MAX" "0 < n" "pb = (n + bt - 1) div bt" "0 < pg_budget_tokens cfg div bt" "length spans \<le> length reasons" by (fact S)+
  show "r \<in> set spans \<union> set_option live \<Longrightarrow> fst r < snd r \<and> snd r \<le> n" using S(5) by blast
qed

lemma setting_fields:
  assumes "pin_setting cfg keep n spans reasons live bt pb x"
  shows "fi_prompt x = pb" "fi_budget x = pg_budget_tokens cfg div bt" "fi_spans x = map (hard_span bt pb) (zip spans (map generation_reason reasons))"
    "live = Some r \<Longrightarrow> fi_live_begin x = fst r div bt \<and> fi_live_end x = min (u32 ((snd r - 1) div bt + 1)) pb"
proof -
  have x: "x = fit_input_of cfg keep n spans reasons live" "bt = pg_block cfg" "(n + pg_block cfg - 1) div pg_block cfg = pb"
    using assms by (simp_all add: pin_setting_def)
  note f = x(1) [unfolded fit_input_of_def Let_def x(3) setting(2) [OF assms], folded x(2)]
  show "fi_prompt x = pb" "fi_budget x = pg_budget_tokens cfg div bt" "fi_spans x = map (hard_span bt pb) (zip spans (map generation_reason reasons))"
    "live = Some r \<Longrightarrow> fi_live_begin x = fst r div bt \<and> fi_live_end x = min (u32 ((snd r - 1) div bt + 1)) pb"
    by (simp_all add: f split: prod.splits)
qed

text \<open>A block of a range is a prompt block below the range's end, exactly as computed.\<close>

lemma range_block:
  assumes S: "pin_setting cfg keep n spans reasons live bt prompt_blocks x"
    and le: "snd r \<le> n" and t: "fst r \<le> t" "t < snd r"
  shows "fst r div bt \<le> t div bt" "t div bt < min (u32 ((snd r - 1) div bt + 1)) prompt_blocks" "t div bt < prompt_blocks"
proof -
  have B: "fst r div bt \<le> t div bt \<and> t div bt < (snd r - 1) div bt + 1" by (rule block_range [OF setting(1) [OF S] t])
  have last: "(snd r - 1) div bt < prompt_blocks" unfolding setting(7) [OF S] by (rule block_index [OF setting(1) [OF S]]) (use le t in simp)
  have "u32 ((snd r - 1) div bt + 1) = (snd r - 1) div bt + 1" using last setting(4,5) [OF S] by (intro u32_id) simp
  then show "fst r div bt \<le> t div bt" "t div bt < min (u32 ((snd r - 1) div bt + 1)) prompt_blocks" "t div bt < prompt_blocks"
    using B last by auto
qed

lemma span_raw:
  assumes S: "pin_setting cfg keep n spans reasons live bt prompt_blocks x"
  shows "r \<in> set spans \<Longrightarrow> fst r \<le> t \<Longrightarrow> t < snd r \<Longrightarrow> fit_raw_marks x ! (t div bt) \<and> t div bt < prompt_blocks"
proof -
  assume r: "r \<in> set spans" "fst r \<le> t" "t < snd r"
  then obtain i where i: "i < length spans" "spans ! i = r" by (auto simp: in_set_conv_nth)
  have le: "snd r \<le> n" using setting(9) [OF S, of r] r(1) by blast
  note R = range_block [OF S le r(2,3)] and F = setting_fields [OF S]
  have "(r, generation_reason (reasons ! i)) \<in> set (zip spans (map generation_reason reasons))"
    using i setting(10) [OF S] by (force simp: set_zip)
  then have "hard_span bt prompt_blocks (r, generation_reason (reasons ! i)) \<in> set (fi_spans x)" by (simp add: F(3))
  moreover have "bs_begin (hard_span bt prompt_blocks (r, g)) \<le> t div bt \<and> t div bt < bs_end (hard_span bt prompt_blocks (r, g))" for g
    using R(1,2) by (cases r) (simp add: hard_span_def)
  ultimately show ?thesis using fit_raw_marks_nth [of "t div bt" x] R(3) F(1) by auto
qed

lemma live_raw:
  assumes S: "pin_setting cfg keep n spans reasons live bt prompt_blocks x"
  shows "live = Some r \<Longrightarrow> fst r \<le> t \<Longrightarrow> t < snd r \<Longrightarrow> fit_raw_marks x ! (t div bt) \<and> t div bt < prompt_blocks"
  using range_block [OF S, of r t] setting(9) [OF S, of r] setting_fields(1,4) [OF S] fit_raw_marks_nth [of "t div bt" x] by auto

lemma hard_start:
  assumes S: "pin_setting cfg keep n spans reasons live bt prompt_blocks x"
  shows "k \<in> set (fr_hard (fit_mandatory_blocks x)) \<Longrightarrow> k < prompt_blocks \<and> k * bt < n"
proof -
  assume "k \<in> set (fr_hard (fit_mandatory_blocks x))"
  then have "k < prompt_blocks" using fit_budget_facts [of x] setting_fields(1,2) [OF S] setting(3,8) [OF S] by (auto simp: Let_def)
  then show ?thesis using block_start [OF setting(1) [OF S]] setting(7) [OF S] by simp
qed

lemma hard_count:
  assumes S: "pin_setting cfg keep n spans reasons live bt prompt_blocks x"
  shows "length (fr_hard (fit_mandatory_blocks x)) * bt \<le> pg_budget_tokens cfg" "sorted_wrt (<) (fr_hard (fit_mandatory_blocks x))"
proof -
  have f: "length (fr_hard (fit_mandatory_blocks x)) \<le> pg_budget_tokens cfg div bt"
    "sorted (fr_hard (fit_mandatory_blocks x))" "distinct (fr_hard (fit_mandatory_blocks x))"
    using fit_budget_facts [of x] setting_fields(1,2) [OF S] setting(3,8) [OF S] by (auto simp: Let_def split: if_splits)
  have "length (fr_hard (fit_mandatory_blocks x)) * bt \<le> pg_budget_tokens cfg div bt * bt" by (rule mult_le_mono1 [OF f(1)])
  also have "\<dots> \<le> pg_budget_tokens cfg" by simp
  finally show "length (fr_hard (fit_mandatory_blocks x)) * bt \<le> pg_budget_tokens cfg" .
  show "sorted_wrt (<) (fr_hard (fit_mandatory_blocks x))" using f(2,3) by (simp add: strict_sorted_iff)
qed

lemma live_replay:
  assumes S: "pin_setting cfg keep n spans reasons live bt prompt_blocks x" and r: "live = Some r"
  shows "fst r div bt \<le> fr_replay_begin (fit_mandatory_blocks x)"
    "fr_replay_begin (fit_mandatory_blocks x) * bt \<le> t \<Longrightarrow> t < snd r \<Longrightarrow> t div bt \<in> set (fr_hard (fit_mandatory_blocks x))"
    "\<not> fr_fitted (fit_mandatory_blocks x) \<Longrightarrow> fr_replay_begin (fit_mandatory_blocks x) = fst r div bt"
    "fr_replay_begin (fit_mandatory_blocks x) \<le> prompt_blocks"
proof -
  note F = setting_fields [OF S] and B = setting(1,3,8) [OF S]
  have le: "fst r < snd r" "snd r \<le> n" using setting(9) [OF S, of r] r by auto
  have lt: "fi_live_begin x < min (fi_live_end x) (fi_prompt x)"
    using range_block [OF S le(2) order.refl le(1)] F(1,4) r by simp
  have nf: "\<not> fr_fitted (fit_mandatory_blocks x) \<Longrightarrow> fr_replay_begin (fit_mandatory_blocks x) = fst r div bt"
    using fit_all_hard [of x] F r B lt by simp
  show "\<not> fr_fitted (fit_mandatory_blocks x) \<Longrightarrow> fr_replay_begin (fit_mandatory_blocks x) = fst r div bt" by (rule nf)
  show b: "fst r div bt \<le> fr_replay_begin (fit_mandatory_blocks x)"
    using nf fit_replay_hard(1) [of x] F(1,4) r B lt by (cases "fr_fitted (fit_mandatory_blocks x)") auto
  show "fr_replay_begin (fit_mandatory_blocks x) \<le> prompt_blocks"
    using nf fit_replay_hard(2) [of x] range_block(3) [OF S le(2) order.refl le(1)] F(1) B lt
    by (cases "fr_fitted (fit_mandatory_blocks x)") auto
  assume t: "fr_replay_begin (fit_mandatory_blocks x) * bt \<le> t" "t < snd r"
  have ge: "fr_replay_begin (fit_mandatory_blocks x) \<le> t div bt" using t(1) B(1) by (simp add: less_eq_div_iff_mult_less_eq)
  have upper: "t div bt < min (fi_live_end x) (fi_prompt x)"
  proof -
    have "t div bt < (snd r - 1) div bt + 1" using t(2) by (simp add: div_le_mono less_Suc_eq_le)
    moreover have "(snd r - 1) div bt < prompt_blocks" unfolding setting(7) [OF S] by (rule block_index [OF B(1)]) (use le in simp)
    moreover from this have "u32 ((snd r - 1) div bt + 1) = (snd r - 1) div bt + 1" using setting(4,5) [OF S] by (intro u32_id) simp
    ultimately show ?thesis using F(1,4) r by simp
  qed
  show "t div bt \<in> set (fr_hard (fit_mandatory_blocks x))"
  proof (cases "fr_fitted (fit_mandatory_blocks x)")
    case True
    then show ?thesis using fit_replay_hard(3) [of x] F(1) B lt ge upper by auto
  next
    case False
    have "fit_raw_marks x ! (t div bt)" using fit_raw_marks_nth [of "t div bt" x] upper ge b F(1) F(4) [OF r] by auto
    then show ?thesis using fit_all_hard [of x] False F(1,2) B upper by simp
  qed
qed

lemma harness_pins_facts:
  assumes "harness_pins pieces to_nfc cfg ids plan = Inr out" "length ids + pg_block cfg \<le> UINT32_MAX" "ids \<noteq> []"
  shows "(pinned_token (hp_pins out) t \<longleftrightarrow> t < length ids \<and> t div pg_block cfg \<in> set (fr_hard (hp_fit out))) \<and>
    sorted_wrt (\<lambda>x y. snd x < fst y) (hp_pins out) \<and> list_all (\<lambda>r. fst r < snd r \<and> snd r \<le> length ids) (hp_pins out) \<and>
    sum_list (map (\<lambda>r. snd r - fst r) (hp_pins out)) \<le> pg_budget_tokens cfg \<and>
    (\<not> fr_fitted (hp_fit out) \<and> list_ex (\<lambda>r. fst r \<le> t \<and> t < snd r) (hp_spans out @ (case hp_suffix out of None \<Rightarrow> [] | Some r \<Rightarrow> [r])) \<longrightarrow>
       pinned_token (hp_pins out) t) \<and>
    (case hp_suffix out of None \<Rightarrow> hp_replay out = None
     | Some r \<Rightarrow> (\<exists>b. hp_replay out = Some (b, length ids) \<and> fst r div pg_block cfg * pg_block cfg \<le> b \<and>
        (b \<le> t \<and> t < snd r \<longrightarrow> pinned_token (hp_pins out) t) \<and> (\<not> fr_fitted (hp_fit out) \<longrightarrow> b \<le> fst r)))"
proof -
  define bt where "bt = pg_block cfg"
  define n where "n = length ids"
  have small: "length ids \<le> UINT32_MAX" using assms(2) by simp
  obtain keep where C: "map_plan pieces to_nfc ids plan = Inr (hp_spans out, hp_suffix out)"
    "resolve_keep_allocation (pg_block cfg) (pg_budget_tokens cfg) (pg_sink_blocks cfg) (pg_recent_blocks cfg) (pg_sink_tokens cfg) (pg_recent_tokens cfg) = Inr keep"
    "hp_fit out = fit_mandatory_blocks (fit_input_of cfg keep (length ids) (hp_spans out) (map hb_reason (sp_spans plan)) (hp_suffix out))"
    "hp_pins out = map (\<lambda>(b, e). (u32 (b * pg_block cfg), u32 (min (e * pg_block cfg) (length ids)))) (join_blocks (fr_hard (hp_fit out)))"
    "hp_replay out = (case hp_suffix out of None \<Rightarrow> None | Some _ \<Rightarrow> Some (min (u32 (fr_replay_begin (hp_fit out) * pg_block cfg)) (u32 (length ids)), u32 (length ids)))"
    by (rule harness_pins_cases [OF assms(1)])
  define x where "x = fit_input_of cfg keep n (hp_spans out) (map hb_reason (sp_spans plan)) (hp_suffix out)"
  have fit: "hp_fit out = fit_mandatory_blocks x" using C(3) by (simp add: x_def n_def)
  have S: "pin_setting cfg keep n (hp_spans out) (map hb_reason (sp_spans plan)) (hp_suffix out) bt ((n + bt - 1) div bt) x"
    using map_plan_ranges [OF C(1) small] keep_budget [OF C(2) pg_block_pos] small assms(3)
    by (auto simp: pin_setting_def n_def bt_def x_def)
  note B = setting [OF S] and F = setting_fields [OF S]
  note P = pins_tokens [OF B(1) B(5) hard_count(2) [OF S], folded fit, OF _ C(4) [folded bt_def n_def]]
  have ks: "\<forall>k \<in> set (fr_hard (hp_fit out)). k * bt < n" using hard_start [OF S] unfolding fit by blast
  note P = P [OF ks]
  have pin: "pinned_token (hp_pins out) t \<longleftrightarrow> t < n \<and> t div bt \<in> set (fr_hard (hp_fit out))" by (rule P(1))
  have total: "sum_list (map (\<lambda>r. snd r - fst r) (hp_pins out)) \<le> pg_budget_tokens cfg"
    using P(4) hard_count(1) [OF S] unfolding fit by simp
  have kept: "pinned_token (hp_pins out) t" if all: "\<not> fr_fitted (hp_fit out)" and cov: "list_ex (\<lambda>r. fst r \<le> t \<and> t < snd r) (hp_spans out @ (case hp_suffix out of None \<Rightarrow> [] | Some r \<Rightarrow> [r]))"
  proof -
    obtain r where r: "r \<in> set (hp_spans out) \<or> hp_suffix out = Some r" "fst r \<le> t" "t < snd r"
      using cov by (cases "hp_suffix out") (auto simp: list_ex_iff)
    then have raw: "fit_raw_marks x ! (t div bt) \<and> t div bt < (n + bt - 1) div bt" using span_raw [OF S, of r t] live_raw [OF S, of r t] by blast
    have "snd r \<le> n" using r(1) B(9) by auto
    then show ?thesis using pin raw fit_all_hard [of x] all r(3) F(1,2) B(3,8) fit by simp
  qed
  have replay: "\<exists>b. hp_replay out = Some (b, n) \<and> fst r div bt * bt \<le> b \<and>
      (b \<le> t \<and> t < snd r \<longrightarrow> pinned_token (hp_pins out) t) \<and> (\<not> fr_fitted (hp_fit out) \<longrightarrow> b \<le> fst r)" if r: "hp_suffix out = Some r" for r
  proof -
    define w where "w = fr_replay_begin (hp_fit out) * bt"
    note L = live_replay [OF S r, folded fit]
    have le: "fst r < snd r" "snd r \<le> n" using B(9) r by auto
    have start: "fst r div bt * bt \<le> w" using L(1) by (simp add: w_def)
    have fst: "fst r div bt * bt \<le> fst r" by simp
    have w: "u32 w = w"
    proof (rule u32_id)
      have "w \<le> (n + bt - 1) div bt * bt" using L(4) by (simp add: w_def)
      also have "\<dots> \<le> n + bt - 1" by simp
      finally show "w \<le> UINT32_MAX" using assms(2) by (simp add: n_def bt_def)
    qed
    have "u32 n = n" using B(5) by simp
    then have rep: "hp_replay out = Some (min w n, n)" using C(5) r w by (simp add: w_def bt_def n_def)
    have "fst r div bt * bt \<le> min w n" using start fst le by linarith
    moreover have "pinned_token (hp_pins out) t" if "min w n \<le> t" "t < snd r"
      using L(2) [of t] that le pin by (auto simp: w_def min_def split: if_splits)
    moreover have "min w n \<le> fst r" if "\<not> fr_fitted (hp_fit out)" unfolding w_def L(3) [OF that] using fst by linarith
    ultimately show ?thesis using rep by blast
  qed
  show ?thesis
    unfolding bt_def [symmetric] n_def [symmetric]
    by (intro conjI) (use pin P(2,3) total kept in \<open>simp_all add: list_all_iff\<close>, cases "hp_suffix out", use replay C(5) in \<open>simp_all only: option.case\<close>)
qed


section \<open>The mapping never fails\<close>

abbreviation text_of :: "byte_span \<Rightarrow> text_span" where
  "text_of x \<equiv> \<lparr>ts_begin = hb_begin x, ts_end = hb_end x\<rparr>"

lemma plan_texts:
  assumes "plan = derive_harness_semantic_plan kind p control ms"
  shows "x \<in> set (sp_spans plan) \<Longrightarrow> hb_begin x < hb_end x \<and> hb_end x \<le> length p"
    "sp_suffix plan = Some x \<Longrightarrow> hb_begin x < hb_end x \<and> hb_end x \<le> length p"
proof -
  show "x \<in> set (sp_spans plan) \<Longrightarrow> hb_begin x < hb_end x \<and> hb_end x \<le> length p"
  proof (cases "kind = NoHarness")
    case False
    assume "x \<in> set (sp_spans plan)"
    then have "x \<in> set (plan_pins kind p control ms)" using plan_fields(1) [OF False, of p control ms] assms by simp
    then show ?thesis by (rule plan_pins_bounds)
  qed (simp add: assms derive_harness_semantic_plan_def empty_plan_def)
  show "sp_suffix plan = Some x \<Longrightarrow> hb_begin x < hb_end x \<and> hb_end x \<le> length p"
    by (auto simp: assms derive_harness_semantic_plan_def empty_plan_def Let_def valid_segment_bounds_def split: if_splits option.splits)
qed

lemma map_plan_total:
  assumes nz: "\<And>xs. list_all (\<lambda>x. ts_begin x \<le> ts_end x \<and> ts_end x \<le> length s) xs \<Longrightarrow> to_nfc xs = Inr \<lparr>nz_text = s, nz_spans = xs, nz_rounded = 0\<rparr>"
    and ids: "concat (map dec ids) = s" "length ids \<le> UINT32_MAX"
    and spans: "\<And>x. x \<in> set (sp_spans plan) \<Longrightarrow> hb_begin x < hb_end x \<and> hb_end x \<le> length s"
      "\<And>x. sp_suffix plan = Some x \<Longrightarrow> hb_begin x < hb_end x \<and> hb_end x \<le> length s"
  shows "\<exists>ranges live. map_plan (token_bytes dec) to_nfc ids plan = Inr (ranges, live) \<and>
    list_all2 (\<lambda>x. covers dec ids (text_of x)) (sp_spans plan) ranges \<and> rel_option (\<lambda>x. covers dec ids (text_of x)) (sp_suffix plan) live"
proof -
  define tb where "tb = map (piece_pos dec ids) [0..<length ids + 1]"
  define look where "look = map_byte_span tb (length ids) (length s)"
  define texts where "texts = map text_of (sp_spans plan) @ (case sp_suffix plan of None \<Rightarrow> [] | Some x \<Rightarrow> [text_of x])"
  have one: "\<exists>r. look (text_of x) = Some r \<and> covers dec ids (text_of x) r" if "x \<in> set (sp_spans plan) \<or> sp_suffix plan = Some x" for x
    unfolding look_def by (rule map_byte_span_covers [OF tb_def]) (use ids spans that in auto)
  have tbs: "token_bytes dec s ids = Some tb" using ids(1) by (simp add: token_bytes_iff tb_def)
  have "list_all (\<lambda>x. ts_begin x \<le> ts_end x \<and> ts_end x \<le> length s) texts"
    using spans by (auto simp: texts_def list_all_iff less_imp_le split: option.splits)
  then have n: "to_nfc texts = Inr \<lparr>nz_text = s, nz_spans = texts, nz_rounded = 0\<rparr>" by (rule nz)
  have front: "take (length (sp_spans plan)) texts = map text_of (sp_spans plan)" by (simp add: texts_def)
  define mapped where "mapped = map look (map text_of (sp_spans plan))"
  have plan: "map_plan (token_bytes dec) to_nfc ids plan = (if None \<in> set mapped then Inl EmptyPin
      else case sp_suffix plan of None \<Rightarrow> Inr (map the mapped, None)
        | Some x \<Rightarrow> (case look (last texts) of None \<Rightarrow> Inl EmptySuffix | Some r \<Rightarrow> Inr (map the mapped, Some r)))"
    unfolding map_plan_def Let_def texts_def [symmetric] n tbs sum.case option.case look_def mapped_def normalized_spans.simps
    by (simp only: tbs option.case front)
  have none: "None \<notin> set mapped" using one by (auto simp: mapped_def) (metis option.distinct(1))
  have all2: "list_all2 (\<lambda>x. covers dec ids (text_of x)) (sp_spans plan) (map the mapped)"
    unfolding mapped_def list.map_comp by (rule list_all2_map2 [THEN iffD2], rule list.rel_refl_strong) (use one in fastforce)
  show ?thesis
  proof (cases "sp_suffix plan")
    case None
    then show ?thesis using plan none all2 by simp
  next
    case (Some x)
    obtain r where "look (text_of x) = Some r" "covers dec ids (text_of x) r" using one Some by blast
    moreover have "last texts = text_of x" using Some by (simp add: texts_def)
    ultimately show ?thesis using plan none all2 Some by simp
  qed
qed

lemma harness_plan_facts:
  assumes "tokenizer_from_gguf m = Inr tk" "byte_level_vocab m" "\<not> tk_add_bos tk"
    and "\<And>t. sublist t prompt \<Longrightarrow> qwen_normalize_utf8 nfc t = Inr t" "\<And>w. mset (schedule w) = mset w"
    and "encode nfc u cpus schedule tk prompt False = Inr ids" "length ids + pg_block cfg \<le> UINT32_MAX"
    and "resolve_keep_allocation (pg_block cfg) (pg_budget_tokens cfg) (pg_sink_blocks cfg) (pg_recent_blocks cfg) (pg_sink_tokens cfg) (pg_recent_tokens cfg) = Inr keep"
    and "plan = derive_harness_semantic_plan kind prompt control ms" "pos = (\<lambda>t. length (decode tk (take t ids)))"
  shows "\<exists>out. harness_pins (token_bytes (decode_one tk)) (normalize_byte_spans code_point grapheme_break nfc prompt) cfg ids plan = Inr out \<and>
    list_all2 (\<lambda>x. covers (decode_one tk) ids (text_of x)) (sp_spans plan) (hp_spans out) \<and>
    rel_option (\<lambda>x. covers (decode_one tk) ids (text_of x)) (sp_suffix plan) (hp_suffix out) \<and>
    (\<not> fr_fitted (hp_fit out) \<and> (x \<in> set (sp_spans plan) \<or> sp_suffix plan = Some x) \<and> hb_begin x \<le> k \<and> k < hb_end x \<longrightarrow>
       (\<exists>t. pinned_token (hp_pins out) t \<and> pos t \<le> k \<and> k < pos (t + 1)))"
proof -
  have ok: "tokenizer_ok tk" by (rule from_gguf_ok [OF assms(1)])
  have "set (schedule w) = set w" for w using assms(5) mset_eq_setD by blast
  note E = encode_plain [where schedule = schedule, OF ok this]
  obtain ids' where "plain_encode (encode_regular_chunk nfc u tk) tk prompt = Inr ids'" "decode tk ids' = prompt"
    using plain_encode_total [OF assms(4) ok from_gguf_byte_level [OF assms(1,2)], where u = u] by blast
  then have dec: "decode tk ids = prompt" using assms(3,6) by (simp add: E both_def front_def)
  have small: "length ids \<le> UINT32_MAX" using assms(7) by simp
  have norm: "normalize_byte_spans code_point grapheme_break nfc prompt xs = Inr \<lparr>nz_text = prompt, nz_spans = xs, nz_rounded = 0\<rparr>"
    if "list_all (\<lambda>x. ts_begin x \<le> ts_end x \<and> ts_end x \<le> length prompt) xs" for xs
  proof -
    have "\<not> list_ex (\<lambda>x. ts_end x < ts_begin x \<or> length prompt < ts_end x) xs" using that by (auto simp: list_ex_iff list_all_iff)
    then show ?thesis using assms(4) [of prompt] by (simp add: normalize_byte_spans_def)
  qed
  obtain ranges live where M: "map_plan (token_bytes (decode_one tk)) (normalize_byte_spans code_point grapheme_break nfc prompt) ids plan = Inr (ranges, live)"
    "list_all2 (\<lambda>x. covers (decode_one tk) ids (text_of x)) (sp_spans plan) ranges" "rel_option (\<lambda>x. covers (decode_one tk) ids (text_of x)) (sp_suffix plan) live"
    using map_plan_total [where to_nfc = "normalize_byte_spans code_point grapheme_break nfc prompt" and dec = "decode_one tk" and plan = plan,
        OF norm dec [unfolded decode_def] small plan_texts(1) [OF assms(9)] plan_texts(2) [OF assms(9)]] by blast
  obtain out where out: "harness_pins (token_bytes (decode_one tk)) (normalize_byte_spans code_point grapheme_break nfc prompt) cfg ids plan = Inr out"
    "hp_spans out = ranges" "hp_suffix out = live"
    using M(1) assms(8) by (simp add: harness_pins_def Let_def)
  have pos: "pos t = piece_pos (decode_one tk) ids t" for t by (simp add: assms(10) piece_pos_def decode_def)
  have "\<exists>t. pinned_token (hp_pins out) t \<and> pos t \<le> k \<and> k < pos (t + 1)"
    if x: "\<not> fr_fitted (hp_fit out)" "x \<in> set (sp_spans plan) \<or> sp_suffix plan = Some x" "hb_begin x \<le> k" "k < hb_end x"
  proof -
    obtain r where r: "r \<in> set ranges \<or> live = Some r" "covers (decode_one tk) ids (text_of x) r"
      using x(2)
    proof
      assume "x \<in> set (sp_spans plan)"
      then obtain i where i: "i < length (sp_spans plan)" "x = sp_spans plan ! i" by (auto simp: in_set_conv_nth)
      have "ranges ! i \<in> set ranges" using i list_all2_lengthD [OF M(2)] by simp
      moreover have "covers (decode_one tk) ids (text_of x) (ranges ! i)" using list_all2_nthD [OF M(2) i(1)] i(2) by simp
      ultimately show ?thesis using that by blast
    next
      assume "sp_suffix plan = Some x"
      then show ?thesis using that M(3) by (cases live) auto
    qed
    obtain t where t: "fst r \<le> t" "t < snd r" "pos t \<le> k" "k < pos (t + 1)"
      using covers_byte [OF r(2), of k] x(3,4) pos by auto
    have "ids \<noteq> []" using r(2) by (auto simp: covers_def)
    note H = harness_pins_facts [OF out(1) assms(7) this, of t]
    have "list_ex (\<lambda>r. fst r \<le> t \<and> t < snd r) (hp_spans out @ (case hp_suffix out of None \<Rightarrow> [] | Some r \<Rightarrow> [r]))"
    proof -
      have "r \<in> set (hp_spans out @ (case hp_suffix out of None \<Rightarrow> [] | Some r \<Rightarrow> [r]))" using r(1) out(2,3) by (cases live) auto
      then show ?thesis using t unfolding list_ex_iff by blast
    qed
    then show ?thesis using H x(1) t by blast
  qed
  then show ?thesis using out M by blast
qed


section \<open>A request\<close>

lemma ex_decode_one: "0 \<le> i \<Longrightarrow> i < vocab_size ex_tokenizer \<Longrightarrow> decode_one ex_tokenizer i \<noteq> []"
proof -
  assume i: "0 \<le> i" "i < vocab_size ex_tokenizer"
  define w where "w = tk_tokens ex_tokenizer ! nat i"
  have "nat i < length (tk_tokens ex_tokenizer)" using i by (simp add: vocab_size_def)
  then have "w \<in> set (tk_tokens ex_tokenizer)" by (simp add: w_def)
  then have "w \<in> set byte_chars \<or> w \<in> {''th'', ''the'', ''<|im_start|>'', ''<think>''}"
    by (simp only: ex_tokenizer_fields(3) set_append list.set Un_iff)
  moreover have "length byte_chars = 256" by (simp only: byte_chars_def length_map table)
  then have "w \<in> set byte_chars \<Longrightarrow> \<exists>b. w = byte_to_char b"
    unfolding in_set_conv_nth byte_to_char_def by (metis byte_char_of)
  ultimately consider b where "w = byte_to_char b" | "w \<in> {''th'', ''the'', ''<|im_start|>'', ''<think>''}" by blast
  then have "decode_from w 0 \<noteq> []"
  proof cases
    case 1
    then show ?thesis using decode_bytes [of "[b]"] by (simp add: bytes_to_chars_def)
  next
    case 2
    then have "list_all (\<lambda>c. 33 \<le> byte c \<and> byte c < 127) w" by (auto simp: byte_def of_char_def)
    then show ?thesis using decode_bytes [of w] bytes_to_chars_ascii 2 by auto
  qed
  then show ?thesis using i by (simp add: decode_one_def w_def)
qed

lemma ex_encoding:
  assumes "list_all (\<lambda>c. byte c < 128) s"
  obtains ids where "encode (\<lambda>_. None) ex_unicode cpus rev ex_tokenizer s False = Inr ids" "length ids \<le> length s" "decode ex_tokenizer ids = s"
proof -
  have n: "qwen_normalize_utf8 (\<lambda>_. None) t = Inr t" if "sublist t s" for t
    using assms set_mono_sublist [OF that] by (auto simp: list_all_iff qwen_normalize_utf8_def)
  note ok = from_gguf_ok [OF ex_tokenizer_built]
  from plain_encode_total [OF n ok from_gguf_byte_level [OF ex_tokenizer_built ex_metadata_complete]]
  obtain ids where ids: "plain_encode (encode_regular_chunk (\<lambda>_. None) ex_unicode ex_tokenizer) ex_tokenizer s = Inr ids" "decode ex_tokenizer ids = s"
    by blast
  have "encode (\<lambda>_. None) ex_unicode cpus rev ex_tokenizer s False = Inr ids"
    using encode_plain [OF ok, of rev] ids(1) by (simp add: both_def front_def ex_tokenizer_fields)
  moreover have "decode_one ex_tokenizer i \<noteq> []" if "i \<in> set ids" for i
  proof -
    have "0 \<le> i \<and> i < vocab_size ex_tokenizer" by (rule in_vocab_plain [OF ok chunk_in_vocab [OF ok] ids(1) that])
    then show ?thesis using ex_decode_one by blast
  qed
  then have "length ids \<le> length (decode ex_tokenizer ids)"
    unfolding decode_def by (induction ids) (auto simp: Suc_le_eq intro: add_less_le_mono, fastforce simp: neq_Nil_conv)
  ultimately show ?thesis using that ids(2) by metis
qed

definition ex_config :: pin_config where
  "ex_config = \<lparr>pg_block_tokens = 128, pg_semantic_budget = 0, pg_budget = 131072, pg_sink_blocks = - 1, pg_recent_blocks = 40,
     pg_sink_tokens = 1000, pg_recent_tokens = - 1\<rparr>"

lemma ex_config_keep: "\<exists>keep. resolve_keep_allocation (pg_block ex_config) (pg_budget_tokens ex_config) (pg_sink_blocks ex_config)
    (pg_recent_blocks ex_config) (pg_sink_tokens ex_config) (pg_recent_tokens ex_config) = Inr keep" "pg_block ex_config = 128"
proof -
  have "pg_block ex_config = 128" "pg_budget_tokens ex_config = 131072" by (simp_all add: ex_config_def pg_block_def pg_budget_tokens_def)
  then show "\<exists>keep. resolve_keep_allocation (pg_block ex_config) (pg_budget_tokens ex_config) (pg_sink_blocks ex_config)
    (pg_recent_blocks ex_config) (pg_sink_tokens ex_config) (pg_recent_tokens ex_config) = Inr keep" "pg_block ex_config = 128"
    using ex_keep by (simp_all add: ex_config_def)
qed

lemma ex_prompt_ascii: "list_all (\<lambda>c. byte c < 128) ex_prompt" "length ex_prompt = 61"
  by (simp_all add: ex_prompt_def byte_def of_char_def)

lemma ex_ids:
  obtains ids keep where "encode (\<lambda>_. None) ex_unicode 4 rev ex_tokenizer ex_prompt False = Inr ids" "length ids + pg_block ex_config \<le> UINT32_MAX"
    "resolve_keep_allocation (pg_block ex_config) (pg_budget_tokens ex_config) (pg_sink_blocks ex_config)
      (pg_recent_blocks ex_config) (pg_sink_tokens ex_config) (pg_recent_tokens ex_config) = Inr keep" "ids \<noteq> []"
proof -
  obtain ids where ids: "encode (\<lambda>_. None) ex_unicode 4 rev ex_tokenizer ex_prompt False = Inr ids" "length ids \<le> 61" "decode ex_tokenizer ids = ex_prompt"
    using ex_encoding [OF ex_prompt_ascii(1), of 4] ex_prompt_ascii(2) by metis
  moreover have "ids \<noteq> []" using ids(3) by (auto simp: ex_prompt_def)
  ultimately show ?thesis using ex_config_keep that by (auto simp: UINT32_MAX_def)
qed

lemma ex_normal: "sublist t ex_prompt \<Longrightarrow> qwen_normalize_utf8 (\<lambda>_. None) t = Inr t"
  using ex_prompt_ascii(1) by (auto simp: list_all_iff qwen_normalize_utf8_def dest: set_mono_sublist)



end
