(* ===== verification/Harness_Normalize.thy ===== *)
theory Harness_Normalize
  imports Harness_Pins
begin

text \<open>
  Moving byte spans into normalised text (\<open>normalize_byte_spans\<close>) keeps them proper whatever the normalisation and the
  grapheme rule are: each begins no later than it ends, within the normalised text.
\<close>

section \<open>Boundaries\<close>

definition bnd :: "text_span list \<Rightarrow> nat \<Rightarrow> bool \<Rightarrow> boundary" where
  "bnd spans i f = \<lparr>bd_byte = (if f then ts_end (spans ! i) else ts_begin (spans ! i)), bd_span = i, bd_end = f\<rparr>"

lemma bnd_simps [simp]: "bd_span (bnd spans i f) = i" "bd_end (bnd spans i f) = f" "bd_byte (bnd spans i True) = ts_end (spans ! i)"
  "bd_byte (bnd spans i False) = ts_begin (spans ! i)" "bnd spans i f = bnd spans j g \<longleftrightarrow> i = j \<and> f = g"
  by (auto simp: bnd_def)

lemma boundaries_eq: "boundaries_of spans = concat (map (\<lambda>i. [bnd spans i False, bnd spans i True]) [0..<length spans])"
  by (simp add: boundaries_of_def bnd_def)

lemma set_boundaries: "set (boundaries_of spans) = {bnd spans i f | i f. i < length spans}"
  unfolding boundaries_eq by (auto simp: set_eq_iff ex_bool_eq)

text \<open>
  \<open>placed todo J cur\<close>: the boundaries not in \<open>todo\<close> have been given values up to \<open>J\<close>; a proper span whose end was
  placed has its begin placed, no later.
\<close>

definition placed :: "text_span list \<Rightarrow> boundary list \<Rightarrow> nat \<Rightarrow> text_span list \<Rightarrow> bool" where
  "placed spans todo J cur \<longleftrightarrow> length cur = length spans \<and> sorted_wrt (\<lambda>x y. bd_byte x \<le> bd_byte y) todo \<and>
     set todo \<subseteq> set (boundaries_of spans) \<and>
     (\<forall>i < length spans. (bnd spans i False \<notin> set todo \<longrightarrow> ts_begin (cur ! i) \<le> J) \<and>
        (bnd spans i True \<notin> set todo \<longrightarrow> ts_end (cur ! i) \<le> J) \<and>
        (ts_begin (spans ! i) < ts_end (spans ! i) \<and> bnd spans i True \<notin> set todo \<longrightarrow>
           bnd spans i False \<notin> set todo \<and> ts_begin (cur ! i) \<le> ts_end (cur ! i)))"

lemma placed_mono: "placed spans todo J cur \<Longrightarrow> J \<le> K \<Longrightarrow> placed spans todo K cur"
  by (fastforce simp: placed_def)

section \<open>One cluster\<close>

text \<open>A cluster \<open>[b, e)\<close> of the text becomes \<open>[mb, me)\<close> of the result.\<close>

definition cluster_ok :: "nat \<Rightarrow> nat \<Rightarrow> nat \<Rightarrow> nat \<Rightarrow> bool \<Rightarrow> bool" where
  "cluster_ok b e mb me unchanged \<longleftrightarrow> b \<le> e \<and> mb \<le> me \<and> (unchanged \<longrightarrow> me = mb + (e - b))"

lemma place_value_range:
  "cluster_ok b e mb me u \<Longrightarrow> b \<le> bd_byte x \<Longrightarrow> bd_byte x \<le> e \<Longrightarrow>
    mb \<le> fst (place_value b e mb me u x) \<and> fst (place_value b e mb me u x) \<le> me"
  by (auto simp: cluster_ok_def place_value_def)

lemma place_value_mono:
  assumes "cluster_ok b e mb me u" "b \<le> ts_begin (spans ! i)" "ts_begin (spans ! i) \<le> ts_end (spans ! i)" "ts_end (spans ! i) \<le> e"
  shows "fst (place_value b e mb me u (bnd spans i False)) \<le> fst (place_value b e mb me u (bnd spans i True))"
  using assms by (auto simp: cluster_ok_def place_value_def)

lemma place_placed:
  assumes ok: "cluster_ok b e mb me u" and proper: "\<forall>i < length spans. ts_begin (spans ! i) \<le> ts_end (spans ! i)"
  shows "placed spans todo me cur \<Longrightarrow> \<forall>x \<in> set todo. b \<le> bd_byte x \<Longrightarrow> distinct todo \<Longrightarrow>
    \<forall>i < length spans. bnd spans i False \<notin> set todo \<and> bnd spans i True \<in> set todo \<and> ts_end (spans ! i) \<le> e \<longrightarrow>
      ts_begin (cur ! i) \<le> fst (place_value b e mb me u (bnd spans i True)) \<Longrightarrow>
    place b e mb me u todo cur r = (rest, cur', r') \<Longrightarrow>
    placed spans rest me cur' \<and> (\<forall>x \<in> set rest. e < bd_byte x) \<and> distinct rest"
proof (induction todo arbitrary: cur r)
  case (Cons x xs)
  show ?case
  proof (cases "bd_byte x \<le> e")
    case True
    obtain i f where i: "i < length spans" "x = bnd spans i f" using Cons.prems(1) by (auto simp: placed_def set_boundaries)
    define v where "v = fst (place_value b e mb me u x)"
    define new where "new = set_bound cur x v"
    have P: "length cur = length spans" "sorted_wrt (\<lambda>x y. bd_byte x \<le> bd_byte y) (x # xs)" "set (x # xs) \<subseteq> set (boundaries_of spans)"
      "\<And>j. j < length spans \<Longrightarrow> bnd spans j False \<notin> set (x # xs) \<Longrightarrow> ts_begin (cur ! j) \<le> me"
      "\<And>j. j < length spans \<Longrightarrow> bnd spans j True \<notin> set (x # xs) \<Longrightarrow> ts_end (cur ! j) \<le> me"
      "\<And>j. j < length spans \<Longrightarrow> ts_begin (spans ! j) < ts_end (spans ! j) \<Longrightarrow> bnd spans j True \<notin> set (x # xs) \<Longrightarrow>
         bnd spans j False \<notin> set (x # xs) \<and> ts_begin (cur ! j) \<le> ts_end (cur ! j)"
      using Cons.prems(1) unfolding placed_def by blast+
    have v: "v \<le> me" using place_value_range [OF ok, of x] Cons.prems(2) True by (simp add: v_def)
    have nth: "new ! j = (if j = i then (if f then (cur ! i)\<lparr>ts_end := v\<rparr> else (cur ! i)\<lparr>ts_begin := v\<rparr>) else cur ! j)" for j
      using i P(1) by (simp add: new_def set_bound_def nth_list_update)
    have le: "b \<le> ts_begin (spans ! i)" if "\<not> f" using Cons.prems(2) i that by simp
    have bound: "ts_begin (new ! j) \<le> fst (place_value b e mb me u (bnd spans j True))"
      if "j < length spans" "bnd spans j False \<notin> set xs" "bnd spans j True \<in> set xs" "ts_end (spans ! j) \<le> e" for j
    proof (cases "j = i \<and> \<not> f")
      case True
      then show ?thesis using nth [of j] i place_value_mono [OF ok le] proper that(4) by (simp add: v_def)
    next
      case False
      then have "bnd spans j False \<notin> set (x # xs)" using that(2) i(2) by auto
      then have "ts_begin (cur ! j) \<le> fst (place_value b e mb me u (bnd spans j True))" using Cons.prems(4) that by auto
      then show ?thesis using nth [of j] False by auto
    qed
    have placed': "placed spans xs me new"
      unfolding placed_def
    proof (intro conjI allI impI)
      show "length new = length spans" using P(1) by (simp add: new_def set_bound_def)
      show "sorted_wrt (\<lambda>x y. bd_byte x \<le> bd_byte y) xs" "set xs \<subseteq> set (boundaries_of spans)" using P(2,3) by simp_all
      fix j assume j: "j < length spans"
      show "ts_begin (new ! j) \<le> me" if "bnd spans j False \<notin> set xs"
        using nth [of j] P(4) [OF j] that i v by (cases "j = i \<and> \<not> f") auto
      show "ts_end (new ! j) \<le> me" if "bnd spans j True \<notin> set xs"
        using nth [of j] P(5) [OF j] that i v by (cases "j = i \<and> f") auto
      assume p: "ts_begin (spans ! j) < ts_end (spans ! j) \<and> bnd spans j True \<notin> set xs"
      have "bnd spans j False \<notin> set xs \<and> ts_begin (new ! j) \<le> ts_end (new ! j)"
      proof (cases "j = i \<and> f")
        case True
        have begin_: "bnd spans j False \<notin> set (x # xs)"
        proof
          assume "bnd spans j False \<in> set (x # xs)"
          then have "bd_byte x \<le> ts_begin (spans ! j)" using P(2) True i(2) by auto
          then show False using p True i(2) by simp
        qed
        have "ts_begin (cur ! j) \<le> v" using Cons.prems(4) j begin_ True i(2) \<open>bd_byte x \<le> e\<close> by (simp add: v_def)
        then show ?thesis using begin_ nth [of j] True by simp
      next
        case False
        then have "bnd spans j True \<notin> set (x # xs)" using p i(2) by auto
        then have "bnd spans j False \<notin> set (x # xs) \<and> ts_begin (cur ! j) \<le> ts_end (cur ! j)" using P(6) [OF j] p by blast
        then show ?thesis using nth [of j] i(2) False by (cases "j = i") auto
      qed
      then show "bnd spans j False \<notin> set xs" "ts_begin (new ! j) \<le> ts_end (new ! j)" by blast+
    qed
    have "place b e mb me u xs new (r + snd (place_value b e mb me u x)) = (rest, cur', r')"
      using Cons.prems(5) True by (simp add: v_def new_def split: prod.splits)
    then show ?thesis using Cons.IH [OF placed'] Cons.prems(2,3) bound by simp
  next
    case False
    then show ?thesis using Cons.prems by (fastforce simp: placed_def)
  qed
qed simp

lemma distinct_boundaries: "distinct (boundaries_of spans)"
proof -
  have "distinct (concat (map (\<lambda>i. [bnd spans i False, bnd spans i True]) [0..<n]))" for n
    by (induction n) auto
  then show ?thesis unfolding boundaries_eq by blast
qed

lemma append_cluster_placed:
  assumes "append_cluster nfc s st b e = Inr st'" "b \<le> e" "e \<le> length s"
    and proper: "\<forall>i < length spans. ts_begin (spans ! i) \<le> ts_end (spans ! i)"
    and "placed spans (cs_next st) (length (cs_joined st)) (cs_spans st)" "\<forall>x \<in> set (cs_next st). b \<le> bd_byte x" "distinct (cs_next st)"
  shows "placed spans (cs_next st') (length (cs_joined st')) (cs_spans st') \<and> (\<forall>x \<in> set (cs_next st'). e < bd_byte x) \<and> distinct (cs_next st')"
proof -
  define mb where "mb = length (cs_joined st)"
  obtain t where t: "qwen_normalize_utf8 nfc (substr s b e) = Inr t"
    using assms(1) by (cases "qwen_normalize_utf8 nfc (substr s b e)") (auto simp: append_cluster_def Let_def)
  define me where "me = length (cs_joined st @ t)"
  define u where "u = (substr s b e = t)"
  obtain rest cur r where p: "place b e mb me u (cs_next st) (cs_spans st) (cs_rounded st) = (rest, cur, r)" by (metis prod_cases3)
  have st': "st' = \<lparr>cs_next = rest, cs_joined = cs_joined st @ t, cs_spans = cur, cs_rounded = r\<rparr>"
    using assms(1) t p by (simp add: append_cluster_def Let_def mb_def me_def u_def)
  have "length (substr s b e) = e - b" using assms(2,3) by (simp add: substr_def)
  then have ok: "cluster_ok b e mb me u" using assms(2) by (auto simp: cluster_ok_def mb_def me_def u_def)
  have me: "mb \<le> me" by (simp add: mb_def me_def)
  have X: "ts_begin (cs_spans st ! i) \<le> fst (place_value b e mb me u (bnd spans i True))"
    if "i < length spans" "bnd spans i False \<notin> set (cs_next st)" "bnd spans i True \<in> set (cs_next st)" "ts_end (spans ! i) \<le> e" for i
  proof -
    have "ts_begin (cs_spans st ! i) \<le> mb" using assms(5) that by (simp add: placed_def mb_def)
    also have "b \<le> bd_byte (bnd spans i True)" using assms(6) that(3) by blast
    then have "mb \<le> fst (place_value b e mb me u (bnd spans i True))" using place_value_range [OF ok] that(4) by simp
    finally show ?thesis .
  qed
  have "placed spans rest me cur \<and> (\<forall>x \<in> set rest. e < bd_byte x) \<and> distinct rest"
    by (rule place_placed [OF ok proper placed_mono [OF assms(5) [folded mb_def] me] assms(6,7) _ p]) (use X in blast)
  then show ?thesis by (simp add: st' me_def)
qed

section \<open>The whole text\<close>

lemma cluster_loop_placed:
  assumes proper: "\<forall>i < length spans. ts_begin (spans ! i) \<le> ts_end (spans ! i)"
  shows "\<forall>t. fst (code_point t) \<le> int (length t) \<Longrightarrow> cluster_loop code_point grapheme_break nfc s st cluster cursor previous state = Inr st' \<Longrightarrow> cluster \<le> cursor \<Longrightarrow> cursor \<le> length s \<Longrightarrow>
    placed spans (cs_next st) (length (cs_joined st)) (cs_spans st) \<Longrightarrow> \<forall>x \<in> set (cs_next st). cluster \<le> bd_byte x \<Longrightarrow> distinct (cs_next st) \<Longrightarrow>
    placed spans (cs_next st') (length (cs_joined st')) (cs_spans st')"
proof (induction code_point grapheme_break nfc s st cluster cursor previous state rule: cluster_loop.induct)
  case (1 code_point grapheme_break nfc s st cluster cursor previous state)
  show ?case
  proof (cases "cursor < length s")
    case True
    obtain bytes cur where c: "code_point (drop cursor s) = (bytes, cur)" by fastforce
    note eq = "1.prems"(2) [unfolded cluster_loop.simps [of code_point grapheme_break nfc s st cluster cursor] if_P [OF True] c prod.case]
    have nb: "\<not> bytes \<le> 0"
    proof
      assume b: "bytes \<le> 0"
      show False using eq unfolding if_P [OF b] by simp
    qed
    note eq = eq [unfolded if_not_P [OF nb]]
    have "bytes \<le> int (length (drop cursor s))" using "1.prems"(1) c by (metis fst_conv)
    then have next_: "cursor + nat bytes \<le> length s" using True nb by simp
    show ?thesis
    proof (cases "0 \<le> previous")
      case prev: True
      obtain brk state' where g: "grapheme_break previous cur state = (brk, state')" by fastforce
      note eq = eq [unfolded if_P [OF prev] g prod.case]
      show ?thesis
      proof (cases brk)
        case brk: True
        note eq = eq [unfolded if_P [OF brk]]
        obtain st1 where ap: "append_cluster nfc s st cluster cursor = Inr st1" using eq by (cases "append_cluster nfc s st cluster cursor") simp_all
        note A = append_cluster_placed [OF ap "1.prems"(3,4) proper "1.prems"(5-7)]
        have le: "\<forall>x \<in> set (cs_next st1). cursor \<le> bd_byte x" using A by (simp add: less_imp_le)
        show ?thesis
          using "1.IH"(1) [OF True c [symmetric] nb prev g [symmetric] brk ap "1.prems"(1)] eq ap A le next_ by simp
      next
        case nbrk: False
        show ?thesis
          using "1.IH"(2) [OF True c [symmetric] nb prev g [symmetric] nbrk "1.prems"(1)] eq nbrk "1.prems"(3-7) next_ by simp
      qed
    next
      case nprev: False
      show ?thesis
        using "1.IH"(3) [OF True c [symmetric] nb nprev "1.prems"(1)] eq nprev "1.prems"(3-7) next_ by simp
    qed
  next
    case False
    note eq = "1.prems"(2) [unfolded cluster_loop.simps [of code_point grapheme_break nfc s st cluster cursor] if_not_P [OF False]]
    show ?thesis using append_cluster_placed [OF eq "1.prems"(3,4) proper "1.prems"(5-7)] by blast
  qed
qed

text \<open>
  Whatever the normalisation and the grapheme rule, a mapping that succeeds returns as many spans as it was given, each
  proper in the normalised text, and an empty span stays empty. (The code point reader, \<open>utf8proc_iterate\<close>, does not
  read past the bytes it is given.)
\<close>

theorem normalized_spans_proper:
  assumes "normalize_byte_spans code_point grapheme_break nfc s spans = Inr nz" "\<And>t. fst (code_point t) \<le> int (length t)"
  shows "qwen_normalize_utf8 nfc s = Inr (nz_text nz) \<and> length (nz_spans nz) = length spans \<and>
    list_all2 (\<lambda>old new. ts_begin new \<le> ts_end new \<and> ts_end new \<le> length (nz_text nz) \<and>
      (ts_begin old = ts_end old \<longrightarrow> ts_begin new = ts_end new)) spans (nz_spans nz)"
proof -
  obtain t where t: "qwen_normalize_utf8 nfc s = Inr t" using assms(1) by (cases "qwen_normalize_utf8 nfc s") (auto simp: normalize_byte_spans_def)
  have valid: "\<not> list_ex (\<lambda>x. ts_end x < ts_begin x \<or> length s < ts_end x) spans"
    using assms(1) t by (auto simp: normalize_byte_spans_def)
  then have proper: "\<forall>i < length spans. ts_begin (spans ! i) \<le> ts_end (spans ! i)" "\<forall>x \<in> set spans. ts_begin x \<le> ts_end x \<and> ts_end x \<le> length s"
    by (auto simp: list_ex_iff not_less)
  show ?thesis
  proof (cases "t = s \<or> spans = []")
    case True
    then have "nz = \<lparr>nz_text = t, nz_spans = spans, nz_rounded = 0\<rparr>" using assms(1) t valid by (simp add: normalize_byte_spans_def)
    then show ?thesis using t True proper by (auto simp: list_all2_conv_all_nth)
  next
    case False
    define st0 where "st0 = \<lparr>cs_next = sort_by (\<lambda>a b. bd_byte a < bd_byte b) (boundaries_of spans), cs_joined = [], cs_spans = spans, cs_rounded = 0\<rparr>"
    obtain st where st: "cluster_loop code_point grapheme_break nfc s st0 0 0 (- 1) 0 = Inr st" "cs_joined st = t" "cs_next st = []"
      "nz = \<lparr>nz_text = t, nz_spans = map2 (\<lambda>old new. if ts_begin old = ts_end old then new\<lparr>ts_end := ts_begin new\<rparr> else new) spans (cs_spans st),
        nz_rounded = cs_rounded st\<rparr>"
      using assms(1) t valid False
      by (cases "cluster_loop code_point grapheme_break nfc s st0 0 0 (- 1) 0") (auto simp: normalize_byte_spans_def st0_def split: if_splits)
    have "strict_weak (\<lambda>a b. bd_byte a < bd_byte b)" by (auto simp: strict_weak_def)
    from sorted_sort_by [OF this, of "boundaries_of spans"]
    have "placed spans (cs_next st0) (length (cs_joined st0)) (cs_spans st0)"
      by (auto simp: placed_def st0_def not_less set_boundaries)
    then have "placed spans (cs_next st) (length (cs_joined st)) (cs_spans st)"
      by (intro cluster_loop_placed [OF proper(1) _ st(1)]) (use assms(2) distinct_boundaries in \<open>auto simp: st0_def\<close>)
    then have P: "length (cs_spans st) = length spans" "\<And>i. i < length spans \<Longrightarrow> ts_begin (cs_spans st ! i) \<le> length t \<and> ts_end (cs_spans st ! i) \<le> length t"
      "\<And>i. i < length spans \<Longrightarrow> ts_begin (spans ! i) < ts_end (spans ! i) \<Longrightarrow> ts_begin (cs_spans st ! i) \<le> ts_end (cs_spans st ! i)"
      by (simp_all add: placed_def st(2,3))
    have "ts_begin (spans ! i) < ts_end (spans ! i) \<or> ts_begin (spans ! i) = ts_end (spans ! i)" if "i < length spans" for i
      using proper(1) that by (simp add: le_less)
    then show ?thesis using t P by (auto simp: st(4) list_all2_conv_all_nth)
  qed
qed

section \<open>A decomposed letter\<close>

text \<open>The text \<open>e\<close>, combining acute, \<open>x\<close>: the first two code points are one grapheme, two bytes long once composed.\<close>

definition ex_text :: string where "ex_text = [CHR ''e'', CHR 0xCC, CHR 0x81, CHR ''x'']"

definition ex_nfc :: "string \<Rightarrow> string option" where
  "ex_nfc s = Some (if take 3 s = take 3 ex_text then [CHR 0xC3, CHR 0xA9] @ drop 3 s else s)"

definition ex_code_point :: "string \<Rightarrow> int \<times> int" where
  "ex_code_point s = (case s of [] \<Rightarrow> (0, 0) | [c] \<Rightarrow> (1, of_nat (byte c)) | c # _ \<Rightarrow> (if byte c < 128 then 1 else 2, of_nat (byte c)))"

definition ex_break :: "int \<Rightarrow> int \<Rightarrow> int \<Rightarrow> bool \<times> int" where
  "ex_break a b st = (b < 128, st)"

lemma ex_spans: "normalize_byte_spans ex_code_point ex_break ex_nfc ex_text [\<lparr>ts_begin = 0, ts_end = 1\<rparr>, \<lparr>ts_begin = 3, ts_end = 4\<rparr>] =
    Inr \<lparr>nz_text = [CHR 0xC3, CHR 0xA9, CHR ''x''], nz_spans = [\<lparr>ts_begin = 0, ts_end = 2\<rparr>, \<lparr>ts_begin = 2, ts_end = 3\<rparr>], nz_rounded = 1\<rparr>"
  by code_simp

theorem normalized_spans_proper_witness:
  "\<exists>nz. normalize_byte_spans ex_code_point ex_break ex_nfc ex_text [\<lparr>ts_begin = 0, ts_end = 1\<rparr>, \<lparr>ts_begin = 3, ts_end = 4\<rparr>] = Inr nz \<and>
     nz_rounded nz = 1 \<and> list_all (\<lambda>x. ts_begin x \<le> ts_end x \<and> ts_end x \<le> length (nz_text nz)) (nz_spans nz)"
proof -
  have "fst (ex_code_point t) \<le> int (length t)" for t by (simp add: ex_code_point_def split: list.splits)
  note P = normalized_spans_proper [OF ex_spans this]
  show ?thesis by (intro exI, rule conjI [OF ex_spans]) (use P in simp)
qed

end
