(* ===== verification/Sha256.thy ===== *)
theory Sha256
  imports Prelude "HOL-Library.While_Combinator"
begin

unbundle bit_operations_syntax

text \<open>
  The streaming hash of \<open>src/src/sha256.hpp\<close>, on words of its widths: the compression function, the
  block buffer that \<open>update\<close> fills, and \<open>finish_hex\<close> with its padding. The reference is the one-shot hash
  of the standard: pad the whole message, compress it block by block, print the chaining value.
  \<open>hash_streams\<close> says the two agree for every way of cutting the message, as long as its length in bits fits
  64 bits (beyond that both count modulo \<open>2 ^ 64\<close>).
\<close>

section \<open>The compression function\<close>

definition rotr :: "32 word \<Rightarrow> nat \<Rightarrow> 32 word" where
  "rotr x n = drop_bit n x OR push_bit (32 - n) x"

definition round_constants :: "32 word list" where
  "round_constants = concat
    [[0x428a2f98, 0x71374491, 0xb5c0fbcf, 0xe9b5dba5], [0x3956c25b, 0x59f111f1, 0x923f82a4, 0xab1c5ed5],
     [0xd807aa98, 0x12835b01, 0x243185be, 0x550c7dc3], [0x72be5d74, 0x80deb1fe, 0x9bdc06a7, 0xc19bf174],
     [0xe49b69c1, 0xefbe4786, 0x0fc19dc6, 0x240ca1cc], [0x2de92c6f, 0x4a7484aa, 0x5cb0a9dc, 0x76f988da],
     [0x983e5152, 0xa831c66d, 0xb00327c8, 0xbf597fc7], [0xc6e00bf3, 0xd5a79147, 0x06ca6351, 0x14292967],
     [0x27b70a85, 0x2e1b2138, 0x4d2c6dfc, 0x53380d13], [0x650a7354, 0x766a0abb, 0x81c2c92e, 0x92722c85],
     [0xa2bfe8a1, 0xa81a664b, 0xc24b8b70, 0xc76c51a3], [0xd192e819, 0xd6990624, 0xf40e3585, 0x106aa070],
     [0x19a4c116, 0x1e376c08, 0x2748774c, 0x34b0bcb5], [0x391c0cb3, 0x4ed8aa4a, 0x5b9cca4f, 0x682e6ff3],
     [0x748f82ee, 0x78a5636f, 0x84c87814, 0x8cc70208], [0x90befffa, 0xa4506ceb, 0xbef9a3f7, 0xc67178f2]]"

definition be_word :: "8 word list \<Rightarrow> nat \<Rightarrow> 32 word" where
  "be_word p i = push_bit 24 (ucast (p ! (i * 4))) OR push_bit 16 (ucast (p ! (i * 4 + 1))) OR
     push_bit 8 (ucast (p ! (i * 4 + 2))) OR ucast (p ! (i * 4 + 3))"

definition schedule_step :: "32 word list \<Rightarrow> nat \<Rightarrow> 32 word list" where
  "schedule_step w i =
     (let s0 = rotr (w ! (i - 15)) 7 XOR rotr (w ! (i - 15)) 18 XOR drop_bit 3 (w ! (i - 15));
          s1 = rotr (w ! (i - 2)) 17 XOR rotr (w ! (i - 2)) 19 XOR drop_bit 10 (w ! (i - 2)) in
      w @ [w ! (i - 16) + s0 + w ! (i - 7) + s1])"

definition message_schedule :: "8 word list \<Rightarrow> 32 word list" where
  "message_schedule p = foldl schedule_step (map (be_word p) [0..<16]) [16..<64]"

type_synonym chaining = "32 word \<times> 32 word \<times> 32 word \<times> 32 word \<times> 32 word \<times> 32 word \<times> 32 word \<times> 32 word"

fun hash_round :: "32 word list \<Rightarrow> chaining \<Rightarrow> nat \<Rightarrow> chaining" where
  "hash_round w (a, b, c, d, e, f, g, h) i =
     (let s1 = rotr e 6 XOR rotr e 11 XOR rotr e 25;
          ch = (e AND f) XOR (NOT e AND g);
          t1 = h + s1 + ch + round_constants ! i + w ! i;
          s0 = rotr a 2 XOR rotr a 13 XOR rotr a 22;
          maj = (a AND b) XOR (a AND c) XOR (b AND c);
          t2 = s0 + maj in
      (t1 + t2, a, b, c, d + t1, e, f, g))"

fun add_chaining :: "chaining \<Rightarrow> chaining \<Rightarrow> chaining" where
  "add_chaining (a, b, c, d, e, f, g, h) (a', b', c', d', e', f', g', h') =
     (a + a', b + b', c + c', d + d', e + e', f + f', g + g', h + h')"

definition hash_transform :: "8 word list \<Rightarrow> chaining \<Rightarrow> chaining" where
  "hash_transform p st = add_chaining st (foldl (hash_round (message_schedule p)) st [0..<64])"

section \<open>The stream\<close>

record sha256 =
  sh_state :: chaining
  sh_block :: "8 word list"
  sh_total :: "64 word"
  sh_buffered :: nat

definition initial_chaining :: chaining where
  "initial_chaining = (0x6a09e667, 0xbb67ae85, 0x3c6ef372, 0xa54ff53a, 0x510e527f, 0x9b05688c, 0x1f83d9ab, 0x5be0cd19)"

definition sha256_new :: sha256 where
  "sha256_new = \<lparr>sh_state = initial_chaining, sh_block = replicate 64 0, sh_total = 0, sh_buffered = 0\<rparr>"

text \<open>One iteration of the loop of \<open>update\<close>, with the bytes that are left.\<close>

definition absorb_step :: "sha256 \<times> 8 word list \<Rightarrow> sha256 \<times> 8 word list" where
  "absorb_step = (\<lambda>(s, p).
     let n = min (length p) (length (sh_block s) - sh_buffered s);
         s1 = s\<lparr>sh_block := take (sh_buffered s) (sh_block s) @ take n p @ drop (sh_buffered s + n) (sh_block s),
                sh_buffered := sh_buffered s + n\<rparr> in
     (if sh_buffered s1 = length (sh_block s1)
      then s1\<lparr>sh_state := hash_transform (sh_block s1) (sh_state s1), sh_buffered := 0\<rparr> else s1, drop n p))"

definition sha256_update :: "sha256 \<Rightarrow> 8 word list \<Rightarrow> sha256" where
  "sha256_update s p = fst (while (\<lambda>(s, p). p \<noteq> []) absorb_step (s\<lparr>sh_total := sh_total s + of_nat (length p)\<rparr>, p))"

definition be_bytes :: "64 word \<Rightarrow> 8 word list" where
  "be_bytes n = rev (map (\<lambda>i. ucast (drop_bit (i * 8) n)) [0..<8])"

definition hex_char :: "32 word \<Rightarrow> char" where
  "hex_char d = ''0123456789abcdef'' ! unat d"

definition hex_word :: "32 word \<Rightarrow> string" where
  "hex_word v = map (\<lambda>i. hex_char (drop_bit (4 * (7 - i)) v AND 15)) [0..<8]"

fun hex_state :: "chaining \<Rightarrow> string" where
  "hex_state (a, b, c, d, e, f, g, h) = concat (map hex_word [a, b, c, d, e, f, g, h])"

definition pad_zeros :: "sha256 \<Rightarrow> sha256" where
  "pad_zeros = while (\<lambda>s. sh_buffered s \<noteq> 56) (\<lambda>s. sha256_update s [0])"

definition finish_hex :: "sha256 \<Rightarrow> string \<times> sha256" where
  "finish_hex s =
     (let s' = sha256_update (pad_zeros (sha256_update s [0x80])) (be_bytes (sh_total s * 8)) in
      (hex_state (sh_state s'), s'))"


section \<open>The one-shot reference\<close>

function compress_all :: "chaining \<Rightarrow> 8 word list \<Rightarrow> chaining" where
  "compress_all st m = (if length m < 64 then st else compress_all (hash_transform (take 64 m) st) (drop 64 m))"
  by pat_completeness auto
termination by (relation "measure (\<lambda>(st, m). length m)") auto

declare compress_all.simps [simp del]

definition sha_padding :: "nat \<Rightarrow> 8 word list" where
  "sha_padding n = 0x80 # replicate ((119 - n mod 64) mod 64) 0 @ be_bytes (of_nat n * 8)"

definition sha256_hex :: "8 word list \<Rightarrow> string" where
  "sha256_hex m = hex_state (compress_all initial_chaining (m @ sha_padding (length m)))"

lemma compress_short: "length m < 64 \<Longrightarrow> compress_all st m = st"
  by (simp add: compress_all.simps)

lemma compress_append:
  "length a mod 64 = 0 \<Longrightarrow> compress_all st (a @ b) = compress_all (compress_all st a) b"
proof (induction st a rule: compress_all.induct)
  case (1 st a)
  show ?case
  proof (cases "length a < 64")
    case True
    then show ?thesis using 1(2) by (simp add: compress_short)
  next
    case False
    then have "(length a - 64) mod 64 = 0" using 1(2) by (simp add: le_mod_geq)
    then show ?thesis
      using False 1(1) [OF False] by (simp add: compress_all.simps [of st "a @ b"] compress_all.simps [of st a])
  qed
qed

text \<open>What the stream holds after the bytes \<open>m\<close>.\<close>

definition absorbed :: "sha256 \<Rightarrow> 8 word list \<Rightarrow> bool" where
  "absorbed s m \<longleftrightarrow> length (sh_block s) = 64 \<and> sh_buffered s = length m mod 64 \<and>
     take (sh_buffered s) (sh_block s) = drop (length m - length m mod 64) m \<and>
     sh_state s = compress_all initial_chaining m"

lemma compress_tail: "length m mod 64 + length p < 64 \<Longrightarrow> compress_all st (m @ p) = compress_all st m"
proof -
  assume small: "length m mod 64 + length p < 64"
  define k where "k = length m - length m mod 64"
  have k: "k \<le> length m" "k mod 64 = 0" unfolding k_def by (simp_all add: minus_mod_eq_mult_div)
  then have a: "length (take k m) mod 64 = 0" by (simp add: min_absorb2)
  have d: "length (drop k m) = length m mod 64" by (simp add: k_def)
  have m: "m = take k m @ drop k m" by simp
  have "compress_all st (m @ p) = compress_all (compress_all st (take k m)) (drop k m @ p)"
    using compress_append [OF a, of st "drop k m @ p"] by (simp only: append_assoc [symmetric] append_take_drop_id)
  also have "\<dots> = compress_all st (take k m)" using small d by (simp add: compress_short)
  also have "\<dots> = compress_all st m"
    using compress_append [OF a, of st "drop k m"] d by (simp add: compress_short)
  finally show ?thesis .
qed

lemma absorb_step_absorbed:
  assumes "absorbed s m" "p \<noteq> []" "absorb_step (s, p) = (s', p')"
  shows "\<exists>q. p = q @ p' \<and> q \<noteq> [] \<and> absorbed s' (m @ q)" "sh_total s' = sh_total s"
proof -
  define b where "b = length m mod 64"
  define n where "n = min (length p) (64 - b)"
  define q where "q = take n p"
  define k where "k = length m - b"
  have b: "b < 64" "sh_buffered s = b" "length (sh_block s) = 64" "take b (sh_block s) = drop k m" "sh_state s = compress_all initial_chaining m"
    using assms(1) by (auto simp: absorbed_def b_def k_def)
  have k: "k \<le> length m" "k mod 64 = 0" "length m = k + b" unfolding k_def b_def by (simp_all add: minus_mod_eq_mult_div)
  obtain c where c: "k = 64 * c" using k(2) by (metis mod_0_imp_dvd dvdE)
  have n: "0 < n" "n \<le> length p" "b + n \<le> 64" "length q = n" using assms(2) b(1) by (auto simp: n_def q_def)
  define block where "block = take b (sh_block s) @ q @ drop (b + n) (sh_block s)"
  have block: "length block = 64" "take (b + n) block = drop k (m @ q)"
    using b n k by (simp_all add: block_def q_def)
  have step: "absorb_step (s, p) = (if b + n = 64 then s\<lparr>sh_block := block, sh_buffered := 0, sh_state := hash_transform block (sh_state s)\<rparr>
      else s\<lparr>sh_block := block, sh_buffered := b + n\<rparr>, drop n p)"
    unfolding absorb_step_def Let_def prod.case b(2,3) n_def [symmetric] q_def [symmetric] block_def [symmetric]
    using block(1) by simp
  have "p' = drop n p" using arg_cong [OF assms(3), of snd] unfolding step snd_conv by (rule sym)
  then have split: "p = q @ p'" by (simp add: q_def)
  have s': "s' = (if b + n = 64 then s\<lparr>sh_block := block, sh_buffered := 0, sh_state := hash_transform block (sh_state s)\<rparr>
      else s\<lparr>sh_block := block, sh_buffered := b + n\<rparr>)"
    using arg_cong [OF assms(3), of fst] unfolding step fst_conv by (rule sym)
  have tot: "sh_total s' = sh_total s" unfolding s' by (cases "b + n = 64") simp_all
  have "absorbed s' (m @ q)"
  proof (cases "b + n = 64")
    case True
    have "length (m @ q) = 64 * c + (b + n)" using k n(4) c by simp
    then have len: "length (m @ q) mod 64 = 0" unfolding True by simp
    have blk: "block = drop k m @ q" using block True n(4) k b(1) by simp
    have "length (take k m) mod 64 = 0" using k by (simp add: min_absorb2)
    note A = compress_append [OF this, of initial_chaining]
    have "compress_all initial_chaining (m @ q) = compress_all (compress_all initial_chaining (take k m)) block"
      using A [of block] by (simp add: blk flip: append_assoc)
    moreover have "compress_all initial_chaining m = compress_all initial_chaining (take k m)"
      using A [of "drop k m"] k b(1) by (simp add: compress_short)
    ultimately have "compress_all initial_chaining (m @ q) = hash_transform block (sh_state s)"
      using block(1) b(5) by (simp add: compress_all.simps [of _ block] compress_short)
    then show ?thesis using True s' block(1) len by (simp add: absorbed_def)
  next
    case False
    then have "b + n < 64" "length (m @ q) = 64 * c + (b + n)" using k n c by simp_all
    then have len: "length (m @ q) mod 64 = b + n" "length (m @ q) - (b + n) = k" using c by simp_all
    have "compress_all initial_chaining (m @ q) = compress_all initial_chaining m"
      by (rule compress_tail) (simp only: b_def [symmetric] n(4) \<open>b + n < 64\<close>)
    then show ?thesis using False s' block len b(5) by (simp add: absorbed_def)
  qed
  then show "\<exists>q. p = q @ p' \<and> q \<noteq> [] \<and> absorbed s' (m @ q)" using split n by (intro exI [of _ q]) auto
  show "sh_total s' = sh_total s" by (rule tot)
qed


lemma absorb_loop:
  assumes "absorbed s m"
  shows "\<exists>s'. while_option (\<lambda>(s, p). p \<noteq> []) absorb_step (s, p) = Some (s', []) \<and> absorbed s' (m @ p) \<and> sh_total s' = sh_total s"
  using assms
proof (induction "length p" arbitrary: s m p rule: less_induct)
  case less
  show ?case
  proof (cases "p = []")
    case True
    then show ?thesis using less.prems by (simp add: while_option_unfold)
  next
    case False
    obtain s1 p1 where s1: "absorb_step (s, p) = (s1, p1)" by (cases "absorb_step (s, p)")
    from absorb_step_absorbed [OF less.prems False s1] obtain q where
      q: "p = q @ p1" "q \<noteq> []" "absorbed s1 (m @ q)" "sh_total s1 = sh_total s" by blast
    then have "length p1 < length p" by simp
    from less.hyps [OF this q(3)] show ?thesis
      using False q s1 unfolding while_option_unfold [of _ _ "(s, p)"] by simp
  qed
qed

lemma update_absorbed:
  assumes "absorbed s m"
  shows "absorbed (sha256_update s p) (m @ p)" "sh_total (sha256_update s p) = sh_total s + of_nat (length p)"
proof -
  define s0 where "s0 = s\<lparr>sh_total := sh_total s + of_nat (length p)\<rparr>"
  have "absorbed s0 m" using assms by (auto simp: absorbed_def s0_def)
  from absorb_loop [OF this, of p] obtain s' where
    s': "while_option (\<lambda>(s, p). p \<noteq> []) absorb_step (s0, p) = Some (s', [])" "absorbed s' (m @ p)" "sh_total s' = sh_total s0" by blast
  then have "sha256_update s p = s'" by (simp add: sha256_update_def while_def s0_def)
  then show "absorbed (sha256_update s p) (m @ p)" "sh_total (sha256_update s p) = sh_total s + of_nat (length p)"
    using s'(2,3) by (simp_all add: s0_def)
qed

lemma new_absorbed: "absorbed sha256_new []"
  by (simp add: absorbed_def sha256_new_def compress_short)

lemma pad_zeros_absorbed:
  assumes "absorbed s m"
  shows "\<exists>s'. while_option (\<lambda>s. sh_buffered s \<noteq> 56) (\<lambda>s. sha256_update s [0]) s = Some s' \<and>
     absorbed s' (m @ replicate ((120 - length m mod 64) mod 64) 0)"
  using assms
proof (induction "(120 - length m mod 64) mod 64" arbitrary: s m rule: less_induct)
  case less
  define b where "b = length m mod 64"
  have b: "b < 64" "sh_buffered s = b" using less.prems by (simp_all add: b_def absorbed_def)
  show ?case
  proof (cases "b = 56")
    case True
    then show ?thesis using less.prems b by (simp add: while_option_unfold flip: b_def)
  next
    case False
    define b' where "b' = length (m @ [0 :: 8 word]) mod 64"
    have b': "b' = (if b = 63 then 0 else b + 1)" by (simp add: b_def b'_def mod_Suc)
    have k: "(120 - b) mod 64 = Suc ((120 - b') mod 64)"
    proof (cases "b < 56")
      case True
      then have "(120 - b) mod 64 = 56 - b" "(120 - b') mod 64 = 56 - (b + 1)" using b' by (simp_all add: le_mod_geq)
      then show ?thesis using True by simp
    next
      case False
      with \<open>b \<noteq> 56\<close> have "56 < b" by simp
      then show ?thesis using b(1) b' by (cases "b = 63") simp_all
    qed
    from less.hyps [OF _ update_absorbed(1) [OF less.prems, of "[0]"]] k
    obtain s' where "while_option (\<lambda>s. sh_buffered s \<noteq> 56) (\<lambda>s. sha256_update s [0]) (sha256_update s [0]) = Some s'"
        "absorbed s' ((m @ [0]) @ replicate ((120 - b') mod 64) 0)"
      by (auto simp: b_def b'_def)
    then show ?thesis using False b k by (simp add: while_option_unfold [of _ _ s] flip: b_def)
  qed
qed

text \<open>The stream computes the one-shot hash, however the message was cut.\<close>

lemma finish_hex_absorbed:
  assumes "absorbed s m" "sh_total s = of_nat (length m)"
  shows "fst (finish_hex s) = sha256_hex m"
proof -
  define s1 where "s1 = sha256_update s [0x80]"
  have s1: "absorbed s1 (m @ [0x80])" unfolding s1_def by (rule update_absorbed(1) [OF assms(1)])
  from pad_zeros_absorbed [OF this] obtain s2 where s2: "pad_zeros s1 = s2"
      "absorbed s2 ((m @ [0x80]) @ replicate ((120 - length (m @ [0x80 :: 8 word]) mod 64) mod 64) 0)"
    by (auto simp: pad_zeros_def while_def)
  have "(120 - Suc b mod 64) mod 64 = (119 - b) mod 64" if "b < 64" for b :: nat
    using that by (cases "b = 63") simp_all
  from this [of "length m mod 64"] have k: "(120 - length (m @ [0x80 :: 8 word]) mod 64) mod 64 = (119 - length m mod 64) mod 64"
    by (simp add: mod_Suc_eq)
  have "sh_state (sha256_update s2 (be_bytes (sh_total s * 8))) = compress_all initial_chaining (m @ sha_padding (length m))"
    using update_absorbed(1) [OF s2(2), of "be_bytes (sh_total s * 8)"] assms(2) unfolding k
    by (simp add: absorbed_def sha_padding_def)
  then show ?thesis using s2(1) by (simp add: finish_hex_def sha256_hex_def s1_def Let_def)
qed

lemma updates_absorbed:
  assumes "absorbed s m" "sh_total s = of_nat (length m)"
  shows "absorbed (foldl sha256_update s ps) (m @ concat ps)" "sh_total (foldl sha256_update s ps) = of_nat (length (m @ concat ps))"
  using assms
proof (induction ps arbitrary: s m)
  case (Cons p ps)
  { case 1 from Cons(1) [OF update_absorbed(1) [OF 1(1), of p]] 1 update_absorbed(2) [OF 1(1), of p] show ?case by simp }
  { case 2 from Cons(2) [OF update_absorbed(1) [OF 2(1), of p]] 2 update_absorbed(2) [OF 2(1), of p] show ?case by simp }
qed simp_all

lemma hash_streams: "fst (finish_hex (foldl sha256_update sha256_new ps)) = sha256_hex (concat ps)"
  using finish_hex_absorbed [OF updates_absorbed [OF new_absorbed]] by (simp add: sha256_new_def)

end
