(* ===== verification/Prefix_History.thy ===== *)
theory Prefix_History
  imports Sha256
begin

text \<open>
  The identity of a warm conversation (\<open>src/src/multimodal_prefix_cache.hpp\<close> and
  \<open>src/src/kvmem_prefix_history.hpp\<close>): which leading tokens of a new request are the ones the model has
  already committed. Tokens with the top bit set stand for rows of images and are identified by their
  visual identity. The bounded history keeps the last rows of a transcript and, for everything before
  them, only a SHA-256 state and digest; \<open>match_history\<close> recomputes the digest over the request, and
  \<open>assign_history\<close> reuses the old state when a match proves that it may.

  A vector that the code identifies by its address (\<open>data ()\<close> and \<open>size ()\<close>) is a \<open>buffer\<close>: its
  address and its contents. \<open>this\<close> is a number as well.
\<close>

section \<open>Visual token identities\<close>

type_synonym position3 = "32 word \<times> 32 word \<times> 32 word"

record token_identity =
  ti_token :: "32 word"
  ti_source :: "32 word"
  ti_position :: position3
  ti_cache :: "64 word"

definition visual :: "32 word \<Rightarrow> bool" where
  "visual token \<longleftrightarrow> token AND 0x80000000 \<noteq> 0"

definition row_cache_identity :: "64 word \<Rightarrow> 32 word \<Rightarrow> 64 word" where
  "row_cache_identity img row =
     (let h0 = (if img \<noteq> 0 then img else 1469598103934665603);
          h = fst (foldl (\<lambda>(h, row) _. ((h XOR ucast (row AND 0xff)) * 1099511628211, drop_bit 8 row)) (h0, row) [0..<4::nat]) in
      if h \<noteq> 0 then h else 1)"

definition multimodal_token_identity :: "token_identity list \<Rightarrow> 32 word \<Rightarrow> token_identity option" where
  "multimodal_token_identity ids token =
     (if \<not> visual token then None
      else let row = unat (token AND 0x7fffffff) in
        if 0 < row \<and> row \<le> length ids \<and> ti_token (ids ! (row - 1)) = token then Some (ids ! (row - 1))
        else List.find (\<lambda>c. ti_token c = token) ids)"

text \<open>The body of the loop of \<open>multimodal_prefix_lcp\<close>: may position \<open>pos\<close> be kept?\<close>

definition same_visual :: "token_identity list \<Rightarrow> token_identity list \<Rightarrow> 64 word \<Rightarrow> 64 word \<Rightarrow> 32 word \<Rightarrow> bool" where
  "same_visual warm current warm_fp current_fp token =
     (\<not> visual token \<or>
      (case (multimodal_token_identity warm token, multimodal_token_identity current token) of
         (Some w, Some c) \<Rightarrow> ti_source w = ti_source c \<and> ti_position w = ti_position c \<and>
           (if ti_cache w = 0 \<or> ti_cache c = 0 then warm_fp = current_fp else ti_cache w = ti_cache c)
       | _ \<Rightarrow> False))"

definition multimodal_prefix_lcp :: "32 word list \<Rightarrow> nat \<Rightarrow> token_identity list \<Rightarrow> token_identity list \<Rightarrow> 64 word \<Rightarrow> 64 word \<Rightarrow> nat" where
  "multimodal_prefix_lcp tokens token_lcp warm current warm_fp current_fp =
     length (takeWhile (same_visual warm current warm_fp current_fp) (take token_lcp tokens))"

section \<open>Rows\<close>

record row =
  rw_token :: "32 word"
  rw_source :: "32 word"
  rw_position :: position3
  rw_identity :: "64 word"
  rw_valid :: bool
  rw_fallback :: bool

definition make_row :: "32 word \<Rightarrow> token_identity list \<Rightarrow> 64 word \<Rightarrow> row" where
  "make_row token ids fp =
     (let r = \<lparr>rw_token = token, rw_source = 0, rw_position = (0, 0, 0), rw_identity = 0, rw_valid = True, rw_fallback = False\<rparr> in
      if \<not> visual token then r
      else case multimodal_token_identity ids token of
        None \<Rightarrow> r\<lparr>rw_valid := False\<rparr>
      | Some v \<Rightarrow> r\<lparr>rw_source := ti_source v, rw_position := ti_position v, rw_fallback := ti_cache v = 0,
          rw_identity := (if ti_cache v = 0 then fp else ti_cache v)\<rparr>)"

definition row_equal :: "row \<Rightarrow> row \<Rightarrow> bool" where
  "row_equal a b \<longleftrightarrow> rw_valid a \<and> rw_valid b \<and> rw_token a = rw_token b \<and> rw_source a = rw_source b \<and>
     rw_position a = rw_position b \<and> rw_identity a = rw_identity b \<and> rw_fallback a = rw_fallback b"

text \<open>\<open>add (value, count)\<close>: the \<open>count\<close> low bytes, the lowest first.\<close>

definition le_bytes :: "nat \<Rightarrow> 64 word \<Rightarrow> 8 word list" where
  "le_bytes n v = map (\<lambda>i. ucast (drop_bit (8 * i) v)) [0..<n]"

definition row_bytes :: "row \<Rightarrow> 8 word list" where
  "row_bytes r = le_bytes 4 (ucast (rw_token r)) @
     (if visual (rw_token r)
      then le_bytes 4 (ucast (rw_source r)) @
        (case rw_position r of (x, y, z) \<Rightarrow> le_bytes 4 (ucast x) @ le_bytes 4 (ucast y) @ le_bytes 4 (ucast z)) @
        le_bytes 8 (rw_identity r) @ le_bytes 1 (of_bool (rw_valid r)) @ le_bytes 1 (of_bool (rw_fallback r))
      else [])"

definition hash_row :: "sha256 \<Rightarrow> row \<Rightarrow> sha256" where
  "hash_row h r = sha256_update h (row_bytes r)"

section \<open>The bounded history\<close>

type_synonym 'a buffer = "nat \<times> 'a list"

record prefix_match =
  pm_common :: nat
  pm_outside :: bool
  pm_owner :: nat
  pm_revision :: nat
  pm_tokens :: nat
  pm_token_count :: nat
  pm_identities :: nat
  pm_identity_count :: nat
  pm_fingerprint :: "64 word"
  pm_verified :: bool

record prefix_history =
  ph_self :: nat
  ph_state :: sha256
  ph_digest :: string
  ph_tail :: "row list"
  ph_end :: nat
  ph_revision :: nat

definition tail_begin :: "prefix_history \<Rightarrow> nat" where
  "tail_begin h = ph_end h - length (ph_tail h)"

definition history_clear :: "prefix_history \<Rightarrow> prefix_history" where
  "history_clear h = h\<lparr>ph_tail := [], ph_state := sha256_new, ph_digest := fst (finish_hex sha256_new), ph_end := 0,
     ph_revision := u64 (ph_revision h + 1)\<rparr>"

definition prefix_history_new :: "nat \<Rightarrow> prefix_history" where
  "prefix_history_new self = history_clear \<lparr>ph_self = self, ph_state = sha256_new, ph_digest = [], ph_tail = [], ph_end = 0, ph_revision = 0\<rparr>"

text \<open>The loop over the request's rows before the retained tail: the hash, or \<open>None\<close> at a row without identity.\<close>

fun hash_rows_checked :: "sha256 \<Rightarrow> row list \<Rightarrow> sha256 option" where
  "hash_rows_checked s [] = Some s"
| "hash_rows_checked s (r # rs) = (if \<not> rw_valid r then None else hash_rows_checked (hash_row s r) rs)"

definition match_history :: "prefix_history \<Rightarrow> 32 word buffer \<Rightarrow> token_identity buffer \<Rightarrow> 64 word \<Rightarrow> prefix_match" where
  "match_history h tokens ids fp =
     (let begin = tail_begin h; toks = snd tokens; row_at = (\<lambda>i. make_row (toks ! i) (snd ids) fp);
          m = \<lparr>pm_common = 0, pm_outside = False, pm_owner = ph_self h, pm_revision = ph_revision h,
            pm_tokens = fst tokens, pm_token_count = length toks, pm_identities = fst ids, pm_identity_count = length (snd ids),
            pm_fingerprint = fp, pm_verified = False\<rparr> in
      if length toks < begin then m\<lparr>pm_outside := True\<rparr>
      else case hash_rows_checked sha256_new (map row_at [0..<begin]) of
        None \<Rightarrow> m\<lparr>pm_outside := True\<rparr>
      | Some prefix \<Rightarrow>
        if fst (finish_hex prefix) \<noteq> ph_digest h then m\<lparr>pm_outside := True\<rparr>
        else m\<lparr>pm_verified := True, pm_common := begin +
          length (takeWhile (\<lambda>i. row_equal (ph_tail h ! (i - begin)) (row_at i)) [begin..<min (length toks) (ph_end h)])\<rparr>)"

definition proof_holds :: "prefix_history \<Rightarrow> 32 word buffer \<Rightarrow> token_identity buffer \<Rightarrow> 64 word \<Rightarrow> nat \<Rightarrow> prefix_match \<Rightarrow> bool" where
  "proof_holds h prompt ids fp begin m \<longleftrightarrow> pm_owner m = ph_self h \<and> pm_revision m = ph_revision h \<and> pm_verified m \<and>
     pm_tokens m = fst prompt \<and> pm_token_count m = length (snd prompt) \<and> pm_identities m = fst ids \<and>
     pm_identity_count m = length (snd ids) \<and> pm_fingerprint m = fp \<and> tail_begin h \<le> begin"

definition assign_history :: "prefix_history \<Rightarrow> 32 word buffer \<Rightarrow> 32 word list \<Rightarrow> nat \<Rightarrow> token_identity buffer \<Rightarrow> 64 word \<Rightarrow> nat \<Rightarrow>
    prefix_match option \<Rightarrow> prefix_history result" where
  "assign_history h prompt emitted committed ids fp keep witness =
     (if keep = 0 \<or> length (snd prompt) + length emitted < committed then Inl InvalidArgument
      else let begin = (if keep < committed then committed - keep else 0);
        start = (case witness of None \<Rightarrow> (sha256_new, 0)
          | Some m \<Rightarrow> if proof_holds h prompt ids fp begin m then (ph_state h, tail_begin h) else (sha256_new, 0));
        row_at = (\<lambda>i. make_row (if i < length (snd prompt) then snd prompt ! i else emitted ! (i - length (snd prompt))) (snd ids) fp);
        prefix = foldl hash_row (fst start) (map row_at [snd start..<begin]) in
      Inr (h\<lparr>ph_tail := map row_at [begin..<committed], ph_state := prefix, ph_digest := fst (finish_hex prefix),
        ph_end := committed, ph_revision := u64 (ph_revision h + 1)\<rparr>))"


section \<open>The serialisation is injective\<close>

lemma length_le_bytes [simp]: "length (le_bytes n v) = n"
  by (simp add: le_bytes_def)

lemma le_bytes_bit: "k < 8 * n \<Longrightarrow> bit (le_bytes n v ! (k div 8)) (k mod 8) \<longleftrightarrow> k < 64 \<and> bit v k"
proof -
  assume k: "k < 8 * n"
  then have "k div 8 < n" by (simp add: less_mult_imp_div_less mult.commute)
  moreover have "8 * (k div 8) + k mod 8 = k" by simp
  ultimately show ?thesis by (auto simp: le_bytes_def bit_ucast_iff bit_drop_bit_eq dest: bit_imp_le_length)
qed

lemma le_bytes_inject:
  assumes "le_bytes n v = le_bytes n w" "\<And>k. 8 * n \<le> k \<Longrightarrow> \<not> bit v k \<and> \<not> bit w k"
  shows "v = w"
proof (rule bit_word_eqI)
  fix k
  assume "k < LENGTH(64)"
  then show "bit v k \<longleftrightarrow> bit w k"
    using assms(2) le_bytes_bit [of k n v] le_bytes_bit [of k n w] assms(1) by (cases "k < 8 * n") auto
qed

lemma le_bytes_inject32: "le_bytes 4 (ucast (v :: 32 word)) = le_bytes 4 (ucast w) \<longleftrightarrow> v = w"
proof
  assume "le_bytes 4 (ucast v) = le_bytes 4 (ucast w)"
  then have "(ucast v :: 64 word) = ucast w"
    by (rule le_bytes_inject) (auto simp: bit_ucast_iff dest: bit_imp_le_length)
  moreover have "bit u k \<longleftrightarrow> bit (ucast u :: 64 word) k" if "k < 32" for u :: "32 word" and k
    using that by (simp add: bit_ucast_iff)
  ultimately show "v = w" by (intro bit_word_eqI) simp
qed simp

lemma le_bytes_inject64: "le_bytes 8 v = le_bytes 8 w \<longleftrightarrow> v = w"
proof
  assume "le_bytes 8 v = le_bytes 8 w"
  then show "v = w" by (rule le_bytes_inject) (use bit_imp_le_length [where 'a = 64] in fastforce)
qed simp

lemma le_bytes_bool: "le_bytes 1 (of_bool a) = le_bytes 1 (of_bool b) \<longleftrightarrow> a = b"
  by (cases a; cases b) (simp_all add: le_bytes_def)

text \<open>A plain token carries no visual fields.\<close>

definition row_ok :: "row \<Rightarrow> bool" where
  "row_ok r \<longleftrightarrow> (\<not> visual (rw_token r) \<longrightarrow> r = make_row (rw_token r) [] 0)"

lemma make_row_ok: "row_ok (make_row t ids fp)"
  by (auto simp: row_ok_def make_row_def Let_def split: option.splits)

lemma make_row_token [simp]: "rw_token (make_row t ids fp) = t"
  by (simp add: make_row_def Let_def split: option.splits)

lemma row_bytes_inject:
  assumes "row_bytes r @ x = row_bytes s @ y" "row_ok r" "row_ok s"
  shows "r = s \<and> x = y"
proof -
  have tok: "rw_token r = rw_token s"
    using assms(1) by (auto simp: row_bytes_def append_eq_append_conv le_bytes_inject32)
  show ?thesis
  proof (cases "visual (rw_token s)")
    case False
    then have "r = s" using assms(2,3) tok by (simp add: row_ok_def)
    then show ?thesis using assms(1) by simp
  next
    case True
    obtain a b c d e f where "rw_position r = (a, b, c)" "rw_position s = (d, e, f)" by (metis prod_cases3)
    then have "rw_source r = rw_source s \<and> rw_position r = rw_position s \<and> rw_identity r = rw_identity s \<and>
        rw_valid r = rw_valid s \<and> rw_fallback r = rw_fallback s \<and> x = y"
      using assms(1) True tok
      by (simp add: row_bytes_def append_eq_append_conv le_bytes_inject32 le_bytes_inject64 le_bytes_bool [simplified])
    then show ?thesis using tok by simp
  qed
qed

definition rows_bytes :: "row list \<Rightarrow> 8 word list" where
  "rows_bytes rs = concat (map row_bytes rs)"

lemma row_bytes_nonempty: "row_bytes r \<noteq> []"
  by (auto simp: row_bytes_def simp flip: length_0_conv)

lemma rows_bytes_inject:
  "rows_bytes rs = rows_bytes ss \<Longrightarrow> list_all row_ok rs \<Longrightarrow> list_all row_ok ss \<Longrightarrow> rs = ss"
proof (induction rs arbitrary: ss)
  case Nil
  then show ?case by (cases ss) (auto simp: rows_bytes_def row_bytes_nonempty)
next
  case (Cons r rs)
  then obtain s ss' where ss: "ss = s # ss'" by (cases ss) (auto simp: rows_bytes_def row_bytes_nonempty)
  have "r = s \<and> rows_bytes rs = rows_bytes ss'"
    by (rule row_bytes_inject) (use Cons.prems ss in \<open>auto simp: rows_bytes_def\<close>)
  then show ?case using Cons ss by simp
qed

lemma foldl_hash_row: "foldl hash_row s rs = foldl sha256_update s (map row_bytes rs)"
  by (induction rs arbitrary: s) (simp_all add: hash_row_def)

lemma hash_rows: "fst (finish_hex (foldl hash_row sha256_new rs)) = sha256_hex (rows_bytes rs)"
  by (simp add: foldl_hash_row hash_streams rows_bytes_def)

lemma hash_rows_checked: "hash_rows_checked s rs = (if list_all rw_valid rs then Some (foldl hash_row s rs) else None)"
  by (induction rs arbitrary: s) simp_all

end
