(* ===== verification/Prefix_History_Safety.thy ===== *)
theory Prefix_History_Safety
  imports Prefix_History
begin

text \<open>
  What the bounded history guarantees: it denotes the transcript of the rows that were committed, and a match
  finds the exact common prefix of that transcript and a request, or nothing. SHA-256 stands for the
  rows it hashed, so the theorems assume, for the two byte strings a comparison is about, that they do not
  collide (\<open>no_collision\<close>).
\<close>

definition no_collision :: "row list \<Rightarrow> row list \<Rightarrow> bool" where
  "no_collision a b \<longleftrightarrow> (sha256_hex (rows_bytes a) = sha256_hex (rows_bytes b) \<longrightarrow> rows_bytes a = rows_bytes b)"

text \<open>The history that stands for the committed rows \<open>rs\<close>.\<close>

definition denotes :: "prefix_history \<Rightarrow> row list \<Rightarrow> bool" where
  "denotes h rs \<longleftrightarrow> ph_end h = length rs \<and> length (ph_tail h) \<le> length rs \<and> ph_tail h = drop (tail_begin h) rs \<and>
     ph_state h = foldl hash_row sha256_new (take (tail_begin h) rs) \<and> ph_digest h = fst (finish_hex (ph_state h)) \<and>
     list_all row_ok rs"

definition request_rows :: "32 word list \<Rightarrow> token_identity list \<Rightarrow> 64 word \<Rightarrow> row list" where
  "request_rows tokens ids fp = map (\<lambda>t. make_row t ids fp) tokens"

text \<open>The number of leading rows two transcripts share; a row without identity is shared with nothing.\<close>

definition shared_rows :: "row list \<Rightarrow> row list \<Rightarrow> nat" where
  "shared_rows a b = length (takeWhile (\<lambda>(x, y). row_equal x y) (zip a b))"

lemma shared_rows_le: "shared_rows a b \<le> length a" "shared_rows a b \<le> length b"
  using length_takeWhile_le [of "\<lambda>(x, y). row_equal x y" "zip a b"] by (simp_all add: shared_rows_def)

lemma shared_rows_equal: "i < shared_rows a b \<Longrightarrow> row_equal (a ! i) (b ! i)"
proof -
  assume i: "i < shared_rows a b"
  then have "(\<lambda>(x, y). row_equal x y) (takeWhile (\<lambda>(x, y). row_equal x y) (zip a b) ! i)"
    by (metis nth_mem set_takeWhileD shared_rows_def)
  moreover have "takeWhile (\<lambda>(x, y). row_equal x y) (zip a b) ! i = zip a b ! i" using i by (simp add: takeWhile_nth shared_rows_def)
  moreover have "zip a b ! i = (a ! i, b ! i)" using i shared_rows_le [of a b] by simp
  ultimately show ?thesis by simp
qed

lemma row_equal_eq: "row_equal a b \<Longrightarrow> a = b"
  by (simp add: row_equal_def)

lemma row_equal_self: "row_equal a a \<longleftrightarrow> rw_valid a"
  by (simp add: row_equal_def)

lemma takeWhile_past: "\<forall>x \<in> set (take n xs). P x \<Longrightarrow> takeWhile P xs = take n xs @ takeWhile P (drop n xs)"
  using takeWhile_append2 [of "take n xs" P "drop n xs"] by simp

text \<open>Sharing more than \<open>n\<close> rows means the first \<open>n\<close> are the same, valid rows.\<close>

lemma shared_rows_take:
  assumes "n \<le> length a" "n \<le> length b"
  shows "n \<le> shared_rows a b \<longleftrightarrow> take n a = take n b \<and> list_all rw_valid (take n b)"
proof
  assume n: "n \<le> shared_rows a b"
  have eq: "a ! i = b ! i \<and> rw_valid (b ! i)" if "i < n" for i
    using shared_rows_equal [of i a b] that n row_equal_eq [of "a ! i" "b ! i"] by (simp add: row_equal_def)
  then show "take n a = take n b \<and> list_all rw_valid (take n b)"
    using assms by (auto simp: list_all_length intro: nth_equalityI)
next
  assume same: "take n a = take n b \<and> list_all rw_valid (take n b)"
  have "row_equal (a ! i) (b ! i)" if "i < n" for i
  proof -
    have "a ! i = b ! i" using same that by (metis nth_take)
    moreover have "rw_valid (b ! i)" using same that assms by (auto simp: list_all_length)
    ultimately show ?thesis by (simp add: row_equal_self)
  qed
  then have "\<forall>x \<in> set (take n (zip a b)). (\<lambda>(x, y). row_equal x y) x"
    using assms by (auto simp: in_set_conv_nth)
  then have "shared_rows a b = n + length (takeWhile (\<lambda>(x, y). row_equal x y) (drop n (zip a b)))"
    using assms by (simp add: shared_rows_def takeWhile_past [of n "zip a b"] min_absorb2)
  then show "n \<le> shared_rows a b" by simp
qed

lemma shared_rows_split:
  assumes "n \<le> shared_rows a b"
  shows "shared_rows a b = n + shared_rows (drop n a) (drop n b)"
proof -
  have n: "n \<le> length a" "n \<le> length b" using assms shared_rows_le [of a b] by simp_all
  have "row_equal (a ! i) (b ! i)" if "i < n" for i using shared_rows_equal [of i a b] that assms by simp
  then have all: "\<forall>x \<in> set (take n (zip a b)). (\<lambda>(x, y). row_equal x y) x" using n by (auto simp: in_set_conv_nth)
  then show ?thesis
    using n unfolding shared_rows_def takeWhile_past [of n "zip a b", OF all] by (simp add: drop_zip min_absorb2)
qed

lemma shared_rows_index:
  "shared_rows a b = length (takeWhile (\<lambda>i. row_equal (a ! i) (b ! i)) [0..<min (length a) (length b)])"
proof -
  have "zip a b = map (\<lambda>i. (a ! i, b ! i)) [0..<min (length a) (length b)]" by (rule nth_equalityI) auto
  then show ?thesis by (simp add: shared_rows_def takeWhile_map comp_def)
qed

section \<open>The unbounded log\<close>

text \<open>
  Without a repository the backend keeps the whole token log and refines the common token prefix by
  \<open>multimodal_prefix_lcp\<close>.
\<close>

definition log_prefix :: "32 word list \<Rightarrow> 32 word list \<Rightarrow> token_identity list \<Rightarrow> token_identity list \<Rightarrow> 64 word \<Rightarrow> 64 word \<Rightarrow> nat" where
  "log_prefix log prompt warm current warm_fp current_fp =
     multimodal_prefix_lcp prompt (length (takeWhile (\<lambda>(a, b). a = b) (zip log prompt))) warm current warm_fp current_fp"

lemma takeWhile_conj: "takeWhile (\<lambda>x. P x \<and> Q x) xs = takeWhile Q (takeWhile P xs)"
  by (induction xs) auto

lemma length_takeWhile_mono: "(\<And>x. x \<in> set xs \<Longrightarrow> P x \<Longrightarrow> Q x) \<Longrightarrow> length (takeWhile P xs) \<le> length (takeWhile Q xs)"
  by (induction xs) auto

lemma log_prefix_zip:
  "log_prefix log prompt warm current warm_fp current_fp =
     length (takeWhile (\<lambda>(a, b). a = b \<and> same_visual warm current warm_fp current_fp b) (zip log prompt))"
proof -
  define zs where "zs = takeWhile (\<lambda>(a, b). a = b) (zip log prompt)"
  have zs: "zs = take (length zs) (zip log prompt)" unfolding zs_def by (rule takeWhile_eq_take)
  have "length zs \<le> length (zip log prompt)" unfolding zs_def by (rule length_takeWhile_le)
  then have le: "length zs \<le> length log" "length zs \<le> length prompt" by simp_all
  have "map snd zs = map snd (zip (take (length zs) log) (take (length zs) prompt))" using zs by (simp add: take_zip)
  then have "take (length zs) prompt = map snd zs" using le by (simp add: map_snd_zip_take min_absorb2)
  moreover have "takeWhile (\<lambda>(a, b). a = b \<and> same_visual warm current warm_fp current_fp b) (zip log prompt) =
      takeWhile (\<lambda>x. same_visual warm current warm_fp current_fp (snd x)) zs"
    unfolding zs_def takeWhile_conj [symmetric] by (simp add: case_prod_unfold)
  ultimately show ?thesis
    by (simp add: log_prefix_def multimodal_prefix_lcp_def zs_def [symmetric] takeWhile_map comp_def)
qed

lemma row_equal_visual:
  "row_equal (make_row a warm warm_fp) (make_row b current current_fp) \<Longrightarrow> a = b \<and> same_visual warm current warm_fp current_fp b"
  by (auto simp: row_equal_def make_row_def same_visual_def Let_def split: if_splits option.splits)

lemma row_equal_identified:
  assumes "list_all (\<lambda>v. ti_cache v \<noteq> 0) warm" "list_all (\<lambda>v. ti_cache v \<noteq> 0) current"
  shows "row_equal (make_row a warm warm_fp) (make_row b current current_fp) \<longleftrightarrow> a = b \<and> same_visual warm current warm_fp current_fp b"
proof -
  have found: "v \<in> set ids" if "multimodal_token_identity ids t = Some v" for ids t v
    using that by (auto simp: multimodal_token_identity_def Let_def find_Some_iff split: if_splits)
      (metis Suc_pred less_eq_Suc_le nth_mem)
  have cache: "ti_cache v \<noteq> 0" "ti_cache u \<noteq> 0"
    if "multimodal_token_identity warm b = Some v" "multimodal_token_identity current b = Some u" for u v
    using assms found [OF that(1)] found [OF that(2)] by (simp_all add: list_all_iff)
  show ?thesis
  proof (cases "a = b")
    case False
    then show ?thesis by (simp add: row_equal_def)
  next
    case True
    show ?thesis
    proof (cases "visual b")
      case False
      then show ?thesis using True by (simp add: row_equal_def make_row_def same_visual_def)
    next
    case visual: True
    then show ?thesis
      using cache by (cases "multimodal_token_identity warm b"; cases "multimodal_token_identity current b")
        (simp_all add: True visual row_equal_def make_row_def same_visual_def)
    qed
  qed
qed

lemma shared_rows_tokens:
  "shared_rows (request_rows log warm warm_fp) (request_rows prompt current current_fp) =
     length (takeWhile (\<lambda>(a, b). row_equal (make_row a warm warm_fp) (make_row b current current_fp)) (zip log prompt))"
  by (simp add: shared_rows_def request_rows_def zip_map_map takeWhile_map comp_def case_prod_unfold)

text \<open>
  The bounded history never reuses more of a request than the unbounded log would, and when every visual row
  carries an identity of its own it reuses exactly as much (up to the retained tail).
\<close>

theorem bounded_reuse_agrees:
  "shared_rows (request_rows log warm warm_fp) (request_rows prompt current current_fp)
     \<le> log_prefix log prompt warm current warm_fp current_fp \<and>
   (list_all (\<lambda>v. ti_cache v \<noteq> 0) warm \<and> list_all (\<lambda>v. ti_cache v \<noteq> 0) current \<longrightarrow>
      shared_rows (request_rows log warm warm_fp) (request_rows prompt current current_fp)
        = log_prefix log prompt warm current warm_fp current_fp)"
  unfolding shared_rows_tokens log_prefix_zip
  using row_equal_identified [of warm current _ warm_fp _ current_fp]
  by (auto intro!: length_takeWhile_mono dest: row_equal_visual)

section \<open>Matching\<close>

lemma request_rows_length: "length (request_rows tokens ids fp) = length tokens"
  by (simp add: request_rows_def)

lemma request_rows_nth: "i < length tokens \<Longrightarrow> request_rows tokens ids fp ! i = make_row (tokens ! i) ids fp"
  by (simp add: request_rows_def)

lemma request_rows_take:
  "n \<le> length tokens \<Longrightarrow> map (\<lambda>i. make_row (tokens ! i) ids fp) [0..<n] = take n (request_rows tokens ids fp)"
  by (rule nth_equalityI) (simp_all add: request_rows_def)

lemma request_rows_ok: "list_all row_ok (request_rows tokens ids fp)"
  by (simp add: request_rows_def list_all_iff make_row_ok)

lemma takeWhile_shift: "takeWhile P [b..<b + n] = map (\<lambda>i. i + b) (takeWhile (\<lambda>i. P (i + b)) [0..<n])"
proof -
  have "[b..<b + n] = map (\<lambda>i. i + b) [0..<n]" by (simp add: map_add_upt add.commute)
  then show ?thesis by (simp add: takeWhile_map comp_def)
qed

text \<open>
  What a match finds: the shared rows when they reach the retained tail, and nothing otherwise.
\<close>

lemma match_denotes:
  assumes "denotes h rs" "req = request_rows (snd tokens) (snd ids) fp"
    and "no_collision (take (tail_begin h) rs) (take (tail_begin h) req)"
  defines "m \<equiv> match_history h tokens ids fp"
  shows "pm_outside m \<longleftrightarrow> shared_rows rs req < tail_begin h" "pm_common m = (if pm_outside m then 0 else shared_rows rs req)"
    "pm_verified m \<longleftrightarrow> \<not> pm_outside m" "pm_verified m \<Longrightarrow> take (tail_begin h) req = take (tail_begin h) rs \<and> tail_begin h \<le> length (snd tokens)"
proof -
  define b where "b = tail_begin h"
  have h: "ph_end h = length rs" "ph_tail h = drop b rs" "list_all row_ok rs" "b \<le> length rs"
      "ph_digest h = sha256_hex (rows_bytes (take b rs))"
    using assms(1) by (auto simp: denotes_def b_def tail_begin_def hash_rows)
  have len: "length req = length (snd tokens)" by (simp add: assms(2) request_rows_def)
  have facts: "(pm_outside m \<longleftrightarrow> shared_rows rs req < b) \<and> pm_common m = (if pm_outside m then 0 else shared_rows rs req) \<and>
      (pm_verified m \<longleftrightarrow> \<not> pm_outside m) \<and> (pm_verified m \<longrightarrow> take b req = take b rs \<and> b \<le> length (snd tokens))"
  proof (cases "length (snd tokens) < b")
    case True
    then have "shared_rows rs req < b" using shared_rows_le(2) [of rs req] len by simp
    then show ?thesis using True by (simp add: m_def match_history_def Let_def b_def [symmetric])
  next
    case False
    then have le: "b \<le> length (snd tokens)" "b \<le> length req" by (simp_all add: len)
    have pre: "map (\<lambda>i. make_row (snd tokens ! i) (snd ids) fp) [0..<b] = take b req"
      using request_rows_take [OF le(1)] by (simp add: assms(2))
    have same: "sha256_hex (rows_bytes (take b req)) = ph_digest h \<longleftrightarrow> take b rs = take b req"
    proof
      assume "sha256_hex (rows_bytes (take b req)) = ph_digest h"
      then have "sha256_hex (rows_bytes (take b rs)) = sha256_hex (rows_bytes (take b req))" unfolding h(5) by (rule sym)
      then have "rows_bytes (take b rs) = rows_bytes (take b req)"
        using assms(3) unfolding no_collision_def b_def by (rule rev_mp)
      moreover have "list_all row_ok (take b rs)" using h(3) by (auto simp: list_all_iff dest: in_set_takeD)
      moreover have "list_all row_ok (take b req)" unfolding assms(2) using request_rows_ok by (auto simp: list_all_iff dest: in_set_takeD)
      ultimately show "take b rs = take b req" by (rule rows_bytes_inject)
    next
      assume "take b rs = take b req"
      then show "sha256_hex (rows_bytes (take b req)) = ph_digest h" using h(5) by simp
    qed
    note S = shared_rows_take [OF h(4) le(2)]
    show ?thesis
    proof (cases "list_all rw_valid (take b req) \<and> take b rs = take b req")
      case False
      then have "shared_rows rs req < b" using S by auto
      then show ?thesis
        using False le same by (auto simp: m_def match_history_def Let_def b_def [symmetric] pre hash_rows_checked hash_rows)
    next
      case True
      then have reach: "b \<le> shared_rows rs req" using S by simp
      define n where "n = min (length rs) (length req) - b"
      have n: "min (length req) (length rs) = b + n" using h(4) le(2) by (simp add: n_def min.commute)
      have "takeWhile (\<lambda>i. row_equal (drop b rs ! (i - b)) (make_row (snd tokens ! i) (snd ids) fp)) [b..<b + n] =
          map (\<lambda>i. i + b) (takeWhile (\<lambda>i. row_equal (drop b rs ! i) (make_row (snd tokens ! (i + b)) (snd ids) fp)) [0..<n])"
        by (simp add: takeWhile_shift)
      moreover have "takeWhile (\<lambda>i. row_equal (drop b rs ! i) (make_row (snd tokens ! (i + b)) (snd ids) fp)) [0..<n] =
          takeWhile (\<lambda>i. row_equal (drop b rs ! i) (drop b req ! i)) [0..<n]"
        by (rule takeWhile_cong) (use n len in \<open>auto simp: assms(2) request_rows_nth add.commute\<close>)
      moreover have "min (length (drop b rs)) (length (drop b req)) = n" by (simp add: n_def)
      ultimately have tail: "b + length (takeWhile (\<lambda>i. row_equal (drop b rs ! (i - b)) (make_row (snd tokens ! i) (snd ids) fp)) [b..<b + n]) =
          shared_rows rs req"
        using shared_rows_split [OF reach] shared_rows_index [of "drop b rs" "drop b req"] by simp
      show ?thesis
        using True reach le tail same n h(1,2)
        by (simp add: m_def match_history_def Let_def b_def [symmetric] pre hash_rows_checked hash_rows len)
    qed
  qed
  then show "pm_outside m \<longleftrightarrow> shared_rows rs req < tail_begin h" "pm_common m = (if pm_outside m then 0 else shared_rows rs req)"
    "pm_verified m \<longleftrightarrow> \<not> pm_outside m" "pm_verified m \<Longrightarrow> take (tail_begin h) req = take (tail_begin h) rs \<and> tail_begin h \<le> length (snd tokens)"
    by (simp_all add: b_def)
qed


section \<open>Capturing\<close>

definition committed_rows :: "32 word list \<Rightarrow> 32 word list \<Rightarrow> nat \<Rightarrow> token_identity list \<Rightarrow> 64 word \<Rightarrow> row list" where
  "committed_rows prompt emitted committed ids fp = take committed (request_rows (prompt @ emitted) ids fp)"

lemma committed_rows_map:
  assumes "committed \<le> length prompt + length emitted" "a \<le> b" "b \<le> committed"
  shows "map (\<lambda>i. make_row (if i < length prompt then prompt ! i else emitted ! (i - length prompt)) ids fp) [a..<b] =
    drop a (take b (committed_rows prompt emitted committed ids fp))"
  using assms by (intro nth_equalityI) (auto simp: committed_rows_def request_rows_length request_rows_nth nth_append)

lemma committed_rows_facts:
  assumes "committed \<le> length prompt + length emitted"
  shows "length (committed_rows prompt emitted committed ids fp) = committed" "list_all row_ok (committed_rows prompt emitted committed ids fp)"
  using assms request_rows_ok [of "prompt @ emitted" ids fp]
  by (auto simp: committed_rows_def request_rows_def list_all_iff dest: in_set_takeD)

text \<open>A capture whose proof, if it is used, is about the rows the history denotes.\<close>

lemma assign_denotes:
  assumes "denotes h rs" "keep \<noteq> 0" "committed \<le> length (snd prompt) + length emitted"
    and "new = committed_rows (snd prompt) emitted committed (snd ids) fp"
    and "\<And>m st. wit = Some m \<Longrightarrow> proof_holds h prompt ids fp st m \<Longrightarrow> st \<le> committed \<Longrightarrow>
      take (tail_begin h) new = take (tail_begin h) rs"
  shows "\<exists>h'. assign_history h prompt emitted committed ids fp keep wit = Inr h' \<and> denotes h' new \<and> ph_self h' = ph_self h \<and>
    ph_revision h' = u64 (ph_revision h + 1) \<and> length (ph_tail h') = min keep committed \<and>
    assign_history h prompt emitted committed ids fp keep None = Inr h'"
proof -
  define st where "st = (if keep < committed then committed - keep else 0)"
  define row_at where "row_at = (\<lambda>i. make_row (if i < length (snd prompt) then snd prompt ! i else emitted ! (i - length (snd prompt))) (snd ids) fp)"
  define prefix where "prefix = foldl hash_row sha256_new (take st new)"
  define h' where "h' = h\<lparr>ph_tail := drop st new, ph_state := prefix, ph_digest := fst (finish_hex prefix), ph_end := committed,
    ph_revision := u64 (ph_revision h + 1)\<rparr>"
  have cut: "st \<le> committed" "committed - st = min keep committed" using assms(2) by (auto simp: st_def)
  have new: "length new = committed" "list_all row_ok new" using committed_rows_facts [OF assms(3)] by (simp_all add: assms(4))
  have rows: "map row_at [a..<b] = drop a (take b new)" if "a \<le> b" "b \<le> committed" for a b
    unfolding row_at_def assms(4) by (rule committed_rows_map [OF assms(3) that])
  have fresh: "foldl hash_row sha256_new (map row_at [0..<st]) = prefix" using rows [of 0 st] cut by (simp add: prefix_def)
  have reused: "foldl hash_row (ph_state h) (map row_at [tail_begin h..<st]) = prefix"
    if "wit = Some m" "proof_holds h prompt ids fp st m" for m
  proof -
    have le: "tail_begin h \<le> st" using that(2) by (simp add: proof_holds_def)
    have "take st new = take (tail_begin h) new @ drop (tail_begin h) (take st new)"
      using le append_take_drop_id [of "tail_begin h" "take st new"] by (simp add: min_absorb1)
    moreover have "take (tail_begin h) new = take (tail_begin h) rs" by (rule assms(5) [OF that cut(1)])
    moreover have "ph_state h = foldl hash_row sha256_new (take (tail_begin h) rs)" using assms(1) by (simp add: denotes_def)
    ultimately show ?thesis unfolding prefix_def using rows [OF le cut(1)] by (metis foldl_append)
  qed
  have tail: "map row_at [st..<committed] = drop st new" using rows [of st committed] cut new by simp
  have "assign_history h prompt emitted committed ids fp keep wit = Inr h'" "assign_history h prompt emitted committed ids fp keep None = Inr h'"
    using assms(2,3) fresh reused tail
    by (auto simp: assign_history_def Let_def st_def [symmetric] row_at_def [symmetric] h'_def split: option.splits)
  moreover have "committed - min keep committed = st" using cut by simp
  then have "denotes h' new" using new cut by (simp add: denotes_def h'_def tail_begin_def prefix_def)
  moreover have "ph_self h' = ph_self h" "ph_revision h' = u64 (ph_revision h + 1)" "length (ph_tail h') = min keep committed"
    using cut new by (simp_all add: h'_def)
  ultimately show ?thesis by blast
qed


section \<open>Runs\<close>

text \<open>
  The client of the history keeps the latest match beside it (\<open>kvmem_prefix_reuse\<close> resets it and takes a new
  one, \<open>capture_kvmem_warm_history\<close> hands it to \<open>assign\<close>). \<open>wm_seen\<close> and \<open>wm_rows\<close> are not in the code: the
  contents of the vectors at the match, and the rows committed last.
\<close>

record warm =
  wm_history :: prefix_history
  wm_match :: "prefix_match option"
  wm_seen :: "32 word list \<times> token_identity list"
  wm_rows :: "row list"

datatype warm_op = WReset | WMatch "32 word buffer" "token_identity buffer" "64 word" | WClear
  | WAssign "32 word buffer" "32 word list" nat "token_identity buffer" "64 word" nat

definition warm_new :: "nat \<Rightarrow> warm" where
  "warm_new self = \<lparr>wm_history = prefix_history_new self, wm_match = None, wm_seen = ([], []), wm_rows = []\<rparr>"

fun warm_step :: "warm \<Rightarrow> warm_op \<Rightarrow> warm" where
  "warm_step w WReset = w\<lparr>wm_match := None\<rparr>"
| "warm_step w (WMatch tokens ids fp) =
     w\<lparr>wm_match := Some (match_history (wm_history w) tokens ids fp), wm_seen := (snd tokens, snd ids)\<rparr>"
| "warm_step w WClear = w\<lparr>wm_history := history_clear (wm_history w), wm_rows := []\<rparr>"
| "warm_step w (WAssign prompt emitted committed ids fp keep) =
     (case assign_history (wm_history w) prompt emitted committed ids fp keep (wm_match w) of
        Inl _ \<Rightarrow> w
      | Inr h \<Rightarrow> w\<lparr>wm_history := h, wm_rows := committed_rows (snd prompt) emitted committed (snd ids) fp\<rparr>)"

text \<open>
  The contract of \<open>Match\<close> (the vectors remain unchanged until \<open>assign\<close> consumes the proof: at the same
  address, with the same size, are the same contents), and no collision at a match.
\<close>

fun warm_admissible :: "warm \<Rightarrow> warm_op \<Rightarrow> bool" where
  "warm_admissible w (WMatch tokens ids fp) =
     no_collision (take (tail_begin (wm_history w)) (wm_rows w)) (take (tail_begin (wm_history w)) (request_rows (snd tokens) (snd ids) fp))"
| "warm_admissible w (WAssign prompt emitted committed ids fp keep) =
     (case wm_match w of None \<Rightarrow> True
      | Some m \<Rightarrow> (if pm_tokens m = fst prompt \<and> pm_token_count m = length (snd prompt) then snd prompt = fst (wm_seen w) else True) \<and>
          (if pm_identities m = fst ids \<and> pm_identity_count m = length (snd ids) then snd ids = snd (wm_seen w) else True))"
| "warm_admissible w _ = True"

fun warm_run :: "warm \<Rightarrow> warm_op list \<Rightarrow> warm option" where
  "warm_run w [] = Some w"
| "warm_run w (op # ops) = (if warm_admissible w op then warm_run (warm_step w op) ops else None)"

definition warm_ok :: "nat \<Rightarrow> warm \<Rightarrow> bool" where
  "warm_ok n w \<longleftrightarrow> denotes (wm_history w) (wm_rows w) \<and> ph_revision (wm_history w) \<le> n \<and>
     (\<forall>m. wm_match w = Some m \<longrightarrow> pm_revision m \<le> ph_revision (wm_history w) \<and>
        (pm_revision m = ph_revision (wm_history w) \<and> pm_verified m \<longrightarrow>
           tail_begin (wm_history w) \<le> length (fst (wm_seen w)) \<and>
           take (tail_begin (wm_history w)) (request_rows (fst (wm_seen w)) (snd (wm_seen w)) (pm_fingerprint m)) =
             take (tail_begin (wm_history w)) (wm_rows w)))"

lemma denotes_clear: "denotes (history_clear h) []"
  by (simp add: denotes_def history_clear_def tail_begin_def)

lemma warm_new_ok: "warm_ok 1 (warm_new self)"
  by (simp add: warm_ok_def warm_new_def prefix_history_new_def denotes_clear) (simp add: history_clear_def u64_def)

text \<open>A stored match that \<open>assign\<close> accepts is about the current history and the rows to be captured.\<close>

lemma stored_match_sound:
  assumes "warm_ok n w" "warm_admissible w (WAssign prompt emitted committed ids fp keep)"
    and "committed \<le> length (snd prompt) + length emitted" "wm_match w = Some m"
    and "proof_holds (wm_history w) prompt ids fp st m" "st \<le> committed"
  shows "take (tail_begin (wm_history w)) (committed_rows (snd prompt) emitted committed (snd ids) fp) =
    take (tail_begin (wm_history w)) (wm_rows w)"
proof -
  define b where "b = tail_begin (wm_history w)"
  have P: "pm_revision m = ph_revision (wm_history w)" "pm_verified m" "pm_fingerprint m = fp" "b \<le> committed"
      "snd prompt = fst (wm_seen w)" "snd ids = snd (wm_seen w)"
    using assms(2,4,5,6) by (simp_all add: proof_holds_def b_def)
  have seen: "b \<le> length (snd prompt)" "take b (request_rows (snd prompt) (snd ids) fp) = take b (wm_rows w)"
    using assms(1,4) P by (simp_all add: warm_ok_def b_def)
  have "request_rows (snd prompt @ emitted) (snd ids) fp = request_rows (snd prompt) (snd ids) fp @ request_rows emitted (snd ids) fp"
    by (simp add: request_rows_def)
  then have "take b (committed_rows (snd prompt) emitted committed (snd ids) fp) = take b (request_rows (snd prompt) (snd ids) fp)"
    using P(4) seen(1) by (simp add: committed_rows_def min_absorb1 request_rows_length)
  then show ?thesis using seen(2) by (simp add: b_def)
qed

lemma warm_assign:
  assumes "warm_ok n w" "warm_admissible w (WAssign prompt emitted committed ids fp keep)" "keep \<noteq> 0"
    and "committed \<le> length (snd prompt) + length emitted"
  shows "\<exists>h. assign_history (wm_history w) prompt emitted committed ids fp keep (wm_match w) = Inr h \<and>
    denotes h (committed_rows (snd prompt) emitted committed (snd ids) fp) \<and> ph_revision h = u64 (ph_revision (wm_history w) + 1) \<and>
    length (ph_tail h) = min keep committed \<and>
    assign_history (wm_history w) prompt emitted committed ids fp keep None = Inr h"
proof -
  have "denotes (wm_history w) (wm_rows w)" using assms(1) by (simp add: warm_ok_def)
  then have "\<exists>h'. assign_history (wm_history w) prompt emitted committed ids fp keep (wm_match w) = Inr h' \<and>
    denotes h' (committed_rows (snd prompt) emitted committed (snd ids) fp) \<and> ph_self h' = ph_self (wm_history w) \<and>
    ph_revision h' = u64 (ph_revision (wm_history w) + 1) \<and> length (ph_tail h') = min keep committed \<and>
    assign_history (wm_history w) prompt emitted committed ids fp keep None = Inr h'"
    by (rule assign_denotes [OF _ assms(3,4) refl]) (rule stored_match_sound [OF assms(1,2,4)])
  then show ?thesis by blast
qed

lemma warm_step_ok:
  assumes "warm_ok n w" "warm_admissible w op" "n < UINT64_MAX"
  shows "warm_ok (n + 1) (warm_step w op)"
proof (cases op)
  case WReset
  then show ?thesis using assms(1) by (simp add: warm_ok_def)
next
  case (WMatch tokens ids fp)
  have h: "denotes (wm_history w) (wm_rows w)" "ph_revision (wm_history w) \<le> n" using assms(1) by (simp_all add: warm_ok_def)
  note M = match_denotes [OF h(1) refl assms(2) [unfolded WMatch warm_admissible.simps]]
  have "pm_revision (match_history (wm_history w) tokens ids fp) = ph_revision (wm_history w)"
    "pm_fingerprint (match_history (wm_history w) tokens ids fp) = fp"
    by (simp_all add: match_history_def Let_def split: option.splits)
  then show ?thesis using WMatch h M(4) by (simp add: warm_ok_def)
next
  case WClear
  have "ph_revision (history_clear (wm_history w)) = ph_revision (wm_history w) + 1"
    using assms(1,3) by (simp add: warm_ok_def history_clear_def)
  then show ?thesis using WClear assms(1) denotes_clear [of "wm_history w"] by (auto simp: warm_ok_def)
next
  case (WAssign prompt emitted committed ids fp keep)
  show ?thesis
  proof (cases "keep \<noteq> 0 \<and> committed \<le> length (snd prompt) + length emitted")
    case False
    then have "warm_step w op = w" using WAssign by (auto simp: assign_history_def)
    then show ?thesis using assms(1) by (simp add: warm_ok_def)
  next
    case True
    from warm_assign [OF assms(1) assms(2) [unfolded WAssign]] True obtain h where
      h: "assign_history (wm_history w) prompt emitted committed ids fp keep (wm_match w) = Inr h"
        "denotes h (committed_rows (snd prompt) emitted committed (snd ids) fp)" "ph_revision h = u64 (ph_revision (wm_history w) + 1)"
      by blast
    have "ph_revision h = ph_revision (wm_history w) + 1" using h(3) assms(1,3) by (simp add: warm_ok_def)
    then show ?thesis using WAssign h assms(1) by (auto simp: warm_ok_def)
  qed
qed

lemma warm_run_ok:
  "warm_ok n w \<Longrightarrow> warm_run w ops = Some w' \<Longrightarrow> n + length ops \<le> UINT64_MAX \<Longrightarrow> warm_ok (n + length ops) w'"
proof (induction ops arbitrary: n w)
  case (Cons op ops)
  then have "warm_ok (n + 1) (warm_step w op)" by (intro warm_step_ok) (simp_all split: if_splits)
  then show ?case using Cons.IH [of "n + 1" "warm_step w op"] Cons.prems by (simp split: if_splits)
qed simp

text \<open>
  Claim C12. After any run in which the matched vectors stay unchanged and the compared prefixes do not collide: a match
  of any request reports as common exactly the leading rows the request shares with the rows committed last, visual
  identities included, or nothing when they do not reach the retained tail; and a capture that
  accepts the stored proof leaves the very history that hashing its whole transcript would, which keeps the
  last \<open>keep\<close> rows.
\<close>

theorem warm_history_exact:
  assumes "warm_run (warm_new self) ops = Some w" "length ops < UINT64_MAX"
    and "req = request_rows (snd tokens) (snd ids) fp" "m = match_history (wm_history w) tokens ids fp"
    and "no_collision (take (tail_begin (wm_history w)) (wm_rows w)) (take (tail_begin (wm_history w)) req)"
  shows "(pm_outside m \<longleftrightarrow> shared_rows (wm_rows w) req < tail_begin (wm_history w)) \<and>
    pm_common m = (if pm_outside m then 0 else shared_rows (wm_rows w) req) \<and>
    (warm_admissible w (WAssign prompt emitted committed ids' fp' keep) \<longrightarrow>
       assign_history (wm_history w) prompt emitted committed ids' fp' keep (wm_match w) =
         assign_history (wm_history w) prompt emitted committed ids' fp' keep None \<and>
       (keep \<noteq> 0 \<and> committed \<le> length (snd prompt) + length emitted \<longrightarrow>
          (\<exists>h. assign_history (wm_history w) prompt emitted committed ids' fp' keep (wm_match w) = Inr h \<and>
             length (ph_tail h) = min keep committed \<and> ph_end h = committed)))"
proof -
  have ok: "warm_ok (1 + length ops) w" by (rule warm_run_ok [OF warm_new_ok assms(1)]) (use assms(2) in simp)
  then have "denotes (wm_history w) (wm_rows w)" by (simp add: warm_ok_def)
  note M = match_denotes [OF this assms(3,5), folded assms(4)]
  have A: "assign_history (wm_history w) prompt emitted committed ids' fp' keep (wm_match w) =
       assign_history (wm_history w) prompt emitted committed ids' fp' keep None \<and>
     (keep \<noteq> 0 \<and> committed \<le> length (snd prompt) + length emitted \<longrightarrow>
        (\<exists>h. assign_history (wm_history w) prompt emitted committed ids' fp' keep (wm_match w) = Inr h \<and>
           length (ph_tail h) = min keep committed \<and> ph_end h = committed))"
    if "warm_admissible w (WAssign prompt emitted committed ids' fp' keep)"
  proof (cases "keep \<noteq> 0 \<and> committed \<le> length (snd prompt) + length emitted")
    case False
    then show ?thesis by (auto simp: assign_history_def)
  next
    case True
    then have "length (committed_rows (snd prompt) emitted committed (snd ids') fp') = committed" by (simp add: committed_rows_facts)
    then show ?thesis using warm_assign [OF ok that] True by (auto simp: denotes_def)
  qed
  show ?thesis using M(1,2) A by blast
qed


text \<open>Four committed tokens of which two are retained, and a request that shares three.\<close>

definition ex_warm :: warm where
  "ex_warm = warm_step (warm_new 7) (WAssign (1, [1, 2, 3]) [4] 4 (0, []) 0 2)"

lemma ex_warm_facts:
  "warm_run (warm_new 7) [WAssign (1, [1, 2, 3]) [4] 4 (0, []) 0 2] = Some ex_warm"
  "wm_rows ex_warm = request_rows [1, 2, 3, 4] [] 0" "tail_begin (wm_history ex_warm) = 2"
  by (simp_all add: ex_warm_def warm_new_def assign_history_def Let_def committed_rows_def tail_begin_def request_rows_def)

lemma warm_history_exact_witness:
  "pm_common (match_history (wm_history ex_warm) (5, [1, 2, 3, 9]) (0, []) 0) = 3"
proof -
  have rows: "request_rows [1, 2, 3, 4] [] 0 = map (\<lambda>t. make_row t [] 0) [1, 2, 3, 4]"
    "request_rows [1, 2, 3, 9] [] 0 = map (\<lambda>t. make_row t [] 0) [1, 2, 3, 9]" by (simp_all add: request_rows_def)
  have shared: "shared_rows (wm_rows ex_warm) (request_rows [1, 2, 3, 9] [] 0) = 3"
    unfolding ex_warm_facts rows by (simp add: shared_rows_def row_equal_def make_row_def visual_def)
  have "no_collision (take (tail_begin (wm_history ex_warm)) (wm_rows ex_warm))
      (take (tail_begin (wm_history ex_warm)) (request_rows [1, 2, 3, 9] [] 0))"
    unfolding ex_warm_facts rows by (simp add: no_collision_def)
  from warm_history_exact [OF ex_warm_facts(1) _ _ refl, of "request_rows [1, 2, 3, 9] [] 0" "(5, [1, 2, 3, 9])" "(0, [])" 0] this shared
  show ?thesis by (simp add: UINT64_MAX_def ex_warm_facts(3))
qed


lemma bounded_reuse_agrees_witness:
  "shared_rows (request_rows [1, 2] [] 0) (request_rows [1, 3] [] 0) = log_prefix [1, 2] [1, 3] [] [] 0 0"
  using bounded_reuse_agrees [of "[1, 2]" "[]" 0 "[1, 3]" "[]" 0] by simp

end
