(* ===== verification/Sha256_Stream.thy ===== *)
theory Sha256_Stream
  imports Sha256 "HOL-Library.Char_ord"
begin

text \<open>The contract of the stream, and the digest of the standard's first example computed by the model.\<close>

text \<open>
  Claim C13. Whatever the pieces a message is fed in, \<open>update\<close> and the padding loop return, and the digest is that of the
  one-shot hash of the whole message.
\<close>

theorem stream_hash_exact:
  "(\<exists>s. while_option (\<lambda>(s, p). p \<noteq> []) absorb_step (foldl sha256_update sha256_new ps, p) = Some (s, [])) \<and>
   (\<exists>s. while_option (\<lambda>s. sh_buffered s \<noteq> 56) (\<lambda>s. sha256_update s [0]) (sha256_update (foldl sha256_update sha256_new ps) [0x80]) = Some s) \<and>
   fst (finish_hex (foldl sha256_update sha256_new ps)) = sha256_hex (concat ps)"
proof -
  have A: "absorbed (foldl sha256_update sha256_new ps) (concat ps)"
    using updates_absorbed(1) [OF new_absorbed, of ps] by (simp add: sha256_new_def)
  show ?thesis using absorb_loop [OF A] pad_zeros_absorbed [OF update_absorbed(1) [OF A, of "[0x80]"]] hash_streams by blast
qed

lemma compress_abc:
  "compress_all initial_chaining (map (of_nat \<circ> of_char) ''abc'' @ sha_padding 3) =
     (0xba7816bf, 0x8f01cfea, 0x414140de, 0x5dae2223, 0xb00361a3, 0x96177a9c, 0xb410ff61, 0xf20015ad)"
  by code_simp

lemma digest_abc:
  "fst (finish_hex (sha256_update sha256_new (map (of_nat \<circ> of_char) ''abc''))) =
     ''ba7816bf8f01cfea414140de5dae2223b00361a396177a9cb410ff61f20015ad''"
proof -
  have "hex_state (0xba7816bf, 0x8f01cfea, 0x414140de, 0x5dae2223, 0xb00361a3, 0x96177a9c, 0xb410ff61, 0xf20015ad) =
      ''ba7816bf8f01cfea414140de5dae2223b00361a396177a9cb410ff61f20015ad''" by code_simp
  moreover have "fst (finish_hex (sha256_update sha256_new (map (of_nat \<circ> of_char) ''abc''))) = sha256_hex (map (of_nat \<circ> of_char) ''abc'')"
    using hash_streams [of "[map (of_nat \<circ> of_char) ''abc'']"] by (simp only: foldl.simps concat.simps append_Nil2)
  moreover have "length ''abc'' = 3" by simp
  ultimately show ?thesis by (simp only: sha256_hex_def length_map compress_abc)
qed

end
